(* ===== verification/Prelude.thy ===== *)
theory Prelude
  imports Main "HOL-Library.Word"
begin

text \<open>
  Shared vocabulary of the development: the machine types of the C++ sources, the
  status values they return, the collections of rewrite rules the component theories
  extend, and the generic facts on words and lists that several components use.

  A \<open>std::string\<close> and a \<open>Slice\<close> are both the list of bytes they hold (\<open>slice\<close>): the
  components modelled here never compare the addresses of two slices, so the pointer in
  a \<open>Slice\<close> carries no information beyond the bytes it refers to.
\<close>

unbundle bit_operations_syntax

type_synonym byte = "8 word"
type_synonym slice = "byte list"
type_synonym u32 = "32 word"
type_synonym u64 = "64 word"

named_theorems codec_simps \<open>round-trip equations of the byte encodings\<close>
named_theorems len_simps \<open>lengths of encoded values\<close>
named_theorems mem_simps \<open>effects of an operation on the entries of a container\<close>

subsection \<open>Status values (include/leveldb/status.h)\<close>

text \<open>
  \<open>Status\<close> of include/leveldb/status.h: a code and, unless the code is \<open>kOk\<close>, a message.
\<close>

datatype status =
    OK
  | NotFound string
  | Corruption string
  | NotSupported string
  | InvalidArgument string
  | IOError string

definition ok :: "status \<Rightarrow> bool" where
  "ok s \<longleftrightarrow> s = OK"

definition IsNotFound :: "status \<Rightarrow> bool" where
  "IsNotFound s \<longleftrightarrow> (\<exists>m. s = NotFound m)"

lemma ok_simps [simp]:
  "ok OK" "\<not> ok (NotFound m)" "\<not> ok (Corruption m)" "\<not> ok (NotSupported m)"
  "\<not> ok (InvalidArgument m)" "\<not> ok (IOError m)"
  by (simp_all add: ok_def)

lemma IsNotFound_simps [simp, code]:
  "IsNotFound (NotFound m) = True" "IsNotFound OK = False" "IsNotFound (Corruption m) = False"
  "IsNotFound (NotSupported m) = False" "IsNotFound (InvalidArgument m) = False"
  "IsNotFound (IOError m) = False"
  by (simp_all add: IsNotFound_def)

subsection \<open>Words\<close>

text \<open>Reading a word back from its low \<open>s\<close> bits and the \<open>k\<close> bits above them.\<close>

lemma take_bit_chunk:
  "take_bit s (v::'a::len word) OR push_bit s (take_bit k (drop_bit s v)) = take_bit (s + k) v"
  by (rule bit_word_eqI) (auto simp: bit_simps)

lemma take_bit_top:
  "take_bit s (v::'a::len word) OR push_bit s (drop_bit s v) = v"
  by (rule bit_word_eqI) (auto simp: bit_simps intro: ccontr)

lemma unat_drop_bit_div: "unat (drop_bit n (w::'a::len word)) = unat w div 2 ^ n"
  by (simp add: unat_drop_bit_eq drop_bit_nat_def)

lemma drop_bit_drop_bit_word:
  "drop_bit m (drop_bit n (w::'a::len word)) = drop_bit (m + n) w"
  by (simp add: ac_simps)

lemma unat_of_nat_small:
  "n < 2 ^ LENGTH('a) \<Longrightarrow> unat (of_nat n :: 'a::len word) = n"
  by (simp add: unat_of_nat take_bit_nat_eq_self)

text \<open>The numerals the encodings mask with, read as bit sets.\<close>

lemma bit_128_int [simp]: "bit (128::int) n \<longleftrightarrow> n = 7"
  using bit_exp_iff [of 7 n, where 'a = int] by auto

lemma bit_127_int [simp]: "bit (127::int) n \<longleftrightarrow> n < 7"
  using bit_mask_iff [of 7 n, where 'a = int] by (simp add: mask_eq_exp_minus_1)

lemma bit_255_int [simp]: "bit (255::int) n \<longleftrightarrow> n < 8"
  using bit_mask_iff [of 8 n, where 'a = int] by (simp add: mask_eq_exp_minus_1)

lemma unat_ucast_up_u32 [simp]: "unat (ucast (v::u32) :: u64) = unat v"
  using unsigned_less [of v, where 'a = nat] by (simp add: unsigned_ucast_eq take_bit_nat_eq_self)

subsection \<open>Options and lists\<close>

lemma option_eqI: "(\<And>a. x = Some a \<longleftrightarrow> y = Some a) \<Longrightarrow> x = y"
  by (cases x; cases y) auto

lemma take_drop_append_cancel [simp]:
  "length xs = n \<Longrightarrow> take n (xs @ ys) = xs"
  "length xs = n \<Longrightarrow> drop n (xs @ ys) = ys"
  by simp_all

lemma sorted_wrt_nth_mono:
  "sorted_wrt R xs \<Longrightarrow> i < j \<Longrightarrow> j < length xs \<Longrightarrow> R (xs ! i) (xs ! j)"
  by (rule sorted_wrt_nth_less)

end
