(* ===== verification/Coding.thy ===== *)
theory Coding
  imports Prelude
begin

text \<open>
  The endian-neutral encodings of util/coding.h and util/coding.cc: fixed-width integers,
  varints and length-prefixed strings. A \<open>Put\<close> routine appends to a string, a \<open>Get\<close>
  routine consumes a prefix of a slice and fails with \<open>None\<close> where the source returns
  \<open>false\<close> or \<open>NULL\<close>. The pointer pair \<open>p\<close>, \<open>limit\<close> of the pointer variants is the list of
  the bytes in \<open>[p, limit)\<close>.
\<close>

subsection \<open>Fixed-width integers\<close>

text \<open>
  The bytes of a word in the memory of a host: least significant first on a little-endian
  host, most significant first otherwise. This is what \<open>memcpy\<close> from an integer variable
  reads.
\<close>

definition host_bytes :: "bool \<Rightarrow> nat \<Rightarrow> 'a::len word \<Rightarrow> byte list" where
  "host_bytes little n v =
     (let le = map (\<lambda>i. ucast (drop_bit (8 * i) v)) [0..<n] in if little then le else rev le)"

definition EncodeFixed32_on :: "bool \<Rightarrow> u32 \<Rightarrow> byte list" where
  "EncodeFixed32_on kLittleEndian value =
     (if kLittleEndian then host_bytes kLittleEndian 4 value
      else [ucast (value AND 0xff), ucast (drop_bit 8 value AND 0xff),
            ucast (drop_bit 16 value AND 0xff), ucast (drop_bit 24 value AND 0xff)])"

definition EncodeFixed64_on :: "bool \<Rightarrow> u64 \<Rightarrow> byte list" where
  "EncodeFixed64_on kLittleEndian value =
     (if kLittleEndian then host_bytes kLittleEndian 8 value
      else [ucast (value AND 0xff), ucast (drop_bit 8 value AND 0xff),
            ucast (drop_bit 16 value AND 0xff), ucast (drop_bit 24 value AND 0xff),
            ucast (drop_bit 32 value AND 0xff), ucast (drop_bit 40 value AND 0xff),
            ucast (drop_bit 48 value AND 0xff), ucast (drop_bit 56 value AND 0xff)])"

definition EncodeFixed32 :: "u32 \<Rightarrow> byte list" where
  "EncodeFixed32 v = EncodeFixed32_on True v"

definition EncodeFixed64 :: "u64 \<Rightarrow> byte list" where
  "EncodeFixed64 v = EncodeFixed64_on True v"

definition PutFixed32 :: "slice \<Rightarrow> u32 \<Rightarrow> slice" where
  "PutFixed32 dst value = dst @ EncodeFixed32 value"

definition PutFixed64 :: "slice \<Rightarrow> u64 \<Rightarrow> slice" where
  "PutFixed64 dst value = dst @ EncodeFixed64 value"

text \<open>
  The decoders read \<open>ptr[0..3]\<close> and \<open>ptr[0..7]\<close> with no bounds check, so on a shorter
  buffer the source's behaviour is undefined and the value here is unspecified
  (\<open>xs ! i\<close> beyond the end).
\<close>

definition DecodeFixed32 :: "slice \<Rightarrow> u32" where
  "DecodeFixed32 ptr =
     ucast (ptr ! 0) OR push_bit 8 (ucast (ptr ! 1)) OR push_bit 16 (ucast (ptr ! 2))
       OR push_bit 24 (ucast (ptr ! 3))"

definition DecodeFixed64 :: "slice \<Rightarrow> u64" where
  "DecodeFixed64 ptr =
     (let lo = ucast (DecodeFixed32 ptr); hi = ucast (DecodeFixed32 (drop 4 ptr))
      in push_bit 32 hi OR lo)"

subsection \<open>Varints\<close>

definition EncodeVarint32 :: "u32 \<Rightarrow> byte list" where
  "EncodeVarint32 v =
     (if v < 0x80 then [ucast v]
      else if v < 0x4000 then [ucast (v OR 128), ucast (drop_bit 7 v)]
      else if v < 0x200000 then
        [ucast (v OR 128), ucast (drop_bit 7 v OR 128), ucast (drop_bit 14 v)]
      else if v < 0x10000000 then
        [ucast (v OR 128), ucast (drop_bit 7 v OR 128), ucast (drop_bit 14 v OR 128),
         ucast (drop_bit 21 v)]
      else
        [ucast (v OR 128), ucast (drop_bit 7 v OR 128), ucast (drop_bit 14 v OR 128),
         ucast (drop_bit 21 v OR 128), ucast (drop_bit 28 v)])"

definition PutVarint32 :: "slice \<Rightarrow> u32 \<Rightarrow> slice" where
  "PutVarint32 dst v = dst @ EncodeVarint32 v"

function EncodeVarint64 :: "u64 \<Rightarrow> byte list" where
  "EncodeVarint64 v =
     (if v \<ge> 128 then ucast ((v AND 127) OR 128) # EncodeVarint64 (drop_bit 7 v)
      else [ucast v])"
  by pat_completeness auto
termination
  by (relation "measure unat")
    (auto simp: unat_drop_bit_div word_le_nat_alt intro!: div_less_dividend)

declare EncodeVarint64.simps [simp del]

definition PutVarint64 :: "slice \<Rightarrow> u64 \<Rightarrow> slice" where
  "PutVarint64 dst v = dst @ EncodeVarint64 v"

function VarintLength :: "u64 \<Rightarrow> nat" where
  "VarintLength v = (if v \<ge> 128 then Suc (VarintLength (drop_bit 7 v)) else 1)"
  by pat_completeness auto
termination
  by (relation "measure unat")
    (auto simp: unat_drop_bit_div word_le_nat_alt intro!: div_less_dividend)

declare VarintLength.simps [simp del]

text \<open>The \<open>for\<close> loops of the decoders, with \<open>shift\<close> and \<open>result\<close> as loop variables.\<close>

fun GetVarint32PtrFallback_loop :: "nat \<Rightarrow> u32 \<Rightarrow> slice \<Rightarrow> (u32 \<times> slice) option" where
  "GetVarint32PtrFallback_loop shift result [] = None"
| "GetVarint32PtrFallback_loop shift result (b # p) =
     (if shift \<le> 28 then
        let byte = (ucast b :: u32) in
        if byte AND 128 \<noteq> 0 then
          GetVarint32PtrFallback_loop (shift + 7) (result OR push_bit shift (byte AND 127)) p
        else Some (result OR push_bit shift byte, p)
      else None)"

definition GetVarint32PtrFallback :: "slice \<Rightarrow> (u32 \<times> slice) option" where
  "GetVarint32PtrFallback p = GetVarint32PtrFallback_loop 0 0 p"

definition GetVarint32Ptr :: "slice \<Rightarrow> (u32 \<times> slice) option" where
  "GetVarint32Ptr p =
     (case p of
        b # p' \<Rightarrow> let result = (ucast b :: u32) in
                  if result AND 128 = 0 then Some (result, p') else GetVarint32PtrFallback p
      | [] \<Rightarrow> GetVarint32PtrFallback p)"

definition GetVarint32 :: "slice \<Rightarrow> (u32 \<times> slice) option" where
  "GetVarint32 input = GetVarint32Ptr input"

fun GetVarint64Ptr_loop :: "nat \<Rightarrow> u64 \<Rightarrow> slice \<Rightarrow> (u64 \<times> slice) option" where
  "GetVarint64Ptr_loop shift result [] = None"
| "GetVarint64Ptr_loop shift result (b # p) =
     (if shift \<le> 63 then
        let byte = (ucast b :: u64) in
        if byte AND 128 \<noteq> 0 then
          GetVarint64Ptr_loop (shift + 7) (result OR push_bit shift (byte AND 127)) p
        else Some (result OR push_bit shift byte, p)
      else None)"

definition GetVarint64Ptr :: "slice \<Rightarrow> (u64 \<times> slice) option" where
  "GetVarint64Ptr p = GetVarint64Ptr_loop 0 0 p"

definition GetVarint64 :: "slice \<Rightarrow> (u64 \<times> slice) option" where
  "GetVarint64 input = GetVarint64Ptr input"

subsection \<open>Length-prefixed strings\<close>

text \<open>\<open>PutVarint32(dst, value.size())\<close> converts the size to 32 bits, so it wraps at \<open>2\<^sup>3\<^sup>2\<close>.\<close>

definition PutLengthPrefixedSlice :: "slice \<Rightarrow> slice \<Rightarrow> slice" where
  "PutLengthPrefixedSlice dst value = PutVarint32 dst (of_nat (length value)) @ value"

definition GetLengthPrefixedSlice :: "slice \<Rightarrow> (slice \<times> slice) option" where
  "GetLengthPrefixedSlice input =
     (case GetVarint32 input of
        None \<Rightarrow> None
      | Some (len, input') \<Rightarrow>
          if length input' \<ge> unat len then Some (take (unat len) input', drop (unat len) input')
          else None)"

subsection \<open>Prefix codecs\<close>

text \<open>
  The interface every component that stores values in a byte string relies on: an encoder
  whose output the decoder reads back from the front of any longer string. The clients'
  facts (encodings are injective, and no encoding is a proper prefix of another) are
  proved once here.
\<close>

locale prefix_codec =
  fixes enc :: "'a \<Rightarrow> slice"
    and dec :: "slice \<Rightarrow> ('a \<times> slice) option"
    and valid :: "'a \<Rightarrow> bool"
  assumes dec_enc: "valid x \<Longrightarrow> dec (enc x @ rest) = Some (x, rest)"
begin

lemma enc_append_eqD:
  assumes "valid x" "valid y" "enc x @ r = enc y @ r'"
  shows "x = y \<and> r = r'"
proof -
  from assms have "Some (x, r) = Some (y, r')"
    by (metis dec_enc)
  then show ?thesis by simp
qed

lemma enc_inject: "valid x \<Longrightarrow> valid y \<Longrightarrow> enc x = enc y \<longleftrightarrow> x = y"
  using enc_append_eqD [of x y "[]" "[]"] by auto

lemma dec_enc_exact: "valid x \<Longrightarrow> dec (enc x) = Some (x, [])"
  using dec_enc [of x "[]"] by simp

text \<open>A second codec laid out after the first.\<close>

lemma dec_then:
  assumes "valid x"
  shows "(case dec (enc x @ rest) of None \<Rightarrow> n | Some (y, r) \<Rightarrow> k y r) = k x rest"
  using assms by (simp add: dec_enc)

end

subsection \<open>Fixed-width integers: correctness\<close>

lemma length_EncodeFixed [simp, len_simps]:
  "length (EncodeFixed32 v) = 4" "length (EncodeFixed64 w) = 8"
  by (simp_all add: EncodeFixed32_def EncodeFixed32_on_def EncodeFixed64_def EncodeFixed64_on_def
      host_bytes_def)

lemma EncodeFixed32_bytes:
  "EncodeFixed32 v = [ucast v, ucast (drop_bit 8 v), ucast (drop_bit 16 v), ucast (drop_bit 24 v)]"
  by (simp add: EncodeFixed32_def EncodeFixed32_on_def host_bytes_def upt_rec)

lemma EncodeFixed64_bytes:
  "EncodeFixed64 v =
     [ucast v, ucast (drop_bit 8 v), ucast (drop_bit 16 v), ucast (drop_bit 24 v),
      ucast (drop_bit 32 v), ucast (drop_bit 40 v), ucast (drop_bit 48 v), ucast (drop_bit 56 v)]"
  by (simp add: EncodeFixed64_def EncodeFixed64_on_def host_bytes_def upt_rec)

lemma ucast_and_255: "(ucast (x AND 255 :: 'a::len word) :: byte) = ucast x" if "8 \<le> LENGTH('a)"
  using that by (intro bit_word_eqI) (auto simp: bit_simps)

lemma EncodeFixed32_host: "EncodeFixed32_on le v = EncodeFixed32 v"
  by (simp add: EncodeFixed32_bytes) (simp add: EncodeFixed32_on_def host_bytes_def upt_rec
      ucast_and_255)

lemma EncodeFixed64_host: "EncodeFixed64_on le v = EncodeFixed64 v"
  by (simp add: EncodeFixed64_bytes) (simp add: EncodeFixed64_on_def host_bytes_def upt_rec
      ucast_and_255)

lemma ucast_chunk:
  "ucast (ucast (drop_bit s (v::'a::len word)) :: byte) = take_bit 8 (drop_bit s v)"
  by (rule bit_word_eqI) (auto simp: bit_simps)

lemma ucast_chunk0: "ucast (ucast (v::'a::len word) :: byte) = take_bit 8 v"
  using ucast_chunk [of 0 v] by simp

lemma DecodeFixed32_EncodeFixed32 [simp, codec_simps]:
  "DecodeFixed32 (EncodeFixed32 v @ rest) = v"
proof -
  have "DecodeFixed32 (EncodeFixed32 v @ rest) =
      ((take_bit 8 v OR push_bit 8 (take_bit 8 (drop_bit 8 v)))
        OR push_bit 16 (take_bit 8 (drop_bit 16 v))) OR push_bit 24 (take_bit 8 (drop_bit 24 v))"
    by (simp add: DecodeFixed32_def EncodeFixed32_bytes ucast_chunk ucast_chunk0 or.assoc
        numeral_eq_Suc)
  also have "\<dots> = take_bit 32 v"
    by (simp add: take_bit_chunk)
  finally show ?thesis
    by (simp add: take_bit_word_eq_self)
qed

lemma DecodeFixed32_exact [simp, codec_simps]: "DecodeFixed32 (EncodeFixed32 v) = v"
  using DecodeFixed32_EncodeFixed32 [of v "[]"] by simp

lemma EncodeFixed64_halves:
  "EncodeFixed64 v = EncodeFixed32 (ucast v) @ EncodeFixed32 (ucast (drop_bit 32 v))"
proof -
  have lo: "(ucast (drop_bit k (ucast v :: u32)) :: byte) = ucast (drop_bit k v)" if "k \<le> 24" for k
    using that by (intro bit_word_eqI) (auto simp: bit_simps)
  have hi: "(ucast (drop_bit k (ucast (drop_bit 32 v) :: u32)) :: byte) = ucast (drop_bit (k + 32) v)"
    if "k \<le> 24" for k
    using that by (intro bit_word_eqI) (auto simp: bit_simps ac_simps)
  from lo [of 0] lo [of 8] lo [of 16] lo [of 24] hi [of 0] hi [of 8] hi [of 16] hi [of 24]
  show ?thesis by (simp add: EncodeFixed64_bytes EncodeFixed32_bytes)
qed

lemma DecodeFixed64_EncodeFixed64 [simp, codec_simps]:
  "DecodeFixed64 (EncodeFixed64 v @ rest) = v"
proof -
  have "DecodeFixed64 (EncodeFixed64 v @ rest) =
      push_bit 32 (ucast (ucast (drop_bit 32 v) :: u32)) OR ucast (ucast v :: u32)"
    by (simp add: DecodeFixed64_def EncodeFixed64_halves)
  also have "\<dots> = v"
    by (rule bit_word_eqI) (auto simp: bit_simps not_less intro: ccontr)
  finally show ?thesis .
qed

lemma DecodeFixed64_exact [simp, codec_simps]: "DecodeFixed64 (EncodeFixed64 v) = v"
  using DecodeFixed64_EncodeFixed64 [of v "[]"] by simp

lemma EncodeFixed32_DecodeFixed32:
  assumes "length bs = 4"
  shows "EncodeFixed32 (DecodeFixed32 bs) = bs"
proof -
  from assms obtain a b c d where bs: "bs = [a, b, c, d]"
    by (auto simp: numeral_eq_Suc length_Suc_conv)
  have dec: "DecodeFixed32 bs =
      ucast a OR push_bit 8 (ucast b) OR push_bit 16 (ucast c) OR push_bit 24 (ucast d)"
    by (simp add: bs DecodeFixed32_def numeral_2_eq_2 numeral_3_eq_3)
  have "(ucast (DecodeFixed32 bs) :: byte) = a"
    "(ucast (drop_bit 8 (DecodeFixed32 bs)) :: byte) = b"
    "(ucast (drop_bit 16 (DecodeFixed32 bs)) :: byte) = c"
    "(ucast (drop_bit 24 (DecodeFixed32 bs)) :: byte) = d"
    by (rule bit_word_eqI, use bit_imp_le_length [where 'a = 8] in \<open>fastforce simp: dec bit_simps\<close>)+
  then show ?thesis by (simp add: EncodeFixed32_bytes bs)
qed

lemma EncodeFixed64_DecodeFixed64:
  assumes "length bs = 8"
  shows "EncodeFixed64 (DecodeFixed64 bs) = bs"
proof -
  have *: "ucast (push_bit 32 (ucast (h::u32) :: u64) OR ucast (l::u32)) = l" for h l
    by (rule bit_word_eqI) (auto simp: bit_simps)
  have **: "ucast (drop_bit 32 (push_bit 32 (ucast (h::u32) :: u64) OR ucast (l::u32))) = h" for h l
    by (rule bit_word_eqI) (use bit_imp_le_length [of l] in \<open>fastforce simp: bit_simps\<close>)
  have "EncodeFixed64 (DecodeFixed64 bs) =
      EncodeFixed32 (DecodeFixed32 bs) @ EncodeFixed32 (DecodeFixed32 (drop 4 bs))"
    by (simp only: EncodeFixed64_halves DecodeFixed64_def Let_def * **)
  also have "DecodeFixed32 bs = DecodeFixed32 (take 4 bs)"
    using assms by (simp add: DecodeFixed32_def)
  finally show ?thesis
    using assms EncodeFixed32_DecodeFixed32 [of "take 4 bs"]
      EncodeFixed32_DecodeFixed32 [of "drop 4 bs"] by simp
qed

lemma EncodeFixed_Decode_take:
  "4 \<le> length bs \<Longrightarrow> EncodeFixed32 (DecodeFixed32 bs) = take 4 bs"
  "8 \<le> length bs \<Longrightarrow> EncodeFixed64 (DecodeFixed64 bs) = take 8 bs"
proof -
  show "EncodeFixed32 (DecodeFixed32 bs) = take 4 bs" if "4 \<le> length bs"
    using EncodeFixed32_DecodeFixed32 [of "take 4 bs"] that by (simp add: DecodeFixed32_def)
  show "EncodeFixed64 (DecodeFixed64 bs) = take 8 bs" if "8 \<le> length bs"
    using EncodeFixed64_DecodeFixed64 [of "take 8 bs"] that
    by (simp add: DecodeFixed64_def DecodeFixed32_def)
qed

subsection \<open>Varints: correctness\<close>

lemma cont_byte:
  assumes "8 \<le> LENGTH('a::len)"
  shows "(ucast ((x AND 127) OR 128 :: 'a word) :: byte) = ucast x OR 128"
    and "(ucast (x OR 128 :: 'a word) :: byte) = ucast x OR 128"
    and "(ucast (x AND 127 :: 'a word) :: byte) OR 128 = ucast x OR 128"
  using assms by (auto intro!: bit_word_eqI simp: bit_simps)

lemma cont_byte_payload:
  "(ucast (ucast (x::'a::len word) OR 128 :: byte) :: 'b::len word) AND 127 = ucast (take_bit 7 x)"
  by (rule bit_word_eqI) (auto simp: bit_simps)

lemma cont_byte_flag:
  assumes "8 \<le> LENGTH('b::len)"
  shows "(ucast (ucast (x::'a::len word) OR 128 :: byte) :: 'b word) AND 128 \<noteq> 0"
proof -
  have "bit ((ucast (ucast x OR 128 :: byte) :: 'b word) AND 128) 7"
    using assms by (auto simp: bit_simps)
  then show ?thesis by auto
qed

lemma less_128_bit:
  assumes "(x::'a::len word) < 128" "8 \<le> LENGTH('a)" "bit x n"
  shows "n < 7"
proof -
  have "(128::nat) < 2 ^ LENGTH('a)"
    using power_increasing [OF assms(2), of "2::nat"] by simp
  with assms(1) have "unat x < 2 ^ 7"
    by (simp add: word_less_nat_alt take_bit_nat_eq_self)
  then have "take_bit 7 (unat x) = unat x"
    by (simp add: take_bit_nat_eq_self_iff)
  moreover have "bit (unat x) n"
    using assms(3) by (simp add: bit_unsigned_iff)
  ultimately show ?thesis by (metis bit_take_bit_iff)
qed

lemma last_byte:
  assumes "(x::'a::len word) < 128" "8 \<le> LENGTH('a)"
  shows "(ucast (ucast x :: byte) :: 'a word) = x" and "x AND 128 = 0"
  using assms by (auto intro!: bit_word_eqI simp: bit_simps dest!: less_128_bit)

lemma drop_bit_up: "drop_bit k (ucast (v::u32) :: u64) = ucast (drop_bit k v)"
  by (rule bit_word_eqI) (auto simp: bit_simps dest: bit_imp_le_length)

lemma ucast_up_byte: "ucast (ucast (x::u32) :: u64) = (ucast x :: byte)"
  by (rule bit_word_eqI) (auto simp: bit_simps)

lemma le_128_drop_bit:
  "128 \<le> (w::u64) \<longleftrightarrow> 128 \<le> unat w"
  "128 \<le> unat (drop_bit k (x::'a::len word)) \<longleftrightarrow> 128 * 2 ^ k \<le> unat x"
  by (simp_all add: word_le_nat_alt unat_drop_bit_div less_eq_div_iff_mult_less_eq)

text \<open>The unrolled 32-bit encoder writes what the loop of the 64-bit encoder writes.\<close>

lemma EncodeVarint32_eq_64: "EncodeVarint32 v = EncodeVarint64 (ucast v)"
proof -
  note unroll = EncodeVarint64.simps [of "ucast (x::u32)" for x]
  show ?thesis
    using unsigned_less [of v, where 'a = nat]
    by (simp add: EncodeVarint32_def unroll drop_bit_up le_128_drop_bit cont_byte ucast_up_byte
        word_less_nat_alt drop_bit_drop_bit_word)
qed

lemma GetVarint32PtrFallback_loop_enc:
  "s \<le> 28 \<Longrightarrow> s mod 7 = 0 \<Longrightarrow>
   GetVarint32PtrFallback_loop s (take_bit s v) (EncodeVarint64 (ucast (drop_bit s v)) @ rest)
     = Some (v, rest)"
proof (induction "ucast (drop_bit s v) :: u64" arbitrary: s rule: EncodeVarint64.induct)
  case 1
  let ?w = "ucast (drop_bit s v) :: u64"
  show ?case
  proof (cases "128 \<le> ?w")
    case True
    then have "128 * 2 ^ s \<le> unat v" by (simp add: le_128_drop_bit)
    then have "s \<noteq> 28" using unsigned_less [of v, where 'a = nat] by auto
    with "1.prems" have s: "s + 7 \<le> 28" "(s + 7) mod 7 = 0" by presburger+
    have "drop_bit 7 ?w = ucast (drop_bit (s + 7) v)"
      by (simp add: drop_bit_up drop_bit_drop_bit_word ac_simps)
    with "1.hyps" [OF True _ s] True "1.prems" show ?thesis
      by (subst EncodeVarint64.simps)
        (simp add: Let_def cont_byte ucast_up_byte cont_byte_flag cont_byte_payload take_bit_chunk)
  next
    case False
    then have "drop_bit s v < 128"
      by (simp add: word_le_nat_alt word_less_nat_alt)
    with "1.prems" False show ?thesis
      by (subst EncodeVarint64.simps)
        (simp add: Let_def ucast_up_byte last_byte take_bit_top)
  qed
qed

lemma GetVarint64Ptr_loop_enc:
  "s \<le> 63 \<Longrightarrow> s mod 7 = 0 \<Longrightarrow>
   GetVarint64Ptr_loop s (take_bit s v) (EncodeVarint64 (drop_bit s v) @ rest) = Some (v, rest)"
proof (induction "drop_bit s v" arbitrary: s rule: EncodeVarint64.induct)
  case 1
  let ?w = "drop_bit s v"
  show ?case
  proof (cases "128 \<le> ?w")
    case True
    then have "128 * 2 ^ s \<le> unat v" by (simp add: le_128_drop_bit)
    then have "s \<noteq> 63" using unsigned_less [of v, where 'a = nat] by auto
    with "1.prems" have s: "s + 7 \<le> 63" "(s + 7) mod 7 = 0" by presburger+
    have "drop_bit 7 ?w = drop_bit (s + 7) v"
      by (simp add: drop_bit_drop_bit_word ac_simps)
    with "1.hyps" [OF True _ s] True "1.prems" show ?thesis
      by (subst EncodeVarint64.simps)
        (simp add: Let_def cont_byte cont_byte_flag cont_byte_payload take_bit_chunk)
  next
    case False
    with "1.prems" show ?thesis
      by (subst EncodeVarint64.simps) (simp add: Let_def last_byte take_bit_top)
  qed
qed

text \<open>The one-byte fast path of \<open>GetVarint32Ptr\<close> agrees with the loop it short-cuts.\<close>

lemma GetVarint32Ptr_eq_fallback: "GetVarint32Ptr p = GetVarint32PtrFallback p"
  by (auto simp: GetVarint32Ptr_def GetVarint32PtrFallback_def Let_def split: list.splits)

lemma GetVarint32_Encode [simp, codec_simps]:
  "GetVarint32 (EncodeVarint32 v @ rest) = Some (v, rest)"
  using GetVarint32PtrFallback_loop_enc [of 0 v rest]
  by (simp add: GetVarint32_def GetVarint32Ptr_eq_fallback GetVarint32PtrFallback_def
      EncodeVarint32_eq_64)

lemma GetVarint64_Encode [simp, codec_simps]:
  "GetVarint64 (EncodeVarint64 v @ rest) = Some (v, rest)"
  using GetVarint64Ptr_loop_enc [of 0 v rest]
  by (simp add: GetVarint64_def GetVarint64Ptr_def)

interpretation varint32: prefix_codec EncodeVarint32 GetVarint32 "\<lambda>_. True"
  by unfold_locales simp

interpretation varint64: prefix_codec EncodeVarint64 GetVarint64 "\<lambda>_. True"
  by unfold_locales simp

lemma VarintLength_correct [len_simps]: "VarintLength v = length (EncodeVarint64 v)"
  by (induction v rule: VarintLength.induct)
    (simp add: VarintLength.simps EncodeVarint64.simps)

text \<open>A decoder consumes a non-empty prefix of at most five (ten) bytes.\<close>

lemma GetVarint32PtrFallback_loop_prefix:
  "GetVarint32PtrFallback_loop s r p = Some (v, rest) \<Longrightarrow>
   \<exists>pre. p = pre @ rest \<and> pre \<noteq> [] \<and> 7 * length pre + s \<le> 35"
proof (induction s r p rule: GetVarint32PtrFallback_loop.induct)
  case (2 s r b p)
  show ?case
  proof (cases "(ucast b :: u32) AND 128 \<noteq> 0")
    case True
    with 2 obtain pre where "p = pre @ rest" "pre \<noteq> []" "7 * length pre + (s + 7) \<le> 35"
      by (auto simp: Let_def split: if_splits)
    then show ?thesis by (intro exI [of _ "b # pre"]) simp
  next
    case False
    with 2 show ?thesis by (intro exI [of _ "[b]"]) (auto simp: Let_def split: if_splits)
  qed
qed simp

lemma GetVarint64Ptr_loop_prefix:
  "GetVarint64Ptr_loop s r p = Some (v, rest) \<Longrightarrow>
   \<exists>pre. p = pre @ rest \<and> pre \<noteq> [] \<and> 7 * length pre + s \<le> 70"
proof (induction s r p rule: GetVarint64Ptr_loop.induct)
  case (2 s r b p)
  show ?case
  proof (cases "(ucast b :: u64) AND 128 \<noteq> 0")
    case True
    with 2 obtain pre where "p = pre @ rest" "pre \<noteq> []" "7 * length pre + (s + 7) \<le> 70"
      by (auto simp: Let_def split: if_splits)
    then show ?thesis by (intro exI [of _ "b # pre"]) simp
  next
    case False
    with 2 show ?thesis by (intro exI [of _ "[b]"]) (auto simp: Let_def split: if_splits)
  qed
qed simp

lemma GetVarint32_prefix:
  assumes "GetVarint32 p = Some (v, rest)"
  shows "\<exists>pre. p = pre @ rest \<and> 1 \<le> length pre \<and> length pre \<le> 5"
proof -
  from assms have "GetVarint32PtrFallback_loop 0 0 p = Some (v, rest)"
    by (simp add: GetVarint32_def GetVarint32Ptr_eq_fallback GetVarint32PtrFallback_def)
  from GetVarint32PtrFallback_loop_prefix [OF this] show ?thesis
    by (auto simp: Suc_le_eq)
qed

lemma GetVarint64_prefix:
  assumes "GetVarint64 p = Some (v, rest)"
  shows "\<exists>pre. p = pre @ rest \<and> 1 \<le> length pre \<and> length pre \<le> 10"
proof -
  from assms have "GetVarint64Ptr_loop 0 0 p = Some (v, rest)"
    by (simp add: GetVarint64_def GetVarint64Ptr_def)
  from GetVarint64Ptr_loop_prefix [OF this] show ?thesis
    by (auto simp: Suc_le_eq)
qed

lemma length_EncodeVarint [len_simps]:
  "1 \<le> length (EncodeVarint64 w)" "length (EncodeVarint64 w) \<le> 10"
  "1 \<le> length (EncodeVarint32 v)" "length (EncodeVarint32 v) \<le> 5"
  using GetVarint64_prefix [OF GetVarint64_Encode [of w "[]"]]
    GetVarint32_prefix [OF GetVarint32_Encode [of v "[]"]] by auto

lemma Get_shorter [dest]:
  "GetVarint32 p = Some (v, r) \<Longrightarrow> length r < length p"
  "GetVarint64 p = Some (w, r) \<Longrightarrow> length r < length p"
  using GetVarint32_prefix [of p v r] GetVarint64_prefix [of p w r] by auto

subsection \<open>Length-prefixed strings: correctness\<close>

definition fits32 :: "slice \<Rightarrow> bool" where
  "fits32 s \<longleftrightarrow> length s < 2 ^ 32"

lemma GetLengthPrefixedSlice_Put [simp, codec_simps]:
  assumes "fits32 s"
  shows "GetLengthPrefixedSlice (PutLengthPrefixedSlice [] s @ rest) = Some (s, rest)"
proof -
  have "unat (of_nat (length s) :: u32) = length s"
    using assms by (intro unat_of_nat_small) (simp add: fits32_def)
  then show ?thesis
    by (simp add: PutLengthPrefixedSlice_def PutVarint32_def GetLengthPrefixedSlice_def)
qed

interpretation lenprefix: prefix_codec "PutLengthPrefixedSlice []" GetLengthPrefixedSlice fits32
  by unfold_locales simp

lemma PutLengthPrefixedSlice_append:
  "PutLengthPrefixedSlice dst s = dst @ PutLengthPrefixedSlice [] s"
  by (simp add: PutLengthPrefixedSlice_def PutVarint32_def)

lemma GetLengthPrefixedSlice_shorter [dest]:
  "GetLengthPrefixedSlice p = Some (s, r) \<Longrightarrow> length r < length p"
  by (fastforce simp: GetLengthPrefixedSlice_def split: option.splits if_splits
      dest: Get_shorter(1))

lemma GetLengthPrefixedSlice_prefix:
  assumes "GetLengthPrefixedSlice p = Some (s, r)"
  shows "\<exists>hdr. p = hdr @ s @ r \<and> 1 \<le> length hdr \<and> length hdr \<le> 5"
proof -
  from assms obtain len q where g: "GetVarint32 p = Some (len, q)"
    and s: "s = take (unat len) q" and r: "r = drop (unat len) q"
    by (auto simp: GetLengthPrefixedSlice_def split: option.splits if_splits)
  from GetVarint32_prefix [OF g] obtain pre where "p = pre @ q" "1 \<le> length pre" "length pre \<le> 5"
    by blast
  with s r show ?thesis by (intro exI [of _ pre]) simp
qed

subsection \<open>Truncated encodings\<close>

text \<open>
  A decoder that looks only at the bytes it consumes: it then gives the same result on every
  longer string, so it rejects every proper prefix of an encoding.
\<close>

locale extensible_codec = prefix_codec +
  assumes dec_extend: "dec p = Some (x, r) \<Longrightarrow> dec (p @ q) = Some (x, r @ q)"
begin

lemma dec_truncated:
  assumes "valid x" "n < length (enc x)"
  shows "dec (take n (enc x)) = None"
proof (rule ccontr)
  assume "dec (take n (enc x)) \<noteq> None"
  then obtain y r where "dec (take n (enc x)) = Some (y, r)" by auto
  from dec_extend [OF this, of "drop n (enc x)"] dec_enc_exact [OF assms(1)]
  show False using assms(2) by simp
qed

end

lemma GetVarint32PtrFallback_loop_extend:
  "GetVarint32PtrFallback_loop s r p = Some (v, rest) \<Longrightarrow> GetVarint32PtrFallback_loop s r (p @ q) = Some (v, rest @ q)"
  by (induction s r p rule: GetVarint32PtrFallback_loop.induct) (auto simp: Let_def split: if_splits)

lemma GetVarint64Ptr_loop_extend:
  "GetVarint64Ptr_loop s r p = Some (v, rest) \<Longrightarrow> GetVarint64Ptr_loop s r (p @ q) = Some (v, rest @ q)"
  by (induction s r p rule: GetVarint64Ptr_loop.induct) (auto simp: Let_def split: if_splits)

lemma GetVarint32_extend: "GetVarint32 p = Some (v, r) \<Longrightarrow> GetVarint32 (p @ q) = Some (v, r @ q)"
  by (simp add: GetVarint32_def GetVarint32Ptr_eq_fallback GetVarint32PtrFallback_def
      GetVarint32PtrFallback_loop_extend)

interpretation varint32_ext: extensible_codec EncodeVarint32 GetVarint32 "\<lambda>_. True"
  by unfold_locales (rule GetVarint32_extend)

interpretation varint64_ext: extensible_codec EncodeVarint64 GetVarint64 "\<lambda>_. True"
  by unfold_locales (simp add: GetVarint64_def GetVarint64Ptr_def GetVarint64Ptr_loop_extend)

interpretation lenprefix_ext: extensible_codec "PutLengthPrefixedSlice []" GetLengthPrefixedSlice fits32
proof unfold_locales
  fix p q s r assume "GetLengthPrefixedSlice p = Some (s, r)"
  then obtain len p' where "GetVarint32 p = Some (len, p')" "unat len \<le> length p'" "s = take (unat len) p'"
    "r = drop (unat len) p'"
    by (auto simp: GetLengthPrefixedSlice_def split: option.splits if_splits)
  then show "GetLengthPrefixedSlice (p @ q) = Some (s, r @ q)"
    using GetVarint32_extend [of p len p' q] by (simp add: GetLengthPrefixedSlice_def)
qed

subsection \<open>Arrays of fixed-width integers\<close>

lemma foldl_PutFixed32: "foldl PutFixed32 buf ws = buf @ concat (map EncodeFixed32 ws)"
  by (induction ws arbitrary: buf) (simp_all add: PutFixed32_def)

lemma length_concat_EncodeFixed32: "length (concat (map EncodeFixed32 ws)) = 4 * length ws"
  by (induction ws) simp_all

lemma drop_concat_EncodeFixed32:
  "j < length ws \<Longrightarrow> drop (j * 4) (concat (map EncodeFixed32 ws) @ rest) =
     EncodeFixed32 (ws ! j) @ concat (map EncodeFixed32 (drop (Suc j) ws)) @ rest"
proof (induction ws arbitrary: j)
  case (Cons w ws)
  then show ?case by (cases j) simp_all
qed simp

lemma unat_diff_of_nat:
  assumes "q \<le> p" "p < 2 ^ 32"
  shows "unat (of_nat p - of_nat q :: u32) = p - q"
proof -
  have "of_nat p - of_nat q = (of_nat (p - q) :: u32)" using assms(1) by (simp add: of_nat_diff)
  moreover have "p - q < 2 ^ LENGTH(32)" using assms by simp
  ultimately show ?thesis using unat_of_nat_small [of "p - q", where 'a = 32] by simp
qed

end
