(* ===== verification/Comparator.thy ===== *)
theory Comparator
  imports Coding "HOL-Library.List_Lexorder"
begin

text \<open>
  \<open>Slice\<close> of include/leveldb/slice.h and the bytewise comparator of util/comparator.cc.
  The three-way comparisons return a negative number, zero or a positive number, as in the
  source; the theory shows that they decide the lexicographic order on byte strings, states
  what clients may assume of a comparator as locales, and shows that the key-shortening
  routines stay within the bounds the table index relies on.
\<close>

subsection \<open>Slice\<close>

text \<open>\<open>memcmp\<close> of the C library on the first \<open>n\<close> bytes (as unsigned characters).\<close>

fun memcmp :: "slice \<Rightarrow> slice \<Rightarrow> nat \<Rightarrow> int" where
  "memcmp (x # a) (y # b) (Suc n) =
     (if x < y then -1 else if y < x then 1 else memcmp a b n)"
| "memcmp _ _ _ = 0"

definition Slice_compare :: "slice \<Rightarrow> slice \<Rightarrow> int" where
  "Slice_compare a b =
     (let min_len = (if length a < length b then length a else length b);
          r = memcmp a b min_len
      in if r = 0 then
           if length a < length b then -1 else if length a > length b then 1 else r
         else r)"

definition starts_with :: "slice \<Rightarrow> slice \<Rightarrow> bool" where
  "starts_with s x \<longleftrightarrow> length s \<ge> length x \<and> memcmp s x (length x) = 0"

definition Slice_eq :: "slice \<Rightarrow> slice \<Rightarrow> bool" where
  "Slice_eq x y \<longleftrightarrow> length x = length y \<and> memcmp x y (length x) = 0"

definition remove_prefix :: "nat \<Rightarrow> slice \<Rightarrow> slice" where
  "remove_prefix n s = drop n s"

lemma memcmp_Nil [simp]: "memcmp [] b n = 0" "memcmp a [] n = 0"
  by (cases b; cases n; simp) (cases a; simp)

lemma memcmp_zero_iff:
  "n \<le> length a \<Longrightarrow> n \<le> length b \<Longrightarrow> memcmp a b n = 0 \<longleftrightarrow> take n a = take n b"
  by (induction a b n rule: memcmp.induct) (auto simp: not_less le_Suc_eq)

lemma starts_with_iff: "starts_with s x \<longleftrightarrow> (\<exists>t. s = x @ t)"
proof
  assume "starts_with s x"
  then have "take (length x) s = x"
    by (auto simp: starts_with_def memcmp_zero_iff)
  then show "\<exists>t. s = x @ t" by (metis append_take_drop_id)
qed (auto simp: starts_with_def memcmp_zero_iff)

lemma Slice_eq_iff: "Slice_eq x y \<longleftrightarrow> x = y"
  by (auto simp: Slice_eq_def memcmp_zero_iff)

lemma Slice_compare_Cons:
  "Slice_compare (x # a) (y # b) = (if x < y then -1 else if y < x then 1 else Slice_compare a b)"
  by (auto simp: Slice_compare_def Let_def)

lemma Slice_compare_Nil:
  "Slice_compare [] [] = 0" "Slice_compare [] (y # b) = -1" "Slice_compare (x # a) [] = 1"
  by (simp_all add: Slice_compare_def)

theorem Slice_compare_lex:
  "Slice_compare a b = (if a < b then -1 else if a = b then 0 else 1)"
proof (induction a arbitrary: b)
  case Nil
  then show ?case by (cases b) (simp_all add: Slice_compare_Nil)
next
  case (Cons x a)
  then show ?case
    by (cases b) (auto simp: Slice_compare_Nil Slice_compare_Cons)
qed

subsection \<open>What a client assumes of a comparator\<close>

text \<open>
  The contract of include/leveldb/comparator.h: \<open>Compare\<close> is a three-way comparison for a
  total order of the well-formed keys. The block, table and version code calls \<open>Compare\<close>
  only on keys that satisfy \<open>wf\<close> (for internal keys: at least eight bytes long).
\<close>

locale comparator =
  fixes Compare :: "slice \<Rightarrow> slice \<Rightarrow> int" and wf :: "slice \<Rightarrow> bool"
  assumes cmp_zero: "wf a \<Longrightarrow> wf b \<Longrightarrow> Compare a b = 0 \<longleftrightarrow> a = b"
    and cmp_swap: "wf a \<Longrightarrow> wf b \<Longrightarrow> Compare a b < 0 \<longleftrightarrow> Compare b a > 0"
    and cmp_trans: "wf a \<Longrightarrow> wf b \<Longrightarrow> wf c \<Longrightarrow> Compare a b < 0 \<Longrightarrow> Compare b c < 0 \<Longrightarrow> Compare a c < 0"
begin

lemma cmp_refl: "wf a \<Longrightarrow> Compare a a = 0"
  by (simp add: cmp_zero)

lemma cmp_total: "wf a \<Longrightarrow> wf b \<Longrightarrow> Compare a b < 0 \<or> a = b \<or> Compare b a < 0"
  using cmp_zero [of a b] cmp_swap [of b a] by linarith

lemma cmp_le_trans:
  "wf a \<Longrightarrow> wf b \<Longrightarrow> wf c \<Longrightarrow> Compare a b \<le> 0 \<Longrightarrow> Compare b c \<le> 0 \<Longrightarrow> Compare a c \<le> 0"
  using cmp_trans [of a b c] cmp_zero [of a b] cmp_zero [of b c] by force

lemma cmp_le_less_trans:
  "wf a \<Longrightarrow> wf b \<Longrightarrow> wf c \<Longrightarrow> Compare a b \<le> 0 \<Longrightarrow> Compare b c < 0 \<Longrightarrow> Compare a c < 0"
  using cmp_trans [of a b c] cmp_zero [of a b] by force

lemma cmp_less_le_trans:
  "wf a \<Longrightarrow> wf b \<Longrightarrow> wf c \<Longrightarrow> Compare a b < 0 \<Longrightarrow> Compare b c \<le> 0 \<Longrightarrow> Compare a c < 0"
  using cmp_trans [of a b c] cmp_zero [of b c] by force

lemma cmp_not_less: "wf a \<Longrightarrow> wf b \<Longrightarrow> \<not> Compare a b < 0 \<longleftrightarrow> Compare b a \<le> 0"
  using cmp_swap [of a b] by linarith

end

text \<open>
  The comparators a table is built with also shorten keys: a separator between two data
  blocks and a successor of the last key.
\<close>

locale shortening_comparator = comparator +
  fixes FindShortestSeparator :: "slice \<Rightarrow> slice \<Rightarrow> slice"
    and FindShortSuccessor :: "slice \<Rightarrow> slice"
  assumes separator_wf: "wf start \<Longrightarrow> wf limit \<Longrightarrow> wf (FindShortestSeparator start limit)"
    and separator_ge: "wf start \<Longrightarrow> wf limit \<Longrightarrow> Compare start (FindShortestSeparator start limit) \<le> 0"
    and separator_less: "wf start \<Longrightarrow> wf limit \<Longrightarrow> Compare start limit < 0 \<Longrightarrow>
           Compare (FindShortestSeparator start limit) limit < 0"
    and successor_wf: "wf key \<Longrightarrow> wf (FindShortSuccessor key)"
    and successor_ge: "wf key \<Longrightarrow> Compare key (FindShortSuccessor key) \<le> 0"
begin

text \<open>
  The index key written between two blocks separates them: every key up to \<open>start\<close> is at or
  before it, every key from \<open>limit\<close> on is strictly after it.
\<close>

lemma separator_separates:
  assumes "wf k" "wf start" "wf limit" "Compare start limit < 0"
  shows "Compare k start \<le> 0 \<Longrightarrow> Compare k (FindShortestSeparator start limit) \<le> 0"
    and "Compare limit k \<le> 0 \<Longrightarrow> Compare (FindShortestSeparator start limit) k < 0"
proof -
  note wf = assms(1-3) separator_wf [OF assms(2,3)]
  show "Compare k start \<le> 0 \<Longrightarrow> Compare k (FindShortestSeparator start limit) \<le> 0"
    using cmp_le_trans [OF wf(1,2,4)] separator_ge [OF wf(2,3)] by blast
  show "Compare limit k \<le> 0 \<Longrightarrow> Compare (FindShortestSeparator start limit) k < 0"
    using cmp_less_le_trans [OF wf(4,3,1)] separator_less [OF wf(2,3) assms(4)] by blast
qed

end

subsection \<open>BytewiseComparatorImpl\<close>

definition Bytewise_Compare :: "slice \<Rightarrow> slice \<Rightarrow> int" where
  "Bytewise_Compare a b = Slice_compare a b"

text \<open>The loop that looks for the first position where two strings differ.\<close>

fun shared_prefix :: "slice \<Rightarrow> slice \<Rightarrow> nat" where
  "shared_prefix (x # a) (y # b) = (if x = y then Suc (shared_prefix a b) else 0)"
| "shared_prefix _ _ = 0"

definition Bytewise_FindShortestSeparator :: "slice \<Rightarrow> slice \<Rightarrow> slice" where
  "Bytewise_FindShortestSeparator start limit =
     (let min_length = min (length start) (length limit);
          diff_index = shared_prefix start limit
      in if diff_index \<ge> min_length then start
         else let diff_byte = start ! diff_index in
              if diff_byte < 0xff \<and> unat diff_byte + 1 < unat (limit ! diff_index)
              then take diff_index start @ [diff_byte + 1]
              else start)"

function FindShortSuccessor_loop :: "nat \<Rightarrow> slice \<Rightarrow> slice" where
  "FindShortSuccessor_loop i key =
     (if i < length key then
        if key ! i \<noteq> 0xff then take i key @ [key ! i + 1]
        else FindShortSuccessor_loop (Suc i) key
      else key)"
  by pat_completeness auto
termination
  by (relation "measure (\<lambda>(i, key). length key - i)") auto

declare FindShortSuccessor_loop.simps [simp del]

definition Bytewise_FindShortSuccessor :: "slice \<Rightarrow> slice" where
  "Bytewise_FindShortSuccessor key = FindShortSuccessor_loop 0 key"

definition Bytewise_FindShortSuccessorBeginWith :: "slice \<Rightarrow> nat \<Rightarrow> slice" where
  "Bytewise_FindShortSuccessorBeginWith key pos = FindShortSuccessor_loop pos key"

lemma Bytewise_Compare_iff [simp]:
  "Bytewise_Compare a b < 0 \<longleftrightarrow> a < b" "Bytewise_Compare a b = 0 \<longleftrightarrow> a = b"
  "Bytewise_Compare a b > 0 \<longleftrightarrow> b < a" "Bytewise_Compare a b \<le> 0 \<longleftrightarrow> a \<le> b"
  "Bytewise_Compare a b \<ge> 0 \<longleftrightarrow> b \<le> a"
  by (auto simp: Bytewise_Compare_def Slice_compare_lex)

interpretation bytewise: comparator Bytewise_Compare "\<lambda>_. True"
  by unfold_locales auto

lemma shared_prefix_le:
  "shared_prefix a b \<le> length a" "shared_prefix a b \<le> length b"
  by (induction a b rule: shared_prefix.induct) auto

lemma shared_prefix_take: "take (shared_prefix a b) a = take (shared_prefix a b) b"
  by (induction a b rule: shared_prefix.induct) auto

lemma shared_prefix_differ:
  "shared_prefix a b < length a \<Longrightarrow> shared_prefix a b < length b \<Longrightarrow>
   a ! shared_prefix a b \<noteq> b ! shared_prefix a b"
  by (induction a b rule: shared_prefix.induct) auto

lemma lex_append_less: "(p @ x # a) < (p @ y # b) \<longleftrightarrow> x < y \<or> x = y \<and> a < (b::slice)"
  by (induction p) auto

lemma byte_succ_greater: "x \<noteq> 255 \<Longrightarrow> x < x + (1::byte)"
  using unsigned_less [of x, where 'a = nat]
  by (simp add: word_less_nat_alt unat_word_ariths word_unat_eq_iff)

lemma Bytewise_separator_bounds:
  defines "sep \<equiv> Bytewise_FindShortestSeparator"
  shows "start \<le> sep start limit" and "start < limit \<Longrightarrow> sep start limit < limit"
proof -
  let ?d = "shared_prefix start limit"
  have "start \<le> sep start limit \<and> (start < limit \<longrightarrow> sep start limit < limit)"
  proof (cases "sep start limit = start")
    case False
    then have d: "?d < length start" "?d < length limit"
      and inc: "sep start limit = take ?d start @ [start ! ?d + 1]"
      and lim: "unat (start ! ?d) + 1 < unat (limit ! ?d)"
      by (auto simp: sep_def Bytewise_FindShortestSeparator_def Let_def split: if_splits)
    from lim have "start ! ?d < start ! ?d + 1" "start ! ?d + 1 < limit ! ?d"
      using unsigned_less [of "limit ! ?d", where 'a = nat]
      by (auto simp: word_less_nat_alt unat_word_ariths)
    moreover have "start = take ?d start @ start ! ?d # drop (Suc ?d) start"
      "limit = take ?d start @ limit ! ?d # drop (Suc ?d) limit"
      using d by (simp add: id_take_nth_drop) (metis d(2) id_take_nth_drop shared_prefix_take)
    ultimately show ?thesis
      by (metis inc lex_append_less order_less_imp_le)
  qed simp
  then show "start \<le> sep start limit" "start < limit \<Longrightarrow> sep start limit < limit"
    by auto
qed

lemma FindShortSuccessor_loop_ge: "key \<le> FindShortSuccessor_loop i key"
proof (induction i key rule: FindShortSuccessor_loop.induct)
  case (1 i key)
  show ?case
  proof (cases "i < length key \<and> key ! i \<noteq> 0xff")
    case True
    then have "key = take i key @ key ! i # drop (Suc i) key"
      by (simp add: id_take_nth_drop)
    moreover have "key ! i < key ! i + 1"
      using True by (simp add: byte_succ_greater)
    ultimately have "key < take i key @ [key ! i + 1]"
      by (metis lex_append_less)
    with True show ?thesis
      by (simp add: FindShortSuccessor_loop.simps [of i key])
  next
    case False
    with "1.IH" show ?thesis
      by (auto simp: FindShortSuccessor_loop.simps [of i key])
  qed
qed

interpretation bytewise_short: shortening_comparator Bytewise_Compare "\<lambda>_. True"
    Bytewise_FindShortestSeparator Bytewise_FindShortSuccessor
  by unfold_locales
    (auto simp: Bytewise_separator_bounds Bytewise_FindShortSuccessor_def FindShortSuccessor_loop_ge)

lemma Bytewise_FindShortSuccessorBeginWith_ge:
  "key \<le> Bytewise_FindShortSuccessorBeginWith key pos"
  by (simp add: Bytewise_FindShortSuccessorBeginWith_def FindShortSuccessor_loop_ge)

end
