(* ===== verification/DbFormat.thy ===== *)
theory DbFormat
  imports Comparator
begin

text \<open>
  Internal keys of db/dbformat.h and db/dbformat.cc: a user key followed by eight bytes
  that hold a 56-bit sequence number and a one-byte value type. The theory models packing
  and parsing, the internal-key comparator with its key-shortening routines, the lookup
  key and the filter-policy wrapper, and shows that the internal comparator is again a
  comparator that orders by user key, then newest first.
\<close>

subsection \<open>Value types, sequence numbers, parsed keys\<close>

datatype ValueType = kTypeDeletion | kTypeValue

primrec type_code :: "ValueType \<Rightarrow> nat" where
  "type_code kTypeDeletion = 0"
| "type_code kTypeValue = 1"

definition kValueTypeForSeek :: ValueType where
  "kValueTypeForSeek = kTypeValue"

definition kMaxSequenceNumber :: u64 where
  "kMaxSequenceNumber = push_bit 56 1 - 1"

record ParsedInternalKey =
  user_key :: slice
  sequence :: u64
  type :: ValueType

definition kNumLevels :: nat where "kNumLevels = 8"
definition kL0_CompactionTrigger :: nat where "kL0_CompactionTrigger = 4"
definition kL0_SlowdownWritesTrigger :: nat where "kL0_SlowdownWritesTrigger = 8"
definition kL0_StopWritesTrigger :: nat where "kL0_StopWritesTrigger = 12"
definition kMaxMemCompactLevel :: nat where "kMaxMemCompactLevel = 2"

subsection \<open>Packing and parsing\<close>

definition PackSequenceAndType :: "u64 \<Rightarrow> ValueType \<Rightarrow> u64" where
  "PackSequenceAndType seq t = push_bit 8 seq OR of_nat (type_code t)"

definition InternalKeyEncodingLength :: "ParsedInternalKey \<Rightarrow> nat" where
  "InternalKeyEncodingLength key = length (user_key key) + 8"

definition AppendInternalKey :: "slice \<Rightarrow> ParsedInternalKey \<Rightarrow> slice" where
  "AppendInternalKey result key =
     PutFixed64 (result @ user_key key) (PackSequenceAndType (sequence key) (type key))"

text \<open>\<open>ExtractUserKey\<close> and \<open>ExtractValueType\<close> require at least eight bytes (asserted).\<close>

definition ExtractUserKey :: "slice \<Rightarrow> slice" where
  "ExtractUserKey internal_key = take (length internal_key - 8) internal_key"

definition ExtractTag :: "slice \<Rightarrow> u64" where
  "ExtractTag internal_key = DecodeFixed64 (drop (length internal_key - 8) internal_key)"

definition ExtractValueType :: "slice \<Rightarrow> byte" where
  "ExtractValueType internal_key = ucast (ExtractTag internal_key AND 0xff)"

text \<open>
  \<open>ParseInternalKey\<close> returns false for a short key and for a type byte above \<open>kTypeValue\<close>;
  only then is the cast of the byte to \<open>ValueType\<close> not one of the two enumerators.
\<close>

definition ParseInternalKey :: "slice \<Rightarrow> ParsedInternalKey option" where
  "ParseInternalKey internal_key =
     (let n = length internal_key in
      if n < 8 then None
      else let num = ExtractTag internal_key; c = (ucast (num AND 0xff) :: byte) in
        if unat c \<le> type_code kTypeValue then
          Some \<lparr>user_key = take (n - 8) internal_key, sequence = drop_bit 8 num,
                type = (if c = 0 then kTypeDeletion else kTypeValue)\<rparr>
        else None)"

definition MakeInternalKey :: "slice \<Rightarrow> u64 \<Rightarrow> ValueType \<Rightarrow> slice" where
  "MakeInternalKey k s t = AppendInternalKey [] \<lparr>user_key = k, sequence = s, type = t\<rparr>"

subsection \<open>LookupKey\<close>

definition LookupKey_memtable_key :: "slice \<Rightarrow> u64 \<Rightarrow> slice" where
  "LookupKey_memtable_key ukey s =
     EncodeVarint32 (of_nat (length ukey + 8)) @ ukey @
     EncodeFixed64 (PackSequenceAndType s kValueTypeForSeek)"

definition LookupKey_internal_key :: "slice \<Rightarrow> u64 \<Rightarrow> slice" where
  "LookupKey_internal_key ukey s = ukey @ EncodeFixed64 (PackSequenceAndType s kValueTypeForSeek)"

definition LookupKey_user_key :: "slice \<Rightarrow> u64 \<Rightarrow> slice" where
  "LookupKey_user_key ukey s =
     (let ik = LookupKey_internal_key ukey s in take (length ik - 8) ik)"

subsection \<open>InternalKeyComparator\<close>

definition InternalKey_Compare :: "(slice \<Rightarrow> slice \<Rightarrow> int) \<Rightarrow> slice \<Rightarrow> slice \<Rightarrow> int" where
  "InternalKey_Compare ucmp akey bkey =
     (let r = ucmp (ExtractUserKey akey) (ExtractUserKey bkey) in
      if r = 0 then
        let anum = ExtractTag akey; bnum = ExtractTag bkey in
        if anum > bnum then -1 else if anum < bnum then 1 else r
      else r)"

definition InternalKey_FindShortestSeparator ::
  "(slice \<Rightarrow> slice \<Rightarrow> int) \<Rightarrow> (slice \<Rightarrow> slice \<Rightarrow> slice) \<Rightarrow> slice \<Rightarrow> slice \<Rightarrow> slice" where
  "InternalKey_FindShortestSeparator ucmp usep start limit =
     (let user_start = ExtractUserKey start;
          user_limit = ExtractUserKey limit;
          tmp = usep user_start user_limit
      in if length tmp < length user_start \<and> ucmp user_start tmp < 0
         then PutFixed64 tmp (PackSequenceAndType kMaxSequenceNumber kValueTypeForSeek)
         else start)"

definition InternalKey_FindShortSuccessor ::
  "(slice \<Rightarrow> slice \<Rightarrow> int) \<Rightarrow> (slice \<Rightarrow> nat \<Rightarrow> slice) \<Rightarrow> slice \<Rightarrow> slice" where
  "InternalKey_FindShortSuccessor ucmp usucc_from key =
     (let ukey = ExtractUserKey key;
          tmp = usucc_from ukey 8
      in if length tmp < length ukey \<and> ucmp ukey tmp < 0
         then PutFixed64 tmp (PackSequenceAndType kMaxSequenceNumber kValueTypeForSeek)
         else key)"

subsection \<open>InternalFilterPolicy\<close>

text \<open>
  The wrapper hands the user keys to the policy it wraps. The single-filter test with a
  filter number passes the key on as it is. The result type is that of the policy.
\<close>

definition InternalFilter_CreateFilter ::
  "(slice list \<Rightarrow> slice \<Rightarrow> 'r) \<Rightarrow> slice list \<Rightarrow> slice \<Rightarrow> 'r" where
  "InternalFilter_CreateFilter user_create keys dst = user_create (map ExtractUserKey keys) dst"

definition InternalFilter_KeyMayMatch :: "(slice \<Rightarrow> slice \<Rightarrow> 'r) \<Rightarrow> slice \<Rightarrow> slice \<Rightarrow> 'r" where
  "InternalFilter_KeyMayMatch user_match key f = user_match (ExtractUserKey key) f"

definition InternalFilter_KeyMayMatch_id ::
  "(slice \<Rightarrow> slice \<Rightarrow> nat \<Rightarrow> 'r) \<Rightarrow> slice \<Rightarrow> slice \<Rightarrow> nat \<Rightarrow> 'r" where
  "InternalFilter_KeyMayMatch_id user_match key f i = user_match key f i"

definition InternalFilter_CreateFilters ::
  "(slice list \<Rightarrow> slice list \<Rightarrow> 'r) \<Rightarrow> slice list \<Rightarrow> slice list \<Rightarrow> 'r" where
  "InternalFilter_CreateFilters user_create keys dsts = user_create (map ExtractUserKey keys) dsts"

definition InternalFilter_KeyMayMatchFilters ::
  "(slice \<Rightarrow> slice list \<Rightarrow> 'r) \<Rightarrow> slice \<Rightarrow> slice list \<Rightarrow> 'r" where
  "InternalFilter_KeyMayMatchFilters user_match key filters = user_match (ExtractUserKey key) filters"

subsection \<open>Packing and parsing: correctness\<close>

definition ikey_wf :: "slice \<Rightarrow> bool" where
  "ikey_wf k \<longleftrightarrow> 8 \<le> length k"

lemma kMaxSequenceNumber_val: "kMaxSequenceNumber = mask 56"
  by (simp add: kMaxSequenceNumber_def mask_eq_exp_minus_1 push_bit_eq_mult)

lemma seq_bits: "seq \<le> kMaxSequenceNumber \<Longrightarrow> bit seq n \<Longrightarrow> n < 56"
proof -
  assume a: "seq \<le> kMaxSequenceNumber" "bit seq n"
  have "unat kMaxSequenceNumber = 2 ^ 56 - 1"
    by (simp add: kMaxSequenceNumber_def push_bit_eq_mult)
  with a(1) have "unat seq < 2 ^ 56"
    by (simp add: word_le_nat_alt)
  then have "take_bit 56 (unat seq) = unat seq"
    by (simp add: take_bit_nat_eq_self_iff)
  moreover have "bit (unat seq) n" using a(2) by (simp add: bit_unsigned_iff)
  ultimately show ?thesis by (metis bit_take_bit_iff)
qed

lemma type_code_word: "of_nat (type_code t) = (case t of kTypeDeletion \<Rightarrow> 0 | kTypeValue \<Rightarrow> (1::u64))"
  by (cases t) simp_all

lemma Pack_sequence:
  assumes "seq \<le> kMaxSequenceNumber"
  shows "drop_bit 8 (PackSequenceAndType seq t) = seq"
  by (rule bit_word_eqI)
    (use seq_bits [OF assms] in \<open>auto simp: PackSequenceAndType_def type_code_word bit_simps
      split: ValueType.splits\<close>)

lemma Pack_type: "(ucast (PackSequenceAndType seq t AND 0xff) :: byte) = of_nat (type_code t)"
  by (rule bit_word_eqI)
    (auto simp: PackSequenceAndType_def type_code_word bit_simps split: ValueType.splits)

lemma Extract_of_tagged [simp]:
  "ExtractUserKey (k @ EncodeFixed64 w) = k" "ExtractTag (k @ EncodeFixed64 w) = w"
  by (simp_all add: ExtractUserKey_def ExtractTag_def)

lemma MakeInternalKey_eq: "MakeInternalKey k s t = k @ EncodeFixed64 (PackSequenceAndType s t)"
  by (simp add: MakeInternalKey_def AppendInternalKey_def PutFixed64_def)

lemma AppendInternalKey_eq:
  "AppendInternalKey dst p = dst @ MakeInternalKey (user_key p) (sequence p) (type p)"
  by (simp add: MakeInternalKey_eq AppendInternalKey_def PutFixed64_def)

lemma ikey_wf_Make [simp]: "ikey_wf (MakeInternalKey k s t)"
  by (simp add: ikey_wf_def MakeInternalKey_eq)

lemma Extract_Make [simp]:
  "ExtractUserKey (MakeInternalKey k s t) = k"
  "ExtractTag (MakeInternalKey k s t) = PackSequenceAndType s t"
  by (simp_all add: MakeInternalKey_eq)

lemma ParseInternalKey_Make [codec_simps]:
  assumes "s \<le> kMaxSequenceNumber"
  shows "ParseInternalKey (MakeInternalKey k s t) = Some \<lparr>user_key = k, sequence = s, type = t\<rparr>"
proof -
  have "ExtractTag (MakeInternalKey k s t) = PackSequenceAndType s t"
    "take (length (MakeInternalKey k s t) - 8) (MakeInternalKey k s t) = k"
    "\<not> length (MakeInternalKey k s t) < 8"
    by (simp_all add: MakeInternalKey_eq)
  then show ?thesis
    by (cases t) (simp_all add: ParseInternalKey_def Let_def Pack_type Pack_sequence [OF assms])
qed

lemma ikey_split: "ikey_wf k \<Longrightarrow> k = ExtractUserKey k @ EncodeFixed64 (ExtractTag k)"
  by (simp add: ikey_wf_def ExtractUserKey_def ExtractTag_def EncodeFixed64_DecodeFixed64)

lemma ParseInternalKey_sound:
  assumes "ParseInternalKey ik = Some p"
  shows "ikey_wf ik" "user_key p = ExtractUserKey ik" "sequence p = drop_bit 8 (ExtractTag ik)"
  using assms by (auto simp: ParseInternalKey_def ikey_wf_def ExtractUserKey_def Let_def split: if_splits)

subsection \<open>InternalKeyComparator: correctness\<close>

text \<open>A user-supplied comparator: a total order of all byte strings.\<close>

locale user_comparator = comparator ucmp "\<lambda>_. True"
  for ucmp :: "slice \<Rightarrow> slice \<Rightarrow> int"
begin

abbreviation icmp :: "slice \<Rightarrow> slice \<Rightarrow> int" where "icmp \<equiv> InternalKey_Compare ucmp"

lemma icmp_iff:
  "InternalKey_Compare ucmp a b < 0 \<longleftrightarrow>
     ucmp (ExtractUserKey a) (ExtractUserKey b) < 0 \<or>
     ExtractUserKey a = ExtractUserKey b \<and> ExtractTag a > ExtractTag b"
  "InternalKey_Compare ucmp a b = 0 \<longleftrightarrow>
     ExtractUserKey a = ExtractUserKey b \<and> ExtractTag a = ExtractTag b"
  "InternalKey_Compare ucmp a b > 0 \<longleftrightarrow>
     ucmp (ExtractUserKey a) (ExtractUserKey b) > 0 \<or>
     ExtractUserKey a = ExtractUserKey b \<and> ExtractTag a < ExtractTag b"
  using cmp_zero [of "ExtractUserKey a" "ExtractUserKey b"]
  by (auto simp: InternalKey_Compare_def Let_def)

lemma ikey_eqI:
  "ikey_wf a \<Longrightarrow> ikey_wf b \<Longrightarrow> ExtractUserKey a = ExtractUserKey b \<Longrightarrow> ExtractTag a = ExtractTag b
    \<Longrightarrow> a = b"
  by (metis ikey_split)

end

sublocale user_comparator \<subseteq> internal: comparator "InternalKey_Compare ucmp" ikey_wf
proof unfold_locales
  fix a b c
  assume wf: "ikey_wf a" "ikey_wf b"
  show "InternalKey_Compare ucmp a b = 0 \<longleftrightarrow> a = b"
    using wf by (auto simp: icmp_iff intro: ikey_eqI)
  show "InternalKey_Compare ucmp a b < 0 \<longleftrightarrow> InternalKey_Compare ucmp b a > 0"
    using cmp_swap by (auto simp: icmp_iff)
  assume "InternalKey_Compare ucmp a b < 0" "InternalKey_Compare ucmp b c < 0"
  then show "InternalKey_Compare ucmp a c < 0"
    using cmp_trans [of "ExtractUserKey a" "ExtractUserKey b" "ExtractUserKey c"]
    by (auto simp: icmp_iff)
qed

text \<open>
  A user comparator that also shortens keys; the internal comparator calls its separator
  and its \<open>FindShortSuccessorBeginWith\<close>. Its key shortening then satisfies the same laws on
  internal keys: the two assertions in \<open>FindShortestSeparator\<close> and the one in
  \<open>FindShortSuccessor\<close> never fire.
\<close>

locale user_shortening = user_comparator +
  fixes usep :: "slice \<Rightarrow> slice \<Rightarrow> slice" and usucc_from :: "slice \<Rightarrow> nat \<Rightarrow> slice"
  assumes usep_ge: "ucmp start (usep start limit) \<le> 0"
    and usep_less: "ucmp start limit < 0 \<Longrightarrow> ucmp (usep start limit) limit < 0"
    and usep_same: "usep start start = start"
    and usucc_from_ge: "ucmp key (usucc_from key pos) \<le> 0"

sublocale user_shortening \<subseteq> internal_short: shortening_comparator "InternalKey_Compare ucmp" ikey_wf
    "InternalKey_FindShortestSeparator ucmp usep" "InternalKey_FindShortSuccessor ucmp usucc_from"
proof unfold_locales
  fix start limit key
  assume wf: "ikey_wf start" "ikey_wf limit"
  let ?sep = "InternalKey_FindShortestSeparator ucmp usep start limit"
  show "ikey_wf ?sep"
    using wf by (simp add: InternalKey_FindShortestSeparator_def Let_def PutFixed64_def ikey_wf_def)
  show "InternalKey_Compare ucmp start ?sep \<le> 0"
    using internal.cmp_refl [OF wf(1)]
    by (auto simp: InternalKey_FindShortestSeparator_def Let_def PutFixed64_def icmp_iff(1)
        intro: order_less_imp_le)
  assume less: "InternalKey_Compare ucmp start limit < 0"
  show "InternalKey_Compare ucmp ?sep limit < 0"
  proof (cases "?sep = start")
    case False
    then have "ExtractUserKey start \<noteq> ExtractUserKey limit"
      using usep_same by (auto simp: InternalKey_FindShortestSeparator_def Let_def split: if_splits)
    then have "ucmp (ExtractUserKey start) (ExtractUserKey limit) < 0"
      using less by (simp add: icmp_iff)
    with False show ?thesis
      using usep_less by (auto simp: InternalKey_FindShortestSeparator_def Let_def PutFixed64_def
          icmp_iff split: if_splits)
  qed (use less in simp)
next
  fix key
  assume wf: "ikey_wf key"
  then show "ikey_wf (InternalKey_FindShortSuccessor ucmp usucc_from key)"
    by (simp add: InternalKey_FindShortSuccessor_def Let_def PutFixed64_def ikey_wf_def)
  show "InternalKey_Compare ucmp key (InternalKey_FindShortSuccessor ucmp usucc_from key) \<le> 0"
    using internal.cmp_refl [OF wf]
    by (auto simp: InternalKey_FindShortSuccessor_def Let_def PutFixed64_def icmp_iff(1)
        intro: order_less_imp_le)
qed

lemma shared_prefix_same [simp]: "shared_prefix a a = length a"
  by (induction a) auto

lemma Bytewise_separator_same: "Bytewise_FindShortestSeparator a a = a"
  by (simp add: Bytewise_FindShortestSeparator_def)

interpretation bytewise_user: user_shortening Bytewise_Compare
    Bytewise_FindShortestSeparator Bytewise_FindShortSuccessorBeginWith
  by unfold_locales
    (auto simp: Bytewise_separator_bounds Bytewise_FindShortSuccessorBeginWith_ge
      Bytewise_separator_same)

abbreviation BytewiseInternal_Compare :: "slice \<Rightarrow> slice \<Rightarrow> int" where
  "BytewiseInternal_Compare \<equiv> InternalKey_Compare Bytewise_Compare"

lemma unat_Pack:
  assumes "s \<le> kMaxSequenceNumber"
  shows "unat (PackSequenceAndType s t) = unat s * 256 + type_code t"
proof -
  have s: "unat s < 2 ^ 56"
    using assms by (simp add: word_le_nat_alt kMaxSequenceNumber_def push_bit_eq_mult)
  have "PackSequenceAndType s t = push_bit 8 s + of_nat (type_code t)"
    unfolding PackSequenceAndType_def type_code_word
    by (rule disjunctive_add [symmetric]) (auto simp: bit_simps split: ValueType.splits)
  moreover have "unat (push_bit 8 s) = unat s * 256"
    using s by (simp add: push_bit_eq_mult unat_word_ariths)
  ultimately show ?thesis
    using s by (cases t) (simp_all add: unat_word_ariths)
qed

lemma Pack_less_iff:
  assumes "s1 \<le> kMaxSequenceNumber" "s2 \<le> kMaxSequenceNumber"
  shows "PackSequenceAndType s1 t1 < PackSequenceAndType s2 t2 \<longleftrightarrow>
     s1 < s2 \<or> s1 = s2 \<and> type_code t1 < type_code t2"
  unfolding word_less_nat_alt word_unat_eq_iff unat_Pack [OF assms(1)] unat_Pack [OF assms(2)]
  by (cases t1; cases t2) auto

text \<open>
  C12. Internal keys sort by increasing user key, then by decreasing sequence number, then by
  decreasing value type, for every user comparator that is a total order (here: the
  bytewise one): the newest entry of a user key comes first.
\<close>

theorem internal_key_order:
  assumes "s1 \<le> kMaxSequenceNumber" "s2 \<le> kMaxSequenceNumber"
  shows "BytewiseInternal_Compare (MakeInternalKey k1 s1 t1) (MakeInternalKey k2 s2 t2) < 0 \<longleftrightarrow>
     k1 < k2 \<or> k1 = k2 \<and> (s2 < s1 \<or> s1 = s2 \<and> type_code t2 < type_code t1)"
  using Pack_less_iff [OF assms(2,1)] by (auto simp: bytewise_user.icmp_iff)

theorem internal_key_order_witness:
  "BytewiseInternal_Compare (MakeInternalKey [97] 7 kTypeValue) (MakeInternalKey [97] 5 kTypeValue) < 0"
proof -
  have "(7::u64) \<le> kMaxSequenceNumber" "(5::u64) \<le> kMaxSequenceNumber" "(5::u64) < 7"
    by (simp_all add: kMaxSequenceNumber_def)
  then show ?thesis
    using internal_key_order [of 7 5 "[97]" kTypeValue "[97]" kTypeValue] by simp
qed

end
