(* ===== verification/Hashing.thy ===== *)
theory Hashing
  imports Coding
begin

text \<open>
  The hash function of util/hash.cc, used by the Bloom filters and the caches. Arithmetic is
  modulo \<open>2 ^ 32\<close>, as in the source.
\<close>

definition hash_m :: u32 where "hash_m = 0xc6a4a793"

text \<open>The \<open>while\<close> loop: four bytes at a time; returns the hash so far and the bytes left.\<close>

fun Hash_words :: "u32 \<Rightarrow> slice \<Rightarrow> u32 \<times> slice" where
  "Hash_words h data =
     (if 4 \<le> length data then
        let w = DecodeFixed32 data;
            h1 = (h + w) * hash_m
        in Hash_words (h1 XOR drop_bit 16 h1) (drop 4 data)
      else (h, data))"

declare Hash_words.simps [simp del]

text \<open>The \<open>switch\<close> on the remaining bytes, with its intended fall-through.\<close>

definition Hash_tail :: "u32 \<Rightarrow> slice \<Rightarrow> u32" where
  "Hash_tail h data =
     (let r = 24;
          h3 = (if length data = 3 then h + push_bit 16 (ucast (data ! 2)) else h);
          h2 = (if length data \<in> {2, 3} then h3 + push_bit 8 (ucast (data ! 1)) else h3);
          h1 = (h2 + ucast (data ! 0)) * hash_m
      in if length data \<in> {1, 2, 3} then h1 XOR drop_bit r h1 else h)"

definition Hash :: "slice \<Rightarrow> u32 \<Rightarrow> u32" where
  "Hash data seed =
     (let (h, rest) = Hash_words (seed XOR (of_nat (length data) * hash_m)) data in Hash_tail h rest)"

text \<open>The loop consumes all but the last \<open>n mod 4\<close> bytes, so the \<open>switch\<close> sees 0 to 3 bytes.\<close>

lemma Hash_words_rest: "snd (Hash_words h data) = drop (length data - length data mod 4) data"
proof (induction h data rule: Hash_words.induct)
  case (1 h data)
  show ?case
  proof (cases "4 \<le> length data")
    case True
    then have "length data mod 4 = (length data - 4) mod 4"
      by (simp add: le_mod_geq)
    with True "1.IH" [OF True refl refl] show ?thesis
      by (simp add: Hash_words.simps [of h data] Let_def)
  qed (simp add: Hash_words.simps [of h data])
qed

lemma Hash_words_rest_length: "length (snd (Hash_words h data)) < 4"
  by (simp add: Hash_words_rest)

end
