(* ===== verification/Bloom.thy ===== *)
theory Bloom
  imports Hashing
begin

text \<open>
  The Bloom filters of util/bloom.cc and util/multi_bloom.cc. The elastic Bloom filter of
  this store is a sequence of small filters (\<open>MultiFilter\<close>), each with a hash function of its
  own, built in parallel by one thread per filter and consulted as a conjunction. The theory
  shows that no filter has false negatives and that the filters built by the threads do not
  depend on their interleaving.
\<close>

subsection \<open>One filter\<close>

text \<open>
  \<open>k_ = static_cast<size_t>(bits_per_key * 0.69)\<close>, clipped to \<open>1..30\<close>. The only products that
  are not clipped come from \<open>bits_per_key < 44\<close>, and none of them is an integer apart from 0, so
  the rounding of the double product does not change the truncated value.
\<close>

definition probes_for :: "nat \<Rightarrow> nat" where
  "probes_for bits_per_key =
     (let k = bits_per_key * 69 div 100 in if k < 1 then 1 else if k > 30 then 30 else k)"

text \<open>Rotate right 17 bits.\<close>

definition hash_delta :: "u32 \<Rightarrow> u32" where
  "hash_delta h = drop_bit 17 h OR push_bit 15 h"

primrec set_probes :: "nat \<Rightarrow> u32 \<Rightarrow> u32 \<Rightarrow> nat \<Rightarrow> slice \<Rightarrow> slice" where
  "set_probes 0 h delta bits arr = arr"
| "set_probes (Suc j) h delta bits arr =
     (let bitpos = unat h mod bits
      in set_probes j (h + delta) delta bits
           (arr[bitpos div 8 := arr ! (bitpos div 8) OR push_bit (bitpos mod 8) 1]))"

primrec test_probes :: "nat \<Rightarrow> u32 \<Rightarrow> u32 \<Rightarrow> nat \<Rightarrow> slice \<Rightarrow> bool" where
  "test_probes 0 h delta bits arr = True"
| "test_probes (Suc j) h delta bits arr =
     (let bitpos = unat h mod bits
      in if arr ! (bitpos div 8) AND push_bit (bitpos mod 8) 1 = 0 then False
         else test_probes j (h + delta) delta bits arr)"

text \<open>The size of the bit array for \<open>n\<close> keys, in bytes.\<close>

definition filter_bytes :: "nat \<Rightarrow> nat \<Rightarrow> nat" where
  "filter_bytes bits_per_key n =
     (let bits = n * bits_per_key; bits = (if bits < 64 then 64 else bits) in (bits + 7) div 8)"

text \<open>
  The bytes \<open>CreateFilter\<close> appends to \<open>dst\<close> for the hash values of the keys: the array of
  \<open>filter_bytes\<close> zero bytes and the byte that records the number of probes, then updated in
  place. The bit array is never longer than \<open>size_t\<close> can hold for keys that fit in memory.
\<close>

definition build_filter :: "nat \<Rightarrow> nat \<Rightarrow> u32 list \<Rightarrow> slice" where
  "build_filter bits_per_key k hashes =
     (let bytes = filter_bytes bits_per_key (length hashes);
          bits = bytes * 8;
          arr = replicate bytes 0 @ [of_nat k]
      in foldl (\<lambda>arr h. set_probes k h (hash_delta h) bits arr) arr hashes)"

definition match_filter :: "u32 \<Rightarrow> slice \<Rightarrow> bool" where
  "match_filter h bloom_filter =
     (let len = length bloom_filter in
      if len < 2 then False
      else let bits = (len - 1) * 8; k = unat (bloom_filter ! (len - 1)) in
        if k > 30 then True else test_probes k h (hash_delta h) bits bloom_filter)"

subsection \<open>BloomFilterPolicy (util/bloom.cc)\<close>

definition BloomHash0 :: "slice \<Rightarrow> u32" where
  "BloomHash0 key = Hash key 0xbc9f1d34"

record BloomFilterPolicy =
  bloom_bits_per_key :: nat
  bloom_k :: nat

definition new_BloomFilterPolicy :: "nat \<Rightarrow> BloomFilterPolicy" where
  "new_BloomFilterPolicy bits_per_key = \<lparr>bloom_bits_per_key = bits_per_key, bloom_k = probes_for bits_per_key\<rparr>"

definition Bloom_CreateFilter :: "BloomFilterPolicy \<Rightarrow> slice list \<Rightarrow> slice \<Rightarrow> slice" where
  "Bloom_CreateFilter p keys dst = dst @ build_filter (bloom_bits_per_key p) (bloom_k p) (map BloomHash0 keys)"

definition Bloom_KeyMayMatch :: "BloomFilterPolicy \<Rightarrow> slice \<Rightarrow> slice \<Rightarrow> bool" where
  "Bloom_KeyMayMatch p key bloom_filter = match_filter (BloomHash0 key) bloom_filter"

subsection \<open>ChildBloomFilterPolicy and MultiFilter (util/multi_bloom.cc)\<close>

text \<open>The seeds of the twelve hash functions; for any other \<open>id\<close> the process exits (\<open>None\<close>).\<close>

definition bloom_seeds :: "u32 list" where
  "bloom_seeds =
     [0xbc9f1d34, 0x34f1d34b, 0x251d34bc, 0x01d34bc9, 0x1934bc9f, 0x934bc9f1,
      0x4bc9f193, 0x51c2578a, 0xda23562f, 0x135254f2, 0xea1e4a48, 0x567925f1]"

definition BloomHash :: "slice \<Rightarrow> nat \<Rightarrow> u32 option" where
  "BloomHash key i = (if i < length bloom_seeds then Some (Hash key (bloom_seeds ! i)) else None)"

record ChildBloomFilterPolicy = BloomFilterPolicy +
  child_id :: nat

definition new_ChildBloomFilterPolicy :: "nat \<Rightarrow> nat \<Rightarrow> ChildBloomFilterPolicy" where
  "new_ChildBloomFilterPolicy bits_per_key i =
     \<lparr>bloom_bits_per_key = bits_per_key, bloom_k = probes_for bits_per_key, child_id = i\<rparr>"

definition Child_CreateFilter :: "ChildBloomFilterPolicy \<Rightarrow> slice list \<Rightarrow> slice \<Rightarrow> slice option" where
  "Child_CreateFilter p keys dst =
     map_option (\<lambda>hs. dst @ build_filter (bloom_bits_per_key p) (bloom_k p) hs)
       (those (map (\<lambda>key. BloomHash key (child_id p)) keys))"

text \<open>The hash is computed only after the two early returns.\<close>

definition Child_KeyMayMatch :: "ChildBloomFilterPolicy \<Rightarrow> slice \<Rightarrow> slice \<Rightarrow> bool option" where
  "Child_KeyMayMatch p key bloom_filter =
     (let len = length bloom_filter in
      if len < 2 then Some False
      else if unat (bloom_filter ! (len - 1)) > 30 then Some True
      else map_option (\<lambda>h. match_filter h bloom_filter) (BloomHash key (child_id p)))"

text \<open>
  The constructor reads \<open>bits_per_key_per_filter\<close> up to its terminating 0 and numbers the
  child policies from 0.
\<close>

type_synonym MultiFilter = "ChildBloomFilterPolicy list"

definition new_MultiFilter :: "nat list \<Rightarrow> MultiFilter" where
  "new_MultiFilter bits_per_key_per_filter =
     (let bs = takeWhile (\<lambda>b. b \<noteq> 0) bits_per_key_per_filter
      in map (\<lambda>i. new_ChildBloomFilterPolicy (bs ! i) i) [0..<length bs])"

definition Multi_filterNums :: "MultiFilter \<Rightarrow> nat" where
  "Multi_filterNums p = length p"

text \<open>
  \<open>CreateFilter(keys, n, std::string *dst)\<close>: child \<open>i\<close> appends to \<open>dst[i]\<close>, one after the other.
\<close>

fun Multi_CreateFilter :: "MultiFilter \<Rightarrow> slice list \<Rightarrow> slice list \<Rightarrow> slice list option" where
  "Multi_CreateFilter (c # cs) keys (dst # dsts) =
     (case Child_CreateFilter c keys dst of
        None \<Rightarrow> None
      | Some d \<Rightarrow> map_option ((#) d) (Multi_CreateFilter cs keys dsts))"
| "Multi_CreateFilter _ keys dsts = Some dsts"

definition Multi_KeyMayMatch_id :: "MultiFilter \<Rightarrow> slice \<Rightarrow> slice \<Rightarrow> nat \<Rightarrow> bool option" where
  "Multi_KeyMayMatch_id p key bloom_filter i =
     (if i < length p then Child_KeyMayMatch (p ! i) key bloom_filter else None)"

text \<open>
  \<open>KeyMayMatchFilters\<close> walks the two lists together and stops at the first filter that rules
  the key out; \<open>None\<close> where it would run past the last child policy.
\<close>

fun Multi_KeyMayMatchFilters :: "MultiFilter \<Rightarrow> slice \<Rightarrow> slice list \<Rightarrow> bool option" where
  "Multi_KeyMayMatchFilters _ key [] = Some True"
| "Multi_KeyMayMatchFilters [] key (f # fs) = None"
| "Multi_KeyMayMatchFilters (c # cs) key (f # fs) =
     (case Child_KeyMayMatch c key f of
        None \<Rightarrow> None
      | Some False \<Rightarrow> Some False
      | Some True \<Rightarrow> Multi_KeyMayMatchFilters cs key fs)"

subsection \<open>No false negatives\<close>

definition bit_at :: "slice \<Rightarrow> nat \<Rightarrow> bool" where
  "bit_at arr pos \<longleftrightarrow> bit (arr ! (pos div 8)) (pos mod 8)"

lemma and_exp_eq_0: "w AND 2 ^ n = 0 \<longleftrightarrow> \<not> bit w n" if "n < LENGTH('a)" for w :: "'a::len word"
proof -
  have "w AND 2 ^ n = (if bit w n then 2 ^ n else 0)"
    by (rule bit_word_eqI) (auto simp: bit_simps)
  moreover have "(2::'a word) ^ n \<noteq> 0"
    using that by (simp add: word_exp_length_eq_0)
  ultimately show ?thesis by simp
qed

lemma length_set_probes [simp]: "length (set_probes j h d bits arr) = length arr"
  by (induction j arbitrary: h arr) (simp_all add: Let_def)

text \<open>A filter array is large enough for its bits; probing never touches the byte after them.\<close>

lemma bit_at_update:
  assumes "bitpos div 8 < length arr"
  shows "bit_at (arr[bitpos div 8 := arr ! (bitpos div 8) OR 2 ^ (bitpos mod 8)]) p \<longleftrightarrow>
     bit_at arr p \<or> p = bitpos"
proof (cases "p div 8 = bitpos div 8")
  case True
  have "p = bitpos \<longleftrightarrow> p mod 8 = bitpos mod 8"
    using True by (metis mult_div_mod_eq)
  moreover have "p mod 8 < 8" "bitpos mod 8 < 8" by simp_all
  ultimately show ?thesis
    using assms True by (auto simp: bit_at_def bit_simps)
next
  case False
  then show ?thesis by (auto simp: bit_at_def)
qed

lemma div8_bound: "bits \<le> 8 * n \<Longrightarrow> 0 < bits \<Longrightarrow> x mod bits div 8 < (n::nat)"
  by (metis div_less_iff_less_mult less_le_trans mod_less_divisor mult.commute zero_less_numeral)

lemma set_probes_mono:
  assumes "0 < bits" "bits \<le> 8 * length arr" "bit_at arr p"
  shows "bit_at (set_probes j h d bits arr) p"
  using assms
  by (induction j arbitrary: h arr) (simp_all add: Let_def bit_at_update div8_bound)

lemma test_probes_iff:
  "test_probes k h d bits arr \<longleftrightarrow> (\<forall>j<k. bit_at arr (unat (h + of_nat j * d) mod bits))"
proof (induction k arbitrary: h)
  case (Suc k)
  have "(\<forall>j<Suc k. bit_at arr (unat (h + of_nat j * d) mod bits)) \<longleftrightarrow>
      bit_at arr (unat h mod bits) \<and> (\<forall>j<k. bit_at arr (unat (h + d + of_nat j * d) mod bits))"
    by (auto simp: less_Suc_eq_0_disj algebra_simps)
  with Suc show ?case
    by (simp add: Let_def and_exp_eq_0 bit_at_def)
qed simp

lemma set_probes_sets:
  assumes "0 < bits" "bits \<le> 8 * length arr" "j < k"
  shows "bit_at (set_probes k h d bits arr) (unat (h + of_nat j * d) mod bits)"
  using assms
proof (induction k arbitrary: h arr j)
  case (Suc k)
  show ?case
  proof (cases j)
    case 0
    with Suc.prems show ?thesis
      by (simp add: Let_def set_probes_mono bit_at_update div8_bound)
  next
    case (Suc i)
    with Suc.prems Suc.IH [of _ i "h + d"] show ?thesis
      by (simp add: Let_def algebra_simps)
  qed
qed simp

lemma set_probes_last:
  assumes "bits \<le> 8 * n" "0 < bits"
  shows "set_probes k h d bits arr ! n = arr ! n"
  using assms by (induction k arbitrary: h arr) (simp_all add: Let_def div8_bound less_imp_neq)

lemma foldl_set_probes:
  fixes hashes :: "u32 list" and arr :: slice and k bits n :: nat
  defines "step \<equiv> \<lambda>arr h. set_probes k h (hash_delta h) bits arr"
  assumes "0 < bits" "bits \<le> 8 * n" "n < length arr"
  shows "length (foldl step arr hashes) = length arr" (is ?len)
    and "foldl step arr hashes ! n = arr ! n" (is ?last)
    and "bit_at arr p \<Longrightarrow> bit_at (foldl step arr hashes) p" (is "_ \<Longrightarrow> ?mono")
    and "h \<in> set hashes \<Longrightarrow> test_probes k h (hash_delta h) bits (foldl step arr hashes)"
      (is "_ \<Longrightarrow> ?hit")
proof -
  have bits: "bits \<le> 8 * length arr" using assms(3,4) by linarith
  have mono: "bit_at arr p \<Longrightarrow> bits \<le> 8 * length arr \<Longrightarrow> bit_at (foldl step arr hs) p" for arr hs p
    using assms(2) by (induction hs arbitrary: arr) (auto simp: step_def set_probes_mono)
  show ?len by (induction hashes arbitrary: arr) (auto simp: step_def)
  show ?last
    using assms(2,3) by (induction hashes arbitrary: arr) (auto simp: step_def set_probes_last)
  show "bit_at arr p \<Longrightarrow> ?mono" using mono bits by blast
  show "h \<in> set hashes \<Longrightarrow> ?hit"
    using bits
  proof (induction hashes arbitrary: arr)
    case (Cons x hs)
    show ?case
    proof (cases "h \<in> set hs")
      case True
      with Cons show ?thesis by (simp add: step_def)
    next
      case False
      with Cons.prems have "h = x" by simp
      then have "\<forall>j<k. bit_at (step arr x) (unat (h + of_nat j * hash_delta h) mod bits)"
        using Cons.prems assms(2) by (simp add: step_def set_probes_sets)
      then show ?thesis
        using mono Cons.prems by (simp add: test_probes_iff step_def)
    qed
  qed simp
qed

lemma probes_for_range: "1 \<le> probes_for b" "probes_for b \<le> 30"
  by (simp_all add: probes_for_def Let_def)

lemma filter_bytes_ge: "8 \<le> filter_bytes b n"
proof -
  have "64 \<le> (if n * b < 64 then 64 else n * b) + 7" by simp
  then have "64 div 8 \<le> ((if n * b < 64 then 64 else n * b) + 7) div 8" by (rule div_le_mono)
  then show ?thesis by (simp add: filter_bytes_def Let_def)
qed

lemma length_build_filter:
  "length (build_filter b k hs) = filter_bytes b (length hs) + 1"
  using foldl_set_probes(1) [where bits = "filter_bytes b (length hs) * 8" and hashes = hs and k = k
      and n = "filter_bytes b (length hs)" and arr = "replicate (filter_bytes b (length hs)) 0 @ [of_nat k]"]
    filter_bytes_ge [of b "length hs"]
  by (simp add: build_filter_def Let_def)

lemma match_build_filter:
  assumes "h \<in> set hs" "k \<le> 30"
  shows "match_filter h (build_filter b k hs)"
proof -
  let ?n = "filter_bytes b (length hs)"
  let ?arr = "replicate ?n 0 @ [of_nat k :: byte]"
  note fold = foldl_set_probes [where bits = "?n * 8" and n = ?n and arr = ?arr and hashes = hs and k = k]
  have n: "0 < ?n" using filter_bytes_ge [of b "length hs"] by linarith
  have k: "unat (build_filter b k hs ! ?n) = k"
    using fold(2) n assms(2) by (simp add: build_filter_def Let_def unat_of_nat_small nth_append)
  have "test_probes k h (hash_delta h) (?n * 8) (build_filter b k hs)"
    using fold(4) [of h] n assms(1) by (simp add: build_filter_def Let_def)
  then show ?thesis
    using n k assms(2) by (simp add: match_filter_def Let_def length_build_filter)
qed

text \<open>
  C14. A key that was added to a filter is reported as possibly present, for every number of
  bits per key the filter was built with and whatever \<open>dst\<close> held before: the filter is appended
  to \<open>dst\<close> and read back by any policy of the class, the parameters coming from the filter.
\<close>

theorem Bloom_no_false_negatives:
  assumes "key \<in> set keys"
  shows "\<exists>f. Bloom_CreateFilter (new_BloomFilterPolicy b) keys dst = dst @ f
           \<and> Bloom_KeyMayMatch (new_BloomFilterPolicy b') key f"
  using assms probes_for_range(2) [of b]
  by (simp add: Bloom_CreateFilter_def Bloom_KeyMayMatch_def new_BloomFilterPolicy_def match_build_filter)

theorem Bloom_no_false_negatives_witness:
  "\<exists>f. Bloom_CreateFilter (new_BloomFilterPolicy 10) [[1, 2], [3]] [9] = [9] @ f
      \<and> Bloom_KeyMayMatch (new_BloomFilterPolicy 4) [3] f"
  by (rule Bloom_no_false_negatives) simp

subsection \<open>The contract of a filter policy\<close>

text \<open>
  include/leveldb/filter_policy.h: \<open>CreateFilter\<close> appends to each of the \<open>filterNums\<close> strings a
  filter that summarises the keys, and a key among them matches any leading part of those
  filters (the store keeps only some of the filters of a table in memory).
\<close>

locale filter_policy =
  fixes filterNums :: nat
    and CreateFilter :: "slice list \<Rightarrow> slice list \<Rightarrow> slice list option"
    and KeyMayMatchFilters :: "slice \<Rightarrow> slice list \<Rightarrow> bool option"
    and summaries :: "slice list \<Rightarrow> slice list"
  assumes summaries_length: "length (summaries keys) = filterNums"
    and create_appends: "length dsts = filterNums \<Longrightarrow>
          CreateFilter keys dsts = Some (map2 (@) dsts (summaries keys))"
    and may_match: "key \<in> set keys \<Longrightarrow> m \<le> filterNums \<Longrightarrow>
          KeyMayMatchFilters key (take m (summaries keys)) = Some True"
begin

lemma create_nth:
  assumes "length dsts = filterNums" "CreateFilter keys dsts = Some dsts'"
  shows "length dsts' = filterNums"
    and "i < filterNums \<Longrightarrow> dsts' ! i = dsts ! i @ summaries keys ! i"
  using assms summaries_length [of keys] by (auto simp: create_appends)

end

text \<open>The child filters of a policy built by the constructor, with at most twelve hash functions.\<close>

locale multi_filter =
  fixes p :: MultiFilter
  assumes ids: "i < length p \<Longrightarrow> child_id (p ! i) = i"
    and hashes: "length p \<le> length bloom_seeds"
    and probes: "i < length p \<Longrightarrow> bloom_k (p ! i) \<le> 30"

definition child_filter :: "ChildBloomFilterPolicy \<Rightarrow> slice list \<Rightarrow> slice" where
  "child_filter c keys =
     build_filter (bloom_bits_per_key c) (bloom_k c)
       (map (\<lambda>key. Hash key (bloom_seeds ! child_id c)) keys)"

definition Multi_summaries :: "MultiFilter \<Rightarrow> slice list \<Rightarrow> slice list" where
  "Multi_summaries p keys = map (\<lambda>c. child_filter c keys) p"

lemma those_map_Some [simp]: "those (map (\<lambda>x. Some (f x)) xs) = Some (map f xs)"
  by (induction xs) simp_all

lemma Child_CreateFilter_eq:
  "child_id c < length bloom_seeds \<Longrightarrow> Child_CreateFilter c keys dst = Some (dst @ child_filter c keys)"
  by (simp add: Child_CreateFilter_def BloomHash_def child_filter_def)

lemma Child_KeyMayMatch_hit:
  assumes "key \<in> set keys" "child_id c < length bloom_seeds" "bloom_k c \<le> 30"
  shows "Child_KeyMayMatch c key (child_filter c keys) = Some True"
  using match_build_filter [of "Hash key (bloom_seeds ! child_id c)"
      "map (\<lambda>key. Hash key (bloom_seeds ! child_id c)) keys" "bloom_k c" "bloom_bits_per_key c"]
    assms length_build_filter filter_bytes_ge
  by (auto simp: Child_KeyMayMatch_def BloomHash_def child_filter_def Let_def match_filter_def
      split: if_splits)

lemma Multi_CreateFilter_eq:
  assumes "\<forall>c \<in> set p. child_id c < length bloom_seeds" "length dsts = length p"
  shows "Multi_CreateFilter p keys dsts = Some (map2 (@) dsts (Multi_summaries p keys))"
  using assms
  by (induction p keys dsts rule: Multi_CreateFilter.induct)
    (auto simp: Child_CreateFilter_eq Multi_summaries_def)

lemma Multi_KeyMayMatchFilters_hit:
  assumes "\<forall>c \<in> set p. child_id c < length bloom_seeds \<and> bloom_k c \<le> 30" "key \<in> set keys"
  shows "Multi_KeyMayMatchFilters p key (take m (Multi_summaries p keys)) = Some True"
  using assms
proof (induction p arbitrary: m)
  case (Cons c p)
  then show ?case
    by (cases m) (auto simp: Multi_summaries_def Child_KeyMayMatch_hit)
qed (simp add: Multi_summaries_def)

context multi_filter
begin

lemma children: "\<forall>c \<in> set p. child_id c < length bloom_seeds \<and> bloom_k c \<le> 30"
  using ids hashes probes by (metis in_set_conv_nth less_le_trans)

end

sublocale multi_filter \<subseteq> policy: filter_policy "Multi_filterNums p" "Multi_CreateFilter p"
    "Multi_KeyMayMatchFilters p" "Multi_summaries p"
  using children
  by unfold_locales
    (auto simp: Multi_filterNums_def Multi_CreateFilter_eq Multi_KeyMayMatchFilters_hit,
      simp add: Multi_summaries_def)

interpretation multi: multi_filter "new_MultiFilter (take 12 bits_per_key_per_filter)"
  for bits_per_key_per_filter
proof unfold_locales
  fix i
  let ?bs = "takeWhile (\<lambda>b. b \<noteq> 0) (take 12 bits_per_key_per_filter)"
  have len: "length ?bs \<le> 12"
    by (metis length_take length_takeWhile_le le_trans min.cobounded2)
  have "length bloom_seeds = 12" by (simp add: bloom_seeds_def)
  with len show "length (new_MultiFilter (take 12 bits_per_key_per_filter)) \<le> length bloom_seeds"
    by (simp add: new_MultiFilter_def Let_def)
  assume "i < length (new_MultiFilter (take 12 bits_per_key_per_filter))"
  then show "child_id (new_MultiFilter (take 12 bits_per_key_per_filter) ! i) = i"
    and "bloom_k (new_MultiFilter (take 12 bits_per_key_per_filter) ! i) \<le> 30"
    by (simp_all add: new_MultiFilter_def new_ChildBloomFilterPolicy_def probes_for_range Let_def)
qed

text \<open>
  C13. The elastic filter has no false negatives: the child policies of a policy with up to
  twelve filters each append one filter per string, and a key that was added matches every
  leading part of these filters, so loading fewer of them never hides a key.
\<close>

theorem MultiFilter_no_false_negatives:
  assumes "length bits \<le> 12" "key \<in> set keys" "length dsts = Multi_filterNums (new_MultiFilter bits)"
  shows "\<exists>fs. length fs = length dsts
           \<and> Multi_CreateFilter (new_MultiFilter bits) keys dsts = Some (map2 (@) dsts fs)
           \<and> (\<forall>m \<le> length dsts.
                 Multi_KeyMayMatchFilters (new_MultiFilter bits) key (take m fs) = Some True)"
  using multi.policy.summaries_length [of bits keys] multi.policy.create_appends [of dsts bits keys]
    multi.policy.may_match [of key keys _ bits] assms
  by (intro exI [of _ "Multi_summaries (new_MultiFilter bits) keys"]) simp

theorem MultiFilter_no_false_negatives_witness:
  "\<exists>fs. length fs = 2
      \<and> Multi_CreateFilter (new_MultiFilter [4, 8, 0]) [[1], [2, 3]] [[], [7]] = Some (map2 (@) [[], [7]] fs)
      \<and> Multi_KeyMayMatchFilters (new_MultiFilter [4, 8, 0]) [2, 3] (take 1 fs) = Some True"
proof -
  have "length [[], [7::byte]] = Multi_filterNums (new_MultiFilter [4, 8, 0])"
    by (simp add: Multi_filterNums_def new_MultiFilter_def)
  from MultiFilter_no_false_negatives [OF _ _ this, of "[2, 3]" "[[1], [2, 3]]"] obtain fs where
    "length fs = 2" "Multi_CreateFilter (new_MultiFilter [4, 8, 0]) [[1], [2, 3]] [[], [7]] =
       Some (map2 (@) [[], [7]] fs)"
    "\<forall>m \<le> 2. Multi_KeyMayMatchFilters (new_MultiFilter [4, 8, 0]) [2, 3] (take m fs) = Some True"
    by (auto simp: numeral_2_eq_2)
  then show ?thesis by (metis one_le_numeral)
qed

end
