(* ===== verification/FilterBlock.thy ===== *)
theory FilterBlock
  imports DbFormat Bloom
begin

text \<open>
  The filter blocks of table/filter_block.h and table/filter_block.cc. The builder collects
  the keys of the data blocks and, for every 64 KB of file offsets, appends one filter per
  child policy to one string per child policy. The reader holds, for every region of a table,
  the first few of these strings' parts for that region. The filter policy is a parameter
  (\<open>CreateFilter\<close>, \<open>KeyMayMatchFilters\<close>), constrained by the contract \<open>filter_policy\<close>.
\<close>

subsection \<open>FilterBlockBuilder\<close>

definition kFilterBaseLg :: nat where "kFilterBaseLg = 16"
definition kFilterBase :: nat where "kFilterBase = 2 ^ kFilterBaseLg"

record FilterBlockBuilder =
  keys_buf :: slice
  start_idx :: "nat list"
  results :: "slice list"
  filters_offsets :: "u32 list list"

definition new_FilterBlockBuilder :: "nat \<Rightarrow> FilterBlockBuilder" where
  "new_FilterBlockBuilder filterNums = \<lparr>keys_buf = [], start_idx = [],
     results = replicate filterNums [], filters_offsets = replicate filterNums []\<rparr>"

definition FilterBlockBuilder_AddKey :: "slice \<Rightarrow> FilterBlockBuilder \<Rightarrow> FilterBlockBuilder" where
  "FilterBlockBuilder_AddKey key b =
     b\<lparr>start_idx := start_idx b @ [length (keys_buf b)], keys_buf := keys_buf b @ key\<rparr>"

text \<open>The offsets are \<open>uint32_t\<close>: a position beyond \<open>2 ^ 32\<close> wraps around.\<close>

definition push_offsets :: "u32 list list \<Rightarrow> slice list \<Rightarrow> u32 list list" where
  "push_offsets offs rs = map2 (\<lambda>os r. os @ [of_nat (length r)]) offs rs"

text \<open>The keys, cut out of the flat buffer; \<open>start_\<close> is extended with the end position first.\<close>

definition flat_keys :: "slice \<Rightarrow> nat list \<Rightarrow> slice list" where
  "flat_keys buf starts =
     (let st = starts @ [length buf]
      in map (\<lambda>i. take (st ! (i + 1) - st ! i) (drop (st ! i) buf)) [0..<length starts])"

definition GenerateFilter ::
  "(slice list \<Rightarrow> slice list \<Rightarrow> slice list option) \<Rightarrow> FilterBlockBuilder \<Rightarrow> FilterBlockBuilder option" where
  "GenerateFilter CreateFilter b =
     (let num_keys = length (start_idx b);
          offs = push_offsets (filters_offsets b) (results b)
      in if num_keys = 0 then Some (b\<lparr>filters_offsets := offs\<rparr>)
         else let tmp_keys = flat_keys (keys_buf b) (start_idx b)
              in map_option (\<lambda>rs. b\<lparr>filters_offsets := offs, results := rs, keys_buf := [], start_idx := []\<rparr>)
                   (CreateFilter tmp_keys (results b)))"

text \<open>
  The \<open>while\<close> loop of \<open>StartBlock\<close> generates filters until the first offset array has
  \<open>filter_index\<close> entries; \<open>GenerateFilter\<close> adds exactly one entry, so the loop runs as often as
  entries are missing.
\<close>

primrec GenerateFilters ::
  "(slice list \<Rightarrow> slice list \<Rightarrow> slice list option) \<Rightarrow> nat \<Rightarrow> FilterBlockBuilder \<Rightarrow> FilterBlockBuilder option" where
  "GenerateFilters CreateFilter 0 b = Some b"
| "GenerateFilters CreateFilter (Suc n) b =
     Option.bind (GenerateFilter CreateFilter b) (GenerateFilters CreateFilter n)"

definition FilterBlockBuilder_StartBlock ::
  "(slice list \<Rightarrow> slice list \<Rightarrow> slice list option) \<Rightarrow> nat \<Rightarrow> FilterBlockBuilder \<Rightarrow> FilterBlockBuilder option" where
  "FilterBlockBuilder_StartBlock CreateFilter block_offset b =
     (let filter_index = block_offset div kFilterBase
      in GenerateFilters CreateFilter (filter_index - length (hd (filters_offsets b))) b)"

definition FilterBlockBuilder_Finish ::
  "(slice list \<Rightarrow> slice list \<Rightarrow> slice list option) \<Rightarrow> FilterBlockBuilder \<Rightarrow> FilterBlockBuilder option" where
  "FilterBlockBuilder_Finish CreateFilter b =
     map_option (\<lambda>b. b\<lparr>results := map2 (\<lambda>r offs.
         PutFixed32 (foldl PutFixed32 r offs) (of_nat (length r)) @ [of_nat kFilterBaseLg])
           (results b) (filters_offsets b)\<rparr>)
       (if start_idx b \<noteq> [] then GenerateFilter CreateFilter b else Some b)"

text \<open>The part of a finished string that holds the offset array, for the meta-index block.\<close>

definition FilterBlockBuilder_getOffsets :: "nat \<Rightarrow> FilterBlockBuilder \<Rightarrow> slice" where
  "FilterBlockBuilder_getOffsets which b =
     (let contents = results b ! which; n = length contents in
      if n < 5 then []
      else let last_word = unat (DecodeFixed32 (drop (n - 5) contents)) in
           if last_word > n - 5 then [] else drop last_word contents)"

subsection \<open>FilterBlockReader\<close>

text \<open>
  \<open>datas_[r][i]\<close> points to the part of filter string \<open>i\<close> that belongs to region \<open>r\<close>. The offset
  arrays are shared with the table. \<open>curr_num_of_filters_regions_[r]\<close> is the number of filters
  of region \<open>r\<close> that are loaded.
\<close>

record FilterBlockReader =
  datas :: "slice list list"
  num_entries :: nat
  base_lg :: nat
  curr_num_of_filters_regions :: "nat list"
  num_regions :: nat
  regionFilters :: nat
  filter_offsets :: "u32 list list"

definition new_FilterBlockReader :: "nat \<Rightarrow> nat \<Rightarrow> nat \<Rightarrow> u32 list list \<Rightarrow> FilterBlockReader option" where
  "new_FilterBlockReader regionNum rfilters lg offs =
     (if regionNum = 0 then None
      else Some \<lparr>datas = replicate regionNum [], num_entries = length (offs ! 0), base_lg = lg,
             curr_num_of_filters_regions = replicate regionNum 0, num_regions = regionNum,
             regionFilters = rfilters, filter_offsets = offs\<rparr>)"

definition FilterBlockReader_AddFilter :: "slice \<Rightarrow> nat \<Rightarrow> FilterBlockReader \<Rightarrow> FilterBlockReader" where
  "FilterBlockReader_AddFilter contents regionId r =
     r\<lparr>datas := (datas r)[regionId := datas r ! regionId @ [contents]],
       curr_num_of_filters_regions :=
         (curr_num_of_filters_regions r)[regionId := curr_num_of_filters_regions r ! regionId + 1]\<rparr>"

text \<open>
  The bytes of filter \<open>i\<close> that belong to a region. The subtraction is on \<open>uint32_t\<close>. The offsets
  of the last region end with the last entry.
\<close>

definition region_data_size :: "u32 list \<Rightarrow> nat \<Rightarrow> nat \<Rightarrow> nat \<Rightarrow> nat" where
  "region_data_size offs rfilters nregions regionId =
     (let loc = regionId * rfilters in
      if regionId \<noteq> nregions - 1 then unat (offs ! (loc + rfilters) - offs ! loc)
      else unat (offs ! (length offs - 1) - offs ! loc))"

text \<open>
  \<open>RemoveFilters\<close> drops the \<open>n\<close> filters of a region that were added last and returns the charge
  they had: their size when \<open>USE_REAL_SIZE\<close> is defined, else their bits per key. It does
  nothing when fewer than \<open>n\<close> are loaded.
\<close>

primrec RemoveFilters_loop ::
  "bool \<Rightarrow> (nat \<Rightarrow> nat) \<Rightarrow> nat \<Rightarrow> nat \<Rightarrow> FilterBlockReader \<Rightarrow> nat \<times> FilterBlockReader" where
  "RemoveFilters_loop real_size bits_per_key 0 regionId r = (0, r)"
| "RemoveFilters_loop real_size bits_per_key (Suc n) regionId r =
     (let i = curr_num_of_filters_regions r ! regionId - 1;
          data_size = region_data_size (filter_offsets r ! i) (regionFilters r) (num_regions r) regionId;
          r' = r\<lparr>datas := (datas r)[regionId := butlast (datas r ! regionId)],
                 curr_num_of_filters_regions := (curr_num_of_filters_regions r)[regionId := i]\<rparr>;
          (delta, r'') = RemoveFilters_loop real_size bits_per_key n regionId r'
      in ((if real_size then data_size else bits_per_key i) + delta, r''))"

definition FilterBlockReader_RemoveFilters ::
  "bool \<Rightarrow> (nat \<Rightarrow> nat) \<Rightarrow> nat \<Rightarrow> nat \<Rightarrow> FilterBlockReader \<Rightarrow> nat \<times> FilterBlockReader" where
  "FilterBlockReader_RemoveFilters real_size bits_per_key n regionId r =
     (if n > curr_num_of_filters_regions r ! regionId then (0, r)
      else RemoveFilters_loop real_size bits_per_key n regionId r)"

text \<open>
  The filters of one region consulted for one block: \<open>None\<close> when an offset pair is out of
  order (\<open>KeyMayMatch\<close> then answers \<open>false\<close>).
\<close>

primrec gather_filters ::
  "FilterBlockReader \<Rightarrow> nat \<Rightarrow> nat \<Rightarrow> nat list \<Rightarrow> slice list option" where
  "gather_filters r regionId index [] = Some []"
| "gather_filters r regionId index (i # is) =
     (let start = filter_offsets r ! i ! index;
          limit = filter_offsets r ! i ! (index + 1);
          region_index = regionId * regionFilters r;
          region_start = start - filter_offsets r ! i ! region_index
      in if start \<le> limit then
           map_option ((#) (take (unat (limit - start)) (drop (unat region_start) (datas r ! regionId ! i))))
             (gather_filters r regionId index is)
         else None)"

text \<open>
  \<open>KeyMayMatch\<close>; \<open>None\<close> stands for undefined behaviour: the division by \<open>regionFilters\<close> when
  that is 0, or the policy running out of child filters.
\<close>

definition FilterBlockReader_KeyMayMatch ::
  "(slice \<Rightarrow> slice list \<Rightarrow> bool option) \<Rightarrow> nat \<Rightarrow> slice \<Rightarrow> FilterBlockReader \<Rightarrow> bool option" where
  "FilterBlockReader_KeyMayMatch KeyMayMatchFilters block_offset key r =
     (let index = block_offset div 2 ^ base_lg r in
      if regionFilters r = 0 then None
      else let regionId = index div regionFilters r in
        if index < num_entries r \<and> curr_num_of_filters_regions r ! regionId > 0 then
          (case gather_filters r regionId index [0..<curr_num_of_filters_regions r ! regionId] of
             None \<Rightarrow> Some False
           | Some filters \<Rightarrow> KeyMayMatchFilters key filters)
        else Some True)"

subsection \<open>What the builder has built\<close>

text \<open>
  Abstractly a builder is the list of the key groups it has made filters for, one per 64 KB,
  and the list of keys added since. The part of string \<open>i\<close> made for a group is empty for an
  empty group and the i-th filter of the group otherwise.
\<close>

definition group_part :: "(slice list \<Rightarrow> slice list) \<Rightarrow> nat \<Rightarrow> slice list \<Rightarrow> slice" where
  "group_part summaries i g = (if g = [] then [] else summaries g ! i)"

definition group_pos :: "(slice list \<Rightarrow> slice list) \<Rightarrow> nat \<Rightarrow> slice list list \<Rightarrow> nat \<Rightarrow> nat" where
  "group_pos summaries i gs j = length (concat (map (group_part summaries i) (take j gs)))"

definition key_starts :: "slice list \<Rightarrow> nat list" where
  "key_starts ks = map (\<lambda>i. length (concat (take i ks))) [0..<length ks]"

definition fb_rel ::
  "(slice list \<Rightarrow> slice list) \<Rightarrow> nat \<Rightarrow> FilterBlockBuilder \<Rightarrow> slice list list \<Rightarrow> slice list \<Rightarrow> bool" where
  "fb_rel summaries n b gs pending \<longleftrightarrow>
     keys_buf b = concat pending \<and> start_idx b = key_starts pending \<and>
     results b = map (\<lambda>i. concat (map (group_part summaries i) gs)) [0..<n] \<and>
     filters_offsets b =
       map (\<lambda>i. map (\<lambda>j. of_nat (group_pos summaries i gs j)) [0..<length gs]) [0..<n]"

lemma key_starts_snoc: "key_starts (ks @ [k]) = key_starts ks @ [length (concat ks)]"
  by (auto simp: key_starts_def intro: nth_equalityI)

lemma length_key_starts [simp]: "length (key_starts ks) = length ks"
  by (simp add: key_starts_def)

lemma take_concat_nth:
  assumes "i < length ks"
  shows "take (length (concat (take (Suc i) ks)) - length (concat (take i ks)))
           (drop (length (concat (take i ks))) (concat ks)) = ks ! i"
proof -
  have "ks = take i ks @ ks ! i # drop (Suc i) ks"
    using assms by (simp add: id_take_nth_drop)
  then have "concat ks = concat (take i ks) @ ks ! i @ concat (drop (Suc i) ks)"
    by (metis concat.simps(2) concat_append)
  then show ?thesis
    using assms by (simp add: take_Suc_conv_app_nth)
qed

lemma flat_keys_key_starts: "flat_keys (concat ks) (key_starts ks) = ks"
proof -
  have "(key_starts ks @ [length (concat ks)]) ! i = length (concat (take i ks))" if "i \<le> length ks" for i
    using that by (auto simp: key_starts_def nth_append)
  then show ?thesis
    by (auto simp: flat_keys_def Let_def take_concat_nth intro!: nth_equalityI)
qed

lemma group_pos_snoc:
  "j \<le> length gs \<Longrightarrow> group_pos f i (gs @ [g]) j = group_pos f i gs j"
  by (simp add: group_pos_def)

lemma group_positions_snoc:
  "map (\<lambda>j. of_nat (group_pos f i (gs @ [g]) j)) [0..<Suc (length gs)] =
     map (\<lambda>j. of_nat (group_pos f i gs j)) [0..<length gs] @
     [of_nat (length (concat (map (group_part f i) gs))) :: u32]"
  by (simp add: group_pos_snoc group_pos_def)

lemma fb_rel_new: "fb_rel summaries n (new_FilterBlockBuilder n) [] []"
  by (auto simp: fb_rel_def new_FilterBlockBuilder_def key_starts_def intro: nth_equalityI)

lemma fb_rel_AddKey:
  "fb_rel summaries n b gs pending \<Longrightarrow>
   fb_rel summaries n (FilterBlockBuilder_AddKey key b) gs (pending @ [key])"
  by (simp add: fb_rel_def FilterBlockBuilder_AddKey_def key_starts_snoc)

context filter_policy
begin

lemma GenerateFilter_rel:
  assumes "fb_rel summaries filterNums b gs pending"
  shows "\<exists>b'. GenerateFilter CreateFilter b = Some b' \<and> fb_rel summaries filterNums b' (gs @ [pending]) []"
proof -
  have offs: "push_offsets (filters_offsets b) (results b) =
      map (\<lambda>i. map (\<lambda>j. of_nat (group_pos summaries i (gs @ [pending]) j)) [0..<Suc (length gs)]) [0..<filterNums]"
    using assms unfolding fb_rel_def push_offsets_def group_positions_snoc
    by (auto intro!: nth_equalityI)
  show ?thesis
  proof (cases "pending = []")
    case True
    with assms offs show ?thesis
      by (auto simp: GenerateFilter_def fb_rel_def Let_def key_starts_def group_part_def)
  next
    case False
    moreover have "flat_keys (keys_buf b) (start_idx b) = pending"
      using assms by (simp add: fb_rel_def flat_keys_key_starts)
    moreover have "CreateFilter pending (results b) = Some (map2 (@) (results b) (summaries pending))"
      using assms by (intro create_appends) (simp add: fb_rel_def)
    moreover have "map2 (@) (results b) (summaries pending) =
        map (\<lambda>i. concat (map (group_part summaries i) (gs @ [pending]))) [0..<filterNums]"
      using assms False summaries_length [of pending]
      by (auto simp: fb_rel_def group_part_def intro!: nth_equalityI)
    moreover have "start_idx b \<noteq> []"
      using assms False by (metis fb_rel_def length_0_conv length_key_starts)
    ultimately show ?thesis
      using offs by (simp add: GenerateFilter_def Let_def fb_rel_def key_starts_def)
  qed
qed

lemma GenerateFilters_rel:
  assumes "fb_rel summaries filterNums b gs pending"
  shows "\<exists>b'. GenerateFilters CreateFilter n b = Some b' \<and>
     fb_rel summaries filterNums b' (gs @ (if n = 0 then [] else pending # replicate (n - 1) []))
       (if n = 0 then pending else [])"
  using assms
proof (induction n arbitrary: b gs pending)
  case (Suc n)
  obtain b1 where b1: "GenerateFilter CreateFilter b = Some b1"
    "fb_rel summaries filterNums b1 (gs @ [pending]) []"
    using GenerateFilter_rel [OF Suc.prems] by blast
  with Suc.IH [OF b1(2)] show ?case
    by (cases n) auto
qed simp

lemma fb_rel_offsets_length:
  "fb_rel summaries filterNums b gs pending \<Longrightarrow> 0 < filterNums \<Longrightarrow>
   length (hd (filters_offsets b)) = length gs"
  by (simp add: fb_rel_def hd_map upt_conv_Cons)

text \<open>
  After \<open>StartBlock\<close> the next group to be made is the one of the block's 64 KB, so the exit
  condition of its loop holds. The keys that were pending go to the first group it makes.
\<close>

lemma StartBlock_rel:
  assumes "fb_rel summaries filterNums b gs pending" "0 < filterNums"
    "length gs \<le> off div kFilterBase"
  shows "\<exists>b' gs' pending'. FilterBlockBuilder_StartBlock CreateFilter off b = Some b' \<and>
     fb_rel summaries filterNums b' gs' pending' \<and> length gs' = off div kFilterBase \<and>
     (if length gs = off div kFilterBase then gs' = gs \<and> pending' = pending
      else gs' = gs @ pending # replicate (off div kFilterBase - length gs - 1) [] \<and> pending' = [])"
  using GenerateFilters_rel [OF assms(1), of "off div kFilterBase - length gs"]
    fb_rel_offsets_length [OF assms(1,2)] assms(3)
  by (auto simp: FilterBlockBuilder_StartBlock_def Let_def split: if_splits)

end

subsection \<open>Feeding blocks to the builder\<close>

text \<open>
  The table builder calls \<open>StartBlock\<close> with the offset of every data block and then \<open>AddKey\<close> for
  each key of the block (table/table_builder.cc), with increasing offsets.
\<close>

definition feed_block ::
  "(slice list \<Rightarrow> slice list \<Rightarrow> slice list option) \<Rightarrow> nat \<times> slice list \<Rightarrow> FilterBlockBuilder \<Rightarrow> FilterBlockBuilder option" where
  "feed_block CreateFilter blk b =
     map_option (\<lambda>b. fold FilterBlockBuilder_AddKey (snd blk) b)
       (FilterBlockBuilder_StartBlock CreateFilter (fst blk) b)"

primrec feed_blocks ::
  "(slice list \<Rightarrow> slice list \<Rightarrow> slice list option) \<Rightarrow> (nat \<times> slice list) list \<Rightarrow> FilterBlockBuilder \<Rightarrow> FilterBlockBuilder option" where
  "feed_blocks CreateFilter [] b = Some b"
| "feed_blocks CreateFilter (blk # blks) b =
     Option.bind (feed_block CreateFilter blk b) (feed_blocks CreateFilter blks)"

lemma fb_rel_AddKeys:
  "fb_rel summaries n b gs pending \<Longrightarrow>
   fb_rel summaries n (fold FilterBlockBuilder_AddKey ks b) gs (pending @ ks)"
proof (induction ks arbitrary: b pending)
  case (Cons k ks)
  from Cons.IH [OF fb_rel_AddKey [OF Cons.prems]] show ?case by simp
qed simp

text \<open>The groups in which a key of a block can be found: closed, or the pending one.\<close>

definition in_group :: "slice list list \<Rightarrow> slice list \<Rightarrow> nat \<Rightarrow> slice \<Rightarrow> bool" where
  "in_group gs pending off key \<longleftrightarrow>
     off div kFilterBase < length (gs @ [pending]) \<and> key \<in> set ((gs @ [pending]) ! (off div kFilterBase))"

context filter_policy
begin

lemma feed_blocks_rel:
  assumes "0 < filterNums" "fb_rel summaries filterNums b gs pending"
    "sorted (map fst blks)" "\<forall>(off, ks) \<in> set blks. length gs \<le> off div kFilterBase"
  shows "\<exists>b' gs' pending'. feed_blocks CreateFilter blks b = Some b' \<and>
     fb_rel summaries filterNums b' gs' pending' \<and>
     (\<forall>off key. in_group gs pending off key \<longrightarrow> in_group gs' pending' off key) \<and>
     (\<forall>(off, ks) \<in> set blks. \<forall>key \<in> set ks. in_group gs' pending' off key)"
  using assms(2-)
proof (induction blks arbitrary: b gs pending)
  case (Cons blk blks)
  obtain off ks where blk: "blk = (off, ks)" by fastforce
  have le: "length gs \<le> off div kFilterBase" using Cons.prems(3) by (simp add: blk)
  obtain b1 gs1 p1 where s1: "FilterBlockBuilder_StartBlock CreateFilter off b = Some b1"
    "fb_rel summaries filterNums b1 gs1 p1" "length gs1 = off div kFilterBase"
    "if length gs = off div kFilterBase then gs1 = gs \<and> p1 = pending
      else gs1 = gs @ pending # replicate (off div kFilterBase - length gs - 1) [] \<and> p1 = []"
    using StartBlock_rel [OF Cons.prems(1) assms(1) le] by blast
  have keep: "in_group gs1 p1 o' k" if "in_group gs pending o' k" for o' k
    using that s1(4) by (auto simp: in_group_def nth_append split: if_splits)
  let ?b2 = "fold FilterBlockBuilder_AddKey ks b1"
  have b2: "fb_rel summaries filterNums ?b2 gs1 (p1 @ ks)"
    by (rule fb_rel_AddKeys [OF s1(2)])
  have later: "\<forall>(o', ks) \<in> set blks. length gs1 \<le> o' div kFilterBase"
    using Cons.prems(2) s1(3) by (force simp: blk intro: div_le_mono)
  obtain b' gs' p' where ih: "feed_blocks CreateFilter blks ?b2 = Some b'"
    "fb_rel summaries filterNums b' gs' p'"
    "\<And>o' k. in_group gs1 (p1 @ ks) o' k \<Longrightarrow> in_group gs' p' o' k"
    "\<forall>(o', ks) \<in> set blks. \<forall>k \<in> set ks. in_group gs' p' o' k"
    using Cons.IH [OF b2 _ later] Cons.prems(2) by auto
  have grow: "in_group gs1 p1 o' k \<Longrightarrow> in_group gs1 (p1 @ ks) o' k" for o' k
    by (auto simp: in_group_def nth_append split: if_splits)
  have own: "in_group gs1 (p1 @ ks) off k" if "k \<in> set ks" for k
    using that s1(3) by (simp add: in_group_def nth_append)
  show ?case
    using s1(1) ih keep grow own
    by (intro exI [of _ b'] exI [of _ gs'] exI [of _ p']) (auto simp: blk feed_block_def)
qed auto

end

end
