(* ===== verification/Format.thy ===== *)
theory Format
  imports Crc32c
begin

text \<open>
  The table file format of table/format.h and table/format.cc: block handles, the footer and
  the reading of a stored block with its type byte and checksum. A function that returns a
  non-OK \<open>Status\<close> in the source is in \<open>Inl\<close> here, a result in \<open>Inr\<close>. The file, the
  decompressor and the checksum are parameters.
\<close>

subsection \<open>Block handles\<close>

record BlockHandle =
  bh_offset :: u64
  bh_size :: u64

definition BlockHandle_EncodeTo :: "BlockHandle \<Rightarrow> slice \<Rightarrow> slice" where
  "BlockHandle_EncodeTo h dst = PutVarint64 (PutVarint64 dst (bh_offset h)) (bh_size h)"

definition BlockHandle_DecodeFrom :: "slice \<Rightarrow> status + BlockHandle \<times> slice" where
  "BlockHandle_DecodeFrom input =
     (case GetVarint64 input of
        None \<Rightarrow> Inl (Corruption ''bad block handle'')
      | Some (o1, input1) \<Rightarrow>
          (case GetVarint64 input1 of
             None \<Rightarrow> Inl (Corruption ''bad block handle'')
           | Some (s, input2) \<Rightarrow> Inr (\<lparr>bh_offset = o1, bh_size = s\<rparr>, input2)))"

definition kMaxEncodedLength :: nat where "kMaxEncodedLength = 10 + 10"

subsection \<open>The footer\<close>

record Footer =
  metaindex_handle :: BlockHandle
  index_handle :: BlockHandle

definition kEncodedLength :: nat where "kEncodedLength = 2 * kMaxEncodedLength + 8"
definition kTableMagicNumber :: u64 where "kTableMagicNumber = 0xdb4775248b80fb57"
definition kBlockTrailerSize :: nat where "kBlockTrailerSize = 5"

text \<open>\<open>std::string::resize\<close>: cut off, or filled up with zero bytes.\<close>

definition resize :: "nat \<Rightarrow> slice \<Rightarrow> slice" where
  "resize n s = take n s @ replicate (n - length s) 0"

definition Footer_EncodeTo :: "Footer \<Rightarrow> slice \<Rightarrow> slice" where
  "Footer_EncodeTo f dst =
     (let d1 = BlockHandle_EncodeTo (metaindex_handle f) dst;
          d2 = BlockHandle_EncodeTo (index_handle f) d1;
          d3 = resize (2 * kMaxEncodedLength) d2;
          d4 = PutFixed32 d3 (ucast (kTableMagicNumber AND 0xffffffff))
      in PutFixed32 d4 (ucast (drop_bit 32 kTableMagicNumber)))"

text \<open>The input holds at least \<open>kEncodedLength\<close> bytes (checked by the only caller).\<close>

definition Footer_DecodeFrom :: "slice \<Rightarrow> status + Footer \<times> slice" where
  "Footer_DecodeFrom input =
     (let magic_ptr = drop (kEncodedLength - 8) input;
          magic_lo = DecodeFixed32 magic_ptr;
          magic_hi = DecodeFixed32 (drop 4 magic_ptr);
          magic = (push_bit 32 (ucast magic_hi) OR ucast magic_lo :: u64)
      in if magic \<noteq> kTableMagicNumber then Inl (Corruption ''not an sstable (bad magic number)'')
         else case BlockHandle_DecodeFrom input of
                Inl e \<Rightarrow> Inl e
              | Inr (m, input1) \<Rightarrow>
                  (case BlockHandle_DecodeFrom input1 of
                     Inl e \<Rightarrow> Inl e
                   | Inr (i, input2) \<Rightarrow>
                       Inr (\<lparr>metaindex_handle = m, index_handle = i\<rparr>, drop 8 magic_ptr)))"

subsection \<open>Reading blocks\<close>

datatype CompressionType = kNoCompression | kSnappyCompression

primrec compression_code :: "CompressionType \<Rightarrow> byte" where
  "compression_code kNoCompression = 0"
| "compression_code kSnappyCompression = 1"

record BlockContents =
  bc_data :: slice
  cachable :: bool
  heap_allocated :: bool

text \<open>
  A file read returns the bytes and whether they are in the caller's buffer (\<open>data == buf\<close>)
  or in memory of the file implementation. \<open>snappy_length\<close> and \<open>snappy_uncompress\<close> stand for
  the port's wrapper of the Snappy library; \<open>crc\<close> for \<open>crc32c::Value\<close>.
\<close>

definition decode_block ::
  "(slice \<Rightarrow> nat option) \<Rightarrow> (slice \<Rightarrow> slice option) \<Rightarrow> bool \<Rightarrow> nat \<Rightarrow> slice \<Rightarrow> status + BlockContents" where
  "decode_block snappy_length snappy_uncompress in_buf n contents =
     (if contents ! n = compression_code kNoCompression then
        Inr \<lparr>bc_data = take n contents, cachable = in_buf, heap_allocated = in_buf\<rparr>
      else if contents ! n = compression_code kSnappyCompression then
        (case snappy_length (take n contents) of
           None \<Rightarrow> Inl (Corruption ''corrupted compressed block contents'')
         | Some ulength \<Rightarrow>
             (case snappy_uncompress (take n contents) of
                None \<Rightarrow> Inl (Corruption ''corrupted compressed block contents'')
              | Some ubuf \<Rightarrow> Inr \<lparr>bc_data = take ulength ubuf, cachable = True, heap_allocated = True\<rparr>))
      else Inl (Corruption ''bad block type''))"

definition ReadBlock ::
  "(nat \<Rightarrow> nat \<Rightarrow> status + slice \<times> bool) \<Rightarrow> (slice \<Rightarrow> nat option) \<Rightarrow> (slice \<Rightarrow> slice option) \<Rightarrow>
   (slice \<Rightarrow> u32) \<Rightarrow> bool \<Rightarrow> BlockHandle \<Rightarrow> status + BlockContents" where
  "ReadBlock Read snappy_length snappy_uncompress crc verify_checksums handle =
     (let n = unat (bh_size handle) in
      case Read (unat (bh_offset handle)) (n + kBlockTrailerSize) of
        Inl e \<Rightarrow> Inl e
      | Inr (contents, in_buf) \<Rightarrow>
          if length contents \<noteq> n + kBlockTrailerSize then Inl (Corruption ''truncated block read'')
          else if verify_checksums \<and>
                  crc (take (n + 1) contents) \<noteq> Unmask (DecodeFixed32 (drop (n + 1) contents))
          then Inl (Corruption ''block checksum mismatch'')
          else decode_block snappy_length snappy_uncompress in_buf n contents)"

text \<open>
  \<open>ReadBlocks\<close> reads \<open>n\<close> consecutive blocks with one scattered read (\<open>Reads\<close>) and checks only the
  total length; the checksums are not verified whatever the options say. All blocks go
  through the flag of the first one.
\<close>

primrec decode_blocks ::
  "(slice \<Rightarrow> nat option) \<Rightarrow> (slice \<Rightarrow> slice option) \<Rightarrow> bool \<Rightarrow> (BlockHandle \<times> slice) list \<Rightarrow> status + BlockContents list" where
  "decode_blocks snappy_length snappy_uncompress cache_flag [] = Inr []"
| "decode_blocks snappy_length snappy_uncompress cache_flag (hc # hcs) =
     (case decode_block snappy_length snappy_uncompress cache_flag (unat (bh_size (fst hc))) (snd hc) of
        Inl e \<Rightarrow> Inl e
      | Inr b \<Rightarrow>
          (case decode_blocks snappy_length snappy_uncompress cache_flag hcs of
             Inl e \<Rightarrow> Inl e
           | Inr bs \<Rightarrow> Inr (b # bs)))"

definition ReadBlocks ::
  "(nat \<Rightarrow> nat list \<Rightarrow> status + slice list \<times> bool) \<Rightarrow> (slice \<Rightarrow> nat option) \<Rightarrow> (slice \<Rightarrow> slice option) \<Rightarrow>
   BlockHandle list \<Rightarrow> status + BlockContents list" where
  "ReadBlocks Reads snappy_length snappy_uncompress handles =
     (let lens = map (\<lambda>h. unat (bh_size h) + kBlockTrailerSize) handles in
      case Reads (unat (bh_offset (handles ! 0))) lens of
        Inl e \<Rightarrow> Inl e
      | Inr (contents, cache_flag) \<Rightarrow>
          if sum_list (map length contents) \<noteq> sum_list lens then Inl (Corruption ''truncated block read'')
          else decode_blocks snappy_length snappy_uncompress cache_flag (zip handles contents))"

text \<open>The stored form of a block (\<open>WriteRawBlock\<close> of table/table_builder.cc): contents, type, masked checksum.\<close>

definition raw_block :: "(u32 \<Rightarrow> slice \<Rightarrow> u32) \<Rightarrow> slice \<Rightarrow> CompressionType \<Rightarrow> slice" where
  "raw_block crc_extend block_contents t =
     (let trailer0 = [compression_code t];
          crc = crc_extend (crc_extend 0 block_contents) trailer0
      in block_contents @ trailer0 @ EncodeFixed32 (Mask crc))"

subsection \<open>Round trips\<close>

lemma BlockHandle_EncodeTo_eq:
  "BlockHandle_EncodeTo h dst = dst @ EncodeVarint64 (bh_offset h) @ EncodeVarint64 (bh_size h)"
  by (simp add: BlockHandle_EncodeTo_def PutVarint64_def)

lemma BlockHandle_roundtrip [simp, codec_simps]:
  "BlockHandle_DecodeFrom (BlockHandle_EncodeTo h [] @ rest) = Inr (h, rest)"
  "BlockHandle_DecodeFrom (BlockHandle_EncodeTo h []) = Inr (h, [])"
  using GetVarint64_Encode(1) [of "bh_size h" "[]"]
  by (simp_all add: BlockHandle_DecodeFrom_def BlockHandle_EncodeTo_eq)

interpretation block_handle: prefix_codec "\<lambda>h. BlockHandle_EncodeTo h []"
    "\<lambda>input. case BlockHandle_DecodeFrom input of Inl _ \<Rightarrow> None | Inr r \<Rightarrow> Some r" "\<lambda>_. True"
  by unfold_locales simp

lemma length_resize [simp, len_simps]: "length (resize n s) = n"
  by (simp add: resize_def)

lemma resize_append: "length s \<le> n \<Longrightarrow> resize n s = s @ replicate (n - length s) 0"
  by (simp add: resize_def)

lemma length_EncodeVarint64_le: "length (EncodeVarint64 v) \<le> 10"
  using length_EncodeVarint by blast

lemma length_BlockHandle_EncodeTo: "length (BlockHandle_EncodeTo h []) \<le> kMaxEncodedLength"
  using length_EncodeVarint64_le [of "bh_offset h"] length_EncodeVarint64_le [of "bh_size h"]
  by (simp add: BlockHandle_EncodeTo_eq kMaxEncodedLength_def)

lemma Footer_EncodeTo_eq:
  "\<exists>pad. Footer_EncodeTo f [] = BlockHandle_EncodeTo (metaindex_handle f) [] @
      BlockHandle_EncodeTo (index_handle f) [] @ pad @ EncodeFixed64 kTableMagicNumber \<and>
     length (BlockHandle_EncodeTo (metaindex_handle f) [] @
      BlockHandle_EncodeTo (index_handle f) [] @ pad) = 40"
proof -
  let ?h = "BlockHandle_EncodeTo (metaindex_handle f) [] @ BlockHandle_EncodeTo (index_handle f) []"
  have len: "length ?h \<le> 40"
    using length_BlockHandle_EncodeTo [of "metaindex_handle f"] length_BlockHandle_EncodeTo [of "index_handle f"]
    by (simp add: kMaxEncodedLength_def)
  have magic: "(15800726617472432983 :: u32) = 2340485975" by code_simp
  have "Footer_EncodeTo f [] = resize 40 ?h @ EncodeFixed64 kTableMagicNumber"
    by (simp add: Footer_EncodeTo_def Let_def kMaxEncodedLength_def PutFixed32_def BlockHandle_EncodeTo_eq
        EncodeFixed64_halves kTableMagicNumber_def magic)
  with len show ?thesis
    by (intro exI [of _ "replicate (40 - length ?h) 0"]) (simp add: resize_append)
qed

lemma Footer_roundtrip_rest:
  "Footer_DecodeFrom (Footer_EncodeTo f [] @ rest) = Inr (f, rest)"
  "length (Footer_EncodeTo f []) = kEncodedLength"
proof -
  obtain pad where enc: "Footer_EncodeTo f [] = BlockHandle_EncodeTo (metaindex_handle f) [] @
      BlockHandle_EncodeTo (index_handle f) [] @ pad @ EncodeFixed64 kTableMagicNumber"
    and len: "length (BlockHandle_EncodeTo (metaindex_handle f) [] @
      BlockHandle_EncodeTo (index_handle f) [] @ pad) = 40"
    using Footer_EncodeTo_eq by blast
  have "drop 40 (Footer_EncodeTo f [] @ rest) = EncodeFixed64 kTableMagicNumber @ rest"
    using len by (simp add: enc)
  then show "Footer_DecodeFrom (Footer_EncodeTo f [] @ rest) = Inr (f, rest)"
    using DecodeFixed64_EncodeFixed64 [of kTableMagicNumber rest]
    by (simp add: Footer_DecodeFrom_def Let_def kEncodedLength_def kMaxEncodedLength_def DecodeFixed64_def)
      (simp add: enc)
  show "length (Footer_EncodeTo f []) = kEncodedLength"
    using len by (simp add: enc kEncodedLength_def kMaxEncodedLength_def)
qed

lemma length_raw_block: "length (raw_block ext b t) = length b + kBlockTrailerSize"
  by (simp add: raw_block_def Let_def kBlockTrailerSize_def)

lemma raw_block_crc:
  "Unmask (DecodeFixed32 (drop (length b + 1) (raw_block ext b t))) = ext (ext 0 b) [compression_code t]"
  by (simp add: raw_block_def Let_def)

text \<open>A file that holds a stored block at the handle's position.\<close>

definition stored_at :: "(nat \<Rightarrow> nat \<Rightarrow> status + slice \<times> bool) \<Rightarrow> BlockHandle \<Rightarrow> slice \<Rightarrow> bool" where
  "stored_at Read h blk \<longleftrightarrow>
     length blk = unat (bh_size h) + kBlockTrailerSize \<and>
     (\<exists>in_buf. Read (unat (bh_offset h)) (unat (bh_size h) + kBlockTrailerSize) = Inr (blk, in_buf))"

text \<open>
  C18. A block written with its type byte and masked checksum is read back as it was, with and
  without checksum verification: the verification never rejects an intact block. The
  checksum function only has to be a running one (\<open>Value\<close> of a string extended by a byte).
\<close>

theorem ReadBlock_raw_block:
  assumes "stored_at Read h (raw_block ext b kNoCompression)"
    and "\<And>bs. ext (ext 0 b) bs = ext 0 (b @ bs)"
  shows "\<exists>in_buf. ReadBlock Read sl su (ext 0) verify h =
     Inr \<lparr>bc_data = b, cachable = in_buf, heap_allocated = in_buf\<rparr>"
proof -
  let ?blk = "raw_block ext b kNoCompression"
  have n: "unat (bh_size h) = length b"
    using assms(1) by (simp add: stored_at_def length_raw_block)
  have "take (length b + 1) ?blk = b @ [0]" "?blk ! length b = 0" "take (length b) ?blk = b"
    by (simp_all add: raw_block_def Let_def)
  with assms n raw_block_crc [of b ext kNoCompression] show ?thesis
    by (auto simp: stored_at_def ReadBlock_def Let_def decode_block_def)
qed

theorem ReadBlock_raw_block_witness:
  "\<exists>in_buf. ReadBlock (\<lambda>off n. Inr (raw_block (Extend_portable 0) [7, 9] kNoCompression, True))
      (\<lambda>_. None) (\<lambda>_. None) (Extend_portable 0 0) True \<lparr>bh_offset = 0, bh_size = 2\<rparr> =
     Inr \<lparr>bc_data = [7, 9], cachable = in_buf, heap_allocated = in_buf\<rparr>"
proof (rule ReadBlock_raw_block)
  show "stored_at (\<lambda>off n. Inr (raw_block (Extend_portable 0) [7, 9] kNoCompression, True))
      \<lparr>bh_offset = 0, bh_size = 2\<rparr> (raw_block (Extend_portable 0) [7, 9] kNoCompression)"
    by (auto simp: stored_at_def length_raw_block)
qed (rule Extend_portable_append)

end
