(* ===== verification/TableFilters.thy ===== *)
theory TableFilters
  imports FilterBlock Format
begin

text \<open>
  The filter management of a table (table/table.cc): how the offset arrays of the filter
  strings are read from the meta-index block, how filter strings are cut into regions, and how
  filters are loaded and dropped per region while the table is open. The file, the width of a
  region (\<open>rds\<close>, the option \<open>region_divide_size\<close>), the bits per key of the filters and the
  compile-time switch \<open>USE_REAL_SIZE\<close> are parameters. The global counters \<open>filter_mem_space\<close>
  and \<open>filter_num\<close> and the time measurements are statistics and are left out.
\<close>

subsection \<open>State\<close>

record Table =
  tfilter :: "FilterBlockReader option"
  filter_datas :: "slice list list"
  filter_handles :: "slice list"
  offsets :: "u32 list list"
  table_base_lg :: nat

subsection \<open>Offset arrays\<close>

text \<open>One offset array: the entries, the length of the data as the last one, then \<open>base_lg\<close>.\<close>

definition parse_offsets :: "slice \<Rightarrow> u32 list" where
  "parse_offsets contents =
     (let num = (length contents - 5) div 4
      in map (\<lambda>i. DecodeFixed32 (drop (i * 4) contents)) [0..<num + 1])"

text \<open>
  The loop of \<open>ReadMeta\<close> over the filters: a filter with as many bits per key as its
  predecessor shares the predecessor's array, any other takes the next stored one.
\<close>

fun ReadMeta_offsets :: "nat option \<Rightarrow> nat list \<Rightarrow> slice list \<Rightarrow> Table \<Rightarrow> Table" where
  "ReadMeta_offsets prev [] vals t = t"
| "ReadMeta_offsets prev (b # bits) vals t =
     (if prev = Some b then ReadMeta_offsets prev bits vals (t\<lparr>offsets := offsets t @ [last (offsets t)]\<rparr>)
      else case vals of
             [] \<Rightarrow> t
           | v # vs \<Rightarrow>
               ReadMeta_offsets (Some b) bits vs
                 (t\<lparr>offsets := offsets t @ [parse_offsets v], table_base_lg := unat (last v)\<rparr>))"

text \<open>\<open>ReadMeta\<close> then makes room for the regions and collects the handles of the filter strings.\<close>

subsection \<open>Regions\<close>

definition getRegionNum :: "nat \<Rightarrow> Table \<Rightarrow> nat" where
  "getRegionNum rds t =
     (if length (offsets t) = 0 then 0
      else let data_size = (length (offsets t ! 0) - 1) * 2 ^ table_base_lg t
           in (data_size + rds - 1) div rds)"

definition regionOffset :: "nat \<Rightarrow> Table \<Rightarrow> nat" where
  "regionOffset rds t = rds div 2 ^ table_base_lg t"

definition getCurrFilterNum :: "nat \<Rightarrow> Table \<Rightarrow> nat" where
  "getCurrFilterNum regionId t =
     (case tfilter t of None \<Rightarrow> 0 | Some r \<Rightarrow> curr_num_of_filters_regions r ! regionId)"

definition getCurrFiltersSize :: "nat \<Rightarrow> Table \<Rightarrow> nat" where
  "getCurrFiltersSize regionId t =
     (if tfilter t = None then 0
      else sum_list (map (\<lambda>i. length (filter_datas t ! regionId ! i)) [0..<getCurrFilterNum regionId t]))"

definition ReadMeta :: "nat \<Rightarrow> nat list \<Rightarrow> slice list \<Rightarrow> slice list \<Rightarrow> Table \<Rightarrow> Table" where
  "ReadMeta rds bits_per_key offset_values handle_values t =
     (let t1 = (if offset_values = [] then t
                else let t0 = ReadMeta_offsets None bits_per_key offset_values t
                     in t0\<lparr>filter_datas := filter_datas t0 @ replicate (getRegionNum rds t0) []\<rparr>)
      in t1\<lparr>filter_handles := filter_handles t1 @ handle_values\<rparr>)"

text \<open>\<open>new FilterBlockReader\<close> exits the process when there is no region (\<open>None\<close>).\<close>

definition ensure_filter :: "nat \<Rightarrow> Table \<Rightarrow> Table option" where
  "ensure_filter rds t =
     (case tfilter t of
        Some r \<Rightarrow> Some t
      | None \<Rightarrow> map_option (\<lambda>r. t\<lparr>tfilter := Some r\<rparr>)
          (new_FilterBlockReader (getRegionNum rds t) (regionOffset rds t) (table_base_lg t) (offsets t)))"

definition add_to_filter :: "slice \<Rightarrow> nat \<Rightarrow> Table \<Rightarrow> Table" where
  "add_to_filter contents regionId t =
     t\<lparr>tfilter := map_option (FilterBlockReader_AddFilter contents regionId) (tfilter t)\<rparr>"

subsection \<open>Loading filters\<close>

text \<open>
  \<open>ReadFilter\<close> for one region: reads the region's part of the next filter string from the
  file. The result is the charge and the table; the table is unchanged when the handle or the
  read fails.
\<close>

definition ReadFilter ::
  "nat \<Rightarrow> bool \<Rightarrow> (nat \<Rightarrow> nat) \<Rightarrow> (nat \<Rightarrow> nat \<Rightarrow> status + slice) \<Rightarrow> slice \<Rightarrow> nat \<Rightarrow> Table \<Rightarrow> (nat \<times> Table) option" where
  "ReadFilter rds real_size bits_per_key Read filter_handle_value regionId t =
     (case BlockHandle_DecodeFrom filter_handle_value of
        Inl _ \<Rightarrow> Some (0, t)
      | Inr (filter_handle, _) \<Rightarrow>
          let curr_filter_num = getCurrFilterNum regionId t;
              offs = offsets t ! curr_filter_num;
              loc = regionId * regionOffset rds t;
              data_size = region_data_size offs (regionOffset rds t) (getRegionNum rds t) regionId
          in case Read (unat (bh_offset filter_handle) + unat (offs ! loc)) data_size of
               Inl _ \<Rightarrow> Some (0, t)
             | Inr contents \<Rightarrow>
                 map_option (\<lambda>t. (if real_size then data_size else bits_per_key curr_filter_num,
                     add_to_filter contents regionId t))
                   (ensure_filter rds
                     (t\<lparr>filter_datas := (filter_datas t)[regionId := filter_datas t ! regionId @ [contents]]\<rparr>)))"

text \<open>\<open>while (n-- && curr_filter_num < filter_handles.size())\<close>\<close>

primrec AddFilters_loop ::
  "nat \<Rightarrow> bool \<Rightarrow> (nat \<Rightarrow> nat) \<Rightarrow> (nat \<Rightarrow> nat \<Rightarrow> status + slice) \<Rightarrow> nat \<Rightarrow> nat \<Rightarrow> nat \<Rightarrow> Table \<Rightarrow> (nat \<times> Table) option" where
  "AddFilters_loop rds real_size bits_per_key Read 0 curr_filter_num regionId t = Some (0, t)"
| "AddFilters_loop rds real_size bits_per_key Read (Suc n) curr_filter_num regionId t =
     (if curr_filter_num < length (filter_handles t) then
        case ReadFilter rds real_size bits_per_key Read (filter_handles t ! curr_filter_num) regionId t of
          None \<Rightarrow> None
        | Some (d, t') \<Rightarrow>
            map_option (\<lambda>(delta, t''). (d + delta, t''))
              (AddFilters_loop rds real_size bits_per_key Read n (curr_filter_num + 1) regionId t')
      else Some (0, t))"

definition AddFilters ::
  "nat \<Rightarrow> bool \<Rightarrow> (nat \<Rightarrow> nat) \<Rightarrow> (nat \<Rightarrow> nat \<Rightarrow> status + slice) \<Rightarrow> nat \<Rightarrow> nat \<Rightarrow> Table \<Rightarrow> (nat \<times> Table) option" where
  "AddFilters rds real_size bits_per_key Read n regionId t =
     Option.bind (ensure_filter rds t) (\<lambda>t.
       AddFilters_loop rds real_size bits_per_key Read n (getCurrFilterNum regionId t) regionId t)"

definition AdjustFilters ::
  "nat \<Rightarrow> bool \<Rightarrow> (nat \<Rightarrow> nat) \<Rightarrow> (nat \<Rightarrow> nat \<Rightarrow> status + slice) \<Rightarrow> nat \<Rightarrow> nat \<Rightarrow> Table \<Rightarrow> (nat \<times> Table) option" where
  "AdjustFilters rds real_size bits_per_key Read n regionId t =
     (if n > 0 then
        let curr_filter_num = getCurrFilterNum regionId t in
        if tfilter t = None then AddFilters rds real_size bits_per_key Read n regionId t
        else if n > curr_filter_num
        then AddFilters rds real_size bits_per_key Read (n - curr_filter_num) regionId t
        else Some (0, t)
      else Some (0, t))"

text \<open>
  \<open>ReadFilter\<close> for a range of regions: one read covers all of them, then it is cut up. The
  regions have the same number of loaded filters (asserted).
\<close>

definition region_range :: "nat \<Rightarrow> nat \<Rightarrow> nat list" where
  "region_range regionId_start regionId_end = [regionId_start..<regionId_end + 1]"

definition push_region :: "nat \<Rightarrow> nat \<times> slice \<Rightarrow> Table option \<Rightarrow> Table option" where
  "push_region rds rc tt =
     Option.bind tt (\<lambda>t.
       map_option (add_to_filter (snd rc) (fst rc))
         (ensure_filter rds (t\<lparr>filter_datas := (filter_datas t)[fst rc := filter_datas t ! fst rc @ [snd rc]]\<rparr>)))"

definition ReadFilter_range ::
  "nat \<Rightarrow> bool \<Rightarrow> (nat \<Rightarrow> nat) \<Rightarrow> (nat \<Rightarrow> nat \<Rightarrow> status + slice) \<Rightarrow> slice \<Rightarrow> nat \<Rightarrow> nat \<Rightarrow> Table \<Rightarrow> (nat list \<times> Table) option" where
  "ReadFilter_range rds real_size bits_per_key Read filter_handle_value regionId_start regionId_end t =
     (let regions = region_range regionId_start regionId_end in
      case BlockHandle_DecodeFrom filter_handle_value of
        Inl _ \<Rightarrow> Some (map (\<lambda>_. 0) regions, t)
      | Inr (filter_handle, _) \<Rightarrow>
          let curr_filter_num = getCurrFilterNum regionId_start t;
              offs = offsets t ! curr_filter_num;
              loc = (\<lambda>regionId. regionId * regionOffset rds t);
              data_size = region_data_size offs (regionOffset rds t) (getRegionNum rds t);
              offset_base = unat (offs ! loc regionId_start);
              offset_of = (\<lambda>regionId. unat (offs ! loc regionId) - offset_base);
              total = offset_of regionId_end + data_size regionId_end - offset_of regionId_start;
              delta = map (\<lambda>regionId. if real_size then data_size regionId else bits_per_key curr_filter_num) regions
          in case Read (unat (bh_offset filter_handle) + offset_base) total of
               Inl _ \<Rightarrow> Some (delta, t)
             | Inr buf \<Rightarrow>
                 map_option (\<lambda>t. (delta, t))
                   (fold (push_region rds)
                      (map (\<lambda>regionId. (regionId, take (data_size regionId) (drop (offset_of regionId) buf))) regions)
                      (Some t)))"

text \<open>
  \<open>ReadFilters\<close>, called when a table is opened: loads the first \<open>n\<close> filters of every region
  from whole filter blocks (from the table builder's copies, or read with one \<open>ReadBlocks\<close>).
\<close>

definition region_slice :: "nat \<Rightarrow> Table \<Rightarrow> u32 list \<Rightarrow> slice \<Rightarrow> nat \<Rightarrow> slice" where
  "region_slice rds t offs blk j =
     take (region_data_size offs (regionOffset rds t) (getRegionNum rds t) j)
       (drop (unat (offs ! (j * regionOffset rds t))) blk)"

definition push_part :: "nat \<Rightarrow> nat \<times> slice \<Rightarrow> nat \<Rightarrow> Table \<Rightarrow> Table" where
  "push_part rds ib j t = t\<lparr>filter_datas := (filter_datas t)[j :=
     filter_datas t ! j @ [region_slice rds t (offsets t ! fst ib) (snd ib) j]]\<rparr>"

definition load_block :: "nat \<Rightarrow> nat \<times> slice \<Rightarrow> Table option \<Rightarrow> Table option" where
  "load_block rds ib tt =
     Option.bind tt (\<lambda>t.
       let regions = [0..<getRegionNum rds t]
       in map_option (fold (\<lambda>j t. add_to_filter (filter_datas t ! j ! fst ib) j t) regions)
            (ensure_filter rds (fold (push_part rds ib) regions t)))"

definition ReadFilters :: "nat \<Rightarrow> slice list \<Rightarrow> Table \<Rightarrow> Table option" where
  "ReadFilters rds blocks t = fold (load_block rds) (enumerate 0 blocks) (Some t)"

text \<open>The charges \<open>ReadFilters\<close> computes for the regions.\<close>

definition ReadFilters_charge :: "nat \<Rightarrow> bool \<Rightarrow> (nat \<Rightarrow> nat) \<Rightarrow> nat \<Rightarrow> Table \<Rightarrow> nat list" where
  "ReadFilters_charge rds real_size bits_per_key n t =
     map (\<lambda>j. sum_list (map (\<lambda>i. if real_size
            then region_data_size (offsets t ! i) (regionOffset rds t) (getRegionNum rds t) j
            else bits_per_key i) [0..<n]))
       [0..<getRegionNum rds t]"

subsection \<open>Dropping filters\<close>

text \<open>
  \<open>RemoveFilters(-1)\<close> keeps one filter; it needs at least one loaded filter, otherwise the
  reader's \<open>while (n--)\<close> runs from -1 (\<open>None\<close>). For other \<open>n\<close> the table pops the buffers of up
  to \<open>n\<close> filters; the reader drops \<open>n\<close> filters or, if it has fewer, none.
\<close>

definition Table_RemoveFilters ::
  "bool \<Rightarrow> (nat \<Rightarrow> nat) \<Rightarrow> int \<Rightarrow> nat \<Rightarrow> Table \<Rightarrow> (nat \<times> Table) option" where
  "Table_RemoveFilters real_size bits_per_key n regionId t =
     (case tfilter t of
        None \<Rightarrow> Some (0, t)
      | Some r \<Rightarrow>
          let curr_filter_num = curr_num_of_filters_regions r ! regionId in
          if n = -1 then
            if curr_filter_num = 0 then None
            else let (delta, r') = FilterBlockReader_RemoveFilters real_size bits_per_key (curr_filter_num - 1) regionId r
                 in Some (delta, t\<lparr>tfilter := Some r',
                      filter_datas := (filter_datas t)[regionId :=
                        take (length (filter_datas t ! regionId) - (curr_filter_num - 1)) (filter_datas t ! regionId)]\<rparr>)
          else let (delta, r') = FilterBlockReader_RemoveFilters real_size bits_per_key (nat n) regionId r
               in Some (delta, t\<lparr>tfilter := Some r',
                    filter_datas := (filter_datas t)[regionId :=
                      take (length (filter_datas t ! regionId) - min (nat n) curr_filter_num) (filter_datas t ! regionId)]\<rparr>))"

subsection \<open>The offset array survives being stored\<close>

lemma finished_string:
  "PutFixed32 (foldl PutFixed32 S ws) (of_nat (length S)) @ [of_nat kFilterBaseLg] =
     S @ concat (map EncodeFixed32 (ws @ [of_nat (length S)])) @ [of_nat kFilterBaseLg]"
  by (simp add: foldl_PutFixed32 PutFixed32_def)

lemma getOffsets_finished:
  assumes "results b ! i = S @ concat (map EncodeFixed32 (ws @ [of_nat (length S)])) @ [of_nat kFilterBaseLg]"
    and "length S < 2 ^ 32"
  shows "FilterBlockBuilder_getOffsets i b =
     concat (map EncodeFixed32 (ws @ [of_nat (length S)])) @ [of_nat kFilterBaseLg]"
proof -
  let ?c = "results b ! i"
  have len: "length ?c = length S + 4 * length ws + 5"
    by (simp add: assms(1) length_concat_EncodeFixed32)
  have "drop (length ?c - 5) ?c = EncodeFixed32 (of_nat (length S)) @ [of_nat kFilterBaseLg]"
    by (simp add: len) (simp add: assms(1) length_concat_EncodeFixed32)
  then have "unat (DecodeFixed32 (drop (length ?c - 5) ?c)) = length S"
    using assms(2) by (simp add: unat_of_nat_small)
  then show ?thesis
    by (simp add: FilterBlockBuilder_getOffsets_def Let_def len) (simp add: assms(1))
qed

lemma parse_offsets_stored: "parse_offsets (concat (map EncodeFixed32 ws) @ [x]) = ws" if "ws \<noteq> []"
proof -
  have "(length (concat (map EncodeFixed32 ws) @ [x]) - 5) div 4 + 1 = length ws"
    using that by (cases ws) (simp_all add: length_concat_EncodeFixed32)
  then show ?thesis
    unfolding parse_offsets_def Let_def
    by (intro nth_equalityI) (simp_all add: drop_concat_EncodeFixed32 del: drop_append)
qed

subsection \<open>Regions of the filter strings\<close>

text \<open>
  What an open table has to know of the filters built for the key groups \<open>gs\<close>: their offset
  arrays, with a region width of \<open>rf\<close> times 64 KB.
\<close>

definition table_of :: "(slice list \<Rightarrow> slice list) \<Rightarrow> nat \<Rightarrow> nat \<Rightarrow> slice list list \<Rightarrow> Table \<Rightarrow> bool" where
  "table_of summaries n rf gs t \<longleftrightarrow>
     gs \<noteq> [] \<and> 0 < rf \<and> 0 < n \<and> table_base_lg t = kFilterBaseLg \<and>
     (\<forall>i<n. group_pos summaries i gs (length gs) < 2 ^ 32) \<and>
     offsets t = map (\<lambda>i. map (\<lambda>j. of_nat (group_pos summaries i gs j)) [0..<length gs + 1]) [0..<n]"

definition region_bytes :: "(slice list \<Rightarrow> slice list) \<Rightarrow> nat \<Rightarrow> slice list list \<Rightarrow> nat \<Rightarrow> nat \<Rightarrow> slice" where
  "region_bytes summaries rf gs i j =
     concat (map (group_part summaries i) (take rf (drop (j * rf) gs)))"

lemma group_pos_mono: "j \<le> k \<Longrightarrow> group_pos f i gs j \<le> group_pos f i gs k"
proof -
  assume "j \<le> k"
  then have "take k gs = take j gs @ take (k - j) (drop j gs)"
    by (metis le_add_diff_inverse take_add)
  then show ?thesis by (simp add: group_pos_def)
qed

lemma getRegionNum_eq:
  assumes "table_of summaries n rf gs t"
  shows "getRegionNum (rf * kFilterBase) t = (length gs + rf - 1) div rf"
proof -
  let ?B = "kFilterBase"
  have B: "0 < ?B" by (simp add: kFilterBase_def)
  have m: "0 < length gs" "0 < rf" using assms by (simp_all add: table_of_def)
  obtain a where a: "length gs + rf = Suc a" using m by (cases "length gs + rf") auto
  obtain c where c: "?B = Suc c" using B by (cases ?B) auto
  have "length gs * ?B + rf * ?B = Suc a * ?B" by (simp only: a flip: add_mult_distrib)
  then have "length gs * ?B + rf * ?B - 1 = c + a * Suc c" by (simp add: c)
  also have "\<dots> div ?B = a" unfolding c by (subst div_mult_self1) simp_all
  finally have "(length gs * ?B + rf * ?B - 1) div ?B = length gs + rf - 1"
    using a by simp
  then have "(length gs * ?B + rf * ?B - 1) div (rf * ?B) = (length gs + rf - 1) div rf"
    by (metis div_mult2_eq mult.commute)
  moreover have "length (offsets t ! 0) = length gs + 1" "table_base_lg t = kFilterBaseLg" "offsets t \<noteq> []"
    using assms by (auto simp: table_of_def simp del: upt_Suc)
  ultimately show ?thesis by (simp add: getRegionNum_def kFilterBase_def)
qed

lemma region_of_index:
  assumes "i < (m::nat)" "0 < rf"
  shows "i div rf < (m + rf - 1) div rf" "i div rf * rf \<le> i" "i < i div rf * rf + rf"
proof -
  have "(i div rf + 1) * rf \<le> m + rf - 1"
  proof -
    have "(i div rf + 1) * rf = i div rf * rf + rf" by simp
    then show ?thesis using assms div_times_less_eq_dividend [of i rf] by linarith
  qed
  then show "i div rf < (m + rf - 1) div rf"
    using assms(2) by (simp add: Suc_le_eq [symmetric] less_eq_div_iff_mult_less_eq)
  show "i div rf * rf \<le> i" by simp
  show "i < i div rf * rf + rf" using assms(2) by (simp add: dividend_less_div_times add.commute)
qed

lemma region_start_less: "j < (m + rf - 1) div rf \<Longrightarrow> 0 < rf \<Longrightarrow> j * rf < (m::nat)"
proof -
  assume a: "j < (m + rf - 1) div rf" "0 < rf"
  then have "(j + 1) * rf \<le> m + rf - 1"
    by (simp add: Suc_le_eq [symmetric] less_eq_div_iff_mult_less_eq)
  then show ?thesis using a(2) by (simp add: algebra_simps)
qed

lemma not_last_region: "j < (m + rf - 1) div rf \<Longrightarrow> j \<noteq> (m + rf - 1) div rf - 1 \<Longrightarrow> 0 < rf \<Longrightarrow> j * rf + rf < (m::nat)"
  using region_start_less [of "j + 1" m rf] by (simp add: algebra_simps)

lemma last_region: "j = (m + rf - 1) div rf - 1 \<Longrightarrow> 0 < m \<Longrightarrow> 0 < rf \<Longrightarrow> (m::nat) \<le> j * rf + rf"
proof -
  assume a: "j = (m + rf - 1) div rf - 1" "0 < m" "0 < rf"
  let ?q = "(m + rf - 1) div rf"
  have "0 < ?q" using region_of_index(1) [of 0 m rf] a by simp
  moreover have "m + rf - 1 < ?q * rf + rf" using a(3) by (metis add.commute dividend_less_div_times)
  ultimately have "m \<le> ?q * rf" by linarith
  also have "?q * rf = j * rf + rf" using \<open>0 < ?q\<close> a(1) by (cases ?q) simp_all
  finally show ?thesis .
qed

lemma table_of_offsets:
  assumes "table_of f n rf gs t" "i < n" "j \<le> length gs"
  shows "offsets t ! i ! j = of_nat (group_pos f i gs j)" "unat (offsets t ! i ! j) = group_pos f i gs j"
    "length (offsets t ! i) = length gs + 1"
proof -
  show o: "offsets t ! i ! j = of_nat (group_pos f i gs j)" "length (offsets t ! i) = length gs + 1"
    using assms by (simp_all add: table_of_def del: upt_Suc)
  have "group_pos f i gs j < 2 ^ 32"
    using group_pos_mono [OF assms(3), of f i gs] assms by (auto simp: table_of_def)
  then show "unat (offsets t ! i ! j) = group_pos f i gs j"
    by (simp add: o(1) unat_of_nat_small)
qed

lemma region_data_size_eq:
  assumes t: "table_of f n rf gs t" and i: "i < n" and j: "j < (length gs + rf - 1) div rf"
  shows "region_data_size (offsets t ! i) rf ((length gs + rf - 1) div rf) j =
     group_pos f i gs (min (j * rf + rf) (length gs)) - group_pos f i gs (j * rf)"
proof -
  have rf: "0 < rf" "0 < length gs" using t by (simp_all add: table_of_def)
  have small: "group_pos f i gs k < 2 ^ 32" if "k \<le> length gs" for k
    using group_pos_mono [OF that, of f i gs] t i by (auto simp: table_of_def)
  have s: "j * rf < length gs" by (rule region_start_less [OF j rf(1)])
  show ?thesis
  proof (cases "j = (length gs + rf - 1) div rf - 1")
    case True
    then have "min (j * rf + rf) (length gs) = length gs" using last_region rf by simp
    with True s show ?thesis
      using table_of_offsets(1,2) [OF t i] table_of_offsets(3) [OF t i order_refl]
        small [of "length gs"] group_pos_mono [of "j * rf" "length gs" f i gs]
      by (simp add: region_data_size_def unat_diff_of_nat Let_def)
  next
    case False
    then have "j * rf + rf < length gs" using not_last_region j rf(1) by blast
    with False s show ?thesis
      using table_of_offsets [OF t i] small [of "j * rf + rf"] group_pos_mono [of "j * rf" "j * rf + rf" f i gs]
      by (simp add: region_data_size_def unat_diff_of_nat Let_def)
  qed
qed

lemma concat_take_drop_pos:
  "a \<le> b \<Longrightarrow> take (group_pos f i gs b - group_pos f i gs a)
       (drop (group_pos f i gs a) (concat (map (group_part f i) gs))) =
     concat (map (group_part f i) (take (b - a) (drop a gs)))"
proof -
  assume ab: "a \<le> b"
  let ?P = "\<lambda>xs. concat (map (group_part f i) xs)"
  have "gs = take a gs @ take (b - a) (drop a gs) @ drop b gs"
    using ab by (metis append_take_drop_id drop_drop le_add_diff_inverse2)
  then have "?P gs = ?P (take a gs) @ ?P (take (b - a) (drop a gs)) @ ?P (drop b gs)"
    by (metis concat_append map_append)
  moreover have "take b gs = take a gs @ take (b - a) (drop a gs)"
    using ab by (metis le_add_diff_inverse take_add)
  then have "group_pos f i gs b = length (?P (take a gs)) + length (?P (take (b - a) (drop a gs)))"
    by (simp add: group_pos_def)
  ultimately show ?thesis by (simp add: group_pos_def)
qed

lemma region_slice_eq:
  assumes t: "table_of f n rf gs t" and i: "i < n" and j: "j < (length gs + rf - 1) div rf"
  shows "region_slice (rf * kFilterBase) t (offsets t ! i) (concat (map (group_part f i) gs) @ rest) j =
     region_bytes f rf gs i j"
proof -
  have rf: "0 < rf" and s: "j * rf < length gs"
    using t j region_start_less by (auto simp: table_of_def)
  have ro: "regionOffset (rf * kFilterBase) t = rf"
    using t by (simp add: regionOffset_def table_of_def kFilterBase_def)
  have a: "unat (offsets t ! i ! (j * rf)) = group_pos f i gs (j * rf)"
    using table_of_offsets(2) [OF t i] s by simp
  let ?e = "min (j * rf + rf) (length gs)" and ?S = "concat (map (group_part f i) gs)"
  have se: "j * rf \<le> ?e" "?e \<le> length gs" using s by simp_all
  have "group_pos f i gs ?e \<le> length ?S"
    using group_pos_mono [OF se(2), of f i gs] by (simp add: group_pos_def)
  moreover have "group_pos f i gs (j * rf) \<le> length ?S"
    using group_pos_mono [of "j * rf" "length gs" f i gs] s by (simp add: group_pos_def)
  ultimately have "take (group_pos f i gs ?e - group_pos f i gs (j * rf))
      (drop (group_pos f i gs (j * rf)) (?S @ rest)) =
     concat (map (group_part f i) (take (?e - j * rf) (drop (j * rf) gs)))"
    using concat_take_drop_pos [OF se(1), of f i gs] by simp
  moreover have "take (?e - j * rf) (drop (j * rf) gs) = take rf (drop (j * rf) gs)"
    by (cases "j * rf + rf \<le> length gs") (simp_all add: min_def)
  ultimately show ?thesis
    by (simp only: region_slice_def ro getRegionNum_eq [OF t] region_data_size_eq [OF t i j] a region_bytes_def)
qed

lemma region_bytes_group:
  assumes t: "table_of f n rf gs t" and i: "i < n" and x: "x < length gs"
  defines "j \<equiv> x div rf"
  shows "take (group_pos f i gs (x + 1) - group_pos f i gs x)
       (drop (group_pos f i gs x - group_pos f i gs (j * rf)) (region_bytes f rf gs i j)) =
     group_part f i (gs ! x)"
proof -
  have rf: "0 < rf" using t by (simp add: table_of_def)
  have r: "j * rf \<le> x" "x < j * rf + rf" using region_of_index(2,3) [OF x rf] by (simp_all add: j_def)
  let ?P = "\<lambda>xs. concat (map (group_part f i) xs)"
  let ?a = "x - j * rf"
  have split: "take rf (drop (j * rf) gs) = take ?a (drop (j * rf) gs) @ gs ! x # drop (Suc ?a) (take rf (drop (j * rf) gs))"
  proof -
    let ?l = "take rf (drop (j * rf) gs)"
    have "?a < length ?l" "?l ! ?a = gs ! x" "take ?a ?l = take ?a (drop (j * rf) gs)"
      using r x by (auto simp: min_def)
    then show ?thesis by (metis id_take_nth_drop)
  qed
  have "take x gs = take (j * rf) gs @ take ?a (drop (j * rf) gs)"
    using r by (metis le_add_diff_inverse take_add)
  then have "group_pos f i gs x - group_pos f i gs (j * rf) = length (?P (take ?a (drop (j * rf) gs)))"
    by (simp add: group_pos_def)
  moreover have "group_pos f i gs (x + 1) - group_pos f i gs x = length (group_part f i (gs ! x))"
    using x by (simp add: group_pos_def take_Suc_conv_app_nth)
  moreover have "region_bytes f rf gs i j = ?P (take ?a (drop (j * rf) gs)) @ group_part f i (gs ! x) @
      ?P (drop (Suc ?a) (take rf (drop (j * rf) gs)))"
    by (subst region_bytes_def, subst split) simp
  ultimately show ?thesis by simp
qed

subsection \<open>The reader invariant\<close>

text \<open>
  The reader and the table hold the same filter parts, \<open>curr_num_of_filters_regions\<close> counts them,
  and part \<open>i\<close> of region \<open>j\<close> is the region's share of filter string \<open>i\<close>.
\<close>

definition reader_inv ::
  "(slice list \<Rightarrow> slice list) \<Rightarrow> nat \<Rightarrow> nat \<Rightarrow> slice list list \<Rightarrow> Table \<Rightarrow> FilterBlockReader \<Rightarrow> bool" where
  "reader_inv f n rf gs t r \<longleftrightarrow>
     (let R = (length gs + rf - 1) div rf in
      datas r = filter_datas t \<and> length (datas r) = R \<and> length (curr_num_of_filters_regions r) = R \<and>
      num_entries r = length gs + 1 \<and> base_lg r = kFilterBaseLg \<and> num_regions r = R \<and>
      regionFilters r = rf \<and> filter_offsets r = offsets t \<and>
      (\<forall>j<R. curr_num_of_filters_regions r ! j \<le> n \<and>
         datas r ! j = map (\<lambda>i. region_bytes f rf gs i j) [0..<curr_num_of_filters_regions r ! j]))"

definition table_inv :: "(slice list \<Rightarrow> slice list) \<Rightarrow> nat \<Rightarrow> nat \<Rightarrow> slice list list \<Rightarrow> Table \<Rightarrow> bool" where
  "table_inv f n rf gs t \<longleftrightarrow> table_of f n rf gs t \<and>
     (case tfilter t of
        None \<Rightarrow> filter_datas t = replicate ((length gs + rf - 1) div rf) []
      | Some r \<Rightarrow> reader_inv f n rf gs t r)"

lemma reader_inv_frame:
  "filter_datas t' = filter_datas t \<Longrightarrow> offsets t' = offsets t \<Longrightarrow> reader_inv f n rf gs t' r = reader_inv f n rf gs t r"
  by (simp add: reader_inv_def)

lemma gather_filters_eq:
  assumes t: "table_of f n rf gs t" and r: "reader_inv f n rf gs t r" and x: "x < length gs"
    and sel: "\<forall>i \<in> set sel. i < curr_num_of_filters_regions r ! (x div rf)"
  shows "gather_filters r (x div rf) x sel = Some (map (\<lambda>i. group_part f i (gs ! x)) sel)"
  using sel
proof (induction sel)
  case (Cons i sel)
  let ?j = "x div rf"
  have rf: "0 < rf" using t by (simp add: table_of_def)
  have j: "?j < (length gs + rf - 1) div rf" "?j * rf \<le> x" using region_of_index [OF x rf] by simp_all
  have i: "i < curr_num_of_filters_regions r ! ?j" "i < n"
    using Cons.prems j r by (auto simp: reader_inv_def Let_def)
  have d: "datas r ! ?j ! i = region_bytes f rf gs i ?j"
  proof -
    have "datas r ! ?j = map (\<lambda>i. region_bytes f rf gs i ?j) [0..<curr_num_of_filters_regions r ! ?j]"
      using r j(1) unfolding reader_inv_def Let_def by blast
    then show ?thesis using i(1) by simp
  qed
  have small: "group_pos f i gs (x + 1) < 2 ^ 32"
    using group_pos_mono [of "x + 1" "length gs" f i gs] t i(2) x by (force simp: table_of_def)
  note mono = group_pos_mono [of x "x + 1" f i gs] group_pos_mono [OF j(2), of f i gs]
  have o: "filter_offsets r ! i ! x = of_nat (group_pos f i gs x)"
    "filter_offsets r ! i ! (x + 1) = of_nat (group_pos f i gs (x + 1))"
    "filter_offsets r ! i ! (?j * rf) = of_nat (group_pos f i gs (?j * rf))"
  proof -
    have "?j * rf \<le> length gs" using x j(2) by linarith
    then show "filter_offsets r ! i ! x = of_nat (group_pos f i gs x)"
      "filter_offsets r ! i ! (x + 1) = of_nat (group_pos f i gs (x + 1))"
      "filter_offsets r ! i ! (?j * rf) = of_nat (group_pos f i gs (?j * rf))"
      using r table_of_offsets(1) [OF t i(2)] x by (simp_all add: reader_inv_def Let_def)
  qed
  have u: "unat (of_nat (group_pos f i gs x) - of_nat (group_pos f i gs (?j * rf)) :: u32) =
      group_pos f i gs x - group_pos f i gs (?j * rf)"
    "unat (of_nat (group_pos f i gs (x + 1)) - of_nat (group_pos f i gs x) :: u32) =
      group_pos f i gs (x + 1) - group_pos f i gs x"
    using mono small by (auto intro!: unat_diff_of_nat)
  have le: "(of_nat (group_pos f i gs x) :: u32) \<le> of_nat (group_pos f i gs (x + 1))"
    using mono small by (simp add: word_le_nat_alt unat_of_nat_small)
  have "regionFilters r = rf" using r by (simp add: reader_inv_def Let_def)
  with Cons o u le d region_bytes_group [OF t i(2) x] show ?case
    by (simp only: gather_filters.simps Let_def if_True) simp
qed simp

context filter_policy
begin

lemma KeyMayMatch_hit:
  assumes t: "table_of summaries filterNums rf gs t" and r: "reader_inv summaries filterNums rf gs t r"
    and off: "off div kFilterBase < length gs" and key: "key \<in> set (gs ! (off div kFilterBase))"
  shows "FilterBlockReader_KeyMayMatch KeyMayMatchFilters off key r = Some True"
proof -
  let ?x = "off div kFilterBase"
  let ?c = "curr_num_of_filters_regions r ! (?x div rf)"
  have rf: "0 < rf" using t by (simp add: table_of_def)
  have j: "?x div rf < (length gs + rf - 1) div rf" using region_of_index(1) [OF off rf] .
  have c: "?c \<le> filterNums" using r j by (simp add: reader_inv_def Let_def)
  have g: "gs ! ?x \<noteq> []" using key by auto
  have "map (\<lambda>i. group_part summaries i (gs ! ?x)) [0..<?c] = take ?c (summaries (gs ! ?x))"
    using c summaries_length [of "gs ! ?x"] g by (auto simp: group_part_def intro!: nth_equalityI)
  then have "gather_filters r (?x div rf) ?x [0..<?c] = Some (take ?c (summaries (gs ! ?x)))"
    using gather_filters_eq [OF t r off, of "[0..<?c]"] by simp
  moreover have "base_lg r = kFilterBaseLg" "regionFilters r = rf"
    using r by (simp_all add: reader_inv_def Let_def)
  ultimately show ?thesis
    using may_match [OF key c] rf
    by (simp add: FilterBlockReader_KeyMayMatch_def Let_def kFilterBase_def)
qed

end

subsection \<open>Loading and dropping keep the invariant\<close>

definition region_count :: "nat \<Rightarrow> slice list list \<Rightarrow> nat" where
  "region_count rf gs = (length gs + rf - 1) div rf"

text \<open>The file holds filter string \<open>i\<close> at the position of the i-th handle.\<close>

definition file_of ::
  "(slice list \<Rightarrow> slice list) \<Rightarrow> nat \<Rightarrow> slice list list \<Rightarrow> (nat \<Rightarrow> nat \<Rightarrow> status + slice) \<Rightarrow> slice list \<Rightarrow> bool" where
  "file_of f n gs Read handles \<longleftrightarrow> length handles = n \<and>
     (\<forall>i<n. \<exists>h rest. BlockHandle_DecodeFrom (handles ! i) = Inr (h, rest) \<and>
        (\<forall>a b. a + b \<le> group_pos f i gs (length gs) \<longrightarrow>
           Read (unat (bh_offset h) + a) b = Inr (take b (drop a (concat (map (group_part f i) gs))))))"

lemma table_inv_ensure_filter:
  assumes "table_inv f n rf gs t"
  shows "\<exists>t' r. ensure_filter (rf * kFilterBase) t = Some t' \<and> table_inv f n rf gs t' \<and> tfilter t' = Some r \<and>
     t' = t\<lparr>tfilter := Some r\<rparr> \<and> (\<forall>j < region_count rf gs. getCurrFilterNum j t' = getCurrFilterNum j t)"
proof (cases "tfilter t")
  case None
  have t: "table_of f n rf gs t" using assms by (simp add: table_inv_def)
  have R: "getRegionNum (rf * kFilterBase) t = region_count rf gs"
    using getRegionNum_eq [OF t] by (simp add: region_count_def)
  have "0 < region_count rf gs"
    using region_of_index(1) [of 0 "length gs" rf] t by (simp add: table_of_def region_count_def)
  moreover have "regionOffset (rf * kFilterBase) t = rf" "length (offsets t ! 0) = length gs + 1"
    using t by (simp_all add: regionOffset_def table_of_def kFilterBase_def del: upt_Suc)
  ultimately show ?thesis
    using None assms t R
    by (auto simp: ensure_filter_def new_FilterBlockReader_def table_inv_def reader_inv_def Let_def
        getCurrFilterNum_def region_count_def table_of_def simp del: upt_Suc)
next
  case (Some r)
  with assms show ?thesis by (simp add: ensure_filter_def)
qed

lemma reader_inv_AddFilter:
  assumes r: "reader_inv f n rf gs t r" and j: "j < region_count rf gs"
    and c: "curr_num_of_filters_regions r ! j = c" "c < n"
  shows "reader_inv f n rf gs
      (t\<lparr>filter_datas := (filter_datas t)[j := filter_datas t ! j @ [region_bytes f rf gs c j]], tfilter := x\<rparr>)
      (FilterBlockReader_AddFilter (region_bytes f rf gs c j) j r)"
  using assms by (auto simp: reader_inv_def Let_def FilterBlockReader_AddFilter_def region_count_def nth_list_update)

lemma ReadFilter_step:
  assumes inv: "table_inv f n rf gs t" and r: "tfilter t = Some r"
    and fl: "file_of f n gs Read (filter_handles t)"
    and j: "j < region_count rf gs" and c: "getCurrFilterNum j t = c" "c < n"
  shows "\<exists>t'. ReadFilter (rf * kFilterBase) real_size bits Read (filter_handles t ! c) j t =
       Some (if real_size then length (region_bytes f rf gs c j) else bits c, t') \<and>
     table_inv f n rf gs t' \<and> filter_handles t' = filter_handles t \<and> tfilter t' \<noteq> None \<and>
     (\<forall>k < region_count rf gs. getCurrFilterNum k t' = (if k = j then c + 1 else getCurrFilterNum k t))"
proof -
  have t: "table_of f n rf gs t" and ri: "reader_inv f n rf gs t r"
    using inv r by (simp_all add: table_inv_def)
  have rf: "0 < rf" and s: "j * rf < length gs"
    using t j region_start_less by (auto simp: table_of_def region_count_def)
  have ro: "regionOffset (rf * kFilterBase) t = rf"
    using t by (simp add: regionOffset_def table_of_def kFilterBase_def)
  have R: "getRegionNum (rf * kFilterBase) t = (length gs + rf - 1) div rf" by (rule getRegionNum_eq [OF t])
  let ?e = "min (j * rf + rf) (length gs)" and ?S = "concat (map (group_part f c) gs)"
  let ?sz = "group_pos f c gs ?e - group_pos f c gs (j * rf)"
  have sz: "region_data_size (offsets t ! c) rf ((length gs + rf - 1) div rf) j = ?sz"
    using region_data_size_eq [OF t c(2)] j by (simp add: region_count_def)
  have a: "unat (offsets t ! c ! (j * rf)) = group_pos f c gs (j * rf)"
    using table_of_offsets(2) [OF t c(2)] s by simp
  have fit: "group_pos f c gs (j * rf) + ?sz \<le> group_pos f c gs (length gs)"
    using group_pos_mono [of "j * rf" ?e f c gs] group_pos_mono [of ?e "length gs" f c gs] s by simp
  obtain h rest where h: "BlockHandle_DecodeFrom (filter_handles t ! c) = Inr (h, rest)"
    "Read (unat (bh_offset h) + group_pos f c gs (j * rf)) ?sz =
       Inr (take ?sz (drop (group_pos f c gs (j * rf)) ?S))"
    using fl c(2) fit unfolding file_of_def by blast
  have part: "take ?sz (drop (group_pos f c gs (j * rf)) ?S) = region_bytes f rf gs c j"
    using region_slice_eq [OF t c(2), of j "[]"] j
    by (simp only: region_slice_def ro R sz a region_count_def append_Nil2)
  have len: "length (region_bytes f rf gs c j) = ?sz"
    using fit by (simp add: part [symmetric] group_pos_def)
  let ?t0 = "t\<lparr>filter_datas := (filter_datas t)[j := filter_datas t ! j @ [region_bytes f rf gs c j]]\<rparr>"
  let ?t' = "add_to_filter (region_bytes f rf gs c j) j ?t0"
  have cur: "curr_num_of_filters_regions r ! j = c" using c(1) r by (simp add: getCurrFilterNum_def)
  have lenR: "length (curr_num_of_filters_regions r) = region_count rf gs"
    using ri by (simp add: reader_inv_def Let_def region_count_def)
  have "ReadFilter (rf * kFilterBase) real_size bits Read (filter_handles t ! c) j t =
       Some (if real_size then length (region_bytes f rf gs c j) else bits c, ?t')"
    using r by (simp only: ReadFilter_def h(1) sum.case prod.case Let_def c(1) ro R sz a h(2) part len)
      (simp add: ensure_filter_def)
  moreover have "table_inv f n rf gs ?t'"
    using reader_inv_AddFilter [OF ri j cur c(2)] r t
    by (simp add: table_inv_def add_to_filter_def table_of_def)
  moreover have "getCurrFilterNum k ?t' = (if k = j then c + 1 else getCurrFilterNum k t)" if "k < region_count rf gs" for k
    using that r cur lenR by (auto simp: getCurrFilterNum_def add_to_filter_def FilterBlockReader_AddFilter_def)
  ultimately show ?thesis using r by (auto simp: add_to_filter_def)
qed

text \<open>The charge of filter \<open>i\<close> in region \<open>j\<close>.\<close>

definition filter_charge ::
  "(slice list \<Rightarrow> slice list) \<Rightarrow> nat \<Rightarrow> slice list list \<Rightarrow> bool \<Rightarrow> (nat \<Rightarrow> nat) \<Rightarrow> nat \<Rightarrow> nat \<Rightarrow> nat" where
  "filter_charge f rf gs real_size bits j i = (if real_size then length (region_bytes f rf gs i j) else bits i)"

text \<open>A table whose region \<open>j\<close> has \<open>m\<close> loaded filters, the other regions being as in \<open>t\<close>.\<close>

definition loaded_to ::
  "(slice list \<Rightarrow> slice list) \<Rightarrow> nat \<Rightarrow> nat \<Rightarrow> slice list list \<Rightarrow> Table \<Rightarrow> nat \<Rightarrow> nat \<Rightarrow> Table \<Rightarrow> bool" where
  "loaded_to f n rf gs t j m t' \<longleftrightarrow> table_inv f n rf gs t' \<and> filter_handles t' = filter_handles t \<and> tfilter t' \<noteq> None \<and>
     (\<forall>k < region_count rf gs. getCurrFilterNum k t' = (if k = j then m else getCurrFilterNum k t))"

lemma AddFilters_loop_correct:
  assumes "table_inv f n rf gs t" "tfilter t \<noteq> None" "file_of f n gs Read (filter_handles t)"
    "j < region_count rf gs" "getCurrFilterNum j t = c" "c \<le> n"
  shows "\<exists>t'. AddFilters_loop (rf * kFilterBase) real_size bits Read k c j t =
       Some (sum_list (map (filter_charge f rf gs real_size bits j) [c..<min (c + k) n]), t') \<and>
     loaded_to f n rf gs t j (min (c + k) n) t'"
  using assms
proof (induction k arbitrary: c t)
  case (Suc k)
  have len: "length (filter_handles t) = n" using Suc.prems(3) by (simp add: file_of_def)
  show ?case
  proof (cases "c < n")
    case True
    obtain r where r: "tfilter t = Some r" using Suc.prems(2) by auto
    obtain t1 where t1: "ReadFilter (rf * kFilterBase) real_size bits Read (filter_handles t ! c) j t =
         Some (filter_charge f rf gs real_size bits j c, t1)"
      "table_inv f n rf gs t1" "filter_handles t1 = filter_handles t" "tfilter t1 \<noteq> None"
      "\<forall>k < region_count rf gs. getCurrFilterNum k t1 = (if k = j then c + 1 else getCurrFilterNum k t)"
      using ReadFilter_step [OF Suc.prems(1) r Suc.prems(3-5) True, of real_size bits]
      by (auto simp: filter_charge_def)
    obtain t' where t': "AddFilters_loop (rf * kFilterBase) real_size bits Read k (c + 1) j t1 =
        Some (sum_list (map (filter_charge f rf gs real_size bits j) [c + 1..<min (c + 1 + k) n]), t')"
      "loaded_to f n rf gs t1 j (min (c + 1 + k) n) t'"
      using Suc.IH [of t1 "c + 1"] t1 Suc.prems True by auto
    have "[c..<min (c + Suc k) n] = c # [c + 1..<min (c + 1 + k) n]"
      using True by (simp add: upt_conv_Cons)
    with t' t1 len True show ?thesis by (auto simp: loaded_to_def)
  next
    case False
    with Suc.prems len show ?thesis by (auto simp: loaded_to_def)
  qed
qed (auto simp: loaded_to_def)

lemma AddFilters_correct:
  assumes "table_inv f n rf gs t" "file_of f n gs Read (filter_handles t)"
    "j < region_count rf gs" "getCurrFilterNum j t \<le> n"
  shows "\<exists>t'. AddFilters (rf * kFilterBase) real_size bits Read k j t =
       Some (sum_list (map (filter_charge f rf gs real_size bits j)
          [getCurrFilterNum j t..<min (getCurrFilterNum j t + k) n]), t') \<and>
     loaded_to f n rf gs t j (min (getCurrFilterNum j t + k) n) t'"
proof -
  obtain t1 r where t1: "ensure_filter (rf * kFilterBase) t = Some t1" "table_inv f n rf gs t1" "tfilter t1 = Some r"
    "t1 = t\<lparr>tfilter := Some r\<rparr>" "\<forall>j < region_count rf gs. getCurrFilterNum j t1 = getCurrFilterNum j t"
    using table_inv_ensure_filter [OF assms(1)] by blast
  from AddFilters_loop_correct [OF t1(2) _ _ assms(3), of Read "getCurrFilterNum j t" real_size bits k] t1 assms
  obtain t' where "AddFilters_loop (rf * kFilterBase) real_size bits Read k (getCurrFilterNum j t) j t1 =
       Some (sum_list (map (filter_charge f rf gs real_size bits j)
          [getCurrFilterNum j t..<min (getCurrFilterNum j t + k) n]), t')"
     "loaded_to f n rf gs t1 j (min (getCurrFilterNum j t + k) n) t'" by auto
  with t1 assms(3) show ?thesis by (auto simp: AddFilters_def loaded_to_def)
qed

lemma curr_le: "table_inv f n rf gs t \<Longrightarrow> j < region_count rf gs \<Longrightarrow> getCurrFilterNum j t \<le> n"
  by (auto simp: table_inv_def getCurrFilterNum_def reader_inv_def Let_def region_count_def split: option.splits)

lemma AdjustFilters_correct:
  assumes "table_inv f n rf gs t" "file_of f n gs Read (filter_handles t)" "j < region_count rf gs"
    and "tfilter t \<noteq> None \<or> 0 < m"
  shows "\<exists>t'. AdjustFilters (rf * kFilterBase) real_size bits Read m j t =
       Some (sum_list (map (filter_charge f rf gs real_size bits j)
          [getCurrFilterNum j t..<max (getCurrFilterNum j t) (min m n)]), t') \<and>
     loaded_to f n rf gs t j (max (getCurrFilterNum j t) (min m n)) t'"
proof -
  let ?c = "getCurrFilterNum j t"
  have c: "?c \<le> n" by (rule curr_le [OF assms(1,3)])
  have keep: "loaded_to f n rf gs t j ?c t" if "tfilter t \<noteq> None"
    using assms(1) that by (simp add: loaded_to_def)
  show ?thesis
  proof (cases "?c < m")
    case True
    have "tfilter t = None \<Longrightarrow> ?c = 0" by (simp add: getCurrFilterNum_def)
    then have adj: "AdjustFilters (rf * kFilterBase) real_size bits Read m j t =
        AddFilters (rf * kFilterBase) real_size bits Read (m - ?c) j t"
      using True by (auto simp: AdjustFilters_def Let_def)
    have "min (?c + (m - ?c)) n = max ?c (min m n)" using True c by (simp add: min_def max_def)
    then show ?thesis
      unfolding adj using AddFilters_correct [OF assms(1-3) c, of real_size bits "m - ?c"] by metis
  next
    case False
    then have "tfilter t \<noteq> None" using assms(4) by (auto simp: getCurrFilterNum_def split: option.splits)
    with False keep c show ?thesis
      by (intro exI [of _ t]) (auto simp: AdjustFilters_def Let_def max_def)
  qed
qed

lemma length_region_bytes:
  assumes t: "table_of f n rf gs t" and i: "i < n" and j: "j < region_count rf gs"
  shows "region_data_size (offsets t ! i) rf (region_count rf gs) j = length (region_bytes f rf gs i j)"
proof -
  have s: "j * rf < length gs" using region_start_less j t by (auto simp: table_of_def region_count_def)
  let ?e = "min (j * rf + rf) (length gs)"
  have "concat (map (group_part f i) (take (?e - j * rf) (drop (j * rf) gs))) = region_bytes f rf gs i j"
    by (cases "j * rf + rf \<le> length gs") (simp_all add: min_def region_bytes_def)
  then have "take (group_pos f i gs ?e - group_pos f i gs (j * rf))
      (drop (group_pos f i gs (j * rf)) (concat (map (group_part f i) gs))) = region_bytes f rf gs i j"
    using concat_take_drop_pos [of "j * rf" ?e f i gs] s by simp
  moreover have "group_pos f i gs ?e \<le> length (concat (map (group_part f i) gs))"
    using group_pos_mono [of ?e "length gs" f i gs] by (simp add: group_pos_def)
  ultimately have "length (region_bytes f rf gs i j) = group_pos f i gs ?e - group_pos f i gs (j * rf)"
    by (metis (no_types, lifting) diff_le_mono length_drop length_take min.absorb2)
  then show ?thesis
    using region_data_size_eq [OF t i] j by (simp add: region_count_def)
qed

lemma RemoveFilters_loop_correct:
  assumes t: "table_of f n rf gs t" and "reader_inv f n rf gs t r" and j: "j < region_count rf gs"
    and "k \<le> curr_num_of_filters_regions r ! j"
  defines "c \<equiv> curr_num_of_filters_regions r ! j"
  shows "\<exists>r'. RemoveFilters_loop real_size bits k j r =
       (sum_list (map (filter_charge f rf gs real_size bits j) [c - k..<c]), r') \<and>
     curr_num_of_filters_regions r' = (curr_num_of_filters_regions r)[j := c - k] \<and>
     reader_inv f n rf gs (t\<lparr>filter_datas := (filter_datas t)[j := take (c - k) (filter_datas t ! j)]\<rparr>) r'"
  using assms(1-4) unfolding c_def
proof (induction k arbitrary: r t)
  case 0
  then have "take (curr_num_of_filters_regions r ! j) (filter_datas t ! j) = filter_datas t ! j"
    by (simp add: reader_inv_def Let_def region_count_def) (metis diff_zero length_map length_upt order_refl take_all)
  with 0 show ?case by simp
next
  case (Suc k)
  let ?c = "curr_num_of_filters_regions r ! j"
  have R: "num_regions r = region_count rf gs" "regionFilters r = rf" "filter_offsets r = offsets t"
    "length (curr_num_of_filters_regions r) = region_count rf gs" "length (filter_datas t) = region_count rf gs"
    "datas r = filter_datas t" "?c \<le> n"
    "filter_datas t ! j = map (\<lambda>i. region_bytes f rf gs i j) [0..<?c]"
    using Suc.prems(2) j unfolding reader_inv_def Let_def region_count_def by (blast, blast, blast, blast, metis, blast, blast, metis)
  let ?r1 = "r\<lparr>datas := (datas r)[j := butlast (datas r ! j)],
      curr_num_of_filters_regions := (curr_num_of_filters_regions r)[j := ?c - 1]\<rparr>"
  let ?t1 = "t\<lparr>filter_datas := (filter_datas t)[j := butlast (filter_datas t ! j)]\<rparr>"
  have c1: "curr_num_of_filters_regions ?r1 ! j = ?c - 1" using j R(4) by simp
  have but: "butlast (filter_datas t ! j) = map (\<lambda>i. region_bytes f rf gs i j) [0..<?c - 1]"
    by (simp add: R(8) butlast_conv_take take_map take_upt)
  have inv1: "reader_inv f n rf gs ?t1 ?r1"
    using Suc.prems(2,4) but j R(4-7)
    by (auto simp: reader_inv_def Let_def region_count_def nth_list_update)
  have t1: "table_of f n rf gs ?t1" using Suc.prems(1) by (simp add: table_of_def)
  obtain r' where r': "RemoveFilters_loop real_size bits k j ?r1 =
       (sum_list (map (filter_charge f rf gs real_size bits j) [?c - 1 - k..<?c - 1]), r')"
    "curr_num_of_filters_regions r' = (curr_num_of_filters_regions r)[j := ?c - 1 - k]"
    "reader_inv f n rf gs (?t1\<lparr>filter_datas := (filter_datas ?t1)[j := take (?c - 1 - k) (filter_datas ?t1 ! j)]\<rparr>) r'"
  proof -
    have "k \<le> curr_num_of_filters_regions ?r1 ! j" using Suc.prems(4) unfolding c1 by simp
    from Suc.IH [OF t1 inv1 j this] show ?thesis using that unfolding c1 by auto
  qed
  have tk: "take (?c - 1 - k) (butlast (filter_datas t ! j)) = take (?c - Suc k) (filter_datas t ! j)"
    using Suc.prems(4) by (simp add: butlast_conv_take R(8) min_def)
  have sz: "region_data_size (offsets t ! (?c - 1)) rf (region_count rf gs) j = length (region_bytes f rf gs (?c - 1) j)"
    using length_region_bytes [OF Suc.prems(1) _ j] Suc.prems(4) R(7) by simp
  have "[?c - Suc k..<?c] = [?c - 1 - k..<?c - 1] @ [?c - 1]"
    using Suc.prems(4) by (cases ?c) simp_all
  then have sum: "sum_list (map (filter_charge f rf gs real_size bits j) [?c - Suc k..<?c]) =
      filter_charge f rf gs real_size bits j (?c - 1) +
      sum_list (map (filter_charge f rf gs real_size bits j) [?c - 1 - k..<?c - 1])"
    by (simp only: map_append sum_list_append) simp
  show ?case
    using r' tk sum sz j R(4,5)
    by (cases real_size) (simp_all add: R(1-3) Let_def, simp_all add: filter_charge_def)
qed

lemma Table_RemoveFilters_correct:
  assumes inv: "table_inv f n rf gs t" and r: "tfilter t \<noteq> None" and j: "j < region_count rf gs"
    and k: "k \<le> getCurrFilterNum j t"
  defines "c \<equiv> getCurrFilterNum j t"
  shows "\<exists>t'. Table_RemoveFilters real_size bits (int k) j t =
       Some (sum_list (map (filter_charge f rf gs real_size bits j) [c - k..<c]), t') \<and>
     loaded_to f n rf gs t j (c - k) t'"
proof -
  obtain r where r: "tfilter t = Some r" using assms(2) by auto
  have t: "table_of f n rf gs t" and ri: "reader_inv f n rf gs t r" using inv r by (simp_all add: table_inv_def)
  have c: "curr_num_of_filters_regions r ! j = c" using r by (simp add: c_def getCurrFilterNum_def)
  obtain r' where r': "RemoveFilters_loop real_size bits k j r =
       (sum_list (map (filter_charge f rf gs real_size bits j) [c - k..<c]), r')"
    "curr_num_of_filters_regions r' = (curr_num_of_filters_regions r)[j := c - k]"
    "reader_inv f n rf gs (t\<lparr>filter_datas := (filter_datas t)[j := take (c - k) (filter_datas t ! j)]\<rparr>) r'"
    using RemoveFilters_loop_correct [OF t ri j, of k real_size bits] k c r by (auto simp: getCurrFilterNum_def)
  have len: "length (filter_datas t ! j) = c" "length (curr_num_of_filters_regions r) = region_count rf gs"
    using ri j c by (auto simp: reader_inv_def Let_def region_count_def)
  let ?t' = "t\<lparr>tfilter := Some r', filter_datas := (filter_datas t)[j := take (c - k) (filter_datas t ! j)]\<rparr>"
  have "Table_RemoveFilters real_size bits (int k) j t =
      Some (sum_list (map (filter_charge f rf gs real_size bits j) [c - k..<c]), ?t')"
    using r c k r'(1) len(1)
    by (simp add: Table_RemoveFilters_def FilterBlockReader_RemoveFilters_def Let_def c_def [symmetric] min_def)
  moreover have "reader_inv f n rf gs ?t' r'"
    using r'(3) by (subst reader_inv_frame [of ?t']) simp_all
  then have "loaded_to f n rf gs t j (c - k) ?t'"
    using t r r'(2) len(2)
    by (auto simp: loaded_to_def table_inv_def table_of_def getCurrFilterNum_def nth_list_update)
  ultimately show ?thesis by blast
qed

text \<open>
  C11. Dropping filters undoes loading them: after \<open>AdjustFilters\<close> has raised a region from \<open>c\<close>
  to more filters, \<open>RemoveFilters\<close> of as many gives back exactly the charge that was added, in
  bytes as in bits per key, and leaves the region with \<open>c\<close> filters and the others untouched.
\<close>

theorem Adjust_Remove_charge:
  assumes "table_inv f n rf gs t" "file_of f n gs Read (filter_handles t)" "j < region_count rf gs"
    "tfilter t \<noteq> None" "m \<le> n"
  shows "\<exists>d t1 t2. AdjustFilters (rf * kFilterBase) real_size bits Read m j t = Some (d, t1) \<and>
     Table_RemoveFilters real_size bits (int (m - getCurrFilterNum j t)) j t1 = Some (d, t2) \<and>
     (\<forall>k < region_count rf gs. getCurrFilterNum k t2 = getCurrFilterNum k t) \<and> table_inv f n rf gs t2"
proof -
  let ?c = "getCurrFilterNum j t" and ?ch = "filter_charge f rf gs real_size bits j"
  have c: "?c \<le> n" by (rule curr_le [OF assms(1,3)])
  obtain t1 where t1: "AdjustFilters (rf * kFilterBase) real_size bits Read m j t =
      Some (sum_list (map ?ch [?c..<max ?c (min m n)]), t1)" "loaded_to f n rf gs t j (max ?c (min m n)) t1"
    using AdjustFilters_correct [OF assms(1-3), of m real_size bits] assms(4) by auto
  have m: "max ?c (min m n) = max ?c m" using assms(5) by (simp add: min_def)
  have c1: "getCurrFilterNum j t1 = max ?c m" using t1(2) assms(3) by (simp add: loaded_to_def m)
  have "m - ?c \<le> getCurrFilterNum j t1" by (simp add: c1)
  from Table_RemoveFilters_correct [OF _ _ assms(3) this, of f n real_size bits] t1(2)
  obtain t2 where "Table_RemoveFilters real_size bits (int (m - ?c)) j t1 =
      Some (sum_list (map ?ch [max ?c m - (m - ?c)..<max ?c m]), t2)"
    "loaded_to f n rf gs t1 j (max ?c m - (m - ?c)) t2" by (auto simp: loaded_to_def c1)
  moreover have "max ?c m - (m - ?c) = ?c" by simp
  ultimately show ?thesis using t1 m by (auto simp: loaded_to_def)
qed

theorem Adjust_Remove_charge_witness:
  "\<exists>t d t1 t2. AdjustFilters (1 * kFilterBase) False (\<lambda>_. 4) (\<lambda>a b. Inr (take b (drop a [7]))) 1 0 t = Some (d, t1) \<and>
     Table_RemoveFilters False (\<lambda>_. 4) (int (1 - getCurrFilterNum 0 t)) 0 t1 = Some (d, t2)"
proof -
  let ?f = "\<lambda>ks :: slice list. [[7 :: byte]]" and ?gs = "[[[5 :: byte]]]"
  let ?r = "\<lparr>datas = [[]], num_entries = 2, base_lg = kFilterBaseLg, curr_num_of_filters_regions = [0],
      num_regions = 1, regionFilters = 1, filter_offsets = [[0, 1]]\<rparr>"
  let ?t = "\<lparr>tfilter = Some ?r, filter_datas = [[]], filter_handles = [BlockHandle_EncodeTo \<lparr>bh_offset = 0, bh_size = 1\<rparr> []],
      offsets = [[0, 1]], table_base_lg = kFilterBaseLg\<rparr>"
  have "table_inv ?f 1 1 ?gs ?t"
    by (simp add: table_inv_def table_of_def reader_inv_def group_pos_def group_part_def)
  moreover have "file_of ?f 1 ?gs (\<lambda>a b. Inr (take b (drop a [7]))) (filter_handles ?t)"
    by (simp add: file_of_def group_part_def)
  moreover have "0 < region_count 1 ?gs" by (simp add: region_count_def)
  ultimately show ?thesis
    using Adjust_Remove_charge [of ?f 1 1 ?gs ?t "\<lambda>a b. Inr (take b (drop a [7]))" 0 1 False "\<lambda>_. 4"] by auto
qed

end
