(* ===== verification/FilterPipeline.thy ===== *)
theory FilterPipeline
  imports TableFilters
begin

text \<open>
  The way of the filters through a table, end to end: the table builder feeds the filter block
  builder and stores the offset arrays (one per run of filters with the same bits per key),
  an open table reads them back, and filters are loaded and dropped per region in any order.
  At no moment does a lookup miss a key of the table because of the filters.
\<close>

subsection \<open>Storing the offset arrays (TableBuilder::Finish)\<close>

text \<open>
  The nested \<open>while\<close> loops that write one offset array for the last filter of every run of equal
  bits per key. \<open>bits\<close> is the array up to its terminating 0.
\<close>

fun stored_offset_ids :: "nat \<Rightarrow> nat list \<Rightarrow> nat list" where
  "stored_offset_ids i [] = []"
| "stored_offset_ids i [b] = [i]"
| "stored_offset_ids i (b # b' # bits) =
     (if b = b' then stored_offset_ids (i + 1) (b' # bits) else i # stored_offset_ids (i + 1) (b' # bits))"

definition meta_offsets :: "nat list \<Rightarrow> FilterBlockBuilder \<Rightarrow> slice list" where
  "meta_offsets bits b = map (\<lambda>i. FilterBlockBuilder_getOffsets i b) (stored_offset_ids 0 bits)"

text \<open>
  Neighbouring filters with the same bits per key have the same offsets, so a stored array
  stands for the whole run it was written for.
\<close>

definition runs_agree :: "(nat \<Rightarrow> 'a) \<Rightarrow> nat \<Rightarrow> nat list \<Rightarrow> bool" where
  "runs_agree off i bits \<longleftrightarrow> (\<forall>k. Suc k < length bits \<and> bits ! k = bits ! Suc k \<longrightarrow> off (i + k) = off (i + Suc k))"

lemma runs_agree_Cons:
  "runs_agree off i (b # b' # bits) \<Longrightarrow> runs_agree off (i + 1) (b' # bits) \<and> (b = b' \<longrightarrow> off i = off (i + 1))"
  unfolding runs_agree_def by (fastforce dest: spec [of _ 0] spec [of _ "Suc _"])

lemma stored_offset_ids_hd:
  "runs_agree off i (b # bits) \<Longrightarrow> \<exists>i' rest. stored_offset_ids i (b # bits) = i' # rest \<and> off i' = off i \<and>
     i \<le> i' \<and> i' \<le> i + length bits"
proof (induction bits arbitrary: i b)
  case (Cons b' bits)
  from Cons.IH [of "i + 1" b'] runs_agree_Cons [OF Cons.prems] show ?case by auto
qed simp

lemma stored_offset_ids_ne: "bits \<noteq> [] \<Longrightarrow> stored_offset_ids i bits \<noteq> []"
  by (induction i bits rule: stored_offset_ids.induct) auto

lemma ReadMeta_offsets_run:
  assumes "runs_agree off i (b # bits)" "last (offsets t) = off i" "offsets t \<noteq> []"
    "\<And>k. i \<le> k \<Longrightarrow> k \<le> i + length bits \<Longrightarrow> parse_offsets (v k) = off k \<and> unat (last (v k)) = lg"
    "table_base_lg t = lg"
  shows "ReadMeta_offsets (Some b) bits (map v (tl (stored_offset_ids i (b # bits)))) t =
     t\<lparr>offsets := offsets t @ map off [i + 1..<i + 1 + length bits]\<rparr>"
  using assms
proof (induction bits arbitrary: i b t)
  case (Cons b' bits)
  note ra = runs_agree_Cons [OF Cons.prems(1)]
  have upt: "[i + 1..<i + 1 + length (b' # bits)] = (i + 1) # [i + 2..<i + 2 + length bits]"
    by (subst upt_conv_Cons) (simp_all del: upt_Suc)
  let ?t = "t\<lparr>offsets := offsets t @ [off (i + 1)]\<rparr>"
  have ih: "ReadMeta_offsets (Some b') bits (map v (tl (stored_offset_ids (i + 1) (b' # bits)))) ?t =
      ?t\<lparr>offsets := offsets ?t @ map off [i + 1 + 1..<i + 1 + 1 + length bits]\<rparr>"
    using ra Cons.prems(4,5) by (intro Cons.IH) auto
  show ?case
  proof (cases "b = b'")
    case True
    with ih ra Cons.prems(2) upt show ?thesis by (simp del: upt_Suc)
  next
    case False
    obtain i' rest where i': "stored_offset_ids (i + 1) (b' # bits) = i' # rest" "off i' = off (i + 1)"
      "i + 1 \<le> i'" "i' \<le> i + 1 + length bits"
      using stored_offset_ids_hd ra by blast
    have "parse_offsets (v i') = off (i + 1)" "unat (last (v i')) = lg"
      using Cons.prems(4) [of i'] i' by auto
    moreover have "t\<lparr>offsets := os, table_base_lg := lg\<rparr> = t\<lparr>offsets := os\<rparr>" for os
      using Cons.prems(5) by (cases t) simp
    ultimately show ?thesis using False ih i'(1) upt by (simp del: upt_Suc)
  qed
qed simp

lemma ReadMeta_tfilter: "tfilter (ReadMeta rds bits vals hs t) = tfilter t"
proof -
  have "tfilter (ReadMeta_offsets prev bits vals t) = tfilter t" for prev
    by (induction prev bits vals t rule: ReadMeta_offsets.induct) (auto split: list.splits)
  then show ?thesis by (simp add: ReadMeta_def Let_def)
qed

lemma ReadMeta_offsets_all:
  assumes "runs_agree off 0 bits" "bits \<noteq> []"
    "\<And>k. k < length bits \<Longrightarrow> parse_offsets (v k) = off k \<and> unat (last (v k)) = lg" "offsets t = []"
  shows "ReadMeta_offsets None bits (map v (stored_offset_ids 0 bits)) t =
     t\<lparr>offsets := map off [0..<length bits], table_base_lg := lg\<rparr>"
proof -
  obtain b bs where b: "bits = b # bs" using assms(2) by (cases bits) auto
  obtain i' rest where i': "stored_offset_ids 0 (b # bs) = i' # rest" "off i' = off 0" "i' \<le> length bs"
    using stored_offset_ids_hd assms(1) b by force
  have v: "parse_offsets (v i') = off 0" "unat (last (v i')) = lg" using assms(3) [of i'] i' b by auto
  let ?t = "t\<lparr>offsets := [off 0], table_base_lg := lg\<rparr>"
  have "ReadMeta_offsets (Some b) bs (map v (tl (stored_offset_ids 0 (b # bs)))) ?t =
      ?t\<lparr>offsets := offsets ?t @ map off [0 + 1..<0 + 1 + length bs]\<rparr>"
    using assms(1,3) b by (intro ReadMeta_offsets_run) auto
  moreover have "[0..<length bits] = 0 # [0 + 1..<0 + 1 + length bs]"
    by (subst upt_conv_Cons) (simp_all add: b del: upt_Suc)
  ultimately show ?thesis using i' v assms(4) b by (simp del: upt_Suc)
qed

subsection \<open>What the finished filter strings look like\<close>

context filter_policy
begin

lemma Finish_rel:
  assumes "fb_rel summaries filterNums b gs pending"
  shows "\<exists>b' gs'. FilterBlockBuilder_Finish CreateFilter b = Some b' \<and>
     gs' = (if pending = [] then gs else gs @ [pending]) \<and>
     results b' = map (\<lambda>i. concat (map (group_part summaries i) gs') @
        concat (map EncodeFixed32 (map (\<lambda>j. of_nat (group_pos summaries i gs' j)) [0..<length gs' + 1])) @
        [of_nat kFilterBaseLg]) [0..<filterNums]"
proof -
  define gs' where "gs' = (if pending = [] then gs else gs @ [pending])"
  have st: "start_idx b = [] \<longleftrightarrow> pending = []"
    using assms by (metis fb_rel_def length_0_conv length_key_starts)
  obtain b1 where b1: "(if start_idx b \<noteq> [] then GenerateFilter CreateFilter b else Some b) = Some b1"
    "fb_rel summaries filterNums b1 gs' []"
    using GenerateFilter_rel [OF assms] assms st by (auto simp: gs'_def)
  let ?S = "\<lambda>i. concat (map (group_part summaries i) gs')"
  let ?ws = "\<lambda>i. map (\<lambda>j. of_nat (group_pos summaries i gs' j)) [0..<length gs'] :: u32 list"
  have "?ws i @ [of_nat (length (?S i))] = map (\<lambda>j. of_nat (group_pos summaries i gs' j)) [0..<length gs' + 1]" for i
    by (simp add: group_pos_def)
  moreover have "map2 (\<lambda>r offs. PutFixed32 (foldl PutFixed32 r offs) (of_nat (length r)) @ [of_nat kFilterBaseLg])
      (results b1) (filters_offsets b1) =
     map (\<lambda>i. ?S i @ concat (map EncodeFixed32 (?ws i @ [of_nat (length (?S i))])) @ [of_nat kFilterBaseLg]) [0..<filterNums]"
    using b1(2) unfolding fb_rel_def finished_string by (auto intro!: nth_equalityI)
  ultimately show ?thesis
    using b1(1) unfolding FilterBlockBuilder_Finish_def gs'_def [symmetric] by (simp del: upt_Suc)
qed

lemma internal_policy:
  "filter_policy filterNums (InternalFilter_CreateFilters CreateFilter)
    (InternalFilter_KeyMayMatchFilters KeyMayMatchFilters) (\<lambda>keys. summaries (map ExtractUserKey keys))"
  by unfold_locales
    (auto simp: summaries_length create_appends may_match InternalFilter_CreateFilters_def
      InternalFilter_KeyMayMatchFilters_def)

end

interpretation multi_internal: filter_policy
    "Multi_filterNums (new_MultiFilter (take 12 bits))"
    "InternalFilter_CreateFilters (Multi_CreateFilter (new_MultiFilter (take 12 bits)))"
    "InternalFilter_KeyMayMatchFilters (Multi_KeyMayMatchFilters (new_MultiFilter (take 12 bits)))"
    "\<lambda>keys. Multi_summaries (new_MultiFilter (take 12 bits)) (map ExtractUserKey keys)"
  for bits
  by (rule multi.policy.internal_policy)

text \<open>A lookup through the wrapper depends on the user key only.\<close>

lemma KeyMayMatch_user_key:
  "ExtractUserKey k = ExtractUserKey k' \<Longrightarrow>
   FilterBlockReader_KeyMayMatch (InternalFilter_KeyMayMatchFilters M) off k r =
   FilterBlockReader_KeyMayMatch (InternalFilter_KeyMayMatchFilters M) off k' r"
  by (simp add: FilterBlockReader_KeyMayMatch_def InternalFilter_KeyMayMatchFilters_def Let_def cong: option.case_cong)

subsection \<open>Loading filters while a table is opened\<close>

lemma region_slice_frame [simp]:
  "region_slice rds (t\<lparr>filter_datas := x\<rparr>) = region_slice rds t"
  "region_slice rds (t\<lparr>tfilter := y\<rparr>) = region_slice rds t"
  by (simp_all add: region_slice_def regionOffset_def getRegionNum_def fun_eq_iff)

lemma ensure_filter_frame:
  "ensure_filter rds (t\<lparr>filter_datas := x\<rparr>) = map_option (\<lambda>t. t\<lparr>filter_datas := x\<rparr>) (ensure_filter rds t)"
  by (cases t) (simp add: ensure_filter_def regionOffset_def getRegionNum_def option.map_comp o_def split: option.splits)

lemma map_upt_update:
  "k < n \<Longrightarrow> (map g [0..<n])[k := x] = map (\<lambda>j. if j = k then x else g j) [0..<n]"
  by (auto simp: nth_list_update intro!: nth_equalityI)

lemma upd_commute: "t\<lparr>tfilter := x, filter_datas := y\<rparr> = t\<lparr>filter_datas := y, tfilter := x\<rparr>"
  by (cases t) simp

lemma fold_push_part:
  "k \<le> length (filter_datas t) \<Longrightarrow> fold (push_part rds (i, blk)) [0..<k] t =
     t\<lparr>filter_datas := map (\<lambda>j. filter_datas t ! j @
        (if j < k then [region_slice rds t (offsets t ! i) blk j] else [])) [0..<length (filter_datas t)]\<rparr>"
proof (induction k)
  case 0
  have "map (\<lambda>j. filter_datas t ! j @ []) [0..<length (filter_datas t)] = filter_datas t"
    by (simp add: map_nth)
  then show ?case by simp
next
  case (Suc k)
  then show ?case
    by (auto simp: push_part_def map_upt_update less_Suc_eq intro!: arg_cong [where f = "\<lambda>x. t\<lparr>filter_datas := x\<rparr>"])
qed

lemma fold_add_to_filter:
  assumes "k \<le> length (datas r)" "k \<le> length (curr_num_of_filters_regions r)"
  shows "fold (\<lambda>j t. add_to_filter (filter_datas t ! j ! i) j t) [0..<k] (t\<lparr>tfilter := Some r\<rparr>) =
     t\<lparr>tfilter := Some (r\<lparr>
        datas := map (\<lambda>j. datas r ! j @ (if j < k then [filter_datas t ! j ! i] else [])) [0..<length (datas r)],
        curr_num_of_filters_regions := map (\<lambda>j. curr_num_of_filters_regions r ! j + (if j < k then 1 else 0))
          [0..<length (curr_num_of_filters_regions r)]\<rparr>)\<rparr>"
  using assms
proof (induction k)
  case 0
  show ?case by (simp add: map_nth)
next
  case (Suc k)
  then show ?case
    by (auto simp: add_to_filter_def FilterBlockReader_AddFilter_def map_upt_update less_Suc_eq
        intro!: arg_cong2 [where f = "\<lambda>x y. t\<lparr>tfilter := Some (r\<lparr>datas := x, curr_num_of_filters_regions := y\<rparr>)\<rparr>"])
qed

definition uniform :: "(slice list \<Rightarrow> slice list) \<Rightarrow> nat \<Rightarrow> nat \<Rightarrow> slice list list \<Rightarrow> nat \<Rightarrow> Table \<Rightarrow> bool" where
  "uniform f n rf gs i t \<longleftrightarrow> table_inv f n rf gs t \<and> (\<forall>j < region_count rf gs. getCurrFilterNum j t = i)"

lemma load_block_correct:
  assumes "uniform f n rf gs i t" "i < n" "blk = concat (map (group_part f i) gs) @ rest"
  shows "\<exists>t'. load_block (rf * kFilterBase) (i, blk) (Some t) = Some t' \<and> uniform f n rf gs (Suc i) t' \<and>
     filter_handles t' = filter_handles t"
proof -
  let ?R = "region_count rf gs" and ?fd = "filter_datas t"
  have tof: "table_of f n rf gs t" using assms(1) by (simp add: uniform_def table_inv_def)
  obtain r where r: "ensure_filter (rf * kFilterBase) t = Some (t\<lparr>tfilter := Some r\<rparr>)"
    "reader_inv f n rf gs t r" "\<forall>j < ?R. curr_num_of_filters_regions r ! j = i"
  proof -
    obtain r where e: "ensure_filter (rf * kFilterBase) t = Some (t\<lparr>tfilter := Some r\<rparr>)"
      "table_inv f n rf gs (t\<lparr>tfilter := Some r\<rparr>)"
      "\<forall>j < ?R. getCurrFilterNum j (t\<lparr>tfilter := Some r\<rparr>) = getCurrFilterNum j t"
      using table_inv_ensure_filter [of f n rf gs t] assms(1) unfolding uniform_def by blast
    have "reader_inv f n rf gs t r" using e(2) reader_inv_frame [of t "t\<lparr>tfilter := Some r\<rparr>"] by (simp add: table_inv_def)
    moreover have "\<forall>j < ?R. curr_num_of_filters_regions r ! j = i"
      using e(3) assms(1) by (simp add: uniform_def getCurrFilterNum_def)
    ultimately show ?thesis using that e(1) by blast
  qed
  have R: "getRegionNum (rf * kFilterBase) t = ?R" using getRegionNum_eq [OF tof] by (simp add: region_count_def)
  have len: "datas r = ?fd" "length ?fd = ?R" "length (curr_num_of_filters_regions r) = ?R"
    using r(2) by (auto simp: reader_inv_def Let_def region_count_def)
  have fd: "?fd ! j = map (\<lambda>i. region_bytes f rf gs i j) [0..<i]" if "j < ?R" for j
    using r(2,3) that by (auto simp: reader_inv_def Let_def region_count_def)
  let ?fd' = "map (\<lambda>j. ?fd ! j @ [region_bytes f rf gs i j]) [0..<?R]"
  have push: "fold (push_part (rf * kFilterBase) (i, blk)) [0..<?R] t = t\<lparr>filter_datas := ?fd'\<rparr>"
    using len(2) region_slice_eq [OF tof assms(2)] by (simp add: fold_push_part assms(3) region_count_def)
  let ?r' = "r\<lparr>datas := ?fd', curr_num_of_filters_regions := map (\<lambda>j. Suc i) [0..<?R]\<rparr>"
  have "fold (\<lambda>j t. add_to_filter (filter_datas t ! j ! i) j t) [0..<?R] (t\<lparr>filter_datas := ?fd', tfilter := Some r\<rparr>) =
      t\<lparr>filter_datas := ?fd', tfilter := Some ?r'\<rparr>"
    using len r(3) fd
    by (subst fold_add_to_filter) (auto simp: nth_append intro!: arg_cong2 [where
        f = "\<lambda>x y. t\<lparr>filter_datas := ?fd', tfilter := Some (r\<lparr>datas := x, curr_num_of_filters_regions := y\<rparr>)\<rparr>"])
  then have "load_block (rf * kFilterBase) (i, blk) (Some t) = Some (t\<lparr>filter_datas := ?fd', tfilter := Some ?r'\<rparr>)"
    by (simp add: load_block_def R push ensure_filter_frame r(1) Let_def upd_commute)
  moreover have "uniform f n rf gs (Suc i) (t\<lparr>filter_datas := ?fd', tfilter := Some ?r'\<rparr>)"
    using tof r(2) assms(2) fd len(2)
    by (auto simp: uniform_def table_inv_def table_of_def reader_inv_def Let_def region_count_def getCurrFilterNum_def)
  ultimately show ?thesis by (intro exI [of _ "t\<lparr>filter_datas := ?fd', tfilter := Some ?r'\<rparr>"]) simp
qed

lemma ReadFilters_correct:
  assumes "uniform f n rf gs i t" "i + length blocks \<le> n"
    "\<forall>k < length blocks. \<exists>rest. blocks ! k = concat (map (group_part f (i + k)) gs) @ rest"
  shows "\<exists>t'. fold (load_block (rf * kFilterBase)) (enumerate i blocks) (Some t) = Some t' \<and>
     uniform f n rf gs (i + length blocks) t' \<and> filter_handles t' = filter_handles t"
  using assms
proof (induction blocks arbitrary: i t)
  case (Cons blk blocks)
  obtain rest where "blk = concat (map (group_part f i) gs) @ rest" using Cons.prems(3) by fastforce
  from load_block_correct [OF Cons.prems(1) _ this] Cons.prems(2)
  obtain t1 where t1: "load_block (rf * kFilterBase) (i, blk) (Some t) = Some t1" "uniform f n rf gs (Suc i) t1"
    "filter_handles t1 = filter_handles t" by auto
  have "\<forall>k < length blocks. \<exists>rest. blocks ! k = concat (map (group_part f (Suc i + k)) gs) @ rest"
    using Cons.prems(3) by fastforce
  from Cons.IH [OF t1(2) _ this] Cons.prems(2) t1 show ?case by auto
qed simp

subsection \<open>Any use of the filters of an open table\<close>

text \<open>
  A table whose offset arrays have been read is opened with the first \<open>m\<close> filter strings
  (\<open>strings\<close> are their blocks) loaded; then filters of a region are added or removed.
\<close>

inductive filter_use ::
  "nat \<Rightarrow> nat \<Rightarrow> bool \<Rightarrow> (nat \<Rightarrow> nat) \<Rightarrow> (nat \<Rightarrow> nat \<Rightarrow> status + slice) \<Rightarrow> slice list \<Rightarrow> Table \<Rightarrow> Table \<Rightarrow> bool"
  for rds regions real_size bits Read strings t0 where
  opened: "ReadFilters rds (take m strings) t0 = Some t \<Longrightarrow> filter_use rds regions real_size bits Read strings t0 t"
| adjust: "filter_use rds regions real_size bits Read strings t0 t \<Longrightarrow> j < regions \<Longrightarrow>
     AdjustFilters rds real_size bits Read m j t = Some (d, t') \<Longrightarrow>
     filter_use rds regions real_size bits Read strings t0 t'"
| remove: "filter_use rds regions real_size bits Read strings t0 t \<Longrightarrow> j < regions \<Longrightarrow> k \<le> getCurrFilterNum j t \<Longrightarrow>
     Table_RemoveFilters real_size bits (int k) j t = Some (d, t') \<Longrightarrow>
     filter_use rds regions real_size bits Read strings t0 t'"

inductive_cases filter_useE: "filter_use rds regions real_size bits Read strings t0 t"

lemma filter_use_inv:
  assumes "filter_use (rf * kFilterBase) (region_count rf gs) real_size bits Read strings t0 t"
    "table_inv f n rf gs t0" "tfilter t0 = None" "file_of f n gs Read (filter_handles t0)"
    "strings = map (\<lambda>i. concat (map (group_part f i) gs) @ rest i) [0..<n]"
  shows "table_inv f n rf gs t \<and> filter_handles t = filter_handles t0"
  using assms(1)
proof (induction rule: filter_use.induct)
  case (opened m t)
  have "uniform f n rf gs 0 t0" using assms(2,3) by (simp add: uniform_def getCurrFilterNum_def)
  from ReadFilters_correct [OF this, of "take m strings"] opened show ?case
    by (auto simp: ReadFilters_def uniform_def assms(5))
next
  case (adjust t j m d t')
  show ?case
  proof (cases "tfilter t \<noteq> None \<or> 0 < m")
    case True
    with AdjustFilters_correct [of f n rf gs t Read j m real_size bits] adjust assms(4) show ?thesis
      by (auto simp: loaded_to_def)
  next
    case False
    with adjust show ?thesis by (simp add: AdjustFilters_def)
  qed
next
  case (remove t j k d t')
  show ?case
  proof (cases "tfilter t")
    case None
    with remove show ?thesis by (simp add: Table_RemoveFilters_def)
  next
    case (Some r)
    with Table_RemoveFilters_correct [of f n rf gs t j k real_size bits] remove show ?thesis
      by (auto simp: loaded_to_def)
  qed
qed

subsection \<open>The whole way\<close>

abbreviation multi_summaries :: "nat list \<Rightarrow> slice list \<Rightarrow> slice list" where
  "multi_summaries bits \<equiv> \<lambda>keys. Multi_summaries (new_MultiFilter bits) (map ExtractUserKey keys)"

lemma new_MultiFilter_nth:
  assumes "0 \<notin> set bits"
  shows "length (new_MultiFilter bits) = length bits"
    and "i < length bits \<Longrightarrow> new_MultiFilter bits ! i = new_ChildBloomFilterPolicy (bits ! i) i"
proof -
  have "takeWhile (\<lambda>b. b \<noteq> 0) bits = bits" using assms by (induction bits) auto
  then show "length (new_MultiFilter bits) = length bits"
    "i < length bits \<Longrightarrow> new_MultiFilter bits ! i = new_ChildBloomFilterPolicy (bits ! i) i"
    unfolding new_MultiFilter_def Let_def by (simp_all only:) simp_all
qed

lemma length_group_part:
  assumes "0 \<notin> set bits" "i < length bits"
  shows "length (group_part (multi_summaries bits) i g) = (if g = [] then 0 else filter_bytes (bits ! i) (length g) + 1)"
  using new_MultiFilter_nth [OF assms(1)] assms(2)
  by (simp add: group_part_def Multi_summaries_def child_filter_def new_ChildBloomFilterPolicy_def length_build_filter)

lemma offsets_agree:
  assumes "0 \<notin> set bits"
  shows "runs_agree (\<lambda>i. map (\<lambda>j. of_nat (group_pos (multi_summaries bits) i gs j)) [0..<length gs + 1] :: u32 list) 0 bits"
proof -
  have "group_pos (multi_summaries bits) i gs j = group_pos (multi_summaries bits) k gs j"
    if "i < length bits" "k < length bits" "bits ! i = bits ! k" for i j k
  proof -
    have "length (group_part (multi_summaries bits) i g) = length (group_part (multi_summaries bits) k g)" for g
      using that length_group_part [OF assms] by simp
    then show ?thesis by (simp add: group_pos_def length_concat o_def)
  qed
  then show ?thesis
    unfolding runs_agree_def add_0 by (intro allI impI map_cong refl) (metis Suc_lessD)
qed

text \<open>A table as \<open>Open\<close> creates it, before \<open>ReadMeta\<close>.\<close>

definition fresh_table :: Table where
  "fresh_table = \<lparr>tfilter = None, filter_datas = [], filter_handles = [], offsets = [], table_base_lg = 0\<rparr>"

text \<open>The file holds the finished string \<open>i\<close> at the position of handle \<open>i\<close>.\<close>

definition strings_stored :: "(nat \<Rightarrow> nat \<Rightarrow> status + slice) \<Rightarrow> slice list \<Rightarrow> slice list \<Rightarrow> bool" where
  "strings_stored Read handles strings \<longleftrightarrow> length handles = length strings \<and>
     (\<forall>i < length strings. \<exists>h rest. BlockHandle_DecodeFrom (handles ! i) = Inr (h, rest) \<and>
        (\<forall>a b. a + b \<le> length (strings ! i) \<longrightarrow>
           Read (unat (bh_offset h) + a) b = Inr (take b (drop a (strings ! i)))))"

lemma ReadMeta_table_inv:
  fixes bits :: "nat list" and gs :: "slice list list"
  defines "f \<equiv> multi_summaries bits"
  assumes nz: "0 \<notin> set bits" "bits \<noteq> []" and gs: "gs \<noteq> []" and rf: "0 < rf"
    and res: "results b = map (\<lambda>i. concat (map (group_part f i) gs) @
        concat (map EncodeFixed32 (map (\<lambda>j. of_nat (group_pos f i gs j)) [0..<length gs + 1])) @
        [of_nat kFilterBaseLg]) [0..<length bits]"
    and small: "\<forall>r \<in> set (results b). length r < 2 ^ 32"
  shows "table_inv f (length bits) rf gs (ReadMeta (rf * kFilterBase) bits (meta_offsets bits b) handles fresh_table)"
    and "filter_handles (ReadMeta (rf * kFilterBase) bits (meta_offsets bits b) handles fresh_table) = handles"
proof -
  let ?off = "\<lambda>i. map (\<lambda>j. of_nat (group_pos f i gs j)) [0..<length gs + 1] :: u32 list"
  let ?S = "\<lambda>i. concat (map (group_part f i) gs)"
  have pos: "group_pos f i gs (length gs) < 2 ^ 32" if "i < length bits" for i
  proof -
    have "length (results b ! i) < 2 ^ 32" using small res that by simp
    then show ?thesis using that by (simp add: res group_pos_def)
  qed
  have ws: "?off i = map (\<lambda>j. of_nat (group_pos f i gs j)) [0..<length gs] @ [of_nat (length (?S i))]" for i
    by (simp add: group_pos_def)
  have get: "FilterBlockBuilder_getOffsets i b = concat (map EncodeFixed32 (?off i)) @ [of_nat kFilterBaseLg]"
    if "i < length bits" for i
    unfolding ws using that pos [OF that]
    by (intro getOffsets_finished) (simp_all add: res group_pos_def)
  have parse: "parse_offsets (FilterBlockBuilder_getOffsets i b) = ?off i \<and>
      unat (last (FilterBlockBuilder_getOffsets i b)) = kFilterBaseLg" if "i < length bits" for i
    using parse_offsets_stored [of "?off i"] by (simp add: get [OF that] kFilterBaseLg_def del: upt_Suc)
  let ?t0 = "fresh_table\<lparr>offsets := map ?off [0..<length bits], table_base_lg := kFilterBaseLg\<rparr>"
  have t0: "ReadMeta_offsets None bits (meta_offsets bits b) fresh_table = ?t0"
    unfolding meta_offsets_def
    using offsets_agree [OF nz(1), of gs] nz(2) parse
    by (intro ReadMeta_offsets_all) (simp_all add: f_def fresh_table_def del: upt_Suc)
  have ne: "meta_offsets bits b \<noteq> []"
    using stored_offset_ids_ne [OF nz(2)] by (simp add: meta_offsets_def)
  have tof: "table_of f (length bits) rf gs ?t0"
    using gs rf nz(2) pos by (auto simp: table_of_def simp del: upt_Suc)
  have R: "getRegionNum (rf * kFilterBase) ?t0 = (length gs + rf - 1) div rf" by (rule getRegionNum_eq [OF tof])
  have rm: "ReadMeta (rf * kFilterBase) bits (meta_offsets bits b) handles fresh_table =
      ?t0\<lparr>filter_datas := replicate ((length gs + rf - 1) div rf) [], filter_handles := handles\<rparr>"
    using ne R by (simp add: ReadMeta_def t0 Let_def) (simp add: fresh_table_def)
  show "table_inv f (length bits) rf gs (ReadMeta (rf * kFilterBase) bits (meta_offsets bits b) handles fresh_table)"
    using tof unfolding rm by (simp add: table_inv_def table_of_def fresh_table_def del: upt_Suc)
  show "filter_handles (ReadMeta (rf * kFilterBase) bits (meta_offsets bits b) handles fresh_table) = handles"
    unfolding rm by simp
qed

lemma file_of_stored:
  assumes "results b = map (\<lambda>i. concat (map (group_part f i) gs) @ rest i) [0..<n]"
    "strings_stored Read handles (results b)"
  shows "file_of f n gs Read handles"
  unfolding file_of_def
proof (intro conjI allI impI)
  show "length handles = n" using assms by (simp add: strings_stored_def)
  fix i assume i: "i < n"
  let ?S = "concat (map (group_part f i) gs)"
  obtain h r where h: "BlockHandle_DecodeFrom (handles ! i) = Inr (h, r)"
    "\<forall>a b'. a + b' \<le> length (results b ! i) \<longrightarrow> Read (unat (bh_offset h) + a) b' = Inr (take b' (drop a (results b ! i)))"
    using assms i unfolding strings_stored_def by auto
  have "take b' (drop a (results b ! i)) = take b' (drop a ?S)" "a + b' \<le> length (results b ! i)"
    if "a + b' \<le> length ?S" for a b'
    using that i assms(1) by simp_all
  with h show "\<exists>h rest. BlockHandle_DecodeFrom (handles ! i) = Inr (h, rest) \<and>
      (\<forall>a b. a + b \<le> group_pos f i gs (length gs) \<longrightarrow> Read (unat (bh_offset h) + a) b = Inr (take b (drop a ?S)))"
    by (simp add: group_pos_def)
qed

text \<open>
  C7. Filters never hide a key. Take the data blocks of a table, at increasing file offsets,
  with internal keys; build the filter strings with up to twelve child filters, store them and
  their offset arrays, open the table with some of them loaded, and load and drop filters of its regions in any order:
  a lookup of any internal key with the user key of one of the block's keys, at the block's
  offset, is never ruled out by the filters that happen to be loaded.
\<close>

theorem filters_never_hide_keys:
  fixes bits :: "nat list"
  defines "p \<equiv> new_MultiFilter bits"
  assumes bits: "length bits \<le> 12" "bits \<noteq> []" "0 \<notin> set bits"
    and blks: "sorted (map fst blks)" "(off, ks) \<in> set blks" "key \<in> set ks" "ExtractUserKey k = ExtractUserKey key"
    and built: "Option.bind (feed_blocks (InternalFilter_CreateFilters (Multi_CreateFilter p)) blks
        (new_FilterBlockBuilder (Multi_filterNums p)))
        (FilterBlockBuilder_Finish (InternalFilter_CreateFilters (Multi_CreateFilter p))) = Some b"
    and small: "\<forall>r \<in> set (results b). length r < 2 ^ 32"
    and stored: "strings_stored Read handles (results b)"
    and rf: "0 < rf"
    and t0: "t0 = ReadMeta (rf * kFilterBase) bits (meta_offsets bits b) handles fresh_table"
    and used: "filter_use (rf * kFilterBase) (getRegionNum (rf * kFilterBase) t0) real_size charge Read (results b) t0 t"
    and r: "tfilter t = Some r"
  shows "FilterBlockReader_KeyMayMatch (InternalFilter_KeyMayMatchFilters (Multi_KeyMayMatchFilters p)) off k r = Some True"
proof -
  let ?f = "multi_summaries bits" and ?n = "length bits"
  have tk: "take 12 bits = bits" using bits(1) by simp
  have n: "Multi_filterNums p = ?n" using new_MultiFilter_nth(1) [OF bits(3)] by (simp add: p_def Multi_filterNums_def)
  have pol: "filter_policy ?n (InternalFilter_CreateFilters (Multi_CreateFilter p))
      (InternalFilter_KeyMayMatchFilters (Multi_KeyMayMatchFilters p)) ?f"
    using multi_internal.filter_policy_axioms [of bits] n [unfolded p_def] unfolding tk p_def by (simp only:)
  obtain b1 gs pending where b1: "feed_blocks (InternalFilter_CreateFilters (Multi_CreateFilter p)) blks
       (new_FilterBlockBuilder ?n) = Some b1"
    "fb_rel ?f ?n b1 gs pending" "in_group gs pending off key"
  proof -
    have "0 < ?n" "\<forall>(off, ks) \<in> set blks. length ([] :: slice list list) \<le> off div kFilterBase"
      using bits(2) by auto
    from filter_policy.feed_blocks_rel [OF pol this(1) fb_rel_new blks(1) this(2)]
    show ?thesis using blks(2,3) that by blast
  qed
  define gs' where "gs' = (if pending = [] then gs else gs @ [pending])"
  have res: "results b = map (\<lambda>i. concat (map (group_part ?f i) gs') @
        concat (map EncodeFixed32 (map (\<lambda>j. of_nat (group_pos ?f i gs' j)) [0..<length gs' + 1])) @
        [of_nat kFilterBaseLg]) [0..<?n]"
    using filter_policy.Finish_rel [OF pol b1(2)] built b1(1)
    by (auto simp: n gs'_def)
  have key: "off div kFilterBase < length gs'" "key \<in> set (gs' ! (off div kFilterBase))"
    using b1(3) by (auto simp: in_group_def gs'_def nth_append split: if_splits)
  then have gs': "gs' \<noteq> []" by auto
  have inv0: "table_inv ?f ?n rf gs' t0" "filter_handles t0 = handles"
    using ReadMeta_table_inv [OF bits(3,2) gs' rf res small, of handles] t0 by simp_all
  have tf: "tfilter t0 = None" by (simp add: t0 ReadMeta_tfilter fresh_table_def)
  have reg: "getRegionNum (rf * kFilterBase) t0 = region_count rf gs'"
    using getRegionNum_eq inv0(1) unfolding region_count_def table_inv_def by blast
  have "file_of ?f ?n gs' Read (filter_handles t0)"
    unfolding inv0(2) by (rule file_of_stored [OF res stored])
  then have "table_inv ?f ?n rf gs' t"
    using filter_use_inv [OF used [unfolded reg] inv0(1) tf _ res] by blast
  then have "table_of ?f ?n rf gs' t" "reader_inv ?f ?n rf gs' t r" using r by (simp_all add: table_inv_def)
  then have "FilterBlockReader_KeyMayMatch (InternalFilter_KeyMayMatchFilters (Multi_KeyMayMatchFilters p)) off key r = Some True"
    using filter_policy.KeyMayMatch_hit [OF pol _ _ key] by blast
  then show ?thesis using KeyMayMatch_user_key [OF blks(4)] by metis
qed

theorem filters_never_hide_keys_witness:
  "\<exists>b t r. Option.bind (feed_blocks (InternalFilter_CreateFilters (Multi_CreateFilter (new_MultiFilter [4])))
        [(0, [MakeInternalKey [97] 7 kTypeValue])] (new_FilterBlockBuilder (Multi_filterNums (new_MultiFilter [4]))))
      (FilterBlockBuilder_Finish (InternalFilter_CreateFilters (Multi_CreateFilter (new_MultiFilter [4])))) = Some b \<and>
     tfilter t = Some r \<and> getCurrFilterNum 0 t = 1 \<and>
     FilterBlockReader_KeyMayMatch (InternalFilter_KeyMayMatchFilters (Multi_KeyMayMatchFilters (new_MultiFilter [4])))
       0 (MakeInternalKey [97] 9 kTypeValue) r = Some True"
proof -
  let ?p = "new_MultiFilter [4]" and ?key = "MakeInternalKey [97] 7 kTypeValue"
  let ?C = "InternalFilter_CreateFilters (Multi_CreateFilter ?p)" and ?f = "multi_summaries [4]"
  have n: "Multi_filterNums ?p = 1" by (simp add: Multi_filterNums_def new_MultiFilter_nth)
  have pol: "filter_policy 1 ?C (InternalFilter_KeyMayMatchFilters (Multi_KeyMayMatchFilters ?p)) ?f"
    using multi_internal.filter_policy_axioms [of "[4]"] n by simp
  let ?b1 = "FilterBlockBuilder_AddKey ?key (new_FilterBlockBuilder 1)"
  have feed: "feed_blocks ?C [(0, [?key])] (new_FilterBlockBuilder 1) = Some ?b1"
    by (simp add: feed_block_def FilterBlockBuilder_StartBlock_def)
  obtain b where b: "FilterBlockBuilder_Finish ?C ?b1 = Some b"
    "results b = map (\<lambda>i. concat (map (group_part ?f i) [[?key]]) @
        concat (map EncodeFixed32 (map (\<lambda>j. of_nat (group_pos ?f i [[?key]] j)) [0..<length [[?key]] + 1])) @
        [of_nat kFilterBaseLg]) [0..<length [4::nat]]"
    using filter_policy.Finish_rel [OF pol fb_rel_AddKey [OF fb_rel_new], of ?key] by auto
  have small: "\<forall>r \<in> set (results b). length r < 2 ^ 32"
    using length_group_part [of "[4]" 0 "[?key]"] unfolding b(2)
    by (simp add: length_concat_EncodeFixed32 filter_bytes_def del: upt_Suc map_map)
  let ?Read = "\<lambda>a k. Inr (take k (drop a (results b ! 0))) :: status + slice"
  let ?hs = "[BlockHandle_EncodeTo \<lparr>bh_offset = 0, bh_size = 1\<rparr> []]"
  have stored: "strings_stored ?Read ?hs (results b)"
    by (simp add: strings_stored_def b(2))
  let ?t0 = "ReadMeta (1 * kFilterBase) [4] (meta_offsets [4] b) ?hs fresh_table"
  have inv: "table_inv ?f 1 1 [[?key]] ?t0" "filter_handles ?t0 = ?hs"
    using ReadMeta_table_inv [OF _ _ _ _ b(2) small, of 1 ?hs] by simp_all
  have reg: "getRegionNum (1 * kFilterBase) ?t0 = 1"
    using getRegionNum_eq inv(1) by (force simp: table_inv_def)
  obtain d t where t: "AdjustFilters (1 * kFilterBase) False (\<lambda>_. 4) ?Read 1 0 ?t0 = Some (d, t)"
    "loaded_to ?f 1 1 [[?key]] ?t0 0 1 t"
    using AdjustFilters_correct [OF inv(1), of ?Read 0 1 False "\<lambda>_. 4"] file_of_stored [OF b(2) stored] inv
      curr_le [OF inv(1), of 0]
    by (auto simp: region_count_def max_def split: if_splits)
  obtain r where r: "tfilter t = Some r" using t(2) by (auto simp: loaded_to_def)
  have used: "filter_use (1 * kFilterBase) (getRegionNum (1 * kFilterBase) ?t0) False (\<lambda>_. 4) ?Read (results b) ?t0 t"
    using filter_use.adjust [OF filter_use.opened [of _ 0] _ t(1)] reg by (simp add: ReadFilters_def)
  have "ExtractUserKey (MakeInternalKey [97] 9 kTypeValue) = ExtractUserKey ?key" by simp
  with feed b(1) n have "FilterBlockReader_KeyMayMatch (InternalFilter_KeyMayMatchFilters (Multi_KeyMayMatchFilters ?p))
       0 (MakeInternalKey [97] 9 kTypeValue) r = Some True"
    by (intro filters_never_hide_keys [OF _ _ _ _ _ _ _ _ small stored _ refl used r, of "[(0, [?key])]" 0 "[?key]" ?key]) simp_all
  moreover have "getCurrFilterNum 0 t = 1" using t(2) by (simp add: loaded_to_def region_count_def)
  ultimately show ?thesis using feed b(1) n r by auto
qed

end
