(* ===== verification/ParallelFilter.thy ===== *)
theory ParallelFilter
  imports Bloom
begin

text \<open>
  The parallel \<open>CreateFilter\<close> of \<open>MultiFilter\<close> (util/multi_bloom.cc): the calling thread points
  \<open>cfas[i].dst\<close> at the i-th string and raises \<open>filled_[i]\<close> for one worker thread after the
  other, then spins until \<open>curr_completed_filter_num_\<close> equals the number of filters. Worker \<open>i\<close>
  (\<open>CreateFilter_T\<close>) spins on its flag, builds its filter, lowers the flag and increments the
  counter. Each atomic action is one step of \<open>mf_step\<close>; any interleaving of the threads is a
  path of the relation. Every path ends, and whenever the caller returns, the strings hold
  what the sequential \<open>CreateFilter\<close> computes.
\<close>

datatype worker_pc = WSpin | WCreate | WClear | WCount

datatype main_pc = MSetDst nat | MFill nat | MWait | MReset | MDone

record mf_state =
  caller :: main_pc
  workers :: "worker_pc list"
  filled :: "bool list"
  dst_of :: "slice list"
  curr_completed_filter_num :: nat

definition mf_start :: "MultiFilter \<Rightarrow> slice list \<Rightarrow> mf_state" where
  "mf_start p dsts = \<lparr>caller = MSetDst 0, workers = replicate (length p) WSpin,
     filled = replicate (length p) False, dst_of = dsts, curr_completed_filter_num = 0\<rparr>"

text \<open>
  The steps, in the order of the code: the body of the caller's loop (\<open>cfa->dst = ...\<close>, then
  \<open>filled_[i] = true\<close>), its exit, the wait, the reset; then the worker's loop.
\<close>

inductive mf_step :: "MultiFilter \<Rightarrow> slice list \<Rightarrow> mf_state \<Rightarrow> mf_state \<Rightarrow> bool"
  for p :: MultiFilter and keys :: "slice list" where
  set_dst: "caller s = MSetDst i \<Longrightarrow> i < length (dst_of s) \<Longrightarrow>
     mf_step p keys s (s\<lparr>caller := MFill i\<rparr>)"
| fill: "caller s = MFill i \<Longrightarrow>
     mf_step p keys s (s\<lparr>caller := MSetDst (Suc i), filled := (filled s)[i := True]\<rparr>)"
| loop_exit: "caller s = MSetDst i \<Longrightarrow> i = length (dst_of s) \<Longrightarrow>
     mf_step p keys s (s\<lparr>caller := MWait\<rparr>)"
| wait_exit: "caller s = MWait \<Longrightarrow> curr_completed_filter_num s = length p \<Longrightarrow>
     mf_step p keys s (s\<lparr>caller := MReset\<rparr>)"
| reset: "caller s = MReset \<Longrightarrow>
     mf_step p keys s (s\<lparr>caller := MDone, curr_completed_filter_num := 0\<rparr>)"
| wake: "i < length p \<Longrightarrow> workers s ! i = WSpin \<Longrightarrow> filled s ! i \<Longrightarrow>
     mf_step p keys s (s\<lparr>workers := (workers s)[i := WCreate]\<rparr>)"
| create: "i < length p \<Longrightarrow> workers s ! i = WCreate \<Longrightarrow>
     Child_CreateFilter (p ! i) keys (dst_of s ! i) = Some d \<Longrightarrow>
     mf_step p keys s (s\<lparr>workers := (workers s)[i := WClear], dst_of := (dst_of s)[i := d]\<rparr>)"
| clear: "i < length p \<Longrightarrow> workers s ! i = WClear \<Longrightarrow>
     mf_step p keys s (s\<lparr>workers := (workers s)[i := WCount], filled := (filled s)[i := False]\<rparr>)"
| count: "i < length p \<Longrightarrow> workers s ! i = WCount \<Longrightarrow>
     mf_step p keys s (s\<lparr>workers := (workers s)[i := WSpin],
        curr_completed_filter_num := Suc (curr_completed_filter_num s)\<rparr>)"

subsection \<open>The invariant\<close>

text \<open>How many flags the caller has raised.\<close>

primrec raised :: "nat \<Rightarrow> main_pc \<Rightarrow> nat" where
  "raised n (MSetDst i) = i"
| "raised n (MFill i) = i"
| "raised n MWait = n"
| "raised n MReset = n"
| "raised n MDone = n"

text \<open>A worker has finished when it spins again with its flag lowered.\<close>

definition finished :: "nat \<Rightarrow> mf_state \<Rightarrow> nat \<Rightarrow> bool" where
  "finished n s i \<longleftrightarrow> i < raised n (caller s) \<and> workers s ! i = WSpin \<and> \<not> filled s ! i"

definition worker_inv :: "MultiFilter \<Rightarrow> slice list \<Rightarrow> slice list \<Rightarrow> mf_state \<Rightarrow> nat \<Rightarrow> bool" where
  "worker_inv p keys dsts s i \<longleftrightarrow>
     (case workers s ! i of
        WSpin \<Rightarrow> (filled s ! i \<longrightarrow> i < raised (length p) (caller s)) \<and>
          dst_of s ! i = (if finished (length p) s i then dsts ! i @ child_filter (p ! i) keys else dsts ! i)
      | WCreate \<Rightarrow> i < raised (length p) (caller s) \<and> filled s ! i \<and> dst_of s ! i = dsts ! i
      | WClear \<Rightarrow> i < raised (length p) (caller s) \<and> filled s ! i \<and>
          dst_of s ! i = dsts ! i @ child_filter (p ! i) keys
      | WCount \<Rightarrow> i < raised (length p) (caller s) \<and> \<not> filled s ! i \<and>
          dst_of s ! i = dsts ! i @ child_filter (p ! i) keys)"

definition caller_inv :: "nat \<Rightarrow> mf_state \<Rightarrow> bool" where
  "caller_inv n s \<longleftrightarrow>
     (case caller s of
        MSetDst i \<Rightarrow> i \<le> n \<and> curr_completed_filter_num s = card {i. i < n \<and> finished n s i}
      | MFill i \<Rightarrow> i < n \<and> curr_completed_filter_num s = card {i. i < n \<and> finished n s i}
      | MWait \<Rightarrow> curr_completed_filter_num s = card {i. i < n \<and> finished n s i}
      | MReset \<Rightarrow> curr_completed_filter_num s = n \<and> (\<forall>i<n. finished n s i)
      | MDone \<Rightarrow> \<forall>i<n. finished n s i)"

definition mf_inv :: "MultiFilter \<Rightarrow> slice list \<Rightarrow> slice list \<Rightarrow> mf_state \<Rightarrow> bool" where
  "mf_inv p keys dsts s \<longleftrightarrow>
     length (workers s) = length p \<and> length (filled s) = length p \<and> length (dst_of s) = length p \<and>
     caller_inv (length p) s \<and> (\<forall>i<length p. worker_inv p keys dsts s i)"

lemma mf_inv_start: "length dsts = length p \<Longrightarrow> mf_inv p keys dsts (mf_start p dsts)"
  by (simp add: mf_inv_def mf_start_def caller_inv_def worker_inv_def finished_def)

lemma card_eq_all: "card {i. i < n \<and> P i} = n \<longleftrightarrow> (\<forall>i<n. P i)"
proof
  assume a: "card {i. i < n \<and> P i} = n"
  have "{i. i < n \<and> P i} = {..<n}"
    by (rule card_subset_eq) (auto simp: a)
  then show "\<forall>i<n. P i" by auto
next
  assume "\<forall>i<n. P i"
  then have "{i. i < n \<and> P i} = {..<n}" by auto
  then show "card {i. i < n \<and> P i} = n" by simp
qed

lemma card_one_more:
  assumes "i < (n::nat)" "\<not> P i" "Q i" "\<And>j. j \<noteq> i \<Longrightarrow> Q j = P j"
  shows "card {i. i < n \<and> Q i} = Suc (card {i. i < n \<and> P i})"
proof -
  have "{i. i < n \<and> Q i} = insert i {i. i < n \<and> P i}"
    using assms by auto (metis assms(4))+
  moreover have "finite {i. i < n \<and> P i}" by simp
  ultimately show ?thesis using assms(1,2) by (simp add: card_insert_if)
qed

lemma caller_inv_cong:
  assumes "\<forall>j<n. finished n s' j = finished n s j" "caller s' = caller s"
    "curr_completed_filter_num s' = curr_completed_filter_num s"
  shows "caller_inv n s' = caller_inv n s"
proof -
  have "{i. i < n \<and> finished n s' i} = {i. i < n \<and> finished n s i}" using assms(1) by auto
  with assms show ?thesis by (simp add: caller_inv_def split: main_pc.splits)
qed

lemma mf_inv_lengths:
  "mf_inv p keys dsts s \<Longrightarrow>
     length (workers s) = length p \<and> length (filled s) = length p \<and> length (dst_of s) = length p"
  by (simp add: mf_inv_def)

text \<open>A step of worker \<open>i\<close> leaves the other workers' part of the invariant alone.\<close>

lemma worker_inv_frame:
  assumes "caller s' = caller s" "j \<noteq> i"
    "workers s' ! j = workers s ! j" "filled s' ! j = filled s ! j" "dst_of s' ! j = dst_of s ! j"
  shows "worker_inv p keys dsts s' j = worker_inv p keys dsts s j"
  using assms by (simp add: worker_inv_def finished_def split: worker_pc.splits)

lemma mf_inv_worker:
  assumes inv: "mf_inv p keys dsts s" and i: "i < length p"
    and upd: "caller s' = caller s" "length (workers s') = length p" "length (filled s') = length p"
      "length (dst_of s') = length p"
      "\<And>j. j \<noteq> i \<Longrightarrow> workers s' ! j = workers s ! j \<and> filled s' ! j = filled s ! j \<and> dst_of s' ! j = dst_of s ! j"
    and own: "worker_inv p keys dsts s' i" and caller: "caller_inv (length p) s'"
  shows "mf_inv p keys dsts s'"
proof -
  have "worker_inv p keys dsts s' j" if "j < length p" for j
  proof (cases "j = i")
    case False
    with inv that show ?thesis
      by (subst worker_inv_frame [where s = s and i = i]) (auto simp: upd mf_inv_def)
  qed (use own in simp)
  with inv caller show ?thesis by (auto simp: mf_inv_def upd)
qed

lemma mf_inv_step_caller:
  assumes "mf_inv p keys dsts s" "caller s = MFill i"
  shows "mf_inv p keys dsts (s\<lparr>caller := MSetDst (Suc i), filled := (filled s)[i := True]\<rparr>)"
    (is "mf_inv p keys dsts ?s'")
proof -
  let ?n = "length p"
  note len = mf_inv_lengths [OF assms(1)]
  have i: "i < ?n" using assms by (simp add: mf_inv_def caller_inv_def)
  then have w: "worker_inv p keys dsts s i" using assms(1) by (simp add: mf_inv_def)
  then have spin: "workers s ! i = WSpin" "dst_of s ! i = dsts ! i"
    by (auto simp: worker_inv_def finished_def assms(2) split: worker_pc.splits)
  have fin: "finished ?n ?s' j = finished ?n s j" if "j < ?n" for j
    using that i len by (cases "j = i") (auto simp: finished_def assms(2) less_Suc_eq)
  have "worker_inv p keys dsts ?s' j" if j: "j < ?n" for j
  proof (cases "j = i")
    case True
    with spin i len fin [OF i] show ?thesis by (simp add: worker_inv_def finished_def)
  next
    case False
    have "worker_inv p keys dsts s j" using assms(1) j by (simp add: mf_inv_def)
    with False fin [OF j] show ?thesis
      by (auto simp: worker_inv_def assms(2) less_Suc_eq split: worker_pc.splits)
  qed
  moreover have "{j. j < ?n \<and> finished ?n ?s' j} = {j. j < ?n \<and> finished ?n s j}"
    using fin by auto
  ultimately show ?thesis
    using assms i len by (simp add: mf_inv_def caller_inv_def)
qed

lemma mf_inv_move:
  assumes "mf_inv p keys dsts s" "raised (length p) m = raised (length p) (caller s)"
    "s' = s\<lparr>caller := m\<rparr> \<or> s' = s\<lparr>caller := m, curr_completed_filter_num := c\<rparr>"
    "caller_inv (length p) s'"
  shows "mf_inv p keys dsts s'"
  using assms by (auto simp: mf_inv_def worker_inv_def finished_def split: worker_pc.splits)

lemma mf_inv_step:
  assumes ids: "\<forall>c \<in> set p. child_id c < length bloom_seeds"
    and step: "mf_step p keys s s'" and inv: "mf_inv p keys dsts s"
  shows "mf_inv p keys dsts s'"
  using step
proof cases
  note len = mf_inv_lengths [OF inv]
  have w: "i < length p \<Longrightarrow> worker_inv p keys dsts s i" for i using inv by (simp add: mf_inv_def)
  have c: "caller_inv (length p) s" using inv by (simp add: mf_inv_def)
  {
    case (set_dst i)
    with c len show ?thesis
      by (intro mf_inv_move [OF inv, of "MFill i"]) (simp_all add: caller_inv_def finished_def)
  next
    case (fill i)
    with mf_inv_step_caller [OF inv] show ?thesis by simp
  next
    case (loop_exit i)
    with c len show ?thesis
      by (intro mf_inv_move [OF inv, of MWait]) (simp_all add: caller_inv_def finished_def)
  next
    case wait_exit
    then have "\<forall>i<length p. finished (length p) s i"
      using c card_eq_all [of "length p" "finished (length p) s"] by (simp add: caller_inv_def)
    with wait_exit show ?thesis
      by (intro mf_inv_move [OF inv, of MReset]) (simp_all add: caller_inv_def finished_def)
  next
    case reset
    with c show ?thesis
      by (intro mf_inv_move [OF inv, of MDone _ 0]) (simp_all add: caller_inv_def finished_def)
  next
    case (wake i)
    have "caller_inv (length p) s'"
      by (subst caller_inv_cong [of _ _ s]) (use wake c len in \<open>auto simp: finished_def nth_list_update\<close>)
    moreover have "worker_inv p keys dsts s' i"
      using wake w [of i] len by (auto simp: worker_inv_def finished_def)
    ultimately show ?thesis
      using wake len by (intro mf_inv_worker [OF inv, where i = i]) auto
  next
    case (create i d)
    have "child_id (p ! i) < length bloom_seeds" using ids create(2) by simp
    then have d: "d = dst_of s ! i @ child_filter (p ! i) keys"
      using create(4) by (simp add: Child_CreateFilter_eq)
    have "caller_inv (length p) s'"
      by (subst caller_inv_cong [of _ _ s]) (use create c len in \<open>auto simp: finished_def nth_list_update\<close>)
    moreover have "worker_inv p keys dsts s' i"
      using create w [of i] len by (auto simp: worker_inv_def finished_def d)
    ultimately show ?thesis
      using create len by (intro mf_inv_worker [OF inv, where i = i]) auto
  next
    case (clear i)
    have "caller_inv (length p) s'"
      by (subst caller_inv_cong [of _ _ s]) (use clear c len in \<open>auto simp: finished_def nth_list_update\<close>)
    moreover have "worker_inv p keys dsts s' i"
      using clear w [of i] len by (auto simp: worker_inv_def finished_def)
    ultimately show ?thesis
      using clear len by (intro mf_inv_worker [OF inv, where i = i]) auto
  next
    case (count i)
    let ?n = "length p"
    have own: "i < raised ?n (caller s)" "\<not> filled s ! i"
      "dst_of s ! i = dsts ! i @ child_filter (p ! i) keys"
      using w [OF count(2)] by (simp_all add: worker_inv_def count(3))
    have "\<not> finished ?n s i" by (simp add: finished_def count(3))
    moreover have "finished ?n s' i" using own count len by (simp add: finished_def)
    moreover have "finished ?n s' j = finished ?n s j" if "j \<noteq> i" for j
      using that by (simp add: finished_def count)
    ultimately have "card {i. i < ?n \<and> finished ?n s' i} = Suc (card {i. i < ?n \<and> finished ?n s i})"
      using count(2) by (intro card_one_more)
    then have "caller_inv ?n s'"
      using c \<open>\<not> finished ?n s i\<close> count(1,2) by (auto simp: caller_inv_def split: main_pc.splits)
    moreover have "worker_inv p keys dsts s' i"
      using own \<open>finished ?n s' i\<close> len count by (simp add: worker_inv_def)
    ultimately show ?thesis
      using count len by (intro mf_inv_worker [OF inv, where i = i]) auto
  }
qed

subsection \<open>Results, progress and termination\<close>

lemma mf_inv_reachable:
  assumes "\<forall>c \<in> set p. child_id c < length bloom_seeds" "length dsts = length p"
    "(mf_step p keys)\<^sup>*\<^sup>* (mf_start p dsts) s"
  shows "mf_inv p keys dsts s"
  using assms(3)
  by (induction rule: rtranclp_induct) (auto simp: mf_inv_start assms mf_inv_step)

lemma mf_inv_done:
  assumes "mf_inv p keys dsts s" "length dsts = length p" "caller s = MDone"
  shows "dst_of s = map2 (@) dsts (Multi_summaries p keys)"
proof (rule nth_equalityI)
  fix i assume "i < length (dst_of s)"
  then have i: "i < length p" using assms(1) by (simp add: mf_inv_def)
  then have "worker_inv p keys dsts s i" "finished (length p) s i"
    using assms(1,3) by (simp_all add: mf_inv_def caller_inv_def)
  then have "dst_of s ! i = dsts ! i @ child_filter (p ! i) keys"
    by (simp add: worker_inv_def finished_def)
  with i assms(2) show "dst_of s ! i = map2 (@) dsts (Multi_summaries p keys) ! i"
    by (simp add: Multi_summaries_def)
qed (use assms in \<open>simp add: mf_inv_def Multi_summaries_def\<close>)

lemma mf_inv_progress:
  assumes ids: "\<forall>c \<in> set p. child_id c < length bloom_seeds"
    and inv: "mf_inv p keys dsts s" and "caller s \<noteq> MDone"
  shows "\<exists>s'. mf_step p keys s s'"
proof (cases "caller s")
  case MWait
  show ?thesis
  proof (cases "\<forall>i<length p. finished (length p) s i")
    case True
    then have "curr_completed_filter_num s = length p"
      using inv MWait by (simp add: mf_inv_def caller_inv_def card_eq_all)
    with MWait show ?thesis by (blast intro: wait_exit)
  next
    case False
    then obtain i where i: "i < length p" "\<not> finished (length p) s i" by auto
    show ?thesis
    proof (cases "workers s ! i")
      case WSpin
      with i MWait show ?thesis by (auto simp: finished_def intro: wake)
    next
      case WCreate
      have "child_id (p ! i) < length bloom_seeds" using ids i by simp
      with WCreate i show ?thesis using create Child_CreateFilter_eq by blast
    qed (use i in \<open>blast intro: clear count\<close>)+
  qed
next
  case (MSetDst i)
  with inv have "i < length (dst_of s) \<or> i = length (dst_of s)"
    by (auto simp: mf_inv_def caller_inv_def)
  with MSetDst show ?thesis by (blast intro: set_dst loop_exit)
qed (use assms in \<open>blast intro: fill reset\<close>)+

primrec caller_rank :: "nat \<Rightarrow> main_pc \<Rightarrow> nat" where
  "caller_rank n (MSetDst i) = 2 * (n - i) + 3"
| "caller_rank n (MFill i) = 2 * (n - i) + 2"
| "caller_rank n MWait = 2"
| "caller_rank n MReset = 1"
| "caller_rank n MDone = 0"

definition worker_rank :: "nat \<Rightarrow> mf_state \<Rightarrow> nat \<Rightarrow> nat" where
  "worker_rank n s i =
     (if finished n s i then 0
      else case workers s ! i of WSpin \<Rightarrow> 4 | WCreate \<Rightarrow> 3 | WClear \<Rightarrow> 2 | WCount \<Rightarrow> 1)"

definition mf_rank :: "nat \<Rightarrow> mf_state \<Rightarrow> nat" where
  "mf_rank n s = caller_rank n (caller s) + (\<Sum>i<n. worker_rank n s i)"

lemma mf_rank_worker:
  assumes "i < n" "caller s' = caller s" "worker_rank n s' i < worker_rank n s i"
    "\<And>j. j \<noteq> i \<Longrightarrow> worker_rank n s' j = worker_rank n s j"
  shows "mf_rank n s' < mf_rank n s"
proof -
  have "(\<Sum>i<n. worker_rank n s' i) < (\<Sum>i<n. worker_rank n s i)"
  proof (rule sum_strict_mono_ex1)
    show "\<forall>j\<in>{..<n}. worker_rank n s' j \<le> worker_rank n s j"
      using assms(3,4) by (metis order_less_imp_le order_refl)
  qed (use assms(1,3) in auto)
  then show ?thesis using assms(2) by (simp add: mf_rank_def)
qed

lemma mf_rank_caller:
  assumes "caller_rank n (caller s') < caller_rank n (caller s)"
    "\<And>j. j < n \<Longrightarrow> worker_rank n s' j = worker_rank n s j"
  shows "mf_rank n s' < mf_rank n s"
  using assms by (simp add: mf_rank_def)

lemma mf_rank_step:
  assumes "mf_step p keys s s'" "mf_inv p keys dsts s"
  shows "mf_rank (length p) s' < mf_rank (length p) s"
  using assms(1)
proof cases
  note len = mf_inv_lengths [OF assms(2)]
  have w: "i < length p \<Longrightarrow> worker_inv p keys dsts s i" for i using assms(2) by (simp add: mf_inv_def)
  {
    case (set_dst i)
    then show ?thesis by (intro mf_rank_caller) (simp_all add: worker_rank_def finished_def)
  next
    case (fill i)
    have i: "i < length p" using assms(2) fill by (simp add: mf_inv_def caller_inv_def)
    have "worker_rank (length p) s' j = worker_rank (length p) s j" if "j < length p" for j
      using that fill len by (cases "j = i") (auto simp: worker_rank_def finished_def less_Suc_eq)
    with fill i show ?thesis by (intro mf_rank_caller) simp_all
  next
    case (loop_exit i)
    with len show ?thesis by (intro mf_rank_caller) (simp_all add: worker_rank_def finished_def)
  next
    case wait_exit
    then show ?thesis by (intro mf_rank_caller) (simp_all add: worker_rank_def finished_def)
  next
    case reset
    then show ?thesis by (intro mf_rank_caller) (simp_all add: worker_rank_def finished_def)
  next
    case (wake i)
    with len show ?thesis by (intro mf_rank_worker [of i]) (simp_all add: worker_rank_def finished_def)
  next
    case (create i d)
    with len show ?thesis by (intro mf_rank_worker [of i]) (simp_all add: worker_rank_def finished_def)
  next
    case (clear i)
    with len show ?thesis by (intro mf_rank_worker [of i]) (simp_all add: worker_rank_def finished_def)
  next
    case (count i)
    with w [of i] len show ?thesis
      by (intro mf_rank_worker [of i]) (simp_all add: worker_rank_def finished_def worker_inv_def)
  }
qed





end
