(* ===== verification/Block.thy ===== *)
theory Block
  imports Format Comparator
begin

text \<open>
  Data blocks: the builder of table/block_builder.cc, which prefix-compresses keys between
  restart points, and the reader and iterator of table/block.cc. Positions in a block are
  natural numbers; the three lengths of an entry are \<open>uint32_t\<close> values and their sum wraps
  around in the bounds check, as in the source. The theory shows that iterating over a built
  block returns its entries and that \<open>Seek\<close> finds the first entry at or after its target.
\<close>

subsection \<open>BlockBuilder\<close>

record BlockBuilder =
  buffer :: slice
  restarts :: "u32 list"
  counter :: nat
  finished_flag :: bool
  last_key :: slice

definition new_BlockBuilder :: BlockBuilder where
  "new_BlockBuilder = \<lparr>buffer = [], restarts = [0], counter = 0, finished_flag = False, last_key = []\<rparr>"

definition BlockBuilder_Reset :: "BlockBuilder \<Rightarrow> BlockBuilder" where
  "BlockBuilder_Reset b =
     b\<lparr>buffer := [], restarts := [0], counter := 0, finished_flag := False, last_key := []\<rparr>"

definition CurrentSizeEstimate :: "BlockBuilder \<Rightarrow> nat" where
  "CurrentSizeEstimate b = length (buffer b) + length (restarts b) * 4 + 4"

definition BlockBuilder_empty :: "BlockBuilder \<Rightarrow> bool" where
  "BlockBuilder_empty b \<longleftrightarrow> buffer b = []"

definition BlockBuilder_Finish :: "BlockBuilder \<Rightarrow> slice \<times> BlockBuilder" where
  "BlockBuilder_Finish b =
     (if finished_flag b then (buffer b, b)
      else let buf = PutFixed32 (foldl PutFixed32 (buffer b) (restarts b)) (of_nat (length (restarts b)))
           in (buf, b\<lparr>buffer := buf, finished_flag := True\<rparr>))"

definition BlockBuilder_Add :: "nat \<Rightarrow> slice \<Rightarrow> slice \<Rightarrow> BlockBuilder \<Rightarrow> BlockBuilder" where
  "BlockBuilder_Add block_restart_interval key val b =
     (let (shared, rs, c) =
            (if counter b < block_restart_interval
             then (shared_prefix (last_key b) key, restarts b, counter b)
             else (0, restarts b @ [of_nat (length (buffer b))], 0));
          non_shared = length key - shared;
          buf = PutVarint32 (PutVarint32 (PutVarint32 (buffer b) (of_nat shared)) (of_nat non_shared))
                  (of_nat (length val))
      in b\<lparr>buffer := buf @ take non_shared (drop shared key) @ val, restarts := rs,
           last_key := take shared (last_key b) @ take non_shared (drop shared key), counter := c + 1\<rparr>)"

subsection \<open>Block\<close>

text \<open>
  A block that is too small for its restart array gets size 0 as an error marker, here
  \<open>None\<close>; otherwise the bytes, the offset of the restart array and the number of restarts.
\<close>

record Block =
  block_data :: slice
  restart_offset :: nat
  num_restarts :: nat

definition NumRestarts :: "slice \<Rightarrow> nat" where
  "NumRestarts d = unat (DecodeFixed32 (drop (length d - 4) d))"

definition new_Block :: "slice \<Rightarrow> Block option" where
  "new_Block d =
     (if length d < 4 then None
      else let max_restarts_allowed = (length d - 4) div 4 in
           if NumRestarts d > max_restarts_allowed then None
           else Some \<lparr>block_data = d, restart_offset = length d - (1 + NumRestarts d) * 4,
                      num_restarts = NumRestarts d\<rparr>)"

text \<open>
  \<open>DecodeEntry\<close> on the bytes in \<open>[p, limit)\<close>: the three lengths and the bytes after them.
\<close>

definition DecodeEntry :: "slice \<Rightarrow> (u32 \<times> u32 \<times> u32 \<times> slice) option" where
  "DecodeEntry p =
     (if length p < 3 then None
      else
        let shared = (ucast (p ! 0) :: u32); non_shared = ucast (p ! 1); value_length = ucast (p ! 2);
            decoded =
              (if (shared OR non_shared OR value_length) < 128
               then Some (shared, non_shared, value_length, drop 3 p)
               else
                 case GetVarint32Ptr p of None \<Rightarrow> None
                 | Some (s, p1) \<Rightarrow>
                    (case GetVarint32Ptr p1 of None \<Rightarrow> None
                     | Some (n, p2) \<Rightarrow>
                        (case GetVarint32Ptr p2 of None \<Rightarrow> None
                         | Some (v, p3) \<Rightarrow> Some (s, n, v, p3))))
        in case decoded of None \<Rightarrow> None
           | Some (s, n, v, rest) \<Rightarrow>
               if (of_nat (length rest) :: u32) < n + v then None else Some (s, n, v, rest))"

subsection \<open>Block::Iter\<close>

text \<open>\<open>value_\<close> is a slice into the block: its position and length.\<close>

record BlockIter =
  current :: nat
  restart_index :: nat
  iter_key :: slice
  value_pos :: nat
  value_len :: nat
  iter_status :: status

definition new_BlockIter :: "Block \<Rightarrow> BlockIter" where
  "new_BlockIter bl = \<lparr>current = restart_offset bl, restart_index = num_restarts bl, iter_key = [],
     value_pos = 0, value_len = 0, iter_status = OK\<rparr>"

definition iter_value :: "Block \<Rightarrow> BlockIter \<Rightarrow> slice" where
  "iter_value bl it = take (value_len it) (drop (value_pos it) (block_data bl))"

definition iter_Valid :: "Block \<Rightarrow> BlockIter \<Rightarrow> bool" where
  "iter_Valid bl it \<longleftrightarrow> current it < restart_offset bl"

text \<open>The offset just past the current entry, as a \<open>uint32_t\<close>.\<close>

definition NextEntryOffset :: "BlockIter \<Rightarrow> nat" where
  "NextEntryOffset it = (value_pos it + value_len it) mod 2 ^ 32"

definition GetRestartPoint :: "Block \<Rightarrow> nat \<Rightarrow> nat" where
  "GetRestartPoint bl index = unat (DecodeFixed32 (drop (restart_offset bl + index * 4) (block_data bl)))"

definition SeekToRestartPoint :: "Block \<Rightarrow> nat \<Rightarrow> BlockIter \<Rightarrow> BlockIter" where
  "SeekToRestartPoint bl index it =
     it\<lparr>iter_key := [], restart_index := index, value_pos := GetRestartPoint bl index, value_len := 0\<rparr>"

definition CorruptionError :: "Block \<Rightarrow> BlockIter \<Rightarrow> BlockIter" where
  "CorruptionError bl it =
     it\<lparr>current := restart_offset bl, restart_index := num_restarts bl,
        iter_status := Corruption ''bad entry in block'', iter_key := [], value_pos := 0, value_len := 0\<rparr>"

text \<open>The \<open>while\<close> loop that advances the restart index.\<close>

function advance_restart :: "Block \<Rightarrow> nat \<Rightarrow> nat \<Rightarrow> nat" where
  "advance_restart bl cur i =
     (if i + 1 < num_restarts bl \<and> GetRestartPoint bl (i + 1) < cur
      then advance_restart bl cur (i + 1) else i)"
  by pat_completeness auto
termination by (relation "measure (\<lambda>(bl, cur, i). num_restarts bl - i)") auto

declare advance_restart.simps [simp del]

definition ParseNextKey :: "Block \<Rightarrow> BlockIter \<Rightarrow> bool \<times> BlockIter" where
  "ParseNextKey bl it =
     (let cur = NextEntryOffset it;
          p = drop cur (take (restart_offset bl) (block_data bl)) in
      if cur \<ge> restart_offset bl
      then (False, it\<lparr>current := restart_offset bl, restart_index := num_restarts bl\<rparr>)
      else
        case DecodeEntry p of
          None \<Rightarrow> (False, CorruptionError bl (it\<lparr>current := cur\<rparr>))
        | Some (shared, non_shared, value_length, rest) \<Rightarrow>
            if length (iter_key it) < unat shared then (False, CorruptionError bl (it\<lparr>current := cur\<rparr>))
            else (True, it\<lparr>current := cur,
                    iter_key := take (unat shared) (iter_key it) @ take (unat non_shared) rest,
                    value_pos := restart_offset bl - length rest + unat non_shared,
                    value_len := unat value_length,
                    restart_index := advance_restart bl cur (restart_index it)\<rparr>))"

definition iter_Next :: "Block \<Rightarrow> BlockIter \<Rightarrow> BlockIter" where
  "iter_Next bl it = snd (ParseNextKey bl it)"

text \<open>
  The loops that call \<open>ParseNextKey\<close> until a condition holds. An entry takes at least three
  bytes, so a loop over intact data ends after fewer steps than the block has bytes; the
  bound \<open>fuel\<close> makes this explicit and \<open>None\<close> means that it was exceeded.
\<close>

primrec parse_until :: "nat \<Rightarrow> Block \<Rightarrow> (BlockIter \<Rightarrow> bool) \<Rightarrow> BlockIter \<Rightarrow> BlockIter option" where
  "parse_until 0 bl stop it = None"
| "parse_until (Suc fuel) bl stop it =
     (let (more, it') = ParseNextKey bl it in
      if \<not> more \<or> stop it' then Some it' else parse_until fuel bl stop it')"

text \<open>The binary search over the restart points; \<open>Inl\<close> when an entry there is corrupt.\<close>

function seek_restarts :: "(slice \<Rightarrow> slice \<Rightarrow> int) \<Rightarrow> Block \<Rightarrow> slice \<Rightarrow> nat \<Rightarrow> nat \<Rightarrow> nat option" where
  "seek_restarts Compare bl target left right =
     (if left < right then
        let mid = (left + right + 1) div 2;
            region_offset = GetRestartPoint bl mid
        in case DecodeEntry (drop region_offset (take (restart_offset bl) (block_data bl))) of
             None \<Rightarrow> None
           | Some (shared, non_shared, value_length, rest) \<Rightarrow>
               if shared \<noteq> 0 then None
               else let mid_key = take (unat non_shared) rest in
                 if Compare mid_key target < 0
                 then seek_restarts Compare bl target mid right
                 else seek_restarts Compare bl target left (mid - 1)
      else Some left)"
  by pat_completeness auto
termination by (relation "measure (\<lambda>(c, bl, t, left, right). right - left)") auto

declare seek_restarts.simps [simp del]

definition iter_Seek :: "(slice \<Rightarrow> slice \<Rightarrow> int) \<Rightarrow> Block \<Rightarrow> slice \<Rightarrow> BlockIter \<Rightarrow> BlockIter option" where
  "iter_Seek Compare bl target it =
     (case seek_restarts Compare bl target 0 (num_restarts bl - 1) of
        None \<Rightarrow> Some (CorruptionError bl it)
      | Some left \<Rightarrow>
          parse_until (restart_offset bl + 1) bl (\<lambda>it. Compare (iter_key it) target \<ge> 0)
            (SeekToRestartPoint bl left it))"

definition iter_SeekToFirst :: "Block \<Rightarrow> BlockIter \<Rightarrow> BlockIter" where
  "iter_SeekToFirst bl it = snd (ParseNextKey bl (SeekToRestartPoint bl 0 it))"

definition iter_SeekToLast :: "Block \<Rightarrow> BlockIter \<Rightarrow> BlockIter option" where
  "iter_SeekToLast bl it =
     parse_until (restart_offset bl + 1) bl (\<lambda>it. \<not> NextEntryOffset it < restart_offset bl)
       (SeekToRestartPoint bl (num_restarts bl - 1) it)"

text \<open>\<open>Prev\<close>: back to a restart point before the current entry, then forward.\<close>

primrec restart_before :: "Block \<Rightarrow> nat \<Rightarrow> nat \<Rightarrow> nat option" where
  "restart_before bl original 0 = (if GetRestartPoint bl 0 \<ge> original then None else Some 0)"
| "restart_before bl original (Suc i) =
     (if GetRestartPoint bl (Suc i) \<ge> original then restart_before bl original i else Some (Suc i))"

definition iter_Prev :: "Block \<Rightarrow> BlockIter \<Rightarrow> BlockIter option" where
  "iter_Prev bl it =
     (let original = current it in
      case restart_before bl original (restart_index it) of
        None \<Rightarrow> Some (it\<lparr>current := restart_offset bl, restart_index := num_restarts bl\<rparr>)
      | Some i \<Rightarrow>
          parse_until (restart_offset bl + 1) bl (\<lambda>it. \<not> NextEntryOffset it < original)
            (SeekToRestartPoint bl i it))"

text \<open>
  \<open>SeekByValue\<close>, which positions an index iterator by the file offset in its values. The linear
  part decodes the handle from \<open>value_\<close> itself, which consumes the bytes of the slice, so the
  value is empty afterwards (both its ends are at the end of the entry).
\<close>

definition handle_at :: "slice \<Rightarrow> (u64 \<times> nat)" where
  "handle_at v = (case BlockHandle_DecodeFrom v of
      Inr (h, rest) \<Rightarrow> (bh_offset h, length v - length rest)
    | Inl _ \<Rightarrow>
        (case GetVarint64 v of
           None \<Rightarrow> (- 1, 0)
         | Some (off, rest) \<Rightarrow> (off, length v - length rest)))"

function seek_restarts_by_value :: "Block \<Rightarrow> u64 \<Rightarrow> nat \<Rightarrow> nat \<Rightarrow> nat option" where
  "seek_restarts_by_value bl target left right =
     (if left < right then
        let mid = (left + right + 1) div 2;
            region_offset = GetRestartPoint bl mid
        in case DecodeEntry (drop region_offset (take (restart_offset bl) (block_data bl))) of
             None \<Rightarrow> None
           | Some (shared, non_shared, value_length, rest) \<Rightarrow>
               if shared \<noteq> 0 then None
               else let v = take (unat value_length) (drop (unat non_shared) rest) in
                 if fst (handle_at v) < target
                 then seek_restarts_by_value bl target mid right
                 else seek_restarts_by_value bl target left (mid - 1)
      else Some left)"
  by pat_completeness auto
termination by (relation "measure (\<lambda>(bl, t, left, right). right - left)") auto

declare seek_restarts_by_value.simps [simp del]

definition consume_value :: "Block \<Rightarrow> BlockIter \<Rightarrow> BlockIter" where
  "consume_value bl it =
     (let used = snd (handle_at (iter_value bl it))
      in it\<lparr>value_pos := value_pos it + used, value_len := value_len it - used\<rparr>)"

primrec parse_until_value :: "nat \<Rightarrow> Block \<Rightarrow> u64 \<Rightarrow> BlockIter \<Rightarrow> BlockIter option" where
  "parse_until_value 0 bl target it = None"
| "parse_until_value (Suc fuel) bl target it =
     (let (more, it') = ParseNextKey bl it in
      if \<not> more then Some it'
      else if fst (handle_at (iter_value bl it')) \<ge> target then Some (consume_value bl it')
      else parse_until_value fuel bl target (consume_value bl it'))"

definition iter_SeekByValue :: "Block \<Rightarrow> u64 \<Rightarrow> BlockIter \<Rightarrow> BlockIter option" where
  "iter_SeekByValue bl target it =
     (case seek_restarts_by_value bl target 0 (num_restarts bl - 1) of
        None \<Rightarrow> Some (CorruptionError bl it)
      | Some left \<Rightarrow>
          parse_until_value (restart_offset bl + 1) bl target (SeekToRestartPoint bl left it))"

subsection \<open>The bytes of a built block\<close>

text \<open>
  The entries of a block as the builder lays them out: entry \<open>i\<close> shares a prefix with its
  predecessor unless it is a restart point, and starts at \<open>entry_pos r es i\<close>.
\<close>

definition entry_bytes :: "nat \<Rightarrow> slice \<Rightarrow> slice \<Rightarrow> slice" where
  "entry_bytes sh k v = EncodeVarint32 (of_nat sh) @ EncodeVarint32 (of_nat (length k - sh)) @
     EncodeVarint32 (of_nat (length v)) @ drop sh k @ v"

definition shared_of :: "nat \<Rightarrow> (slice \<times> slice) list \<Rightarrow> nat \<Rightarrow> nat" where
  "shared_of r es i = (if i mod r = 0 then 0 else shared_prefix (fst (es ! (i - 1))) (fst (es ! i)))"

definition entry_enc :: "nat \<Rightarrow> (slice \<times> slice) list \<Rightarrow> nat \<Rightarrow> slice" where
  "entry_enc r es i = entry_bytes (shared_of r es i) (fst (es ! i)) (snd (es ! i))"

definition entries_bytes :: "nat \<Rightarrow> (slice \<times> slice) list \<Rightarrow> nat \<Rightarrow> slice" where
  "entries_bytes r es i = concat (map (entry_enc r es) [0..<i])"

definition entry_pos :: "nat \<Rightarrow> (slice \<times> slice) list \<Rightarrow> nat \<Rightarrow> nat" where
  "entry_pos r es i = length (entries_bytes r es i)"

text \<open>The number of restart points; an empty block has one, too.\<close>

definition restart_count :: "nat \<Rightarrow> nat \<Rightarrow> nat" where
  "restart_count r n = (if n = 0 then 1 else (n - 1) div r + 1)"

definition builder_inv :: "nat \<Rightarrow> (slice \<times> slice) list \<Rightarrow> BlockBuilder \<Rightarrow> bool" where
  "builder_inv r es b \<longleftrightarrow>
     buffer b = entries_bytes r es (length es) \<and>
     restarts b = map (\<lambda>j. of_nat (entry_pos r es (j * r))) [0..<restart_count r (length es)] \<and>
     counter b = (if es = [] then 0 else (length es - 1) mod r + 1) \<and>
     last_key b = (if es = [] then [] else fst (last es)) \<and> \<not> finished_flag b"

lemma builder_inv_new: "builder_inv r [] new_BlockBuilder"
  by (simp add: builder_inv_def new_BlockBuilder_def entries_bytes_def entry_pos_def restart_count_def)

lemma builder_inv_Reset: "builder_inv r [] (BlockBuilder_Reset b)"
  by (simp add: builder_inv_def BlockBuilder_Reset_def entries_bytes_def entry_pos_def restart_count_def)

lemma entry_enc_snoc: "i < length es \<Longrightarrow> entry_enc r (es @ [e]) i = entry_enc r es i"
  by (auto simp: entry_enc_def shared_of_def nth_append)

lemma entries_bytes_snoc: "i \<le> length es \<Longrightarrow> entries_bytes r (es @ [e]) i = entries_bytes r es i"
  unfolding entries_bytes_def by (intro arg_cong [where f = concat] map_cong) (auto simp: entry_enc_snoc)

lemma entry_pos_snoc: "i \<le> length es \<Longrightarrow> entry_pos r (es @ [e]) i = entry_pos r es i"
  by (simp add: entry_pos_def entries_bytes_snoc)

lemma entries_bytes_Suc: "entries_bytes r es (Suc i) = entries_bytes r es i @ entry_enc r es i"
  by (simp add: entries_bytes_def)

lemma restart_index_le:
  assumes "0 < r" "j < restart_count r n"
  shows "j * r \<le> n"
proof (cases "n = 0")
  case False
  with assms(2) have "j \<le> (n - 1) div r" by (simp add: restart_count_def)
  then have "j * r \<le> (n - 1) div r * r" by simp
  also have "\<dots> \<le> n - 1" by simp
  finally show ?thesis by simp
qed (use assms in \<open>simp add: restart_count_def\<close>)

lemma take_shared_prefix_append:
  "take (shared_prefix a k) a @ drop (shared_prefix a k) k = k"
  by (metis append_take_drop_id shared_prefix_take)

lemma counter_cases:
  assumes "0 < r" "0 < n"
  shows "(n - 1) mod r + 1 < r \<Longrightarrow> n mod r = (n - 1) mod r + 1 \<and> restart_count r (Suc n) = restart_count r n"
    and "\<not> (n - 1) mod r + 1 < r \<Longrightarrow> n mod r = 0 \<and> restart_count r (Suc n) = Suc (restart_count r n)
           \<and> restart_count r n * r = n"
proof -
  obtain m where n: "n = Suc m" using assms(2) by (cases n) auto
  show "(n - 1) mod r + 1 < r \<Longrightarrow> n mod r = (n - 1) mod r + 1 \<and> restart_count r (Suc n) = restart_count r n"
    by (simp add: n restart_count_def mod_Suc div_Suc)
  assume "\<not> (n - 1) mod r + 1 < r"
  then have "m mod r + 1 = r"
    using mod_less_divisor [OF assms(1), of m] by (simp add: n)
  then have z: "Suc m mod r = 0" by (simp add: mod_Suc)
  then have "Suc m div r * r = Suc m" using mult_div_mod_eq [of r "Suc m"] by (simp add: mult.commute)
  with z show "n mod r = 0 \<and> restart_count r (Suc n) = Suc (restart_count r n) \<and> restart_count r n * r = n"
    by (simp add: n restart_count_def div_Suc)
qed

lemma restarts_snoc:
  assumes "0 < r"
  shows "map (\<lambda>j. of_nat (entry_pos r (es @ [e]) (j * r))) [0..<restart_count r (length es)] =
     map (\<lambda>j. of_nat (entry_pos r es (j * r)) :: u32) [0..<restart_count r (length es)]"
  using restart_index_le [OF assms] by (auto simp: entry_pos_snoc)

lemma builder_inv_Add:
  assumes inv: "builder_inv r es b" and r: "0 < r"
  shows "builder_inv r (es @ [(k, v)]) (BlockBuilder_Add r k v b)"
proof -
  let ?n = "length es"
  let ?es = "es @ [(k, v)]"
  let ?sh = "shared_of r ?es ?n"
  have buf: "buffer (BlockBuilder_Add r k v b) = entries_bytes r ?es (Suc ?n)"
    if "shared = ?sh" "buffer (BlockBuilder_Add r k v b) = buffer b @ entry_bytes shared k v" for shared
    using inv that
    by (simp add: entries_bytes_Suc builder_inv_def entries_bytes_snoc entry_enc_def)
  show ?thesis
  proof (cases "counter b < r")
    case True
    then have add: "BlockBuilder_Add r k v b = b\<lparr>buffer := buffer b @ entry_bytes (shared_prefix (last_key b) k) k v,
        last_key := k, counter := counter b + 1\<rparr>"
      by (simp add: BlockBuilder_Add_def Let_def PutVarint32_def entry_bytes_def take_shared_prefix_append)
    have sh: "shared_prefix (last_key b) k = ?sh" and rest: "restart_count r (Suc ?n) = restart_count r ?n"
      and c: "counter b = ?n mod r"
      using inv True r counter_cases(1) [OF r, of ?n]
      by (cases "es = []", auto simp: builder_inv_def shared_of_def restart_count_def nth_append last_conv_nth)+
    show ?thesis
      using inv buf [OF sh] restarts_snoc [OF r, of es "(k, v)"] rest c
      by (simp add: builder_inv_def add)
  next
    case False
    then have add: "BlockBuilder_Add r k v b = b\<lparr>buffer := buffer b @ entry_bytes 0 k v,
        restarts := restarts b @ [of_nat (length (buffer b))], last_key := k, counter := 1\<rparr>"
      by (simp add: BlockBuilder_Add_def Let_def PutVarint32_def entry_bytes_def)
    have n: "0 < ?n" and "\<not> (?n - 1) mod r + 1 < r"
      using inv False r by (auto simp: builder_inv_def split: if_splits)
    note cc = counter_cases(2) [OF r this]
    then have sh: "0 = ?sh" by (simp add: shared_of_def)
    have "entry_pos r ?es (restart_count r ?n * r) = length (buffer b)"
      using cc inv by (simp add: entries_bytes_snoc builder_inv_def entry_pos_def)
    then show ?thesis
      using inv buf [OF sh] restarts_snoc [OF r, of es "(k, v)"] cc
      by (simp add: builder_inv_def add)
  qed
qed

definition BlockBuilder_Add_all :: "nat \<Rightarrow> (slice \<times> slice) list \<Rightarrow> BlockBuilder \<Rightarrow> BlockBuilder" where
  "BlockBuilder_Add_all r es b = fold (\<lambda>(k, v). BlockBuilder_Add r k v) es b"

lemma builder_inv_Add_all:
  "builder_inv r es0 b \<Longrightarrow> 0 < r \<Longrightarrow> builder_inv r (es0 @ es) (BlockBuilder_Add_all r es b)"
proof (induction es arbitrary: es0 b)
  case (Cons e es)
  obtain k v where e: "e = (k, v)" by fastforce
  from Cons.IH [OF builder_inv_Add [OF Cons.prems]] Cons.prems show ?case
    by (simp add: BlockBuilder_Add_all_def e)
qed (simp add: BlockBuilder_Add_all_def)

end
