(* ===== verification/BlockReader.thy ===== *)
theory BlockReader
  imports Block
begin

text \<open>
  Correctness of the block iterator on a block made by the block builder: stepping through the
  block returns the entries in order, \<open>SeekToFirst\<close>, \<open>SeekToLast\<close> and \<open>Seek\<close> stop at the right
  entry, and the bounds check of \<open>DecodeEntry\<close> can be passed by lengths whose sum wraps.
\<close>

subsection \<open>Decoding one entry\<close>

lemma or_less_128: "(a OR b OR c) < 128 \<longleftrightarrow> a < 128 \<and> b < 128 \<and> (c::u32) < 128"
proof -
  have "x < 128 \<longleftrightarrow> (\<forall>n. bit x n \<longrightarrow> n < 7)" for x :: u32
  proof
    show "x < 128 \<Longrightarrow> \<forall>n. bit x n \<longrightarrow> n < 7" using less_128_bit [of x] by simp
    assume "\<forall>n. bit x n \<longrightarrow> n < 7"
    then have "x = take_bit 7 x" by (intro bit_word_eqI) (auto simp: bit_simps)
    then have "unat x = take_bit 7 (unat x)" by (metis unsigned_take_bit_eq)
    also have "\<dots> < 128" using take_bit_nat_less_exp [of 7 "unat x"] by simp
    finally show "x < 128" by (simp add: word_less_nat_alt)
  qed
  then show ?thesis by (auto simp: bit_or_iff)
qed

lemma GetVarint32Ptr_single:
  assumes "p \<noteq> []" "(ucast (p ! 0) :: u32) < 128"
  shows "GetVarint32Ptr p = Some (ucast (p ! 0), tl p)"
proof -
  have "\<not> bit (ucast (p ! 0) :: u32) 7" using less_128_bit [OF assms(2), of 7] by auto
  then have "(ucast (p ! 0) :: u32) AND 128 = 0"
    by (intro bit_word_eqI) (auto simp: bit_simps)
  with assms(1) show ?thesis by (cases p) (simp_all add: GetVarint32Ptr_def)
qed

text \<open>The fast path of \<open>DecodeEntry\<close> agrees with three calls of \<open>GetVarint32Ptr\<close>.\<close>

lemma DecodeEntry_chain:
  assumes "3 \<le> length p"
    "GetVarint32Ptr p = Some (s, p1)" "GetVarint32Ptr p1 = Some (n, p2)" "GetVarint32Ptr p2 = Some (v, p3)"
  shows "DecodeEntry p = (if (of_nat (length p3) :: u32) < n + v then None else Some (s, n, v, p3))"
proof -
  obtain b0 b1 b2 q where p: "p = b0 # b1 # b2 # q"
    using assms(1) by (cases p; cases "tl p"; cases "tl (tl p)") auto
  show ?thesis
  proof (cases "(ucast b0 OR ucast b1 OR ucast b2 :: u32) < 128")
    case True
    then have "(ucast b0 :: u32) < 128" "(ucast b1 :: u32) < 128" "(ucast b2 :: u32) < 128"
      by (simp_all add: or_less_128)
    then have "s = ucast b0" "p1 = b1 # b2 # q" "n = ucast b1" "p2 = b2 # q" "v = ucast b2" "p3 = q"
      using assms(2-4) GetVarint32Ptr_single [of p] GetVarint32Ptr_single [of "b1 # b2 # q"]
        GetVarint32Ptr_single [of "b2 # q"] by (auto simp: p)
    with True show ?thesis by (simp add: DecodeEntry_def p)
  next
    case False
    with assms(2-4) show ?thesis by (simp add: DecodeEntry_def p)
  qed
qed

lemma GetVarint32Ptr_Encode: "GetVarint32Ptr (EncodeVarint32 v @ rest) = Some (v, rest)"
  using GetVarint32_Encode [of v rest] by (simp add: GetVarint32_def)

lemma unat_sum_small: "a + b < 2 ^ 32 \<Longrightarrow> unat (of_nat a + of_nat b :: u32) = a + b"
  using unat_of_nat_small [of "a + b", where 'a = 32] by (simp add: of_nat_add)

lemma DecodeEntry_varints:
  "DecodeEntry (EncodeVarint32 s @ EncodeVarint32 n @ EncodeVarint32 v @ rest) =
     (if (of_nat (length rest) :: u32) < n + v then None else Some (s, n, v, rest))"
  using length_EncodeVarint(3) [of s] length_EncodeVarint(3) [of n] length_EncodeVarint(3) [of v]
  by (intro DecodeEntry_chain [OF _ GetVarint32Ptr_Encode GetVarint32Ptr_Encode GetVarint32Ptr_Encode]) simp

lemma DecodeEntry_entry_bytes:
  assumes "sh \<le> length k" "length k + length v + length rest < 2 ^ 32"
  shows "DecodeEntry (entry_bytes sh k v @ rest) =
     Some (of_nat sh, of_nat (length k - sh), of_nat (length v), drop sh k @ v @ rest)"
proof -
  let ?r = "drop sh k @ v @ rest"
  have "unat (of_nat (length k - sh) + of_nat (length v) :: u32) = length k - sh + length v"
    using assms by (intro unat_sum_small) simp
  moreover have "unat (of_nat (length ?r) :: u32) = length ?r"
    using assms by (intro unat_of_nat_small) simp
  ultimately have "\<not> (of_nat (length ?r) :: u32) < of_nat (length k - sh) + of_nat (length v)"
    using assms by (simp only: word_less_nat_alt) simp
  then show ?thesis
    using DecodeEntry_varints [of "of_nat sh" "of_nat (length k - sh)" "of_nat (length v)" ?r]
    by (simp only: entry_bytes_def append_assoc if_False)
qed

text \<open>
  The bounds check compares with a sum of two \<open>uint32_t\<close> values: an entry that claims a key
  delta of \<open>2 ^ 32 - 1\<close> bytes and a value of one byte passes it although nothing follows.
\<close>

lemma DecodeEntry_overflow:
  "DecodeEntry (EncodeVarint32 0 @ EncodeVarint32 0xffffffff @ EncodeVarint32 1 @ []) =
     Some (0, 0xffffffff, 1, [])"
  unfolding DecodeEntry_varints by simp

subsection \<open>A block in memory\<close>

text \<open>The block \<open>bl\<close> holds the entries \<open>es\<close> with restart interval \<open>r\<close> and is smaller than 4 GB.\<close>

definition block_of :: "nat \<Rightarrow> (slice \<times> slice) list \<Rightarrow> Block \<Rightarrow> bool" where
  "block_of r es bl \<longleftrightarrow>
     0 < r \<and> length (block_data bl) < 2 ^ 32 \<and>
     restart_offset bl = entry_pos r es (length es) \<and>
     take (restart_offset bl) (block_data bl) = entries_bytes r es (length es) \<and>
     num_restarts bl = restart_count r (length es) \<and>
     (\<forall>j < num_restarts bl. GetRestartPoint bl j = entry_pos r es (j * r))"

lemma block_take: "block_of r es bl \<Longrightarrow> take (restart_offset bl) (block_data bl) = entries_bytes r es (length es)"
  unfolding block_of_def by blast

lemma entry_pos_mono: "i \<le> j \<Longrightarrow> entry_pos r es i \<le> entry_pos r es j"
proof (induction j)
  case (Suc j)
  then show ?case by (auto simp: entry_pos_def entries_bytes_Suc le_Suc_eq)
qed simp

lemma block_of_Finish:
  assumes inv: "builder_inv r es b" and r: "0 < r"
    and small: "length (fst (BlockBuilder_Finish b)) < 2 ^ 32"
  shows "\<exists>bl. new_Block (fst (BlockBuilder_Finish b)) = Some bl \<and> block_of r es bl"
proof -
  let ?d = "fst (BlockBuilder_Finish b)" and ?E = "entries_bytes r es (length es)"
  let ?ws = "restarts b" and ?n = "restart_count r (length es)"
  have ws: "?ws = map (\<lambda>j. of_nat (entry_pos r es (j * r))) [0..<?n]"
    using inv by (simp add: builder_inv_def)
  have lws: "length ?ws = ?n" by (simp add: ws)
  have d: "?d = ?E @ concat (map EncodeFixed32 ?ws) @ EncodeFixed32 (of_nat ?n)"
    using inv lws by (simp add: builder_inv_def BlockBuilder_Finish_def Let_def foldl_PutFixed32 PutFixed32_def)
  have len: "length ?d = length ?E + 4 * ?n + 4"
    by (simp add: d length_concat_EncodeFixed32 lws)
  have "drop (length ?d - 4) ?d = EncodeFixed32 (of_nat ?n)"
    by (simp add: len) (simp add: d length_concat_EncodeFixed32 lws)
  then have num: "NumRestarts ?d = ?n"
    using small len by (simp add: NumRestarts_def unat_of_nat_small)
  let ?bl = "\<lparr>block_data = ?d, restart_offset = length ?E, num_restarts = ?n\<rparr>"
  have new: "new_Block ?d = Some ?bl"
    using len by (simp add: new_Block_def num Let_def)
  have "GetRestartPoint ?bl j = entry_pos r es (j * r)" if j: "j < ?n" for j
  proof -
    have "drop (length ?E + j * 4) ?d = drop (j * 4) (concat (map EncodeFixed32 ?ws) @ EncodeFixed32 (of_nat ?n))"
      by (simp add: d)
    also have "\<dots> = EncodeFixed32 (?ws ! j) @ concat (map EncodeFixed32 (drop (Suc j) ?ws)) @ EncodeFixed32 (of_nat ?n)"
      using j by (intro drop_concat_EncodeFixed32) (simp add: lws)
    finally have "GetRestartPoint ?bl j = unat (of_nat (entry_pos r es (j * r)) :: u32)"
      using j by (simp add: GetRestartPoint_def) (simp add: ws)
    moreover have "entry_pos r es (j * r) < 2 ^ 32"
      using entry_pos_mono [OF restart_index_le [OF r j], of r es] small len by (simp add: entry_pos_def)
    ultimately show ?thesis by (simp add: unat_of_nat_small)
  qed
  then have "block_of r es ?bl"
    using r small by (simp add: block_of_def entry_pos_def) (simp add: d)
  with new show ?thesis by blast
qed

subsection \<open>Stepping through a block\<close>

lemma drop_entries:
  assumes "i < length es"
  shows "drop (entry_pos r es i) (entries_bytes r es (length es)) =
     entry_enc r es i @ drop (entry_pos r es (Suc i)) (entries_bytes r es (length es))"
proof -
  have "\<exists>t. entries_bytes r es n = entries_bytes r es (Suc i) @ t" if "i < n" for n
    using that
  proof (induction n)
    case (Suc n)
    then show ?case by (cases "i = n") (auto simp: entries_bytes_Suc)
  qed simp
  from this [OF assms] obtain t where "entries_bytes r es (length es) = entries_bytes r es (Suc i) @ t" ..
  then show ?thesis by (simp add: entry_pos_def entries_bytes_Suc)
qed

lemma shared_of_le: "shared_of r es i \<le> length (fst (es ! i))"
  using shared_prefix_le by (simp add: shared_of_def)

lemma length_entry_enc: "length (snd (es ! i)) + (length (fst (es ! i)) - shared_of r es i) + 3 \<le> length (entry_enc r es i)"
  using length_EncodeVarint(3) [of "of_nat (shared_of r es i)"]
    length_EncodeVarint(3) [of "of_nat (length (fst (es ! i)) - shared_of r es i)"]
    length_EncodeVarint(3) [of "of_nat (length (snd (es ! i)))"]
  by (simp add: entry_enc_def entry_bytes_def)

lemma entry_pos_Suc: "entry_pos r es (Suc i) = entry_pos r es i + length (entry_enc r es i)"
  by (simp add: entry_pos_def entries_bytes_Suc)

lemma entry_pos_less: "i < j \<Longrightarrow> entry_pos r es i < entry_pos r es j"
  using entry_pos_mono [of "Suc i" j r es] length_entry_enc [of es i r] by (simp add: entry_pos_Suc)

lemma entry_pos_ge: "n \<le> entry_pos r es n"
proof (induction n)
  case (Suc n)
  with length_entry_enc [of es n r] show ?case by (simp add: entry_pos_Suc)
qed simp

text \<open>A prefix that is shared has been stored before.\<close>

lemma shared_of_stored: "shared_of r es i \<le> entry_pos r es i"
proof (induction i)
  case (Suc i)
  have "shared_of r es (Suc i) \<le> length (fst (es ! i))"
    using shared_prefix_le by (simp add: shared_of_def)
  with Suc length_entry_enc [of es i r] show ?case by (simp add: entry_pos_Suc)
qed (simp add: shared_of_def)

definition ready :: "nat \<Rightarrow> (slice \<times> slice) list \<Rightarrow> nat \<Rightarrow> BlockIter \<Rightarrow> bool" where
  "ready r es i it \<longleftrightarrow> NextEntryOffset it = entry_pos r es i \<and>
     (i < length es \<longrightarrow> shared_of r es i \<le> length (iter_key it) \<and>
        take (shared_of r es i) (iter_key it) = take (shared_of r es i) (fst (es ! i)))"

definition at_entry :: "nat \<Rightarrow> (slice \<times> slice) list \<Rightarrow> nat \<Rightarrow> BlockIter \<Rightarrow> bool" where
  "at_entry r es i it \<longleftrightarrow> i < length es \<and> current it = entry_pos r es i \<and> iter_key it = fst (es ! i) \<and>
     value_pos it + value_len it = entry_pos r es (Suc i) \<and> value_len it = length (snd (es ! i))"

lemma block_small:
  assumes "block_of r es bl" "i \<le> length es"
  shows "entry_pos r es i < 2 ^ 32" "entry_pos r es i \<le> restart_offset bl"
proof -
  have "restart_offset bl \<le> length (block_data bl)"
    using assms(1) by (simp add: block_of_def entry_pos_def) (metis length_take min.absorb_iff2 min.cobounded1)
  then show "entry_pos r es i < 2 ^ 32" "entry_pos r es i \<le> restart_offset bl"
    using assms entry_pos_mono [OF assms(2), of r es] by (simp_all add: block_of_def)
qed

lemma DecodeEntry_at:
  assumes bl: "block_of r es bl" and i: "i < length es"
  defines "sh \<equiv> shared_of r es i" and "k \<equiv> fst (es ! i)" and "v \<equiv> snd (es ! i)"
  shows "\<exists>rest. DecodeEntry (drop (entry_pos r es i) (take (restart_offset bl) (block_data bl))) =
       Some (of_nat sh, of_nat (length k - sh), of_nat (length v), drop sh k @ v @ rest) \<and>
     restart_offset bl = entry_pos r es (Suc i) + length rest \<and>
     sh \<le> length k \<and> length k < 2 ^ 32 \<and> length v < 2 ^ 32"
proof -
  let ?rest = "drop (entry_pos r es (Suc i)) (entries_bytes r es (length es))"
  have d: "drop (entry_pos r es i) (take (restart_offset bl) (block_data bl)) = entry_bytes sh k v @ ?rest"
    using drop_entries [OF i, of r] by (simp only: block_take [OF bl] entry_enc_def sh_def k_def v_def)
  have total: "restart_offset bl = entry_pos r es (Suc i) + length ?rest"
    using bl block_small(2) [OF bl, of "Suc i"] i by (simp add: block_of_def entry_pos_def)
  have sh: "sh \<le> length k" "sh \<le> entry_pos r es i"
    using shared_of_le shared_of_stored by (auto simp: sh_def k_def)
  have "length v + (length k - sh) + 3 \<le> length (entry_enc r es i)"
    using length_entry_enc [of es i r] by (simp add: sh_def k_def v_def)
  moreover have "restart_offset bl < 2 ^ 32"
    using block_small(1) [OF bl order_refl] bl by (simp add: block_of_def)
  ultimately have fit: "length k + length v + length ?rest < 2 ^ 32"
    using sh total entry_pos_Suc [of r es i] by linarith
  then show ?thesis
    using DecodeEntry_entry_bytes [OF sh(1), of v ?rest] d total sh(1) by auto
qed

lemma ParseNextKey_entry:
  assumes bl: "block_of r es bl" and i: "i < length es" and rd: "ready r es i it"
  shows "\<exists>it'. ParseNextKey bl it = (True, it') \<and> at_entry r es i it' \<and> iter_status it' = iter_status it"
proof -
  let ?sh = "shared_of r es i" and ?k = "fst (es ! i)" and ?v = "snd (es ! i)"
  obtain rest where dec: "DecodeEntry (drop (entry_pos r es i) (take (restart_offset bl) (block_data bl))) =
       Some (of_nat ?sh, of_nat (length ?k - ?sh), of_nat (length ?v), drop ?sh ?k @ ?v @ rest)"
    "restart_offset bl = entry_pos r es (Suc i) + length rest"
    "?sh \<le> length ?k" "length ?k < 2 ^ 32" "length ?v < 2 ^ 32"
    using DecodeEntry_at [OF bl i] by blast
  have u: "unat (of_nat ?sh :: u32) = ?sh" "unat (of_nat (length ?k - ?sh) :: u32) = length ?k - ?sh"
    "unat (of_nat (length ?v) :: u32) = length ?v"
    using dec(3-5) by (intro unat_of_nat_small, simp)+
  have "entry_pos r es i < restart_offset bl"
    using entry_pos_less [OF i, of r es] bl by (simp add: block_of_def)
  moreover have "length ?v + (length ?k - ?sh) \<le> entry_pos r es (Suc i)"
    using length_entry_enc [of es i r] by (simp add: entry_pos_Suc)
  ultimately show ?thesis
    using rd i dec(1,2) u dec(3) unfolding ready_def at_entry_def ParseNextKey_def
    by (auto simp: Let_def simp del: of_nat_diff)
qed

lemma ParseNextKey_end:
  assumes "block_of r es bl" "ready r es (length es) it"
  shows "ParseNextKey bl it = (False, it\<lparr>current := restart_offset bl, restart_index := num_restarts bl\<rparr>)"
  using assms by (simp add: ParseNextKey_def Let_def ready_def block_of_def)

lemma at_entry_ready:
  assumes "block_of r es bl" "at_entry r es i it"
  shows "ready r es (Suc i) it"
proof -
  have "entry_pos r es (Suc i) < 2 ^ 32"
    using block_small(1) [OF assms(1), of "Suc i"] assms(2) by (simp add: at_entry_def)
  then show ?thesis
    using assms(2) shared_prefix_take shared_prefix_le
    by (auto simp: ready_def at_entry_def NextEntryOffset_def shared_of_def)
qed

lemma at_entry_Valid: "block_of r es bl \<Longrightarrow> at_entry r es i it \<Longrightarrow> iter_Valid bl it"
  using entry_pos_less [of i "length es" r es] by (simp add: at_entry_def iter_Valid_def block_of_def)

lemma at_entry_value:
  assumes bl: "block_of r es bl" and at: "at_entry r es i it"
  shows "iter_value bl it = snd (es ! i)"
proof -
  let ?v = "snd (es ! i)" and ?E = "entries_bytes r es (length es)"
  have i: "i < length es" and pos: "value_pos it + length ?v = entry_pos r es (Suc i)"
    and len: "value_len it = length ?v"
    using at by (simp_all add: at_entry_def)
  obtain u where u: "entry_enc r es i = u @ ?v" by (simp add: entry_enc_def entry_bytes_def)
  then have vpos: "value_pos it = length u + entry_pos r es i" using pos by (simp add: entry_pos_Suc)
  have le: "value_pos it + length ?v \<le> restart_offset bl"
    using pos block_small(2) [OF bl, of "Suc i"] i by simp
  have "take (length ?v) (drop (value_pos it) (take (restart_offset bl) (block_data bl))) =
      take (length ?v) (drop (length u) (drop (entry_pos r es i) ?E))"
    by (simp only: block_take [OF bl] vpos drop_drop)
  also have "\<dots> = ?v" by (simp only: drop_entries [OF i] u) simp
  finally have "take (length ?v) (take (restart_offset bl - value_pos it) (drop (value_pos it) (block_data bl))) = ?v"
    by (simp only: drop_take)
  moreover have "length ?v \<le> restart_offset bl - value_pos it" using le by linarith
  ultimately show ?thesis by (simp add: iter_value_def len min.absorb1)
qed

lemma SeekToRestartPoint_ready:
  assumes "block_of r es bl" "j < num_restarts bl"
  shows "ready r es (j * r) (SeekToRestartPoint bl j it)"
proof -
  have "j * r \<le> length es" using assms restart_index_le by (simp add: block_of_def)
  then have "entry_pos r es (j * r) < 2 ^ 32" using block_small(1) [OF assms(1)] by simp
  with assms show ?thesis
    by (simp add: ready_def SeekToRestartPoint_def NextEntryOffset_def shared_of_def block_of_def)
qed

text \<open>The loop over \<open>ParseNextKey\<close> stops at the first entry that satisfies its condition, or at the end.\<close>

lemma parse_until_first:
  assumes bl: "block_of r es bl" and stop: "\<And>j it. at_entry r es j it \<Longrightarrow> stop it = P j"
    and "ready r es i it" "i \<le> length es" "length es - i < fuel"
  shows "\<exists>it'. parse_until fuel bl stop it = Some it' \<and> iter_status it' = iter_status it \<and>
     ((\<exists>j. i \<le> j \<and> j < length es \<and> P j \<and> (\<forall>k. i \<le> k \<and> k < j \<longrightarrow> \<not> P k) \<and> at_entry r es j it') \<or>
      (\<forall>j. i \<le> j \<and> j < length es \<longrightarrow> \<not> P j) \<and> \<not> iter_Valid bl it')"
  using assms(3-)
proof (induction fuel arbitrary: i it)
  case (Suc fuel)
  show ?case
  proof (cases "i < length es")
    case True
    obtain it1 where it1: "ParseNextKey bl it = (True, it1)" "at_entry r es i it1"
      "iter_status it1 = iter_status it"
      using ParseNextKey_entry [OF bl True Suc.prems(1)] by blast
    show ?thesis
    proof (cases "P i")
      case True
      with it1 stop [OF it1(2)] \<open>i < length es\<close> show ?thesis
        by (intro exI [of _ it1]) (auto intro!: exI [of _ i])
    next
      case False
      have "length es - Suc i < fuel" using Suc.prems(3) \<open>i < length es\<close> by linarith
      then obtain it' where it': "parse_until fuel bl stop it1 = Some it'" "iter_status it' = iter_status it1"
        "(\<exists>j. Suc i \<le> j \<and> j < length es \<and> P j \<and> (\<forall>k. Suc i \<le> k \<and> k < j \<longrightarrow> \<not> P k) \<and> at_entry r es j it') \<or>
         (\<forall>j. Suc i \<le> j \<and> j < length es \<longrightarrow> \<not> P j) \<and> \<not> iter_Valid bl it'"
        using Suc.IH [OF at_entry_ready [OF bl it1(2)]] \<open>i < length es\<close> by auto
      have "parse_until (Suc fuel) bl stop it = Some it'"
        using it1 it'(1) False stop [OF it1(2)] by simp
      moreover have "(\<exists>j. i \<le> j \<and> j < length es \<and> P j \<and> (\<forall>k. i \<le> k \<and> k < j \<longrightarrow> \<not> P k) \<and> at_entry r es j it') \<or>
         (\<forall>j. i \<le> j \<and> j < length es \<longrightarrow> \<not> P j) \<and> \<not> iter_Valid bl it'"
        using it'(3) False by (metis Suc_leD Suc_leI le_neq_implies_less)
      ultimately show ?thesis using it'(2) it1(3) by auto
    qed
  next
    case False
    with Suc.prems have "i = length es" by simp
    with Suc.prems(1) ParseNextKey_end [OF bl] show ?thesis by (auto simp: iter_Valid_def)
  qed
qed simp

subsection \<open>Seeking\<close>

lemma restart_index_less: "0 < r \<Longrightarrow> 0 < n \<Longrightarrow> j < restart_count r n \<Longrightarrow> j * r < n"
proof -
  assume a: "0 < r" "0 < n" "j < restart_count r n"
  then have "j \<le> (n - 1) div r" by (simp add: restart_count_def)
  then have "j * r \<le> (n - 1) div r * r" by simp
  also have "\<dots> \<le> n - 1" by simp
  finally show ?thesis using a(2) by linarith
qed

lemma DecodeEntry_restart:
  assumes bl: "block_of r es bl" and j: "j < num_restarts bl" and n: "es \<noteq> []"
  shows "\<exists>ns v rest. DecodeEntry (drop (GetRestartPoint bl j) (take (restart_offset bl) (block_data bl))) =
     Some (0, ns, v, rest) \<and> take (unat ns) rest = fst (es ! (j * r))"
proof -
  have i: "j * r < length es" and p: "GetRestartPoint bl j = entry_pos r es (j * r)"
    using bl j n restart_index_less [of r "length es" j] by (auto simp: block_of_def)
  show ?thesis
    using DecodeEntry_at [OF bl i] by (auto simp: p shared_of_def unat_of_nat_small)
qed

text \<open>
  The binary search ends at a restart point whose key is before the target (or at the first
  one); if it is not the last one, the next restart point's key is not before the target.
\<close>

lemma seek_restarts_correct:
  assumes bl: "block_of r es bl" and n: "es \<noteq> []"
  shows "left \<le> right \<Longrightarrow> right < num_restarts bl \<Longrightarrow>
     \<exists>l. seek_restarts Compare bl target left right = Some l \<and> left \<le> l \<and> l \<le> right \<and>
       (l = left \<or> Compare (fst (es ! (l * r))) target < 0) \<and>
       (l = right \<or> \<not> Compare (fst (es ! (Suc l * r))) target < 0)"
proof (induction "right - left" arbitrary: left right rule: less_induct)
  case less
  show ?case
  proof (cases "left < right")
    case True
    let ?mid = "(left + right + 1) div 2"
    have mid: "left < ?mid" "?mid \<le> right" using True by linarith+
    obtain ns v rest where dec:
      "DecodeEntry (drop (GetRestartPoint bl ?mid) (take (restart_offset bl) (block_data bl))) = Some (0, ns, v, rest)"
      "take (unat ns) rest = fst (es ! (?mid * r))"
      using DecodeEntry_restart [OF bl _ n, of ?mid] mid less.prems by fastforce
    show ?thesis
    proof (cases "Compare (fst (es ! (?mid * r))) target < 0")
      case True
      obtain l where "seek_restarts Compare bl target ?mid right = Some l" "?mid \<le> l" "l \<le> right"
        "l = ?mid \<or> Compare (fst (es ! (l * r))) target < 0"
        "l = right \<or> \<not> Compare (fst (es ! (Suc l * r))) target < 0"
        using less.hyps [of right ?mid] mid less.prems by fastforce
      with True \<open>left < right\<close> dec mid show ?thesis
        by (auto simp: seek_restarts.simps [of Compare bl target left right] Let_def)
    next
      case False
      obtain l where l: "seek_restarts Compare bl target left (?mid - 1) = Some l" "left \<le> l" "l \<le> ?mid - 1"
        "l = left \<or> Compare (fst (es ! (l * r))) target < 0"
        "l = ?mid - 1 \<or> \<not> Compare (fst (es ! (Suc l * r))) target < 0"
        using less.hyps [of "?mid - 1" left] mid less.prems by fastforce
      moreover have "\<not> Compare (fst (es ! (Suc l * r))) target < 0"
      proof (cases "l = ?mid - 1")
        case True
        then have "Suc l = ?mid" using mid by linarith
        with False show ?thesis by (simp only:) simp
      qed (use l(5) in blast)
      moreover have "l \<le> right" using l(3) mid by linarith
      ultimately show ?thesis using False \<open>left < right\<close> dec
        by (auto simp: seek_restarts.simps [of Compare bl target left right] Let_def)
    qed
  next
    case False
    then have "seek_restarts Compare bl target left right = Some left"
      by (simp add: seek_restarts.simps [of Compare bl target left right])
    with False less.prems show ?thesis by auto
  qed
qed

definition sorted_entries :: "(slice \<Rightarrow> slice \<Rightarrow> int) \<Rightarrow> (slice \<times> slice) list \<Rightarrow> bool" where
  "sorted_entries Compare es \<longleftrightarrow> sorted_wrt (\<lambda>a b. Compare (fst a) (fst b) < 0) es"

text \<open>The entry \<open>Seek\<close> has to find.\<close>

definition first_not_before :: "(slice \<Rightarrow> slice \<Rightarrow> int) \<Rightarrow> (slice \<times> slice) list \<Rightarrow> slice \<Rightarrow> nat \<Rightarrow> bool" where
  "first_not_before Compare es target j \<longleftrightarrow> j < length es \<and> \<not> Compare (fst (es ! j)) target < 0 \<and>
     (\<forall>k<j. Compare (fst (es ! k)) target < 0)"

context comparator
begin

lemma before_restart:
  assumes "sorted_entries Compare es" "\<forall>e \<in> set es. wf (fst e)" "wf target"
    "i < length es" "k < i" "Compare (fst (es ! i)) target < 0"
  shows "Compare (fst (es ! k)) target < 0"
proof -
  have "Compare (fst (es ! k)) (fst (es ! i)) < 0"
    using assms sorted_wrt_nth_mono [of _ es k i] by (auto simp: sorted_entries_def)
  then show ?thesis
    using assms cmp_trans [of "fst (es ! k)" "fst (es ! i)" target] by simp
qed

lemma iter_Seek_correct:
  assumes bl: "block_of r es bl" and n: "es \<noteq> []" and srt: "sorted_entries Compare es"
    and wfs: "\<forall>e \<in> set es. wf (fst e)" "wf target"
  shows "\<exists>it'. iter_Seek Compare bl target it = Some it' \<and> iter_status it' = iter_status it \<and>
     ((\<exists>j. first_not_before Compare es target j \<and> at_entry r es j it') \<or>
      (\<forall>e \<in> set es. Compare (fst e) target < 0) \<and> \<not> iter_Valid bl it')"
proof -
  have nr: "0 < num_restarts bl" using bl by (simp add: block_of_def restart_count_def)
  obtain l where l: "seek_restarts Compare bl target 0 (num_restarts bl - 1) = Some l"
    "l < num_restarts bl" "l = 0 \<or> Compare (fst (es ! (l * r))) target < 0"
    using seek_restarts_correct [OF bl n, of 0 "num_restarts bl - 1" Compare target] nr by force
  have lr: "l * r < length es"
    using restart_index_less [of r "length es" l] l(2) bl n by (simp add: block_of_def)
  have before: "Compare (fst (es ! k)) target < 0" if "k < l * r" for k
    using that l(3) before_restart [OF srt wfs lr that] by auto
  have fuel: "length es - l * r < restart_offset bl + 1"
    using entry_pos_ge [of "length es" r es] bl by (simp add: block_of_def)
  obtain it' where it': "parse_until (restart_offset bl + 1) bl (\<lambda>it. Compare (iter_key it) target \<ge> 0)
        (SeekToRestartPoint bl l it) = Some it'"
    "iter_status it' = iter_status (SeekToRestartPoint bl l it)"
    "(\<exists>j. l * r \<le> j \<and> j < length es \<and> Compare (fst (es ! j)) target \<ge> 0 \<and>
        (\<forall>k. l * r \<le> k \<and> k < j \<longrightarrow> \<not> Compare (fst (es ! k)) target \<ge> 0) \<and> at_entry r es j it') \<or>
     (\<forall>j. l * r \<le> j \<and> j < length es \<longrightarrow> \<not> Compare (fst (es ! j)) target \<ge> 0) \<and> \<not> iter_Valid bl it'"
    using parse_until_first [OF bl _ SeekToRestartPoint_ready [OF bl l(2)] _ fuel,
        of "\<lambda>it. Compare (iter_key it) target \<ge> 0" "\<lambda>j. Compare (fst (es ! j)) target \<ge> 0" it] lr
    by (auto simp: at_entry_def)
  have "iter_Seek Compare bl target it = Some it'" using l(1) it'(1) by (simp add: iter_Seek_def)
  moreover have "iter_status it' = iter_status it" using it'(2) by (simp add: SeekToRestartPoint_def)
  moreover have "(\<exists>j. first_not_before Compare es target j \<and> at_entry r es j it') \<or>
      (\<forall>e \<in> set es. Compare (fst e) target < 0) \<and> \<not> iter_Valid bl it'"
    using it'(3) before unfolding first_not_before_def
    by (metis in_set_conv_nth linorder_not_le)
  ultimately show ?thesis by blast
qed

end

subsection \<open>The block as a whole\<close>

definition build_block :: "nat \<Rightarrow> (slice \<times> slice) list \<Rightarrow> slice" where
  "build_block r es = fst (BlockBuilder_Finish (BlockBuilder_Add_all r es new_BlockBuilder))"

lemma build_block_of:
  assumes "0 < r" "length (build_block r es) < 2 ^ 32"
  shows "\<exists>bl. new_Block (build_block r es) = Some bl \<and> block_of r es bl"
  using block_of_Finish [OF builder_inv_Add_all [OF builder_inv_new assms(1), of es]] assms
  by (simp add: build_block_def)

text \<open>What a caller sees while it steps through a block with \<open>Valid\<close>, \<open>key\<close>, \<open>value\<close> and \<open>Next\<close>.\<close>

primrec iterate :: "nat \<Rightarrow> Block \<Rightarrow> BlockIter \<Rightarrow> (slice \<times> slice) list" where
  "iterate 0 bl it = []"
| "iterate (Suc n) bl it =
     (if iter_Valid bl it then (iter_key it, iter_value bl it) # iterate n bl (iter_Next bl it) else [])"

lemma iterate_from:
  assumes bl: "block_of r es bl"
  shows "at_entry r es i it \<Longrightarrow> length es - i < n \<Longrightarrow> iterate n bl it = drop i es"
proof (induction n arbitrary: i it)
  case (Suc n)
  have i: "i < length es" using Suc.prems(1) by (simp add: at_entry_def)
  have hd: "iter_key it = fst (es ! i)" "iter_value bl it = snd (es ! i)"
    using Suc.prems(1) at_entry_value [OF bl] by (simp_all add: at_entry_def)
  have tl: "iterate n bl (iter_Next bl it) = drop (Suc i) es"
  proof (cases "Suc i < length es")
    case True
    obtain it' where "ParseNextKey bl it = (True, it')" "at_entry r es (Suc i) it'"
      using ParseNextKey_entry [OF bl True at_entry_ready [OF bl Suc.prems(1)]] by blast
    with Suc.IH Suc.prems(2) True show ?thesis by (simp add: iter_Next_def)
  next
    case False
    with i have "Suc i = length es" by simp
    with ParseNextKey_end [OF bl] at_entry_ready [OF bl Suc.prems(1)]
    have "\<not> iter_Valid bl (iter_Next bl it)" by (simp add: iter_Next_def iter_Valid_def)
    with False show ?thesis by (cases n) simp_all
  qed
  show ?case
    using at_entry_Valid [OF bl Suc.prems(1)] hd tl i by (simp add: Cons_nth_drop_Suc [symmetric])
qed simp

text \<open>
  C17. A data block read back from its bytes yields exactly the entries that were added, in
  order, for every restart interval: prefix compression and the restart array lose nothing.
\<close>

theorem block_roundtrip:
  assumes "0 < r" "length (build_block r es) < 2 ^ 32"
  shows "\<exists>bl. new_Block (build_block r es) = Some bl \<and>
     iterate (length es + 1) bl (iter_SeekToFirst bl (new_BlockIter bl)) = es"
proof -
  obtain bl where new: "new_Block (build_block r es) = Some bl" and bl: "block_of r es bl"
    using build_block_of [OF assms] by blast
  have rd: "ready r es 0 (SeekToRestartPoint bl 0 (new_BlockIter bl))"
    using SeekToRestartPoint_ready [OF bl, of 0] bl by (simp add: block_of_def restart_count_def)
  have "iterate (length es + 1) bl (iter_SeekToFirst bl (new_BlockIter bl)) = es"
  proof (cases "es = []")
    case True
    with ParseNextKey_end [OF bl, of "SeekToRestartPoint bl 0 (new_BlockIter bl)"] rd show ?thesis
      by (simp add: iter_SeekToFirst_def iter_Valid_def)
  next
    case False
    then obtain it' where "ParseNextKey bl (SeekToRestartPoint bl 0 (new_BlockIter bl)) = (True, it')"
      "at_entry r es 0 it'"
      using ParseNextKey_entry [OF bl _ rd] by auto
    then show ?thesis
      using iterate_from [OF bl, of 0 it' "length es + 1"] by (simp add: iter_SeekToFirst_def)
  qed
  with new show ?thesis by blast
qed

theorem block_roundtrip_witness:
  "\<exists>bl. new_Block (build_block 2 [([1], [10]), ([1, 2], [11]), ([3], [])]) = Some bl \<and>
     iterate 4 bl (iter_SeekToFirst bl (new_BlockIter bl)) = [([1], [10]), ([1, 2], [11]), ([3], [])]"
proof -
  have "length (build_block 2 [([1], [10]), ([1, 2], [11]), ([3], [])]) < 2 ^ 32"
    by (simp add: build_block_def BlockBuilder_Add_all_def new_BlockBuilder_def BlockBuilder_Add_def
        BlockBuilder_Finish_def Let_def PutVarint32_def PutFixed32_def EncodeVarint32_def)
  from block_roundtrip [OF _ this] show ?thesis by (simp add: numeral_eq_Suc)
qed

text \<open>
  \<open>Seek\<close> on a block of sorted entries ends, reports no error, and stops at the first entry
  whose key is not before the target, with that entry's key and value; if there is none, the
  iterator is not valid. This holds for every comparator that is a total order.
\<close>

lemma block_Seek:
  assumes "comparator Compare good" "0 < r" "es \<noteq> []" "length (build_block r es) < 2 ^ 32"
    "sorted_entries Compare es" "\<forall>e \<in> set es. good (fst e)" "good target"
  shows "\<exists>bl it. new_Block (build_block r es) = Some bl \<and>
     iter_Seek Compare bl target (new_BlockIter bl) = Some it \<and> iter_status it = OK \<and>
     (if \<forall>e \<in> set es. Compare (fst e) target < 0 then \<not> iter_Valid bl it
      else \<exists>j. first_not_before Compare es target j \<and> iter_Valid bl it \<and>
             (iter_key it, iter_value bl it) = es ! j)"
proof -
  obtain bl where new: "new_Block (build_block r es) = Some bl" and bl: "block_of r es bl"
    using build_block_of [OF assms(2,4)] by blast
  obtain it where it: "iter_Seek Compare bl target (new_BlockIter bl) = Some it" "iter_status it = OK"
    "(\<exists>j. first_not_before Compare es target j \<and> at_entry r es j it) \<or>
      (\<forall>e \<in> set es. Compare (fst e) target < 0) \<and> \<not> iter_Valid bl it"
    using comparator.iter_Seek_correct [OF assms(1) bl assms(3,5-7), of "new_BlockIter bl"]
    by (auto simp: new_BlockIter_def)
  have "if \<forall>e \<in> set es. Compare (fst e) target < 0 then \<not> iter_Valid bl it
      else \<exists>j. first_not_before Compare es target j \<and> iter_Valid bl it \<and> (iter_key it, iter_value bl it) = es ! j"
    using it(3)
  proof
    assume "\<exists>j. first_not_before Compare es target j \<and> at_entry r es j it"
    then obtain j where j: "first_not_before Compare es target j" "at_entry r es j it" by blast
    then have "\<not> (\<forall>e \<in> set es. Compare (fst e) target < 0)"
      by (auto simp: first_not_before_def)
    moreover have "(iter_key it, iter_value bl it) = es ! j"
      using j(2) at_entry_value [OF bl j(2)] by (simp add: at_entry_def)
    ultimately show ?thesis using j at_entry_Valid [OF bl j(2)] by auto
  qed simp
  with new it show ?thesis by blast
qed

end
