(* ===== verification/HandleTable.thy ===== *)
theory HandleTable
  imports Hashing
begin

text \<open>
  The hash table of cache handles (\<open>HandleTable\<close> of util/cache.cc and, with a larger initial
  length, of util/multi_queue.cc): an array of chains linked through \<open>next_hash\<close>. A node of a
  chain carries the hash, the key and the address of its handle. \<open>base\<close> is the smallest length.
\<close>

subsection \<open>Model\<close>

type_synonym addr = nat
type_synonym hnode = "u32 \<times> slice \<times> addr"

record HandleTable =
  ht_elems :: nat
  ht_list :: "hnode list list"

definition bucket_of :: "u32 \<Rightarrow> nat \<Rightarrow> nat" where
  "bucket_of hash len = unat (hash AND of_nat (len - 1))"

definition hit :: "slice \<Rightarrow> u32 \<Rightarrow> hnode \<Rightarrow> bool" where
  "hit key hash n \<longleftrightarrow> fst n = hash \<and> fst (snd n) = key"

text \<open>
  \<open>FindPointer\<close> walks a chain to the first matching node or to its end; the three operations
  then read, replace or unlink what the found slot points to.
\<close>

fun chain_find :: "slice \<Rightarrow> u32 \<Rightarrow> hnode list \<Rightarrow> hnode option" where
  "chain_find key hash [] = None"
| "chain_find key hash (n # ns) = (if hit key hash n then Some n else chain_find key hash ns)"

fun chain_put :: "hnode \<Rightarrow> hnode list \<Rightarrow> hnode list" where
  "chain_put h [] = [h]"
| "chain_put h (n # ns) = (if hit (fst (snd h)) (fst h) n then h # ns else n # chain_put h ns)"

fun chain_unlink :: "slice \<Rightarrow> u32 \<Rightarrow> hnode list \<Rightarrow> hnode list" where
  "chain_unlink key hash [] = []"
| "chain_unlink key hash (n # ns) = (if hit key hash n then ns else n # chain_unlink key hash ns)"

function new_length :: "nat \<Rightarrow> nat \<Rightarrow> nat" where
  "new_length len elems = (if 0 < len \<and> len < elems then new_length (len * 2) elems else len)"
  by auto
termination by (relation "measure (\<lambda>(len, elems). elems - len)") auto

declare new_length.simps [simp del]

definition rehash :: "nat \<Rightarrow> hnode \<Rightarrow> hnode list list \<Rightarrow> hnode list list" where
  "rehash len n buckets = buckets[bucket_of (fst n) len := n # buckets ! bucket_of (fst n) len]"

definition Resize :: "nat \<Rightarrow> HandleTable \<Rightarrow> HandleTable" where
  "Resize base t =
     (let len = new_length base (ht_elems t)
      in t\<lparr>ht_list := fold (rehash len) (concat (ht_list t)) (replicate len [])\<rparr>)"

definition new_HandleTable :: "nat \<Rightarrow> HandleTable" where
  "new_HandleTable base = Resize base \<lparr>ht_elems = 0, ht_list = []\<rparr>"

definition FindPointer :: "slice \<Rightarrow> u32 \<Rightarrow> HandleTable \<Rightarrow> hnode option" where
  "FindPointer key hash t = chain_find key hash (ht_list t ! bucket_of hash (length (ht_list t)))"

definition HandleTable_Lookup :: "slice \<Rightarrow> u32 \<Rightarrow> HandleTable \<Rightarrow> addr option" where
  "HandleTable_Lookup key hash t = map_option (\<lambda>n. snd (snd n)) (FindPointer key hash t)"

definition HandleTable_Insert :: "nat \<Rightarrow> hnode \<Rightarrow> HandleTable \<Rightarrow> addr option \<times> HandleTable" where
  "HandleTable_Insert base h t =
     (let old = HandleTable_Lookup (fst (snd h)) (fst h) t;
          i = bucket_of (fst h) (length (ht_list t));
          t1 = t\<lparr>ht_list := (ht_list t)[i := chain_put h (ht_list t ! i)]\<rparr>
      in if old = None then
           let t2 = t1\<lparr>ht_elems := ht_elems t1 + 1\<rparr>
           in (old, if ht_elems t2 > length (ht_list t2) then Resize base t2 else t2)
         else (old, t1))"

definition HandleTable_Remove :: "slice \<Rightarrow> u32 \<Rightarrow> HandleTable \<Rightarrow> addr option \<times> HandleTable" where
  "HandleTable_Remove key hash t =
     (let result = HandleTable_Lookup key hash t;
          i = bucket_of hash (length (ht_list t))
      in if result \<noteq> None
         then (result, t\<lparr>ht_list := (ht_list t)[i := chain_unlink key hash (ht_list t ! i)], ht_elems := ht_elems t - 1\<rparr>)
         else (result, t))"

subsection \<open>Chains\<close>

text \<open>No two nodes of a chain, or of a table, agree in hash and key.\<close>

abbreviation node_id :: "hnode \<Rightarrow> u32 \<times> slice" where
  "node_id n \<equiv> (fst n, fst (snd n))"

lemma hit_iff: "hit key hash n \<longleftrightarrow> node_id n = (hash, key)"
  by (auto simp: hit_def)

lemma chain_find_None: "chain_find key hash ns = None \<longleftrightarrow> (hash, key) \<notin> node_id ` set ns"
  by (induction ns) (auto simp: hit_iff)

lemma chain_find_Some:
  "distinct (map node_id ns) \<Longrightarrow> chain_find key hash ns = Some n \<longleftrightarrow> n \<in> set ns \<and> node_id n = (hash, key)"
  by (induction ns) (auto simp: hit_iff rev_image_eqI)

lemma set_chain_put:
  "distinct (map node_id ns) \<Longrightarrow> set (chain_put h ns) = insert h {n \<in> set ns. node_id n \<noteq> node_id h}"
  by (induction ns) (auto simp: hit_iff rev_image_eqI)

lemma set_chain_unlink:
  "distinct (map node_id ns) \<Longrightarrow> set (chain_unlink key hash ns) = {n \<in> set ns. node_id n \<noteq> (hash, key)}"
  by (induction ns) (auto simp: hit_iff rev_image_eqI)

lemma distinct_chain_put: "distinct (map node_id ns) \<Longrightarrow> distinct (map node_id (chain_put h ns))"
proof (induction ns)
  case (Cons n ns)
  then have "node_id n = node_id h \<Longrightarrow> node_id h \<notin> node_id ` set ns" by simp
  with Cons show ?case by (auto simp: hit_iff set_chain_put)
qed simp

lemma distinct_chain_unlink: "distinct (map node_id ns) \<Longrightarrow> distinct (map node_id (chain_unlink key hash ns))"
proof (induction ns)
  case (Cons n ns)
  then show ?case by (auto simp: set_chain_unlink)
qed simp

lemma length_chain_put:
  "length (chain_put h ns) = (if chain_find (fst (snd h)) (fst h) ns = None then length ns + 1 else length ns)"
  by (induction ns) auto

lemma length_chain_unlink:
  "length (chain_unlink key hash ns) = (if chain_find key hash ns = None then length ns else length ns - 1)"
proof (induction ns)
  case (Cons n ns)
  then show ?case by (cases ns) auto
qed simp


subsection \<open>Tables\<close>

definition nodes :: "HandleTable \<Rightarrow> hnode set" where
  "nodes t = set (concat (ht_list t))"

definition buckets_ok :: "hnode list list \<Rightarrow> bool" where
  "buckets_ok bs \<longleftrightarrow> (\<exists>k \<le> 31. length bs = 2 ^ k) \<and>
     (\<forall>i < length bs. distinct (map node_id (bs ! i)) \<and> (\<forall>n \<in> set (bs ! i). bucket_of (fst n) (length bs) = i))"

definition ht_inv :: "HandleTable \<Rightarrow> bool" where
  "ht_inv t \<longleftrightarrow> buckets_ok (ht_list t) \<and> ht_elems t = length (concat (ht_list t))"

lemma bucket_of_less: "k \<le> 31 \<Longrightarrow> bucket_of hash (2 ^ k) < 2 ^ k"
proof -
  assume "k \<le> 31"
  have "of_nat (2 ^ k - 1) = (mask k :: u32)" by (simp add: mask_eq_exp_minus_1 of_nat_diff)
  then have "bucket_of hash (2 ^ k) = take_bit k (unat hash)"
    by (simp add: bucket_of_def take_bit_eq_mask [symmetric] unsigned_take_bit_eq)
  then show ?thesis by simp
qed

lemma buckets_ok_less: "buckets_ok bs \<Longrightarrow> bucket_of hash (length bs) < length bs"
  using bucket_of_less by (auto simp: buckets_ok_def)

lemma buckets_ok_distinct: "buckets_ok bs \<Longrightarrow> distinct (map node_id (bs ! bucket_of hash (length bs)))"
  using buckets_ok_less by (auto simp: buckets_ok_def)

lemma mem_buckets: "buckets_ok bs \<Longrightarrow> n \<in> set (concat bs) \<longleftrightarrow> n \<in> set (bs ! bucket_of (fst n) (length bs))"
proof -
  assume ok: "buckets_ok bs"
  let ?i = "bucket_of (fst n) (length bs)"
  have "bs ! ?i \<in> set bs" using buckets_ok_less [OF ok] by simp
  moreover have "b = bs ! ?i" if "b \<in> set bs" "n \<in> set b" for b
  proof -
    obtain j where j: "j < length bs" "b = bs ! j" using \<open>b \<in> set bs\<close> by (metis in_set_conv_nth)
    with ok \<open>n \<in> set b\<close> have "?i = j" by (simp add: buckets_ok_def)
    with j show ?thesis by simp
  qed
  ultimately show ?thesis by auto
qed

lemma distinct_concat_buckets:
  assumes "\<forall>i < length bs. distinct (map f (bs ! i)) \<and> (\<forall>x \<in> set (bs ! i). g (f x) = i)"
  shows "distinct (map f (concat bs))"
  using assms
proof (induction bs rule: rev_induct)
  case (snoc b bs)
  have "distinct (map f (concat bs))" "\<forall>x \<in> set (concat bs). g (f x) < length bs"
    using snoc by (auto simp: nth_append in_set_conv_nth split: if_splits) (metis less_SucI nth_mem)+
  moreover have "distinct (map f b)" "\<forall>x \<in> set b. g (f x) = length bs"
    using snoc.prems by (auto dest: spec [of _ "length bs"])
  ultimately show ?case by force
qed simp

lemma buckets_ok_distinct_all: "buckets_ok bs \<Longrightarrow> distinct (map node_id (concat bs))"
  by (rule distinct_concat_buckets [where g = "\<lambda>i. bucket_of (fst i) (length bs)"]) (auto simp: buckets_ok_def)

lemma buckets_ok_update:
  assumes "buckets_ok bs" "distinct (map node_id c)" "\<forall>n \<in> set c. bucket_of (fst n) (length bs) = i"
  shows "buckets_ok (bs[i := c])"
proof -
  have "bs[i := c] ! j = (if j = i then c else bs ! j)" if "j < length bs" for j
    using that by (simp add: nth_list_update)
  with assms show ?thesis unfolding buckets_ok_def by (simp split: if_splits)
qed

lemma length_concat_update:
  "i < length bs \<Longrightarrow> length (concat (bs[i := c])) + length (bs ! i) = length (concat bs) + length c"
  by (induction bs arbitrary: i) (auto split: nat.splits)

lemma Lookup_iff: "ht_inv t \<Longrightarrow> HandleTable_Lookup key hash t = Some a \<longleftrightarrow> (hash, key, a) \<in> nodes t"
  using mem_buckets [of "ht_list t" "(hash, key, a)"] buckets_ok_distinct [of "ht_list t" hash]
  by (auto simp: ht_inv_def HandleTable_Lookup_def FindPointer_def nodes_def chain_find_Some)

lemma Lookup_None: "ht_inv t \<Longrightarrow> HandleTable_Lookup key hash t = None \<longleftrightarrow> (\<forall>a. (hash, key, a) \<notin> nodes t)"
  using Lookup_iff by (metis not_Some_eq)

subsubsection \<open>Resizing\<close>

lemma new_length_pow:
  "elems \<le> 2 ^ 31 \<Longrightarrow> b \<le> 31 \<Longrightarrow> \<exists>k \<le> 31. new_length (2 ^ b) elems = 2 ^ k"
proof (induction "(2::nat) ^ b" elems arbitrary: b rule: new_length.induct)
  case (1 elems)
  show ?case
  proof (cases "2 ^ b < elems")
    case True
    then have "(2::nat) ^ b < 2 ^ 31" using 1(2) by simp
    then have "b < 31" by (simp only: power_strict_increasing_iff)
    with 1(1) [of "Suc b"] 1(2) True show ?thesis by (subst new_length.simps) (simp add: mult.commute)
  next
    case False
    then show ?thesis using 1(3) by (subst new_length.simps) auto
  qed
qed

lemma rehash_all:
  assumes "len = 2 ^ k" "k \<le> 31" "length bs = len"
  shows "length (fold (rehash len) ns bs) = len \<and>
     (\<forall>i < len. fold (rehash len) ns bs ! i = rev (filter (\<lambda>n. bucket_of (fst n) len = i) ns) @ bs ! i) \<and>
     length (concat (fold (rehash len) ns bs)) = length ns + length (concat bs)"
  using assms(3)
proof (induction ns arbitrary: bs)
  case (Cons n ns)
  have i: "bucket_of (fst n) len < length bs" using bucket_of_less assms Cons.prems by simp
  have "length (concat (rehash len n bs)) = Suc (length (concat bs))"
    using length_concat_update [OF i, of "n # bs ! bucket_of (fst n) len"] by (simp add: rehash_def)
  with Cons.IH [of "rehash len n bs"] Cons.prems i show ?case by (auto simp: rehash_def nth_list_update)
qed simp

lemma Resize_inv:
  assumes "distinct (map node_id (concat (ht_list t)))" "ht_elems t = length (concat (ht_list t))"
    "ht_elems t \<le> 2 ^ 31" "base = 2 ^ b" "b \<le> 31"
  shows "ht_inv (Resize base t)" "nodes (Resize base t) = nodes t" "ht_elems (Resize base t) = ht_elems t"
proof -
  let ?ns = "concat (ht_list t)" and ?len = "new_length base (ht_elems t)"
  obtain k where k: "?len = 2 ^ k" "k \<le> 31" using new_length_pow assms by blast
  let ?bs = "fold (rehash ?len) ?ns (replicate ?len [])"
  have r: "length ?bs = ?len" "\<And>i. i < ?len \<Longrightarrow> ?bs ! i = rev (filter (\<lambda>n. bucket_of (fst n) ?len = i) ?ns)"
    "length (concat ?bs) = length ?ns"
    using rehash_all [OF k, of "replicate ?len []" ?ns] by simp_all
  have bs: "buckets_ok ?bs"
    unfolding buckets_ok_def using r assms(1) k
    by (auto simp: rev_map [symmetric] distinct_map distinct_filter intro: inj_on_subset)
  then show "ht_inv (Resize base t)" "ht_elems (Resize base t) = ht_elems t"
    using r(3) assms(2) by (simp_all add: Resize_def ht_inv_def Let_def)
  have "n \<in> set (concat ?bs) \<longleftrightarrow> n \<in> set ?ns" for n
    using mem_buckets [OF bs] bucket_of_less [of k "fst n"] k r by simp
  moreover have "ht_list (Resize base t) = ?bs" by (simp add: Resize_def Let_def)
  ultimately show "nodes (Resize base t) = nodes t" unfolding nodes_def by (metis set_eqI)
qed

subsubsection \<open>Operations\<close>

lemma ht_inv_bucket:
  fixes hash :: u32
  assumes "ht_inv t"
  defines "i \<equiv> bucket_of hash (length (ht_list t))"
  shows "distinct (map node_id (ht_list t ! i))" "i < length (ht_list t)"
    "n \<in> set (ht_list t ! i) \<Longrightarrow> bucket_of (fst n) (length (ht_list t)) = i"
    "length (ht_list t ! i) \<le> ht_elems t"
proof -
  have ok: "buckets_ok (ht_list t)" and el: "ht_elems t = length (concat (ht_list t))"
    using assms(1) by (simp_all add: ht_inv_def)
  show i: "i < length (ht_list t)" using buckets_ok_less [OF ok] by (simp add: i_def)
  show "distinct (map node_id (ht_list t ! i))" using buckets_ok_distinct [OF ok] by (simp add: i_def)
  show "n \<in> set (ht_list t ! i) \<Longrightarrow> bucket_of (fst n) (length (ht_list t)) = i"
    using ok i by (auto simp: buckets_ok_def)
  show "length (ht_list t ! i) \<le> ht_elems t"
    unfolding el length_concat using i by (intro member_le_sum_list) auto
qed

lemma nodes_update:
  assumes "buckets_ok bs" "buckets_ok (bs[i := c])"
  shows "n \<in> set (concat (bs[i := c])) \<longleftrightarrow>
     (if bucket_of (fst n) (length bs) = i then n \<in> set c else n \<in> set (concat bs))"
  using mem_buckets [OF assms(2), of n] mem_buckets [OF assms(1), of n] buckets_ok_less [OF assms(1), of "fst n"]
  by (simp add: nth_list_update)

text \<open>Inserting replaces the node with the same hash and key, and returns its handle.\<close>

lemma Insert_correct:
  fixes h :: hnode
  assumes inv: "ht_inv t" and el: "ht_elems t < 2 ^ 31" and base: "base = 2 ^ b" "b \<le> 31"
  defines "t' \<equiv> snd (HandleTable_Insert base h t)"
  shows "fst (HandleTable_Insert base h t) = HandleTable_Lookup (fst (snd h)) (fst h) t"
    and "ht_inv t'" and "nodes t' = insert h {n \<in> nodes t. node_id n \<noteq> node_id h}"
    and "ht_elems t' = ht_elems t + (if HandleTable_Lookup (fst (snd h)) (fst h) t = None then 1 else 0)"
proof -
  let ?i = "bucket_of (fst h) (length (ht_list t))"
  let ?c = "chain_put h (ht_list t ! ?i)" and ?old = "HandleTable_Lookup (fst (snd h)) (fst h) t"
  let ?bs = "(ht_list t)[?i := ?c]"
  have ok: "buckets_ok (ht_list t)" using inv by (simp add: ht_inv_def)
  note b = ht_inv_bucket [OF inv, where hash = "fst h"]
  have ok': "buckets_ok ?bs"
    using b by (intro buckets_ok_update ok distinct_chain_put) (auto simp: set_chain_put)
  have len: "length (concat ?bs) = ht_elems t + (if ?old = None then 1 else 0)"
    using length_concat_update [OF b(2), of ?c] inv length_chain_put [of h "ht_list t ! ?i"]
    by (auto simp: ht_inv_def HandleTable_Lookup_def FindPointer_def)
  have mem: "set (concat ?bs) = insert h {n \<in> nodes t. node_id n \<noteq> node_id h}"
  proof (rule set_eqI)
    fix n
    have "n \<in> nodes t \<longleftrightarrow> n \<in> set (ht_list t ! ?i)" if "bucket_of (fst n) (length (ht_list t)) = ?i"
      using mem_buckets [OF ok] that by (simp add: nodes_def)
    then show "n \<in> set (concat ?bs) \<longleftrightarrow> n \<in> insert h {n \<in> nodes t. node_id n \<noteq> node_id h}"
      unfolding nodes_update [OF ok ok'] using b(1) by (auto simp: set_chain_put nodes_def)
  qed
  show "fst (HandleTable_Insert base h t) = ?old" by (simp add: HandleTable_Insert_def Let_def)
  let ?t1 = "t\<lparr>ht_elems := ht_elems t + (if ?old = None then 1 else 0), ht_list := ?bs\<rparr>"
  have inv1: "ht_inv ?t1" using ok' len by (simp add: ht_inv_def)
  have t': "t' = (if ?old = None \<and> ht_elems t + 1 > length (ht_list t) then Resize base ?t1 else ?t1)"
    by (cases t) (simp add: t'_def HandleTable_Insert_def Let_def)
  note R = Resize_inv [of ?t1, OF _ _ _ base]
  have "distinct (map node_id (concat (ht_list ?t1)))" using buckets_ok_distinct_all [OF ok'] by simp
  moreover have "ht_elems ?t1 = length (concat (ht_list ?t1))" "ht_elems ?t1 \<le> 2 ^ 31" using len el by auto
  ultimately have "ht_inv (Resize base ?t1)" "nodes (Resize base ?t1) = nodes ?t1"
    "ht_elems (Resize base ?t1) = ht_elems ?t1" using R by blast+
  with inv1 mem show "ht_inv t'" "nodes t' = insert h {n \<in> nodes t. node_id n \<noteq> node_id h}"
    "ht_elems t' = ht_elems t + (if ?old = None then 1 else 0)"
    unfolding t' by (auto simp: nodes_def)
qed

lemma Remove_correct:
  fixes key :: slice and hash :: u32
  assumes inv: "ht_inv t"
  defines "t' \<equiv> snd (HandleTable_Remove key hash t)"
  shows "fst (HandleTable_Remove key hash t) = HandleTable_Lookup key hash t"
    and "ht_inv t'" and "nodes t' = {n \<in> nodes t. node_id n \<noteq> (hash, key)}"
    and "ht_elems t' = ht_elems t - (if HandleTable_Lookup key hash t = None then 0 else 1)"
proof -
  let ?i = "bucket_of hash (length (ht_list t))"
  let ?c = "chain_unlink key hash (ht_list t ! ?i)" and ?old = "HandleTable_Lookup key hash t"
  let ?bs = "(ht_list t)[?i := ?c]"
  have ok: "buckets_ok (ht_list t)" using inv by (simp add: ht_inv_def)
  note b = ht_inv_bucket [OF inv, where hash = hash]
  have ok': "buckets_ok ?bs"
    using b by (intro buckets_ok_update ok distinct_chain_unlink) (auto simp: set_chain_unlink)
  have len: "length (concat ?bs) = ht_elems t - (if ?old = None then 0 else 1)"
    using length_concat_update [OF b(2), of ?c] inv length_chain_unlink [of key hash "ht_list t ! ?i"]
      chain_find.simps(1) [of key hash]
    by (cases "ht_list t ! ?i") (auto simp: ht_inv_def HandleTable_Lookup_def FindPointer_def split: if_splits)
  have mem: "set (concat ?bs) = {n \<in> nodes t. node_id n \<noteq> (hash, key)}"
  proof (rule set_eqI)
    fix n
    have "n \<in> nodes t \<longleftrightarrow> n \<in> set (ht_list t ! ?i)" if "bucket_of (fst n) (length (ht_list t)) = ?i"
      using mem_buckets [OF ok] that by (simp add: nodes_def)
    then show "n \<in> set (concat ?bs) \<longleftrightarrow> n \<in> {n \<in> nodes t. node_id n \<noteq> (hash, key)}"
      unfolding nodes_update [OF ok ok'] using b(1) by (auto simp: set_chain_unlink nodes_def)
  qed
  show "fst (HandleTable_Remove key hash t) = ?old" by (simp add: HandleTable_Remove_def Let_def)
  have "{n \<in> nodes t. node_id n \<noteq> (hash, key)} = nodes t" if "?old = None"
    using that Lookup_None [OF inv] by auto
  with ok' len mem inv show "ht_inv t'" "nodes t' = {n \<in> nodes t. node_id n \<noteq> (hash, key)}"
    "ht_elems t' = ht_elems t - (if ?old = None then 0 else 1)"
    by (auto simp: t'_def HandleTable_Remove_def Let_def nodes_def ht_inv_def)
qed

lemma new_HandleTable_correct:
  assumes "base = 2 ^ b" "b \<le> 31"
  shows "ht_inv (new_HandleTable base)" "nodes (new_HandleTable base) = {}" "ht_elems (new_HandleTable base) = 0"
  unfolding new_HandleTable_def
  using Resize_inv [of "\<lparr>ht_elems = 0, ht_list = []\<rparr>", OF _ _ _ assms] by (simp_all add: nodes_def)

subsection \<open>The interface of the table\<close>

text \<open>
  What the caches rely on. The caches keep, for each handle they have cached, its hash and key;
  the table has to agree with that assignment (\<open>indexes\<close>).
\<close>

definition indexes :: "(slice \<Rightarrow> u32 \<Rightarrow> addr option) \<Rightarrow> (addr \<Rightarrow> (u32 \<times> slice) option) \<Rightarrow> bool" where
  "indexes lookup ids \<longleftrightarrow> (\<forall>key hash a. lookup key hash = Some a \<longleftrightarrow> ids a = Some (hash, key))"

locale handle_index =
  fixes inv :: "'t \<Rightarrow> bool"
    and lookup :: "slice \<Rightarrow> u32 \<Rightarrow> 't \<Rightarrow> addr option"
    and insert :: "hnode \<Rightarrow> 't \<Rightarrow> addr option \<times> 't"
    and remove :: "slice \<Rightarrow> u32 \<Rightarrow> 't \<Rightarrow> addr option \<times> 't"
    and count :: "'t \<Rightarrow> nat"
  assumes insert_old: "inv t \<Longrightarrow> count t < 2 ^ 31 \<Longrightarrow> fst (insert (hash, key, a) t) = lookup key hash t"
    and insert_inv: "inv t \<Longrightarrow> count t < 2 ^ 31 \<Longrightarrow> inv (snd (insert (hash, key, a) t))"
    and insert_count: "inv t \<Longrightarrow> count t < 2 ^ 31 \<Longrightarrow>
      count (snd (insert (hash, key, a) t)) = count t + (if lookup key hash t = None then 1 else 0)"
    and insert_lookup: "inv t \<Longrightarrow> count t < 2 ^ 31 \<Longrightarrow>
      lookup key' hash' (snd (insert (hash, key, a) t)) =
        (if (hash', key') = (hash, key) then Some a else lookup key' hash' t)"
    and remove_old: "inv t \<Longrightarrow> fst (remove key hash t) = lookup key hash t"
    and remove_inv: "inv t \<Longrightarrow> inv (snd (remove key hash t))"
    and remove_count: "inv t \<Longrightarrow> count (snd (remove key hash t)) = count t - (if lookup key hash t = None then 0 else 1)"
    and remove_lookup: "inv t \<Longrightarrow>
      lookup key' hash' (snd (remove key hash t)) =
        (if (hash', key') = (hash, key) then None else lookup key' hash' t)"
begin

abbreviation agrees :: "'t \<Rightarrow> (addr \<Rightarrow> (u32 \<times> slice) option) \<Rightarrow> bool" where
  "agrees t ids \<equiv> inv t \<and> indexes (\<lambda>key hash. lookup key hash t) ids"

lemma remove_agrees:
  assumes "agrees t ids"
  shows "agrees (snd (remove key hash t)) (\<lambda>a. if ids a = Some (hash, key) then None else ids a)"
    "fst (remove key hash t) = Some a \<longleftrightarrow> ids a = Some (hash, key)"
  using assms by (auto simp: indexes_def remove_old remove_inv remove_lookup)

lemma insert_agrees:
  assumes "agrees t ids" "count t < 2 ^ 31" "ids a = None"
  shows "agrees (snd (insert (hash, key, a) t)) (\<lambda>b. if b = a then Some (hash, key) else if ids b = Some (hash, key) then None else ids b)"
    "fst (insert (hash, key, a) t) = Some b \<longleftrightarrow> ids b = Some (hash, key)"
  using assms by (auto simp: indexes_def insert_old insert_inv insert_lookup)

lemma agrees_unique: "agrees t ids \<Longrightarrow> ids a = Some x \<Longrightarrow> ids b = Some x \<Longrightarrow> a = b"
  by (cases x) (simp add: indexes_def, metis option.inject)

end

lemma HandleTable_index:
  assumes "base = 2 ^ b" "b \<le> 31"
  shows "handle_index ht_inv HandleTable_Lookup (HandleTable_Insert base) HandleTable_Remove ht_elems"
proof
  fix t :: HandleTable and hash hash' :: u32 and key key' :: slice and a :: addr
  assume inv: "ht_inv t"
  note R = Remove_correct [OF inv, of key hash]
  show "fst (HandleTable_Remove key hash t) = HandleTable_Lookup key hash t"
    "ht_inv (snd (HandleTable_Remove key hash t))"
    "ht_elems (snd (HandleTable_Remove key hash t)) = ht_elems t - (if HandleTable_Lookup key hash t = None then 0 else 1)"
    using R by simp_all
  show "HandleTable_Lookup key' hash' (snd (HandleTable_Remove key hash t)) =
        (if (hash', key') = (hash, key) then None else HandleTable_Lookup key' hash' t)"
    by (rule option_eqI) (auto simp: Lookup_iff [OF R(2)] Lookup_iff [OF inv] R(3))
  assume el: "ht_elems t < 2 ^ 31"
  note I = Insert_correct [OF inv el assms, of "(hash, key, a)"]
  show "fst (HandleTable_Insert base (hash, key, a) t) = HandleTable_Lookup key hash t"
    "ht_inv (snd (HandleTable_Insert base (hash, key, a) t))"
    "ht_elems (snd (HandleTable_Insert base (hash, key, a) t)) =
       ht_elems t + (if HandleTable_Lookup key hash t = None then 1 else 0)"
    using I by simp_all
  show "HandleTable_Lookup key' hash' (snd (HandleTable_Insert base (hash, key, a) t)) =
        (if (hash', key') = (hash, key) then Some a else HandleTable_Lookup key' hash' t)"
    by (rule option_eqI) (auto simp: Lookup_iff [OF I(2)] Lookup_iff [OF inv] I(3))
qed

text \<open>The two hash tables of the program: of the block cache, and of the multi-queue.\<close>

interpretation lru_table: handle_index ht_inv HandleTable_Lookup "HandleTable_Insert 4" HandleTable_Remove ht_elems
  by (rule HandleTable_index [of 4 2]) simp_all

interpretation mq_table: handle_index ht_inv HandleTable_Lookup "HandleTable_Insert 131072" HandleTable_Remove ht_elems
  by (rule HandleTable_index [of 131072 17]) simp_all

end
