(* ===== verification/LRUCache.thy ===== *)
theory LRUCache
  imports HandleTable
begin

text \<open>
  The block cache (util/cache.cc). A handle is known by its address; the store \<open>handles\<close> has
  the live ones, and an address leaves it when \<open>Unref\<close> frees the handle. The circular lists
  \<open>lru_\<close> and \<open>in_use_\<close> are the lists of their addresses, oldest first. \<open>deleted\<close> records the
  calls of the deleter. \<open>malloc\<close> is the address passed to \<open>Insert\<close>. The mutex is left out: every
  operation holds it from beginning to end.
\<close>

subsection \<open>State\<close>

record LRUHandle =
  h_key :: slice
  h_hash :: u32
  h_value :: nat
  h_charge :: nat
  h_in_cache :: bool
  h_refs :: nat

record LRUCache =
  capacity :: nat
  usage :: nat
  lru :: "addr list"
  in_use :: "addr list"
  cache_table :: HandleTable
  handles :: "addr \<Rightarrow> LRUHandle option"
  deleted :: "(slice \<times> nat) list"

definition new_LRUCache :: "nat \<Rightarrow> LRUCache" where
  "new_LRUCache cap = \<lparr>capacity = cap, usage = 0, lru = [], in_use = [], cache_table = new_HandleTable 4,
     handles = (\<lambda>_. None), deleted = []\<rparr>"

subsection \<open>Operations\<close>

definition upd_handle :: "addr \<Rightarrow> (LRUHandle \<Rightarrow> LRUHandle) \<Rightarrow> LRUCache \<Rightarrow> LRUCache" where
  "upd_handle e f c = c\<lparr>handles := (handles c)(e := map_option f (handles c e))\<rparr>"

definition LRU_Remove :: "addr \<Rightarrow> LRUCache \<Rightarrow> LRUCache" where
  "LRU_Remove e c = c\<lparr>lru := remove1 e (lru c), in_use := remove1 e (in_use c)\<rparr>"

definition LRU_Append_lru :: "addr \<Rightarrow> LRUCache \<Rightarrow> LRUCache" where
  "LRU_Append_lru e c = c\<lparr>lru := lru c @ [e]\<rparr>"

definition LRU_Append_in_use :: "addr \<Rightarrow> LRUCache \<Rightarrow> LRUCache" where
  "LRU_Append_in_use e c = c\<lparr>in_use := in_use c @ [e]\<rparr>"

definition Ref :: "addr \<Rightarrow> LRUCache \<Rightarrow> LRUCache" where
  "Ref e c =
     (let h = the (handles c e);
          c1 = (if h_refs h = 1 \<and> h_in_cache h then LRU_Append_in_use e (LRU_Remove e c) else c)
      in upd_handle e (\<lambda>h. h\<lparr>h_refs := h_refs h + 1\<rparr>) c1)"

definition Unref :: "addr \<Rightarrow> LRUCache \<Rightarrow> LRUCache" where
  "Unref e c =
     (let c1 = upd_handle e (\<lambda>h. h\<lparr>h_refs := h_refs h - 1\<rparr>) c;
          h = the (handles c1 e)
      in if h_refs h = 0 then c1\<lparr>handles := (handles c1)(e := None), deleted := deleted c1 @ [(h_key h, h_value h)]\<rparr>
         else if h_in_cache h \<and> h_refs h = 1 then LRU_Append_lru e (LRU_Remove e c1)
         else c1)"

definition FinishErase :: "addr option \<Rightarrow> LRUCache \<Rightarrow> bool \<times> LRUCache" where
  "FinishErase r c =
     (case r of
        None \<Rightarrow> (False, c)
      | Some e \<Rightarrow>
          let c1 = upd_handle e (\<lambda>h. h\<lparr>h_in_cache := False\<rparr>) (LRU_Remove e c)
          in (True, Unref e (c1\<lparr>usage := usage c1 - h_charge (the (handles c1 e))\<rparr>)))"

definition LRUCache_Lookup :: "slice \<Rightarrow> u32 \<Rightarrow> LRUCache \<Rightarrow> addr option \<times> LRUCache" where
  "LRUCache_Lookup key hash c =
     (case HandleTable_Lookup key hash (cache_table c) of
        None \<Rightarrow> (None, c)
      | Some e \<Rightarrow> (Some e, Ref e c))"

definition LRUCache_Release :: "addr \<Rightarrow> LRUCache \<Rightarrow> LRUCache" where
  "LRUCache_Release e c = Unref e c"

text \<open>\<open>FinishErase(table_.Remove(key, hash))\<close>\<close>

definition remove_and_finish :: "slice \<Rightarrow> u32 \<Rightarrow> LRUCache \<Rightarrow> bool \<times> LRUCache" where
  "remove_and_finish key hash c =
     (let (r, t) = HandleTable_Remove key hash (cache_table c) in FinishErase r (c\<lparr>cache_table := t\<rparr>))"

definition LRUCache_Erase :: "slice \<Rightarrow> u32 \<Rightarrow> LRUCache \<Rightarrow> LRUCache" where
  "LRUCache_Erase key hash c = snd (remove_and_finish key hash c)"

definition erase_oldest :: "LRUCache \<Rightarrow> bool \<times> LRUCache" where
  "erase_oldest c =
     (let h = the (handles c (hd (lru c))) in remove_and_finish (h_key h) (h_hash h) c)"

text \<open>
  The two eviction loops. \<open>assert(erased)\<close> is the \<open>None\<close> branch; a loop that does not end has no
  value either.
\<close>

partial_function (option) evict :: "LRUCache \<Rightarrow> LRUCache option" where
  "evict c =
     (if usage c > capacity c \<and> lru c \<noteq> [] then
        (let (erased, c') = erase_oldest c in if erased then evict c' else None)
      else Some c)"

partial_function (option) LRUCache_Prune :: "LRUCache \<Rightarrow> LRUCache option" where
  "LRUCache_Prune c =
     (if lru c \<noteq> [] then
        (let (erased, c') = erase_oldest c in if erased then LRUCache_Prune c' else None)
      else Some c)"

text \<open>\<open>e\<close> is the address of the new handle.\<close>

definition LRUCache_Insert :: "addr \<Rightarrow> slice \<Rightarrow> u32 \<Rightarrow> nat \<Rightarrow> nat \<Rightarrow> LRUCache \<Rightarrow> LRUCache option" where
  "LRUCache_Insert e key hash value charge c =
     (let h = \<lparr>h_key = key, h_hash = hash, h_value = value, h_charge = charge, h_in_cache = False, h_refs = 1\<rparr>;
          c0 = c\<lparr>handles := (handles c)(e \<mapsto> h)\<rparr>
      in evict
          (if capacity c > 0 then
             let c1 = upd_handle e (\<lambda>h. h\<lparr>h_refs := h_refs h + 1, h_in_cache := True\<rparr>) c0;
                 c2 = LRU_Append_in_use e c1;
                 c3 = c2\<lparr>usage := usage c2 + charge\<rparr>;
                 (old, t) = HandleTable_Insert 4 (hash, key, e) (cache_table c3)
             in snd (FinishErase old (c3\<lparr>cache_table := t\<rparr>))
           else c0))"

subsection \<open>The sharded cache\<close>

definition kNumShardBits :: nat where "kNumShardBits = 4"
definition kNumShards :: nat where "kNumShards = 2 ^ kNumShardBits"

definition HashSlice :: "slice \<Rightarrow> u32" where
  "HashSlice s = Hash s 0"

definition Shard :: "u32 \<Rightarrow> nat" where
  "Shard hash = unat (drop_bit (32 - kNumShardBits) hash)"

record ShardedLRUCache =
  shards :: "LRUCache list"
  last_id :: u64

definition new_ShardedLRUCache :: "nat \<Rightarrow> ShardedLRUCache" where
  "new_ShardedLRUCache cap =
     \<lparr>shards = replicate kNumShards (new_LRUCache ((cap + (kNumShards - 1)) div kNumShards)), last_id = 0\<rparr>"

definition Sharded_Insert :: "addr \<Rightarrow> slice \<Rightarrow> nat \<Rightarrow> nat \<Rightarrow> ShardedLRUCache \<Rightarrow> ShardedLRUCache option" where
  "Sharded_Insert e key v charge c =
     (let hash = HashSlice key
      in map_option (\<lambda>sh. c\<lparr>shards := (shards c)[Shard hash := sh]\<rparr>)
           (LRUCache_Insert e key hash v charge (shards c ! Shard hash)))"

definition Sharded_Lookup :: "slice \<Rightarrow> ShardedLRUCache \<Rightarrow> addr option \<times> ShardedLRUCache" where
  "Sharded_Lookup key c =
     (let hash = HashSlice key; (r, sh) = LRUCache_Lookup key hash (shards c ! Shard hash)
      in (r, c\<lparr>shards := (shards c)[Shard hash := sh]\<rparr>))"

text \<open>\<open>Release\<close> reads the hash from the handle; \<open>hash\<close> is that hash.\<close>

definition Sharded_Release :: "addr \<Rightarrow> u32 \<Rightarrow> ShardedLRUCache \<Rightarrow> ShardedLRUCache" where
  "Sharded_Release e hash c = c\<lparr>shards := (shards c)[Shard hash := LRUCache_Release e (shards c ! Shard hash)]\<rparr>"

definition Sharded_Erase :: "slice \<Rightarrow> ShardedLRUCache \<Rightarrow> ShardedLRUCache" where
  "Sharded_Erase key c =
     (let hash = HashSlice key
      in c\<lparr>shards := (shards c)[Shard hash := LRUCache_Erase key hash (shards c ! Shard hash)]\<rparr>)"

definition Sharded_NewId :: "ShardedLRUCache \<Rightarrow> u64 \<times> ShardedLRUCache" where
  "Sharded_NewId c = (last_id c + 1, c\<lparr>last_id := last_id c + 1\<rparr>)"

definition Sharded_TotalCharge :: "ShardedLRUCache \<Rightarrow> nat" where
  "Sharded_TotalCharge c = sum_list (map usage (shards c))"

subsection \<open>The invariant\<close>

text \<open>
  \<open>held a\<close> is the number of references the clients have on the handle at \<open>a\<close>. Every cached
  handle is on exactly one of the two lists, on \<open>lru_\<close> when the cache has the only reference;
  the hash table knows exactly the cached handles; \<open>usage_\<close> is the sum of their charges.
\<close>

definition cached_ids :: "LRUCache \<Rightarrow> addr \<Rightarrow> (u32 \<times> slice) option" where
  "cached_ids c a = (case handles c a of
     None \<Rightarrow> None | Some h \<Rightarrow> if h_in_cache h then Some (h_hash h, h_key h) else None)"

definition charge_of :: "LRUCache \<Rightarrow> addr \<Rightarrow> nat" where
  "charge_of c a = (case handles c a of None \<Rightarrow> 0 | Some h \<Rightarrow> if h_in_cache h then h_charge h else 0)"

definition lists_ok :: "LRUCache \<Rightarrow> bool" where
  "lists_ok c \<longleftrightarrow> distinct (lru c) \<and> distinct (in_use c) \<and>
     (\<forall>a. (a \<in> set (lru c) \<longleftrightarrow> (\<exists>h. handles c a = Some h \<and> h_in_cache h \<and> h_refs h = 1)) \<and>
          (a \<in> set (in_use c) \<longleftrightarrow> (\<exists>h. handles c a = Some h \<and> h_in_cache h \<and> h_refs h \<noteq> 1)))"

fun ref_ok :: "nat \<Rightarrow> LRUHandle option \<Rightarrow> bool" where
  "ref_ok n None \<longleftrightarrow> n = 0"
| "ref_ok n (Some h) \<longleftrightarrow> h_refs h = n + (if h_in_cache h then 1 else 0) \<and> 0 < h_refs h"

definition refs_ok :: "(addr \<Rightarrow> nat) \<Rightarrow> LRUCache \<Rightarrow> bool" where
  "refs_ok held c \<longleftrightarrow> (\<forall>a. ref_ok (held a) (handles c a))"

lemma refs_okD: "refs_ok held c \<Longrightarrow> handles c e = Some h \<Longrightarrow>
    h_refs h = held e + (if h_in_cache h then 1 else 0) \<and> 0 < h_refs h"
  unfolding refs_ok_def by (metis ref_ok.simps(2))

lemma refs_ok_update:
  "refs_ok held c \<Longrightarrow> handles c' = (handles c)(e := x) \<Longrightarrow> ref_ok n x \<Longrightarrow> refs_ok (held(e := n)) c'"
  by (simp add: refs_ok_def)

definition usage_ok :: "LRUCache \<Rightarrow> bool" where
  "usage_ok c \<longleftrightarrow> usage c = (\<Sum>a \<in> set (lru c) \<union> set (in_use c). charge_of c a)"

definition lru_inv :: "(addr \<Rightarrow> nat) \<Rightarrow> LRUCache \<Rightarrow> bool" where
  "lru_inv held c \<longleftrightarrow> lists_ok c \<and> refs_ok held c \<and> usage_ok c \<and> lru_table.agrees (cache_table c) (cached_ids c)"

lemma lists_ok_members:
  assumes "lists_ok c"
  shows "set (lru c) \<union> set (in_use c) = {a. cached_ids c a \<noteq> None}"
    and "set (lru c) \<inter> set (in_use c) = {}"
  using assms by (auto simp: lists_ok_def cached_ids_def split: option.splits if_splits)

lemmas list_op_defs = upd_handle_def LRU_Remove_def LRU_Append_lru_def LRU_Append_in_use_def Let_def

lemma lru_Ref_inv:
  assumes inv: "lru_inv held c" and h: "handles c e = Some h"
  shows "lru_inv (held(e := held e + 1)) (Ref e c)"
proof -
  let ?c = "Ref e c"
  have hd: "handles ?c = (handles c)(e \<mapsto> h\<lparr>h_refs := h_refs h + 1\<rparr>)"
    and tab: "cache_table ?c = cache_table c" "usage ?c = usage c"
    by (simp_all add: Ref_def h list_op_defs)
  have ids: "cached_ids ?c = cached_ids c" "charge_of ?c = charge_of c"
    by (auto simp: fun_eq_iff cached_ids_def charge_of_def hd h)
  have lo: "lists_ok c" and ro: "refs_ok held c" using inv by (simp_all add: lru_inv_def)
  have pos: "0 < h_refs h" using refs_okD [OF ro h] by blast
  have ls: "lru ?c = remove1 e (lru c)"
    "in_use ?c = (if h_refs h = 1 \<and> h_in_cache h then in_use c @ [e] else in_use c)"
    using lo h by (auto simp: Ref_def list_op_defs lists_ok_def remove1_idem)
  have lists: "lists_ok ?c"
    using lo pos h unfolding lists_ok_def ls by (auto simp: hd)
  have "refs_ok (held(e := held e + 1)) ?c"
    using refs_okD [OF ro h] by (intro refs_ok_update [OF ro hd]) simp
  moreover have "usage_ok ?c"
    using inv unfolding usage_ok_def lru_inv_def lists_ok_members(1) [OF lists] lists_ok_members(1) [OF lo] ids tab by simp
  ultimately show ?thesis using inv lists by (simp add: lru_inv_def ids tab)
qed

lemma lru_Release_inv:
  assumes inv: "lru_inv held c" and held: "0 < held e"
  shows "lru_inv (held(e := held e - 1)) (LRUCache_Release e c)"
proof -
  let ?c = "LRUCache_Release e c"
  have lo: "lists_ok c" and ro: "refs_ok held c" using inv by (simp_all add: lru_inv_def)
  obtain h where h: "handles c e = Some h" "h_refs h = held e + (if h_in_cache h then 1 else 0)"
    using refs_okD [OF ro] ro held unfolding refs_ok_def by (metis neq0_conv option.exhaust ref_ok.simps(1))
  have hd: "handles ?c = (handles c)(e := if h_refs h = 1 then None else Some (h\<lparr>h_refs := h_refs h - 1\<rparr>))"
    and tab: "cache_table ?c = cache_table c" "usage ?c = usage c"
    using held h(2) by (auto simp: LRUCache_Release_def Unref_def h(1) list_op_defs)
  have one: "h_refs h = 1 \<Longrightarrow> \<not> h_in_cache h" using h held by (auto split: if_splits)
  have ids: "cached_ids ?c = cached_ids c" "charge_of ?c = charge_of c"
    using one by (auto simp: fun_eq_iff cached_ids_def charge_of_def hd h(1))
  have ls: "lru ?c = (if h_refs h = 2 \<and> h_in_cache h then lru c @ [e] else lru c)"
    "in_use ?c = (if h_refs h = 2 \<and> h_in_cache h then remove1 e (in_use c) else in_use c)"
    using lo h held one by (auto simp: LRUCache_Release_def Unref_def list_op_defs lists_ok_def remove1_idem)
  have lists: "lists_ok ?c"
    using lo h held one unfolding lists_ok_def ls by (auto simp: hd)
  have "refs_ok (held(e := held e - 1)) ?c"
    using h held one by (intro refs_ok_update [OF ro hd]) auto
  moreover have "usage_ok ?c"
    using inv unfolding usage_ok_def lru_inv_def lists_ok_members(1) [OF lists] lists_ok_members(1) [OF lo] ids tab by simp
  ultimately show ?thesis using inv lists by (simp add: lru_inv_def ids tab)
qed

text \<open>Dropping a handle from the cache that the hash table has forgotten already.\<close>

lemma lru_FinishErase_inv:
  assumes lo: "lists_ok c" and ro: "refs_ok held c" and us: "usage_ok c"
    and h: "handles c e = Some h" "h_in_cache h"
    and tab: "lru_table.agrees (cache_table c) ((cached_ids c)(e := None))"
  defines "c' \<equiv> snd (FinishErase (Some e) c)"
  shows "lru_inv held c'" "lru c' = remove1 e (lru c)" "in_use c' = remove1 e (in_use c)"
    "capacity c' = capacity c" "\<And>a. a \<noteq> e \<Longrightarrow> handles c' a = handles c a" "cached_ids c' = (cached_ids c)(e := None)"
proof -
  have pos: "0 < h_refs h" using refs_okD [OF ro h(1)] by blast
  have hd: "handles c' = (handles c)(e := if h_refs h = 1 then None else Some (h\<lparr>h_in_cache := False, h_refs := h_refs h - 1\<rparr>))"
    and ta: "cache_table c' = cache_table c" "usage c' = usage c - h_charge h"
    and ls: "lru c' = remove1 e (lru c)" "in_use c' = remove1 e (in_use c)" "capacity c' = capacity c"
    using pos by (auto simp: c'_def FinishErase_def Unref_def h(1) list_op_defs)
  have ids: "cached_ids c' = (cached_ids c)(e := None)" "charge_of c' = (charge_of c)(e := 0)"
    by (auto simp: fun_eq_iff cached_ids_def charge_of_def hd)
  have lists: "lists_ok c'" using lo unfolding lists_ok_def ls by (auto simp: hd)
  have "refs_ok held c'"
    using refs_okD [OF ro h(1)] h(2) refs_ok_update [OF ro hd, of "held e"] by simp
  moreover have "usage_ok c'"
  proof -
    let ?S = "set (lru c) \<union> set (in_use c)"
    have "e \<in> ?S" using h by (simp add: lists_ok_members(1) [OF lo] cached_ids_def)
    then have "(\<Sum>a \<in> ?S. charge_of c a) = charge_of c e + (\<Sum>a \<in> ?S - {e}. charge_of c a)"
      by (simp add: sum.remove)
    moreover have "set (lru c') \<union> set (in_use c') = ?S - {e}"
      unfolding lists_ok_members(1) [OF lists] lists_ok_members(1) [OF lo] ids by auto
    moreover have "charge_of c e = h_charge h" using h by (simp add: charge_of_def)
    moreover have "(\<Sum>a \<in> ?S - {e}. charge_of c' a) = (\<Sum>a \<in> ?S - {e}. charge_of c a)"
      by (rule sum.cong) (auto simp: ids)
    ultimately show ?thesis using us by (simp add: usage_ok_def ta)
  qed
  ultimately show "lru_inv held c'" using lists tab by (simp add: lru_inv_def ids ta)
  show "lru c' = remove1 e (lru c)" "in_use c' = remove1 e (in_use c)" "capacity c' = capacity c"
    "\<And>a. a \<noteq> e \<Longrightarrow> handles c' a = handles c a" "cached_ids c' = (cached_ids c)(e := None)"
    by (simp_all add: ls hd ids)
qed

lemma FinishErase_fst: "fst (FinishErase r c) \<longleftrightarrow> r \<noteq> None"
  by (simp add: FinishErase_def Let_def split: option.splits)

lemma lru_remove_and_finish:
  assumes inv: "lru_inv held c"
  shows "lru_inv held (snd (remove_and_finish key hash c))"
    and "handles c e = Some h \<Longrightarrow> h_in_cache h \<Longrightarrow> h_key h = key \<Longrightarrow> h_hash h = hash \<Longrightarrow>
      fst (remove_and_finish key hash c) \<and> lru (snd (remove_and_finish key hash c)) = remove1 e (lru c) \<and>
      in_use (snd (remove_and_finish key hash c)) = remove1 e (in_use c) \<and>
      capacity (snd (remove_and_finish key hash c)) = capacity c \<and>
      (\<forall>a. a \<noteq> e \<longrightarrow> handles (snd (remove_and_finish key hash c)) a = handles c a)"
proof -
  let ?R = "HandleTable_Remove key hash (cache_table c)"
  let ?c1 = "c\<lparr>cache_table := snd ?R\<rparr>"
  have ag: "lru_table.agrees (cache_table c) (cached_ids c)" using inv by (simp add: lru_inv_def)
  have rf: "remove_and_finish key hash c = FinishErase (fst ?R) ?c1"
    by (simp add: remove_and_finish_def split_beta)
  have fr: "fst ?R = Some a \<longleftrightarrow> cached_ids c a = Some (hash, key)" for a
    by (rule lru_table.remove_agrees(2) [OF ag])
  have same: "lists_ok ?c1" "refs_ok held ?c1" "usage_ok ?c1" "cached_ids ?c1 = cached_ids c"
    using inv by (simp_all add: lru_inv_def lists_ok_def refs_ok_def usage_ok_def cached_ids_def charge_of_def fun_eq_iff)
  have drop: "lru_table.agrees (snd ?R) ((cached_ids c)(a := None))" if "cached_ids c a = Some (hash, key)" for a
  proof -
    have iff: "cached_ids c b = Some (hash, key) \<longleftrightarrow> b = a" for b
      using that lru_table.agrees_unique [OF ag that] by metis
    have eq: "(cached_ids c)(a := None) = (\<lambda>a. if cached_ids c a = Some (hash, key) then None else cached_ids c a)"
    proof
      fix b
      show "((cached_ids c)(a := None)) b = (if cached_ids c b = Some (hash, key) then None else cached_ids c b)"
        by (simp add: iff)
    qed
    show ?thesis unfolding eq by (rule lru_table.remove_agrees(1) [OF ag])
  qed
  note erase = lru_FinishErase_inv [OF same(1-3)]
  have hit: "lru_inv held (snd (FinishErase (Some a) ?c1))" if "fst ?R = Some a" for a
  proof -
    have a: "cached_ids c a = Some (hash, key)" using that fr by simp
    then obtain g where "handles ?c1 a = Some g" "h_in_cache g"
      by (auto simp: cached_ids_def split: option.splits if_splits)
    then show ?thesis using erase(1) drop [OF a] same(4) by simp
  qed
  have "lru_inv held ?c1" if "fst ?R = None"
  proof -
    have eq: "(\<lambda>a. if cached_ids c a = Some (hash, key) then None else cached_ids c a) = cached_ids c"
      using fr that by (auto simp: fun_eq_iff)
    have "lru_table.agrees (snd ?R) (cached_ids c)"
      using lru_table.remove_agrees(1) [OF ag, of key hash] unfolding eq by (simp only:)
    with same show ?thesis by (simp add: lru_inv_def)
  qed
  with hit show "lru_inv held (snd (remove_and_finish key hash c))"
    unfolding rf by (cases "fst ?R") (simp_all add: FinishErase_def)
  assume h: "handles c e = Some h" "h_in_cache h" "h_key h = key" "h_hash h = hash"
  then have e: "cached_ids c e = Some (hash, key)" by (simp add: cached_ids_def)
  then have "fst ?R = Some e" using fr by blast
  with erase [of e h] h drop [OF e] same(4) show
    "fst (remove_and_finish key hash c) \<and> lru (snd (remove_and_finish key hash c)) = remove1 e (lru c) \<and>
      in_use (snd (remove_and_finish key hash c)) = remove1 e (in_use c) \<and>
      capacity (snd (remove_and_finish key hash c)) = capacity c \<and>
      (\<forall>a. a \<noteq> e \<longrightarrow> handles (snd (remove_and_finish key hash c)) a = handles c a)"
    unfolding rf by (simp add: FinishErase_fst)
qed

lemma lru_erase_oldest:
  assumes "lru_inv held c" "lru c = e # es"
  shows "\<exists>c'. erase_oldest c = (True, c') \<and> lru_inv held c' \<and> lru c' = es \<and> in_use c' = in_use c \<and>
     capacity c' = capacity c \<and> (\<forall>a. a \<noteq> e \<longrightarrow> handles c' a = handles c a)"
proof -
  have lo: "lists_ok c" using assms(1) by (simp add: lru_inv_def)
  then obtain h where h: "handles c e = Some h" "h_in_cache h" "h_refs h = 1"
    using assms(2) unfolding lists_ok_def by (metis list.set_intros(1))
  have "e \<notin> set (in_use c)" using lo h by (auto simp: lists_ok_def)
  moreover have "erase_oldest c = remove_and_finish (h_key h) (h_hash h) c"
    by (simp add: erase_oldest_def assms(2) h(1) Let_def)
  ultimately show ?thesis
    using lru_remove_and_finish(1) [OF assms(1), where key = "h_key h" and hash = "h_hash h"]
      lru_remove_and_finish(2) [OF assms(1) h(1,2) refl refl] assms(2)
    by (intro exI [of _ "snd (erase_oldest c)"]) (simp add: remove1_idem prod_eq_iff)
qed

text \<open>Both loops end; \<open>evict\<close> stops as soon as the charges fit.\<close>

lemma lru_evict:
  assumes "lru_inv held c"
  shows "\<exists>c'. evict c = Some c' \<and> lru_inv held c' \<and> capacity c' = capacity c \<and>
     (usage c' \<le> capacity c' \<or> lru c' = []) \<and> in_use c' = in_use c \<and>
     (\<exists>k. lru c' = drop k (lru c) \<and> (\<forall>a. a \<notin> set (take k (lru c)) \<longrightarrow> handles c' a = handles c a))"
  using assms
proof (induction "lru c" arbitrary: c)
  case Nil
  then show ?case by (intro exI [of _ c] conjI exI [of _ 0]) (simp_all add: evict.simps)
next
  case (Cons e es)
  show ?case
  proof (cases "usage c > capacity c")
    case True
    obtain c1 where c1: "erase_oldest c = (True, c1)" "lru_inv held c1" "lru c1 = es" "in_use c1 = in_use c"
      "capacity c1 = capacity c" "\<forall>a. a \<noteq> e \<longrightarrow> handles c1 a = handles c a"
      using lru_erase_oldest [OF Cons.prems, of e es] Cons.hyps(2) by auto
    have "evict c = evict c1" using True c1(1) Cons.hyps(2) [symmetric] by (subst evict.simps) simp
    moreover obtain c' k where "evict c1 = Some c'" "lru_inv held c'" "capacity c' = capacity c1"
      "usage c' \<le> capacity c' \<or> lru c' = []" "in_use c' = in_use c1" "lru c' = drop k (lru c1)"
      "\<forall>a. a \<notin> set (take k (lru c1)) \<longrightarrow> handles c' a = handles c1 a"
      using Cons.hyps(1) [OF c1(3) [symmetric] c1(2)] by blast
    ultimately show ?thesis
      using c1 Cons.hyps(2) [symmetric] by (intro exI [of _ c'] conjI exI [of _ "Suc k"]) simp_all
  next
    case False
    then show ?thesis
      using Cons.prems by (intro exI [of _ c] conjI exI [of _ 0]) (simp_all add: evict.simps)
  qed
qed

lemma evict_fits: "usage c \<le> capacity c \<Longrightarrow> evict c = Some c"
  by (subst evict.simps) simp

lemma lru_Prune:
  assumes "lru_inv held c"
  shows "\<exists>c'. LRUCache_Prune c = Some c' \<and> lru_inv held c' \<and> capacity c' = capacity c \<and> lru c' = [] \<and> in_use c' = in_use c"
  using assms
proof (induction "lru c" arbitrary: c)
  case Nil
  then show ?case by (simp add: LRUCache_Prune.simps)
next
  case (Cons e es)
  obtain c1 where c1: "erase_oldest c = (True, c1)" "lru_inv held c1" "lru c1 = es" "in_use c1 = in_use c"
    "capacity c1 = capacity c"
    using lru_erase_oldest [OF Cons.prems, of e es] Cons.hyps(2) by auto
  have "LRUCache_Prune c = LRUCache_Prune c1"
    using c1(1) Cons.hyps(2) [symmetric] by (subst LRUCache_Prune.simps) simp
  with Cons.hyps(1) [OF c1(3) [symmetric] c1(2)] c1 show ?case by simp
qed

subsection \<open>Insert\<close>

lemma lru_Insert:
  assumes inv: "lru_inv held c" and e: "handles c e = None" and room: "ht_elems (cache_table c) < 2 ^ 31"
  shows "\<exists>c'. LRUCache_Insert e key hash value charge c = Some c' \<and> lru_inv (held(e := 1)) c' \<and>
     capacity c' = capacity c \<and> (usage c' \<le> capacity c' \<or> lru c' = []) \<and>
     (0 < capacity c \<longrightarrow> HandleTable_Lookup key hash (cache_table c') = Some e)"
proof -
  let ?h = "\<lparr>h_key = key, h_hash = hash, h_value = value, h_charge = charge, h_in_cache = False, h_refs = Suc 0\<rparr>"
  have lo: "lists_ok c" and ro: "refs_ok held c" and us: "usage_ok c"
    and ag: "lru_table.agrees (cache_table c) (cached_ids c)" using inv by (simp_all add: lru_inv_def)
  have out: "e \<notin> set (lru c)" "e \<notin> set (in_use c)" "cached_ids c e = None"
    using lo e by (auto simp: lists_ok_def cached_ids_def)
  show ?thesis
  proof (cases "0 < capacity c")
    case False
    let ?c0 = "c\<lparr>handles := (handles c)(e \<mapsto> ?h)\<rparr>"
    have ids: "cached_ids ?c0 = cached_ids c" "charge_of ?c0 = charge_of c"
      using e by (auto simp: fun_eq_iff cached_ids_def charge_of_def)
    have "lists_ok ?c0" using lo e by (auto simp: lists_ok_def)
    moreover have "refs_ok (held(e := 1)) ?c0" by (rule refs_ok_update [OF ro, of _ e "Some ?h"]) simp_all
    moreover have "usage_ok ?c0" using us by (simp add: usage_ok_def ids)
    ultimately have "lru_inv (held(e := 1)) ?c0" using ag by (simp add: lru_inv_def ids)
    from lru_evict [OF this] False show ?thesis by (auto simp: LRUCache_Insert_def Let_def)
  next
    case True
    let ?h2 = "\<lparr>h_key = key, h_hash = hash, h_value = value, h_charge = charge, h_in_cache = True, h_refs = 2\<rparr>"
    let ?I = "HandleTable_Insert 4 (hash, key, e) (cache_table c)"
    let ?c3 = "c\<lparr>handles := (handles c)(e \<mapsto> ?h2), in_use := in_use c @ [e], usage := usage c + charge,
        cache_table := snd ?I\<rparr>"
    have ids: "cached_ids ?c3 = (cached_ids c)(e \<mapsto> (hash, key))" "charge_of ?c3 = (charge_of c)(e := charge)"
      by (auto simp: fun_eq_iff cached_ids_def charge_of_def)
    have l3: "lists_ok ?c3" using lo e out by (auto simp: lists_ok_def)
    have r3: "refs_ok (held(e := 1)) ?c3" by (rule refs_ok_update [OF ro, of _ e "Some ?h2"]) simp_all
    have u3: "usage_ok ?c3"
    proof -
      let ?S = "set (lru c) \<union> set (in_use c)"
      have "(\<Sum>a \<in> insert e ?S. charge_of ?c3 a) = charge + (\<Sum>a \<in> ?S. charge_of ?c3 a)"
        using out by (simp add: ids)
      moreover have "(\<Sum>a \<in> ?S. charge_of ?c3 a) = (\<Sum>a \<in> ?S. charge_of c a)"
        by (rule sum.cong) (use out ids in auto)
      ultimately show ?thesis using us by (simp add: usage_ok_def)
    qed
    have fi: "fst ?I = Some b \<longleftrightarrow> cached_ids c b = Some (hash, key)" for b
      by (rule lru_table.insert_agrees(2) [OF ag room out(3)])
    have agI: "lru_table.agrees (snd ?I) (\<lambda>b. if b = e then Some (hash, key)
        else if cached_ids c b = Some (hash, key) then None else cached_ids c b)"
      by (rule lru_table.insert_agrees(1) [OF ag room out(3)])
    let ?c4 = "snd (FinishErase (fst ?I) ?c3)"
    have c4: "lru_inv (held(e := 1)) ?c4 \<and> capacity ?c4 = capacity c \<and> cached_ids ?c4 e = Some (hash, key) \<and>
        e \<notin> set (lru ?c4) \<and> e \<in> set (in_use ?c4)"
    proof (cases "fst ?I")
      case None
      have "(\<lambda>b. if b = e then Some (hash, key) else if cached_ids c b = Some (hash, key) then None else cached_ids c b)
          = (cached_ids c)(e \<mapsto> (hash, key))" using None fi by (auto simp: fun_eq_iff)
      with agI l3 r3 u3 None out show ?thesis by (simp add: FinishErase_def lru_inv_def ids)
    next
      case (Some b)
      then have b: "cached_ids c b = Some (hash, key)" using fi by simp
      then have be: "b \<noteq> e" using out by auto
      obtain g where g: "handles ?c3 b = Some g" "h_in_cache g"
        using b be by (auto simp: cached_ids_def split: option.splits if_splits)
      have iff: "cached_ids c a = Some (hash, key) \<longleftrightarrow> a = b" for a
        using b lru_table.agrees_unique [OF ag b] by metis
      have eq: "(cached_ids ?c3)(b := None) = (\<lambda>b. if b = e then Some (hash, key)
          else if cached_ids c b = Some (hash, key) then None else cached_ids c b)"
        unfolding ids iff using be by (auto simp: fun_eq_iff)
      have "lru_table.agrees (cache_table ?c3) ((cached_ids ?c3)(b := None))" unfolding eq using agI by simp
      note F = lru_FinishErase_inv [OF l3 r3 u3 g this]
      then show ?thesis using be out ids unfolding Some by simp
    qed
    have ins: "LRUCache_Insert e key hash value charge c = evict ?c4"
      using True e by (simp add: LRUCache_Insert_def list_op_defs split_beta numeral_2_eq_2)
    obtain c' k where c': "evict ?c4 = Some c'" "lru_inv (held(e := 1)) c'" "capacity c' = capacity ?c4"
      "usage c' \<le> capacity c' \<or> lru c' = []" "in_use c' = in_use ?c4" "lru c' = drop k (lru ?c4)"
      "\<forall>a. a \<notin> set (take k (lru ?c4)) \<longrightarrow> handles c' a = handles ?c4 a"
      using lru_evict c4 by blast
    have "e \<notin> set (take k (lru ?c4))" using c4 by (meson in_set_takeD)
    then have "cached_ids c' e = Some (hash, key)" using c' c4 by (simp add: cached_ids_def)
    then have "HandleTable_Lookup key hash (cache_table c') = Some e"
      using c'(2) by (simp add: lru_inv_def indexes_def)
    with ins c' c4 show ?thesis by auto
  qed
qed

subsection \<open>Any use of the cache\<close>

inductive lru_run :: "nat \<Rightarrow> (addr \<Rightarrow> nat) \<Rightarrow> LRUCache \<Rightarrow> bool" for cap where
  start: "lru_run cap (\<lambda>_. 0) (new_LRUCache cap)"
| insert: "lru_run cap held c \<Longrightarrow> handles c e = None \<Longrightarrow> ht_elems (cache_table c) < 2 ^ 31 \<Longrightarrow>
     LRUCache_Insert e key hash value charge c = Some c' \<Longrightarrow> lru_run cap (held(e := 1)) c'"
| lookup: "lru_run cap held c \<Longrightarrow> LRUCache_Lookup key hash c = (Some e, c') \<Longrightarrow>
     lru_run cap (held(e := held e + 1)) c'"
| release: "lru_run cap held c \<Longrightarrow> 0 < held e \<Longrightarrow> lru_run cap (held(e := held e - 1)) (LRUCache_Release e c)"
| erase: "lru_run cap held c \<Longrightarrow> lru_run cap held (LRUCache_Erase key hash c)"
| prune: "lru_run cap held c \<Longrightarrow> LRUCache_Prune c = Some c' \<Longrightarrow> lru_run cap held c'"

inductive_cases lru_runE: "lru_run cap held c"

lemma lru_new_inv: "lru_inv (\<lambda>_. 0) (new_LRUCache cap)"
proof -
  have nt: "ht_inv (new_HandleTable 4)" "nodes (new_HandleTable 4) = {}"
    using new_HandleTable_correct [of 4 2] by simp_all
  have "HandleTable_Lookup key hash (new_HandleTable 4) = None" for key hash
    by (simp add: Lookup_None [OF nt(1)] nt(2))
  with nt(1) show ?thesis
    by (simp add: new_LRUCache_def lru_inv_def lists_ok_def refs_ok_def usage_ok_def cached_ids_def indexes_def)
qed

lemma lru_Lookup_handle:
  assumes "lru_inv held c" "HandleTable_Lookup key hash (cache_table c) = Some e"
  shows "\<exists>h. handles c e = Some h \<and> h_in_cache h \<and> h_key h = key \<and> h_hash h = hash"
proof -
  have "cached_ids c e = Some (hash, key)" using assms by (simp add: lru_inv_def indexes_def)
  then show ?thesis by (auto simp: cached_ids_def split: option.splits if_splits)
qed

lemma lru_run_inv: "lru_run cap held c \<Longrightarrow> lru_inv held c"
proof (induction rule: lru_run.induct)
  case start
  show ?case by (rule lru_new_inv)
next
  case (insert held c e key hash v charge c')
  then show ?case using lru_Insert [OF insert.IH insert.hyps(2,3), of key hash v charge] by (metis option.inject)
next
  case (lookup held c key hash e c')
  then have "HandleTable_Lookup key hash (cache_table c) = Some e" "c' = Ref e c"
    by (auto simp: LRUCache_Lookup_def split: option.splits)
  with lru_Lookup_handle [OF lookup.IH] obtain h where "handles c e = Some h" "c' = Ref e c" by blast
  with lru_Ref_inv [OF lookup.IH] show ?case by (metis Suc_eq_plus1)
next
  case (release held c e)
  then show ?case using lru_Release_inv by blast
next
  case (erase held c key hash)
  then show ?case unfolding LRUCache_Erase_def using lru_remove_and_finish(1) by blast
next
  case (prune held c c')
  then show ?case using lru_Prune by fastforce
qed



text \<open>
  C22. \<open>Insert\<close> always returns. Then the charges fit into the capacity or every cached handle is
  held by a client, and with a positive capacity a lookup of the key finds the new handle.
\<close>

theorem LRUCache_Insert_returns:
  assumes "lru_run cap held c" "handles c e = None" "ht_elems (cache_table c) < 2 ^ 31"
  shows "\<exists>c'. LRUCache_Insert e key hash value charge c = Some c' \<and>
     (usage c' \<le> capacity c' \<or> lru c' = []) \<and>
     (0 < capacity c \<longrightarrow> fst (LRUCache_Lookup key hash c') = Some e)"
  using lru_Insert [OF lru_run_inv [OF assms(1)] assms(2,3), of key hash "value" charge]
  by (auto simp: LRUCache_Lookup_def)

lemma Shard_less: "Shard hash < kNumShards"
  using unsigned_less [of hash, where 'a = nat]
  by (simp add: Shard_def kNumShards_def kNumShardBits_def unat_drop_bit_div)

text \<open>
  C23. The sharded block cache finds what was inserted: if every shard has come about by
  operations of the cache, an insertion returns, touches one of the sixteen shards only, and
  with a positive capacity the next lookup of the key yields the new handle.
\<close>

theorem Sharded_Insert_Lookup:
  assumes "length (shards c) = kNumShards" "\<forall>i < kNumShards. \<exists>held. lru_run cap held (shards c ! i)" "0 < cap"
    and "\<forall>sh \<in> set (shards c). handles sh e = None \<and> ht_elems (cache_table sh) < 2 ^ 31 \<and> capacity sh = cap"
  shows "\<exists>c' i. Sharded_Insert e key v charge c = Some c' \<and> fst (Sharded_Lookup key c') = Some e \<and>
     i < kNumShards \<and> (\<forall>j. j \<noteq> i \<longrightarrow> shards c' ! j = shards c ! j)"
proof -
  let ?hash = "HashSlice key" and ?i = "Shard (HashSlice key)"
  have i: "?i < length (shards c)" using Shard_less assms(1) by simp
  then have sh: "handles (shards c ! ?i) e = None" "ht_elems (cache_table (shards c ! ?i)) < 2 ^ 31"
    "capacity (shards c ! ?i) = cap" using assms(4) by simp_all
  obtain held where "lru_run cap held (shards c ! ?i)" using assms(1,2) i by auto
  from lru_Insert [OF lru_run_inv [OF this] sh(1,2), of key ?hash v charge] sh(3) assms(3)
  obtain s' where s': "LRUCache_Insert e key ?hash v charge (shards c ! ?i) = Some s'"
    "HandleTable_Lookup key ?hash (cache_table s') = Some e" by auto
  then show ?thesis
    using i assms(1) by (intro exI [of _ "c\<lparr>shards := (shards c)[?i := s']\<rparr>"] exI [of _ ?i])
      (simp add: Sharded_Insert_def Sharded_Lookup_def LRUCache_Lookup_def Let_def)
qed

theorem Sharded_Insert_Lookup_witness:
  "\<exists>c'. Sharded_Insert 0 [1] 10 3 (new_ShardedLRUCache 64) = Some c' \<and> fst (Sharded_Lookup [1] c') = Some 0"
proof -
  let ?c = "new_ShardedLRUCache 64"
  have "\<forall>i < kNumShards. \<exists>held. lru_run 4 held (shards ?c ! i)"
    using lru_run.start [of 4] by (auto simp: new_ShardedLRUCache_def kNumShards_def kNumShardBits_def)
  moreover have "\<forall>sh \<in> set (shards ?c). handles sh 0 = None \<and> ht_elems (cache_table sh) < 2 ^ 31 \<and> capacity sh = 4"
    using new_HandleTable_correct [of 4 2]
    by (simp add: new_ShardedLRUCache_def kNumShards_def kNumShardBits_def new_LRUCache_def)
  ultimately show ?thesis
    using Sharded_Insert_Lookup [of ?c 4 0 "[1]" 10 3] by (auto simp: new_ShardedLRUCache_def)
qed

text \<open>A small cache in which the second insertion evicts the first entry.\<close>

definition lru_example :: "LRUCache option" where
  "lru_example = Option.bind (LRUCache_Insert 0 [1] 7 10 3 (new_LRUCache 4)) (\<lambda>c.
     Some (LRUCache_Release 0 c))"

lemma lru_example_run: "\<exists>c. lru_example = Some c \<and> lru_run 4 (\<lambda>_. 0) c \<and> handles c 1 = None \<and>
    ht_elems (cache_table c) < 2 ^ 31 \<and> capacity c = 4"
proof -
  have nt: "ht_elems (new_HandleTable 4) = 0" using new_HandleTable_correct [of 4 2] by simp
  let ?c0 = "new_LRUCache 4"
  have 0: "handles ?c0 0 = None" "ht_elems (cache_table ?c0) < 2 ^ 31" "capacity ?c0 = 4"
    by (simp_all add: new_LRUCache_def nt)
  have "\<exists>c. LRUCache_Insert 0 [1] 7 10 3 ?c0 = Some c \<and> handles c 1 = None \<and> ht_elems (cache_table c) < 2 ^ 31 \<and> capacity c = 4"
  proof -
    have look: "HandleTable_Lookup [1] 7 (new_HandleTable 4) = None"
      using new_HandleTable_correct [of 4 2] Lookup_None [of "new_HandleTable 4"] by simp
    let ?I = "HandleTable_Insert 4 (7, [1], 0) (new_HandleTable 4)"
    have N: "ht_inv (new_HandleTable 4)" "ht_elems (new_HandleTable 4) < 2 ^ 31"
      using new_HandleTable_correct(1) [of 4 2] nt by simp_all
    have "fst ?I = None" "ht_elems (snd ?I) = 1"
      by (simp_all only: lru_table.insert_old [OF N] lru_table.insert_count [OF N] look nt) simp
    moreover have "LRUCache_Insert 0 [1] 7 10 3 ?c0 = evict (snd (FinishErase (fst ?I) \<lparr>capacity = 4, usage = 3,
        lru = [], in_use = [0], cache_table = snd ?I,
        handles = (\<lambda>_. None)(0 \<mapsto> \<lparr>h_key = [1], h_hash = 7, h_value = 10, h_charge = 3, h_in_cache = True, h_refs = 2\<rparr>),
        deleted = []\<rparr>))"
      unfolding LRUCache_Insert_def new_LRUCache_def list_op_defs by (simp add: split_beta numeral_2_eq_2)
    ultimately show ?thesis by (simp add: FinishErase_def evict_fits)
  qed
  then obtain c where c: "LRUCache_Insert 0 [1] 7 10 3 ?c0 = Some c" "handles c 1 = None"
    "ht_elems (cache_table c) < 2 ^ 31" "capacity c = 4" by blast
  have "lru_run 4 ((\<lambda>_. 0)(0 := 1)) c" by (rule lru_run.insert [OF lru_run.start 0(1,2) c(1)])
  from lru_run.release [OF this, of 0]
  have "lru_run 4 ((\<lambda>_. 0)(0 := 1, 0 := 0)) (LRUCache_Release 0 c)" by (simp del: fun_upd_upd)
  moreover have "(\<lambda>_. 0)(0 := 1, 0 := 0) = (\<lambda>_ :: addr. 0 :: nat)" by auto
  ultimately have "lru_run 4 (\<lambda>_. 0) (LRUCache_Release 0 c)" by metis
  with c show ?thesis by (auto simp: lru_example_def LRUCache_Release_def Unref_def list_op_defs)
qed


theorem LRUCache_Insert_returns_witness:
  "\<exists>c c'. lru_example = Some c \<and> LRUCache_Insert 1 [2] 9 11 4 c = Some c' \<and>
     (usage c' \<le> capacity c' \<or> lru c' = []) \<and> fst (LRUCache_Lookup [2] 9 c') = Some 1"
proof -
  obtain c where "lru_example = Some c" "lru_run 4 (\<lambda>_. 0) c" "handles c 1 = None"
    "ht_elems (cache_table c) < 2 ^ 31" "capacity c = 4" using lru_example_run by blast
  with LRUCache_Insert_returns [of 4 "\<lambda>_. 0" c 1 "[2]" 9 11 4] show ?thesis by auto
qed


end
