(* ===== verification/MultiQueue.thy ===== *)
theory MultiQueue
  imports HandleTable Coding Complex_Main
begin

text \<open>
  The multi-queue cache of table regions (util/multi_queue.cc), which decides how many filters
  every region of every open table keeps in memory. Queue \<open>i\<close> holds the idle regions with \<open>i\<close>
  loaded filters, in LRU order. The handles are known by their addresses as in the block cache;
  the circular lists are lists of addresses, oldest first.

  The operations of the tables that the multi-queue calls are a parameter (\<open>table_ops\<close>), and
  \<open>mq_tables\<close> is their state. \<open>None\<close> as the result of an operation means that it does not
  return: a table operation ended the process, a null pointer was followed, or a loop never ends.
  \<open>double\<close> is modelled by \<open>real\<close>; no property below depends on the rounding. The mutex, the
  time measurements and the output to the console are left out.
\<close>

subsection \<open>State\<close>

record 't table_ops =
  t_curr :: "nat \<Rightarrow> 't \<Rightarrow> nat"
  t_size :: "nat \<Rightarrow> 't \<Rightarrow> nat"
  t_adjust :: "nat \<Rightarrow> nat \<Rightarrow> 't \<Rightarrow> (nat \<times> 't) option"
  t_remove :: "nat \<Rightarrow> nat \<Rightarrow> 't \<Rightarrow> (nat \<times> 't) option"
  t_real_size :: bool

text \<open>\<open>value_id\<close> is the number of the region plus one, and 0 for the handle of a whole table.\<close>

record LRUQueueHandle =
  q_key :: slice
  q_hash :: u32
  q_value :: nat
  q_charge :: u64
  q_in_cache :: bool
  q_refs :: nat
  q_fre_count :: u64
  q_expire_time :: u64
  q_queue_id :: nat
  q_type :: bool
  q_value_id :: nat
  q_value_refs :: nat
  q_table_handle :: "addr option"
  q_prev_region :: "addr option"
  q_next_region :: "addr option"

text \<open>\<open>mq_head_charge\<close> is the charge in the dummy head of queue 1, which nothing initialises.\<close>

record 't MultiQueue =
  mq_lrus_num :: nat
  mq_in_use :: "addr list"
  mq_lrus :: "addr list list"
  mq_lru_lens :: "nat list"
  mq_sum_freqs :: "u64 list"
  mq_sum_lru_len :: nat
  mq_table :: HandleTable
  mq_capacity :: u64
  mq_usage :: u64
  mq_current_time :: u64
  mq_life_time :: u64
  mq_expection :: real
  mq_change_ratio :: real
  mq_fps :: "real list"
  mq_bits :: "u64 list"
  mq_bits_sum :: "u64 list"
  mq_init :: bool
  mq_need_adjust :: bool
  mq_insert_count :: nat
  mq_last_id :: u64
  mq_head_charge :: u64
  mq_handles :: "addr \<Rightarrow> LRUQueueHandle option"
  mq_tables :: "nat \<Rightarrow> 't"
  mq_deleted :: "(slice \<times> nat) list"

text \<open>The array \<open>bits_per_key_per_filter_\<close> of the policy gives the tables of the constructor.\<close>

definition bits_sums :: "u64 list \<Rightarrow> u64 list" where
  "bits_sums bits = map (\<lambda>i. sum_list (take i bits)) [0..<length bits + 1]"

definition new_MultiQueue :: "u64 \<Rightarrow> nat \<Rightarrow> u64 \<Rightarrow> real \<Rightarrow> u64 list \<Rightarrow> u64 \<Rightarrow> (nat \<Rightarrow> 't) \<Rightarrow> 't MultiQueue" where
  "new_MultiQueue cap lrus_num life cr bits_per_key head_charge tables =
     (let bits = take (lrus_num - 1) bits_per_key
      in \<lparr>mq_lrus_num = lrus_num, mq_in_use = [], mq_lrus = replicate lrus_num [],
          mq_lru_lens = replicate lrus_num 0, mq_sum_freqs = replicate lrus_num 0, mq_sum_lru_len = 0,
          mq_table = new_HandleTable 131072, mq_capacity = cap, mq_usage = 0, mq_current_time = 0,
          mq_life_time = life, mq_expection = 0, mq_change_ratio = cr,
          mq_fps = map (\<lambda>s. (6185 / 10000) ^ unat s) (bits_sums bits),
          mq_bits = 0 # bits, mq_bits_sum = bits_sums bits,
          mq_init = True, mq_need_adjust = True, mq_insert_count = 0, mq_last_id = 0, mq_head_charge = head_charge,
          mq_handles = (\<lambda>_. None), mq_tables = tables, mq_deleted = []\<rparr>)"

subsection \<open>Handles, tables and lists\<close>

abbreviation qh :: "'t MultiQueue \<Rightarrow> addr \<Rightarrow> LRUQueueHandle" where
  "qh m a \<equiv> the (mq_handles m a)"

definition upd_q :: "addr \<Rightarrow> (LRUQueueHandle \<Rightarrow> LRUQueueHandle) \<Rightarrow> 't MultiQueue \<Rightarrow> 't MultiQueue" where
  "upd_q a f m = m\<lparr>mq_handles := (mq_handles m)(a := map_option f (mq_handles m a))\<rparr>"

text \<open>\<open>getCurrFilterNum(value_id - 1)\<close> is 0 for the handle of a table.\<close>

definition region_filters :: "'t table_ops \<Rightarrow> LRUQueueHandle \<Rightarrow> 't MultiQueue \<Rightarrow> nat" where
  "region_filters ops h m = (if q_value_id h = 0 then 0 else t_curr ops (q_value_id h - 1) (mq_tables m (q_value h)))"

definition FalsePositive :: "'t table_ops \<Rightarrow> LRUQueueHandle \<Rightarrow> 't MultiQueue \<Rightarrow> real" where
  "FalsePositive ops h m = mq_fps m ! region_filters ops h m"

definition call_table :: "(nat \<Rightarrow> 't \<Rightarrow> (nat \<times> 't) option) \<Rightarrow> LRUQueueHandle \<Rightarrow> 't MultiQueue \<Rightarrow> (u64 \<times> 't MultiQueue) option" where
  "call_table f h m =
     map_option (\<lambda>(delta, t). (of_nat delta, m\<lparr>mq_tables := (mq_tables m)(q_value h := t)\<rparr>))
       (f (q_value_id h - 1) (mq_tables m (q_value h)))"

definition LRU_Remove :: "addr \<Rightarrow> 't MultiQueue \<Rightarrow> 't MultiQueue" where
  "LRU_Remove e m = m\<lparr>mq_in_use := remove1 e (mq_in_use m), mq_lrus := map (remove1 e) (mq_lrus m)\<rparr>"

definition LRU_Append_in_use :: "addr \<Rightarrow> 't MultiQueue \<Rightarrow> 't MultiQueue" where
  "LRU_Append_in_use e m = m\<lparr>mq_in_use := mq_in_use m @ [e]\<rparr>"

definition LRU_Append_queue :: "nat \<Rightarrow> addr \<Rightarrow> 't MultiQueue \<Rightarrow> 't MultiQueue" where
  "LRU_Append_queue k e m =
     upd_q e (\<lambda>h. h\<lparr>q_queue_id := k\<rparr>) (m\<lparr>mq_lrus := (mq_lrus m)[k := mq_lrus m ! k @ [e]]\<rparr>)"

definition add_len :: "nat \<Rightarrow> 't MultiQueue \<Rightarrow> 't MultiQueue" where
  "add_len k m = m\<lparr>mq_lru_lens := (mq_lru_lens m)[k := mq_lru_lens m ! k + 1]\<rparr>"

definition sub_len :: "nat \<Rightarrow> 't MultiQueue \<Rightarrow> 't MultiQueue" where
  "sub_len k m = m\<lparr>mq_lru_lens := (mq_lru_lens m)[k := mq_lru_lens m ! k - 1]\<rparr>"

definition add_freq :: "nat \<Rightarrow> u64 \<Rightarrow> 't MultiQueue \<Rightarrow> 't MultiQueue" where
  "add_freq k f m = m\<lparr>mq_sum_freqs := (mq_sum_freqs m)[k := mq_sum_freqs m ! k + f]\<rparr>"

text \<open>The frequency a region gets when it is moved to queue \<open>k\<close>.\<close>

definition Num_Queue :: "nat \<Rightarrow> u64 \<Rightarrow> 't MultiQueue \<Rightarrow> u64" where
  "Num_Queue k fre_count m =
     (if mq_lrus m ! k = [] then drop_bit 1 fre_count
      else (q_fre_count (qh m (hd (mq_lrus m ! k))) + q_fre_count (qh m (last (mq_lrus m ! k)))) div 2)"

subsection \<open>Shrinking\<close>

text \<open>
  One region gives up a filter and moves from queue \<open>k\<close> to queue \<open>k - 1\<close> with a new frequency.
  The sums of frequencies are updated with the frequency that was just assigned.
\<close>

definition shrink_step :: "'t table_ops \<Rightarrow> nat \<Rightarrow> addr \<Rightarrow> 't MultiQueue \<Rightarrow> (u64 \<times> 't MultiQueue) option" where
  "shrink_step ops k old m =
     map_option (\<lambda>(delta, m).
       let m = upd_q old (\<lambda>h. h\<lparr>q_charge := q_charge h - delta\<rparr>) m;
           m = m\<lparr>mq_usage := mq_usage m - delta,
                 mq_expection := mq_expection m - real (unat (q_fre_count (qh m old))) * mq_fps m ! k\<rparr>;
           fre = Num_Queue (k - 1) (q_fre_count (qh m old)) m;
           m = upd_q old (\<lambda>h. h\<lparr>q_fre_count := fre\<rparr>) m;
           m = m\<lparr>mq_expection := mq_expection m + real (unat fre) * mq_fps m ! (k - 1)\<rparr>;
           m = LRU_Remove old (add_freq k (- fre) (sub_len k m));
           m = LRU_Append_queue (k - 1) old (add_freq (k - 1) fre (add_len (k - 1) m))
       in (delta, m))
     (call_table (t_remove ops 1) (qh m old) m)"

text \<open>The inner loop over the head of queue \<open>k\<close>: expired regions only.\<close>

fun shrink_queue :: "'t table_ops \<Rightarrow> nat \<Rightarrow> u64 \<Rightarrow> addr list \<Rightarrow> u64 \<Rightarrow> 't MultiQueue \<Rightarrow> (u64 \<times> 't MultiQueue) option" where
  "shrink_queue ops k remove_charge [] removed m = Some (removed, m)"
| "shrink_queue ops k remove_charge (old # rest) removed m =
     (if removed <s remove_charge \<and> q_refs (qh m old) = 1 \<and> q_expire_time (qh m old) < mq_current_time m then
        case shrink_step ops k old m of
          None \<Rightarrow> None
        | Some (delta, m') \<Rightarrow> shrink_queue ops k remove_charge rest (removed + delta) m'
      else Some (removed, m))"

fun shrink_levels :: "'t table_ops \<Rightarrow> nat \<Rightarrow> u64 \<Rightarrow> u64 \<Rightarrow> 't MultiQueue \<Rightarrow> (u64 \<times> 't MultiQueue) option" where
  "shrink_levels ops 0 remove_charge removed m = Some (removed, m)"
| "shrink_levels ops (Suc k) remove_charge removed m =
     (if mq_usage m > mq_capacity m then
        case shrink_queue ops (Suc k) remove_charge (mq_lrus m ! Suc k) removed m of
          None \<Rightarrow> None
        | Some (removed', m') \<Rightarrow> shrink_levels ops k remove_charge removed' m'
      else Some (removed, m))"

definition ShrinkLRU_expired :: "'t table_ops \<Rightarrow> nat \<Rightarrow> u64 \<Rightarrow> 't MultiQueue \<Rightarrow> (bool \<times> 't MultiQueue) option" where
  "ShrinkLRU_expired ops k remove_charge m =
     map_option (\<lambda>(removed, m). (\<not> removed <s remove_charge, m)) (shrink_levels ops k remove_charge 0 m)"

text \<open>The longest queue, the first of them; none if all are empty.\<close>

definition longest_queue :: "'t MultiQueue \<Rightarrow> nat option" where
  "longest_queue m =
     snd (fold (\<lambda>i (max_lens, max_i). if mq_lru_lens m ! i > max_lens then (mq_lru_lens m ! i, Some i) else (max_lens, max_i))
       [1..<mq_lrus_num m] (0, None))"

text \<open>With an empty queue and more to remove the program spins forever (\<open>while (i)\<close>).\<close>

fun force_queue :: "'t table_ops \<Rightarrow> nat \<Rightarrow> u64 \<Rightarrow> addr list \<Rightarrow> u64 \<Rightarrow> 't MultiQueue \<Rightarrow> 't MultiQueue option" where
  "force_queue ops k remove_charge [] removed m = (if removed <s remove_charge then None else Some m)"
| "force_queue ops k remove_charge (old # rest) removed m =
     (if removed <s remove_charge then
        case shrink_step ops k old m of
          None \<Rightarrow> None
        | Some (delta, m') \<Rightarrow> force_queue ops k remove_charge rest (removed + delta) m'
      else Some m)"

definition ShrinkLRU_force :: "'t table_ops \<Rightarrow> u64 \<Rightarrow> 't MultiQueue \<Rightarrow> 't MultiQueue option" where
  "ShrinkLRU_force ops remove_charge m =
     (case longest_queue m of
        None \<Rightarrow> Some m
      | Some k \<Rightarrow> force_queue ops k remove_charge (mq_lrus m ! k) 0 m)"

definition MayBeShrinkUsage :: "'t table_ops \<Rightarrow> 't MultiQueue \<Rightarrow> 't MultiQueue option" where
  "MayBeShrinkUsage ops m =
     (if mq_usage m \<ge> mq_capacity m then
        let m = m\<lparr>mq_init := False\<rparr> in
        case ShrinkLRU_expired ops (mq_lrus_num m - 1) (mq_usage m - mq_capacity m) m of
          None \<Rightarrow> None
        | Some (enough, m') \<Rightarrow>
            if enough then Some m' else ShrinkLRU_force ops (mq_usage m' - mq_capacity m') m'
      else Some m)"

subsection \<open>Promoting a region\<close>

text \<open>
  \<open>RecomputeExp\<close> weighs whether one more filter for the region at \<open>e\<close> lowers the expected
  number of useless reads, if need be at the cost of expired regions of one queue. \<open>need_bits\<close>
  and \<open>remove_bits\<close> are \<open>int\<close>: sums in \<open>size_t\<close> that are cut to 32 bits.
\<close>

definition filter_bits :: "LRUQueueHandle \<Rightarrow> nat \<Rightarrow> 't MultiQueue \<Rightarrow> u32" where
  "filter_bits h i m = ucast (q_charge h div mq_bits_sum m ! q_queue_id h * mq_bits m ! i)"

definition need_bits :: "LRUQueueHandle \<Rightarrow> 't MultiQueue \<Rightarrow> u32" where
  "need_bits h m =
     ucast (mq_usage m - mq_capacity m) +
     (if q_queue_id h = 0
      then ucast (case mq_lrus m ! 1 of [] \<Rightarrow> mq_head_charge m | a # _ \<Rightarrow> q_charge (qh m a))
      else filter_bits h (q_queue_id h + 1) m)"

fun scan_expired :: "'t table_ops \<Rightarrow> nat \<Rightarrow> u32 \<Rightarrow> 't MultiQueue \<Rightarrow> addr list \<Rightarrow> u32 \<times> real \<Rightarrow> u32 \<times> real" where
  "scan_expired ops i need m [] acc = acc"
| "scan_expired ops i need m (old # rest) (remove_bits, change) =
     (if remove_bits <s need \<and> q_expire_time (qh m old) < mq_current_time m then
        let h = qh m old; fre = real (unat (q_fre_count h)) in
        scan_expired ops i need m rest
          (remove_bits + filter_bits h i m, change + (fre * mq_fps m ! (i - 1) - fre * FalsePositive ops h m))
      else (remove_bits, change))"

definition choose_queue :: "'t table_ops \<Rightarrow> u32 \<Rightarrow> real \<Rightarrow> real \<Rightarrow> 't MultiQueue \<Rightarrow> real \<times> nat option" where
  "choose_queue ops need new_expection now_expection m =
     fold (\<lambda>i (min_expection, min_i).
        let (remove_bits, change) = scan_expired ops i need m (mq_lrus m ! i) (0, new_expection)
        in if \<not> remove_bits <s need \<and> change < min_expection then (change, Some i) else (min_expection, min_i))
       [1..<mq_lrus_num m] (now_expection, None)"

text \<open>The regions of the chosen queue lose a filter; their charge is not changed.\<close>

definition demote_step :: "'t table_ops \<Rightarrow> nat \<Rightarrow> addr \<Rightarrow> 't MultiQueue \<Rightarrow> 't MultiQueue option" where
  "demote_step ops k old m =
     map_option (\<lambda>(delta, m).
       let fre = q_fre_count (qh m old);
           m = add_freq k (- fre) (sub_len k (m\<lparr>mq_usage := mq_usage m - delta\<rparr>));
           m = add_freq (k - 1) fre (add_len (k - 1) (LRU_Remove old m))
       in LRU_Append_queue (k - 1) old m)
     (call_table (t_remove ops 1) (qh m old) m)"

fun demote_queue :: "'t table_ops \<Rightarrow> nat \<Rightarrow> u32 \<Rightarrow> addr list \<Rightarrow> u32 \<Rightarrow> 't MultiQueue \<Rightarrow> 't MultiQueue option" where
  "demote_queue ops k need [] remove_bits m = Some m"
| "demote_queue ops k need (old # rest) remove_bits m =
     (if remove_bits <s need then
        case demote_step ops k old m of
          None \<Rightarrow> None
        | Some m' \<Rightarrow> demote_queue ops k need rest (remove_bits + filter_bits (qh m old) k m) m'
      else Some m)"

text \<open>\<open>++e->queue_id\<close> with the frequency sums of both queues.\<close>

definition promote :: "addr \<Rightarrow> 't MultiQueue \<Rightarrow> 't MultiQueue" where
  "promote e m =
     (let h = qh m e;
          m = add_freq (q_queue_id h + 1) (q_fre_count h) (add_freq (q_queue_id h) (- q_fre_count h) m)
      in upd_q e (\<lambda>h. h\<lparr>q_queue_id := q_queue_id h + 1\<rparr>) m)"

definition RecomputeExp :: "'t table_ops \<Rightarrow> addr \<Rightarrow> 't MultiQueue \<Rightarrow> 't MultiQueue option" where
  "RecomputeExp ops e m =
     (let h = qh m e;
          fp = FalsePositive ops h m;
          now_expection = mq_expection m + fp;
          m = upd_q e (\<lambda>h. h\<lparr>q_fre_count := q_fre_count h + 1\<rparr>) m
      in if mq_init m \<or> q_queue_id h + 1 = mq_lrus_num m
         then Some (add_freq (q_queue_id h) 1 (m\<lparr>mq_expection := now_expection\<rparr>))
         else
           let fre = q_fre_count (qh m e);
               new_expection = mq_expection m - real (unat (fre - 1)) * fp + real (unat fre) * mq_fps m ! (q_queue_id h + 1);
               need = need_bits (qh m e) m
           in if 0 <s need then
                case choose_queue ops need new_expection now_expection m of
                  (min_expection, Some min_i) \<Rightarrow>
                    if now_expection - min_expection > now_expection * mq_change_ratio m
                    then map_option (\<lambda>m. (promote e m)\<lparr>mq_expection := min_expection\<rparr>)
                           (demote_queue ops min_i need (mq_lrus m ! min_i) 0 m)
                    else Some (m\<lparr>mq_expection := now_expection\<rparr>)
                | (_, None) \<Rightarrow> Some (m\<lparr>mq_expection := now_expection\<rparr>)
              else if now_expection - new_expection > now_expection * mq_change_ratio m
              then Some ((promote e m)\<lparr>mq_expection := new_expection\<rparr>)
              else Some (m\<lparr>mq_expection := now_expection\<rparr>))"

subsection \<open>References\<close>

definition Ref :: "'t table_ops \<Rightarrow> addr \<Rightarrow> bool \<Rightarrow> 't MultiQueue \<Rightarrow> 't MultiQueue option" where
  "Ref ops e addFreCount m =
     (let h = qh m e;
          m1 = (if q_refs h = 1 \<and> q_in_cache h
                then let m = sub_len (q_queue_id h) (LRU_Append_in_use e (LRU_Remove e m))
                     in m\<lparr>mq_sum_lru_len := mq_sum_lru_len m - 1\<rparr>
                else m);
          m2 = upd_q e (\<lambda>h. h\<lparr>q_refs := q_refs h + 1\<rparr>) m1;
          r = (if addFreCount \<and> q_expire_time h > mq_current_time m then RecomputeExp ops e m2 else Some m2)
      in map_option (\<lambda>m. upd_q e (\<lambda>h. h\<lparr>q_expire_time := mq_current_time m + mq_life_time m\<rparr>) m) r)"

text \<open>
  When the last client lets go of a region, the filters it was promised are loaded, or its
  queue follows the filters the table has; then it goes to the end of its queue.
\<close>

definition settle :: "'t table_ops \<Rightarrow> addr \<Rightarrow> 't MultiQueue \<Rightarrow> 't MultiQueue option" where
  "settle ops e m =
     (let h = qh m e in
      if q_value_id h > 0 \<and> region_filters ops h m < q_queue_id h \<and> q_type h then
        case call_table (t_adjust ops (q_queue_id h)) h m of
          None \<Rightarrow> None
        | Some (delta, m) \<Rightarrow>
            let m = upd_q e (\<lambda>h. h\<lparr>q_charge := q_charge h + delta\<rparr>) m
            in MayBeShrinkUsage ops (m\<lparr>mq_usage := mq_usage m + delta\<rparr>)
      else if q_value_id h > 0 \<and> region_filters ops h m > q_queue_id h \<and> q_type h then
        let n = region_filters ops h m;
            delta = (if t_real_size ops then of_nat (t_size ops (q_value_id h - 1) (mq_tables m (q_value h)))
                     else mq_bits_sum m ! n);
            m = upd_q e (\<lambda>h. h\<lparr>q_queue_id := n, q_charge := delta\<rparr>) m
        in MayBeShrinkUsage ops (m\<lparr>mq_usage := mq_usage m + delta\<rparr>)
      else Some m)"

definition Unref :: "'t table_ops \<Rightarrow> addr \<Rightarrow> 't MultiQueue \<Rightarrow> 't MultiQueue option" where
  "Unref ops e m =
     (let m = upd_q e (\<lambda>h. h\<lparr>q_refs := q_refs h - 1\<rparr>) m;
          h = qh m e
      in if q_refs h = 0 then
           Some (m\<lparr>mq_expection := mq_expection m - real (unat (q_fre_count h)) * mq_fps m ! q_queue_id h,
                   mq_deleted := mq_deleted m @ (if q_value_id h = 0 then [(take 8 (q_key h), q_value h)] else []),
                   mq_handles := (mq_handles m)(e := None)\<rparr>)
         else if q_in_cache h \<and> q_refs h = 1 then
           map_option (\<lambda>m.
             let k = q_queue_id (qh m e); m = add_len k (LRU_Append_queue k e (LRU_Remove e m))
             in m\<lparr>mq_sum_lru_len := mq_sum_lru_len m + 1\<rparr>) (settle ops e m)
         else Some m)"

definition FinishErase :: "'t table_ops \<Rightarrow> addr option \<Rightarrow> 't MultiQueue \<Rightarrow> 't MultiQueue option" where
  "FinishErase ops r m =
     (case r of
        None \<Rightarrow> Some m
      | Some e \<Rightarrow>
          let h = qh m e;
              m = LRU_Remove e m;
              m = (if q_refs h = 1
                   then let m = add_freq (q_queue_id h) (- q_fre_count h) (sub_len (q_queue_id h) m)
                        in m\<lparr>mq_sum_lru_len := mq_sum_lru_len m - 1\<rparr>
                   else m);
              m = upd_q e (\<lambda>h. h\<lparr>q_in_cache := False\<rparr>) m
          in Unref ops e (m\<lparr>mq_usage := mq_usage m - q_charge h\<rparr>))"

subsection \<open>The interface of the cache\<close>

definition mq_hash :: "slice \<Rightarrow> u32" where
  "mq_hash key = Hash key 0"

definition MQ_Lookup :: "'t table_ops \<Rightarrow> slice \<Rightarrow> bool \<Rightarrow> 't MultiQueue \<Rightarrow> (addr option \<times> 't MultiQueue) option" where
  "MQ_Lookup ops key Get m =
     (case HandleTable_Lookup key (mq_hash key) (mq_table m) of
        None \<Rightarrow> Some (None, m)
      | Some e \<Rightarrow> map_option (\<lambda>m. (Some e, m)) (Ref ops e Get m))"

definition LookupFreCount :: "slice \<Rightarrow> 't MultiQueue \<Rightarrow> u64" where
  "LookupFreCount key m =
     (case HandleTable_Lookup key (mq_hash key) (mq_table m) of None \<Rightarrow> 0 | Some e \<Rightarrow> q_fre_count (qh m e))"

definition SetFreCount :: "'t table_ops \<Rightarrow> slice \<Rightarrow> u64 \<Rightarrow> 't MultiQueue \<Rightarrow> 't MultiQueue" where
  "SetFreCount ops key freCount m =
     (case HandleTable_Lookup key (mq_hash key) (mq_table m) of
        None \<Rightarrow> m
      | Some e \<Rightarrow>
          let fp = FalsePositive ops (qh m e) m;
              m = m\<lparr>mq_expection := mq_expection m - real (unat (q_fre_count (qh m e))) * fp\<rparr>;
              m = upd_q e (\<lambda>h. h\<lparr>q_fre_count := freCount\<rparr>) m
          in m\<lparr>mq_expection := mq_expection m + real (unat freCount) * fp\<rparr>)"

definition MQ_Release :: "'t table_ops \<Rightarrow> addr \<Rightarrow> 't MultiQueue \<Rightarrow> 't MultiQueue option" where
  "MQ_Release ops e m = Unref ops e m"

definition MQ_Erase :: "'t table_ops \<Rightarrow> slice \<Rightarrow> 't MultiQueue \<Rightarrow> 't MultiQueue option" where
  "MQ_Erase ops key m =
     (let (r, t) = HandleTable_Remove key (mq_hash key) (mq_table m) in FinishErase ops r (m\<lparr>mq_table := t\<rparr>))"

text \<open>The key of region \<open>id\<close> of the same table: the file number and the number of the region.\<close>

definition region_key :: "slice \<Rightarrow> nat \<Rightarrow> slice" where
  "region_key key i = take 8 key @ EncodeFixed32 (of_nat i)"

text \<open>A region is linked to the handle of its table and to its predecessor; both must be cached.\<close>

definition link_region :: "addr \<Rightarrow> 't MultiQueue \<Rightarrow> 't MultiQueue option" where
  "link_region e m =
     (let h = qh m e; key = q_key h;
          find = (\<lambda>i. HandleTable_Lookup (region_key key i) (mq_hash (region_key key i)) (mq_table m))
      in Option.bind (find 0) (\<lambda>th.
         let m = upd_q th (\<lambda>h. h\<lparr>q_value_refs := q_value_refs h + 1\<rparr>) m;
             m = upd_q e (\<lambda>h. h\<lparr>q_table_handle := Some th, q_next_region := None, q_prev_region := None\<rparr>) m
         in if q_value_id h = 1 then Some m
            else map_option (\<lambda>p. upd_q p (\<lambda>h. h\<lparr>q_next_region := Some e\<rparr>)
                   (upd_q e (\<lambda>h. h\<lparr>q_prev_region := Some p\<rparr>) m)) (find (q_value_id h - 1))))"

definition insert_table :: "'t table_ops \<Rightarrow> addr \<Rightarrow> 't MultiQueue \<Rightarrow> 't MultiQueue option" where
  "insert_table ops e m =
     (let (old, t) = HandleTable_Insert 131072 (q_hash (qh m e), q_key (qh m e), e) (mq_table m)
      in FinishErase ops old (m\<lparr>mq_table := t\<rparr>))"

definition MQ_Insert :: "'t table_ops \<Rightarrow> addr \<Rightarrow> slice \<Rightarrow> nat \<Rightarrow> u64 \<Rightarrow> bool \<Rightarrow> 't MultiQueue \<Rightarrow> 't MultiQueue option" where
  "MQ_Insert ops e key v charge type m =
     (let m = m\<lparr>mq_insert_count := mq_insert_count m + 1\<rparr>;
          h = \<lparr>q_key = key, q_hash = mq_hash key, q_value = v, q_charge = charge, q_in_cache = False, q_refs = 1,
               q_fre_count = 0, q_expire_time = mq_current_time m + mq_life_time m, q_queue_id = 0, q_type = type,
               q_value_id = unat (DecodeFixed32 (drop 8 key)), q_value_refs = 0, q_table_handle = None,
               q_prev_region = None, q_next_region = None\<rparr>;
          m = m\<lparr>mq_handles := (mq_handles m)(e \<mapsto> h\<lparr>q_queue_id := region_filters ops h m\<rparr>)\<rparr>
      in Option.bind
          (if q_value_id h = 0 then
             let m = upd_q e (\<lambda>h. h\<lparr>q_queue_id := 0, q_refs := q_refs h + 1, q_in_cache := True, q_table_handle := Some e\<rparr>) m
             in insert_table ops e (LRU_Append_in_use e m)
           else if mq_capacity m > 0 then
             Option.bind (link_region e m) (\<lambda>m.
               let m = upd_q e (\<lambda>h. h\<lparr>q_in_cache := True\<rparr>) m;
                   k = q_queue_id (qh m e);
                   m = add_len k (LRU_Append_queue k e m)
               in insert_table ops e (m\<lparr>mq_sum_lru_len := mq_sum_lru_len m + 1, mq_usage := mq_usage m + charge\<rparr>))
           else Some m)
          (MayBeShrinkUsage ops))"

subsection \<open>Queries and settings\<close>

fun alloc_loop :: "'t MultiQueue \<Rightarrow> u64 \<Rightarrow> nat list \<Rightarrow> nat \<Rightarrow> nat" where
  "alloc_loop m freq [] last_i = last_i"
| "alloc_loop m freq (i # is') last_i =
     (if mq_lrus m ! i \<noteq> [] then
        if freq < mq_sum_freqs m ! i div of_nat (mq_lru_lens m ! i) then i else alloc_loop m freq is' i
      else alloc_loop m freq is' last_i)"

text \<open>The \<open>int\<close> argument is converted to \<open>size_t\<close> for the comparison.\<close>

definition AllocFilterNums :: "u64 \<Rightarrow> 't MultiQueue \<Rightarrow> nat" where
  "AllocFilterNums freq m = alloc_loop m freq [1..<mq_lrus_num m] 1"

text \<open>Without an idle region the function ends without a \<open>return\<close> (\<open>None\<close>).\<close>

definition GetLRUFreCount :: "'t MultiQueue \<Rightarrow> u64 option" where
  "GetLRUFreCount m =
     map_option (\<lambda>i. q_fre_count (qh m (hd (mq_lrus m ! i)))) (find (\<lambda>i. mq_lrus m ! i \<noteq> []) [1..<mq_lrus_num m])"

definition IsCacheFull :: "'t MultiQueue \<Rightarrow> bool" where
  "IsCacheFull m \<longleftrightarrow> mq_usage m \<ge> mq_capacity m"

definition TurnOnAdjustment :: "'t MultiQueue \<Rightarrow> 't MultiQueue" where
  "TurnOnAdjustment m = m\<lparr>mq_need_adjust := True\<rparr>"

definition TurnOffAdjustment :: "'t MultiQueue \<Rightarrow> 't MultiQueue" where
  "TurnOffAdjustment m = m\<lparr>mq_need_adjust := False\<rparr>"

definition addCurrentTime :: "'t MultiQueue \<Rightarrow> 't MultiQueue" where
  "addCurrentTime m = m\<lparr>mq_current_time := mq_current_time m + 1\<rparr>"

definition MQ_NewId :: "'t MultiQueue \<Rightarrow> u64 \<times> 't MultiQueue" where
  "MQ_NewId m = (mq_last_id m + 1, m\<lparr>mq_last_id := mq_last_id m + 1\<rparr>)"

definition MQ_TotalCharge :: "'t MultiQueue \<Rightarrow> u64" where
  "MQ_TotalCharge m = mq_usage m"

definition MQ_Value :: "addr \<Rightarrow> 't MultiQueue \<Rightarrow> nat" where
  "MQ_Value e m = q_value (qh m e)"

end
