(* ===== verification/MultiQueueInv.thy ===== *)
theory MultiQueueInv
  imports MultiQueue
begin

text \<open>
  The invariant of the multi-queue. It speaks of a view of the state that leaves out charges,
  frequencies, times and the expected value, which steer the decisions but which the shape of
  the queues does not depend on. The tables enter through an interface (\<open>filtered_tables\<close>).
\<close>

subsection \<open>The interface of the tables\<close>

locale filtered_tables =
  fixes ops :: "'t table_ops"
    and tok :: "'t \<Rightarrow> bool"
    and regions :: "'t \<Rightarrow> nat"
    and n :: nat
  assumes adjust: "tok t \<Longrightarrow> r < regions t \<Longrightarrow> 0 < k \<Longrightarrow> k \<le> n \<Longrightarrow>
      \<exists>d t'. t_adjust ops k r t = Some (d, t') \<and> tok t' \<and> regions t' = regions t \<and>
        t_curr ops r t' = max (t_curr ops r t) k \<and> (\<forall>s < regions t. s \<noteq> r \<longrightarrow> t_curr ops s t' = t_curr ops s t)"
    and remove: "tok t \<Longrightarrow> r < regions t \<Longrightarrow> 0 < t_curr ops r t \<Longrightarrow>
      \<exists>d t'. t_remove ops 1 r t = Some (d, t') \<and> tok t' \<and> regions t' = regions t \<and>
        t_curr ops r t' = t_curr ops r t - 1 \<and> (\<forall>s < regions t. s \<noteq> r \<longrightarrow> t_curr ops s t' = t_curr ops s t)"
    and curr_le: "tok t \<Longrightarrow> r < regions t \<Longrightarrow> t_curr ops r t \<le> n"
begin
end

subsection \<open>The view\<close>

record qcore =
  c_id :: "u32 \<times> slice"
  c_value :: nat
  c_in_cache :: bool
  c_refs :: nat
  c_queue_id :: nat
  c_type :: bool
  c_value_id :: nat

record 't mqview =
  v_in_use :: "addr list"
  v_lrus :: "addr list list"
  v_lens :: "nat list"
  v_sum :: nat
  v_table :: HandleTable
  v_h :: "addr \<Rightarrow> qcore option"
  v_tables :: "nat \<Rightarrow> 't"

definition core :: "LRUQueueHandle \<Rightarrow> qcore" where
  "core h = \<lparr>c_id = (q_hash h, q_key h), c_value = q_value h, c_in_cache = q_in_cache h, c_refs = q_refs h,
     c_queue_id = q_queue_id h, c_type = q_type h, c_value_id = q_value_id h\<rparr>"

definition view :: "'t MultiQueue \<Rightarrow> 't mqview" where
  "view m = \<lparr>v_in_use = mq_in_use m, v_lrus = mq_lrus m, v_lens = mq_lru_lens m, v_sum = mq_sum_lru_len m,
     v_table = mq_table m, v_h = (\<lambda>a. map_option core (mq_handles m a)), v_tables = mq_tables m\<rparr>"

definition vfilters :: "'t table_ops \<Rightarrow> qcore \<Rightarrow> 't mqview \<Rightarrow> nat" where
  "vfilters ops h v = (if c_value_id h = 0 then 0 else t_curr ops (c_value_id h - 1) (v_tables v (c_value h)))"

definition vids :: "'t mqview \<Rightarrow> addr \<Rightarrow> (u32 \<times> slice) option" where
  "vids v a = (case v_h v a of None \<Rightarrow> None | Some h \<Rightarrow> if c_in_cache h then Some (c_id h) else None)"

subsection \<open>The invariant\<close>

text \<open>
  A cached handle without clients is idle and on the queue of its \<open>queue_id\<close>, all other cached
  handles are on \<open>in_use_\<close>. While \<open>Unref\<close> settles a region it is already without clients but
  still on \<open>in_use_\<close>; this region is \<open>x\<close>.
\<close>

definition idle :: "addr option \<Rightarrow> addr \<Rightarrow> qcore \<Rightarrow> bool" where
  "idle x a h \<longleftrightarrow> c_in_cache h \<and> c_refs h = 1 \<and> x \<noteq> Some a"

definition vshape :: "nat \<Rightarrow> 't mqview \<Rightarrow> bool" where
  "vshape n v \<longleftrightarrow> length (v_lrus v) = Suc n \<and> v_lens v = map length (v_lrus v) \<and> v_sum v = sum_list (v_lens v)"

definition vlists :: "addr option \<Rightarrow> 't mqview \<Rightarrow> bool" where
  "vlists x v \<longleftrightarrow> distinct (v_in_use v) \<and> (\<forall>i < length (v_lrus v). distinct (v_lrus v ! i)) \<and>
     (\<forall>a i. i < length (v_lrus v) \<longrightarrow> (a \<in> set (v_lrus v ! i) \<longleftrightarrow> (\<exists>h. v_h v a = Some h \<and> idle x a h \<and> c_queue_id h = i))) \<and>
     (\<forall>a. a \<in> set (v_in_use v) \<longleftrightarrow> (\<exists>h. v_h v a = Some h \<and> c_in_cache h \<and> \<not> idle x a h))"

fun vref_ok :: "nat \<Rightarrow> qcore option \<Rightarrow> bool" where
  "vref_ok k None \<longleftrightarrow> k = 0"
| "vref_ok k (Some h) \<longleftrightarrow> c_refs h = k + (if c_in_cache h then 1 else 0) \<and> 0 < c_refs h"

definition vrefs :: "(addr \<Rightarrow> nat) \<Rightarrow> 't mqview \<Rightarrow> bool" where
  "vrefs held v \<longleftrightarrow> (\<forall>a. vref_ok (held a) (v_h v a))"

definition vhandle_ok :: "('t \<Rightarrow> bool) \<Rightarrow> ('t \<Rightarrow> nat) \<Rightarrow> nat \<Rightarrow> qcore \<Rightarrow> 't mqview \<Rightarrow> bool" where
  "vhandle_ok tok regions n h v \<longleftrightarrow> c_queue_id h \<le> n \<and>
     (if c_value_id h = 0 then c_queue_id h = 0
      else c_type h \<and> tok (v_tables v (c_value h)) \<and> c_value_id h - 1 < regions (v_tables v (c_value h)))"

definition vregions :: "'t table_ops \<Rightarrow> ('t \<Rightarrow> bool) \<Rightarrow> ('t \<Rightarrow> nat) \<Rightarrow> nat \<Rightarrow> addr option \<Rightarrow> 't mqview \<Rightarrow> bool" where
  "vregions ops tok regions n x v \<longleftrightarrow>
     (\<forall>a h. v_h v a = Some h \<and> c_in_cache h \<longrightarrow>
        vhandle_ok tok regions n h v \<and> (idle x a h \<longrightarrow> vfilters ops h v = c_queue_id h))"

definition vregion :: "'t mqview \<Rightarrow> addr \<Rightarrow> (nat \<times> nat) option" where
  "vregion v a = (case v_h v a of
     None \<Rightarrow> None | Some h \<Rightarrow> if c_in_cache h \<and> 0 < c_value_id h then Some (c_value h, c_value_id h) else None)"

definition vunique :: "'t mqview \<Rightarrow> bool" where
  "vunique v \<longleftrightarrow> (\<forall>a b r. vregion v a = Some r \<and> vregion v b = Some r \<longrightarrow> a = b)"

definition vinv ::
  "'t table_ops \<Rightarrow> ('t \<Rightarrow> bool) \<Rightarrow> ('t \<Rightarrow> nat) \<Rightarrow> nat \<Rightarrow> addr option \<Rightarrow> (addr \<Rightarrow> nat) \<Rightarrow> 't mqview \<Rightarrow> bool" where
  "vinv ops tok regions n x held v \<longleftrightarrow> vshape n v \<and> vlists x v \<and> vrefs held v \<and>
     vregions ops tok regions n x v \<and> vunique v \<and> mq_table.agrees (v_table v) (vids v)"

lemma vrefsD: "vrefs held v \<Longrightarrow> v_h v a = Some h \<Longrightarrow> c_refs h = held a + (if c_in_cache h then 1 else 0) \<and> 0 < c_refs h"
  unfolding vrefs_def by (metis vref_ok.simps(2))

lemma vrefs_update: "vrefs held v \<Longrightarrow> v_h v' = (v_h v)(a := y) \<Longrightarrow> vref_ok k y \<Longrightarrow> vrefs (held(a := k)) v'"
  by (simp add: vrefs_def)

lemma vregionsD:
  "vregions ops tok regions n x v \<Longrightarrow> v_h v a = Some h \<Longrightarrow> c_in_cache h \<Longrightarrow> vhandle_ok tok regions n h v"
  "vregions ops tok regions n x v \<Longrightarrow> v_h v a = Some h \<Longrightarrow> idle x a h \<Longrightarrow> vfilters ops h v = c_queue_id h"
  by (auto simp: vregions_def idle_def)

lemma vids_update: "v_h v' = (v_h v)(a \<mapsto> g) \<Longrightarrow> v_h v a = Some h \<Longrightarrow> c_in_cache g = c_in_cache h \<Longrightarrow> c_id g = c_id h \<Longrightarrow>
   vids v' = vids v"
  by (auto simp: vids_def fun_eq_iff)

lemma vregion_update: "v_h v' = (v_h v)(a \<mapsto> g) \<Longrightarrow> v_h v a = Some h \<Longrightarrow> c_in_cache g = c_in_cache h \<Longrightarrow>
   c_value g = c_value h \<Longrightarrow> c_value_id g = c_value_id h \<Longrightarrow> vregion v' = vregion v"
  by (auto simp: vregion_def fun_eq_iff)

lemma sum_list_move:
  assumes "j \<noteq> k" "j < length xs" "k < length xs" "0 < xs ! k"
  shows "sum_list (xs[k := xs ! k - 1, j := xs ! j + (1::nat)]) = sum_list xs"
  using assms elem_le_sum_list [of k xs] by (simp add: sum_list_update)

lemma map_length_move:
  assumes "L ! k = a # as" "k < length L" "0 < k"
  shows "map length (L[k := as, k - 1 := L ! (k - 1) @ [a]]) =
     (map length L)[k := map length L ! k - 1, k - 1 := map length L ! (k - 1) + 1]"
  using assms by (simp add: map_update)

text \<open>A table changes its filters in one region; every other region sees no difference.\<close>

lemma vregions_table:
  assumes vr: "vregions ops tok regions n x v" and un: "vunique v"
    and a: "v_h v a = Some h" "c_in_cache h" "0 < c_value_id h"
    and t': "tok t'" "regions t' = regions (v_tables v (c_value h))"
      "\<forall>s < regions (v_tables v (c_value h)). s \<noteq> c_value_id h - 1 \<longrightarrow> t_curr ops s t' = t_curr ops s (v_tables v (c_value h))"
  defines "v' \<equiv> v\<lparr>v_tables := (v_tables v)(c_value h := t')\<rparr>"
  shows "v_h v b = Some g \<Longrightarrow> c_in_cache g \<Longrightarrow> vhandle_ok tok regions n g v'"
    and "v_h v b = Some g \<Longrightarrow> c_in_cache g \<Longrightarrow> b \<noteq> a \<Longrightarrow> vfilters ops g v' = vfilters ops g v"
proof -
  have H: "vhandle_ok tok regions n g v'" if "v_h v b = Some g" "c_in_cache g" for b g
    using vregionsD(1) [OF vr that] t'(1,2) by (auto simp: vhandle_ok_def v'_def)
  have F: "vfilters ops g v' = vfilters ops g v" if g: "v_h v b = Some g" "c_in_cache g" "b \<noteq> a" for b g
  proof (cases "c_value g = c_value h \<and> 0 < c_value_id g")
    case True
    then have "c_value_id g \<noteq> c_value_id h" using un a g unfolding vunique_def by (force simp: vregion_def)
    then have "c_value_id g - 1 \<noteq> c_value_id h - 1" using True a(3) by linarith
    moreover have "c_value_id g - 1 < regions (v_tables v (c_value h))"
      using vregionsD(1) [OF vr g(1,2)] True by (auto simp: vhandle_ok_def)
    ultimately show ?thesis using t'(3) True by (simp add: vfilters_def v'_def)
  qed (auto simp: vfilters_def v'_def)
  show "v_h v b = Some g \<Longrightarrow> c_in_cache g \<Longrightarrow> vhandle_ok tok regions n g v'" by (rule H)
  show "v_h v b = Some g \<Longrightarrow> c_in_cache g \<Longrightarrow> b \<noteq> a \<Longrightarrow> vfilters ops g v' = vfilters ops g v" by (rule F)
qed

definition vmoved :: "nat \<Rightarrow> addr list \<Rightarrow> addr \<Rightarrow> qcore \<Rightarrow> 't \<Rightarrow> 't mqview \<Rightarrow> 't mqview" where
  "vmoved k as a h t' v = v\<lparr>
     v_tables := (v_tables v)(c_value h := t'),
     v_lrus := (v_lrus v)[k := as, k - 1 := v_lrus v ! (k - 1) @ [a]],
     v_lens := (v_lens v)[k := v_lens v ! k - 1, k - 1 := v_lens v ! (k - 1) + 1],
     v_h := (v_h v)(a \<mapsto> h\<lparr>c_queue_id := k - 1\<rparr>)\<rparr>"

text \<open>What an operation on idle regions leaves as it was.\<close>

definition vkeeps :: "'t table_ops \<Rightarrow> 't mqview \<Rightarrow> 't mqview \<Rightarrow> bool" where
  "vkeeps ops v v' \<longleftrightarrow> v_in_use v' = v_in_use v \<and> v_table v' = v_table v \<and> vids v' = vids v \<and> vregion v' = vregion v \<and>
     (\<forall>b h. v_h v b = Some h \<and> b \<in> set (v_in_use v) \<longrightarrow> v_h v' b = Some h \<and> vfilters ops h v' = vfilters ops h v)"

lemma vkeeps_refl [simp]: "vkeeps ops v v"
  by (simp add: vkeeps_def)

lemma vkeeps_trans: "vkeeps ops v v' \<Longrightarrow> vkeeps ops v' v'' \<Longrightarrow> vkeeps ops v v''"
  unfolding vkeeps_def by metis

context filtered_tables
begin

abbreviation inv :: "addr option \<Rightarrow> (addr \<Rightarrow> nat) \<Rightarrow> 't mqview \<Rightarrow> bool" where
  "inv \<equiv> vinv ops tok regions n"

lemma queue_head:
  assumes "inv x held v" "v_lrus v ! k = a # as" "0 < k" "k \<le> n"
  shows "\<exists>h. v_h v a = Some h \<and> idle x a h \<and> c_queue_id h = k \<and> 0 < c_value_id h \<and> vfilters ops h v = k \<and>
     tok (v_tables v (c_value h)) \<and> c_value_id h - 1 < regions (v_tables v (c_value h)) \<and>
     t_curr ops (c_value_id h - 1) (v_tables v (c_value h)) = k"
proof -
  have len: "length (v_lrus v) = Suc n" using assms(1) by (simp add: vinv_def vshape_def)
  have vl: "vlists x v" and vr: "vregions ops tok regions n x v" using assms(1) by (simp_all add: vinv_def)
  have "a \<in> set (v_lrus v ! k)" using assms(2) by simp
  then obtain h where h: "v_h v a = Some h" "idle x a h" "c_queue_id h = k"
    using vl assms(4) len unfolding vlists_def by (metis le_imp_less_Suc)
  have "vhandle_ok tok regions n h v" "vfilters ops h v = k"
    using vregionsD [OF vr h(1)] h(2,3) by (auto simp: idle_def)
  with h assms(3) show ?thesis by (auto simp: vhandle_ok_def vfilters_def split: if_splits)
qed

lemma move_inv:
  assumes inv: "inv x held v" and q: "v_lrus v ! k = a # as" "0 < k" "k \<le> n"
  shows "\<exists>h d t'. v_h v a = Some h \<and> t_remove ops 1 (c_value_id h - 1) (v_tables v (c_value h)) = Some (d, t') \<and>
     inv x held (vmoved k as a h t' v) \<and> vkeeps ops v (vmoved k as a h t' v)"
proof -
  have sh: "vshape n v" and vl: "vlists x v" and vf: "vrefs held v" and vr: "vregions ops tok regions n x v"
    and un: "vunique v" and ag: "mq_table.agrees (v_table v) (vids v)" using inv by (simp_all add: vinv_def)
  have len: "length (v_lrus v) = Suc n" using sh by (simp add: vshape_def)
  obtain h where h: "v_h v a = Some h" "idle x a h" "c_queue_id h = k" "0 < c_value_id h"
    "tok (v_tables v (c_value h))" "c_value_id h - 1 < regions (v_tables v (c_value h))"
    "t_curr ops (c_value_id h - 1) (v_tables v (c_value h)) = k"
    using queue_head [OF assms] by blast
  have hc: "c_in_cache h" "c_refs h = 1" using h(2) by (simp_all add: idle_def)
  from remove [OF h(5,6)] h(7) q(2) obtain d t' where t': "t_remove ops 1 (c_value_id h - 1) (v_tables v (c_value h)) = Some (d, t')"
    "tok t'" "regions t' = regions (v_tables v (c_value h))" "t_curr ops (c_value_id h - 1) t' = k - 1"
    "\<forall>s < regions (v_tables v (c_value h)). s \<noteq> c_value_id h - 1 \<longrightarrow> t_curr ops s t' = t_curr ops s (v_tables v (c_value h))"
    by auto
  let ?g = "h\<lparr>c_queue_id := k - 1\<rparr>" and ?v = "vmoved k as a h t' v"
  have vh: "v_h ?v = (v_h v)(a \<mapsto> ?g)" by (simp add: vmoved_def)
  have nth: "v_lrus ?v ! i = (if i = k - 1 then v_lrus v ! i @ [a] else if i = k then as else v_lrus v ! i)"
    if "i < Suc n" for i
    using that len q by (auto simp: vmoved_def nth_list_update)
  have mem: "b \<in> set (v_lrus v ! i) \<longleftrightarrow> (\<exists>h. v_h v b = Some h \<and> idle x b h \<and> c_queue_id h = i)"
    and dst: "distinct (v_lrus v ! i)" if "i < Suc n" for b i
    using vl that len unfolding vlists_def by metis+
  have notk: "a \<notin> set (v_lrus v ! i)" if "i < Suc n" "i \<noteq> k" for i
    using mem [OF that(1), of a] h(1,3) that(2) by auto
  have memk: "b \<in> set as \<longleftrightarrow> b \<noteq> a \<and> (\<exists>h. v_h v b = Some h \<and> idle x b h \<and> c_queue_id h = k)" for b
    using mem [of k b] dst [of k] q by auto
  have gi: "idle x a ?g" using h(2) by (simp add: idle_def)
  have "vshape n ?v"
  proof -
    have l: "v_lens v = map length (v_lrus v)" using sh by (simp add: vshape_def)
    have "v_lens ?v = map length (v_lrus ?v)"
      using map_length_move [of "v_lrus v" k a as] q len unfolding vmoved_def l by simp
    moreover have "sum_list (v_lens ?v) = sum_list (v_lens v)"
      using sum_list_move [of "k - 1" k "v_lens v"] q len unfolding vmoved_def l by simp
    ultimately show ?thesis using sh by (simp add: vshape_def vmoved_def)
  qed
  moreover have "vlists x ?v"
  proof -
    have len': "length (v_lrus ?v) = Suc n" using len by (simp add: vmoved_def)
    have "distinct (v_lrus ?v ! i)" if "i < Suc n" for i
      using that nth dst [OF that] notk [OF that] dst [of k] q by auto
    moreover have "b \<in> set (v_lrus ?v ! i) \<longleftrightarrow> (\<exists>h. v_h ?v b = Some h \<and> idle x b h \<and> c_queue_id h = i)"
      if i: "i < Suc n" for b i
    proof (cases "b = a")
      case True
      have "a \<notin> set as" using memk by blast
      with True show ?thesis using nth [OF i] notk [OF i] gi q(2) by (auto simp: vh)
    next
      case False
      then have "b \<in> set (v_lrus ?v ! i) \<longleftrightarrow> b \<in> set (v_lrus v ! i)"
        using nth [OF i] q(1) by (cases "i = k") simp_all
      with False show ?thesis using mem [OF i, of b] by (simp add: vh)
    qed
    moreover have "b \<in> set (v_in_use ?v) \<longleftrightarrow> (\<exists>h. v_h ?v b = Some h \<and> c_in_cache h \<and> \<not> idle x b h)" for b
    proof -
      have "v_in_use ?v = v_in_use v" by (simp add: vmoved_def)
      moreover have "b \<in> set (v_in_use v) \<longleftrightarrow> (\<exists>h. v_h v b = Some h \<and> c_in_cache h \<and> \<not> idle x b h)"
        using vl by (simp add: vlists_def)
      ultimately show ?thesis using h(1,2) gi by (cases "b = a") (simp_all add: vh)
    qed
    moreover have "distinct (v_in_use ?v)" using vl by (simp add: vlists_def vmoved_def)
    ultimately show ?thesis unfolding vlists_def len' by blast
  qed
  moreover have "vrefs held ?v"
    using vrefs_update [OF vf vh, of "held a"] vrefsD [OF vf h(1)] hc by simp
  moreover have "vunique ?v" using un vregion_update [OF vh h(1)] by (simp add: vunique_def)
  moreover have "mq_table.agrees (v_table ?v) (vids ?v)"
    using ag vids_update [OF vh h(1)] by (simp add: vmoved_def)
  moreover have "vregions ops tok regions n x ?v"
  proof -
    let ?w = "v\<lparr>v_tables := (v_tables v)(c_value h := t')\<rparr>"
    note T = vregions_table [OF vr un h(1) hc(1) h(4) t'(2,3,5)]
    have same: "vhandle_ok tok regions n g ?v = vhandle_ok tok regions n g ?w" "vfilters ops g ?v = vfilters ops g ?w" for g
      by (simp_all add: vhandle_ok_def vfilters_def vmoved_def)
    have "vhandle_ok tok regions n ?g ?w" using T(1) [OF h(1) hc(1)] h(3,4) q by (auto simp: vhandle_ok_def)
    moreover have "vfilters ops ?g ?w = c_queue_id ?g" using h(4) t'(4) by (simp add: vfilters_def)
    moreover have "vhandle_ok tok regions n g ?w \<and> (idle x b g \<longrightarrow> vfilters ops g ?w = c_queue_id g)"
      if "v_h v b = Some g" "c_in_cache g" "b \<noteq> a" for b g
      using T(1) [OF that(1,2)] T(2) [OF that] vregionsD(2) [OF vr that(1)] by simp
    ultimately show ?thesis
      unfolding vregions_def same vh by (metis fun_upd_apply option.inject)
  qed
  ultimately have "inv x held ?v" by (simp add: vinv_def)
  moreover have "vkeeps ops v ?v"
  proof -
    note T = vregions_table [OF vr un h(1) hc(1) h(4) t'(2,3,5)]
    have "v_h ?v b = Some g \<and> vfilters ops g ?v = vfilters ops g v" if "v_h v b = Some g" "b \<in> set (v_in_use v)" for b g
    proof -
      have g: "c_in_cache g" "\<not> idle x b g" using vl that unfolding vlists_def by auto
      then have "b \<noteq> a" using h(1,2) that(1) by auto
      moreover have "vfilters ops g ?v = vfilters ops g (v\<lparr>v_tables := (v_tables v)(c_value h := t')\<rparr>)"
        by (simp add: vfilters_def vmoved_def)
      ultimately show ?thesis using T(2) [OF that(1) g(1)] that(1) by (simp add: vh)
    qed
    moreover have "v_in_use ?v = v_in_use v" "v_table ?v = v_table v" by (simp_all add: vmoved_def)
    moreover have "vids ?v = vids v" "vregion ?v = vregion v"
      using vids_update [OF vh h(1)] vregion_update [OF vh h(1)] by simp_all
    ultimately show ?thesis unfolding vkeeps_def by blast
  qed
  ultimately show ?thesis using h(1) t'(1) by blast
qed

text \<open>Unlinking the head of a queue.\<close>

lemma unlink_head:
  assumes "inv x held v" "v_lrus v ! k = a # as" "k \<le> n"
  shows "map (remove1 a) (v_lrus v) = (v_lrus v)[k := as]" "remove1 a (v_in_use v) = v_in_use v"
proof -
  have len: "length (v_lrus v) = Suc n" and vl: "vlists x v" using assms(1) by (simp_all add: vinv_def vshape_def)
  obtain h where h: "v_h v a = Some h" "idle x a h" "c_queue_id h = k"
    using vl assms len unfolding vlists_def by (metis le_imp_less_Suc list.set_intros(1))
  have "remove1 a (v_lrus v ! i) = v_lrus v ! i" if "i < Suc n" "i \<noteq> k" for i
  proof -
    have "a \<notin> set (v_lrus v ! i)" using vl len h that unfolding vlists_def by (metis option.inject)
    then show ?thesis by (rule remove1_idem)
  qed
  then show "map (remove1 a) (v_lrus v) = (v_lrus v)[k := as]"
    using len assms by (intro nth_equalityI) (auto simp: nth_list_update)
  have "a \<notin> set (v_in_use v)" using vl h unfolding vlists_def by (metis option.inject)
  then show "remove1 a (v_in_use v) = v_in_use v" by (rule remove1_idem)
qed

end

lemma view_simps [simp]:
  "v_in_use (view m) = mq_in_use m" "v_lrus (view m) = mq_lrus m" "v_lens (view m) = mq_lru_lens m"
  "v_sum (view m) = mq_sum_lru_len m" "v_table (view m) = mq_table m" "v_tables (view m) = mq_tables m"
  "v_h (view m) a = map_option core (mq_handles m a)"
  by (simp_all add: view_def)

lemma core_simps [simp]:
  "c_id (core h) = (q_hash h, q_key h)" "c_value (core h) = q_value h" "c_in_cache (core h) = q_in_cache h"
  "c_refs (core h) = q_refs h" "c_queue_id (core h) = q_queue_id h" "c_type (core h) = q_type h"
  "c_value_id (core h) = q_value_id h"
  by (simp_all add: core_def)

lemma core_updates [simp]:
  "core (h\<lparr>q_charge := x\<rparr>) = core h" "core (h\<lparr>q_fre_count := y\<rparr>) = core h" "core (h\<lparr>q_expire_time := y\<rparr>) = core h"
  "core (h\<lparr>q_value_refs := z\<rparr>) = core h" "core (h\<lparr>q_table_handle := w\<rparr>) = core h"
  "core (h\<lparr>q_prev_region := w\<rparr>) = core h" "core (h\<lparr>q_next_region := w\<rparr>) = core h"
  "core (h\<lparr>q_queue_id := k\<rparr>) = (core h)\<lparr>c_queue_id := k\<rparr>" "core (h\<lparr>q_refs := k\<rparr>) = (core h)\<lparr>c_refs := k\<rparr>"
  "core (h\<lparr>q_in_cache := b\<rparr>) = (core h)\<lparr>c_in_cache := b\<rparr>"
  by (simp_all add: core_def)

lemma vfilters_core: "vfilters ops (core h) (view m) = region_filters ops h m"
  by (simp add: vfilters_def region_filters_def)

lemmas mq_op_defs = upd_q_def LRU_Remove_def LRU_Append_in_use_def LRU_Append_queue_def add_len_def sub_len_def add_freq_def

text \<open>The settings that no operation on the queues changes.\<close>

definition same_settings :: "'t MultiQueue \<Rightarrow> 't MultiQueue \<Rightarrow> bool" where
  "same_settings m m' \<longleftrightarrow> mq_lrus_num m' = mq_lrus_num m \<and> mq_capacity m' = mq_capacity m \<and>
     mq_current_time m' = mq_current_time m \<and> mq_life_time m' = mq_life_time m"

lemma same_settings_refl [simp]: "same_settings m m"
  by (simp add: same_settings_def)

lemma same_settings_trans: "same_settings m m' \<Longrightarrow> same_settings m' m'' \<Longrightarrow> same_settings m m''"
  by (simp add: same_settings_def)

context filtered_tables
begin

lemma shrink_step_view:
  assumes inv: "inv x held (view m)" and q: "mq_lrus m ! k = a # as" "0 < k" "k \<le> n"
  shows "\<exists>d m' h t'. shrink_step ops k a m = Some (d, m') \<and> v_h (view m) a = Some h \<and>
     view m' = vmoved k as a h t' (view m) \<and> inv x held (view m') \<and> vkeeps ops (view m) (view m') \<and> same_settings m m'"
proof -
  obtain h0 d t' where h0: "v_h (view m) a = Some h0"
    "t_remove ops 1 (c_value_id h0 - 1) (v_tables (view m) (c_value h0)) = Some (d, t')"
    "inv x held (vmoved k as a h0 t' (view m))" "vkeeps ops (view m) (vmoved k as a h0 t' (view m))"
    using move_inv [OF inv _ q(2,3), of a as] q(1) by auto
  then obtain h where h: "mq_handles m a = Some h" "h0 = core h" by auto
  have rem: "map (remove1 a) (mq_lrus m) = (mq_lrus m)[k := as]" "remove1 a (mq_in_use m) = mq_in_use m"
    using unlink_head [OF inv _ q(3), of a as] q(1) by simp_all
  have call: "call_table (t_remove ops 1) h m = Some (of_nat d, m\<lparr>mq_tables := (mq_tables m)(q_value h := t')\<rparr>)"
    using h0(2) h by (simp add: call_table_def)
  note call = call [unfolded One_nat_def]
  obtain m' where m': "shrink_step ops k a m = Some (of_nat d, m')" and v: "view m' = vmoved k as a h0 t' (view m)"
    and ss: "same_settings m m'"
  proof -
    have "shrink_step ops k a m = Some (of_nat d, snd (the (shrink_step ops k a m)))"
      by (simp add: shrink_step_def h(1) call Let_def)
    moreover have "view (snd (the (shrink_step ops k a m))) = vmoved k as a h0 t' (view m)"
      using q(2) by (simp add: shrink_step_def h call Let_def mq_op_defs view_def vmoved_def rem fun_eq_iff)
    moreover have "same_settings m (snd (the (shrink_step ops k a m)))"
      by (simp add: shrink_step_def h(1) call Let_def mq_op_defs same_settings_def)
    ultimately show ?thesis using that by blast
  qed
  then show ?thesis using h0 by metis
qed

lemma demote_step_view:
  assumes inv: "inv x held (view m)" and q: "mq_lrus m ! k = a # as" "0 < k" "k \<le> n"
  shows "\<exists>m' h t'. demote_step ops k a m = Some m' \<and> v_h (view m) a = Some h \<and>
     view m' = vmoved k as a h t' (view m) \<and> inv x held (view m') \<and> vkeeps ops (view m) (view m') \<and> same_settings m m'"
proof -
  obtain h0 d t' where h0: "v_h (view m) a = Some h0"
    "t_remove ops 1 (c_value_id h0 - 1) (v_tables (view m) (c_value h0)) = Some (d, t')"
    "inv x held (vmoved k as a h0 t' (view m))" "vkeeps ops (view m) (vmoved k as a h0 t' (view m))"
    using move_inv [OF inv _ q(2,3), of a as] q(1) by auto
  then obtain h where h: "mq_handles m a = Some h" "h0 = core h" by auto
  have rem: "map (remove1 a) (mq_lrus m) = (mq_lrus m)[k := as]" "remove1 a (mq_in_use m) = mq_in_use m"
    using unlink_head [OF inv _ q(3), of a as] q(1) by simp_all
  have call: "call_table (t_remove ops 1) h m = Some (of_nat d, m\<lparr>mq_tables := (mq_tables m)(q_value h := t')\<rparr>)"
    using h0(2) h by (simp add: call_table_def)
  note call = call [unfolded One_nat_def]
  let ?m = "the (demote_step ops k a m)"
  have "demote_step ops k a m = Some ?m" by (simp add: demote_step_def h(1) call Let_def)
  moreover have "view ?m = vmoved k as a h0 t' (view m)"
    using q(2) by (simp add: demote_step_def h call Let_def mq_op_defs view_def vmoved_def rem fun_eq_iff)
  moreover have "same_settings m ?m"
    by (simp add: demote_step_def h(1) call Let_def mq_op_defs same_settings_def)
  ultimately show ?thesis using h0 by metis
qed

lemma vmoved_queue: "view m' = vmoved k as a h t' (view m) \<Longrightarrow> 0 < k \<Longrightarrow> k < length (mq_lrus m) \<Longrightarrow> mq_lrus m' ! k = as"
proof -
  assume v: "view m' = vmoved k as a h t' (view m)" and k: "0 < k" "k < length (mq_lrus m)"
  have "mq_lrus m' = v_lrus (view m')" by simp
  also have "\<dots> = (mq_lrus m)[k := as, k - 1 := mq_lrus m ! (k - 1) @ [a]]" unfolding v by (simp add: vmoved_def)
  finally show "mq_lrus m' ! k = as" using k by (simp add: nth_list_update)
qed

lemma inv_length: "inv x held (view m) \<Longrightarrow> length (mq_lrus m) = Suc n"
  by (simp add: vinv_def vshape_def)

text \<open>Every loop over the head of a queue keeps the invariant; without force it always ends.\<close>

lemma shrink_queue_inv:
  assumes "inv x held (view m)" "mq_lrus m ! k = as" "0 < k" "k \<le> n"
  shows "\<exists>r' m'. shrink_queue ops k rc as r m = Some (r', m') \<and> inv x held (view m') \<and>
     vkeeps ops (view m) (view m') \<and> same_settings m m'"
  using assms
proof (induction as arbitrary: r m)
  case (Cons a as)
  show ?case
  proof (cases "r <s rc \<and> q_refs (qh m a) = 1 \<and> q_expire_time (qh m a) < mq_current_time m")
    case True
    obtain d m1 h t' where m1: "shrink_step ops k a m = Some (d, m1)" "view m1 = vmoved k as a h t' (view m)"
      "inv x held (view m1)" "vkeeps ops (view m) (view m1)" "same_settings m m1"
      using shrink_step_view [OF Cons.prems] by blast
    have "mq_lrus m1 ! k = as" using vmoved_queue [OF m1(2)] Cons.prems inv_length by simp
    from Cons.IH [OF m1(3) this Cons.prems(3,4), of "r + d"] m1 True show ?thesis
      by (auto intro: vkeeps_trans same_settings_trans)
  next
    case False
    then show ?thesis using Cons.prems(1) by auto
  qed
qed simp

lemma shrink_levels_inv:
  assumes "inv x held (view m)" "k \<le> n"
  shows "\<exists>r' m'. shrink_levels ops k rc r m = Some (r', m') \<and> inv x held (view m') \<and>
     vkeeps ops (view m) (view m') \<and> same_settings m m'"
  using assms
proof (induction k arbitrary: r m)
  case (Suc k)
  show ?case
  proof (cases "mq_usage m > mq_capacity m")
    case True
    obtain r1 m1 where m1: "shrink_queue ops (Suc k) rc (mq_lrus m ! Suc k) r m = Some (r1, m1)"
      "inv x held (view m1)" "vkeeps ops (view m) (view m1)" "same_settings m m1"
      using shrink_queue_inv [OF Suc.prems(1) refl _ Suc.prems(2)] by blast
    from Suc.IH [OF m1(2), of r1] Suc.prems(2) m1 True show ?thesis
      by (auto intro: vkeeps_trans same_settings_trans)
  next
    case False
    then show ?thesis using Suc.prems(1) by auto
  qed
qed simp

lemma force_queue_inv:
  assumes "inv x held (view m)" "mq_lrus m ! k = as" "0 < k" "k \<le> n" "force_queue ops k rc as r m = Some m'"
  shows "inv x held (view m') \<and> vkeeps ops (view m) (view m') \<and> same_settings m m'"
  using assms
proof (induction as arbitrary: r m)
  case Nil
  then show ?case by (auto split: if_splits)
next
  case (Cons a as)
  show ?case
  proof (cases "r <s rc")
    case True
    obtain d m1 h t' where m1: "shrink_step ops k a m = Some (d, m1)" "view m1 = vmoved k as a h t' (view m)"
      "inv x held (view m1)" "vkeeps ops (view m) (view m1)" "same_settings m m1"
      using shrink_step_view [OF Cons.prems(1-4)] by blast
    have "mq_lrus m1 ! k = as" using vmoved_queue [OF m1(2)] Cons.prems inv_length by simp
    moreover have "force_queue ops k rc as (r + d) m1 = Some m'" using Cons.prems(5) True m1(1) by simp
    ultimately show ?thesis using Cons.IH [OF m1(3) _ Cons.prems(3,4)] m1 vkeeps_trans same_settings_trans by blast
  next
    case False
    then show ?thesis using Cons.prems by auto
  qed
qed

lemma demote_queue_inv:
  assumes "inv x held (view m)" "mq_lrus m ! k = as" "0 < k" "k \<le> n"
  shows "\<exists>m'. demote_queue ops k need as rb m = Some m' \<and> inv x held (view m') \<and>
     vkeeps ops (view m) (view m') \<and> same_settings m m'"
  using assms
proof (induction as arbitrary: rb m)
  case (Cons a as)
  show ?case
  proof (cases "rb <s need")
    case True
    obtain m1 h t' where m1: "demote_step ops k a m = Some m1" "view m1 = vmoved k as a h t' (view m)"
      "inv x held (view m1)" "vkeeps ops (view m) (view m1)" "same_settings m m1"
      using demote_step_view [OF Cons.prems] by blast
    have "mq_lrus m1 ! k = as" using vmoved_queue [OF m1(2)] Cons.prems inv_length by simp
    from Cons.IH [OF m1(3) this Cons.prems(3,4), of "rb + filter_bits (qh m a) k m"] m1 True show ?thesis
      by (auto intro: vkeeps_trans same_settings_trans)
  next
    case False
    then show ?thesis using Cons.prems(1) by auto
  qed
qed simp

end

lemma longest_queue_range:
  assumes "longest_queue m = Some k"
  shows "1 \<le> k \<and> k < mq_lrus_num m"
proof -
  let ?f = "\<lambda>i (max_lens, max_i). if mq_lru_lens m ! i > max_lens then (mq_lru_lens m ! i, Some i) else (max_lens, max_i)"
  have "snd (fold ?f is' (l, q)) = Some k \<Longrightarrow> q = Some k \<or> k \<in> set is'" for is' l q
  proof (induction is' arbitrary: l q)
    case (Cons i is')
    from Cons.prems Cons.IH show ?case by (fastforce split: if_splits)
  qed simp
  from this [of "[1..<mq_lrus_num m]" 0 None] assms show ?thesis by (simp add: longest_queue_def)
qed

context filtered_tables
begin

lemma MayBeShrinkUsage_inv:
  assumes "inv x held (view m)" "mq_lrus_num m = Suc n" "MayBeShrinkUsage ops m = Some m'"
  shows "inv x held (view m') \<and> vkeeps ops (view m) (view m') \<and> same_settings m m'"
proof (cases "mq_usage m \<ge> mq_capacity m")
  case True
  let ?m = "m\<lparr>mq_init := False\<rparr>"
  have v: "view ?m = view m" "same_settings m ?m" by (simp_all add: view_def same_settings_def)
  have "inv x held (view ?m)" using assms(1) by (simp add: v)
  from shrink_levels_inv [OF this, of n "mq_usage m - mq_capacity m" 0]
  obtain r m1 where m1: "shrink_levels ops n (mq_usage m - mq_capacity m) 0 ?m = Some (r, m1)"
    "inv x held (view m1)" "vkeeps ops (view m) (view m1)" "same_settings ?m m1" by (auto simp: v)
  have n1: "mq_lrus_num m1 = Suc n" using m1(4) assms(2) by (simp add: same_settings_def)
  have ss: "same_settings m m1" using same_settings_trans [OF v(2) m1(4)] .
  show ?thesis
  proof (cases "r <s mq_usage m - mq_capacity m")
    case False
    then show ?thesis using assms(2,3) True m1 ss by (simp add: MayBeShrinkUsage_def ShrinkLRU_expired_def)
  next
    case r: True
    then have force: "ShrinkLRU_force ops (mq_usage m1 - mq_capacity m1) m1 = Some m'"
      using assms(2,3) True m1 by (simp add: MayBeShrinkUsage_def ShrinkLRU_expired_def)
    show ?thesis
    proof (cases "longest_queue m1")
      case None
      then show ?thesis using force m1 ss by (simp add: ShrinkLRU_force_def)
    next
      case (Some k)
      then have k: "0 < k" "k \<le> n" using longest_queue_range [OF Some] n1 by simp_all
      from force_queue_inv [OF m1(2) refl k] force Some m1(3) ss
      show ?thesis unfolding ShrinkLRU_force_def by (auto intro: vkeeps_trans same_settings_trans)
    qed
  qed
next
  case False
  then show ?thesis using assms by (simp add: MayBeShrinkUsage_def)
qed

end

subsection \<open>Changes at one handle\<close>

text \<open>The exempt handle is \<open>a\<close> or none, before and after.\<close>

definition exempt :: "addr \<Rightarrow> addr option \<Rightarrow> bool" where
  "exempt a x \<longleftrightarrow> x = None \<or> x = Some a"

lemma idle_other: "exempt a x \<Longrightarrow> exempt a x' \<Longrightarrow> b \<noteq> a \<Longrightarrow> idle x b h = idle x' b h"
  by (auto simp: idle_def exempt_def)

lemma vlists_at:
  assumes vl: "vlists x v" and x: "exempt a x" "exempt a x'"
    and h: "v_h v' = (v_h v)(a := y)" and len: "length (v_lrus v') = length (v_lrus v)"
    and lrus: "\<And>i. i < length (v_lrus v) \<Longrightarrow> distinct (v_lrus v' ! i) \<and> set (v_lrus v' ! i) - {a} = set (v_lrus v ! i) - {a} \<and>
      (a \<in> set (v_lrus v' ! i) \<longleftrightarrow> (\<exists>g. y = Some g \<and> idle x' a g \<and> c_queue_id g = i))"
    and use': "distinct (v_in_use v')" "set (v_in_use v') - {a} = set (v_in_use v) - {a}"
      "a \<in> set (v_in_use v') \<longleftrightarrow> (\<exists>g. y = Some g \<and> c_in_cache g \<and> \<not> idle x' a g)"
  shows "vlists x' v'"
proof -
  have "b \<in> set (v_lrus v' ! i) \<longleftrightarrow> (\<exists>h. v_h v' b = Some h \<and> idle x' b h \<and> c_queue_id h = i)"
    if i: "i < length (v_lrus v)" for b i
  proof (cases "b = a")
    case False
    then have "b \<in> set (v_lrus v' ! i) \<longleftrightarrow> b \<in> set (v_lrus v ! i)" using lrus [OF i] by blast
    also have "\<dots> \<longleftrightarrow> (\<exists>h. v_h v b = Some h \<and> idle x b h \<and> c_queue_id h = i)" using vl i by (simp add: vlists_def)
    finally show ?thesis using False idle_other [OF x False] by (simp add: h)
  qed (use lrus [OF i] h in simp)
  moreover have "b \<in> set (v_in_use v') \<longleftrightarrow> (\<exists>h. v_h v' b = Some h \<and> c_in_cache h \<and> \<not> idle x' b h)" for b
  proof (cases "b = a")
    case False
    then have "b \<in> set (v_in_use v') \<longleftrightarrow> b \<in> set (v_in_use v)" using use'(2) by blast
    also have "\<dots> \<longleftrightarrow> (\<exists>h. v_h v b = Some h \<and> c_in_cache h \<and> \<not> idle x b h)" using vl by (simp add: vlists_def)
    finally show ?thesis using False idle_other [OF x False] by (simp add: h)
  qed (use use'(3) h in simp)
  ultimately show ?thesis using lrus use'(1) unfolding vlists_def len by blast
qed

lemma vregions_at:
  assumes vr: "vregions ops tok regions n x v" and x: "exempt a x" "exempt a x'"
    and h: "v_h v' = (v_h v)(a := y)" "v_tables v' = v_tables v"
    and y: "\<And>g. y = Some g \<Longrightarrow> c_in_cache g \<Longrightarrow>
      vhandle_ok tok regions n g v \<and> (idle x' a g \<longrightarrow> vfilters ops g v = c_queue_id g)"
  shows "vregions ops tok regions n x' v'"
proof -
  have same: "vhandle_ok tok regions n g v' = vhandle_ok tok regions n g v" "vfilters ops g v' = vfilters ops g v" for g
    by (simp_all add: vhandle_ok_def vfilters_def h(2))
  have "vhandle_ok tok regions n g v \<and> (idle x' b g \<longrightarrow> vfilters ops g v = c_queue_id g)"
    if "v_h v b = Some g" "c_in_cache g" "b \<noteq> a" for b g
    using vr that idle_other [OF x that(3)] by (simp add: vregions_def)
  then show ?thesis using y unfolding vregions_def same h by (metis fun_upd_apply)
qed

lemma vunique_drop: "vunique v \<Longrightarrow> v_h v' = (v_h v)(a := y) \<Longrightarrow> (\<And>g. y = Some g \<Longrightarrow> \<not> c_in_cache g) \<Longrightarrow> vunique v'"
proof -
  assume v: "vunique v" "v_h v' = (v_h v)(a := y)" "\<And>g. y = Some g \<Longrightarrow> \<not> c_in_cache g"
  have "vregion v' b = (if b = a then None else vregion v b)" for b
    using v(3) by (cases y) (auto simp: vregion_def v(2))
  with v(1) show ?thesis unfolding vunique_def by (metis option.distinct(1))
qed

lemma vids_drop: "v_h v' = (v_h v)(a := y) \<Longrightarrow> (\<And>g. y = Some g \<Longrightarrow> \<not> c_in_cache g) \<Longrightarrow> vids v' = (vids v)(a := None)"
  unfolding vids_def by (auto simp: fun_eq_iff split: option.splits)

lemma vlists_queue:
  assumes "vlists x v" "v_h v a = Some h" "i < length (v_lrus v)"
  shows "a \<in> set (v_lrus v ! i) \<longleftrightarrow> idle x a h \<and> c_queue_id h = i" "distinct (v_lrus v ! i)"
  using assms unfolding vlists_def by auto

lemma vlists_in_use:
  assumes "vlists x v" "v_h v a = Some h"
  shows "a \<in> set (v_in_use v) \<longleftrightarrow> c_in_cache h \<and> \<not> idle x a h" "distinct (v_in_use v)"
  using assms unfolding vlists_def by auto

context filtered_tables
begin

lemma inv_parts:
  assumes "inv x held v"
  shows "vshape n v" "vlists x v" "vrefs held v" "vregions ops tok regions n x v" "vunique v"
    "mq_table.agrees (v_table v) (vids v)" "length (v_lrus v) = Suc n"
  using assms by (simp_all add: vinv_def vshape_def)

text \<open>A handle in use changes its references or its queue.\<close>

lemma busy_update:
  assumes inv: "inv x held v" and a: "v_h v a = Some h" "c_in_cache h" "\<not> idle x a h"
    and g: "g = h\<lparr>c_refs := r, c_queue_id := q\<rparr>" "\<not> idle x' a g" "q \<le> n" "c_value_id h = 0 \<longrightarrow> q = 0"
    and k: "vref_ok k (Some g)" and x: "exempt a x" "exempt a x'"
  shows "inv x' (held(a := k)) (v\<lparr>v_h := (v_h v)(a \<mapsto> g)\<rparr>)"
proof -
  let ?v = "v\<lparr>v_h := (v_h v)(a \<mapsto> g)\<rparr>"
  note p = inv_parts [OF inv]
  have vh: "v_h ?v = (v_h v)(a \<mapsto> g)" by simp
  have gc: "c_in_cache g" "c_id g = c_id h" "c_value g = c_value h" "c_value_id g = c_value_id h" using a(2) g(1) by simp_all
  have "vlists x' ?v"
  proof (rule vlists_at [OF p(2) x vh])
    fix i assume i: "i < length (v_lrus v)"
    show "distinct (v_lrus ?v ! i) \<and> set (v_lrus ?v ! i) - {a} = set (v_lrus v ! i) - {a} \<and>
        (a \<in> set (v_lrus ?v ! i) \<longleftrightarrow> (\<exists>g'. Some g = Some g' \<and> idle x' a g' \<and> c_queue_id g' = i))"
      using vlists_queue [OF p(2) a(1) i] a(3) g(2) by simp
  qed (use vlists_in_use [OF p(2) a(1)] a gc g(2) in simp_all)
  moreover have "vregions ops tok regions n x' ?v"
  proof (rule vregions_at [OF p(4) x vh])
    fix g' assume g': "Some g = Some g'" "c_in_cache g'"
    have "vhandle_ok tok regions n h v" using vregionsD(1) [OF p(4) a(1,2)] .
    then have "vhandle_ok tok regions n g v" using g by (auto simp: vhandle_ok_def split: if_splits)
    with g' g(2) show "vhandle_ok tok regions n g' v \<and> (idle x' a g' \<longrightarrow> vfilters ops g' v = c_queue_id g')" by simp
  qed simp
  moreover have "vrefs (held(a := k)) ?v" using vrefs_update [OF p(3) vh k] .
  moreover have "vids ?v = vids v" "vregion ?v = vregion v"
    using vids_update [OF vh a(1)] vregion_update [OF vh a(1)] gc a(2) by simp_all
  moreover have "vshape n ?v" using p(1) by (simp add: vshape_def)
  ultimately show ?thesis using p(5,6) by (simp add: vinv_def vunique_def)
qed

text \<open>An idle handle gets its first client and leaves its queue.\<close>

lemma take_inv:
  assumes inv: "inv None held v" and a: "v_h v a = Some h" "idle None a h"
  defines "v' \<equiv> v\<lparr>v_in_use := remove1 a (v_in_use v) @ [a], v_lrus := map (remove1 a) (v_lrus v),
      v_lens := (v_lens v)[c_queue_id h := v_lens v ! c_queue_id h - 1], v_sum := v_sum v - 1,
      v_h := (v_h v)(a \<mapsto> h\<lparr>c_refs := 2\<rparr>)\<rparr>"
  shows "inv None (held(a := held a + 1)) v'"
proof -
  note p = inv_parts [OF inv]
  let ?g = "h\<lparr>c_refs := 2\<rparr>" and ?q = "c_queue_id h"
  have hc: "c_in_cache h" "c_refs h = 1" using a(2) by (simp_all add: idle_def)
  have vh: "v_h v' = (v_h v)(a \<mapsto> ?g)" by (simp add: v'_def)
  have ng: "\<not> idle None a ?g" by (simp add: idle_def)
  have q: "?q < length (v_lrus v)" using vregionsD(1) [OF p(4) a(1) hc(1)] p(7) by (simp add: vhandle_ok_def)
  note Q = vlists_queue [OF p(2) a(1)] and U = vlists_in_use [OF p(2) a(1)]
  have rem: "remove1 a (v_lrus v ! i) = v_lrus v ! i" if "i < length (v_lrus v)" "i \<noteq> ?q" for i
    using Q(1) [OF that(1)] that(2) by (simp add: remove1_idem)
  have "vlists None v'"
  proof (rule vlists_at [OF p(2) _ _ vh])
    fix i assume i: "i < length (v_lrus v)"
    show "distinct (v_lrus v' ! i) \<and> set (v_lrus v' ! i) - {a} = set (v_lrus v ! i) - {a} \<and>
        (a \<in> set (v_lrus v' ! i) \<longleftrightarrow> (\<exists>g'. Some ?g = Some g' \<and> idle None a g' \<and> c_queue_id g' = i))"
      using Q(2) [OF i] i ng by (auto simp: v'_def)
  qed (use U a(2) hc ng in \<open>auto simp: v'_def exempt_def\<close>)
  moreover have "vregions ops tok regions n None v'"
    using vregionsD(1) [OF p(4) a(1) hc(1)] ng
    by (intro vregions_at [OF p(4) _ _ vh]) (auto simp: v'_def exempt_def vhandle_ok_def)
  moreover have "vrefs (held(a := held a + 1)) v'"
    using vrefsD [OF p(3) a(1)] hc by (intro vrefs_update [OF p(3) vh]) simp
  moreover have "vids v' = vids v" "vregion v' = vregion v"
    using vids_update [OF vh a(1)] vregion_update [OF vh a(1)] by simp_all
  moreover have "vshape n v'"
  proof -
    have ne: "v_lrus v ! ?q \<noteq> []" using Q(1) [OF q] a(2) by auto
    have "length (remove1 a (v_lrus v ! ?q)) = length (v_lrus v ! ?q) - 1"
      using Q(1) [OF q] a(2) by (simp add: length_remove1)
    then have "map length (map (remove1 a) (v_lrus v)) = (map length (v_lrus v))[?q := length (v_lrus v ! ?q) - 1]"
      using rem q by (intro nth_equalityI) (auto simp: nth_list_update)
    moreover have "0 < length (v_lrus v ! ?q)" using ne by simp
    then have "sum_list ((map length (v_lrus v))[?q := length (v_lrus v ! ?q) - 1]) = sum_list (map length (v_lrus v)) - 1"
      using q elem_le_sum_list [of ?q "map length (v_lrus v)"]
      by (simp add: sum_list_update del: length_greater_0_conv)
    ultimately show ?thesis using p(1) q by (simp add: vshape_def v'_def)
  qed
  moreover have "v_table v' = v_table v" by (simp add: v'_def)
  ultimately show ?thesis using p(5,6) by (simp add: vinv_def vunique_def)
qed

end

end
