(* ===== verification/MultiQueueRun.thy ===== *)
theory MultiQueueRun
  imports MultiQueueInv
begin

text \<open>
  Every operation of the multi-queue keeps its invariant, and so does every use of it: the
  queue of an idle region is the number of filters the region has loaded.
\<close>

subsection \<open>Entering and leaving the queues\<close>

text \<open>The invariant without the hash table.\<close>

definition vinv0 ::
  "'t table_ops \<Rightarrow> ('t \<Rightarrow> bool) \<Rightarrow> ('t \<Rightarrow> nat) \<Rightarrow> nat \<Rightarrow> addr option \<Rightarrow> (addr \<Rightarrow> nat) \<Rightarrow> 't mqview \<Rightarrow> bool" where
  "vinv0 ops tok regions n x held v \<longleftrightarrow>
     vshape n v \<and> vlists x v \<and> vrefs held v \<and> vregions ops tok regions n x v \<and> vunique v"

lemma vinv_split: "vinv ops tok regions n x held v \<longleftrightarrow>
    vinv0 ops tok regions n x held v \<and> mq_table.agrees (v_table v) (vids v)"
  by (auto simp: vinv_def vinv0_def)

lemma vinv0_frame:
  "v_in_use v' = v_in_use v \<Longrightarrow> v_lrus v' = v_lrus v \<Longrightarrow> v_lens v' = v_lens v \<Longrightarrow> v_sum v' = v_sum v \<Longrightarrow>
   v_h v' = v_h v \<Longrightarrow> v_tables v' = v_tables v \<Longrightarrow>
   vinv0 ops tok regions n x held v' = vinv0 ops tok regions n x held v"
  by (simp add: vinv0_def vshape_def vlists_def vrefs_def vregions_def vunique_def vregion_def vhandle_ok_def vfilters_def)

lemma vshape_append:
  assumes "vshape n v" "q \<le> n" "v_lrus v' = (v_lrus v)[q := v_lrus v ! q @ [e]]"
    "v_lens v' = (v_lens v)[q := v_lens v ! q + 1]" "v_sum v' = v_sum v + 1"
  shows "vshape n v'"
  using assms elem_le_sum_list [of q "map length (v_lrus v)"]
  by (simp add: vshape_def map_update sum_list_update)

context filtered_tables
begin

abbreviation inv0 :: "addr option \<Rightarrow> (addr \<Rightarrow> nat) \<Rightarrow> 't mqview \<Rightarrow> bool" where
  "inv0 \<equiv> vinv0 ops tok regions n"

lemma inv0_parts:
  assumes "inv0 x held v"
  shows "vshape n v" "vlists x v" "vrefs held v" "vregions ops tok regions n x v" "vunique v" "length (v_lrus v) = Suc n"
  using assms by (simp_all add: vinv0_def vshape_def)

text \<open>The settled region goes to the end of its queue.\<close>

lemma put_inv:
  assumes inv: "inv (Some e) held v" and e: "v_h v e = Some h" "c_in_cache h" "c_refs h = 1"
    and f: "vfilters ops h v = c_queue_id h"
    and v': "v_in_use v' = remove1 e (v_in_use v)" "v_h v' = v_h v" "v_tables v' = v_tables v" "v_table v' = v_table v"
      "v_lrus v' = (v_lrus v)[c_queue_id h := v_lrus v ! c_queue_id h @ [e]]"
      "v_lens v' = (v_lens v)[c_queue_id h := v_lens v ! c_queue_id h + 1]" "v_sum v' = v_sum v + 1"
  shows "inv None held v'"
proof -
  note p = inv_parts [OF inv]
  let ?q = "c_queue_id h"
  have ok: "vhandle_ok tok regions n h v" using vregionsD(1) [OF p(4) e(1,2)] .
  then have q: "?q \<le> n" "?q < length (v_lrus v)" using p(7) by (simp_all add: vhandle_ok_def)
  have vh: "v_h v' = (v_h v)(e := Some h)" using v'(2) e(1) by auto
  have ni: "\<not> idle (Some e) e h" "idle None e h" using e by (simp_all add: idle_def)
  have x: "exempt e (Some e)" "exempt e None" by (simp_all add: exempt_def)
  note Q = vlists_queue [OF p(2) e(1)] and U = vlists_in_use [OF p(2) e(1)]
  have "vlists None v'"
  proof (rule vlists_at [OF p(2) x vh])
    fix i assume i: "i < length (v_lrus v)"
    have "v_lrus v' ! i = (if i = ?q then v_lrus v ! i @ [e] else v_lrus v ! i)" using i q by (simp add: v'(5) nth_list_update)
    then show "distinct (v_lrus v' ! i) \<and> set (v_lrus v' ! i) - {e} = set (v_lrus v ! i) - {e} \<and>
        (e \<in> set (v_lrus v' ! i) \<longleftrightarrow> (\<exists>g'. Some h = Some g' \<and> idle None e g' \<and> c_queue_id g' = i))"
      using Q [OF i] ni by auto
  qed (use U e ni v'(1,5) in auto)
  moreover have "vregions ops tok regions n None v'"
    using ok f by (intro vregions_at [OF p(4) x vh v'(3)]) auto
  moreover have "vrefs held v'" using p(3) by (simp add: vrefs_def v'(2))
  moreover have "vids v' = vids v" "vregion v' = vregion v" by (simp_all add: vids_def vregion_def v'(2) fun_eq_iff)
  moreover have "vshape n v'" using vshape_append [OF p(1) q(1) v'(5-7)] .
  ultimately show ?thesis using p(5,6) by (simp add: vinv_def vunique_def v'(4))
qed

text \<open>A handle leaves the cache.\<close>

lemma drop_inv:
  assumes inv: "inv0 None held v" and e: "v_h v e = Some h" "c_in_cache h"
    and t: "mq_table.agrees (v_table v) ((vids v)(e := None))"
  defines "v' \<equiv> v\<lparr>v_in_use := remove1 e (v_in_use v), v_lrus := map (remove1 e) (v_lrus v),
      v_lens := (if c_refs h = 1 then (v_lens v)[c_queue_id h := v_lens v ! c_queue_id h - 1] else v_lens v),
      v_sum := (if c_refs h = 1 then v_sum v - 1 else v_sum v),
      v_h := (v_h v)(e := if c_refs h = 1 then None else Some (h\<lparr>c_in_cache := False, c_refs := c_refs h - 1\<rparr>))\<rparr>"
  shows "inv None held v'"
proof -
  note p = inv0_parts [OF inv]
  let ?q = "c_queue_id h" and ?y = "if c_refs h = 1 then None else Some (h\<lparr>c_in_cache := False, c_refs := c_refs h - 1\<rparr>)"
  have vh: "v_h v' = (v_h v)(e := ?y)" by (simp add: v'_def)
  have y: "\<And>g. ?y = Some g \<Longrightarrow> \<not> c_in_cache g" by (auto split: if_splits)
  have x: "exempt e None" by (simp add: exempt_def)
  note Q = vlists_queue [OF p(2) e(1)] and U = vlists_in_use [OF p(2) e(1)]
  have idl: "idle None e h \<longleftrightarrow> c_refs h = 1" using e by (simp add: idle_def)
  have q: "?q < length (v_lrus v)" using vregionsD(1) [OF p(4) e] p(6) by (simp add: vhandle_ok_def)
  have rem: "remove1 e (v_lrus v ! i) = v_lrus v ! i" if "i < length (v_lrus v)" "i \<noteq> ?q \<or> c_refs h \<noteq> 1" for i
    using Q(1) [OF that(1)] that(2) idl by (auto simp: remove1_idem)
  have "vlists None v'"
  proof (rule vlists_at [OF p(2) x x vh])
    fix i assume i: "i < length (v_lrus v)"
    show "distinct (v_lrus v' ! i) \<and> set (v_lrus v' ! i) - {e} = set (v_lrus v ! i) - {e} \<and>
        (e \<in> set (v_lrus v' ! i) \<longleftrightarrow> (\<exists>g. ?y = Some g \<and> idle None e g \<and> c_queue_id g = i))"
      using Q(2) [OF i] i y by (auto simp: v'_def idle_def)
  next
    show "distinct (v_in_use v')" "set (v_in_use v') - {e} = set (v_in_use v) - {e}"
      "e \<in> set (v_in_use v') \<longleftrightarrow> (\<exists>g. ?y = Some g \<and> c_in_cache g \<and> \<not> idle None e g)"
      using U y by (auto simp: v'_def)
  qed (simp add: v'_def)
  moreover have "vregions ops tok regions n None v'"
    using y by (intro vregions_at [OF p(4) x x vh]) (auto simp: v'_def)
  moreover have "vrefs held v'"
    using vrefs_update [OF p(3) vh, of "held e"] vrefsD [OF p(3) e(1)] e(2) by simp
  moreover have "vunique v'" using vunique_drop [OF p(5) vh y] .
  moreover have "vids v' = (vids v)(e := None)" using vids_drop [OF vh y] .
  moreover have "vshape n v'"
  proof (cases "c_refs h = 1")
    case True
    have "e \<in> set (v_lrus v ! ?q)" using Q(1) [OF q] idl True by simp
    then have L: "length (remove1 e (v_lrus v ! ?q)) = length (v_lrus v ! ?q) - 1" "0 < length (v_lrus v ! ?q)"
      by (auto simp: length_remove1 length_pos_if_in_set)
    then have "map length (map (remove1 e) (v_lrus v)) = (map length (v_lrus v))[?q := length (v_lrus v ! ?q) - 1]"
      using rem q by (intro nth_equalityI) (auto simp: nth_list_update)
    moreover have "sum_list ((map length (v_lrus v))[?q := length (v_lrus v ! ?q) - 1]) = sum_list (map length (v_lrus v)) - 1"
      using q L(2) elem_le_sum_list [of ?q "map length (v_lrus v)"]
      by (simp add: sum_list_update del: length_greater_0_conv)
    ultimately show ?thesis using p(1) q True by (simp add: vshape_def v'_def)
  next
    case False
    then have "map (remove1 e) (v_lrus v) = v_lrus v" using rem by (intro nth_equalityI) auto
    then show ?thesis using p(1) False by (simp add: vshape_def v'_def)
  qed
  moreover have "v_table v' = v_table v" by (simp add: v'_def)
  ultimately show ?thesis using t by (simp add: vinv_def)
qed

text \<open>A handle outside the cache is released.\<close>

lemma dead_update:
  assumes inv: "inv None held v" and e: "v_h v e = Some h" "\<not> c_in_cache h"
    and y: "\<And>g. y = Some g \<Longrightarrow> \<not> c_in_cache g" and k: "vref_ok k y"
  shows "inv None (held(e := k)) (v\<lparr>v_h := (v_h v)(e := y)\<rparr>)"
proof -
  let ?v = "v\<lparr>v_h := (v_h v)(e := y)\<rparr>"
  note p = inv_parts [OF inv]
  have vh: "v_h ?v = (v_h v)(e := y)" by simp
  have x: "exempt e None" by (simp add: exempt_def)
  have "vlists None ?v"
    using vlists_queue [OF p(2) e(1)] vlists_in_use [OF p(2) e(1)] e(2) y
    by (intro vlists_at [OF p(2) x x vh]) (auto simp: idle_def)
  moreover have "vregions ops tok regions n None ?v"
    using y by (intro vregions_at [OF p(4) x x vh]) auto
  moreover have "vids ?v = vids v"
    using vids_drop [OF vh y] e by (auto simp: vids_def fun_eq_iff)
  moreover have "vshape n ?v" using p(1) by (simp add: vshape_def)
  ultimately show ?thesis using vunique_drop [OF p(5) vh y] vrefs_update [OF p(3) vh k] p(6) by (simp add: vinv_def)
qed

end

subsection \<open>What the operations do to the view\<close>

lemma view_upd_core: "(\<And>h. core (f h) = core h) \<Longrightarrow> view (upd_q e f m) = view m"
  by (auto simp: view_def upd_q_def fun_eq_iff option.map_comp o_def)

lemma view_upd_q: "mq_handles m e = Some h \<Longrightarrow>
    view (upd_q e f m) = (view m)\<lparr>v_h := (v_h (view m))(e \<mapsto> core (f h))\<rparr>"
  by (auto simp: view_def upd_q_def fun_eq_iff)

lemma view_frame [simp]:
  "view (add_freq k c m) = view m" "view (m\<lparr>mq_expection := r\<rparr>) = view m" "view (m\<lparr>mq_usage := u\<rparr>) = view m"
  "view (m\<lparr>mq_deleted := d\<rparr>) = view m" "view (m\<lparr>mq_insert_count := i\<rparr>) = view m"
  "view (m\<lparr>mq_current_time := t\<rparr>) = view m" "view (m\<lparr>mq_need_adjust := b\<rparr>) = view m"
  by (simp_all add: view_def add_freq_def)

lemma settings_frame [simp]:
  "same_settings m (add_freq k c m)" "same_settings m (m\<lparr>mq_expection := r\<rparr>)" "same_settings m (m\<lparr>mq_usage := u\<rparr>)"
  "same_settings m (upd_q e f m)"
  by (simp_all add: same_settings_def add_freq_def upd_q_def)

lemma handles_frame [simp]:
  "mq_handles (add_freq k c m) = mq_handles m" "mq_handles (upd_q e f m) e = map_option f (mq_handles m e)"
  by (simp_all add: add_freq_def upd_q_def)

lemma promote_view:
  assumes "mq_handles m e = Some h"
  shows "view (promote e m) = (view m)\<lparr>v_h := (v_h (view m))(e \<mapsto> (core h)\<lparr>c_queue_id := q_queue_id h + 1\<rparr>)\<rparr>"
    and "same_settings m (promote e m)" "mq_handles (promote e m) e = Some (h\<lparr>q_queue_id := q_queue_id h + 1\<rparr>)"
proof -
  let ?m = "add_freq (q_queue_id h + 1) (q_fre_count h) (add_freq (q_queue_id h) (- q_fre_count h) m)"
  have p: "promote e m = upd_q e (\<lambda>h. h\<lparr>q_queue_id := q_queue_id h + 1\<rparr>) ?m"
    using assms by (simp add: promote_def Let_def)
  show "view (promote e m) = (view m)\<lparr>v_h := (v_h (view m))(e \<mapsto> (core h)\<lparr>c_queue_id := q_queue_id h + 1\<rparr>)\<rparr>"
    using view_upd_q [of ?m e h "\<lambda>h. h\<lparr>q_queue_id := q_queue_id h + 1\<rparr>"] assms by (simp add: p)
  show "same_settings m (promote e m)" unfolding p by (simp add: same_settings_def add_freq_def upd_q_def)
  show "mq_handles (promote e m) e = Some (h\<lparr>q_queue_id := q_queue_id h + 1\<rparr>)" unfolding p using assms by simp
qed

lemma choose_queue_range:
  assumes "choose_queue ops need ne now m = (r, Some k)"
  shows "1 \<le> k \<and> k < mq_lrus_num m"
proof -
  let ?f = "\<lambda>i (min_expection, min_i).
        let (remove_bits, change) = scan_expired ops i need m (mq_lrus m ! i) (0, ne)
        in if \<not> remove_bits <s need \<and> change < min_expection then (change, Some i) else (min_expection, min_i)"
  have "snd (fold ?f is' (l, q)) = Some k \<Longrightarrow> q = Some k \<or> k \<in> set is'" for is' l q
  proof (induction is' arbitrary: l q)
    case (Cons i is')
    obtain rb ch where "scan_expired ops i need m (mq_lrus m ! i) (0, ne) = (rb, ch)" by fastforce
    then obtain l' q' where f: "?f i (l, q) = (l', q')" "q' = q \<or> q' = Some i"
      by (cases "\<not> rb <s need \<and> ch < l") auto
    from Cons.IH [of l' q'] Cons.prems f show ?case by auto
  qed simp
  from this [of "[1..<mq_lrus_num m]" now None] assms show ?thesis by (simp add: choose_queue_def)
qed

subsection \<open>References\<close>

text \<open>\<open>busy e m h\<close>: the handle at \<open>e\<close> is cached and on \<open>in_use_\<close>.\<close>

definition busy :: "addr \<Rightarrow> 't MultiQueue \<Rightarrow> LRUQueueHandle \<Rightarrow> bool" where
  "busy e m h \<longleftrightarrow> mq_handles m e = Some h \<and> q_in_cache h \<and> q_refs h \<noteq> 1"

context filtered_tables
begin

lemma promote_inv:
  assumes inv: "inv None held (view m)" and e: "busy e m h" "0 < q_value_id h" "q_queue_id h < n"
  shows "inv None held (view (promote e m))" "\<exists>h'. busy e (promote e m) h' \<and> q_value_id h' = q_value_id h"
proof -
  have h: "mq_handles m e = Some h" "q_in_cache h" "q_refs h \<noteq> 1" using e(1) by (simp_all add: busy_def)
  note p = inv_parts [OF inv]
  have vh: "v_h (view m) e = Some (core h)" using h by simp
  have "inv None (held(e := held e)) ((view m)\<lparr>v_h := (v_h (view m))(e \<mapsto> (core h)\<lparr>c_refs := q_refs h, c_queue_id := q_queue_id h + 1\<rparr>)\<rparr>)"
    using vrefsD [OF p(3) vh] h e(2,3) by (intro busy_update [OF inv vh]) (auto simp: idle_def exempt_def)
  moreover have "(core h)\<lparr>c_refs := q_refs h, c_queue_id := q_queue_id h + 1\<rparr> = (core h)\<lparr>c_queue_id := q_queue_id h + 1\<rparr>"
    by (simp add: core_def)
  ultimately show "inv None held (view (promote e m))" unfolding promote_view(1) [OF h(1)] by (simp only: fun_upd_triv)
  show "\<exists>h'. busy e (promote e m) h' \<and> q_value_id h' = q_value_id h"
    using promote_view(3) [OF h(1)] h by (simp add: busy_def)
qed

lemma busy_kept:
  assumes "inv None held (view m)" "vkeeps ops (view m) (view m')" "busy e m h"
  shows "\<exists>h'. busy e m' h' \<and> core h' = core h"
proof -
  have h: "v_h (view m) e = Some (core h)" "q_in_cache h" "q_refs h \<noteq> 1" using assms(3) by (auto simp: busy_def)
  then have "e \<in> set (v_in_use (view m))"
    using vlists_in_use(1) [OF inv_parts(2) [OF assms(1)] h(1)] by (simp add: idle_def)
  then have "v_h (view m') e = Some (core h)" using assms(2) h(1) unfolding vkeeps_def by blast
  then obtain h' where "mq_handles m' e = Some h'" "core h' = core h" by auto
  moreover from this(2) have "q_in_cache h' = q_in_cache h" "q_refs h' = q_refs h" by (simp_all add: core_def)
  ultimately show ?thesis using h by (auto simp: busy_def)
qed

lemma RecomputeExp_inv:
  assumes inv: "inv None held (view m)" and N: "mq_lrus_num m = Suc n" and e: "busy e m h" "0 < q_value_id h"
  shows "\<exists>m'. RecomputeExp ops e m = Some m' \<and> inv None held (view m') \<and> same_settings m m'"
proof -
  have h: "mq_handles m e = Some h" using e by (simp add: busy_def)
  let ?m = "upd_q e (\<lambda>h. h\<lparr>q_fre_count := q_fre_count h + 1\<rparr>) m" and ?h = "h\<lparr>q_fre_count := q_fre_count h + 1\<rparr>"
  have v: "view ?m = view m" by (rule view_upd_core) simp
  have b1: "busy e ?m ?h" using e h by (simp add: busy_def)
  have i1: "inv None held (view ?m)" using inv v by simp
  have s1: "same_settings m ?m" "mq_lrus_num ?m = Suc n" "mq_init ?m = mq_init m" using N by (simp_all add: upd_q_def same_settings_def)
  have set_e: "inv None held (view (m'\<lparr>mq_expection := r\<rparr>)) \<and> same_settings m (m'\<lparr>mq_expection := r\<rparr>)"
    if "inv None held (view m')" "same_settings m m'" for m' r
    using that by (auto intro: same_settings_trans)
  show ?thesis
  proof (cases "mq_init m \<or> q_queue_id h + 1 = mq_lrus_num m")
    case True
    then have "RecomputeExp ops e m =
        Some (add_freq (q_queue_id h) 1 (?m\<lparr>mq_expection := mq_expection m + FalsePositive ops h m\<rparr>))"
      using h s1(3) N by (simp add: RecomputeExp_def Let_def same_settings_def upd_q_def)
    then show ?thesis using i1 s1(1) by (simp add: same_settings_def add_freq_def) (simp add: view_def)
  next
    case False
    have q: "q_queue_id h < n"
      using vregionsD(1) [OF inv_parts(4) [OF inv], of e "core h"] h e False N by (auto simp: busy_def vhandle_ok_def)
    have prom: "inv None held (view (promote e m')) \<and> same_settings m (promote e m')"
      if "inv None held (view m')" "same_settings m m'" "busy e m' h'" "core h' = core h" for m' h'
    proof -
      have "q_value_id h' = q_value_id h" "q_queue_id h' = q_queue_id h" using that(4) by (simp_all add: core_def)
      then show ?thesis
        using promote_inv(1) [OF that(1,3)] promote_view(2) [of m' e h'] that(2,3) e(2) q
        by (auto simp: busy_def intro: same_settings_trans)
    qed
    have p1: "inv None held (view (promote e ?m)) \<and> same_settings m (promote e ?m)"
      by (rule prom [OF i1 s1(1) b1]) simp
    have dem: "\<exists>m2. demote_queue ops k need (mq_lrus ?m ! k) 0 ?m = Some m2 \<and> inv None held (view (promote e m2)) \<and>
        same_settings m (promote e m2)" if k: "1 \<le> k" "k < mq_lrus_num ?m" for k need
    proof -
      obtain m2 where m2: "demote_queue ops k need (mq_lrus ?m ! k) 0 ?m = Some m2" "inv None held (view m2)"
        "vkeeps ops (view ?m) (view m2)" "same_settings ?m m2"
        using demote_queue_inv [OF i1 refl, of k need 0] k s1(2) by auto
      obtain h2 where "busy e m2 h2" "core h2 = core ?h" using busy_kept [OF i1 m2(3) b1] by blast
      with prom [OF m2(2) same_settings_trans [OF s1(1) m2(4)]] m2(1) show ?thesis by simp
    qed
    let ?now = "mq_expection m + FalsePositive ops h m" and ?need = "need_bits ?h ?m"
    let ?new = "mq_expection m - real (unat (q_fre_count h + 1 - 1)) * FalsePositive ops h m +
        real (unat (q_fre_count h + 1)) * mq_fps m ! (q_queue_id h + 1)"
    have fr: "mq_expection ?m = mq_expection m" "mq_fps ?m = mq_fps m" "mq_handles ?m e = Some ?h"
      "mq_change_ratio ?m = mq_change_ratio m"
      using h by (simp_all add: upd_q_def)
    obtain r mi where ch: "choose_queue ops ?need ?new ?now ?m = (r, mi)" by fastforce
    have R: "RecomputeExp ops e m =
       (if 0 <s ?need then
          case mi of
            Some k \<Rightarrow> if ?now - r > ?now * mq_change_ratio m
              then map_option (\<lambda>m. (promote e m)\<lparr>mq_expection := r\<rparr>) (demote_queue ops k ?need (mq_lrus ?m ! k) 0 ?m)
              else Some (?m\<lparr>mq_expection := ?now\<rparr>)
          | None \<Rightarrow> Some (?m\<lparr>mq_expection := ?now\<rparr>)
        else if ?now - ?new > ?now * mq_change_ratio m
        then Some ((promote e ?m)\<lparr>mq_expection := ?new\<rparr>)
        else Some (?m\<lparr>mq_expection := ?now\<rparr>))"
      using False s1(2,3) h N ch fr by (simp add: RecomputeExp_def Let_def split: option.splits)
    show ?thesis
    proof (cases mi)
      case None
      then show ?thesis unfolding R using set_e [OF i1 s1(1)] p1 set_e by auto
    next
      case (Some k)
      have "1 \<le> k" "k < mq_lrus_num ?m" using choose_queue_range [OF ch [unfolded Some]] by simp_all
      from dem [OF this, of ?need] obtain m2 where "demote_queue ops k ?need (mq_lrus ?m ! k) 0 ?m = Some m2"
        "inv None held (view (promote e m2))" "same_settings m (promote e m2)" by blast
      with Some show ?thesis
        unfolding R using set_e [OF i1 s1(1)] p1 set_e by auto
    qed
  qed
qed

lemma Ref_inv:
  assumes inv: "inv None held (view m)" and N: "mq_lrus_num m = Suc n"
    and h: "mq_handles m e = Some h" "q_in_cache h" and get: "addFre \<Longrightarrow> 0 < q_value_id h"
  shows "\<exists>m'. Ref ops e addFre m = Some m' \<and> inv None (held(e := held e + 1)) (view m') \<and> same_settings m m'"
proof -
  note p = inv_parts [OF inv]
  have vh: "v_h (view m) e = Some (core h)" using h by simp
  let ?inc = "\<lambda>h. h\<lparr>q_refs := q_refs h + 1\<rparr>"
  let ?m0 = "sub_len (q_queue_id h) (LRU_Append_in_use e (LRU_Remove e m))"
  let ?m1 = "if q_refs h = 1 then ?m0\<lparr>mq_sum_lru_len := mq_sum_lru_len ?m0 - 1\<rparr> else m"
  let ?m2 = "upd_q e ?inc ?m1"
  have h1: "mq_handles ?m1 e = Some h" "same_settings m ?m1"
    using h by (auto simp: mq_op_defs same_settings_def)
  have inv2: "inv None (held(e := held e + 1)) (view ?m2)"
  proof (cases "q_refs h = 1")
    case True
    have "view ?m2 = (view m)\<lparr>v_in_use := remove1 e (v_in_use (view m)) @ [e], v_lrus := map (remove1 e) (v_lrus (view m)),
        v_lens := (v_lens (view m))[c_queue_id (core h) := v_lens (view m) ! c_queue_id (core h) - 1],
        v_sum := v_sum (view m) - 1, v_h := (v_h (view m))(e \<mapsto> (core h)\<lparr>c_refs := 2\<rparr>)\<rparr>"
      using h True by (simp add: mq_op_defs view_def fun_eq_iff)
    then show ?thesis using take_inv [OF inv vh] h True by (simp add: idle_def)
  next
    case False
    have "inv None (held(e := held e + 1)) ((view m)\<lparr>v_h := (v_h (view m))(e \<mapsto> (core h)\<lparr>c_refs := q_refs h + 1, c_queue_id := q_queue_id h\<rparr>)\<rparr>)"
      using vrefsD [OF p(3) vh] vregionsD(1) [OF p(4) vh] h False
      by (intro busy_update [OF inv vh]) (auto simp: idle_def exempt_def vhandle_ok_def)
    moreover have "(core h)\<lparr>c_refs := q_refs h + 1, c_queue_id := q_queue_id h\<rparr> = core (?inc h)" by (simp add: core_def)
    ultimately show ?thesis using False view_upd_q [OF h(1), of ?inc] by (simp only: if_False)
  qed
  have b2: "busy e ?m2 (?inc h)" using h1 h vrefsD [OF p(3) vh] by (simp add: busy_def)
  have s2: "same_settings m ?m2" by (rule same_settings_trans [OF h1(2)]) simp
  have N2: "mq_lrus_num ?m2 = Suc n" using s2 N by (simp add: same_settings_def)
  define r where "r = (if addFre \<and> q_expire_time h > mq_current_time m then RecomputeExp ops e ?m2 else Some ?m2)"
  have "\<exists>m3. r = Some m3 \<and> inv None (held(e := held e + 1)) (view m3) \<and> same_settings m m3"
  proof (cases "addFre \<and> q_expire_time h > mq_current_time m")
    case True
    then have "0 < q_value_id (?inc h)" using get by simp
    from RecomputeExp_inv [OF inv2 N2 b2 this] True show ?thesis
      unfolding r_def using same_settings_trans [OF s2] by auto
  qed (use inv2 s2 r_def in auto)
  then obtain m3 where m3: "r = Some m3" "inv None (held(e := held e + 1)) (view m3)" "same_settings m m3" by blast
  let ?m4 = "upd_q e (\<lambda>h. h\<lparr>q_expire_time := mq_current_time m3 + mq_life_time m3\<rparr>) m3"
  have "Ref ops e addFre m =
      map_option (\<lambda>m. upd_q e (\<lambda>h. h\<lparr>q_expire_time := mq_current_time m + mq_life_time m\<rparr>) m) r"
    using h(2) unfolding Ref_def r_def Let_def h(1) option.sel by (simp only: simp_thms)
  then have "Ref ops e addFre m = Some ?m4" using m3(1) by simp
  moreover have "view ?m4 = view m3" by (rule view_upd_core) simp
  moreover have "same_settings m ?m4" by (rule same_settings_trans [OF m3(3)]) simp
  ultimately show ?thesis using m3(2) by simp
qed

text \<open>The table of a region in use changes the filters of this region.\<close>

lemma table_busy_inv:
  assumes inv: "inv x held v" and a: "v_h v a = Some h" "c_in_cache h" "0 < c_value_id h" "\<not> idle x a h"
    and t': "tok t'" "regions t' = regions (v_tables v (c_value h))"
      "\<forall>s < regions (v_tables v (c_value h)). s \<noteq> c_value_id h - 1 \<longrightarrow> t_curr ops s t' = t_curr ops s (v_tables v (c_value h))"
  shows "inv x held (v\<lparr>v_tables := (v_tables v)(c_value h := t')\<rparr>)"
proof -
  let ?v = "v\<lparr>v_tables := (v_tables v)(c_value h := t')\<rparr>"
  note p = inv_parts [OF inv]
  note T = vregions_table [OF p(4,5) a(1-3) t']
  have "vregions ops tok regions n x ?v"
    unfolding vregions_def
  proof (intro allI impI)
    fix b g assume "v_h ?v b = Some g \<and> c_in_cache g"
    then have g: "v_h v b = Some g" "c_in_cache g" by simp_all
    have "vfilters ops g ?v = c_queue_id g" if "idle x b g"
    proof -
      have "b \<noteq> a" using that a(1,4) g(1) by auto
      then show ?thesis using T(2) [OF g] vregionsD(2) [OF p(4) g(1) that] by simp
    qed
    with T(1) [OF g] show "vhandle_ok tok regions n g ?v \<and> (idle x b g \<longrightarrow> vfilters ops g ?v = c_queue_id g)" by blast
  qed
  moreover have "vids ?v = vids v" "vregion ?v = vregion v" by (simp_all add: vids_def vregion_def fun_eq_iff)
  ultimately show ?thesis
    using p by (simp add: vinv_def vunique_def vshape_def vlists_def vrefs_def)
qed

lemma exempt_kept:
  assumes "inv (Some e) held (view m)" "vkeeps ops (view m) (view m')" "mq_handles m e = Some h" "q_in_cache h"
  shows "\<exists>h'. mq_handles m' e = Some h' \<and> core h' = core h \<and> region_filters ops h' m' = region_filters ops h m"
proof -
  have h: "v_h (view m) e = Some (core h)" using assms(3) by simp
  then have "e \<in> set (v_in_use (view m))"
    using vlists_in_use(1) [OF inv_parts(2) [OF assms(1)] h] assms(4) by (simp add: idle_def)
  then have k: "v_h (view m') e = Some (core h)" "vfilters ops (core h) (view m') = vfilters ops (core h) (view m)"
    using assms(2) h unfolding vkeeps_def by blast+
  then obtain h' where "mq_handles m' e = Some h'" "core h' = core h" by auto
  then show ?thesis using k(2) vfilters_core [of ops h' m'] vfilters_core [of ops h m] by simp
qed

lemma settled:
  assumes inv: "inv (Some e) held (view m)" and N: "mq_lrus_num m = Suc n"
    and h: "mq_handles m e = Some h" "q_in_cache h" "q_refs h = 1" "region_filters ops h m = q_queue_id h"
    and m': "MayBeShrinkUsage ops m = Some m'"
  shows "inv (Some e) held (view m') \<and> same_settings m m' \<and>
     (\<exists>h'. mq_handles m' e = Some h' \<and> q_in_cache h' \<and> q_refs h' = 1 \<and> region_filters ops h' m' = q_queue_id h')"
proof -
  have k: "inv (Some e) held (view m')" "vkeeps ops (view m) (view m')" "same_settings m m'"
    using MayBeShrinkUsage_inv [OF inv N m'] by simp_all
  obtain h' where h': "mq_handles m' e = Some h'" "core h' = core h" "region_filters ops h' m' = region_filters ops h m"
    using exempt_kept [OF inv k(2) h(1,2)] by blast
  have "q_in_cache h' = q_in_cache h" "q_refs h' = q_refs h" "q_queue_id h' = q_queue_id h" using h'(2) by (simp_all add: core_def)
  with k h' h show ?thesis by auto
qed

lemma settle_inv:
  assumes inv: "inv (Some e) held (view m)" and N: "mq_lrus_num m = Suc n"
    and h: "mq_handles m e = Some h" "q_in_cache h" "q_refs h = 1" and m': "settle ops e m = Some m'"
  shows "inv (Some e) held (view m') \<and> same_settings m m' \<and>
     (\<exists>h'. mq_handles m' e = Some h' \<and> q_in_cache h' \<and> q_refs h' = 1 \<and> region_filters ops h' m' = q_queue_id h')"
proof -
  note p = inv_parts [OF inv]
  have vh: "v_h (view m) e = Some (core h)" using h by simp
  have ok: "vhandle_ok tok regions n (core h) (view m)" using vregionsD(1) [OF p(4) vh] h by simp
  have ni: "\<not> idle (Some e) e g" for g by (simp add: idle_def)
  consider (less) "0 < q_value_id h" "region_filters ops h m < q_queue_id h"
    | (more) "0 < q_value_id h" "q_queue_id h < region_filters ops h m"
    | (same) "region_filters ops h m = q_queue_id h"
    using ok by (cases "q_value_id h = 0") (auto simp: vhandle_ok_def region_filters_def, linarith)
  then show ?thesis
  proof cases
    case less
    let ?t = "mq_tables m (q_value h)" and ?r = "q_value_id h - 1"
    have t: "tok ?t" "?r < regions ?t" "q_type h" "q_queue_id h \<le> n" "0 < q_queue_id h"
      using ok less by (auto simp: vhandle_ok_def)
    obtain d t' where t': "t_adjust ops (q_queue_id h) ?r ?t = Some (d, t')" "tok t'" "regions t' = regions ?t"
      "t_curr ops ?r t' = max (t_curr ops ?r ?t) (q_queue_id h)"
      "\<forall>s < regions ?t. s \<noteq> ?r \<longrightarrow> t_curr ops s t' = t_curr ops s ?t"
      using adjust [OF t(1,2,5,4)] by blast
    let ?m1 = "m\<lparr>mq_tables := (mq_tables m)(q_value h := t')\<rparr>" and ?add = "\<lambda>h. h\<lparr>q_charge := q_charge h + of_nat d\<rparr>"
    let ?m2 = "(upd_q e ?add ?m1)\<lparr>mq_usage := mq_usage (upd_q e ?add ?m1) + of_nat d\<rparr>"
    have v2: "view ?m2 = (view m)\<lparr>v_tables := (v_tables (view m))(c_value (core h) := t')\<rparr>"
      using view_upd_core [of ?add e ?m1] by (simp add: view_def)
    have "inv (Some e) held (view ?m2)"
      unfolding v2 using t' h less(1) ni by (intro table_busy_inv [OF inv vh]) simp_all
    moreover have "mq_lrus_num ?m2 = Suc n" "same_settings m ?m2" using N by (simp_all add: upd_q_def same_settings_def)
    moreover have "mq_handles ?m2 e = Some (?add h)" using h by simp
    moreover have "region_filters ops (?add h) ?m2 = q_queue_id (?add h)"
      using less t'(4) by (simp add: region_filters_def upd_q_def)
    moreover have "MayBeShrinkUsage ops ?m2 = Some m'"
      using m' h less t(3) t'(1) by (simp add: settle_def call_table_def Let_def)
    ultimately show ?thesis using settled [of e held ?m2 "?add h" m'] h same_settings_trans [of m ?m2 m'] by auto
  next
    case more
    let ?k = "region_filters ops h m"
    have t: "tok (mq_tables m (q_value h))" "q_value_id h - 1 < regions (mq_tables m (q_value h))" "q_type h"
      using ok more by (auto simp: vhandle_ok_def)
    have k: "?k \<le> n" using curr_le [OF t(1,2)] more by (simp add: region_filters_def)
    define d where "d = (if t_real_size ops then of_nat (t_size ops (q_value_id h - 1) (mq_tables m (q_value h)))
        else mq_bits_sum m ! ?k)"
    let ?f = "\<lambda>h. h\<lparr>q_queue_id := ?k, q_charge := d\<rparr>"
    let ?m2 = "(upd_q e ?f m)\<lparr>mq_usage := mq_usage (upd_q e ?f m) + d\<rparr>"
    have core: "core (?f h) = (core h)\<lparr>c_refs := 1, c_queue_id := ?k\<rparr>" using h(3) by (simp add: core_def)
    have "inv (Some e) (held(e := held e)) ((view m)\<lparr>v_h := (v_h (view m))(e \<mapsto> (core h)\<lparr>c_refs := 1, c_queue_id := ?k\<rparr>)\<rparr>)"
      using vrefsD [OF p(3) vh] h k more(1) ni
      by (intro busy_update [OF inv vh]) (auto simp: exempt_def)
    then have "inv (Some e) held (view ?m2)"
      using view_upd_q [OF h(1), of ?f] unfolding core by (simp only: view_frame fun_upd_triv)
    moreover have "mq_lrus_num ?m2 = Suc n" "same_settings m ?m2" using N by (simp_all add: upd_q_def same_settings_def)
    moreover have "mq_handles ?m2 e = Some (?f h)" using h by simp
    moreover have "region_filters ops (?f h) ?m2 = q_queue_id (?f h)" by (simp add: region_filters_def upd_q_def)
    moreover have "MayBeShrinkUsage ops ?m2 = Some m'"
      using m' h more t(3) by (simp add: settle_def Let_def d_def)
    ultimately show ?thesis using settled [of e held ?m2 "?f h" m'] h same_settings_trans [of m ?m2 m'] by auto
  next
    case same
    then have "m' = m" using m' h by (simp add: settle_def Let_def)
    then show ?thesis using inv h same by auto
  qed
qed

lemma Unref_inv:
  assumes inv: "inv None held (view m)" and N: "mq_lrus_num m = Suc n" and held: "0 < held e"
    and m': "Unref ops e m = Some m'"
  shows "inv None (held(e := held e - 1)) (view m') \<and> same_settings m m'"
proof -
  note p = inv_parts [OF inv]
  obtain h where h: "mq_handles m e = Some h" "q_refs h = held e + (if q_in_cache h then 1 else 0)"
  proof -
    obtain g where "v_h (view m) e = Some g"
      using p(3) held unfolding vrefs_def by (metis not_gr_zero option.exhaust vref_ok.simps(1))
    moreover from this obtain z where "mq_handles m e = Some z" "g = core z" by auto
    ultimately show ?thesis using vrefsD [OF p(3), of e "core z"] that by simp
  qed
  have vh: "v_h (view m) e = Some (core h)" using h by simp
  let ?dec = "\<lambda>h. h\<lparr>q_refs := q_refs h - 1\<rparr>"
  let ?m1 = "upd_q e ?dec m"
  have h1: "mq_handles ?m1 e = Some (?dec h)" "same_settings m ?m1" "mq_lrus_num ?m1 = Suc n"
    using h N by (simp_all add: upd_q_def same_settings_def)
  have v1: "view ?m1 = (view m)\<lparr>v_h := (v_h (view m))(e \<mapsto> core (?dec h))\<rparr>" by (rule view_upd_q [OF h(1)])
  have cd: "core (?dec h) = (core h)\<lparr>c_refs := q_refs h - 1, c_queue_id := q_queue_id h\<rparr>" by (simp add: core_def)
  have busy: "inv x (held(e := held e - 1)) (view ?m1)"
    if "q_in_cache h" "x = None \<longleftrightarrow> q_refs h \<noteq> 2" "exempt e x" for x
    unfolding v1 cd using vregionsD(1) [OF p(4) vh] h held that
    by (intro busy_update [OF inv vh, where x' = x]) (auto simp: idle_def exempt_def vhandle_ok_def)
  consider (free) "\<not> q_in_cache h" "q_refs h = 1" | (less) "\<not> q_in_cache h" "1 < q_refs h"
    | (settle) "q_in_cache h" "q_refs h = 2" | (shared) "q_in_cache h" "2 < q_refs h"
    using h held by (auto split: if_splits) linarith+
  then show ?thesis
  proof cases
    case free
    then have "view m' = (view m)\<lparr>v_h := (v_h (view m))(e := None)\<rparr>" "same_settings m m'"
      using m' h1(1) by (auto simp: Unref_def Let_def view_def upd_q_def fun_eq_iff same_settings_def)
    with dead_update [OF inv vh, of None 0] free h show ?thesis by simp
  next
    case less
    then have "m' = ?m1" using m' h1(1) by (auto simp: Unref_def Let_def)
    moreover have "inv None (held(e := held e - 1)) (view ?m1)"
      unfolding v1 using less h by (intro dead_update [OF inv vh]) auto
    ultimately show ?thesis using h1(2) by simp
  next
    case shared
    then have "q_refs h - 1 \<noteq> 1" by simp
    then have "m' = ?m1" using m' h(1) shared by (simp add: Unref_def Let_def)
    then show ?thesis using busy [of None] shared h1(2) by (simp add: exempt_def)
  next
    case settle
    then obtain m2 where m2: "settle ops e ?m1 = Some m2"
      and m'2: "m' = (let k = q_queue_id (qh m2 e); m = add_len k (LRU_Append_queue k e (LRU_Remove e m2))
             in m\<lparr>mq_sum_lru_len := mq_sum_lru_len m + 1\<rparr>)"
      using m' h1(1) by (auto simp: Unref_def Let_def)
    have i1: "inv (Some e) (held(e := held e - 1)) (view ?m1)" using busy [of "Some e"] settle by (simp add: exempt_def)
    have "q_in_cache (?dec h)" "q_refs (?dec h) = 1" using settle by simp_all
    from settle_inv [OF i1 h1(3,1) this m2] obtain h2 where
      i2: "inv (Some e) (held(e := held e - 1)) (view m2)" "same_settings ?m1 m2" and
      h2: "mq_handles m2 e = Some h2" "q_in_cache h2" "q_refs h2 = 1" "region_filters ops h2 m2 = q_queue_id h2" by blast
    have vh2: "v_h (view m2) e = Some (core h2)" using h2 by simp
    have "e \<notin> set (mq_lrus m2 ! i)" if "i < length (mq_lrus m2)" for i
      using vlists_queue(1) [OF inv_parts(2) [OF i2(1)] vh2] that by (simp add: idle_def)
    then have rem: "map (remove1 e) (mq_lrus m2) = mq_lrus m2" by (intro nth_equalityI) (auto simp: remove1_idem)
    have "inv None (held(e := held e - 1)) (view m')"
    proof (rule put_inv [OF i2(1) vh2])
      show "v_h (view m') = v_h (view m2)"
        using h2(1) by (simp add: m'2 Let_def mq_op_defs view_def fun_eq_iff)
    qed (use h2 in \<open>simp_all add: m'2 Let_def mq_op_defs rem vfilters_core\<close>)
    moreover have "same_settings m2 m'" by (simp add: m'2 Let_def mq_op_defs same_settings_def)
    ultimately show ?thesis using same_settings_trans [OF h1(2) same_settings_trans [OF i2(2)]] by blast
  qed
qed

lemma FinishErase_inv:
  assumes inv: "inv0 None held (view m)" and t: "mq_table.agrees (mq_table m) ((vids (view m))(e := None))"
    and h: "mq_handles m e = Some h" "q_in_cache h"
  shows "\<exists>m'. FinishErase ops (Some e) m = Some m' \<and> inv None held (view m') \<and> same_settings m m' \<and>
     (\<forall>b. b \<noteq> e \<longrightarrow> mq_handles m' b = mq_handles m b)"
proof -
  note p = inv0_parts [OF inv]
  have vh: "v_h (view m) e = Some (core h)" using h by simp
  have pos: "0 < q_refs h" using vrefsD [OF p(3) vh] unfolding core_simps by blast
  let ?m' = "the (FinishErase ops (Some e) m)"
  have "FinishErase ops (Some e) m = Some ?m'" using h pos by (auto simp: FinishErase_def Unref_def Let_def mq_op_defs)
  moreover have "view ?m' = (view m)\<lparr>v_in_use := remove1 e (v_in_use (view m)), v_lrus := map (remove1 e) (v_lrus (view m)),
      v_lens := (if c_refs (core h) = 1 then (v_lens (view m))[c_queue_id (core h) := v_lens (view m) ! c_queue_id (core h) - 1] else v_lens (view m)),
      v_sum := (if c_refs (core h) = 1 then v_sum (view m) - 1 else v_sum (view m)),
      v_h := (v_h (view m))(e := if c_refs (core h) = 1 then None
         else Some ((core h)\<lparr>c_in_cache := False, c_refs := c_refs (core h) - 1\<rparr>))\<rparr>"
    using h pos by (auto simp: FinishErase_def Unref_def Let_def mq_op_defs view_def fun_eq_iff)
  then have "inv None held (view ?m')" using drop_inv [OF inv vh] h t by simp
  moreover have "same_settings m ?m'" "\<forall>b. b \<noteq> e \<longrightarrow> mq_handles ?m' b = mq_handles m b"
    using h pos by (auto simp: FinishErase_def Unref_def Let_def mq_op_defs same_settings_def)
  ultimately show ?thesis by blast
qed

lemma MQ_Erase_inv:
  assumes inv: "inv None held (view m)"
  shows "\<exists>m'. MQ_Erase ops key m = Some m' \<and> inv None held (view m') \<and> same_settings m m'"
proof -
  let ?hash = "mq_hash key"
  let ?R = "HandleTable_Remove key ?hash (mq_table m)"
  let ?m1 = "m\<lparr>mq_table := snd ?R\<rparr>"
  have ag: "mq_table.agrees (mq_table m) (vids (view m))" using inv_parts(6) [OF inv] by simp
  have fr: "fst ?R = Some a \<longleftrightarrow> vids (view m) a = Some (?hash, key)" for a
    by (rule mq_table.remove_agrees(2) [OF ag])
  have rm: "mq_table.agrees (snd ?R) (\<lambda>a. if vids (view m) a = Some (?hash, key) then None else vids (view m) a)"
    by (rule mq_table.remove_agrees(1) [OF ag])
  have i0: "inv0 None held (view ?m1)"
    using inv vinv0_frame [of "view ?m1" "view m"] by (simp add: vinv_split view_def)
  have ids: "vids (view ?m1) = vids (view m)" by (simp add: vids_def view_def fun_eq_iff)
  have er: "MQ_Erase ops key m = FinishErase ops (fst ?R) ?m1" by (simp add: MQ_Erase_def split_beta)
  show ?thesis
  proof (cases "fst ?R")
    case None
    then have "(\<lambda>a. if vids (view m) a = Some (?hash, key) then None else vids (view m) a) = vids (view m)"
      using fr by (auto simp: fun_eq_iff)
    then have "inv None held (view ?m1)" using rm i0 by (simp only: vinv_split ids) simp
    then show ?thesis using er None by (simp add: FinishErase_def same_settings_def)
  next
    case (Some e)
    then have e: "vids (view m) e = Some (?hash, key)" using fr by simp
    then obtain h where h: "mq_handles ?m1 e = Some h" "q_in_cache h"
      by (auto simp: vids_def split: option.splits if_splits)
    have iff: "vids (view m) b = Some (?hash, key) \<longleftrightarrow> b = e" for b
      using e mq_table.agrees_unique [OF ag e] by metis
    have "(vids (view ?m1))(e := None) = (\<lambda>a. if vids (view m) a = Some (?hash, key) then None else vids (view m) a)"
      unfolding ids iff by (auto simp: fun_eq_iff)
    then have "mq_table.agrees (mq_table ?m1) ((vids (view ?m1))(e := None))" using rm by simp
    from FinishErase_inv [OF i0 this h] Some er show ?thesis
      by (auto simp: same_settings_def)
  qed
qed

text \<open>A new handle enters the cache: in use for a table, idle for a region.\<close>

lemma vlists_fresh:
  assumes "vlists x v" "v_h v e = None"
  shows "e \<notin> set (v_in_use v)" "i < length (v_lrus v) \<Longrightarrow> e \<notin> set (v_lrus v ! i)"
  using assms by (auto simp: vlists_def)

lemma add_busy:
  assumes inv: "inv None held v" and e: "v_h v e = None"
    and g: "c_in_cache g" "c_refs g = 2" "vhandle_ok tok regions n g v" "c_value_id g = 0"
  defines "v' \<equiv> v\<lparr>v_in_use := v_in_use v @ [e], v_h := (v_h v)(e \<mapsto> g)\<rparr>"
  shows "inv0 None (held(e := 1)) v'"
proof -
  note p = inv_parts [OF inv]
  have x: "exempt e None" by (simp add: exempt_def)
  have vh: "v_h v' = (v_h v)(e \<mapsto> g)" by (simp add: v'_def)
  have "vlists None v'"
    using vlists_fresh [OF p(2) e] g p(2)
    by (intro vlists_at [OF p(2) x x vh]) (auto simp: v'_def idle_def vlists_def)
  moreover have "vregions ops tok regions n None v'"
    using g by (intro vregions_at [OF p(4) x x vh]) (auto simp: v'_def idle_def)
  moreover have "vregion v' = vregion v" using e g by (auto simp: vregion_def v'_def fun_eq_iff)
  moreover have "vrefs (held(e := 1)) v'" using g by (intro vrefs_update [OF p(3) vh]) simp
  moreover have "vshape n v'" using p(1) by (simp add: vshape_def v'_def)
  ultimately show ?thesis using p(5) by (simp add: vinv0_def vunique_def)
qed

lemma add_idle:
  assumes inv: "inv None held v" and e: "v_h v e = None"
    and g: "c_in_cache g" "c_refs g = 1" "vhandle_ok tok regions n g v" "0 < c_value_id g" "vfilters ops g v = c_queue_id g"
    and new: "\<And>b. vregion v b \<noteq> Some (c_value g, c_value_id g)"
  defines "v' \<equiv> v\<lparr>v_lrus := (v_lrus v)[c_queue_id g := v_lrus v ! c_queue_id g @ [e]],
      v_lens := (v_lens v)[c_queue_id g := v_lens v ! c_queue_id g + 1], v_sum := v_sum v + 1, v_h := (v_h v)(e \<mapsto> g)\<rparr>"
  shows "inv0 None held v'"
proof -
  note p = inv_parts [OF inv]
  have x: "exempt e None" by (simp add: exempt_def)
  have vh: "v_h v' = (v_h v)(e \<mapsto> g)" by (simp add: v'_def)
  have q: "c_queue_id g \<le> n" using g(3) by (simp add: vhandle_ok_def)
  have "vlists None v'"
  proof (rule vlists_at [OF p(2) x x vh])
    fix i assume i: "i < length (v_lrus v)"
    have "v_lrus v' ! i = (if i = c_queue_id g then v_lrus v ! i @ [e] else v_lrus v ! i)"
      using i p(7) q by (simp add: v'_def nth_list_update)
    then show "distinct (v_lrus v' ! i) \<and> set (v_lrus v' ! i) - {e} = set (v_lrus v ! i) - {e} \<and>
        (e \<in> set (v_lrus v' ! i) \<longleftrightarrow> (\<exists>g'. Some g = Some g' \<and> idle None e g' \<and> c_queue_id g' = i))"
      using vlists_fresh(2) [OF p(2) e i] p(2) i g by (auto simp: idle_def vlists_def)
  qed (use vlists_fresh [OF p(2) e] g p(2) in \<open>auto simp: v'_def idle_def vlists_def\<close>)
  moreover have "vregions ops tok regions n None v'"
    using g by (intro vregions_at [OF p(4) x x vh]) (auto simp: v'_def)
  moreover have "vunique v'"
  proof -
    have "vregion v' b = (if b = e then Some (c_value g, c_value_id g) else vregion v b)" for b
      using g by (simp add: vregion_def v'_def)
    then show ?thesis using p(5) new unfolding vunique_def by (metis option.inject)
  qed
  moreover have "held e = 0" using p(3) e unfolding vrefs_def by (metis vref_ok.simps(1))
  then have "vrefs held v'" using g vrefs_update [OF p(3) vh, of 0] by (simp add: fun_upd_idem)
  moreover have "vshape n v'" by (rule vshape_append [OF p(1) q]) (simp_all add: v'_def)
  ultimately show ?thesis by (simp add: vinv0_def)
qed

lemma insert_table_inv:
  assumes ag: "mq_table.agrees (mq_table m) ids" and room: "ht_elems (mq_table m) < 2 ^ 31" and fresh: "ids e = None"
    and inv: "inv0 None held (view m)" and h: "mq_handles m e = Some h"
    and ids: "vids (view m) = ids(e \<mapsto> (q_hash h, q_key h))"
  shows "\<exists>m'. insert_table ops e m = Some m' \<and> inv None held (view m') \<and> same_settings m m' \<and> mq_handles m' e = Some h"
proof -
  let ?id = "(q_hash h, q_key h)"
  let ?I = "HandleTable_Insert 131072 (q_hash h, q_key h, e) (mq_table m)"
  let ?m1 = "m\<lparr>mq_table := snd ?I\<rparr>"
  have fi: "fst ?I = Some b \<longleftrightarrow> ids b = Some ?id" for b
    by (rule mq_table.insert_agrees(2) [OF ag room fresh])
  have agI: "mq_table.agrees (snd ?I) (\<lambda>b. if b = e then Some ?id else if ids b = Some ?id then None else ids b)"
    by (rule mq_table.insert_agrees(1) [OF ag room fresh])
  have i0: "inv0 None held (view ?m1)"
    using inv vinv0_frame [of "view ?m1" "view m"] by (simp add: view_def)
  have ids1: "vids (view ?m1) = ids(e \<mapsto> ?id)" using ids by (simp add: vids_def view_def fun_eq_iff)
  have it: "insert_table ops e m = FinishErase ops (fst ?I) ?m1" using h by (simp add: insert_table_def split_beta)
  show ?thesis
  proof (cases "fst ?I")
    case None
    then have "(\<lambda>b. if b = e then Some ?id else if ids b = Some ?id then None else ids b) = ids(e \<mapsto> ?id)"
      using fi by (auto simp: fun_eq_iff)
    then have "inv None held (view ?m1)" using agI i0 ids1 by (simp add: vinv_split)
    then show ?thesis using it None h by (simp add: FinishErase_def same_settings_def)
  next
    case (Some b)
    then have b: "ids b = Some ?id" "b \<noteq> e" using fi fresh by auto
    have "vids (view ?m1) b = Some ?id" using b ids1 by simp
    then obtain g where g: "mq_handles ?m1 b = Some g" "q_in_cache g"
      by (auto simp: vids_def split: option.splits if_splits)
    have iff: "ids a = Some ?id \<longleftrightarrow> a = b" for a
      using b mq_table.agrees_unique [OF ag b(1)] by metis
    have "(vids (view ?m1))(b := None) = (\<lambda>b. if b = e then Some ?id else if ids b = Some ?id then None else ids b)"
      unfolding ids1 iff using b(2) by (auto simp: fun_eq_iff)
    then have "mq_table.agrees (mq_table ?m1) ((vids (view ?m1))(b := None))" using agI by simp
    from FinishErase_inv [OF i0 this g] Some it b(2) h show ?thesis by (auto simp: same_settings_def)
  qed
qed

end

lemma settings_upd: "same_settings m (upd_q a f m') \<longleftrightarrow> same_settings m m'"
  by (simp add: same_settings_def upd_q_def)

lemma link_region_view:
  assumes "link_region e m = Some m'"
  shows "view m' = view m" "same_settings m m'"
proof -
  have *: "view (upd_q a f m'') = view m''" if "\<And>h. core (f h) = core h" for a f and m'' :: "'t MultiQueue"
    using view_upd_core that by blast
  show "view m' = view m"
    using assms unfolding link_region_def Let_def
    by (auto simp: bind_eq_Some_conv * split: if_splits)
  show "same_settings m m'"
    using assms unfolding link_region_def Let_def
    by (auto simp: bind_eq_Some_conv settings_upd split: if_splits)
qed

text \<open>The handle \<open>Insert\<close> creates, with the region of the key.\<close>

definition key_region :: "slice \<Rightarrow> nat" where
  "key_region key = unat (DecodeFixed32 (drop 8 key))"

context filtered_tables
begin

lemma MQ_Insert_table_inv:
  assumes inv: "inv None held (view m)" and N: "mq_lrus_num m = Suc n" and e: "mq_handles m e = None"
    and room: "ht_elems (mq_table m) < 2 ^ 31" and key: "key_region key = 0"
    and m': "MQ_Insert ops e key v charge type m = Some m'"
  shows "inv None (held(e := 1)) (view m') \<and> same_settings m m'"
proof -
  define h where "h = \<lparr>q_key = key, q_hash = mq_hash key, q_value = v, q_charge = charge, q_in_cache = True, q_refs = 2,
      q_fre_count = 0, q_expire_time = mq_current_time m + mq_life_time m, q_queue_id = 0, q_type = type,
      q_value_id = 0, q_value_refs = 0, q_table_handle = Some e, q_prev_region = None, q_next_region = None\<rparr>"
  let ?m = "m\<lparr>mq_insert_count := mq_insert_count m + 1, mq_handles := (mq_handles m)(e \<mapsto> h), mq_in_use := mq_in_use m @ [e]\<rparr>"
  have ins: "Option.bind (insert_table ops e ?m) (MayBeShrinkUsage ops) = Some m'"
    using m' key by (simp add: MQ_Insert_def Let_def key_region_def mq_op_defs region_filters_def h_def numeral_2_eq_2)
  have vm: "view ?m = (view m)\<lparr>v_in_use := v_in_use (view m) @ [e], v_h := (v_h (view m))(e \<mapsto> core h)\<rparr>"
    by (simp add: view_def fun_eq_iff)
  have ve: "v_h (view m) e = None" using e by simp
  have i0: "inv0 None (held(e := 1)) (view ?m)"
    unfolding vm by (rule add_busy [OF inv ve]) (simp_all add: h_def core_def vhandle_ok_def)
  have ids: "vids (view ?m) = (vids (view m))(e \<mapsto> (q_hash h, q_key h))"
    by (auto simp: vids_def fun_eq_iff h_def)
  obtain m1 where m1: "insert_table ops e ?m = Some m1" "inv None (held(e := 1)) (view m1)" "same_settings ?m m1"
    using insert_table_inv [OF _ _ _ i0 _ ids] inv_parts(6) [OF inv] room e by (auto simp: vids_def)
  have "mq_lrus_num m1 = Suc n" "same_settings m m1" using m1(3) N by (simp_all add: same_settings_def)
  then show ?thesis
    using MayBeShrinkUsage_inv [OF m1(2)] ins m1(1) same_settings_trans [of m m1 m'] by auto
qed

lemma MQ_Insert_region_inv:
  assumes inv: "inv None held (view m)" and N: "mq_lrus_num m = Suc n" and e: "mq_handles m e = None"
    and room: "ht_elems (mq_table m) < 2 ^ 31" and key: "0 < key_region key" and cap: "0 < mq_capacity m"
    and t: "tok (mq_tables m v)" "key_region key - 1 < regions (mq_tables m v)"
    and new: "\<And>b. vregion (view m) b \<noteq> Some (v, key_region key)"
    and m': "MQ_Insert ops e key v charge True m = Some m'"
  shows "inv None held (view m') \<and> same_settings m m'"
proof -
  let ?q = "t_curr ops (key_region key - 1) (mq_tables m v)"
  define h where "h = \<lparr>q_key = key, q_hash = mq_hash key, q_value = v, q_charge = charge, q_in_cache = False, q_refs = 1,
      q_fre_count = 0, q_expire_time = mq_current_time m + mq_life_time m, q_queue_id = ?q, q_type = True,
      q_value_id = key_region key, q_value_refs = 0, q_table_handle = None, q_prev_region = None, q_next_region = None\<rparr>"
  let ?m0 = "m\<lparr>mq_insert_count := mq_insert_count m + 1, mq_handles := (mq_handles m)(e \<mapsto> h)\<rparr>"
  let ?step = "\<lambda>m. let m = upd_q e (\<lambda>h. h\<lparr>q_in_cache := True\<rparr>) m; k = q_queue_id (qh m e); m = add_len k (LRU_Append_queue k e m)
      in m\<lparr>mq_sum_lru_len := mq_sum_lru_len m + 1, mq_usage := mq_usage m + charge\<rparr>"
  obtain m1 where m1: "link_region e ?m0 = Some m1"
    and ins: "Option.bind (insert_table ops e (?step m1)) (MayBeShrinkUsage ops) = Some m'"
    using m' key cap
    by (auto simp: MQ_Insert_def Let_def key_region_def region_filters_def h_def bind_eq_Some_conv)
  have v0: "view ?m0 = (view m)\<lparr>v_h := (v_h (view m))(e \<mapsto> core h)\<rparr>" by (simp add: view_def fun_eq_iff)
  have v1: "view m1 = (view m)\<lparr>v_h := (v_h (view m))(e \<mapsto> core h)\<rparr>" using link_region_view(1) [OF m1] v0 by simp
  have "v_h (view m1) e = Some (core h)" by (simp only: v1) simp
  then obtain h1 where h1: "mq_handles m1 e = Some h1" "core h1 = core h" by auto
  let ?h2 = "h1\<lparr>q_in_cache := True\<rparr>"
  have c2: "core ?h2 = (core h)\<lparr>c_in_cache := True\<rparr>" using h1(2) by simp
  have q: "q_queue_id h1 = ?q" "q_hash h1 = mq_hash key" "q_key h1 = key" using h1(2) by (simp_all add: h_def core_def)
  let ?m3 = "?step m1"
  have parts: "mq_in_use m1 = mq_in_use m" "mq_lrus m1 = mq_lrus m" "mq_lru_lens m1 = mq_lru_lens m"
    "mq_sum_lru_len m1 = mq_sum_lru_len m" "mq_table m1 = mq_table m" "mq_tables m1 = mq_tables m"
    using v1 by (simp_all add: view_def)
  have hs: "(\<lambda>a. map_option core (mq_handles m1 a)) = (\<lambda>a. map_option core (mq_handles m a))(e \<mapsto> core h)"
    using arg_cong [OF v1, of v_h] by (simp add: view_def)
  have h3: "mq_handles ?m3 = (mq_handles m1)(e \<mapsto> ?h2)" using h1(1) by (simp add: mq_op_defs Let_def)
  let ?g = "(core h)\<lparr>c_in_cache := True\<rparr>"
  have v3: "view ?m3 = (view m)\<lparr>v_lrus := (v_lrus (view m))[c_queue_id ?g := v_lrus (view m) ! c_queue_id ?g @ [e]],
      v_lens := (v_lens (view m))[c_queue_id ?g := v_lens (view m) ! c_queue_id ?g + 1], v_sum := v_sum (view m) + 1,
      v_h := (v_h (view m))(e \<mapsto> ?g)\<rparr>"
  proof -
    have "(\<lambda>a. map_option core (mq_handles ?m3 a)) = (\<lambda>a. map_option core (mq_handles m a))(e \<mapsto> ?g)"
      unfolding h3 using hs c2 by (auto simp: fun_eq_iff)
    moreover have "v_h (view ?m3) = (\<lambda>a. map_option core (mq_handles ?m3 a))" by (simp add: view_def)
    moreover have "q_queue_id h = ?q" by (simp add: h_def)
    ultimately show ?thesis using h1(1) q(1) parts by (simp add: view_def) (simp add: mq_op_defs Let_def)
  qed
  have ve: "v_h (view m) e = None" using e by simp
  have "t_curr ops (key_region key - 1) (mq_tables m v) \<le> n" using curr_le [OF t] .
  then have i0: "inv0 None held (view ?m3)"
    unfolding v3 using t key new
    by (intro add_idle [OF inv ve]) (simp_all add: h_def core_def vhandle_ok_def vfilters_def)
  have h3e: "mq_handles ?m3 e = Some ?h2" by (simp only: h3) simp
  have ids: "vids (view ?m3) = (vids (view m))(e \<mapsto> (q_hash ?h2, q_key ?h2))"
    unfolding v3 by (auto simp: vids_def fun_eq_iff h_def q)
  have t3: "mq_table ?m3 = mq_table m" using parts by (simp add: mq_op_defs Let_def)
  obtain m4 where m4: "insert_table ops e ?m3 = Some m4" "inv None held (view m4)" "same_settings ?m3 m4"
    using insert_table_inv [OF _ _ _ i0 h3e ids] inv_parts(6) [OF inv] room e unfolding t3 by (auto simp: vids_def)
  have "same_settings m m1" using link_region_view(2) [OF m1] by (simp add: same_settings_def)
  then have s4: "same_settings m m4" using m4(3) by (simp add: same_settings_def mq_op_defs Let_def)
  then have "mq_lrus_num m4 = Suc n" using N by (simp add: same_settings_def)
  then show ?thesis
    using MayBeShrinkUsage_inv [OF m4(2)] ins m4(1) same_settings_trans [OF s4] by auto
qed

end

end
