(* ===== verification/MultiQueueTables.thy ===== *)
theory MultiQueueTables
  imports MultiQueueRun FilterPipeline
begin

text \<open>
  Any use of the multi-queue, over the tables of the filter management: the queue of an idle
  region tells how many of its filters are in memory.
\<close>

subsection \<open>Any use of the multi-queue\<close>

text \<open>
  \<open>held\<close> counts the references of the clients. \<open>reader\<close> is a table that loads filters for a
  region while a client uses it (\<open>Table::InternalGet\<close>).
\<close>

inductive mq_run ::
  "'t table_ops \<Rightarrow> ('t \<Rightarrow> bool) \<Rightarrow> ('t \<Rightarrow> nat) \<Rightarrow> 't MultiQueue \<Rightarrow> (addr \<Rightarrow> nat) \<Rightarrow> 't MultiQueue \<Rightarrow> bool"
  for ops tok regions m0 where
  start: "mq_run ops tok regions m0 (\<lambda>_. 0) m0"
| insert_table: "mq_run ops tok regions m0 held m \<Longrightarrow> mq_handles m e = None \<Longrightarrow> ht_elems (mq_table m) < 2 ^ 31 \<Longrightarrow>
     key_region key = 0 \<Longrightarrow> MQ_Insert ops e key v charge ty m = Some m' \<Longrightarrow>
     mq_run ops tok regions m0 (held(e := 1)) m'"
| insert_region: "mq_run ops tok regions m0 held m \<Longrightarrow> mq_handles m e = None \<Longrightarrow> ht_elems (mq_table m) < 2 ^ 31 \<Longrightarrow>
     0 < key_region key \<Longrightarrow> 0 < mq_capacity m \<Longrightarrow> tok (mq_tables m v) \<Longrightarrow> key_region key - 1 < regions (mq_tables m v) \<Longrightarrow>
     (\<And>b. vregion (view m) b \<noteq> Some (v, key_region key)) \<Longrightarrow>
     MQ_Insert ops e key v charge True m = Some m' \<Longrightarrow> mq_run ops tok regions m0 held m'"
| lookup: "mq_run ops tok regions m0 held m \<Longrightarrow> MQ_Lookup ops key Get m = Some (Some e, m') \<Longrightarrow>
     (Get \<Longrightarrow> 0 < q_value_id (qh m e)) \<Longrightarrow> mq_run ops tok regions m0 (held(e := held e + 1)) m'"
| release: "mq_run ops tok regions m0 held m \<Longrightarrow> 0 < held e \<Longrightarrow> MQ_Release ops e m = Some m' \<Longrightarrow>
     mq_run ops tok regions m0 (held(e := held e - 1)) m'"
| erase: "mq_run ops tok regions m0 held m \<Longrightarrow> MQ_Erase ops key m = Some m' \<Longrightarrow> mq_run ops tok regions m0 held m'"
| set_freq: "mq_run ops tok regions m0 held m \<Longrightarrow> mq_run ops tok regions m0 held (SetFreCount ops key f m)"
| tick: "mq_run ops tok regions m0 held m \<Longrightarrow> mq_run ops tok regions m0 held (addCurrentTime m)"
| reader: "mq_run ops tok regions m0 held m \<Longrightarrow> busy e m h \<Longrightarrow> 0 < q_value_id h \<Longrightarrow> 0 < k \<Longrightarrow> k < mq_lrus_num m \<Longrightarrow>
     call_table (t_adjust ops k) h m = Some (d, m') \<Longrightarrow> mq_run ops tok regions m0 held m'"

inductive_cases mq_runE: "mq_run ops tok regions m0 held m"

lemma view_SetFreCount [simp]:
  fixes m :: "'t MultiQueue"
  shows "view (SetFreCount ops key f m) = view m"
proof -
  have "view (upd_q e (\<lambda>h. h\<lparr>q_fre_count := f\<rparr>) m') = view m'" for e and m' :: "'t MultiQueue"
    by (rule view_upd_core) simp
  then show ?thesis by (simp add: SetFreCount_def Let_def split: option.splits)
qed

lemma settings_SetFreCount: "mq_lrus_num (SetFreCount ops key f m) = mq_lrus_num m"
  by (auto simp: SetFreCount_def Let_def upd_q_def split: option.splits)

context filtered_tables
begin

lemma new_inv: "inv None (\<lambda>_. 0) (view (new_MultiQueue cap (Suc n) life cr bits hc tables))"
proof -
  have nt: "ht_inv (new_HandleTable 131072)" "nodes (new_HandleTable 131072) = {}"
    using new_HandleTable_correct [of 131072 17] by simp_all
  have "HandleTable_Lookup key hash (new_HandleTable 131072) = None" for key hash
    by (simp add: Lookup_None [OF nt(1)] nt(2))
  with nt(1) show ?thesis
    by (simp add: vinv_def new_MultiQueue_def Let_def view_def vshape_def vlists_def vrefs_def vregions_def vunique_def
        vregion_def vids_def indexes_def sum_list_replicate del: replicate.simps)
qed

lemma Lookup_cached:
  assumes "inv None held (view m)" "HandleTable_Lookup key hash (mq_table m) = Some e"
  shows "\<exists>h. mq_handles m e = Some h \<and> q_in_cache h"
proof -
  have "vids (view m) e = Some (hash, key)" using inv_parts(6) [OF assms(1)] assms(2) by (simp add: indexes_def)
  then show ?thesis by (auto simp: vids_def split: option.splits if_splits)
qed

lemma run_inv:
  assumes "mq_run ops tok regions (new_MultiQueue cap (Suc n) life cr bits hc tables) held m"
  shows "inv None held (view m) \<and> mq_lrus_num m = Suc n"
  using assms
proof (induction rule: mq_run.induct)
  case start
  show ?case using new_inv by (simp add: new_MultiQueue_def Let_def)
next
  case (insert_table held m e key v charge ty m')
  then show ?case using MQ_Insert_table_inv [of held m e key v charge ty m'] unfolding same_settings_def by metis
next
  case (insert_region held m e key v charge m')
  then show ?case using MQ_Insert_region_inv [of held m e key v charge m'] by (auto simp: same_settings_def)
next
  case (lookup held m key Get e m')
  then have r: "HandleTable_Lookup key (mq_hash key) (mq_table m) = Some e" "Ref ops e Get m = Some m'"
    by (auto simp: MQ_Lookup_def split: option.splits)
  obtain h where "mq_handles m e = Some h" "q_in_cache h" using Lookup_cached lookup.IH r(1) by blast
  with Ref_inv [of held m e h Get] lookup r(2) show ?case
    unfolding same_settings_def by (metis option.inject option.sel)
next
  case (release held m e m')
  then show ?case using Unref_inv [of held m e m'] unfolding MQ_Release_def same_settings_def by metis
next
  case (erase held m key m')
  then show ?case using MQ_Erase_inv [of held m key] by (auto simp: same_settings_def)
next
  case (reader held m e h k d m')
  then have h: "mq_handles m e = Some h" "q_in_cache h" "q_refs h \<noteq> 1" by (simp_all add: busy_def)
  have vh: "v_h (view m) e = Some (core h)" using h by simp
  have inv: "inv None held (view m)" and k: "k \<le> n" using reader by simp_all
  have "vhandle_ok tok regions n (core h) (view m)" using vregionsD(1) [OF inv_parts(4) [OF inv] vh] h by simp
  then have t: "tok (mq_tables m (q_value h))" "q_value_id h - 1 < regions (mq_tables m (q_value h))"
    using reader.hyps(3) by (simp_all add: vhandle_ok_def)
  from adjust [OF t reader.hyps(4) k] obtain d' t' where t': "t_adjust ops k (q_value_id h - 1) (mq_tables m (q_value h)) = Some (d', t')"
    "tok t'" "regions t' = regions (mq_tables m (q_value h))"
    "\<forall>s < regions (mq_tables m (q_value h)). s \<noteq> q_value_id h - 1 \<longrightarrow> t_curr ops s t' = t_curr ops s (mq_tables m (q_value h))"
    by blast
  then have m': "m' = m\<lparr>mq_tables := (mq_tables m)(q_value h := t')\<rparr>"
    using reader.hyps(6) by (simp add: call_table_def)
  have "view m' = (view m)\<lparr>v_tables := (v_tables (view m))(c_value (core h) := t')\<rparr>"
    by (simp add: m' view_def)
  moreover have "inv None held ((view m)\<lparr>v_tables := (v_tables (view m))(c_value (core h) := t')\<rparr>)"
    using h t' reader.hyps(3) by (intro table_busy_inv [OF inv vh]) (simp_all add: idle_def)
  ultimately show ?case using reader by (simp add: m')
qed (simp_all add: addCurrentTime_def settings_SetFreCount)

text \<open>A lookup and an erasure always return.\<close>

lemma Lookup_returns:
  assumes "inv None held (view m)" "mq_lrus_num m = Suc n"
    and "\<And>e. HandleTable_Lookup key (mq_hash key) (mq_table m) = Some e \<Longrightarrow> Get \<Longrightarrow> 0 < q_value_id (qh m e)"
  shows "\<exists>r m'. MQ_Lookup ops key Get m = Some (r, m')"
proof (cases "HandleTable_Lookup key (mq_hash key) (mq_table m)")
  case (Some e)
  obtain h where h: "mq_handles m e = Some h" "q_in_cache h" using Lookup_cached [OF assms(1) Some] by blast
  with Ref_inv [OF assms(1,2) h, of Get] assms(3) [OF Some] Some show ?thesis by (auto simp: MQ_Lookup_def)
qed (simp add: MQ_Lookup_def)

lemma idle_region:
  assumes "inv None held (view m)" "i \<le> n" "a \<in> set (mq_lrus m ! i)"
  shows "\<exists>h. mq_handles m a = Some h \<and> q_in_cache h \<and> q_queue_id h = i \<and> region_filters ops h m = i \<and> held a = 0"
proof -
  note p = inv_parts [OF assms(1)]
  obtain g where g: "v_h (view m) a = Some g" "idle None a g" "c_queue_id g = i"
    using p(2,7) assms(2,3) unfolding vlists_def by (metis le_imp_less_Suc view_simps(2))
  obtain h where h: "mq_handles m a = Some h" "g = core h" using g(1) by auto
  have "vfilters ops g (view m) = i" using vregionsD(2) [OF p(4) g(1,2)] g(3) by simp
  moreover have "held a = 0" using vrefsD [OF p(3) g(1)] g(2) unfolding idle_def by auto
  ultimately show ?thesis using h g by (auto simp: vfilters_core idle_def)
qed

end

subsection \<open>The tables of the program\<close>

type_synonym open_table = "Table \<times> (nat \<Rightarrow> nat \<Rightarrow> status + slice)"

text \<open>A table with its file; the operations are those of table.cc.\<close>

definition TableOps :: "nat \<Rightarrow> bool \<Rightarrow> (nat \<Rightarrow> nat) \<Rightarrow> open_table table_ops" where
  "TableOps rds real_size bits = \<lparr>
     t_curr = (\<lambda>r t. getCurrFilterNum r (fst t)),
     t_size = (\<lambda>r t. getCurrFiltersSize r (fst t)),
     t_adjust = (\<lambda>k r t. map_option (\<lambda>(d, t'). (d, (t', snd t))) (AdjustFilters rds real_size bits (snd t) k r (fst t))),
     t_remove = (\<lambda>k r t. map_option (\<lambda>(d, t'). (d, (t', snd t))) (Table_RemoveFilters real_size bits (int k) r (fst t))),
     t_real_size = real_size\<rparr>"

text \<open>A table that holds the filters \<open>f\<close> of some groups of keys, as its file does.\<close>

definition open_table_ok :: "(slice list \<Rightarrow> slice list) \<Rightarrow> nat \<Rightarrow> nat \<Rightarrow> open_table \<Rightarrow> bool" where
  "open_table_ok f n rf t \<longleftrightarrow> (\<exists>gs. table_inv f n rf gs (fst t) \<and> file_of f n gs (snd t) (filter_handles (fst t)))"

definition table_regions :: "nat \<Rightarrow> open_table \<Rightarrow> nat" where
  "table_regions rf t = getRegionNum (rf * kFilterBase) (fst t)"

lemma open_table_gs:
  assumes "table_inv f n rf gs t"
  shows "getRegionNum (rf * kFilterBase) t = region_count rf gs"
  using getRegionNum_eq assms unfolding region_count_def table_inv_def by blast

lemma loaded_to_ok:
  assumes "loaded_to f n rf gs t r k t'" "file_of f n gs Read (filter_handles t)" "table_inv f n rf gs t"
    "r < region_count rf gs"
  shows "open_table_ok f n rf (t', Read)" "table_regions rf (t', Read) = table_regions rf (t, Read)"
    "getCurrFilterNum r t' = k" "\<forall>s < region_count rf gs. s \<noteq> r \<longrightarrow> getCurrFilterNum s t' = getCurrFilterNum s t"
proof -
  have l: "table_inv f n rf gs t'" "filter_handles t' = filter_handles t"
    "\<forall>k' < region_count rf gs. getCurrFilterNum k' t' = (if k' = r then k else getCurrFilterNum k' t)"
    using assms(1) by (simp_all add: loaded_to_def)
  then show "open_table_ok f n rf (t', Read)" using assms(2) by (auto simp: open_table_ok_def)
  show "table_regions rf (t', Read) = table_regions rf (t, Read)"
    using open_table_gs [OF l(1)] open_table_gs [OF assms(3)] by (simp add: table_regions_def)
  show "getCurrFilterNum r t' = k" "\<forall>s < region_count rf gs. s \<noteq> r \<longrightarrow> getCurrFilterNum s t' = getCurrFilterNum s t"
    using l(3) assms(4) by simp_all
qed

interpretation tables: filtered_tables "TableOps (rf * kFilterBase) real_size bits" "open_table_ok f n rf" "table_regions rf" n
  for rf real_size bits f n
proof
  fix t :: open_table and r k :: nat
  assume ok: "open_table_ok f n rf t" and r: "r < table_regions rf t"
  obtain tb Read where t: "t = (tb, Read)" by fastforce
  obtain gs where gs: "table_inv f n rf gs tb" "file_of f n gs Read (filter_handles tb)"
    using ok by (auto simp: open_table_ok_def t)
  have R: "table_regions rf t = region_count rf gs" using open_table_gs [OF gs(1)] by (simp add: table_regions_def t)
  have r': "r < region_count rf gs" using r R by simp
  have c: "getCurrFilterNum r tb \<le> n" by (rule curr_le [OF gs(1) r'])
  show "t_curr (TableOps (rf * kFilterBase) real_size bits) r t \<le> n" using c by (simp add: TableOps_def t)
  {
    assume k: "0 < k" "k \<le> n"
    obtain d t' where t': "AdjustFilters (rf * kFilterBase) real_size bits Read k r tb = Some (d, t')"
      "loaded_to f n rf gs tb r (max (getCurrFilterNum r tb) (min k n)) t'"
      using AdjustFilters_correct [OF gs r', of k real_size bits] k by blast
    note L = loaded_to_ok [OF t'(2) gs(2,1) r']
    show "\<exists>d t'. t_adjust (TableOps (rf * kFilterBase) real_size bits) k r t = Some (d, t') \<and> open_table_ok f n rf t' \<and>
       table_regions rf t' = table_regions rf t \<and>
       t_curr (TableOps (rf * kFilterBase) real_size bits) r t' = max (t_curr (TableOps (rf * kFilterBase) real_size bits) r t) k \<and>
       (\<forall>s < table_regions rf t. s \<noteq> r \<longrightarrow> t_curr (TableOps (rf * kFilterBase) real_size bits) s t' =
          t_curr (TableOps (rf * kFilterBase) real_size bits) s t)"
      using t'(1) L k R by (intro exI [of _ d] exI [of _ "(t', Read)"]) (simp add: TableOps_def t min_def)
  }
  {
    assume p: "0 < t_curr (TableOps (rf * kFilterBase) real_size bits) r t"
    then have p: "1 \<le> getCurrFilterNum r tb" "tfilter tb \<noteq> None" by (auto simp: TableOps_def t getCurrFilterNum_def split: option.splits)
    obtain d t' where t': "Table_RemoveFilters real_size bits (int 1) r tb = Some (d, t')"
      "loaded_to f n rf gs tb r (getCurrFilterNum r tb - 1) t'"
      using Table_RemoveFilters_correct [OF gs(1) p(2) r' p(1), of real_size bits] by blast
    note L = loaded_to_ok [OF t'(2) gs(2,1) r']
    show "\<exists>d t'. t_remove (TableOps (rf * kFilterBase) real_size bits) 1 r t = Some (d, t') \<and> open_table_ok f n rf t' \<and>
       table_regions rf t' = table_regions rf t \<and>
       t_curr (TableOps (rf * kFilterBase) real_size bits) r t' = t_curr (TableOps (rf * kFilterBase) real_size bits) r t - 1 \<and>
       (\<forall>s < table_regions rf t. s \<noteq> r \<longrightarrow> t_curr (TableOps (rf * kFilterBase) real_size bits) s t' =
          t_curr (TableOps (rf * kFilterBase) real_size bits) s t)"
      using t'(1) L R by (intro exI [of _ d] exI [of _ "(t', Read)"]) (simp add: TableOps_def t)
  }
qed

subsection \<open>Properties\<close>

abbreviation queue_run ::
  "(slice list \<Rightarrow> slice list) \<Rightarrow> nat \<Rightarrow> nat \<Rightarrow> bool \<Rightarrow> (nat \<Rightarrow> nat) \<Rightarrow> open_table MultiQueue \<Rightarrow> (addr \<Rightarrow> nat) \<Rightarrow> open_table MultiQueue \<Rightarrow> bool" where
  "queue_run f n rf real_size bits \<equiv>
     mq_run (TableOps (rf * kFilterBase) real_size bits) (open_table_ok f n rf) (table_regions rf)"





text \<open>C25. \<open>AllocFilterNums\<close> answers 1 or the number of a queue, never more filters than there are.\<close>

theorem AllocFilterNums_bounds: "1 \<le> AllocFilterNums freq m \<and> AllocFilterNums freq m \<le> max 1 (mq_lrus_num m - 1)"
proof -
  have "alloc_loop m freq is' l \<in> insert l (set is')" for is' l
    by (induction is' arbitrary: l) auto
  from this [of "[1..<mq_lrus_num m]" 1] show ?thesis by (auto simp: AllocFilterNums_def)
qed

subsection \<open>A concrete use\<close>

text \<open>A multi-queue with one filter per region; the handle of a table is inserted and released.\<close>

definition example_key :: slice where "example_key = replicate 12 0"

definition example_queue :: "open_table MultiQueue" where
  "example_queue = new_MultiQueue 1 (Suc 1) 50 (1 / 1000) [4] 0 (\<lambda>_. (fresh_table, \<lambda>_ _. Inl OK))"

abbreviation "example_ops \<equiv> TableOps (1 * kFilterBase) False (\<lambda>_. 4)"
abbreviation "example_run \<equiv> queue_run (\<lambda>_. [[7]]) 1 1 False (\<lambda>_. 4) example_queue"

lemma example_insert:
  "\<exists>m. MQ_Insert example_ops 0 example_key 7 0 True example_queue = Some m \<and> example_run ((\<lambda>_. 0)(0 := 1)) m \<and>
     mq_lrus m = [[], []] \<and> mq_in_use m = [0] \<and>
     (\<exists>h. mq_handles m 0 = Some h \<and> q_refs h = 2 \<and> q_in_cache h \<and> q_value_id h = 0 \<and> q_queue_id h = 0)"
proof -
  have N: "ht_inv (new_HandleTable 131072)" "nodes (new_HandleTable 131072) = {}" "ht_elems (new_HandleTable 131072) = 0"
    using new_HandleTable_correct [of 131072 17] by simp_all
  have key: "key_region example_key = 0" by (simp add: key_region_def example_key_def DecodeFixed32_def numeral_eq_Suc)
  let ?I = "HandleTable_Insert 131072 (mq_hash example_key, example_key, 0) (new_HandleTable 131072)"
  have I: "fst ?I = None"
    using mq_table.insert_old [OF N(1)] Lookup_None [OF N(1)] N(2,3) by simp
  obtain m where m: "MQ_Insert example_ops 0 example_key 7 0 True example_queue = Some m"
     "mq_lrus m = [[], []]" "mq_in_use m = [0]"
     "\<exists>h. mq_handles m 0 = Some h \<and> q_refs h = 2 \<and> q_in_cache h \<and> q_value_id h = 0 \<and> q_queue_id h = 0"
    using key I by (simp add: MQ_Insert_def Let_def key_region_def mq_op_defs region_filters_def insert_table_def
        split_beta FinishErase_def MayBeShrinkUsage_def example_queue_def new_MultiQueue_def numeral_2_eq_2)
  have "example_run ((\<lambda>_. 0)(0 := 1)) m"
    by (rule mq_run.insert_table [OF mq_run.start _ _ key m(1)])
      (simp_all add: example_queue_def new_MultiQueue_def Let_def N(3))
  with m show ?thesis by blast
qed

lemma example_release:
  "\<exists>m held. example_run held m \<and> mq_lrus m = [[0], []]"
proof -
  obtain m h where m: "example_run ((\<lambda>_. 0)(0 := 1)) m" "mq_lrus m = [[], []]" "mq_in_use m = [0]"
    "mq_handles m 0 = Some h" "q_refs h = 2" "q_in_cache h" "q_value_id h = 0" "q_queue_id h = 0"
    using example_insert by blast
  then obtain m' where m': "MQ_Release example_ops 0 m = Some m'" "mq_lrus m' = [[0], []]"
    by (simp add: MQ_Release_def Unref_def settle_def Let_def mq_op_defs)
  have "0 < ((\<lambda>_. 0)(0 := 1 :: nat)) (0 :: addr)" by simp
  from mq_run.release [OF m(1) this m'(1)] m'(2) show ?thesis by blast
qed




text \<open>A region with a charge of 9 gives up a filter of charge 4, in the two ways.\<close>

definition drift_ops :: "unit table_ops" where
  "drift_ops = \<lparr>t_curr = (\<lambda>_ _. 1), t_size = (\<lambda>_ _. 0), t_adjust = (\<lambda>_ _ t. Some (0, t)), t_remove = (\<lambda>_ _ t. Some (4, t)),
     t_real_size = False\<rparr>"

definition drift_handle :: LRUQueueHandle where
  "drift_handle = \<lparr>q_key = [], q_hash = 0, q_value = 0, q_charge = 9, q_in_cache = True, q_refs = 1, q_fre_count = 6,
     q_expire_time = 0, q_queue_id = 1, q_type = True, q_value_id = 1, q_value_refs = 0, q_table_handle = None,
     q_prev_region = None, q_next_region = None\<rparr>"

definition drift_queue :: "unit MultiQueue" where
  "drift_queue = (new_MultiQueue 5 2 50 0 [4] 0 (\<lambda>_. ()))\<lparr>mq_usage := 9, mq_handles := [0 \<mapsto> drift_handle],
     mq_lrus := [[], [0]], mq_lru_lens := [0, 1]\<rparr>"


end
