(* ===== verification/SkipList.thy ===== *)
theory SkipList
  imports Prelude "HOL-Library.Multiset"
begin

text \<open>
  util/random.h and db/skiplist.h. Nodes live in a store from addresses to a key and an
  array of forward pointers; the head is address 0 and \<open>NewNode\<close> hands out the next unused
  address (util/arena.cc only supplies the memory). The three search loops are
  \<open>while (true)\<close> loops: they are partial functions, and that they return is proved.

  The abstraction of a skip list is the list of its keys in order. The locale
  \<open>key_order\<close> is what the list needs of its comparator; under it every operation
  returns and refines the operation on the ordered list.
\<close>

subsection \<open>Random\<close>

definition new_Random :: "u32 \<Rightarrow> u32" where
  "new_Random s =
     (let seed = s AND 0x7fffffff in if seed = 0 \<or> seed = 2147483647 then 1 else seed)"

text \<open>\<open>Next\<close> returns the new seed.\<close>

definition Random_Next :: "u32 \<Rightarrow> u32" where
  "Random_Next seed =
     (let M = (2147483647 :: u32);
          product = (ucast seed :: u64) * 16807;
          seed' = (ucast (drop_bit 31 product + (product AND ucast M)) :: u32)
      in if seed' > M then seed' - M else seed')"

definition Random_Uniform :: "u32 \<Rightarrow> u32 \<Rightarrow> u32 \<times> u32" where
  "Random_Uniform n seed = (let s = Random_Next seed in (s mod n, s))"

definition Random_OneIn :: "u32 \<Rightarrow> u32 \<Rightarrow> bool \<times> u32" where
  "Random_OneIn n seed = (let s = Random_Next seed in (s mod n = 0, s))"

definition Random_Skewed :: "nat \<Rightarrow> u32 \<Rightarrow> u32 \<times> u32" where
  "Random_Skewed max_log seed =
     (let (b, s) = Random_Uniform (of_nat max_log + 1) seed in Random_Uniform (push_bit (unat b) 1) s)"

subsection \<open>Nodes\<close>

type_synonym node_ptr = nat

record 'k Node =
  n_key :: 'k
  n_next :: "node_ptr option list"

record 'k SkipList =
  sl_nodes :: "node_ptr \<Rightarrow> 'k Node option"
  sl_max_height :: nat
  sl_rnd :: u32
  sl_fresh :: node_ptr

definition kMaxHeight :: nat where "kMaxHeight = 12"

abbreviation (input) head :: node_ptr where "head \<equiv> 0"

definition node_key :: "'k SkipList \<Rightarrow> node_ptr \<Rightarrow> 'k" where
  "node_key s x = n_key (the (sl_nodes s x))"

definition Node_Next :: "'k SkipList \<Rightarrow> node_ptr \<Rightarrow> nat \<Rightarrow> node_ptr option" where
  "Node_Next s x n = n_next (the (sl_nodes s x)) ! n"

definition SetNext :: "node_ptr \<Rightarrow> nat \<Rightarrow> node_ptr option \<Rightarrow> 'k SkipList \<Rightarrow> 'k SkipList" where
  "SetNext x n y s =
     s\<lparr>sl_nodes := (sl_nodes s)(x := map_option (\<lambda>nd. nd\<lparr>n_next := (n_next nd)[n := y]\<rparr>) (sl_nodes s x))\<rparr>"

definition NewNode :: "'k \<Rightarrow> nat \<Rightarrow> 'k SkipList \<Rightarrow> node_ptr \<times> 'k SkipList" where
  "NewNode k height s =
     (sl_fresh s, s\<lparr>sl_nodes := (sl_nodes s)(sl_fresh s \<mapsto> \<lparr>n_key = k, n_next = replicate height None\<rparr>),
                    sl_fresh := Suc (sl_fresh s)\<rparr>)"

text \<open>The key of the head node is never looked at: \<open>any key will do\<close>.\<close>

definition new_SkipList :: "'k \<Rightarrow> 'k SkipList" where
  "new_SkipList any =
     snd (NewNode any kMaxHeight
       \<lparr>sl_nodes = (\<lambda>_. None), sl_max_height = 1, sl_rnd = new_Random 0xdeadbeef, sl_fresh = head\<rparr>)"

subsection \<open>Searching\<close>

definition KeyIsAfterNode :: "('k \<Rightarrow> 'k \<Rightarrow> int) \<Rightarrow> 'k SkipList \<Rightarrow> 'k \<Rightarrow> node_ptr option \<Rightarrow> bool" where
  "KeyIsAfterNode cmp s key n = (case n of None \<Rightarrow> False | Some x \<Rightarrow> cmp (node_key s x) key < 0)"

text \<open>\<open>prev\<close> is filled in whenever given; callers that pass \<open>NULL\<close> ignore it here.\<close>

partial_function (option) FindGreaterOrEqual_loop ::
  "('k \<Rightarrow> 'k \<Rightarrow> int) \<Rightarrow> 'k SkipList \<Rightarrow> 'k \<Rightarrow> node_ptr \<Rightarrow> nat \<Rightarrow> (nat \<rightharpoonup> node_ptr) \<Rightarrow>
   (node_ptr option \<times> (nat \<rightharpoonup> node_ptr)) option" where
  "FindGreaterOrEqual_loop cmp s key x level prev =
     (let nx = Node_Next s x level in
      if KeyIsAfterNode cmp s key nx then FindGreaterOrEqual_loop cmp s key (the nx) level prev
      else if level = 0 then Some (nx, prev(level \<mapsto> x))
      else FindGreaterOrEqual_loop cmp s key x (level - 1) (prev(level \<mapsto> x)))"

definition FindGreaterOrEqual ::
  "('k \<Rightarrow> 'k \<Rightarrow> int) \<Rightarrow> 'k SkipList \<Rightarrow> 'k \<Rightarrow> (node_ptr option \<times> (nat \<rightharpoonup> node_ptr)) option" where
  "FindGreaterOrEqual cmp s key =
     FindGreaterOrEqual_loop cmp s key head (sl_max_height s - 1) Map.empty"

partial_function (option) FindLessThan_loop ::
  "('k \<Rightarrow> 'k \<Rightarrow> int) \<Rightarrow> 'k SkipList \<Rightarrow> 'k \<Rightarrow> node_ptr \<Rightarrow> nat \<Rightarrow> node_ptr option" where
  "FindLessThan_loop cmp s key x level =
     (case Node_Next s x level of
        None \<Rightarrow> if level = 0 then Some x else FindLessThan_loop cmp s key x (level - 1)
      | Some nx \<Rightarrow>
          if cmp (node_key s nx) key \<ge> 0
          then if level = 0 then Some x else FindLessThan_loop cmp s key x (level - 1)
          else FindLessThan_loop cmp s key nx level)"

definition FindLessThan :: "('k \<Rightarrow> 'k \<Rightarrow> int) \<Rightarrow> 'k SkipList \<Rightarrow> 'k \<Rightarrow> node_ptr option" where
  "FindLessThan cmp s key = FindLessThan_loop cmp s key head (sl_max_height s - 1)"

partial_function (option) FindLast_loop :: "'k SkipList \<Rightarrow> node_ptr \<Rightarrow> nat \<Rightarrow> node_ptr option" where
  "FindLast_loop s x level =
     (case Node_Next s x level of
        None \<Rightarrow> if level = 0 then Some x else FindLast_loop s x (level - 1)
      | Some nx \<Rightarrow> FindLast_loop s nx level)"

definition FindLast :: "'k SkipList \<Rightarrow> node_ptr option" where
  "FindLast s = FindLast_loop s head (sl_max_height s - 1)"

subsection \<open>Insert and Contains\<close>

function RandomHeight_loop :: "nat \<Rightarrow> u32 \<Rightarrow> nat \<times> u32" where
  "RandomHeight_loop height seed =
     (if height < kMaxHeight then
        let s = Random_Next seed in
        if s mod 4 = 0 then RandomHeight_loop (Suc height) s else (height, s)
      else (height, seed))"
  by pat_completeness auto
termination
  by (relation "measure (\<lambda>(h, s). kMaxHeight - h)") auto

declare RandomHeight_loop.simps [simp del]

definition RandomHeight :: "'k SkipList \<Rightarrow> nat \<times> 'k SkipList" where
  "RandomHeight s = (let (h, r) = RandomHeight_loop 1 (sl_rnd s) in (h, s\<lparr>sl_rnd := r\<rparr>))"

definition link_level :: "(nat \<rightharpoonup> node_ptr) \<Rightarrow> node_ptr \<Rightarrow> nat \<Rightarrow> 'k SkipList \<Rightarrow> 'k SkipList" where
  "link_level prev x i s = SetNext (the (prev i)) i (Some x) (SetNext x i (Node_Next s (the (prev i)) i) s)"

text \<open>The assertion that no equal key is in the list is a precondition of the lemmas.\<close>

definition SkipList_Insert :: "('k \<Rightarrow> 'k \<Rightarrow> int) \<Rightarrow> 'k \<Rightarrow> 'k SkipList \<Rightarrow> 'k SkipList option" where
  "SkipList_Insert cmp key s =
     (case FindGreaterOrEqual cmp s key of
        None \<Rightarrow> None
      | Some (_, prev) \<Rightarrow>
          let (height, s) = RandomHeight s;
              (prev, s) =
                (if height > sl_max_height s
                 then ((\<lambda>i. if sl_max_height s \<le> i \<and> i < height then Some head else prev i),
                       s\<lparr>sl_max_height := height\<rparr>)
                 else (prev, s));
              (x, s) = NewNode key height s
          in Some (fold (link_level prev x) [0..<height] s))"

definition SkipList_Contains :: "('k \<Rightarrow> 'k \<Rightarrow> int) \<Rightarrow> 'k \<Rightarrow> 'k SkipList \<Rightarrow> bool option" where
  "SkipList_Contains cmp key s =
     map_option (\<lambda>(x, _). case x of None \<Rightarrow> False | Some n \<Rightarrow> cmp key (node_key s n) = 0)
       (FindGreaterOrEqual cmp s key)"

subsection \<open>Iterator\<close>

text \<open>The iterator is its node pointer; \<open>None\<close> is \<open>NULL\<close>, not valid.\<close>

type_synonym sl_iter = "node_ptr option"

definition SLIter_Valid :: "sl_iter \<Rightarrow> bool" where
  "SLIter_Valid it \<longleftrightarrow> it \<noteq> None"

definition SLIter_key :: "'k SkipList \<Rightarrow> sl_iter \<Rightarrow> 'k" where
  "SLIter_key s it = node_key s (the it)"

definition SLIter_Next :: "'k SkipList \<Rightarrow> sl_iter \<Rightarrow> sl_iter" where
  "SLIter_Next s it = Node_Next s (the it) 0"

definition head_to_NULL :: "node_ptr \<Rightarrow> sl_iter" where
  "head_to_NULL x = (if x = head then None else Some x)"

definition SLIter_Prev :: "('k \<Rightarrow> 'k \<Rightarrow> int) \<Rightarrow> 'k SkipList \<Rightarrow> sl_iter \<Rightarrow> sl_iter option" where
  "SLIter_Prev cmp s it = map_option head_to_NULL (FindLessThan cmp s (node_key s (the it)))"

definition SLIter_Seek :: "('k \<Rightarrow> 'k \<Rightarrow> int) \<Rightarrow> 'k SkipList \<Rightarrow> 'k \<Rightarrow> sl_iter option" where
  "SLIter_Seek cmp s target = map_option fst (FindGreaterOrEqual cmp s target)"

definition SLIter_SeekToFirst :: "'k SkipList \<Rightarrow> sl_iter" where
  "SLIter_SeekToFirst s = Node_Next s head 0"

definition SLIter_SeekToLast :: "'k SkipList \<Rightarrow> sl_iter option" where
  "SLIter_SeekToLast s = map_option head_to_NULL (FindLast s)"

subsection \<open>The generator\<close>

lemma Random_Next_mod:
  assumes "0 < unat seed" "unat seed < 2147483647"
  shows "unat (Random_Next seed) = 16807 * unat seed mod 2147483647" "0 < unat (Random_Next seed)"
    "unat (Random_Next seed) < 2147483647"
proof -
  define n where "n = unat seed * 16807"
  define p where "p = (ucast seed :: u64) * 16807"
  have b: "n < 2 ^ 46" using assms by (simp add: n_def)
  have p: "unat p = n"
    using b by (simp add: p_def n_def unat_word_ariths)
  let ?q = "n div 2 ^ 31" let ?r = "n mod 2 ^ 31"
  have q: "?q < 2 ^ 15" using b by (simp add: less_mult_imp_div_less)
  have qr: "n = ?q * 2 ^ 31 + ?r" by simp
  have r: "unat (p AND ucast (2147483647 :: u32)) = ?r"
  proof -
    have "p AND ucast (2147483647 :: u32) = take_bit 31 p"
      by (simp add: take_bit_eq_mask mask_eq_exp_minus_1)
    then show ?thesis by (simp only: unsigned_take_bit_eq p flip: take_bit_eq_mod)
  qed
  have s: "unat (drop_bit 31 p + (p AND ucast (2147483647 :: u32))) = ?q + ?r"
    using q r by (simp add: unat_word_ariths unat_drop_bit_div p)
  have w: "unat (ucast (drop_bit 31 p + (p AND ucast (2147483647 :: u32))) :: u32) = ?q + ?r"
    using q s by (simp add: unsigned_ucast_eq take_bit_eq_mod)
  have cong: "n mod 2147483647 = (?q + ?r) mod 2147483647"
  proof -
    have "n = a * 2147483647 + (a + b)" if "n = a * 2 ^ 31 + b" for a b :: nat using that by simp
    then have "n = ?q * 2147483647 + (?q + ?r)" using qr by blast
    then show ?thesis by (metis mod_mult_self3)
  qed
  have nz: "n mod 2147483647 \<noteq> 0"
  proof
    assume "n mod 2147483647 = 0"
    then have "2147483647 dvd unat seed * 16807" by (auto simp: n_def)
    moreover have "coprime (2147483647::nat) 16807"
      by (simp add: coprime_iff_gcd_eq_1 gcd_non_0_nat)
    ultimately have "2147483647 dvd unat seed" by (simp add: coprime_dvd_mult_left_iff)
    then show False using assms by (auto dest: dvd_imp_le)
  qed
  define t where "t = ?q + ?r"
  have t: "t < 2147483647 + 2 ^ 15 + 1" using q by (simp add: t_def)
  have tne: "t \<noteq> 2147483647" using cong nz unfolding t_def [symmetric] by force
  define w where "w = (ucast (drop_bit 31 p + (p AND ucast (2147483647 :: u32))) :: u32)"
  have wt: "unat w = t" using w by (simp add: w_def t_def)
  have N: "Random_Next seed = (if w > 2147483647 then w - 2147483647 else w)"
    by (simp add: Random_Next_def Let_def w_def p_def)
  have gt: "w > 2147483647 \<longleftrightarrow> t > 2147483647" using wt by (simp add: word_less_nat_alt)
  have val: "unat (Random_Next seed) = t mod 2147483647"
  proof (cases "t > 2147483647")
    case True
    then have "unat (w - 2147483647) = t - 2147483647"
      using wt gt by (simp add: unat_sub word_le_nat_alt)
    moreover have "t mod 2147483647 = t - 2147483647"
      using True t by (simp add: mod_if)
    ultimately show ?thesis using True gt N by simp
  next
    case False
    with tne show ?thesis using gt N wt by simp
  qed
  then show v: "unat (Random_Next seed) = 16807 * unat seed mod 2147483647"
    using cong by (simp add: t_def n_def mult.commute)
  show "0 < unat (Random_Next seed)" using v nz by (simp add: n_def mult.commute)
  show "unat (Random_Next seed) < 2147483647" using v by simp
qed

lemma RandomHeight_loop_bounds:
  "h \<le> kMaxHeight \<Longrightarrow> h \<le> fst (RandomHeight_loop h r) \<and> fst (RandomHeight_loop h r) \<le> kMaxHeight"
proof (induction h r rule: RandomHeight_loop.induct)
  case (1 h r)
  then show ?case
    by (subst (1 2) RandomHeight_loop.simps) (fastforce simp: Let_def)
qed

subsection \<open>Representation\<close>

definition node_height :: "'k SkipList \<Rightarrow> node_ptr \<Rightarrow> nat" where
  "node_height s x = length (n_next (the (sl_nodes s x)))"

text \<open>Following the level-\<open>l\<close> pointers from \<open>x\<close> visits \<open>ys\<close> and ends.\<close>

fun links :: "'k SkipList \<Rightarrow> nat \<Rightarrow> node_ptr \<Rightarrow> node_ptr list \<Rightarrow> bool" where
  "links s l x [] \<longleftrightarrow> Node_Next s x l = None"
| "links s l x (y # ys) \<longleftrightarrow> Node_Next s x l = Some y \<and> links s l y ys"

definition on_level :: "'k SkipList \<Rightarrow> nat \<Rightarrow> node_ptr list \<Rightarrow> node_ptr list" where
  "on_level s l xs = filter (\<lambda>a. l < node_height s a) xs"

lemma on_level_simps [simp]:
  "on_level s l [] = []" "on_level s l (x # xs) = (if l < node_height s x then x # on_level s l xs else on_level s l xs)"
  "on_level s l (xs @ ys) = on_level s l xs @ on_level s l ys"
  "set (on_level s l xs) = {a \<in> set xs. l < node_height s a}"
  by (auto simp: on_level_def)

text \<open>
  The list of nodes \<open>xs\<close>: every level links the nodes that are high enough, in the order of
  \<open>xs\<close>, and nothing else.
\<close>

definition sl_shape :: "'k SkipList \<Rightarrow> node_ptr list \<Rightarrow> bool" where
  "sl_shape s xs \<longleftrightarrow>
     sl_nodes s head \<noteq> None \<and> node_height s head = kMaxHeight \<and> head \<notin> set xs \<and> distinct xs \<and>
     (\<forall>a\<in>set xs. sl_nodes s a \<noteq> None \<and> 0 < node_height s a \<and> node_height s a \<le> sl_max_height s) \<and>
     (\<forall>a. sl_nodes s a \<noteq> None \<longrightarrow> a < sl_fresh s) \<and>
     1 \<le> sl_max_height s \<and> sl_max_height s \<le> kMaxHeight \<and>
     (\<forall>l<kMaxHeight. links s l head (on_level s l xs))"

lemma on_level_0: "sl_shape s xs \<Longrightarrow> on_level s 0 xs = xs"
  by (auto simp: sl_shape_def on_level_def filter_id_conv)

lemma links_append: "links s l x (as @ y # bs) \<Longrightarrow> links s l y bs"
  by (induction as arbitrary: x) auto

lemma links_first: "links s l x ys \<Longrightarrow> Node_Next s x l = (case ys of [] \<Rightarrow> None | y # _ \<Rightarrow> Some y)"
  by (cases ys) auto

lemma links_last: "links s l x (as @ bs) \<Longrightarrow> links s l (last (x # as)) bs"
  by (induction as arbitrary: x) auto

text \<open>
  The common shape of the three search loops: go right while \<open>c\<close> holds of the next node,
  else go down; \<open>p\<close> is what is collected on the way.
\<close>

lemma search_level:
  assumes F: "\<And>x. F x = (case Node_Next s x l of Some y \<Rightarrow> if c y then F y else G x | None \<Rightarrow> G x)"
    and "links s l x (as @ bs)" "\<forall>a\<in>set as. c a" "bs = [] \<or> \<not> c (List.hd bs)"
  shows "F x = G (last (x # as))"
  using assms(2-)
proof (induction as arbitrary: x)
  case Nil
  then show ?case by (subst F) (auto simp: links_first split: list.splits)
next
  case (Cons a as)
  then show ?case by (subst F) auto
qed

definition pred_at :: "'k SkipList \<Rightarrow> node_ptr list \<Rightarrow> nat \<Rightarrow> node_ptr" where
  "pred_at s ps l = last (head # on_level s l ps)"

lemma pred_at_0: "sl_shape s (ps @ qs) \<Longrightarrow> pred_at s ps 0 = last (head # ps)"
  by (auto simp: sl_shape_def on_level_def filter_id_conv pred_at_def)

lemma search_down:
  assumes F: "\<And>x l p. F x l p =
      (case Node_Next s x l of
         Some y \<Rightarrow> if c y then F y l p else if l = 0 then R x (p(l \<mapsto> x)) else F x (l - 1) (p(l \<mapsto> x))
       | None \<Rightarrow> if l = 0 then R x (p(l \<mapsto> x)) else F x (l - 1) (p(l \<mapsto> x)))"
    and sh: "sl_shape s (ps @ qs)" and c: "\<forall>a\<in>set ps. c a" "\<forall>a\<in>set qs. \<not> c a"
    and l: "l < kMaxHeight" and x: "x = head \<or> x \<in> set (on_level s l ps)"
  shows "F x l p = R (pred_at s ps 0) (\<lambda>i. if i \<le> l then Some (pred_at s ps i) else p i)"
proof -
  let ?v = "pred_at s ps"
  have here: "F x l p = (if l = 0 then R (?v l) (p(l \<mapsto> ?v l)) else F (?v l) (l - 1) (p(l \<mapsto> ?v l)))"
    if l: "l < kMaxHeight" and x: "x = head \<or> x \<in> set (on_level s l ps)" for x l p
  proof -
    let ?G = "\<lambda>x. if l = 0 then R x (p(l \<mapsto> x)) else F x (l - 1) (p(l \<mapsto> x))"
    have lk: "links s l head (on_level s l ps @ on_level s l qs)"
      using sh l by (simp add: sl_shape_def)
    obtain as bs where ab: "head # on_level s l ps = as @ x # bs"
      using x by (metis append_Nil list.set_intros(2) split_list)
    then have "links s l x (bs @ on_level s l qs)"
      using lk by (cases as) (auto dest: links_append)
    moreover have "set bs \<subseteq> set (on_level s l ps)"
      using ab by (cases as) (auto simp del: on_level_simps(4))
    then have "\<forall>a\<in>set bs. c a" using c(1) by auto
    moreover have "on_level s l qs = [] \<or> \<not> c (List.hd (on_level s l qs))"
      using c(2) hd_in_set [of "on_level s l qs"] by fastforce
    ultimately have "F x l p = ?G (last (x # bs))"
      by (rule search_level [where F = "\<lambda>x. F x l p" and G = ?G and c = c and s = s and l = l, rotated])
        (rule F)
    moreover have "last (x # bs) = ?v l"
      unfolding pred_at_def ab by simp
    ultimately show ?thesis by simp
  qed
  show ?thesis using l x
  proof (induction l arbitrary: x p)
    case 0
    then show ?case by (simp add: here fun_upd_def cong: if_cong)
  next
    case (Suc l)
    have "?v (Suc l) = head \<or> ?v (Suc l) \<in> set (on_level s l ps)"
      unfolding pred_at_def using last_in_set [of "on_level s (Suc l) ps"] by auto
    from Suc.IH [OF _ this] Suc.prems show ?case
      by (auto simp: here [OF Suc.prems] fun_upd_def le_Suc_eq intro!: arg_cong2 [of _ _ _ _ R])
  qed
qed


lemma FindGreaterOrEqual_ok:
  assumes "sl_shape s (ps @ qs)" "\<forall>a\<in>set ps. cmp (node_key s a) k < 0" "\<forall>a\<in>set qs. \<not> cmp (node_key s a) k < 0"
  shows "FindGreaterOrEqual cmp s k =
    Some (case qs of [] \<Rightarrow> None | q # _ \<Rightarrow> Some q, \<lambda>i. if i < sl_max_height s then Some (pred_at s ps i) else None)"
proof -
  let ?R = "\<lambda>x p. Some (Node_Next s x 0, p)"
  have mh: "sl_max_height s - 1 < kMaxHeight" "0 < sl_max_height s" using assms(1) by (auto simp: sl_shape_def)
  have "FindGreaterOrEqual_loop cmp s k head (sl_max_height s - 1) Map.empty =
      ?R (pred_at s ps 0) (\<lambda>i. if i \<le> sl_max_height s - 1 then Some (pred_at s ps i) else None)"
    by (rule search_down [where F = "FindGreaterOrEqual_loop cmp s k" and R = ?R and qs = qs
            and c = "\<lambda>a. cmp (node_key s a) k < 0"], subst FindGreaterOrEqual_loop.simps)
      (use assms mh in \<open>auto simp: Let_def KeyIsAfterNode_def split: option.splits\<close>)
  moreover have "links s 0 head (ps @ qs)"
    using assms(1) on_level_0 [OF assms(1)] unfolding sl_shape_def kMaxHeight_def by (metis zero_less_numeral)
  then have "Node_Next s (pred_at s ps 0) 0 = (case qs of [] \<Rightarrow> None | q # _ \<Rightarrow> Some q)"
    using links_first [OF links_last] pred_at_0 [OF assms(1)] by metis
  moreover have "i \<le> sl_max_height s - 1 \<longleftrightarrow> i < sl_max_height s" for i using mh by auto
  ultimately show ?thesis by (simp add: FindGreaterOrEqual_def)
qed

lemma FindLessThan_ok:
  assumes "sl_shape s (ps @ qs)" "\<forall>a\<in>set ps. cmp (node_key s a) k < 0" "\<forall>a\<in>set qs. \<not> cmp (node_key s a) k < 0"
  shows "FindLessThan cmp s k = Some (last (head # ps))"
proof -
  have mh: "sl_max_height s - 1 < kMaxHeight" "0 < sl_max_height s" using assms(1) by (auto simp: sl_shape_def)
  have "FindLessThan_loop cmp s k head (sl_max_height s - 1) = Some (pred_at s ps 0)"
    by (rule search_down [where F = "\<lambda>x l p. FindLessThan_loop cmp s k x l" and R = "\<lambda>x p. Some x" and qs = qs
            and c = "\<lambda>a. cmp (node_key s a) k < 0"], subst FindLessThan_loop.simps)
      (use assms mh in \<open>auto split: option.splits\<close>)
  then show ?thesis using pred_at_0 [OF assms(1)] by (simp add: FindLessThan_def)
qed

lemma FindLast_ok:
  assumes "sl_shape s ps"
  shows "FindLast s = Some (last (head # ps))"
proof -
  have mh: "sl_max_height s - 1 < kMaxHeight" "0 < sl_max_height s" using assms(1) by (auto simp: sl_shape_def)
  have "FindLast_loop s head (sl_max_height s - 1) = Some (pred_at s ps 0)"
    by (rule search_down [where F = "\<lambda>x l p. FindLast_loop s x l" and R = "\<lambda>x p. Some x" and qs = "[]"
            and c = "\<lambda>a. True"], subst FindLast_loop.simps)
      (use assms mh in \<open>auto split: option.splits\<close>)
  then show ?thesis using pred_at_0 [of s ps "[]"] assms by (simp add: FindLast_def)
qed


subsection \<open>Linking a new node\<close>

lemma Node_Next_SetNext:
  "sl_nodes s x \<noteq> None \<Longrightarrow> n < node_height s x \<Longrightarrow>
   Node_Next (SetNext x n y s) z l = (if z = x \<and> l = n then y else Node_Next s z l)"
  by (auto simp: Node_Next_def SetNext_def node_height_def nth_list_update)

lemma SetNext_frame [simp]:
  "node_key (SetNext x n y s) z = node_key s z" "node_height (SetNext x n y s) z = node_height s z"
  "sl_nodes (SetNext x n y s) z = None \<longleftrightarrow> sl_nodes s z = None"
  "sl_max_height (SetNext x n y s) = sl_max_height s" "sl_fresh (SetNext x n y s) = sl_fresh s"
  by (cases "sl_nodes s x"; simp add: node_key_def node_height_def SetNext_def)+

lemma link_levels:
  assumes "sl_nodes s x \<noteq> None" "h \<le> node_height s x"
    and "\<forall>i<h. prev i = Some (pv i) \<and> pv i \<noteq> x \<and> sl_nodes s (pv i) \<noteq> None \<and> i < node_height s (pv i)"
  defines "s' \<equiv> fold (link_level prev x) [0..<h] s"
  shows "Node_Next s' y l =
      (if l < h \<and> y = x then Node_Next s (pv l) l else if l < h \<and> y = pv l then Some x else Node_Next s y l)"
    and "node_key s' z = node_key s z" "node_height s' z = node_height s z"
    "sl_nodes s' z = None \<longleftrightarrow> sl_nodes s z = None"
    "sl_max_height s' = sl_max_height s" "sl_fresh s' = sl_fresh s"
  unfolding s'_def using assms(2,3)
proof (induction h arbitrary: y l z)
  case (Suc h)
  { case 1
    then show ?case using Suc assms(1)
      by (simp add: link_level_def Node_Next_SetNext less_Suc_eq)
  next
    case 2 then show ?case using Suc by (simp add: link_level_def)
  next
    case 3 then show ?case using Suc by (simp add: link_level_def)
  next
    case 4 then show ?case using Suc by (simp add: link_level_def)
  next
    case 5 then show ?case using Suc by (simp add: link_level_def)
  next
    case 6 then show ?case using Suc by (simp add: link_level_def)
  }
qed simp_all

lemma links_cong:
  "\<forall>z\<in>set (x # ys). Node_Next s' z l = Node_Next s z l \<Longrightarrow> links s' l x ys = links s l x ys"
  by (induction ys arbitrary: x) auto

lemma links_splice:
  assumes "\<forall>z\<in>set (a # x # as @ bs). Node_Next s' z l =
      (if z = a then Node_Next s (last (x # as)) l else if z = last (x # as) then Some a else Node_Next s z l)"
    and "links s l x (as @ bs)" "distinct (x # as @ bs)" "a \<notin> set (x # as @ bs)"
  shows "links s' l x (as @ a # bs)"
  using assms
proof (induction as arbitrary: x)
  case Nil
  have "links s' l a bs = links s l x bs"
  proof (cases bs)
    case (Cons b bs')
    have "links s' l b bs' = links s l b bs'"
      using Nil Cons by (intro links_cong) auto
    then show ?thesis using Nil Cons by simp
  qed (use Nil in simp)
  then show ?case using Nil by simp
next
  case (Cons y as)
  have "links s' l y (as @ a # bs)"
    using Cons.prems by (intro Cons.IH) auto
  moreover have "last (y # as) \<noteq> x" using Cons.prems(3) last_in_set [of "y # as"] by auto
  ultimately show ?case using Cons.prems by (auto split: if_splits)
qed

lemma links_end:
  assumes "sl_shape s xs" "sl_max_height s \<le> l" "l < kMaxHeight"
  shows "on_level s l xs = []"
  using assms by (force simp: sl_shape_def on_level_def filter_empty_conv)


lemma NewNode_frame:
  assumes "NewNode k h s = (x, s')" "\<forall>a. sl_nodes s a \<noteq> None \<longrightarrow> a < sl_fresh s"
  shows "x = sl_fresh s" "sl_nodes s x = None" "sl_nodes s' x \<noteq> None" "node_height s' x = h" "node_key s' x = k"
    "sl_max_height s' = sl_max_height s" "sl_fresh s' = Suc (sl_fresh s)"
    "\<And>a. a \<noteq> x \<Longrightarrow> sl_nodes s' a = sl_nodes s a"
  using assms by (auto simp: NewNode_def node_height_def node_key_def)

lemma same_nodes:
  "sl_nodes s' a = sl_nodes s a \<Longrightarrow> Node_Next s' a l = Node_Next s a l \<and> node_height s' a = node_height s a \<and>
    node_key s' a = node_key s a"
  by (simp add: Node_Next_def node_height_def node_key_def)

lemma on_level_cong: "\<forall>a\<in>set xs. node_height s' a = node_height s a \<Longrightarrow> on_level s' l xs = on_level s l xs"
  by (auto simp: on_level_def cong: filter_cong)

lemma pred_at_node:
  assumes "sl_shape s (ps @ qs)" "l < kMaxHeight"
  shows "sl_nodes s (pred_at s ps l) \<noteq> None" "l < node_height s (pred_at s ps l)"
proof -
  have "pred_at s ps l = head \<or> pred_at s ps l \<in> set (on_level s l ps)"
    unfolding pred_at_def using last_in_set [of "on_level s l ps"] by auto
  then show "sl_nodes s (pred_at s ps l) \<noteq> None" "l < node_height s (pred_at s ps l)"
    using assms by (auto simp: sl_shape_def)
qed

text \<open>
  Linking a new node of any admissible height between \<open>ps\<close> and \<open>qs\<close>, with \<open>prev\<close> holding
  the predecessor on every level.
\<close>

lemma splice_shape:
  assumes sh: "sl_shape s (ps @ qs)" and h: "0 < h" "h \<le> kMaxHeight"
    and prev: "\<forall>i<h. prev i = Some (pred_at s ps i)"
    and nn: "NewNode k h (s\<lparr>sl_rnd := r, sl_max_height := max h (sl_max_height s)\<rparr>) = (x, s1)"
  defines "s' \<equiv> fold (link_level prev x) [0..<h] s1"
  shows "sl_shape s' (ps @ x # qs)" "node_key s' x = k" "a \<noteq> x \<Longrightarrow> node_key s' a = node_key s a" "x \<notin> set (ps @ qs)"
proof -
  let ?s0 = "s\<lparr>sl_rnd := r, sl_max_height := max h (sl_max_height s)\<rparr>"
  note [simp] = kMaxHeight_def
  have fr: "\<forall>a. sl_nodes ?s0 a \<noteq> None \<longrightarrow> a < sl_fresh ?s0" using sh by (simp add: sl_shape_def)
  note N = NewNode_frame [OF nn fr, simplified]
  have old: "sl_nodes s1 a = sl_nodes s a" if "sl_nodes s a \<noteq> None" for a
    using N(2) N(8) that by metis
  note same = same_nodes [OF old]
  have N3: "sl_nodes s1 x \<noteq> None" and hh: "h \<le> node_height s1 x" using N(3,4) by simp_all
  have nodes: "sl_nodes s a \<noteq> None" if "a \<in> set (head # ps @ qs)" for a
    using sh that unfolding sl_shape_def by auto
  have xn: "x \<notin> set (head # ps @ qs)" using nodes N(2) by blast
  have xp: "pred_at s ps i \<noteq> x" if "i < h" for i
    using pred_at_node(1) [OF sh, of i] that h N(2) by auto
  have "\<forall>i<h. prev i = Some (pred_at s ps i) \<and> pred_at s ps i \<noteq> x \<and> sl_nodes s1 (pred_at s ps i) \<noteq> None \<and>
      i < node_height s1 (pred_at s ps i)"
    proof (intro allI impI)
    fix i assume i: "i < h"
    then have "i < kMaxHeight" using h by simp
    note P = pred_at_node [OF sh this]
    show "prev i = Some (pred_at s ps i) \<and> pred_at s ps i \<noteq> x \<and> sl_nodes s1 (pred_at s ps i) \<noteq> None \<and>
      i < node_height s1 (pred_at s ps i)"
      using prev i xp P old [OF P(1)] same [OF P(1), of i] by simp
  qed
  note L = link_levels [OF N3 hh this, folded s'_def]
  show key: "node_key s' x = k" using L(2) N(5) by simp
  show "x \<notin> set (ps @ qs)" using xn by simp
  have ht: "node_height s' a = node_height s a" if "sl_nodes s a \<noteq> None" for a
    using L(3) same [OF that] by simp
  have hx: "node_height s' x = h" using L(3) N(4) by simp
  have lev: "on_level s' l ps = on_level s l ps" "on_level s' l qs = on_level s l qs" for l
    using ht nodes by (auto intro!: on_level_cong)
  have "links s' l head (on_level s' l (ps @ x # qs))" if l: "l < kMaxHeight" for l
  proof -
    have lk: "links s l head (on_level s l ps @ on_level s l qs)" and
      ds: "distinct (head # on_level s l ps @ on_level s l qs)"
      using sh l by (auto simp: sl_shape_def on_level_def)
    have nxt: "Node_Next s' z l = (if l < h \<and> z = pred_at s ps l then Some x else Node_Next s z l)"
      if "sl_nodes s z \<noteq> None" for z
    proof -
      have "z \<noteq> x" using that N(2) by auto
      then show ?thesis using L(1) [of z l] same [OF that, of l] by simp
    qed
    have old_nodes: "sl_nodes s z \<noteq> None" if "z \<in> set (head # on_level s l ps @ on_level s l qs)" for z
      using that nodes by auto
    show ?thesis
    proof (cases "l < h")
      case True
      have "Node_Next s' x l = Node_Next s (pred_at s ps l) l"
        using L(1) [of x l] True same [OF pred_at_node(1) [OF sh l], of l] by simp
      moreover have "Node_Next s' z l = (if z = pred_at s ps l then Some x else Node_Next s z l)" "z \<noteq> x"
        if "z \<in> set (head # on_level s l ps @ on_level s l qs)" for z
        using nxt [OF old_nodes [OF that]] True that xn by auto
      ultimately have "\<forall>z\<in>set (x # head # on_level s l ps @ on_level s l qs). Node_Next s' z l =
        (if z = x then Node_Next s (last (head # on_level s l ps)) l
         else if z = last (head # on_level s l ps) then Some x else Node_Next s z l)"
        unfolding pred_at_def by (metis set_ConsD)
      from links_splice [OF this lk ds] have "links s' l head (on_level s l ps @ x # on_level s l qs)"
        using xn by simp
      then show ?thesis using True hx by (simp add: lev)
    next
      case False
      have "links s' l head (on_level s l ps @ on_level s l qs) = links s l head (on_level s l ps @ on_level s l qs)"
        using nxt old_nodes False by (intro links_cong) auto
      then show ?thesis using False hx lk by (simp add: lev)
    qed
  qed
  moreover have "\<forall>a\<in>set (ps @ x # qs). sl_nodes s' a \<noteq> None \<and> 0 < node_height s' a \<and> node_height s' a \<le> sl_max_height s'"
  proof
    fix a assume "a \<in> set (ps @ x # qs)"
    then consider "a = x" | "a \<in> set (ps @ qs)" by auto
    then show "sl_nodes s' a \<noteq> None \<and> 0 < node_height s' a \<and> node_height s' a \<le> sl_max_height s'"
    proof cases
      case 1
      then show ?thesis using L(4) N(3) hx h L(5) N(6) by simp
    next
      case 2
      then have "sl_nodes s a \<noteq> None" "0 < node_height s a" "node_height s a \<le> sl_max_height s"
        using sh unfolding sl_shape_def by blast+
      then show ?thesis using L(4) old ht L(5) N(6) by simp
    qed
  qed
  moreover have "\<forall>a. sl_nodes s' a \<noteq> None \<longrightarrow> a < sl_fresh s'"
  proof (intro allI impI)
    fix a assume "sl_nodes s' a \<noteq> None"
    then have "a = x \<or> sl_nodes s a \<noteq> None" using L(4) N(8) by metis
    then show "a < sl_fresh s'" using N(1,7) L(6) sh by (auto simp: sl_shape_def less_Suc_eq)
  qed
  moreover have "sl_nodes s' head \<noteq> None" "node_height s' head = kMaxHeight"
    using nodes [of head] ht [of head] L(4) [of head] old [of head] sh by (auto simp: sl_shape_def)
  moreover have "1 \<le> sl_max_height s'" "sl_max_height s' \<le> kMaxHeight"
    using L(5) N(6) h sh by (auto simp: sl_shape_def)
  moreover have "head \<notin> set (ps @ x # qs)" "distinct (ps @ x # qs)" using xn sh by (auto simp: sl_shape_def)
  ultimately show "sl_shape s' (ps @ x # qs)" unfolding sl_shape_def by blast
  show "node_key s' a = node_key s a" if "a \<noteq> x" for a using L(2) same_nodes [OF N(8) [OF that]] by simp
qed


subsection \<open>The contract\<close>

text \<open>What the list needs of its comparator, on the keys that are stored or looked up.\<close>

locale key_order =
  fixes cmp :: "'k \<Rightarrow> 'k \<Rightarrow> int" and good :: "'k \<Rightarrow> bool"
  assumes swap: "good a \<Longrightarrow> good b \<Longrightarrow> cmp a b < 0 \<longleftrightarrow> cmp b a > 0"
    and trans: "good a \<Longrightarrow> good b \<Longrightarrow> good c \<Longrightarrow> cmp a b < 0 \<Longrightarrow> cmp b c < 0 \<Longrightarrow> cmp a c < 0"
    and less_equal: "good a \<Longrightarrow> good b \<Longrightarrow> good c \<Longrightarrow> cmp a b < 0 \<Longrightarrow> cmp b c = 0 \<Longrightarrow> cmp a c < 0"

text \<open>The list of keys a skip list stands for.\<close>

definition sl_rep :: "('k \<Rightarrow> 'k \<Rightarrow> int) \<Rightarrow> 'k SkipList \<Rightarrow> node_ptr list \<Rightarrow> 'k list \<Rightarrow> bool" where
  "sl_rep cmp s xs ks \<longleftrightarrow> sl_shape s xs \<and> ks = map (node_key s) xs \<and> sorted_wrt (\<lambda>a b. cmp a b < 0) ks"

text \<open>The specification of insertion into an ordered list.\<close>

definition before :: "('k \<Rightarrow> 'k \<Rightarrow> int) \<Rightarrow> 'k \<Rightarrow> 'k list \<Rightarrow> 'k list" where
  "before cmp k ks = takeWhile (\<lambda>j. cmp j k < 0) ks"

definition from_key :: "('k \<Rightarrow> 'k \<Rightarrow> int) \<Rightarrow> 'k \<Rightarrow> 'k list \<Rightarrow> 'k list" where
  "from_key cmp k ks = dropWhile (\<lambda>j. cmp j k < 0) ks"

lemma before_from [simp]: "before cmp k ks @ from_key cmp k ks = ks"
  by (simp add: before_def from_key_def)

text \<open>An iterator at position \<open>i\<close> of the list, or past its end.\<close>

definition at_pos :: "node_ptr list \<Rightarrow> nat \<Rightarrow> sl_iter \<Rightarrow> bool" where
  "at_pos xs i it \<longleftrightarrow> i \<le> length xs \<and> it = (if i < length xs then Some (xs ! i) else None)"

lemma links_nth: "links s l x ys \<Longrightarrow> i < length ys \<Longrightarrow> links s l (ys ! i) (drop (Suc i) ys)"
  by (metis id_take_nth_drop links_append)

context key_order
begin

lemma not_before:
  assumes "sorted_wrt (\<lambda>a b. cmp a b < 0) ks" "\<forall>j\<in>set ks. good j" "good k" "j \<in> set (from_key cmp k ks)"
  shows "\<not> cmp j k < 0"
  using assms
proof (induction ks)
  case (Cons i ks)
  then show ?case
    using trans [of i j k] by (auto simp: from_key_def split: if_splits dest: set_dropWhileD)
qed (simp add: from_key_def)

text \<open>Every search splits the nodes at the first key that is not before the target.\<close>

lemma split_at:
  assumes r: "sl_rep cmp s xs ks" and g: "\<forall>j\<in>set ks. good j" "good k"
  obtains ps qs where "xs = ps @ qs" "map (node_key s) ps = before cmp k ks" "map (node_key s) qs = from_key cmp k ks"
    "sl_shape s (ps @ qs)" "\<forall>a\<in>set ps. cmp (node_key s a) k < 0" "\<forall>a\<in>set qs. \<not> cmp (node_key s a) k < 0"
proof -
  let ?n = "length (before cmp k ks)"
  have ks: "ks = map (node_key s) xs" and so: "sorted_wrt (\<lambda>a b. cmp a b < 0) ks" and sh: "sl_shape s xs"
    using r by (auto simp: sl_rep_def)
  have m: "map (node_key s) (take ?n xs) = before cmp k ks" "map (node_key s) (drop ?n xs) = from_key cmp k ks"
    unfolding take_map [symmetric] drop_map [symmetric] ks [symmetric]
    by (metis append_eq_conv_conj before_from)+
  have "\<forall>a\<in>set (take ?n xs). cmp (node_key s a) k < 0"
    using m(1) by (metis before_def image_eqI list.set_map set_takeWhileD)
  moreover have "\<forall>a\<in>set (drop ?n xs). \<not> cmp (node_key s a) k < 0"
    using m(2) not_before [OF so g] by (metis image_eqI list.set_map)
  ultimately show thesis using that [of "take ?n xs" "drop ?n xs"] m sh by simp
qed

lemma Insert_rep:
  assumes r: "sl_rep cmp s xs ks" and g: "\<forall>j\<in>set ks. good j" "good k" and new: "\<forall>j\<in>set ks. cmp k j \<noteq> 0"
  shows "\<exists>s' xs'. SkipList_Insert cmp k s = Some s' \<and> sl_rep cmp s' xs' (before cmp k ks @ k # from_key cmp k ks)"
proof -
  obtain ps qs where xs: "xs = ps @ qs" and m: "map (node_key s) ps = before cmp k ks" "map (node_key s) qs = from_key cmp k ks"
    and sh: "sl_shape s (ps @ qs)" and c: "\<forall>a\<in>set ps. cmp (node_key s a) k < 0" "\<forall>a\<in>set qs. \<not> cmp (node_key s a) k < 0"
    using split_at [OF r g] .
  note F = FindGreaterOrEqual_ok [OF sh, where cmp = cmp and k = k, OF c]
  obtain h rnd where H: "RandomHeight_loop 1 (sl_rnd s) = (h, rnd)" by fastforce
  have h: "0 < h" "h \<le> kMaxHeight"
    using RandomHeight_loop_bounds [of 1 "sl_rnd s"] unfolding H by (auto simp: kMaxHeight_def)
  let ?s0 = "s\<lparr>sl_rnd := rnd, sl_max_height := max h (sl_max_height s)\<rparr>"
  obtain x s1 where N: "NewNode k h ?s0 = (x, s1)" by fastforce
  let ?pr = "\<lambda>i. if i < sl_max_height s then Some (pred_at s ps i) else None"
  let ?prev = "if h > sl_max_height s then (\<lambda>i. if sl_max_height s \<le> i \<and> i < h then Some head else ?pr i) else ?pr"
  have top: "pred_at s ps i = head" if "sl_max_height s \<le> i" "i < h" for i
    using links_end [OF sh, of i] that h by (simp add: pred_at_def)
  have prev: "\<forall>i<h. ?prev i = Some (pred_at s ps i)"
    using top by auto
  define s' where "s' = fold (link_level ?prev x) [0..<h] s1"
  have I: "SkipList_Insert cmp k s = Some s'"
  proof (cases "h > sl_max_height s")
    case True
    then have "s\<lparr>sl_rnd := rnd, sl_max_height := h\<rparr> = ?s0" by simp
    then show ?thesis using True N
      by (simp add: SkipList_Insert_def F RandomHeight_def H [unfolded One_nat_def] Let_def s'_def)
  next
    case False
    then have "s\<lparr>sl_rnd := rnd\<rparr> = ?s0" by (simp add: max_def)
    then show ?thesis using False N
      by (simp add: SkipList_Insert_def F RandomHeight_def H [unfolded One_nat_def] Let_def s'_def)
  qed
  note S = splice_shape [OF sh h prev N, folded s'_def]
  have "map (node_key s') ps = map (node_key s) ps" "map (node_key s') qs = map (node_key s) qs"
    using S(3,4) by (intro map_cong; metis UnCI set_append)+
  then have "map (node_key s') (ps @ x # qs) = before cmp k ks @ k # from_key cmp k ks"
    using S(2) m by simp
  moreover have "sorted_wrt (\<lambda>a b. cmp a b < 0) (before cmp k ks @ k # from_key cmp k ks)"
  proof -
    have so: "sorted_wrt (\<lambda>a b. cmp a b < 0) (before cmp k ks @ from_key cmp k ks)" using r unfolding sl_rep_def before_from by blast
    have "cmp k j < 0" if "j \<in> set (from_key cmp k ks)" for j
    proof -
      have j: "j \<in> set ks" using that by (metis Un_iff before_from set_append)
      have "\<not> cmp j k < 0" using that m(2) c(2) by (metis (no_types, lifting) imageE list.set_map)
      moreover have "cmp k j \<noteq> 0" using new j by blast
      ultimately show ?thesis using swap [of k j] swap [of j k] g j by force
    qed
    moreover have "cmp j k < 0" if "j \<in> set (before cmp k ks)" for j
      using that by (auto simp: before_def dest: set_takeWhileD)
    ultimately show ?thesis using so [unfolded sorted_wrt_append] by (auto simp: sorted_wrt_append)
  qed
  ultimately have "sl_rep cmp s' (ps @ x # qs) (before cmp k ks @ k # from_key cmp k ks)"
    using S(1) by (simp add: sl_rep_def)
  with I show ?thesis by blast
qed


lemma Seek_pos:
  assumes "sl_rep cmp s xs ks" "\<forall>j\<in>set ks. good j" "good k"
  shows "\<exists>it. SLIter_Seek cmp s k = Some it \<and> at_pos xs (length (before cmp k ks)) it"
proof (rule split_at [OF assms])
  fix ps qs
  assume *: "xs = ps @ qs" "map (node_key s) ps = before cmp k ks" "sl_shape s (ps @ qs)"
    and c: "\<forall>a\<in>set ps. cmp (node_key s a) k < 0" "\<forall>a\<in>set qs. \<not> cmp (node_key s a) k < 0"
  have "length (before cmp k ks) = length ps" by (metis *(2) length_map)
  then show ?thesis
    using FindGreaterOrEqual_ok [OF *(3), where cmp = cmp and k = k, OF c] *(1)
    by (simp add: SLIter_Seek_def at_pos_def nth_append split: list.splits)
qed

lemma Contains_iff:
  assumes r: "sl_rep cmp s xs ks" and g: "\<forall>j\<in>set ks. good j" "good k"
  shows "SkipList_Contains cmp k s = Some (\<exists>j\<in>set ks. cmp k j = 0)"
proof (rule split_at [OF r g])
  fix ps qs
  assume *: "xs = ps @ qs" "map (node_key s) qs = from_key cmp k ks" "sl_shape s (ps @ qs)"
    and c: "\<forall>a\<in>set ps. cmp (node_key s a) k < 0" "\<forall>a\<in>set qs. \<not> cmp (node_key s a) k < 0"
  have ks: "ks = map (node_key s) (ps @ qs)" and so: "sorted_wrt (\<lambda>a b. cmp a b < 0) ks"
    using r *(1) by (auto simp: sl_rep_def)
  have sym: "cmp j k = 0 \<longleftrightarrow> cmp k j = 0" if "j \<in> set ks" for j
    using swap [of j k] swap [of k j] that g by fastforce
  have first: "cmp k (node_key s q) = 0" if qs: "qs = q # qs'" and j: "j \<in> set ks" "cmp k j = 0" for q qs' j
  proof (rule ccontr)
    assume ne: "cmp k (node_key s q) \<noteq> 0"
    have "\<not> cmp j k < 0" using swap [of j k] g j by auto
    then have "j \<in> node_key s ` set qs" using j(1) ks c(1) by auto
    then have "cmp (node_key s q) j < 0" using so ne j(2) unfolding ks qs by (auto simp: sorted_wrt_append)
    then have "cmp (node_key s q) k < 0" using less_equal [of "node_key s q" j k] g j sym by (auto simp: ks qs)
    then show False using c(2) qs by simp
  qed
  have none: False if "qs = []" "j \<in> set ks" "cmp k j = 0" for j
    using c(1) that ks swap [of j k] g by auto
  show ?thesis
    using FindGreaterOrEqual_ok [OF *(3), where cmp = cmp and k = k, OF c] first none
    by (cases qs) (auto simp: SkipList_Contains_def ks)
qed

lemma Prev_pos:
  assumes r: "sl_rep cmp s xs ks" and g: "\<forall>j\<in>set ks. good j" and i: "i < length xs"
  shows "\<exists>it. SLIter_Prev cmp s (Some (xs ! i)) = Some it \<and> at_pos xs (if i = 0 then length xs else i - 1) it"
proof -
  have sh: "sl_shape s xs" and ks: "ks = map (node_key s) xs" and so: "sorted_wrt (\<lambda>a b. cmp a b < 0) ks"
    using r by (auto simp: sl_rep_def)
  let ?k = "node_key s (xs ! i)"
  have lt: "cmp (node_key s (xs ! a)) (node_key s (xs ! b)) < 0" if "a < b" "b < length xs" for a b
    using sorted_wrt_nth_less [OF so that(1)] that by (simp add: ks)
  have irrefl: "\<not> cmp j j < 0" if "j \<in> set ks" for j using swap [of j j] g that by auto
  have "\<forall>a\<in>set (take i xs). cmp (node_key s a) ?k < 0"
    using lt i by (auto simp: in_set_conv_nth)
  moreover have "\<forall>a\<in>set (drop i xs). \<not> cmp (node_key s a) ?k < 0"
  proof
    fix a assume "a \<in> set (drop i xs)"
    then obtain j where j: "a = xs ! (i + j)" "i + j < length xs" by (auto simp: in_set_conv_nth)
    then have "cmp ?k (node_key s a) < 0 \<or> a = xs ! i" using lt [of i "i + j"] by (cases j) auto
    then show "\<not> cmp (node_key s a) ?k < 0" using irrefl swap [of ?k "node_key s a"] g i j by (auto simp: ks)
  qed
  ultimately have "FindLessThan cmp s ?k = Some (last (head # take i xs))"
    using FindLessThan_ok [of s "take i xs" "drop i xs" cmp ?k] sh by simp
  moreover have "last (head # take i xs) = (if i = 0 then head else xs ! (i - 1))"
    using i by (auto simp: last_conv_nth)
  moreover have "xs ! (i - 1) \<noteq> head" using sh i nth_mem [of "i - 1" xs] unfolding sl_shape_def by (metis less_imp_diff_less)
  ultimately show ?thesis using i by (auto simp: SLIter_Prev_def head_to_NULL_def at_pos_def)
qed

end

lemma SeekToFirst_pos: "sl_rep cmp s xs ks \<Longrightarrow> at_pos xs 0 (SLIter_SeekToFirst s)"
  using on_level_0 [of s xs] unfolding sl_rep_def sl_shape_def at_pos_def SLIter_SeekToFirst_def kMaxHeight_def
  by (cases xs) (force dest!: links_first [of s 0])+

lemma Next_pos:
  assumes "sl_rep cmp s xs ks" "i < length xs"
  shows "at_pos xs (Suc i) (SLIter_Next s (Some (xs ! i)))"
proof -
  have "links s 0 head xs" using assms(1) on_level_0 [of s xs] unfolding sl_rep_def sl_shape_def kMaxHeight_def
    by (metis zero_less_numeral)
  from links_first [OF links_nth [OF this assms(2)]] show ?thesis
    using assms(2) by (auto simp: SLIter_Next_def at_pos_def Cons_nth_drop_Suc [symmetric] split: list.splits)
qed

lemma SeekToLast_pos:
  assumes "sl_rep cmp s xs ks"
  shows "\<exists>it. SLIter_SeekToLast s = Some it \<and> at_pos xs (length xs - 1) it"
proof -
  have sh: "sl_shape s xs" using assms by (simp add: sl_rep_def)
  then have "last xs \<noteq> head" if "xs \<noteq> []" using last_in_set [OF that] unfolding sl_shape_def by metis
  then show ?thesis using FindLast_ok [OF sh]
    by (cases xs) (auto simp: SLIter_SeekToLast_def head_to_NULL_def at_pos_def last_conv_nth)
qed


lemma new_SkipList_rep: "sl_rep cmp (new_SkipList any) [] []"
  by (auto simp: sl_rep_def sl_shape_def new_SkipList_def NewNode_def node_height_def Node_Next_def kMaxHeight_def)

subsection \<open>A skip list is an ordered set\<close>

text \<open>The uses of a skip list: insert keys one after the other, then walk through the list.\<close>

fun SkipList_inserts :: "('k \<Rightarrow> 'k \<Rightarrow> int) \<Rightarrow> 'k list \<Rightarrow> 'k SkipList \<Rightarrow> 'k SkipList option" where
  "SkipList_inserts cmp [] s = Some s"
| "SkipList_inserts cmp (k # ks) s = Option.bind (SkipList_Insert cmp k s) (SkipList_inserts cmp ks)"

partial_function (option) SkipList_walk :: "'k SkipList \<Rightarrow> sl_iter \<Rightarrow> 'k list option" where
  "SkipList_walk s it =
     (if SLIter_Valid it then Option.bind (SkipList_walk s (SLIter_Next s it)) (\<lambda>ks. Some (SLIter_key s it # ks))
      else Some [])"

lemma SkipList_walk_pos:
  assumes r: "sl_rep cmp s xs ks" and a: "at_pos xs i it"
  shows "SkipList_walk s it = Some (drop i ks)"
  using a
proof (induction "length xs - i" arbitrary: i it)
  case 0
  then show ?case using r by (subst SkipList_walk.simps) (auto simp: at_pos_def SLIter_Valid_def sl_rep_def)
next
  case (Suc n)
  then have i: "i < length xs" and it: "it = Some (xs ! i)" by (auto simp: at_pos_def)
  have "SkipList_walk s (SLIter_Next s it) = Some (drop (Suc i) ks)"
    using Suc.hyps Next_pos [OF r i] by (intro Suc.hyps(1)) (auto simp: it)
  moreover have "drop i ks = node_key s (xs ! i) # drop (Suc i) ks"
    using r i by (simp add: sl_rep_def Cons_nth_drop_Suc [symmetric])
  ultimately show ?case
    by (subst SkipList_walk.simps) (simp add: it SLIter_Valid_def SLIter_key_def)
qed

context key_order
begin

lemma inserts_rep:
  assumes "sl_rep cmp s xs ks" "\<forall>j\<in>set ks. good j" "\<forall>k\<in>set ns. good k"
    "sorted_wrt (\<lambda>a b. cmp b a \<noteq> 0) ns" "\<forall>k\<in>set ns. \<forall>j\<in>set ks. cmp k j \<noteq> 0"
  shows "\<exists>s' xs' ks'. SkipList_inserts cmp ns s = Some s' \<and> sl_rep cmp s' xs' ks' \<and> mset ks' = mset ks + mset ns"
  using assms
proof (induction ns arbitrary: s xs ks)
  case (Cons n ns)
  obtain s1 xs1 where I: "SkipList_Insert cmp n s = Some s1"
    "sl_rep cmp s1 xs1 (before cmp n ks @ n # from_key cmp n ks)"
    using Insert_rep [OF Cons.prems(1,2), of n] Cons.prems by auto
  let ?ks = "before cmp n ks @ n # from_key cmp n ks"
  have st: "mset ?ks = add_mset n (mset ks)" by (metis before_from mset_append mset.simps(2) union_mset_add_mset_right)
  then have "set ?ks = insert n (set ks)" by (metis set_mset_mset set_mset_add_mset_insert)
  then have "\<exists>s' xs' ks'. SkipList_inserts cmp ns s1 = Some s' \<and> sl_rep cmp s' xs' ks' \<and> mset ks' = mset ?ks + mset ns"
    using Cons.prems by (intro Cons.IH [OF I(2)]) auto
  then show ?case using I(1) st by auto
qed auto

end


text \<open>
  C28. Inserting keys no two of which compare equal always returns, and the list then is the
  ordered set of these keys: walking it from \<open>SeekToFirst\<close> lists them in strictly increasing
  order, \<open>Contains\<close> finds exactly them, and \<open>Seek\<close> stops at the first key not before the
  target. This holds for every sequence of random heights.
\<close>

theorem SkipList_ordered_set:
  assumes "key_order cmp good" "\<forall>k\<in>set ns. good k" "sorted_wrt (\<lambda>a b. cmp b a \<noteq> 0) ns"
  shows "\<exists>s ks. SkipList_inserts cmp ns (new_SkipList any) = Some s \<and>
      SkipList_walk s (SLIter_SeekToFirst s) = Some ks \<and> mset ks = mset ns \<and>
      sorted_wrt (\<lambda>a b. cmp a b < 0) ks \<and>
      (\<forall>k. good k \<longrightarrow> SkipList_Contains cmp k s = Some (\<exists>j\<in>set ns. cmp k j = 0) \<and>
         (\<exists>it. SLIter_Seek cmp s k = Some it \<and> SkipList_walk s it = Some (from_key cmp k ks)))"
proof -
  note inserts = key_order.inserts_rep [OF assms(1) new_SkipList_rep, of ns any]
  obtain s xs ks where r: "SkipList_inserts cmp ns (new_SkipList any) = Some s" "sl_rep cmp s xs ks" "mset ks = mset ns"
    using inserts assms(2,3) by auto
  have st: "set ks = set ns" using r(3) by (metis set_mset_mset)
  then have g: "\<forall>j\<in>set ks. good j" using assms(2) by blast
  have "SkipList_walk s (SLIter_SeekToFirst s) = Some ks"
    using SkipList_walk_pos [OF r(2) SeekToFirst_pos [OF r(2)]] by simp
  moreover have "\<exists>it. SLIter_Seek cmp s k = Some it \<and> SkipList_walk s it = Some (from_key cmp k ks)" if "good k" for k
    using key_order.Seek_pos [OF assms(1) r(2) g that] SkipList_walk_pos [OF r(2)]
    by (metis append_eq_conv_conj before_from)
  moreover have "sorted_wrt (\<lambda>a b. cmp a b < 0) ks" using r(2) unfolding sl_rep_def by blast
  ultimately show ?thesis
    using r(1,3) key_order.Contains_iff [OF assms(1) r(2) g] unfolding st by blast
qed

lemma int_key_order: "key_order (\<lambda>a b::int. a - b) (\<lambda>_. True)"
  by unfold_locales auto

theorem SkipList_ordered_set_witness:
  "\<exists>s ks. SkipList_inserts (\<lambda>a b::int. a - b) [5, 1, 3] (new_SkipList 0) = Some s \<and>
      SkipList_walk s (SLIter_SeekToFirst s) = Some ks \<and> mset ks = {#1, 3, 5#} \<and>
      SkipList_Contains (\<lambda>a b. a - b) 3 s = Some True \<and> SkipList_Contains (\<lambda>a b. a - b) 4 s = Some False"
  using SkipList_ordered_set [OF int_key_order, of "[5, 1, 3]" 0] by auto

end
