(* ===== verification/Arena.thy ===== *)
theory Arena
  imports Prelude
begin

text \<open>
  util/arena.h and util/arena.cc: the bump allocator of the memtable. A pointer is the
  number of a block and an offset in it; \<open>new char[n]\<close> gives a new block, whose start has
  the alignment of \<open>malloc\<close>, so a pointer is aligned exactly if its offset is. The destructor
  only frees the blocks.
\<close>

type_synonym arena_ptr = "nat \<times> nat"

record Arena =
  alloc_ptr :: "arena_ptr option"
  alloc_bytes_remaining :: nat
  arena_blocks :: "nat list"
  memory_usage :: nat

definition kBlockSize :: nat where "kBlockSize = 4096"

definition new_Arena :: Arena where
  "new_Arena = \<lparr>alloc_ptr = None, alloc_bytes_remaining = 0, arena_blocks = [], memory_usage = 0\<rparr>"

definition AllocateNewBlock :: "nat \<Rightarrow> Arena \<Rightarrow> arena_ptr \<times> Arena" where
  "AllocateNewBlock block_bytes a =
     ((length (arena_blocks a), 0),
      a\<lparr>arena_blocks := arena_blocks a @ [block_bytes], memory_usage := memory_usage a + block_bytes + 8\<rparr>)"

definition AllocateFallback :: "nat \<Rightarrow> Arena \<Rightarrow> arena_ptr \<times> Arena" where
  "AllocateFallback bytes a =
     (if bytes > kBlockSize div 4 then AllocateNewBlock bytes a
      else let (p, a) = AllocateNewBlock kBlockSize a
           in (p, a\<lparr>alloc_ptr := Some (fst p, snd p + bytes), alloc_bytes_remaining := kBlockSize - bytes\<rparr>))"

definition bump :: "nat \<Rightarrow> nat \<Rightarrow> Arena \<Rightarrow> arena_ptr \<times> Arena" where
  "bump slop bytes a =
     (let (b, off) = the (alloc_ptr a)
      in ((b, off + slop), a\<lparr>alloc_ptr := Some (b, off + (bytes + slop)),
                            alloc_bytes_remaining := alloc_bytes_remaining a - (bytes + slop)\<rparr>))"

definition Arena_Allocate :: "nat \<Rightarrow> Arena \<Rightarrow> arena_ptr \<times> Arena" where
  "Arena_Allocate bytes a =
     (if bytes \<le> alloc_bytes_remaining a then bump 0 bytes a else AllocateFallback bytes a)"

definition Arena_AllocateAligned :: "nat \<Rightarrow> Arena \<Rightarrow> arena_ptr \<times> Arena" where
  "Arena_AllocateAligned bytes a =
     (let current_mod = (case alloc_ptr a of None \<Rightarrow> 0 | Some (b, off) \<Rightarrow> off mod 8);
          slop = (if current_mod = 0 then 0 else 8 - current_mod)
      in if bytes + slop \<le> alloc_bytes_remaining a then bump slop bytes a else AllocateFallback bytes a)"

text \<open>A sequence of requests: the size and whether it is to be aligned.\<close>

definition Arena_request :: "bool \<times> nat \<Rightarrow> Arena \<Rightarrow> arena_ptr \<times> Arena" where
  "Arena_request r a = (if fst r then Arena_AllocateAligned (snd r) a else Arena_Allocate (snd r) a)"

fun Arena_requests :: "(bool \<times> nat) list \<Rightarrow> Arena \<Rightarrow> (arena_ptr \<times> nat) list \<times> Arena" where
  "Arena_requests [] a = ([], a)"
| "Arena_requests (r # rs) a =
     (let (p, a1) = Arena_request r a; (ps, a2) = Arena_requests rs a1 in ((p, snd r) # ps, a2))"

subsection \<open>The memory handed out is disjoint\<close>

definition arena_inv :: "Arena \<Rightarrow> bool" where
  "arena_inv a \<longleftrightarrow>
     (case alloc_ptr a of
        None \<Rightarrow> alloc_bytes_remaining a = 0
      | Some (b, off) \<Rightarrow> b < length (arena_blocks a) \<and> off + alloc_bytes_remaining a = arena_blocks a ! b) \<and>
     memory_usage a = sum_list (arena_blocks a) + 8 * length (arena_blocks a)"

text \<open>A range lies in the memory the arena still has to give, or in a block it does not have yet.\<close>

definition unused :: "Arena \<Rightarrow> arena_ptr \<times> nat \<Rightarrow> bool" where
  "unused a r \<longleftrightarrow>
     (case r of ((b, off), n) \<Rightarrow>
        (case alloc_ptr a of None \<Rightarrow> False | Some (c, o') \<Rightarrow> b = c \<and> o' \<le> off \<and> off + n \<le> o' + alloc_bytes_remaining a) \<or>
        length (arena_blocks a) \<le> b)"

definition inside :: "Arena \<Rightarrow> arena_ptr \<times> nat \<Rightarrow> bool" where
  "inside a r \<longleftrightarrow> (case r of ((b, off), n) \<Rightarrow> b < length (arena_blocks a) \<and> off + n \<le> arena_blocks a ! b)"

definition disjoint_ranges :: "arena_ptr \<times> nat \<Rightarrow> arena_ptr \<times> nat \<Rightarrow> bool" where
  "disjoint_ranges r q \<longleftrightarrow>
     (case (r, q) of (((b, x), n), ((c, y), m)) \<Rightarrow> b \<noteq> c \<or> x + n \<le> y \<or> y + m \<le> x)"

lemmas arena_defs = Arena_request_def Arena_Allocate_def Arena_AllocateAligned_def bump_def
  AllocateFallback_def AllocateNewBlock_def kBlockSize_def Let_def

lemma request_step:
  assumes "arena_inv a" "0 < snd r"
  defines "q \<equiv> Arena_request r a"
  shows "arena_inv (snd q)" "unused a (fst q, snd r)" "inside (snd q) (fst q, snd r)"
    "unused (snd q) x \<Longrightarrow> unused a x \<and> disjoint_ranges (fst q, snd r) x"
    "inside a x \<Longrightarrow> inside (snd q) x"
  using assms(1,2) unfolding q_def
  by (cases "alloc_ptr a";
      force simp: arena_inv_def arena_defs unused_def inside_def disjoint_ranges_def nth_append
        split: if_splits prod.splits)+

lemma request_aligned:
  assumes "arena_inv a" "0 < snd r" "fst r"
  shows "snd (fst (Arena_request r a)) mod 8 = 0"
proof -
  have "(off + (8 - off mod 8)) mod 8 = 0" for off :: nat by presburger
  then show ?thesis
    using assms by (cases "alloc_ptr a") (auto simp: arena_defs arena_inv_def split: prod.splits)
qed

lemma requests_disjoint:
  assumes "arena_inv a" "\<forall>r\<in>set rs. 0 < snd r" "Arena_requests rs a = (ps, a')"
  shows "arena_inv a' \<and> (\<forall>x\<in>set ps. unused a x \<and> inside a' x) \<and> sorted_wrt disjoint_ranges ps \<and>
    (\<forall>x. inside a x \<longrightarrow> inside a' x) \<and> length ps = length rs \<and>
    (\<forall>i<length rs. fst (rs ! i) \<longrightarrow> snd (fst (ps ! i)) mod 8 = 0)"
  using assms
proof (induction rs arbitrary: a ps)
  case (Cons r rs)
  obtain p a1 where R: "Arena_request r a = (p, a1)" by fastforce
  obtain qs where S: "Arena_requests rs a1 = (qs, a')" and ps: "ps = (p, snd r) # qs"
    using Cons.prems(3) by (auto simp: R split: prod.splits)
  have pos: "0 < snd r" using Cons.prems(2) by simp
  note st = request_step [OF Cons.prems(1) pos, unfolded R fst_conv snd_conv]
  have IH: "arena_inv a'" "\<forall>x\<in>set qs. unused a1 x \<and> inside a' x" "sorted_wrt disjoint_ranges qs"
    "\<forall>x. inside a1 x \<longrightarrow> inside a' x" "length qs = length rs"
    "\<forall>i<length rs. fst (rs ! i) \<longrightarrow> snd (fst (qs ! i)) mod 8 = 0"
    using Cons.IH [OF st(1) _ S] Cons.prems(2) by auto
  have al: "fst r \<longrightarrow> snd p mod 8 = 0"
    using request_aligned [OF Cons.prems(1) pos] by (simp add: R)
  have "\<forall>x\<in>set ps. unused a x \<and> inside a' x" unfolding ps using IH(2,4) st(2,3,4) by (metis set_ConsD)
  moreover have "sorted_wrt disjoint_ranges ps" using IH(2,3) st(4) by (simp add: ps)
  moreover have "\<forall>i<length (r # rs). fst ((r # rs) ! i) \<longrightarrow> snd (fst (ps ! i)) mod 8 = 0"
    using IH(6) al by (auto simp: ps nth_Cons split: nat.splits)
  ultimately show ?case using IH st(5) by (simp add: ps)
qed simp

lemma new_Arena_inv: "arena_inv new_Arena"
  by (simp add: new_Arena_def arena_inv_def)



end
