(* ===== verification/MemTable.thy ===== *)
theory MemTable
  imports DbFormat SkipList Arena
begin

text \<open>
  db/memtable.h and db/memtable.cc: entries are encoded as one byte string (length-prefixed
  internal key, length-prefixed value) and kept in a skip list ordered by the internal key.
  The reader of an entry starts from a pointer; here that is the byte string from the pointer
  on. The arena of the memtable only matters for \<open>ApproximateMemoryUsage\<close>.

  The theorem of the theory: \<open>Get\<close> returns the newest entry of the user key that is not
  younger than the sequence number it is asked for.
\<close>

subsection \<open>Entries\<close>

text \<open>The varint is read from the first five bytes; a corrupt one is undefined behaviour (\<open>the\<close>).\<close>

definition mem_varint :: "slice \<Rightarrow> u32 \<times> slice" where
  "mem_varint p =
     (let (len, rest) = the (GetVarint32Ptr (take 5 p)) in (len, drop (length (take 5 p) - length rest) p))"

definition mem_GetLengthPrefixedSlice :: "slice \<Rightarrow> slice" where
  "mem_GetLengthPrefixedSlice p = (let (len, q) = mem_varint p in take (unat len) q)"

definition MemTable_KeyCompare :: "(slice \<Rightarrow> slice \<Rightarrow> int) \<Rightarrow> slice \<Rightarrow> slice \<Rightarrow> int" where
  "MemTable_KeyCompare ucmp aptr bptr =
     InternalKey_Compare ucmp (mem_GetLengthPrefixedSlice aptr) (mem_GetLengthPrefixedSlice bptr)"

definition EncodeKey :: "slice \<Rightarrow> slice" where
  "EncodeKey target = EncodeVarint32 (of_nat (length target)) @ target"

subsection \<open>The table\<close>

record MemTable =
  mt_refs :: int
  mt_arena :: Arena
  mt_table :: "slice SkipList"

text \<open>A node takes a key pointer and as many link pointers as it is high.\<close>

definition node_bytes :: "nat \<Rightarrow> nat" where
  "node_bytes height = 16 + 8 * (height - 1)"

definition new_MemTable :: MemTable where
  "new_MemTable =
     \<lparr>mt_refs = 0, mt_arena = snd (Arena_AllocateAligned (node_bytes kMaxHeight) new_Arena),
      mt_table = new_SkipList []\<rparr>"

definition MemTable_Ref :: "MemTable \<Rightarrow> MemTable" where
  "MemTable_Ref m = m\<lparr>mt_refs := mt_refs m + 1\<rparr>"

text \<open>\<open>None\<close>: the table deleted itself.\<close>

definition MemTable_Unref :: "MemTable \<Rightarrow> MemTable option" where
  "MemTable_Unref m =
     (let m = m\<lparr>mt_refs := mt_refs m - 1\<rparr> in if mt_refs m \<le> 0 then None else Some m)"

definition ApproximateMemoryUsage :: "MemTable \<Rightarrow> nat" where
  "ApproximateMemoryUsage m = memory_usage (mt_arena m)"

definition mem_entry :: "u64 \<Rightarrow> ValueType \<Rightarrow> slice \<Rightarrow> slice \<Rightarrow> slice" where
  "mem_entry s t key val =
     EncodeVarint32 (of_nat (length key + 8)) @ key @ EncodeFixed64 (push_bit 8 s OR of_nat (type_code t)) @
     EncodeVarint32 (of_nat (length val)) @ val"

definition MemTable_Add ::
  "(slice \<Rightarrow> slice \<Rightarrow> int) \<Rightarrow> u64 \<Rightarrow> ValueType \<Rightarrow> slice \<Rightarrow> slice \<Rightarrow> MemTable \<Rightarrow> MemTable option" where
  "MemTable_Add ucmp s t key val m =
     (let internal_key_size = length key + 8;
          encoded_len = VarintLength (of_nat internal_key_size) + internal_key_size +
                        VarintLength (of_nat (length val)) + length val;
          a1 = snd (Arena_Allocate encoded_len (mt_arena m));
          x = sl_fresh (mt_table m)
      in map_option (\<lambda>t. m\<lparr>mt_arena := snd (Arena_AllocateAligned (node_bytes (length (n_next (the (sl_nodes t x))))) a1),
                          mt_table := t\<rparr>)
           (SkipList_Insert (MemTable_KeyCompare ucmp) (mem_entry s t key val) (mt_table m)))"

text \<open>
  The result of \<open>Get\<close>: \<open>None\<close> for \<open>return false\<close>, else the status set or the value stored.
  The outer option is that of the search loop.
\<close>

definition MemTable_Get ::
  "(slice \<Rightarrow> slice \<Rightarrow> int) \<Rightarrow> slice \<Rightarrow> u64 \<Rightarrow> MemTable \<Rightarrow> (status + slice) option option" where
  "MemTable_Get ucmp ukey snap m =
     map_option (\<lambda>iter.
       if SLIter_Valid iter then
         let entry = SLIter_key (mt_table m) iter;
             (key_length, key_ptr) = mem_varint entry;
             n = unat key_length
         in if ucmp (take (n - 8) key_ptr) (LookupKey_user_key ukey snap) = 0 then
              let tag = DecodeFixed64 (drop (n - 8) key_ptr);
                  c = tag AND 0xff
              in if c = of_nat (type_code kTypeValue) then Some (Inr (mem_GetLengthPrefixedSlice (drop n key_ptr)))
                 else if c = of_nat (type_code kTypeDeletion) then Some (Inl (NotFound []))
                 else None
            else None
       else None)
     (SLIter_Seek (MemTable_KeyCompare ucmp) (mt_table m) (LookupKey_memtable_key ukey snap))"

subsection \<open>MemTableIterator\<close>

definition MemIter_Seek :: "(slice \<Rightarrow> slice \<Rightarrow> int) \<Rightarrow> MemTable \<Rightarrow> slice \<Rightarrow> sl_iter option" where
  "MemIter_Seek ucmp m k = SLIter_Seek (MemTable_KeyCompare ucmp) (mt_table m) (EncodeKey k)"

definition MemIter_SeekToFirst :: "MemTable \<Rightarrow> sl_iter" where
  "MemIter_SeekToFirst m = SLIter_SeekToFirst (mt_table m)"

definition MemIter_SeekToLast :: "MemTable \<Rightarrow> sl_iter option" where
  "MemIter_SeekToLast m = SLIter_SeekToLast (mt_table m)"

definition MemIter_Next :: "MemTable \<Rightarrow> sl_iter \<Rightarrow> sl_iter" where
  "MemIter_Next m it = SLIter_Next (mt_table m) it"

definition MemIter_Prev :: "(slice \<Rightarrow> slice \<Rightarrow> int) \<Rightarrow> MemTable \<Rightarrow> sl_iter \<Rightarrow> sl_iter option" where
  "MemIter_Prev ucmp m it = SLIter_Prev (MemTable_KeyCompare ucmp) (mt_table m) it"

definition MemIter_key :: "MemTable \<Rightarrow> sl_iter \<Rightarrow> slice" where
  "MemIter_key m it = mem_GetLengthPrefixedSlice (SLIter_key (mt_table m) it)"

definition MemIter_value :: "MemTable \<Rightarrow> sl_iter \<Rightarrow> slice" where
  "MemIter_value m it =
     (let (len, q) = mem_varint (SLIter_key (mt_table m) it)
      in mem_GetLengthPrefixedSlice (drop (unat len) q))"

subsection \<open>Entries: correctness\<close>

lemma mem_varint_Encode [simp]: "mem_varint (EncodeVarint32 v @ r) = (v, r)"
proof -
  have le: "length (EncodeVarint32 v) \<le> 5" by (simp add: len_simps)
  then have "take 5 (EncodeVarint32 v @ r) = EncodeVarint32 v @ take (5 - length (EncodeVarint32 v)) r"
    by simp
  then show ?thesis
    using GetVarint32_Encode [of v "take (5 - length (EncodeVarint32 v)) r"]
    by (simp add: mem_varint_def GetVarint32_def)
qed

lemma mem_GetLengthPrefixedSlice_Encode [simp]:
  "length x < 2 ^ 32 \<Longrightarrow> n = length x \<Longrightarrow> mem_GetLengthPrefixedSlice (EncodeVarint32 (of_nat n) @ x @ y) = x"
  by (simp add: mem_GetLengthPrefixedSlice_def unat_of_nat_small)

type_synonym update = "u64 \<times> ValueType \<times> slice \<times> slice"

fun update_ok :: "update \<Rightarrow> bool" where
  "update_ok (s, t, k, v) \<longleftrightarrow> s \<le> kMaxSequenceNumber \<and> length k + 8 < 2 ^ 32 \<and> length v < 2 ^ 32"

fun update_entry :: "update \<Rightarrow> slice" where
  "update_entry (s, t, k, v) = mem_entry s t k v"

lemma mem_entry_eq:
  "mem_entry s t k v = EncodeVarint32 (of_nat (length (MakeInternalKey k s t))) @ MakeInternalKey k s t @
     EncodeVarint32 (of_nat (length v)) @ v"
  by (simp add: mem_entry_def MakeInternalKey_eq PackSequenceAndType_def)

lemma memtable_key_eq:
  "LookupKey_memtable_key k s =
     EncodeVarint32 (of_nat (length (MakeInternalKey k s kTypeValue))) @ MakeInternalKey k s kTypeValue"
  by (simp add: LookupKey_memtable_key_def MakeInternalKey_eq kValueTypeForSeek_def)

lemma length_MakeInternalKey [simp]: "length (MakeInternalKey k s t) = length k + 8"
  by (simp add: MakeInternalKey_eq)

lemma entry_ikey:
  "length k + 8 < 2 ^ 32 \<Longrightarrow> mem_GetLengthPrefixedSlice (mem_entry s t k v) = MakeInternalKey k s t"
  "length k + 8 < 2 ^ 32 \<Longrightarrow> mem_GetLengthPrefixedSlice (LookupKey_memtable_key k s) = MakeInternalKey k s kTypeValue"
  unfolding mem_entry_eq memtable_key_eq
  using mem_GetLengthPrefixedSlice_Encode [of "MakeInternalKey k s t" _ "EncodeVarint32 (of_nat (length v)) @ v"]
    mem_GetLengthPrefixedSlice_Encode [of "MakeInternalKey k s kTypeValue" _ "[]"]
  by (simp_all only: length_MakeInternalKey append_Nil2)

definition entry_good :: "slice \<Rightarrow> bool" where
  "entry_good e \<longleftrightarrow> ikey_wf (mem_GetLengthPrefixedSlice e)"

sublocale user_comparator \<subseteq> mem: key_order "MemTable_KeyCompare ucmp" entry_good
proof unfold_locales
  fix a b c assume ab: "entry_good a" "entry_good b"
  note wf = ab [unfolded entry_good_def]
  show "MemTable_KeyCompare ucmp a b < 0 \<longleftrightarrow> MemTable_KeyCompare ucmp b a > 0"
    using internal.cmp_swap [OF wf] by (simp add: MemTable_KeyCompare_def)
  assume "entry_good c" and less: "MemTable_KeyCompare ucmp a b < 0"
  then have wc: "ikey_wf (mem_GetLengthPrefixedSlice c)" by (simp add: entry_good_def)
  show "MemTable_KeyCompare ucmp a c < 0" if "MemTable_KeyCompare ucmp b c < 0"
    using internal.cmp_trans [OF wf wc] less that by (simp add: MemTable_KeyCompare_def)
  show "MemTable_KeyCompare ucmp a c < 0" if "MemTable_KeyCompare ucmp b c = 0"
    using internal.cmp_zero [OF wf(2) wc] less that by (simp add: MemTable_KeyCompare_def)
qed

lemma update_entry_good: "update_ok u \<Longrightarrow> entry_good (update_entry u)"
  by (cases u) (simp add: entry_good_def entry_ikey)

subsection \<open>The specification of Get\<close>

text \<open>The newest update of a user key that a snapshot sees; of two with one number the first.\<close>

fun newest :: "update list \<Rightarrow> slice \<Rightarrow> u64 \<Rightarrow> update option" where
  "newest [] ukey snap = None"
| "newest ((s, t, k, v) # us) ukey snap =
     (if k = ukey \<and> s \<le> snap then
        (case newest us ukey snap of
           Some u \<Rightarrow> if s < fst u then Some u else Some (s, t, k, v)
         | None \<Rightarrow> Some (s, t, k, v))
      else newest us ukey snap)"

primrec update_result :: "update option \<Rightarrow> (status + slice) option" where
  "update_result None = None"
| "update_result (Some u) =
     (case u of (s, t, k, v) \<Rightarrow>
        Some (case t of kTypeValue \<Rightarrow> Inr v | kTypeDeletion \<Rightarrow> Inl (NotFound [])))"

text \<open>No two updates of one key carry the same sequence number.\<close>

definition seqs_distinct :: "update list \<Rightarrow> bool" where
  "seqs_distinct us \<longleftrightarrow> distinct (map (\<lambda>(s, t, k, v). (s, k)) us)"

lemma newest_None: "newest us ukey snap = None \<longleftrightarrow> (\<forall>(s, t, k, v)\<in>set us. \<not> (k = ukey \<and> s \<le> snap))"
  by (induction us ukey snap rule: newest.induct) (auto split: option.splits)

lemma newest_Some:
  "newest us ukey snap = Some (s, t, k, v) \<Longrightarrow>
     (s, t, k, v) \<in> set us \<and> k = ukey \<and> s \<le> snap \<and>
     (\<forall>(s', t', k', v')\<in>set us. k' = ukey \<and> s' \<le> snap \<longrightarrow> s' \<le> s)"
proof (induction us ukey snap arbitrary: s t k v rule: newest.induct)
  case (2 s' t' k' v' us ukey snap)
  show ?case
  proof (cases "newest us ukey snap")
    case None
    then have "\<forall>(s, t, k, v)\<in>set us. \<not> (k = ukey \<and> s \<le> snap)" by (simp add: newest_None)
    moreover have "k' = ukey \<and> s' \<le> snap \<and> (s, t, k, v) = (s', t', k', v')"
      using 2(3) None by (simp split: if_splits)
    ultimately show ?thesis by auto
  next
    case (Some u)
    obtain a b c d where u: "u = (a, b, c, d)" by (cases u) auto
    have ih: "(a, b, c, d) \<in> set us" "c = ukey" "a \<le> snap"
      "\<forall>(s', t', k', v')\<in>set us. k' = ukey \<and> s' \<le> snap \<longrightarrow> s' \<le> a"
      using 2(1,2) [of a b c d] Some u by (cases "k' = ukey \<and> s' \<le> snap"; simp)+
    show ?thesis
    proof (cases "k' = ukey \<and> s' \<le> snap \<and> \<not> s' < a")
      case True
      then have "(s, t, k, v) = (s', t', k', v')" using 2(3) Some u by simp
      then show ?thesis using True ih(4) by fastforce
    next
      case False
      then have "(s, t, k, v) = (a, b, c, d)" using 2(3) Some u by (simp split: if_splits)
      then show ?thesis using False ih by auto
    qed
  qed
qed simp

lemma newest_eqI:
  assumes "seqs_distinct us" "(s, t, k, v) \<in> set us" "k = ukey" "s \<le> snap"
    "\<And>s' t' k' v'. (s', t', k', v') \<in> set us \<Longrightarrow> k' = ukey \<Longrightarrow> s' \<le> snap \<Longrightarrow> s' \<le> s"
  shows "newest us ukey snap = Some (s, t, k, v)"
proof (cases "newest us ukey snap")
  case None
  then show ?thesis using newest_None [of us ukey snap] assms by fastforce
next
  case (Some u)
  obtain s' t' k' v' where u: "u = (s', t', k', v')" by (cases u) auto
  have n: "(s', t', k', v') \<in> set us" "k' = ukey" "s' \<le> snap" "s \<le> s'"
    using newest_Some [OF Some [unfolded u]] assms(2-4) by auto
  then have "s = s'" using assms(5) [of s' t' k' v'] by simp
  then have "(s, t, k, v) = (s', t', k', v')"
    using assms(1-3) n(1,2) unfolding seqs_distinct_def by (auto simp: distinct_map inj_on_def)
  then show ?thesis using Some u by simp
qed


subsection \<open>Get returns the newest visible update\<close>

fun MemTable_Adds :: "(slice \<Rightarrow> slice \<Rightarrow> int) \<Rightarrow> update list \<Rightarrow> MemTable \<Rightarrow> MemTable option" where
  "MemTable_Adds ucmp [] m = Some m"
| "MemTable_Adds ucmp ((s, t, k, v) # us) m = Option.bind (MemTable_Add ucmp s t k v m) (MemTable_Adds ucmp us)"

lemma MemTable_Adds_table:
  "map_option mt_table (MemTable_Adds ucmp us m) =
     SkipList_inserts (MemTable_KeyCompare ucmp) (map update_entry us) (mt_table m)"
proof (induction us arbitrary: m)
  case (Cons u us)
  obtain s t k v where u: "u = (s, t, k, v)" by (cases u) auto
  show ?case
    by (cases "SkipList_Insert (MemTable_KeyCompare ucmp) (mem_entry s t k v) (mt_table m)")
      (simp_all add: u MemTable_Add_def Let_def Cons)
qed simp

text \<open>What \<open>Get\<close> reads from an entry it has found.\<close>

lemma entry_read:
  assumes "update_ok (s, t, k, v)"
  shows "mem_varint (mem_entry s t k v) =
      (of_nat (length k + 8), MakeInternalKey k s t @ EncodeVarint32 (of_nat (length v)) @ v)"
    and "unat (of_nat (length k + 8) :: u32) = length k + 8"
  unfolding mem_entry_eq mem_varint_Encode length_MakeInternalKey
  by (rule refl, rule unat_of_nat_small) (use assms in simp)

lemma tag_type: "PackSequenceAndType s t AND 0xff = of_nat (type_code t)"
  by (rule bit_word_eqI)
    (auto simp: PackSequenceAndType_def type_code_word bit_simps split: ValueType.splits)

lemma Pack_inject:
  assumes "s \<le> kMaxSequenceNumber" "s' \<le> kMaxSequenceNumber"
  shows "PackSequenceAndType s t = PackSequenceAndType s' t' \<longleftrightarrow> s = s' \<and> t = t'"
  unfolding word_unat_eq_iff unat_Pack [OF assms(1)] unat_Pack [OF assms(2)]
  by (cases t; cases t'; simp; presburger)

lemma LookupKey_user_key_eq [simp]: "LookupKey_user_key k s = k"
  by (simp add: LookupKey_user_key_def LookupKey_internal_key_def Let_def)

context user_comparator
begin

lemma KeyCompare_less:
  assumes "update_ok (s, t, k, v)" "length k' + 8 < 2 ^ 32" "snap \<le> kMaxSequenceNumber"
  shows "MemTable_KeyCompare ucmp (mem_entry s t k v) (LookupKey_memtable_key k' snap) < 0 \<longleftrightarrow>
     ucmp k k' < 0 \<or> k = k' \<and> snap < s"
  using assms Pack_less_iff [of snap s kTypeValue t]
  by (cases t) (auto simp: MemTable_KeyCompare_def entry_ikey icmp_iff)

lemma KeyCompare_entries:
  assumes "update_ok (s, t, k, v)" "update_ok (s', t', k', v')"
  shows "MemTable_KeyCompare ucmp (mem_entry s t k v) (mem_entry s' t' k' v') < 0 \<Longrightarrow>
      ucmp k k' \<le> 0 \<and> (k = k' \<longrightarrow> s' \<le> s)"
    "MemTable_KeyCompare ucmp (mem_entry s t k v) (mem_entry s' t' k' v') = 0 \<longleftrightarrow> k = k' \<and> s = s' \<and> t = t'"
proof -
  show "ucmp k k' \<le> 0 \<and> (k = k' \<longrightarrow> s' \<le> s)"
    if "MemTable_KeyCompare ucmp (mem_entry s t k v) (mem_entry s' t' k' v') < 0"
    using that assms Pack_less_iff [of s' s t' t] cmp_refl
    by (auto simp: MemTable_KeyCompare_def entry_ikey icmp_iff)
  have "PackSequenceAndType s t = PackSequenceAndType s' t' \<longleftrightarrow> s = s' \<and> t = t'"
    using Pack_inject assms by simp
  then show "MemTable_KeyCompare ucmp (mem_entry s t k v) (mem_entry s' t' k' v') = 0 \<longleftrightarrow> k = k' \<and> s = s' \<and> t = t'"
    using assms by (auto simp: MemTable_KeyCompare_def entry_ikey icmp_iff)
qed


text \<open>The entry \<open>Seek\<close> stops at is the newest visible update, if there is one.\<close>

lemma first_from:
  assumes so: "sorted_wrt (\<lambda>a b. MemTable_KeyCompare ucmp a b < 0) ks" and ks: "set ks = update_entry ` set us"
    and ok: "\<forall>u\<in>set us. update_ok u" "length k + 8 < 2 ^ 32" "snap \<le> kMaxSequenceNumber" and d: "seqs_distinct us"
    and c: "(s', t', k, v') \<in> set us" "s' \<le> snap"
  shows "\<exists>s t v. newest us k snap = Some (s, t, k, v) \<and>
    (\<exists>r. from_key (MemTable_KeyCompare ucmp) (LookupKey_memtable_key k snap) ks = mem_entry s t k v # r)"
proof -
  let ?L = "LookupKey_memtable_key k snap" let ?cmp = "MemTable_KeyCompare ucmp"
  have gL: "entry_good ?L" using ok(2) by (simp add: entry_good_def entry_ikey)
  have gk: "\<forall>j\<in>set ks. entry_good j" using ok(1) ks update_entry_good by auto
  have inF: "mem_entry s t k v \<in> set (from_key ?cmp ?L ks)" if "(s, t, k, v) \<in> set us" "s \<le> snap" for s t v
  proof -
    have "mem_entry s t k v \<in> set ks" using that ks by force
    moreover have "\<not> ?cmp (mem_entry s t k v) ?L < 0"
      using KeyCompare_less [of s t k v k snap] ok that cmp_refl [of k] by fastforce
    ultimately show ?thesis
      by (metis UnE before_def before_from set_append set_takeWhileD)
  qed
  obtain q r where q: "from_key ?cmp ?L ks = q # r" using inF [OF c] by (cases "from_key ?cmp ?L ks") auto
  have "q \<in> set ks" using q by (metis before_from in_set_conv_decomp)
  then obtain s t kq v where u: "(s, t, kq, v) \<in> set us" "q = mem_entry s t kq v" using ks by (auto split: prod.splits)
  have uok: "update_ok (s, t, kq, v)" using ok(1) u(1) by blast
  have nl: "\<not> ?cmp q ?L < 0" using mem.not_before [OF so gk gL, of q] q by simp
  have so': "sorted_wrt (\<lambda>a b. ?cmp a b < 0) (q # r)" using so q by (metis before_from sorted_wrt_append)
  have le: "ucmp kq k \<le> 0 \<and> (kq = k \<longrightarrow> b \<le> s)" if "(b, t', k, v') \<in> set us" "b \<le> snap" for b t' v'
  proof (cases "mem_entry b t' k v' = q")
    case True
    moreover have "update_ok (b, t', k, v')" using ok(1) that by blast
    ultimately have "?cmp q (mem_entry b t' k v') = 0"
      using KeyCompare_entries(2) [of b t' k v' b t' k v'] by blast
    then have "kq = k \<and> s = b" using KeyCompare_entries(2) [OF uok, of b t' k v'] ok(1) that u(2) by blast
    then show ?thesis using cmp_refl by simp
  next
    case False
    then have "?cmp q (mem_entry b t' k v') < 0" using inF [OF that] so' q by auto
    then show ?thesis using KeyCompare_entries(1) [OF uok, of b t' k v'] ok(1) that u(2) by blast
  qed
  have "\<not> ucmp kq k < 0" "kq = k \<longrightarrow> s \<le> snap"
    using nl KeyCompare_less [OF uok ok(2,3)] u(2) by auto
  with le [OF c] have kq: "kq = k" "s \<le> snap" using cmp_zero [of kq k] by auto
  have "newest us k snap = Some (s, t, k, v)"
    using u(1) kq le by (intro newest_eqI [OF d]) auto
  then show ?thesis using q u(2) kq by blast
qed

lemma first_from_other:
  assumes "set ks = update_entry ` set us" "\<forall>u\<in>set us. update_ok u" "length k + 8 < 2 ^ 32" "snap \<le> kMaxSequenceNumber"
    "sorted_wrt (\<lambda>a b. MemTable_KeyCompare ucmp a b < 0) ks"
    "newest us k snap = None" "from_key (MemTable_KeyCompare ucmp) (LookupKey_memtable_key k snap) ks = q # r"
  shows "\<exists>s t k' v. q = mem_entry s t k' v \<and> update_ok (s, t, k', v) \<and> k' \<noteq> k"
proof -
  have gL: "entry_good (LookupKey_memtable_key k snap)" using assms(3) by (simp add: entry_good_def entry_ikey)
  have gk: "\<forall>j\<in>set ks. entry_good j" using assms(1,2) update_entry_good by auto
  have "q \<in> set ks" using assms(7) by (metis before_from in_set_conv_decomp)
  then obtain s t k' v where u: "(s, t, k', v) \<in> set us" "q = mem_entry s t k' v"
    using assms(1) by (auto split: prod.splits)
  have "\<not> MemTable_KeyCompare ucmp q (LookupKey_memtable_key k snap) < 0"
    using mem.not_before [OF assms(5) gk gL, of q] assms(7) by simp
  then have "k' = k \<Longrightarrow> s \<le> snap" using KeyCompare_less [of s t k' v k snap] u assms(2-4) by fastforce
  then have "k' \<noteq> k" using assms(6) u(1) newest_None [of us k snap] by fastforce
  then show ?thesis using u assms(2) by blast
qed

lemma Get_newest:
  assumes r: "sl_rep (MemTable_KeyCompare ucmp) (mt_table m) xs ks" and ks: "set ks = update_entry ` set us"
    and ok: "\<forall>u\<in>set us. update_ok u" "length k + 8 < 2 ^ 32" "snap \<le> kMaxSequenceNumber" and d: "seqs_distinct us"
  shows "MemTable_Get ucmp k snap m = Some (update_result (newest us k snap))"
proof -
  let ?L = "LookupKey_memtable_key k snap" let ?cmp = "MemTable_KeyCompare ucmp"
  have gL: "entry_good ?L" using ok(2) by (simp add: entry_good_def entry_ikey)
  have gk: "\<forall>j\<in>set ks. entry_good j" using ok(1) ks update_entry_good by auto
  have so: "sorted_wrt (\<lambda>a b. ?cmp a b < 0) ks" using r unfolding sl_rep_def by blast
  obtain it where it: "SLIter_Seek ?cmp (mt_table m) ?L = Some it" "at_pos xs (length (before ?cmp ?L ks)) it"
    using mem.Seek_pos [OF r gk gL] by blast
  have len: "length xs = length ks" and key: "\<And>i. i < length xs \<Longrightarrow> node_key (mt_table m) (xs ! i) = ks ! i"
    using r by (auto simp: sl_rep_def)
  show ?thesis
  proof (cases "from_key ?cmp ?L ks")
    case Nil
    then have "before ?cmp ?L ks = ks" using before_from [of ?cmp ?L ks] by (simp del: before_from)
    then have "it = None" using it(2) len by (simp add: at_pos_def)
    moreover have "newest us k snap = None"
    proof (cases "newest us k snap")
      case (Some u)
      obtain s' t' k' v' where "u = (s', t', k', v')" by (cases u) auto
      then have "(s', t', k, v') \<in> set us" "s' \<le> snap" using newest_Some [of us k snap s' t' k' v'] Some by auto
      from first_from [OF so ks ok d this] Nil show ?thesis by auto
    qed
    ultimately show ?thesis by (simp add: MemTable_Get_def it(1) SLIter_Valid_def)
  next
    case (Cons q rest)
    have lt: "length (before ?cmp ?L ks) < length ks"
      using Cons by (metis before_from length_append length_greater_0_conv less_add_same_cancel1 list.distinct(1))
    have "ks ! length (before ?cmp ?L ks) = q"
      using Cons by (metis before_from nth_append_length)
    then have itq: "SLIter_Valid it" "SLIter_key (mt_table m) it = q"
      using it(2) lt len key by (auto simp: at_pos_def SLIter_Valid_def SLIter_key_def)
    show ?thesis
    proof (cases "newest us k snap")
      case None
      from first_from_other [OF ks ok so None Cons]
      obtain s t k' v where q: "q = mem_entry s t k' v" "update_ok (s, t, k', v)" "k' \<noteq> k" by blast
      then show ?thesis
        using cmp_zero [of k' k] None entry_read [OF q(2)]
        by (simp add: MemTable_Get_def it(1) itq Let_def MakeInternalKey_eq del: of_nat_add)
    next
      case (Some u)
      obtain s' t' k' v' where "u = (s', t', k', v')" by (cases u) auto
      then obtain s t v where q: "newest us k snap = Some (s, t, k, v)" "q = mem_entry s t k v"
        using first_from [OF so ks ok d, of s' t' v'] newest_Some [of us k snap s' t' k' v'] Some Cons by auto
      have uok: "update_ok (s, t, k, v)" using ok(1) newest_Some [OF q(1)] by blast
      show ?thesis
        using q entry_read [OF uok] uok cmp_refl [of k] mem_GetLengthPrefixedSlice_Encode [of v "length v" "[]"]
        by (cases t) (simp_all add: MemTable_Get_def it(1) itq Let_def MakeInternalKey_eq tag_type type_code_word
            del: of_nat_add)
    qed
  qed
qed

lemma entries_differ:
  assumes "\<forall>u\<in>set us. update_ok u" "seqs_distinct us"
  shows "sorted_wrt (\<lambda>a b. MemTable_KeyCompare ucmp b a \<noteq> 0) (map update_entry us)"
  using assms
proof (induction us)
  case (Cons u us)
  obtain s t k v where u: "u = (s, t, k, v)" by (cases u) auto
  have "MemTable_KeyCompare ucmp (update_entry w) (update_entry u) \<noteq> 0" if w: "w \<in> set us" for w
  proof -
    obtain s' t' k' v' where w': "w = (s', t', k', v')" by (cases w) auto
    have "(s', k') \<noteq> (s, k)" using Cons.prems(2) w w' u by (force simp: seqs_distinct_def)
    then show ?thesis using KeyCompare_entries(2) [of s' t' k' v' s t k v] Cons.prems(1) w w' u by auto
  qed
  then show ?case using Cons by (simp add: seqs_distinct_def)
qed simp

lemma Adds_rep:
  assumes "\<forall>u\<in>set us. update_ok u" "seqs_distinct us"
  shows "\<exists>m xs ks. MemTable_Adds ucmp us new_MemTable = Some m \<and>
    sl_rep (MemTable_KeyCompare ucmp) (mt_table m) xs ks \<and> mset ks = mset (map update_entry us)"
proof -
  have "\<forall>e\<in>set (map update_entry us). entry_good e" using assms(1) update_entry_good by auto
  from mem.inserts_rep [OF new_SkipList_rep [of _ "[]"] _ this entries_differ [OF assms]]
  obtain s xs ks where "SkipList_inserts (MemTable_KeyCompare ucmp) (map update_entry us) (new_SkipList []) = Some s"
    "sl_rep (MemTable_KeyCompare ucmp) s xs ks" "mset ks = mset (map update_entry us)"
    by auto
  moreover have "mt_table new_MemTable = new_SkipList []" by (simp add: new_MemTable_def)
  ultimately show ?thesis using MemTable_Adds_table [of ucmp us new_MemTable] by auto
qed

lemma Adds_Get:
  assumes "\<forall>u\<in>set us. update_ok u" "seqs_distinct us" "length k + 8 < 2 ^ 32" "snap \<le> kMaxSequenceNumber"
  shows "\<exists>m. MemTable_Adds ucmp us new_MemTable = Some m \<and>
    MemTable_Get ucmp k snap m = Some (update_result (newest us k snap))"
proof -
  obtain m xs ks where m: "MemTable_Adds ucmp us new_MemTable = Some m"
    "sl_rep (MemTable_KeyCompare ucmp) (mt_table m) xs ks" "mset ks = mset (map update_entry us)"
    using Adds_rep [OF assms(1,2)] by blast
  have "set ks = update_entry ` set us" using m(3) by (metis list.set_map set_mset_mset)
  from Get_newest [OF m(2) this assms(1,3,4,2)] m(1) show ?thesis by blast
qed

end

text \<open>
  C27. For every user comparator that is a total order, adding updates to a memtable always
  returns, and \<open>Get\<close> for a user key and a snapshot then returns what the newest update of
  that key with a sequence number up to the snapshot says: its value, a deletion
  (\<open>NotFound\<close>), or that the memtable has nothing.
\<close>

theorem MemTable_Get_newest:
  assumes "user_comparator ucmp" "\<forall>u\<in>set us. update_ok u" "seqs_distinct us"
    "length k + 8 < 2 ^ 32" "snap \<le> kMaxSequenceNumber"
  shows "\<exists>m. MemTable_Adds ucmp us new_MemTable = Some m \<and>
    MemTable_Get ucmp k snap m = Some (update_result (newest us k snap))"
  by (rule user_comparator.Adds_Get [OF assms])

theorem MemTable_Get_newest_witness:
  "\<exists>m. MemTable_Adds Bytewise_Compare
      [(1, kTypeValue, [97], [1]), (2, kTypeValue, [98], [2]), (3, kTypeDeletion, [97], []), (4, kTypeValue, [97], [4])]
      new_MemTable = Some m \<and> MemTable_Get Bytewise_Compare [97] 3 m = Some (Some (Inl (NotFound [])))"
  using MemTable_Get_newest [OF bytewise_user.user_comparator_axioms,
      of "[(1, kTypeValue, [97], [1]), (2, kTypeValue, [98], [2]), (3, kTypeDeletion, [97], []), (4, kTypeValue, [97], [4])]" "[97]" 3]
  by (simp add: seqs_distinct_def kMaxSequenceNumber_def)

end
