(* ===== verification/WriteBatch.thy ===== *)
theory WriteBatch
  imports MemTable
begin

text \<open>
  include/leveldb/write_batch.h, db/write_batch.cc and db/write_batch_internal.h. A batch is
  its byte string \<open>rep_\<close>: sequence number, count and the records. \<open>Iterate\<close> calls a handler
  for each record; here it returns the calls it made, with the status it ends with, and
  \<open>InsertInto\<close> runs those calls on a memtable.
\<close>

datatype batch_op = Put slice slice | Delete slice

definition kHeader :: nat where "kHeader = 12"

definition Batch_Clear :: slice where
  "Batch_Clear = replicate kHeader 0"

definition Batch_ApproximateSize :: "slice \<Rightarrow> nat" where
  "Batch_ApproximateSize rep = length rep"

definition Batch_Count :: "slice \<Rightarrow> u32" where
  "Batch_Count rep = DecodeFixed32 (drop 8 rep)"

definition Batch_SetCount :: "u32 \<Rightarrow> slice \<Rightarrow> slice" where
  "Batch_SetCount n rep = take 8 rep @ EncodeFixed32 n @ drop 12 rep"

definition Batch_Sequence :: "slice \<Rightarrow> u64" where
  "Batch_Sequence rep = DecodeFixed64 rep"

definition Batch_SetSequence :: "u64 \<Rightarrow> slice \<Rightarrow> slice" where
  "Batch_SetSequence seq rep = EncodeFixed64 seq @ drop 8 rep"

definition Batch_Put :: "slice \<Rightarrow> slice \<Rightarrow> slice \<Rightarrow> slice" where
  "Batch_Put key val rep =
     (let rep = Batch_SetCount (Batch_Count rep + 1) rep;
          rep = rep @ [of_nat (type_code kTypeValue)];
          rep = PutLengthPrefixedSlice rep key
      in PutLengthPrefixedSlice rep val)"

definition Batch_Delete :: "slice \<Rightarrow> slice \<Rightarrow> slice" where
  "Batch_Delete key rep =
     (let rep = Batch_SetCount (Batch_Count rep + 1) rep;
          rep = rep @ [of_nat (type_code kTypeDeletion)]
      in PutLengthPrefixedSlice rep key)"

text \<open>The loop of \<open>Iterate\<close>: the calls made, the number of records and a corruption, if any.\<close>

function Iterate_loop :: "slice \<Rightarrow> nat \<Rightarrow> batch_op list \<times> nat \<times> status" where
  "Iterate_loop input found =
     (case input of
        [] \<Rightarrow> ([], found, OK)
      | tag # input \<Rightarrow>
          if tag = of_nat (type_code kTypeValue) then
            (case GetLengthPrefixedSlice input of
               None \<Rightarrow> ([], Suc found, Corruption ''bad WriteBatch Put'')
             | Some (key, input) \<Rightarrow>
                 (case GetLengthPrefixedSlice input of
                    None \<Rightarrow> ([], Suc found, Corruption ''bad WriteBatch Put'')
                  | Some (val, input) \<Rightarrow>
                      let (ops, r) = Iterate_loop input (Suc found) in (Put key val # ops, r)))
          else if tag = of_nat (type_code kTypeDeletion) then
            (case GetLengthPrefixedSlice input of
               None \<Rightarrow> ([], Suc found, Corruption ''bad WriteBatch Delete'')
             | Some (key, input) \<Rightarrow>
                 let (ops, r) = Iterate_loop input (Suc found) in (Delete key # ops, r))
          else ([], Suc found, Corruption ''unknown WriteBatch tag''))"
  by pat_completeness auto
termination
  by (relation "measure (\<lambda>(input, found). length input)")
    (auto dest!: GetLengthPrefixedSlice_shorter)

declare Iterate_loop.simps [simp del]

text \<open>\<open>found\<close> is compared with \<open>Count\<close> as an \<open>int\<close>.\<close>

definition Batch_Iterate :: "slice \<Rightarrow> batch_op list \<times> status" where
  "Batch_Iterate rep =
     (if length rep < kHeader then ([], Corruption ''malformed WriteBatch (too small)'')
      else let (ops, found, s) = Iterate_loop (remove_prefix kHeader rep) 0 in
           if \<not> ok s then (ops, s)
           else if of_nat found \<noteq> Batch_Count rep then (ops, Corruption ''WriteBatch has wrong count'')
           else (ops, OK))"

text \<open>\<open>MemTableInserter\<close>: each call adds an entry with the next sequence number.\<close>

fun inserter_update :: "u64 \<Rightarrow> batch_op \<Rightarrow> update" where
  "inserter_update seq (Put key val) = (seq, kTypeValue, key, val)"
| "inserter_update seq (Delete key) = (seq, kTypeDeletion, key, [])"

fun inserter :: "u64 \<Rightarrow> batch_op list \<Rightarrow> update list" where
  "inserter seq [] = []"
| "inserter seq (op # ops) = inserter_update seq op # inserter (seq + 1) ops"

definition Batch_InsertInto :: "(slice \<Rightarrow> slice \<Rightarrow> int) \<Rightarrow> slice \<Rightarrow> MemTable \<Rightarrow> (status \<times> MemTable) option" where
  "Batch_InsertInto ucmp rep m =
     (let (ops, s) = Batch_Iterate rep
      in map_option (\<lambda>m. (s, m)) (MemTable_Adds ucmp (inserter (Batch_Sequence rep) ops) m))"

definition Batch_SetContents :: "slice \<Rightarrow> slice" where
  "Batch_SetContents contents = contents"

definition Batch_Append :: "slice \<Rightarrow> slice \<Rightarrow> slice" where
  "Batch_Append dst src =
     Batch_SetCount (Batch_Count dst + Batch_Count src) dst @ drop kHeader src"

subsection \<open>What a batch holds\<close>

fun apply_op :: "batch_op \<Rightarrow> slice \<Rightarrow> slice" where
  "apply_op (Put k v) rep = Batch_Put k v rep"
| "apply_op (Delete k) rep = Batch_Delete k rep"

fun op_bytes :: "batch_op \<Rightarrow> slice" where
  "op_bytes (Put k v) = of_nat (type_code kTypeValue) # PutLengthPrefixedSlice [] k @ PutLengthPrefixedSlice [] v"
| "op_bytes (Delete k) = of_nat (type_code kTypeDeletion) # PutLengthPrefixedSlice [] k"

fun op_ok :: "batch_op \<Rightarrow> bool" where
  "op_ok (Put k v) \<longleftrightarrow> length k + 8 < 2 ^ 32 \<and> length v < 2 ^ 32"
| "op_ok (Delete k) \<longleftrightarrow> length k + 8 < 2 ^ 32"

text \<open>A well-formed batch: the header and the records of a list of operations.\<close>

definition batch_rep :: "u64 \<Rightarrow> batch_op list \<Rightarrow> slice" where
  "batch_rep seq ops = EncodeFixed64 seq @ EncodeFixed32 (of_nat (length ops)) @ concat (map op_bytes ops)"

lemma batch_header:
  "Batch_Count (batch_rep seq ops) = of_nat (length ops)" "Batch_Sequence (batch_rep seq ops) = seq"
  "drop kHeader (batch_rep seq ops) = concat (map op_bytes ops)"
  "Batch_SetCount n (batch_rep seq ops) = EncodeFixed64 seq @ EncodeFixed32 n @ concat (map op_bytes ops)"
  "Batch_SetSequence s (batch_rep seq ops) = batch_rep s ops"
  by (simp_all add: batch_rep_def Batch_Count_def Batch_Sequence_def Batch_SetCount_def Batch_SetSequence_def kHeader_def)

lemma Batch_Clear_rep: "Batch_Clear = batch_rep 0 []"
  by (simp add: Batch_Clear_def batch_rep_def EncodeFixed32_bytes EncodeFixed64_bytes kHeader_def numeral_eq_Suc)

lemma apply_op_rep: "apply_op op (batch_rep seq ops) = batch_rep seq (ops @ [op])"
  by (cases op)
    (simp_all add: Batch_Put_def Batch_Delete_def Let_def batch_header PutLengthPrefixedSlice_append [of "_ @ _"],
      simp_all add: batch_rep_def add.commute)

lemma fold_apply_op: "fold apply_op ops (batch_rep seq ops0) = batch_rep seq (ops0 @ ops)"
  by (induction ops arbitrary: ops0) (simp_all add: apply_op_rep)

lemma Batch_Append_rep: "Batch_Append (batch_rep s1 ops1) (batch_rep s2 ops2) = batch_rep s1 (ops1 @ ops2)"
  by (simp add: Batch_Append_def batch_header) (simp add: batch_rep_def)

lemma Iterate_loop_op:
  "op_ok op \<Longrightarrow> Iterate_loop (op_bytes op @ rest) found =
     (let (ops, r) = Iterate_loop rest (Suc found) in (op # ops, r))"
  by (cases op) (subst Iterate_loop.simps; simp add: fits32_def)+

lemma Iterate_loop_ops:
  "\<forall>op\<in>set ops. op_ok op \<Longrightarrow> Iterate_loop (concat (map op_bytes ops)) found = (ops, found + length ops, OK)"
proof (induction ops arbitrary: found)
  case Nil
  then show ?case by (subst Iterate_loop.simps) simp
qed (simp add: Iterate_loop_op)

lemma Batch_Iterate_rep:
  "\<forall>op\<in>set ops. op_ok op \<Longrightarrow> Batch_Iterate (batch_rep seq ops) = (ops, OK)"
proof -
  assume a: "\<forall>op\<in>set ops. op_ok op"
  have "\<not> length (batch_rep seq ops) < kHeader" by (simp add: batch_rep_def kHeader_def)
  then show ?thesis using a
    by (simp add: Batch_Iterate_def remove_prefix_def batch_header Iterate_loop_ops)
qed

lemma Iterate_loop_truncated_op:
  assumes "op_ok op" "0 < n" "n < length (op_bytes op)"
  shows "\<exists>ops f s. Iterate_loop (take n (op_bytes op)) found = (ops, f, s) \<and> \<not> ok s"
proof (cases op)
  case (Put k v)
  let ?k = "PutLengthPrefixedSlice [] k" let ?v = "PutLengthPrefixedSlice [] v"
  have fit: "fits32 k" "fits32 v" using assms(1) Put by (auto simp: fits32_def)
  obtain m where m: "n = Suc m" using assms(2) by (cases n) auto
  show ?thesis
  proof (cases "m < length ?k")
    case True
    then have "GetLengthPrefixedSlice (take m (?k @ ?v)) = None"
      using lenprefix_ext.dec_truncated [OF fit(1) True] by simp
    then show ?thesis by (subst Iterate_loop.simps) (simp add: Put m)
  next
    case False
    then have "GetLengthPrefixedSlice (take m (?k @ ?v)) = Some (k, take (m - length ?k) ?v)"
      using GetLengthPrefixedSlice_Put [OF fit(1)] by simp
    moreover have "GetLengthPrefixedSlice (take (m - length ?k) ?v) = None"
      using lenprefix_ext.dec_truncated [OF fit(2)] assms(3) Put m False by auto
    ultimately show ?thesis by (subst Iterate_loop.simps) (simp add: Put m)
  qed
next
  case (Delete k)
  obtain m where m: "n = Suc m" using assms(2) by (cases n) auto
  have "GetLengthPrefixedSlice (take m (PutLengthPrefixedSlice [] k)) = None"
    using lenprefix_ext.dec_truncated [of k m] assms Delete m by (auto simp: fits32_def)
  then show ?thesis by (subst Iterate_loop.simps) (simp add: Delete m)
qed

text \<open>A truncated list of records either ends in a corruption or has fewer records.\<close>

lemma Iterate_loop_truncated:
  assumes "\<forall>op\<in>set ops. op_ok op" "n < length (concat (map op_bytes ops))"
  shows "\<exists>ops' f s. Iterate_loop (take n (concat (map op_bytes ops))) found = (ops', f, s) \<and>
    (ok s \<longrightarrow> f < found + length ops)"
  using assms
proof (induction ops arbitrary: n found)
  case (Cons op ops)
  have ok: "op_ok op" using Cons.prems(1) by simp
  consider "n = 0" | "0 < n" "n < length (op_bytes op)" | "length (op_bytes op) \<le> n" by linarith
  then show ?case
  proof cases
    case 1
    then show ?thesis by (subst Iterate_loop.simps) simp
  next
    case 2
    then show ?thesis using Iterate_loop_truncated_op [OF ok 2, of found] by auto
  next
    case 3
    let ?m = "n - length (op_bytes op)"
    have "?m < length (concat (map op_bytes ops))" using Cons.prems(2) 3 by auto
    then have "\<exists>ops' f s. Iterate_loop (take ?m (concat (map op_bytes ops))) (Suc found) = (ops', f, s) \<and>
        (ok s \<longrightarrow> f < Suc found + length ops)"
      using Cons.IH [of ?m "Suc found"] Cons.prems(1) by simp
    then show ?thesis using 3 Iterate_loop_op [OF ok, of "take ?m (concat (map op_bytes ops))" found]
      by (auto simp: ok_def)
  qed
qed simp

text \<open>
  C29. Building a batch with \<open>Put\<close>, \<open>Delete\<close> and \<open>Append\<close> and iterating over it calls the
  handler with exactly the operations that were recorded, in order, and returns OK; the
  stored count and sequence number are right.
\<close>

theorem WriteBatch_roundtrip:
  assumes "\<forall>op\<in>set ops1 \<union> set ops2. op_ok op"
    and "b = Batch_SetSequence seq (Batch_Append (fold apply_op ops1 Batch_Clear) (fold apply_op ops2 Batch_Clear))"
  shows "Batch_Iterate b = (ops1 @ ops2, OK) \<and> Batch_Count b = of_nat (length ops1 + length ops2) \<and>
    Batch_Sequence b = seq"
proof -
  have b: "b = batch_rep seq (ops1 @ ops2)"
    by (simp add: assms(2) Batch_Clear_rep fold_apply_op Batch_Append_rep batch_header)
  have "Batch_Iterate b = (ops1 @ ops2, OK)"
    unfolding b using assms(1) by (intro Batch_Iterate_rep) auto
  moreover have "Batch_Count b = of_nat (length ops1 + length ops2)" "Batch_Sequence b = seq"
    by (simp_all only: b batch_header length_append)
  ultimately show ?thesis by blast
qed

theorem WriteBatch_roundtrip_witness:
  "Batch_Iterate (Batch_SetSequence 7 (Batch_Append (fold apply_op [Put [97] [1]] Batch_Clear)
     (fold apply_op [Delete [98]] Batch_Clear))) = ([Put [97] [1], Delete [98]], OK)"
  using WriteBatch_roundtrip [OF _ refl, of "[Put [97] [1]]" "[Delete [98]]" 7] by simp

text \<open>
  C30. A batch that has lost bytes at its end is never taken for a valid one: \<open>Iterate\<close>
  returns a corruption.
\<close>

theorem WriteBatch_truncated:
  assumes "\<forall>op\<in>set ops. op_ok op" "length ops < 2 ^ 32" "n < length (batch_rep seq ops)"
  shows "\<not> ok (snd (Batch_Iterate (take n (batch_rep seq ops))))"
proof (cases "n < kHeader")
  case False
  let ?r = "take n (batch_rep seq ops)" let ?m = "n - kHeader"
  have len: "length ?r = n" "\<not> length ?r < kHeader" using assms(3) False by auto
  have cnt: "Batch_Count ?r = of_nat (length ops)"
    using False by (simp add: batch_rep_def Batch_Count_def kHeader_def)
  have "drop kHeader ?r = take ?m (concat (map op_bytes ops))"
    by (simp add: drop_take batch_header)
  moreover have "?m < length (concat (map op_bytes ops))"
    using assms(3) False by (simp add: batch_rep_def kHeader_def)
  then obtain ops' f s where l: "Iterate_loop (take ?m (concat (map op_bytes ops))) 0 = (ops', f, s)"
    "ok s \<longrightarrow> f < length ops"
    using Iterate_loop_truncated [OF assms(1), of ?m 0] by auto
  moreover have "of_nat f \<noteq> (of_nat (length ops) :: u32)" if "f < length ops"
  proof -
    have "unat (of_nat f :: u32) = f" "unat (of_nat (length ops) :: u32) = length ops"
      using that assms(2) by (simp_all add: unat_of_nat_small)
    then show ?thesis using that by (metis less_irrefl)
  qed
  ultimately show ?thesis using len cnt by (auto simp: Batch_Iterate_def remove_prefix_def)
qed (auto simp: Batch_Iterate_def)

theorem WriteBatch_truncated_witness:
  "\<not> ok (snd (Batch_Iterate (take 15 (batch_rep 7 [Put [97] [1], Delete [98]]))))"
proof -
  have "15 < length (batch_rep 7 [Put [97] [1], Delete [98]])" by code_simp
  then show ?thesis using WriteBatch_truncated [of "[Put [97] [1], Delete [98]]" 15 7] by simp
qed

end
