(* ===== verification/MemEnv.thy ===== *)
theory MemEnv
  imports Comparator
begin

text \<open>
  The file interfaces of include/leveldb/env.h the components read and write through, as
  locales, and helpers/memenv/memenv.cc, the environment that keeps files in memory, as
  their provider. Names are byte strings as everywhere.

  A file of the in-memory environment is a vector of blocks of 8192 bytes and a size. Bytes
  of a block that were never written are 0 here; they are never read.
\<close>

subsection \<open>The interfaces\<close>

text \<open>A writable file: an append that succeeds extends the contents by the data.\<close>

locale writable_file =
  fixes Append :: "slice \<Rightarrow> 'f \<Rightarrow> status \<times> 'f" and Flush :: "'f \<Rightarrow> status \<times> 'f"
    and inv :: "'f \<Rightarrow> bool" and contents :: "'f \<Rightarrow> slice"
  assumes Append_ok: "inv f \<Longrightarrow> Append d f = (s, f') \<Longrightarrow> ok s \<Longrightarrow> inv f' \<and> contents f' = contents f @ d"
    and Flush_contents: "inv f \<Longrightarrow> Flush f = (s, f') \<Longrightarrow> inv f' \<and> contents f' = contents f"

text \<open>A writable file that does not fail.\<close>

locale reliable_file = writable_file +
  assumes Append_succeeds: "inv f \<Longrightarrow> fst (Append d f) = OK"
    and Flush_succeeds: "inv f \<Longrightarrow> fst (Flush f) = OK"

text \<open>
  A sequential file: a successful read returns the next bytes, fewer than asked for only at
  the end of the file.
\<close>

locale sequential_file =
  fixes Read :: "nat \<Rightarrow> 'f \<Rightarrow> (status + slice) \<times> 'f" and Skip :: "nat \<Rightarrow> 'f \<Rightarrow> status \<times> 'f"
    and inv :: "'f \<Rightarrow> bool" and rest :: "'f \<Rightarrow> slice"
  assumes Read_ok: "inv f \<Longrightarrow> Read n f = (Inr r, f') \<Longrightarrow> inv f' \<and> r = take n (rest f) \<and> rest f' = drop n (rest f)"
    and Skip_ok: "inv f \<Longrightarrow> Skip n f = (s, f') \<Longrightarrow> ok s \<Longrightarrow> inv f' \<and> rest f' = drop n (rest f)"

text \<open>A sequential file that can always be read.\<close>

locale readable_file = sequential_file +
  assumes Read_succeeds: "inv f \<Longrightarrow> \<exists>r f'. Read n f = (Inr r, f')"

subsection \<open>FileState\<close>

definition mem_kBlockSize :: nat where "mem_kBlockSize = 8 * 1024"

record FileState =
  fs_refs :: int
  fs_blocks :: "slice list"
  fs_size :: nat

definition new_FileState :: FileState where
  "new_FileState = \<lparr>fs_refs = 0, fs_blocks = [], fs_size = 0\<rparr>"

definition FileState_Ref :: "FileState \<Rightarrow> FileState" where
  "FileState_Ref f = f\<lparr>fs_refs := fs_refs f + 1\<rparr>"

text \<open>\<open>None\<close>: the last reference is gone and the file deletes itself.\<close>

definition FileState_Unref :: "FileState \<Rightarrow> FileState option" where
  "FileState_Unref f = (let f = f\<lparr>fs_refs := fs_refs f - 1\<rparr> in if fs_refs f \<le> 0 then None else Some f)"

definition FileState_Size :: "FileState \<Rightarrow> nat" where
  "FileState_Size f = fs_size f"

text \<open>The loop that copies from block to block.\<close>

function copy_blocks :: "slice list \<Rightarrow> nat \<Rightarrow> nat \<Rightarrow> nat \<Rightarrow> slice" where
  "copy_blocks blocks block block_offset bytes_to_copy =
     (if bytes_to_copy > 0 \<and> block_offset < mem_kBlockSize then
        let avail = min (mem_kBlockSize - block_offset) bytes_to_copy
        in take avail (drop block_offset (blocks ! block)) @ copy_blocks blocks (Suc block) 0 (bytes_to_copy - avail)
      else [])"
  by pat_completeness auto
termination
  by (relation "measure (\<lambda>(bs, b, off, n). n)") auto

declare copy_blocks.simps [simp del]

definition FileState_Read :: "nat \<Rightarrow> nat \<Rightarrow> FileState \<Rightarrow> status + slice" where
  "FileState_Read off n f =
     (if off > fs_size f then Inl (IOError ''Offset greater than file size.'')
      else let n = min n (fs_size f - off) in
           if n = 0 then Inr []
           else let block = off div mem_kBlockSize; block_offset = off mod mem_kBlockSize in
                if n \<le> mem_kBlockSize - block_offset
                then Inr (take n (drop block_offset (fs_blocks f ! block)))
                else Inr (copy_blocks (fs_blocks f) block block_offset n))"

definition copy_into :: "nat \<Rightarrow> slice \<Rightarrow> slice \<Rightarrow> slice" where
  "copy_into off src dst = take off dst @ src @ drop (off + length src) dst"

function FileState_Append :: "slice \<Rightarrow> FileState \<Rightarrow> FileState" where
  "FileState_Append src f =
     (if src = [] then f
      else let off = fs_size f mod mem_kBlockSize;
               (avail, blocks) =
                 (if off \<noteq> 0 then (mem_kBlockSize - off, fs_blocks f)
                  else (mem_kBlockSize, fs_blocks f @ [replicate mem_kBlockSize 0]));
               avail = min avail (length src)
           in FileState_Append (drop avail src)
                (f\<lparr>fs_blocks := butlast blocks @ [copy_into off (take avail src) (last blocks)],
                   fs_size := fs_size f + avail\<rparr>))"
  by pat_completeness auto
termination
  by (relation "measure (\<lambda>(src, f). length src)")
    (auto simp: mem_kBlockSize_def split: if_splits)

declare FileState_Append.simps [simp del]

subsection \<open>A file is the string of its bytes\<close>

definition file_inv :: "FileState \<Rightarrow> bool" where
  "file_inv f \<longleftrightarrow>
     (\<forall>b\<in>set (fs_blocks f). length b = mem_kBlockSize) \<and>
     fs_size f \<le> mem_kBlockSize * length (fs_blocks f) \<and>
     mem_kBlockSize * length (fs_blocks f) < fs_size f + mem_kBlockSize"

definition file_contents :: "FileState \<Rightarrow> slice" where
  "file_contents f = take (fs_size f) (concat (fs_blocks f))"

lemma kB_pos [simp]: "0 < mem_kBlockSize" by (simp add: mem_kBlockSize_def)

lemma length_concat_blocks: "\<forall>b\<in>set bs. length b = n \<Longrightarrow> length (concat bs) = n * length bs"
  by (induction bs) auto

lemma drop_concat_blocks:
  "\<forall>b\<in>set bs. length b = n \<Longrightarrow> i < length bs \<Longrightarrow> j \<le> n \<Longrightarrow>
   drop (n * i + j) (concat bs) = drop j (bs ! i) @ concat (drop (Suc i) bs)"
proof (induction bs arbitrary: i)
  case (Cons b bs)
  then show ?case by (cases i) (auto simp: algebra_simps)
qed simp

lemma copy_blocks_eq:
  assumes "\<forall>b\<in>set bs. length b = mem_kBlockSize" "off < mem_kBlockSize"
    "mem_kBlockSize * block + off + n \<le> mem_kBlockSize * length bs"
  shows "copy_blocks bs block off n = take n (drop (mem_kBlockSize * block + off) (concat bs))"
  using assms
proof (induction bs block off n rule: copy_blocks.induct)
  case (1 bs block off n)
  let ?B = mem_kBlockSize
  show ?case
  proof (cases "n = 0")
    case False
    have "?B * block < ?B * length bs" using 1(4) False by linarith
    then have bl: "block < length bs" by simp
    have len: "length (bs ! block) = ?B" using 1(2) bl by auto
    let ?a = "min (?B - off) n"
    have D: "drop (?B * block + off) (concat bs) = drop off (bs ! block) @ concat (drop (Suc block) bs)"
      using drop_concat_blocks [OF 1(2) bl, of off] 1(3) by simp
    have "copy_blocks bs (Suc block) 0 (n - ?a) = take (n - ?a) (drop (?B * Suc block + 0) (concat bs))"
      using 1(2,3,4) False mult_le_mono2 [OF Suc_leI [OF bl], of ?B] by (intro 1(1)) (auto simp: min_def)
    moreover have "drop (?B * Suc block + 0) (concat bs) = concat (drop (Suc block) bs)"
      using drop_concat_blocks [OF 1(2) bl, of ?B] len by (simp add: algebra_simps)
    ultimately show ?thesis
      using False 1(3) len by (subst copy_blocks.simps) (simp add: D Let_def min_def)
  qed (subst copy_blocks.simps, simp)
qed

lemma FileState_Read_eq:
  assumes "file_inv f"
  shows "FileState_Read off n f =
    (if off > length (file_contents f) then Inl (IOError ''Offset greater than file size.'')
     else Inr (take n (drop off (file_contents f))))"
proof -
  let ?B = mem_kBlockSize let ?bs = "fs_blocks f"
  have u: "\<forall>b\<in>set ?bs. length b = ?B" and sz: "fs_size f \<le> ?B * length ?bs"
    using assms by (auto simp: file_inv_def)
  have len: "length (file_contents f) = fs_size f"
    using sz length_concat_blocks [OF u] by (simp add: file_contents_def)
  have main: "copy_blocks ?bs (off div ?B) (off mod ?B) m = take m (drop off (concat ?bs))"
    "m \<le> ?B - off mod ?B \<Longrightarrow> 0 < m \<Longrightarrow> take m (drop (off mod ?B) (?bs ! (off div ?B))) = take m (drop off (concat ?bs))"
    if "off + m \<le> fs_size f" for m
  proof -
    have off: "?B * (off div ?B) + off mod ?B = off" by simp
    show "copy_blocks ?bs (off div ?B) (off mod ?B) m = take m (drop off (concat ?bs))"
      using copy_blocks_eq [OF u, of "off mod ?B" "off div ?B" m] that sz by simp
    assume m: "m \<le> ?B - off mod ?B" "0 < m"
    then have "off < ?B * length ?bs" using that sz by linarith
    then have bl: "off div ?B < length ?bs" by (simp add: less_mult_imp_div_less mult.commute)
    show "take m (drop (off mod ?B) (?bs ! (off div ?B))) = take m (drop off (concat ?bs))"
      using drop_concat_blocks [OF u bl, of "off mod ?B"] m(1) u bl by (simp add: less_imp_le)
  qed
  show ?thesis
  proof (cases "off > fs_size f")
    case False
    define m where "m = min n (fs_size f - off)"
    have m: "off + m \<le> fs_size f" using False by (auto simp: m_def)
    have "take n (drop off (file_contents f)) = take m (drop off (concat ?bs))"
      by (simp add: file_contents_def drop_take m_def min.commute)
    then show ?thesis using False main [OF m] len
      by (simp add: FileState_Read_def m_def [symmetric] Let_def)
  qed (simp add: FileState_Read_def len)
qed

lemma append_step:
  assumes inv: "file_inv f" and ne: "src \<noteq> []"
  defines "off \<equiv> fs_size f mod mem_kBlockSize"
  defines "blocks \<equiv> (if off \<noteq> 0 then fs_blocks f else fs_blocks f @ [replicate mem_kBlockSize 0])"
  defines "avail \<equiv> min (mem_kBlockSize - off) (length src)"
  defines "f' \<equiv> f\<lparr>fs_blocks := butlast blocks @ [copy_into off (take avail src) (last blocks)], fs_size := fs_size f + avail\<rparr>"
  shows "file_inv f'" "file_contents f' = file_contents f @ take avail src"
proof -
  let ?B = mem_kBlockSize
  have u: "\<forall>b\<in>set (fs_blocks f). length b = ?B" and sz: "fs_size f \<le> ?B * length (fs_blocks f)"
    "?B * length (fs_blocks f) < fs_size f + ?B"
    using inv by (auto simp: file_inv_def)
  have offB: "off < ?B" by (simp add: off_def)
  have bl: "blocks \<noteq> []" "\<forall>b\<in>set blocks. length b = ?B" "fs_size f = ?B * (length blocks - 1) + off"
    "fs_blocks f = (if off \<noteq> 0 then blocks else butlast blocks)"
  proof -
    define q where "q = fs_size f div ?B"
    have q: "fs_size f = ?B * q + off" by (simp add: q_def off_def)
    have "off \<noteq> 0 \<Longrightarrow> length (fs_blocks f) = Suc q"
    proof -
      assume "off \<noteq> 0"
      then have "?B * q < ?B * length (fs_blocks f)" "?B * length (fs_blocks f) < ?B * Suc (Suc q)"
        using sz q offB by (linarith, simp)
      then show ?thesis using nat_mult_less_cancel1 [OF kB_pos] by (metis not_less_eq less_antisym)
    qed
    moreover have "off = 0 \<Longrightarrow> length (fs_blocks f) = q"
    proof -
      assume "off = 0"
      then have "?B * q \<le> ?B * length (fs_blocks f)" "?B * length (fs_blocks f) < ?B * Suc q"
        using sz q by simp_all
      then show ?thesis using nat_mult_less_cancel1 [OF kB_pos] nat_mult_le_cancel1 [OF kB_pos] by (metis less_Suc_eq_le order_antisym)
    qed
    ultimately show "blocks \<noteq> []" "\<forall>b\<in>set blocks. length b = ?B" "fs_size f = ?B * (length blocks - 1) + off"
      "fs_blocks f = (if off \<noteq> 0 then blocks else butlast blocks)"
      using u q by (auto simp: blocks_def)
  qed
  have av: "off + avail \<le> ?B" "avail \<le> length src" "0 < avail" using offB ne by (auto simp: avail_def)
  have lastlen: "length (last blocks) = ?B" using bl by simp
  have butl: "\<forall>b\<in>set (butlast blocks). length b = ?B" using bl(2) by (meson in_set_butlastD)
  have clen: "length (concat (butlast blocks)) = ?B * (length blocks - 1)"
    using length_concat_blocks [OF butl] by simp
  have cp: "length (copy_into off (take avail src) (last blocks)) = ?B"
    using av lastlen by (simp add: copy_into_def)
  have cont: "file_contents f = concat (butlast blocks) @ take off (last blocks)"
  proof (cases "off = 0")
    case True
    then show ?thesis using bl(3,4) clen by (simp add: file_contents_def)
  next
    case False
    then have "fs_blocks f = butlast blocks @ [last blocks]" using bl(1,4) by simp
    then show ?thesis using bl(3) clen by (simp add: file_contents_def)
  qed
  show "file_contents f' = file_contents f @ take avail src"
    using bl(3) clen av lastlen by (simp add: f'_def file_contents_def [of f'] cont copy_into_def)
      (simp add: file_contents_def copy_into_def clen)
  obtain n where n: "length blocks = Suc n" using bl(1) by (cases "length blocks") auto
  show "file_inv f'"
    using butl cp bl(1,3) av(1,3) n by (auto simp: file_inv_def f'_def)
qed


lemma FileState_Append_eq:
  "file_inv f \<Longrightarrow> file_inv (FileState_Append src f) \<and> file_contents (FileState_Append src f) = file_contents f @ src"
proof (induction src f rule: FileState_Append.induct)
  case (1 src f)
  show ?case
  proof (cases "src = []")
    case False
    note st = append_step [OF 1(2) False]
    let ?off = "fs_size f mod mem_kBlockSize"
    let ?blocks = "if ?off \<noteq> 0 then fs_blocks f else fs_blocks f @ [replicate mem_kBlockSize 0]"
    let ?avail = "min (mem_kBlockSize - ?off) (length src)"
    let ?f = "f\<lparr>fs_blocks := butlast ?blocks @ [copy_into ?off (take ?avail src) (last ?blocks)], fs_size := fs_size f + ?avail\<rparr>"
    have unf: "FileState_Append src f = FileState_Append (drop ?avail src) ?f"
      using False by (subst FileState_Append.simps) (simp add: Let_def)
    have "file_inv (FileState_Append (drop ?avail src) ?f) \<and>
      file_contents (FileState_Append (drop ?avail src) ?f) = file_contents ?f @ drop ?avail src"
      using 1(1) [OF False refl _ refl refl, of "if ?off \<noteq> 0 then mem_kBlockSize - ?off else mem_kBlockSize" ?blocks] st(1)
      by (auto split: if_splits)
    then show ?thesis unfolding unf st(2) by simp
  qed (use 1(2) in \<open>subst (1 2) FileState_Append.simps, simp\<close>)
qed

lemma new_FileState_contents [simp]: "file_inv new_FileState" "file_contents new_FileState = []"
  by (simp_all add: new_FileState_def file_inv_def file_contents_def)

subsection \<open>The file objects\<close>

definition WritableFile_Append :: "slice \<Rightarrow> FileState \<Rightarrow> status \<times> FileState" where
  "WritableFile_Append d f = (OK, FileState_Append d f)"

definition WritableFile_Flush :: "FileState \<Rightarrow> status \<times> FileState" where
  "WritableFile_Flush f = (OK, f)"

definition RandomAccessFile_Read :: "nat \<Rightarrow> nat \<Rightarrow> FileState \<Rightarrow> status + slice" where
  "RandomAccessFile_Read off n f = FileState_Read off n f"

record SequentialFile =
  sq_file :: FileState
  sq_pos :: nat

definition SequentialFile_Read :: "nat \<Rightarrow> SequentialFile \<Rightarrow> (status + slice) \<times> SequentialFile" where
  "SequentialFile_Read n q =
     (case FileState_Read (sq_pos q) n (sq_file q) of
        Inl s \<Rightarrow> (Inl s, q)
      | Inr r \<Rightarrow> (Inr r, q\<lparr>sq_pos := sq_pos q + length r\<rparr>))"

definition SequentialFile_Skip :: "nat \<Rightarrow> SequentialFile \<Rightarrow> status \<times> SequentialFile" where
  "SequentialFile_Skip n q =
     (if sq_pos q > FileState_Size (sq_file q) then (IOError ''pos_ > file_->Size()'', q)
      else (OK, q\<lparr>sq_pos := sq_pos q + min n (FileState_Size (sq_file q) - sq_pos q)\<rparr>))"

lemma length_file_contents: "file_inv f \<Longrightarrow> length (file_contents f) = fs_size f"
  using length_concat_blocks [of "fs_blocks f" mem_kBlockSize] by (simp add: file_inv_def file_contents_def)

interpretation memfile: reliable_file WritableFile_Append WritableFile_Flush file_inv file_contents
  by unfold_locales (auto simp: WritableFile_Append_def WritableFile_Flush_def FileState_Append_eq)

definition seq_inv :: "SequentialFile \<Rightarrow> bool" where
  "seq_inv q \<longleftrightarrow> file_inv (sq_file q) \<and> sq_pos q \<le> fs_size (sq_file q)"

definition seq_rest :: "SequentialFile \<Rightarrow> slice" where
  "seq_rest q = drop (sq_pos q) (file_contents (sq_file q))"

interpretation seqfile: readable_file SequentialFile_Read SequentialFile_Skip seq_inv seq_rest
proof unfold_locales
  fix f r f' s n
  assume i: "seq_inv f"
  note len = length_file_contents [of "sq_file f"]
  show "seq_inv f' \<and> r = take n (seq_rest f) \<and> seq_rest f' = drop n (seq_rest f)"
    if "SequentialFile_Read n f = (Inr r, f')"
    using that i len by (auto simp: SequentialFile_Read_def FileState_Read_eq seq_inv_def seq_rest_def min_def
        add.commute split: if_splits)
  show "seq_inv f' \<and> seq_rest f' = drop n (seq_rest f)" if "SequentialFile_Skip n f = (s, f')" "ok s"
    using that i len by (auto simp: SequentialFile_Skip_def FileState_Size_def seq_inv_def seq_rest_def min_def
        add.commute split: if_splits)
  show "\<exists>r f'. SequentialFile_Read n f = (Inr r, f')"
    using i len by (simp add: SequentialFile_Read_def FileState_Read_eq seq_inv_def)
qed

subsection \<open>InMemoryEnv\<close>

text \<open>
  The map from names to files, ordered by name, holds pointers; \<open>None\<close> is \<open>NULL\<close>, which
  \<open>operator[]\<close> inserts. An operation that follows a \<open>NULL\<close> or a freed pointer has no
  defined result: \<open>None\<close>. The file name in the error messages is left out.
\<close>

record MemEnv =
  env_files :: "nat \<Rightarrow> FileState option"
  env_map :: "(slice \<times> nat option) list"
  env_fresh :: nat

definition new_MemEnv :: MemEnv where
  "new_MemEnv = \<lparr>env_files = (\<lambda>_. None), env_map = [], env_fresh = 0\<rparr>"

fun fm_put :: "slice \<Rightarrow> 'a \<Rightarrow> (slice \<times> 'a) list \<Rightarrow> (slice \<times> 'a) list" where
  "fm_put k v [] = [(k, v)]"
| "fm_put k v ((k', v') # m) =
     (if k = k' then (k, v) # m else if Slice_compare k k' < 0 then (k, v) # (k', v') # m else (k', v') # fm_put k v m)"

definition fm_erase :: "slice \<Rightarrow> (slice \<times> 'a) list \<Rightarrow> (slice \<times> 'a) list" where
  "fm_erase k m = filter (\<lambda>e. fst e \<noteq> k) m"

definition mem_Ref :: "nat \<Rightarrow> MemEnv \<Rightarrow> MemEnv option" where
  "mem_Ref a e = map_option (\<lambda>f. e\<lparr>env_files := (env_files e)(a \<mapsto> FileState_Ref f)\<rparr>) (env_files e a)"

definition mem_Unref :: "nat \<Rightarrow> MemEnv \<Rightarrow> MemEnv option" where
  "mem_Unref a e = map_option (\<lambda>f. e\<lparr>env_files := (env_files e)(a := FileState_Unref f)\<rparr>) (env_files e a)"

text \<open>\<open>new FileState()\<close> followed by \<open>Ref\<close>.\<close>

definition mem_new_file :: "MemEnv \<Rightarrow> nat \<times> MemEnv" where
  "mem_new_file e =
     (env_fresh e, e\<lparr>env_files := (env_files e)(env_fresh e \<mapsto> FileState_Ref new_FileState),
                     env_fresh := Suc (env_fresh e)\<rparr>)"

definition NewSequentialFile :: "slice \<Rightarrow> MemEnv \<Rightarrow> ((status + nat) \<times> MemEnv) option" where
  "NewSequentialFile fname e =
     (case map_of (env_map e) fname of
        None \<Rightarrow> Some (Inl (IOError ''File not found''), e)
      | Some None \<Rightarrow> None
      | Some (Some a) \<Rightarrow> map_option (\<lambda>e. (Inr a, e)) (mem_Ref a e))"

definition NewRandomAccessFile :: "slice \<Rightarrow> MemEnv \<Rightarrow> ((status + nat) \<times> MemEnv) option" where
  "NewRandomAccessFile fname e =
     (case map_of (env_map e) fname of
        None \<Rightarrow> Some (Inl (IOError ''File not found''), e)
      | Some None \<Rightarrow> None
      | Some (Some a) \<Rightarrow> map_option (\<lambda>e. (Inr a, e)) (mem_Ref a e))"

definition DeleteFileInternal :: "slice \<Rightarrow> MemEnv \<Rightarrow> MemEnv option" where
  "DeleteFileInternal fname e =
     (case map_of (env_map e) fname of
        None \<Rightarrow> Some e
      | Some None \<Rightarrow> None
      | Some (Some a) \<Rightarrow> map_option (\<lambda>e. e\<lparr>env_map := fm_erase fname (env_map e)\<rparr>) (mem_Unref a e))"

definition NewWritableFile :: "slice \<Rightarrow> MemEnv \<Rightarrow> (nat \<times> MemEnv) option" where
  "NewWritableFile fname e =
     Option.bind (if map_of (env_map e) fname \<noteq> None then DeleteFileInternal fname e else Some e) (\<lambda>e.
       let (a, e) = mem_new_file e;
           e = e\<lparr>env_map := fm_put fname (Some a) (env_map e)\<rparr>
       in map_option (\<lambda>e. (a, e)) (mem_Ref a e))"

text \<open>\<open>file_map_[fname]\<close> inserts \<open>NULL\<close> for a new name; the new file is not stored there.\<close>

definition NewAppendableFile :: "slice \<Rightarrow> MemEnv \<Rightarrow> (nat \<times> MemEnv) option" where
  "NewAppendableFile fname e =
     (let e = (if map_of (env_map e) fname = None then e\<lparr>env_map := fm_put fname None (env_map e)\<rparr> else e);
          (a, e) = (case the (map_of (env_map e) fname) of None \<Rightarrow> mem_new_file e | Some a \<Rightarrow> (a, e))
      in map_option (\<lambda>e. (a, e)) (mem_Ref a e))"

definition FileExists :: "slice \<Rightarrow> MemEnv \<Rightarrow> bool" where
  "FileExists fname e \<longleftrightarrow> map_of (env_map e) fname \<noteq> None"

definition GetChildren :: "slice \<Rightarrow> MemEnv \<Rightarrow> slice list" where
  "GetChildren dir e =
     map (drop (length dir + 1))
       (filter (\<lambda>filename. length filename \<ge> length dir + 1 \<and> filename ! length dir = 47 \<and> starts_with filename dir)
         (map fst (env_map e)))"

definition mem_DeleteFile :: "slice \<Rightarrow> MemEnv \<Rightarrow> (status \<times> MemEnv) option" where
  "mem_DeleteFile fname e =
     (if map_of (env_map e) fname = None then Some (IOError ''File not found'', e)
      else map_option (\<lambda>e. (OK, e)) (DeleteFileInternal fname e))"

definition GetFileSize :: "slice \<Rightarrow> MemEnv \<Rightarrow> (status + nat) option" where
  "GetFileSize fname e =
     (case map_of (env_map e) fname of
        None \<Rightarrow> Some (Inl (IOError ''File not found''))
      | Some None \<Rightarrow> None
      | Some (Some a) \<Rightarrow> map_option (\<lambda>f. Inr (FileState_Size f)) (env_files e a))"

definition RenameFile :: "slice \<Rightarrow> slice \<Rightarrow> MemEnv \<Rightarrow> (status \<times> MemEnv) option" where
  "RenameFile src target e =
     (if map_of (env_map e) src = None then Some (IOError ''File not found'', e)
      else map_option (\<lambda>e.
        let p = (case map_of (env_map e) src of None \<Rightarrow> None | Some p \<Rightarrow> p)
        in (OK, e\<lparr>env_map := fm_erase src (fm_put target p (env_map e))\<rparr>))
        (DeleteFileInternal target e))"

lemma map_of_fm_put [simp]: "map_of (fm_put k v m) k' = (if k' = k then Some v else map_of m k')"
  by (induction m) auto

text \<open>
  C32. A file of the in-memory environment is the string of the bytes appended to it: a read
  at any offset returns the bytes from there on, at most as many as asked for, and an
  offset past the end is an error.
\<close>

theorem MemFile_is_bytes:
  "FileState_Read off n (fold FileState_Append ds new_FileState) =
    (if off > length (concat ds) then Inl (IOError ''Offset greater than file size.'')
     else Inr (take n (drop off (concat ds))))"
proof -
  have "file_inv (fold FileState_Append ds f) \<and> file_contents (fold FileState_Append ds f) = file_contents f @ concat ds"
    if "file_inv f" for f
    using that by (induction ds arbitrary: f) (simp_all add: FileState_Append_eq)
  from this [OF new_FileState_contents(1)] show ?thesis by (simp add: FileState_Read_eq)
qed

text \<open>
  C33. Opening a new file for appending leaves its name bound to no file: the name then
  exists, but reading its size or opening it follows a null pointer, and what is appended
  cannot be found under the name.
\<close>

theorem NewAppendableFile_unbound:
  assumes "map_of (env_map e) fname = None"
  shows "\<exists>a e'. NewAppendableFile fname e = Some (a, e') \<and> FileExists fname e' \<and>
    NewSequentialFile fname e' = None \<and> GetFileSize fname e' = None"
  using assms
  by (auto simp: NewAppendableFile_def mem_new_file_def mem_Ref_def FileExists_def NewSequentialFile_def GetFileSize_def)

theorem NewAppendableFile_unbound_witness:
  "\<exists>a e'. NewAppendableFile [47, 97] new_MemEnv = Some (a, e') \<and> NewSequentialFile [47, 97] e' = None"
  using NewAppendableFile_unbound [of new_MemEnv "[47, 97]"] by (auto simp: new_MemEnv_def)

end
