(* ===== verification/LogFormat.thy ===== *)
theory LogFormat
  imports Crc32c MemEnv
begin

text \<open>
  db/log_format.h, db/log_writer.cc and db/log_reader.cc: the write-ahead log. The writer cuts
  a record into fragments that do not cross blocks of 32768 bytes; the reader puts them
  together again, skipping and reporting what is damaged.

  The file is a parameter (\<open>Append\<close>, \<open>Flush\<close> and \<open>Read\<close>, \<open>Skip\<close> with the laws of the locales of
  the theory MemEnv), and so is \<open>crc32c::Extend\<close>. The reporter is the list of the reports made; the
  constructor is given whether there is one.
\<close>

definition kZeroType :: nat where "kZeroType = 0"
definition kFullType :: nat where "kFullType = 1"
definition kFirstType :: nat where "kFirstType = 2"
definition kMiddleType :: nat where "kMiddleType = 3"
definition kLastType :: nat where "kLastType = 4"
definition log_kBlockSize :: nat where "log_kBlockSize = 32768"
definition kHeaderSize :: nat where "kHeaderSize = 7"
definition kEof :: nat where "kEof = 5"
definition kBadRecord :: nat where "kBadRecord = 6"

subsection \<open>Writer\<close>

record 'f LogWriter =
  lw_dest :: 'f
  lw_block_offset :: nat

definition new_LogWriter :: "'f \<Rightarrow> nat \<Rightarrow> 'f LogWriter" where
  "new_LogWriter dest dest_length = \<lparr>lw_dest = dest, lw_block_offset = dest_length mod log_kBlockSize\<rparr>"

text \<open>\<open>type_crc_[t]\<close>, filled in by \<open>InitTypeCrc\<close>.\<close>

definition type_crc :: "(u32 \<Rightarrow> slice \<Rightarrow> u32) \<Rightarrow> nat \<Rightarrow> u32" where
  "type_crc ext t = ext 0 [of_nat t]"

definition record_header :: "(u32 \<Rightarrow> slice \<Rightarrow> u32) \<Rightarrow> nat \<Rightarrow> slice \<Rightarrow> slice" where
  "record_header ext t d =
     EncodeFixed32 (Mask (ext (type_crc ext t) d)) @
     [of_nat (length d mod 256), of_nat (length d div 256), of_nat t]"

definition EmitPhysicalRecord ::
  "(slice \<Rightarrow> 'f \<Rightarrow> status \<times> 'f) \<Rightarrow> ('f \<Rightarrow> status \<times> 'f) \<Rightarrow> (u32 \<Rightarrow> slice \<Rightarrow> u32) \<Rightarrow>
   nat \<Rightarrow> slice \<Rightarrow> 'f LogWriter \<Rightarrow> status \<times> 'f LogWriter" where
  "EmitPhysicalRecord app fl ext t d w =
     (let (s, f) = app (record_header ext t d) (lw_dest w);
          (s, f) = (if ok s then let (s, f) = app d f in if ok s then fl f else (s, f) else (s, f))
      in (s, w\<lparr>lw_dest := f, lw_block_offset := lw_block_offset w + kHeaderSize + length d\<rparr>))"

text \<open>The switch to a new block when no header fits; a failed append of the trailer is ignored.\<close>

definition switch_block :: "(slice \<Rightarrow> 'f \<Rightarrow> status \<times> 'f) \<Rightarrow> 'f LogWriter \<Rightarrow> 'f LogWriter" where
  "switch_block app w =
     (let leftover = log_kBlockSize - lw_block_offset w in
      if leftover < kHeaderSize then
        w\<lparr>lw_dest := (if leftover > 0 then snd (app (replicate leftover 0) (lw_dest w)) else lw_dest w),
          lw_block_offset := 0\<rparr>
      else w)"

definition record_type :: "bool \<Rightarrow> bool \<Rightarrow> nat" where
  "record_type begin end =
     (if begin \<and> end then kFullType else if begin then kFirstType else if end then kLastType else kMiddleType)"

lemma switch_offset:
  "lw_block_offset (switch_block app w) =
     (if log_kBlockSize - lw_block_offset w < kHeaderSize then 0 else lw_block_offset w)"
  by (simp add: switch_block_def Let_def)

lemma Emit_offset:
  "lw_block_offset (snd (EmitPhysicalRecord app fl ext t d w)) = lw_block_offset w + kHeaderSize + length d"
  by (simp add: EmitPhysicalRecord_def Let_def split: prod.splits)

function AddRecord_loop ::
  "(slice \<Rightarrow> 'f \<Rightarrow> status \<times> 'f) \<Rightarrow> ('f \<Rightarrow> status \<times> 'f) \<Rightarrow> (u32 \<Rightarrow> slice \<Rightarrow> u32) \<Rightarrow>
   bool \<Rightarrow> slice \<Rightarrow> 'f LogWriter \<Rightarrow> status \<times> 'f LogWriter" where
  "AddRecord_loop app fl ext begin ptr w =
     (let w1 = switch_block app w;
          avail = log_kBlockSize - lw_block_offset w1 - kHeaderSize;
          fragment_length = min (length ptr) avail;
          end = (length ptr = fragment_length);
          r = EmitPhysicalRecord app fl ext (record_type begin end) (take fragment_length ptr) w1
      in if ok (fst r) \<and> \<not> end then AddRecord_loop app fl ext False (drop fragment_length ptr) (snd r) else r)"
  by pat_completeness auto
termination
proof (relation "measures [\<lambda>(app, fl, ext, b, p, w). length p,
    \<lambda>(app, fl, ext, b, p, w). if lw_block_offset w = 32761 then 1 else 0]", goal_cases)
  case (2 app fl ext b ptr w w1 avail n e r)
  define off where "off = lw_block_offset w"
  have o1: "lw_block_offset w1 = (if 32768 - off < 7 then 0 else off)"
    using 2(1) by (simp add: switch_offset off_def log_kBlockSize_def kHeaderSize_def)
  have n: "n = min (length ptr) (32768 - lw_block_offset w1 - 7)"
    using 2(2,3) by (simp add: log_kBlockSize_def kHeaderSize_def)
  have o2: "lw_block_offset (snd r) = lw_block_offset w1 + 7 + n"
    using 2(5) n by (simp add: Emit_offset kHeaderSize_def)
  have ne: "length ptr \<noteq> n" using 2(4,6) by blast
  show ?case
  proof (cases "n = 0")
    case True
    then have "off = 32761" using n ne o1 by (auto split: if_splits)
    then show ?thesis using True o1 o2 by (simp add: off_def)
  next
    case False
    then have "0 < length ptr" using n by auto
    then show ?thesis using False by simp
  qed
qed simp

declare AddRecord_loop.simps [simp del]

definition AddRecord ::
  "(slice \<Rightarrow> 'f \<Rightarrow> status \<times> 'f) \<Rightarrow> ('f \<Rightarrow> status \<times> 'f) \<Rightarrow> (u32 \<Rightarrow> slice \<Rightarrow> u32) \<Rightarrow>
   slice \<Rightarrow> 'f LogWriter \<Rightarrow> status \<times> 'f LogWriter" where
  "AddRecord app fl ext d w = AddRecord_loop app fl ext True d w"

subsection \<open>Reader\<close>

record 'f LogReader =
  lr_file :: 'f
  lr_checksum :: bool
  lr_buffer :: slice
  lr_eof :: bool
  lr_last_record_offset :: u64
  lr_end_of_buffer_offset :: u64
  lr_initial_offset :: u64
  lr_resyncing :: bool
  lr_has_reporter :: bool
  lr_reports :: "(u64 \<times> status) list"

definition new_LogReader :: "'f \<Rightarrow> bool \<Rightarrow> bool \<Rightarrow> u64 \<Rightarrow> 'f LogReader" where
  "new_LogReader f has_reporter checksum initial_offset =
     \<lparr>lr_file = f, lr_checksum = checksum, lr_buffer = [], lr_eof = False, lr_last_record_offset = 0,
      lr_end_of_buffer_offset = 0, lr_initial_offset = initial_offset, lr_resyncing = (initial_offset > 0),
      lr_has_reporter = has_reporter, lr_reports = []\<rparr>"

definition ReportDrop :: "u64 \<Rightarrow> status \<Rightarrow> 'f LogReader \<Rightarrow> 'f LogReader" where
  "ReportDrop bytes reason r =
     (if lr_has_reporter r \<and>
         lr_end_of_buffer_offset r - of_nat (length (lr_buffer r)) - bytes \<ge> lr_initial_offset r
      then r\<lparr>lr_reports := lr_reports r @ [(bytes, reason)]\<rparr> else r)"

definition ReportCorruption :: "u64 \<Rightarrow> string \<Rightarrow> 'f LogReader \<Rightarrow> 'f LogReader" where
  "ReportCorruption bytes reason r = ReportDrop bytes (Corruption reason) r"

definition SkipToInitialBlock :: "(nat \<Rightarrow> 'f \<Rightarrow> status \<times> 'f) \<Rightarrow> 'f LogReader \<Rightarrow> bool \<times> 'f LogReader" where
  "SkipToInitialBlock skip r =
     (let offset_in_block = lr_initial_offset r mod of_nat log_kBlockSize;
          block_start_location = lr_initial_offset r - offset_in_block;
          block_start_location = (if unat offset_in_block > log_kBlockSize - 6
            then block_start_location + of_nat log_kBlockSize else block_start_location);
          r = r\<lparr>lr_end_of_buffer_offset := block_start_location\<rparr>
      in if block_start_location > 0 then
           let (s, f) = skip (unat block_start_location) (lr_file r); r = r\<lparr>lr_file := f\<rparr> in
           if \<not> ok s then (False, ReportDrop block_start_location s r) else (True, r)
         else (True, r))"

text \<open>\<open>const unsigned int type = header[6]\<close>: a \<open>char\<close> is sign-extended.\<close>

definition char_to_uint :: "byte \<Rightarrow> nat" where
  "char_to_uint c = (if unat c < 128 then unat c else 2 ^ 32 - 256 + unat c)"

text \<open>Parsing one physical record from a buffer of at least \<open>kHeaderSize\<close> bytes.\<close>

definition parse_physical ::
  "(u32 \<Rightarrow> slice \<Rightarrow> u32) \<Rightarrow> slice \<Rightarrow> 'f LogReader \<Rightarrow> nat \<times> slice \<times> 'f LogReader" where
  "parse_physical ext result r =
     (let header = lr_buffer r;
          a = unat (header ! 4);
          b = unat (header ! 5);
          type = char_to_uint (header ! 6);
          len = a + 256 * b
      in if kHeaderSize + len > length (lr_buffer r) then
           let drop_size = length (lr_buffer r); r = r\<lparr>lr_buffer := []\<rparr> in
           if \<not> lr_eof r
           then (kBadRecord, result, ReportCorruption (of_nat drop_size) ''bad record length'' r)
           else (kEof, result, r)
         else if type = kZeroType \<and> len = 0 then (kBadRecord, result, r\<lparr>lr_buffer := []\<rparr>)
         else if lr_checksum r \<and> ext 0 (take (1 + len) (drop 6 header)) \<noteq> Unmask (DecodeFixed32 header) then
           let drop_size = length (lr_buffer r); r = r\<lparr>lr_buffer := []\<rparr> in
           (kBadRecord, result, ReportCorruption (of_nat drop_size) ''checksum mismatch'' r)
         else
           let r = r\<lparr>lr_buffer := drop (kHeaderSize + len) (lr_buffer r)\<rparr> in
           if lr_end_of_buffer_offset r - of_nat (length (lr_buffer r)) - of_nat kHeaderSize - of_nat len
              < lr_initial_offset r
           then (kBadRecord, [], r)
           else (type, take len (drop kHeaderSize header), r))"

text \<open>
  The loop runs at most twice: a refill that leaves fewer than \<open>kHeaderSize\<close> bytes is short and
  sets \<open>eof_\<close>.
\<close>

function ReadPhysicalRecord ::
  "(nat \<Rightarrow> 'f \<Rightarrow> (status + slice) \<times> 'f) \<Rightarrow> (u32 \<Rightarrow> slice \<Rightarrow> u32) \<Rightarrow> slice \<Rightarrow> 'f LogReader \<Rightarrow>
   nat \<times> slice \<times> 'f LogReader" where
  "ReadPhysicalRecord rd ext result r =
     (if length (lr_buffer r) < kHeaderSize then
        if \<not> lr_eof r then
          (case rd log_kBlockSize (lr_file r) of
             (Inl s, f) \<Rightarrow>
               (kEof, result, (ReportDrop (of_nat log_kBlockSize) s (r\<lparr>lr_file := f, lr_buffer := []\<rparr>))\<lparr>lr_eof := True\<rparr>)
           | (Inr buf, f) \<Rightarrow>
               ReadPhysicalRecord rd ext result
                 (r\<lparr>lr_file := f, lr_buffer := buf,
                    lr_end_of_buffer_offset := lr_end_of_buffer_offset r + of_nat (length buf),
                    lr_eof := (length buf < log_kBlockSize)\<rparr>))
        else (kEof, result, r\<lparr>lr_buffer := []\<rparr>)
      else parse_physical ext result r)"
  by pat_completeness auto
termination
  by (relation "measure (\<lambda>(rd, ext, res, r). if length (lr_buffer r) < kHeaderSize \<and> \<not> lr_eof r then 1 else 0)")
    (auto simp: log_kBlockSize_def kHeaderSize_def)

declare ReadPhysicalRecord.simps [simp del]

text \<open>
  One iteration of the loop of \<open>ReadRecord\<close>. Its variables: whether a fragmented record is
  open, the bytes collected, the offset where it started, the last fragment. \<open>Inl\<close> goes on
  with the loop; \<open>Inr\<close> returns the record, or \<open>None\<close> for \<open>return false\<close>.
\<close>

type_synonym 'f rr_state = "bool \<times> slice \<times> u64 \<times> slice \<times> 'f LogReader"

definition ReadRecord_step ::
  "(nat \<Rightarrow> 'f \<Rightarrow> (status + slice) \<times> 'f) \<Rightarrow> (u32 \<Rightarrow> slice \<Rightarrow> u32) \<Rightarrow> 'f rr_state \<Rightarrow>
   'f rr_state + slice option \<times> 'f LogReader" where
  "ReadRecord_step rd ext st =
     (let (in_frag, scratch, prosp, fragment, r) = st;
          (t, fragment, r) = ReadPhysicalRecord rd ext fragment r;
          phys = lr_end_of_buffer_offset r - of_nat (length (lr_buffer r)) - of_nat kHeaderSize -
                 of_nat (length fragment);
          skip = lr_resyncing r \<and> (t = kMiddleType \<or> t = kLastType);
          r = (if lr_resyncing r \<and> t \<noteq> kMiddleType then r\<lparr>lr_resyncing := False\<rparr> else r)
      in if skip then Inl (in_frag, scratch, prosp, fragment, r)
         else if t = kFullType then
           let r = (if in_frag \<and> scratch \<noteq> [] then ReportCorruption (of_nat (length scratch)) ''partial record without end(1)'' r else r)
           in Inr (Some fragment, r\<lparr>lr_last_record_offset := phys\<rparr>)
         else if t = kFirstType then
           let r = (if in_frag \<and> scratch \<noteq> [] then ReportCorruption (of_nat (length scratch)) ''partial record without end(2)'' r else r)
           in Inl (True, fragment, phys, fragment, r)
         else if t = kMiddleType then
           if \<not> in_frag
           then Inl (in_frag, scratch, prosp, fragment,
                  ReportCorruption (of_nat (length fragment)) ''missing start of fragmented record(1)'' r)
           else Inl (in_frag, scratch @ fragment, prosp, fragment, r)
         else if t = kLastType then
           if \<not> in_frag
           then Inl (in_frag, scratch, prosp, fragment,
                  ReportCorruption (of_nat (length fragment)) ''missing start of fragmented record(2)'' r)
           else Inr (Some (scratch @ fragment), r\<lparr>lr_last_record_offset := prosp\<rparr>)
         else if t = kEof then Inr (None, r)
         else if t = kBadRecord then
           if in_frag
           then Inl (False, [], prosp, fragment,
                  ReportCorruption (of_nat (length scratch)) ''error in middle of record'' r)
           else Inl (in_frag, scratch, prosp, fragment, r)
         else Inl (False, [], prosp, fragment,
                ReportCorruption (of_nat (length fragment + (if in_frag then length scratch else 0)))
                   ''unknown record type'' r))"

partial_function (option) ReadRecord_loop ::
  "(nat \<Rightarrow> 'f \<Rightarrow> (status + slice) \<times> 'f) \<Rightarrow> (u32 \<Rightarrow> slice \<Rightarrow> u32) \<Rightarrow> 'f rr_state \<Rightarrow>
   (slice option \<times> 'f LogReader) option" where
  "ReadRecord_loop rd ext st =
     (case ReadRecord_step rd ext st of Inl st \<Rightarrow> ReadRecord_loop rd ext st | Inr x \<Rightarrow> Some x)"

definition ReadRecord ::
  "(nat \<Rightarrow> 'f \<Rightarrow> (status + slice) \<times> 'f) \<Rightarrow> (nat \<Rightarrow> 'f \<Rightarrow> status \<times> 'f) \<Rightarrow> (u32 \<Rightarrow> slice \<Rightarrow> u32) \<Rightarrow>
   'f LogReader \<Rightarrow> (slice option \<times> 'f LogReader) option" where
  "ReadRecord rd skip ext r =
     (let (go, r) = (if lr_last_record_offset r < lr_initial_offset r then SkipToInitialBlock skip r else (True, r))
      in if go then ReadRecord_loop rd ext (False, [], 0, [], r) else Some (None, r))"

definition LastRecordOffset :: "'f LogReader \<Rightarrow> u64" where
  "LastRecordOffset r = lr_last_record_offset r"

end
