(* ===== verification/LogRoundtrip.thy ===== *)
theory LogRoundtrip
  imports LogFormat
begin

text \<open>
  The log is a sequence of frames, each a header and a fragment, padded so that no frame
  crosses a block boundary. \<open>place\<close> is that layout, \<open>fragments\<close> how a record is cut. The writer
  appends exactly this layout; the reader, on any prefix of it (a log whose end was lost),
  returns the records that are complete in the prefix and reports no corruption.
\<close>

type_synonym frame = "nat \<times> slice"

definition frame_bytes :: "(u32 \<Rightarrow> slice \<Rightarrow> u32) \<Rightarrow> frame \<Rightarrow> slice" where
  "frame_bytes ext fr = record_header ext (fst fr) (snd fr) @ snd fr"

definition pad :: "nat \<Rightarrow> slice" where
  "pad bo = (if log_kBlockSize - bo < kHeaderSize then replicate (log_kBlockSize - bo) 0 else [])"

definition next_bo :: "nat \<Rightarrow> nat" where
  "next_bo bo = (if log_kBlockSize - bo < kHeaderSize then 0 else bo)"

fun place :: "(u32 \<Rightarrow> slice \<Rightarrow> u32) \<Rightarrow> nat \<Rightarrow> frame list \<Rightarrow> slice" where
  "place ext bo [] = []"
| "place ext bo (fr # fs) =
     pad bo @ frame_bytes ext fr @ place ext (next_bo bo + kHeaderSize + length (snd fr)) fs"

fun end_bo :: "nat \<Rightarrow> frame list \<Rightarrow> nat" where
  "end_bo bo [] = bo"
| "end_bo bo (fr # fs) = end_bo (next_bo bo + kHeaderSize + length (snd fr)) fs"

definition frame_ok :: "nat \<Rightarrow> frame \<Rightarrow> bool" where
  "frame_ok bo fr \<longleftrightarrow> fst fr \<in> {1..4} \<and> next_bo bo + kHeaderSize + length (snd fr) \<le> log_kBlockSize"

lemmas block_consts = log_kBlockSize_def kHeaderSize_def

lemma length_frame_bytes: "length (frame_bytes ext fr) = kHeaderSize + length (snd fr)"
  by (simp add: frame_bytes_def record_header_def kHeaderSize_def)

lemma place_append: "place ext bo (xs @ ys) = place ext bo xs @ place ext (end_bo bo xs) ys"
  by (induction xs arbitrary: bo) simp_all

lemma end_bo_append: "end_bo bo (xs @ ys) = end_bo (end_bo bo xs) ys"
  by (induction xs arbitrary: bo) simp_all

function fragments :: "nat \<Rightarrow> bool \<Rightarrow> slice \<Rightarrow> frame list" where
  "fragments bo begin ptr =
     (let o' = next_bo bo; n = min (length ptr) (log_kBlockSize - o' - kHeaderSize); e = (length ptr = n)
      in (record_type begin e, take n ptr) # (if e then [] else fragments (o' + kHeaderSize + n) False (drop n ptr)))"
  by pat_completeness auto
termination
proof (relation "measures [\<lambda>(bo, b, p). length p, \<lambda>(bo, b, p). if bo = 32761 then 1 else 0]", goal_cases)
  case (2 bo b ptr o' n e)
  show ?case
  proof (cases "n = 0")
    case True
    then have "o' = 32761" using 2 by (auto simp: next_bo_def block_consts min_def split: if_splits)
    then have "bo = 32761" using 2(1) by (auto simp: next_bo_def block_consts split: if_splits)
    then show ?thesis using True \<open>o' = 32761\<close> by (simp add: kHeaderSize_def)
  next
    case False
    then have "0 < length ptr" using 2(2) by auto
    then show ?thesis using False by simp
  qed
qed simp

declare fragments.simps [simp del]

lemma next_bo_le: "next_bo bo + kHeaderSize \<le> log_kBlockSize"
  unfolding next_bo_def block_consts by (cases "32768 - bo < 7") auto

subsection \<open>The writer writes the layout\<close>

context reliable_file
begin

lemma Append_det: "inv f \<Longrightarrow> \<exists>f'. Append d f = (OK, f') \<and> inv f' \<and> contents f' = contents f @ d"
  using Append_succeeds [of f d] Append_ok [of f d] by (metis ok_simps(1) prod.collapse)

lemma Flush_det: "inv f \<Longrightarrow> \<exists>f'. Flush f = (OK, f') \<and> inv f' \<and> contents f' = contents f"
  using Flush_succeeds [of f] Flush_contents [of f] by (metis prod.collapse)

lemma Emit_writes:
  assumes "inv (lw_dest w)"
  shows "\<exists>w'. EmitPhysicalRecord Append Flush ext t d w = (OK, w') \<and> inv (lw_dest w') \<and>
    contents (lw_dest w') = contents (lw_dest w) @ frame_bytes ext (t, d) \<and>
    lw_block_offset w' = lw_block_offset w + kHeaderSize + length d"
proof -
  obtain f1 where f1: "Append (record_header ext t d) (lw_dest w) = (OK, f1)" "inv f1"
    "contents f1 = contents (lw_dest w) @ record_header ext t d" using Append_det [OF assms] by blast
  obtain f2 where f2: "Append d f1 = (OK, f2)" "inv f2" "contents f2 = contents f1 @ d" using Append_det [OF f1(2)] by blast
  obtain f3 where f3: "Flush f2 = (OK, f3)" "inv f3" "contents f3 = contents f2" using Flush_det [OF f2(2)] by blast
  show ?thesis using f1 f2 f3 by (simp add: EmitPhysicalRecord_def frame_bytes_def)
qed

lemma switch_writes:
  assumes "inv (lw_dest w)"
  shows "inv (lw_dest (switch_block Append w))"
    "contents (lw_dest (switch_block Append w)) = contents (lw_dest w) @ pad (lw_block_offset w)"
    "lw_block_offset (switch_block Append w) = next_bo (lw_block_offset w)"
proof -
  obtain f where f: "Append (replicate (log_kBlockSize - lw_block_offset w) 0) (lw_dest w) = (OK, f)" "inv f"
    "contents f = contents (lw_dest w) @ replicate (log_kBlockSize - lw_block_offset w) 0"
    using Append_det [OF assms] by blast
  show "inv (lw_dest (switch_block Append w))"
    "contents (lw_dest (switch_block Append w)) = contents (lw_dest w) @ pad (lw_block_offset w)"
    using f assms by (auto simp: switch_block_def Let_def pad_def)
  show "lw_block_offset (switch_block Append w) = next_bo (lw_block_offset w)"
    by (simp add: switch_offset next_bo_def)
qed

lemma AddRecord_loop_writes:
  assumes "inv (lw_dest w)"
  shows "\<exists>w'. AddRecord_loop Append Flush ext b ptr w = (OK, w') \<and> inv (lw_dest w') \<and>
    contents (lw_dest w') = contents (lw_dest w) @ place ext (lw_block_offset w) (fragments (lw_block_offset w) b ptr) \<and>
    lw_block_offset w' = end_bo (lw_block_offset w) (fragments (lw_block_offset w) b ptr)"
  using assms
proof (induction "lw_block_offset w" b ptr arbitrary: w rule: fragments.induct)
  case (1 b ptr w)
  let ?o = "next_bo (lw_block_offset w)"
  define n where "n = min (length ptr) (log_kBlockSize - ?o - kHeaderSize)"
  let ?e = "length ptr = n"
  note sw = switch_writes [OF 1(2)]
  have len: "length (take n ptr) = n" by (simp add: n_def)
  obtain w1 where E: "EmitPhysicalRecord Append Flush ext (record_type b ?e) (take n ptr) (switch_block Append w) = (OK, w1)"
    "inv (lw_dest w1)"
    "contents (lw_dest w1) = contents (lw_dest w) @ pad (lw_block_offset w) @ frame_bytes ext (record_type b ?e, take n ptr)"
    "lw_block_offset w1 = ?o + kHeaderSize + n"
    using Emit_writes [OF sw(1), of ext "record_type b ?e" "take n ptr"] sw unfolding len by auto
  have L: "AddRecord_loop Append Flush ext b ptr w =
     (if ?e then (OK, w1) else AddRecord_loop Append Flush ext False (drop n ptr) w1)"
    by (subst AddRecord_loop.simps) (simp only: Let_def sw(3) n_def [symmetric] E(1) fst_conv snd_conv ok_simps simp_thms,
      cases ?e, simp_all only: simp_thms if_True if_False)
  have F: "fragments (lw_block_offset w) b ptr =
      (record_type b ?e, take n ptr) # (if ?e then [] else fragments (lw_block_offset w1) False (drop n ptr))"
    by (subst fragments.simps) (simp only: Let_def E(4) n_def [symmetric])
  show ?case
  proof (cases ?e)
    case True
    then show ?thesis unfolding L F using E len by simp
  next
    case False
    have "\<exists>w'. AddRecord_loop Append Flush ext False (drop n ptr) w1 = (OK, w') \<and> inv (lw_dest w') \<and>
      contents (lw_dest w') = contents (lw_dest w1) @ place ext (lw_block_offset w1) (fragments (lw_block_offset w1) False (drop n ptr)) \<and>
      lw_block_offset w' = end_bo (lw_block_offset w1) (fragments (lw_block_offset w1) False (drop n ptr))"
      by (rule 1(1) [OF refl n_def refl False E(4) [symmetric] E(2)])
    then show ?thesis unfolding L F using False E(3,4)
      by (simp only: if_False place.simps end_bo.simps fst_conv snd_conv len append_assoc)
  qed
qed

end

subsection \<open>The reader on a prefix of the layout\<close>

text \<open>What the reader relies on from \<open>crc32c::Extend\<close>: it extends a checksum by more bytes.\<close>

definition running_crc :: "(u32 \<Rightarrow> slice \<Rightarrow> u32) \<Rightarrow> bool" where
  "running_crc ext \<longleftrightarrow> (\<forall>c a b. ext (ext c a) b = ext c (a @ b))"

lemma header_fields:
  assumes "frame_ok bo fr"
    and h_def: "h = frame_bytes ext fr @ B"
  shows "unat (h ! 4) + 256 * unat (h ! 5) = length (snd fr)" "char_to_uint (h ! 6) = fst fr"
    "drop 6 h = of_nat (fst fr) # snd fr @ B" "DecodeFixed32 h = Mask (ext (type_crc ext (fst fr)) (snd fr))"
    "drop kHeaderSize h = snd fr @ B"
proof -
  have t: "fst fr \<in> {1..4}" and l: "length (snd fr) < 65536" using assms(1) by (auto simp: frame_ok_def block_consts)
  obtain c0 c1 c2 c3 where c: "EncodeFixed32 (Mask (ext (type_crc ext (fst fr)) (snd fr))) = [c0, c1, c2, c3]"
    by (simp add: EncodeFixed32_bytes)
  have h: "h = [c0, c1, c2, c3] @ [of_nat (length (snd fr) mod 256), of_nat (length (snd fr) div 256), of_nat (fst fr)] @ snd fr @ B"
    unfolding h_def frame_bytes_def record_header_def c by simp
  have u: "unat (of_nat (length (snd fr) mod 256) :: byte) = length (snd fr) mod 256"
    "unat (of_nat (length (snd fr) div 256) :: byte) = length (snd fr) div 256"
    "unat (of_nat (fst fr) :: byte) = fst fr"
    using l t by (simp_all add: unat_of_nat_small)
  show "unat (h ! 4) + 256 * unat (h ! 5) = length (snd fr)"
    using u(1,2) by (simp add: h)
  show "char_to_uint (h ! 6) = fst fr" using u(3) t by (simp add: h char_to_uint_def)
  show "drop 6 h = of_nat (fst fr) # snd fr @ B" "drop kHeaderSize h = snd fr @ B"
    by (simp_all add: h kHeaderSize_def)
  show "DecodeFixed32 h = Mask (ext (type_crc ext (fst fr)) (snd fr))"
    by (simp add: h_def frame_bytes_def record_header_def)
qed

lemma parse_complete:
  assumes "frame_ok bo fr" "lr_buffer r = frame_bytes ext fr @ B" "running_crc ext" "lr_initial_offset r = 0"
  shows "parse_physical ext res r = (fst fr, snd fr, r\<lparr>lr_buffer := B\<rparr>)"
proof -
  note h = header_fields [OF assms(1) refl, of ext B]
  have t: "fst fr \<noteq> kZeroType" using assms(1) by (auto simp: frame_ok_def kZeroType_def)
  have "ext (type_crc ext (fst fr)) (snd fr) = ext 0 (of_nat (fst fr) # snd fr)"
    using assms(3) by (simp add: type_crc_def running_crc_def)
  moreover have "drop (kHeaderSize + length (snd fr)) (frame_bytes ext fr @ B) = B"
    by (simp add: length_frame_bytes)
  ultimately show ?thesis
    using t assms(2,4) h by (simp add: parse_physical_def Let_def length_frame_bytes)
qed

lemma parse_truncated:
  assumes "frame_ok bo fr" "lr_buffer r = take m (frame_bytes ext fr)" "kHeaderSize \<le> m"
    "m < length (frame_bytes ext fr)" "lr_eof r"
  shows "parse_physical ext res r = (kEof, res, r\<lparr>lr_buffer := []\<rparr>)"
proof -
  note h = header_fields [OF assms(1) refl, of ext "[]"]
  have "lr_buffer r ! i = frame_bytes ext fr ! i" if "i < 7" for i
    using that assms(2,3) by (simp add: kHeaderSize_def)
  then have "unat (lr_buffer r ! 4) + 256 * unat (lr_buffer r ! 5) = length (snd fr)" using h(1) by simp
  moreover have "length (lr_buffer r) = m" using assms(2,4) by simp
  ultimately show ?thesis using assms(4,5) by (simp add: parse_physical_def Let_def length_frame_bytes)
qed

text \<open>
  The state of a reader before the remaining bytes \<open>S\<close>, at offset \<open>bo\<close> of a block: the
  buffer holds the bytes up to the end of the block, or up to the end of the file.
\<close>

definition reader_at :: "('f \<Rightarrow> bool) \<Rightarrow> ('f \<Rightarrow> slice) \<Rightarrow> nat \<Rightarrow> slice \<Rightarrow> 'f LogReader \<Rightarrow> bool" where
  "reader_at finv rest bo S r \<longleftrightarrow>
     finv (lr_file r) \<and> lr_buffer r @ rest (lr_file r) = S \<and> bo \<le> log_kBlockSize \<and>
     (if lr_eof r then rest (lr_file r) = [] \<and> length (lr_buffer r) \<le> log_kBlockSize - bo
      else length (lr_buffer r) = log_kBlockSize - bo) \<and>
     lr_initial_offset r = 0 \<and> \<not> lr_resyncing r"

context readable_file
begin

abbreviation at_pos where "at_pos \<equiv> reader_at inv rest"

text \<open>A refill at the end of a block.\<close>

lemma refill:
  assumes "at_pos bo S r" "\<not> lr_eof r" "length (lr_buffer r) < kHeaderSize"
  shows "\<exists>r'. ReadPhysicalRecord Read ext res r = ReadPhysicalRecord Read ext res r' \<and>
    at_pos 0 (drop (log_kBlockSize - bo) S) r' \<and> lr_reports r' = lr_reports r \<and>
    lr_eof r' = (length (drop (log_kBlockSize - bo) S) < log_kBlockSize) \<and> lr_buffer r' = take log_kBlockSize (drop (log_kBlockSize - bo) S)"
proof -
  have i: "inv (lr_file r)" using assms(1) by (simp add: reader_at_def)
  obtain buf f where R: "Read log_kBlockSize (lr_file r) = (Inr buf, f)" using Read_succeeds [OF i] by blast
  note ok = Read_ok [OF i R]
  define T where "T = drop (log_kBlockSize - bo) S"
  have S: "rest (lr_file r) = T"
    using assms(1,2) by (auto simp: reader_at_def T_def)
  let ?r = "r\<lparr>lr_file := f, lr_buffer := buf,
    lr_end_of_buffer_offset := lr_end_of_buffer_offset r + of_nat (length buf), lr_eof := (length buf < log_kBlockSize)\<rparr>"
  have "ReadPhysicalRecord Read ext res r = ReadPhysicalRecord Read ext res ?r"
    using assms(2,3) by (subst ReadPhysicalRecord.simps) (simp add: R)
  moreover have "at_pos 0 T ?r"
    using ok assms(1) unfolding S by (auto simp: reader_at_def)
  ultimately show ?thesis using ok unfolding T_def [symmetric] S by (intro exI [of _ ?r]) (auto simp: min_def)
qed

lemma physical_complete:
  assumes R: "at_pos bo (pad bo @ frame_bytes ext fr @ S') r" and fr: "frame_ok bo fr" and crc: "running_crc ext"
  shows "\<exists>r'. ReadPhysicalRecord Read ext res r = (fst fr, snd fr, r') \<and>
    at_pos (next_bo bo + kHeaderSize + length (snd fr)) S' r' \<and> lr_reports r' = lr_reports r"
proof -
  have fits: "next_bo bo + kHeaderSize + length (snd fr) \<le> log_kBlockSize" using fr by (simp add: frame_ok_def)
  have parse: "\<exists>r'. ReadPhysicalRecord Read ext res r1 = (fst fr, snd fr, r') \<and>
      at_pos (next_bo bo + kHeaderSize + length (snd fr)) S' r' \<and> lr_reports r' = lr_reports r1"
    if R1: "at_pos (next_bo bo) (frame_bytes ext fr @ S') r1" and nb: "kHeaderSize \<le> length (lr_buffer r1)" for r1
  proof -
    let ?F = "frame_bytes ext fr"
    have le: "length ?F \<le> length (lr_buffer r1)"
    proof (cases "lr_eof r1")
      case True
      then have "lr_buffer r1 = ?F @ S'" using R1 by (auto simp: reader_at_def)
      then show ?thesis by simp
    next
      case False
      then show ?thesis using R1 fits by (simp add: reader_at_def length_frame_bytes)
    qed
    then obtain B where B: "lr_buffer r1 = ?F @ B" "B @ rest (lr_file r1) = S'"
      using R1 by (auto simp: reader_at_def append_eq_append_conv_if dest: sym) (metis append_take_drop_id append_eq_append_conv_if)
    have "ReadPhysicalRecord Read ext res r1 = (fst fr, snd fr, r1\<lparr>lr_buffer := B\<rparr>)"
      using nb parse_complete [OF fr B(1) crc] R1 by (subst ReadPhysicalRecord.simps) (simp add: reader_at_def)
    moreover have "at_pos (next_bo bo + kHeaderSize + length (snd fr)) S' (r1\<lparr>lr_buffer := B\<rparr>)"
      using R1 B fits by (auto simp: reader_at_def length_frame_bytes)
    ultimately show ?thesis by (intro exI [of _ "r1\<lparr>lr_buffer := B\<rparr>"]) simp
  qed
  show ?thesis
  proof (cases "length (lr_buffer r) < kHeaderSize")
    case True
    have ne: "\<not> lr_eof r"
    proof
      assume "lr_eof r"
      then have "lr_buffer r = pad bo @ frame_bytes ext fr @ S'" using R by (auto simp: reader_at_def)
      then have "length (lr_buffer r) \<ge> kHeaderSize" by (simp add: length_frame_bytes)
      then show False using True by simp
    qed
    then have lb: "log_kBlockSize - bo < kHeaderSize" using R True by (simp add: reader_at_def)
    then have pd: "pad bo = replicate (log_kBlockSize - bo) 0" "next_bo bo = 0" by (simp_all add: pad_def next_bo_def)
    obtain r1 where r1: "ReadPhysicalRecord Read ext res r = ReadPhysicalRecord Read ext res r1"
      "at_pos 0 (frame_bytes ext fr @ S') r1" "lr_reports r1 = lr_reports r"
      "lr_buffer r1 = take log_kBlockSize (frame_bytes ext fr @ S')"
      using refill [OF R ne True, of ext res] pd by auto
    have "kHeaderSize \<le> length (lr_buffer r1)"
      by (simp add: r1(4) length_frame_bytes block_consts)
    from parse [OF _ this] r1 pd(2) show ?thesis by auto
  next
    case False
    have "length (lr_buffer r) \<le> log_kBlockSize - bo" using R by (auto simp: reader_at_def split: if_splits)
    then have "pad bo = []" "next_bo bo = bo" using False by (auto simp: pad_def next_bo_def)
    then show ?thesis using parse [of r] R False by simp
  qed
qed

text \<open>A frame that is not complete, or the end of the log, is the end of the file.\<close>

lemma physical_truncated:
  assumes R: "at_pos bo (take m (pad bo @ frame_bytes ext fr)) r" and fr: "frame_ok bo fr"
    and m: "m < length (pad bo @ frame_bytes ext fr)"
  shows "\<exists>r'. ReadPhysicalRecord Read ext res r = (kEof, res, r') \<and> lr_reports r' = lr_reports r \<and> lr_resyncing r' = lr_resyncing r"
proof -
  let ?F = "frame_bytes ext fr"
  have fits: "next_bo bo + kHeaderSize + length (snd fr) \<le> log_kBlockSize" using fr by (simp add: frame_ok_def)
  have eof: "\<exists>r'. ReadPhysicalRecord Read ext res r1 = (kEof, res, r') \<and> lr_reports r' = lr_reports r1 \<and> lr_resyncing r' = lr_resyncing r1"
    if e1: "lr_eof r1" and e2: "length (lr_buffer r1) < kHeaderSize \<or> (\<exists>k. lr_buffer r1 = take k ?F \<and> k < length ?F)" for r1
  proof (cases "length (lr_buffer r1) < kHeaderSize")
    case True
    then show ?thesis using e1 by (subst ReadPhysicalRecord.simps) simp
  next
    case False
    then obtain k where k: "lr_buffer r1 = take k ?F" "k < length ?F" "kHeaderSize \<le> k" using e2 by auto
    have "ReadPhysicalRecord Read ext res r1 = (kEof, res, r1\<lparr>lr_buffer := []\<rparr>)"
      using False parse_truncated [OF fr k(1,3,2) e1] by (subst ReadPhysicalRecord.simps) simp
    then show ?thesis by simp
  qed
  show ?thesis
  proof (cases "lr_eof r")
    case True
    then have b: "lr_buffer r = take m (pad bo @ ?F)" "length (lr_buffer r) \<le> log_kBlockSize - bo"
      using R by (auto simp: reader_at_def)
    have "length (lr_buffer r) < kHeaderSize \<or> (\<exists>k. lr_buffer r = take k ?F \<and> k < length ?F)"
    proof (cases "log_kBlockSize - bo < kHeaderSize")
      case False
      then show ?thesis using b(1) m by (auto simp: pad_def)
    qed (use b(2) in auto)
    then show ?thesis using eof [OF True] by blast
  next
    case ne: False
    have lb: "length (lr_buffer r) = log_kBlockSize - bo" using R ne by (simp add: reader_at_def)
    have "log_kBlockSize - bo \<le> m" using R ne m by (auto simp: reader_at_def dest: arg_cong [of _ _ length])
    then have short: "log_kBlockSize - bo < kHeaderSize"
      using m fits by (auto simp: pad_def next_bo_def length_frame_bytes split: if_splits)
    have drp: "drop (log_kBlockSize - bo) (take m (pad bo @ ?F)) = take (m - (log_kBlockSize - bo)) ?F"
      unfolding drop_take using short by (simp add: pad_def)
    have "length (lr_buffer r) < kHeaderSize" using lb short by simp
    from refill [OF R ne this, of ext res, unfolded drp]
    obtain r1 where r1: "ReadPhysicalRecord Read ext res r = ReadPhysicalRecord Read ext res r1"
      "at_pos 0 (take (m - (log_kBlockSize - bo)) ?F) r1" "lr_reports r1 = lr_reports r"
      "lr_eof r1 = (length (take (m - (log_kBlockSize - bo)) ?F) < log_kBlockSize)"
      "lr_buffer r1 = take log_kBlockSize (take (m - (log_kBlockSize - bo)) ?F)"
      by blast
    have k: "m - (log_kBlockSize - bo) < length ?F" using m short \<open>log_kBlockSize - bo \<le> m\<close> by (auto simp: pad_def)
    have "length ?F \<le> log_kBlockSize" using fits by (simp add: length_frame_bytes)
    then have "lr_eof r1" "lr_buffer r1 = take (m - (log_kBlockSize - bo)) ?F"
      using k r1(4,5) by (auto simp: min_def)
    then have "\<exists>r'. ReadPhysicalRecord Read ext res r1 = (kEof, res, r') \<and> lr_reports r' = lr_reports r1 \<and> lr_resyncing r' = lr_resyncing r1"
      using k by (intro eof) auto
    then show ?thesis using r1(1-3) R by (simp add: reader_at_def)
  qed
qed


lemma fragments_head:
  "\<exists>n e. fragments bo b ptr =
     (record_type b e, take n ptr) # (if e then [] else fragments (next_bo bo + kHeaderSize + n) False (drop n ptr)) \<and>
     length (take n ptr) = n \<and> (e \<longrightarrow> n = length ptr) \<and> frame_ok bo (record_type b e, take n ptr) \<and>
     n = min (length ptr) (log_kBlockSize - next_bo bo - kHeaderSize) \<and> e = (length ptr = n)"
proof -
  let ?n = "min (length ptr) (log_kBlockSize - next_bo bo - kHeaderSize)"
  have "frame_ok bo (record_type b (length ptr = ?n), take ?n ptr)"
    using next_bo_le [of bo] by (auto simp: frame_ok_def record_type_def kFullType_def kFirstType_def kLastType_def kMiddleType_def)
  then show ?thesis
    by (intro exI [of _ ?n] exI [of _ "length ptr = ?n"]) (subst fragments.simps, auto simp: Let_def min_def)
qed

lemmas type_consts = kFullType_def kFirstType_def kMiddleType_def kLastType_def kEof_def kBadRecord_def

lemma step_frame:
  assumes "ReadPhysicalRecord Read ext frag r = (record_type b e, d, r')" "\<not> lr_resyncing r'" "b \<longrightarrow> scratch = []"
  shows "\<exists>prosp' r''. ReadRecord_step Read ext (\<not> b, scratch, prosp, frag, r) =
      (if e then Inr (Some (scratch @ d), r'') else Inl (True, scratch @ d, prosp', d, r'')) \<and>
      (\<exists>off. r'' = r'\<lparr>lr_last_record_offset := off\<rparr>)"
proof -
  have "\<exists>off. r' = r'\<lparr>lr_last_record_offset := off\<rparr>" by (intro exI [of _ "lr_last_record_offset r'"]) simp
  then show ?thesis
    using assms by (cases b; cases e) (auto simp: ReadRecord_step_def Let_def record_type_def type_consts)
qed

lemma reader_at_offset [simp]: "at_pos bo S (r\<lparr>lr_last_record_offset := off\<rparr>) = at_pos bo S r"
  by (simp add: reader_at_def)

lemma record_complete:
  assumes "at_pos bo (place ext bo (fragments bo b ptr) @ S') r" "running_crc ext" "b \<longrightarrow> scratch = []"
  shows "\<exists>r'. ReadRecord_loop Read ext (\<not> b, scratch, prosp, frag, r) = Some (Some (scratch @ ptr), r') \<and>
    at_pos (end_bo bo (fragments bo b ptr)) S' r' \<and> lr_reports r' = lr_reports r"
  using assms
proof (induction bo b ptr arbitrary: r scratch prosp frag rule: fragments.induct)
  case (1 bo b ptr)
  obtain n e where F: "fragments bo b ptr =
      (record_type b e, take n ptr) # (if e then [] else fragments (next_bo bo + kHeaderSize + n) False (drop n ptr))"
    and len: "length (take n ptr) = n" and en: "e \<longrightarrow> n = length ptr" and fo: "frame_ok bo (record_type b e, take n ptr)"
    and n: "n = min (length ptr) (log_kBlockSize - next_bo bo - kHeaderSize)" "e = (length ptr = n)"
    using fragments_head [of bo b ptr] by blast
  let ?fs = "if e then [] else fragments (next_bo bo + kHeaderSize + n) False (drop n ptr)"
  let ?bo = "next_bo bo + kHeaderSize + n"
  have at: "at_pos bo (pad bo @ frame_bytes ext (record_type b e, take n ptr) @ place ext ?bo ?fs @ S') r"
    using 1(2) unfolding F place.simps snd_conv len by simp
  obtain r1 where P: "ReadPhysicalRecord Read ext frag r = (record_type b e, take n ptr, r1)"
    "at_pos ?bo (place ext ?bo ?fs @ S') r1" "lr_reports r1 = lr_reports r"
    using physical_complete [OF at fo 1(3), of frag] unfolding fst_conv snd_conv len by blast
  have "\<not> lr_resyncing r1" using P(2) by (simp add: reader_at_def)
  from step_frame [OF P(1) this 1(4)] obtain prosp' r2 off where
    st: "ReadRecord_step Read ext (\<not> b, scratch, prosp, frag, r) =
      (if e then Inr (Some (scratch @ take n ptr), r2) else Inl (True, scratch @ take n ptr, prosp', take n ptr, r2))"
    and r2: "r2 = r1\<lparr>lr_last_record_offset := off\<rparr>" by blast
  show ?case
  proof (cases e)
    case True
    then show ?thesis using st r2 P en unfolding F by (subst ReadRecord_loop.simps) (simp add: add.assoc)
  next
    case False
    have "at_pos ?bo (place ext ?bo (fragments ?bo False (drop n ptr)) @ S') r2" using P(2) r2 False by simp
    from 1(1) [OF refl n False this 1(3), of "scratch @ take n ptr" prosp' "take n ptr"]
    obtain r3 where "ReadRecord_loop Read ext (True, scratch @ take n ptr, prosp', take n ptr, r2) =
        Some (Some (scratch @ ptr), r3)" "at_pos (end_bo ?bo (fragments ?bo False (drop n ptr))) S' r3"
      "lr_reports r3 = lr_reports r2"
      by auto
    then show ?thesis using st r2 P(3) False unfolding F
      by (subst ReadRecord_loop.simps) (simp only: if_False sum.case end_bo.simps snd_conv len, simp)
  qed
qed

lemma record_truncated:
  assumes "at_pos bo (take m (place ext bo (fragments bo b ptr))) r" "running_crc ext" "b \<longrightarrow> scratch = []"
    "m < length (place ext bo (fragments bo b ptr))"
  shows "\<exists>r'. ReadRecord_loop Read ext (\<not> b, scratch, prosp, frag, r) = Some (None, r') \<and> lr_reports r' = lr_reports r"
  using assms
proof (induction bo b ptr arbitrary: m r scratch prosp frag rule: fragments.induct)
  case (1 bo b ptr)
  obtain n e where F: "fragments bo b ptr =
      (record_type b e, take n ptr) # (if e then [] else fragments (next_bo bo + kHeaderSize + n) False (drop n ptr))"
    and len: "length (take n ptr) = n" and en: "e \<longrightarrow> n = length ptr" and fo: "frame_ok bo (record_type b e, take n ptr)"
    and n: "n = min (length ptr) (log_kBlockSize - next_bo bo - kHeaderSize)" "e = (length ptr = n)"
    using fragments_head [of bo b ptr] by blast
  let ?fs = "if e then [] else fragments (next_bo bo + kHeaderSize + n) False (drop n ptr)"
  let ?bo = "next_bo bo + kHeaderSize + n"
  let ?PF = "pad bo @ frame_bytes ext (record_type b e, take n ptr)"
  have pl: "place ext bo (fragments bo b ptr) = ?PF @ place ext ?bo ?fs"
    unfolding F place.simps snd_conv len by simp
  show ?case
  proof (cases "m < length ?PF")
    case True
    then have "at_pos bo (take m ?PF) r" using 1(2) unfolding pl by simp
    from physical_truncated [OF this fo True, of frag] obtain r1 where
      "ReadPhysicalRecord Read ext frag r = (kEof, frag, r1)" "lr_reports r1 = lr_reports r" "lr_resyncing r1 = lr_resyncing r"
      by blast
    moreover have "\<not> lr_resyncing r" using 1(2) by (simp add: reader_at_def)
    ultimately show ?thesis by (subst ReadRecord_loop.simps) (simp add: ReadRecord_step_def type_consts)
  next
    case False
    define k where "k = m - length ?PF"
    have ne: "\<not> e" using 1(5) False unfolding pl by (auto split: if_splits)
    have "take m (place ext bo (fragments bo b ptr)) = ?PF @ take k (place ext ?bo (fragments ?bo False (drop n ptr)))"
      using False ne unfolding pl k_def by simp
    then have at: "at_pos bo (pad bo @ frame_bytes ext (record_type b e, take n ptr) @
        take k (place ext ?bo (fragments ?bo False (drop n ptr)))) r" using 1(2) by simp
    obtain r1 where P: "ReadPhysicalRecord Read ext frag r = (record_type b e, take n ptr, r1)"
      "at_pos ?bo (take k (place ext ?bo (fragments ?bo False (drop n ptr)))) r1" "lr_reports r1 = lr_reports r"
      using physical_complete [OF at fo 1(3), of frag] unfolding fst_conv snd_conv len by blast
    have "\<not> lr_resyncing r1" using P(2) by (simp add: reader_at_def)
    from step_frame [where prosp = prosp, OF P(1) this 1(4), unfolded if_not_P [OF ne]] obtain prosp' r2 off where
      st: "ReadRecord_step Read ext (\<not> b, scratch, prosp, frag, r) =
        Inl (True, scratch @ take n ptr, prosp', take n ptr, r2)"
      and r2: "r2 = r1\<lparr>lr_last_record_offset := off\<rparr>" by blast
    have "k < length (place ext ?bo (fragments ?bo False (drop n ptr)))"
      using 1(5) False ne unfolding pl k_def by simp
    then obtain r3 where "ReadRecord_loop Read ext (True, scratch @ take n ptr, prosp', take n ptr, r2) = Some (None, r3)"
      "lr_reports r3 = lr_reports r2"
      using 1(1) [OF refl n ne _ 1(3), of k r2 "scratch @ take n ptr" prosp' "take n ptr"] P(2) r2 by auto
    then show ?thesis using st r2 P(3) by (subst ReadRecord_loop.simps) simp
  qed
qed

end

subsection \<open>Whole logs\<close>

fun AddRecords ::
  "(slice \<Rightarrow> 'f \<Rightarrow> status \<times> 'f) \<Rightarrow> ('f \<Rightarrow> status \<times> 'f) \<Rightarrow> (u32 \<Rightarrow> slice \<Rightarrow> u32) \<Rightarrow>
   slice list \<Rightarrow> 'f LogWriter \<Rightarrow> status \<times> 'f LogWriter" where
  "AddRecords app fl ext [] w = (OK, w)"
| "AddRecords app fl ext (d # ds) w =
     (let (s, w) = AddRecord app fl ext d w in if ok s then AddRecords app fl ext ds w else (s, w))"

partial_function (option) ReadRecords ::
  "(nat \<Rightarrow> 'f \<Rightarrow> (status + slice) \<times> 'f) \<Rightarrow> (nat \<Rightarrow> 'f \<Rightarrow> status \<times> 'f) \<Rightarrow> (u32 \<Rightarrow> slice \<Rightarrow> u32) \<Rightarrow>
   'f LogReader \<Rightarrow> (slice list \<times> 'f LogReader) option" where
  "ReadRecords rd skip ext r =
     Option.bind (ReadRecord rd skip ext r) (\<lambda>x. case x of
         (None, r) \<Rightarrow> Some ([], r)
       | (Some d, r) \<Rightarrow> Option.bind (ReadRecords rd skip ext r) (\<lambda>y. Some (d # fst y, snd y)))"

fun log_frames :: "nat \<Rightarrow> slice list \<Rightarrow> frame list" where
  "log_frames bo [] = []"
| "log_frames bo (d # ds) = fragments bo True d @ log_frames (end_bo bo (fragments bo True d)) ds"


context reliable_file
begin

lemma AddRecords_writes:
  "inv (lw_dest w) \<Longrightarrow> \<exists>w'. AddRecords Append Flush ext ds w = (OK, w') \<and> inv (lw_dest w') \<and>
    contents (lw_dest w') = contents (lw_dest w) @ place ext (lw_block_offset w) (log_frames (lw_block_offset w) ds)"
proof (induction ds arbitrary: w)
  case (Cons d ds)
  from AddRecord_loop_writes [OF Cons.prems, of ext True d] obtain w1 where
    w1: "AddRecord Append Flush ext d w = (OK, w1)" "inv (lw_dest w1)"
    "contents (lw_dest w1) = contents (lw_dest w) @ place ext (lw_block_offset w) (fragments (lw_block_offset w) True d)"
    "lw_block_offset w1 = end_bo (lw_block_offset w) (fragments (lw_block_offset w) True d)"
    unfolding AddRecord_def by blast
  from Cons.IH [OF w1(2)] w1 show ?case by (auto simp: place_append)
qed simp

end

text \<open>Reading returns these records one after the other, then the end, and reports nothing.\<close>

fun reads :: "('f LogReader \<Rightarrow> (slice option \<times> 'f LogReader) option) \<Rightarrow> slice list \<Rightarrow> 'f LogReader \<Rightarrow> bool" where
  "reads rr [] r \<longleftrightarrow> (\<exists>r'. rr r = Some (None, r') \<and> lr_reports r' = lr_reports r)"
| "reads rr (d # ds) r \<longleftrightarrow> (\<exists>r'. rr r = Some (Some d, r') \<and> lr_reports r' = lr_reports r \<and> reads rr ds r')"

lemma reads_ReadRecords:
  "reads (ReadRecord rd skip ext) ds r \<Longrightarrow> \<exists>r'. ReadRecords rd skip ext r = Some (ds, r') \<and> lr_reports r' = lr_reports r"
  by (induction ds arbitrary: r) (subst ReadRecords.simps, fastforce)+

lemma log_frames_append:
  "log_frames bo (xs @ ys) = log_frames bo xs @ log_frames (end_bo bo (log_frames bo xs)) ys"
  by (induction xs arbitrary: bo) (simp_all add: end_bo_append)

lemma place_nonempty: "0 < length (place ext bo (fragments bo b d))"
  by (subst fragments.simps) (simp add: Let_def length_frame_bytes kHeaderSize_def)

context readable_file
begin

lemma ReadRecord_at: "at_pos bo S r \<Longrightarrow> ReadRecord Read Skip ext r = ReadRecord_loop Read ext (False, [], 0, [], r)"
  by (simp add: ReadRecord_def reader_at_def)

lemma reads_prefix:
  assumes "at_pos bo (take m (place ext bo (log_frames bo ds))) r" "running_crc ext"
  shows "\<exists>k. reads (ReadRecord Read Skip ext) (take k ds) r \<and>
    k \<le> length ds \<and> (\<forall>j\<le>length ds. length (place ext bo (log_frames bo (take j ds))) \<le> m \<longleftrightarrow> j \<le> k)"
  using assms(1)
proof (induction ds arbitrary: bo m r)
  case Nil
  then have "at_pos bo (take 0 (place ext bo (fragments bo True []))) r" by simp
  from record_truncated [OF this assms(2) _ place_nonempty, of "[]" 0 "[]"]
  show ?case using ReadRecord_at [OF Nil] by auto
next
  case (Cons d ds)
  let ?fs = "fragments bo True d" let ?bo = "end_bo bo ?fs"
  let ?P = "place ext bo ?fs"
  show ?case
  proof (cases "length ?P \<le> m")
    case True
    have "at_pos bo (?P @ take (m - length ?P) (place ext ?bo (log_frames ?bo ds))) r"
      using Cons.prems True by (simp add: place_append)
    from record_complete [OF this assms(2), of "[]" 0 "[]"] obtain r1 where
      R: "ReadRecord Read Skip ext r = Some (Some d, r1)"
      "at_pos ?bo (take (m - length ?P) (place ext ?bo (log_frames ?bo ds))) r1" "lr_reports r1 = lr_reports r"
      using ReadRecord_at [OF Cons.prems] by auto
    from Cons.IH [OF R(2)] obtain k where
      K: "reads (ReadRecord Read Skip ext) (take k ds) r1" "k \<le> length ds"
      "\<forall>j\<le>length ds. length (place ext ?bo (log_frames ?bo (take j ds))) \<le> m - length ?P \<longleftrightarrow> j \<le> k" by blast
    have "length (place ext bo (log_frames bo (take j (d # ds)))) \<le> m \<longleftrightarrow> j \<le> Suc k" if "j \<le> length (d # ds)" for j
      using that K(3) True by (cases j) (auto simp: place_append)
    then show ?thesis using R K(1,2) by (intro exI [of _ "Suc k"]) simp
  next
    case False
    have "at_pos bo (take m ?P) r" using Cons.prems False by (simp add: place_append)
    from record_truncated [OF this assms(2), of "[]" 0 "[]"] False
    have "reads (ReadRecord Read Skip ext) [] r"
      using ReadRecord_at [OF Cons.prems] by auto
    moreover have "length (place ext bo (log_frames bo (take j (d # ds)))) \<le> m \<longleftrightarrow> j \<le> 0" if "j \<le> length (d # ds)" for j
      using False by (cases j) (auto simp: place_append)
    ultimately show ?thesis by (intro exI [of _ 0]) simp
  qed
qed

lemma new_reader_at:
  "inv f \<Longrightarrow> at_pos log_kBlockSize (rest f) (new_LogReader f rep chk 0)"
  by (simp add: reader_at_def new_LogReader_def)

end

lemma log_start:
  "place ext log_kBlockSize (log_frames log_kBlockSize ds) = place ext 0 (log_frames 0 ds)"
proof -
  have nb: "next_bo log_kBlockSize = 0" "next_bo 0 = 0" "pad log_kBlockSize = []" "pad 0 = []"
    by (simp_all add: next_bo_def pad_def block_consts)
  then have fr: "fragments log_kBlockSize True d = fragments 0 True d" for d
    by (subst (1 2) fragments.simps) simp
  show ?thesis
  proof (cases ds)
    case (Cons d ds')
    obtain x xs where "fragments 0 True d = x # xs" by (subst (asm) fragments.simps) (auto simp: Let_def)
    then show ?thesis using Cons fr nb by simp
  qed simp
qed

text \<open>
  C26. Writing records to a log on a file that does not fail always succeeds. If the file later
  holds only the first \<open>m\<close> bytes of the log, because the writer died or the end was lost,
  the reader returns, with or without checksums, exactly the records that are complete in
  these bytes, in order, and reports no corruption.
\<close>

theorem Log_recovers_prefix:
  assumes "reliable_file app fl finv contents" "readable_file rd skip rinv rest" "running_crc ext"
    and "finv f" "contents f = []" "rinv q"
    and "rest q = take m (contents (lw_dest (snd (AddRecords app fl ext ds (new_LogWriter f 0)))))"
  shows "fst (AddRecords app fl ext ds (new_LogWriter f 0)) = OK \<and>
    (\<exists>k r'. ReadRecords rd skip ext (new_LogReader q reporter checksum 0) = Some (take k ds, r') \<and>
       lr_reports r' = [] \<and> k \<le> length ds \<and>
       (\<forall>j\<le>length ds. length (contents (lw_dest (snd (AddRecords app fl ext (take j ds) (new_LogWriter f 0))))) \<le> m \<longleftrightarrow> j \<le> k))"
proof -
  let ?w = "new_LogWriter f 0"
  have W: "\<exists>w'. AddRecords app fl ext xs ?w = (OK, w') \<and> contents (lw_dest w') = place ext 0 (log_frames 0 xs)" for xs
    using reliable_file.AddRecords_writes [OF assms(1), of ?w ext xs] assms(4,5) by (auto simp: new_LogWriter_def)
  then have C: "fst (AddRecords app fl ext xs ?w) = OK"
    "contents (lw_dest (snd (AddRecords app fl ext xs ?w))) = place ext 0 (log_frames 0 xs)" for xs
    by (metis fst_conv snd_conv)+
  have "reader_at rinv rest log_kBlockSize (take m (place ext log_kBlockSize (log_frames log_kBlockSize ds)))
      (new_LogReader q reporter checksum 0)"
    using readable_file.new_reader_at [OF assms(2,6), of reporter checksum] assms(7) by (simp add: C log_start)
  from readable_file.reads_prefix [OF assms(2) this assms(3)] show ?thesis
    unfolding log_start C by (auto simp: new_LogReader_def dest!: reads_ReadRecords)
qed

lemma Extend_portable_running: "running_crc (Extend_portable p)"
  by (simp add: running_crc_def Extend_portable_append [where ?p3.0 = p])

theorem Log_recovers_prefix_witness:
  "\<exists>r'. ReadRecords SequentialFile_Read SequentialFile_Skip (Extend_portable 0)
      (new_LogReader \<lparr>sq_file = lw_dest (snd (AddRecords WritableFile_Append WritableFile_Flush (Extend_portable 0)
          [[1, 2, 3], [], [4]] (new_LogWriter new_FileState 0))), sq_pos = 0\<rparr> True True 0) =
     Some ([[1, 2, 3], [], [4]], r') \<and> lr_reports r' = []"
proof -
  let ?ds = "[[1, 2, 3], [], [4]] :: slice list"
  let ?w = "\<lambda>ds. snd (AddRecords WritableFile_Append WritableFile_Flush (Extend_portable 0) ds (new_LogWriter new_FileState 0))"
  let ?f = "lw_dest (?w ?ds)"
  have inv: "file_inv ?f"
    using memfile.AddRecords_writes [of "new_LogWriter new_FileState 0" "Extend_portable 0" ?ds]
    by (auto simp: new_LogWriter_def)
  note T = Log_recovers_prefix [OF memfile.reliable_file_axioms seqfile.readable_file_axioms Extend_portable_running [of 0],
      of new_FileState "\<lparr>sq_file = ?f, sq_pos = 0\<rparr>" "length (file_contents ?f)" ?ds True True]
  have "seq_inv \<lparr>sq_file = ?f, sq_pos = 0\<rparr>" "seq_rest \<lparr>sq_file = ?f, sq_pos = 0\<rparr> = take (length (file_contents ?f)) (file_contents ?f)"
    using inv by (simp_all add: seq_inv_def seq_rest_def)
  from T [OF _ _ this] obtain k r' where
    R: "ReadRecords SequentialFile_Read SequentialFile_Skip (Extend_portable 0)
      (new_LogReader \<lparr>sq_file = ?f, sq_pos = 0\<rparr> True True 0) = Some (take k ?ds, r')" "lr_reports r' = []" "k \<le> length ?ds"
    and K: "\<forall>j\<le>length ?ds. length (file_contents (lw_dest (?w (take j ?ds)))) \<le> length (file_contents ?f) \<longleftrightarrow> j \<le> k"
    by auto
  have "length ?ds \<le> k" using K [rule_format, of "length ?ds"] by simp
  then show ?thesis using R by auto
qed

end
