(* ===== verification/VersionEdit.thy ===== *)
theory VersionEdit
  imports DbFormat "HOL-Library.Product_Lexorder"
begin

text \<open>
  db/version_edit.h and db/version_edit.cc: the record of the manifest that describes a change of
  the set of files. A field with its \<open>has_\<close> flag is an option; the \<open>std::set\<close> of deleted files
  is an increasing list. \<open>DecodeFrom\<close> also returns the edit, which is partly filled in when the
  status is a corruption.
\<close>

record FileMetaData =
  f_refs :: int
  f_allowed_seeks :: int
  f_number :: u64
  f_file_size :: u64
  f_smallest :: slice
  f_largest :: slice
  f_access_time :: int

definition new_FileMetaData :: "u64 \<Rightarrow> u64 \<Rightarrow> slice \<Rightarrow> slice \<Rightarrow> FileMetaData" where
  "new_FileMetaData number sz smallest largest =
     \<lparr>f_refs = 0, f_allowed_seeks = 2 ^ 30, f_number = number, f_file_size = sz, f_smallest = smallest,
      f_largest = largest, f_access_time = 0\<rparr>"

record VersionEdit =
  ve_comparator :: "slice option"
  ve_log_number :: "u64 option"
  ve_prev_log_number :: "u64 option"
  ve_next_file_number :: "u64 option"
  ve_last_sequence :: "u64 option"
  ve_compact_pointers :: "(nat \<times> slice) list"
  ve_deleted_files :: "(nat \<times> u64) list"
  ve_new_files :: "(nat \<times> FileMetaData) list"

definition kComparator :: u32 where "kComparator = 1"
definition kLogNumber :: u32 where "kLogNumber = 2"
definition kNextFileNumber :: u32 where "kNextFileNumber = 3"
definition kLastSequence :: u32 where "kLastSequence = 4"
definition kCompactPointer :: u32 where "kCompactPointer = 5"
definition kDeletedFile :: u32 where "kDeletedFile = 6"
definition kNewFile :: u32 where "kNewFile = 7"
definition kPrevLogNumber :: u32 where "kPrevLogNumber = 9"

lemmas edit_tags = kComparator_def kLogNumber_def kNextFileNumber_def kLastSequence_def kCompactPointer_def
  kDeletedFile_def kNewFile_def kPrevLogNumber_def

text \<open>\<open>Clear\<close> leaves the compaction pointers as they are.\<close>

definition VersionEdit_Clear :: "VersionEdit \<Rightarrow> VersionEdit" where
  "VersionEdit_Clear e =
     e\<lparr>ve_comparator := None, ve_log_number := None, ve_prev_log_number := None, ve_next_file_number := None,
       ve_last_sequence := None, ve_deleted_files := [], ve_new_files := []\<rparr>"

definition new_VersionEdit :: VersionEdit where
  "new_VersionEdit =
     \<lparr>ve_comparator = None, ve_log_number = None, ve_prev_log_number = None, ve_next_file_number = None,
      ve_last_sequence = None, ve_compact_pointers = [], ve_deleted_files = [], ve_new_files = []\<rparr>"

definition SetCompactPointer :: "nat \<Rightarrow> slice \<Rightarrow> VersionEdit \<Rightarrow> VersionEdit" where
  "SetCompactPointer level key e = e\<lparr>ve_compact_pointers := ve_compact_pointers e @ [(level, key)]\<rparr>"

definition VersionEdit_AddFile :: "nat \<Rightarrow> u64 \<Rightarrow> u64 \<Rightarrow> slice \<Rightarrow> slice \<Rightarrow> VersionEdit \<Rightarrow> VersionEdit" where
  "VersionEdit_AddFile level number file_size smallest largest e =
     e\<lparr>ve_new_files := ve_new_files e @ [(level, new_FileMetaData number file_size smallest largest)]\<rparr>"

text \<open>Insertion into the ordered set.\<close>

fun set_insert :: "nat \<times> u64 \<Rightarrow> (nat \<times> u64) list \<Rightarrow> (nat \<times> u64) list" where
  "set_insert x [] = [x]"
| "set_insert x (y # ys) =
     (if fst x < fst y \<or> fst x = fst y \<and> snd x < snd y then x # y # ys
      else if x = y then y # ys else y # set_insert x ys)"

definition VersionEdit_DeleteFile :: "nat \<Rightarrow> u64 \<Rightarrow> VersionEdit \<Rightarrow> VersionEdit" where
  "VersionEdit_DeleteFile level number e =
     e\<lparr>ve_deleted_files := set_insert (level, number) (ve_deleted_files e)\<rparr>"

definition put_opt64 :: "u32 \<Rightarrow> u64 option \<Rightarrow> slice \<Rightarrow> slice" where
  "put_opt64 tag x dst = (case x of None \<Rightarrow> dst | Some v \<Rightarrow> PutVarint64 (PutVarint32 dst tag) v)"

definition put_compact_pointer :: "slice \<Rightarrow> nat \<times> slice \<Rightarrow> slice" where
  "put_compact_pointer dst p =
     PutLengthPrefixedSlice (PutVarint32 (PutVarint32 dst kCompactPointer) (of_nat (fst p))) (snd p)"

definition put_deleted_file :: "slice \<Rightarrow> nat \<times> u64 \<Rightarrow> slice" where
  "put_deleted_file dst p =
     PutVarint64 (PutVarint32 (PutVarint32 dst kDeletedFile) (of_nat (fst p))) (snd p)"

definition put_new_file :: "slice \<Rightarrow> nat \<times> FileMetaData \<Rightarrow> slice" where
  "put_new_file dst p =
     (let f = snd p;
          dst = PutVarint32 (PutVarint32 dst kNewFile) (of_nat (fst p));
          dst = PutVarint64 (PutVarint64 dst (f_number f)) (f_file_size f)
      in PutLengthPrefixedSlice (PutLengthPrefixedSlice dst (f_smallest f)) (f_largest f))"

definition VersionEdit_EncodeTo :: "VersionEdit \<Rightarrow> slice \<Rightarrow> slice" where
  "VersionEdit_EncodeTo e dst =
     (let dst = (case ve_comparator e of None \<Rightarrow> dst | Some c \<Rightarrow> PutLengthPrefixedSlice (PutVarint32 dst kComparator) c);
          dst = put_opt64 kLogNumber (ve_log_number e) dst;
          dst = put_opt64 kPrevLogNumber (ve_prev_log_number e) dst;
          dst = put_opt64 kNextFileNumber (ve_next_file_number e) dst;
          dst = put_opt64 kLastSequence (ve_last_sequence e) dst;
          dst = foldl put_compact_pointer dst (ve_compact_pointers e);
          dst = foldl put_deleted_file dst (ve_deleted_files e)
      in foldl put_new_file dst (ve_new_files e))"

definition GetLevel :: "slice \<Rightarrow> (nat \<times> slice) option" where
  "GetLevel input =
     (case GetVarint32 input of
        Some (v, input) \<Rightarrow> if unat v < kNumLevels then Some (unat v, input) else None
      | None \<Rightarrow> None)"

definition GetInternalKey :: "slice \<Rightarrow> (slice \<times> slice) option" where
  "GetInternalKey input = GetLengthPrefixedSlice input"

text \<open>One case of the \<open>switch\<close>: the message of a corruption, or the rest of the input and the edit.\<close>

definition get_opt64 :: "string \<Rightarrow> (u64 \<Rightarrow> VersionEdit) \<Rightarrow> slice \<Rightarrow> string + slice \<times> VersionEdit" where
  "get_opt64 msg upd input = (case GetVarint64 input of Some (v, input) \<Rightarrow> Inr (input, upd v) | None \<Rightarrow> Inl msg)"

definition decode_new_file :: "slice \<Rightarrow> ((nat \<times> FileMetaData) \<times> slice) option" where
  "decode_new_file input =
     Option.bind (GetLevel input) (\<lambda>(level, input).
     Option.bind (GetVarint64 input) (\<lambda>(number, input).
     Option.bind (GetVarint64 input) (\<lambda>(sz, input).
     Option.bind (GetInternalKey input) (\<lambda>(smallest, input).
     Option.bind (GetInternalKey input) (\<lambda>(largest, input).
       Some ((level, new_FileMetaData number sz smallest largest), input))))))"

definition decode_field :: "u32 \<Rightarrow> slice \<Rightarrow> VersionEdit \<Rightarrow> string + slice \<times> VersionEdit" where
  "decode_field tag input e =
     (if tag = kComparator then
        (case GetLengthPrefixedSlice input of
           Some (str, input) \<Rightarrow> Inr (input, e\<lparr>ve_comparator := Some str\<rparr>)
         | None \<Rightarrow> Inl ''comparator name'')
      else if tag = kLogNumber then get_opt64 ''log number'' (\<lambda>v. e\<lparr>ve_log_number := Some v\<rparr>) input
      else if tag = kPrevLogNumber then get_opt64 ''previous log number'' (\<lambda>v. e\<lparr>ve_prev_log_number := Some v\<rparr>) input
      else if tag = kNextFileNumber then get_opt64 ''next file number'' (\<lambda>v. e\<lparr>ve_next_file_number := Some v\<rparr>) input
      else if tag = kLastSequence then get_opt64 ''last sequence number'' (\<lambda>v. e\<lparr>ve_last_sequence := Some v\<rparr>) input
      else if tag = kCompactPointer then
        (case Option.bind (GetLevel input) (\<lambda>(level, input). map_option (\<lambda>(key, input). ((level, key), input)) (GetInternalKey input)) of
           Some (p, input) \<Rightarrow> Inr (input, SetCompactPointer (fst p) (snd p) e)
         | None \<Rightarrow> Inl ''compaction pointer'')
      else if tag = kDeletedFile then
        (case Option.bind (GetLevel input) (\<lambda>(level, input). map_option (\<lambda>(n, input). ((level, n), input)) (GetVarint64 input)) of
           Some (p, input) \<Rightarrow> Inr (input, VersionEdit_DeleteFile (fst p) (snd p) e)
         | None \<Rightarrow> Inl ''deleted file'')
      else if tag = kNewFile then
        (case decode_new_file input of
           Some (p, input) \<Rightarrow> Inr (input, e\<lparr>ve_new_files := ve_new_files e @ [p]\<rparr>)
         | None \<Rightarrow> Inl ''new-file entry'')
      else Inl ''unknown tag'')"

text \<open>The shrinking of the input is what the loop's termination rests on.\<close>

lemma GetLevel_shorter: "GetLevel input = Some (l, r) \<Longrightarrow> length r < length input"
  by (auto simp: GetLevel_def split: option.splits if_splits)

lemma decode_field_shorter: "decode_field tag input e = Inr (r, e') \<Longrightarrow> length r < length input"
  by (auto simp: decode_field_def get_opt64_def GetInternalKey_def decode_new_file_def bind_eq_Some_conv
      split: option.splits if_splits dest!: GetLevel_shorter GetLengthPrefixedSlice_shorter Get_shorter)

function DecodeFrom_loop :: "slice \<Rightarrow> VersionEdit \<Rightarrow> string option \<times> slice \<times> VersionEdit" where
  "DecodeFrom_loop input e =
     (case GetVarint32 input of
        None \<Rightarrow> (None, input, e)
      | Some (tag, input) \<Rightarrow>
          (case decode_field tag input e of
             Inl msg \<Rightarrow> (Some msg, input, e)
           | Inr (input, e) \<Rightarrow> DecodeFrom_loop input e))"
  by pat_completeness auto
termination
  by (relation "measure (\<lambda>(input, e). length input)")
    (auto dest!: Get_shorter decode_field_shorter)

declare DecodeFrom_loop.simps [simp del]

definition VersionEdit_DecodeFrom :: "slice \<Rightarrow> VersionEdit \<Rightarrow> status \<times> VersionEdit" where
  "VersionEdit_DecodeFrom src e =
     (let (msg, input, e) = DecodeFrom_loop src (VersionEdit_Clear e);
          msg = (if msg = None \<and> input \<noteq> [] then Some ''invalid tag'' else msg)
      in (case msg of None \<Rightarrow> OK | Some m \<Rightarrow> Corruption (''VersionEdit: '' @ m), e))"

subsection \<open>Round trip\<close>

definition file_lt :: "nat \<times> u64 \<Rightarrow> nat \<times> u64 \<Rightarrow> bool" where
  "file_lt x y \<longleftrightarrow> fst x < fst y \<or> fst x = fst y \<and> snd x < snd y"

text \<open>
  An edit as the code builds it: levels in range, keys and the comparator name shorter than
  \<open>2\<^sup>3\<^sup>2\<close> bytes, deleted files as an ordered set, new files as \<open>AddFile\<close> makes them.
\<close>

definition edit_ok :: "VersionEdit \<Rightarrow> bool" where
  "edit_ok e \<longleftrightarrow>
     (\<forall>c. ve_comparator e = Some c \<longrightarrow> fits32 c) \<and>
     (\<forall>p\<in>set (ve_compact_pointers e). fst p < kNumLevels \<and> fits32 (snd p)) \<and>
     (\<forall>p\<in>set (ve_deleted_files e). fst p < kNumLevels) \<and> sorted_wrt file_lt (ve_deleted_files e) \<and>
     (\<forall>p\<in>set (ve_new_files e). fst p < kNumLevels \<and> fits32 (f_smallest (snd p)) \<and> fits32 (f_largest (snd p)) \<and>
        snd p = new_FileMetaData (f_number (snd p)) (f_file_size (snd p)) (f_smallest (snd p)) (f_largest (snd p)))"

lemma loop_field:
  "decode_field tag (body @ rest) e = Inr (rest, e') \<Longrightarrow>
   DecodeFrom_loop (EncodeVarint32 tag @ body @ rest) e = DecodeFrom_loop rest e'"
  by (subst DecodeFrom_loop.simps) simp

lemma GetLevel_Encode: "l < kNumLevels \<Longrightarrow> GetLevel (EncodeVarint32 (of_nat l) @ rest) = Some (l, rest)"
  by (simp add: GetLevel_def kNumLevels_def unat_of_nat_small)

lemma put_parts:
  "put_opt64 tag x dst = dst @ put_opt64 tag x []" "put_compact_pointer dst p = dst @ put_compact_pointer [] p"
  "put_deleted_file dst d = dst @ put_deleted_file [] d" "put_new_file dst n = dst @ put_new_file [] n"
  by (simp_all add: put_opt64_def put_compact_pointer_def put_deleted_file_def put_new_file_def Let_def
      PutVarint32_def PutVarint64_def PutLengthPrefixedSlice_def split: option.splits)

lemma foldl_append_part:
  "(\<And>d x. f d x = d @ f [] x) \<Longrightarrow> foldl f dst xs = dst @ concat (map (f []) xs)"
  by (induction xs arbitrary: dst) (simp, metis append.assoc concat.simps(2) foldl_Cons list.simps(9))

lemma EncodeTo_eq:
  "VersionEdit_EncodeTo e [] =
     (case ve_comparator e of None \<Rightarrow> [] | Some c \<Rightarrow> EncodeVarint32 kComparator @ PutLengthPrefixedSlice [] c) @
     put_opt64 kLogNumber (ve_log_number e) [] @ put_opt64 kPrevLogNumber (ve_prev_log_number e) [] @
     put_opt64 kNextFileNumber (ve_next_file_number e) [] @ put_opt64 kLastSequence (ve_last_sequence e) [] @
     concat (map (put_compact_pointer []) (ve_compact_pointers e)) @
     concat (map (put_deleted_file []) (ve_deleted_files e)) @ concat (map (put_new_file []) (ve_new_files e))"
  unfolding VersionEdit_EncodeTo_def Let_def foldl_append_part [of put_compact_pointer, OF put_parts(2)]
    foldl_append_part [of put_deleted_file, OF put_parts(3)] foldl_append_part [of put_new_file, OF put_parts(4)]
    put_parts(1) [of kLogNumber _ "_ @ _"]
  by (simp add: put_opt64_def PutVarint32_def PutVarint64_def PutLengthPrefixedSlice_def split: option.splits)

lemma loop_comparator:
  "fits32 c \<Longrightarrow> DecodeFrom_loop (EncodeVarint32 kComparator @ PutLengthPrefixedSlice [] c @ rest) e =
     DecodeFrom_loop rest (e\<lparr>ve_comparator := Some c\<rparr>)"
  by (rule loop_field) (simp add: decode_field_def)

lemma loop_numbers:
  "DecodeFrom_loop (put_opt64 kLogNumber x [] @ rest) e =
     DecodeFrom_loop rest (case x of None \<Rightarrow> e | Some v \<Rightarrow> e\<lparr>ve_log_number := Some v\<rparr>)"
  "DecodeFrom_loop (put_opt64 kPrevLogNumber x [] @ rest) e =
     DecodeFrom_loop rest (case x of None \<Rightarrow> e | Some v \<Rightarrow> e\<lparr>ve_prev_log_number := Some v\<rparr>)"
  "DecodeFrom_loop (put_opt64 kNextFileNumber x [] @ rest) e =
     DecodeFrom_loop rest (case x of None \<Rightarrow> e | Some v \<Rightarrow> e\<lparr>ve_next_file_number := Some v\<rparr>)"
  "DecodeFrom_loop (put_opt64 kLastSequence x [] @ rest) e =
     DecodeFrom_loop rest (case x of None \<Rightarrow> e | Some v \<Rightarrow> e\<lparr>ve_last_sequence := Some v\<rparr>)"
  by (auto simp: put_opt64_def PutVarint32_def PutVarint64_def decode_field_def get_opt64_def edit_tags
      intro!: loop_field split: option.splits)

lemma loop_compact_pointers:
  "\<forall>p\<in>set ps. fst p < kNumLevels \<and> fits32 (snd p) \<Longrightarrow>
   DecodeFrom_loop (concat (map (put_compact_pointer []) ps) @ rest) e =
     DecodeFrom_loop rest (e\<lparr>ve_compact_pointers := ve_compact_pointers e @ ps\<rparr>)"
proof (induction ps arbitrary: e)
  case (Cons p ps)
  have p: "put_compact_pointer [] p =
      EncodeVarint32 kCompactPointer @ EncodeVarint32 (of_nat (fst p)) @ PutLengthPrefixedSlice [] (snd p)"
    by (simp add: put_compact_pointer_def PutVarint32_def PutLengthPrefixedSlice_def)
  have "DecodeFrom_loop (put_compact_pointer [] p @ concat (map (put_compact_pointer []) ps) @ rest) e =
      DecodeFrom_loop (concat (map (put_compact_pointer []) ps) @ rest) (SetCompactPointer (fst p) (snd p) e)"
    unfolding p append_assoc
    by (subst append_assoc [symmetric, of "EncodeVarint32 (of_nat (fst p))"], rule loop_field)
      (use Cons.prems in \<open>simp add: decode_field_def edit_tags GetLevel_Encode GetInternalKey_def\<close>)
  then show ?case using Cons by (simp add: SetCompactPointer_def)
qed simp

lemma set_insert_last: "\<forall>y\<in>set ys. file_lt y x \<Longrightarrow> set_insert x ys = ys @ [x]"
  by (induction ys) (auto simp: file_lt_def)

lemma loop_deleted_files:
  "\<forall>p\<in>set ps. fst p < kNumLevels \<Longrightarrow> sorted_wrt file_lt (ve_deleted_files e @ ps) \<Longrightarrow>
   DecodeFrom_loop (concat (map (put_deleted_file []) ps) @ rest) e =
     DecodeFrom_loop rest (e\<lparr>ve_deleted_files := ve_deleted_files e @ ps\<rparr>)"
proof (induction ps arbitrary: e)
  case (Cons p ps)
  have p: "put_deleted_file [] p =
      EncodeVarint32 kDeletedFile @ EncodeVarint32 (of_nat (fst p)) @ EncodeVarint64 (snd p)"
    by (simp add: put_deleted_file_def PutVarint32_def PutVarint64_def)
  have "DecodeFrom_loop (put_deleted_file [] p @ concat (map (put_deleted_file []) ps) @ rest) e =
      DecodeFrom_loop (concat (map (put_deleted_file []) ps) @ rest) (VersionEdit_DeleteFile (fst p) (snd p) e)"
    unfolding p append_assoc
    by (subst append_assoc [symmetric, of "EncodeVarint32 (of_nat (fst p))"], rule loop_field)
      (use Cons.prems in \<open>simp add: decode_field_def edit_tags GetLevel_Encode\<close>)
  moreover have "set_insert p (ve_deleted_files e) = ve_deleted_files e @ [p]"
    using Cons.prems(2) by (intro set_insert_last) (auto simp: sorted_wrt_append)
  ultimately show ?case using Cons by (simp add: VersionEdit_DeleteFile_def)
qed simp

lemma loop_new_files:
  "\<forall>p\<in>set ps. fst p < kNumLevels \<and> fits32 (f_smallest (snd p)) \<and> fits32 (f_largest (snd p)) \<and>
     snd p = new_FileMetaData (f_number (snd p)) (f_file_size (snd p)) (f_smallest (snd p)) (f_largest (snd p)) \<Longrightarrow>
   DecodeFrom_loop (concat (map (put_new_file []) ps) @ rest) e =
     DecodeFrom_loop rest (e\<lparr>ve_new_files := ve_new_files e @ ps\<rparr>)"
proof (induction ps arbitrary: e)
  case (Cons p ps)
  let ?f = "snd p"
  let ?body = "EncodeVarint32 (of_nat (fst p)) @ EncodeVarint64 (f_number ?f) @ EncodeVarint64 (f_file_size ?f) @
      PutLengthPrefixedSlice [] (f_smallest ?f) @ PutLengthPrefixedSlice [] (f_largest ?f)"
  have p: "put_new_file [] p = EncodeVarint32 kNewFile @ ?body"
    by (simp add: put_new_file_def Let_def PutVarint32_def PutVarint64_def PutLengthPrefixedSlice_def)
  have "decode_new_file (?body @ r) = Some (p, r)" for r
    using Cons.prems by (simp add: decode_new_file_def GetLevel_Encode GetInternalKey_def)
  then have "DecodeFrom_loop (put_new_file [] p @ concat (map (put_new_file []) ps) @ rest) e =
      DecodeFrom_loop (concat (map (put_new_file []) ps) @ rest) (e\<lparr>ve_new_files := ve_new_files e @ [p]\<rparr>)"
    unfolding p append_assoc [of "EncodeVarint32 kNewFile"]
    by (intro loop_field) (simp add: decode_field_def edit_tags del: append_assoc)
  then show ?case using Cons by simp
qed simp

lemma decode_encode:
  assumes "edit_ok e"
  shows "VersionEdit_DecodeFrom (VersionEdit_EncodeTo e []) e0 =
    (OK, e\<lparr>ve_compact_pointers := ve_compact_pointers e0 @ ve_compact_pointers e\<rparr>)"
proof -
  have comp: "DecodeFrom_loop ((case ve_comparator e of None \<Rightarrow> [] | Some c \<Rightarrow>
      EncodeVarint32 kComparator @ PutLengthPrefixedSlice [] c) @ rest) e1 =
      DecodeFrom_loop rest (case ve_comparator e of None \<Rightarrow> e1 | Some c \<Rightarrow> e1\<lparr>ve_comparator := Some c\<rparr>)" for rest e1
    using assms by (auto simp: edit_ok_def loop_comparator split: option.splits)
  have fin: "DecodeFrom_loop [] e1 = (None, [], e1)" for e1
    by (subst DecodeFrom_loop.simps) (simp add: GetVarint32_def GetVarint32Ptr_def GetVarint32PtrFallback_def)
  note ok = assms [unfolded edit_ok_def]
  have "DecodeFrom_loop (VersionEdit_EncodeTo e []) (VersionEdit_Clear e0) =
    (None, [], e\<lparr>ve_compact_pointers := ve_compact_pointers e0 @ ve_compact_pointers e\<rparr>)"
    unfolding EncodeTo_eq comp loop_numbers
    using ok loop_new_files [of "ve_new_files e" "[]"]
    by (auto simp: loop_compact_pointers loop_deleted_files fin VersionEdit_Clear_def split: option.splits)
  then show ?thesis by (simp add: VersionEdit_DecodeFrom_def)
qed

text \<open>
  C34. A version edit written to the manifest is read back as it was. Decoding does not start
  from a clean edit, though: compaction pointers that the edit object already had stay in
  front of the decoded ones.
\<close>

theorem VersionEdit_roundtrip:
  assumes "edit_ok e"
  shows "VersionEdit_DecodeFrom (VersionEdit_EncodeTo e []) e0 =
    (OK, e\<lparr>ve_compact_pointers := ve_compact_pointers e0 @ ve_compact_pointers e\<rparr>)"
  by (rule decode_encode [OF assms])

theorem VersionEdit_roundtrip_witness:
  "VersionEdit_DecodeFrom (VersionEdit_EncodeTo
      (VersionEdit_AddFile 1 5 100 [1] [2] (VersionEdit_DeleteFile 0 4 (VersionEdit_DeleteFile 0 3 new_VersionEdit))) []) new_VersionEdit =
    (OK, VersionEdit_AddFile 1 5 100 [1] [2] (VersionEdit_DeleteFile 0 4 (VersionEdit_DeleteFile 0 3 new_VersionEdit)))"
proof -
  have "edit_ok (VersionEdit_AddFile 1 5 100 [1] [2] (VersionEdit_DeleteFile 0 4 (VersionEdit_DeleteFile 0 3 new_VersionEdit)))"
    by (simp add: edit_ok_def VersionEdit_AddFile_def VersionEdit_DeleteFile_def new_VersionEdit_def file_lt_def
        new_FileMetaData_def fits32_def kNumLevels_def)
  from VersionEdit_roundtrip [OF this, of new_VersionEdit] show ?thesis
    by (simp add: new_VersionEdit_def VersionEdit_AddFile_def VersionEdit_DeleteFile_def)
qed

subsection \<open>Levels are in range\<close>

definition levels_ok :: "VersionEdit \<Rightarrow> bool" where
  "levels_ok e \<longleftrightarrow> (\<forall>p\<in>set (ve_compact_pointers e). fst p < kNumLevels) \<and>
     (\<forall>p\<in>set (ve_deleted_files e). fst p < kNumLevels) \<and> (\<forall>p\<in>set (ve_new_files e). fst p < kNumLevels)"

lemma set_set_insert: "set (set_insert x ys) = insert x (set ys)"
  by (induction ys) auto

lemma GetLevel_bound: "GetLevel input = Some (l, r) \<Longrightarrow> l < kNumLevels"
  by (auto simp: GetLevel_def split: option.splits if_splits)

lemma decode_new_file_level: "decode_new_file input = Some (p, r) \<Longrightarrow> fst p < kNumLevels"
  by (auto simp: decode_new_file_def bind_eq_Some_conv dest: GetLevel_bound)

lemma decode_field_levels:
  assumes "decode_field tag input e = Inr (r, e')" "levels_ok e"
  shows "levels_ok e'"
proof -
  have "levels_ok (SetCompactPointer l k e)" "levels_ok (VersionEdit_DeleteFile l n e)" "levels_ok (e\<lparr>ve_new_files := ve_new_files e @ [(l, f)]\<rparr>)"
    if "l < kNumLevels" for l k n f
    using assms(2) that by (auto simp: levels_ok_def SetCompactPointer_def VersionEdit_DeleteFile_def set_set_insert)
  moreover have "levels_ok (e\<lparr>ve_comparator := c\<rparr>)" "levels_ok (e\<lparr>ve_log_number := v\<rparr>)" "levels_ok (e\<lparr>ve_prev_log_number := v\<rparr>)"
    "levels_ok (e\<lparr>ve_next_file_number := v\<rparr>)" "levels_ok (e\<lparr>ve_last_sequence := v\<rparr>)" for c v
    using assms(2) by (simp_all add: levels_ok_def)
  ultimately show ?thesis using assms(1)
    by (auto simp: decode_field_def get_opt64_def bind_eq_Some_conv split: if_splits option.splits
        dest: GetLevel_bound decode_new_file_level)
qed

lemma DecodeFrom_loop_levels: "levels_ok e \<Longrightarrow> levels_ok (snd (snd (DecodeFrom_loop input e)))"
proof (induction input e rule: DecodeFrom_loop.induct)
  case (1 input e)
  show ?case
  proof (cases "GetVarint32 input")
    case None
    then show ?thesis using 1(2) by (subst DecodeFrom_loop.simps) simp
  next
    case (Some a)
    obtain tag r where a: "a = (tag, r)" by (cases a) auto
    show ?thesis
    proof (cases "decode_field tag r e")
      case (Inl m)
      then show ?thesis using 1(2) Some a by (subst DecodeFrom_loop.simps) simp
    next
      case (Inr b)
      obtain r' e' where b: "b = (r', e')" by (cases b) auto
      have "levels_ok e'" using decode_field_levels Inr b 1(2) by blast
      then show ?thesis using 1(1) [OF Some a [symmetric] Inr b [symmetric]] Some a Inr b
        by (subst DecodeFrom_loop.simps) simp
    qed
  qed
qed

text \<open>
  C35. Whatever bytes the manifest holds, an edit decoded from them names only levels that
  exist, so the arrays indexed by level are never accessed out of range.
\<close>

theorem VersionEdit_levels:
  assumes "\<forall>p\<in>set (ve_compact_pointers e). fst p < kNumLevels"
  shows "levels_ok (snd (VersionEdit_DecodeFrom src e))"
proof -
  have "levels_ok (VersionEdit_Clear e)" using assms by (simp add: levels_ok_def VersionEdit_Clear_def)
  from DecodeFrom_loop_levels [OF this, of src] show ?thesis
    by (simp add: VersionEdit_DecodeFrom_def Let_def split_beta)
qed

theorem VersionEdit_levels_witness:
  "levels_ok (snd (VersionEdit_DecodeFrom [6, 3, 9, 5, 200] new_VersionEdit))"
  by (rule VersionEdit_levels) (simp add: new_VersionEdit_def)

end
