(* ===== verification/VersionFiles.thy ===== *)
theory VersionFiles
  imports VersionEdit Complex_Main
begin

text \<open>
  The search over the files of a version in db/version_set.cc: \<open>FindFile\<close>, the overlap tests,
  \<open>LevelFileNumIterator\<close>, \<open>Version::Get\<close> and the seek statistics, \<open>GetOverlappingInputs\<close> and
  \<open>PickLevelForMemTableOutput\<close>.

  A \<open>FileMetaData*\<close> is an address; \<open>h\<close> is the store that maps it to the file description, as
  several versions share one. Its reference count and its release are not modelled, nor are
  the latency statistics of \<open>files_extra_\<close> and the counters in \<open>ReadOptions\<close>. Levels and
  indices are \<open>nat\<close>; sums of file sizes and multiples of the target file size are \<open>nat\<close> as
  well, so they stand for the C++ values as long as these do not overflow.
\<close>

type_synonym fptr = nat
type_synonym fheap = "fptr \<Rightarrow> FileMetaData"

definition smallest_user :: "fheap \<Rightarrow> fptr \<Rightarrow> slice" where
  "smallest_user h f = ExtractUserKey (f_smallest (h f))"

definition largest_user :: "fheap \<Rightarrow> fptr \<Rightarrow> slice" where
  "largest_user h f = ExtractUserKey (f_largest (h f))"

definition TotalFileSize :: "fheap \<Rightarrow> fptr list \<Rightarrow> nat" where
  "TotalFileSize h files = sum_list (map (\<lambda>f. unat (f_file_size (h f))) files)"

subsection \<open>FindFile and overlap tests\<close>

function FindFile_loop :: "(slice \<Rightarrow> slice \<Rightarrow> int) \<Rightarrow> fheap \<Rightarrow> fptr list \<Rightarrow> slice \<Rightarrow> nat \<Rightarrow> nat \<Rightarrow> nat" where
  "FindFile_loop icmp h files key left right =
     (if left < right then
        let mid = (left + right) div 2 in
        if icmp (f_largest (h (files ! mid))) key < 0 then FindFile_loop icmp h files key (mid + 1) right
        else FindFile_loop icmp h files key left mid
      else right)"
  by pat_completeness auto
termination
  by (relation "measure (\<lambda>(icmp, h, files, key, left, right). right - left)") auto

declare FindFile_loop.simps [simp del]

definition FindFile :: "(slice \<Rightarrow> slice \<Rightarrow> int) \<Rightarrow> fheap \<Rightarrow> fptr list \<Rightarrow> slice \<Rightarrow> nat" where
  "FindFile icmp h files key = FindFile_loop icmp h files key 0 (length files)"

definition AfterFile :: "(slice \<Rightarrow> slice \<Rightarrow> int) \<Rightarrow> slice option \<Rightarrow> fheap \<Rightarrow> fptr \<Rightarrow> bool" where
  "AfterFile ucmp ukey h f = (case ukey of None \<Rightarrow> False | Some k \<Rightarrow> ucmp k (largest_user h f) > 0)"

definition BeforeFile :: "(slice \<Rightarrow> slice \<Rightarrow> int) \<Rightarrow> slice option \<Rightarrow> fheap \<Rightarrow> fptr \<Rightarrow> bool" where
  "BeforeFile ucmp ukey h f = (case ukey of None \<Rightarrow> False | Some k \<Rightarrow> ucmp k (smallest_user h f) < 0)"

definition SomeFileOverlapsRange ::
  "(slice \<Rightarrow> slice \<Rightarrow> int) \<Rightarrow> bool \<Rightarrow> fheap \<Rightarrow> fptr list \<Rightarrow> slice option \<Rightarrow> slice option \<Rightarrow> bool" where
  "SomeFileOverlapsRange ucmp disjoint_sorted_files h files smallest_user_key largest_user_key =
     (if \<not> disjoint_sorted_files then
        list_ex (\<lambda>f. \<not> (AfterFile ucmp smallest_user_key h f \<or> BeforeFile ucmp largest_user_key h f)) files
      else
        let index = (case smallest_user_key of
                       None \<Rightarrow> 0
                     | Some k \<Rightarrow> FindFile (InternalKey_Compare ucmp) h files
                                   (MakeInternalKey k kMaxSequenceNumber kValueTypeForSeek))
        in if index \<ge> length files then False
           else \<not> BeforeFile ucmp largest_user_key h (files ! index))"

subsection \<open>LevelFileNumIterator\<close>

text \<open>The iterator is its index; the number of files marks it as not valid.\<close>

definition LFN_Valid :: "fptr list \<Rightarrow> nat \<Rightarrow> bool" where
  "LFN_Valid flist index \<longleftrightarrow> index < length flist"

definition LFN_Seek :: "(slice \<Rightarrow> slice \<Rightarrow> int) \<Rightarrow> fheap \<Rightarrow> fptr list \<Rightarrow> slice \<Rightarrow> nat" where
  "LFN_Seek icmp h flist target = FindFile icmp h flist target"

definition LFN_SeekToLast :: "fptr list \<Rightarrow> nat" where
  "LFN_SeekToLast flist = (if flist = [] then 0 else length flist - 1)"

definition LFN_Next :: "nat \<Rightarrow> nat" where
  "LFN_Next index = index + 1"

definition LFN_Prev :: "fptr list \<Rightarrow> nat \<Rightarrow> nat" where
  "LFN_Prev flist index = (if index = 0 then length flist else index - 1)"

definition LFN_key :: "fheap \<Rightarrow> fptr list \<Rightarrow> nat \<Rightarrow> slice" where
  "LFN_key h flist index = f_largest (h (flist ! index))"

definition LFN_value :: "fheap \<Rightarrow> fptr list \<Rightarrow> nat \<Rightarrow> slice" where
  "LFN_value h flist index =
     EncodeFixed64 (f_number (h (flist ! index))) @ EncodeFixed64 (f_file_size (h (flist ! index)))"

text \<open>\<open>GetFileIterator\<close> takes the number and the size from such a value.\<close>

definition file_of_value :: "slice \<Rightarrow> status + u64 \<times> u64" where
  "file_of_value v =
     (if length v \<noteq> 16 then Inl (Corruption ''FileReader invoked with unexpected value'')
      else Inr (DecodeFixed64 v, DecodeFixed64 (drop 8 v)))"

subsection \<open>Version\<close>

record Version =
  v_files :: "fptr list list"
  v_file_to_compact :: "fptr option"
  v_file_to_compact_level :: int
  v_compaction_score :: real
  v_compaction_level :: int

definition new_Version :: Version where
  "new_Version = \<lparr>v_files = replicate kNumLevels [], v_file_to_compact = None, v_file_to_compact_level = -1,
     v_compaction_score = -1, v_compaction_level = -1\<rparr>"

datatype SaverState = kNotFound | kFound slice | kDeleted | kCorrupt

text \<open>
  The saver after the table has called it for the entry it found, if any.
\<close>

definition SaveValue :: "(slice \<Rightarrow> slice \<Rightarrow> int) \<Rightarrow> slice \<Rightarrow> (slice \<times> slice) option \<Rightarrow> SaverState" where
  "SaveValue ucmp ukey found =
     (case found of
        None \<Rightarrow> kNotFound
      | Some (ikey, v) \<Rightarrow>
          (case ParseInternalKey ikey of
             None \<Rightarrow> kCorrupt
           | Some p \<Rightarrow>
               if ucmp (user_key p) ukey = 0 then
                 (case type p of kTypeValue \<Rightarrow> kFound v | kTypeDeletion \<Rightarrow> kDeleted)
               else kNotFound))"

text \<open>The sort by \<open>NewestFirst\<close>: larger file numbers first. File numbers are unique.\<close>

definition sort_NewestFirst :: "fheap \<Rightarrow> fptr list \<Rightarrow> fptr list" where
  "sort_NewestFirst h fs = rev (sort_key (\<lambda>f. f_number (h f)) fs)"

text \<open>The files of a level that may hold the key, in the order in which they are searched.\<close>

definition files_for_key ::
  "(slice \<Rightarrow> slice \<Rightarrow> int) \<Rightarrow> fheap \<Rightarrow> fptr list \<Rightarrow> nat \<Rightarrow> slice \<Rightarrow> slice \<Rightarrow> fptr list" where
  "files_for_key ucmp h files level ukey ikey =
     (if level = 0 then
        sort_NewestFirst h (filter (\<lambda>f. ucmp ukey (smallest_user h f) \<ge> 0 \<and> ucmp ukey (largest_user h f) \<le> 0) files)
      else
        let index = FindFile (InternalKey_Compare ucmp) h files ikey in
        if index \<ge> length files then []
        else if ucmp ukey (smallest_user h (files ! index)) < 0 then []
        else [files ! index])"

record 'c get_state =
  g_heap :: fheap
  g_cache :: 'c
  g_last_file_read :: "(fptr \<times> nat) option"
  g_seek_file :: "(fptr \<times> nat) option"

text \<open>
  The loop over the files of one level. \<open>tget\<close> is \<open>TableCache::Get\<close>: it returns a status and
  the entry it passes to the saver, if any, and changes the state of the cache.
  \<open>None\<close> as result: keep searching.
\<close>

fun search_files ::
  "(u64 \<Rightarrow> u64 \<Rightarrow> slice \<Rightarrow> 'c \<Rightarrow> (status \<times> (slice \<times> slice) option) \<times> 'c) \<Rightarrow> (slice \<Rightarrow> slice \<Rightarrow> int) \<Rightarrow>
   nat \<Rightarrow> slice \<Rightarrow> slice \<Rightarrow> fptr list \<Rightarrow> 'c get_state \<Rightarrow> (status + slice) option \<times> 'c get_state" where
  "search_files tget ucmp level ukey ikey [] g = (None, g)"
| "search_files tget ucmp level ukey ikey (f # fs) g =
     (let g = (if g_last_file_read g \<noteq> None \<and> g_seek_file g = None then g\<lparr>g_seek_file := g_last_file_read g\<rparr> else g);
          fm = g_heap g f;
          g = g\<lparr>g_last_file_read := Some (f, level),
                g_heap := (g_heap g)(f := fm\<lparr>f_access_time := f_access_time fm + 1\<rparr>)\<rparr>;
          ((s, found), c) = tget (f_number fm) (f_file_size fm) ikey (g_cache g);
          g = g\<lparr>g_cache := c\<rparr>
      in if \<not> ok s then (Some (Inl s), g)
         else (case SaveValue ucmp ukey found of
                 kNotFound \<Rightarrow> search_files tget ucmp level ukey ikey fs g
               | kFound v \<Rightarrow> (Some (Inr v), g)
               | kDeleted \<Rightarrow> (Some (Inl (NotFound [])), g)
               | kCorrupt \<Rightarrow> (Some (Inl (Corruption (''corrupted key for : '' @ map (\<lambda>b. char_of (unat b)) ukey))), g)))"

fun search_levels ::
  "(u64 \<Rightarrow> u64 \<Rightarrow> slice \<Rightarrow> 'c \<Rightarrow> (status \<times> (slice \<times> slice) option) \<times> 'c) \<Rightarrow> (slice \<Rightarrow> slice \<Rightarrow> int) \<Rightarrow>
   nat \<Rightarrow> slice \<Rightarrow> slice \<Rightarrow> fptr list list \<Rightarrow> 'c get_state \<Rightarrow> (status + slice) \<times> 'c get_state" where
  "search_levels tget ucmp level ukey ikey [] g = (Inl (NotFound []), g)"
| "search_levels tget ucmp level ukey ikey (files # levels) g =
     (case search_files tget ucmp level ukey ikey
             (files_for_key ucmp (g_heap g) files level ukey ikey) g of
        (Some r, g) \<Rightarrow> (r, g)
      | (None, g) \<Rightarrow> search_levels tget ucmp (Suc level) ukey ikey levels g)"

text \<open>\<open>addCurrentTime\<close> is \<open>tick\<close>. The statistics returned are the file to charge for a seek.\<close>

definition Version_Get ::
  "(u64 \<Rightarrow> u64 \<Rightarrow> slice \<Rightarrow> 'c \<Rightarrow> (status \<times> (slice \<times> slice) option) \<times> 'c) \<Rightarrow> ('c \<Rightarrow> 'c) \<Rightarrow>
   (slice \<Rightarrow> slice \<Rightarrow> int) \<Rightarrow> slice \<Rightarrow> u64 \<Rightarrow> Version \<Rightarrow> fheap \<Rightarrow> 'c \<Rightarrow> (status + slice) \<times> 'c get_state" where
  "Version_Get tget tick ucmp ukey snap v h c =
     search_levels tget ucmp 0 (LookupKey_user_key ukey snap) (LookupKey_internal_key ukey snap) (v_files v)
       \<lparr>g_heap = h, g_cache = tick c, g_last_file_read = None, g_seek_file = None\<rparr>"

definition UpdateStats :: "(fptr \<times> nat) option \<Rightarrow> fheap \<Rightarrow> Version \<Rightarrow> bool \<times> fheap \<times> Version" where
  "UpdateStats seek h v =
     (case seek of
        None \<Rightarrow> (False, h, v)
      | Some (f, level) \<Rightarrow>
          let h = h(f := (h f)\<lparr>f_allowed_seeks := f_allowed_seeks (h f) - 1\<rparr>) in
          if f_allowed_seeks (h f) \<le> 0 \<and> v_file_to_compact v = None
          then (True, h, v\<lparr>v_file_to_compact := Some f, v_file_to_compact_level := int level\<rparr>)
          else (False, h, v))"

text \<open>
  \<open>ForEachOverlapping\<close> calls its function on these files until it returns false.
\<close>

fun overlapping_levels ::
  "(slice \<Rightarrow> slice \<Rightarrow> int) \<Rightarrow> fheap \<Rightarrow> nat \<Rightarrow> slice \<Rightarrow> slice \<Rightarrow> fptr list list \<Rightarrow> (fptr \<times> nat) list" where
  "overlapping_levels ucmp h level ukey ikey [] = []"
| "overlapping_levels ucmp h level ukey ikey (files # levels) =
     map (\<lambda>f. (f, level)) (files_for_key ucmp h files level ukey ikey) @
     overlapping_levels ucmp h (Suc level) ukey ikey levels"

definition ForEachOverlapping ::
  "(slice \<Rightarrow> slice \<Rightarrow> int) \<Rightarrow> fheap \<Rightarrow> Version \<Rightarrow> slice \<Rightarrow> slice \<Rightarrow> (fptr \<times> nat) list" where
  "ForEachOverlapping ucmp h v ukey internal_key = overlapping_levels ucmp h 0 ukey internal_key (v_files v)"

text \<open>\<open>Match\<close> keeps the first file and stops at the second.\<close>

definition RecordReadSample :: "(slice \<Rightarrow> slice \<Rightarrow> int) \<Rightarrow> slice \<Rightarrow> fheap \<Rightarrow> Version \<Rightarrow> bool \<times> fheap \<times> Version" where
  "RecordReadSample ucmp internal_key h v =
     (case ParseInternalKey internal_key of
        None \<Rightarrow> (False, h, v)
      | Some p \<Rightarrow>
          (case ForEachOverlapping ucmp h v (user_key p) internal_key of
             first # _ # _ \<Rightarrow> UpdateStats (Some first) h v
           | _ \<Rightarrow> (False, h, v)))"

definition OverlapInLevel ::
  "(slice \<Rightarrow> slice \<Rightarrow> int) \<Rightarrow> fheap \<Rightarrow> Version \<Rightarrow> nat \<Rightarrow> slice option \<Rightarrow> slice option \<Rightarrow> bool" where
  "OverlapInLevel ucmp h v level small large = SomeFileOverlapsRange ucmp (level > 0) h (v_files v ! level) small large"

subsection \<open>GetOverlappingInputs\<close>

text \<open>
  One iteration of the loop, with the restart on level 0 when the range has grown: the next
  index, the bounds (\<open>None\<close> if not given) and the inputs collected.
\<close>

type_synonym overlap_state = "nat \<times> slice option \<times> slice option \<times> fptr list"

definition overlap_step ::
  "(slice \<Rightarrow> slice \<Rightarrow> int) \<Rightarrow> fheap \<Rightarrow> nat \<Rightarrow> fptr list \<Rightarrow> overlap_state \<Rightarrow> overlap_state" where
  "overlap_step ucmp h level files st =
     (let (i, user_begin, user_end, inputs) = st;
          f = files ! i;
          file_start = smallest_user h f;
          file_limit = largest_user h f
      in if user_begin \<noteq> None \<and> ucmp file_limit (the user_begin) < 0 then (Suc i, user_begin, user_end, inputs)
         else if user_end \<noteq> None \<and> ucmp file_start (the user_end) > 0 then (Suc i, user_begin, user_end, inputs)
         else if level = 0 \<and> user_begin \<noteq> None \<and> ucmp file_start (the user_begin) < 0
         then (0, Some file_start, user_end, [])
         else if level = 0 \<and> user_end \<noteq> None \<and> ucmp file_limit (the user_end) > 0
         then (0, user_begin, Some file_limit, [])
         else (Suc i, user_begin, user_end, inputs @ [f]))"

partial_function (option) GetOverlappingInputs_loop ::
  "(slice \<Rightarrow> slice \<Rightarrow> int) \<Rightarrow> fheap \<Rightarrow> nat \<Rightarrow> fptr list \<Rightarrow> overlap_state \<Rightarrow> overlap_state option" where
  "GetOverlappingInputs_loop ucmp h level files st =
     (if fst st < length files
      then GetOverlappingInputs_loop ucmp h level files (overlap_step ucmp h level files st)
      else Some st)"

definition GetOverlappingInputs ::
  "(slice \<Rightarrow> slice \<Rightarrow> int) \<Rightarrow> fheap \<Rightarrow> Version \<Rightarrow> nat \<Rightarrow> slice option \<Rightarrow> slice option \<Rightarrow> fptr list option" where
  "GetOverlappingInputs ucmp h v level start limit =
     map_option (\<lambda>(i, b, e, inputs). inputs)
       (GetOverlappingInputs_loop ucmp h level (v_files v ! level)
         (0, map_option ExtractUserKey start, map_option ExtractUserKey limit, []))"

definition MaxGrandParentOverlapBytes :: "nat \<Rightarrow> nat" where
  "MaxGrandParentOverlapBytes max_file_size = 10 * max_file_size"

text \<open>The loop stops at \<open>kMaxMemCompactLevel\<close>; its argument is the number of levels left.\<close>

primrec PickLevel_loop ::
  "nat \<Rightarrow> (slice \<Rightarrow> slice \<Rightarrow> int) \<Rightarrow> nat \<Rightarrow> fheap \<Rightarrow> Version \<Rightarrow> slice \<Rightarrow> slice \<Rightarrow> nat \<Rightarrow> nat option" where
  "PickLevel_loop 0 ucmp max_file_size h v small large level = Some level"
| "PickLevel_loop (Suc n) ucmp max_file_size h v small large level =
     (if OverlapInLevel ucmp h v (level + 1) (Some small) (Some large) then Some level
      else if level + 2 < kNumLevels then
        Option.bind (GetOverlappingInputs ucmp h v (level + 2)
            (Some (MakeInternalKey small kMaxSequenceNumber kValueTypeForSeek))
            (Some (MakeInternalKey large 0 kTypeDeletion)))
          (\<lambda>overlaps. if TotalFileSize h overlaps > MaxGrandParentOverlapBytes max_file_size then Some level
            else PickLevel_loop n ucmp max_file_size h v small large (level + 1))
      else PickLevel_loop n ucmp max_file_size h v small large (level + 1))"

definition PickLevelForMemTableOutput ::
  "(slice \<Rightarrow> slice \<Rightarrow> int) \<Rightarrow> nat \<Rightarrow> fheap \<Rightarrow> Version \<Rightarrow> slice \<Rightarrow> slice \<Rightarrow> nat option" where
  "PickLevelForMemTableOutput ucmp max_file_size h v small large =
     (if \<not> OverlapInLevel ucmp h v 0 (Some small) (Some large)
      then PickLevel_loop kMaxMemCompactLevel ucmp max_file_size h v small large 0
      else Some 0)"

subsection \<open>FindFile: correctness\<close>

text \<open>The files of a level above 0: sorted, disjoint ranges of internal keys.\<close>

definition sorted_files :: "(slice \<Rightarrow> slice \<Rightarrow> int) \<Rightarrow> fheap \<Rightarrow> fptr list \<Rightarrow> bool" where
  "sorted_files icmp h files \<longleftrightarrow>
     (\<forall>f\<in>set files. ikey_wf (f_smallest (h f)) \<and> ikey_wf (f_largest (h f)) \<and> icmp (f_smallest (h f)) (f_largest (h f)) \<le> 0) \<and>
     sorted_wrt (\<lambda>f g. icmp (f_largest (h f)) (f_smallest (h g)) < 0) files"

context user_comparator
begin

lemma largest_sorted:
  assumes "sorted_files icmp h files" "i < j" "j < length files"
  shows "icmp (f_largest (h (files ! i))) (f_largest (h (files ! j))) < 0"
proof -
  have m: "files ! i \<in> set files" "files ! j \<in> set files" using assms by auto
  have "icmp (f_largest (h (files ! i))) (f_smallest (h (files ! j))) < 0"
    using assms sorted_wrt_nth_less [of _ files i j] by (auto simp: sorted_files_def)
  then show ?thesis
    using assms(1) m by (auto simp: sorted_files_def intro: internal.cmp_less_le_trans)
qed

lemma FindFile_loop_ok:
  assumes "sorted_files icmp h files" "ikey_wf key" "left \<le> right" "right \<le> length files"
    "\<forall>i<left. icmp (f_largest (h (files ! i))) key < 0"
    "\<forall>i. right \<le> i \<and> i < length files \<longrightarrow> \<not> icmp (f_largest (h (files ! i))) key < 0"
  defines "r \<equiv> FindFile_loop icmp h files key left right"
  shows "r \<le> length files \<and> (\<forall>i<r. icmp (f_largest (h (files ! i))) key < 0) \<and>
    (\<forall>i. r \<le> i \<and> i < length files \<longrightarrow> \<not> icmp (f_largest (h (files ! i))) key < 0)"
  using assms(3-6) unfolding r_def
proof (induction "right - left" arbitrary: left right rule: less_induct)
  case less
  show ?case
  proof (cases "left < right")
    case True
    define mid where "mid = (left + right) div 2"
    have mid: "left \<le> mid" "mid < right" using True by (auto simp: mid_def)
    have mem: "ikey_wf (f_largest (h (files ! i)))" if "i < length files" for i
      using assms(1) that by (auto simp: sorted_files_def)
    have unf: "FindFile_loop icmp h files key left right =
      (if icmp (f_largest (h (files ! mid))) key < 0 then FindFile_loop icmp h files key (mid + 1) right
       else FindFile_loop icmp h files key left mid)"
      using True by (subst FindFile_loop.simps) (simp add: mid_def Let_def)
    show ?thesis
    proof (cases "icmp (f_largest (h (files ! mid))) key < 0")
      case lt: True
      have "icmp (f_largest (h (files ! i))) key < 0" if "i < mid + 1" for i
      proof (cases "i = mid")
        case False
        then have l: "icmp (f_largest (h (files ! i))) (f_largest (h (files ! mid))) < 0"
          using largest_sorted [OF assms(1), of i mid] that mid less(3) by simp
        have "i < length files" "mid < length files" using that mid less(3) by auto
        from internal.cmp_trans [OF mem [OF this(1)] mem [OF this(2)] assms(2) l lt] show ?thesis .
      qed (use lt in simp)
      then show ?thesis unfolding unf if_P [OF lt] using less(3,5) mid by (intro less(1)) auto
    next
      case ge: False
      have "\<not> icmp (f_largest (h (files ! i))) key < 0" if "mid \<le> i" "i < length files" for i
      proof (cases "i = mid")
        case False
        then have l: "icmp (f_largest (h (files ! mid))) (f_largest (h (files ! i))) < 0"
          using largest_sorted [OF assms(1), of mid i] that by simp
        show ?thesis
          using internal.cmp_trans [OF mem mem assms(2) l] ge that by auto
      qed (use ge in simp)
      then show ?thesis unfolding unf if_not_P [OF ge] using less(3,4) mid by (intro less(1)) auto
    qed
  next
    case False
    then show ?thesis using less by (subst (1 2 3) FindFile_loop.simps) auto
  qed
qed

lemma FindFile_ok:
  assumes "sorted_files icmp h files" "ikey_wf key"
  shows "FindFile icmp h files key \<le> length files"
    "i < FindFile icmp h files key \<Longrightarrow> icmp (f_largest (h (files ! i))) key < 0"
    "FindFile icmp h files key \<le> i \<Longrightarrow> i < length files \<Longrightarrow> \<not> icmp (f_largest (h (files ! i))) key < 0"
  using FindFile_loop_ok [OF assms, of 0 "length files"] by (auto simp: FindFile_def)

end

end
