(* ===== verification/VersionOverlap.thy ===== *)
theory VersionOverlap
  imports VersionFiles
begin

text \<open>
  The questions about key ranges that compactions ask a version: whether some file overlaps a
  range, answered by binary search on the sorted levels, and which files do, with the range
  growing on level 0.
\<close>

subsection \<open>Overlap tests: correctness\<close>

text \<open>The reference: a file overlaps the range from \<open>b\<close> to \<open>e\<close>, bounds that may be missing.\<close>

definition file_overlaps :: "(slice \<Rightarrow> slice \<Rightarrow> int) \<Rightarrow> fheap \<Rightarrow> slice option \<Rightarrow> slice option \<Rightarrow> fptr \<Rightarrow> bool" where
  "file_overlaps ucmp h b e f \<longleftrightarrow>
     (\<forall>k. b = Some k \<longrightarrow> ucmp k (largest_user h f) \<le> 0) \<and> (\<forall>k. e = Some k \<longrightarrow> ucmp (smallest_user h f) k \<le> 0)"

text \<open>Inputs of level 0 lie within the range they were collected for.\<close>

definition file_within :: "(slice \<Rightarrow> slice \<Rightarrow> int) \<Rightarrow> fheap \<Rightarrow> slice option \<Rightarrow> slice option \<Rightarrow> fptr \<Rightarrow> bool" where
  "file_within ucmp h b e f \<longleftrightarrow>
     (\<forall>k. b = Some k \<longrightarrow> ucmp k (smallest_user h f) \<le> 0) \<and> (\<forall>k. e = Some k \<longrightarrow> ucmp (largest_user h f) k \<le> 0)"

text \<open>Tags of stored keys: a parsed sequence number and type.\<close>

definition tags_ok :: "fheap \<Rightarrow> fptr list \<Rightarrow> bool" where
  "tags_ok h files \<longleftrightarrow> (\<forall>f\<in>set files. ExtractTag (f_largest (h f)) \<le> PackSequenceAndType kMaxSequenceNumber kTypeValue)"

text \<open>The second range includes the first; a range to which no overlapping file adds anything.\<close>

definition range_grows ::
  "(slice \<Rightarrow> slice \<Rightarrow> int) \<Rightarrow> slice option \<Rightarrow> slice option \<Rightarrow> slice option \<Rightarrow> slice option \<Rightarrow> bool" where
  "range_grows ucmp b e b' e' \<longleftrightarrow> rel_option (\<lambda>x y. ucmp y x \<le> 0) b b' \<and> rel_option (\<lambda>x y. ucmp x y \<le> 0) e e'"

definition closed_range :: "(slice \<Rightarrow> slice \<Rightarrow> int) \<Rightarrow> fheap \<Rightarrow> fptr list \<Rightarrow> slice option \<Rightarrow> slice option \<Rightarrow> bool" where
  "closed_range ucmp h files b e \<longleftrightarrow> (\<forall>f\<in>set files. file_overlaps ucmp h b e f \<longrightarrow> file_within ucmp h b e f)"

context user_comparator
begin

lemma ucmp_le_iff: "ucmp a b \<le> 0 \<longleftrightarrow> \<not> ucmp b a < 0"
  using cmp_swap [of b a] by auto

lemma ucmp_gt_iff: "ucmp a b > 0 \<longleftrightarrow> ucmp b a < 0"
  using cmp_swap [of b a] by auto

lemma ucmp_le_trans: "ucmp a b \<le> 0 \<Longrightarrow> ucmp b c \<le> 0 \<Longrightarrow> ucmp a c \<le> 0"
  by (rule cmp_le_trans) auto

lemma not_overlaps_iff:
  "AfterFile ucmp b h f \<or> BeforeFile ucmp e h f \<longleftrightarrow> \<not> file_overlaps ucmp h b e f"
proof -
  have "AfterFile ucmp b h f \<longleftrightarrow> \<not> (\<forall>k. b = Some k \<longrightarrow> ucmp k (largest_user h f) \<le> 0)"
    by (auto simp: AfterFile_def not_le split: option.splits)
  moreover have "BeforeFile ucmp e h f \<longleftrightarrow> \<not> (\<forall>k. e = Some k \<longrightarrow> ucmp (smallest_user h f) k \<le> 0)"
    using ucmp_gt_iff [of "smallest_user h f"] by (auto simp: BeforeFile_def not_le split: option.splits)
  ultimately show ?thesis by (simp add: file_overlaps_def)
qed

text \<open>The seek key of a user key is before a stored key exactly if the user keys are ordered so.\<close>

lemma seek_key_less:
  assumes "ikey_wf k"
  shows "icmp k (MakeInternalKey b kMaxSequenceNumber kValueTypeForSeek) < 0 \<longleftrightarrow> ucmp (ExtractUserKey k) b < 0 \<or>
    ExtractUserKey k = b \<and> ExtractTag k > PackSequenceAndType kMaxSequenceNumber kValueTypeForSeek"
  using assms by (simp add: icmp_iff)

lemma smallest_user_sorted:
  assumes "sorted_files icmp h files" "i < j" "j < length files"
  shows "ucmp (largest_user h (files ! i)) (smallest_user h (files ! j)) \<le> 0"
    "ucmp (smallest_user h (files ! i)) (smallest_user h (files ! j)) \<le> 0"
proof -
  have "icmp (f_largest (h (files ! i))) (f_smallest (h (files ! j))) < 0"
    using assms sorted_wrt_nth_less [of _ files i j] by (auto simp: sorted_files_def)
  then show a: "ucmp (largest_user h (files ! i)) (smallest_user h (files ! j)) \<le> 0"
    using cmp_refl by (auto simp: icmp_iff largest_user_def smallest_user_def)
  have "icmp (f_smallest (h (files ! i))) (f_largest (h (files ! i))) \<le> 0"
    using assms by (auto simp: sorted_files_def)
  then have "ucmp (smallest_user h (files ! i)) (largest_user h (files ! i)) \<le> 0"
    using icmp_iff(1,2) [of "f_smallest (h (files ! i))" "f_largest (h (files ! i))"] cmp_refl
    by (auto simp: largest_user_def smallest_user_def order_le_less)
  with a show "ucmp (smallest_user h (files ! i)) (smallest_user h (files ! j)) \<le> 0"
    using cmp_le_trans by blast
qed

lemma overlaps_sorted:
  assumes sf: "sorted_files icmp h files" and tg: "tags_ok h files"
  shows "SomeFileOverlapsRange ucmp True h files b e \<longleftrightarrow> (\<exists>f\<in>set files. file_overlaps ucmp h b e f)"
proof -
  define n where "n = (case b of None \<Rightarrow> 0
     | Some k \<Rightarrow> FindFile icmp h files (MakeInternalKey k kMaxSequenceNumber kValueTypeForSeek))"
  have big: "\<not> ExtractTag (f_largest (h (files ! i))) > PackSequenceAndType kMaxSequenceNumber kValueTypeForSeek" if "i < length files" for i
    using tg that by (auto simp: tags_ok_def kValueTypeForSeek_def not_less)
  have b: "(\<forall>k. b = Some k \<longrightarrow> ucmp k (largest_user h (files ! i)) \<le> 0) \<longleftrightarrow> n \<le> i" if i: "i < length files" for i
  proof (cases b)
    case (Some k)
    have wf: "ikey_wf (f_largest (h (files ! i)))" using sf i by (auto simp: sorted_files_def)
    have "icmp (f_largest (h (files ! i))) (MakeInternalKey k kMaxSequenceNumber kValueTypeForSeek) < 0 \<longleftrightarrow> i < n"
      using FindFile_ok(2,3) [OF sf, of "MakeInternalKey k kMaxSequenceNumber kValueTypeForSeek" i] i Some
      by (auto simp: n_def not_less [symmetric])
    moreover have "icmp (f_largest (h (files ! i))) (MakeInternalKey k kMaxSequenceNumber kValueTypeForSeek) < 0 \<longleftrightarrow>
        ucmp (largest_user h (files ! i)) k < 0"
      using seek_key_less [OF wf, of k] big [OF i] by (simp add: largest_user_def)
    moreover have "ucmp k (largest_user h (files ! i)) \<le> 0 \<longleftrightarrow> \<not> ucmp (largest_user h (files ! i)) k < 0"
      by (rule ucmp_le_iff)
    ultimately show ?thesis using Some by (simp only: option.inject not_less) simp
  qed (simp add: n_def)
  have first: "ucmp (smallest_user h (files ! n)) k \<le> 0" if "n \<le> i" "i < length files" "ucmp (smallest_user h (files ! i)) k \<le> 0" for i k
  proof (cases "n = i")
    case False
    then have "ucmp (smallest_user h (files ! n)) (smallest_user h (files ! i)) \<le> 0"
      using that smallest_user_sorted(2) [OF sf, of n i] by simp
    from ucmp_le_trans [OF this that(3)] show ?thesis .
  qed (use that in simp)
  have "(\<exists>f\<in>set files. file_overlaps ucmp h b e f) \<longleftrightarrow> (\<exists>i<length files. n \<le> i \<and> (\<forall>k. e = Some k \<longrightarrow> ucmp (smallest_user h (files ! i)) k \<le> 0))"
    using b unfolding file_overlaps_def by (metis in_set_conv_nth)
  also have "\<dots> \<longleftrightarrow> n < length files \<and> (\<forall>k. e = Some k \<longrightarrow> ucmp (smallest_user h (files ! n)) k \<le> 0)"
    using first by (cases e) (simp; metis le_less_trans order_refl)+
  also have "\<dots> \<longleftrightarrow> SomeFileOverlapsRange ucmp True h files b e"
    using ucmp_le_iff [of "smallest_user h (files ! n)"]
    by (auto simp: SomeFileOverlapsRange_def n_def [symmetric] BeforeFile_def Let_def split: option.splits)
  finally show ?thesis by blast
qed

lemma overlaps_any:
  "SomeFileOverlapsRange ucmp False h files b e \<longleftrightarrow> (\<exists>f\<in>set files. file_overlaps ucmp h b e f)"
  using not_overlaps_iff [of b h _ e] by (auto simp: SomeFileOverlapsRange_def list_ex_iff)

subsection \<open>GetOverlappingInputs: correctness\<close>

lemma range_grows_refl: "range_grows ucmp b e b e"
  using cmp_refl by (auto simp: range_grows_def intro: option.rel_refl)

lemma overlaps_mono:
  assumes "range_grows ucmp b e B E" "file_overlaps ucmp h b e f"
  shows "file_overlaps ucmp h B E f"
proof -
  have "ucmp k (largest_user h f) \<le> 0" if "B = Some k" for k
    using assms that by (cases b) (auto simp: range_grows_def file_overlaps_def intro: ucmp_le_trans)
  moreover have "ucmp (smallest_user h f) k \<le> 0" if "E = Some k" for k
    using assms that by (cases e) (auto simp: range_grows_def file_overlaps_def intro: ucmp_le_trans)
  ultimately show ?thesis by (simp add: file_overlaps_def)
qed

lemma range_grows_trans:
  assumes "range_grows ucmp a b c d" "range_grows ucmp c d x y"
  shows "range_grows ucmp a b x y"
proof -
  have "rel_option (\<lambda>x y. ucmp y x \<le> 0) a x"
    using assms by (cases a; cases c; cases x) (auto simp: range_grows_def intro: ucmp_le_trans)
  moreover have "rel_option (\<lambda>x y. ucmp x y \<le> 0) b y"
    using assms by (cases b; cases d; cases y) (auto simp: range_grows_def intro: ucmp_le_trans)
  ultimately show ?thesis by (simp add: range_grows_def)
qed

lemma grow_begin:
  assumes "ucmp (smallest_user h f) b < 0"
  shows "range_grows ucmp (Some b) e (Some (smallest_user h f)) e"
  using assms cmp_refl by (auto simp: range_grows_def intro: option.rel_refl)

lemma grow_end:
  assumes "ucmp (largest_user h f) e > 0"
  shows "range_grows ucmp b (Some e) b (Some (largest_user h f))"
  using assms cmp_refl ucmp_gt_iff [of "largest_user h f" e] by (auto simp: range_grows_def intro: option.rel_refl)

definition ov_inv :: "fheap \<Rightarrow> nat \<Rightarrow> fptr list \<Rightarrow> slice option \<Rightarrow> slice option \<Rightarrow> overlap_state \<Rightarrow> bool" where
  "ov_inv h level files b0 e0 = (\<lambda>(i, b, e, inputs).
     i \<le> length files \<and> inputs = filter (file_overlaps ucmp h b e) (take i files) \<and>
     (level = 0 \<longrightarrow> (\<forall>f\<in>set inputs. file_within ucmp h b e f)) \<and>
     range_grows ucmp b0 e0 b e \<and> (level \<noteq> 0 \<longrightarrow> b = b0 \<and> e = e0) \<and>
     (\<forall>B E. closed_range ucmp h files B E \<and> range_grows ucmp b0 e0 B E \<longrightarrow> range_grows ucmp b e B E))"

definition outside :: "fheap \<Rightarrow> fptr list \<Rightarrow> slice option \<Rightarrow> slice option \<Rightarrow> nat" where
  "outside h files b e =
     card {f \<in> set files. \<exists>k. b = Some k \<and> ucmp (smallest_user h f) k < 0} +
     card {f \<in> set files. \<exists>k. e = Some k \<and> ucmp (largest_user h f) k > 0}"

lemma outside_begin:
  assumes "f \<in> set files" "ucmp (smallest_user h f) k < 0"
  shows "outside h files (Some (smallest_user h f)) e < outside h files (Some k) e"
proof -
  have "{g \<in> set files. ucmp (smallest_user h g) (smallest_user h f) < 0} \<subset> {g \<in> set files. ucmp (smallest_user h g) k < 0}"
    (is "?A \<subset> ?B")
  proof
    show "?A \<subseteq> ?B" using assms cmp_trans [of _ "smallest_user h f" k] by auto
    have "f \<notin> ?A" "f \<in> ?B" using assms cmp_refl by auto
    then show "?A \<noteq> ?B" by blast
  qed
  then show ?thesis by (auto simp: outside_def intro: psubset_card_mono)
qed

lemma outside_end:
  assumes "f \<in> set files" "ucmp (largest_user h f) k > 0"
  shows "outside h files b (Some (largest_user h f)) < outside h files b (Some k)"
proof -
  have "{g \<in> set files. ucmp (largest_user h g) (largest_user h f) > 0} \<subset> {g \<in> set files. ucmp (largest_user h g) k > 0}"
    (is "?A \<subset> ?B")
  proof
    show "?A \<subseteq> ?B" using assms cmp_trans [of k "largest_user h f"] unfolding ucmp_gt_iff by auto
    have "f \<notin> ?A" "f \<in> ?B" using assms cmp_refl by auto
    then show "?A \<noteq> ?B" by blast
  qed
  then show ?thesis by (auto simp: outside_def intro: psubset_card_mono)
qed

abbreviation ov_less :: "fheap \<Rightarrow> fptr list \<Rightarrow> (overlap_state \<times> overlap_state) set" where
  "ov_less h files \<equiv> measures [\<lambda>(i, b, e, _). outside h files b e, \<lambda>(i, _). length files - i]"

lemma overlap_step_cases:
  assumes i: "i < length files" and f: "f = files ! i"
  obtains "overlap_step ucmp h level files (i, b, e, inputs) = (Suc i, b, e, inputs)" "\<not> file_overlaps ucmp h b e f"
  | k where "overlap_step ucmp h level files (i, b, e, inputs) = (0, Some (smallest_user h f), e, [])"
      "level = 0" "b = Some k" "ucmp (smallest_user h f) k < 0" "file_overlaps ucmp h b e f"
  | k where "overlap_step ucmp h level files (i, b, e, inputs) = (0, b, Some (largest_user h f), [])"
      "level = 0" "e = Some k" "ucmp (largest_user h f) k > 0" "file_overlaps ucmp h b e f"
  | "overlap_step ucmp h level files (i, b, e, inputs) = (Suc i, b, e, inputs @ [f])"
      "file_overlaps ucmp h b e f" "level = 0 \<longrightarrow> file_within ucmp h b e f"
proof -
  have 1: "(\<exists>k. b = Some k \<and> ucmp (largest_user h f) k < 0) \<or> (\<exists>k. e = Some k \<and> ucmp (smallest_user h f) k > 0) \<longleftrightarrow>
      \<not> file_overlaps ucmp h b e f"
    by (auto simp: file_overlaps_def ucmp_le_iff [of _ "largest_user h f"] not_le)
  have 2: "file_within ucmp h b e f \<longleftrightarrow>
      \<not> (\<exists>k. b = Some k \<and> ucmp (smallest_user h f) k < 0) \<and> \<not> (\<exists>k. e = Some k \<and> ucmp (largest_user h f) k > 0)"
    by (auto simp: file_within_def ucmp_le_iff [of _ "smallest_user h f"] not_le)
  show thesis
  proof (cases "file_overlaps ucmp h b e f")
    case False
    then show ?thesis using 1 f by (intro that(1)) (auto simp: overlap_step_def Let_def)
  next
    case True
    note ov = this
    then have n: "\<not> (\<exists>k. b = Some k \<and> ucmp (largest_user h f) k < 0)" "\<not> (\<exists>k. e = Some k \<and> ucmp (smallest_user h f) k > 0)"
      using 1 by blast+
    show ?thesis
    proof (cases "level = 0 \<and> \<not> file_within ucmp h b e f")
      case False
      with n 2 f ov show ?thesis by (intro that(4)) (auto simp: overlap_step_def Let_def)
    next
      case l0: True
      show ?thesis
      proof (cases "\<exists>k. b = Some k \<and> ucmp (smallest_user h f) k < 0")
        case True
        then obtain k where "b = Some k" "ucmp (smallest_user h f) k < 0" by blast
        with n f ov l0 show ?thesis by (intro that(2)) (auto simp: overlap_step_def Let_def)
      next
        case False
        then obtain k where "e = Some k" "ucmp (largest_user h f) k > 0" using l0 2 by blast
        with n f ov l0 False show ?thesis by (intro that(3)) (auto simp: overlap_step_def Let_def)
      qed
    qed
  qed
qed

lemma ov_restart:
  assumes "file_overlaps ucmp h b e f" "f \<in> set files" "closed_range ucmp h files B E" "range_grows ucmp b e B E"
  shows "file_within ucmp h B E f"
  using overlaps_mono [OF assms(4,1)] assms(2,3) by (auto simp: closed_range_def)

lemma ov_step:
  assumes inv: "ov_inv h level files b0 e0 (i, b, e, inputs)" and i: "i < length files"
  shows "ov_inv h level files b0 e0 (overlap_step ucmp h level files (i, b, e, inputs)) \<and>
    (overlap_step ucmp h level files (i, b, e, inputs), (i, b, e, inputs)) \<in> ov_less h files"
proof -
  define f where "f = files ! i"
  have f: "f \<in> set files" using i by (simp add: f_def)
  have tk: "take (Suc i) files = take i files @ [f]" using i by (simp add: f_def take_Suc_conv_app_nth)
  from i f_def show ?thesis
  proof (cases rule: overlap_step_cases [where h = h and level = level and b = b and e = e and inputs = inputs])
    case 1
    then show ?thesis using inv i by (auto simp: ov_inv_def tk)
  next
    case (2 k)
    have g: "range_grows ucmp b e (Some (smallest_user h f)) e" using grow_begin 2 by blast
    have "range_grows ucmp (Some (smallest_user h f)) e B E"
      if "closed_range ucmp h files B E" "range_grows ucmp b e B E" for B E
      using ov_restart [OF 2(5) f that] that(2) 2(3) by (cases B) (auto simp: range_grows_def file_within_def)
    moreover have "range_grows ucmp b0 e0 (Some (smallest_user h f)) e"
      using inv range_grows_trans [OF _ g] by (auto simp: ov_inv_def)
    ultimately have "ov_inv h level files b0 e0 (0, Some (smallest_user h f), e, [])"
      using inv 2(2) by (auto simp: ov_inv_def)
    then show ?thesis using 2 outside_begin [OF f 2(4)] by simp
  next
    case (3 k)
    have g: "range_grows ucmp b e b (Some (largest_user h f))" using grow_end 3 by blast
    have "range_grows ucmp b (Some (largest_user h f)) B E"
      if "closed_range ucmp h files B E" "range_grows ucmp b e B E" for B E
      using ov_restart [OF 3(5) f that] that(2) 3(3) by (cases E) (auto simp: range_grows_def file_within_def)
    moreover have "range_grows ucmp b0 e0 b (Some (largest_user h f))"
      using inv range_grows_trans [OF _ g] by (auto simp: ov_inv_def)
    ultimately have "ov_inv h level files b0 e0 (0, b, Some (largest_user h f), [])"
      using inv 3(2) by (auto simp: ov_inv_def)
    then show ?thesis using 3 outside_end [OF f 3(4)] by simp
  next
    case 4
    then show ?thesis using inv i by (auto simp: ov_inv_def tk)
  qed
qed

lemma ov_loop:
  assumes "ov_inv h level files b0 e0 st"
  shows "\<exists>st'. GetOverlappingInputs_loop ucmp h level files st = Some st' \<and> ov_inv h level files b0 e0 st' \<and>
    fst st' = length files"
  using assms
proof (induction st rule: wf_induct_rule [OF wf_measures, of "[\<lambda>(i, b, e, _). outside h files b e, \<lambda>(i, _). length files - i]"])
  case (1 st)
  obtain i b e inputs where st: "st = (i, b, e, inputs)" by (cases st)
  show ?case
  proof (cases "i < length files")
    case True
    with ov_step 1(2) st have s: "ov_inv h level files b0 e0 (overlap_step ucmp h level files st)"
      "(overlap_step ucmp h level files st, st) \<in> ov_less h files" by blast+
    from 1(1) [OF s(2) s(1)] True st show ?thesis by (subst GetOverlappingInputs_loop.simps) simp
  next
    case False
    then show ?thesis using 1(2) st by (subst GetOverlappingInputs_loop.simps) (auto simp: ov_inv_def)
  qed
qed

lemma GetOverlappingInputs_ok:
  fixes start limit :: "slice option" and v :: Version
  assumes "b0 = map_option ExtractUserKey start" "e0 = map_option ExtractUserKey limit" "files = v_files v ! level"
  shows "\<exists>b e. GetOverlappingInputs ucmp h v level start limit = Some (filter (file_overlaps ucmp h b e) files) \<and>
    range_grows ucmp b0 e0 b e \<and> (level \<noteq> 0 \<longrightarrow> b = b0 \<and> e = e0) \<and>
    (level = 0 \<longrightarrow> closed_range ucmp h files b e) \<and>
    (\<forall>B E. closed_range ucmp h files B E \<and> range_grows ucmp b0 e0 B E \<longrightarrow> range_grows ucmp b e B E)"
proof -
  have "ov_inv h level files b0 e0 (0, b0, e0, [])" by (simp add: ov_inv_def range_grows_refl)
  from ov_loop [OF this] obtain b e inputs where
    l: "GetOverlappingInputs_loop ucmp h level files (0, b0, e0, []) = Some (length files, b, e, inputs)" and
    inv: "ov_inv h level files b0 e0 (length files, b, e, inputs)" by auto
  from inv have "inputs = filter (file_overlaps ucmp h b e) files" by (simp add: ov_inv_def)
  with inv l show ?thesis
    unfolding assms by (intro exI [of _ b] exI [of _ e]) (auto simp: GetOverlappingInputs_def ov_inv_def closed_range_def)
qed

end

text \<open>
  C36. For every user comparator that is a total order, \<open>SomeFileOverlapsRange\<close> says whether some
  file of the list overlaps the range of user keys, bounds included and possibly absent. It may
  be told that the files are disjoint and sorted if they are, and then its binary search gives
  the same answer as the search through all files.
\<close>

theorem SomeFileOverlapsRange_iff:
  assumes "user_comparator ucmp"
    "disjoint_sorted_files \<longrightarrow> sorted_files (InternalKey_Compare ucmp) h files \<and> tags_ok h files"
  shows "SomeFileOverlapsRange ucmp disjoint_sorted_files h files b e \<longleftrightarrow> (\<exists>f\<in>set files. file_overlaps ucmp h b e f)"
proof (cases disjoint_sorted_files)
  case True
  with assms user_comparator.overlaps_sorted [OF assms(1)] show ?thesis by simp
next
  case False
  then show ?thesis using user_comparator.overlaps_any [OF assms(1)] by simp
qed

definition sample_heap :: fheap where
  "sample_heap f =
     new_FileMetaData (of_nat f) 100 (MakeInternalKey [of_nat (10 * f)] 9 kTypeValue) (MakeInternalKey [of_nat (10 * f + 5)] 3 kTypeValue)"

theorem SomeFileOverlapsRange_iff_witness:
  "SomeFileOverlapsRange Bytewise_Compare True sample_heap [1, 2, 3] (Some [16]) (Some [22]) \<and>
   \<not> SomeFileOverlapsRange Bytewise_Compare True sample_heap [1, 2, 3] (Some [26]) (Some [29])"
proof -
  have "sorted_files (InternalKey_Compare Bytewise_Compare) sample_heap [1, 2, 3]" "tags_ok sample_heap [1, 2, 3]"
    by code_simp+
  then have "SomeFileOverlapsRange Bytewise_Compare True sample_heap [1, 2, 3] b e \<longleftrightarrow>
      (\<exists>f\<in>set [1, 2, 3]. file_overlaps Bytewise_Compare sample_heap b e f)" for b e
    using SomeFileOverlapsRange_iff [OF bytewise_user.user_comparator_axioms, of True sample_heap "[1, 2, 3]" b e] by simp
  then show ?thesis
    by (simp add: file_overlaps_def sample_heap_def new_FileMetaData_def smallest_user_def largest_user_def)
qed

text \<open>
  C37. \<open>GetOverlappingInputs\<close> always returns. Above level 0 the result is the files of the level
  that overlap the range, in their order. On level 0, where the search restarts whenever a
  file widens the range, it is the files that overlap a wider range to which none of them
  adds anything, and that range is the smallest one around the given range that is closed in this way.
\<close>

theorem GetOverlappingInputs_closure:
  assumes "user_comparator ucmp"
  shows "\<exists>b e. GetOverlappingInputs ucmp h v level start limit = Some (filter (file_overlaps ucmp h b e) (v_files v ! level)) \<and>
    range_grows ucmp (map_option ExtractUserKey start) (map_option ExtractUserKey limit) b e \<and>
    (if level = 0
     then closed_range ucmp h (v_files v ! level) b e \<and>
       (\<forall>B E. closed_range ucmp h (v_files v ! level) B E \<and>
          range_grows ucmp (map_option ExtractUserKey start) (map_option ExtractUserKey limit) B E \<longrightarrow> range_grows ucmp b e B E)
     else b = map_option ExtractUserKey start \<and> e = map_option ExtractUserKey limit)"
  using user_comparator.GetOverlappingInputs_ok [OF assms refl refl refl, of h v level start limit] by auto

theorem GetOverlappingInputs_closure_witness:
  "\<exists>b e. GetOverlappingInputs Bytewise_Compare sample_heap (new_Version\<lparr>v_files := [[1, 2, 3]]\<rparr>) 0
      (Some (MakeInternalKey [12] 5 kTypeValue)) None = Some (filter (file_overlaps Bytewise_Compare sample_heap b e) [1, 2, 3]) \<and>
    closed_range Bytewise_Compare sample_heap [1, 2, 3] b e"
proof -
  have e: "v_files (new_Version\<lparr>v_files := [[1, 2, 3]]\<rparr>) ! 0 = [1, 2, 3]" by simp
  show ?thesis
    using GetOverlappingInputs_closure [OF bytewise_user.user_comparator_axioms, of sample_heap
      "new_Version\<lparr>v_files := [[1, 2, 3]]\<rparr>" 0 "Some (MakeInternalKey [12] 5 kTypeValue)" None]
    unfolding e if_P [OF refl] by blast
qed

end
