(* ===== verification/TableBuilder.thy ===== *)
theory TableBuilder
  imports BlockReader FilterPipeline MemEnv
begin

text \<open>
  table/table_builder.cc: a sorted sequence of entries becomes a file of data blocks, filter
  blocks, a meta-index block, an index block and a footer.

  The options a builder uses are one record. Its functions are parameters: the writable file
  (\<open>Append\<close>, \<open>Flush\<close>), the comparator's key shortening, Snappy, the running checksum and the
  filter policy with the number of its filters and its name. An operation returns \<open>None\<close> only
  if the filter policy does. The assertions are not checked.
\<close>

subsection \<open>Data\<close>

record 'f TableOptions =
  opt_Append :: "slice \<Rightarrow> 'f \<Rightarrow> status \<times> 'f"
  opt_Flush :: "'f \<Rightarrow> status \<times> 'f"
  opt_FindShortestSeparator :: "slice \<Rightarrow> slice \<Rightarrow> slice"
  opt_FindShortSuccessor :: "slice \<Rightarrow> slice"
  opt_block_size :: nat
  opt_block_restart_interval :: nat
  opt_compression :: CompressionType
  opt_snappy_compress :: "slice \<Rightarrow> slice option"
  opt_crc_extend :: "u32 \<Rightarrow> slice \<Rightarrow> u32"
  opt_filter_policy :: "((slice list \<Rightarrow> slice list \<Rightarrow> slice list option) \<times> nat \<times> slice) option"
  opt_bits_per_key :: "nat list"

text \<open>\<open>tableMetaData_\<close>: the filter strings and the index block, kept for the table cache.\<close>

record TableMetaData =
  md_index_data :: slice
  md_filter_data :: "slice list"

record 'f TableBuilder =
  tb_file :: 'f
  tb_offset :: u64
  tb_status :: status
  tb_data_block :: BlockBuilder
  tb_index_block :: BlockBuilder
  tb_last_key :: slice
  tb_num_entries :: nat
  tb_closed :: bool
  tb_filter_block :: "FilterBlockBuilder option"
  tb_pending_index_entry :: bool
  tb_pending_handle :: BlockHandle
  tb_meta_data :: TableMetaData

definition no_handle :: BlockHandle where
  "no_handle = \<lparr>bh_offset = - 1, bh_size = - 1\<rparr>"

definition start_filter_block ::
  "'f TableOptions \<Rightarrow> u64 \<Rightarrow> 'f TableBuilder \<Rightarrow> 'f TableBuilder option" where
  "start_filter_block opts off r =
     (case (opt_filter_policy opts, tb_filter_block r) of
        (Some (CreateFilter, n, name), Some fb) \<Rightarrow>
          map_option (\<lambda>fb. r\<lparr>tb_filter_block := Some fb\<rparr>)
            (FilterBlockBuilder_StartBlock CreateFilter (unat off) fb)
      | _ \<Rightarrow> Some r)"

definition new_TableBuilder :: "'f TableOptions \<Rightarrow> 'f \<Rightarrow> 'f TableBuilder option" where
  "new_TableBuilder opts f =
     start_filter_block opts 0
       \<lparr>tb_file = f, tb_offset = 0, tb_status = OK, tb_data_block = new_BlockBuilder,
        tb_index_block = new_BlockBuilder, tb_last_key = [], tb_num_entries = 0, tb_closed = False,
        tb_filter_block = map_option (\<lambda>(CreateFilter, n, name). new_FilterBlockBuilder n) (opt_filter_policy opts),
        tb_pending_index_entry = False, tb_pending_handle = no_handle,
        tb_meta_data = \<lparr>md_index_data = [], md_filter_data = []\<rparr>\<rparr>"

subsection \<open>Writing blocks\<close>

definition block_trailer :: "(u32 \<Rightarrow> slice \<Rightarrow> u32) \<Rightarrow> slice \<Rightarrow> CompressionType \<Rightarrow> slice" where
  "block_trailer crc_extend block_contents t =
     (let trailer0 = [compression_code t];
          crc = crc_extend (crc_extend 0 block_contents) trailer0
      in trailer0 @ EncodeFixed32 (Mask crc))"

definition WriteRawBlock ::
  "'f TableOptions \<Rightarrow> slice \<Rightarrow> CompressionType \<Rightarrow> 'f TableBuilder \<Rightarrow> BlockHandle \<times> 'f TableBuilder" where
  "WriteRawBlock opts block_contents t r =
     (let handle = \<lparr>bh_offset = tb_offset r, bh_size = of_nat (length block_contents)\<rparr>;
          (s, f) = opt_Append opts block_contents (tb_file r)
      in if ok s then
           let (s', f') = opt_Append opts (block_trailer (opt_crc_extend opts) block_contents t) f
           in (handle, r\<lparr>tb_status := s', tb_file := f',
                 tb_offset := (if ok s' then tb_offset r + of_nat (length block_contents + kBlockTrailerSize)
                               else tb_offset r)\<rparr>)
         else (handle, r\<lparr>tb_status := s, tb_file := f\<rparr>))"

text \<open>The bytes stored for a block: compressed if that saves more than an eighth.\<close>

definition compress_block :: "'f TableOptions \<Rightarrow> slice \<Rightarrow> slice \<times> CompressionType" where
  "compress_block opts raw =
     (case opt_compression opts of
        kNoCompression \<Rightarrow> (raw, kNoCompression)
      | kSnappyCompression \<Rightarrow>
          (case opt_snappy_compress opts raw of
             None \<Rightarrow> (raw, kNoCompression)
           | Some compressed \<Rightarrow>
               if length compressed < length raw - length raw div 8 then (compressed, kSnappyCompression)
               else (raw, kNoCompression)))"

definition WriteBlock ::
  "'f TableOptions \<Rightarrow> BlockBuilder \<Rightarrow> 'f TableBuilder \<Rightarrow> BlockHandle \<times> BlockBuilder \<times> 'f TableBuilder" where
  "WriteBlock opts block r =
     (let (raw, block') = BlockBuilder_Finish block;
          (block_contents, t) = compress_block opts raw;
          (handle, r') = WriteRawBlock opts block_contents t r
      in (handle, BlockBuilder_Reset block', r'))"

definition TableBuilder_Flush :: "'f TableOptions \<Rightarrow> 'f TableBuilder \<Rightarrow> 'f TableBuilder option" where
  "TableBuilder_Flush opts r =
     (if \<not> ok (tb_status r) \<or> BlockBuilder_empty (tb_data_block r) then Some r
      else
        let (handle, block, r1) = WriteBlock opts (tb_data_block r) r;
            r2 = r1\<lparr>tb_data_block := block, tb_pending_handle := handle\<rparr>;
            r3 = (if ok (tb_status r2) then
                    let (s, f) = opt_Flush opts (tb_file r2)
                    in r2\<lparr>tb_pending_index_entry := True, tb_status := s, tb_file := f\<rparr>
                  else r2)
        in start_filter_block opts (tb_offset r3) r3)"

definition add_index_entry :: "slice \<Rightarrow> 'f TableBuilder \<Rightarrow> 'f TableBuilder" where
  "add_index_entry key r =
     r\<lparr>tb_last_key := key,
       tb_index_block := BlockBuilder_Add 1 key (BlockHandle_EncodeTo (tb_pending_handle r) []) (tb_index_block r),
       tb_pending_index_entry := False\<rparr>"

definition TableBuilder_Add :: "'f TableOptions \<Rightarrow> slice \<Rightarrow> slice \<Rightarrow> 'f TableBuilder \<Rightarrow> 'f TableBuilder option" where
  "TableBuilder_Add opts key val r =
     (if \<not> ok (tb_status r) then Some r
      else
        let r1 = (if tb_pending_index_entry r
                  then add_index_entry (opt_FindShortestSeparator opts (tb_last_key r) key) r else r);
            r2 = r1\<lparr>tb_filter_block := map_option (FilterBlockBuilder_AddKey key) (tb_filter_block r1),
                    tb_last_key := key, tb_num_entries := tb_num_entries r1 + 1,
                    tb_data_block := BlockBuilder_Add (opt_block_restart_interval opts) key val (tb_data_block r1)\<rparr>
        in if CurrentSizeEstimate (tb_data_block r2) \<ge> opt_block_size opts then TableBuilder_Flush opts r2
           else Some r2)"

subsection \<open>Finish\<close>

text \<open>\<open>std::to_string\<close> of a small number.\<close>

fun to_string :: "nat \<Rightarrow> slice" where
  "to_string n = (if n < 10 then [48 + of_nat n] else to_string (n div 10) @ [48 + of_nat (n mod 10)])"

declare to_string.simps [simp del]

definition bytes_of :: "string \<Rightarrow> slice" where
  "bytes_of s = map (\<lambda>c. of_nat (of_char c)) s"

definition offset_key :: "nat \<Rightarrow> slice" where
  "offset_key i = bytes_of ''filter.0offsets'' @ to_string i @ bytes_of ''filter.offset''"

text \<open>\<open>id[0]++\<close> counts from the character 1.\<close>

definition filter_key :: "slice \<Rightarrow> nat \<Rightarrow> slice" where
  "filter_key name i = bytes_of ''filter.'' @ [49 + of_nat i] @ name"

fun write_filters ::
  "'f TableOptions \<Rightarrow> slice list \<Rightarrow> 'f TableBuilder \<Rightarrow> BlockHandle list \<times> 'f TableBuilder" where
  "write_filters opts [] r = ([], r)"
| "write_filters opts (raw # raws) r =
     (let (h, r1) = WriteRawBlock opts raw kNoCompression r;
          (hs, r2) = write_filters opts raws r1
      in (h # hs, r2))"

definition meta_entries ::
  "nat list \<Rightarrow> slice \<Rightarrow> FilterBlockBuilder \<Rightarrow> BlockHandle list \<Rightarrow> (slice \<times> slice) list" where
  "meta_entries bits name fb hs =
     map (\<lambda>i. (offset_key i, FilterBlockBuilder_getOffsets i fb)) (stored_offset_ids 0 bits) @
     map (\<lambda>(i, h). (filter_key name i, BlockHandle_EncodeTo h [])) (enumerate 0 hs)"

definition finish_filters ::
  "'f TableOptions \<Rightarrow> 'f TableBuilder \<Rightarrow> (BlockHandle list \<times> 'f TableBuilder) option" where
  "finish_filters opts r =
     (case (opt_filter_policy opts, tb_filter_block r) of
        (Some (CreateFilter, n, name), Some fb) \<Rightarrow>
          if \<not> ok (tb_status r) then Some ([], r)
          else Option.bind (FilterBlockBuilder_Finish CreateFilter fb) (\<lambda>fb.
            Some (write_filters opts (results fb)
              (r\<lparr>tb_filter_block := Some fb, tb_meta_data := (tb_meta_data r)\<lparr>md_filter_data := results fb\<rparr>\<rparr>)))
      | _ \<Rightarrow> Some ([], r))"

definition finish_metaindex ::
  "'f TableOptions \<Rightarrow> BlockHandle list \<Rightarrow> 'f TableBuilder \<Rightarrow> BlockHandle \<times> 'f TableBuilder" where
  "finish_metaindex opts hs r =
     (if \<not> ok (tb_status r) then (no_handle, r)
      else
        let es = (case (opt_filter_policy opts, tb_filter_block r) of
                    (Some (CreateFilter, n, name), Some fb) \<Rightarrow> meta_entries (opt_bits_per_key opts) name fb hs
                  | _ \<Rightarrow> []);
            meta_index_block = BlockBuilder_Add_all (opt_block_restart_interval opts) es new_BlockBuilder;
            (handle, _, r') = WriteBlock opts meta_index_block r
        in (handle, r'))"

definition finish_index :: "'f TableOptions \<Rightarrow> 'f TableBuilder \<Rightarrow> BlockHandle \<times> 'f TableBuilder" where
  "finish_index opts r =
     (if \<not> ok (tb_status r) then (no_handle, r)
      else
        let r1 = (if tb_pending_index_entry r then add_index_entry (opt_FindShortSuccessor opts (tb_last_key r)) r else r);
            (raw, block) = BlockBuilder_Finish (tb_index_block r1);
            r2 = r1\<lparr>tb_index_block := block, tb_meta_data := (tb_meta_data r1)\<lparr>md_index_data := raw\<rparr>\<rparr>;
            (handle, block', r3) = WriteBlock opts (tb_index_block r2) r2
        in (handle, r3\<lparr>tb_index_block := block'\<rparr>))"

definition finish_footer ::
  "'f TableOptions \<Rightarrow> BlockHandle \<Rightarrow> BlockHandle \<Rightarrow> 'f TableBuilder \<Rightarrow> 'f TableBuilder" where
  "finish_footer opts mih ih r =
     (if \<not> ok (tb_status r) then r
      else
        let footer_encoding = Footer_EncodeTo \<lparr>metaindex_handle = mih, index_handle = ih\<rparr> [];
            (s, f) = opt_Append opts footer_encoding (tb_file r)
        in r\<lparr>tb_status := s, tb_file := f,
             tb_offset := (if ok s then tb_offset r + of_nat (length footer_encoding) else tb_offset r)\<rparr>)"

definition TableBuilder_Finish :: "'f TableOptions \<Rightarrow> 'f TableBuilder \<Rightarrow> 'f TableBuilder option" where
  "TableBuilder_Finish opts r =
     Option.bind (TableBuilder_Flush opts r) (\<lambda>r.
     Option.bind (finish_filters opts (r\<lparr>tb_closed := True\<rparr>)) (\<lambda>(hs, r).
       let (mih, r) = finish_metaindex opts hs r;
           (ih, r) = finish_index opts r
       in Some (finish_footer opts mih ih r)))"

definition TableBuilder_Abandon :: "'f TableBuilder \<Rightarrow> 'f TableBuilder" where
  "TableBuilder_Abandon r = r\<lparr>tb_closed := True\<rparr>"

definition TableBuilder_FileSize :: "'f TableBuilder \<Rightarrow> u64" where
  "TableBuilder_FileSize r = tb_offset r"

end
