(* ===== verification/TableLayout.thy ===== *)
theory TableLayout
  imports TableBuilder
begin

text \<open>
  The bytes a table builder writes, as a function of the data blocks and the finished filters,
  and the proof that every operation of table/table_builder.cc extends the file accordingly.
\<close>

subsection \<open>The file as a sequence of stored blocks\<close>

definition file_bytes :: "(u32 \<Rightarrow> slice \<Rightarrow> u32) \<Rightarrow> (slice \<times> CompressionType) list \<Rightarrow> slice" where
  "file_bytes ext ps = concat (map (\<lambda>(c, t). raw_block ext c t) ps)"

definition piece_handle :: "(u32 \<Rightarrow> slice \<Rightarrow> u32) \<Rightarrow> (slice \<times> CompressionType) list \<Rightarrow> slice \<Rightarrow> BlockHandle" where
  "piece_handle ext ps c = \<lparr>bh_offset = of_nat (length (file_bytes ext ps)), bh_size = of_nat (length c)\<rparr>"

definition piece_handles :: "(u32 \<Rightarrow> slice \<Rightarrow> u32) \<Rightarrow> (slice \<times> CompressionType) list \<Rightarrow> BlockHandle list" where
  "piece_handles ext ps = map (\<lambda>i. piece_handle ext (take i ps) (fst (ps ! i))) [0..<length ps]"

lemma file_bytes_snoc: "file_bytes ext (ps @ [(c, t)]) = file_bytes ext ps @ c @ block_trailer ext c t"
  by (simp add: file_bytes_def raw_block_def block_trailer_def Let_def)

lemma piece_handles_snoc: "piece_handles ext (ps @ [(c, t)]) = piece_handles ext ps @ [piece_handle ext ps c]"
  by (auto simp: piece_handles_def nth_append intro!: map_cong)

lemma length_piece_handles [simp]: "length (piece_handles ext ps) = length ps"
  by (simp add: piece_handles_def)

lemma length_block_trailer [simp]: "length (block_trailer ext c t) = kBlockTrailerSize"
  by (simp add: block_trailer_def Let_def kBlockTrailerSize_def)

text \<open>The index key between two neighbouring blocks.\<close>

fun separators :: "(slice \<Rightarrow> slice \<Rightarrow> slice) \<Rightarrow> (slice \<times> slice) list list \<Rightarrow> slice list" where
  "separators sep (b # c # bs) = sep (fst (last b)) (fst (hd c)) # separators sep (c # bs)"
| "separators sep _ = []"

lemma length_separators [simp]: "length (separators sep bs) = length bs - 1"
  by (induction sep bs rule: separators.induct) auto

lemma separators_snoc:
  "bs \<noteq> [] \<Longrightarrow> separators sep (bs @ [c]) = separators sep bs @ [sep (fst (last (last bs))) (fst (hd c))]"
proof (induction sep bs rule: separators.induct)
  case (1 sep b c bs)
  then show ?case by simp
qed auto

lemma separators_nth:
  "Suc i < length bs \<Longrightarrow> separators sep bs ! i = sep (fst (last (bs ! i))) (fst (hd (bs ! Suc i)))"
proof (induction sep bs arbitrary: i rule: separators.induct)
  case (1 sep b c bs)
  then show ?case by (cases i) auto
qed auto

abbreviation data_pieces :: "'f TableOptions \<Rightarrow> (slice \<times> slice) list list \<Rightarrow> (slice \<times> CompressionType) list" where
  "data_pieces opts blks \<equiv> map (\<lambda>b. compress_block opts (build_block (opt_block_restart_interval opts) b)) blks"

definition index_entries :: "'f TableOptions \<Rightarrow> slice list \<Rightarrow> (slice \<times> slice) list list \<Rightarrow> (slice \<times> slice) list" where
  "index_entries opts seps blks =
     zip seps (map (\<lambda>h. BlockHandle_EncodeTo h []) (piece_handles (opt_crc_extend opts) (data_pieces opts blks)))"

text \<open>What the filter block builder is fed: the offset of every block with the keys of the block.\<close>

definition filter_feed :: "'f TableOptions \<Rightarrow> (slice \<times> slice) list list \<Rightarrow> (slice \<times> slice) list \<Rightarrow> (nat \<times> slice list) list" where
  "filter_feed opts blks cur =
     map (\<lambda>i. (unat (of_nat (length (file_bytes (opt_crc_extend opts) (take i (data_pieces opts blks)))) :: u64),
               map fst ((blks @ [cur]) ! i))) [0..<Suc (length blks)]"

lemma filter_feed_snoc:
  "filter_feed opts blks cur = filter_feed_prefix opts blks @
     [(unat (of_nat (length (file_bytes (opt_crc_extend opts) (data_pieces opts blks))) :: u64), map fst cur)]"
  if "filter_feed_prefix = (\<lambda>opts blks. map (\<lambda>i. (unat (of_nat (length (file_bytes (opt_crc_extend opts) (take i (data_pieces opts blks)))) :: u64),
               map fst (blks ! i))) [0..<length blks])"
  using that by (auto simp: filter_feed_def nth_append)

lemma filter_feed_blocks:
  "filter_feed opts (blks @ [cur]) [] = filter_feed opts blks cur @
     [(unat (of_nat (length (file_bytes (opt_crc_extend opts) (data_pieces opts (blks @ [cur])))) :: u64), [])]"
  by (auto simp: filter_feed_def nth_append intro!: map_cong)

lemma feed_blocks_append:
  "feed_blocks C (xs @ ys) b = Option.bind (feed_blocks C xs b) (feed_blocks C ys)"
  by (induction xs arbitrary: b) (auto simp: Option.bind_eq_Some_conv split: Option.bind_split)

lemma feed_one_key:
  "feed_blocks C (filter_feed opts blks (cur @ [(k, v)])) b =
     map_option (FilterBlockBuilder_AddKey k) (feed_blocks C (filter_feed opts blks cur) b)"
  unfolding filter_feed_snoc [OF refl]
  by (cases "feed_blocks C (map (\<lambda>i. (unat (of_nat (length (file_bytes (opt_crc_extend opts) (take i (data_pieces opts blks)))) :: u64),
               map fst (blks ! i))) [0..<length blks]) b")
    (simp_all add: feed_blocks_append feed_block_def Option.map_conv_bind_option split: Option.bind_split)

definition filter_pieces :: "FilterBlockBuilder option \<Rightarrow> (slice \<times> CompressionType) list" where
  "filter_pieces fbo = (case fbo of None \<Rightarrow> [] | Some fb \<Rightarrow> map (\<lambda>x. (x, kNoCompression)) (results fb))"

text \<open>The finished filters of a table with the given data blocks.\<close>

definition filters_of :: "'f TableOptions \<Rightarrow> (slice \<times> slice) list list \<Rightarrow> FilterBlockBuilder option \<Rightarrow> bool" where
  "filters_of opts blks fbo \<longleftrightarrow>
     (case opt_filter_policy opts of
        None \<Rightarrow> fbo = None
      | Some (C, n, name) \<Rightarrow> fbo \<noteq> None \<and>
          Option.bind (feed_blocks C (filter_feed opts blks []) (new_FilterBlockBuilder n)) (FilterBlockBuilder_Finish C) = fbo)"

definition meta_block_entries ::
  "'f TableOptions \<Rightarrow> FilterBlockBuilder option \<Rightarrow> BlockHandle list \<Rightarrow> (slice \<times> slice) list" where
  "meta_block_entries opts fbo hs =
     (case (opt_filter_policy opts, fbo) of
        (Some (CreateFilter, n, name), Some fb) \<Rightarrow> meta_entries (opt_bits_per_key opts) name fb hs
      | _ \<Rightarrow> [])"

definition index_keys :: "'f TableOptions \<Rightarrow> (slice \<times> slice) list list \<Rightarrow> slice list" where
  "index_keys opts blks =
     (if blks = [] then []
      else separators (opt_FindShortestSeparator opts) blks @ [opt_FindShortSuccessor opts (fst (last (last blks)))])"

text \<open>The bytes of a table with the given data blocks and finished filters.\<close>

definition table_bytes :: "'f TableOptions \<Rightarrow> (slice \<times> slice) list list \<Rightarrow> FilterBlockBuilder option \<Rightarrow> slice" where
  "table_bytes opts blks fbo =
     (let ext = opt_crc_extend opts; p1 = data_pieces opts blks @ filter_pieces fbo;
          mp = compress_block opts (build_block (opt_block_restart_interval opts)
                 (meta_block_entries opts fbo (drop (length blks) (piece_handles ext p1))));
          ip = compress_block opts (build_block 1 (index_entries opts (index_keys opts blks) blks))
      in file_bytes ext (p1 @ [mp, ip]) @
         Footer_EncodeTo \<lparr>metaindex_handle = piece_handle ext p1 (fst mp), index_handle = piece_handle ext (p1 @ [mp]) (fst ip)\<rparr> [])"

text \<open>Building a table: the constructor, \<open>Add\<close> for every entry, \<open>Finish\<close>.\<close>

definition TableBuilder_build :: "'f TableOptions \<Rightarrow> (slice \<times> slice) list \<Rightarrow> 'f \<Rightarrow> 'f TableBuilder option" where
  "TableBuilder_build opts es f =
     Option.bind (fold (\<lambda>(k, v) r. Option.bind r (TableBuilder_Add opts k v)) es (new_TableBuilder opts f))
       (TableBuilder_Finish opts)"

locale table_writer = reliable_file "opt_Append opts" "opt_Flush opts" finv fcontents
  for opts :: "'f TableOptions" and finv :: "'f \<Rightarrow> bool" and fcontents :: "'f \<Rightarrow> slice" +
  fixes summaries :: "slice list \<Rightarrow> slice list"
  assumes interval: "0 < opt_block_restart_interval opts"
    and policy: "opt_filter_policy opts = Some (CreateFilter, n, name) \<Longrightarrow>
      0 < n \<and> (\<exists>km. filter_policy n CreateFilter km summaries)"
begin

abbreviation "ext \<equiv> opt_crc_extend opts"
abbreviation "ri \<equiv> opt_block_restart_interval opts"

definition written :: "(slice \<times> CompressionType) list \<Rightarrow> 'f TableBuilder \<Rightarrow> bool" where
  "written ps r \<longleftrightarrow> finv (tb_file r) \<and> tb_status r = OK \<and> fcontents (tb_file r) = file_bytes ext ps \<and>
     tb_offset r = of_nat (length (file_bytes ext ps))"

lemma WriteRawBlock_written:
  assumes "written ps r"
  shows "\<exists>f. WriteRawBlock opts c t r =
      (piece_handle ext ps c, r\<lparr>tb_file := f, tb_offset := of_nat (length (file_bytes ext (ps @ [(c, t)])))\<rparr>) \<and>
    finv f \<and> fcontents f = file_bytes ext (ps @ [(c, t)])"
proof -
  obtain f1 where 1: "opt_Append opts c (tb_file r) = (OK, f1)" "finv f1" "fcontents f1 = fcontents (tb_file r) @ c"
    using Append_succeeds [of "tb_file r" c] Append_ok [of "tb_file r" c] assms
    by (cases "opt_Append opts c (tb_file r)") (auto simp: written_def)
  obtain f2 where 2: "opt_Append opts (block_trailer ext c t) f1 = (OK, f2)" "finv f2"
      "fcontents f2 = fcontents f1 @ block_trailer ext c t"
    using Append_succeeds [of f1 "block_trailer ext c t"] Append_ok [of f1 "block_trailer ext c t"] 1(2)
    by (cases "opt_Append opts (block_trailer ext c t) f1") auto
  show ?thesis
    using 1 2 assms
    by (intro exI [of _ f2]) (simp add: WriteRawBlock_def Let_def written_def piece_handle_def file_bytes_snoc ac_simps)
qed

lemma written_upd:
  "finv f \<Longrightarrow> fcontents f = file_bytes ext ps \<Longrightarrow> tb_status r = OK \<Longrightarrow>
   written ps (r\<lparr>tb_file := f, tb_offset := of_nat (length (file_bytes ext ps))\<rparr>)"
  by (simp add: written_def)

lemma builder_inv_unique:
  assumes "builder_inv n es b" "0 < n"
  shows "fst (BlockBuilder_Finish b) = build_block n es"
  using assms builder_inv_Add_all [OF builder_inv_new assms(2), of es]
  by (simp add: build_block_def builder_inv_def BlockBuilder_Finish_def Let_def)

lemma Reset_new: "BlockBuilder_Reset b = new_BlockBuilder"
  by (simp add: BlockBuilder_Reset_def new_BlockBuilder_def)

definition tb_rel :: "(slice \<times> slice) list list \<Rightarrow> (slice \<times> slice) list \<Rightarrow> 'f TableBuilder \<Rightarrow> bool" where
  "tb_rel blks cur r \<longleftrightarrow> written (data_pieces opts blks) r \<and>
     builder_inv ri cur (tb_data_block r) \<and>
     builder_inv 1 (index_entries opts
        (separators (opt_FindShortestSeparator opts) (blks @ (if cur = [] then [] else [cur]))) blks) (tb_index_block r) \<and>
     (tb_pending_index_entry r \<longleftrightarrow> blks \<noteq> [] \<and> cur = []) \<and>
     (tb_pending_index_entry r \<longrightarrow> tb_pending_handle r = last (piece_handles ext (data_pieces opts blks))) \<and>
     (concat blks @ cur \<noteq> [] \<longrightarrow> tb_last_key r = fst (last (concat blks @ cur))) \<and>
     (\<forall>b\<in>set blks. b \<noteq> []) \<and>
     (case opt_filter_policy opts of
        None \<Rightarrow> tb_filter_block r = None
      | Some (C, n, name) \<Rightarrow> \<exists>fb. tb_filter_block r = Some fb \<and>
          feed_blocks C (filter_feed opts blks cur) (new_FilterBlockBuilder n) = Some fb \<and>
          (\<exists>gs p. fb_rel summaries n fb gs p))"

lemma last_concat_blocks: "bs \<noteq> [] \<Longrightarrow> last bs \<noteq> [] \<Longrightarrow> last (concat bs) = last (last bs)"
  by (cases bs rule: rev_cases) auto

lemma index_entries_prefix:
  assumes "length seps \<le> length blks"
  shows "index_entries opts seps (blks @ [cur]) = index_entries opts seps blks"
proof -
  obtain c t where c: "compress_block opts (build_block ri cur) = (c, t)" by fastforce
  have "zip seps (xs @ [x]) = zip seps xs" if "length seps \<le> length xs" for x :: slice and xs
    using that by (simp add: zip_append2)
  then show ?thesis using assms by (simp add: index_entries_def c piece_handles_snoc)
qed

lemma index_entries_snoc:
  assumes "Suc (length seps) = length blks"
  shows "index_entries opts (seps @ [k]) blks =
    index_entries opts seps blks @ [(k, BlockHandle_EncodeTo (last (piece_handles ext (data_pieces opts blks))) [])]"
proof -
  have "zip (seps @ [k]) hs = zip seps hs @ [(k, last hs)]" if "length hs = Suc (length seps)" for hs :: "slice list"
    using that by (cases hs rule: rev_cases) (simp_all add: zip_append2)
  moreover have "piece_handles ext (data_pieces opts blks) \<noteq> []"
    using assms length_piece_handles [of ext "data_pieces opts blks"] by (metis length_0_conv length_map nat.simps(3))
  ultimately show ?thesis using assms by (simp add: index_entries_def last_map)
qed

lemma separators_last_block:
  assumes "cur \<noteq> []"
  shows "separators sep (blks @ [cur @ [e]]) = separators sep (blks @ [cur])"
  using assms by (cases "blks = []") (simp_all add: separators_snoc)

lemma builder_nonempty:
  assumes "builder_inv ri cur b"
  shows "BlockBuilder_empty b \<longleftrightarrow> cur = []"
proof -
  have "buffer b = entries_bytes ri cur (length cur)" using assms by (simp add: builder_inv_def)
  then show ?thesis
    using entry_pos_ge [of "length cur" ri cur]
    by (cases "entries_bytes ri cur (length cur)") (auto simp: BlockBuilder_empty_def entry_pos_def entries_bytes_def [of _ "[]"])
qed

lemma StartBlock_total:
  assumes pol: "filter_policy n C km summaries" and n: "0 < n" and rel: "fb_rel summaries n fb gs p"
  shows "\<exists>fb' gs' p'. FilterBlockBuilder_StartBlock C off fb = Some fb' \<and> fb_rel summaries n fb' gs' p'"
proof (cases "length gs \<le> off div kFilterBase")
  case True
  from filter_policy.StartBlock_rel [OF pol rel n True] show ?thesis by blast
next
  case False
  have "length (hd (filters_offsets fb)) = length gs"
    using rel n by (simp add: fb_rel_def hd_map hd_upt)
  then show ?thesis using False rel by (auto simp: FilterBlockBuilder_StartBlock_def Let_def)
qed

lemma feed_start:
  assumes "feed_blocks C (filter_feed opts blks cur) b = Some fb"
  shows "feed_blocks C (filter_feed opts (blks @ [cur]) []) b =
    FilterBlockBuilder_StartBlock C (unat (of_nat (length (file_bytes ext (data_pieces opts (blks @ [cur])))) :: u64)) fb"
  using assms unfolding filter_feed_blocks
  by (simp add: feed_blocks_append feed_block_def)
    (cases "FilterBlockBuilder_StartBlock C (unat (of_nat (length (file_bytes ext (data_pieces opts (blks @ [cur])))) :: u64)) fb"; simp)

lemma WriteBlock_written:
  assumes "written ps r" "builder_inv n es b" "0 < n"
  shows "\<exists>f. WriteBlock opts b r = (piece_handle ext ps (fst (compress_block opts (build_block n es))), new_BlockBuilder,
      r\<lparr>tb_file := f, tb_offset := of_nat (length (file_bytes ext (ps @ [compress_block opts (build_block n es)])))\<rparr>) \<and>
    finv f \<and> fcontents f = file_bytes ext (ps @ [compress_block opts (build_block n es)])"
proof -
  obtain c t where c: "compress_block opts (build_block n es) = (c, t)" by fastforce
  obtain b' where b: "BlockBuilder_Finish b = (build_block n es, b')"
    using builder_inv_unique [OF assms(2,3)] by (cases "BlockBuilder_Finish b") auto
  obtain f where "WriteRawBlock opts c t r = (piece_handle ext ps c, r\<lparr>tb_file := f, tb_offset := of_nat (length (file_bytes ext (ps @ [(c, t)])))\<rparr>)"
    "finv f" "fcontents f = file_bytes ext (ps @ [(c, t)])"
    using WriteRawBlock_written [OF assms(1), of c t] by blast
  then show ?thesis by (intro exI [of _ f]) (simp add: WriteBlock_def b c Reset_new)
qed

lemma start_filter_block_simps:
  "opt_filter_policy opts = None \<Longrightarrow> start_filter_block opts off r = Some r"
  "opt_filter_policy opts = Some (C, n, name) \<Longrightarrow> tb_filter_block r = Some fb \<Longrightarrow>
     start_filter_block opts off r = map_option (\<lambda>fb. r\<lparr>tb_filter_block := Some fb\<rparr>) (FilterBlockBuilder_StartBlock C (unat off) fb)"
  by (simp_all add: start_filter_block_def)

lemma Flush_rel:
  assumes rel: "tb_rel blks cur r" and cur: "cur \<noteq> []"
  shows "\<exists>r'. TableBuilder_Flush opts r = Some r' \<and> tb_rel (blks @ [cur]) [] r'"
proof -
  let ?ps = "data_pieces opts blks" and ?ps' = "data_pieces opts (blks @ [cur])"
  have w: "written ?ps r" "builder_inv ri cur (tb_data_block r)" using rel by (simp_all add: tb_rel_def)
  obtain f where f: "WriteBlock opts (tb_data_block r) r = (piece_handle ext ?ps (fst (compress_block opts (build_block ri cur))), new_BlockBuilder,
      r\<lparr>tb_file := f, tb_offset := of_nat (length (file_bytes ext ?ps'))\<rparr>)" "finv f" "fcontents f = file_bytes ext ?ps'"
    using WriteBlock_written [OF w interval] by auto
  obtain g where g: "opt_Flush opts f = (OK, g)" "finv g" "fcontents g = file_bytes ext ?ps'"
    using Flush_succeeds [OF f(2)] Flush_contents [OF f(2)] f(3) by (cases "opt_Flush opts f") auto
  define r3 where "r3 = r\<lparr>tb_file := g, tb_offset := of_nat (length (file_bytes ext ?ps')), tb_data_block := new_BlockBuilder,
     tb_pending_handle := piece_handle ext ?ps (fst (compress_block opts (build_block ri cur))), tb_pending_index_entry := True, tb_status := OK\<rparr>"
  have fl: "TableBuilder_Flush opts r = start_filter_block opts (of_nat (length (file_bytes ext ?ps'))) r3"
    using w builder_nonempty [OF w(2)] cur f(1) g(1)
    by (cases r) (simp add: TableBuilder_Flush_def Let_def written_def r3_def)
  have last: "last (piece_handles ext ?ps') = piece_handle ext ?ps (fst (compress_block opts (build_block ri cur)))"
    by (cases "compress_block opts (build_block ri cur)") (simp add: piece_handles_snoc)
  have core: "tb_rel (blks @ [cur]) [] (r3\<lparr>tb_filter_block := fbo\<rparr>)"
    if "case opt_filter_policy opts of None \<Rightarrow> fbo = None
      | Some (C, n, name) \<Rightarrow> \<exists>fb. fbo = Some fb \<and>
          feed_blocks C (filter_feed opts (blks @ [cur]) []) (new_FilterBlockBuilder n) = Some fb \<and> (\<exists>gs p. fb_rel summaries n fb gs p)" for fbo
    using rel cur that g last
    by (auto simp: tb_rel_def r3_def written_def builder_inv_new index_entries_prefix split: option.splits)
  show ?thesis
  proof (cases "opt_filter_policy opts")
    case None
    then have "r3\<lparr>tb_filter_block := None\<rparr> = r3" using rel by (simp add: tb_rel_def r3_def)
    with core [of None] None show ?thesis by (simp add: fl start_filter_block_simps)
  next
    case (Some pol)
    obtain C n name where pol: "opt_filter_policy opts = Some (C, n, name)" using Some by (cases pol) auto
    obtain fb gs p where fb: "tb_filter_block r = Some fb" "fb_rel summaries n fb gs p"
      "feed_blocks C (filter_feed opts blks cur) (new_FilterBlockBuilder n) = Some fb"
      using rel pol by (auto simp: tb_rel_def)
    obtain km where km: "0 < n" "filter_policy n C km summaries" using policy [OF pol] by blast
    obtain fb' gs' p' where fb': "FilterBlockBuilder_StartBlock C (unat (of_nat (length (file_bytes ext ?ps')) :: u64)) fb = Some fb'"
      "fb_rel summaries n fb' gs' p'"
      using StartBlock_total [OF km(2,1) fb(2)] by blast
    have "tb_filter_block r3 = Some fb" using fb(1) by (simp add: r3_def)
    then have "TableBuilder_Flush opts r = Some (r3\<lparr>tb_filter_block := Some fb'\<rparr>)"
      using fb'(1) by (simp add: fl start_filter_block_simps(2) [OF pol])
    moreover have "tb_rel (blks @ [cur]) [] (r3\<lparr>tb_filter_block := Some fb'\<rparr>)"
      using feed_start [OF fb(3)] fb' pol by (intro core) auto
    ultimately show ?thesis by blast
  qed
qed

lemma tb_rel_add:
  assumes rel: "tb_rel blks cur r"
    and r1: "r1 = (if tb_pending_index_entry r then add_index_entry (opt_FindShortestSeparator opts (tb_last_key r) k) r else r)"
    and r2: "r2 = r1\<lparr>tb_filter_block := map_option (FilterBlockBuilder_AddKey k) (tb_filter_block r1), tb_last_key := k,
       tb_num_entries := tb_num_entries r1 + 1, tb_data_block := BlockBuilder_Add ri k v (tb_data_block r1)\<rparr>"
  shows "tb_rel blks (cur @ [(k, v)]) r2"
proof -
  let ?sep = "opt_FindShortestSeparator opts" and ?cur = "cur @ [(k, v)]"
  let ?idx = "\<lambda>seps. index_entries opts seps blks"
  have ne: "\<forall>b\<in>set blks. b \<noteq> []" using rel by (simp add: tb_rel_def)
  have index: "builder_inv 1 (?idx (separators ?sep (blks @ [?cur]))) (tb_index_block r1)"
  proof (cases "tb_pending_index_entry r")
    case True
    with rel have p: "blks \<noteq> []" "cur = []" "tb_pending_handle r = last (piece_handles ext (data_pieces opts blks))"
      "builder_inv 1 (?idx (separators ?sep blks)) (tb_index_block r)" by (auto simp: tb_rel_def)
    have lk: "tb_last_key r = fst (last (last blks))"
      using rel p ne last_concat_blocks [of blks] by (simp add: tb_rel_def)
    have "separators ?sep (blks @ [[(k, v)]]) = separators ?sep blks @ [?sep (tb_last_key r) k]"
      using separators_snoc [OF p(1), of ?sep "[(k, v)]"] lk by simp
    moreover have "?idx (separators ?sep blks @ [?sep (tb_last_key r) k]) =
        ?idx (separators ?sep blks) @ [(?sep (tb_last_key r) k, BlockHandle_EncodeTo (tb_pending_handle r) [])]"
      unfolding p(3) using p(1) by (intro index_entries_snoc) (cases blks; simp)
    ultimately show ?thesis
      using True p(2) builder_inv_Add [OF p(4), of "?sep (tb_last_key r) k"] by (simp add: r1 add_index_entry_def)
  next
    case False
    with rel have i: "builder_inv 1 (?idx (separators ?sep (blks @ (if cur = [] then [] else [cur])))) (tb_index_block r)"
      "blks = [] \<or> cur \<noteq> []" by (auto simp: tb_rel_def)
    have "separators ?sep (blks @ (if cur = [] then [] else [cur])) = separators ?sep (blks @ [?cur])"
      using i(2) by (auto simp: separators_last_block)
    with i(1) False show ?thesis by (simp add: r1)
  qed
  have data: "builder_inv ri ?cur (tb_data_block r2)"
  proof -
    have "builder_inv ri cur (tb_data_block r)" using rel by (simp add: tb_rel_def)
    moreover have "tb_data_block r2 = BlockBuilder_Add ri k v (tb_data_block r)" by (simp add: r2 r1 add_index_entry_def)
    ultimately show ?thesis using builder_inv_Add [OF _ interval] by simp
  qed
  have pend: "\<not> tb_pending_index_entry r2" using rel by (auto simp: tb_rel_def r2 r1 add_index_entry_def)
  have w: "written (data_pieces opts blks) r2" using rel by (auto simp: tb_rel_def written_def r2 r1 add_index_entry_def)
  have fb: "tb_filter_block r2 = map_option (FilterBlockBuilder_AddKey k) (tb_filter_block r)"
    by (simp add: r2 r1 add_index_entry_def)
  have "case opt_filter_policy opts of
        None \<Rightarrow> tb_filter_block r2 = None
      | Some (C, n, name) \<Rightarrow> \<exists>fb. tb_filter_block r2 = Some fb \<and>
          feed_blocks C (filter_feed opts blks ?cur) (new_FilterBlockBuilder n) = Some fb \<and>
          (\<exists>gs p. fb_rel summaries n fb gs p)"
  proof (cases "opt_filter_policy opts")
    case None
    then show ?thesis using rel by (simp add: tb_rel_def fb)
  next
    case (Some pol)
    obtain C n name where pol: "opt_filter_policy opts = Some (C, n, name)" using Some by (cases pol) auto
    obtain b gs p where b: "tb_filter_block r = Some b" "fb_rel summaries n b gs p"
      "feed_blocks C (filter_feed opts blks cur) (new_FilterBlockBuilder n) = Some b"
      using rel pol by (auto simp: tb_rel_def)
    with fb_rel_AddKey [OF b(2), of k] pol show ?thesis by (auto simp: fb feed_one_key)
  qed
  then show ?thesis
    unfolding tb_rel_def using index data pend w ne by (auto simp: r2)
qed

lemma Add_rel:
  assumes rel: "tb_rel blks cur r"
  shows "\<exists>r' blks' cur'. TableBuilder_Add opts k v r = Some r' \<and> tb_rel blks' cur' r' \<and>
    concat blks' @ cur' = concat blks @ cur @ [(k, v)]"
proof -
  define r1 where "r1 = (if tb_pending_index_entry r then add_index_entry (opt_FindShortestSeparator opts (tb_last_key r) k) r else r)"
  define r2 where "r2 = r1\<lparr>tb_filter_block := map_option (FilterBlockBuilder_AddKey k) (tb_filter_block r1), tb_last_key := k,
       tb_num_entries := tb_num_entries r1 + 1, tb_data_block := BlockBuilder_Add ri k v (tb_data_block r1)\<rparr>"
  note step = tb_rel_add [OF rel r1_def r2_def]
  have "ok (tb_status r)" using rel by (simp add: tb_rel_def written_def)
  then have "TableBuilder_Add opts k v r =
      (if opt_block_size opts \<le> CurrentSizeEstimate (tb_data_block r2) then TableBuilder_Flush opts r2 else Some r2)"
    by (simp add: TableBuilder_Add_def Let_def r1_def r2_def)
  with Flush_rel [OF step] step show ?thesis by (fastforce split: if_splits)
qed

definition adds :: "(slice \<times> slice) list \<Rightarrow> 'f TableBuilder \<Rightarrow> 'f TableBuilder option" where
  "adds es r = fold (\<lambda>(k, v) r. Option.bind r (TableBuilder_Add opts k v)) es (Some r)"

lemma adds_rel:
  assumes "tb_rel blks cur r"
  shows "\<exists>r' blks' cur'. adds es r = Some r' \<and> tb_rel blks' cur' r' \<and> concat blks' @ cur' = concat blks @ cur @ es"
  using assms
proof (induction es arbitrary: blks cur r)
  case (Cons e es)
  obtain k v where e: "e = (k, v)" by fastforce
  obtain r1 b1 c1 where 1: "TableBuilder_Add opts k v r = Some r1" "tb_rel b1 c1 r1" "concat b1 @ c1 = concat blks @ cur @ [e]"
    using Add_rel [OF Cons.prems, of k v] e by blast
  have "concat b1 @ c1 @ es = concat blks @ cur @ e # es" using 1(3) by (metis append.assoc append_Cons append_Nil)
  with Cons.IH [OF 1(2)] 1(1) show ?case by (simp add: adds_def e)
qed (auto simp: adds_def)

lemma new_rel:
  assumes "finv f" "fcontents f = []"
  shows "\<exists>r. new_TableBuilder opts f = Some r \<and> tb_rel [] [] r"
proof (cases "opt_filter_policy opts")
  case None
  then show ?thesis
    using assms by (simp add: new_TableBuilder_def start_filter_block_def tb_rel_def written_def file_bytes_def
        builder_inv_new index_entries_def)
next
  case (Some pol)
  obtain C n name where pol: "pol = (C, n, name)" by (cases pol)
  have "FilterBlockBuilder_StartBlock C 0 (new_FilterBlockBuilder n) = Some (new_FilterBlockBuilder n)"
    by (simp add: FilterBlockBuilder_StartBlock_def)
  then show ?thesis
    using assms Some fb_rel_new [of summaries n]
    by (auto simp: new_TableBuilder_def start_filter_block_def tb_rel_def written_def file_bytes_def pol
        builder_inv_new index_entries_def filter_feed_def feed_block_def)
qed

lemma write_filters_written:
  assumes "written ps r"
  shows "\<exists>f. write_filters opts raws r =
      (drop (length ps) (piece_handles ext (ps @ map (\<lambda>x. (x, kNoCompression)) raws)),
       r\<lparr>tb_file := f, tb_offset := of_nat (length (file_bytes ext (ps @ map (\<lambda>x. (x, kNoCompression)) raws)))\<rparr>) \<and>
    finv f \<and> fcontents f = file_bytes ext (ps @ map (\<lambda>x. (x, kNoCompression)) raws)"
  using assms
proof (induction raws arbitrary: ps r)
  case Nil
  then show ?case by (intro exI [of _ "tb_file r"]) (simp add: written_def)
next
  case (Cons raw raws)
  let ?ps = "ps @ [(raw, kNoCompression)]"
  obtain f where f: "WriteRawBlock opts raw kNoCompression r =
      (piece_handle ext ps raw, r\<lparr>tb_file := f, tb_offset := of_nat (length (file_bytes ext ?ps))\<rparr>)"
    "finv f" "fcontents f = file_bytes ext ?ps"
    using WriteRawBlock_written [OF Cons.prems] by blast
  have w: "written ?ps (r\<lparr>tb_file := f, tb_offset := of_nat (length (file_bytes ext ?ps))\<rparr>)"
    using Cons.prems f by (intro written_upd) (simp_all add: written_def)
  have "length (piece_handles ext (?ps @ xs)) = Suc (length ps + length xs)" for xs by simp
  moreover have "piece_handles ext (?ps @ xs) ! length ps = piece_handle ext ps raw" for xs
    by (simp add: piece_handles_def nth_append del: upt_Suc)
  ultimately have h: "drop (length ps) (piece_handles ext (?ps @ xs)) = piece_handle ext ps raw # drop (length ?ps) (piece_handles ext (?ps @ xs))" for xs
    by (metis Cons_nth_drop_Suc length_append_singleton less_add_Suc1)
  from Cons.IH [OF w] obtain g where "write_filters opts raws (r\<lparr>tb_file := f, tb_offset := of_nat (length (file_bytes ext ?ps))\<rparr>) =
      (drop (length ?ps) (piece_handles ext (?ps @ map (\<lambda>x. (x, kNoCompression)) raws)),
       r\<lparr>tb_file := g, tb_offset := of_nat (length (file_bytes ext (?ps @ map (\<lambda>x. (x, kNoCompression)) raws)))\<rparr>)"
    "finv g" "fcontents g = file_bytes ext (?ps @ map (\<lambda>x. (x, kNoCompression)) raws)" by auto
  with f h show ?case by (intro exI [of _ g]) simp
qed

text \<open>The end of the file, for finished filters \<open>fbo\<close>.\<close>

lemma finish_filters_rel:
  assumes rel: "tb_rel blks [] r"
  shows "\<exists>f fbo md. finish_filters opts r =
      Some (drop (length blks) (piece_handles ext (data_pieces opts blks @ filter_pieces fbo)),
        r\<lparr>tb_filter_block := fbo, tb_meta_data := md, tb_file := f, tb_offset := of_nat (length (file_bytes ext (data_pieces opts blks @ filter_pieces fbo)))\<rparr>) \<and>
    finv f \<and> fcontents f = file_bytes ext (data_pieces opts blks @ filter_pieces fbo) \<and> filters_of opts blks fbo \<and>
    (\<forall>fb. fbo = Some fb \<longrightarrow> md_filter_data md = results fb)"
proof (cases "opt_filter_policy opts")
  case None
  then have "tb_filter_block r = None" "written (data_pieces opts blks) r" using rel by (simp_all add: tb_rel_def)
  with None show ?thesis
    by (intro exI [of _ "tb_file r"] exI [of _ None] exI [of _ "tb_meta_data r"])
      (cases r, simp add: finish_filters_def filter_pieces_def filters_of_def written_def)
next
  case (Some pol)
  obtain C n name where pol: "opt_filter_policy opts = Some (C, n, name)" using Some by (cases pol) auto
  obtain fb gs p where fb: "tb_filter_block r = Some fb" "fb_rel summaries n fb gs p"
    "feed_blocks C (filter_feed opts blks []) (new_FilterBlockBuilder n) = Some fb"
    using rel pol by (auto simp: tb_rel_def)
  obtain km where km: "0 < n" "filter_policy n C km summaries" using policy [OF pol] by blast
  obtain fb' where fb': "FilterBlockBuilder_Finish C fb = Some fb'" using filter_policy.Finish_rel [OF km(2) fb(2)] by blast
  let ?r = "r\<lparr>tb_filter_block := Some fb', tb_meta_data := (tb_meta_data r)\<lparr>md_filter_data := results fb'\<rparr>\<rparr>"
  have w: "written (data_pieces opts blks) ?r" using rel by (simp add: tb_rel_def written_def)
  obtain f where "write_filters opts (results fb') ?r =
      (drop (length blks) (piece_handles ext (data_pieces opts blks @ filter_pieces (Some fb'))),
       ?r\<lparr>tb_file := f, tb_offset := of_nat (length (file_bytes ext (data_pieces opts blks @ filter_pieces (Some fb'))))\<rparr>)"
    "finv f" "fcontents f = file_bytes ext (data_pieces opts blks @ filter_pieces (Some fb'))"
    using write_filters_written [OF w, of "results fb'"] by (auto simp: filter_pieces_def)
  moreover have "ok (tb_status r)" using w by (simp add: written_def)
  ultimately show ?thesis
    using pol fb fb'
    by (intro exI [of _ f] exI [of _ "Some fb'"] exI [of _ "(tb_meta_data r)\<lparr>md_filter_data := results fb'\<rparr>"]) (simp add: finish_filters_def filters_of_def)
qed

lemma finish_metaindex_rel:
  assumes w: "written ps r" and es: "es = meta_block_entries opts (tb_filter_block r) hs"
  shows "\<exists>f. finish_metaindex opts hs r = (piece_handle ext ps (fst (compress_block opts (build_block ri es))),
      r\<lparr>tb_file := f, tb_offset := of_nat (length (file_bytes ext (ps @ [compress_block opts (build_block ri es)])))\<rparr>) \<and>
    finv f \<and> fcontents f = file_bytes ext (ps @ [compress_block opts (build_block ri es)])"
proof -
  have "builder_inv ri es (BlockBuilder_Add_all ri es new_BlockBuilder)"
    using builder_inv_Add_all [OF builder_inv_new interval, of es] by simp
  from WriteBlock_written [OF w this interval] obtain f where
    "WriteBlock opts (BlockBuilder_Add_all ri es new_BlockBuilder) r =
      (piece_handle ext ps (fst (compress_block opts (build_block ri es))), new_BlockBuilder,
       r\<lparr>tb_file := f, tb_offset := of_nat (length (file_bytes ext (ps @ [compress_block opts (build_block ri es)])))\<rparr>)"
    "finv f" "fcontents f = file_bytes ext (ps @ [compress_block opts (build_block ri es)])" by blast
  moreover have "ok (tb_status r)" using w by (simp add: written_def)
  ultimately show ?thesis
    by (intro exI [of _ f]) (simp add: finish_metaindex_def Let_def es meta_block_entries_def)
qed

lemma finish_index_rel:
  assumes w: "written ps r" and idx: "builder_inv 1 (index_entries opts (separators (opt_FindShortestSeparator opts) blks) blks) (tb_index_block r)"
    and pend: "tb_pending_index_entry r \<longleftrightarrow> blks \<noteq> []"
      "blks \<noteq> [] \<Longrightarrow> tb_pending_handle r = last (piece_handles ext (data_pieces opts blks)) \<and> tb_last_key r = fst (last (last blks))"
    and es: "es = index_entries opts (index_keys opts blks) blks"
  shows "\<exists>r'. finish_index opts r = (piece_handle ext ps (fst (compress_block opts (build_block 1 es))), r') \<and>
    written (ps @ [compress_block opts (build_block 1 es)]) r' \<and> md_filter_data (tb_meta_data r') = md_filter_data (tb_meta_data r)"
proof -
  define r1 where "r1 = (if tb_pending_index_entry r then add_index_entry (opt_FindShortSuccessor opts (tb_last_key r)) r else r)"
  have i1: "builder_inv 1 es (tb_index_block r1)"
  proof (cases "blks = []")
    case True
    then show ?thesis using idx pend by (simp add: r1_def es index_keys_def)
  next
    case False
    have "es = index_entries opts (separators (opt_FindShortestSeparator opts) blks) blks @
        [(opt_FindShortSuccessor opts (tb_last_key r), BlockHandle_EncodeTo (tb_pending_handle r) [])]"
      using False pend(2) by (simp add: es index_keys_def index_entries_snoc Suc_diff_1)
    with False pend(1) builder_inv_Add [OF idx] show ?thesis by (simp add: r1_def add_index_entry_def)
  qed
  obtain b where fin: "BlockBuilder_Finish (tb_index_block r1) = (build_block 1 es, b)"
    using builder_inv_unique [OF i1] by (cases "BlockBuilder_Finish (tb_index_block r1)") auto
  have fin': "BlockBuilder_Finish b = (build_block 1 es, b)"
    using fin i1 by (auto simp: BlockBuilder_Finish_def Let_def builder_inv_def)
  define r2 where "r2 = r1\<lparr>tb_index_block := b, tb_meta_data := (tb_meta_data r1)\<lparr>md_index_data := build_block 1 es\<rparr>\<rparr>"
  have w2: "written ps r2" using w by (simp add: written_def r2_def r1_def add_index_entry_def)
  obtain c t where c: "compress_block opts (build_block 1 es) = (c, t)" by fastforce
  obtain f where f: "WriteRawBlock opts c t r2 = (piece_handle ext ps c, r2\<lparr>tb_file := f, tb_offset := of_nat (length (file_bytes ext (ps @ [(c, t)])))\<rparr>)"
    "finv f" "fcontents f = file_bytes ext (ps @ [(c, t)])"
    using WriteRawBlock_written [OF w2, of c t] by blast
  have "WriteBlock opts b r2 = (piece_handle ext ps c, new_BlockBuilder, r2\<lparr>tb_file := f, tb_offset := of_nat (length (file_bytes ext (ps @ [(c, t)])))\<rparr>)"
    using f(1) by (simp add: WriteBlock_def fin' c [unfolded One_nat_def] Reset_new)
  moreover have "ok (tb_status r)" "tb_status r2 = OK" using w w2 by (simp_all add: written_def)
  ultimately show ?thesis
    using f fin c [unfolded One_nat_def] by (auto simp: finish_index_def Let_def r1_def [symmetric] r2_def written_def) (simp add: r1_def add_index_entry_def)
qed

lemma Finish_rel:
  assumes rel: "tb_rel blks cur r" and blks': "blks' = blks @ (if cur = [] then [] else [cur])"
  shows "\<exists>r' fbo. TableBuilder_Finish opts r = Some r' \<and> tb_status r' = OK \<and> filters_of opts blks' fbo \<and>
    finv (tb_file r') \<and> fcontents (tb_file r') = table_bytes opts blks' fbo \<and>
    TableBuilder_FileSize r' = of_nat (length (table_bytes opts blks' fbo)) \<and>
    (\<forall>fb. fbo = Some fb \<longrightarrow> md_filter_data (tb_meta_data r') = results fb)"
proof -
  obtain r1 where fl: "TableBuilder_Flush opts r = Some r1" and rel1: "tb_rel blks' [] r1"
  proof (cases "cur = []")
    case True
    then have "TableBuilder_Flush opts r = Some r"
      using rel builder_nonempty [of cur "tb_data_block r"] by (simp add: tb_rel_def TableBuilder_Flush_def)
    with that rel True blks' show ?thesis by simp
  qed (use Flush_rel [OF rel] blks' that in auto)
  have rel2: "tb_rel blks' [] (r1\<lparr>tb_closed := True\<rparr>)" using rel1 by (cases "opt_filter_policy opts") (auto simp: tb_rel_def written_def)
  obtain f2 fbo md where f2: "finish_filters opts (r1\<lparr>tb_closed := True\<rparr>) =
      Some (drop (length blks') (piece_handles ext (data_pieces opts blks' @ filter_pieces fbo)),
        r1\<lparr>tb_closed := True, tb_filter_block := fbo,
          tb_meta_data := md,
          tb_file := f2, tb_offset := of_nat (length (file_bytes ext (data_pieces opts blks' @ filter_pieces fbo)))\<rparr>)"
    "finv f2" "fcontents f2 = file_bytes ext (data_pieces opts blks' @ filter_pieces fbo)" "filters_of opts blks' fbo"
    "\<forall>fb. fbo = Some fb \<longrightarrow> md_filter_data md = results fb"
    using finish_filters_rel [OF rel2] by auto
  let ?hs = "drop (length blks') (piece_handles ext (data_pieces opts blks' @ filter_pieces fbo))"
  define r2 where "r2 = r1\<lparr>tb_closed := True, tb_filter_block := fbo,
          tb_meta_data := md,
          tb_file := f2, tb_offset := of_nat (length (file_bytes ext (data_pieces opts blks' @ filter_pieces fbo)))\<rparr>"
  let ?p1 = "data_pieces opts blks' @ filter_pieces fbo"
  have w2: "written ?p1 r2" using f2 rel1 by (simp add: written_def r2_def tb_rel_def)
  define mp where "mp = compress_block opts (build_block ri (meta_block_entries opts fbo ?hs))"
  obtain f3 where f3: "finish_metaindex opts ?hs r2 = (piece_handle ext ?p1 (fst mp),
      r2\<lparr>tb_file := f3, tb_offset := of_nat (length (file_bytes ext (?p1 @ [mp])))\<rparr>)" "finv f3" "fcontents f3 = file_bytes ext (?p1 @ [mp])"
    using finish_metaindex_rel [OF w2 refl, of ?hs] by (auto simp: r2_def mp_def)
  define r3 where "r3 = r2\<lparr>tb_file := f3, tb_offset := of_nat (length (file_bytes ext (?p1 @ [mp])))\<rparr>"
  have w3: "written (?p1 @ [mp]) r3" using w2 f3 by (simp add: written_def r3_def)
  define ip where "ip = compress_block opts (build_block 1 (index_entries opts (index_keys opts blks') blks'))"
  have lk: "tb_last_key r3 = fst (last (last blks'))" if "blks' \<noteq> []"
    using rel1 that last_concat_blocks [of blks'] last_in_set [OF that] by (auto simp: tb_rel_def r3_def r2_def)
  have "\<exists>r4. finish_index opts r3 = (piece_handle ext (?p1 @ [mp]) (fst ip), r4) \<and> written ((?p1 @ [mp]) @ [ip]) r4 \<and>
      md_filter_data (tb_meta_data r4) = md_filter_data (tb_meta_data r3)"
    unfolding ip_def using rel1 lk
    by (intro finish_index_rel [OF w3]) (auto simp: tb_rel_def r3_def r2_def)
  then obtain r4 where r4: "finish_index opts r3 = (piece_handle ext (?p1 @ [mp]) (fst ip), r4)" "written (?p1 @ [mp, ip]) r4"
    "md_filter_data (tb_meta_data r4) = md_filter_data md" by (auto simp: r3_def r2_def)
  let ?foot = "Footer_EncodeTo \<lparr>metaindex_handle = piece_handle ext ?p1 (fst mp), index_handle = piece_handle ext (?p1 @ [mp]) (fst ip)\<rparr> []"
  obtain f5 where f5: "opt_Append opts ?foot (tb_file r4) = (OK, f5)" "finv f5" "fcontents f5 = file_bytes ext (?p1 @ [mp, ip]) @ ?foot"
    using Append_succeeds [of "tb_file r4" ?foot] Append_ok [of "tb_file r4" ?foot] r4(2)
    by (cases "opt_Append opts ?foot (tb_file r4)") (auto simp: written_def)
  have fin: "TableBuilder_Finish opts r = Some (finish_footer opts (piece_handle ext ?p1 (fst mp)) (piece_handle ext (?p1 @ [mp]) (fst ip)) r4)"
    using fl f2(1) [folded r2_def] f3(1) [folded r3_def] r4(1) by (simp add: TableBuilder_Finish_def)
  have tb: "table_bytes opts blks' fbo = file_bytes ext (?p1 @ [mp, ip]) @ ?foot"
    by (simp add: table_bytes_def Let_def mp_def ip_def)
  have "tb_meta_data (finish_footer opts mih ih r4) = tb_meta_data r4" for mih ih
    by (simp add: finish_footer_def Let_def split: prod.splits)
  then have "\<forall>fb. fbo = Some fb \<longrightarrow> md_filter_data (tb_meta_data (finish_footer opts mih ih r4)) = results fb" for mih ih
    using r4(3) f2(5) by metis
  moreover have "tb_status r5 = OK \<and> finv (tb_file r5) \<and> fcontents (tb_file r5) = table_bytes opts blks' fbo \<and>
      TableBuilder_FileSize r5 = of_nat (length (table_bytes opts blks' fbo))"
    if "r5 = finish_footer opts (piece_handle ext ?p1 (fst mp)) (piece_handle ext (?p1 @ [mp]) (fst ip)) r4" for r5
    unfolding that using f5 r4(2) by (simp add: finish_footer_def Let_def written_def TableBuilder_FileSize_def tb)
  ultimately show ?thesis using fin f2(4) by blast
qed

lemma build_table:
  assumes "finv f" "fcontents f = []"
  shows "\<exists>r blks fbo. TableBuilder_build opts es f = Some r \<and> tb_status r = OK \<and>
    concat blks = es \<and> (\<forall>b\<in>set blks. b \<noteq> []) \<and> filters_of opts blks fbo \<and>
    finv (tb_file r) \<and> fcontents (tb_file r) = table_bytes opts blks fbo \<and>
    TableBuilder_FileSize r = of_nat (length (table_bytes opts blks fbo)) \<and>
    (\<forall>fb. fbo = Some fb \<longrightarrow> md_filter_data (tb_meta_data r) = results fb)"
proof -
  obtain r0 where 0: "new_TableBuilder opts f = Some r0" "tb_rel [] [] r0" using new_rel [OF assms] by blast
  obtain r1 blks cur where 1: "adds es r0 = Some r1" "tb_rel blks cur r1" "concat blks @ cur = es"
    using adds_rel [OF 0(2), of es] by auto
  define blks' where "blks' = blks @ (if cur = [] then [] else [cur])"
  have "concat blks' = es" "\<forall>b\<in>set blks'. b \<noteq> []" using 1 by (auto simp: blks'_def tb_rel_def)
  moreover have "TableBuilder_build opts es f = TableBuilder_Finish opts r1"
    using 0(1) 1(1) by (simp add: TableBuilder_build_def adds_def)
  ultimately show ?thesis using Finish_rel [OF 1(2) blks'_def] by metis
qed

end

end
