(* ===== verification/TableReader.thy ===== *)
theory TableReader
  imports TableLayout
begin

text \<open>
  table/table.cc: opening a table, reading its blocks and looking up a key. The options and
  the file are one record of parameters: \<open>re_Read\<close> is \<open>RandomAccessFile::Read\<close> (with whether the
  bytes are in the caller's buffer), \<open>re_Reads\<close> its scattered variant. A result \<open>None\<close> stands for
  undefined behaviour of the source: an index out of range, or an iterator used while it is not
  valid. Statistics, timers and the counters in \<open>ReadOptions\<close> are left out.
\<close>

subsection \<open>Data\<close>

record ReadEnv =
  re_Read :: "nat \<Rightarrow> nat \<Rightarrow> status + slice \<times> bool"
  re_Reads :: "nat \<Rightarrow> nat list \<Rightarrow> status + slice list \<times> bool"
  re_snappy_length :: "slice \<Rightarrow> nat option"
  re_snappy_uncompress :: "slice \<Rightarrow> slice option"
  re_crc :: "slice \<Rightarrow> u32"
  re_Compare :: "slice \<Rightarrow> slice \<Rightarrow> int"
  re_filter_policy :: "((slice \<Rightarrow> slice list \<Rightarrow> bool option) \<times> slice) option"
  re_bits_per_key :: "nat list"
  re_region_divide_size :: nat
  re_freq_divide_size :: nat
  re_kFilterBaseLg :: nat
  re_init_filter_nums :: nat
  re_real_size :: bool
  re_paranoid_checks :: bool

record TableRep =
  rep_filters :: Table
  rep_index_block :: "Block option"
  rep_metaindex_handle :: BlockHandle
  rep_cache_id :: u64
  rep_has_access :: "bool list"
  rep_freqs :: "nat list"

definition setAccess :: "nat \<Rightarrow> TableRep \<Rightarrow> TableRep" where
  "setAccess regionId rep = rep\<lparr>rep_has_access := (rep_has_access rep)[regionId := True]\<rparr>"

definition isAccess :: "nat \<Rightarrow> TableRep \<Rightarrow> bool option" where
  "isAccess regionId rep = (if regionId < length (rep_has_access rep) then Some (rep_has_access rep ! regionId) else None)"

subsection \<open>Iterators over a block\<close>

text \<open>
  \<open>Block::NewIterator\<close> on a block that may carry the error marker (\<open>None\<close>), followed by \<open>Seek\<close>: the
  status of the iterator and the entry it is at, if it is valid.
\<close>

definition block_seek ::
  "(slice \<Rightarrow> slice \<Rightarrow> int) \<Rightarrow> Block option \<Rightarrow> slice \<Rightarrow> (status \<times> (slice \<times> slice) option) option" where
  "block_seek Compare blo target =
     (case blo of
        None \<Rightarrow> Some (Corruption ''bad block contents'', None)
      | Some bl \<Rightarrow>
          if num_restarts bl = 0 then Some (OK, None)
          else map_option (\<lambda>it. (iter_status it, if iter_Valid bl it then Some (iter_key it, iter_value bl it) else None))
                 (iter_Seek Compare bl target (new_BlockIter bl)))"

text \<open>The entries from the one found by \<open>Seek\<close> on, as stepping with \<open>Next\<close> visits them.\<close>

definition entries_from :: "Block option \<Rightarrow> slice \<Rightarrow> (slice \<times> slice) list option" where
  "entries_from blo target =
     (case blo of
        None \<Rightarrow> Some []
      | Some bl \<Rightarrow>
          if num_restarts bl = 0 then Some []
          else map_option (iterate (restart_offset bl + 1) bl) (iter_Seek Bytewise_Compare bl target (new_BlockIter bl)))"

subsection \<open>Open\<close>

definition Read_block :: "ReadEnv \<Rightarrow> bool \<Rightarrow> BlockHandle \<Rightarrow> status + BlockContents" where
  "Read_block env verify h =
     ReadBlock (re_Read env) (re_snappy_length env) (re_snappy_uncompress env) (re_crc env) verify h"

definition filter_Read :: "ReadEnv \<Rightarrow> nat \<Rightarrow> nat \<Rightarrow> status + slice" where
  "filter_Read env off n = (case re_Read env off n of Inl e \<Rightarrow> Inl e | Inr (contents, in_buf) \<Rightarrow> Inr contents)"

text \<open>
  \<open>ReadFilters\<close> before its loops: the blocks come from the table builder's copies or from the file.
\<close>

definition load_filters :: "ReadEnv \<Rightarrow> nat \<Rightarrow> slice list option \<Rightarrow> Table \<Rightarrow> Table option" where
  "load_filters env n filter_data t =
     (if n > length (filter_handles t) then None
      else
        case those (map (\<lambda>v. case BlockHandle_DecodeFrom v of Inl _ \<Rightarrow> None | Inr (h, _) \<Rightarrow> Some h) (take n (filter_handles t))) of
          None \<Rightarrow> Some t
        | Some hs \<Rightarrow>
            (case filter_data of
               Some copies \<Rightarrow> ReadFilters (re_region_divide_size env) (take n copies) t
             | None \<Rightarrow>
                 (case ReadBlocks (re_Reads env) (re_snappy_length env) (re_snappy_uncompress env) hs of
                    Inl _ \<Rightarrow> Some t
                  | Inr blocks \<Rightarrow>
                      if list_all heap_allocated blocks
                      then ReadFilters (re_region_divide_size env) (map bc_data blocks) t
                      else None)))"

definition Table_ReadMeta ::
  "ReadEnv \<Rightarrow> BlockHandle \<Rightarrow> nat \<Rightarrow> slice list option \<Rightarrow> Table \<Rightarrow> Table option" where
  "Table_ReadMeta env mih add_filter_num filter_data t =
     (case re_filter_policy env of
        None \<Rightarrow> Some t
      | Some (km, name) \<Rightarrow>
          (case Read_block env (re_paranoid_checks env) mih of
             Inl _ \<Rightarrow> Some t
           | Inr contents \<Rightarrow>
               let meta = new_Block (bc_data contents);
                   key_off = bytes_of ''filter.0offsets''
               in Option.bind (entries_from meta key_off) (\<lambda>es1.
                  Option.bind (entries_from meta (filter_key name 0)) (\<lambda>es2.
                    let t' = ReadMeta (re_region_divide_size env) (re_bits_per_key env)
                               (map snd (takeWhile (\<lambda>e. starts_with (fst e) key_off) es1)) (map snd es2) t
                    in if add_filter_num > 0 then load_filters env add_filter_num filter_data t' else Some t'))))"

text \<open>
  The number of access counters. The mask clears one bit of the offset, and the width of the
  filters is added as its logarithm.
\<close>

definition freq_count :: "ReadEnv \<Rightarrow> u64 \<Rightarrow> nat" where
  "freq_count env off =
     (let max_offset = off AND NOT (push_bit (re_kFilterBaseLg env - 1) 1)
      in unat (max_offset + of_nat (re_kFilterBaseLg env) + of_nat (re_freq_divide_size env) - 1) div re_freq_divide_size env)"

definition decode_handle :: "slice \<Rightarrow> BlockHandle" where
  "decode_handle v = (case BlockHandle_DecodeFrom v of Inl _ \<Rightarrow> no_handle | Inr (h, _) \<Rightarrow> h)"

definition last_index_value :: "Block option \<Rightarrow> slice option" where
  "last_index_value blo =
     (case blo of
        None \<Rightarrow> None
      | Some bl \<Rightarrow>
          if num_restarts bl = 0 then None
          else Option.bind (iter_SeekToLast bl (new_BlockIter bl)) (\<lambda>it.
            if iter_Valid bl it then Some (iter_value bl it) else None))"

definition Table_Open ::
  "ReadEnv \<Rightarrow> u64 \<Rightarrow> nat \<Rightarrow> nat \<Rightarrow> slice list option \<Rightarrow> (status + TableRep) option" where
  "Table_Open env cache_id sz add_filter_num filter_data =
     (if sz < kEncodedLength then Some (Inl (Corruption ''file is too short to be an sstable''))
      else
        case re_Read env (sz - kEncodedLength) kEncodedLength of
          Inl s \<Rightarrow> Some (Inl s)
        | Inr (footer_input, _) \<Rightarrow>
            (case Footer_DecodeFrom footer_input of
               Inl s \<Rightarrow> Some (Inl s)
             | Inr (footer, _) \<Rightarrow>
                 (case Read_block env (re_paranoid_checks env) (index_handle footer) of
                    Inl s \<Rightarrow> Some (Inl s)
                  | Inr contents \<Rightarrow>
                      let index_block = new_Block (bc_data contents) in
                      Option.bind (Table_ReadMeta env (metaindex_handle footer) add_filter_num filter_data fresh_table) (\<lambda>t.
                      Option.bind (last_index_value index_block) (\<lambda>v.
                        Some (Inr \<lparr>rep_filters = t, rep_index_block = index_block,
                          rep_metaindex_handle = metaindex_handle footer, rep_cache_id = cache_id,
                          rep_has_access = replicate (getRegionNum (re_region_divide_size env) t) False,
                          rep_freqs = replicate (freq_count env (bh_offset (decode_handle v))) 0\<rparr>))))))"

subsection \<open>Reading data blocks\<close>

text \<open>
  \<open>BlockReader\<close>. \<open>cached\<close> is what the block cache returns for a key, \<open>None\<close> if there is no block
  cache; the second component of the result is what is inserted into the cache.
\<close>

definition block_cache_key :: "TableRep \<Rightarrow> BlockHandle \<Rightarrow> slice" where
  "block_cache_key rep h = EncodeFixed64 (rep_cache_id rep) @ EncodeFixed64 (bh_offset h)"

definition Table_BlockReader ::
  "ReadEnv \<Rightarrow> bool \<Rightarrow> bool \<Rightarrow> (slice \<Rightarrow> Block option option) option \<Rightarrow> slice \<Rightarrow> TableRep \<Rightarrow>
   (status + Block option) \<times> (slice \<times> Block option) option" where
  "Table_BlockReader env verify fill_cache cached index_value rep =
     (case BlockHandle_DecodeFrom index_value of
        Inl s \<Rightarrow> (Inl s, None)
      | Inr (h, _) \<Rightarrow>
          (case Option.bind cached (\<lambda>lookup. lookup (block_cache_key rep h)) of
             Some block \<Rightarrow> (Inr block, None)
           | None \<Rightarrow>
               (case Read_block env verify h of
                  Inl s \<Rightarrow> (Inl s, None)
                | Inr contents \<Rightarrow>
                    let block = new_Block (bc_data contents)
                    in (Inr block,
                        if cached \<noteq> None \<and> cachable contents \<and> fill_cache then Some (block_cache_key rep h, block) else None))))"

subsection \<open>InternalGet\<close>

text \<open>The region of the block and, on the first access to it, the loading of filters.\<close>

definition region_of :: "ReadEnv \<Rightarrow> u64 \<Rightarrow> nat" where
  "region_of env off = unat (of_nat (unat off div re_region_divide_size env) :: u32)"

definition first_access :: "ReadEnv \<Rightarrow> nat \<Rightarrow> TableRep \<Rightarrow> TableRep option" where
  "first_access env regionId rep =
     Option.bind (isAccess regionId rep) (\<lambda>accessed.
       if \<not> accessed \<and> getCurrFilterNum regionId (rep_filters rep) = 0 then
         map_option (\<lambda>(delta, t). setAccess regionId (rep\<lparr>rep_filters := t\<rparr>))
           (AddFilters (re_region_divide_size env) (re_real_size env) (\<lambda>i. re_bits_per_key env ! i) (filter_Read env)
              (re_init_filter_nums env) regionId (rep_filters rep))
       else Some rep)"

text \<open>
  \<open>filter\<close> is read before filters are loaded: a pointer to the filter object, which is then
  changed in place, or null for this lookup.
\<close>

definition may_match :: "ReadEnv \<Rightarrow> bool \<Rightarrow> u64 \<Rightarrow> slice \<Rightarrow> TableRep \<Rightarrow> bool option" where
  "may_match env had_filter off k rep =
     (case (re_filter_policy env, tfilter (rep_filters rep)) of
        (Some (km, name), Some r) \<Rightarrow> if had_filter then FilterBlockReader_KeyMayMatch km (unat off) k r else Some True
      | _ \<Rightarrow> Some True)"

definition count_access :: "ReadEnv \<Rightarrow> u64 \<Rightarrow> TableRep \<Rightarrow> TableRep" where
  "count_access env off rep =
     (let which = unat off div re_freq_divide_size env in
      if which < length (rep_freqs rep) then rep\<lparr>rep_freqs := (rep_freqs rep)[which := rep_freqs rep ! which + 1]\<rparr> else rep)"

text \<open>
  The status, the entry passed to the saver, the region whose cache entry is touched next, the
  insertion into the block cache, and the table.
\<close>

type_synonym get_result =
  "status \<times> (slice \<times> slice) option \<times> nat option \<times> (slice \<times> Block option) option \<times> TableRep"

definition InternalGet ::
  "ReadEnv \<Rightarrow> bool \<Rightarrow> bool \<Rightarrow> (slice \<Rightarrow> Block option option) option \<Rightarrow> slice \<Rightarrow> TableRep \<Rightarrow> get_result option" where
  "InternalGet env verify fill_cache cached k rep =
     Option.bind (block_seek (re_Compare env) (rep_index_block rep) k) (\<lambda>(index_status, entry).
       case entry of
         None \<Rightarrow> Some (index_status, None, None, None, rep)
       | Some (index_key, handle_value) \<Rightarrow>
           let had_filter = (tfilter (rep_filters rep) \<noteq> None);
               ds_ok = (case BlockHandle_DecodeFrom handle_value of Inl _ \<Rightarrow> False | Inr _ \<Rightarrow> True);
               off = bh_offset (decode_handle handle_value);
               regionId = region_of env off
           in Option.bind (first_access env regionId rep) (\<lambda>rep.
              Option.bind (if ds_ok then may_match env had_filter off k rep else Some True) (\<lambda>may.
              Option.bind
                (if \<not> may then Some (OK, None, None)
                 else
                   case Table_BlockReader env verify fill_cache cached handle_value rep of
                     (Inl s, ins) \<Rightarrow> Some (s, None, ins)
                   | (Inr block, ins) \<Rightarrow>
                       Option.bind (block_seek (re_Compare env) block k) (\<lambda>(s, found). Some (s, found, ins)))
                (\<lambda>(s, found, ins).
                  Some (if ok s then index_status else s, found, Some (regionId + 1), ins,
                    if ds_ok then count_access env off rep else rep)))))"

definition ApproximateOffsetOf :: "ReadEnv \<Rightarrow> slice \<Rightarrow> TableRep \<Rightarrow> u64 option" where
  "ApproximateOffsetOf env key rep =
     Option.bind (block_seek (re_Compare env) (rep_index_block rep) key) (\<lambda>(s, entry).
       case entry of
         None \<Rightarrow> Some (bh_offset (rep_metaindex_handle rep))
       | Some (k, v) \<Rightarrow>
           (case BlockHandle_DecodeFrom v of
              Inl _ \<Rightarrow> Some (bh_offset (rep_metaindex_handle rep))
            | Inr (h, _) \<Rightarrow> Some (bh_offset h)))"

end
