(* ===== verification/TableIndex.thy ===== *)
theory TableIndex
  imports TableReader
begin

text \<open>
  The parts of a table file as the reader of table/table.cc meets them: the blocks in the file,
  the index with its shortened separator keys, the meta-index block and the filters.
\<close>

subsection \<open>Blocks of a table file\<close>

lemma iter_SeekToLast_correct:
  assumes bl: "block_of r es bl" and n: "es \<noteq> []"
  shows "\<exists>it'. iter_SeekToLast bl it = Some it' \<and> at_entry r es (length es - 1) it'"
proof -
  have nr: "0 < num_restarts bl" using bl by (simp add: block_of_def restart_count_def)
  define l where "l = num_restarts bl - 1"
  have l: "l < num_restarts bl" using nr by (simp add: l_def)
  have lr: "l * r < length es"
    using restart_index_less [of r "length es" l] l bl n by (simp add: block_of_def)
  have fuel: "length es - l * r < restart_offset bl + 1"
    using entry_pos_ge [of "length es" r es] bl by (simp add: block_of_def)
  have stop: "(\<not> NextEntryOffset it < restart_offset bl) = (j = length es - 1)" if "at_entry r es j it" for j it
  proof -
    have j: "j < length es" using that by (simp add: at_entry_def)
    have "NextEntryOffset it = entry_pos r es (Suc j)" using at_entry_ready [OF bl that] by (simp add: ready_def)
    moreover have "restart_offset bl = entry_pos r es (length es)" using bl by (simp add: block_of_def)
    ultimately show ?thesis using entry_pos_less [of "Suc j" "length es" r es] j by (cases "Suc j = length es") auto
  qed
  from parse_until_first [OF bl stop SeekToRestartPoint_ready [OF bl l] _ fuel] lr
  obtain it' where "parse_until (restart_offset bl + 1) bl (\<lambda>it. \<not> NextEntryOffset it < restart_offset bl) (SeekToRestartPoint bl l it) = Some it'"
    "(\<exists>j. l * r \<le> j \<and> j < length es \<and> j = length es - 1 \<and> at_entry r es j it') \<or>
     (\<forall>j. l * r \<le> j \<and> j < length es \<longrightarrow> \<not> j = length es - 1)"
    by fastforce
  moreover have "l * r \<le> length es - 1" "length es - 1 < length es" using lr n by auto
  ultimately show ?thesis unfolding iter_SeekToLast_def l_def [symmetric] by blast
qed

lemma last_index_value_eq:
  assumes "block_of r es bl" "es \<noteq> []"
  shows "last_index_value (Some bl) = Some (snd (last es))"
proof -
  have nr: "0 < num_restarts bl" using assms(1) by (simp add: block_of_def restart_count_def)
  obtain it' where it': "iter_SeekToLast bl (new_BlockIter bl) = Some it'" "at_entry r es (length es - 1) it'"
    using iter_SeekToLast_correct [OF assms] by blast
  then show ?thesis
    using nr at_entry_Valid [OF assms(1) it'(2)] at_entry_value [OF assms(1) it'(2)] assms(2)
    by (simp add: last_index_value_def last_conv_nth)
qed

text \<open>What \<open>Seek\<close> shows on an intact block.\<close>

definition seek_entry :: "(slice \<Rightarrow> slice \<Rightarrow> int) \<Rightarrow> (slice \<times> slice) list \<Rightarrow> slice \<Rightarrow> (slice \<times> slice) option" where
  "seek_entry Compare es k = find (\<lambda>e. \<not> Compare (fst e) k < 0) es"

lemma first_not_before_find:
  "first_not_before Compare es k j \<Longrightarrow> seek_entry Compare es k = Some (es ! j)"
  unfolding first_not_before_def seek_entry_def by (auto simp: find_Some_iff)

lemma seek_entry_None: "seek_entry Compare es k = None \<longleftrightarrow> (\<forall>e\<in>set es. Compare (fst e) k < 0)"
  by (auto simp: seek_entry_def find_None_iff)

context comparator
begin

lemma block_seek_eq:
  assumes bl: "block_of r es bl" and n: "es \<noteq> []" and srt: "sorted_entries Compare es"
    and wfs: "\<forall>e \<in> set es. wf (fst e)" "wf target"
  shows "block_seek Compare (Some bl) target = Some (OK, seek_entry Compare es target)"
proof -
  have nr: "0 < num_restarts bl" using bl by (simp add: block_of_def restart_count_def)
  obtain it where it: "iter_Seek Compare bl target (new_BlockIter bl) = Some it" "iter_status it = OK"
    "(\<exists>j. first_not_before Compare es target j \<and> at_entry r es j it) \<or>
      (\<forall>e \<in> set es. Compare (fst e) target < 0) \<and> \<not> iter_Valid bl it"
    using iter_Seek_correct [OF bl n srt wfs, of "new_BlockIter bl"] by (auto simp: new_BlockIter_def)
  have "(if iter_Valid bl it then Some (iter_key it, iter_value bl it) else None) = seek_entry Compare es target"
    using it(3)
  proof
    assume "\<exists>j. first_not_before Compare es target j \<and> at_entry r es j it"
    then obtain j where j: "first_not_before Compare es target j" "at_entry r es j it" by blast
    then have "(iter_key it, iter_value bl it) = es ! j" using at_entry_value [OF bl j(2)] by (simp add: at_entry_def)
    then show ?thesis using first_not_before_find [OF j(1)] at_entry_Valid [OF bl j(2)] by simp
  qed (use seek_entry_None [of Compare es target] in simp)
  with nr it(1,2) show ?thesis by (simp add: block_seek_def)
qed

end

lemma entries_from_eq:
  assumes bl: "block_of r es bl" and n: "es \<noteq> []" and srt: "sorted_entries Bytewise_Compare es"
  shows "entries_from (Some bl) target = Some (dropWhile (\<lambda>e. Bytewise_Compare (fst e) target < 0) es)"
proof -
  have nr: "0 < num_restarts bl" using bl by (simp add: block_of_def restart_count_def)
  obtain it where it: "iter_Seek Bytewise_Compare bl target (new_BlockIter bl) = Some it"
    "(\<exists>j. first_not_before Bytewise_Compare es target j \<and> at_entry r es j it) \<or>
      (\<forall>e \<in> set es. Bytewise_Compare (fst e) target < 0) \<and> \<not> iter_Valid bl it"
    using bytewise.iter_Seek_correct [OF bl n srt, of target "new_BlockIter bl"] by auto
  have "iterate (restart_offset bl + 1) bl it = dropWhile (\<lambda>e. Bytewise_Compare (fst e) target < 0) es"
    using it(2)
  proof
    assume "\<exists>j. first_not_before Bytewise_Compare es target j \<and> at_entry r es j it"
    then obtain j where j: "first_not_before Bytewise_Compare es target j" "at_entry r es j it" by blast
    have "length es \<le> restart_offset bl" using entry_pos_ge [of "length es" r es] bl by (simp add: block_of_def)
    then have "iterate (restart_offset bl + 1) bl it = drop j es" by (intro iterate_from [OF bl j(2)]) simp
    moreover have "dropWhile (\<lambda>e. Bytewise_Compare (fst e) target < 0) es = drop j es"
    proof -
      let ?P = "\<lambda>e. Bytewise_Compare (fst e) target < 0"
      have jl: "\<not> ?P (es ! j)" "j < length es" using j(1) by (simp_all add: first_not_before_def)
      have "?P e" if "e \<in> set (take j es)" for e
        using that j(1) unfolding first_not_before_def in_set_conv_nth by auto
      then have "dropWhile ?P (take j es @ drop j es) = dropWhile ?P (drop j es)" by (rule dropWhile_append2)
      also have "\<dots> = drop j es" using Cons_nth_drop_Suc [OF jl(2), symmetric] jl(1) by simp
      finally show ?thesis by simp
    qed
    ultimately show ?thesis by simp
  next
    assume "(\<forall>e \<in> set es. Bytewise_Compare (fst e) target < 0) \<and> \<not> iter_Valid bl it"
    then have "dropWhile (\<lambda>e. Bytewise_Compare (fst e) target < 0) es = []" "\<not> iter_Valid bl it"
      unfolding dropWhile_eq_Nil_conv by blast+
    then show ?thesis by (simp only:) simp
  qed
  with nr it(1) show ?thesis by (simp add: entries_from_def)
qed

text \<open>A file of stored blocks is read back block by block.\<close>

lemma file_bytes_append: "file_bytes ext (ps @ qs) = file_bytes ext ps @ file_bytes ext qs"
  by (simp add: file_bytes_def)

definition reads :: "(nat \<Rightarrow> nat \<Rightarrow> status + slice \<times> bool) \<Rightarrow> slice \<Rightarrow> bool" where
  "reads Read bytes \<longleftrightarrow> (\<forall>off n. off + n \<le> length bytes \<longrightarrow> (\<exists>b. Read off n = Inr (take n (drop off bytes), b)))"

lemma stored_piece:
  assumes "reads Read (file_bytes ext ps @ rest)" "length (file_bytes ext ps) < 2 ^ 64" "i < length ps" "ps ! i = (c, t)"
  shows "stored_at Read (piece_handle ext (take i ps) c) (raw_block ext c t)"
proof -
  have ps: "ps = take i ps @ (c, t) # drop (Suc i) ps" using assms(3,4) by (metis id_take_nth_drop)
  have fb: "file_bytes ext ps = file_bytes ext (take i ps) @ raw_block ext c t @ file_bytes ext (drop (Suc i) ps)"
    by (subst ps) (simp add: file_bytes_def)
  have len: "length (file_bytes ext (take i ps)) + (length c + kBlockTrailerSize) \<le> length (file_bytes ext ps)"
    unfolding fb by (simp add: length_raw_block)
  have u: "unat (of_nat (length (file_bytes ext (take i ps))) :: u64) = length (file_bytes ext (take i ps))"
    "unat (of_nat (length c) :: u64) = length c" using len assms(2) by (intro unat_of_nat_small, simp)+
  obtain b where "Read (length (file_bytes ext (take i ps))) (length c + kBlockTrailerSize) =
      Inr (take (length c + kBlockTrailerSize) (drop (length (file_bytes ext (take i ps))) (file_bytes ext ps @ rest)), b)"
  proof -
    have "length (file_bytes ext (take i ps)) + (length c + kBlockTrailerSize) \<le> length (file_bytes ext ps @ rest)"
      using len by simp
    with assms(1) that show thesis unfolding reads_def by blast
  qed
  moreover have "take (length c + kBlockTrailerSize) (drop (length (file_bytes ext (take i ps))) (file_bytes ext ps @ rest)) = raw_block ext c t"
  proof -
    have "take n (drop (length a) ((a @ b @ c) @ r)) = b" if "n = length b" for a b c r :: slice and n using that by simp
    from this [OF length_raw_block [of ext c t, symmetric]] show ?thesis unfolding fb by simp
  qed
  ultimately show ?thesis
    using u by (auto simp: stored_at_def piece_handle_def length_raw_block)
qed

text \<open>Snappy restores what it compressed; it compresses buffers of less than 4 GB only.\<close>

definition snappy_ok :: "(slice \<Rightarrow> slice option) \<Rightarrow> (slice \<Rightarrow> nat option) \<Rightarrow> (slice \<Rightarrow> slice option) \<Rightarrow> bool" where
  "snappy_ok compress ulength uncompress \<longleftrightarrow>
     (\<forall>raw c. compress raw = Some c \<longrightarrow> length raw < 2 ^ 32 \<and> ulength c = Some (length raw) \<and> uncompress c = Some raw)"

lemma ReadBlock_compressed:
  assumes st: "stored_at Read h (raw_block ext c t)" and c: "compress_block opts raw = (c, t)"
    and ext: "\<And>bs. ext (ext 0 c) bs = ext 0 (c @ bs)" and sn: "snappy_ok (opt_snappy_compress opts) sl su"
  shows "\<exists>cf hf. ReadBlock Read sl su (ext 0) verify h = Inr \<lparr>bc_data = raw, cachable = cf, heap_allocated = hf\<rparr>"
proof -
  let ?blk = "raw_block ext c t"
  have n: "unat (bh_size h) = length c" using st by (simp add: stored_at_def length_raw_block)
  have blk: "take (length c + 1) ?blk = c @ [compression_code t]" "?blk ! length c = compression_code t" "take (length c) ?blk = c"
    by (simp_all add: raw_block_def Let_def)
  have "\<exists>cf hf. decode_block sl su b (length c) ?blk = Inr \<lparr>bc_data = raw, cachable = cf, heap_allocated = hf\<rparr>" for b
  proof (cases t)
    case kNoCompression
    then have "c = raw" using c by (auto simp: compress_block_def split: CompressionType.splits option.splits if_splits)
    with blk kNoCompression show ?thesis by (simp add: decode_block_def)
  next
    case kSnappyCompression
    then have "opt_snappy_compress opts raw = Some c"
      using c by (auto simp: compress_block_def split: CompressionType.splits option.splits if_splits)
    then have "sl c = Some (length raw)" "su c = Some raw" using sn by (auto simp: snappy_ok_def)
    with blk kSnappyCompression show ?thesis by (intro exI [of _ True]) (simp add: decode_block_def)
  qed
  with st n raw_block_crc [of c ext t] ext blk(1) show ?thesis
    by (auto simp: stored_at_def ReadBlock_def Let_def)
qed

subsection \<open>A table in a file\<close>

definition sized_blocks :: "'f TableOptions \<Rightarrow> (slice \<times> slice) list list \<Rightarrow> FilterBlockBuilder \<Rightarrow> bool" where
  "sized_blocks opts blks fb \<longleftrightarrow>
     length (table_bytes opts blks (Some fb)) < 2 ^ 48 \<and>
     (\<forall>b\<in>set blks. length (build_block (opt_block_restart_interval opts) b) < 2 ^ 32) \<and>
     length (build_block 1 (index_entries opts (index_keys opts blks) blks)) < 2 ^ 32 \<and>
     length (build_block (opt_block_restart_interval opts) (meta_block_entries opts (Some fb)
        (drop (length blks) (piece_handles (opt_crc_extend opts) (data_pieces opts blks @ filter_pieces (Some fb)))))) < 2 ^ 32 \<and>
     (\<forall>r\<in>set (results fb). length r < 2 ^ 32)"

definition writes_for ::
  "(slice \<Rightarrow> slice \<Rightarrow> int) \<Rightarrow> (slice \<Rightarrow> slice \<Rightarrow> slice) \<Rightarrow> (slice \<Rightarrow> nat \<Rightarrow> slice) \<Rightarrow> nat list \<Rightarrow> slice \<Rightarrow> 'f TableOptions \<Rightarrow> bool" where
  "writes_for ucmp usep usucc bits name opts \<longleftrightarrow>
     0 < opt_block_restart_interval opts \<and>
     opt_FindShortestSeparator opts = InternalKey_FindShortestSeparator ucmp usep \<and>
     opt_FindShortSuccessor opts = InternalKey_FindShortSuccessor ucmp usucc \<and>
     opt_filter_policy opts = Some (InternalFilter_CreateFilters (Multi_CreateFilter (new_MultiFilter bits)), length bits, name) \<and>
     opt_bits_per_key opts = bits \<and> length bits \<le> 10 \<and> bits \<noteq> [] \<and> 0 \<notin> set bits \<and>
     (\<forall>c bs. opt_crc_extend opts (opt_crc_extend opts 0 c) bs = opt_crc_extend opts 0 (c @ bs))"

definition reads_for ::
  "(slice \<Rightarrow> slice \<Rightarrow> int) \<Rightarrow> nat list \<Rightarrow> slice \<Rightarrow> nat \<Rightarrow> 'f TableOptions \<Rightarrow> slice \<Rightarrow> ReadEnv \<Rightarrow> bool" where
  "reads_for ucmp bits name rf opts bytes env \<longleftrightarrow>
     re_Compare env = InternalKey_Compare ucmp \<and> re_crc env = opt_crc_extend opts 0 \<and>
     re_filter_policy env = Some (InternalFilter_KeyMayMatchFilters (Multi_KeyMayMatchFilters (new_MultiFilter bits)), name) \<and>
     re_bits_per_key env = bits \<and> re_region_divide_size env = rf * kFilterBase \<and> 0 < rf \<and>
     snappy_ok (opt_snappy_compress opts) (re_snappy_length env) (re_snappy_uncompress env) \<and>
     reads (re_Read env) bytes"

text \<open>Data blocks with increasing internal keys.\<close>

definition data_blocks :: "(slice \<Rightarrow> slice \<Rightarrow> int) \<Rightarrow> (slice \<times> slice) list list \<Rightarrow> bool" where
  "data_blocks ucmp blks \<longleftrightarrow> blks \<noteq> [] \<and> (\<forall>b\<in>set blks. b \<noteq> []) \<and>
     sorted_entries (InternalKey_Compare ucmp) (concat blks) \<and> (\<forall>e\<in>set (concat blks). ikey_wf (fst e))"

lemma writes_forD:
  assumes "writes_for ucmp usep usucc bits name opts"
  shows "0 < opt_block_restart_interval opts"
    "opt_FindShortestSeparator opts = InternalKey_FindShortestSeparator ucmp usep"
    "opt_FindShortSuccessor opts = InternalKey_FindShortSuccessor ucmp usucc"
    "opt_filter_policy opts = Some (InternalFilter_CreateFilters (Multi_CreateFilter (new_MultiFilter bits)), length bits, name)"
    "opt_bits_per_key opts = bits" "length bits \<le> 10" "bits \<noteq> []" "0 \<notin> set bits"
    "opt_crc_extend opts (opt_crc_extend opts 0 c) bs = opt_crc_extend opts 0 (c @ bs)"
  using assms by (simp_all add: writes_for_def)

lemma reads_forD:
  assumes "reads_for ucmp bits name rf opts bytes env"
  shows "re_Compare env = InternalKey_Compare ucmp" "re_crc env = opt_crc_extend opts 0"
    "re_filter_policy env = Some (InternalFilter_KeyMayMatchFilters (Multi_KeyMayMatchFilters (new_MultiFilter bits)), name)"
    "re_bits_per_key env = bits" "re_region_divide_size env = rf * kFilterBase" "0 < rf"
    "snappy_ok (opt_snappy_compress opts) (re_snappy_length env) (re_snappy_uncompress env)" "reads (re_Read env) bytes"
  using assms by (simp_all add: reads_for_def)

subsection \<open>The index\<close>

lemma seek_entry_mem: "seek_entry Compare es k = Some e \<Longrightarrow> e \<in> set es"
  unfolding seek_entry_def find_Some_iff using nth_mem by blast

lemma in_concat_take:
  assumes "e \<in> set (concat (take j blks))"
  shows "\<exists>i<j. i < length blks \<and> e \<in> set (blks ! i)"
proof -
  obtain b where "b \<in> set (take j blks)" "e \<in> set b" using assms by auto
  then show ?thesis by (auto simp: in_set_conv_nth [of b])
qed

lemma sorted_wrt_blocks:
  assumes "sorted_wrt P (concat blks)" "i < j" "j < length blks" "a \<in> set (blks ! i)" "b \<in> set (blks ! j)"
  shows "P a b"
proof -
  have "concat blks = concat (take j blks) @ concat (drop j blks)" by (metis append_take_drop_id concat_append)
  moreover have "a \<in> set (concat (take j blks))"
  proof -
    have "blks ! i \<in> set (take j blks)" using assms(2,3) by (auto simp: in_set_conv_nth)
    then show ?thesis using assms(4) by (auto simp: set_concat)
  qed
  moreover have "b \<in> set (concat (drop j blks))"
    using assms(3,5) Cons_nth_drop_Suc [of j blks] by (metis Un_iff concat.simps(2) set_append)
  ultimately show ?thesis using assms(1) by (metis sorted_wrt_append)
qed

text \<open>
  What a lookup of \<open>k\<close> has to report of the entries: nothing or the first entry not before \<open>k\<close>, and
  that entry for sure if it has the user key of \<open>k\<close>.
\<close>

definition lookup_result :: "(slice \<Rightarrow> slice \<Rightarrow> int) \<Rightarrow> (slice \<times> slice) list \<Rightarrow> slice \<Rightarrow> (slice \<times> slice) option \<Rightarrow> bool" where
  "lookup_result Compare es k found \<longleftrightarrow> (found = None \<or> found = seek_entry Compare es k) \<and>
     (\<forall>e. seek_entry Compare es k = Some e \<and> ExtractUserKey (fst e) = ExtractUserKey k \<longrightarrow> found = Some e)"

context user_shortening
begin

abbreviation isep :: "slice \<Rightarrow> slice \<Rightarrow> slice" where "isep \<equiv> InternalKey_FindShortestSeparator ucmp usep"
abbreviation isucc :: "slice \<Rightarrow> slice" where "isucc \<equiv> InternalKey_FindShortSuccessor ucmp usucc_from"

lemma separator_shortened:
  assumes "ikey_wf a" "ikey_wf b" "icmp a b < 0" "isep a b \<noteq> a"
  shows "ucmp (ExtractUserKey (isep a b)) (ExtractUserKey b) < 0"
proof -
  have "ExtractUserKey a \<noteq> ExtractUserKey b"
    using assms(4) usep_same by (auto simp: InternalKey_FindShortestSeparator_def Let_def split: if_splits)
  then have "ucmp (ExtractUserKey a) (ExtractUserKey b) < 0" using assms(3) by (simp add: icmp_iff)
  then show ?thesis
    using assms(4) usep_less by (auto simp: InternalKey_FindShortestSeparator_def Let_def PutFixed64_def split: if_splits)
qed

lemma block_keys:
  assumes d: "data_blocks ucmp blks" and i: "i < length blks"
  shows "blks ! i \<noteq> []" "e \<in> set (blks ! i) \<Longrightarrow> ikey_wf (fst e)"
    "e \<in> set (blks ! i) \<Longrightarrow> icmp (fst e) (fst (last (blks ! i))) \<le> 0"
    "e \<in> set (blks ! i) \<Longrightarrow> icmp (fst (hd (blks ! i))) (fst e) \<le> 0"
    "sorted_entries icmp (blks ! i)"
proof -
  show ne: "blks ! i \<noteq> []" using d i by (auto simp: data_blocks_def)
  have wf: "ikey_wf (fst e)" if "e \<in> set (blks ! i)" for e
    using d i that nth_mem [OF i] unfolding data_blocks_def set_concat by blast
  then show "ikey_wf (fst e)" if "e \<in> set (blks ! i)" using that .
  have "concat blks = concat (take i blks) @ blks ! i @ concat (drop (Suc i) blks)"
    using i by (metis concat.simps(2) concat_append id_take_nth_drop)
  then show s: "sorted_entries icmp (blks ! i)"
    using d unfolding data_blocks_def sorted_entries_def by (simp add: sorted_wrt_append)
  show "icmp (fst e) (fst (last (blks ! i))) \<le> 0" if e: "e \<in> set (blks ! i)"
  proof (cases "e = last (blks ! i)")
    case False
    obtain xs x where xs: "blks ! i = xs @ [x]" using ne by (metis rev_exhaust)
    with s e False have "icmp (fst e) (fst x) < 0" by (auto simp: sorted_entries_def sorted_wrt_append)
    then show ?thesis using xs by simp
  qed (use internal.cmp_refl wf [OF e] in simp)
  show "icmp (fst (hd (blks ! i))) (fst e) \<le> 0" if e: "e \<in> set (blks ! i)"
    using s e ne wf [OF e] internal.cmp_refl
    by (cases "blks ! i") (auto simp: sorted_entries_def intro: order_less_imp_le)
qed

lemma blocks_ordered:
  assumes "data_blocks ucmp blks" "i < j" "j < length blks" "a \<in> set (blks ! i)" "b \<in> set (blks ! j)"
  shows "icmp (fst a) (fst b) < 0"
  using sorted_wrt_blocks [OF _ assms(2-5)] assms(1) by (auto simp: data_blocks_def sorted_entries_def)

definition ikeys :: "(slice \<times> slice) list list \<Rightarrow> slice list" where
  "ikeys blks = (if blks = [] then [] else separators isep blks @ [isucc (fst (last (last blks)))])"

lemma ikeys_nth:
  assumes "i < length blks"
  shows "ikeys blks ! i =
    (if Suc i < length blks then isep (fst (last (blks ! i))) (fst (hd (blks ! Suc i))) else isucc (fst (last (blks ! i))))"
proof (cases "Suc i < length blks")
  case True
  then show ?thesis using separators_nth [OF True, of isep] by (auto simp: ikeys_def nth_append)
next
  case False
  with assms have i: "i = length blks - 1" "blks \<noteq> []" by auto
  then show ?thesis by (simp add: ikeys_def nth_append last_conv_nth)
qed

lemma length_ikeys [simp]: "length (ikeys blks) = length blks"
  by (cases blks) (simp_all add: ikeys_def)

lemma ikeys_bounds:
  assumes d: "data_blocks ucmp blks" and i: "i < length blks"
  shows "ikey_wf (ikeys blks ! i)" "icmp (fst (last (blks ! i))) (ikeys blks ! i) \<le> 0"
    "Suc i < length blks \<Longrightarrow> icmp (ikeys blks ! i) (fst (hd (blks ! Suc i))) < 0"
proof -
  have l: "ikey_wf (fst (last (blks ! i)))" by (rule block_keys(2) [OF d i last_in_set [OF block_keys(1) [OF d i]]])
  have h: "ikey_wf (fst (hd (blks ! Suc i)))" "icmp (fst (last (blks ! i))) (fst (hd (blks ! Suc i))) < 0" if "Suc i < length blks"
    using block_keys(2) [OF d that hd_in_set [OF block_keys(1) [OF d that]]]
      blocks_ordered [OF d _ that last_in_set [OF block_keys(1) [OF d i]] hd_in_set [OF block_keys(1) [OF d that]]] by simp_all
  show "ikey_wf (ikeys blks ! i)"
    using l h internal_short.separator_wf internal_short.successor_wf by (simp add: ikeys_nth [OF i])
  show "icmp (fst (last (blks ! i))) (ikeys blks ! i) \<le> 0"
    using l h internal_short.separator_ge internal_short.successor_ge by (simp add: ikeys_nth [OF i])
  show "icmp (ikeys blks ! i) (fst (hd (blks ! Suc i))) < 0" if "Suc i < length blks"
    using l h [OF that] internal_short.separator_less that by (simp add: ikeys_nth [OF i])
qed

definition located :: "(slice \<times> slice) list list \<Rightarrow> slice \<Rightarrow> nat \<Rightarrow> bool" where
  "located blks k j \<longleftrightarrow> j < length blks \<and> \<not> icmp (ikeys blks ! j) k < 0 \<and> (\<forall>i<j. icmp (ikeys blks ! i) k < 0)"

lemma located_before:
  assumes d: "data_blocks ucmp blks" and k: "ikey_wf k" and i: "i < length blks" and e: "e \<in> set (blks ! i)"
    and l: "icmp (ikeys blks ! i) k < 0"
  shows "icmp (fst e) k < 0"
proof -
  have wf: "ikey_wf (fst e)" "ikey_wf (fst (last (blks ! i)))" "ikey_wf (ikeys blks ! i)"
    using block_keys(2) [OF d i e] block_keys(2) [OF d i last_in_set [OF block_keys(1) [OF d i]]] ikeys_bounds(1) [OF d i] .
  have "icmp (fst e) (ikeys blks ! i) \<le> 0"
    by (rule internal.cmp_le_trans [OF wf(1,2,3) block_keys(3) [OF d i e] ikeys_bounds(2) [OF d i]])
  with l show ?thesis using internal.cmp_le_less_trans [OF wf(1,3) k] by blast
qed

lemma located_after:
  assumes d: "data_blocks ucmp blks" and k: "ikey_wf k" and j: "located blks k j"
    and i: "j < i" "i < length blks" and e: "e \<in> set (blks ! i)" and none: "seek_entry icmp (blks ! j) k = None"
  shows "ExtractUserKey (fst e) \<noteq> ExtractUserKey k"
proof -
  have jl: "j < length blks" "Suc j < length blks" using i by simp_all
  define lk fk where "lk = fst (last (blks ! j))" and "fk = fst (hd (blks ! Suc j))"
  have mem: "last (blks ! j) \<in> set (blks ! j)" "hd (blks ! Suc j) \<in> set (blks ! Suc j)"
    using block_keys(1) [OF d jl(1)] block_keys(1) [OF d jl(2)] by simp_all
  have wf: "ikey_wf lk" "ikey_wf fk" "ikey_wf (fst e)"
    using block_keys(2) [OF d jl(1) mem(1)] block_keys(2) [OF d jl(2) mem(2)] block_keys(2) [OF d i(2) e]
    by (simp_all add: lk_def fk_def)
  have lf: "icmp lk fk < 0" using blocks_ordered [OF d _ jl(2) mem] by (simp add: lk_def fk_def)
  have lt: "icmp lk k < 0" using none mem(1) unfolding seek_entry_None lk_def by blast
  have sep: "ikeys blks ! j = isep lk fk" using ikeys_nth [OF jl(1)] jl(2) by (simp add: lk_def fk_def)
  have "isep lk fk \<noteq> lk" using lt j sep by (auto simp: located_def)
  from separator_shortened [OF wf(1,2) lf this] have less: "ucmp (ExtractUserKey (isep lk fk)) (ExtractUserKey fk) < 0" .
  have kl: "\<not> ucmp (ExtractUserKey (isep lk fk)) (ExtractUserKey k) < 0"
    using j sep by (auto simp: located_def icmp_iff)
  have "icmp fk (fst e) \<le> 0"
  proof (cases "i = Suc j")
    case True
    then show ?thesis using block_keys(4) [OF d i(2) e] by (simp add: fk_def)
  next
    case False
    then show ?thesis using blocks_ordered [OF d _ i(2) mem(2) e] i(1) by (simp add: fk_def)
  qed
  then have fe: "ucmp (ExtractUserKey fk) (ExtractUserKey (fst e)) \<le> 0"
    using cmp_refl [of "ExtractUserKey fk"] icmp_iff(1,2) [of fk "fst e"] by (auto simp: order_le_less)
  show ?thesis
  proof
    assume eq: "ExtractUserKey (fst e) = ExtractUserKey k"
    have "ucmp (ExtractUserKey (isep lk fk)) (ExtractUserKey k) < 0"
      using cmp_less_le_trans [OF _ _ _ less fe] eq by simp
    with kl show False by simp
  qed
qed

lemma find_append: "find P (xs @ ys) = (case find P xs of None \<Rightarrow> find P ys | Some x \<Rightarrow> Some x)"
  by (induction xs) auto

lemma located_lookup:
  assumes d: "data_blocks ucmp blks" and k: "ikey_wf k" and j: "located blks k j"
  shows "lookup_result icmp (concat blks) k (seek_entry icmp (blks ! j) k)"
    "seek_entry icmp (concat blks) k = Some e \<Longrightarrow> ExtractUserKey (fst e) = ExtractUserKey k \<Longrightarrow> e \<in> set (blks ! j)"
proof -
  have jl: "j < length blks" using j by (simp add: located_def)
  have split: "concat blks = concat (take j blks) @ blks ! j @ concat (drop (Suc j) blks)"
    using jl by (metis concat.simps(2) concat_append id_take_nth_drop)
  have "icmp (fst e) k < 0" if e: "e \<in> set (concat (take j blks))" for e
  proof -
    obtain i where i: "i < j" "e \<in> set (blks ! i)" using in_concat_take [OF e] by blast
    then show ?thesis using located_before [OF d k _ i(2)] j by (auto simp: located_def)
  qed
  then have before: "seek_entry icmp (concat (take j blks)) k = None" unfolding seek_entry_None by blast
  have seek: "seek_entry icmp (concat blks) k = (case seek_entry icmp (blks ! j) k of
      None \<Rightarrow> seek_entry icmp (concat (drop (Suc j) blks)) k | Some e \<Rightarrow> Some e)"
    using before unfolding split seek_entry_def find_append by simp
  have after: "ExtractUserKey (fst e) \<noteq> ExtractUserKey k"
    if "seek_entry icmp (blks ! j) k = None" "seek_entry icmp (concat (drop (Suc j) blks)) k = Some e" for e
  proof -
    have "e \<in> set (concat (drop (Suc j) blks))" by (rule seek_entry_mem [OF that(2)])
    then obtain b where b: "b \<in> set (drop (Suc j) blks)" "e \<in> set b" by auto
    obtain m where "m < length (drop (Suc j) blks)" "drop (Suc j) blks ! m = b" using b(1) by (auto simp: in_set_conv_nth)
    then have "j < Suc j + m" "Suc j + m < length blks" "b = blks ! (Suc j + m)" by auto
    with located_after [OF d k j _ _ _ that(1)] b(2) show ?thesis by blast
  qed
  show "lookup_result icmp (concat blks) k (seek_entry icmp (blks ! j) k)"
    using after by (auto simp: lookup_result_def seek split: option.splits)
  show "e \<in> set (blks ! j)" if "seek_entry icmp (concat blks) k = Some e" "ExtractUserKey (fst e) = ExtractUserKey k"
    using that after by (cases "seek_entry icmp (blks ! j) k") (auto simp: seek intro: seek_entry_mem)
qed

lemma not_located:
  assumes d: "data_blocks ucmp blks" and k: "ikey_wf k" and all: "\<forall>i<length blks. icmp (ikeys blks ! i) k < 0"
  shows "seek_entry icmp (concat blks) k = None"
proof -
  have "icmp (fst e) k < 0" if e: "e \<in> set (concat blks)" for e
  proof -
    obtain i where i: "i < length blks" "e \<in> set (blks ! i)"
      using in_concat_take [of e "length blks" blks] e by auto
    then show ?thesis using located_before [OF d k i] all by blast
  qed
  then show ?thesis unfolding seek_entry_None by blast
qed

lemma ikeys_sorted:
  assumes d: "data_blocks ucmp blks" and i: "i < j" "j < length blks"
  shows "icmp (ikeys blks ! i) (ikeys blks ! j) < 0"
proof -
  have il: "i < length blks" "Suc i < length blks" using i by simp_all
  have ne: "blks ! Suc i \<noteq> []" "blks ! j \<noteq> []" using block_keys(1) [OF d] il i by simp_all
  have wf: "ikey_wf (ikeys blks ! i)" "ikey_wf (ikeys blks ! j)" "ikey_wf (fst (hd (blks ! Suc i)))" "ikey_wf (fst (last (blks ! j)))"
    using ikeys_bounds(1) [OF d] block_keys(2) [OF d il(2) hd_in_set [OF ne(1)]]
      block_keys(2) [OF d i(2) last_in_set [OF ne(2)]] il i by simp_all
  have "icmp (fst (hd (blks ! Suc i))) (fst (last (blks ! j))) \<le> 0"
  proof (cases "Suc i = j")
    case True
    then show ?thesis using block_keys(3) [OF d i(2) hd_in_set [OF ne(2)]] by simp
  next
    case False
    then show ?thesis using blocks_ordered [OF d _ i(2) hd_in_set [OF ne(1)] last_in_set [OF ne(2)]] i by simp
  qed
  then have "icmp (fst (hd (blks ! Suc i))) (ikeys blks ! j) \<le> 0"
    by (rule internal.cmp_le_trans [OF wf(3,4,2) _ ikeys_bounds(2) [OF d i(2)]])
  with ikeys_bounds(3) [OF d il] show ?thesis by (rule internal.cmp_less_le_trans [OF wf(1,3,2)])
qed

end

subsection \<open>The meta-index block\<close>

lemma stored_offset_ids_all:
  "sorted_wrt (<) (stored_offset_ids i bits) \<and> (\<forall>x\<in>set (stored_offset_ids i bits). i \<le> x \<and> x < i + length bits)"
proof (induction i bits rule: stored_offset_ids.induct)
  case (3 i b b' bits)
  show ?case
  proof (cases "b = b'")
    case True
    have "i \<le> x \<and> x < i + length (b # b' # bits)" if "x \<in> set (stored_offset_ids (i + 1) (b' # bits))" for x
      using 3(1) [OF True] that by (simp add: Suc_le_eq) (meson less_imp_le)
    with 3(1) [OF True] True show ?thesis by simp
  next
    case False
    have b: "i < x \<and> x < i + length (b # b' # bits)" if "x \<in> set (stored_offset_ids (i + 1) (b' # bits))" for x
      using 3(2) [OF False] that by (simp add: Suc_le_eq)
    with 3(2) [OF False] False show ?thesis by (simp add: less_imp_le)
  qed
qed auto

lemma stored_offset_ids_range:
  "sorted_wrt (<) (stored_offset_ids i bits)" "x \<in> set (stored_offset_ids i bits) \<Longrightarrow> i \<le> x \<and> x < i + length bits"
  using stored_offset_ids_all by blast+

lemma byte_add_less:
  assumes "i < j" "k + j < 256"
  shows "(of_nat k + of_nat i :: byte) < of_nat k + of_nat j"
proof -
  have "unat (of_nat (k + i) :: byte) = k + i" "unat (of_nat (k + j) :: byte) = k + j"
    using assms by (intro unat_of_nat_small, simp)+
  then show ?thesis using assms(1) by (simp add: word_less_nat_alt)
qed

lemma prefix_le_append: "(xs :: slice) \<le> xs @ ys"
  by (induction xs) auto

lemma to_string_digit: "i < 10 \<Longrightarrow> to_string i = [48 + of_nat i]"
  by (simp add: to_string.simps)

abbreviation key_off :: slice where "key_off \<equiv> bytes_of ''filter.0offsets''"

lemma offset_key_less: "i < j \<Longrightarrow> j < 10 \<Longrightarrow> offset_key i < offset_key j"
  using byte_add_less [of i j 48] by (simp add: offset_key_def to_string_digit lex_append_less)

lemma filter_key_less: "i < j \<Longrightarrow> j < 100 \<Longrightarrow> filter_key name i < filter_key name j"
  using byte_add_less [of i j 49] by (simp add: filter_key_def lex_append_less)

lemma key_off_split: "key_off = bytes_of ''filter.'' @ 48 # bytes_of ''offsets''"
  by (simp add: bytes_of_def)

lemma offset_filter_less:
  assumes "j < 100"
  shows "offset_key i < filter_key name j"
proof -
  have "(48 :: byte) < 49 + of_nat j"
    using byte_add_less [of 0 "Suc j" 48] assms by (simp add: ac_simps)
  then show ?thesis by (simp add: offset_key_def filter_key_def key_off_split lex_append_less)
qed

lemma starts_with_keys:
  "starts_with (offset_key i) key_off" "j < 100 \<Longrightarrow> \<not> starts_with (filter_key name j) key_off"
proof -
  show "starts_with (offset_key i) key_off" by (auto simp: starts_with_iff offset_key_def)
  assume "j < 100"
  then have "unat (of_nat (Suc j) :: byte) = Suc j" by (intro unat_of_nat_small) simp
  then have "(1 + of_nat j :: byte) \<noteq> 0" by (metis of_nat_Suc add.commute nat.distinct(1) unat_0)
  then show "\<not> starts_with (filter_key name j) key_off"
    by (auto simp: starts_with_iff filter_key_def key_off_split)
qed

lemma offset_key_ge: "\<not> offset_key i < key_off"
  by (simp add: offset_key_def not_less prefix_le_append)

lemma meta_entries_sorted:
  assumes "length bits \<le> 10" "length hs \<le> 100"
  shows "sorted_entries Bytewise_Compare (meta_entries bits name fb hs)"
proof -
  have 1: "sorted_wrt (\<lambda>a b. fst a < fst b) (map (\<lambda>i. (offset_key i, g i)) (stored_offset_ids 0 bits))" for g :: "nat \<Rightarrow> slice"
    unfolding sorted_wrt_map fst_conv
    by (rule sorted_wrt_mono_rel [OF _ stored_offset_ids_range(1)])
      (use stored_offset_ids_range(2) [of _ 0 bits] assms(1) in \<open>force intro!: offset_key_less\<close>)
  have 2: "sorted_wrt (\<lambda>a b. fst a < fst b) (map (\<lambda>(i, h). (filter_key name i, g h)) (enumerate 0 hs))" for g :: "BlockHandle \<Rightarrow> slice"
    using assms(2) by (auto simp: sorted_wrt_iff_nth_less nth_enumerate_eq intro!: filter_key_less)
  show ?thesis
    unfolding sorted_entries_def meta_entries_def sorted_wrt_append Bytewise_Compare_iff
    using 1 2 assms(2) by (auto simp: in_set_enumerate_eq intro!: offset_filter_less)
qed

lemma dropWhile_filter_part:
  assumes "\<And>e. e \<in> set xs \<Longrightarrow> P e" "\<And>e. e \<in> set ys \<Longrightarrow> \<not> P e"
  shows "dropWhile P (xs @ ys) = ys" "takeWhile P (xs @ ys) = xs"
proof -
  show "dropWhile P (xs @ ys) = ys" using assms by (cases ys) (auto simp: dropWhile_append2)
  show "takeWhile P (xs @ ys) = xs" using assms by (cases ys) (auto simp: takeWhile_append2)
qed

lemma meta_parts:
  assumes "bits \<noteq> []" "length hs \<le> 100" "mes = meta_entries bits name fb hs"
  shows "map snd (takeWhile (\<lambda>e. starts_with (fst e) key_off) (dropWhile (\<lambda>e. Bytewise_Compare (fst e) key_off < 0) mes)) = meta_offsets bits fb"
    "map snd (dropWhile (\<lambda>e. Bytewise_Compare (fst e) (filter_key name 0) < 0) mes) = map (\<lambda>h. BlockHandle_EncodeTo h []) hs"
proof -
  let ?xs = "map (\<lambda>i. (offset_key i, FilterBlockBuilder_getOffsets i fb)) (stored_offset_ids 0 bits)"
  let ?ys = "map (\<lambda>(i, h). (filter_key name i, BlockHandle_EncodeTo h [])) (enumerate 0 hs)"
  have mes: "mes = ?xs @ ?ys" by (simp add: assms(3) meta_entries_def)
  obtain i ids where ids: "stored_offset_ids 0 bits = i # ids" using stored_offset_ids_ne [OF assms(1), of 0] by (cases "stored_offset_ids 0 bits") auto
  have d: "dropWhile (\<lambda>e. Bytewise_Compare (fst e) key_off < 0) mes = mes"
    using offset_key_ge [of i] by (simp add: mes ids)
  have yl: "e \<in> set ?ys \<Longrightarrow> \<exists>j<100. fst e = filter_key name j" for e
  proof -
    assume "e \<in> set ?ys"
    then obtain j where "j < length hs" "fst e = filter_key name j" by (auto simp: in_set_enumerate_eq)
    then show ?thesis using assms(2) by (intro exI [of _ j]) simp
  qed
  have t: "takeWhile (\<lambda>e. starts_with (fst e) key_off) mes = ?xs"
    unfolding mes using starts_with_keys yl by (intro dropWhile_filter_part(2)) fastforce+
  show "map snd (takeWhile (\<lambda>e. starts_with (fst e) key_off) (dropWhile (\<lambda>e. Bytewise_Compare (fst e) key_off < 0) mes)) = meta_offsets bits fb"
    unfolding d t by (simp add: meta_offsets_def)
  have "\<not> fst e < filter_key name 0" if "e \<in> set ?ys" for e
    using that assms(2) filter_key_less [of 0 _ name] by (auto simp: in_set_enumerate_eq not_less) (metis gr0I order_less_imp_le order_refl less_le_trans)
  then have "dropWhile (\<lambda>e. Bytewise_Compare (fst e) (filter_key name 0) < 0) mes = ?ys"
    unfolding mes Bytewise_Compare_iff using offset_filter_less [of 0 _ name]
    by (intro dropWhile_filter_part(1)) auto
  then show "map snd (dropWhile (\<lambda>e. Bytewise_Compare (fst e) (filter_key name 0) < 0) mes) = map (\<lambda>h. BlockHandle_EncodeTo h []) hs"
    by (auto intro!: nth_equalityI simp: nth_enumerate_eq)
qed

subsection \<open>The filters\<close>

definition block_offset :: "'f TableOptions \<Rightarrow> (slice \<times> slice) list list \<Rightarrow> nat \<Rightarrow> nat" where
  "block_offset opts blks i = length (file_bytes (opt_crc_extend opts) (take i (data_pieces opts blks)))"

lemma block_offset_mono: "i \<le> j \<Longrightarrow> block_offset opts blks i \<le> block_offset opts blks j"
proof -
  assume "i \<le> j"
  then have "take j (data_pieces opts blks) = take i (data_pieces opts blks) @ take (j - i) (drop i (data_pieces opts blks))"
    by (metis le_add_diff_inverse take_add)
  then show ?thesis by (simp add: block_offset_def file_bytes_append)
qed

lemma block_offset_le_bytes: "block_offset opts blks i \<le> length (table_bytes opts blks fbo)"
proof -
  have "length (file_bytes ext (take i ps)) \<le> length (file_bytes ext ps)" for ext ps
    using append_take_drop_id [of i ps] file_bytes_append [of ext "take i ps" "drop i ps"] by (metis le_add1 length_append)
  then show ?thesis
    by (simp add: block_offset_def table_bytes_def Let_def file_bytes_append trans_le_add1)
qed

abbreviation string_of :: "nat list \<Rightarrow> slice list list \<Rightarrow> nat \<Rightarrow> slice" where
  "string_of bits gs i \<equiv> concat (map (group_part (multi_summaries bits) i) gs) @
     concat (map EncodeFixed32 (map (\<lambda>j. of_nat (group_pos (multi_summaries bits) i gs j)) [0..<length gs + 1])) @ [of_nat kFilterBaseLg]"

lemma multi_policy:
  assumes "length bits \<le> 10" "0 \<notin> set bits"
  shows "filter_policy (length bits) (InternalFilter_CreateFilters (Multi_CreateFilter (new_MultiFilter bits)))
      (InternalFilter_KeyMayMatchFilters (Multi_KeyMayMatchFilters (new_MultiFilter bits))) (multi_summaries bits)"
proof -
  have "take 12 bits = bits" using assms(1) by simp
  moreover have "Multi_filterNums (new_MultiFilter bits) = length bits"
    using new_MultiFilter_nth(1) [OF assms(2)] by (simp add: Multi_filterNums_def)
  ultimately show ?thesis using multi_internal.filter_policy_axioms [of bits] by simp
qed

lemma built_filters:
  assumes w: "writes_for ucmp usep usucc bits name opts" and f: "filters_of opts blks (Some fb)"
    and small: "length (table_bytes opts blks (Some fb)) < 2 ^ 48" and ne: "blks \<noteq> []" "\<forall>b\<in>set blks. b \<noteq> []"
  shows "\<exists>gs. gs \<noteq> [] \<and> results fb = map (string_of bits gs) [0..<length bits] \<and>
    (\<forall>i<length blks. \<forall>e\<in>set (blks ! i). block_offset opts blks i div kFilterBase < length gs \<and>
       fst e \<in> set (gs ! (block_offset opts blks i div kFilterBase)))"
proof -
  let ?C = "InternalFilter_CreateFilters (Multi_CreateFilter (new_MultiFilter bits))" and ?f = "multi_summaries bits"
  let ?n = "length bits" and ?feed = "filter_feed opts blks []"
  note w = writes_forD [OF w]
  note pol = multi_policy [OF w(6,8)]
  have off: "unat (of_nat (block_offset opts blks i) :: u64) = block_offset opts blks i" for i
    using block_offset_le_bytes [of opts blks i "Some fb"] small by (intro unat_of_nat_small) simp
  have feed: "?feed = map (\<lambda>i. (block_offset opts blks i, map fst ((blks @ [[]]) ! i))) [0..<Suc (length blks)]"
    using off by (simp only: filter_feed_def block_offset_def)
  have srt: "sorted (map fst ?feed)"
    unfolding feed by (auto simp: sorted_iff_nth_mono block_offset_mono simp del: upt_Suc)
  obtain b1 gs pending where b1: "feed_blocks ?C ?feed (new_FilterBlockBuilder ?n) = Some b1" "fb_rel ?f ?n b1 gs pending"
    and grp: "\<forall>(off, ks) \<in> set ?feed. \<forall>key \<in> set ks. in_group gs pending off key"
    using filter_policy.feed_blocks_rel [OF pol _ fb_rel_new srt] w(7) by auto
  define gs' where "gs' = (if pending = [] then gs else gs @ [pending])"
  have fin: "FilterBlockBuilder_Finish ?C b1 = Some fb" using f b1(1) w(4) by (simp add: filters_of_def)
  have res: "results fb = map (string_of bits gs') [0..<?n]"
    using filter_policy.Finish_rel [OF pol b1(2)] fin by (auto simp: gs'_def)
  have key: "block_offset opts blks i div kFilterBase < length gs' \<and> fst e \<in> set (gs' ! (block_offset opts blks i div kFilterBase))"
    if "i < length blks" "e \<in> set (blks ! i)" for i e
  proof -
    have "(block_offset opts blks i, map fst (blks ! i)) \<in> set ?feed"
      using that(1) unfolding feed by (auto simp: nth_append intro!: image_eqI [of _ _ i] simp del: upt_Suc)
    then have "in_group gs pending (block_offset opts blks i) (fst e)" using grp that(2) by fastforce
    then show ?thesis by (auto simp: in_group_def gs'_def nth_append split: if_splits)
  qed
  moreover have "gs' \<noteq> []"
  proof -
    obtain b where "b \<in> set (blks ! 0)" using ne by (metis length_greater_0_conv list.set_sel(1) nth_mem)
    then show ?thesis using key [of 0 b] ne by auto
  qed
  ultimately show ?thesis using res by blast
qed

subsection \<open>The filters always answer\<close>

lemma Multi_KeyMayMatchFilters_total:
  assumes "\<forall>c \<in> set p. child_id c < length bloom_seeds" "length fs \<le> length p"
  shows "\<exists>b. Multi_KeyMayMatchFilters p key fs = Some b"
  using assms
proof (induction p key fs rule: Multi_KeyMayMatchFilters.induct)
  case (3 c cs key f fs)
  have "\<exists>b. Child_KeyMayMatch c key f = Some b"
    using 3(2) by (auto simp: Child_KeyMayMatch_def BloomHash_def Let_def)
  then obtain b where b: "Child_KeyMayMatch c key f = Some b" by blast
  show ?case
  proof (cases b)
    case True
    with 3(1) [OF b] 3(2,3) b show ?thesis by simp
  qed (use b in auto)
qed auto

lemma multi_children: "length bits \<le> 10 \<Longrightarrow> 0 \<notin> set bits \<Longrightarrow> c \<in> set (new_MultiFilter bits) \<Longrightarrow> child_id c < length bloom_seeds"
  using new_MultiFilter_nth [of bits] by (auto simp: in_set_conv_nth new_ChildBloomFilterPolicy_def bloom_seeds_def)

lemma KeyMayMatch_total:
  assumes bits: "length bits \<le> 10" "0 \<notin> set bits"
    and t: "table_of f (length bits) rf gs t" and r: "reader_inv f (length bits) rf gs t r"
    and off: "off div kFilterBase < length gs"
  shows "\<exists>b. FilterBlockReader_KeyMayMatch (InternalFilter_KeyMayMatchFilters (Multi_KeyMayMatchFilters (new_MultiFilter bits))) off key r = Some b"
proof -
  let ?x = "off div kFilterBase"
  let ?c = "curr_num_of_filters_regions r ! (?x div rf)"
  have rf: "0 < rf" using t by (simp add: table_of_def)
  have "?x div rf < (length gs + rf - 1) div rf" using region_of_index(1) [OF off rf] .
  then have c: "?c \<le> length bits" using r by (simp add: reader_inv_def Let_def)
  have g: "gather_filters r (?x div rf) ?x [0..<?c] = Some (map (\<lambda>i. group_part f i (gs ! ?x)) [0..<?c])"
    using gather_filters_eq [OF t r off, of "[0..<?c]"] by simp
  obtain b where b: "Multi_KeyMayMatchFilters (new_MultiFilter bits) (ExtractUserKey key) (map (\<lambda>i. group_part f i (gs ! ?x)) [0..<?c]) = Some b"
    using Multi_KeyMayMatchFilters_total [of "new_MultiFilter bits" "map (\<lambda>i. group_part f i (gs ! ?x)) [0..<?c]" "ExtractUserKey key"]
      multi_children [OF bits] new_MultiFilter_nth(1) [OF bits(2)] c by auto
  have "base_lg r = kFilterBaseLg" "regionFilters r = rf" using r by (simp_all add: reader_inv_def Let_def)
  then show ?thesis
    using rf g b
    by (auto simp: FilterBlockReader_KeyMayMatch_def Let_def kFilterBase_def InternalFilter_KeyMayMatchFilters_def)
qed

subsection \<open>The pieces of a table file\<close>

abbreviation "table_pieces opts blks fb \<equiv> data_pieces opts blks @ filter_pieces (Some fb)"
abbreviation "meta_raw opts blks fb \<equiv> build_block (opt_block_restart_interval opts)
   (meta_block_entries opts (Some fb) (drop (length blks) (piece_handles (opt_crc_extend opts) (table_pieces opts blks fb))))"
abbreviation "index_raw opts blks \<equiv> build_block 1 (index_entries opts (index_keys opts blks) blks)"
abbreviation "all_pieces opts blks fb \<equiv>
   table_pieces opts blks fb @ [compress_block opts (meta_raw opts blks fb), compress_block opts (index_raw opts blks)]"
abbreviation "meta_handle opts blks fb \<equiv>
   piece_handle (opt_crc_extend opts) (table_pieces opts blks fb) (fst (compress_block opts (meta_raw opts blks fb)))"
abbreviation "idx_handle opts blks fb \<equiv>
   piece_handle (opt_crc_extend opts) (table_pieces opts blks fb @ [compress_block opts (meta_raw opts blks fb)])
     (fst (compress_block opts (index_raw opts blks)))"

lemma table_bytes_pieces:
  "table_bytes opts blks (Some fb) = file_bytes (opt_crc_extend opts) (all_pieces opts blks fb) @
     Footer_EncodeTo \<lparr>metaindex_handle = meta_handle opts blks fb, index_handle = idx_handle opts blks fb\<rparr> []"
  by (simp add: table_bytes_def Let_def)

lemma length_filter_pieces [simp]: "length (filter_pieces (Some fb)) = length (results fb)"
  by (simp add: filter_pieces_def)

lemma read_piece:
  assumes rd: "reads (re_Read env) (file_bytes ext ps @ rest)" and small: "length (file_bytes ext ps) < 2 ^ 48"
    and env: "re_crc env = ext 0" "snappy_ok (opt_snappy_compress opts) (re_snappy_length env) (re_snappy_uncompress env)"
    and ext: "\<And>c bs. ext (ext 0 c) bs = ext 0 (c @ bs)"
    and i: "i < length ps" "ps ! i = compress_block opts raw"
    and h: "h = piece_handle ext (take i ps) (fst (compress_block opts raw))"
  shows "\<exists>cf hf. Read_block env verify h = Inr \<lparr>bc_data = raw, cachable = cf, heap_allocated = hf\<rparr>"
proof -
  obtain c t where c: "compress_block opts raw = (c, t)" by fastforce
  have "length (file_bytes ext ps) < 2 ^ 64" using small by simp
  from stored_piece [OF rd this i(1), of c t] i(2) h c
  have st: "stored_at (re_Read env) h (raw_block ext c t)" by simp
  show ?thesis unfolding Read_block_def env(1) by (rule ReadBlock_compressed [OF st c _ env(2)]) (rule ext)
qed

end
