(* ===== verification/TableGet.thy ===== *)
theory TableGet
  imports TableIndex
begin

text \<open>
  Opening a table and looking up a key in it: on a file written with matching options \<open>Open\<close>
  succeeds and \<open>InternalGet\<close> returns the entry the index, the filters and the blocks lead to.
\<close>

lemma file_bytes_at:
  assumes "i < length ps" "ps ! i = (c, t)"
  shows "\<exists>rest'. file_bytes ext ps = file_bytes ext (take i ps) @ c @ rest'"
proof -
  have ps: "ps = take i ps @ (c, t) # drop (Suc i) ps" using assms by (metis id_take_nth_drop)
  have "file_bytes ext ps = file_bytes ext (take i ps) @ raw_block ext c t @ file_bytes ext (drop (Suc i) ps)"
    by (subst ps) (simp add: file_bytes_def)
  then show ?thesis by (simp add: raw_block_def Let_def)
qed

lemma read_range:
  assumes rd: "reads Read (file_bytes ext ps @ rest)" and i: "i < length ps" "ps ! i = (c, t)" and ab: "a + b \<le> length c"
  shows "\<exists>x. Read (length (file_bytes ext (take i ps)) + a) b = Inr (take b (drop a c), x)"
proof -
  obtain r' where fb: "file_bytes ext ps = file_bytes ext (take i ps) @ c @ r'" using file_bytes_at [OF i] by blast
  have "length (file_bytes ext (take i ps)) + a + b \<le> length (file_bytes ext ps @ rest)"
    using ab by (subst fb) simp
  then obtain x where "Read (length (file_bytes ext (take i ps)) + a) b =
      Inr (take b (drop (length (file_bytes ext (take i ps)) + a) (file_bytes ext ps @ rest)), x)"
    using rd unfolding reads_def by blast
  moreover have "take b (drop (length (file_bytes ext (take i ps)) + a) (file_bytes ext ps @ rest)) = take b (drop a c)"
    using ab by (subst fb) simp
  ultimately show ?thesis by auto
qed

lemma length_file_bytes_take: "length (file_bytes ext (take i ps)) \<le> length (file_bytes ext ps)"
  using append_take_drop_id [of i ps] file_bytes_append [of ext "take i ps" "drop i ps"] by (metis le_add1 length_append)

lemma filter_strings_stored:
  assumes rd: "reads (re_Read env) (file_bytes ext ps @ rest)" and small: "length (file_bytes ext ps) < 2 ^ 48"
    and ps: "ps = ds @ map (\<lambda>x. (x, kNoCompression)) strs @ more'"
    and hs: "hs = drop (length ds) (piece_handles ext (ds @ map (\<lambda>x. (x, kNoCompression)) strs))"
  shows "strings_stored (filter_Read env) (map (\<lambda>h. BlockHandle_EncodeTo h []) hs) strs"
  unfolding strings_stored_def
proof (intro conjI allI impI)
  show "length (map (\<lambda>h. BlockHandle_EncodeTo h []) hs) = length strs" by (simp add: hs)
  fix i assume i: "i < length strs"
  let ?k = "length ds + i"
  have k: "?k < length ps" "ps ! ?k = (strs ! i, kNoCompression)" using i by (simp_all add: ps nth_append)
  have tk: "take ?k (ds @ map (\<lambda>x. (x, kNoCompression)) strs) = take ?k ps" using i by (simp add: ps)
  have h: "hs ! i = piece_handle ext (take ?k ps) (strs ! i)"
    using i tk by (simp add: hs piece_handles_def nth_append)
  have u: "unat (bh_offset (hs ! i)) = length (file_bytes ext (take ?k ps))"
    unfolding h piece_handle_def using length_file_bytes_take [of ext ?k ps] small by (simp add: unat_of_nat_small)
  have "BlockHandle_DecodeFrom (map (\<lambda>h. BlockHandle_EncodeTo h []) hs ! i) = Inr (hs ! i, [])"
    using i by (simp add: hs)
  moreover have "filter_Read env (unat (bh_offset (hs ! i)) + a) b = Inr (take b (drop a (strs ! i)))" if "a + b \<le> length (strs ! i)" for a b
    using read_range [OF rd k that] by (auto simp: filter_Read_def u)
  ultimately show "\<exists>h rest. BlockHandle_DecodeFrom (map (\<lambda>h. BlockHandle_EncodeTo h []) hs ! i) = Inr (h, rest) \<and>
        (\<forall>a b. a + b \<le> length (strs ! i) \<longrightarrow>
           filter_Read env (unat (bh_offset h) + a) b = Inr (take b (drop a (strs ! i))))" by blast
qed

text \<open>Everything a reader relies on: the file was written with matching options.\<close>

definition table_file ::
  "(slice \<Rightarrow> slice \<Rightarrow> int) \<Rightarrow> (slice \<Rightarrow> slice \<Rightarrow> slice) \<Rightarrow> (slice \<Rightarrow> nat \<Rightarrow> slice) \<Rightarrow> nat list \<Rightarrow> slice \<Rightarrow> nat \<Rightarrow>
   'f TableOptions \<Rightarrow> ReadEnv \<Rightarrow> (slice \<times> slice) list list \<Rightarrow> FilterBlockBuilder \<Rightarrow> bool" where
  "table_file ucmp usep usucc bits name rf opts env blks fb \<longleftrightarrow>
     writes_for ucmp usep usucc bits name opts \<and>
     reads_for ucmp bits name rf opts (table_bytes opts blks (Some fb)) env \<and>
     filters_of opts blks (Some fb) \<and> sized_blocks opts blks fb \<and> data_blocks ucmp blks"

definition filter_handle_values :: "'f TableOptions \<Rightarrow> (slice \<times> slice) list list \<Rightarrow> FilterBlockBuilder \<Rightarrow> slice list" where
  "filter_handle_values opts blks fb =
     map (\<lambda>h. BlockHandle_EncodeTo h []) (drop (length blks) (piece_handles (opt_crc_extend opts) (table_pieces opts blks fb)))"

definition groups_of :: "nat list \<Rightarrow> 'f TableOptions \<Rightarrow> (slice \<times> slice) list list \<Rightarrow> FilterBlockBuilder \<Rightarrow> slice list list \<Rightarrow> bool" where
  "groups_of bits opts blks fb gs \<longleftrightarrow> gs \<noteq> [] \<and> results fb = map (string_of bits gs) [0..<length bits] \<and>
    (\<forall>i<length blks. \<forall>e\<in>set (blks ! i). block_offset opts blks i div kFilterBase < length gs \<and>
       fst e \<in> set (gs ! (block_offset opts blks i div kFilterBase)))"

definition rep_ok ::
  "nat list \<Rightarrow> nat \<Rightarrow> 'f TableOptions \<Rightarrow> (slice \<times> slice) list list \<Rightarrow> FilterBlockBuilder \<Rightarrow> slice list list \<Rightarrow> TableRep \<Rightarrow> bool" where
  "rep_ok bits rf opts blks fb gs rep \<longleftrightarrow>
     (\<exists>ibl. rep_index_block rep = Some ibl \<and> block_of 1 (index_entries opts (index_keys opts blks) blks) ibl) \<and>
     table_inv (multi_summaries bits) (length bits) rf gs (rep_filters rep) \<and>
     filter_handles (rep_filters rep) = filter_handle_values opts blks fb \<and>
     length (rep_has_access rep) = region_count rf gs"

lemma table_file_groups:
  "table_file ucmp usep usucc bits name rf opts env blks fb \<Longrightarrow> \<exists>gs. groups_of bits opts blks fb gs"
  using built_filters [of ucmp usep usucc bits name opts blks fb] unfolding table_file_def groups_of_def sized_blocks_def data_blocks_def by blast

lemma table_file_stored:
  assumes "table_file ucmp usep usucc bits name rf opts env blks fb"
  shows "strings_stored (filter_Read env) (filter_handle_values opts blks fb) (results fb)"
proof -
  have rd: "reads (re_Read env) (table_bytes opts blks (Some fb))" "length (table_bytes opts blks (Some fb)) < 2 ^ 48"
    using assms by (simp_all add: table_file_def reads_for_def sized_blocks_def)
  then have "length (file_bytes (opt_crc_extend opts) (all_pieces opts blks fb)) < 2 ^ 48" unfolding table_bytes_pieces by simp
  from filter_strings_stored [OF rd(1) [unfolded table_bytes_pieces] this, of "data_pieces opts blks" "results fb"]
  show ?thesis by (simp add: filter_handle_values_def filter_pieces_def)
qed

lemma table_file_of:
  assumes "table_file ucmp usep usucc bits name rf opts env blks fb" "groups_of bits opts blks fb gs"
  shows "file_of (multi_summaries bits) (length bits) gs (filter_Read env) (filter_handle_values opts blks fb)"
proof -
  have res: "results fb = map (string_of bits gs) [0..<length bits]" using assms(2) by (simp add: groups_of_def)
  show ?thesis by (rule file_of_stored [OF res table_file_stored [OF assms(1)]])
qed


lemma meta_read:
  assumes tf: "table_file ucmp usep usucc bits name rf opts env blks fb" and gs: "groups_of bits opts blks fb gs"
    and t: "t = ReadMeta (rf * kFilterBase) bits (meta_offsets bits fb) (filter_handle_values opts blks fb) fresh_table"
  shows "Table_ReadMeta env (meta_handle opts blks fb) n fd fresh_table =
      (if n > 0 then load_filters env n fd t else Some t)"
    "table_inv (multi_summaries bits) (length bits) rf gs t" "filter_handles t = filter_handle_values opts blks fb" "tfilter t = None"
proof -
  let ?ext = "opt_crc_extend opts"
  have "writes_for ucmp usep usucc bits name opts" "reads_for ucmp bits name rf opts (table_bytes opts blks (Some fb)) env"
    using tf by (simp_all add: table_file_def)
  note w = writes_forD [OF this(1)] and r = reads_forD [OF this(2)]
  have sz: "length (table_bytes opts blks (Some fb)) < 2 ^ 48" "length (meta_raw opts blks fb) < 2 ^ 32" "\<forall>r\<in>set (results fb). length r < 2 ^ 32"
    using tf by (simp_all add: table_file_def sized_blocks_def)
  have res: "results fb = map (string_of bits gs) [0..<length bits]" "gs \<noteq> []" using gs by (simp_all add: groups_of_def)
  let ?hs = "drop (length blks) (piece_handles ?ext (table_pieces opts blks fb))"
  have lhs: "length ?hs \<le> 100" using w(6) res(1) by simp
  have mes: "meta_block_entries opts (Some fb) ?hs = meta_entries bits name fb ?hs" by (simp add: meta_block_entries_def w(4,5))
  have "length (file_bytes ?ext (all_pieces opts blks fb)) < 2 ^ 48" using sz(1) unfolding table_bytes_pieces by simp
  from read_piece [OF r(8) [unfolded table_bytes_pieces] this r(2,7) w(9), of "length (table_pieces opts blks fb)" "meta_raw opts blks fb"]
  obtain cf hf where rb: "Read_block env (re_paranoid_checks env) (meta_handle opts blks fb) =
      Inr \<lparr>bc_data = meta_raw opts blks fb, cachable = cf, heap_allocated = hf\<rparr>" by (force simp: nth_append)
  obtain bl where bl: "new_Block (meta_raw opts blks fb) = Some bl" "block_of (opt_block_restart_interval opts) (meta_entries bits name fb ?hs) bl"
    using build_block_of [OF w(1) sz(2)] unfolding mes by blast
  have ne: "meta_entries bits name fb ?hs \<noteq> []" using stored_offset_ids_ne [OF w(7), of 0] by (simp add: meta_entries_def)
  note srt = meta_entries_sorted [OF w(6) lhs, of name fb]
  note parts = meta_parts [OF w(7) lhs refl, of name fb]
  have "map snd (takeWhile (\<lambda>e. starts_with (fst e) key_off) (dropWhile (\<lambda>e. Bytewise_Compare (fst e) key_off < 0) (meta_entries bits name fb ?hs))) = meta_offsets bits fb"
    "map snd (dropWhile (\<lambda>e. Bytewise_Compare (fst e) (filter_key name 0) < 0) (meta_entries bits name fb ?hs)) = filter_handle_values opts blks fb"
    using parts by (simp_all add: filter_handle_values_def)
  then show "Table_ReadMeta env (meta_handle opts blks fb) n fd fresh_table = (if n > 0 then load_filters env n fd t else Some t)"
    by (simp only: Table_ReadMeta_def r(3,4,5) rb option.case sum.case prod.case Let_def BlockContents.select_convs bl(1)
        entries_from_eq [OF bl(2) ne srt] Option.bind.bind_lunit t)
  show "table_inv (multi_summaries bits) (length bits) rf gs t" "filter_handles t = filter_handle_values opts blks fb"
    using ReadMeta_table_inv [OF w(8,7) res(2) r(6) res(1) sz(3), of "filter_handle_values opts blks fb"] by (simp_all add: t)
  show "tfilter t = None" by (simp add: t ReadMeta_tfilter fresh_table_def)
qed

lemma those_map_decode:
  "those (map (\<lambda>v. case BlockHandle_DecodeFrom v of Inl _ \<Rightarrow> None | Inr (h, _) \<Rightarrow> Some h) (map (\<lambda>h. BlockHandle_EncodeTo h []) hs)) = Some hs"
  by (induction hs) simp_all

lemma load_copies:
  assumes gs: "groups_of bits opts blks fb gs" and rds: "re_region_divide_size env = rf * kFilterBase"
    and inv: "table_inv (multi_summaries bits) (length bits) rf gs t" and t: "tfilter t = None"
    and h: "filter_handles t = filter_handle_values opts blks fb" and n: "n \<le> length bits"
  shows "\<exists>t'. load_filters env n (Some (results fb)) t = Some t' \<and>
    table_inv (multi_summaries bits) (length bits) rf gs t' \<and> filter_handles t' = filter_handles t"
proof -
  let ?f = "multi_summaries bits"
  have res: "results fb = map (string_of bits gs) [0..<length bits]" using gs by (simp add: groups_of_def)
  have len: "length (filter_handles t) = length bits"
    by (simp add: h filter_handle_values_def res filter_pieces_def)
  have u: "uniform ?f (length bits) rf gs 0 t" using inv t by (simp add: uniform_def getCurrFilterNum_def)
  have "\<forall>k < length (take n (results fb)). \<exists>rest. take n (results fb) ! k = concat (map (group_part ?f (0 + k)) gs) @ rest"
    by (auto simp: res)
  from ReadFilters_correct [OF u _ this] n res
  obtain t' where t': "ReadFilters (rf * kFilterBase) (take n (results fb)) t = Some t'" "uniform ?f (length bits) rf gs n t'"
    "filter_handles t' = filter_handles t" by (auto simp: ReadFilters_def)
  obtain hs where hs: "take n (filter_handles t) = map (\<lambda>h. BlockHandle_EncodeTo h []) hs"
    unfolding h filter_handle_values_def take_map by blast
  show ?thesis
    using t' len n unfolding load_filters_def hs those_map_decode by (simp add: rds uniform_def)
qed

lemma index_entries_ne: "blks \<noteq> [] \<Longrightarrow> index_entries opts (index_keys opts blks) blks \<noteq> []"
proof -
  assume "blks \<noteq> []"
  then have "length (index_entries opts (index_keys opts blks) blks) = length blks"
    by (cases blks) (simp_all add: index_entries_def index_keys_def)
  with \<open>blks \<noteq> []\<close> show ?thesis by (metis length_0_conv)
qed

text \<open>\<open>Open\<close> succeeds on the file and reads back what \<open>Finish\<close> wrote.\<close>

lemma Table_Open_ok:
  assumes tf: "table_file ucmp usep usucc bits name rf opts env blks fb" and gs: "groups_of bits opts blks fb gs"
    and n: "n = 0 \<or> n \<le> length bits \<and> fd = Some (results fb)"
  shows "\<exists>rep. Table_Open env cache_id (length (table_bytes opts blks (Some fb))) n fd = Some (Inr rep) \<and>
    rep_ok bits rf opts blks fb gs rep"
proof -
  let ?ext = "opt_crc_extend opts" and ?bytes = "table_bytes opts blks (Some fb)"
  let ?ft = "\<lparr>metaindex_handle = meta_handle opts blks fb, index_handle = idx_handle opts blks fb\<rparr>"
  let ?idx = "index_entries opts (index_keys opts blks) blks"
  have "writes_for ucmp usep usucc bits name opts" "reads_for ucmp bits name rf opts ?bytes env"
    using tf by (simp_all add: table_file_def)
  note w = writes_forD [OF this(1)] and r = reads_forD [OF this(2)]
  have sz: "length ?bytes < 2 ^ 48" "length (index_raw opts blks) < 2 ^ 32" and ne: "blks \<noteq> []"
    using tf by (simp_all add: table_file_def sized_blocks_def data_blocks_def)
  have split: "?bytes = file_bytes ?ext (all_pieces opts blks fb) @ Footer_EncodeTo ?ft []" by (rule table_bytes_pieces)
  have len: "length ?bytes = length (file_bytes ?ext (all_pieces opts blks fb)) + kEncodedLength"
    unfolding split using Footer_roundtrip_rest(2) [of ?ft] by simp
  have fit: "length ?bytes - kEncodedLength + kEncodedLength \<le> length ?bytes" unfolding len by simp
  obtain x where ft: "re_Read env (length ?bytes - kEncodedLength) kEncodedLength = Inr (Footer_EncodeTo ?ft [], x)"
  proof -
    have "take kEncodedLength (drop (length ?bytes - kEncodedLength) ?bytes) = Footer_EncodeTo ?ft []"
      unfolding len unfolding split using Footer_roundtrip_rest(2) [of ?ft] by simp
    then show thesis using r(8) fit that unfolding reads_def by metis
  qed
  have small: "length (file_bytes ?ext (all_pieces opts blks fb)) < 2 ^ 48" using sz(1) len by simp
  from read_piece [OF r(8) [unfolded table_bytes_pieces] small r(2,7) w(9), of "Suc (length (table_pieces opts blks fb))" "index_raw opts blks"]
  obtain cf hf where rb: "Read_block env (re_paranoid_checks env) (idx_handle opts blks fb) =
      Inr \<lparr>bc_data = index_raw opts blks, cachable = cf, heap_allocated = hf\<rparr>"
    by (force simp: nth_append)
  obtain ibl where ibl: "new_Block (index_raw opts blks) = Some ibl" "block_of 1 ?idx ibl"
    using build_block_of [OF _ sz(2)] by auto
  define t where "t = ReadMeta (rf * kFilterBase) bits (meta_offsets bits fb) (filter_handle_values opts blks fb) fresh_table"
  note m = meta_read [OF tf gs t_def]
  obtain t' where t': "Table_ReadMeta env (meta_handle opts blks fb) n fd fresh_table = Some t'"
    "table_inv (multi_summaries bits) (length bits) rf gs t'" "filter_handles t' = filter_handle_values opts blks fb"
  proof (cases "n = 0")
    case False
    with n have "n \<le> length bits" "fd = Some (results fb)" by auto
    with load_copies [OF gs r(5) m(2,4,3)] m(1) [of n fd] m(3) False that show thesis by auto
  qed (use m that in auto)
  have reg: "getRegionNum (rf * kFilterBase) t' = region_count rf gs"
    using getRegionNum_eq t'(2) unfolding region_count_def table_inv_def by blast
  have enc: "\<not> length ?bytes < kEncodedLength" using len by simp
  define rep where "rep = \<lparr>rep_filters = t', rep_index_block = Some ibl,
      rep_metaindex_handle = meta_handle opts blks fb, rep_cache_id = cache_id,
      rep_has_access = replicate (region_count rf gs) False,
      rep_freqs = replicate (freq_count env (bh_offset (decode_handle (snd (last ?idx))))) 0\<rparr>"
  have "Table_Open env cache_id (length ?bytes) n fd = Some (Inr rep)"
    unfolding Table_Open_def rep_def using enc
    by (simp only: if_False ft sum.case prod.case Footer_roundtrip_rest(1) [of ?ft "[]", unfolded append_Nil2] Footer.select_convs rb
        BlockContents.select_convs Let_def ibl(1) t'(1) Option.bind.bind_lunit last_index_value_eq [OF ibl(2) index_entries_ne [OF ne]] r(5) reg)
  moreover have "rep_ok bits rf opts blks fb gs rep" using t' ibl(2) by (simp add: rep_ok_def rep_def)
  ultimately show ?thesis by blast
qed

definition data_handle :: "'f TableOptions \<Rightarrow> (slice \<times> slice) list list \<Rightarrow> nat \<Rightarrow> BlockHandle" where
  "data_handle opts blks i = piece_handle (opt_crc_extend opts) (take i (data_pieces opts blks))
     (fst (compress_block opts (build_block (opt_block_restart_interval opts) (blks ! i))))"

text \<open>A block cache that holds, under the keys of this table, blocks of this table only.\<close>

definition cache_coherent ::
  "'f TableOptions \<Rightarrow> (slice \<times> slice) list list \<Rightarrow> u64 \<Rightarrow> (slice \<Rightarrow> Block option option) option \<Rightarrow> bool" where
  "cache_coherent opts blks cid cached \<longleftrightarrow>
     (\<forall>lookup i b. cached = Some lookup \<and> i < length blks \<and>
        lookup (EncodeFixed64 cid @ EncodeFixed64 (bh_offset (data_handle opts blks i))) = Some b \<longrightarrow>
        b = new_Block (build_block (opt_block_restart_interval opts) (blks ! i)))"

lemma length_index_keys [simp]: "length (index_keys opts blks) = length blks"
  by (cases blks) (simp_all add: index_keys_def)

lemma index_entries_nth:
  assumes "i < length blks"
  shows "index_entries opts (index_keys opts blks) blks ! i = (index_keys opts blks ! i, BlockHandle_EncodeTo (data_handle opts blks i) [])"
  using assms by (simp add: index_entries_def piece_handles_def data_handle_def)

lemma length_index_entries [simp]: "length (index_entries opts (index_keys opts blks) blks) = length blks"
  by (simp add: index_entries_def)

lemma data_handle_offset:
  "length (table_bytes opts blks fbo) < 2 ^ 48 \<Longrightarrow> unat (bh_offset (data_handle opts blks i)) = block_offset opts blks i"
  using block_offset_le_bytes [of opts blks i fbo]
  by (simp add: data_handle_def piece_handle_def block_offset_def unat_of_nat_small)

lemma region_of_eq:
  assumes rds: "re_region_divide_size env = rf * kFilterBase" "0 < rf" and o: "unat off < 2 ^ 48"
    and g: "unat off div kFilterBase < length gs"
  shows "region_of env off = unat off div kFilterBase div rf" "region_of env off < region_count rf gs"
proof -
  have e: "unat off div (rf * kFilterBase) = unat off div kFilterBase div rf" by (metis div_mult2_eq mult.commute)
  have "unat off div kFilterBase < 2 ^ 32"
    using o by (simp add: kFilterBase_def kFilterBaseLg_def less_mult_imp_div_less)
  then have "unat off div kFilterBase div rf < 2 ^ 32" using div_le_dividend le_less_trans by blast
  then show eq: "region_of env off = unat off div kFilterBase div rf"
    by (simp add: region_of_def rds(1) e unat_of_nat_small)
  show "region_of env off < region_count rf gs"
    unfolding eq region_count_def using region_of_index(1) [OF g rds(2)] .
qed

lemma first_access_ok:
  assumes tf: "table_file ucmp usep usucc bits name rf opts env blks fb" and gs: "groups_of bits opts blks fb gs"
    and rep: "rep_ok bits rf opts blks fb gs rep" and j: "j < region_count rf gs"
  shows "\<exists>rep'. first_access env j rep = Some rep' \<and> rep_ok bits rf opts blks fb gs rep' \<and> rep_cache_id rep' = rep_cache_id rep"
proof -
  let ?f = "multi_summaries bits" and ?t = "rep_filters rep"
  have rds: "re_region_divide_size env = rf * kFilterBase"
    using tf by (simp add: table_file_def reads_for_def)
  have inv: "table_inv ?f (length bits) rf gs ?t" and h: "filter_handles ?t = filter_handle_values opts blks fb"
    and acc: "length (rep_has_access rep) = region_count rf gs" using rep by (simp_all add: rep_ok_def)
  have fo: "file_of ?f (length bits) gs (filter_Read env) (filter_handles ?t)"
    unfolding h by (rule table_file_of [OF tf gs])
  obtain d t' where "AddFilters (rf * kFilterBase) (re_real_size env) (\<lambda>i. re_bits_per_key env ! i) (filter_Read env)
      (re_init_filter_nums env) j ?t = Some (d, t')" "table_inv ?f (length bits) rf gs t'" "filter_handles t' = filter_handles ?t"
    using AddFilters_correct [OF inv fo j curr_le [OF inv j], of "re_real_size env" "\<lambda>i. re_bits_per_key env ! i" "re_init_filter_nums env"]
    unfolding loaded_to_def by blast
  then show ?thesis
    using rep acc j by (auto simp: first_access_def isAccess_def rds setAccess_def rep_ok_def)
qed

lemma may_match_total:
  assumes tf: "table_file ucmp usep usucc bits name rf opts env blks fb"
    and rep: "rep_ok bits rf opts blks fb gs rep" and g: "unat off div kFilterBase < length gs"
  shows "\<exists>b. may_match env had off k rep = Some b"
    and "key \<in> set (gs ! (unat off div kFilterBase)) \<Longrightarrow> ExtractUserKey k = ExtractUserKey key \<Longrightarrow> may_match env had off k rep = Some True"
proof -
  let ?f = "multi_summaries bits"
  have w: "length bits \<le> 10" "0 \<notin> set bits"
    and pol: "re_filter_policy env = Some (InternalFilter_KeyMayMatchFilters (Multi_KeyMayMatchFilters (new_MultiFilter bits)), name)"
    using tf by (simp_all add: table_file_def reads_for_def writes_for_def)
  have inv: "table_inv ?f (length bits) rf gs (rep_filters rep)" using rep by (simp add: rep_ok_def)
  have "\<exists>b. may_match env had off k rep = Some b \<and>
      (key \<in> set (gs ! (unat off div kFilterBase)) \<and> ExtractUserKey k = ExtractUserKey key \<longrightarrow> b)" for key
  proof (cases "tfilter (rep_filters rep)")
    case (Some r)
    then have ri: "table_of ?f (length bits) rf gs (rep_filters rep)" "reader_inv ?f (length bits) rf gs (rep_filters rep) r"
      using inv by (simp_all add: table_inv_def)
    note hit = filter_policy.KeyMayMatch_hit [OF multi_policy [OF w] ri g]
    show ?thesis
      using KeyMayMatch_total [OF w ri g, of k] hit [of key] KeyMayMatch_user_key [of k key]
      by (auto simp: may_match_def pol Some)
  qed (auto simp: may_match_def pol)
  then show "\<exists>b. may_match env had off k rep = Some b"
    "key \<in> set (gs ! (unat off div kFilterBase)) \<Longrightarrow> ExtractUserKey k = ExtractUserKey key \<Longrightarrow> may_match env had off k rep = Some True"
    by (blast, metis)
qed

lemma BlockReader_ok:
  assumes tf: "table_file ucmp usep usucc bits name rf opts env blks fb" and i: "i < length blks"
    and co: "cache_coherent opts blks (rep_cache_id rep) cached"
  shows "\<exists>ins. Table_BlockReader env verify fill cached (BlockHandle_EncodeTo (data_handle opts blks i) []) rep =
    (Inr (new_Block (build_block (opt_block_restart_interval opts) (blks ! i))), ins)"
proof -
  let ?h = "data_handle opts blks i" and ?raw = "build_block (opt_block_restart_interval opts) (blks ! i)"
  have "writes_for ucmp usep usucc bits name opts" "reads_for ucmp bits name rf opts (table_bytes opts blks (Some fb)) env"
    using tf by (simp_all add: table_file_def)
  note w = writes_forD [OF this(1)] and r = reads_forD [OF this(2)]
  have "length (file_bytes (opt_crc_extend opts) (all_pieces opts blks fb)) < 2 ^ 48"
    using tf by (simp add: table_file_def sized_blocks_def table_bytes_pieces)
  from read_piece [OF r(8) [unfolded table_bytes_pieces] this r(2,7) w(9), of i ?raw ?h verify] i
  obtain cf hf where rb: "Read_block env verify ?h = Inr \<lparr>bc_data = ?raw, cachable = cf, heap_allocated = hf\<rparr>"
    by (auto simp: nth_append data_handle_def)
  show ?thesis
  proof (cases "Option.bind cached (\<lambda>lookup. lookup (block_cache_key rep ?h))")
    case None
    then show ?thesis by (simp add: Table_BlockReader_def rb Let_def)
  next
    case (Some b)
    then obtain lookup where l: "cached = Some lookup" "lookup (block_cache_key rep ?h) = Some b" by (cases cached) auto
    then have "b = new_Block ?raw" using co i by (simp add: cache_coherent_def block_cache_key_def)
    then show ?thesis using Some by (simp add: Table_BlockReader_def)
  qed
qed

lemma coherent_none: "cache_coherent opts blks cid None"
  by (simp add: cache_coherent_def)

lemma BlockReader_insert:
  assumes tf: "table_file ucmp usep usucc bits name rf opts env blks fb" and i: "i < length blks"
    and ins: "Table_BlockReader env verify fill cached (BlockHandle_EncodeTo (data_handle opts blks i) []) rep = (res, Some (key, b))"
  shows "key = EncodeFixed64 (rep_cache_id rep) @ EncodeFixed64 (bh_offset (data_handle opts blks i)) \<and>
    b = new_Block (build_block (opt_block_restart_interval opts) (blks ! i))"
proof -
  have "Table_BlockReader env verify fill None (BlockHandle_EncodeTo (data_handle opts blks i) []) rep =
      (case Read_block env verify (data_handle opts blks i) of Inl s \<Rightarrow> (Inl s, None) | Inr c \<Rightarrow> (Inr (new_Block (bc_data c)), None))"
    by (simp add: Table_BlockReader_def Let_def split: sum.splits)
  with BlockReader_ok [OF tf i coherent_none, where rep = rep and verify = verify and fill = fill]
  obtain c where c: "Read_block env verify (data_handle opts blks i) = Inr c"
    "new_Block (bc_data c) = new_Block (build_block (opt_block_restart_interval opts) (blks ! i))"
    by (auto split: sum.splits)
  with ins show ?thesis
    by (auto simp: Table_BlockReader_def Let_def block_cache_key_def split: option.splits if_splits)
qed

context user_shortening
begin

lemma index_keys_eq:
  "writes_for ucmp usep usucc_from bits name opts \<Longrightarrow> index_keys opts blks = ikeys blks"
  by (auto simp: index_keys_def ikeys_def dest: writes_forD(2,3))

lemma index_seek:
  assumes w: "writes_for ucmp usep usucc_from bits name opts" and d: "data_blocks ucmp blks" and k: "ikey_wf k"
    and ibl: "block_of 1 (index_entries opts (index_keys opts blks) blks) ibl"
  shows "(\<exists>j. located blks k j \<and> block_seek icmp (Some ibl) k = Some (OK, Some (ikeys blks ! j, BlockHandle_EncodeTo (data_handle opts blks j) []))) \<or>
    (\<forall>i<length blks. icmp (ikeys blks ! i) k < 0) \<and> block_seek icmp (Some ibl) k = Some (OK, None)"
proof -
  let ?idx = "index_entries opts (index_keys opts blks) blks"
  have ne: "blks \<noteq> []" using d by (simp add: data_blocks_def)
  have nth: "?idx ! i = (ikeys blks ! i, BlockHandle_EncodeTo (data_handle opts blks i) [])" if "i < length blks" for i
    using index_entries_nth [OF that, of opts] index_keys_eq [OF w] by simp
  have srt: "sorted_entries icmp ?idx"
    unfolding sorted_entries_def sorted_wrt_iff_nth_less using nth ikeys_sorted [OF d] by simp
  have wfs: "\<forall>e\<in>set ?idx. ikey_wf (fst e)"
    using nth ikeys_bounds(1) [OF d] by (auto simp: in_set_conv_nth)
  have bs: "block_seek icmp (Some ibl) k = Some (OK, seek_entry icmp ?idx k)"
    by (rule internal.block_seek_eq [OF ibl index_entries_ne [OF ne] srt wfs k])
  show ?thesis
  proof (cases "seek_entry icmp ?idx k")
    case None
    then have "\<forall>e\<in>set ?idx. icmp (fst e) k < 0" by (simp add: seek_entry_None)
    then have "icmp (ikeys blks ! i) k < 0" if "i < length blks" for i
      using nth [OF that] nth_mem [of i ?idx] that by fastforce
    with None bs show ?thesis by simp
  next
    case (Some e)
    then obtain j where j: "j < length blks" "\<not> icmp (fst (?idx ! j)) k < 0" "\<forall>i<j. icmp (fst (?idx ! i)) k < 0" "e = ?idx ! j"
      unfolding seek_entry_def find_Some_iff by auto
    then have "located blks k j" using nth by (simp add: located_def)
    with bs Some j nth show ?thesis by auto
  qed
qed

lemma InternalGet_ok:
  assumes tf: "table_file ucmp usep usucc_from bits name rf opts env blks fb" and gs: "groups_of bits opts blks fb gs"
    and rep: "rep_ok bits rf opts blks fb gs rep" and co: "cache_coherent opts blks (rep_cache_id rep) cached" and k: "ikey_wf k"
  shows "\<exists>found reg ins rep'. InternalGet env verify fill cached k rep = Some (OK, found, reg, ins, rep') \<and>
    lookup_result icmp (concat blks) k found \<and> rep_ok bits rf opts blks fb gs rep' \<and> rep_cache_id rep' = rep_cache_id rep \<and>
    (\<forall>key b. ins = Some (key, b) \<longrightarrow> (\<exists>i<length blks. key = EncodeFixed64 (rep_cache_id rep) @ EncodeFixed64 (bh_offset (data_handle opts blks i)) \<and>
       b = new_Block (build_block (opt_block_restart_interval opts) (blks ! i))))"
proof -
  have wr: "writes_for ucmp usep usucc_from bits name opts" "reads_for ucmp bits name rf opts (table_bytes opts blks (Some fb)) env"
    and d: "data_blocks ucmp blks" and sz: "length (table_bytes opts blks (Some fb)) < 2 ^ 48"
    and bsz: "\<forall>b\<in>set blks. length (build_block (opt_block_restart_interval opts) b) < 2 ^ 32"
    using tf by (simp_all add: table_file_def sized_blocks_def)
  note w = writes_forD [OF wr(1)] and r = reads_forD [OF wr(2)]
  obtain ibl where ibl: "rep_index_block rep = Some ibl" "block_of 1 (index_entries opts (index_keys opts blks) blks) ibl"
    using rep by (auto simp: rep_ok_def)
  from index_seek [OF wr(1) d k ibl(2)] show ?thesis
  proof
    assume "(\<forall>i<length blks. icmp (ikeys blks ! i) k < 0) \<and> block_seek icmp (Some ibl) k = Some (OK, None)"
    then have "seek_entry icmp (concat blks) k = None" "block_seek icmp (Some ibl) k = Some (OK, None)"
      using not_located [OF d k] by auto
    with rep show ?thesis by (simp add: InternalGet_def r(1) ibl(1) lookup_result_def)
  next
    let ?v = "\<lambda>j. BlockHandle_EncodeTo (data_handle opts blks j) []"
    assume "\<exists>j. located blks k j \<and> block_seek icmp (Some ibl) k = Some (OK, Some (ikeys blks ! j, ?v j))"
    then obtain j where j: "located blks k j" and bs: "block_seek icmp (Some ibl) k = Some (OK, Some (ikeys blks ! j, ?v j))" by blast
    have jl: "j < length blks" using j by (simp add: located_def)
    let ?off = "bh_offset (data_handle opts blks j)" and ?had = "tfilter (rep_filters rep) \<noteq> None"
    have off: "unat ?off = block_offset opts blks j" by (rule data_handle_offset [OF sz])
    have o48: "unat ?off < 2 ^ 48" unfolding off using block_offset_le_bytes [of opts blks j "Some fb"] sz by simp
    have mem: "unat ?off div kFilterBase < length gs \<and> fst e \<in> set (gs ! (unat ?off div kFilterBase))" if "e \<in> set (blks ! j)" for e
      using gs jl that unfolding groups_of_def off by blast
    have g: "unat ?off div kFilterBase < length gs" using mem [OF hd_in_set [OF block_keys(1) [OF d jl]]] by simp
    note reg = region_of_eq [OF r(5,6) o48 g]
    obtain rep1 where rep1: "first_access env (region_of env ?off) rep = Some rep1" "rep_ok bits rf opts blks fb gs rep1"
      "rep_cache_id rep1 = rep_cache_id rep"
      using first_access_ok [OF tf gs rep reg(2)] by blast
    have rep2: "rep_ok bits rf opts blks fb gs (count_access env ?off rep1)" "rep_cache_id (count_access env ?off rep1) = rep_cache_id rep"
      using rep1 by (auto simp: count_access_def rep_ok_def Let_def)
    have dec: "decode_handle (?v j) = data_handle opts blks j" by (simp add: decode_handle_def)
    obtain may where may: "may_match env ?had ?off k rep1 = Some may" using may_match_total(1) [OF tf rep1(2) g] by blast
    show ?thesis
    proof (cases may)
      case False
      have "\<not> (seek_entry icmp (concat blks) k = Some e \<and> ExtractUserKey (fst e) = ExtractUserKey k)" for e
      proof
        assume e: "seek_entry icmp (concat blks) k = Some e \<and> ExtractUserKey (fst e) = ExtractUserKey k"
        then have "e \<in> set (blks ! j)" using located_lookup(2) [OF d k j] by blast
        then have "may_match env ?had ?off k rep1 = Some True"
          using may_match_total(2) [OF tf rep1(2) g, of "fst e" k] mem e by metis
        with may False show False by simp
      qed
      then have "lookup_result icmp (concat blks) k None" by (simp add: lookup_result_def)
      with False may bs rep1 rep2 show ?thesis
        by (simp add: InternalGet_def r(1) ibl(1) Let_def dec)
    next
      case True
      obtain bl where bl: "new_Block (build_block (opt_block_restart_interval opts) (blks ! j)) = Some bl"
        "block_of (opt_block_restart_interval opts) (blks ! j) bl"
        using build_block_of [OF w(1)] bsz jl by (meson nth_mem)
      have seek: "block_seek icmp (Some bl) k = Some (OK, seek_entry icmp (blks ! j) k)"
        using block_keys [OF d jl] by (intro internal.block_seek_eq [OF bl(2) _ _ _ k]) auto
      have co1: "cache_coherent opts blks (rep_cache_id rep1) cached" using co rep1(3) by simp
      obtain ins where ins: "Table_BlockReader env verify fill cached (?v j) rep1 = (Inr (Some bl), ins)"
        using BlockReader_ok [OF tf jl co1, of verify fill] bl(1) by auto
      have "InternalGet env verify fill cached k rep =
          Some (OK, seek_entry icmp (blks ! j) k, Some (region_of env ?off + 1), ins, count_access env ?off rep1)"
        using True may bs rep1(1) ins seek by (simp add: InternalGet_def r(1) ibl(1) Let_def dec)
      moreover have "\<exists>i<length blks. key = EncodeFixed64 (rep_cache_id rep) @ EncodeFixed64 (bh_offset (data_handle opts blks i)) \<and>
          b = new_Block (build_block (opt_block_restart_interval opts) (blks ! i))" if "ins = Some (key, b)" for key b
        using BlockReader_insert [OF tf jl ins [unfolded that]] jl rep1(3) by auto
      ultimately show ?thesis using rep2 located_lookup(1) [OF d k j] by blast
    qed
  qed
qed

end

end
