(* ===== verification/TableUse.thy ===== *)
theory TableUse
  imports TableGet
begin

text \<open>
  The life of an open table: lookups, changes of its filters and of the shared block cache in
  any order, and the theorems that a table that was built can be read back.
\<close>

subsection \<open>Sizes\<close>

lemma piece_length:
  assumes "p \<in> set ps" shows "length (fst p) \<le> length (file_bytes ext ps)"
proof -
  obtain c t where p: "p = (c, t)" by fastforce
  obtain i where i: "i < length ps" "ps ! i = (c, t)" using assms p by (metis in_set_conv_nth)
  obtain r where "file_bytes ext ps = file_bytes ext (take i ps) @ c @ r" using file_bytes_at [OF i] by blast
  then show ?thesis by (simp add: p)
qed

lemma compress_block_raw:
  assumes "snappy_ok (opt_snappy_compress opts) sl su" "length (fst (compress_block opts raw)) < 2 ^ 32"
  shows "length raw < 2 ^ 32"
  using assms by (auto simp: compress_block_def snappy_ok_def split: CompressionType.splits option.splits if_splits)

lemma sized_blocksI:
  assumes sn: "snappy_ok (opt_snappy_compress opts) sl su" and small: "length (table_bytes opts blks (Some fb)) < 2 ^ 32"
  shows "sized_blocks opts blks fb"
proof -
  let ?ps = "all_pieces opts blks fb"
  have "length (file_bytes (opt_crc_extend opts) ?ps) < 2 ^ 32" using small unfolding table_bytes_pieces by simp
  then have p: "length (fst p) < 2 ^ 32" if "p \<in> set ?ps" for p using piece_length [OF that] le_less_trans by blast
  have raw: "length raw < 2 ^ 32" if "compress_block opts raw \<in> set ?ps" for raw
    using compress_block_raw [OF sn p [OF that]] .
  have "length r < 2 ^ 32" if "r \<in> set (results fb)" for r
    using p [of "(r, kNoCompression)"] that by (auto simp: filter_pieces_def)
  then show ?thesis using small raw by (auto simp: sized_blocks_def)
qed

lemma block_offset_less:
  assumes "i < j" "i < length blks"
  shows "block_offset opts blks i < block_offset opts blks j"
proof -
  let ?ps = "data_pieces opts blks"
  obtain c t where ct: "?ps ! i = (c, t)" by fastforce
  have "take (Suc i) ?ps = take i ?ps @ [(c, t)]" using assms ct by (metis length_map take_Suc_conv_app_nth)
  then have "block_offset opts blks (Suc i) = block_offset opts blks i + (length c + kBlockTrailerSize)"
    by (simp add: block_offset_def file_bytes_snoc)
  then show ?thesis using block_offset_mono [of "Suc i" j opts blks] assms(1) by (simp add: kBlockTrailerSize_def)
qed

lemma data_handle_inj:
  assumes "length (table_bytes opts blks fbo) < 2 ^ 48" "i < length blks" "j < length blks"
    "bh_offset (data_handle opts blks i) = bh_offset (data_handle opts blks j)"
  shows "i = j"
  using data_handle_offset [OF assms(1), of i] data_handle_offset [OF assms(1), of j] assms(2-4)
    block_offset_less [of i j blks opts] block_offset_less [of j i blks opts] by (metis nat_neq_iff)

subsection \<open>Using an open table\<close>

text \<open>
  What happens to an open table and to the block cache it shares with other tables: lookups,
  entries evicted from the cache or inserted by tables with another cache id, and filters of
  a region loaded and dropped.
\<close>

inductive table_use :: "ReadEnv \<Rightarrow> TableRep \<Rightarrow> TableRep \<Rightarrow> (slice \<rightharpoonup> Block option) \<Rightarrow> bool" for env rep0 where
  opened: "(\<And>off. cache (EncodeFixed64 (rep_cache_id rep0) @ off) = None) \<Longrightarrow> table_use env rep0 rep0 cache"
| get: "table_use env rep0 rep cache \<Longrightarrow> ikey_wf k \<Longrightarrow>
    InternalGet env verify fill (if cc then Some cache else None) k rep = Some (s, found, reg, ins, rep') \<Longrightarrow>
    table_use env rep0 rep' (case ins of None \<Rightarrow> cache | Some (key, b) \<Rightarrow> cache(key \<mapsto> b))"
| evict: "table_use env rep0 rep cache \<Longrightarrow> table_use env rep0 rep (cache(key := None))"
| other: "table_use env rep0 rep cache \<Longrightarrow> take 8 key \<noteq> EncodeFixed64 (rep_cache_id rep0) \<Longrightarrow>
    table_use env rep0 rep (cache(key \<mapsto> b))"
| adjust: "table_use env rep0 rep cache \<Longrightarrow> j < length (rep_has_access rep) \<Longrightarrow>
    AdjustFilters (re_region_divide_size env) (re_real_size env) (\<lambda>i. re_bits_per_key env ! i) (filter_Read env) m j (rep_filters rep) = Some (d, t) \<Longrightarrow>
    table_use env rep0 (rep\<lparr>rep_filters := t\<rparr>) cache"
| remove: "table_use env rep0 rep cache \<Longrightarrow> j < length (rep_has_access rep) \<Longrightarrow> n \<le> getCurrFilterNum j (rep_filters rep) \<Longrightarrow>
    Table_RemoveFilters (re_real_size env) (\<lambda>i. re_bits_per_key env ! i) (int n) j (rep_filters rep) = Some (d, t) \<Longrightarrow>
    table_use env rep0 (rep\<lparr>rep_filters := t\<rparr>) cache"

definition use_inv ::
  "nat list \<Rightarrow> nat \<Rightarrow> 'f TableOptions \<Rightarrow> (slice \<times> slice) list list \<Rightarrow> FilterBlockBuilder \<Rightarrow> slice list list \<Rightarrow> u64 \<Rightarrow>
   TableRep \<Rightarrow> (slice \<rightharpoonup> Block option) \<Rightarrow> bool" where
  "use_inv bits rf opts blks fb gs cid rep cache \<longleftrightarrow>
     rep_ok bits rf opts blks fb gs rep \<and> rep_cache_id rep = cid \<and> cache_coherent opts blks cid (Some cache)"

lemma coherent_update:
  assumes co: "cache_coherent opts blks cid (Some cache)"
    and "\<And>i. i < length blks \<Longrightarrow> key = EncodeFixed64 cid @ EncodeFixed64 (bh_offset (data_handle opts blks i)) \<Longrightarrow>
       bo = None \<or> bo = Some (new_Block (build_block (opt_block_restart_interval opts) (blks ! i)))"
  shows "cache_coherent opts blks cid (Some (cache(key := bo)))"
  using assms unfolding cache_coherent_def by (auto split: if_splits)

lemma coherent_insert:
  assumes tf: "table_file ucmp usep usucc bits name rf opts env blks fb" and i: "i < length blks"
    and co: "cache_coherent opts blks cid (Some cache)"
  shows "cache_coherent opts blks cid (Some (cache(EncodeFixed64 cid @ EncodeFixed64 (bh_offset (data_handle opts blks i)) \<mapsto>
    new_Block (build_block (opt_block_restart_interval opts) (blks ! i)))))"
proof (rule coherent_update [OF co])
  fix j assume j: "j < length blks" "EncodeFixed64 cid @ EncodeFixed64 (bh_offset (data_handle opts blks i)) =
    EncodeFixed64 cid @ EncodeFixed64 (bh_offset (data_handle opts blks j))"
  then have "DecodeFixed64 (EncodeFixed64 (bh_offset (data_handle opts blks i))) = DecodeFixed64 (EncodeFixed64 (bh_offset (data_handle opts blks j)))"
    by simp
  moreover have "length (table_bytes opts blks (Some fb)) < 2 ^ 48" using tf by (simp add: table_file_def sized_blocks_def)
  ultimately have "i = j" using data_handle_inj i j(1) by fastforce
  then show "Some (new_Block (build_block (opt_block_restart_interval opts) (blks ! i))) = None \<or>
    Some (new_Block (build_block (opt_block_restart_interval opts) (blks ! i))) = Some (new_Block (build_block (opt_block_restart_interval opts) (blks ! j)))"
    by simp
qed

context user_shortening
begin

lemma table_use_inv:
  assumes "table_use env rep0 rep cache" and tf: "table_file ucmp usep usucc_from bits name rf opts env blks fb"
    and gs: "groups_of bits opts blks fb gs" and ok0: "rep_ok bits rf opts blks fb gs rep0" and cid: "rep_cache_id rep0 = cid"
  shows "use_inv bits rf opts blks fb gs cid rep cache"
  using assms(1)
proof induction
  case (opened cache)
  then show ?case using ok0 cid by (auto simp: use_inv_def cache_coherent_def)
next
  case (get rep cache k verify fill cc s found reg ins rep')
  then have u: "rep_ok bits rf opts blks fb gs rep" "rep_cache_id rep = cid" "cache_coherent opts blks cid (Some cache)"
    by (simp_all add: use_inv_def)
  then have co: "cache_coherent opts blks (rep_cache_id rep) (if cc then Some cache else None)" by (simp add: coherent_none)
  from InternalGet_ok [OF tf gs u(1) co get.hyps(2), of verify fill] get.hyps(3)
  have r: "rep_ok bits rf opts blks fb gs rep'" "rep_cache_id rep' = cid"
    and ins: "ins = Some (key, b) \<Longrightarrow> \<exists>i<length blks. key = EncodeFixed64 cid @ EncodeFixed64 (bh_offset (data_handle opts blks i)) \<and>
       b = new_Block (build_block (opt_block_restart_interval opts) (blks ! i))" for key b using u(2) by auto
  have "cache_coherent opts blks cid (Some (cache(key \<mapsto> b)))" if kb: "ins = Some (key, b)" for key b
    using ins [OF kb] coherent_insert [OF tf _ u(3)] by auto
  with r u(3) show ?case by (auto simp: use_inv_def split: option.splits)
next
  case (evict rep cache key)
  then show ?case using coherent_update [of opts blks cid cache key None] unfolding use_inv_def by blast
next
  case (other rep cache key b)
  have "key \<noteq> EncodeFixed64 cid @ off" for off using other.hyps(2) cid by auto
  with other.IH show ?case
    using coherent_update [of opts blks cid cache key "Some b"] unfolding use_inv_def by blast
next
  case (adjust rep cache j m d t)
  let ?f = "multi_summaries bits" and ?t = "rep_filters rep"
  have rds: "re_region_divide_size env = rf * kFilterBase" using tf by (simp add: table_file_def reads_for_def)
  have ok: "rep_ok bits rf opts blks fb gs rep" using adjust by (simp add: use_inv_def)
  have inv: "table_inv ?f (length bits) rf gs ?t" "j < region_count rf gs" "filter_handles ?t = filter_handle_values opts blks fb"
    using ok adjust.hyps(2) by (simp_all add: rep_ok_def)
  have fo: "file_of ?f (length bits) gs (filter_Read env) (filter_handles ?t)"
    unfolding inv(3) by (rule table_file_of [OF tf gs])
  have "table_inv ?f (length bits) rf gs t \<and> filter_handles t = filter_handles ?t"
  proof (cases "m = 0")
    case True
    then show ?thesis using adjust.hyps(3) inv(1) by (simp add: AdjustFilters_def)
  next
    case False
    then show ?thesis
      using AdjustFilters_correct [OF inv(1) fo inv(2), of m "re_real_size env" "\<lambda>i. re_bits_per_key env ! i"] adjust.hyps(3)
      by (auto simp: rds loaded_to_def)
  qed
  then show ?case using adjust.IH ok by (simp add: use_inv_def rep_ok_def)
next
  case (remove rep cache j n d t)
  let ?f = "multi_summaries bits" and ?t = "rep_filters rep"
  have ok: "rep_ok bits rf opts blks fb gs rep" using remove by (simp add: use_inv_def)
  have inv: "table_inv ?f (length bits) rf gs ?t" "j < region_count rf gs" using ok remove.hyps(2) by (simp_all add: rep_ok_def)
  have "table_inv ?f (length bits) rf gs t \<and> filter_handles t = filter_handles ?t"
  proof (cases "tfilter ?t = None")
    case True
    then show ?thesis using remove.hyps(4) inv(1) by (simp add: Table_RemoveFilters_def)
  next
    case False
    then show ?thesis
      using Table_RemoveFilters_correct [OF inv(1) False inv(2) remove.hyps(3), of "re_real_size env" "\<lambda>i. re_bits_per_key env ! i"]
        remove.hyps(4) by (auto simp: loaded_to_def)
  qed
  then show ?case using remove.IH ok by (simp add: use_inv_def rep_ok_def)
qed

lemma table_use_get:
  assumes "table_use env rep0 rep cache" "table_file ucmp usep usucc_from bits name rf opts env blks fb"
    "groups_of bits opts blks fb gs" "rep_ok bits rf opts blks fb gs rep0" "ikey_wf k"
  shows "\<exists>found reg ins rep'. InternalGet env verify fill (if cc then Some cache else None) k rep = Some (OK, found, reg, ins, rep') \<and>
    lookup_result icmp (concat blks) k found"
proof -
  have "use_inv bits rf opts blks fb gs (rep_cache_id rep0) rep cache" by (rule table_use_inv [OF assms(1-4) refl])
  then have "rep_ok bits rf opts blks fb gs rep" "cache_coherent opts blks (rep_cache_id rep) (if cc then Some cache else None)"
    by (simp_all add: use_inv_def coherent_none)
  from InternalGet_ok [OF assms(2,3) this assms(5)] show ?thesis by blast
qed

end

subsection \<open>Building, opening and looking up\<close>

lemma writes_for_table_writer:
  assumes "reliable_file (opt_Append opts) (opt_Flush opts) finv fcontents" "writes_for ucmp usep usucc bits name opts"
  shows "table_writer opts finv fcontents (multi_summaries bits)"
proof -
  note w = writes_forD [OF assms(2)]
  have "opt_filter_policy opts = Some (C, n, nm) \<Longrightarrow> 0 < n \<and> (\<exists>km. filter_policy n C km (multi_summaries bits))" for C n nm
    using w(4,7) multi_policy [OF w(6,8)] by auto
  then show ?thesis using assms(1) w(1) by (simp add: table_writer_def table_writer_axioms_def)
qed

text \<open>A table on the in-memory file system with Bloom filters of the given bits per key.\<close>

definition mem_table_options :: "nat list \<Rightarrow> slice \<Rightarrow> nat \<Rightarrow> nat \<Rightarrow> FileState TableOptions" where
  "mem_table_options bits name bs ri =
     \<lparr>opt_Append = WritableFile_Append, opt_Flush = WritableFile_Flush,
      opt_FindShortestSeparator = InternalKey_FindShortestSeparator Bytewise_Compare Bytewise_FindShortestSeparator,
      opt_FindShortSuccessor = InternalKey_FindShortSuccessor Bytewise_Compare Bytewise_FindShortSuccessorBeginWith,
      opt_block_size = bs, opt_block_restart_interval = Suc ri, opt_compression = kNoCompression,
      opt_snappy_compress = (\<lambda>_. None), opt_crc_extend = Extend_portable 0,
      opt_filter_policy =
        (let p = new_MultiFilter (take 12 bits) in
         if Multi_filterNums p = 0 then None
         else Some (InternalFilter_CreateFilters (Multi_CreateFilter p), Multi_filterNums p, name)),
      opt_bits_per_key = takeWhile (\<lambda>b. b \<noteq> 0) (take 12 bits)\<rparr>"

interpretation mem_table: table_writer "mem_table_options bits name bs ri" file_inv file_contents
    "\<lambda>keys. Multi_summaries (new_MultiFilter (take 12 bits)) (map ExtractUserKey keys)"
  for bits name bs ri
proof unfold_locales
  fix C n nm assume a: "opt_filter_policy (mem_table_options bits name bs ri) = Some (C, n, nm)"
  then show "0 < n \<and> (\<exists>km. filter_policy n C km (\<lambda>keys. Multi_summaries (new_MultiFilter (take 12 bits)) (map ExtractUserKey keys)))"
    using multi_internal.filter_policy_axioms [of bits] by (auto simp: mem_table_options_def Let_def split: if_splits)
qed (auto simp: mem_table_options_def memfile.Append_succeeds memfile.Flush_succeeds dest: memfile.Append_ok memfile.Flush_contents)


text \<open>
  C38. The table builder returns and writes a complete table: for any options with a working
  file and filter policy, adding any entries to a fresh builder and finishing it ends with
  status OK, and the file holds, byte for byte, the data blocks with their trailers, one
  filter block per filter of the policy, the meta-index block, the index block with one separator key per
  data block, and the footer; the data blocks are the entries in order, cut into nonempty blocks, and the reported
  file size is the length of the file modulo 2^64.
\<close>

theorem TableBuilder_layout:
  assumes "table_writer opts finv fcontents summaries" "finv f" "fcontents f = []"
  shows "\<exists>r blks fbo. TableBuilder_build opts es f = Some r \<and> tb_status r = OK \<and>
    concat blks = es \<and> (\<forall>b\<in>set blks. b \<noteq> []) \<and> filters_of opts blks fbo \<and>
    fcontents (tb_file r) = table_bytes opts blks fbo \<and>
    TableBuilder_FileSize r = of_nat (length (table_bytes opts blks fbo))"
  using table_writer.build_table [OF assms, of es] by blast

text \<open>A table that was built can be opened.\<close>

lemma built_table_opens:
  assumes rel: "reliable_file (opt_Append opts) (opt_Flush opts) finv fcontents" "finv f" "fcontents f = []"
    and w: "writes_for Bytewise_Compare Bytewise_FindShortestSeparator Bytewise_FindShortSuccessorBeginWith bits name opts"
    and es: "es \<noteq> []" "sorted_entries BytewiseInternal_Compare es" "\<forall>e\<in>set es. ikey_wf (fst e)"
    and r: "TableBuilder_build opts es f = Some r" and small: "length (fcontents (tb_file r)) < 2 ^ 32"
    and env: "reads_for Bytewise_Compare bits name rf opts (fcontents (tb_file r)) env"
    and n: "n = 0 \<or> n \<le> length bits \<and> fd = Some (md_filter_data (tb_meta_data r))"
  shows "\<exists>blks fb gs rep0. concat blks = es \<and>
    table_file Bytewise_Compare Bytewise_FindShortestSeparator Bytewise_FindShortSuccessorBeginWith bits name rf opts env blks fb \<and>
    groups_of bits opts blks fb gs \<and> Table_Open env cid (unat (TableBuilder_FileSize r)) n fd = Some (Inr rep0) \<and> rep_ok bits rf opts blks fb gs rep0"
proof -
  obtain blks fbo where b: "concat blks = es" "\<forall>b\<in>set blks. b \<noteq> []" "filters_of opts blks fbo"
    "fcontents (tb_file r) = table_bytes opts blks fbo" "TableBuilder_FileSize r = of_nat (length (table_bytes opts blks fbo))"
    "\<forall>fb. fbo = Some fb \<longrightarrow> md_filter_data (tb_meta_data r) = results fb"
    using table_writer.build_table [OF writes_for_table_writer [OF rel(1) w] rel(2,3), of es] r by auto
  obtain fb where fb: "fbo = Some fb" using b(3) writes_forD(4) [OF w] by (auto simp: filters_of_def)
  have sz: "sized_blocks opts blks fb" using sized_blocksI [OF reads_forD(7) [OF env]] small b(4) fb by simp
  have ds: "data_blocks Bytewise_Compare blks" using b(1,2) es by (auto simp: data_blocks_def)
  have tf: "table_file Bytewise_Compare Bytewise_FindShortestSeparator Bytewise_FindShortSuccessorBeginWith bits name rf opts env blks fb"
    using w env sz ds b(3,4) fb by (simp add: table_file_def)
  obtain gs where gs: "groups_of bits opts blks fb gs" using table_file_groups [OF tf] by blast
  have fs: "unat (TableBuilder_FileSize r) = length (table_bytes opts blks (Some fb))"
    using small b(4,5) fb by (simp add: unat_of_nat_small)
  have "n = 0 \<or> n \<le> length bits \<and> fd = Some (results fb)" using n b(6) fb by auto
  from Table_Open_ok [OF tf gs this] fs obtain rep0 where
    rep0: "Table_Open env cid (unat (TableBuilder_FileSize r)) n fd = Some (Inr rep0)" "rep_ok bits rf opts blks fb gs rep0" by auto
  with b(1) tf gs show ?thesis by blast
qed

text \<open>
  C1. A table can be read back. Entries with strictly increasing internal keys are added to a
  table builder, which writes them, compressed or not, with the Bloom filters of up to ten
  policies; the file, if it is shorter than 4 GB, is opened, with none of its filters loaded or
  with the first ones taken from the builder's copies. Then, whatever lookups are made, whatever
  filters are loaded or dropped and whatever the shared block cache evicts, a lookup of an
  internal key succeeds with status OK, and if the first entry not before the key has the user
  key that was asked for, it finds that entry.
\<close>

theorem table_build_open_get:
  assumes rel: "reliable_file (opt_Append opts) (opt_Flush opts) finv fcontents" "finv f" "fcontents f = []"
    and w: "writes_for Bytewise_Compare Bytewise_FindShortestSeparator Bytewise_FindShortSuccessorBeginWith bits name opts"
    and es: "es \<noteq> []" "sorted_entries BytewiseInternal_Compare es" "\<forall>e\<in>set es. ikey_wf (fst e)"
    and r: "TableBuilder_build opts es f = Some r" and small: "length (fcontents (tb_file r)) < 2 ^ 32"
    and env: "reads_for Bytewise_Compare bits name rf opts (fcontents (tb_file r)) env"
    and n: "n = 0 \<or> n \<le> length bits \<and> fd = Some (md_filter_data (tb_meta_data r))"
  shows "\<exists>rep0. Table_Open env cid (unat (TableBuilder_FileSize r)) n fd = Some (Inr rep0) \<and>
    (\<forall>rep cache k verify fill cc. table_use env rep0 rep cache \<and> ikey_wf k \<longrightarrow>
      (\<exists>found reg ins rep'. InternalGet env verify fill (if cc then Some cache else None) k rep = Some (OK, found, reg, ins, rep') \<and>
        lookup_result BytewiseInternal_Compare es k found))"
proof -
  obtain blks fb gs rep0 where b: "concat blks = es"
    "table_file Bytewise_Compare Bytewise_FindShortestSeparator Bytewise_FindShortSuccessorBeginWith bits name rf opts env blks fb"
    "groups_of bits opts blks fb gs" "Table_Open env cid (unat (TableBuilder_FileSize r)) n fd = Some (Inr rep0)" "rep_ok bits rf opts blks fb gs rep0"
    using built_table_opens [OF assms] by blast
  then show ?thesis using bytewise_user.table_use_get [OF _ b(2,3,5)] by blast
qed

lemma length_entry_bytes_le: "length (entry_bytes sh k v) \<le> 15 + length k + length v"
proof -
  have l: "length (EncodeVarint32 x) \<le> 5" for x by (simp add: len_simps)
  show ?thesis using l [of "of_nat sh"] l [of "of_nat (length k - sh)"] l [of "of_nat (length v)"] by (simp add: entry_bytes_def)
qed

lemma length_build_block_le:
  assumes "0 < r"
  shows "length (build_block r es) \<le> sum_list (map (\<lambda>e. 15 + length (fst e) + length (snd e)) es) + 4 * length es + 8"
proof -
  have inv: "builder_inv r es (BlockBuilder_Add_all r es new_BlockBuilder)"
    using builder_inv_Add_all [OF builder_inv_new assms, of es] by simp
  have "length (entries_bytes r es n) \<le> sum_list (map (\<lambda>i. 15 + length (fst (es ! i)) + length (snd (es ! i))) [0..<n])" for n
    using length_entry_bytes_le by (induction n) (auto simp: entries_bytes_Suc entry_enc_def entries_bytes_def [of r es 0] add_mono)
  from this [of "length es"] have "length (entries_bytes r es (length es)) \<le> sum_list (map (\<lambda>e. 15 + length (fst e) + length (snd e)) es)"
    by (metis (mono_tags, lifting) map_nth map_map comp_apply map_eq_conv)
  moreover have "restart_count r (length es) \<le> length es + 1"
    using le_trans [OF div_le_dividend [of "length es - 1" r] diff_le_self] by (simp add: restart_count_def)
  moreover have "length (build_block r es) = length (entries_bytes r es (length es)) + 4 * restart_count r (length es) + 4"
    using inv by (simp add: build_block_def BlockBuilder_Finish_def Let_def builder_inv_def foldl_PutFixed32 PutFixed32_def length_concat_EncodeFixed32 del: map_map)
  ultimately show ?thesis by linarith
qed

lemma length_encoded_handle: "length (BlockHandle_EncodeTo h []) \<le> 20"
  using length_BlockHandle_EncodeTo [of h] by (simp add: kMaxEncodedLength_def)


lemma length_successor_le:
  "ikey_wf k \<Longrightarrow> length (InternalKey_FindShortSuccessor ucmp usucc k) \<le> length k"
  by (auto simp: InternalKey_FindShortSuccessor_def Let_def PutFixed64_def ExtractUserKey_def ikey_wf_def)

abbreviation small_table :: "FileState TableOptions" where "small_table \<equiv> mem_table_options [4] [70] 4096 15"
abbreviation small_entry :: "slice \<times> slice" where "small_entry \<equiv> (MakeInternalKey [97] 7 kTypeValue, [1])"

lemma small_writes:
  "writes_for Bytewise_Compare Bytewise_FindShortestSeparator Bytewise_FindShortSuccessorBeginWith [4] [70] small_table"
  by (simp add: writes_for_def mem_table_options_def Let_def Multi_filterNums_def new_MultiFilter_def Extend_portable_append [where ?p3.0 = 0])

lemma small_filters:
  assumes "filters_of small_table [[small_entry]] fbo"
  shows "\<exists>fb. fbo = Some fb \<and> (\<exists>r. results fb = [r] \<and> length r < 100)"
proof -
  let ?C = "InternalFilter_CreateFilters (Multi_CreateFilter (new_MultiFilter [4]))" and ?f = "multi_summaries [4]"
  let ?key = "MakeInternalKey [97] 7 kTypeValue"
  have pol: "filter_policy 1 ?C (InternalFilter_KeyMayMatchFilters (Multi_KeyMayMatchFilters (new_MultiFilter [4]))) ?f"
    using multi_policy [of "[4]"] by simp
  let ?b1 = "FilterBlockBuilder_AddKey ?key (new_FilterBlockBuilder 1)"
  have kl: "length ?key = 9" by (simp add: MakeInternalKey_eq)
  let ?off = "unat (of_nat (length (file_bytes (Extend_portable 0) (data_pieces small_table [[small_entry]]))) :: u64)"
  have "length (build_block 16 [small_entry]) \<le> 37" using length_build_block_le [of 16 "[small_entry]"] kl by simp
  then have "length (file_bytes (Extend_portable 0) (data_pieces small_table [[small_entry]])) < 100"
    by (simp add: file_bytes_def length_raw_block kBlockTrailerSize_def compress_block_def mem_table_options_def)
  then have "?off < 100" by (simp add: unat_of_nat_small)
  then have o: "?off div kFilterBase = 0" by (simp add: kFilterBase_def kFilterBaseLg_def)
  have feed: "filter_feed small_table [[small_entry]] [] = [(0, [?key]), (?off, [])]"
    by (simp add: filter_feed_def file_bytes_def mem_table_options_def)
  have "feed_blocks ?C [(0, [?key]), (?off, [])] (new_FilterBlockBuilder 1) = Some ?b1"
    using o by (simp add: feed_block_def FilterBlockBuilder_StartBlock_def)
  then obtain fb where fb: "fbo = Some fb" "FilterBlockBuilder_Finish ?C ?b1 = Some fb"
    using assms by (auto simp: filters_of_def writes_forD(4) [OF small_writes] feed simp del: feed_blocks.simps)
  obtain b where b: "FilterBlockBuilder_Finish ?C ?b1 = Some b" "results b = map (string_of [4] [[?key]]) [0..<1]"
    using filter_policy.Finish_rel [OF pol fb_rel_AddKey [OF fb_rel_new], of ?key] by auto
  have "length (string_of [4] [[?key]] 0) < 100"
    using length_group_part [of "[4]" 0 "[?key]"] by (simp add: length_concat_EncodeFixed32 filter_bytes_def del: upt_Suc map_map)
  with fb b show ?thesis by auto
qed


lemma small_size:
  assumes "filters_of small_table [[small_entry]] fbo"
  shows "length (table_bytes small_table [[small_entry]] fbo) < 2 ^ 32"
proof -
  obtain fb r where fb: "fbo = Some fb" "results fb = [r]" "length r < 100" using small_filters [OF assms] by blast
  have raw: "compress_block small_table x = (x, kNoCompression)" for x by (simp add: compress_block_def mem_table_options_def)
  have opts: "opt_block_restart_interval small_table = 16" "opt_crc_extend small_table = Extend_portable 0"
    by (simp_all add: mem_table_options_def)
  have kl: "length (MakeInternalKey [97] 7 kTypeValue) = 9" by (simp add: MakeInternalKey_eq)
  have d: "length (build_block 16 [small_entry]) \<le> 37" using length_build_block_le [of 16 "[small_entry]"] kl by simp
  obtain h where hs: "drop (length [[small_entry]]) (piece_handles (opt_crc_extend small_table) (table_pieces small_table [[small_entry]] fb)) = [h]"
    by (simp add: fb(2) filter_pieces_def piece_handles_def)
  have ix: "length (index_raw small_table [[small_entry]]) \<le> 100"
  proof -
    let ?k = "opt_FindShortSuccessor small_table (MakeInternalKey [97] 7 kTypeValue)"
    have "index_entries small_table (index_keys small_table [[small_entry]]) [[small_entry]] = [(?k, BlockHandle_EncodeTo (data_handle small_table [[small_entry]] 0) [])]"
      by (simp add: index_entries_def index_keys_def piece_handles_def data_handle_def raw)
    moreover have "length ?k \<le> 9"
      using length_successor_le [of "MakeInternalKey [97] 7 kTypeValue" Bytewise_Compare Bytewise_FindShortSuccessorBeginWith] kl
      by (simp add: writes_forD(3) [OF small_writes])
    ultimately show ?thesis
      using length_build_block_le [of 1 "index_entries small_table (index_keys small_table [[small_entry]]) [[small_entry]]"]
        length_encoded_handle [of "data_handle small_table [[small_entry]] 0"] by simp
  qed
  have mt: "length (meta_raw small_table [[small_entry]] fb) \<le> 300"
  proof -
    have "length (FilterBlockBuilder_getOffsets 0 fb) \<le> length (results fb ! 0)"
      by (simp add: FilterBlockBuilder_getOffsets_def Let_def)
    then have "length (FilterBlockBuilder_getOffsets 0 fb) < 100" using fb by simp
    moreover have "meta_block_entries small_table (Some fb) [h] =
        [(offset_key 0, FilterBlockBuilder_getOffsets 0 fb), (filter_key [70] 0, BlockHandle_EncodeTo h [])]"
      by (simp add: meta_block_entries_def meta_entries_def writes_forD(4,5) [OF small_writes] enumerate_eq_zip)
    moreover have "length (offset_key 0) = 29" "length (filter_key [70] 0) = 9"
      by (simp_all add: offset_key_def filter_key_def bytes_of_def to_string_digit)
    ultimately show ?thesis
      using length_build_block_le [of 16 "meta_block_entries small_table (Some fb) [h]"] length_encoded_handle [of h]
      unfolding hs unfolding opts by simp
  qed
  have "length (table_bytes small_table [[small_entry]] (Some fb)) < 1000"
    unfolding table_bytes_pieces using d ix mt fb
    by (simp only: raw opts) (simp add: file_bytes_def length_raw_block kBlockTrailerSize_def filter_pieces_def Footer_roundtrip_rest kEncodedLength_def kMaxEncodedLength_def)
  then show ?thesis by (simp add: fb(1))
qed


lemma small_build:
  "\<exists>r fb. TableBuilder_build small_table [small_entry] new_FileState = Some r \<and>
    file_contents (tb_file r) = table_bytes small_table [[small_entry]] (Some fb) \<and>
    length (file_contents (tb_file r)) < 2 ^ 32"
proof -
  have f: "file_inv new_FileState" "file_contents new_FileState = []" by (simp_all add: file_inv_def file_contents_def new_FileState_def)
  obtain r blks fbo where r: "TableBuilder_build small_table [small_entry] new_FileState = Some r"
    "concat blks = [small_entry]" "\<forall>b\<in>set blks. b \<noteq> []" "filters_of small_table blks fbo"
    "file_contents (tb_file r) = table_bytes small_table blks fbo"
    using mem_table.build_table [OF f, of "[4]" "[70]" 4096 15 "[small_entry]"] by blast
  have "blks = [[small_entry]]"
  proof (cases blks)
    case (Cons b bs)
    with r(2,3) show ?thesis by (cases b; cases bs) auto
  qed (use r(2) in simp)
  with r small_size small_filters show ?thesis by metis
qed

definition small_env :: "slice \<Rightarrow> ReadEnv" where
  "small_env bytes = \<lparr>re_Read = (\<lambda>off n. Inr (take n (drop off bytes), False)), re_Reads = (\<lambda>_ _. Inl (IOError ''unused'')),
     re_snappy_length = (\<lambda>_. None), re_snappy_uncompress = (\<lambda>_. None), re_crc = Extend_portable 0 0,
     re_Compare = BytewiseInternal_Compare,
     re_filter_policy = Some (InternalFilter_KeyMayMatchFilters (Multi_KeyMayMatchFilters (new_MultiFilter [4])), [70]),
     re_bits_per_key = [4], re_region_divide_size = 1 * kFilterBase, re_freq_divide_size = 1, re_kFilterBaseLg = 16,
     re_init_filter_nums = 1, re_real_size = False, re_paranoid_checks = True\<rparr>"

lemma small_reads: "reads_for Bytewise_Compare [4] [70] 1 small_table bytes (small_env bytes)"
  by (auto simp: reads_for_def small_env_def mem_table_options_def snappy_ok_def reads_def)

theorem TableBuilder_layout_witness:
  "\<exists>r blks fbo. TableBuilder_build small_table [small_entry] new_FileState = Some r \<and> tb_status r = OK \<and>
    concat blks = [small_entry] \<and> file_contents (tb_file r) = table_bytes small_table blks fbo"
  using TableBuilder_layout [OF mem_table.table_writer_axioms, of new_FileState "[4]" "[70]" 4096 15 "[small_entry]"]
  by (auto simp: file_inv_def file_contents_def new_FileState_def)

theorem table_build_open_get_witness:
  "\<exists>r rep0 found reg ins rep'. TableBuilder_build small_table [small_entry] new_FileState = Some r \<and>
    Table_Open (small_env (file_contents (tb_file r))) 5 (unat (TableBuilder_FileSize r)) 0 None = Some (Inr rep0) \<and>
    InternalGet (small_env (file_contents (tb_file r))) True True (Some (\<lambda>_. None)) (MakeInternalKey [97] 9 kTypeValue) rep0 =
      Some (OK, found, reg, ins, rep') \<and> found = Some small_entry"
proof -
  obtain r where r: "TableBuilder_build small_table [small_entry] new_FileState = Some r" "length (file_contents (tb_file r)) < 2 ^ 32"
    using small_build by blast
  let ?env = "small_env (file_contents (tb_file r))" and ?k = "MakeInternalKey [97] 9 kTypeValue"
  have rel: "reliable_file (opt_Append small_table) (opt_Flush small_table) file_inv file_contents"
    using memfile.reliable_file_axioms by (simp add: mem_table_options_def)
  have f: "file_inv new_FileState" "file_contents new_FileState = []" by (simp_all add: file_inv_def file_contents_def new_FileState_def)
  have srt: "sorted_entries BytewiseInternal_Compare [small_entry]" by (simp add: sorted_entries_def)
  obtain rep0 where rep0: "Table_Open ?env 5 (unat (TableBuilder_FileSize r)) 0 None = Some (Inr rep0)"
    "\<forall>rep cache k verify fill cc. table_use ?env rep0 rep cache \<and> ikey_wf k \<longrightarrow>
      (\<exists>found reg ins rep'. InternalGet ?env verify fill (if cc then Some cache else None) k rep = Some (OK, found, reg, ins, rep') \<and>
        lookup_result BytewiseInternal_Compare [small_entry] k found)"
    using table_build_open_get [OF rel f small_writes _ srt _ r small_reads, of 0 None 5] by auto
  have "table_use ?env rep0 rep0 (\<lambda>_. None)" by (rule table_use.opened) simp
  then have "\<exists>found reg ins rep'. InternalGet ?env True True (if True then Some (\<lambda>_. None) else None) ?k rep0 = Some (OK, found, reg, ins, rep') \<and>
      lookup_result BytewiseInternal_Compare [small_entry] ?k found"
    by (intro rep0(2) [rule_format]) simp
  then obtain found reg ins rep' where g: "InternalGet ?env True True (Some (\<lambda>_. None)) ?k rep0 = Some (OK, found, reg, ins, rep')"
    "lookup_result BytewiseInternal_Compare [small_entry] ?k found" by auto
  have "\<not> BytewiseInternal_Compare (fst small_entry) ?k < 0"
    by (simp add: bytewise_user.icmp_iff PackSequenceAndType_def)
  then have "seek_entry BytewiseInternal_Compare [small_entry] ?k = Some small_entry" by (simp add: seek_entry_def)
  with g(2) have "found = Some small_entry" by (simp add: lookup_result_def)
  with r(1) rep0(1) g(1) show ?thesis by blast
qed

end
