(* ===== verification/VersionBuilder.thy ===== *)
theory VersionBuilder
  imports VersionOverlap
begin

text \<open>
  \<open>VersionSet::Builder\<close> of db/version_set.cc: a sequence of edits is collected per level and then
  merged with the files of a base version into a new one.

  A \<open>std::set\<close> of file numbers is a set; the \<open>FileSet\<close> of added files, ordered by \<open>BySmallestKey\<close>, is
  a list in that order. New descriptions are stored at the next unused address of the heap.
  Reference counts, the statistics in \<open>files_extra_\<close> and the check for overlaps that debug
  builds make are left out.
\<close>

subsection \<open>State\<close>

record LevelState =
  deleted_files :: "u64 set"
  added_files :: "fptr list"

record Builder =
  b_levels :: "LevelState list"
  b_base :: "fptr list list"
  b_heap :: fheap
  b_next :: fptr
  b_compact_pointer :: "slice list"

definition new_Builder :: "fptr list list \<Rightarrow> fheap \<Rightarrow> fptr \<Rightarrow> slice list \<Rightarrow> Builder" where
  "new_Builder base h next compact_pointer =
     \<lparr>b_levels = replicate kNumLevels \<lparr>deleted_files = {}, added_files = []\<rparr>, b_base = base, b_heap = h,
      b_next = next, b_compact_pointer = compact_pointer\<rparr>"

definition BySmallestKey :: "(slice \<Rightarrow> slice \<Rightarrow> int) \<Rightarrow> fheap \<Rightarrow> fptr \<Rightarrow> fptr \<Rightarrow> bool" where
  "BySmallestKey icmp h f1 f2 =
     (let r = icmp (f_smallest (h f1)) (f_smallest (h f2)) in
      if r \<noteq> 0 then r < 0 else f_number (h f1) < f_number (h f2))"

text \<open>Insertion into a \<open>FileSet\<close>: an equivalent element stays.\<close>

fun FileSet_insert :: "(fptr \<Rightarrow> fptr \<Rightarrow> bool) \<Rightarrow> fptr \<Rightarrow> fptr list \<Rightarrow> fptr list" where
  "FileSet_insert lt f [] = [f]"
| "FileSet_insert lt f (g # gs) =
     (if lt f g then f # g # gs else if lt g f then g # FileSet_insert lt f gs else g # gs)"

subsection \<open>Apply\<close>

definition apply_delete :: "nat \<times> u64 \<Rightarrow> LevelState list \<Rightarrow> LevelState list" where
  "apply_delete p ls = (let l = ls ! fst p in ls[fst p := l\<lparr>deleted_files := insert (snd p) (deleted_files l)\<rparr>])"

text \<open>\<open>allowed_seeks\<close> is a 32-bit integer.\<close>

definition initial_seeks :: "u64 \<Rightarrow> int" where
  "initial_seeks file_size =
     (let n = sint (ucast (file_size div 16384) :: 32 word) in if n < 100 then 100 else n)"

definition apply_new :: "(slice \<Rightarrow> slice \<Rightarrow> int) \<Rightarrow> nat \<times> FileMetaData \<Rightarrow> Builder \<Rightarrow> Builder" where
  "apply_new icmp p b =
     (let fm = (snd p)\<lparr>f_refs := 1, f_allowed_seeks := initial_seeks (f_file_size (snd p))\<rparr>;
          f = b_next b;
          h = (b_heap b)(f := fm);
          l = b_levels b ! fst p;
          l = l\<lparr>deleted_files := deleted_files l - {f_number fm},
                added_files := FileSet_insert (BySmallestKey icmp h) f (added_files l)\<rparr>
      in b\<lparr>b_heap := h, b_next := f + 1, b_levels := (b_levels b)[fst p := l]\<rparr>)"

definition Builder_Apply :: "(slice \<Rightarrow> slice \<Rightarrow> int) \<Rightarrow> VersionEdit \<Rightarrow> Builder \<Rightarrow> Builder" where
  "Builder_Apply icmp e b =
     (let b = b\<lparr>b_compact_pointer := fold (\<lambda>(level, key) cp. cp[level := key]) (ve_compact_pointers e) (b_compact_pointer b)\<rparr>;
          b = b\<lparr>b_levels := fold apply_delete (ve_deleted_files e) (b_levels b)\<rparr>
      in fold (apply_new icmp) (ve_new_files e) b)"

subsection \<open>DeleteLevel0File\<close>

text \<open>The scan for the largest file number; \<open>big\<close> starts at 0.\<close>

fun largest_number :: "fheap \<Rightarrow> u64 \<Rightarrow> fptr \<Rightarrow> fptr list \<Rightarrow> fptr" where
  "largest_number h big f [] = f"
| "largest_number h big f (g # gs) =
     (if big < f_number (h g) then largest_number h (f_number (h g)) g gs else largest_number h big f gs)"

lemma largest_number_mem: "largest_number h big f gs \<in> insert f (set gs)"
  by (induction h big f gs rule: largest_number.induct) auto

function DeleteLevel0_loop :: "fheap \<Rightarrow> LevelState \<Rightarrow> LevelState" where
  "DeleteLevel0_loop h l =
     (if length (added_files l) > 3 then
        let f = largest_number h 0 (hd (added_files l)) (added_files l)
        in DeleteLevel0_loop h (l\<lparr>deleted_files := insert (f_number (h f)) (deleted_files l),
             added_files := remove1 f (added_files l)\<rparr>)
      else l)"
  by pat_completeness auto
termination
proof (relation "measure (\<lambda>(h, l). length (added_files l))")
  fix h and l :: LevelState and x
  assume a: "3 < length (added_files l)" "x = largest_number h 0 (hd (added_files l)) (added_files l)"
  then have "added_files l \<noteq> []" by auto
  then have "x \<in> set (added_files l)" using largest_number_mem [of h 0 "hd (added_files l)" "added_files l"] a(2) by auto
  then show "((h, l\<lparr>deleted_files := insert (f_number (h x)) (deleted_files l), added_files := remove1 x (added_files l)\<rparr>), (h, l))
      \<in> measure (\<lambda>(h, l). length (added_files l))"
    using a(1) by (simp add: length_remove1)
qed simp

declare DeleteLevel0_loop.simps [simp del]

definition DeleteLevel0File :: "Builder \<Rightarrow> Builder" where
  "DeleteLevel0File b = b\<lparr>b_levels := (b_levels b)[0 := DeleteLevel0_loop (b_heap b) (b_levels b ! 0)]\<rparr>"

subsection \<open>SaveTo\<close>

definition MaybeAddFile :: "fheap \<Rightarrow> u64 set \<Rightarrow> fptr \<Rightarrow> fptr list \<Rightarrow> fptr list" where
  "MaybeAddFile h deleted f files = (if f_number (h f) \<in> deleted then files else files @ [f])"

text \<open>
  The merge for one level: before an added file all base files up to its \<open>upper_bound\<close>.
\<close>

fun save_level ::
  "(fptr \<Rightarrow> fptr \<Rightarrow> bool) \<Rightarrow> fheap \<Rightarrow> u64 set \<Rightarrow> fptr list \<Rightarrow> fptr list \<Rightarrow> fptr list \<Rightarrow> fptr list" where
  "save_level lt h deleted base [] files = fold (MaybeAddFile h deleted) base files"
| "save_level lt h deleted base (a # added) files =
     (let smaller = takeWhile (\<lambda>x. \<not> lt a x) base
      in save_level lt h deleted (drop (length smaller) base) added
           (MaybeAddFile h deleted a (fold (MaybeAddFile h deleted) smaller files)))"

definition Builder_SaveTo :: "(slice \<Rightarrow> slice \<Rightarrow> int) \<Rightarrow> Builder \<Rightarrow> Version \<Rightarrow> Version" where
  "Builder_SaveTo icmp b v =
     v\<lparr>v_files := map (\<lambda>level. save_level (BySmallestKey icmp (b_heap b)) (b_heap b)
           (deleted_files (b_levels b ! level)) (b_base b ! level) (added_files (b_levels b ! level)) (v_files v ! level))
         [0..<kNumLevels]\<rparr>"

subsection \<open>The abstract effect of an edit\<close>

text \<open>A version as the descriptions of its files per level: number, size and key range.\<close>

type_synonym file_desc = "u64 \<times> u64 \<times> slice \<times> slice"

definition file_desc :: "FileMetaData \<Rightarrow> file_desc" where
  "file_desc f = (f_number f, f_file_size f, f_smallest f, f_largest f)"

definition level_abs :: "fheap \<Rightarrow> fptr list \<Rightarrow> file_desc set" where
  "level_abs h files = (\<lambda>f. file_desc (h f)) ` set files"

definition version_abs :: "fheap \<Rightarrow> fptr list list \<Rightarrow> nat \<Rightarrow> file_desc set" where
  "version_abs h fss level = (if level < kNumLevels then level_abs h (fss ! level) else {})"

definition apply_edit :: "VersionEdit \<Rightarrow> (nat \<Rightarrow> file_desc set) \<Rightarrow> nat \<Rightarrow> file_desc set" where
  "apply_edit e A level =
     {d \<in> A level. (level, fst d) \<notin> set (ve_deleted_files e)} \<union>
     {file_desc f | f. (level, f) \<in> set (ve_new_files e)}"

text \<open>Edits add a file to a level under a number that the level has not seen before.\<close>

definition new_numbers :: "VersionEdit \<Rightarrow> (nat \<times> u64) list" where
  "new_numbers e = map (\<lambda>(level, f). (level, f_number f)) (ve_new_files e)"

fun fresh_numbers :: "(nat \<times> u64) set \<Rightarrow> VersionEdit list \<Rightarrow> bool" where
  "fresh_numbers used [] \<longleftrightarrow> True"
| "fresh_numbers used (e # es) \<longleftrightarrow>
     distinct (new_numbers e) \<and> set (new_numbers e) \<inter> used = {} \<and> fresh_numbers (used \<union> set (new_numbers e)) es"

definition edit_levels :: "VersionEdit \<Rightarrow> bool" where
  "edit_levels e \<longleftrightarrow> (\<forall>p\<in>set (ve_deleted_files e). fst p < kNumLevels) \<and>
     (\<forall>p\<in>set (ve_new_files e). fst p < kNumLevels \<and> ikey_wf (f_smallest (snd p)))"

subsection \<open>SaveTo merges\<close>

lemma fold_MaybeAddFile: "fold (MaybeAddFile h D) fs files = files @ filter (\<lambda>f. f_number (h f) \<notin> D) fs"
  by (induction fs arbitrary: files) (auto simp: MaybeAddFile_def)

lemma save_level_files: "save_level lt h D base added files = files @ save_level lt h D base added []"
proof (induction added arbitrary: base files)
  case (Cons a added)
  have m: "MaybeAddFile h D a xs = xs @ filter (\<lambda>f. f_number (h f) \<notin> D) [a]" for xs by (simp add: MaybeAddFile_def)
  show ?case
    unfolding save_level.simps Let_def fold_MaybeAddFile m
    by (subst (1 2) Cons.IH) (simp only: append_assoc append_Nil)
qed (simp add: fold_MaybeAddFile)

lemma save_level_Cons:
  "save_level lt h D base (a # added) [] =
     filter (\<lambda>f. f_number (h f) \<notin> D) (takeWhile (\<lambda>x. \<not> lt a x) base @ [a]) @
     save_level lt h D (dropWhile (\<lambda>x. \<not> lt a x) base) added []"
  unfolding save_level.simps Let_def fold_MaybeAddFile dropWhile_eq_drop
  by (subst save_level_files) (simp add: MaybeAddFile_def)

lemma save_level_set: "set (save_level lt h D base added []) = {f \<in> set base \<union> set added. f_number (h f) \<notin> D}"
proof (induction added arbitrary: base)
  case (Cons a added)
  have "set base = set (takeWhile (\<lambda>x. \<not> lt a x) base) \<union> set (dropWhile (\<lambda>x. \<not> lt a x) base)"
    by (metis set_append takeWhile_dropWhile_id)
  then show ?case unfolding save_level_Cons set_append Cons.IH by auto
qed (auto simp: fold_MaybeAddFile)

lemma save_level_sorted:
  assumes "sorted_wrt lt base" "sorted_wrt lt added"
    "\<And>x y. x \<in> set base \<Longrightarrow> y \<in> set added \<Longrightarrow> lt x y \<or> lt y x"
    "\<And>x y z. x \<in> set base \<union> set added \<Longrightarrow> y \<in> set base \<union> set added \<Longrightarrow> z \<in> set base \<union> set added \<Longrightarrow> lt x y \<Longrightarrow> lt y z \<Longrightarrow> lt x z"
  shows "sorted_wrt lt (save_level lt h D base added [])"
  using assms
proof (induction added arbitrary: base)
  case (Cons a added)
  define pre post where "pre = takeWhile (\<lambda>x. \<not> lt a x) base" and "post = dropWhile (\<lambda>x. \<not> lt a x) base"
  have base: "base = pre @ post" by (simp add: pre_def post_def)
  have mem: "set pre \<subseteq> set base" "set post \<subseteq> set base" by (simp_all add: base)
  have pre: "lt x a" if "x \<in> set pre" for x
    using Cons.prems(3) [of x a] set_takeWhileD [OF that [unfolded pre_def]] by auto
  have post: "lt a x" if x: "x \<in> set post" for x
  proof -
    obtain y ys where ys: "post = y # ys" using x by (cases post) auto
    have y: "lt a y" using ys unfolding post_def dropWhile_eq_Cons_conv by blast
    show ?thesis
    proof (cases "x = y")
      case False
      then have xs: "x \<in> set ys" using x ys by simp
      then have "lt y x" using Cons.prems(1) unfolding base ys by (simp add: sorted_wrt_append)
      moreover have "y \<in> set base" "x \<in> set base" using mem xs ys by auto
      ultimately show ?thesis using Cons.prems(4) [of a y x] y by simp
    qed (use y in simp)
  qed
  have added: "lt a x" if "x \<in> set added" for x using Cons.prems(2) that by simp
  have cross: "lt x y" if "x \<in> set pre" "y \<in> set post \<union> set added" for x y
    using Cons.prems(4) [of x a y] pre [OF that(1)] post [of y] added [of y] that mem by auto
  have ih: "sorted_wrt lt (save_level lt h D post added [])"
  proof (rule Cons.IH)
    show "sorted_wrt lt post" using Cons.prems(1) by (simp add: base sorted_wrt_append)
    show "sorted_wrt lt added" using Cons.prems(2) by simp
    show "lt x y \<or> lt y x" if "x \<in> set post" "y \<in> set added" for x y
      using Cons.prems(3) [of x y] that mem by auto
    show "lt x z" if "x \<in> set post \<union> set added" "y \<in> set post \<union> set added" "z \<in> set post \<union> set added" "lt x y" "lt y z" for x y z
      using Cons.prems(4) [of x y z] that mem by auto
  qed
  have "save_level lt h D base (a # added) [] =
      filter (\<lambda>f. f_number (h f) \<notin> D) (pre @ [a]) @ save_level lt h D post added []"
    by (simp only: save_level_Cons pre_def post_def)
  moreover have "sorted_wrt lt pre" using Cons.prems(1) by (simp add: base sorted_wrt_append)
  ultimately show ?case
    using ih pre cross post added by (auto simp: sorted_wrt_append sorted_wrt_filter save_level_set simp del: save_level.simps)
qed (auto simp: fold_MaybeAddFile sorted_wrt_filter)


subsection \<open>What the builder has collected\<close>

text \<open>
  The builder has been given edits whose abstract effect on the base version is \<open>A\<close>; \<open>used\<close> are the
  levels and numbers of all files seen.
\<close>

definition level_ok :: "(slice \<Rightarrow> slice \<Rightarrow> int) \<Rightarrow> (nat \<times> u64) set \<Rightarrow> nat \<Rightarrow> fheap \<Rightarrow> fptr \<Rightarrow> fptr list \<Rightarrow> fptr list \<Rightarrow> bool" where
  "level_ok icmp used level h next base added \<longleftrightarrow>
     (\<forall>f\<in>set base \<union> set added. f < next \<and> (level, f_number (h f)) \<in> used \<and> ikey_wf (f_smallest (h f))) \<and>
     inj_on (\<lambda>f. f_number (h f)) (set base \<union> set added) \<and> set base \<inter> set added = {} \<and>
     sorted_wrt (BySmallestKey icmp h) base \<and> sorted_wrt (BySmallestKey icmp h) added"

definition collected :: "fheap \<Rightarrow> u64 set \<Rightarrow> fptr set \<Rightarrow> file_desc set" where
  "collected h D S = (\<lambda>f. file_desc (h f)) ` {f \<in> S. f_number (h f) \<notin> D}"

lemma collected_cong: "(\<And>f. f \<in> S \<Longrightarrow> h' f = h f) \<Longrightarrow> collected h' D S = collected h D S"
  unfolding collected_def by (intro image_cong) auto

lemma collected_add:
  assumes "\<And>f. f \<in> S \<Longrightarrow> f_number (h f) \<noteq> f_number (h n)"
  shows "collected h (D - {f_number (h n)}) (insert n S) = insert (file_desc (h n)) (collected h D S)"
proof -
  have "{f \<in> insert n S. f_number (h f) \<notin> D - {f_number (h n)}} = insert n {f \<in> S. f_number (h f) \<notin> D}"
    using assms by auto
  then show ?thesis by (simp add: collected_def)
qed

lemma collected_delete: "collected h (insert m D) S = {d \<in> collected h D S. fst d \<noteq> m}"
proof -
  have "fst (file_desc x) = f_number x" for x by (simp add: file_desc_def)
  then show ?thesis unfolding collected_def by auto
qed

definition builder_rel :: "(slice \<Rightarrow> slice \<Rightarrow> int) \<Rightarrow> (nat \<times> u64) set \<Rightarrow> (nat \<Rightarrow> file_desc set) \<Rightarrow> Builder \<Rightarrow> bool" where
  "builder_rel icmp used A b \<longleftrightarrow> length (b_levels b) = kNumLevels \<and>
     (\<forall>level<kNumLevels. level_ok icmp used level (b_heap b) (b_next b) (b_base b ! level) (added_files (b_levels b ! level)) \<and>
       A level = collected (b_heap b) (deleted_files (b_levels b ! level)) (set (b_base b ! level) \<union> set (added_files (b_levels b ! level))))"

lemma set_FileSet_insert:
  "(\<And>g. g \<in> set gs \<Longrightarrow> lt f g \<or> lt g f) \<Longrightarrow> set (FileSet_insert lt f gs) = insert f (set gs)"
  by (induction gs) auto

lemma sorted_FileSet_insert:
  assumes "sorted_wrt lt gs" "\<And>g. g \<in> set gs \<Longrightarrow> lt f g \<or> lt g f"
    "\<And>x y. x \<in> set gs \<Longrightarrow> y \<in> set gs \<Longrightarrow> lt f x \<Longrightarrow> lt x y \<Longrightarrow> lt f y"
  shows "sorted_wrt lt (FileSet_insert lt f gs)"
  using assms
proof (induction gs)
  case (Cons g gs)
  show ?case
  proof (cases "lt f g")
    case True
    then show ?thesis using Cons.prems by auto
  next
    case False
    then have "lt g f" using Cons.prems(2) [of g] by simp
    moreover have "set (FileSet_insert lt f gs) = insert f (set gs)" using Cons.prems(2) by (intro set_FileSet_insert) simp
    moreover have "sorted_wrt lt (FileSet_insert lt f gs)" using Cons.prems by (intro Cons.IH) auto
    ultimately show ?thesis using False Cons.prems(1) by auto
  qed
qed simp

lemma BySmallestKey_upd:
  "f \<noteq> p \<Longrightarrow> g \<noteq> p \<Longrightarrow> BySmallestKey icmp (h(p := x)) f g = BySmallestKey icmp h f g"
  by (simp add: BySmallestKey_def)

context user_comparator
begin

lemma BySmallestKey_total:
  "ikey_wf (f_smallest (h f)) \<Longrightarrow> ikey_wf (f_smallest (h g)) \<Longrightarrow> f_number (h f) \<noteq> f_number (h g) \<Longrightarrow>
   BySmallestKey icmp h f g \<or> BySmallestKey icmp h g f"
  using internal.cmp_swap [of "f_smallest (h f)" "f_smallest (h g)"] internal.cmp_swap [of "f_smallest (h g)" "f_smallest (h f)"]
  by (auto simp: BySmallestKey_def Let_def)

lemma BySmallestKey_trans:
  assumes "ikey_wf (f_smallest (h f))" "ikey_wf (f_smallest (h g))" "ikey_wf (f_smallest (h k))"
    "BySmallestKey icmp h f g" "BySmallestKey icmp h g k"
  shows "BySmallestKey icmp h f k"
proof -
  let ?c = "\<lambda>a b. icmp (f_smallest (h a)) (f_smallest (h b))"
  have z: "?c f g = 0 \<longleftrightarrow> f_smallest (h f) = f_smallest (h g)" "?c g k = 0 \<longleftrightarrow> f_smallest (h g) = f_smallest (h k)"
    using internal.cmp_zero assms(1-3) by simp_all
  show ?thesis
  proof (cases "?c f g = 0 \<or> ?c g k = 0")
    case True
    then show ?thesis
    proof
      assume "?c f g = 0"
      with z(1) assms(4,5) show ?thesis by (auto simp: BySmallestKey_def Let_def split: if_splits)
    next
      assume "?c g k = 0"
      with z(2) assms(4,5) show ?thesis by (auto simp: BySmallestKey_def Let_def split: if_splits)
    qed
  next
    case False
    then have "?c f g < 0" "?c g k < 0" using assms(4,5) by (auto simp: BySmallestKey_def Let_def)
    then have "?c f k < 0" using internal.cmp_trans [OF assms(1-3)] by blast
    then show ?thesis by (simp add: BySmallestKey_def)
  qed
qed

lemma level_ok_sorted:
  assumes "level_ok icmp used level h n base added"
  shows "sorted_wrt (BySmallestKey icmp h) (save_level (BySmallestKey icmp h) h D base added [])"
proof (rule save_level_sorted)
  show "sorted_wrt (BySmallestKey icmp h) base" "sorted_wrt (BySmallestKey icmp h) added" using assms by (simp_all add: level_ok_def)
  show "BySmallestKey icmp h x y \<or> BySmallestKey icmp h y x" if "x \<in> set base" "y \<in> set added" for x y
  proof (rule BySmallestKey_total)
    show "ikey_wf (f_smallest (h x))" "ikey_wf (f_smallest (h y))" using assms that by (auto simp: level_ok_def)
    show "f_number (h x) \<noteq> f_number (h y)" using assms that unfolding level_ok_def inj_on_def by blast
  qed
  show "BySmallestKey icmp h x z" if "x \<in> set base \<union> set added" "y \<in> set base \<union> set added" "z \<in> set base \<union> set added"
    "BySmallestKey icmp h x y" "BySmallestKey icmp h y z" for x y z
    using BySmallestKey_trans [of h x y z] that assms by (auto simp: level_ok_def)
qed

lemma level_ok_add:
  assumes ok: "level_ok icmp used level h n base added" and fm: "ikey_wf (f_smallest fm)" "(level, f_number fm) \<notin> used"
    and h': "h' = h(n := fm)"
  shows "level_ok icmp (insert (level, f_number fm) used) level h' (n + 1) base (FileSet_insert (BySmallestKey icmp h') n added)"
    and "set (FileSet_insert (BySmallestKey icmp h') n added) = insert n (set added)"
proof -
  note ok = ok [unfolded level_ok_def]
  have old: "f < n" "h' f = h f" "f_number (h f) \<noteq> f_number fm" "ikey_wf (f_smallest (h f))" if "f \<in> set base \<union> set added" for f
  proof -
    show "f < n" "ikey_wf (f_smallest (h f))" using ok that by auto
    then show "h' f = h f" by (simp add: h')
    show "f_number (h f) \<noteq> f_number fm" using ok that fm(2) by metis
  qed
  have n: "h' n = fm" by (simp add: h')
  have tot: "BySmallestKey icmp h' n g \<or> BySmallestKey icmp h' g n" if "g \<in> set added" for g
    using BySmallestKey_total [of h' n g] old [of g] that fm(1) n by simp
  show s: "set (FileSet_insert (BySmallestKey icmp h') n added) = insert n (set added)" using tot by (rule set_FileSet_insert)
  have same: "BySmallestKey icmp h' x y = BySmallestKey icmp h x y" if "x \<in> set base \<union> set added" "y \<in> set base \<union> set added" for x y
    using old [OF that(1)] old [OF that(2)] by (simp add: BySmallestKey_def)
  have sb: "sorted_wrt (BySmallestKey icmp h') base" "sorted_wrt (BySmallestKey icmp h') added"
    using ok same by (auto intro: sorted_wrt_mono_rel [rotated])
  have "sorted_wrt (BySmallestKey icmp h') (FileSet_insert (BySmallestKey icmp h') n added)"
  proof (intro sorted_FileSet_insert sb tot)
    fix x y assume xy: "x \<in> set added" "y \<in> set added" "BySmallestKey icmp h' n x" "BySmallestKey icmp h' x y"
    have "ikey_wf (f_smallest (h' n))" "ikey_wf (f_smallest (h' x))" "ikey_wf (f_smallest (h' y))"
      using old [of x] old [of y] xy(1,2) fm(1) n by simp_all
    from BySmallestKey_trans [OF this xy(3,4)] show "BySmallestKey icmp h' n y" .
  qed simp
  moreover have "inj_on (\<lambda>f. f_number (h' f)) (set base \<union> insert n (set added))"
  proof -
    have "inj_on (\<lambda>f. f_number (h' f)) (set base \<union> set added)" using ok old by (auto simp: inj_on_def)
    moreover have "f_number (h' n) \<notin> (\<lambda>f. f_number (h' f)) ` (set base \<union> set added)" using old n by fastforce
    ultimately show ?thesis unfolding Un_insert_right inj_on_insert by blast
  qed
  moreover have "n \<notin> set base" using old by blast
  ultimately show "level_ok icmp (insert (level, f_number fm) used) level h' (n + 1) base (FileSet_insert (BySmallestKey icmp h') n added)"
    unfolding level_ok_def s using ok old n fm(1) sb(1) by (auto simp: less_Suc_eq)
qed


lemma level_ok_frame:
  assumes ok: "level_ok icmp used level h n base added" and "used \<subseteq> used'"
  shows "level_ok icmp used' level (h(n := x)) (n + 1) base added"
proof -
  note ok = ok [unfolded level_ok_def]
  have old: "(h(n := x)) f = h f" if "f \<in> set base \<union> set added" for f using ok that by (metis fun_upd_other less_irrefl)
  have same: "BySmallestKey icmp (h(n := x)) f g = BySmallestKey icmp h f g" if "f \<in> set base \<union> set added" "g \<in> set base \<union> set added" for f g
    using old [OF that(1)] old [OF that(2)] by (simp only: BySmallestKey_def)
  have "sorted_wrt (BySmallestKey icmp (h(n := x))) base" "sorted_wrt (BySmallestKey icmp (h(n := x))) added"
    using ok same by (blast intro: sorted_wrt_mono_rel [rotated])+
  moreover have "inj_on (\<lambda>f. f_number ((h(n := x)) f)) (set base \<union> set added)"
    using ok old unfolding inj_on_def by metis
  moreover have "f < n + 1 \<and> (level, f_number ((h(n := x)) f)) \<in> used' \<and> ikey_wf (f_smallest ((h(n := x)) f))" if "f \<in> set base \<union> set added" for f
  proof -
    have "f < n" "(level, f_number (h f)) \<in> used" "ikey_wf (f_smallest (h f))" using ok that by blast+
    then show ?thesis unfolding old [OF that] using assms(2) by auto
  qed
  ultimately show ?thesis using ok unfolding level_ok_def by blast
qed

lemma apply_new_rel:
  assumes rel: "builder_rel icmp used A b" and l: "level < kNumLevels" and fm: "ikey_wf (f_smallest f)" "(level, f_number f) \<notin> used"
  shows "builder_rel icmp (insert (level, f_number f) used) (A(level := insert (file_desc f) (A level))) (apply_new icmp (level, f) b)"
proof -
  let ?h = "b_heap b" and ?n = "b_next b" and ?l = "b_levels b ! level"
  define fm' where "fm' = f\<lparr>f_refs := 1, f_allowed_seeks := initial_seeks (f_file_size f)\<rparr>"
  have d: "file_desc fm' = file_desc f" "f_number fm' = f_number f" "f_smallest fm' = f_smallest f" by (simp_all add: fm'_def file_desc_def)
  define h' where "h' = ?h(?n := fm')"
  let ?b' = "apply_new icmp (level, f) b"
  have b': "b_heap ?b' = h'" "b_next ?b' = ?n + 1" "b_base ?b' = b_base b" "length (b_levels ?b') = length (b_levels b)"
    by (simp_all add: apply_new_def Let_def h'_def fm'_def)
  have len: "length (b_levels b) = kNumLevels" using rel by (simp add: builder_rel_def)
  have lv: "b_levels ?b' ! k = (if k = level then ?l\<lparr>deleted_files := deleted_files ?l - {f_number f},
      added_files := FileSet_insert (BySmallestKey icmp h') ?n (added_files ?l)\<rparr> else b_levels b ! k)" if "k < kNumLevels" for k
    using that len by (simp add: apply_new_def Let_def h'_def fm'_def nth_list_update)
  have ok: "level_ok icmp used k ?h ?n (b_base b ! k) (added_files (b_levels b ! k))"
    and A: "A k = collected ?h (deleted_files (b_levels b ! k)) (set (b_base b ! k) \<union> set (added_files (b_levels b ! k)))"
    if "k < kNumLevels" for k using rel that by (simp_all add: builder_rel_def)
  have old: "h' g = ?h g" "(k, f_number (?h g)) \<in> used" if "k < kNumLevels" "g \<in> set (b_base b ! k) \<union> set (added_files (b_levels b ! k))" for k g
    using ok [OF that(1)] that(2) unfolding level_ok_def h'_def by (metis fun_upd_other less_irrefl, blast)
  show ?thesis
    unfolding builder_rel_def
  proof (intro conjI allI impI)
    show "length (b_levels ?b') = kNumLevels" using len b' by simp
    fix k assume k: "k < kNumLevels"
    show "level_ok icmp (insert (level, f_number f) used) k (b_heap ?b') (b_next ?b') (b_base ?b' ! k) (added_files (b_levels ?b' ! k))"
    proof (cases "k = level")
      case True
      then show ?thesis using level_ok_add(1) [OF ok [OF k], of fm' h'] fm d b' lv [OF k] h'_def by simp
    next
      case False
      then show ?thesis using level_ok_frame [OF ok [OF k] subset_insertI, of "(level, f_number f)" fm'] b' lv [OF k] by (simp add: h'_def)
    qed
    let ?S = "\<lambda>k. set (b_base b ! k) \<union> set (added_files (b_levels b ! k))"
    have cong: "collected h' D (?S k) = collected ?h D (?S k)" for D by (rule collected_cong) (rule old(1) [OF k])
    show "(A(level := insert (file_desc f) (A level))) k =
        collected (b_heap ?b') (deleted_files (b_levels ?b' ! k)) (set (b_base ?b' ! k) \<union> set (added_files (b_levels ?b' ! k)))"
    proof (cases "k = level")
      case False
      then show ?thesis using A [OF k] cong by (simp add: b'(1,3) lv [OF k])
    next
      case True
      have s: "set (FileSet_insert (BySmallestKey icmp h') ?n (added_files ?l)) = insert ?n (set (added_files ?l))"
        using level_ok_add(2) [OF ok [OF l], of fm' h'] fm d h'_def by simp
      have n: "h' ?n = fm'" by (simp add: h'_def)
      have neq: "f_number (h' g) \<noteq> f_number (h' ?n)" if "g \<in> ?S level" for g
      proof
        assume "f_number (h' g) = f_number (h' ?n)"
        then have "f_number (?h g) = f_number f" using old(1) [OF l that] n d(2) by metis
        then show False using old(2) [OF l that] fm(2) by metis
      qed
      have "collected h' (deleted_files ?l - {f_number (h' ?n)}) (insert ?n (?S level)) = insert (file_desc (h' ?n)) (collected h' (deleted_files ?l) (?S level))"
        using neq by (rule collected_add)
      then have "collected h' (deleted_files ?l - {f_number f}) (insert ?n (?S level)) = insert (file_desc f) (collected ?h (deleted_files ?l) (?S level))"
        using cong True n d by simp
      then show ?thesis using A [OF k] True lv [OF k] by (simp add: b'(1,3) s)
    qed
  qed
qed


lemma apply_news_rel:
  assumes "builder_rel icmp used A b" "\<forall>p\<in>set ps. fst p < kNumLevels \<and> ikey_wf (f_smallest (snd p))"
    "distinct (map (\<lambda>(level, f). (level, f_number f)) ps)" "set (map (\<lambda>(level, f). (level, f_number f)) ps) \<inter> used = {}"
  shows "builder_rel icmp (used \<union> set (map (\<lambda>(level, f). (level, f_number f)) ps))
    (\<lambda>level. A level \<union> {file_desc f | f. (level, f) \<in> set ps}) (fold (apply_new icmp) ps b)"
  using assms
proof (induction ps arbitrary: used A b)
  case (Cons p ps)
  obtain l f where p: "p = (l, f)" by fastforce
  let ?num = "\<lambda>(level, f). (level, f_number f)"
  have 1: "builder_rel icmp (insert (l, f_number f) used) (A(l := insert (file_desc f) (A l))) (apply_new icmp (l, f) b)"
    using Cons.prems p by (intro apply_new_rel) auto
  from Cons.IH [OF 1] Cons.prems p
  have "builder_rel icmp (insert (l, f_number f) used \<union> set (map ?num ps))
      (\<lambda>level. (A(l := insert (file_desc f) (A l))) level \<union> {file_desc f | f. (level, f) \<in> set ps}) (fold (apply_new icmp) ps (apply_new icmp (l, f) b))"
    by auto
  moreover have "(\<lambda>level. (A(l := insert (file_desc f) (A l))) level \<union> {file_desc f | f. (level, f) \<in> set ps}) =
      (\<lambda>level. A level \<union> {file_desc f | f. (level, f) \<in> set (p # ps)})" by (auto simp: p fun_eq_iff)
  moreover have "insert (l, f_number f) used \<union> set (map ?num ps) = used \<union> set (map ?num (p # ps))" by (auto simp: p)
  ultimately show ?case by (simp only: fold.simps comp_apply p)
qed simp

lemma apply_deletes_rel:
  assumes "builder_rel icmp used A b" "\<forall>p\<in>set ps. fst p < kNumLevels"
  shows "builder_rel icmp used (\<lambda>level. {d \<in> A level. (level, fst d) \<notin> set ps}) (b\<lparr>b_levels := fold apply_delete ps (b_levels b)\<rparr>)"
  using assms
proof (induction ps arbitrary: A b)
  case (Cons p ps)
  obtain l m where p: "p = (l, m)" by fastforce
  let ?b = "b\<lparr>b_levels := apply_delete p (b_levels b)\<rparr>"
  have len: "length (b_levels b) = kNumLevels" using Cons.prems by (simp add: builder_rel_def)
  have lv: "b_levels ?b ! k = (if k = l then (b_levels b ! l)\<lparr>deleted_files := insert m (deleted_files (b_levels b ! l))\<rparr> else b_levels b ! k)"
    if "k < kNumLevels" for k using that len by (simp add: apply_delete_def p nth_list_update Let_def)
  have "builder_rel icmp used (\<lambda>level. {d \<in> A level. (level, fst d) \<noteq> (l, m)}) ?b"
    unfolding builder_rel_def
  proof (intro conjI allI impI)
    show "length (b_levels ?b) = kNumLevels" using len by (simp add: apply_delete_def Let_def)
    fix k assume k: "k < kNumLevels"
    have r: "level_ok icmp used k (b_heap b) (b_next b) (b_base b ! k) (added_files (b_levels b ! k))"
      "A k = collected (b_heap b) (deleted_files (b_levels b ! k)) (set (b_base b ! k) \<union> set (added_files (b_levels b ! k)))"
      using Cons.prems(1) k by (simp_all add: builder_rel_def)
    have ad: "added_files (b_levels ?b ! k) = added_files (b_levels b ! k)" using lv [OF k] by simp
    show "level_ok icmp used k (b_heap ?b) (b_next ?b) (b_base ?b ! k) (added_files (b_levels ?b ! k))" using r(1) ad by simp
    show "{d \<in> A k. (k, fst d) \<noteq> (l, m)} = collected (b_heap ?b) (deleted_files (b_levels ?b ! k)) (set (b_base ?b ! k) \<union> set (added_files (b_levels ?b ! k)))"
    proof (cases "k = l")
      case True
      then have "deleted_files (b_levels ?b ! k) = insert m (deleted_files (b_levels b ! k))" using lv [OF k] by simp
      then show ?thesis using r(2) ad True by (simp add: collected_delete)
    next
      case False
      then have "deleted_files (b_levels ?b ! k) = deleted_files (b_levels b ! k)" using lv [OF k] by simp
      then show ?thesis using r(2) ad False by simp
    qed
  qed
  from Cons.IH [OF this] Cons.prems(2)
  have "builder_rel icmp used (\<lambda>level. {d \<in> {d \<in> A level. (level, fst d) \<noteq> (l, m)}. (level, fst d) \<notin> set ps})
      (?b\<lparr>b_levels := fold apply_delete ps (b_levels ?b)\<rparr>)" by simp
  moreover have "(\<lambda>level. {d \<in> {d \<in> A level. (level, fst d) \<noteq> (l, m)}. (level, fst d) \<notin> set ps}) = (\<lambda>level. {d \<in> A level. (level, fst d) \<notin> set (p # ps)})"
    by (auto simp: p fun_eq_iff)
  ultimately show ?case by simp
qed simp

lemma builder_rel_cong_pointers: "builder_rel icmp used A (b\<lparr>b_compact_pointer := cp\<rparr>) = builder_rel icmp used A b"
  by (simp add: builder_rel_def)

lemma Apply_rel:
  assumes rel: "builder_rel icmp used A b" and e: "edit_levels e" "distinct (new_numbers e)" "set (new_numbers e) \<inter> used = {}"
  shows "builder_rel icmp (used \<union> set (new_numbers e)) (apply_edit e A) (Builder_Apply icmp e b)"
proof -
  let ?cp = "fold (\<lambda>(level, key) cp. cp[level := key]) (ve_compact_pointers e) (b_compact_pointer b)"
  have 1: "builder_rel icmp used A (b\<lparr>b_compact_pointer := ?cp\<rparr>)" using rel by (simp add: builder_rel_cong_pointers)
  have "builder_rel icmp used (\<lambda>level. {d \<in> A level. (level, fst d) \<notin> set (ve_deleted_files e)})
      (b\<lparr>b_compact_pointer := ?cp, b_levels := fold apply_delete (ve_deleted_files e) (b_levels b)\<rparr>)"
    using apply_deletes_rel [OF 1, of "ve_deleted_files e"] e(1) by (simp add: edit_levels_def)
  from apply_news_rel [OF this, of "ve_new_files e"] e show ?thesis
    unfolding Builder_Apply_def Let_def apply_edit_def [abs_def] new_numbers_def edit_levels_def by simp
qed

lemma Applies_rel:
  assumes "builder_rel icmp used A b" "\<forall>e\<in>set es. edit_levels e" "fresh_numbers used es"
  shows "\<exists>used'. builder_rel icmp used' (fold apply_edit es A) (fold (Builder_Apply icmp) es b)"
  using assms
proof (induction es arbitrary: used A b)
  case (Cons e es)
  then show ?case using Apply_rel [OF Cons.prems(1), of e] by auto
qed auto

lemma SaveTo_rel:
  assumes rel: "builder_rel icmp used A b" and l: "level < kNumLevels" and v: "v = Builder_SaveTo icmp b new_Version"
  shows "version_abs (b_heap b) (v_files v) level = A level"
    "sorted_wrt (BySmallestKey icmp (b_heap b)) (v_files v ! level)"
    "f \<in> set (v_files v ! level) \<Longrightarrow> f < b_next b \<and> (level, f_number (b_heap b f)) \<in> used \<and> ikey_wf (f_smallest (b_heap b f))"
    "inj_on (\<lambda>f. f_number (b_heap b f)) (set (v_files v ! level))"
proof -
  have r: "level_ok icmp used level (b_heap b) (b_next b) (b_base b ! level) (added_files (b_levels b ! level))"
    "A level = collected (b_heap b) (deleted_files (b_levels b ! level)) (set (b_base b ! level) \<union> set (added_files (b_levels b ! level)))"
    using rel l by (simp_all add: builder_rel_def)
  have files: "v_files v ! level = save_level (BySmallestKey icmp (b_heap b)) (b_heap b) (deleted_files (b_levels b ! level))
      (b_base b ! level) (added_files (b_levels b ! level)) []"
    using l by (simp add: v Builder_SaveTo_def new_Version_def)
  show "version_abs (b_heap b) (v_files v) level = A level"
    using l r(2) by (simp add: version_abs_def level_abs_def files save_level_set collected_def)
  show "sorted_wrt (BySmallestKey icmp (b_heap b)) (v_files v ! level)" unfolding files by (rule level_ok_sorted [OF r(1)])
  show "f < b_next b \<and> (level, f_number (b_heap b f)) \<in> used \<and> ikey_wf (f_smallest (b_heap b f))" if "f \<in> set (v_files v ! level)"
    using that r(1) by (auto simp: files save_level_set level_ok_def)
  show "inj_on (\<lambda>f. f_number (b_heap b f)) (set (v_files v ! level))"
    using r(1) by (auto simp: files save_level_set level_ok_def intro: inj_on_subset)
qed

end

subsection \<open>The builder refines the abstract effect\<close>

text \<open>
  A version is well-formed if each level lists allocated files with different numbers in the order
  of their smallest keys.
\<close>

definition version_ok :: "(slice \<Rightarrow> slice \<Rightarrow> int) \<Rightarrow> fheap \<Rightarrow> fptr \<Rightarrow> fptr list list \<Rightarrow> bool" where
  "version_ok icmp h next fss \<longleftrightarrow> length fss = kNumLevels \<and>
     (\<forall>files\<in>set fss. (\<forall>f\<in>set files. f < next \<and> ikey_wf (f_smallest (h f))) \<and>
        inj_on (\<lambda>f. f_number (h f)) (set files) \<and> sorted_wrt (BySmallestKey icmp h) files)"

definition version_numbers :: "fheap \<Rightarrow> fptr list list \<Rightarrow> (nat \<times> u64) set" where
  "version_numbers h fss = (\<Union>level<kNumLevels. (\<lambda>f. (level, f_number (h f))) ` set (fss ! level))"

lemma new_Builder_rel:
  assumes "version_ok icmp h n base"
  shows "builder_rel icmp (version_numbers h base) (version_abs h base) (new_Builder base h n cp)"
proof -
  have "level_ok icmp (version_numbers h base) level h n (base ! level) []" if "level < kNumLevels" for level
  proof -
    have "base ! level \<in> set base" using assms that by (simp add: version_ok_def)
    then show ?thesis using assms that by (auto simp: level_ok_def version_ok_def version_numbers_def)
  qed
  then show ?thesis by (simp add: builder_rel_def new_Builder_def version_abs_def level_abs_def collected_def)
qed

lemma version_abs_numbers: "fst ` version_abs h fss level = snd ` {p \<in> version_numbers h fss. fst p = level}"
  by (auto simp: version_abs_def level_abs_def version_numbers_def file_desc_def image_iff)

context user_comparator
begin

lemma SaveTo_version_ok:
  assumes rel: "builder_rel icmp used A b" and A: "\<And>level. kNumLevels \<le> level \<Longrightarrow> A level = {}"
    and v: "v = Builder_SaveTo icmp b new_Version"
  shows "version_ok icmp (b_heap b) (b_next b) (v_files v)" "version_abs (b_heap b) (v_files v) = A"
    "version_numbers (b_heap b) (v_files v) \<subseteq> used"
proof -
  have len: "length (v_files v) = kNumLevels" by (simp add: v Builder_SaveTo_def)
  note r = SaveTo_rel [OF rel _ v]
  show "version_ok icmp (b_heap b) (b_next b) (v_files v)"
    unfolding version_ok_def all_set_conv_all_nth len using r by simp
  show "version_numbers (b_heap b) (v_files v) \<subseteq> used" using r(3) by (auto simp: version_numbers_def)
  show "version_abs (b_heap b) (v_files v) = A"
  proof
    fix level
    show "version_abs (b_heap b) (v_files v) level = A level"
      using r(1) A by (cases "level < kNumLevels") (simp_all add: version_abs_def)
  qed
qed

lemma apply_edit_beyond:
  "edit_levels e \<Longrightarrow> A level = {} \<Longrightarrow> kNumLevels \<le> level \<Longrightarrow> apply_edit e A level = {}"
  by (auto simp: apply_edit_def edit_levels_def)

lemma apply_edits_beyond:
  "\<forall>e\<in>set es. edit_levels e \<Longrightarrow> A level = {} \<Longrightarrow> kNumLevels \<le> level \<Longrightarrow> fold apply_edit es A level = {}"
  by (induction es arbitrary: A) (simp_all add: apply_edit_beyond)

lemma Builder_run:
  assumes "version_ok icmp h n base" "\<forall>e\<in>set es. edit_levels e" "fresh_numbers (version_numbers h base) es"
    "b = fold (Builder_Apply icmp) es (new_Builder base h n cp)" "v = Builder_SaveTo icmp b new_Version"
  shows "version_abs (b_heap b) (v_files v) = fold apply_edit es (version_abs h base) \<and>
    version_ok icmp (b_heap b) (b_next b) (v_files v)"
proof -
  obtain used' where "builder_rel icmp used' (fold apply_edit es (version_abs h base)) b"
    using Applies_rel [OF new_Builder_rel [OF assms(1)] assms(2,3), of cp] assms(4) by auto
  from SaveTo_version_ok [OF this _ assms(5)] apply_edits_beyond [OF assms(2)] show ?thesis by (simp add: version_abs_def)
qed

end

text \<open>
  C40. Applying a sequence of edits with the builder and saving the result gives, for a well-formed base version
  and edits that give new files unused numbers, exactly the files that deleting and adding edit
  by edit leaves, and each level of the new version is again sorted by smallest key without duplicates.
\<close>

theorem Builder_refines:
  assumes "version_ok (InternalKey_Compare Bytewise_Compare) h n base"
    "\<forall>e\<in>set es. edit_levels e" "fresh_numbers (version_numbers h base) es"
    "b = fold (Builder_Apply (InternalKey_Compare Bytewise_Compare)) es (new_Builder base h n cp)"
    "v = Builder_SaveTo (InternalKey_Compare Bytewise_Compare) b new_Version"
  shows "version_abs (b_heap b) (v_files v) = fold apply_edit es (version_abs h base) \<and>
    version_ok (InternalKey_Compare Bytewise_Compare) (b_heap b) (b_next b) (v_files v)"
  by (rule bytewise_user.Builder_run [OF assms])

text \<open>Two edits on an empty version: a file is added to level 1 and replaced by one on level 2.\<close>

definition sample_edits :: "VersionEdit list" where
  "sample_edits =
     [VersionEdit_AddFile 1 7 100 (MakeInternalKey [1] 5 kTypeValue) (MakeInternalKey [3] 6 kTypeValue) new_VersionEdit,
      VersionEdit_AddFile 2 8 90 (MakeInternalKey [1] 5 kTypeValue) (MakeInternalKey [3] 6 kTypeValue)
        (VersionEdit_DeleteFile 1 7 new_VersionEdit)]"

theorem Builder_refines_witness:
  "let b = fold (Builder_Apply (InternalKey_Compare Bytewise_Compare)) sample_edits
         (new_Builder (replicate kNumLevels []) (\<lambda>_. new_FileMetaData 0 0 [] []) 0 (replicate kNumLevels []));
       v = Builder_SaveTo (InternalKey_Compare Bytewise_Compare) b new_Version
   in version_abs (b_heap b) (v_files v) =
        fold apply_edit sample_edits (version_abs (\<lambda>_. new_FileMetaData 0 0 [] []) (replicate kNumLevels [])) \<and>
      version_ok (InternalKey_Compare Bytewise_Compare) (b_heap b) (b_next b) (v_files v)"
proof -
  have ok: "version_ok (InternalKey_Compare Bytewise_Compare) (\<lambda>_. new_FileMetaData 0 0 [] []) 0 (replicate kNumLevels [])"
    by (simp add: version_ok_def)
  have lv: "\<forall>e\<in>set sample_edits. edit_levels e"
    by (simp add: sample_edits_def edit_levels_def VersionEdit_AddFile_def VersionEdit_DeleteFile_def new_VersionEdit_def
        new_FileMetaData_def kNumLevels_def)
  have fresh: "fresh_numbers (version_numbers (\<lambda>_. new_FileMetaData 0 0 [] []) (replicate kNumLevels [])) sample_edits"
    by (simp add: sample_edits_def new_numbers_def version_numbers_def VersionEdit_AddFile_def VersionEdit_DeleteFile_def
        new_VersionEdit_def new_FileMetaData_def)
  show ?thesis unfolding Let_def by (rule Builder_refines [OF ok lv fresh refl refl])
qed

end
