(* ===== verification/Filename.thy ===== *)
theory Filename
  imports Comparator
begin

text \<open>
  The names of the files of a database: db/filename.cc and the decimal numbers of util/logging.cc.
  Strings are byte lists. \<open>snprintf\<close> of a number is its decimal digits, padded with zeros for
  \<open>%06llu\<close>; the buffers are long enough for every number.
\<close>

subsection \<open>Decimal numbers\<close>

fun decimal :: "nat \<Rightarrow> slice" where
  "decimal n = (if n < 10 then [48 + of_nat n] else decimal (n div 10) @ [48 + of_nat (n mod 10)])"

declare decimal.simps [simp del]

definition AppendNumberTo :: "slice \<Rightarrow> u64 \<Rightarrow> slice" where
  "AppendNumberTo str num = str @ decimal (unat num)"

text \<open>\<open>AppendEscapedStringTo\<close>: a byte that is not printable becomes a hexadecimal escape.\<close>

definition hex_digit :: "nat \<Rightarrow> byte" where
  "hex_digit n = (if n < 10 then 48 + of_nat n else 87 + of_nat n)"

definition AppendEscapedStringTo :: "slice \<Rightarrow> slice \<Rightarrow> slice" where
  "AppendEscapedStringTo str val =
     str @ concat (map (\<lambda>c. if 32 \<le> c \<and> c \<le> 126 then [c]
       else [92, 120, hex_digit (unat c div 16), hex_digit (unat c mod 16)]) val)"

definition EscapeString :: "slice \<Rightarrow> slice" where
  "EscapeString val = AppendEscapedStringTo [] val"

text \<open>The loop returns the rest of the input, the value and the number of digits, or \<open>None\<close> on overflow.\<close>

fun consume_digits :: "u64 \<Rightarrow> nat \<Rightarrow> slice \<Rightarrow> (u64 \<times> nat \<times> slice) option" where
  "consume_digits v digits [] = Some (v, digits, [])"
| "consume_digits v digits (c # input) =
     (if 48 \<le> c \<and> c \<le> 57 then
        let delta = c - 48; kMaxUint64 = (- 1 :: u64) in
        if v > kMaxUint64 div 10 \<or> v = kMaxUint64 div 10 \<and> ucast delta > kMaxUint64 mod 10 then None
        else consume_digits (v * 10 + ucast delta) (digits + 1) input
      else Some (v, digits, c # input))"

definition ConsumeDecimalNumber :: "slice \<Rightarrow> (u64 \<times> slice) option" where
  "ConsumeDecimalNumber input =
     (case consume_digits 0 0 input of
        None \<Rightarrow> None
      | Some (v, digits, rest) \<Rightarrow> if digits > 0 then Some (v, rest) else None)"

subsection \<open>File names\<close>

datatype FileType = kLogFile | kDBLockFile | kTableFile | kDescriptorFile | kCurrentFile | kTempFile | kInfoLogFile

definition str :: "string \<Rightarrow> slice" where
  "str s = map (\<lambda>c. of_nat (of_char c)) s"

definition padded :: "u64 \<Rightarrow> slice" where
  "padded n = (let d = decimal (unat n) in replicate (6 - length d) 48 @ d)"

definition MakeFileName :: "slice \<Rightarrow> u64 \<Rightarrow> string \<Rightarrow> slice" where
  "MakeFileName name number suffix = name @ str ''/'' @ padded number @ str ''.'' @ str suffix"

definition LogFileName :: "slice \<Rightarrow> u64 \<Rightarrow> slice" where
  "LogFileName name number = MakeFileName name number ''log''"

definition TableFileName :: "slice \<Rightarrow> u64 \<Rightarrow> slice" where
  "TableFileName name number = MakeFileName name number ''ldb''"

definition SSTTableFileName :: "slice \<Rightarrow> u64 \<Rightarrow> slice" where
  "SSTTableFileName name number = MakeFileName name number ''sst''"

definition DescriptorFileName :: "slice \<Rightarrow> u64 \<Rightarrow> slice" where
  "DescriptorFileName dbname number = dbname @ str ''/MANIFEST-'' @ padded number"

definition CurrentFileName :: "slice \<Rightarrow> slice" where
  "CurrentFileName dbname = dbname @ str ''/CURRENT''"

definition LockFileName :: "slice \<Rightarrow> slice" where
  "LockFileName dbname = dbname @ str ''/LOCK''"

definition TempFileName :: "slice \<Rightarrow> u64 \<Rightarrow> slice" where
  "TempFileName dbname number = MakeFileName dbname number ''dbtmp''"

definition InfoLogFileName :: "slice \<Rightarrow> slice" where
  "InfoLogFileName dbname = dbname @ str ''/LOG''"

definition OldInfoLogFileName :: "slice \<Rightarrow> slice" where
  "OldInfoLogFileName dbname = dbname @ str ''/LOG.old''"

definition ParseFileName :: "slice \<Rightarrow> (u64 \<times> FileType) option" where
  "ParseFileName rest =
     (if Slice_eq rest (str ''CURRENT'') then Some (0, kCurrentFile)
      else if Slice_eq rest (str ''LOCK'') then Some (0, kDBLockFile)
      else if Slice_eq rest (str ''LOG'') \<or> Slice_eq rest (str ''LOG.old'') then Some (0, kInfoLogFile)
      else if starts_with rest (str ''MANIFEST-'') then
        (case ConsumeDecimalNumber (remove_prefix 9 rest) of
           None \<Rightarrow> None
         | Some (num, rest) \<Rightarrow> if rest \<noteq> [] then None else Some (num, kDescriptorFile))
      else
        (case ConsumeDecimalNumber rest of
           None \<Rightarrow> None
         | Some (num, suffix) \<Rightarrow>
             if Slice_eq suffix (str ''.log'') then Some (num, kLogFile)
             else if Slice_eq suffix (str ''.sst'') \<or> Slice_eq suffix (str ''.ldb'') then Some (num, kTableFile)
             else if Slice_eq suffix (str ''.dbtmp'') then Some (num, kTempFile)
             else None))"

subsection \<open>Numbers are read back\<close>

definition digits_value :: "nat \<Rightarrow> slice \<Rightarrow> nat" where
  "digits_value v ds = foldl (\<lambda>v c. v * 10 + (unat c - 48)) v ds"

definition all_digits :: "slice \<Rightarrow> bool" where
  "all_digits ds \<longleftrightarrow> (\<forall>c\<in>set ds. 48 \<le> c \<and> c \<le> 57)"

lemma digits_value_ge: "v \<le> digits_value v ds"
proof (induction ds arbitrary: v)
  case (Cons c ds)
  have "v \<le> v * 10 + (unat c - 48)" by simp
  then show ?case using Cons [of "v * 10 + (unat c - 48)"] by (simp add: digits_value_def)
qed (simp add: digits_value_def)

lemma consume_step:
  assumes "48 \<le> c" "c \<le> 57" "unat v * 10 + (unat c - 48) < 2 ^ 64"
  shows "\<not> (v > (- 1 :: u64) div 10 \<or> v = (- 1) div 10 \<and> ucast (c - 48 :: byte) > (- 1 :: u64) mod 10)"
    "unat (v * 10 + ucast (c - 48) :: u64) = unat v * 10 + (unat c - 48)"
proof -
  have c: "unat (c - 48) = unat c - 48" "unat c - 48 \<le> 9"
    using assms(1,2) by (simp_all add: unat_sub word_le_nat_alt)
  have u: "unat (ucast (c - 48) :: u64) = unat c - 48" using c unsigned_less [of "c - 48", where 'a = nat] by (simp add: unsigned_ucast_eq take_bit_nat_eq_self)
  have "(- 1 :: u64) div 10 = 1844674407370955161" "(- 1 :: u64) mod 10 = 5" by (code_simp, code_simp)
  then have m: "unat ((- 1 :: u64) div 10) = 1844674407370955161" "unat ((- 1 :: u64) mod 10) = 5" by simp_all
  show "\<not> (v > (- 1 :: u64) div 10 \<or> v = (- 1) div 10 \<and> ucast (c - 48 :: byte) > (- 1 :: u64) mod 10)"
    using assms(3) unfolding word_less_nat_alt m u by (auto simp: m)
  show "unat (v * 10 + ucast (c - 48) :: u64) = unat v * 10 + (unat c - 48)"
    using assms(3) u by (simp add: unat_word_ariths)
qed

lemma consume_digits_ok:
  assumes "all_digits ds" "digits_value (unat v) ds < 2 ^ 64" "\<And>c cs. rest = c # cs \<Longrightarrow> \<not> (48 \<le> c \<and> c \<le> 57)"
  shows "consume_digits v k (ds @ rest) = Some (of_nat (digits_value (unat v) ds), k + length ds, rest)"
  using assms(1,2)
proof (induction ds arbitrary: v k)
  case Nil
  then show ?case using assms(3) by (cases rest) (auto simp: digits_value_def)
next
  case (Cons c ds)
  have c: "48 \<le> c" "c \<le> 57" "all_digits ds" using Cons.prems(1) by (simp_all add: all_digits_def)
  have "unat v * 10 + (unat c - 48) \<le> digits_value (unat v) (c # ds)"
    using digits_value_ge [of "unat v * 10 + (unat c - 48)" ds] by (simp add: digits_value_def)
  then have "unat v * 10 + (unat c - 48) < 2 ^ 64" using Cons.prems(2) by linarith
  note st = consume_step [OF c(1,2) this]
  have "digits_value (unat (v * 10 + ucast (c - 48) :: u64)) ds = digits_value (unat v) (c # ds)"
    unfolding st(2) by (simp add: digits_value_def)
  with Cons.IH [OF c(3), of "v * 10 + ucast (c - 48)" "k + 1"] Cons.prems(2) c st(1) show ?case
    by (simp add: Let_def)
qed

lemma decimal_digits: "all_digits (decimal n)" "digits_value v (decimal n) = v * 10 ^ length (decimal n) + n" "decimal n \<noteq> []"
proof (induction n arbitrary: v rule: decimal.induct)
  case (1 n)
  have d: "unat (48 + of_nat m :: byte) = 48 + m" if "m < 10" for m
    using that by (simp add: unat_word_ariths unat_of_nat)
  have r: "48 \<le> (48 + of_nat m :: byte) \<and> (48 + of_nat m :: byte) \<le> 57" if "m < 10" for m
    using d [OF that] that by (simp add: word_le_nat_alt)
  {
    case 1
    show ?case using "1.IH" (1) r by (subst decimal.simps) (auto simp: all_digits_def)
  next
    case 2
    show ?case
    proof (cases "n < 10")
      case True
      then show ?thesis using d by (subst (1 2) decimal.simps) (simp add: digits_value_def)
    next
      case False
      have "digits_value v (decimal (n div 10) @ [48 + of_nat (n mod 10)]) = digits_value v (decimal (n div 10)) * 10 + n mod 10"
        using d [of "n mod 10"] by (simp add: digits_value_def)
      then show ?thesis using False "1.IH" (2) [OF False, of v] by (subst (1 2) decimal.simps) (simp add: algebra_simps)
    qed
  next
    case 3
    show ?case by (subst decimal.simps) simp
  }
qed


lemma padded_digits: "all_digits (padded n)" "digits_value 0 (padded n) = unat n" "padded n \<noteq> []"
proof -
  have "digits_value 0 (replicate k 48 @ ds) = digits_value 0 ds" for k ds
    by (induction k) (simp_all add: digits_value_def)
  then show "digits_value 0 (padded n) = unat n" by (simp add: padded_def Let_def decimal_digits(2))
  show "all_digits (padded n)" "padded n \<noteq> []"
    using decimal_digits(1,3) [of "unat n"] by (auto simp: padded_def Let_def all_digits_def)
qed

lemma Consume_padded:
  assumes "\<And>c cs. rest = c # cs \<Longrightarrow> \<not> (48 \<le> c \<and> c \<le> 57)"
  shows "ConsumeDecimalNumber (padded n @ rest) = Some (n, rest)"
proof -
  have "digits_value (unat (0 :: u64)) (padded n) < 2 ^ 64" using unsigned_less [of n, where 'a = nat] padded_digits(2) [of n] by simp
  from consume_digits_ok [OF padded_digits(1) this, where rest = rest and k = 0] assms
  have "consume_digits 0 0 (padded n @ rest) = Some (of_nat (digits_value 0 (padded n)), length (padded n), rest)" by simp
  then show ?thesis
    using padded_digits(2,3) [of n] by (simp add: ConsumeDecimalNumber_def)
qed

lemma padded_head: "\<exists>c cs. padded n = c # cs \<and> 48 \<le> c \<and> c \<le> 57"
  using padded_digits(1,3) [of n] by (cases "padded n") (auto simp: all_digits_def)

lemma Parse_numbered:
  assumes "suffix = ''log'' \<or> suffix = ''ldb'' \<or> suffix = ''sst'' \<or> suffix = ''dbtmp''"
  shows "ParseFileName (padded n @ str ''.'' @ str suffix) =
    Some (n, if suffix = ''log'' then kLogFile else if suffix = ''dbtmp'' then kTempFile else kTableFile)"
proof -
  obtain c cs where c: "padded n = c # cs" "48 \<le> c" "c \<le> 57" using padded_head by blast
  have no: "\<not> Slice_eq (padded n @ xs) (str ''CURRENT'')" "\<not> Slice_eq (padded n @ xs) (str ''LOCK'')"
    "\<not> Slice_eq (padded n @ xs) (str ''LOG'')" "\<not> Slice_eq (padded n @ xs) (str ''LOG.old'')"
    "\<not> starts_with (padded n @ xs) (str ''MANIFEST-'')" for xs
    using c by (auto simp: Slice_eq_iff starts_with_iff str_def)
  have con: "ConsumeDecimalNumber (padded n @ str ''.'' @ xs) = Some (n, str ''.'' @ xs)" for xs
    by (rule Consume_padded) (auto simp: str_def)
  show ?thesis
    unfolding ParseFileName_def con if_not_P [OF no(1)] if_not_P [OF no(2)] if_not_P [OF no(5)] using assms no(3,4)
    by (elim disjE) (simp_all add: Slice_eq_iff, simp_all add: str_def)
qed

text \<open>
  C39. The names of database files are recognised again: for every number, the last component of
  the name of a log, table, old table, temporary or manifest file parses to that number and
  the type of the file, and the fixed names parse to their types.
\<close>

theorem ParseFileName_roundtrip:
  "ParseFileName (drop (length dbname + 1) (LogFileName dbname n)) = Some (n, kLogFile) \<and>
   ParseFileName (drop (length dbname + 1) (TableFileName dbname n)) = Some (n, kTableFile) \<and>
   ParseFileName (drop (length dbname + 1) (SSTTableFileName dbname n)) = Some (n, kTableFile) \<and>
   ParseFileName (drop (length dbname + 1) (TempFileName dbname n)) = Some (n, kTempFile) \<and>
   ParseFileName (drop (length dbname + 1) (DescriptorFileName dbname n)) = Some (n, kDescriptorFile) \<and>
   ParseFileName (drop (length dbname + 1) (CurrentFileName dbname)) = Some (0, kCurrentFile) \<and>
   ParseFileName (drop (length dbname + 1) (LockFileName dbname)) = Some (0, kDBLockFile) \<and>
   ParseFileName (drop (length dbname + 1) (InfoLogFileName dbname)) = Some (0, kInfoLogFile) \<and>
   ParseFileName (drop (length dbname + 1) (OldInfoLogFileName dbname)) = Some (0, kInfoLogFile)"
proof -
  have d: "drop (length dbname + 1) (MakeFileName dbname n suffix) = padded n @ str ''.'' @ str suffix" for suffix
    by (simp add: MakeFileName_def str_def)
  have man: "ParseFileName (drop (length dbname + 1) (DescriptorFileName dbname n)) = Some (n, kDescriptorFile)"
  proof -
    have e: "drop (length dbname + 1) (DescriptorFileName dbname n) = str ''MANIFEST-'' @ padded n"
      by (simp add: DescriptorFileName_def str_def)
    have p: "remove_prefix 9 (str ''MANIFEST-'' @ padded n) = padded n" by (simp add: remove_prefix_def str_def)
    have s: "starts_with (str ''MANIFEST-'' @ padded n) (str ''MANIFEST-'')" by (simp add: starts_with_iff)
    have no: "\<not> Slice_eq (str ''MANIFEST-'' @ padded n) (str ''CURRENT'')" "\<not> Slice_eq (str ''MANIFEST-'' @ padded n) (str ''LOCK'')"
      "\<not> Slice_eq (str ''MANIFEST-'' @ padded n) (str ''LOG'')" "\<not> Slice_eq (str ''MANIFEST-'' @ padded n) (str ''LOG.old'')"
      by (simp_all add: Slice_eq_iff str_def)
    show ?thesis unfolding e ParseFileName_def using Consume_padded [of "[]" n] by (simp add: no s p)
  qed
  have nums: "ParseFileName (drop (length dbname + 1) (MakeFileName dbname n suffix)) =
      Some (n, if suffix = ''log'' then kLogFile else if suffix = ''dbtmp'' then kTempFile else kTableFile)"
    if "suffix = ''log'' \<or> suffix = ''ldb'' \<or> suffix = ''sst'' \<or> suffix = ''dbtmp''" for suffix
    unfolding d by (rule Parse_numbered [OF that])
  have fixed: "ParseFileName (str ''CURRENT'') = Some (0, kCurrentFile)" "ParseFileName (str ''LOCK'') = Some (0, kDBLockFile)"
    "ParseFileName (str ''LOG'') = Some (0, kInfoLogFile)" "ParseFileName (str ''LOG.old'') = Some (0, kInfoLogFile)"
    by (simp_all add: ParseFileName_def Slice_eq_iff str_def)
  have drops: "drop (length dbname + 1) (CurrentFileName dbname) = str ''CURRENT''" "drop (length dbname + 1) (LockFileName dbname) = str ''LOCK''"
    "drop (length dbname + 1) (InfoLogFileName dbname) = str ''LOG''" "drop (length dbname + 1) (OldInfoLogFileName dbname) = str ''LOG.old''"
    by (simp_all add: CurrentFileName_def LockFileName_def InfoLogFileName_def OldInfoLogFileName_def str_def)
  show ?thesis
    unfolding drops fixed man LogFileName_def TableFileName_def SSTTableFileName_def TempFileName_def
    using nums [of "''log''"] nums [of "''ldb''"] nums [of "''sst''"] nums [of "''dbtmp''"] by simp
qed

end
