(* ===== verification/VersionSet.thy ===== *)
theory VersionSet
  imports VersionBuilder Filename LogRoundtrip
begin

text \<open>
  db/version_set.cc: \<open>VersionSet\<close>, the chain of versions and the manifest. \<open>LogAndApply\<close> makes a new
  version from an edit and logs the edit, \<open>Recover\<close> replays the manifest.

  The environment is a record of operations on a state \<open>'e\<close> that holds all files; an open
  writable file is a handle \<open>'h\<close>, an open sequential file is a value \<open>'q\<close>. A version is known by a
  number; the list of live versions holds it with its reference count, the newest last. Scores
  are real numbers. The info log, the mutex, the statistics in \<open>files_extra_\<close> and assertions are left out.
\<close>

subsection \<open>The environment (include/leveldb/env.h, util/env.cc)\<close>

record ('h, 'q, 'e) DbEnv =
  io_NewWritableFile :: "slice \<Rightarrow> 'e \<Rightarrow> (status + 'h) \<times> 'e"
  io_NewAppendableFile :: "slice \<Rightarrow> 'e \<Rightarrow> (status + 'h) \<times> 'e"
  io_Append :: "'h \<Rightarrow> slice \<Rightarrow> 'e \<Rightarrow> status \<times> 'e"
  io_Flush :: "'h \<Rightarrow> 'e \<Rightarrow> status \<times> 'e"
  io_Sync :: "'h \<Rightarrow> 'e \<Rightarrow> status \<times> 'e"
  io_Close :: "'h \<Rightarrow> 'e \<Rightarrow> status \<times> 'e"
  io_NewSequentialFile :: "slice \<Rightarrow> 'e \<Rightarrow> status + 'q"
  io_Read :: "nat \<Rightarrow> 'q \<Rightarrow> (status + slice) \<times> 'q"
  io_Skip :: "nat \<Rightarrow> 'q \<Rightarrow> status \<times> 'q"
  io_GetFileSize :: "slice \<Rightarrow> 'e \<Rightarrow> status + nat"
  io_DeleteFile :: "slice \<Rightarrow> 'e \<Rightarrow> status \<times> 'e"
  io_RenameFile :: "slice \<Rightarrow> slice \<Rightarrow> 'e \<Rightarrow> status \<times> 'e"
  io_crc :: "u32 \<Rightarrow> slice \<Rightarrow> u32"

definition DoWriteStringToFile :: "('h, 'q, 'e) DbEnv \<Rightarrow> slice \<Rightarrow> slice \<Rightarrow> bool \<Rightarrow> 'e \<Rightarrow> status \<times> 'e" where
  "DoWriteStringToFile env data' fname should_sync e =
     (case io_NewWritableFile env fname e of
        (Inl s, e) \<Rightarrow> (s, e)
      | (Inr f, e) \<Rightarrow>
          let (s, e) = io_Append env f data' e;
              (s, e) = (if ok s \<and> should_sync then io_Sync env f e else (s, e));
              (s, e) = (if ok s then io_Close env f e else (s, e))
          in if \<not> ok s then (s, snd (io_DeleteFile env fname e)) else (s, e))"

definition WriteStringToFileSync :: "('h, 'q, 'e) DbEnv \<Rightarrow> slice \<Rightarrow> slice \<Rightarrow> 'e \<Rightarrow> status \<times> 'e" where
  "WriteStringToFileSync env data' fname e = DoWriteStringToFile env data' fname True e"

text \<open>The loop of \<open>ReadFileToString\<close> ends at an error or at an empty read.\<close>

partial_function (option) read_to_string ::
  "(nat \<Rightarrow> 'q \<Rightarrow> (status + slice) \<times> 'q) \<Rightarrow> 'q \<times> slice \<Rightarrow> (status \<times> slice) option" where
  "read_to_string rd st =
     (case rd 8192 (fst st) of
        (Inl s, q) \<Rightarrow> Some (s, snd st)
      | (Inr fragment, q) \<Rightarrow>
          if fragment = [] then Some (OK, snd st) else read_to_string rd (q, snd st @ fragment))"

definition ReadFileToString :: "('h, 'q, 'e) DbEnv \<Rightarrow> slice \<Rightarrow> 'e \<Rightarrow> (status \<times> slice) option" where
  "ReadFileToString env fname e =
     (case io_NewSequentialFile env fname e of
        Inl s \<Rightarrow> Some (s, [])
      | Inr q \<Rightarrow> read_to_string (io_Read env) (q, []))"

definition SetCurrentFile :: "('h, 'q, 'e) DbEnv \<Rightarrow> slice \<Rightarrow> u64 \<Rightarrow> 'e \<Rightarrow> status \<times> 'e" where
  "SetCurrentFile env dbname descriptor_number e =
     (let manifest = DescriptorFileName dbname descriptor_number;
          contents = remove_prefix (length dbname + 1) manifest;
          tmp = TempFileName dbname descriptor_number;
          (s, e) = WriteStringToFileSync env (contents @ [10]) tmp e;
          (s, e) = (if ok s then io_RenameFile env tmp (CurrentFileName dbname) e else (s, e))
      in if \<not> ok s then (s, snd (io_DeleteFile env tmp e)) else (s, e))"

subsection \<open>State\<close>

record VSOptions =
  o_max_file_size :: nat
  o_l0_base_ratio :: real
  o_size_ratio :: real
  o_reuse_logs :: bool
  o_force_delete_level0_file :: bool
  o_force_disable_compaction :: bool
  o_seek_compaction :: bool
  o_comparator_name :: slice

record 'h VersionSet =
  vs_heap :: fheap
  vs_next :: fptr
  vs_next_file_number :: u64
  vs_manifest_file_number :: u64
  vs_last_sequence :: u64
  vs_log_number :: u64
  vs_prev_log_number :: u64
  vs_descriptor :: "('h \<times> nat) option"
  vs_versions :: "(nat \<times> int \<times> Version) list"
  vs_fresh_version :: nat
  vs_compact_pointer :: "slice list"

definition vs_current :: "'h VersionSet \<Rightarrow> Version" where
  "vs_current vs = snd (snd (last (vs_versions vs)))"

subsection \<open>Versions\<close>

definition Version_Ref :: "nat \<Rightarrow> 'h VersionSet \<Rightarrow> 'h VersionSet" where
  "Version_Ref i vs = vs\<lparr>vs_versions := map (\<lambda>(j, n, v). (j, if j = i then n + 1 else n, v)) (vs_versions vs)\<rparr>"

text \<open>The last reference removes the version from the list.\<close>

definition Version_Unref :: "nat \<Rightarrow> 'h VersionSet \<Rightarrow> 'h VersionSet" where
  "Version_Unref i vs =
     vs\<lparr>vs_versions := filter (\<lambda>(j, n, v). \<not> (j = i \<and> n = 0))
         (map (\<lambda>(j, n, v). (j, if j = i then n - 1 else n, v)) (vs_versions vs))\<rparr>"

definition AppendVersion :: "Version \<Rightarrow> 'h VersionSet \<Rightarrow> 'h VersionSet" where
  "AppendVersion v vs =
     (let vs = (if vs_versions vs = [] then vs else Version_Unref (fst (last (vs_versions vs))) vs)
      in vs\<lparr>vs_versions := vs_versions vs @ [(vs_fresh_version vs, 1, v)], vs_fresh_version := vs_fresh_version vs + 1\<rparr>)"

definition new_VersionSet :: "'h VersionSet" where
  "new_VersionSet =
     AppendVersion new_Version
       \<lparr>vs_heap = (\<lambda>_. new_FileMetaData 0 0 [] []), vs_next = 0, vs_next_file_number = 2, vs_manifest_file_number = 0,
        vs_last_sequence = 0, vs_log_number = 0, vs_prev_log_number = 0, vs_descriptor = None, vs_versions = [],
        vs_fresh_version = 0, vs_compact_pointer = replicate kNumLevels []\<rparr>"

definition NewFileNumber :: "'h VersionSet \<Rightarrow> u64 \<times> 'h VersionSet" where
  "NewFileNumber vs = (vs_next_file_number vs, vs\<lparr>vs_next_file_number := vs_next_file_number vs + 1\<rparr>)"

definition ReuseFileNumber :: "u64 \<Rightarrow> 'h VersionSet \<Rightarrow> 'h VersionSet" where
  "ReuseFileNumber n vs = (if vs_next_file_number vs = n + 1 then vs\<lparr>vs_next_file_number := n\<rparr> else vs)"

definition MarkFileNumberUsed :: "u64 \<Rightarrow> 'h VersionSet \<Rightarrow> 'h VersionSet" where
  "MarkFileNumberUsed number vs =
     (if vs_next_file_number vs \<le> number then vs\<lparr>vs_next_file_number := number + 1\<rparr> else vs)"

definition NumLevelFiles :: "nat \<Rightarrow> 'h VersionSet \<Rightarrow> nat" where
  "NumLevelFiles level vs = length (v_files (vs_current vs) ! level)"

definition NumLevelBytes :: "nat \<Rightarrow> 'h VersionSet \<Rightarrow> nat" where
  "NumLevelBytes level vs = TotalFileSize (vs_heap vs) (v_files (vs_current vs) ! level)"

definition NeedsCompaction :: "'h VersionSet \<Rightarrow> bool" where
  "NeedsCompaction vs \<longleftrightarrow> v_compaction_score (vs_current vs) \<ge> 1 \<or> v_file_to_compact (vs_current vs) \<noteq> None"

definition AddLiveFiles :: "'h VersionSet \<Rightarrow> u64 set \<Rightarrow> u64 set" where
  "AddLiveFiles vs live =
     live \<union> (\<Union>(i, n, v)\<in>set (vs_versions vs). \<Union>files\<in>set (v_files v). (\<lambda>f. f_number (vs_heap vs f)) ` set files)"

subsection \<open>Finalize\<close>

fun MaxBytesForLevel :: "VSOptions \<Rightarrow> nat \<Rightarrow> real" where
  "MaxBytesForLevel opts level =
     (if level > 1 then MaxBytesForLevel opts (level - 1) * o_size_ratio opts
      else 10 * 1048576 * o_l0_base_ratio opts)"

declare MaxBytesForLevel.simps [simp del]

definition level_score :: "VSOptions \<Rightarrow> fheap \<Rightarrow> Version \<Rightarrow> nat \<Rightarrow> real" where
  "level_score opts h v level =
     (if level = 0 then real (length (v_files v ! 0)) / real kL0_CompactionTrigger
      else real (TotalFileSize h (v_files v ! level)) / MaxBytesForLevel opts level)"

definition Finalize :: "VSOptions \<Rightarrow> fheap \<Rightarrow> Version \<Rightarrow> Version" where
  "Finalize opts h v =
     (let (best_level, best_score) =
        foldl (\<lambda>(best_level, best_score) level.
          let score = level_score opts h v level
          in if score > best_score then (int level, score) else (best_level, best_score)) (-1, -1) [0..<kNumLevels - 1]
      in v\<lparr>v_compaction_level := best_level, v_compaction_score := best_score\<rparr>)"

subsection \<open>LogAndApply\<close>

definition snapshot_edit :: "VSOptions \<Rightarrow> 'h VersionSet \<Rightarrow> VersionEdit" where
  "snapshot_edit opts vs =
     (let e = new_VersionEdit\<lparr>ve_comparator := Some (o_comparator_name opts)\<rparr>;
          e = fold (\<lambda>level e. let cp = vs_compact_pointer vs ! level
                              in if cp \<noteq> [] then SetCompactPointer level cp e else e) [0..<kNumLevels] e
      in fold (\<lambda>level e. fold (\<lambda>f e. let fm = vs_heap vs f
              in VersionEdit_AddFile level (f_number fm) (f_file_size fm) (f_smallest fm) (f_largest fm) e)
            (v_files (vs_current vs) ! level) e) [0..<kNumLevels] e)"

definition log_record :: "('h, 'q, 'e) DbEnv \<Rightarrow> slice \<Rightarrow> 'h \<times> nat \<Rightarrow> 'e \<Rightarrow> status \<times> ('h \<times> nat) \<times> 'e" where
  "log_record env record' w e =
     (let (s, lw) = AddRecord (io_Append env (fst w)) (io_Flush env (fst w)) (io_crc env) record' \<lparr>lw_dest = e, lw_block_offset = snd w\<rparr>
      in (s, (fst w, lw_block_offset lw), lw_dest lw))"

definition WriteSnapshot ::
  "('h, 'q, 'e) DbEnv \<Rightarrow> VSOptions \<Rightarrow> 'h VersionSet \<Rightarrow> 'h \<times> nat \<Rightarrow> 'e \<Rightarrow> status \<times> ('h \<times> nat) \<times> 'e" where
  "WriteSnapshot env opts vs w e = log_record env (VersionEdit_EncodeTo (snapshot_edit opts vs) []) w e"

text \<open>The edit with the counters filled in.\<close>

definition complete_edit :: "'h VersionSet \<Rightarrow> VersionEdit \<Rightarrow> VersionEdit" where
  "complete_edit vs edit =
     edit\<lparr>ve_log_number := Some (case ve_log_number edit of None \<Rightarrow> vs_log_number vs | Some n \<Rightarrow> n),
       ve_prev_log_number := Some (case ve_prev_log_number edit of None \<Rightarrow> vs_prev_log_number vs | Some n \<Rightarrow> n),
       ve_next_file_number := Some (vs_next_file_number vs), ve_last_sequence := Some (vs_last_sequence vs)\<rparr>"

text \<open>The new descriptor log if there is none: the status, the log and whether it is new.\<close>

definition open_manifest ::
  "('h, 'q, 'e) DbEnv \<Rightarrow> VSOptions \<Rightarrow> slice \<Rightarrow> 'h VersionSet \<Rightarrow> 'e \<Rightarrow> status \<times> ('h \<times> nat) option \<times> 'e" where
  "open_manifest env opts dbname vs e =
     (case vs_descriptor vs of
        Some w \<Rightarrow> (OK, Some w, e)
      | None \<Rightarrow>
          (case io_NewWritableFile env (DescriptorFileName dbname (vs_manifest_file_number vs)) e of
             (Inl s, e) \<Rightarrow> (s, None, e)
           | (Inr h, e) \<Rightarrow> let (s, w, e) = WriteSnapshot env opts vs (h, 0) e in (s, Some w, e)))"

definition write_edit :: "('h, 'q, 'e) DbEnv \<Rightarrow> VersionEdit \<Rightarrow> status \<times> ('h \<times> nat) option \<times> 'e \<Rightarrow> status \<times> ('h \<times> nat) option \<times> 'e" where
  "write_edit env edit st =
     (case st of
        (s, Some w, e) \<Rightarrow>
          if ok s then
            let (s, w, e) = log_record env (VersionEdit_EncodeTo edit []) w e;
                (s, e) = (if ok s then io_Sync env (fst w) e else (s, e))
            in (s, Some w, e)
          else st
      | _ \<Rightarrow> st)"

definition LogAndApply ::
  "('h, 'q, 'e) DbEnv \<Rightarrow> VSOptions \<Rightarrow> (slice \<Rightarrow> slice \<Rightarrow> int) \<Rightarrow> slice \<Rightarrow> VersionEdit \<Rightarrow> 'h VersionSet \<Rightarrow> 'e \<Rightarrow>
   status \<times> 'h VersionSet \<times> 'e" where
  "LogAndApply env opts icmp dbname edit vs e =
     (let edit = complete_edit vs edit;
          b = Builder_Apply icmp edit (new_Builder (v_files (vs_current vs)) (vs_heap vs) (vs_next vs) (vs_compact_pointer vs));
          v = Finalize opts (b_heap b) (Builder_SaveTo icmp b new_Version);
          vs1 = vs\<lparr>vs_heap := b_heap b, vs_next := b_next b, vs_compact_pointer := b_compact_pointer b\<rparr>;
          new_manifest = (vs_descriptor vs = None);
          (s, w, e) = write_edit env edit (open_manifest env opts dbname vs1 e);
          (s, e) = (if ok s \<and> new_manifest then SetCurrentFile env dbname (vs_manifest_file_number vs) e else (s, e))
      in if ok s then
           (s, (AppendVersion v vs1)\<lparr>vs_descriptor := w, vs_log_number := the (ve_log_number edit),
                 vs_prev_log_number := the (ve_prev_log_number edit)\<rparr>, e)
         else if new_manifest then
           (s, vs1\<lparr>vs_descriptor := None\<rparr>, snd (io_DeleteFile env (DescriptorFileName dbname (vs_manifest_file_number vs)) e))
         else (s, vs1\<lparr>vs_descriptor := w\<rparr>, e))"

subsection \<open>Recover\<close>

record recover_state =
  rc_status :: status
  rc_builder :: Builder
  rc_log_number :: "u64 option"
  rc_prev_log_number :: "u64 option"
  rc_next_file :: "u64 option"
  rc_last_sequence :: "u64 option"

text \<open>The reporter keeps the first corruption that is reported while the status is OK.\<close>

definition note_reports :: "(u64 \<times> status) list \<Rightarrow> status \<Rightarrow> status" where
  "note_reports reports s = foldl (\<lambda>s r. if ok s then snd r else s) s reports"

text \<open>The body of the loop for one record. The fields are taken even if the edit was not applied.\<close>

definition recover_record :: "VSOptions \<Rightarrow> (slice \<Rightarrow> slice \<Rightarrow> int) \<Rightarrow> slice \<Rightarrow> recover_state \<Rightarrow> recover_state" where
  "recover_record opts icmp record' st =
     (let (s, edit) = VersionEdit_DecodeFrom record' new_VersionEdit;
          s = (if ok s then
                 (case ve_comparator edit of
                    Some c \<Rightarrow> if c \<noteq> o_comparator_name opts then InvalidArgument ''does not match existing comparator'' else s
                  | None \<Rightarrow> s)
               else s);
          keep = (\<lambda>old new. case new of None \<Rightarrow> old | Some x \<Rightarrow> Some x)
      in st\<lparr>rc_status := s, rc_builder := (if ok s then Builder_Apply icmp edit (rc_builder st) else rc_builder st),
           rc_log_number := keep (rc_log_number st) (ve_log_number edit),
           rc_prev_log_number := keep (rc_prev_log_number st) (ve_prev_log_number edit),
           rc_next_file := keep (rc_next_file st) (ve_next_file_number edit),
           rc_last_sequence := keep (rc_last_sequence st) (ve_last_sequence edit)\<rparr>)"

partial_function (option) recover_loop ::
  "('q LogReader \<Rightarrow> (slice option \<times> 'q LogReader) option) \<Rightarrow> (slice \<Rightarrow> recover_state \<Rightarrow> recover_state) \<Rightarrow>
   'q LogReader \<times> recover_state \<Rightarrow> recover_state option" where
  "recover_loop rr body st =
     Option.bind (rr (fst st)) (\<lambda>x.
       let rc = (snd st)\<lparr>rc_status := note_reports (drop (length (lr_reports (fst st))) (lr_reports (snd x))) (rc_status (snd st))\<rparr>
       in case fst x of
            None \<Rightarrow> Some rc
          | Some record' \<Rightarrow> if ok (rc_status rc) then recover_loop rr body (snd x, body record' rc) else Some rc)"

definition recover_checks :: "recover_state \<Rightarrow> status" where
  "recover_checks rc =
     (if \<not> ok (rc_status rc) then rc_status rc
      else if rc_next_file rc = None then Corruption ''no meta-nextfile entry in descriptor''
      else if rc_log_number rc = None then Corruption ''no meta-lognumber entry in descriptor''
      else if rc_last_sequence rc = None then Corruption ''no last-sequence-number entry in descriptor''
      else OK)"

definition the_or :: "u64 \<Rightarrow> u64 option \<Rightarrow> u64" where
  "the_or d x = (case x of None \<Rightarrow> d | Some y \<Rightarrow> y)"

definition ReuseManifest ::
  "('h, 'q, 'e) DbEnv \<Rightarrow> VSOptions \<Rightarrow> slice \<Rightarrow> slice \<Rightarrow> 'h VersionSet \<Rightarrow> 'e \<Rightarrow> bool \<times> 'h VersionSet \<times> 'e" where
  "ReuseManifest env opts dscname dscbase vs e =
     (if \<not> o_reuse_logs opts then (False, vs, e)
      else case ParseFileName dscbase of
             Some (manifest_number, kDescriptorFile) \<Rightarrow>
               (case io_GetFileSize env dscname e of
                  Inl _ \<Rightarrow> (False, vs, e)
                | Inr manifest_size \<Rightarrow>
                    if manifest_size \<ge> o_max_file_size opts then (False, vs, e)
                    else case io_NewAppendableFile env dscname e of
                           (Inl _, e) \<Rightarrow> (False, vs, e)
                         | (Inr h, e) \<Rightarrow> (True, vs\<lparr>vs_descriptor := Some (h, manifest_size mod log_kBlockSize),
                                                   vs_manifest_file_number := manifest_number\<rparr>, e))
           | _ \<Rightarrow> (False, vs, e))"

text \<open>\<open>save_manifest\<close> is returned with the status.\<close>

definition install_recovered ::
  "('h, 'q, 'e) DbEnv \<Rightarrow> VSOptions \<Rightarrow> (slice \<Rightarrow> slice \<Rightarrow> int) \<Rightarrow> slice \<Rightarrow> slice \<Rightarrow> recover_state \<Rightarrow> 'h VersionSet \<Rightarrow> 'e \<Rightarrow>
   (status \<times> bool) \<times> 'h VersionSet \<times> 'e" where
  "install_recovered env opts icmp dscname current rc vs e =
     (let s = recover_checks rc;
          vs = (if ok (rc_status rc)
                then MarkFileNumberUsed (the_or 0 (rc_log_number rc)) (MarkFileNumberUsed (the_or 0 (rc_prev_log_number rc)) vs)
                else vs);
          b = (if o_force_delete_level0_file opts then DeleteLevel0File (rc_builder rc) else rc_builder rc);
          save = o_force_delete_level0_file opts;
          vs = vs\<lparr>vs_heap := b_heap b, vs_next := b_next b, vs_compact_pointer := b_compact_pointer b\<rparr>
      in if ok s then
           let v = Finalize opts (b_heap b) (Builder_SaveTo icmp b new_Version);
               vs = (AppendVersion v vs)\<lparr>vs_manifest_file_number := the (rc_next_file rc),
                      vs_next_file_number := the (rc_next_file rc) + 1, vs_last_sequence := the (rc_last_sequence rc),
                      vs_log_number := the (rc_log_number rc), vs_prev_log_number := the_or 0 (rc_prev_log_number rc)\<rparr>;
               (reused, vs, e) = ReuseManifest env opts dscname current vs e
           in ((s, save \<or> \<not> reused), vs, e)
         else ((s, save), vs, e))"

definition Recover ::
  "('h, 'q, 'e) DbEnv \<Rightarrow> VSOptions \<Rightarrow> (slice \<Rightarrow> slice \<Rightarrow> int) \<Rightarrow> slice \<Rightarrow> 'h VersionSet \<Rightarrow> 'e \<Rightarrow>
   ((status \<times> bool) \<times> 'h VersionSet \<times> 'e) option" where
  "Recover env opts icmp dbname vs e =
     Option.bind (ReadFileToString env (CurrentFileName dbname) e) (\<lambda>(s, current).
       if \<not> ok s then Some ((s, False), vs, e)
       else if current = [] \<or> last current \<noteq> 10
       then Some ((Corruption ''CURRENT file does not end with newline'', False), vs, e)
       else
         let current = butlast current; dscname = dbname @ str ''/'' @ current in
         case io_NewSequentialFile env dscname e of
           Inl s \<Rightarrow>
             Some ((case s of NotFound m \<Rightarrow> Corruption (''CURRENT points to a non-existent file'' @ m) | _ \<Rightarrow> s, False), vs, e)
         | Inr q \<Rightarrow>
             Option.bind (recover_loop (ReadRecord (io_Read env) (io_Skip env) (io_crc env)) (recover_record opts icmp)
                 (new_LogReader q True True 0,
                  \<lparr>rc_status = OK, rc_builder = new_Builder (v_files (vs_current vs)) (vs_heap vs) (vs_next vs) (vs_compact_pointer vs),
                   rc_log_number = None, rc_prev_log_number = None, rc_next_file = None, rc_last_sequence = None\<rparr>))
               (\<lambda>rc. Some (install_recovered env opts icmp dscname current rc vs e)))"

end
