(* ===== verification/ManifestEdits.thy ===== *)
theory ManifestEdits
  imports VersionSet
begin

text \<open>
  The edits of a manifest: the snapshot that opens it describes the current version, an edit
  that was logged is decoded and applied by \<open>Recover\<close> as it was, and each call of \<open>LogAndApply\<close> has
  the abstract effect of its edit.
\<close>

subsection \<open>The snapshot\<close>

lemma snapshot_pointers:
  "fold (\<lambda>level e. let cp = p level in if cp \<noteq> [] then SetCompactPointer level cp e else e) ls e =
     e\<lparr>ve_compact_pointers := ve_compact_pointers e @ map (\<lambda>l. (l, p l)) (filter (\<lambda>l. p l \<noteq> []) ls)\<rparr>"
  by (induction ls arbitrary: e) (simp_all add: SetCompactPointer_def Let_def)

lemma snapshot_level:
  "fold (\<lambda>f e. let fm = h f in VersionEdit_AddFile level (f_number fm) (f_file_size fm) (f_smallest fm) (f_largest fm) e) fs e =
     e\<lparr>ve_new_files := ve_new_files e @
         map (\<lambda>f. (level, new_FileMetaData (f_number (h f)) (f_file_size (h f)) (f_smallest (h f)) (f_largest (h f)))) fs\<rparr>"
  by (induction fs arbitrary: e) (simp_all add: VersionEdit_AddFile_def Let_def)

lemma snapshot_levels:
  "fold (\<lambda>level e. e\<lparr>ve_new_files := ve_new_files e @ g level\<rparr>) ls e = e\<lparr>ve_new_files := ve_new_files e @ concat (map g ls)\<rparr>"
  by (induction ls arbitrary: e) simp_all

definition snapshot_files :: "fheap \<Rightarrow> fptr list list \<Rightarrow> (nat \<times> FileMetaData) list" where
  "snapshot_files h fss =
     concat (map (\<lambda>level. map (\<lambda>f. (level, new_FileMetaData (f_number (h f)) (f_file_size (h f)) (f_smallest (h f)) (f_largest (h f))))
       (fss ! level)) [0..<kNumLevels])"

lemma snapshot_edit_fields:
  "ve_new_files (snapshot_edit opts vs) = snapshot_files (vs_heap vs) (v_files (vs_current vs))"
  "ve_deleted_files (snapshot_edit opts vs) = []"
  "ve_comparator (snapshot_edit opts vs) = Some (o_comparator_name opts)"
  "ve_compact_pointers (snapshot_edit opts vs) =
     map (\<lambda>l. (l, vs_compact_pointer vs ! l)) (filter (\<lambda>l. vs_compact_pointer vs ! l \<noteq> []) [0..<kNumLevels])"
  unfolding snapshot_edit_def Let_def
  unfolding snapshot_level [unfolded Let_def] snapshot_pointers [unfolded Let_def] snapshot_levels
  by (simp_all add: snapshot_files_def new_VersionEdit_def)

lemma snapshot_files_mem:
  "(level, fm) \<in> set (snapshot_files h fss) \<longleftrightarrow> level < kNumLevels \<and>
     (\<exists>f\<in>set (fss ! level). fm = new_FileMetaData (f_number (h f)) (f_file_size (h f)) (f_smallest (h f)) (f_largest (h f)))"
  by (auto simp: snapshot_files_def)

lemma apply_snapshot: "apply_edit (snapshot_edit opts vs) (\<lambda>_. {}) = version_abs (vs_heap vs) (v_files (vs_current vs))"
proof
  fix level
  let ?fm = "\<lambda>m. new_FileMetaData (f_number m) (f_file_size m) (f_smallest m) (f_largest m)"
  have d: "file_desc (?fm m) = file_desc m" for m by (simp add: file_desc_def new_FileMetaData_def)
  have "apply_edit (snapshot_edit opts vs) (\<lambda>_. {}) level =
      {file_desc fm | fm. level < kNumLevels \<and> (\<exists>f\<in>set (v_files (vs_current vs) ! level). fm = ?fm (vs_heap vs f))}"
    by (simp add: apply_edit_def snapshot_edit_fields snapshot_files_mem)
  also have "\<dots> = (if level < kNumLevels then (\<lambda>f. file_desc (?fm (vs_heap vs f))) ` set (v_files (vs_current vs) ! level) else {})" by auto
  finally show "apply_edit (snapshot_edit opts vs) (\<lambda>_. {}) level = version_abs (vs_heap vs) (v_files (vs_current vs)) level"
    by (simp add: version_abs_def level_abs_def d)
qed

lemma new_numbers_snapshot:
  "new_numbers (snapshot_edit opts vs) =
     concat (map (\<lambda>l. map (Pair l) (map (\<lambda>f. f_number (vs_heap vs f)) (v_files (vs_current vs) ! l))) [0..<kNumLevels])"
  by (simp add: new_numbers_def snapshot_edit_fields snapshot_files_def map_concat comp_def new_FileMetaData_def)

lemma snapshot_numbers: "set (new_numbers (snapshot_edit opts vs)) = version_numbers (vs_heap vs) (v_files (vs_current vs))"
  by (auto simp: new_numbers_snapshot version_numbers_def)

lemma distinct_map_levels:
  "(\<And>l. l \<in> set ls \<Longrightarrow> distinct (g l)) \<Longrightarrow> distinct ls \<Longrightarrow> distinct (concat (map (\<lambda>l. map (Pair l) (g l)) ls))"
  by (induction ls) (auto simp: distinct_map inj_on_def)

definition key_bounds :: "'h VersionSet \<Rightarrow> bool" where
  "key_bounds vs \<longleftrightarrow> (\<forall>files\<in>set (v_files (vs_current vs)). \<forall>f\<in>set files. fits32 (f_smallest (vs_heap vs f)) \<and> fits32 (f_largest (vs_heap vs f))) \<and>
     length (vs_compact_pointer vs) = kNumLevels \<and> (\<forall>k\<in>set (vs_compact_pointer vs). fits32 k)"

lemma snapshot_edit_ok:
  assumes "key_bounds vs" "length (v_files (vs_current vs)) = kNumLevels" "fits32 (o_comparator_name opts)"
  shows "edit_ok (snapshot_edit opts vs)"
proof -
  have "fits32 (f_smallest fm) \<and> fits32 (f_largest fm) \<and> fm = new_FileMetaData (f_number fm) (f_file_size fm) (f_smallest fm) (f_largest fm)"
    if m: "(level, fm) \<in> set (snapshot_files (vs_heap vs) (v_files (vs_current vs)))" for level fm
  proof -
    obtain f where f: "level < kNumLevels" "f \<in> set (v_files (vs_current vs) ! level)"
      "fm = new_FileMetaData (f_number (vs_heap vs f)) (f_file_size (vs_heap vs f)) (f_smallest (vs_heap vs f)) (f_largest (vs_heap vs f))"
      using m by (auto simp: snapshot_files_mem)
    then have "v_files (vs_current vs) ! level \<in> set (v_files (vs_current vs))" using assms(2) by simp
    then show ?thesis using f assms(1) by (auto simp: key_bounds_def new_FileMetaData_def)
  qed
  moreover have "level < kNumLevels" if "(level, fm) \<in> set (snapshot_files (vs_heap vs) (v_files (vs_current vs)))" for level fm
    using that by (simp add: snapshot_files_mem)
  ultimately show ?thesis
    using assms(1,3) unfolding edit_ok_def snapshot_edit_fields by (fastforce simp: key_bounds_def)
qed

lemma snapshot_levels_ok:
  assumes "version_ok icmp (vs_heap vs) n (v_files (vs_current vs))"
  shows "edit_levels (snapshot_edit opts vs)"
proof -
  have "ikey_wf (f_smallest (vs_heap vs f))" if "level < kNumLevels" "f \<in> set (v_files (vs_current vs) ! level)" for level f
    using assms that by (auto simp: version_ok_def)
  then show ?thesis by (auto simp: edit_levels_def snapshot_edit_fields snapshot_files_mem new_FileMetaData_def)
qed

context user_comparator
begin

lemma BySmallestKey_irrefl: "ikey_wf (f_smallest (h f)) \<Longrightarrow> \<not> BySmallestKey icmp h f f"
  using internal.cmp_zero [of "f_smallest (h f)" "f_smallest (h f)"] by (simp add: BySmallestKey_def)

lemma version_ok_distinct:
  assumes "version_ok icmp h n fss" "files \<in> set fss"
  shows "distinct files"
proof -
  have "sorted_wrt (BySmallestKey icmp h) files" and wf: "\<forall>f\<in>set files. ikey_wf (f_smallest (h f))"
    using assms by (auto simp: version_ok_def)
  then show ?thesis
  proof (induction files)
    case (Cons f files)
    then show ?case using BySmallestKey_irrefl [of h f] by auto
  qed simp
qed

lemma snapshot_distinct:
  assumes "version_ok icmp (vs_heap vs) n (v_files (vs_current vs))"
  shows "distinct (new_numbers (snapshot_edit opts vs))"
proof -
  let ?fss = "v_files (vs_current vs)"
  have "distinct (map (\<lambda>f. f_number (vs_heap vs f)) (?fss ! l))" if "l < kNumLevels" for l
  proof -
    have "?fss ! l \<in> set ?fss" using assms that by (simp add: version_ok_def)
    then show ?thesis using version_ok_distinct [OF assms] assms by (auto simp: distinct_map version_ok_def)
  qed
  then show ?thesis
    using distinct_map_levels [of "[0..<kNumLevels]" "\<lambda>l. map (\<lambda>f. f_number (vs_heap vs f)) (?fss ! l)"] by (simp add: new_numbers_snapshot)
qed

end

subsection \<open>What the builder leaves alone\<close>

lemma apply_new_heap: "f < b_next b \<Longrightarrow> b_heap (apply_new icmp p b) f = b_heap b f" "b_next b \<le> b_next (apply_new icmp p b)"
  "b_compact_pointer (apply_new icmp p b) = b_compact_pointer b"
  by (simp_all add: apply_new_def Let_def)

lemma apply_news_heap:
  "(f < b_next b \<longrightarrow> b_heap (fold (apply_new icmp) ps b) f = b_heap b f) \<and> b_next b \<le> b_next (fold (apply_new icmp) ps b) \<and>
   b_compact_pointer (fold (apply_new icmp) ps b) = b_compact_pointer b"
proof (induction ps arbitrary: b)
  case (Cons p ps)
  show ?case using Cons [of "apply_new icmp p b"] apply_new_heap(1) [of f b icmp p] apply_new_heap(2) [of b icmp p] apply_new_heap(3) [of icmp p b] by auto
qed simp

lemma Apply_heap:
  "f < b_next b \<Longrightarrow> b_heap (Builder_Apply icmp e b) f = b_heap b f" "b_next b \<le> b_next (Builder_Apply icmp e b)"
  "b_compact_pointer (Builder_Apply icmp e b) = fold (\<lambda>(level, key) cp. cp[level := key]) (ve_compact_pointers e) (b_compact_pointer b)"
proof -
  let ?b = "b\<lparr>b_compact_pointer := fold (\<lambda>(level, key) cp. cp[level := key]) (ve_compact_pointers e) (b_compact_pointer b),
      b_levels := fold apply_delete (ve_deleted_files e) (b_levels b)\<rparr>"
  have "Builder_Apply icmp e b = fold (apply_new icmp) (ve_new_files e) ?b" by (simp add: Builder_Apply_def)
  then show "f < b_next b \<Longrightarrow> b_heap (Builder_Apply icmp e b) f = b_heap b f" "b_next b \<le> b_next (Builder_Apply icmp e b)"
    "b_compact_pointer (Builder_Apply icmp e b) = fold (\<lambda>(level, key) cp. cp[level := key]) (ve_compact_pointers e) (b_compact_pointer b)"
    using apply_news_heap [of f ?b icmp "ve_new_files e"] by simp_all
qed

lemma pointers_fit:
  "\<forall>p\<in>set ps. fst p < kNumLevels \<and> fits32 (snd p) \<Longrightarrow> length cp = kNumLevels \<Longrightarrow> \<forall>k\<in>set cp. fits32 k \<Longrightarrow>
   length (fold (\<lambda>(level, key) cp. cp[level := key]) ps cp) = kNumLevels \<and>
   (\<forall>k\<in>set (fold (\<lambda>(level, key) cp. cp[level := key]) ps cp). fits32 k)"
proof (induction ps arbitrary: cp)
  case (Cons p ps)
  have "\<forall>k\<in>set (cp[fst p := snd p]). fits32 k"
    using Cons.prems set_update_subset_insert [of cp "fst p" "snd p"] by auto
  then show ?case using Cons.IH [of "cp[fst p := snd p]"] Cons.prems by (simp add: split_beta)
qed simp

subsection \<open>Edits as they are logged\<close>

lemma complete_edit_fields:
  "ve_new_files (complete_edit vs e) = ve_new_files e" "ve_deleted_files (complete_edit vs e) = ve_deleted_files e"
  "ve_comparator (complete_edit vs e) = ve_comparator e" "ve_compact_pointers (complete_edit vs e) = ve_compact_pointers e"
  by (simp_all add: complete_edit_def)

lemma complete_edit_same:
  "apply_edit (complete_edit vs e) = apply_edit e" "new_numbers (complete_edit vs e) = new_numbers e"
  "edit_ok (complete_edit vs e) = edit_ok e" "edit_levels (complete_edit vs e) = edit_levels e"
  by (simp_all add: apply_edit_def [abs_def] new_numbers_def edit_ok_def edit_levels_def complete_edit_fields)

subsection \<open>Replaying edits\<close>

definition comparator_matches :: "VSOptions \<Rightarrow> VersionEdit \<Rightarrow> bool" where
  "comparator_matches opts e \<longleftrightarrow> ve_comparator e = None \<or> ve_comparator e = Some (o_comparator_name opts)"

lemma recover_record_edit:
  assumes "edit_ok e" "comparator_matches opts e"
  shows "recover_record opts icmp (VersionEdit_EncodeTo e []) st =
    st\<lparr>rc_status := OK, rc_builder := Builder_Apply icmp e (rc_builder st),
       rc_log_number := (case ve_log_number e of None \<Rightarrow> rc_log_number st | Some x \<Rightarrow> Some x),
       rc_prev_log_number := (case ve_prev_log_number e of None \<Rightarrow> rc_prev_log_number st | Some x \<Rightarrow> Some x),
       rc_next_file := (case ve_next_file_number e of None \<Rightarrow> rc_next_file st | Some x \<Rightarrow> Some x),
       rc_last_sequence := (case ve_last_sequence e of None \<Rightarrow> rc_last_sequence st | Some x \<Rightarrow> Some x)\<rparr>"
proof -
  have "VersionEdit_DecodeFrom (VersionEdit_EncodeTo e []) new_VersionEdit = (OK, e)"
    using decode_encode [OF assms(1), of new_VersionEdit] by (simp add: new_VersionEdit_def)
  then show ?thesis using assms(2) by (auto simp: recover_record_def comparator_matches_def split: option.splits)
qed

lemma recover_records:
  assumes "\<forall>e\<in>set es. edit_ok e \<and> comparator_matches opts e" "rc_status st = OK"
  shows "rc_status (fold (recover_record opts icmp) (map (\<lambda>e. VersionEdit_EncodeTo e []) es) st) = OK"
    "rc_builder (fold (recover_record opts icmp) (map (\<lambda>e. VersionEdit_EncodeTo e []) es) st) = fold (Builder_Apply icmp) es (rc_builder st)"
  using assms by (induction es arbitrary: st) (simp_all add: recover_record_edit)

lemma recover_last:
  assumes "edit_ok e" "comparator_matches opts e" "ve_log_number e = Some l" "ve_prev_log_number e = Some p"
    "ve_next_file_number e = Some n" "ve_last_sequence e = Some q"
  shows "rc_log_number (recover_record opts icmp (VersionEdit_EncodeTo e []) st) = Some l"
    "rc_prev_log_number (recover_record opts icmp (VersionEdit_EncodeTo e []) st) = Some p"
    "rc_next_file (recover_record opts icmp (VersionEdit_EncodeTo e []) st) = Some n"
    "rc_last_sequence (recover_record opts icmp (VersionEdit_EncodeTo e []) st) = Some q"
  using assms by (simp_all add: recover_record_edit)

lemma recover_loop_reads:
  assumes "reads rr ds r" "rc_status rc = OK" "\<And>j. rc_status (fold body (take j ds) rc) = OK"
  shows "recover_loop rr body (r, rc) = Some (fold body ds rc)"
  using assms
proof (induction ds arbitrary: r rc)
  case Nil
  then obtain r' where "rr r = Some (None, r')" "lr_reports r' = lr_reports r" by auto
  then show ?case using Nil.prems(2) by (subst recover_loop.simps) (cases rc, simp add: note_reports_def)
next
  case (Cons d ds)
  then obtain r' where r': "rr r = Some (Some d, r')" "lr_reports r' = lr_reports r" "reads rr ds r'" by auto
  have rc: "rc\<lparr>rc_status := note_reports [] (rc_status rc)\<rparr> = rc" by (cases rc) (simp add: note_reports_def)
  have st: "rc_status (body d rc) = OK" using Cons.prems(3) [of 1] by simp
  have "rc_status (fold body (take j ds) (body d rc)) = OK" for j using Cons.prems(3) [of "Suc j"] by simp
  from Cons.IH [OF r'(3) st this] show ?case
    using r' rc Cons.prems(2) by (subst recover_loop.simps) simp
qed

subsection \<open>The state after LogAndApply\<close>

lemma AppendVersion_fields [simp]:
  "vs_current (AppendVersion v vs) = v" "vs_heap (AppendVersion v vs) = vs_heap vs" "vs_next (AppendVersion v vs) = vs_next vs"
  "vs_next_file_number (AppendVersion v vs) = vs_next_file_number vs" "vs_last_sequence (AppendVersion v vs) = vs_last_sequence vs"
  "vs_manifest_file_number (AppendVersion v vs) = vs_manifest_file_number vs"
  "vs_compact_pointer (AppendVersion v vs) = vs_compact_pointer vs"
  "vs_log_number (AppendVersion v vs) = vs_log_number vs" "vs_prev_log_number (AppendVersion v vs) = vs_prev_log_number vs"
  by (simp_all add: AppendVersion_def vs_current_def Version_Unref_def Let_def)

lemma Finalize_files [simp]: "v_files (Finalize opts h v) = v_files v"
  by (simp add: Finalize_def split_beta)

definition edit_builder :: "(slice \<Rightarrow> slice \<Rightarrow> int) \<Rightarrow> VersionEdit \<Rightarrow> 'h VersionSet \<Rightarrow> Builder" where
  "edit_builder icmp edit vs = Builder_Apply icmp (complete_edit vs edit)
     (new_Builder (v_files (vs_current vs)) (vs_heap vs) (vs_next vs) (vs_compact_pointer vs))"

definition built_vs :: "Builder \<Rightarrow> 'h VersionSet \<Rightarrow> 'h VersionSet" where
  "built_vs b vs = vs\<lparr>vs_heap := b_heap b, vs_next := b_next b, vs_compact_pointer := b_compact_pointer b\<rparr>"

definition logged_vs :: "VSOptions \<Rightarrow> (slice \<Rightarrow> slice \<Rightarrow> int) \<Rightarrow> VersionEdit \<Rightarrow> ('h \<times> nat) option \<Rightarrow> 'h VersionSet \<Rightarrow> 'h VersionSet" where
  "logged_vs opts icmp edit w vs =
     (let b = edit_builder icmp edit vs
      in (AppendVersion (Finalize opts (b_heap b) (Builder_SaveTo icmp b new_Version)) (built_vs b vs))\<lparr>vs_descriptor := w,
           vs_log_number := the (ve_log_number (complete_edit vs edit)), vs_prev_log_number := the (ve_prev_log_number (complete_edit vs edit))\<rparr>)"

lemma LogAndApply_ok:
  assumes "write_edit env (complete_edit vs edit) (open_manifest env opts dbname (built_vs (edit_builder icmp edit vs) vs) e) = (OK, w, e1)"
    "(if vs_descriptor vs = None then SetCurrentFile env dbname (vs_manifest_file_number vs) e1 else (OK, e1)) = (OK, e2)"
  shows "LogAndApply env opts icmp dbname edit vs e = (OK, logged_vs opts icmp edit w vs, e2)"
  using assms unfolding LogAndApply_def edit_builder_def built_vs_def logged_vs_def Let_def by (auto split: if_splits)

lemma vs_current_upd [simp]:
  "vs_current (vs\<lparr>vs_descriptor := w\<rparr>) = vs_current vs" "vs_current (vs\<lparr>vs_log_number := l\<rparr>) = vs_current vs"
  "vs_current (vs\<lparr>vs_prev_log_number := l\<rparr>) = vs_current vs" "vs_current (vs\<lparr>vs_next_file_number := l\<rparr>) = vs_current vs"
  "vs_current (vs\<lparr>vs_last_sequence := l\<rparr>) = vs_current vs" "vs_current (vs\<lparr>vs_manifest_file_number := l\<rparr>) = vs_current vs"
  "vs_current (built_vs b vs) = vs_current vs"
  by (simp_all add: vs_current_def built_vs_def)

lemma built_vs_fields [simp]:
  "vs_heap (built_vs b vs) = b_heap b" "vs_next (built_vs b vs) = b_next b" "vs_compact_pointer (built_vs b vs) = b_compact_pointer b"
  "vs_descriptor (built_vs b vs) = vs_descriptor vs" "vs_manifest_file_number (built_vs b vs) = vs_manifest_file_number vs"
  "vs_next_file_number (built_vs b vs) = vs_next_file_number vs" "vs_last_sequence (built_vs b vs) = vs_last_sequence vs"
  by (simp_all add: built_vs_def)

text \<open>A version set whose current version is well-formed; \<open>used\<close> includes its file numbers.\<close>

definition vs_ok :: "(slice \<Rightarrow> slice \<Rightarrow> int) \<Rightarrow> (nat \<times> u64) set \<Rightarrow> 'h VersionSet \<Rightarrow> bool" where
  "vs_ok icmp used vs \<longleftrightarrow> version_ok icmp (vs_heap vs) (vs_next vs) (v_files (vs_current vs)) \<and>
     version_numbers (vs_heap vs) (v_files (vs_current vs)) \<subseteq> used"

definition vs_abs :: "'h VersionSet \<Rightarrow> nat \<Rightarrow> file_desc set" where
  "vs_abs vs = version_abs (vs_heap vs) (v_files (vs_current vs))"

lemma logged_vs_numbers:
  "vs_last_sequence (logged_vs opts icmp edit w vs) = vs_last_sequence vs"
  "vs_next_file_number (logged_vs opts icmp edit w vs) = vs_next_file_number vs"
  "vs_manifest_file_number (logged_vs opts icmp edit w vs) = vs_manifest_file_number vs"
  "vs_descriptor (logged_vs opts icmp edit w vs) = w"
  "ve_log_number (complete_edit vs edit) = Some (vs_log_number (logged_vs opts icmp edit w vs))"
  "ve_prev_log_number (complete_edit vs edit) = Some (vs_prev_log_number (logged_vs opts icmp edit w vs))"
  "ve_next_file_number (complete_edit vs edit) = Some (vs_next_file_number vs)"
  "ve_last_sequence (complete_edit vs edit) = Some (vs_last_sequence vs)"
  by (simp_all add: logged_vs_def complete_edit_def Let_def)

text \<open>The files of the current version are the same while the builder works.\<close>

lemma edit_builder_frame:
  assumes "version_ok icmp (vs_heap vs) (vs_next vs) (v_files (vs_current vs))"
  shows "version_abs (b_heap (edit_builder icmp edit vs)) (v_files (vs_current vs)) = vs_abs vs"
    "version_numbers (b_heap (edit_builder icmp edit vs)) (v_files (vs_current vs)) = version_numbers (vs_heap vs) (v_files (vs_current vs))"
    "version_ok icmp (b_heap (edit_builder icmp edit vs)) (b_next (edit_builder icmp edit vs)) (v_files (vs_current vs))"
    "key_bounds vs \<Longrightarrow> edit_ok edit \<Longrightarrow> key_bounds (built_vs (edit_builder icmp edit vs) vs)"
proof -
  let ?b = "edit_builder icmp edit vs" let ?fss = "v_files (vs_current vs)"
  have nx: "vs_next vs \<le> b_next ?b" using Apply_heap(2) unfolding edit_builder_def new_Builder_def by (metis Builder.select_convs(4))
  have h: "b_heap ?b f = vs_heap vs f" if "f < vs_next vs" for f
    using that Apply_heap(1) [of f "new_Builder ?fss (vs_heap vs) (vs_next vs) (vs_compact_pointer vs)"]
    by (simp add: edit_builder_def new_Builder_def)
  have mem: "b_heap ?b f = vs_heap vs f" if "files \<in> set ?fss" "f \<in> set files" for files f
    using assms that h by (auto simp: version_ok_def)
  have same: "b_heap ?b f = vs_heap vs f" if "level < kNumLevels" "f \<in> set (?fss ! level)" for level f
    using mem [OF nth_mem that(2)] assms that(1) by (simp add: version_ok_def)
  show "version_abs (b_heap ?b) ?fss = vs_abs vs"
    using same by (auto simp: version_abs_def level_abs_def vs_abs_def fun_eq_iff image_iff)
  show "version_numbers (b_heap ?b) ?fss = version_numbers (vs_heap vs) ?fss"
    unfolding version_numbers_def using same by (intro SUP_cong image_cong) simp_all
  show "version_ok icmp (b_heap ?b) (b_next ?b) ?fss"
    unfolding version_ok_def
  proof (intro conjI ballI)
    show "length ?fss = kNumLevels" using assms by (simp add: version_ok_def)
    fix files assume f: "files \<in> set ?fss"
    have ok: "\<forall>f\<in>set files. f < vs_next vs \<and> ikey_wf (f_smallest (vs_heap vs f))"
      "inj_on (\<lambda>f. f_number (vs_heap vs f)) (set files)" "sorted_wrt (BySmallestKey icmp (vs_heap vs)) files"
      using assms f by (auto simp: version_ok_def)
    show "x < b_next ?b" "ikey_wf (f_smallest (b_heap ?b x))" if "x \<in> set files" for x
      using ok(1) that nx mem [OF f that] by auto
    show "inj_on (\<lambda>f. f_number (b_heap ?b f)) (set files)" using ok(2) mem [OF f] by (auto simp: inj_on_def)
    show "sorted_wrt (BySmallestKey icmp (b_heap ?b)) files"
      by (rule sorted_wrt_mono_rel [OF _ ok(3)]) (simp only: BySmallestKey_def mem [OF f])
  qed
  assume kb: "key_bounds vs" and ed: "edit_ok edit"
  have "b_compact_pointer ?b = fold (\<lambda>(level, key) cp. cp[level := key]) (ve_compact_pointers edit) (vs_compact_pointer vs)"
    unfolding edit_builder_def Apply_heap(3) complete_edit_fields by (simp add: new_Builder_def)
  then show "key_bounds (built_vs ?b vs)"
    using kb ed mem pointers_fit [of "ve_compact_pointers edit" "vs_compact_pointer vs"] by (simp add: key_bounds_def edit_ok_def)
qed

lemma fresh_numbers_mono: "fresh_numbers used es \<Longrightarrow> used' \<subseteq> used \<Longrightarrow> fresh_numbers used' es"
proof (induction es arbitrary: used used')
  case (Cons e es)
  then show ?case using Cons.IH [of "used \<union> set (new_numbers e)" "used' \<union> set (new_numbers e)"] by auto
qed simp

context user_comparator
begin

lemma logged_vs_ok:
  assumes ok: "vs_ok icmp used vs" and e: "edit_levels edit" "distinct (new_numbers edit)" "set (new_numbers edit) \<inter> used = {}"
  shows "vs_ok icmp (used \<union> set (new_numbers edit)) (logged_vs opts icmp edit w vs)"
    "vs_abs (logged_vs opts icmp edit w vs) = apply_edit edit (vs_abs vs)"
proof -
  let ?fss = "v_files (vs_current vs)" let ?b = "edit_builder icmp edit vs"
  have "builder_rel icmp (version_numbers (vs_heap vs) ?fss) (vs_abs vs) (new_Builder ?fss (vs_heap vs) (vs_next vs) (vs_compact_pointer vs))"
    using new_Builder_rel ok by (simp add: vs_ok_def vs_abs_def)
  from Apply_rel [OF this, of "complete_edit vs edit"] e ok
  have rel: "builder_rel icmp (version_numbers (vs_heap vs) ?fss \<union> set (new_numbers edit)) (apply_edit edit (vs_abs vs)) ?b"
    by (auto simp: complete_edit_same edit_builder_def vs_ok_def)
  have "apply_edit edit (vs_abs vs) level = {}" if "kNumLevels \<le> level" for level
    using apply_edit_beyond [OF e(1) _ that] that by (simp add: vs_abs_def version_abs_def)
  note S = SaveTo_version_ok [OF rel this refl]
  show "vs_ok icmp (used \<union> set (new_numbers edit)) (logged_vs opts icmp edit w vs)"
    using S(1,3) ok by (auto simp: vs_ok_def logged_vs_def Let_def)
  show "vs_abs (logged_vs opts icmp edit w vs) = apply_edit edit (vs_abs vs)"
    using S(2) by (simp add: vs_abs_def logged_vs_def Let_def)
qed

end

subsection \<open>Runs of LogAndApply\<close>

text \<open>
  A step: the next file number and the last sequence number that the database has reached, and the edit to log.
  A run stops at the first error.
\<close>

type_synonym edit_step = "u64 \<times> u64 \<times> VersionEdit"

abbreviation bytewise_icmp :: "slice \<Rightarrow> slice \<Rightarrow> int" where
  "bytewise_icmp \<equiv> InternalKey_Compare Bytewise_Compare"

definition set_counters :: "u64 \<Rightarrow> u64 \<Rightarrow> 'h VersionSet \<Rightarrow> 'h VersionSet" where
  "set_counters n q vs = vs\<lparr>vs_next_file_number := n, vs_last_sequence := q\<rparr>"

fun log_edits ::
  "('h, 'q, 'e) DbEnv \<Rightarrow> VSOptions \<Rightarrow> (slice \<Rightarrow> slice \<Rightarrow> int) \<Rightarrow> slice \<Rightarrow> edit_step list \<Rightarrow> 'h VersionSet \<Rightarrow> 'e \<Rightarrow>
   status \<times> 'h VersionSet \<times> 'e" where
  "log_edits env opts icmp dbname [] vs e = (OK, vs, e)"
| "log_edits env opts icmp dbname ((n, q, edit) # steps) vs e =
     (case LogAndApply env opts icmp dbname edit (set_counters n q vs) e of
        (s, vs, e) \<Rightarrow> if ok s then log_edits env opts icmp dbname steps vs e else (s, vs, e))"

definition step_edits :: "edit_step list \<Rightarrow> VersionEdit list" where
  "step_edits steps = map (\<lambda>(n, q, edit). edit) steps"

text \<open>The edits as the steps log them, from a log number and a previous log number on.\<close>

definition complete_with :: "u64 \<Rightarrow> u64 \<Rightarrow> edit_step \<Rightarrow> VersionEdit" where
  "complete_with l p st = (case st of (n, q, edit) \<Rightarrow>
     edit\<lparr>ve_log_number := Some (the_or l (ve_log_number edit)), ve_prev_log_number := Some (the_or p (ve_prev_log_number edit)),
       ve_next_file_number := Some n, ve_last_sequence := Some q\<rparr>)"

fun logged :: "u64 \<Rightarrow> u64 \<Rightarrow> edit_step list \<Rightarrow> VersionEdit list" where
  "logged l p [] = []"
| "logged l p (st # steps) =
     complete_with l p st # logged (the (ve_log_number (complete_with l p st))) (the (ve_prev_log_number (complete_with l p st))) steps"

definition last_numbers :: "VersionEdit \<Rightarrow> 'h VersionSet \<Rightarrow> bool" where
  "last_numbers e vs \<longleftrightarrow> ve_log_number e = Some (vs_log_number vs) \<and> ve_prev_log_number e = Some (vs_prev_log_number vs) \<and>
     ve_next_file_number e = Some (vs_next_file_number vs) \<and> ve_last_sequence e = Some (vs_last_sequence vs)"

lemma complete_edit_with:
  "complete_edit (set_counters n q vs) edit = complete_with (vs_log_number vs) (vs_prev_log_number vs) (n, q, edit)"
  by (cases "ve_log_number edit"; cases "ve_prev_log_number edit")
    (simp_all add: complete_edit_def complete_with_def set_counters_def the_or_def)

lemma complete_with_same:
  "apply_edit (complete_with l p st) = apply_edit (snd (snd st))" "new_numbers (complete_with l p st) = new_numbers (snd (snd st))"
  "edit_ok (complete_with l p st) = edit_ok (snd (snd st))" "edit_levels (complete_with l p st) = edit_levels (snd (snd st))"
  "comparator_matches opts (complete_with l p st) = comparator_matches opts (snd (snd st))"
  by (simp_all add: apply_edit_def [abs_def] new_numbers_def edit_ok_def edit_levels_def comparator_matches_def complete_with_def split_beta)

lemma logged_take: "logged l p (take k steps) = take k (logged l p steps)"
  by (induction l p steps arbitrary: k rule: logged.induct) (auto simp: take_Cons split: nat.splits)

lemma length_logged [simp]: "length (logged l p steps) = length steps"
  by (induction l p steps rule: logged.induct) simp_all

lemma fold_logged: "fold apply_edit (logged l p steps) A = fold apply_edit (step_edits steps) A"
  by (induction l p steps arbitrary: A rule: logged.induct) (simp_all add: complete_with_same step_edits_def split_beta)

lemma fresh_logged: "fresh_numbers used (logged l p steps) = fresh_numbers used (step_edits steps)"
  by (induction l p steps arbitrary: used rule: logged.induct) (simp_all add: complete_with_same step_edits_def split_beta)

lemma logged_all:
  "(\<And>l p st. P (complete_with l p st) = P (snd (snd st))) \<Longrightarrow> (\<forall>e\<in>set (logged l p steps). P e) = (\<forall>e\<in>set (step_edits steps). P e)"
  by (induction l p steps rule: logged.induct) (simp_all add: step_edits_def split_beta)

lemma step_edits_take: "step_edits (take k steps) = take k (step_edits steps)"
  by (simp add: step_edits_def take_map)

text \<open>The snapshot that the first step of a run writes.\<close>

definition run_snapshot :: "VSOptions \<Rightarrow> edit_step list \<Rightarrow> 'h VersionSet \<Rightarrow> VersionEdit" where
  "run_snapshot opts steps vs = (case hd steps of (n, q, edit) \<Rightarrow>
     snapshot_edit opts (built_vs (edit_builder bytewise_icmp edit (set_counters n q vs)) (set_counters n q vs)))"

lemma fresh_take: "fresh_numbers used es \<Longrightarrow> fresh_numbers used (take k es)"
  by (induction used es arbitrary: k rule: fresh_numbers.induct) (auto simp: take_Cons split: nat.splits)

lemma set_counters_fields [simp]:
  "vs_current (set_counters n q vs) = vs_current vs" "vs_heap (set_counters n q vs) = vs_heap vs" "vs_next (set_counters n q vs) = vs_next vs"
  "vs_manifest_file_number (set_counters n q vs) = vs_manifest_file_number vs" "vs_descriptor (set_counters n q vs) = vs_descriptor vs"
  "vs_compact_pointer (set_counters n q vs) = vs_compact_pointer vs"
  by (simp_all add: set_counters_def vs_current_def)

lemma set_counters_same [simp]:
  "vs_ok icmp used (set_counters n q vs) = vs_ok icmp used vs" "vs_abs (set_counters n q vs) = vs_abs vs"
  "key_bounds (set_counters n q vs) = key_bounds vs"
  by (simp_all add: vs_ok_def vs_abs_def key_bounds_def)

lemma run_snapshot_ok:
  assumes vs: "vs_ok bytewise_icmp used vs" "key_bounds vs" and opts: "fits32 (o_comparator_name opts)"
    and steps: "steps \<noteq> []" "\<forall>edit\<in>set (step_edits steps). edit_ok edit"
  shows "edit_ok (run_snapshot opts steps vs) \<and> comparator_matches opts (run_snapshot opts steps vs) \<and> edit_levels (run_snapshot opts steps vs)"
    "distinct (new_numbers (run_snapshot opts steps vs))" "set (new_numbers (run_snapshot opts steps vs)) \<subseteq> used"
    "apply_edit (run_snapshot opts steps vs) (\<lambda>_. {}) = vs_abs vs"
proof -
  obtain n q edit steps' where st: "steps = (n, q, edit) # steps'" using steps(1) by (cases steps) auto
  let ?vs = "set_counters n q vs"
  have vok: "version_ok bytewise_icmp (vs_heap ?vs) (vs_next ?vs) (v_files (vs_current ?vs))" using vs(1) by (simp add: vs_ok_def)
  note F = edit_builder_frame [OF vok, of edit]
  have snap: "run_snapshot opts steps vs = snapshot_edit opts (built_vs (edit_builder bytewise_icmp edit ?vs) ?vs)"
    by (simp add: run_snapshot_def st)
  have "edit_ok edit" using steps(2) by (simp add: st step_edits_def)
  then show "edit_ok (run_snapshot opts steps vs) \<and> comparator_matches opts (run_snapshot opts steps vs) \<and> edit_levels (run_snapshot opts steps vs)"
    unfolding snap using F(4) vs(2) opts vok snapshot_levels_ok [of bytewise_icmp "built_vs (edit_builder bytewise_icmp edit ?vs) ?vs"] F(3)
    by (auto intro!: snapshot_edit_ok simp: comparator_matches_def snapshot_edit_fields version_ok_def [of _ "vs_heap vs"])
  show "distinct (new_numbers (run_snapshot opts steps vs))" unfolding snap using F(3) by (intro bytewise_user.snapshot_distinct) simp
  show "set (new_numbers (run_snapshot opts steps vs)) \<subseteq> used"
    unfolding snap snapshot_numbers using F(2) vs(1) by (simp add: vs_ok_def)
  show "apply_edit (run_snapshot opts steps vs) (\<lambda>_. {}) = vs_abs vs" unfolding snap apply_snapshot using F(1) by simp
qed

text \<open>All edits of the manifest of a run.\<close>

definition run_edits :: "VSOptions \<Rightarrow> edit_step list \<Rightarrow> 'h VersionSet \<Rightarrow> VersionEdit list" where
  "run_edits opts steps vs = run_snapshot opts steps vs # logged (vs_log_number vs) (vs_prev_log_number vs) steps"

lemma length_run_edits [simp]: "length (run_edits opts steps vs) = Suc (length steps)"
  by (simp add: run_edits_def)

lemma run_edits_take:
  assumes "1 \<le> k"
  shows "run_edits opts (take k steps) vs = take (Suc k) (run_edits opts steps vs)"
proof -
  have "hd (take k steps) = hd steps" using assms by (cases steps; cases k; simp)
  then show ?thesis by (simp add: run_edits_def run_snapshot_def logged_take)
qed

lemma run_edits_ok:
  assumes "vs_ok bytewise_icmp used vs" "key_bounds vs" "fits32 (o_comparator_name opts)" "steps \<noteq> []"
    "\<forall>edit\<in>set (step_edits steps). edit_ok edit \<and> comparator_matches opts edit \<and> edit_levels edit" "fresh_numbers used (step_edits steps)"
  shows "\<forall>e\<in>set (run_edits opts steps vs). edit_ok e \<and> comparator_matches opts e \<and> edit_levels e"
    "fresh_numbers {} (run_edits opts steps vs)"
    "fold apply_edit (run_edits opts steps vs) (\<lambda>_. {}) = fold apply_edit (step_edits steps) (vs_abs vs)"
proof -
  have "\<forall>edit\<in>set (step_edits steps). edit_ok edit" using assms(5) by blast
  note S = run_snapshot_ok [OF assms(1-4) this]
  show "\<forall>e\<in>set (run_edits opts steps vs). edit_ok e \<and> comparator_matches opts e \<and> edit_levels e"
    using S(1) assms(5) logged_all [of "\<lambda>e. edit_ok e \<and> comparator_matches opts e \<and> edit_levels e"]
    by (simp add: complete_with_same run_edits_def)
  show "fresh_numbers {} (run_edits opts steps vs)"
    using S(2,3) fresh_numbers_mono [OF assms(6)] by (simp add: run_edits_def fresh_logged)
  show "fold apply_edit (run_edits opts steps vs) (\<lambda>_. {}) = fold apply_edit (step_edits steps) (vs_abs vs)"
    by (simp add: run_edits_def S(4) fold_logged)
qed

lemma last_numbers_logged: "last_numbers (complete_edit vs edit) (logged_vs opts icmp edit w vs)"
  by (simp add: last_numbers_def logged_vs_numbers)

subsection \<open>Recover\<close>

definition initial_recover :: "'h VersionSet \<Rightarrow> recover_state" where
  "initial_recover vs =
     \<lparr>rc_status = OK, rc_builder = new_Builder (v_files (vs_current vs)) (vs_heap vs) (vs_next vs) (vs_compact_pointer vs),
      rc_log_number = None, rc_prev_log_number = None, rc_next_file = None, rc_last_sequence = None\<rparr>"

lemma ReuseManifest_fields:
  assumes "ReuseManifest env opts dscname dscbase vs e = (reused, vs', e')"
  shows "vs_current vs' = vs_current vs" "vs_heap vs' = vs_heap vs" "vs_next vs' = vs_next vs" "vs_log_number vs' = vs_log_number vs"
    "vs_prev_log_number vs' = vs_prev_log_number vs" "vs_last_sequence vs' = vs_last_sequence vs" "vs_next_file_number vs' = vs_next_file_number vs"
  using assms by (auto simp: ReuseManifest_def vs_current_def split: if_splits option.splits FileType.splits sum.splits prod.splits)

lemma install_recovered_ok:
  assumes "rc_status rc = OK" "rc_next_file rc = Some n" "rc_log_number rc = Some l" "rc_last_sequence rc = Some q"
    "rc_prev_log_number rc = Some p" "\<not> o_force_delete_level0_file opts" "b = rc_builder rc"
  shows "\<exists>save vs' e'. install_recovered env opts icmp dscname current rc vs e = ((OK, save), vs', e') \<and>
    v_files (vs_current vs') = v_files (Builder_SaveTo icmp b new_Version) \<and> vs_heap vs' = b_heap b \<and> vs_next vs' = b_next b \<and>
    vs_log_number vs' = l \<and> vs_prev_log_number vs' = p \<and> vs_last_sequence vs' = q \<and> vs_next_file_number vs' = n + 1"
proof -
  define vs1 where "vs1 = (AppendVersion (Finalize opts (b_heap b) (Builder_SaveTo icmp b new_Version))
      (built_vs b (MarkFileNumberUsed l (MarkFileNumberUsed p vs))))\<lparr>vs_manifest_file_number := n, vs_next_file_number := n + 1,
        vs_last_sequence := q, vs_log_number := l, vs_prev_log_number := p\<rparr>"
  obtain reused vs' e' where R: "ReuseManifest env opts dscname current vs1 e = (reused, vs', e')" using prod_cases3 by blast
  have "recover_checks rc = OK" using assms by (simp add: recover_checks_def)
  then have "install_recovered env opts icmp dscname current rc vs e = ((OK, \<not> reused), vs', e')"
    using R assms unfolding install_recovered_def vs1_def built_vs_def by (simp add: the_or_def)
  then show ?thesis using ReuseManifest_fields [OF R] by (simp add: vs1_def)
qed

end
