(* ===== verification/Manifest.thy ===== *)
theory Manifest
  imports ManifestEdits
begin

text \<open>
  What the manifest keeps: the edits that \<open>LogAndApply\<close> logged are restored by \<open>Recover\<close>, also from a
  manifest of which only the beginning survived.
\<close>

subsection \<open>The environment a version set relies on\<close>

text \<open>
  Files are known by their names in \<open>lookup\<close>; \<open>opened e h fname\<close>: the handle writes to the file
  that has this name now.
\<close>

lemma file_names_differ:
  "TempFileName dbname n \<noteq> CurrentFileName dbname" "DescriptorFileName dbname n \<noteq> CurrentFileName dbname"
  "DescriptorFileName dbname n \<noteq> TempFileName dbname n"
proof -
  obtain c cs where c: "padded n = c # cs" "48 \<le> c" "c \<le> 57" using padded_head by blast
  then have "c \<noteq> 67" "c \<noteq> 77" by auto
  then show "TempFileName dbname n \<noteq> CurrentFileName dbname" "DescriptorFileName dbname n \<noteq> CurrentFileName dbname"
    "DescriptorFileName dbname n \<noteq> TempFileName dbname n"
    using c(1) by (auto simp: TempFileName_def CurrentFileName_def DescriptorFileName_def MakeFileName_def str_def)
qed

locale db_env = seq: readable_file "io_Read env" "io_Skip env" qinv rest
  for env :: "('h, 'q, 'e) DbEnv" and qinv :: "'q \<Rightarrow> bool" and rest :: "'q \<Rightarrow> slice" +
  fixes einv :: "'e \<Rightarrow> bool" and lookup :: "'e \<Rightarrow> slice \<Rightarrow> slice option" and opened :: "'e \<Rightarrow> 'h \<Rightarrow> slice \<Rightarrow> bool"
  assumes NewWritable: "einv e \<Longrightarrow> \<exists>h e'. io_NewWritableFile env fname e = (Inr h, e') \<and> einv e' \<and>
      lookup e' = (lookup e)(fname \<mapsto> []) \<and> opened e' h fname \<and> (\<forall>h' g. g \<noteq> fname \<longrightarrow> opened e h' g \<longrightarrow> opened e' h' g)"
    and opened_file: "einv e \<Longrightarrow> opened e h fname \<Longrightarrow> lookup e fname \<noteq> None"
    and Append: "einv e \<Longrightarrow> opened e h fname \<Longrightarrow> \<exists>e'. io_Append env h d e = (OK, e') \<and> einv e' \<and>
      lookup e' = (lookup e)(fname \<mapsto> the (lookup e fname) @ d) \<and> opened e' = opened e"
    and Flush: "einv e \<Longrightarrow> opened e h fname \<Longrightarrow> \<exists>e'. io_Flush env h e = (OK, e') \<and> einv e' \<and> lookup e' = lookup e \<and> opened e' = opened e"
    and Sync: "einv e \<Longrightarrow> opened e h fname \<Longrightarrow> \<exists>e'. io_Sync env h e = (OK, e') \<and> einv e' \<and> lookup e' = lookup e \<and> opened e' = opened e"
    and Close: "einv e \<Longrightarrow> opened e h fname \<Longrightarrow> \<exists>e'. io_Close env h e = (OK, e') \<and> einv e' \<and> lookup e' = lookup e \<and> opened e' = opened e"
    and NewSequential: "einv e \<Longrightarrow> lookup e fname = Some c \<Longrightarrow> \<exists>q. io_NewSequentialFile env fname e = Inr q \<and> qinv q \<and> rest q = c"
    and Rename: "einv e \<Longrightarrow> lookup e src = Some c \<Longrightarrow> src \<noteq> dst \<Longrightarrow> \<exists>e'. io_RenameFile env src dst e = (OK, e') \<and> einv e' \<and>
      lookup e' = (lookup e)(src := None, dst \<mapsto> c) \<and> (\<forall>h g. g \<noteq> src \<longrightarrow> g \<noteq> dst \<longrightarrow> opened e h g \<longrightarrow> opened e' h g)"
begin

lemma log_record_writes:
  assumes "einv e" "opened e h fname" "lookup e fname = Some c"
  shows "\<exists>e'. log_record env d (h, bo) e = (OK, (h, end_bo bo (fragments bo True d)), e') \<and> einv e' \<and>
    lookup e' = (lookup e)(fname \<mapsto> c @ place (io_crc env) bo (fragments bo True d)) \<and> opened e' = opened e"
proof -
  let ?inv = "\<lambda>e'. einv e' \<and> opened e' = opened e \<and> (\<forall>g. g \<noteq> fname \<longrightarrow> lookup e' g = lookup e g)"
  let ?con = "\<lambda>e'. the (lookup e' fname)"
  have A: "\<exists>e''. io_Append env h d e' = (OK, e'') \<and> ?inv e'' \<and> ?con e'' = ?con e' @ d" if "?inv e'" for e' d
    using Append [of e' h fname d] that assms(2) by fastforce
  have F: "\<exists>e''. io_Flush env h e' = (OK, e'') \<and> ?inv e'' \<and> ?con e'' = ?con e'" if "?inv e'" for e'
    using Flush [of e' h fname] that assms(2) by fastforce
  have "reliable_file (io_Append env h) (io_Flush env h) ?inv ?con"
  proof (unfold_locales, goal_cases)
    case (1 e' d s e'')
    then show ?case using A [of e' d] by auto
  next
    case (2 e' s e'')
    then show ?case using F [of e'] by auto
  next
    case (3 e' d)
    then show ?case using A [of e' d] by auto
  next
    case (4 e')
    then show ?case using F [of e'] by auto
  qed
  from reliable_file.AddRecord_loop_writes [OF this, of "\<lparr>lw_dest = e, lw_block_offset = bo\<rparr>" "io_crc env" True d] assms
  obtain w where w: "AddRecord_loop (io_Append env h) (io_Flush env h) (io_crc env) True d \<lparr>lw_dest = e, lw_block_offset = bo\<rparr> = (OK, w)"
    "?inv (lw_dest w)" "?con (lw_dest w) = c @ place (io_crc env) bo (fragments bo True d)"
    "lw_block_offset w = end_bo bo (fragments bo True d)" by auto
  have "opened (lw_dest w) h fname" using w(2) assms(2) by simp
  then have "lookup (lw_dest w) fname = Some (c @ place (io_crc env) bo (fragments bo True d))"
    using w(2,3) opened_file [of "lw_dest w" h fname] by auto
  then have "lookup (lw_dest w) = (lookup e)(fname \<mapsto> c @ place (io_crc env) bo (fragments bo True d))"
    using w(2) by (auto simp: fun_eq_iff)
  then show ?thesis using w by (simp add: log_record_def AddRecord_def)
qed

lemma WriteStringToFileSync_writes:
  assumes "einv e"
  shows "\<exists>e'. WriteStringToFileSync env d fname e = (OK, e') \<and> einv e' \<and> lookup e' = (lookup e)(fname \<mapsto> d) \<and>
    (\<forall>h g. g \<noteq> fname \<longrightarrow> opened e h g \<longrightarrow> opened e' h g)"
proof -
  obtain h e1 where 1: "io_NewWritableFile env fname e = (Inr h, e1)" "einv e1" "lookup e1 = (lookup e)(fname \<mapsto> [])" "opened e1 h fname"
    "\<forall>h' g. g \<noteq> fname \<longrightarrow> opened e h' g \<longrightarrow> opened e1 h' g" using NewWritable [OF assms] by blast
  obtain e2 where 2: "io_Append env h d e1 = (OK, e2)" "einv e2" "lookup e2 = (lookup e1)(fname \<mapsto> the (lookup e1 fname) @ d)" "opened e2 = opened e1"
    using Append [OF 1(2,4)] by blast
  obtain e3 where 3: "io_Sync env h e2 = (OK, e3)" "einv e3" "lookup e3 = lookup e2" "opened e3 = opened e2" using Sync [of e2 h fname] 1 2 by metis
  obtain e4 where 4: "io_Close env h e3 = (OK, e4)" "einv e4" "lookup e4 = lookup e3" "opened e4 = opened e3" using Close [of e3 h fname] 1 2 3 by metis
  show ?thesis using 1 2 3 4 by (simp add: WriteStringToFileSync_def DoWriteStringToFile_def)
qed

lemma read_to_string_rest: "qinv q \<Longrightarrow> read_to_string (io_Read env) (q, acc) = Some (OK, acc @ rest q)"
proof (induction "length (rest q)" arbitrary: q acc rule: less_induct)
  case less
  obtain r q' where R: "io_Read env 8192 q = (Inr r, q')" using seq.Read_succeeds [OF less.prems] by blast
  have q': "qinv q'" "r = take 8192 (rest q)" "rest q' = drop 8192 (rest q)" using seq.Read_ok [OF less.prems R] by auto
  show ?case
  proof (cases "rest q = []")
    case True
    then show ?thesis using R q' by (subst read_to_string.simps) simp
  next
    case False
    then have "length (rest q') < length (rest q)" using q'(3) by simp
    from less.hyps [OF this q'(1)] show ?thesis using R q' False by (subst read_to_string.simps) simp
  qed
qed

lemma ReadFileToString_reads: "einv e \<Longrightarrow> lookup e fname = Some c \<Longrightarrow> ReadFileToString env fname e = Some (OK, c)"
  using NewSequential [of e fname c] by (auto simp: ReadFileToString_def read_to_string_rest)

lemma SetCurrentFile_sets:
  assumes "einv e"
  shows "\<exists>e'. SetCurrentFile env dbname n e = (OK, e') \<and> einv e' \<and>
    lookup e' (CurrentFileName dbname) = Some (str ''MANIFEST-'' @ padded n @ [10]) \<and>
    lookup e' (DescriptorFileName dbname n) = lookup e (DescriptorFileName dbname n) \<and>
    (opened e h (DescriptorFileName dbname n) \<longrightarrow> opened e' h (DescriptorFileName dbname n))"
proof -
  let ?tmp = "TempFileName dbname n" let ?cur = "CurrentFileName dbname" let ?m = "DescriptorFileName dbname n"
  obtain e1 where 1: "WriteStringToFileSync env (str ''MANIFEST-'' @ padded n @ [10]) ?tmp e = (OK, e1)" "einv e1"
    "lookup e1 = (lookup e)(?tmp \<mapsto> str ''MANIFEST-'' @ padded n @ [10])" "\<forall>h g. g \<noteq> ?tmp \<longrightarrow> opened e h g \<longrightarrow> opened e1 h g"
    using WriteStringToFileSync_writes [OF assms] by blast
  obtain e2 where 2: "io_RenameFile env ?tmp ?cur e1 = (OK, e2)" "einv e2"
    "lookup e2 = (lookup e1)(?tmp := None, ?cur \<mapsto> str ''MANIFEST-'' @ padded n @ [10])"
    "\<forall>h g. g \<noteq> ?tmp \<longrightarrow> g \<noteq> ?cur \<longrightarrow> opened e1 h g \<longrightarrow> opened e2 h g"
    using Rename [OF 1(2), of ?tmp _ ?cur] 1(3) file_names_differ [of dbname n] by auto
  have "remove_prefix (length dbname + 1) ?m = str ''MANIFEST-'' @ padded n"
    by (simp add: DescriptorFileName_def remove_prefix_def str_def)
  then have "SetCurrentFile env dbname n e = (OK, e2)" using 1(1) 2(1) by (simp add: SetCurrentFile_def)
  then show ?thesis using 1 2 file_names_differ [of dbname n] by auto
qed

text \<open>The manifest of a version set holds these records, and \<open>CURRENT\<close> names it.\<close>

definition manifest_at :: "slice \<Rightarrow> 'h VersionSet \<Rightarrow> 'e \<Rightarrow> slice list \<Rightarrow> bool" where
  "manifest_at dbname vs e ds \<longleftrightarrow> einv e \<and>
     lookup e (CurrentFileName dbname) = Some (str ''MANIFEST-'' @ padded (vs_manifest_file_number vs) @ [10]) \<and>
     lookup e (DescriptorFileName dbname (vs_manifest_file_number vs)) = Some (place (io_crc env) 0 (log_frames 0 ds)) \<and>
     (\<exists>h. vs_descriptor vs = Some (h, end_bo 0 (log_frames 0 ds)) \<and> opened e h (DescriptorFileName dbname (vs_manifest_file_number vs)))"

lemma write_edit_writes:
  assumes "einv e" "opened e h m" "lookup e m = Some (place (io_crc env) 0 (log_frames 0 ds))"
  shows "\<exists>e'. write_edit env edit (OK, Some (h, end_bo 0 (log_frames 0 ds)), e) =
      (OK, Some (h, end_bo 0 (log_frames 0 (ds @ [VersionEdit_EncodeTo edit []]))), e') \<and> einv e' \<and> opened e' = opened e \<and>
    lookup e' = (lookup e)(m \<mapsto> place (io_crc env) 0 (log_frames 0 (ds @ [VersionEdit_EncodeTo edit []])))"
proof -
  let ?bo = "end_bo 0 (log_frames 0 ds)" let ?d = "VersionEdit_EncodeTo edit []"
  obtain e1 where 1: "log_record env ?d (h, ?bo) e = (OK, (h, end_bo ?bo (fragments ?bo True ?d)), e1)" "einv e1"
    "lookup e1 = (lookup e)(m \<mapsto> place (io_crc env) 0 (log_frames 0 ds) @ place (io_crc env) ?bo (fragments ?bo True ?d))" "opened e1 = opened e"
    using log_record_writes [OF assms, of ?d ?bo] by blast
  obtain e2 where 2: "io_Sync env h e1 = (OK, e2)" "einv e2" "lookup e2 = lookup e1" "opened e2 = opened e1"
    using Sync [OF 1(2), of h m] 1(4) assms(2) by metis
  have "end_bo ?bo (fragments ?bo True ?d) = end_bo 0 (log_frames 0 (ds @ [?d]))" by (simp add: log_frames_append end_bo_append)
  moreover have "place (io_crc env) 0 (log_frames 0 ds) @ place (io_crc env) ?bo (fragments ?bo True ?d) = place (io_crc env) 0 (log_frames 0 (ds @ [?d]))"
    by (simp add: log_frames_append place_append)
  ultimately show ?thesis using 1 2 by (simp add: write_edit_def)
qed

lemma LogAndApply_next:
  assumes "manifest_at dbname vs e ds"
  shows "\<exists>w e'. LogAndApply env opts icmp dbname edit vs e = (OK, logged_vs opts icmp edit w vs, e') \<and>
    manifest_at dbname (logged_vs opts icmp edit w vs) e' (ds @ [VersionEdit_EncodeTo (complete_edit vs edit) []])"
proof -
  let ?m = "DescriptorFileName dbname (vs_manifest_file_number vs)" let ?ds = "ds @ [VersionEdit_EncodeTo (complete_edit vs edit) []]"
  obtain h where h: "vs_descriptor vs = Some (h, end_bo 0 (log_frames 0 ds))" "opened e h ?m" "einv e"
    "lookup e ?m = Some (place (io_crc env) 0 (log_frames 0 ds))" using assms by (auto simp: manifest_at_def)
  obtain e' where e': "write_edit env (complete_edit vs edit) (OK, Some (h, end_bo 0 (log_frames 0 ds)), e) = (OK, Some (h, end_bo 0 (log_frames 0 ?ds)), e')"
    "einv e'" "opened e' = opened e" "lookup e' = (lookup e)(?m \<mapsto> place (io_crc env) 0 (log_frames 0 ?ds))"
    using write_edit_writes [OF h(3,2,4)] by blast
  let ?w = "Some (h, end_bo 0 (log_frames 0 ?ds))"
  have "LogAndApply env opts icmp dbname edit vs e = (OK, logged_vs opts icmp edit ?w vs, e')"
    using e'(1) h(1) by (intro LogAndApply_ok) (simp_all add: open_manifest_def)
  moreover have "manifest_at dbname (logged_vs opts icmp edit ?w vs) e' ?ds"
    using assms e' h file_names_differ(2) [of dbname "vs_manifest_file_number vs"] by (simp add: manifest_at_def logged_vs_numbers)
  ultimately show ?thesis by blast
qed

lemma LogAndApply_first:
  assumes "einv e" "vs_descriptor vs = None" and vs1_def: "vs1 = built_vs (edit_builder icmp edit vs) vs"
  shows "\<exists>w e'. LogAndApply env opts icmp dbname edit vs e = (OK, logged_vs opts icmp edit w vs, e') \<and>
    manifest_at dbname (logged_vs opts icmp edit w vs) e'
      [VersionEdit_EncodeTo (snapshot_edit opts vs1) [], VersionEdit_EncodeTo (complete_edit vs edit) []]"
proof -
  let ?n = "vs_manifest_file_number vs" let ?m = "DescriptorFileName dbname ?n"
  let ?s = "VersionEdit_EncodeTo (snapshot_edit opts vs1) []" let ?ds = "[?s, VersionEdit_EncodeTo (complete_edit vs edit) []]"
  obtain h e1 where 1: "io_NewWritableFile env ?m e = (Inr h, e1)" "einv e1" "lookup e1 = (lookup e)(?m \<mapsto> [])" "opened e1 h ?m"
    using NewWritable [OF assms(1), of ?m] by blast
  obtain e2 where 2: "log_record env ?s (h, 0) e1 = (OK, (h, end_bo 0 (log_frames 0 [?s])), e2)" "einv e2"
    "lookup e2 = (lookup e1)(?m \<mapsto> place (io_crc env) 0 (log_frames 0 [?s]))" "opened e2 = opened e1"
    using log_record_writes [OF 1(2,4), of "[]" ?s 0] 1(3) by auto
  have om: "open_manifest env opts dbname vs1 e = (OK, Some (h, end_bo 0 (log_frames 0 [?s])), e2)"
    using assms(2) 1(1) 2(1) by (simp add: open_manifest_def WriteSnapshot_def vs1_def)
  have o2: "opened e2 h ?m" "lookup e2 ?m = Some (place (io_crc env) 0 (log_frames 0 [?s]))" using 1(4) 2(3,4) by simp_all
  obtain e3 where 3: "write_edit env (complete_edit vs edit) (OK, Some (h, end_bo 0 (log_frames 0 [?s])), e2) = (OK, Some (h, end_bo 0 (log_frames 0 ?ds)), e3)"
    "einv e3" "opened e3 = opened e2" "lookup e3 = (lookup e2)(?m \<mapsto> place (io_crc env) 0 (log_frames 0 ?ds))"
    using write_edit_writes [OF 2(2) o2, of "complete_edit vs edit"] by auto
  obtain e4 where 4: "SetCurrentFile env dbname ?n e3 = (OK, e4)" "einv e4"
    "lookup e4 (CurrentFileName dbname) = Some (str ''MANIFEST-'' @ padded ?n @ [10])" "lookup e4 ?m = lookup e3 ?m" "opened e4 h ?m"
    using SetCurrentFile_sets [OF 3(2), of dbname ?n h] 3(3) o2(1) by auto
  let ?w = "Some (h, end_bo 0 (log_frames 0 ?ds))"
  have "LogAndApply env opts icmp dbname edit vs e = (OK, logged_vs opts icmp edit ?w vs, e4)"
    using om 3(1) 4(1) assms(2) unfolding vs1_def by (intro LogAndApply_ok) simp_all
  moreover have "manifest_at dbname (logged_vs opts icmp edit ?w vs) e4 ?ds"
    using 3(4) 4 by (simp add: manifest_at_def logged_vs_numbers)
  ultimately show ?thesis by blast
qed

lemma manifest_at_counters [simp]: "manifest_at dbname (set_counters n q vs) e ds = manifest_at dbname vs e ds"
  by (simp add: manifest_at_def)

abbreviation enc :: "VersionEdit \<Rightarrow> slice" where
  "enc e \<equiv> VersionEdit_EncodeTo e []"

lemma log_edits_next:
  assumes "manifest_at dbname vs e ds" "vs_ok bytewise_icmp used vs" "\<forall>edit\<in>set (step_edits steps). edit_levels edit"
    "fresh_numbers used (step_edits steps)" "last_numbers e0 vs"
  shows "\<exists>vs' e'. log_edits env opts bytewise_icmp dbname steps vs e = (OK, vs', e') \<and>
    manifest_at dbname vs' e' (ds @ map enc (logged (vs_log_number vs) (vs_prev_log_number vs) steps)) \<and>
    vs_abs vs' = fold apply_edit (step_edits steps) (vs_abs vs) \<and> (\<exists>used'. vs_ok bytewise_icmp used' vs') \<and>
    vs_manifest_file_number vs' = vs_manifest_file_number vs \<and>
    last_numbers (last (e0 # logged (vs_log_number vs) (vs_prev_log_number vs) steps)) vs'"
  using assms
proof (induction steps arbitrary: vs e ds used e0)
  case Nil
  then show ?case by (auto simp: step_edits_def)
next
  case (Cons st steps)
  obtain n q edit where st: "st = (n, q, edit)" by (cases st) auto
  let ?vs = "set_counters n q vs"
  obtain w e1 where 1: "LogAndApply env opts bytewise_icmp dbname edit ?vs e = (OK, logged_vs opts bytewise_icmp edit w ?vs, e1)"
    "manifest_at dbname (logged_vs opts bytewise_icmp edit w ?vs) e1 (ds @ [enc (complete_edit ?vs edit)])"
    using LogAndApply_next [of dbname ?vs e ds opts bytewise_icmp edit] Cons.prems(1) by auto
  let ?vs1 = "logged_vs opts bytewise_icmp edit w ?vs"
  have ed: "edit_levels edit" "distinct (new_numbers edit)" "set (new_numbers edit) \<inter> used = {}"
    "\<forall>edit\<in>set (step_edits steps). edit_levels edit" "fresh_numbers (used \<union> set (new_numbers edit)) (step_edits steps)"
    using Cons.prems(3,4) by (simp_all add: st step_edits_def)
  have ok: "vs_ok bytewise_icmp used ?vs" using Cons.prems(2) by simp
  note L = bytewise_user.logged_vs_ok [OF ok ed(1-3), of opts w]
  have num: "vs_log_number ?vs1 = the (ve_log_number (complete_with (vs_log_number vs) (vs_prev_log_number vs) st))"
    "vs_prev_log_number ?vs1 = the (ve_prev_log_number (complete_with (vs_log_number vs) (vs_prev_log_number vs) st))"
    using last_numbers_logged [of ?vs edit opts bytewise_icmp w] unfolding last_numbers_def complete_edit_with st by auto
  from Cons.IH [OF 1(2) L(1) ed(4,5) last_numbers_logged] obtain vs' e' where R:
    "log_edits env opts bytewise_icmp dbname steps ?vs1 e1 = (OK, vs', e')"
    "manifest_at dbname vs' e' ((ds @ [enc (complete_edit ?vs edit)]) @ map enc (logged (vs_log_number ?vs1) (vs_prev_log_number ?vs1) steps))"
    "vs_abs vs' = fold apply_edit (step_edits steps) (vs_abs ?vs1)" "\<exists>used'. vs_ok bytewise_icmp used' vs'"
    "vs_manifest_file_number vs' = vs_manifest_file_number ?vs1"
    "last_numbers (last (complete_edit ?vs edit # logged (vs_log_number ?vs1) (vs_prev_log_number ?vs1) steps)) vs'" by blast
  have "log_edits env opts bytewise_icmp dbname (st # steps) vs e = (OK, vs', e')" using 1(1) R(1) by (simp add: st)
  moreover have "vs_abs vs' = fold apply_edit (step_edits (st # steps)) (vs_abs vs)" using R(3) L(2) by (simp add: step_edits_def st)
  ultimately show ?case using R(2,4-6) unfolding num complete_edit_with by (simp add: st logged_vs_numbers)
qed

text \<open>The same from a version set that has no manifest yet.\<close>

lemma log_edits_first:
  assumes "einv e" "vs_descriptor vs = None" "vs_ok bytewise_icmp used vs" "\<forall>edit\<in>set (step_edits steps). edit_levels edit"
    "fresh_numbers used (step_edits steps)" "steps \<noteq> []"
  shows "\<exists>vs' e'. log_edits env opts bytewise_icmp dbname steps vs e = (OK, vs', e') \<and>
    manifest_at dbname vs' e' (map enc (run_edits opts steps vs)) \<and>
    vs_abs vs' = fold apply_edit (step_edits steps) (vs_abs vs) \<and>
    vs_manifest_file_number vs' = vs_manifest_file_number vs \<and> last_numbers (last (run_edits opts steps vs)) vs'"
proof -
  obtain n q edit steps' where st: "steps = (n, q, edit) # steps'" using assms(6) by (cases steps) auto
  let ?vs = "set_counters n q vs"
  let ?snap = "run_snapshot opts steps vs"
  have snap: "?snap = snapshot_edit opts (built_vs (edit_builder bytewise_icmp edit ?vs) ?vs)" by (simp add: st run_snapshot_def)
  have de: "vs_descriptor ?vs = None" using assms(2) by simp
  obtain w e1 where 1: "LogAndApply env opts bytewise_icmp dbname edit ?vs e = (OK, logged_vs opts bytewise_icmp edit w ?vs, e1)"
    "manifest_at dbname (logged_vs opts bytewise_icmp edit w ?vs) e1 [enc ?snap, enc (complete_edit ?vs edit)]"
    using LogAndApply_first [OF assms(1) de refl, of opts bytewise_icmp dbname edit] unfolding snap by blast
  let ?vs1 = "logged_vs opts bytewise_icmp edit w ?vs"
  have ed: "edit_levels edit" "distinct (new_numbers edit)" "set (new_numbers edit) \<inter> used = {}"
    "\<forall>edit\<in>set (step_edits steps'). edit_levels edit" "fresh_numbers (used \<union> set (new_numbers edit)) (step_edits steps')"
    using assms(4,5) by (simp_all add: st step_edits_def)
  have ok: "vs_ok bytewise_icmp used ?vs" using assms(3) by simp
  note L = bytewise_user.logged_vs_ok [OF ok ed(1-3), of opts w]
  have num: "vs_log_number ?vs1 = the (ve_log_number (complete_with (vs_log_number vs) (vs_prev_log_number vs) (n, q, edit)))"
    "vs_prev_log_number ?vs1 = the (ve_prev_log_number (complete_with (vs_log_number vs) (vs_prev_log_number vs) (n, q, edit)))"
    using last_numbers_logged [of ?vs edit opts bytewise_icmp w] unfolding last_numbers_def complete_edit_with by auto
  from log_edits_next [OF 1(2) L(1) ed(4,5) last_numbers_logged, of opts] obtain vs' e' where R:
    "log_edits env opts bytewise_icmp dbname steps' ?vs1 e1 = (OK, vs', e')"
    "manifest_at dbname vs' e' ([enc ?snap, enc (complete_edit ?vs edit)] @ map enc (logged (vs_log_number ?vs1) (vs_prev_log_number ?vs1) steps'))"
    "vs_abs vs' = fold apply_edit (step_edits steps') (vs_abs ?vs1)" "\<exists>used'. vs_ok bytewise_icmp used' vs'"
    "vs_manifest_file_number vs' = vs_manifest_file_number ?vs1"
    "last_numbers (last (complete_edit ?vs edit # logged (vs_log_number ?vs1) (vs_prev_log_number ?vs1) steps')) vs'" by blast
  have "log_edits env opts bytewise_icmp dbname steps vs e = (OK, vs', e')" using 1(1) R(1) by (simp add: st)
  moreover have "vs_abs vs' = fold apply_edit (step_edits steps) (vs_abs vs)" using R(3) L(2) by (simp add: step_edits_def st)
  ultimately show ?thesis using R(2,5,6) unfolding num complete_edit_with by (simp add: run_edits_def) (simp add: st logged_vs_numbers)
qed

text \<open>\<open>Recover\<close> replays the edits whose records are complete.\<close>

lemma Recover_replays:
  assumes crc: "running_crc (io_crc env)" and e: "einv e" "lookup e (CurrentFileName dbname) = Some (str ''MANIFEST-'' @ padded n @ [10])"
    "lookup e (DescriptorFileName dbname n) = Some (take m (place (io_crc env) 0 (log_frames 0 (map enc es))))"
    and es: "\<forall>e\<in>set es. edit_ok e \<and> comparator_matches opts e"
  shows "\<exists>k\<le>length es. (\<forall>j\<le>length es. length (place (io_crc env) 0 (log_frames 0 (map enc (take j es)))) \<le> m \<longleftrightarrow> j \<le> k) \<and>
    Recover env opts icmp dbname vs e = Some (install_recovered env opts icmp (DescriptorFileName dbname n) (str ''MANIFEST-'' @ padded n)
      (fold (recover_record opts icmp) (map enc (take k es))
        \<lparr>rc_status = OK, rc_builder = new_Builder (v_files (vs_current vs)) (vs_heap vs) (vs_next vs) (vs_compact_pointer vs),
         rc_log_number = None, rc_prev_log_number = None, rc_next_file = None, rc_last_sequence = None\<rparr>) vs e)"
proof -
  let ?rr = "ReadRecord (io_Read env) (io_Skip env) (io_crc env)"
  let ?rc = "\<lparr>rc_status = OK, rc_builder = new_Builder (v_files (vs_current vs)) (vs_heap vs) (vs_next vs) (vs_compact_pointer vs),
     rc_log_number = None, rc_prev_log_number = None, rc_next_file = None, rc_last_sequence = None\<rparr>"
  have cur: "ReadFileToString env (CurrentFileName dbname) e = Some (OK, str ''MANIFEST-'' @ padded n @ [10])"
    using ReadFileToString_reads [OF e(1,2)] .
  obtain q where q: "io_NewSequentialFile env (DescriptorFileName dbname n) e = Inr q" "qinv q"
    "rest q = take m (place (io_crc env) 0 (log_frames 0 (map enc es)))" using NewSequential [OF e(1,3)] by blast
  have "reader_at qinv rest log_kBlockSize (take m (place (io_crc env) log_kBlockSize (log_frames log_kBlockSize (map enc es)))) (new_LogReader q True True 0)"
    using seq.new_reader_at [OF q(2), of True True] q(3) by (simp add: log_start)
  from seq.reads_prefix [OF this crc] obtain k where k: "reads ?rr (take k (map enc es)) (new_LogReader q True True 0)" "k \<le> length es"
    "\<forall>j\<le>length es. length (place (io_crc env) 0 (log_frames 0 (map enc (take j es)))) \<le> m \<longleftrightarrow> j \<le> k"
    unfolding log_start by (auto simp: take_map)
  have "rc_status (fold (recover_record opts icmp) (take j (take k (map enc es))) ?rc) = OK" for j
    using recover_records(1) [of "take (min j k) es" opts ?rc icmp] es by (auto simp: take_map dest: in_set_takeD)
  from recover_loop_reads [OF k(1) _ this]
  have "recover_loop ?rr (recover_record opts icmp) (new_LogReader q True True 0, ?rc) = Some (fold (recover_record opts icmp) (map enc (take k es)) ?rc)"
    by (simp add: take_map)
  moreover have "dbname @ str ''/'' @ str ''MANIFEST-'' @ padded n = DescriptorFileName dbname n"
    by (simp add: DescriptorFileName_def str_def)
  ultimately have "Recover env opts icmp dbname vs e =
      Some (install_recovered env opts icmp (DescriptorFileName dbname n) (str ''MANIFEST-'' @ padded n)
        (fold (recover_record opts icmp) (map enc (take k es)) ?rc) vs e)"
    using cur q(1) by (simp add: Recover_def butlast_append)
  then show ?thesis using k(2,3) by blast
qed

end

end
