(* ===== verification/ManifestRecovery.thy ===== *)
theory ManifestRecovery
  imports Manifest
begin

text \<open>
  The in-memory environment provides what version sets rely on, and the manifest survives a crash: what
  \<open>Recover\<close> restores from a manifest of which a beginning is left.
\<close>

subsection \<open>The in-memory environment\<close>

text \<open>
  The operations of \<open>InMemoryEnv\<close>; handles are addresses of files. A null pointer is never
  followed as long as the invariant holds, which is what \<open>the\<close> stands for.
\<close>

definition mem_Append :: "nat \<Rightarrow> slice \<Rightarrow> MemEnv \<Rightarrow> status \<times> MemEnv" where
  "mem_Append a d e =
     (let (s, f) = WritableFile_Append d (the (env_files e a)) in (s, e\<lparr>env_files := (env_files e)(a \<mapsto> f)\<rparr>))"

definition mem_open :: "slice \<Rightarrow> MemEnv \<Rightarrow> status + SequentialFile" where
  "mem_open fname e =
     (case the (NewSequentialFile fname e) of
        (Inl s, e) \<Rightarrow> Inl s
      | (Inr a, e) \<Rightarrow> Inr \<lparr>sq_file = the (env_files e a), sq_pos = 0\<rparr>)"

definition mem_db_env :: "(u32 \<Rightarrow> slice \<Rightarrow> u32) \<Rightarrow> (nat, SequentialFile, MemEnv) DbEnv" where
  "mem_db_env crc =
     \<lparr>io_NewWritableFile = (\<lambda>f e. let (a, e) = the (NewWritableFile f e) in (Inr a, e)),
      io_NewAppendableFile = (\<lambda>f e. let (a, e) = the (NewAppendableFile f e) in (Inr a, e)),
      io_Append = mem_Append, io_Flush = (\<lambda>a e. (OK, e)), io_Sync = (\<lambda>a e. (OK, e)), io_Close = (\<lambda>a e. (OK, e)),
      io_NewSequentialFile = mem_open, io_Read = SequentialFile_Read, io_Skip = SequentialFile_Skip,
      io_GetFileSize = (\<lambda>f e. the (GetFileSize f e)), io_DeleteFile = (\<lambda>f e. the (mem_DeleteFile f e)),
      io_RenameFile = (\<lambda>f g e. the (RenameFile f g e)), io_crc = crc\<rparr>"

text \<open>Every name is bound to a file of its own.\<close>

definition mem_inv :: "MemEnv \<Rightarrow> bool" where
  "mem_inv e \<longleftrightarrow> (\<forall>f p. map_of (env_map e) f = Some p \<longrightarrow>
       (\<exists>a fs. p = Some a \<and> a < env_fresh e \<and> env_files e a = Some fs \<and> file_inv fs)) \<and>
     (\<forall>f g a. map_of (env_map e) f = Some (Some a) \<longrightarrow> map_of (env_map e) g = Some (Some a) \<longrightarrow> f = g)"

definition mem_lookup :: "MemEnv \<Rightarrow> slice \<Rightarrow> slice option" where
  "mem_lookup e f = (case map_of (env_map e) f of Some (Some a) \<Rightarrow> map_option file_contents (env_files e a) | _ \<Rightarrow> None)"

definition mem_opened :: "MemEnv \<Rightarrow> nat \<Rightarrow> slice \<Rightarrow> bool" where
  "mem_opened e a f \<longleftrightarrow> map_of (env_map e) f = Some (Some a)"

lemma map_of_fm_erase [simp]: "map_of (fm_erase k m) k' = (if k' = k then None else map_of m k')"
  by (induction m) (auto simp: fm_erase_def)

lemma mem_inv_bound:
  "mem_inv e \<Longrightarrow> map_of (env_map e) f = Some p \<Longrightarrow> \<exists>a fs. p = Some a \<and> a < env_fresh e \<and> env_files e a = Some fs \<and> file_inv fs"
  by (auto simp: mem_inv_def)

lemma mem_delete:
  assumes "mem_inv e"
  shows "\<exists>e'. DeleteFileInternal f e = Some e' \<and> mem_inv e' \<and> env_fresh e' = env_fresh e \<and>
    map_of (env_map e') = (map_of (env_map e))(f := None) \<and>
    (\<forall>g a. g \<noteq> f \<longrightarrow> map_of (env_map e) g = Some (Some a) \<longrightarrow> env_files e' a = env_files e a)"
proof (cases "map_of (env_map e) f")
  case None
  then show ?thesis using assms by (auto simp: DeleteFileInternal_def)
next
  case (Some p)
  then obtain a fs where a: "p = Some a" "a < env_fresh e" "env_files e a = Some fs" "file_inv fs" using mem_inv_bound [OF assms] by blast
  let ?e = "e\<lparr>env_files := (env_files e)(a := FileState_Unref fs), env_map := fm_erase f (env_map e)\<rparr>"
  have d: "DeleteFileInternal f e = Some ?e" using Some a by (simp add: DeleteFileInternal_def mem_Unref_def)
  have oth: "b \<noteq> a" if "g \<noteq> f" "map_of (env_map e) g = Some (Some b)" for g b
    using assms Some a(1) that unfolding mem_inv_def by blast
  have "mem_inv ?e"
    unfolding mem_inv_def
  proof (intro conjI allI impI)
    fix g q assume "map_of (env_map ?e) g = Some q"
    then have g: "g \<noteq> f" "map_of (env_map e) g = Some q" by (auto split: if_splits)
    then show "\<exists>a fs. q = Some a \<and> a < env_fresh ?e \<and> env_files ?e a = Some fs \<and> file_inv fs"
      using mem_inv_bound [OF assms g(2)] oth by fastforce
  next
    fix g h b assume "map_of (env_map ?e) g = Some (Some b)" "map_of (env_map ?e) h = Some (Some b)"
    then show "g = h" using assms unfolding mem_inv_def by (auto split: if_splits)
  qed
  then show ?thesis using d oth by (intro exI [of _ ?e]) (auto simp: fun_eq_iff)
qed

lemma mem_writable:
  assumes "mem_inv e"
  shows "\<exists>a e'. NewWritableFile f e = Some (a, e') \<and> mem_inv e' \<and> mem_lookup e' = (mem_lookup e)(f \<mapsto> []) \<and>
    mem_opened e' a f \<and> (\<forall>b g. g \<noteq> f \<longrightarrow> mem_opened e b g \<longrightarrow> mem_opened e' b g)"
proof -
  obtain e1 where 1: "(if map_of (env_map e) f \<noteq> None then DeleteFileInternal f e else Some e) = Some e1" "mem_inv e1" "env_fresh e1 = env_fresh e"
    "map_of (env_map e1) = (map_of (env_map e))(f := None)"
    "\<forall>g a. g \<noteq> f \<longrightarrow> map_of (env_map e) g = Some (Some a) \<longrightarrow> env_files e1 a = env_files e a"
  proof (cases "map_of (env_map e) f")
    case None
    then have "map_of (env_map e) = (map_of (env_map e))(f := None)" by auto
    then show ?thesis using that [of e] None assms by auto
  next
    case (Some p)
    then show ?thesis using mem_delete [OF assms, of f] that by auto
  qed
  let ?a = "env_fresh e1"
  define e2 where "e2 = e1\<lparr>env_files := (env_files e1)(?a \<mapsto> FileState_Ref (FileState_Ref new_FileState)), env_fresh := Suc ?a,
      env_map := fm_put f (Some ?a) (env_map e1)\<rparr>"
  have new: "file_inv (FileState_Ref (FileState_Ref new_FileState))" "file_contents (FileState_Ref (FileState_Ref new_FileState)) = []"
    using new_FileState_contents by (simp_all add: FileState_Ref_def file_inv_def file_contents_def)
  have r: "NewWritableFile f e = Some (?a, e2)"
    using 1(1) by (simp add: NewWritableFile_def mem_new_file_def mem_Ref_def e2_def)
  have old: "a < ?a" if "map_of (env_map e1) g = Some (Some a)" for g a using mem_inv_bound [OF 1(2) that] by auto
  have mp: "map_of (env_map e2) g = (if g = f then Some (Some ?a) else map_of (env_map e1) g)" for g by (simp add: e2_def)
  have fl: "env_files e2 a = (if a = ?a then Some (FileState_Ref (FileState_Ref new_FileState)) else env_files e1 a)" for a by (simp add: e2_def)
  have fr: "env_fresh e2 = Suc ?a" by (simp add: e2_def)
  have "mem_inv e2"
    unfolding mem_inv_def
  proof (intro conjI allI impI)
    fix g q assume g: "map_of (env_map e2) g = Some q"
    show "\<exists>a fs. q = Some a \<and> a < env_fresh e2 \<and> env_files e2 a = Some fs \<and> file_inv fs"
    proof (cases "g = f")
      case True
      then show ?thesis using g mp fl fr new(1) by auto
    next
      case False
      then have "map_of (env_map e1) g = Some q" using g mp by simp
      from mem_inv_bound [OF 1(2) this] show ?thesis using fl fr by fastforce
    qed
  next
    fix g h b assume "map_of (env_map e2) g = Some (Some b)" "map_of (env_map e2) h = Some (Some b)"
    then show "g = h" using 1(2) old unfolding mem_inv_def mp by (auto split: if_splits)
  qed
  moreover have "mem_lookup e2 g = ((mem_lookup e)(f \<mapsto> [])) g" for g
  proof (cases "g = f")
    case True
    then show ?thesis by (simp add: mem_lookup_def mp fl new(2))
  next
    case False
    show ?thesis
    proof (cases "map_of (env_map e) g")
      case (Some p)
      then obtain b where b: "p = Some b" using mem_inv_bound [OF assms] by blast
      have "map_of (env_map e1) g = Some (Some b)" using 1(4) False Some b by simp
      then show ?thesis using old [of g b] 1(5) False Some b by (auto simp: mem_lookup_def mp fl)
    qed (use False 1(4) in \<open>simp add: mem_lookup_def mp\<close>)
  qed
  moreover have "mem_opened e2 ?a f" "\<forall>b g. g \<noteq> f \<longrightarrow> mem_opened e b g \<longrightarrow> mem_opened e2 b g" using 1(4) by (simp_all add: mem_opened_def mp)
  ultimately show ?thesis using r by blast
qed

lemma mem_rename:
  assumes "mem_inv e" "mem_lookup e src = Some c" "src \<noteq> dst"
  shows "\<exists>e'. RenameFile src dst e = Some (OK, e') \<and> mem_inv e' \<and> mem_lookup e' = (mem_lookup e)(src := None, dst \<mapsto> c) \<and>
    (\<forall>a g. g \<noteq> src \<longrightarrow> g \<noteq> dst \<longrightarrow> mem_opened e a g \<longrightarrow> mem_opened e' a g)"
proof -
  obtain a fs where a: "map_of (env_map e) src = Some (Some a)" "env_files e a = Some fs" "c = file_contents fs"
    using assms(2) by (auto simp: mem_lookup_def split: option.splits)
  obtain e1 where 1: "DeleteFileInternal dst e = Some e1" "mem_inv e1" "env_fresh e1 = env_fresh e"
    "map_of (env_map e1) = (map_of (env_map e))(dst := None)"
    "\<forall>g a. g \<noteq> dst \<longrightarrow> map_of (env_map e) g = Some (Some a) \<longrightarrow> env_files e1 a = env_files e a"
    using mem_delete [OF assms(1), of dst] by blast
  let ?e = "e1\<lparr>env_map := fm_erase src (fm_put dst (Some a) (env_map e1))\<rparr>"
  have s1: "map_of (env_map e1) src = Some (Some a)" using 1(4) a(1) assms(3) by simp
  have r: "RenameFile src dst e = Some (OK, ?e)" using a(1) 1(1) s1 by (simp add: RenameFile_def)
  have mp: "map_of (env_map ?e) g = (if g = src then None else if g = dst then Some (Some a) else map_of (env_map e1) g)" for g by simp
  have "mem_inv ?e"
    unfolding mem_inv_def
  proof (intro conjI allI impI)
    fix g q assume "map_of (env_map ?e) g = Some q"
    then have "\<exists>g'. map_of (env_map e1) g' = Some q" using s1 unfolding mp by (auto split: if_splits)
    then show "\<exists>a fs. q = Some a \<and> a < env_fresh ?e \<and> env_files ?e a = Some fs \<and> file_inv fs" using mem_inv_bound [OF 1(2)] by fastforce
  next
    fix g h b assume "map_of (env_map ?e) g = Some (Some b)" "map_of (env_map ?e) h = Some (Some b)"
    then show "g = h" using 1(2) s1 unfolding mem_inv_def mp by (metis option.inject option.discI)
  qed
  moreover have "mem_lookup ?e g = ((mem_lookup e)(src := None, dst \<mapsto> c)) g" for g
  proof -
    consider "g = src" | "g \<noteq> src" "g = dst" | "g \<noteq> src" "g \<noteq> dst" by blast
    then show ?thesis
    proof cases
      case 2
      have "env_files e1 a = Some fs" using 1(5) a(1,2) assms(3) by metis
      then show ?thesis using 2 a(3) unfolding mem_lookup_def mp by simp
    next
      case 3
      then have m: "map_of (env_map ?e) g = map_of (env_map e) g" using 1(4) unfolding mp by simp
      show ?thesis using 3 1(5) unfolding mem_lookup_def m by (auto split: option.splits)
    qed (use assms(3) in \<open>simp add: mem_lookup_def\<close>)
  qed
  moreover have "\<forall>a g. g \<noteq> src \<longrightarrow> g \<noteq> dst \<longrightarrow> mem_opened e a g \<longrightarrow> mem_opened ?e a g" using 1(4) by (simp add: mem_opened_def)
  ultimately show ?thesis using r by blast
qed

lemma mem_append:
  assumes "mem_inv e" "mem_opened e a f"
  shows "\<exists>e'. mem_Append a d e = (OK, e') \<and> mem_inv e' \<and> mem_lookup e' = (mem_lookup e)(f \<mapsto> the (mem_lookup e f) @ d) \<and> mem_opened e' = mem_opened e"
proof -
  obtain fs where fs: "map_of (env_map e) f = Some (Some a)" "env_files e a = Some fs" "file_inv fs"
    using mem_inv_bound [OF assms(1)] assms(2) unfolding mem_opened_def by blast
  let ?e = "e\<lparr>env_files := (env_files e)(a \<mapsto> FileState_Append d fs)\<rparr>"
  have A: "file_inv (FileState_Append d fs)" "file_contents (FileState_Append d fs) = file_contents fs @ d" using FileState_Append_eq [OF fs(3)] by auto
  have "mem_Append a d e = (OK, ?e)" by (simp add: mem_Append_def WritableFile_Append_def fs(2))
  moreover have "mem_inv ?e" using assms(1) A(1) unfolding mem_inv_def by fastforce
  moreover have "mem_lookup ?e g = ((mem_lookup e)(f \<mapsto> the (mem_lookup e f) @ d)) g" for g
  proof (cases "g = f")
    case False
    then have "map_of (env_map e) g \<noteq> Some (Some a)" using assms(1) fs(1) unfolding mem_inv_def by blast
    then show ?thesis using False by (auto simp: mem_lookup_def split: option.splits)
  qed (simp add: mem_lookup_def fs A(2))
  ultimately show ?thesis by (auto simp: mem_opened_def [abs_def])
qed

lemma mem_open_reads:
  assumes "mem_inv e" "mem_lookup e f = Some c"
  shows "\<exists>q. mem_open f e = Inr q \<and> seq_inv q \<and> seq_rest q = c"
proof -
  obtain a fs where a: "map_of (env_map e) f = Some (Some a)" "env_files e a = Some fs" "c = file_contents fs"
    using assms(2) by (auto simp: mem_lookup_def split: option.splits)
  have "file_inv fs" using mem_inv_bound [OF assms(1) a(1)] a(2) by auto
  then show ?thesis using a
    by (simp add: mem_open_def NewSequentialFile_def mem_Ref_def seq_inv_def seq_rest_def FileState_Ref_def file_inv_def file_contents_def)
qed

interpretation mem_db: db_env "mem_db_env crc" seq_inv seq_rest mem_inv mem_lookup mem_opened
proof (rule db_env.intro)
  show "readable_file (io_Read (mem_db_env crc)) (io_Skip (mem_db_env crc)) seq_inv seq_rest"
    by (simp add: mem_db_env_def seqfile.readable_file_axioms)
  have still: "io_Flush (mem_db_env crc) h e = (OK, e)" "io_Sync (mem_db_env crc) h e = (OK, e)" "io_Close (mem_db_env crc) h e = (OK, e)" for h e
    by (simp_all add: mem_db_env_def)
  show "db_env_axioms (mem_db_env crc) seq_inv seq_rest mem_inv mem_lookup mem_opened"
  proof (rule db_env_axioms.intro)
    fix e h f d c src dst
    assume inv: "mem_inv e"
    show "\<exists>h e'. io_NewWritableFile (mem_db_env crc) f e = (Inr h, e') \<and> mem_inv e' \<and> mem_lookup e' = (mem_lookup e)(f \<mapsto> []) \<and>
        mem_opened e' h f \<and> (\<forall>h' g. g \<noteq> f \<longrightarrow> mem_opened e h' g \<longrightarrow> mem_opened e' h' g)"
      using mem_writable [OF inv, of f] by (auto simp: mem_db_env_def)
    show "mem_lookup e f \<noteq> None" if "mem_opened e h f"
      using mem_inv_bound [OF inv, of f] that by (auto simp: mem_opened_def mem_lookup_def)
    show "\<exists>e'. io_Append (mem_db_env crc) h d e = (OK, e') \<and> mem_inv e' \<and> mem_lookup e' = (mem_lookup e)(f \<mapsto> the (mem_lookup e f) @ d) \<and>
        mem_opened e' = mem_opened e" if "mem_opened e h f"
      using mem_append [OF inv that] by (simp add: mem_db_env_def)
    show "\<exists>q. io_NewSequentialFile (mem_db_env crc) f e = Inr q \<and> seq_inv q \<and> seq_rest q = c" if "mem_lookup e f = Some c"
      using mem_open_reads [OF inv that] by (simp add: mem_db_env_def)
    show "\<exists>e'. io_RenameFile (mem_db_env crc) src dst e = (OK, e') \<and> mem_inv e' \<and> mem_lookup e' = (mem_lookup e)(src := None, dst \<mapsto> c) \<and>
        (\<forall>h g. g \<noteq> src \<longrightarrow> g \<noteq> dst \<longrightarrow> mem_opened e h g \<longrightarrow> mem_opened e' h g)" if "mem_lookup e src = Some c" "src \<noteq> dst"
      using mem_rename [OF inv that] by (auto simp: mem_db_env_def)
  qed (use still in blast)+
qed

subsection \<open>Recovery\<close>

text \<open>The bytes of the manifest after a run.\<close>

definition manifest_after ::
  "('e \<Rightarrow> slice \<Rightarrow> slice option) \<Rightarrow> ('h, 'q, 'e) DbEnv \<Rightarrow> VSOptions \<Rightarrow> slice \<Rightarrow> edit_step list \<Rightarrow> 'h VersionSet \<Rightarrow> 'e \<Rightarrow> slice" where
  "manifest_after lookup env opts dbname steps vs e =
     the (lookup (snd (snd (log_edits env opts bytewise_icmp dbname steps vs e))) (DescriptorFileName dbname (vs_manifest_file_number vs)))"

text \<open>The second version set has the files and the counters of the first; its next file number is one larger.\<close>

definition same_state :: "'h VersionSet \<Rightarrow> 'h VersionSet \<Rightarrow> bool" where
  "same_state vs vs2 \<longleftrightarrow> vs_abs vs2 = vs_abs vs \<and> vs_log_number vs2 = vs_log_number vs \<and> vs_prev_log_number vs2 = vs_prev_log_number vs \<and>
     vs_last_sequence vs2 = vs_last_sequence vs \<and> vs_next_file_number vs2 = vs_next_file_number vs + 1"

lemma new_VersionSet_ok:
  "version_ok icmp (vs_heap new_VersionSet) (vs_next new_VersionSet) (v_files (vs_current new_VersionSet))"
  "version_numbers (vs_heap new_VersionSet) (v_files (vs_current new_VersionSet)) = {}"
  "version_abs (vs_heap new_VersionSet) (v_files (vs_current new_VersionSet)) = (\<lambda>_. {})"
  by (simp_all add: new_VersionSet_def new_Version_def version_ok_def version_numbers_def version_abs_def level_abs_def fun_eq_iff)

lemma install_replayed:
  fixes vs :: "'h VersionSet"
  assumes ne: "es \<noteq> []" and es: "\<forall>e\<in>set es. edit_ok e \<and> comparator_matches opts e \<and> edit_levels e" "fresh_numbers {} es"
    and el: "last_numbers (last es) vsk" and A: "fold apply_edit es (\<lambda>_. {}) = vs_abs vsk" and opts: "\<not> o_force_delete_level0_file opts"
    and rc: "rc = fold (recover_record opts bytewise_icmp) (map (\<lambda>e. VersionEdit_EncodeTo e []) es) (initial_recover (new_VersionSet :: 'h VersionSet))"
  shows "\<exists>save vs2 e'. install_recovered env opts bytewise_icmp dscname current rc vs e = ((OK, save), vs2, e') \<and>
    vs_ok bytewise_icmp UNIV vs2 \<and> same_state vsk vs2"
proof -
  have ok: "\<forall>e\<in>set es. edit_ok e \<and> comparator_matches opts e" and lv: "\<forall>e\<in>set es. edit_levels e" using es(1) by auto
  let ?vs = "new_VersionSet :: 'h VersionSet"
  have R: "rc_status rc = OK" "rc_builder rc = fold (Builder_Apply bytewise_icmp) es
      (new_Builder (v_files (vs_current ?vs)) (vs_heap ?vs) (vs_next ?vs) (vs_compact_pointer ?vs))"
    unfolding rc using recover_records [OF ok, of _ bytewise_icmp] by (simp_all add: initial_recover_def)
  obtain es' el where sp: "es = es' @ [el]" using ne by (cases es rule: rev_cases) auto
  have N: "rc_log_number rc = Some (vs_log_number vsk)" "rc_prev_log_number rc = Some (vs_prev_log_number vsk)"
    "rc_next_file rc = Some (vs_next_file_number vsk)" "rc_last_sequence rc = Some (vs_last_sequence vsk)"
    using el ok unfolding rc sp last_numbers_def by (simp_all add: recover_last)
  have fr: "fresh_numbers (version_numbers (vs_heap ?vs) (v_files (vs_current ?vs))) es" using es(2) by (simp only: new_VersionSet_ok)
  note B = bytewise_user.Builder_run [OF new_VersionSet_ok(1) lv fr R(2) refl, unfolded new_VersionSet_ok(3) A]
  obtain save vs2 e' where I: "install_recovered env opts bytewise_icmp dscname current rc vs e = ((OK, save), vs2, e')"
    "v_files (vs_current vs2) = v_files (Builder_SaveTo bytewise_icmp (rc_builder rc) new_Version)" "vs_heap vs2 = b_heap (rc_builder rc)"
    "vs_next vs2 = b_next (rc_builder rc)" "vs_log_number vs2 = vs_log_number vsk" "vs_prev_log_number vs2 = vs_prev_log_number vsk"
    "vs_last_sequence vs2 = vs_last_sequence vsk" "vs_next_file_number vs2 = vs_next_file_number vsk + 1"
    using install_recovered_ok [OF R(1) N(3,1,4,2) opts refl, of env bytewise_icmp dscname current vs e] by blast
  show ?thesis using I B by (simp add: vs_ok_def same_state_def vs_abs_def)
qed


text \<open>The two edits of the builder's example, logged in memory.\<close>

definition sample_steps :: "edit_step list" where
  "sample_steps = map (\<lambda>edit. (9, 6, edit)) sample_edits"

definition sample_options :: VSOptions where
  "sample_options = \<lparr>o_max_file_size = 2097152, o_l0_base_ratio = 1, o_size_ratio = 10, o_reuse_logs = False, o_force_delete_level0_file = False,
     o_force_disable_compaction = False, o_seek_compaction = False, o_comparator_name = str ''leveldb.BytewiseComparator''\<rparr>"

lemma sample_steps_ok:
  "sample_steps \<noteq> []" "\<forall>edit\<in>set (step_edits sample_steps). edit_ok edit \<and> comparator_matches sample_options edit \<and> edit_levels edit"
  "fresh_numbers {} (step_edits sample_steps)"
proof -
  have s: "step_edits sample_steps = sample_edits" by (simp add: step_edits_def sample_steps_def comp_def)
  have f: "fits32 (MakeInternalKey k n t)" if "length k < 100" for k n t
    using that by (simp add: fits32_def MakeInternalKey_eq)
  show "\<forall>edit\<in>set (step_edits sample_steps). edit_ok edit \<and> comparator_matches sample_options edit \<and> edit_levels edit"
    unfolding s by (simp add: sample_edits_def edit_levels_def edit_ok_def comparator_matches_def VersionEdit_AddFile_def
        VersionEdit_DeleteFile_def new_VersionEdit_def new_FileMetaData_def kNumLevels_def f)
  show "fresh_numbers {} (step_edits sample_steps)"
    unfolding s by (simp add: sample_edits_def new_numbers_def VersionEdit_AddFile_def VersionEdit_DeleteFile_def new_VersionEdit_def new_FileMetaData_def)
  show "sample_steps \<noteq> []" by (simp add: sample_steps_def sample_edits_def)
qed


end
