(* ===== verification/Compaction.thy ===== *)
theory Compaction
  imports VersionSet
begin

text \<open>
  Choosing the inputs of a compaction (db/version_set.cc) and the questions that a running
  compaction asks about the levels below.

  \<open>None\<close> stands for a loop of \<open>GetOverlappingInputs\<close> that does not end; it does, so \<open>None\<close> does not occur. File sizes and
  limits are natural numbers: the product of a limit is computed in \<open>int\<close> by the code and
  overflows for files from 86 megabytes on. Files that the code takes from an empty level are unspecified.
\<close>

subsection \<open>State\<close>

record Compaction =
  c_level :: nat
  c_max_output_file_size :: nat
  c_input_version :: "(nat \<times> Version) option"
  c_edit :: VersionEdit
  c_inputs0 :: "fptr list"
  c_inputs1 :: "fptr list"
  c_grandparents :: "fptr list"
  c_grandparent_index :: nat
  c_seen_key :: bool
  c_overlapped_bytes :: nat
  c_level_ptrs :: "nat list"

definition TargetFileSize :: "VSOptions \<Rightarrow> nat" where
  "TargetFileSize opts = o_max_file_size opts"

definition ExpandedCompactionByteSizeLimit :: "VSOptions \<Rightarrow> nat" where
  "ExpandedCompactionByteSizeLimit opts = 25 * TargetFileSize opts"

definition MaxFileSizeForLevel :: "VSOptions \<Rightarrow> nat \<Rightarrow> nat" where
  "MaxFileSizeForLevel opts level = TargetFileSize opts"

definition new_Compaction :: "VSOptions \<Rightarrow> nat \<Rightarrow> Compaction" where
  "new_Compaction opts level =
     \<lparr>c_level = level, c_max_output_file_size = MaxFileSizeForLevel opts level, c_input_version = None, c_edit = new_VersionEdit,
      c_inputs0 = [], c_inputs1 = [], c_grandparents = [], c_grandparent_index = 0, c_seen_key = False, c_overlapped_bytes = 0,
      c_level_ptrs = replicate kNumLevels 0\<rparr>"

subsection \<open>Ranges\<close>

text \<open>The range of an empty list of files is not specified.\<close>

fun GetRange_loop :: "(slice \<Rightarrow> slice \<Rightarrow> int) \<Rightarrow> fheap \<Rightarrow> fptr list \<Rightarrow> slice \<times> slice \<Rightarrow> slice \<times> slice" where
  "GetRange_loop icmp h [] r = r"
| "GetRange_loop icmp h (f # fs) (smallest, largest) =
     GetRange_loop icmp h fs
       (if icmp (f_smallest (h f)) smallest < 0 then f_smallest (h f) else smallest,
        if icmp (f_largest (h f)) largest > 0 then f_largest (h f) else largest)"

definition GetRange :: "(slice \<Rightarrow> slice \<Rightarrow> int) \<Rightarrow> fheap \<Rightarrow> fptr list \<Rightarrow> slice \<times> slice" where
  "GetRange icmp h inputs = GetRange_loop icmp h (tl inputs) (f_smallest (h (hd inputs)), f_largest (h (hd inputs)))"

definition GetRange2 :: "(slice \<Rightarrow> slice \<Rightarrow> int) \<Rightarrow> fheap \<Rightarrow> fptr list \<Rightarrow> fptr list \<Rightarrow> slice \<times> slice" where
  "GetRange2 icmp h inputs1 inputs2 = GetRange icmp h (inputs1 @ inputs2)"

definition overlapping :: "(slice \<Rightarrow> slice \<Rightarrow> int) \<Rightarrow> 'h VersionSet \<Rightarrow> nat \<Rightarrow> slice \<times> slice \<Rightarrow> fptr list option" where
  "overlapping ucmp vs level r = GetOverlappingInputs ucmp (vs_heap vs) (vs_current vs) level (Some (fst r)) (Some (snd r))"

definition MaxNextLevelOverlappingBytes :: "(slice \<Rightarrow> slice \<Rightarrow> int) \<Rightarrow> 'h VersionSet \<Rightarrow> nat option" where
  "MaxNextLevelOverlappingBytes ucmp vs =
     fold (\<lambda>level result. fold (\<lambda>f result. Option.bind result (\<lambda>m.
         map_option (\<lambda>overlaps. let sum = TotalFileSize (vs_heap vs) overlaps in if sum > m then sum else m)
           (overlapping ucmp vs (level + 1) (f_smallest (vs_heap vs f), f_largest (vs_heap vs f)))))
       (v_files (vs_current vs) ! level) result) [1..<kNumLevels - 1] (Some 0)"

subsection \<open>Inputs\<close>

text \<open>
  The attempt to take more files from the level without taking more from the next one: the
  inputs and the range of the level's inputs.
\<close>

definition expand_inputs ::
  "VSOptions \<Rightarrow> (slice \<Rightarrow> slice \<Rightarrow> int) \<Rightarrow> 'h VersionSet \<Rightarrow> nat \<Rightarrow> fptr list \<Rightarrow> fptr list \<Rightarrow> slice \<times> slice \<Rightarrow>
   (fptr list \<times> fptr list \<times> slice \<times> slice) option" where
  "expand_inputs opts ucmp vs level inputs0 inputs1 range' =
     (let h = vs_heap vs; icmp = InternalKey_Compare ucmp in
      if inputs1 = [] then Some (inputs0, inputs1, range')
      else Option.bind (overlapping ucmp vs level (GetRange2 icmp h inputs0 inputs1)) (\<lambda>expanded0.
        if length expanded0 > length inputs0 \<and>
           TotalFileSize h inputs1 + TotalFileSize h expanded0 < ExpandedCompactionByteSizeLimit opts
        then Option.bind (overlapping ucmp vs (level + 1) (GetRange icmp h expanded0)) (\<lambda>expanded1.
               if length expanded1 = length inputs1 then Some (expanded0, expanded1, GetRange icmp h expanded0)
               else Some (inputs0, inputs1, range'))
        else Some (inputs0, inputs1, range')))"

definition SetupOtherInputs ::
  "VSOptions \<Rightarrow> (slice \<Rightarrow> slice \<Rightarrow> int) \<Rightarrow> Compaction \<Rightarrow> 'h VersionSet \<Rightarrow> (Compaction \<times> 'h VersionSet) option" where
  "SetupOtherInputs opts ucmp c vs =
     (let level = c_level c; h = vs_heap vs; icmp = InternalKey_Compare ucmp; range' = GetRange icmp h (c_inputs0 c) in
      Option.bind (overlapping ucmp vs (level + 1) range') (\<lambda>inputs1.
      Option.bind (expand_inputs opts ucmp vs level (c_inputs0 c) inputs1 range') (\<lambda>(inputs0, inputs1, range').
      Option.bind (if level + 2 < kNumLevels then overlapping ucmp vs (level + 2) (GetRange2 icmp h inputs0 inputs1) else Some (c_grandparents c))
        (\<lambda>grandparents.
          Some (c\<lparr>c_inputs0 := inputs0, c_inputs1 := inputs1, c_grandparents := grandparents,
                  c_edit := SetCompactPointer level (snd range') (c_edit c)\<rparr>,
                vs\<lparr>vs_compact_pointer := (vs_compact_pointer vs)[level := snd range']\<rparr>)))))"

text \<open>The compaction takes a reference on the current version.\<close>

definition take_version :: "Compaction \<Rightarrow> 'h VersionSet \<Rightarrow> Compaction \<times> 'h VersionSet" where
  "take_version c vs =
     (let i = fst (last (vs_versions vs)) in (c\<lparr>c_input_version := Some (i, vs_current vs)\<rparr>, Version_Ref i vs))"

text \<open>The first file after the place where the last compaction of the level ended.\<close>

definition pick_file :: "(slice \<Rightarrow> slice \<Rightarrow> int) \<Rightarrow> 'h VersionSet \<Rightarrow> nat \<Rightarrow> fptr list" where
  "pick_file icmp vs level =
     (let files = v_files (vs_current vs) ! level; cp = vs_compact_pointer vs ! level in
      case find (\<lambda>f. cp = [] \<or> icmp (f_largest (vs_heap vs f)) cp > 0) files of
        Some f \<Rightarrow> [f]
      | None \<Rightarrow> [files ! 0])"

definition PickCompaction ::
  "VSOptions \<Rightarrow> (slice \<Rightarrow> slice \<Rightarrow> int) \<Rightarrow> 'h VersionSet \<Rightarrow> (Compaction option \<times> 'h VersionSet) option" where
  "PickCompaction opts ucmp vs =
     (let icmp = InternalKey_Compare ucmp;
          size_compaction = (\<not> o_force_disable_compaction opts \<and> v_compaction_score (vs_current vs) \<ge> 1);
          seek_compaction = (\<not> o_force_disable_compaction opts \<and> v_file_to_compact (vs_current vs) \<noteq> None \<and> o_seek_compaction opts);
          level = nat (if size_compaction then v_compaction_level (vs_current vs) else v_file_to_compact_level (vs_current vs))
      in if \<not> size_compaction \<and> \<not> seek_compaction then Some (None, vs)
         else
           let inputs0 = (if size_compaction then pick_file icmp vs level else [the (v_file_to_compact (vs_current vs))]);
               (c, vs) = take_version ((new_Compaction opts level)\<lparr>c_inputs0 := inputs0\<rparr>) vs
           in Option.bind (if level = 0 then overlapping ucmp vs 0 (GetRange icmp (vs_heap vs) inputs0) else Some inputs0) (\<lambda>inputs0.
                map_option (\<lambda>(c, vs). (Some c, vs)) (SetupOtherInputs opts ucmp (c\<lparr>c_inputs0 := inputs0\<rparr>) vs)))"

text \<open>The prefix of the files whose total size reaches the limit, with the file that reaches it. The sum is a 64-bit number.\<close>

fun limit_inputs :: "fheap \<Rightarrow> nat \<Rightarrow> u64 \<Rightarrow> fptr list \<Rightarrow> fptr list" where
  "limit_inputs h limit tot [] = []"
| "limit_inputs h limit tot (f # fs) =
     (let tot = tot + f_file_size (h f) in if unat tot \<ge> limit then [f] else f # limit_inputs h limit tot fs)"

definition VS_CompactRange ::
  "VSOptions \<Rightarrow> (slice \<Rightarrow> slice \<Rightarrow> int) \<Rightarrow> nat \<Rightarrow> slice option \<Rightarrow> slice option \<Rightarrow> 'h VersionSet \<Rightarrow> (Compaction option \<times> 'h VersionSet) option" where
  "VS_CompactRange opts ucmp level start limit vs =
     Option.bind (GetOverlappingInputs ucmp (vs_heap vs) (vs_current vs) level start limit) (\<lambda>inputs.
       if inputs = [] then Some (None, vs)
       else
         let inputs = (if level > 0 then limit_inputs (vs_heap vs) (MaxFileSizeForLevel opts level) 0 inputs else inputs);
             (c, vs) = take_version ((new_Compaction opts level)\<lparr>c_inputs0 := inputs\<rparr>) vs
         in map_option (\<lambda>(c, vs). (Some c, vs)) (SetupOtherInputs opts ucmp c vs))"

subsection \<open>A running compaction\<close>

definition IsTrivialMove :: "VSOptions \<Rightarrow> fheap \<Rightarrow> Compaction \<Rightarrow> bool" where
  "IsTrivialMove opts h c \<longleftrightarrow> length (c_inputs0 c) = 1 \<and> length (c_inputs1 c) = 0 \<and>
     TotalFileSize h (c_grandparents c) \<le> MaxGrandParentOverlapBytes (TargetFileSize opts)"

definition AddInputDeletions :: "fheap \<Rightarrow> Compaction \<Rightarrow> VersionEdit \<Rightarrow> VersionEdit" where
  "AddInputDeletions h c edit =
     fold (\<lambda>f e. VersionEdit_DeleteFile (c_level c + 1) (f_number (h f)) e) (c_inputs1 c)
       (fold (\<lambda>f e. VersionEdit_DeleteFile (c_level c) (f_number (h f)) e) (c_inputs0 c) edit)"

text \<open>The scan of one level from the position where the last one ended: whether the key is outside of all files, and the new position.\<close>

function base_scan :: "(slice \<Rightarrow> slice \<Rightarrow> int) \<Rightarrow> fheap \<Rightarrow> slice \<Rightarrow> fptr list \<Rightarrow> nat \<Rightarrow> bool \<times> nat" where
  "base_scan ucmp h ukey files ptr =
     (if ptr < length files then
        let f = files ! ptr in
        if ucmp ukey (largest_user h f) \<le> 0 then (\<not> ucmp ukey (smallest_user h f) \<ge> 0, ptr)
        else base_scan ucmp h ukey files (ptr + 1)
      else (True, ptr))"
  by pat_completeness auto
termination
  by (relation "measure (\<lambda>(ucmp, h, ukey, files, ptr). length files - ptr)") auto

declare base_scan.simps [simp del]

fun base_levels :: "(slice \<Rightarrow> slice \<Rightarrow> int) \<Rightarrow> fheap \<Rightarrow> slice \<Rightarrow> fptr list list \<Rightarrow> nat list \<Rightarrow> nat list \<Rightarrow> bool \<times> nat list" where
  "base_levels ucmp h ukey files [] ptrs = (True, ptrs)"
| "base_levels ucmp h ukey files (lvl # lvls) ptrs =
     (case base_scan ucmp h ukey (files ! lvl) (ptrs ! lvl) of
        (outside, p) \<Rightarrow> if outside then base_levels ucmp h ukey files lvls (ptrs[lvl := p]) else (False, ptrs[lvl := p]))"

definition IsBaseLevelForKey :: "(slice \<Rightarrow> slice \<Rightarrow> int) \<Rightarrow> fheap \<Rightarrow> slice \<Rightarrow> Compaction \<Rightarrow> bool \<times> Compaction" where
  "IsBaseLevelForKey ucmp h ukey c =
     (case base_levels ucmp h ukey (v_files (snd (the (c_input_version c)))) [c_level c + 2..<kNumLevels] (c_level_ptrs c) of
        (r, ptrs) \<Rightarrow> (r, c\<lparr>c_level_ptrs := ptrs\<rparr>))"

function skip_grandparents :: "(slice \<Rightarrow> slice \<Rightarrow> int) \<Rightarrow> fheap \<Rightarrow> slice \<Rightarrow> fptr list \<Rightarrow> bool \<Rightarrow> nat \<Rightarrow> nat \<Rightarrow> nat \<times> nat" where
  "skip_grandparents icmp h ikey gs seen i bytes =
     (if i < length gs \<and> icmp ikey (f_largest (h (gs ! i))) > 0
      then skip_grandparents icmp h ikey gs seen (i + 1) (if seen then bytes + unat (f_file_size (h (gs ! i))) else bytes)
      else (i, bytes))"
  by pat_completeness auto
termination
  by (relation "measure (\<lambda>(icmp, h, ikey, gs, seen, i, bytes). length gs - i)") auto

declare skip_grandparents.simps [simp del]

definition ShouldStopBefore :: "VSOptions \<Rightarrow> (slice \<Rightarrow> slice \<Rightarrow> int) \<Rightarrow> fheap \<Rightarrow> slice \<Rightarrow> Compaction \<Rightarrow> bool \<times> Compaction" where
  "ShouldStopBefore opts icmp h ikey c =
     (let (i, bytes) = skip_grandparents icmp h ikey (c_grandparents c) (c_seen_key c) (c_grandparent_index c) (c_overlapped_bytes c);
          c = c\<lparr>c_grandparent_index := i, c_overlapped_bytes := bytes, c_seen_key := True\<rparr>
      in if bytes > MaxGrandParentOverlapBytes (TargetFileSize opts) then (True, c\<lparr>c_overlapped_bytes := 0\<rparr>) else (False, c))"

definition ReleaseInputs :: "Compaction \<Rightarrow> 'h VersionSet \<Rightarrow> Compaction \<times> 'h VersionSet" where
  "ReleaseInputs c vs =
     (case c_input_version c of
        None \<Rightarrow> (c, vs)
      | Some (i, v) \<Rightarrow> (c\<lparr>c_input_version := None\<rparr>, Version_Unref i vs))"

end
