(* ===== verification/CompactionDrop.thy ===== *)
theory CompactionDrop
  imports Compaction
begin

text \<open>
  Which entries a compaction drops: the part of \<open>DBImpl::DoCompactionWork\<close> (db/db_impl.cc) that decides for each key of the
  merged input whether it is written to the output, and that no read that is still possible
  can tell the difference.
\<close>

subsection \<open>The decision\<close>

text \<open>\<open>ds_current_user_key\<close> is \<open>None\<close> if \<open>has_current_user_key\<close> is false.\<close>

record drop_state =
  ds_current_user_key :: "slice option"
  ds_last_sequence_for_key :: u64
  ds_compaction :: Compaction

definition initial_drop :: "Compaction \<Rightarrow> drop_state" where
  "initial_drop c = \<lparr>ds_current_user_key = None, ds_last_sequence_for_key = kMaxSequenceNumber, ds_compaction = c\<rparr>"

definition drop_step :: "(slice \<Rightarrow> slice \<Rightarrow> int) \<Rightarrow> fheap \<Rightarrow> u64 \<Rightarrow> slice \<Rightarrow> drop_state \<Rightarrow> bool \<times> drop_state" where
  "drop_step ucmp h smallest_snapshot key ds =
     (case ParseInternalKey key of
        None \<Rightarrow> (False, ds\<lparr>ds_current_user_key := None, ds_last_sequence_for_key := kMaxSequenceNumber\<rparr>)
      | Some ikey \<Rightarrow>
          let first = (case ds_current_user_key ds of None \<Rightarrow> True | Some k \<Rightarrow> ucmp (user_key ikey) k \<noteq> 0);
              ds = (if first then ds\<lparr>ds_current_user_key := Some (user_key ikey), ds_last_sequence_for_key := kMaxSequenceNumber\<rparr> else ds);
              (drop', c) =
                (if ds_last_sequence_for_key ds \<le> smallest_snapshot then (True, ds_compaction ds)
                 else if type ikey = kTypeDeletion \<and> sequence ikey \<le> smallest_snapshot
                 then IsBaseLevelForKey ucmp h (user_key ikey) (ds_compaction ds)
                 else (False, ds_compaction ds))
          in (drop', ds\<lparr>ds_last_sequence_for_key := sequence ikey, ds_compaction := c\<rparr>))"

text \<open>The entries of an input that are written, in order.\<close>

fun kept :: "(slice \<Rightarrow> slice \<Rightarrow> int) \<Rightarrow> fheap \<Rightarrow> u64 \<Rightarrow> (slice \<times> slice) list \<Rightarrow> drop_state \<Rightarrow> (slice \<times> slice) list" where
  "kept ucmp h snap [] ds = []"
| "kept ucmp h snap (e # es) ds =
     (case drop_step ucmp h snap (fst e) ds of
        (drop', ds) \<Rightarrow> if drop' then kept ucmp h snap es ds else e # kept ucmp h snap es ds)"

subsection \<open>The base level\<close>

text \<open>A file of the list covers the user key.\<close>

definition covered :: "(slice \<Rightarrow> slice \<Rightarrow> int) \<Rightarrow> fheap \<Rightarrow> fptr list \<Rightarrow> slice \<Rightarrow> bool" where
  "covered ucmp h files ukey \<longleftrightarrow> (\<exists>f\<in>set files. ucmp (smallest_user h f) ukey \<le> 0 \<and> ucmp ukey (largest_user h f) \<le> 0)"

definition ptrs_ok :: "(slice \<Rightarrow> slice \<Rightarrow> int) \<Rightarrow> fheap \<Rightarrow> fptr list list \<Rightarrow> nat list \<Rightarrow> slice \<Rightarrow> bool" where
  "ptrs_ok ucmp h fss ptrs ukey \<longleftrightarrow> length ptrs = kNumLevels \<and>
     (\<forall>lvl<kNumLevels. \<forall>i<ptrs ! lvl. i < length (fss ! lvl) \<longrightarrow> ucmp (largest_user h (fss ! lvl ! i)) ukey < 0)"

context user_comparator
begin

lemma base_scan_correct:
  assumes sorted: "sorted_files icmp h files" and before: "\<forall>i<ptr. i < length files \<longrightarrow> ucmp (largest_user h (files ! i)) ukey < 0"
  shows "(fst (base_scan ucmp h ukey files ptr) \<longleftrightarrow> \<not> covered ucmp h files ukey) \<and>
    (\<forall>i. i < snd (base_scan ucmp h ukey files ptr) \<longrightarrow> i < length files \<longrightarrow> ucmp (largest_user h (files ! i)) ukey < 0)"
  using before
proof (induction "length files - ptr" arbitrary: ptr)
  case 0
  then have "\<not> covered ucmp h files ukey" unfolding covered_def by (auto simp: in_set_conv_nth ucmp_le_iff)
  then show ?case using 0 by (subst (1 2) base_scan.simps) simp
next
  case (Suc n)
  have p: "ptr < length files" using Suc(2) by simp
  let ?f = "files ! ptr"
  show ?case
  proof (cases "ucmp ukey (largest_user h ?f) \<le> 0")
    case True
    have "covered ucmp h files ukey \<longleftrightarrow> ucmp (smallest_user h ?f) ukey \<le> 0"
    proof
      assume "covered ucmp h files ukey"
      then obtain i where i: "i < length files" "ucmp (smallest_user h (files ! i)) ukey \<le> 0" "ucmp ukey (largest_user h (files ! i)) \<le> 0"
        by (auto simp: covered_def in_set_conv_nth)
      have "ptr \<le> i" using Suc.prems i by (meson ucmp_le_iff not_le_imp_less)
      then show "ucmp (smallest_user h ?f) ukey \<le> 0"
        using smallest_user_sorted(2) [OF sorted, of ptr i] i ucmp_le_trans by (cases "ptr = i") auto
    qed (use True p in \<open>auto simp: covered_def\<close>)
    then show ?thesis using True p Suc.prems cmp_swap [of ukey "smallest_user h ?f"] by (subst (1 2) base_scan.simps) (auto simp: Let_def)
  next
    case False
    then have "\<forall>i<ptr + 1. i < length files \<longrightarrow> ucmp (largest_user h (files ! i)) ukey < 0"
      using Suc.prems cmp_swap [of "largest_user h ?f" ukey] by (auto simp: less_Suc_eq)
    from Suc(1) [OF _ this] Suc(2) False p show ?thesis by (subst (1 2) base_scan.simps) (simp add: Let_def)
  qed
qed

lemma base_levels_correct:
  assumes "\<forall>lvl\<in>set lvls. lvl < kNumLevels \<and> sorted_files icmp h (fss ! lvl)" "ptrs_ok ucmp h fss ptrs ukey"
  shows "fst (base_levels ucmp h ukey fss lvls ptrs) \<longleftrightarrow> (\<forall>lvl\<in>set lvls. \<not> covered ucmp h (fss ! lvl) ukey)"
    "ptrs_ok ucmp h fss (snd (base_levels ucmp h ukey fss lvls ptrs)) ukey"
proof -
  have "(fst (base_levels ucmp h ukey fss lvls ptrs) \<longleftrightarrow> (\<forall>lvl\<in>set lvls. \<not> covered ucmp h (fss ! lvl) ukey)) \<and>
    ptrs_ok ucmp h fss (snd (base_levels ucmp h ukey fss lvls ptrs)) ukey"
    using assms
  proof (induction lvls arbitrary: ptrs)
    case (Cons lvl lvls)
    obtain out p where b: "base_scan ucmp h ukey (fss ! lvl) (ptrs ! lvl) = (out, p)" by fastforce
    have lvl: "lvl < kNumLevels" "sorted_files icmp h (fss ! lvl)" using Cons.prems(1) by auto
    have "\<forall>i<ptrs ! lvl. i < length (fss ! lvl) \<longrightarrow> ucmp (largest_user h (fss ! lvl ! i)) ukey < 0"
      using Cons.prems(2) lvl(1) by (simp add: ptrs_ok_def)
    from base_scan_correct [OF lvl(2) this] b
    have B: "out \<longleftrightarrow> \<not> covered ucmp h (fss ! lvl) ukey" "\<forall>i<p. i < length (fss ! lvl) \<longrightarrow> ucmp (largest_user h (fss ! lvl ! i)) ukey < 0" by auto
    have "ptrs_ok ucmp h fss (ptrs[lvl := p]) ukey"
      using Cons.prems(2) B(2) lvl(1) unfolding ptrs_ok_def by (metis length_list_update nth_list_update_eq nth_list_update_neq)
    then show ?case using Cons.IH [of "ptrs[lvl := p]"] Cons.prems(1) b B(1) by auto
  qed auto
  then show "fst (base_levels ucmp h ukey fss lvls ptrs) \<longleftrightarrow> (\<forall>lvl\<in>set lvls. \<not> covered ucmp h (fss ! lvl) ukey)"
    "ptrs_ok ucmp h fss (snd (base_levels ucmp h ukey fss lvls ptrs)) ukey" by blast+
qed

lemma ptrs_ok_later:
  "ptrs_ok ucmp h fss ptrs ukey \<Longrightarrow> ucmp ukey ukey' \<le> 0 \<Longrightarrow> ptrs_ok ucmp h fss ptrs ukey'"
proof -
  assume a: "ptrs_ok ucmp h fss ptrs ukey" "ucmp ukey ukey' \<le> 0"
  have "ucmp k ukey < 0 \<Longrightarrow> ucmp k ukey' < 0" for k
    using a(2) cmp_trans [of k ukey ukey'] cmp_zero [of ukey ukey'] by (cases "ucmp ukey ukey' < 0") auto
  then show ?thesis using a(1) by (simp add: ptrs_ok_def)
qed

end

subsection \<open>What is kept\<close>

text \<open>The user key, the sequence number and the type of an entry.\<close>

definition e_user :: "slice \<times> slice \<Rightarrow> slice" where "e_user e = ExtractUserKey (fst e)"
definition e_seq :: "slice \<times> slice \<Rightarrow> u64" where "e_seq e = drop_bit 8 (ExtractTag (fst e))"
definition e_type :: "slice \<times> slice \<Rightarrow> ValueType" where "e_type e = type (the (ParseInternalKey (fst e)))"

definition entries_ok :: "(slice \<Rightarrow> slice \<Rightarrow> int) \<Rightarrow> (slice \<times> slice) list \<Rightarrow> bool" where
  "entries_ok icmp es \<longleftrightarrow> sorted_wrt (\<lambda>a b. icmp (fst a) (fst b) < 0) es \<and> (\<forall>e\<in>set es. ParseInternalKey (fst e) \<noteq> None)"

text \<open>No file below the output level covers the user key.\<close>

definition base_key :: "(slice \<Rightarrow> slice \<Rightarrow> int) \<Rightarrow> fheap \<Rightarrow> Compaction \<Rightarrow> slice \<Rightarrow> bool" where
  "base_key ucmp h c ukey \<longleftrightarrow>
     (\<forall>lvl\<in>{c_level c + 2..<kNumLevels}. \<not> covered ucmp h (v_files (snd (the (c_input_version c))) ! lvl) ukey)"

definition lower_ok :: "(slice \<Rightarrow> slice \<Rightarrow> int) \<Rightarrow> fheap \<Rightarrow> Compaction \<Rightarrow> bool" where
  "lower_ok icmp h c \<longleftrightarrow> (\<forall>lvl\<in>{c_level c + 2..<kNumLevels}. sorted_files icmp h (v_files (snd (the (c_input_version c))) ! lvl))"

text \<open>
  Newer entries than the oldest snapshot stay; of the others only the newest of each key, unless it is a deletion of a
  key that no lower level has.
\<close>

definition survives :: "(slice \<Rightarrow> slice \<Rightarrow> int) \<Rightarrow> (slice \<Rightarrow> bool) \<Rightarrow> u64 \<Rightarrow> (slice \<times> slice) set \<Rightarrow> slice \<times> slice \<Rightarrow> bool" where
  "survives icmp base snap S e \<longleftrightarrow> e_seq e > snap \<or>
     (\<forall>e'\<in>S. e_user e' = e_user e \<and> e_seq e' \<le> snap \<longrightarrow> \<not> icmp (fst e') (fst e) < 0) \<and> \<not> (e_type e = kTypeDeletion \<and> base (e_user e))"

definition drop_rel :: "Compaction \<Rightarrow> (slice \<times> slice) list \<Rightarrow> drop_state \<Rightarrow> bool" where
  "drop_rel c pre ds \<longleftrightarrow> ds_current_user_key ds = (if pre = [] then None else Some (e_user (last pre))) \<and>
     ds_last_sequence_for_key ds = (if pre = [] then kMaxSequenceNumber else e_seq (last pre)) \<and>
     c_level (ds_compaction ds) = c_level c \<and> c_input_version (ds_compaction ds) = c_input_version c"

lemma seq_mono:
  assumes "ExtractTag a \<le> ExtractTag b"
  shows "drop_bit 8 (ExtractTag a) \<le> drop_bit 8 (ExtractTag b)"
proof -
  have "unat (ExtractTag a) div 256 \<le> unat (ExtractTag b) div 256" using assms by (intro div_le_mono) (simp add: word_le_nat_alt)
  then show ?thesis by (simp add: word_le_nat_alt drop_bit_eq_div unat_div_distrib)
qed

lemma parsed_entry:
  assumes "ParseInternalKey (fst e) = Some p"
  shows "user_key p = e_user e" "sequence p = e_seq e" "type p = e_type e" "ikey_wf (fst e)"
  using ParseInternalKey_sound [OF assms] assms by (simp_all add: e_user_def e_seq_def e_type_def)

context user_comparator
begin

lemma hidden_iff:
  assumes ok: "entries_ok icmp (pre @ [e])" and snap: "snap < kMaxSequenceNumber"
  shows "(if pre \<noteq> [] \<and> e_user (last pre) = e_user e then e_seq (last pre) else kMaxSequenceNumber) \<le> snap \<longleftrightarrow>
    (\<exists>e'\<in>set pre. e_user e' = e_user e \<and> e_seq e' \<le> snap)"
proof
  assume "(if pre \<noteq> [] \<and> e_user (last pre) = e_user e then e_seq (last pre) else kMaxSequenceNumber) \<le> snap"
  then show "\<exists>e'\<in>set pre. e_user e' = e_user e \<and> e_seq e' \<le> snap" using snap by (auto split: if_splits)
next
  assume "\<exists>e'\<in>set pre. e_user e' = e_user e \<and> e_seq e' \<le> snap"
  then obtain e' where e': "e' \<in> set pre" "e_user e' = e_user e" "e_seq e' \<le> snap" by blast
  then have ne: "pre \<noteq> []" by auto
  have le: "e' = last pre \<or> icmp (fst e') (fst (last pre)) < 0"
    using ok e'(1) ne by (cases pre rule: rev_cases) (auto simp: entries_ok_def sorted_wrt_append)
  have lt: "icmp (fst (last pre)) (fst e) < 0" using ok ne by (auto simp: entries_ok_def sorted_wrt_append)
  have same: "e_user (last pre) = e_user e"
    using le
  proof
    assume "icmp (fst e') (fst (last pre)) < 0"
    then have "ucmp (e_user e) (e_user (last pre)) < 0 \<or> e_user e = e_user (last pre)" "ucmp (e_user (last pre)) (e_user e) < 0 \<or> e_user (last pre) = e_user e"
      using lt e'(2) by (auto simp: icmp_iff e_user_def)
    then show ?thesis using cmp_swap [of "e_user e" "e_user (last pre)"] by auto
  qed (use e' in simp)
  have "e_seq (last pre) \<le> e_seq e'"
    using le
  proof
    assume "icmp (fst e') (fst (last pre)) < 0"
    then have "ExtractTag (fst (last pre)) < ExtractTag (fst e')"
      using same e'(2) cmp_refl [of "e_user e"] by (auto simp: icmp_iff e_user_def)
    then show ?thesis using seq_mono [of "fst (last pre)" "fst e'"] by (simp add: e_seq_def)
  qed simp
  then show "(if pre \<noteq> [] \<and> e_user (last pre) = e_user e then e_seq (last pre) else kMaxSequenceNumber) \<le> snap"
    using ne same e'(3) by simp
qed

lemma IsBaseLevelForKey_correct:
  assumes "lower_ok icmp h c" "ptrs_ok ucmp h (v_files (snd (the (c_input_version c)))) (c_level_ptrs c) ukey" "IsBaseLevelForKey ucmp h ukey c = (r, c')"
  shows "r \<longleftrightarrow> base_key ucmp h c ukey" "c_level c' = c_level c" "c_input_version c' = c_input_version c"
    "ptrs_ok ucmp h (v_files (snd (the (c_input_version c)))) (c_level_ptrs c') ukey"
proof -
  let ?fss = "v_files (snd (the (c_input_version c)))"
  obtain ptrs where b: "base_levels ucmp h ukey ?fss [c_level c + 2..<kNumLevels] (c_level_ptrs c) = (r, ptrs)" "c' = c\<lparr>c_level_ptrs := ptrs\<rparr>"
    using assms(3) by (auto simp: IsBaseLevelForKey_def split: prod.splits)
  have "\<forall>lvl\<in>set [c_level c + 2..<kNumLevels]. lvl < kNumLevels \<and> sorted_files icmp h (?fss ! lvl)" using assms(1) by (simp add: lower_ok_def)
  from base_levels_correct [OF this assms(2)] b show "r \<longleftrightarrow> base_key ucmp h c ukey" "c_level c' = c_level c" "c_input_version c' = c_input_version c"
    "ptrs_ok ucmp h ?fss (c_level_ptrs c') ukey" by (simp_all add: base_key_def)
qed

lemma drop_step_correct:
  assumes rel: "drop_rel c pre ds" and ok: "entries_ok icmp (pre @ [e])" and snap: "snap < kMaxSequenceNumber" and lower: "lower_ok icmp h c"
    and ptrs: "ptrs_ok ucmp h (v_files (snd (the (c_input_version c)))) (c_level_ptrs (ds_compaction ds)) (e_user e)"
    and step: "drop_step ucmp h snap (fst e) ds = (d, ds')"
  shows "d \<longleftrightarrow> (\<exists>e'\<in>set pre. e_user e' = e_user e \<and> e_seq e' \<le> snap) \<or> e_type e = kTypeDeletion \<and> e_seq e \<le> snap \<and> base_key ucmp h c (e_user e)"
    "drop_rel c (pre @ [e]) ds'" "ptrs_ok ucmp h (v_files (snd (the (c_input_version c)))) (c_level_ptrs (ds_compaction ds')) (e_user e)"
proof -
  obtain p where p: "ParseInternalKey (fst e) = Some p" using ok by (auto simp: entries_ok_def)
  note pe = parsed_entry [OF p]
  let ?last = "if pre \<noteq> [] \<and> e_user (last pre) = e_user e then e_seq (last pre) else kMaxSequenceNumber"
  let ?c = "ds_compaction ds"
  have first: "(case ds_current_user_key ds of None \<Rightarrow> True | Some k \<Rightarrow> ucmp (e_user e) k \<noteq> 0) \<longleftrightarrow> \<not> (pre \<noteq> [] \<and> e_user (last pre) = e_user e)"
    using rel cmp_zero [of "e_user e" "e_user (last pre)"] by (auto simp: drop_rel_def)
  have st: "drop_step ucmp h snap (fst e) ds =
     (case (if ?last \<le> snap then (True, ?c) else if e_type e = kTypeDeletion \<and> e_seq e \<le> snap then IsBaseLevelForKey ucmp h (e_user e) ?c else (False, ?c))
      of (d, c) \<Rightarrow> (d, ds\<lparr>ds_current_user_key := Some (e_user e), ds_last_sequence_for_key := e_seq e, ds_compaction := c\<rparr>))"
    using first rel by (cases ds) (auto simp: drop_step_def p pe drop_rel_def Let_def split: if_splits prod.splits)
  have c: "c_level ?c = c_level c" "c_input_version ?c = c_input_version c" using rel by (simp_all add: drop_rel_def)
  have lo: "lower_ok icmp h ?c" using lower by (simp add: lower_ok_def c)
  have bk: "base_key ucmp h ?c = base_key ucmp h c" by (simp add: base_key_def [abs_def] c)
  note h = hidden_iff [OF ok snap]
  note I = IsBaseLevelForKey_correct [OF lo, unfolded c bk, OF ptrs]
  consider "?last \<le> snap" | "\<not> ?last \<le> snap" "e_type e = kTypeDeletion" "e_seq e \<le> snap" | "\<not> ?last \<le> snap" "\<not> (e_type e = kTypeDeletion \<and> e_seq e \<le> snap)" by blast
  then show "d \<longleftrightarrow> (\<exists>e'\<in>set pre. e_user e' = e_user e \<and> e_seq e' \<le> snap) \<or> e_type e = kTypeDeletion \<and> e_seq e \<le> snap \<and> base_key ucmp h c (e_user e)"
    "drop_rel c (pre @ [e]) ds'" "ptrs_ok ucmp h (v_files (snd (the (c_input_version c)))) (c_level_ptrs (ds_compaction ds')) (e_user e)"
    unfolding atomize_conj h [symmetric]
  proof cases
    case 1
    then show "(d \<longleftrightarrow> ?last \<le> snap \<or> e_type e = kTypeDeletion \<and> e_seq e \<le> snap \<and> base_key ucmp h c (e_user e)) \<and> drop_rel c (pre @ [e]) ds' \<and>
      ptrs_ok ucmp h (v_files (snd (the (c_input_version c)))) (c_level_ptrs (ds_compaction ds')) (e_user e)"
      using step ptrs unfolding st by (auto simp: drop_rel_def c)
  next
    case 2
    obtain r c' where b: "IsBaseLevelForKey ucmp h (e_user e) ?c = (r, c')" by fastforce
    show "(d \<longleftrightarrow> ?last \<le> snap \<or> e_type e = kTypeDeletion \<and> e_seq e \<le> snap \<and> base_key ucmp h c (e_user e)) \<and> drop_rel c (pre @ [e]) ds' \<and>
      ptrs_ok ucmp h (v_files (snd (the (c_input_version c)))) (c_level_ptrs (ds_compaction ds')) (e_user e)"
      using step I [OF b] 2 unfolding st b by (auto simp: drop_rel_def c)
  next
    case 3
    then show "(d \<longleftrightarrow> ?last \<le> snap \<or> e_type e = kTypeDeletion \<and> e_seq e \<le> snap \<and> base_key ucmp h c (e_user e)) \<and> drop_rel c (pre @ [e]) ds' \<and>
      ptrs_ok ucmp h (v_files (snd (the (c_input_version c)))) (c_level_ptrs (ds_compaction ds')) (e_user e)"
      using step ptrs unfolding st by (auto simp: drop_rel_def c)
  qed
qed

lemma kept_set:
  assumes "drop_rel c pre ds" "entries_ok icmp (pre @ es)" "snap < kMaxSequenceNumber" "lower_ok icmp h c"
    "\<forall>e\<in>set es. ptrs_ok ucmp h (v_files (snd (the (c_input_version c)))) (c_level_ptrs (ds_compaction ds)) (e_user e)"
  shows "set (kept ucmp h snap es ds) = {e \<in> set es. survives icmp (base_key ucmp h c) snap (set (pre @ es)) e}"
  using assms
proof (induction es arbitrary: pre ds)
  case (Cons e es)
  let ?fss = "v_files (snd (the (c_input_version c)))"
  obtain d ds' where st: "drop_step ucmp h snap (fst e) ds = (d, ds')" by fastforce
  have ok: "entries_ok icmp (pre @ [e])" "entries_ok icmp ((pre @ [e]) @ es)" using Cons.prems(2) by (auto simp: entries_ok_def sorted_wrt_append)
  note S = drop_step_correct [OF Cons.prems(1) ok(1) Cons.prems(3,4) _ st]
  have pe: "ptrs_ok ucmp h ?fss (c_level_ptrs (ds_compaction ds)) (e_user e)" using Cons.prems(5) by simp
  have later: "\<forall>e'\<in>set es. ptrs_ok ucmp h ?fss (c_level_ptrs (ds_compaction ds')) (e_user e')"
  proof
    fix e' assume "e' \<in> set es"
    then have "icmp (fst e) (fst e') < 0" using Cons.prems(2) by (auto simp: entries_ok_def sorted_wrt_append)
    then have "ucmp (e_user e) (e_user e') \<le> 0" using cmp_refl [of "e_user e"] by (auto simp: icmp_iff e_user_def)
    then show "ptrs_ok ucmp h ?fss (c_level_ptrs (ds_compaction ds')) (e_user e')" using ptrs_ok_later S(3) [OF pe] by blast
  qed
  have ih: "set (kept ucmp h snap es ds') = {e' \<in> set es. survives icmp (base_key ucmp h c) snap (set (pre @ e # es)) e'}"
    using Cons.IH [OF S(2) [OF pe] ok(2) Cons.prems(3,4) later] by simp
  have order: "icmp (fst e') (fst e) < 0 \<longleftrightarrow> e' \<in> set pre" if "e' \<in> set (pre @ e # es)" for e'
  proof -
    have lt: "\<forall>a\<in>set pre. icmp (fst a) (fst e) < 0" "\<forall>b\<in>set es. icmp (fst e) (fst b) < 0"
      using Cons.prems(2) by (auto simp: entries_ok_def sorted_wrt_append)
    have wf: "ikey_wf (fst a)" if "a \<in> set (pre @ e # es)" for a
      using Cons.prems(2) that parsed_entry(4) by (fastforce simp: entries_ok_def)
    have "\<not> icmp (fst e) (fst e) < 0" using internal.cmp_refl wf [of e] by simp
    moreover have "\<not> icmp (fst b) (fst e) < 0" if "b \<in> set es" for b
      using lt(2) that internal.cmp_swap [of "fst b" "fst e"] wf [of b] wf [of e] by auto
    ultimately show ?thesis using that lt(1) unfolding set_append list.set by blast
  qed
  have "\<not> d \<longleftrightarrow> survives icmp (base_key ucmp h c) snap (set (pre @ e # es)) e"
  proof -
    have "(\<forall>e'\<in>set (pre @ e # es). e_user e' = e_user e \<and> e_seq e' \<le> snap \<longrightarrow> \<not> icmp (fst e') (fst e) < 0) \<longleftrightarrow>
        \<not> (\<exists>e'\<in>set pre. e_user e' = e_user e \<and> e_seq e' \<le> snap)" using order by auto
    moreover have "\<not> e_seq e > snap" if "e' \<in> set pre" "e_user e' = e_user e" "e_seq e' \<le> snap" for e'
    proof -
      have "icmp (fst e') (fst e) < 0" using order that(1) by auto
      then have "ExtractTag (fst e) < ExtractTag (fst e')" using that(2) cmp_refl [of "e_user e"] by (auto simp: icmp_iff e_user_def)
      then have "e_seq e \<le> e_seq e'" using seq_mono [of "fst e" "fst e'"] by (simp add: e_seq_def)
      then show ?thesis using that(3) by (meson not_le order_trans)
    qed
    ultimately show ?thesis using S(1) [OF pe] unfolding survives_def by (meson not_le)
  qed
  then show ?case using ih st by auto
qed simp

end

subsection \<open>Reads\<close>

text \<open>
  What a set of entries answers to a read of a key at a sequence number: the value of the
  newest entry that is not newer; nothing if there is none or it is a deletion.
\<close>

definition visible :: "(slice \<times> slice) set \<Rightarrow> slice \<Rightarrow> u64 \<Rightarrow> slice \<times> slice \<Rightarrow> bool" where
  "visible S k snap e \<longleftrightarrow> e \<in> S \<and> e_user e = k \<and> e_seq e \<le> snap \<and> (\<forall>e'\<in>S. e_user e' = k \<and> e_seq e' \<le> snap \<longrightarrow> e_seq e' \<le> e_seq e)"

definition db_read :: "(slice \<times> slice) set \<Rightarrow> slice \<Rightarrow> u64 \<Rightarrow> slice \<Rightarrow> bool" where
  "db_read S k snap v \<longleftrightarrow> (\<exists>e. visible S k snap e \<and> e_type e = kTypeValue \<and> snd e = v)"

text \<open>The entries of the second set are older than those of the first for the same key.\<close>

definition older :: "(slice \<times> slice) set \<Rightarrow> (slice \<times> slice) set \<Rightarrow> bool" where
  "older S T \<longleftrightarrow> (\<forall>a\<in>S. \<forall>b\<in>T. e_user a = e_user b \<longrightarrow> e_seq b < e_seq a)"

lemma first_satisfying:
  assumes "sorted_wrt R es" "e \<in> set es" "P e"
  shows "\<exists>x\<in>set es. P x \<and> (\<forall>y\<in>set es. P y \<longrightarrow> y = x \<or> R x y)"
proof -
  obtain x xs where x: "filter P es = x # xs" using assms(2,3) by (cases "filter P es") (auto simp: filter_empty_conv)
  have "sorted_wrt R (x # xs)" using sorted_wrt_filter [OF assms(1), of P] x by simp
  moreover have "set (x # xs) = {y \<in> set es. P y}" using x by (metis set_filter)
  ultimately show ?thesis by auto
qed

text \<open>A value comes first among the entries of its key and sequence number.\<close>

lemma value_tag:
  assumes "ParseInternalKey (fst e) \<noteq> None" "ParseInternalKey (fst e') \<noteq> None" "e_type e = kTypeValue" "e_seq e' \<le> e_seq e"
  shows "ExtractTag (fst e') \<le> ExtractTag (fst e)"
proof -
  let ?low = "\<lambda>x. unat (ExtractTag (fst x)) mod 256"
  have low: "unat (ucast (ExtractTag (fst x) AND 0xff) :: byte) = ?low x" for x
  proof -
    have "(ucast (ExtractTag (fst x) AND mask 8) :: byte) = ucast (ExtractTag (fst x))" by (rule bit_word_eqI) (auto simp: bit_simps)
    moreover have "(0xff :: u64) = mask 8" by (simp add: mask_eq_exp_minus_1)
    ultimately show ?thesis by (simp only: unsigned_ucast_eq) (simp add: take_bit_nat_def)
  qed
  have "?low e' \<le> 1" using assms(2) low [of e'] by (auto simp: ParseInternalKey_def Let_def split: if_splits)
  moreover have "?low e = 1"
    using assms(1,3) low [of e] by (auto simp: e_type_def ParseInternalKey_def Let_def unat_eq_0 le_Suc_eq split: if_splits)
  moreover have "unat (ExtractTag (fst e')) div 256 \<le> unat (ExtractTag (fst e)) div 256"
    using assms(4) by (simp add: e_seq_def word_le_nat_alt drop_bit_eq_div unat_div_distrib)
  ultimately have "256 * (unat (ExtractTag (fst e')) div 256) + ?low e' \<le> 256 * (unat (ExtractTag (fst e)) div 256) + ?low e"
    by (intro add_mono mult_le_mono2) simp_all
  then show ?thesis by (simp add: word_le_nat_alt)
qed

lemma visible_kept:
  assumes K: "K = {e \<in> set es. survives icmp base snap0 (set es) e}" and e: "visible (U \<union> set es \<union> D) k snap e" "e_type e = kTypeValue"
    and es: "\<forall>e\<in>set es. ParseInternalKey (fst e) \<noteq> None" "snap0 \<le> snap"
    and icmp: "\<And>a b. icmp a b < 0 \<Longrightarrow> ExtractUserKey a = ExtractUserKey b \<Longrightarrow> ExtractTag b < ExtractTag a"
  shows "visible (U \<union> K \<union> D) k snap e"
proof -
  have "survives icmp base snap0 (set es) e" if "e \<in> set es"
  proof (cases "e_seq e > snap0")
    case False
    have "\<not> icmp (fst e') (fst e) < 0" if "e' \<in> set es" "e_user e' = e_user e" "e_seq e' \<le> snap0" for e'
    proof
      assume "icmp (fst e') (fst e) < 0"
      then have "ExtractTag (fst e) < ExtractTag (fst e')" using icmp that(2) by (simp add: e_user_def)
      moreover have "e_seq e' \<le> e_seq e" using e(1) that es(2) unfolding visible_def by (metis UnI1 UnI2 order_trans)
      ultimately show False using value_tag [of e e'] es(1) that(1) \<open>e \<in> set es\<close> e(2) by (meson not_le)
    qed
    then show ?thesis using e(2) by (simp add: survives_def)
  qed (simp add: survives_def)
  then have "e \<in> U \<union> K \<union> D" using e(1) by (auto simp: visible_def K)
  moreover have "U \<union> K \<union> D \<subseteq> U \<union> set es \<union> D" by (auto simp: K)
  ultimately show ?thesis using e(1) unfolding visible_def by blast
qed

lemma kept_visible:
  assumes K: "K = {e \<in> set es. survives icmp base snap0 (set es) e}" and e: "visible (U \<union> K \<union> D) k snap e" "e_type e = kTypeValue"
    and es: "sorted_wrt (\<lambda>a b. icmp (fst a) (fst b) < 0) es" "snap0 \<le> snap"
    and icmp: "\<And>a b. icmp a b < 0 \<Longrightarrow> ExtractUserKey a = ExtractUserKey b \<Longrightarrow> ExtractTag b < ExtractTag a"
    and U: "older U (set es)" and D: "\<forall>d\<in>D. \<not> base (e_user d)"
  shows "visible (U \<union> set es \<union> D) k snap e"
proof -
  have "e_seq e' \<le> e_seq e" if e': "e' \<in> U \<union> set es \<union> D" "e_user e' = k" "e_seq e' \<le> snap" for e'
  proof (rule ccontr)
    assume n: "\<not> e_seq e' \<le> e_seq e"
    then have "e' \<notin> U \<union> K \<union> D" using e(1) e'(2,3) unfolding visible_def by blast
    then have d: "e' \<in> set es" "\<not> survives icmp base snap0 (set es) e'" using e'(1) by (auto simp: K)
    then have s: "e_seq e' \<le> snap0" by (auto simp: survives_def not_less)
    have ke: "e_user e = k" using e(1) by (simp add: visible_def)
    have "e \<notin> U" using U d(1) ke e'(2) n unfolding older_def by (metis less_imp_le)
    let ?P = "\<lambda>x. e_user x = k \<and> e_seq x \<le> snap0"
    obtain e0 where e0: "e0 \<in> set es" "?P e0" "\<forall>y\<in>set es. ?P y \<longrightarrow> y = e0 \<or> icmp (fst e0) (fst y) < 0"
      using first_satisfying [OF es(1) d(1), of ?P] e'(2) s by auto
    have seq: "e_seq y \<le> e_seq e0" if "y \<in> set es" "?P y" for y
    proof (cases "y = e0")
      case False
      then have "ExtractTag (fst y) < ExtractTag (fst e0)" using icmp e0 that by (metis e_user_def)
      then show ?thesis using seq_mono [of "fst y" "fst e0"] by (simp add: e_seq_def)
    qed simp
    have first: "\<not> icmp (fst y) (fst e0) < 0" if "y \<in> set es" "?P y" for y
    proof
      assume lt: "icmp (fst y) (fst e0) < 0"
      then have "ExtractTag (fst e0) < ExtractTag (fst y)" using icmp e0 that by (metis e_user_def)
      moreover have "y = e0 \<or> ExtractTag (fst y) < ExtractTag (fst e0)" using icmp e0 that by (metis e_user_def)
      ultimately show False by auto
    qed
    show False
    proof (cases "survives icmp base snap0 (set es) e0")
      case True
      then have "e_seq e0 \<le> e_seq e" using e(1) e0(1,2) es(2) unfolding visible_def K by (metis (mono_tags, lifting) UnI1 UnI2 mem_Collect_eq order_trans)
      then show False using seq [OF d(1)] e'(2) s n by (meson order_trans)
    next
      case False
      then have del: "e_type e0 = kTypeDeletion" "base k" using first e0(2) by (auto simp: survives_def)
      then have "e \<in> K" using e(1) D \<open>e \<notin> U\<close> ke unfolding visible_def by auto
      moreover have le: "e_seq e \<le> snap0" using n s by (meson not_le order_trans less_imp_le)
      ultimately have "\<not> icmp (fst e0) (fst e) < 0" "e \<in> set es" using e0(1,2) ke by (auto simp: K survives_def not_less [symmetric])
      then have "e = e0" using e0(3) ke le by blast
      then show False using del(1) e(2) by simp
    qed
  qed
  then show ?thesis using e(1) by (auto simp: visible_def K)
qed

text \<open>
  C3. A compaction loses nothing that can still be read: replacing the entries of its
  inputs by those that it keeps does not change the result of any read at the oldest snapshot or later. The
  other entries of the database may be anything, as long as those above the inputs are newer
  for the same key, and those below the output level lie in the key range of a file of their level.
\<close>

theorem Compaction_preserves_reads:
  assumes "user_comparator ucmp" "entries_ok (InternalKey_Compare ucmp) es" "lower_ok (InternalKey_Compare ucmp) h c"
    "c_level_ptrs c = replicate kNumLevels 0" "snap0 < kMaxSequenceNumber" "snap0 \<le> snap"
    "older U (set es)" "\<forall>d\<in>D. \<not> base_key ucmp h c (e_user d)"
  shows "db_read (U \<union> set (kept ucmp h snap0 es (initial_drop c)) \<union> D) k snap v \<longleftrightarrow> db_read (U \<union> set es \<union> D) k snap v"
proof -
  let ?icmp = "InternalKey_Compare ucmp"
  have rel: "drop_rel c [] (initial_drop c)" by (simp add: drop_rel_def initial_drop_def)
  have ok: "entries_ok ?icmp ([] @ es)" using assms(2) by simp
  have ptrs: "\<forall>e\<in>set es. ptrs_ok ucmp h (v_files (snd (the (c_input_version c)))) (c_level_ptrs (ds_compaction (initial_drop c))) (e_user e)"
    using assms(4) by (simp add: ptrs_ok_def initial_drop_def)
  have K: "set (kept ucmp h snap0 es (initial_drop c)) = {e \<in> set es. survives ?icmp (base_key ucmp h c) snap0 (set es) e}"
    using user_comparator.kept_set [OF assms(1) rel ok assms(5,3) ptrs] by simp
  have icmp: "ExtractTag b < ExtractTag a" if "?icmp a b < 0" "ExtractUserKey a = ExtractUserKey b" for a b
    using that user_comparator.icmp_iff(1) [OF assms(1), of a b] comparator.cmp_refl [OF user_comparator.axioms(1) [OF assms(1)], of "ExtractUserKey b"] by auto
  have es: "\<forall>e\<in>set es. ParseInternalKey (fst e) \<noteq> None" "sorted_wrt (\<lambda>a b. ?icmp (fst a) (fst b) < 0) es" using assms(2) by (auto simp: entries_ok_def)
  show ?thesis
    unfolding db_read_def
    using visible_kept [OF K _ _ es(1) assms(6) icmp] kept_visible [OF K _ _ es(2) assms(6) icmp assms(7,8)] by blast
qed

definition sample_input :: "(slice \<times> slice) list" where
  "sample_input = [(MakeInternalKey [5] 9 kTypeValue, [1]), (MakeInternalKey [5] 5 kTypeDeletion, []), (MakeInternalKey [5] 3 kTypeValue, [2])]"

definition sample_compaction :: Compaction where
  "sample_compaction =
     \<lparr>c_level = 1, c_max_output_file_size = 2097152, c_input_version = Some (0, new_Version), c_edit = new_VersionEdit, c_inputs0 = [], c_inputs1 = [],
      c_grandparents = [], c_grandparent_index = 0, c_seen_key = False, c_overlapped_bytes = 0, c_level_ptrs = replicate kNumLevels 0\<rparr>"

theorem Compaction_preserves_reads_witness:
  "kept Bytewise_Compare sample_heap 6 sample_input (initial_drop sample_compaction) = take 1 sample_input \<and>
   (\<forall>k v. db_read ({} \<union> set (kept Bytewise_Compare sample_heap 6 sample_input (initial_drop sample_compaction)) \<union> {}) k 7 v \<longleftrightarrow>
      db_read ({} \<union> set sample_input \<union> {}) k 7 v)"
proof -
  have p: "ParseInternalKey (MakeInternalKey [5] n t) = Some \<lparr>user_key = [5], sequence = n, type = t\<rparr>" if "n \<le> 9" for n t
    using that by (intro ParseInternalKey_Make) (simp add: kMaxSequenceNumber_def push_bit_eq_mult order_trans [of n 9])
  have files: "v_files (snd (the (c_input_version sample_compaction))) ! lvl = []" if "lvl < kNumLevels" for lvl
    using that by (simp add: sample_compaction_def new_Version_def)
  have "fst (base_levels Bytewise_Compare h k fss lvls ptrs)" if "\<forall>lvl\<in>set lvls. fss ! lvl = []" for h k fss lvls ptrs
    using that by (induction lvls arbitrary: ptrs) (auto simp: base_scan.simps)
  then have b: "fst (IsBaseLevelForKey Bytewise_Compare sample_heap [5] sample_compaction)"
    using files by (simp add: IsBaseLevelForKey_def split_beta)
  then have k: "kept Bytewise_Compare sample_heap 6 sample_input (initial_drop sample_compaction) = take 1 sample_input"
    using p [of 9] p [of 5] p [of 3]
    by (simp add: sample_input_def drop_step_def initial_drop_def split_beta bytewise.cmp_refl kMaxSequenceNumber_def push_bit_eq_mult)
  have "entries_ok (InternalKey_Compare Bytewise_Compare) sample_input"
    using p [of 9] p [of 5] p [of 3] by (simp add: entries_ok_def sample_input_def bytewise_user.icmp_iff PackSequenceAndType_def push_bit_eq_mult)
  moreover have "lower_ok (InternalKey_Compare Bytewise_Compare) sample_heap sample_compaction"
    using files by (simp add: lower_ok_def sorted_files_def)
  moreover have "c_level_ptrs sample_compaction = replicate kNumLevels 0" by (simp add: sample_compaction_def)
  ultimately show ?thesis
    using k Compaction_preserves_reads [OF bytewise_user.user_comparator_axioms, of sample_input sample_heap sample_compaction 6 7 "{}" "{}"]
    by (simp add: older_def kMaxSequenceNumber_def push_bit_eq_mult)
qed

end
