(* ===== verification/WriteQueue.thy ===== *)
theory WriteQueue
  imports WriteBatch VersionSet
begin

text \<open>
  \<open>DBImpl::Write\<close> and \<open>BuildBatchGroup\<close> (db/db_impl.cc): threads that write at the same time
  queue up, and the writer at the front commits its batch together with those behind it.

  The threads share the queue under one mutex. A step of \<open>wq_step\<close> is what a thread does between two points where it
  gives the mutex away; any interleaving is a path of the relation. A condition variable is the program counter \<open>WSleep\<close>: a signal wakes a
  thread that waits and is lost otherwise. What making room and committing do to the
  rest of the database are parameters of the steps.
\<close>

subsection \<open>Writers\<close>

datatype writer_pc = WStart | WCheck | WSleep | WRoom | WCommit slice nat u64 | WReturned status

record Writer =
  w_status :: status
  w_batch :: "slice option"
  w_sync :: bool
  w_done :: bool
  w_pc :: writer_pc

record 'm wq_state =
  wq_writers :: "nat list"
  wq_threads :: "Writer list"
  wq_last_sequence :: u64
  wq_db :: 'm

definition signal :: "Writer \<Rightarrow> Writer" where
  "signal w = (if w_pc w = WSleep then w\<lparr>w_pc := WCheck\<rparr> else w)"

definition set_pc :: "nat \<Rightarrow> writer_pc \<Rightarrow> Writer list \<Rightarrow> Writer list" where
  "set_pc i pc ths = ths[i := (ths ! i)\<lparr>w_pc := pc\<rparr>]"

subsection \<open>BuildBatchGroup\<close>

text \<open>\<open>in_tmp\<close> says that the result is the temporary batch and not the batch of the first writer.\<close>

fun group_loop ::
  "Writer list \<Rightarrow> Writer \<Rightarrow> nat \<Rightarrow> nat \<Rightarrow> slice \<Rightarrow> bool \<Rightarrow> nat \<Rightarrow> nat list \<Rightarrow> slice \<times> bool \<times> nat" where
  "group_loop ths first max_size sz result in_tmp last_writer [] = (result, in_tmp, last_writer)"
| "group_loop ths first max_size sz result in_tmp last_writer (j # js) =
     (let w = ths ! j in
      if w_sync w \<and> \<not> w_sync first then (result, in_tmp, last_writer)
      else case w_batch w of
             None \<Rightarrow> group_loop ths first max_size sz result in_tmp j js
           | Some b \<Rightarrow>
               let sz = sz + Batch_ApproximateSize b in
               if sz > max_size then (result, in_tmp, last_writer)
               else let result = (if in_tmp then result else Batch_Append Batch_Clear (the (w_batch first)))
                    in group_loop ths first max_size sz (Batch_Append result b) True j js)"

definition BuildBatchGroup :: "Writer list \<Rightarrow> nat list \<Rightarrow> slice \<times> bool \<times> nat" where
  "BuildBatchGroup ths writers =
     (let first = ths ! hd writers;
          sz = Batch_ApproximateSize (the (w_batch first));
          max_size = (if sz \<le> 131072 then sz + 131072 else 1048576)
      in group_loop ths first max_size sz (the (w_batch first)) False (hd writers) (tl writers))"

subsection \<open>Write\<close>

text \<open>The loop that takes the writers of the group off the queue.\<close>

fun pop_loop :: "nat \<Rightarrow> nat \<Rightarrow> status \<Rightarrow> nat list \<Rightarrow> Writer list \<Rightarrow> nat list \<times> Writer list" where
  "pop_loop w last_writer s [] ths = ([], ths)"
| "pop_loop w last_writer s (ready # q) ths =
     (let ths = (if ready \<noteq> w then ths[ready := signal ((ths ! ready)\<lparr>w_status := s, w_done := True\<rparr>)] else ths)
      in if ready = last_writer then (q, ths) else pop_loop w last_writer s q ths)"

definition finish_write :: "nat \<Rightarrow> nat \<Rightarrow> status \<Rightarrow> 'm wq_state \<Rightarrow> 'm wq_state" where
  "finish_write i last_writer s st =
     (let (q, ths) = pop_loop i last_writer s (wq_writers st) (wq_threads st);
          ths = (if q \<noteq> [] then ths[hd q := signal (ths ! hd q)] else ths)
      in st\<lparr>wq_writers := q, wq_threads := set_pc i (WReturned s) ths\<rparr>)"

text \<open>After \<open>MakeRoomForWrite\<close> has returned.\<close>

definition after_room :: "(bool \<Rightarrow> 'm \<Rightarrow> status \<times> 'm) \<Rightarrow> nat \<Rightarrow> 'm wq_state \<Rightarrow> 'm wq_state" where
  "after_room room i st =
     (let w = wq_threads st ! i;
          (s, db) = room (w_batch w = None) (wq_db st);
          st = st\<lparr>wq_db := db\<rparr>
      in if ok s \<and> w_batch w \<noteq> None then
           let (updates, in_tmp, last_writer) = BuildBatchGroup (wq_threads st) (wq_writers st);
               updates = Batch_SetSequence (wq_last_sequence st + 1) updates;
               ths = (if in_tmp then wq_threads st else (wq_threads st)[i := w\<lparr>w_batch := Some updates\<rparr>])
           in st\<lparr>wq_threads := set_pc i (WCommit updates last_writer (wq_last_sequence st + ucast (Batch_Count updates))) ths\<rparr>
         else finish_write i i s st)"

definition after_commit :: "(bool \<Rightarrow> slice \<Rightarrow> 'm \<Rightarrow> status \<times> 'm) \<Rightarrow> nat \<Rightarrow> slice \<Rightarrow> nat \<Rightarrow> u64 \<Rightarrow> 'm wq_state \<Rightarrow> 'm wq_state" where
  "after_commit commit i updates last_writer last_sequence st =
     (let (s, db) = commit (w_sync (wq_threads st ! i)) updates (wq_db st)
      in finish_write i last_writer s (st\<lparr>wq_db := db, wq_last_sequence := last_sequence\<rparr>))"

inductive wq_step ::
  "(bool \<Rightarrow> 'm \<Rightarrow> status \<times> 'm) \<Rightarrow> (bool \<Rightarrow> slice \<Rightarrow> 'm \<Rightarrow> status \<times> 'm) \<Rightarrow> 'm wq_state \<Rightarrow> 'm wq_state \<Rightarrow> bool"
  for room :: "bool \<Rightarrow> 'm \<Rightarrow> status \<times> 'm" and commit :: "bool \<Rightarrow> slice \<Rightarrow> 'm \<Rightarrow> status \<times> 'm" where
  enter: "i < length (wq_threads s) \<Longrightarrow> w_pc (wq_threads s ! i) = WStart \<Longrightarrow>
     wq_step room commit s (s\<lparr>wq_writers := wq_writers s @ [i], wq_threads := set_pc i WCheck (wq_threads s)\<rparr>)"
| wait: "i < length (wq_threads s) \<Longrightarrow> w_pc (wq_threads s ! i) = WCheck \<Longrightarrow> \<not> w_done (wq_threads s ! i) \<Longrightarrow> hd (wq_writers s) \<noteq> i \<Longrightarrow>
     wq_step room commit s (s\<lparr>wq_threads := set_pc i WSleep (wq_threads s)\<rparr>)"
| return_done: "i < length (wq_threads s) \<Longrightarrow> w_pc (wq_threads s ! i) = WCheck \<Longrightarrow> w_done (wq_threads s ! i) \<Longrightarrow>
     wq_step room commit s (s\<lparr>wq_threads := set_pc i (WReturned (w_status (wq_threads s ! i))) (wq_threads s)\<rparr>)"
| front: "i < length (wq_threads s) \<Longrightarrow> w_pc (wq_threads s ! i) = WCheck \<Longrightarrow> \<not> w_done (wq_threads s ! i) \<Longrightarrow> hd (wq_writers s) = i \<Longrightarrow>
     wq_step room commit s (s\<lparr>wq_threads := set_pc i WRoom (wq_threads s)\<rparr>)"
| room: "i < length (wq_threads s) \<Longrightarrow> w_pc (wq_threads s ! i) = WRoom \<Longrightarrow> wq_step room commit s (after_room room i s)"
| commit: "i < length (wq_threads s) \<Longrightarrow> w_pc (wq_threads s ! i) = WCommit updates last_writer last_sequence \<Longrightarrow>
     wq_step room commit s (after_commit commit i updates last_writer last_sequence s)"

definition new_Writer :: "slice option \<times> bool \<Rightarrow> Writer" where
  "new_Writer b = \<lparr>w_status = OK, w_batch = fst b, w_sync = snd b, w_done = False, w_pc = WStart\<rparr>"

definition wq_start :: "(slice option \<times> bool) list \<Rightarrow> u64 \<Rightarrow> 'm \<Rightarrow> 'm wq_state" where
  "wq_start bs last_sequence db = \<lparr>wq_writers = [], wq_threads = map new_Writer bs, wq_last_sequence = last_sequence, wq_db = db\<rparr>"

text \<open>Logging a group and inserting it into the memtable: the write phase of \<open>DBImpl::Write\<close>.\<close>

record ('h, 'e) write_db =
  wd_mem :: MemTable
  wd_log :: "'h \<times> nat"
  wd_env :: 'e
  wd_bg_error :: status

definition write_group ::
  "('h, 'q, 'e) DbEnv \<Rightarrow> (slice \<Rightarrow> slice \<Rightarrow> int) \<Rightarrow> bool \<Rightarrow> slice \<Rightarrow> ('h, 'e) write_db \<Rightarrow> status \<times> ('h, 'e) write_db" where
  "write_group env ucmp sync updates d =
     (let (s, w, e) = log_record env updates (wd_log d) (wd_env d);
          (s1, e) = (if ok s \<and> sync then io_Sync env (fst w) e else (s, e));
          sync_error = (ok s \<and> sync \<and> \<not> ok s1);
          (s2, m) = (if ok s1 then the (Batch_InsertInto ucmp updates (wd_mem d)) else (s1, wd_mem d))
      in (s2, d\<lparr>wd_mem := m, wd_log := w, wd_env := e,
              wd_bg_error := (if sync_error \<and> ok (wd_bg_error d) then s2 else wd_bg_error d)\<rparr>))"

subsection \<open>The invariant\<close>

definition pc_ok :: "nat list \<Rightarrow> nat \<Rightarrow> Writer \<Rightarrow> bool" where
  "pc_ok q i w = (case w_pc w of
       WStart \<Rightarrow> i \<notin> set q \<and> \<not> w_done w
     | WCheck \<Rightarrow> i \<in> set q \<longleftrightarrow> \<not> w_done w
     | WSleep \<Rightarrow> i \<in> set q \<and> \<not> w_done w
     | WRoom \<Rightarrow> q \<noteq> [] \<and> hd q = i \<and> \<not> w_done w
     | WCommit u l n \<Rightarrow> q \<noteq> [] \<and> hd q = i \<and> l \<in> set q \<and> \<not> w_done w
     | WReturned s \<Rightarrow> i \<notin> set q)"

definition wq_inv :: "'m wq_state \<Rightarrow> bool" where
  "wq_inv s \<longleftrightarrow> distinct (wq_writers s) \<and> (\<forall>i\<in>set (wq_writers s). i < length (wq_threads s)) \<and>
     (\<forall>i<length (wq_threads s). pc_ok (wq_writers s) i (wq_threads s ! i)) \<and>
     (wq_writers s \<noteq> [] \<longrightarrow> w_pc (wq_threads s ! hd (wq_writers s)) \<noteq> WSleep)"

text \<open>An upper bound of the steps a thread still makes.\<close>

definition weight :: "nat list \<Rightarrow> nat \<Rightarrow> Writer \<Rightarrow> nat" where
  "weight q i w = (case w_pc w of
       WStart \<Rightarrow> 9
     | WCheck \<Rightarrow> if w_done w then 1 else if q \<noteq> [] \<and> hd q = i then 5 else 7
     | WSleep \<Rightarrow> 6 | WRoom \<Rightarrow> 4 | WCommit u l n \<Rightarrow> 3 | WReturned s \<Rightarrow> 0)"

definition wq_rank :: "'m wq_state \<Rightarrow> nat" where
  "wq_rank s = (\<Sum>i<length (wq_threads s). weight (wq_writers s) i (wq_threads s ! i))"

lemma length_set_pc [simp]: "length (set_pc i pc ths) = length ths"
  by (simp add: set_pc_def)

lemma nth_set_pc: "i < length ths \<Longrightarrow> set_pc i pc ths ! j = (if j = i then (ths ! i)\<lparr>w_pc := pc\<rparr> else ths ! j)"
  by (simp add: set_pc_def nth_list_update)

lemma rank_decreases:
  assumes "length (wq_threads s') = length (wq_threads s)" "i < length (wq_threads s)"
    "weight (wq_writers s') i (wq_threads s' ! i) < weight (wq_writers s) i (wq_threads s ! i)"
    "\<And>j. j < length (wq_threads s) \<Longrightarrow> j \<noteq> i \<Longrightarrow> weight (wq_writers s') j (wq_threads s' ! j) \<le> weight (wq_writers s) j (wq_threads s ! j)"
  shows "wq_rank s' < wq_rank s"
  unfolding wq_rank_def assms(1)
  by (rule sum_strict_mono_ex1) (use assms(2-4) in \<open>auto intro!: bexI [of _ i] simp: le_less\<close>)

subsection \<open>Taking a group off the queue\<close>

lemma pop_loop_eq:
  assumes "q = pre @ [l] @ post" "distinct q" "\<forall>i\<in>set q. i < length ths"
  shows "fst (pop_loop w l s q ths) = post" "length (snd (pop_loop w l s q ths)) = length ths"
    "j < length ths \<Longrightarrow> snd (pop_loop w l s q ths) ! j =
       (if j \<in> set (pre @ [l]) \<and> j \<noteq> w then signal ((ths ! j)\<lparr>w_status := s, w_done := True\<rparr>) else ths ! j)"
proof -
  have "fst (pop_loop w l s q ths) = post \<and> length (snd (pop_loop w l s q ths)) = length ths \<and>
    (\<forall>j<length ths. snd (pop_loop w l s q ths) ! j =
       (if j \<in> set (pre @ [l]) \<and> j \<noteq> w then signal ((ths ! j)\<lparr>w_status := s, w_done := True\<rparr>) else ths ! j))"
    using assms
  proof (induction pre arbitrary: q ths)
    case Nil
    then show ?case by (auto simp: nth_list_update)
  next
    case (Cons r pre)
    let ?ths = "if r \<noteq> w then ths[r := signal ((ths ! r)\<lparr>w_status := s, w_done := True\<rparr>)] else ths"
    have ne: "r \<noteq> l" and r: "r \<notin> set (pre @ [l])" using Cons.prems by auto
    have "pop_loop w l s q ths = pop_loop w l s (pre @ [l] @ post) ?ths" using Cons.prems(1) ne by (simp add: Let_def)
    moreover note Cons.IH [OF refl, of ?ths]
    ultimately show ?case using Cons.prems r by (auto simp: nth_list_update split: if_splits)
  qed
  then show "fst (pop_loop w l s q ths) = post" "length (snd (pop_loop w l s q ths)) = length ths"
    "j < length ths \<Longrightarrow> snd (pop_loop w l s q ths) ! j =
       (if j \<in> set (pre @ [l]) \<and> j \<noteq> w then signal ((ths ! j)\<lparr>w_status := s, w_done := True\<rparr>) else ths ! j)" by blast+
qed

text \<open>What finishing a write does to each thread.\<close>

definition woken :: "nat list \<Rightarrow> nat list \<Rightarrow> status \<Rightarrow> nat \<Rightarrow> Writer \<Rightarrow> Writer" where
  "woken popped post s j w =
     (if j \<in> set popped then signal (w\<lparr>w_status := s, w_done := True\<rparr>) else if post \<noteq> [] \<and> j = hd post then signal w else w)"

lemma finish_write_eq:
  assumes q: "wq_writers st = pre @ [l] @ post" "distinct (wq_writers st)" "\<forall>i\<in>set (wq_writers st). i < length (wq_threads st)"
    and i: "i = hd (wq_writers st)"
  shows "wq_writers (finish_write i l s st) = post" "length (wq_threads (finish_write i l s st)) = length (wq_threads st)"
    "j < length (wq_threads st) \<Longrightarrow> j \<noteq> i \<Longrightarrow> wq_threads (finish_write i l s st) ! j = woken (pre @ [l]) post s j (wq_threads st ! j)"
    "w_pc (wq_threads (finish_write i l s st) ! i) = WReturned s"
proof -
  obtain post' ths where p: "pop_loop i l s (wq_writers st) (wq_threads st) = (post', ths)" by fastforce
  note P = pop_loop_eq [OF q(1-3), where w = i and s = s, unfolded p fst_conv snd_conv]
  have il: "i < length (wq_threads st)" using i q(1,3) by (cases pre) auto
  have hd: "post \<noteq> [] \<Longrightarrow> hd post < length (wq_threads st) \<and> hd post \<notin> set (pre @ [l]) \<and> hd post \<noteq> i"
    using q i by (cases post; cases pre) auto
  show "wq_writers (finish_write i l s st) = post" "length (wq_threads (finish_write i l s st)) = length (wq_threads st)"
    using p P(1,2) by (simp_all add: finish_write_def)
  show "w_pc (wq_threads (finish_write i l s st) ! i) = WReturned s"
    using p P(1,2) il by (simp add: finish_write_def nth_set_pc)
  show "wq_threads (finish_write i l s st) ! j = woken (pre @ [l]) post s j (wq_threads st ! j)"
    if "j < length (wq_threads st)" "j \<noteq> i"
    using p P(1,2) P(3) [OF that(1)] P(3) [of "hd post"] hd il that
    by (cases "post = []"; cases "j = hd post") (auto simp: finish_write_def nth_set_pc woken_def nth_list_update)
qed

lemma signal_pc: "w_pc (signal w) = (if w_pc w = WSleep then WCheck else w_pc w)" "w_done (signal w) = w_done w"
  by (simp_all add: signal_def)

lemma finish_write_inv:
  assumes inv: "wq_inv st" and i: "wq_writers st \<noteq> []" "i = hd (wq_writers st)" and l: "l \<in> set (wq_writers st)"
  shows "wq_inv (finish_write i l s st)"
    "length (wq_threads (finish_write i l s st)) = length (wq_threads st)"
    "weight (wq_writers (finish_write i l s st)) i (wq_threads (finish_write i l s st) ! i) = 0"
    "j < length (wq_threads st) \<Longrightarrow> j \<noteq> i \<Longrightarrow>
       weight (wq_writers (finish_write i l s st)) j (wq_threads (finish_write i l s st) ! j) \<le> weight (wq_writers st) j (wq_threads st ! j)"
proof -
  obtain pre post where q: "wq_writers st = pre @ [l] @ post" using split_list [OF l] by auto
  have d: "distinct (wq_writers st)" "\<forall>i\<in>set (wq_writers st). i < length (wq_threads st)" using inv by (simp_all add: wq_inv_def)
  note F = finish_write_eq [OF q d i(2), where s = s]
  have ok: "pc_ok (wq_writers st) j (wq_threads st ! j)" if "j < length (wq_threads st)" for j using inv that by (simp add: wq_inv_def)
  have ip: "i \<in> set (pre @ [l])" "i \<notin> set post" using q i d by (cases pre; auto)+
  have hp: "post \<noteq> [] \<Longrightarrow> hd post \<in> set post \<and> hd post \<noteq> i" using ip by auto
  have other: "pc_ok post j (woken (pre @ [l]) post s j (wq_threads st ! j)) \<and>
      weight post j (woken (pre @ [l]) post s j (wq_threads st ! j)) \<le> weight (wq_writers st) j (wq_threads st ! j)"
    if j: "j < length (wq_threads st)" "j \<noteq> i" for j
  proof -
    have nh: "hd (wq_writers st) \<noteq> j" using j i by simp
    consider "j \<in> set (pre @ [l])" "j \<notin> set post" | "j \<notin> set (pre @ [l])" "j \<in> set post" | "j \<notin> set (pre @ [l])" "j \<notin> set post" using d(1) q by auto
    then show ?thesis
    proof cases
      case 1
      then show ?thesis using ok [OF j(1)] nh q hp by (auto simp: pc_ok_def weight_def woken_def signal_pc split: writer_pc.splits)
    next
      case 2
      then show ?thesis using ok [OF j(1)] nh q hp by (auto simp: pc_ok_def weight_def woken_def signal_pc split: writer_pc.splits)
    next
      case 3
      then show ?thesis using ok [OF j(1)] nh q hp by (auto simp: pc_ok_def weight_def woken_def signal_pc split: writer_pc.splits)
    qed
  qed
  show "length (wq_threads (finish_write i l s st)) = length (wq_threads st)" by (rule F(2))
  show "weight (wq_writers (finish_write i l s st)) i (wq_threads (finish_write i l s st) ! i) = 0" by (simp add: weight_def F(4))
  show "weight (wq_writers (finish_write i l s st)) j (wq_threads (finish_write i l s st) ! j) \<le> weight (wq_writers st) j (wq_threads st ! j)"
    if "j < length (wq_threads st)" "j \<noteq> i" using other [OF that] F(1) F(3) [OF that] by simp
  show "wq_inv (finish_write i l s st)"
    unfolding wq_inv_def F(1,2)
  proof (intro conjI allI impI ballI)
    show "distinct post" using d(1) q by simp
    show "x < length (wq_threads st)" if "x \<in> set post" for x using that d(2) q by auto
    show "pc_ok post j (wq_threads (finish_write i l s st) ! j)" if "j < length (wq_threads st)" for j
      using other [OF that] F(3) [OF that] F(4) ip by (cases "j = i") (auto simp: pc_ok_def)
    show "w_pc (wq_threads (finish_write i l s st) ! hd post) \<noteq> WSleep" if "post \<noteq> []"
    proof -
      have "hd post < length (wq_threads st)" using hp [OF that] d(2) q by auto
      then show ?thesis using F(3) [of "hd post"] hp [OF that] that by (simp add: woken_def signal_pc)
    qed
  qed
qed

subsection \<open>Steps\<close>

lemma group_loop_last: "snd (snd (group_loop ths first m sz r t l js)) \<in> insert l (set js)"
proof (induction js arbitrary: sz r t l)
  case (Cons j js)
  have "snd (snd (group_loop ths first m sz' r' t' j js)) \<in> insert l (set (j # js))" for sz' r' t' using Cons [of sz' r' t' j] by auto
  then show ?case by (simp add: Let_def split: option.splits)
qed simp

lemma BuildBatchGroup_last: "q \<noteq> [] \<Longrightarrow> snd (snd (BuildBatchGroup ths q)) \<in> set q"
  using group_loop_last by (cases q) (auto simp: BuildBatchGroup_def Let_def)

lemma pc_change_inv:
  assumes inv: "wq_inv s" and i: "i < length (wq_threads s)"
    and w: "pc_ok (wq_writers s) i w" "\<not> (wq_writers s \<noteq> [] \<and> hd (wq_writers s) = i \<and> w_pc w = WSleep)"
    and less: "weight (wq_writers s) i w < weight (wq_writers s) i (wq_threads s ! i)"
    and s': "wq_writers s' = wq_writers s" "wq_threads s' = (wq_threads s)[i := w]"
  shows "wq_inv s' \<and> wq_rank s' < wq_rank s"
proof
  show "wq_inv s'" using inv w i unfolding wq_inv_def s' by (auto simp: nth_list_update)
  show "wq_rank s' < wq_rank s" using i less by (intro rank_decreases [of _ _ i]) (simp_all add: s' nth_list_update)
qed

lemma wq_step_inv:
  assumes "wq_step room commit s s'" "wq_inv s"
  shows "wq_inv s' \<and> wq_rank s' < wq_rank s"
  using assms
proof cases
  case (enter i)
  let ?w = "(wq_threads s ! i)\<lparr>w_pc := WCheck\<rparr>"
  have "pc_ok (wq_writers s) i (wq_threads s ! i)" using assms(2) enter(2) by (simp add: wq_inv_def)
  then have i: "i \<notin> set (wq_writers s)" "\<not> w_done (wq_threads s ! i)" using enter(3) by (simp_all add: pc_ok_def)
  have nth: "wq_threads s' ! j = (if j = i then ?w else wq_threads s ! j)" for j using enter by (simp add: nth_set_pc)
  have hd: "wq_writers s \<noteq> [] \<Longrightarrow> hd (wq_writers s) \<noteq> i" using i(1) by auto
  have oth: "pc_ok (wq_writers s @ [i]) j (wq_threads s ! j) \<and> weight (wq_writers s @ [i]) j (wq_threads s ! j) \<le> weight (wq_writers s) j (wq_threads s ! j)"
    if "j < length (wq_threads s)" "j \<noteq> i" for j
  proof -
    have "pc_ok (wq_writers s) j (wq_threads s ! j)" using assms(2) that(1) by (simp add: wq_inv_def)
    then show ?thesis using that(2) by (cases "wq_writers s") (auto simp: pc_ok_def weight_def split: writer_pc.splits)
  qed
  have "wq_inv s'"
    unfolding wq_inv_def
  proof (intro conjI allI impI ballI)
    show "distinct (wq_writers s')" using assms(2) enter(1) i by (simp add: wq_inv_def)
    show "x < length (wq_threads s')" if "x \<in> set (wq_writers s')" for x using that assms(2) enter(1,2) by (auto simp: wq_inv_def)
    show "pc_ok (wq_writers s') j (wq_threads s' ! j)" if "j < length (wq_threads s')" for j
      using oth [of j] that nth [of j] i enter(1) by (cases "j = i") (simp_all add: pc_ok_def)
    show "w_pc (wq_threads s' ! hd (wq_writers s')) \<noteq> WSleep"
      using assms(2) enter(1) nth hd by (cases "wq_writers s") (auto simp: wq_inv_def)
  qed
  moreover have "wq_rank s' < wq_rank s"
    using enter(1-3) nth oth by (intro rank_decreases [of _ _ i]) (simp_all add: weight_def)
  ultimately show ?thesis by simp
next
  case (wait i)
  have ok: "pc_ok (wq_writers s) i (wq_threads s ! i)" using assms(2) wait(2) by (simp add: wq_inv_def)
  show ?thesis
    by (rule pc_change_inv [OF assms(2) wait(2), of "(wq_threads s ! i)\<lparr>w_pc := WSleep\<rparr>"])
      (use ok wait in \<open>auto simp: pc_ok_def weight_def set_pc_def\<close>)
next
  case (return_done i)
  have ok: "pc_ok (wq_writers s) i (wq_threads s ! i)" using assms(2) return_done(2) by (simp add: wq_inv_def)
  show ?thesis
    by (rule pc_change_inv [OF assms(2) return_done(2), of "(wq_threads s ! i)\<lparr>w_pc := WReturned (w_status (wq_threads s ! i))\<rparr>"])
      (use ok return_done in \<open>auto simp: pc_ok_def weight_def set_pc_def\<close>)
next
  case (front i)
  have ok: "pc_ok (wq_writers s) i (wq_threads s ! i)" using assms(2) front(2) by (simp add: wq_inv_def)
  then have ne: "wq_writers s \<noteq> []" using front(3,4) by (auto simp: pc_ok_def)
  show ?thesis
    by (rule pc_change_inv [OF assms(2) front(2), of "(wq_threads s ! i)\<lparr>w_pc := WRoom\<rparr>"])
      (use ok ne front in \<open>auto simp: pc_ok_def weight_def set_pc_def\<close>)
next
  case (room i)
  have okr: "pc_ok (wq_writers s) i (wq_threads s ! i)" using assms(2) room(2) by (simp add: wq_inv_def)
  then have ok: "wq_writers s \<noteq> []" "hd (wq_writers s) = i" "\<not> w_done (wq_threads s ! i)" using room(3) by (simp_all add: pc_ok_def)
  obtain st db where r: "room (w_batch (wq_threads s ! i) = None) (wq_db s) = (st, db)" by fastforce
  obtain u t l where b: "BuildBatchGroup (wq_threads s) (wq_writers s) = (u, t, l)" by (metis prod_cases3)
  have l: "l \<in> set (wq_writers s)" using BuildBatchGroup_last [OF ok(1), of "wq_threads s"] b by simp
  show ?thesis
  proof (cases "ok st \<and> w_batch (wq_threads s ! i) \<noteq> None")
    case True
    let ?u = "Batch_SetSequence (wq_last_sequence s + 1) u"
    let ?w = "(if t then wq_threads s ! i else (wq_threads s ! i)\<lparr>w_batch := Some ?u\<rparr>)\<lparr>w_pc := WCommit ?u l (wq_last_sequence s + ucast (Batch_Count ?u))\<rparr>"
    have "wq_threads s' = (wq_threads s)[i := ?w]" "wq_writers s' = wq_writers s"
      using True r b room(1,2) by (cases t; simp add: after_room_def set_pc_def Let_def)+
    moreover have "pc_ok (wq_writers s) i ?w" using ok l by (simp add: pc_ok_def)
    ultimately show ?thesis using room(2,3) ok by (intro pc_change_inv [OF assms(2) room(2), of ?w]) (auto simp: weight_def)
  next
    case False
    then have s': "s' = finish_write i i st (s\<lparr>wq_db := db\<rparr>)" using r room(1) by (auto simp: after_room_def Let_def)
    have inv: "wq_inv (s\<lparr>wq_db := db\<rparr>)" using assms(2) by (simp add: wq_inv_def)
    have "i \<in> set (wq_writers s)" using ok by auto
    then have F: "wq_inv s'" "length (wq_threads s') = length (wq_threads s)" "weight (wq_writers s') i (wq_threads s' ! i) = 0"
      "\<And>j. j < length (wq_threads s) \<Longrightarrow> j \<noteq> i \<Longrightarrow> weight (wq_writers s') j (wq_threads s' ! j) \<le> weight (wq_writers s) j (wq_threads s ! j)"
      using finish_write_inv [OF inv, where i = i and l = i and s = st] ok(1,2) unfolding s' by simp_all
    have "0 < weight (wq_writers s) i (wq_threads s ! i)" by (simp add: weight_def room(3))
    then have "wq_rank s' < wq_rank s" by (intro rank_decreases [OF F(2) room(2) _ F(4)]) (simp_all add: F(3))
    then show ?thesis using F(1) by blast
  qed
next
  case (commit i u l n)
  have "pc_ok (wq_writers s) i (wq_threads s ! i)" using assms(2) commit(2) by (simp add: wq_inv_def)
  then have ok: "wq_writers s \<noteq> []" "hd (wq_writers s) = i" "l \<in> set (wq_writers s)" using commit(3) by (simp_all add: pc_ok_def)
  obtain st db where c: "commit (w_sync (wq_threads s ! i)) u (wq_db s) = (st, db)" by fastforce
  let ?s = "s\<lparr>wq_db := db, wq_last_sequence := n\<rparr>"
  have s': "s' = finish_write i l st ?s" using c commit(1) by (simp add: after_commit_def)
  have inv: "wq_inv ?s" using assms(2) by (simp add: wq_inv_def)
  have F: "wq_inv s'" "length (wq_threads s') = length (wq_threads s)" "weight (wq_writers s') i (wq_threads s' ! i) = 0"
    "\<And>j. j < length (wq_threads s) \<Longrightarrow> j \<noteq> i \<Longrightarrow> weight (wq_writers s') j (wq_threads s' ! j) \<le> weight (wq_writers s) j (wq_threads s ! j)"
    using finish_write_inv [OF inv, where i = i and l = l and s = st] ok unfolding s' by simp_all
  have "0 < weight (wq_writers s) i (wq_threads s ! i)" by (simp add: weight_def commit(3))
  then have "wq_rank s' < wq_rank s" by (intro rank_decreases [OF F(2) commit(2) _ F(4)]) (simp_all add: F(3))
  then show ?thesis using F(1) by blast
qed

lemma wq_start_inv: "wq_inv (wq_start bs n db)"
  by (simp add: wq_inv_def wq_start_def pc_ok_def new_Writer_def)

lemma pop_loop_length: "length (snd (pop_loop i l st q ths)) = length ths"
  by (induction i l st q ths rule: pop_loop.induct) (auto simp: Let_def)

lemma finish_write_length: "length (wq_threads (finish_write i l st x)) = length (wq_threads x)"
  using pop_loop_length [of i l st "wq_writers x" "wq_threads x"] by (simp add: finish_write_def split_beta)

lemma wq_threads_length: "wq_step room commit s s' \<Longrightarrow> length (wq_threads s') = length (wq_threads s)"
  by (induction rule: wq_step.induct) (auto simp: after_room_def after_commit_def finish_write_length split_beta Let_def)

text \<open>A thread that has not returned can always go on, or another one can.\<close>

lemma wq_progress:
  assumes inv: "wq_inv s" and i: "i < length (wq_threads s)" "\<forall>st. w_pc (wq_threads s ! i) \<noteq> WReturned st"
  shows "\<exists>s'. wq_step room commit s s'"
proof -
  have go: "\<exists>s'. wq_step room commit s s'" if "j < length (wq_threads s)" "w_pc (wq_threads s ! j) \<noteq> WSleep" "\<forall>st. w_pc (wq_threads s ! j) \<noteq> WReturned st" for j
    using that by (cases "w_pc (wq_threads s ! j)") (blast intro: wq_step.intros)+
  show ?thesis
  proof (cases "w_pc (wq_threads s ! i) = WSleep")
    case True
    let ?h = "hd (wq_writers s)"
    have "pc_ok (wq_writers s) i (wq_threads s ! i)" using inv i(1) by (simp add: wq_inv_def)
    then have ne: "wq_writers s \<noteq> []" using True by (auto simp: pc_ok_def)
    then have h: "?h \<in> set (wq_writers s)" "?h < length (wq_threads s)" "w_pc (wq_threads s ! ?h) \<noteq> WSleep" using inv by (auto simp: wq_inv_def)
    then have "pc_ok (wq_writers s) ?h (wq_threads s ! ?h)" using inv by (simp add: wq_inv_def)
    then have "\<forall>st. w_pc (wq_threads s ! ?h) \<noteq> WReturned st" using h(1) by (auto simp: pc_ok_def)
    then show ?thesis using go h by blast
  qed (use go i in blast)
qed



end
