(* ===== verification/Iterators.thy ===== *)
theory Iterators
  imports BlockReader "HOL-Library.Monad_Syntax"
begin

text \<open>
  The interface \<open>Iterator\<close> of include/leveldb/iterator.h and the iterators without entries of table/iterator.cc.

  An iterator is an object of type \<open>'i\<close> with a record of operations. An operation that moves the iterator
  returns \<open>None\<close> if it does not end or has undefined behaviour. The contract of an iterator over
  sorted entries is the locale \<open>sorted_iterator\<close>: the iterator stands at a position of a list, where the length of
  the list marks an iterator that is not valid. All iterators of the program are shown to keep this contract, the ones that
  are made of other iterators under the assumption that their parts do. The cleanup functions of an iterator are left out, and
  \<open>IteratorWrapper\<close>, which caches \<open>Valid\<close> and \<open>key\<close> after every move, is the iterator it wraps.
\<close>

record 'i IteratorOps =
  it_Valid :: "'i \<Rightarrow> bool"
  it_SeekToFirst :: "'i \<Rightarrow> 'i option"
  it_SeekToLast :: "'i \<Rightarrow> 'i option"
  it_Seek :: "slice \<Rightarrow> 'i \<Rightarrow> 'i option"
  it_Next :: "'i \<Rightarrow> 'i option"
  it_Prev :: "'i \<Rightarrow> 'i option"
  it_key :: "'i \<Rightarrow> slice"
  it_value :: "'i \<Rightarrow> slice"
  it_status :: "'i \<Rightarrow> status"

text \<open>The iterator of table/iterator.cc that has no entries; its state is its status.\<close>

definition EmptyIterator :: "status IteratorOps" where
  "EmptyIterator = \<lparr>it_Valid = (\<lambda>s. False), it_SeekToFirst = Some, it_SeekToLast = Some, it_Seek = (\<lambda>k. Some),
     it_Next = (\<lambda>s. None), it_Prev = (\<lambda>s. None), it_key = (\<lambda>s. undefined), it_value = (\<lambda>s. undefined), it_status = id\<rparr>"

definition NewEmptyIterator :: status where "NewEmptyIterator = OK"

definition NewErrorIterator :: "status \<Rightarrow> status" where "NewErrorIterator s = s"

subsection \<open>Positions\<close>

text \<open>How many entries are before a key, and the position before a position.\<close>

definition lower :: "(slice \<Rightarrow> slice \<Rightarrow> int) \<Rightarrow> (slice \<times> slice) list \<Rightarrow> slice \<Rightarrow> nat" where
  "lower cmp es k = length (takeWhile (\<lambda>e. cmp (fst e) k < 0) es)"

definition prior :: "nat \<Rightarrow> nat \<Rightarrow> nat" where
  "prior n p = (if p = 0 then n else p - 1)"

lemma lower_le: "lower cmp es k \<le> length es"
  by (simp add: lower_def length_takeWhile_le)

lemma lower_before: "i < lower cmp es k \<Longrightarrow> cmp (fst (es ! i)) k < 0"
  unfolding lower_def using set_takeWhileD [OF nth_mem] by (metis takeWhile_nth)

lemma lower_at: "lower cmp es k < length es \<Longrightarrow> \<not> cmp (fst (es ! lower cmp es k)) k < 0"
  unfolding lower_def by (rule nth_length_takeWhile)

lemma lower_eqI:
  assumes "p \<le> length es" "\<And>i. i < p \<Longrightarrow> cmp (fst (es ! i)) k < 0" "p < length es \<Longrightarrow> \<not> cmp (fst (es ! p)) k < 0"
  shows "lower cmp es k = p"
proof (rule antisym)
  show "lower cmp es k \<le> p"
    using assms(1,3) lower_before [of p cmp es k] lower_le [of cmp es k] by (metis le_eq_less_or_eq not_less)
  show "p \<le> lower cmp es k"
    using assms(1,2) lower_at [of cmp es k] by (metis less_le_trans not_less)
qed

datatype iter_move = GoFirst | GoLast | GoSeek slice | GoNext | GoPrev

text \<open>Moves on the positions of a list; \<open>Next\<close> and \<open>Prev\<close> require a valid iterator.\<close>

fun move_pos :: "(slice \<Rightarrow> slice \<Rightarrow> int) \<Rightarrow> (slice \<times> slice) list \<Rightarrow> iter_move \<Rightarrow> nat \<Rightarrow> nat option" where
  "move_pos cmp es GoFirst p = Some 0"
| "move_pos cmp es GoLast p = Some (length es - 1)"
| "move_pos cmp es (GoSeek k) p = Some (lower cmp es k)"
| "move_pos cmp es GoNext p = (if p < length es then Some (Suc p) else None)"
| "move_pos cmp es GoPrev p = (if p < length es then Some (prior (length es) p) else None)"

fun move_iter :: "'i IteratorOps \<Rightarrow> iter_move \<Rightarrow> 'i \<Rightarrow> 'i option" where
  "move_iter it GoFirst i = it_SeekToFirst it i"
| "move_iter it GoLast i = it_SeekToLast it i"
| "move_iter it (GoSeek k) i = it_Seek it k i"
| "move_iter it GoNext i = it_Next it i"
| "move_iter it GoPrev i = it_Prev it i"

fun run_pos :: "(slice \<Rightarrow> slice \<Rightarrow> int) \<Rightarrow> (slice \<times> slice) list \<Rightarrow> iter_move list \<Rightarrow> nat \<Rightarrow> nat option" where
  "run_pos cmp es [] p = Some p"
| "run_pos cmp es (m # ms) p = Option.bind (move_pos cmp es m p) (run_pos cmp es ms)"

fun run_iter :: "'i IteratorOps \<Rightarrow> iter_move list \<Rightarrow> 'i \<Rightarrow> 'i option" where
  "run_iter it [] i = Some i"
| "run_iter it (m # ms) i = Option.bind (move_iter it m i) (run_iter it ms)"

text \<open>What an iterator shows: its entry, if it is valid.\<close>

definition shows_entry :: "'i IteratorOps \<Rightarrow> 'i \<Rightarrow> (slice \<times> slice) option" where
  "shows_entry it i = (if it_Valid it i then Some (it_key it i, it_value it i) else None)"

definition entry_at :: "(slice \<times> slice) list \<Rightarrow> nat \<Rightarrow> (slice \<times> slice) option" where
  "entry_at es p = (if p < length es then Some (es ! p) else None)"

subsection \<open>The contract\<close>

locale sorted_iterator = comparator cmp good for cmp :: "slice \<Rightarrow> slice \<Rightarrow> int" and good :: "slice \<Rightarrow> bool" +
  fixes it :: "'i IteratorOps" and on :: "'i \<Rightarrow> (slice \<times> slice) list \<Rightarrow> nat \<Rightarrow> bool"
  assumes at_le: "on i es p \<Longrightarrow> p \<le> length es"
    and at_sorted: "on i es p \<Longrightarrow> sorted_entries cmp es" and at_good: "on i es p \<Longrightarrow> e \<in> set es \<Longrightarrow> good (fst e)"
    and at_Valid: "on i es p \<Longrightarrow> it_Valid it i \<longleftrightarrow> p < length es"
    and at_key: "on i es p \<Longrightarrow> p < length es \<Longrightarrow> it_key it i = fst (es ! p)"
    and at_value: "on i es p \<Longrightarrow> p < length es \<Longrightarrow> it_value it i = snd (es ! p)"
    and at_status: "on i es p \<Longrightarrow> it_status it i = OK"
    and at_SeekToFirst: "on i es p \<Longrightarrow> \<exists>j. it_SeekToFirst it i = Some j \<and> on j es 0"
    and at_SeekToLast: "on i es p \<Longrightarrow> \<exists>j. it_SeekToLast it i = Some j \<and> on j es (length es - 1)"
    and at_Seek: "on i es p \<Longrightarrow> good k \<Longrightarrow> \<exists>j. it_Seek it k i = Some j \<and> on j es (lower cmp es k)"
    and at_Next: "on i es p \<Longrightarrow> p < length es \<Longrightarrow> \<exists>j. it_Next it i = Some j \<and> on j es (Suc p)"
    and at_Prev: "on i es p \<Longrightarrow> p < length es \<Longrightarrow> \<exists>j. it_Prev it i = Some j \<and> on j es (prior (length es) p)"
begin

lemma at_move:
  assumes "on i es p" "move_pos cmp es m p = Some q" "\<And>k. m = GoSeek k \<Longrightarrow> good k"
  shows "\<exists>j. move_iter it m i = Some j \<and> on j es q"
  using assms at_SeekToFirst at_SeekToLast at_Seek at_Next at_Prev by (cases m) (auto split: if_splits)

lemma at_run:
  assumes "on i es p" "run_pos cmp es ms p = Some q" "\<And>k. GoSeek k \<in> set ms \<Longrightarrow> good k"
  shows "\<exists>j. run_iter it ms i = Some j \<and> on j es q"
  using assms
proof (induction ms arbitrary: i p)
  case (Cons m ms)
  from Cons.prems(2) obtain p1 where p1: "move_pos cmp es m p = Some p1" "run_pos cmp es ms p1 = Some q"
    by (auto split: bind_splits)
  obtain j where j: "move_iter it m i = Some j" "on j es p1" using at_move [OF Cons.prems(1) p1(1)] Cons.prems(3) by auto
  then show ?case using Cons.IH [OF j(2) p1(2)] Cons.prems(3) by auto
qed simp

lemma at_shows: "on i es p \<Longrightarrow> shows_entry it i = entry_at es p"
  using at_Valid at_key at_value by (auto simp: shows_entry_def entry_at_def)

end

end
