(* ===== verification/Merger.thy ===== *)
theory Merger
  imports Iterators
begin

text \<open>
  table/merger.cc: an iterator over the entries of several sorted iterators, in order. The children are a list,
  \<open>current_\<close> is the index of a child. The theorem of this theory: a merging iterator keeps the contract of a sorted iterator
  over the union of the entries of its children, in both directions and through changes of direction, if no two children have
  an entry in common.
\<close>

datatype direction = kForward | kReverse

record 'i MergingIterator =
  mi_children :: "'i list"
  mi_current :: "nat option"
  mi_direction :: direction

definition new_MergingIterator :: "'i list \<Rightarrow> 'i MergingIterator" where
  "new_MergingIterator children = \<lparr>mi_children = children, mi_current = None, mi_direction = kForward\<rparr>"

definition mi_Valid :: "'i MergingIterator \<Rightarrow> bool" where
  "mi_Valid m \<longleftrightarrow> mi_current m \<noteq> None"

definition mi_child :: "'i MergingIterator \<Rightarrow> 'i" where
  "mi_child m = mi_children m ! the (mi_current m)"

definition mi_key :: "'i IteratorOps \<Rightarrow> 'i MergingIterator \<Rightarrow> slice" where
  "mi_key it m = it_key it (mi_child m)"

definition mi_value :: "'i IteratorOps \<Rightarrow> 'i MergingIterator \<Rightarrow> slice" where
  "mi_value it m = it_value it (mi_child m)"

text \<open>The status of the first child that has an error, else that of the last child.\<close>

fun children_status :: "'i IteratorOps \<Rightarrow> status \<Rightarrow> 'i list \<Rightarrow> status" where
  "children_status it s [] = s"
| "children_status it s (c # cs) = (let s = it_status it c in if \<not> ok s then s else children_status it s cs)"

definition mi_status :: "'i IteratorOps \<Rightarrow> 'i MergingIterator \<Rightarrow> status" where
  "mi_status it m = children_status it OK (mi_children m)"

text \<open>The loops of \<open>FindSmallest\<close> and \<open>FindLargest\<close> over the children with these indices.\<close>

fun find_child :: "'i IteratorOps \<Rightarrow> (slice \<Rightarrow> slice \<Rightarrow> bool) \<Rightarrow> 'i list \<Rightarrow> nat list \<Rightarrow> nat option \<Rightarrow> nat option" where
  "find_child it better cs [] best = best"
| "find_child it better cs (i # is) best =
     find_child it better cs is
       (if it_Valid it (cs ! i) then
          (case best of None \<Rightarrow> Some i
           | Some s \<Rightarrow> if better (it_key it (cs ! i)) (it_key it (cs ! s)) then Some i else best)
        else best)"

definition FindSmallest :: "'i IteratorOps \<Rightarrow> (slice \<Rightarrow> slice \<Rightarrow> int) \<Rightarrow> 'i MergingIterator \<Rightarrow> 'i MergingIterator" where
  "FindSmallest it cmp m =
     m\<lparr>mi_current := find_child it (\<lambda>a b. cmp a b < 0) (mi_children m) [0..<length (mi_children m)] None\<rparr>"

definition FindLargest :: "'i IteratorOps \<Rightarrow> (slice \<Rightarrow> slice \<Rightarrow> int) \<Rightarrow> 'i MergingIterator \<Rightarrow> 'i MergingIterator" where
  "FindLargest it cmp m =
     m\<lparr>mi_current := find_child it (\<lambda>a b. cmp a b > 0) (mi_children m) (rev [0..<length (mi_children m)]) None\<rparr>"

definition each_child :: "('i \<Rightarrow> 'i option) \<Rightarrow> 'i MergingIterator \<Rightarrow> 'i MergingIterator option" where
  "each_child f m = map_option (\<lambda>cs. m\<lparr>mi_children := cs\<rparr>) (those (map f (mi_children m)))"

definition mi_SeekToFirst :: "'i IteratorOps \<Rightarrow> (slice \<Rightarrow> slice \<Rightarrow> int) \<Rightarrow> 'i MergingIterator \<Rightarrow> 'i MergingIterator option" where
  "mi_SeekToFirst it cmp m = do {
     m \<leftarrow> each_child (it_SeekToFirst it) m;
     Some ((FindSmallest it cmp m)\<lparr>mi_direction := kForward\<rparr>) }"

definition mi_SeekToLast :: "'i IteratorOps \<Rightarrow> (slice \<Rightarrow> slice \<Rightarrow> int) \<Rightarrow> 'i MergingIterator \<Rightarrow> 'i MergingIterator option" where
  "mi_SeekToLast it cmp m = do {
     m \<leftarrow> each_child (it_SeekToLast it) m;
     Some ((FindLargest it cmp m)\<lparr>mi_direction := kReverse\<rparr>) }"

definition mi_Seek :: "'i IteratorOps \<Rightarrow> (slice \<Rightarrow> slice \<Rightarrow> int) \<Rightarrow> slice \<Rightarrow> 'i MergingIterator \<Rightarrow> 'i MergingIterator option" where
  "mi_Seek it cmp target m = do {
     m \<leftarrow> each_child (it_Seek it target) m;
     Some ((FindSmallest it cmp m)\<lparr>mi_direction := kForward\<rparr>) }"

text \<open>The loop over the children other than \<open>current_\<close> at a change of direction.\<close>

definition other_children :: "('i \<Rightarrow> 'i option) \<Rightarrow> 'i MergingIterator \<Rightarrow> 'i MergingIterator option" where
  "other_children f m =
     map_option (\<lambda>cs. m\<lparr>mi_children := cs\<rparr>)
       (those (map (\<lambda>i. if Some i \<noteq> mi_current m then f (mi_children m ! i) else Some (mi_children m ! i)) [0..<length (mi_children m)]))"

definition position_after :: "'i IteratorOps \<Rightarrow> (slice \<Rightarrow> slice \<Rightarrow> int) \<Rightarrow> slice \<Rightarrow> 'i \<Rightarrow> 'i option" where
  "position_after it cmp k c = do {
     c \<leftarrow> it_Seek it k c;
     if it_Valid it c \<and> cmp k (it_key it c) = 0 then it_Next it c else Some c }"

definition position_before :: "'i IteratorOps \<Rightarrow> slice \<Rightarrow> 'i \<Rightarrow> 'i option" where
  "position_before it k c = do {
     c \<leftarrow> it_Seek it k c;
     if it_Valid it c then it_Prev it c else it_SeekToLast it c }"

definition mi_Next :: "'i IteratorOps \<Rightarrow> (slice \<Rightarrow> slice \<Rightarrow> int) \<Rightarrow> 'i MergingIterator \<Rightarrow> 'i MergingIterator option" where
  "mi_Next it cmp m =
     (case mi_current m of None \<Rightarrow> None
      | Some cur \<Rightarrow> do {
          m \<leftarrow> (if mi_direction m \<noteq> kForward
                then map_option (mi_direction_update (\<lambda>_. kForward)) (other_children (position_after it cmp (mi_key it m)) m)
                else Some m);
          c \<leftarrow> it_Next it (mi_children m ! cur);
          Some (FindSmallest it cmp (m\<lparr>mi_children := (mi_children m)[cur := c]\<rparr>)) })"

definition mi_Prev :: "'i IteratorOps \<Rightarrow> (slice \<Rightarrow> slice \<Rightarrow> int) \<Rightarrow> 'i MergingIterator \<Rightarrow> 'i MergingIterator option" where
  "mi_Prev it cmp m =
     (case mi_current m of None \<Rightarrow> None
      | Some cur \<Rightarrow> do {
          m \<leftarrow> (if mi_direction m \<noteq> kReverse
                then map_option (mi_direction_update (\<lambda>_. kReverse)) (other_children (position_before it (mi_key it m)) m)
                else Some m);
          c \<leftarrow> it_Prev it (mi_children m ! cur);
          Some (FindLargest it cmp (m\<lparr>mi_children := (mi_children m)[cur := c]\<rparr>)) })"

definition MergingOps :: "'i IteratorOps \<Rightarrow> (slice \<Rightarrow> slice \<Rightarrow> int) \<Rightarrow> 'i MergingIterator IteratorOps" where
  "MergingOps it cmp = \<lparr>it_Valid = mi_Valid, it_SeekToFirst = mi_SeekToFirst it cmp, it_SeekToLast = mi_SeekToLast it cmp,
     it_Seek = mi_Seek it cmp, it_Next = mi_Next it cmp, it_Prev = mi_Prev it cmp,
     it_key = mi_key it, it_value = mi_value it, it_status = mi_status it\<rparr>"

text \<open>
  \<open>NewMergingIterator\<close> makes no merging iterator of less than two children. The operations of the iterator it
  returns dispatch on its class.
\<close>

datatype 'i merged = MEmpty status | MOne 'i | MMany "'i MergingIterator"

definition NewMergingIterator :: "'i list \<Rightarrow> 'i merged" where
  "NewMergingIterator list =
     (if length list = 0 then MEmpty NewEmptyIterator
      else if length list = 1 then MOne (list ! 0)
      else MMany (new_MergingIterator list))"

definition MergedOps :: "'i IteratorOps \<Rightarrow> (slice \<Rightarrow> slice \<Rightarrow> int) \<Rightarrow> 'i merged IteratorOps" where
  "MergedOps it cmp =
     (let read = (\<lambda>e f g m. case m of MEmpty s \<Rightarrow> e s | MOne c \<Rightarrow> f c | MMany x \<Rightarrow> g x);
          move = (\<lambda>e f g m. case m of MEmpty s \<Rightarrow> map_option MEmpty (e s) | MOne c \<Rightarrow> map_option MOne (f c) | MMany x \<Rightarrow> map_option MMany (g x));
          mi = MergingOps it cmp
      in \<lparr>it_Valid = (\<lambda>m. case m of MEmpty s \<Rightarrow> it_Valid EmptyIterator s | MOne c \<Rightarrow> it_Valid it c | MMany x \<Rightarrow> it_Valid mi x),
         it_SeekToFirst = move (it_SeekToFirst EmptyIterator) (it_SeekToFirst it) (it_SeekToFirst mi),
         it_SeekToLast = move (it_SeekToLast EmptyIterator) (it_SeekToLast it) (it_SeekToLast mi),
         it_Seek = (\<lambda>k. move (it_Seek EmptyIterator k) (it_Seek it k) (it_Seek mi k)),
         it_Next = move (it_Next EmptyIterator) (it_Next it) (it_Next mi),
         it_Prev = move (it_Prev EmptyIterator) (it_Prev it) (it_Prev mi),
         it_key = read (it_key EmptyIterator) (it_key it) (it_key mi),
         it_value = read (it_value EmptyIterator) (it_value it) (it_value mi),
         it_status = (\<lambda>m. case m of MEmpty s \<Rightarrow> it_status EmptyIterator s | MOne c \<Rightarrow> it_status it c | MMany x \<Rightarrow> it_status mi x)\<rparr>)"

subsection \<open>Positions of the children\<close>

text \<open>How many of the entries \<open>es\<close> are among the first \<open>p\<close> entries of the merged list.\<close>

definition among :: "(slice \<times> slice) list \<Rightarrow> nat \<Rightarrow> (slice \<times> slice) list \<Rightarrow> nat" where
  "among M p es = length (filter (\<lambda>e. e \<in> set (take p M)) es)"

definition merge_of :: "(slice \<Rightarrow> slice \<Rightarrow> int) \<Rightarrow> (slice \<times> slice) list \<Rightarrow> (slice \<times> slice) list list \<Rightarrow> bool" where
  "merge_of cmp M ess \<longleftrightarrow> sorted_entries cmp M \<and> set M = (\<Union>es\<in>set ess. set es) \<and>
     (\<forall>i j. i < j \<and> j < length ess \<longrightarrow> set (ess ! i) \<inter> set (ess ! j) = {})"

definition mi_at ::
  "(slice \<Rightarrow> slice \<Rightarrow> int) \<Rightarrow> ('i \<Rightarrow> (slice \<times> slice) list \<Rightarrow> nat \<Rightarrow> bool) \<Rightarrow> 'i MergingIterator \<Rightarrow> (slice \<times> slice) list \<Rightarrow> nat \<Rightarrow> bool" where
  "mi_at cmp on m M p \<longleftrightarrow> p \<le> length M \<and> (\<exists>ess. length ess = length (mi_children m) \<and> merge_of cmp M ess \<and>
     (\<forall>j < length ess. \<exists>q. on (mi_children m ! j) (ess ! j) q) \<and>
     (if p < length M then
        (\<exists>c < length ess. mi_current m = Some c \<and> M ! p \<in> set (ess ! c) \<and>
           (\<forall>j < length ess. on (mi_children m ! j) (ess ! j)
              (case mi_direction m of kForward \<Rightarrow> among M p (ess ! j)
               | kReverse \<Rightarrow> prior (length (ess ! j)) (among M (Suc p) (ess ! j)))))
      else mi_current m = None))"

fun merged_at ::
  "(slice \<Rightarrow> slice \<Rightarrow> int) \<Rightarrow> ('i \<Rightarrow> (slice \<times> slice) list \<Rightarrow> nat \<Rightarrow> bool) \<Rightarrow> 'i merged \<Rightarrow> (slice \<times> slice) list \<Rightarrow> nat \<Rightarrow> bool" where
  "merged_at cmp on (MEmpty s) M p \<longleftrightarrow> s = OK \<and> M = [] \<and> p = 0"
| "merged_at cmp on (MOne c) M p = on c M p"
| "merged_at cmp on (MMany m) M p = mi_at cmp on m M p"

lemma those_each_child:
  assumes "\<And>x. x \<in> set xs \<Longrightarrow> f x = Some (g x)"
  shows "those (map f xs) = Some (map g xs)"
  using assms by (induction xs) auto

lemma those_choice:
  assumes "\<And>j. j < length xs \<Longrightarrow> \<exists>y. f j (xs ! j) = Some y \<and> P j y"
  shows "\<exists>ys. those (map (\<lambda>j. f j (xs ! j)) [0..<length xs]) = Some ys \<and> length ys = length xs \<and> (\<forall>j<length xs. P j (ys ! j))"
proof -
  obtain g where g: "\<And>j. j < length xs \<Longrightarrow> f j (xs ! j) = Some (g j) \<and> P j (g j)" using assms by metis
  have "those (map (\<lambda>j. f j (xs ! j)) [0..<length xs]) = Some (map g [0..<length xs])"
    using g by (intro those_each_child) auto
  then show ?thesis using g by (intro exI [of _ "map g [0..<length xs]"]) auto
qed

lemma those_map_choice:
  assumes "\<And>j. j < length xs \<Longrightarrow> \<exists>y. f (xs ! j) = Some y \<and> P j y"
  shows "\<exists>ys. those (map f xs) = Some ys \<and> length ys = length xs \<and> (\<forall>j<length xs. P j (ys ! j))"
proof -
  have "map f xs = map (\<lambda>j. f (xs ! j)) [0..<length xs]" by (intro nth_equalityI) auto
  then show ?thesis using those_choice [of xs "\<lambda>_. f" P] assms by simp
qed

lemma filter_downward:
  assumes "sorted_wrt R es" "\<And>a b. a \<in> set es \<Longrightarrow> b \<in> set es \<Longrightarrow> R a b \<Longrightarrow> Q b \<Longrightarrow> Q a"
  shows "filter Q es = takeWhile Q es"
  using assms
proof (induction es)
  case (Cons e es)
  have "filter Q es = takeWhile Q es" using Cons.prems by (intro Cons.IH) auto
  moreover have "filter Q es = []" if "\<not> Q e" using Cons.prems that by (auto simp: filter_empty_conv)
  ultimately show ?case by simp
qed simp

lemma subset_index: "set es \<subseteq> set M \<Longrightarrow> e \<in> set es \<Longrightarrow> \<exists>q. q < length M \<and> e = M ! q"
  by (metis in_set_conv_nth subsetD)

lemma sorted_wrt_unique:
  assumes "sorted_wrt R xs" "sorted_wrt R ys" "set xs = set ys" "\<And>a b. a \<in> set xs \<Longrightarrow> b \<in> set xs \<Longrightarrow> R a b \<Longrightarrow> \<not> R b a"
  shows "xs = ys"
  using assms
proof (induction xs arbitrary: ys)
  case (Cons x xs)
  obtain y zs where ys: "ys = y # zs" using Cons.prems(3) by (cases ys) auto
  have R: "\<And>b. b \<in> set xs \<Longrightarrow> R x b" "\<And>b. b \<in> set zs \<Longrightarrow> R y b" and eq: "insert x (set xs) = insert y (set zs)"
    using Cons.prems(1-3) unfolding ys by simp_all
  have asym: "\<And>a b. a \<in> insert x (set xs) \<Longrightarrow> b \<in> insert x (set xs) \<Longrightarrow> R a b \<Longrightarrow> \<not> R b a" using Cons.prems(4) by simp
  have "x = y"
  proof (rule ccontr)
    assume ne: "x \<noteq> y"
    have "y \<in> insert x (set xs)" "x \<in> insert y (set zs)" unfolding eq by (simp, simp add: eq [symmetric])
    then have "y \<in> set xs" "x \<in> set zs" using ne by auto
    then show False using R(1) [of y] R(2) [of x] asym [of x y] by simp
  qed
  moreover have "x \<notin> set xs" using R(1) [of x] asym [of x x] by auto
  moreover have "y \<notin> set zs" using R(2) [of y] asym [of y y] unfolding eq by auto
  ultimately have same: "set xs = set zs" using eq insert_ident [of x "set xs" "set zs"] by simp
  have "xs = zs"
  proof (rule Cons.IH [OF _ _ same])
    show "sorted_wrt R xs" "sorted_wrt R zs" using Cons.prems(1,2) ys by simp_all
    show "\<not> R b a" if "a \<in> set xs" "b \<in> set xs" "R a b" for a b using asym [of a b] that by simp
  qed
  then show ?case using \<open>x = y\<close> ys by simp
qed simp

context comparator
begin

lemma sorted_nth: "sorted_entries Compare M \<Longrightarrow> p < q \<Longrightarrow> q < length M \<Longrightarrow> Compare (fst (M ! p)) (fst (M ! q)) < 0"
  unfolding sorted_entries_def using sorted_wrt_nth_less [of "\<lambda>a b. Compare (fst a) (fst b) < 0" M p q] by blast

lemma sorted_less_iff:
  assumes "sorted_entries Compare M" "\<forall>e\<in>set M. wf (fst e)" "p < length M" "q < length M"
  shows "Compare (fst (M ! p)) (fst (M ! q)) < 0 \<longleftrightarrow> p < q"
  using sorted_nth [OF assms(1), of p q] sorted_nth [OF assms(1), of q p] assms(2-4)
    cmp_swap [of "fst (M ! p)" "fst (M ! q)"] cmp_refl [of "fst (M ! p)"]
  by (metis less_irrefl linorder_neqE_nat not_less_iff_gr_or_eq nth_mem)

lemma sorted_key_inj:
  assumes "sorted_entries Compare M" "\<forall>e\<in>set M. wf (fst e)" "a \<in> set M" "b \<in> set M" "fst a = fst b"
  shows "a = b"
  using assms sorted_less_iff [OF assms(1,2)] by (metis in_set_conv_nth linorder_neqE_nat nat_less_le)

lemma mem_take_iff:
  assumes "sorted_entries Compare M" "\<forall>e\<in>set M. wf (fst e)" "q < length M"
  shows "M ! q \<in> set (take p M) \<longleftrightarrow> q < p"
  using assms sorted_less_iff [OF assms(1,2)]
  by (auto simp: in_set_conv_nth) (metis nat_less_le linorder_neqE_nat nth_take)+

lemma among_le: "among M p es \<le> length es"
  by (simp add: among_def)

lemma among_takeWhile:
  assumes "sorted_entries Compare M" "\<forall>e\<in>set M. wf (fst e)" "sorted_entries Compare es" "set es \<subseteq> set M"
  shows "among M p es = length (takeWhile (\<lambda>e. e \<in> set (take p M)) es)"
proof -
  have "filter (\<lambda>e. e \<in> set (take p M)) es = takeWhile (\<lambda>e. e \<in> set (take p M)) es"
    using assms(3) unfolding sorted_entries_def
  proof (rule filter_downward)
    fix a b assume ab: "a \<in> set es" "b \<in> set es" "Compare (fst a) (fst b) < 0" "b \<in> set (take p M)"
    from ab(1,2) obtain i j where "a = M ! i" "i < length M" "b = M ! j" "j < length M"
      using subset_index [OF assms(4), of a] subset_index [OF assms(4), of b] by blast
    then show "a \<in> set (take p M)"
      using ab(3,4) sorted_less_iff [OF assms(1,2), of i j] mem_take_iff [OF assms(1,2)] by auto
  qed
  then show ?thesis by (simp add: among_def)
qed

text \<open>The entries of a child below the cut \<open>p\<close> are exactly those among the first \<open>p\<close> merged entries.\<close>

lemma among_iff:
  assumes "sorted_entries Compare M" "\<forall>e\<in>set M. wf (fst e)" "sorted_entries Compare es" "set es \<subseteq> set M" "i < length es"
  shows "i < among M p es \<longleftrightarrow> es ! i \<in> set (take p M)"
proof -
  let ?Q = "\<lambda>e. e \<in> set (take p M)"
  note a = among_takeWhile [OF assms(1-4), of p]
  have "?Q (es ! i)" if "i < among M p es"
    using that nth_mem [of i "takeWhile ?Q es"] by (auto simp: a takeWhile_nth dest: set_takeWhileD)
  moreover have "\<not> ?Q (es ! i)" if ge: "among M p es \<le> i"
  proof
    assume q: "?Q (es ! i)"
    have "\<not> ?Q (es ! among M p es)" using nth_length_takeWhile [of ?Q es] assms(5) ge by (simp add: a)
    moreover have "?Q (es ! among M p es)"
    proof (cases "among M p es = i")
      case False
      then have "Compare (fst (es ! among M p es)) (fst (es ! i)) < 0" using ge sorted_nth [OF assms(3)] assms(5) by simp
      moreover obtain j k where "es ! among M p es = M ! j" "j < length M" "es ! i = M ! k" "k < length M"
        using subset_index [OF assms(4), of "es ! among M p es"] subset_index [OF assms(4), of "es ! i"] assms(5) ge by auto
      ultimately show ?thesis using q sorted_less_iff [OF assms(1,2), of j k] mem_take_iff [OF assms(1,2)] by auto
    qed (use q in simp)
    ultimately show False by simp
  qed
  ultimately show ?thesis using not_le by blast
qed

lemma among_eqI:
  assumes "sorted_entries Compare M" "\<forall>e\<in>set M. wf (fst e)" "sorted_entries Compare es" "set es \<subseteq> set M"
    "n \<le> length es" "\<And>i. i < length es \<Longrightarrow> es ! i \<in> set (take p M) \<longleftrightarrow> i < n"
  shows "among M p es = n"
proof (rule ccontr)
  assume "among M p es \<noteq> n"
  then consider "among M p es < n" | "n < among M p es" by linarith
  then show False
    using among_iff [OF assms(1-4), of "among M p es" p] among_iff [OF assms(1-4), of n p] assms(5,6) among_le [of M p es]
    by cases fastforce+
qed

lemma among_Suc:
  assumes "sorted_entries Compare M" "\<forall>e\<in>set M. wf (fst e)" "sorted_entries Compare es" "set es \<subseteq> set M" "p < length M"
  shows "among M (Suc p) es = (if M ! p \<in> set es then Suc (among M p es) else among M p es)"
    "M ! p \<in> set es \<Longrightarrow> among M p es < length es \<and> es ! among M p es = M ! p"
proof -
  have mem: "e \<in> set (take (Suc p) M) \<longleftrightarrow> e \<in> set (take p M) \<or> e = M ! p" for e
    using assms(5) by (auto simp: take_Suc_conv_app_nth)
  have new: "M ! p \<notin> set (take p M)" using mem_take_iff [OF assms(1,2,5)] by simp
  have wes: "\<forall>e\<in>set es. wf (fst e)" using assms(2,4) by blast
  have dist: "i = j" if "i < length es" "j < length es" "es ! i = es ! j" for i j
    using sorted_less_iff [OF assms(3) wes that(1,2)] sorted_less_iff [OF assms(3) wes that(2,1)] that(3) by simp linarith
  show found: "among M p es < length es \<and> es ! among M p es = M ! p" if in': "M ! p \<in> set es"
  proof -
    obtain i where i: "i < length es" "es ! i = M ! p" using in' by (auto simp: in_set_conv_nth)
    have "among M p es = i"
    proof (rule among_eqI [OF assms(1-4)])
      fix k assume k: "k < length es"
      show "es ! k \<in> set (take p M) \<longleftrightarrow> k < i"
      proof -
        obtain q where q: "es ! k = M ! q" "q < length M" using k subset_index [OF assms(4), of "es ! k"] by auto
        have "q < p \<longleftrightarrow> k < i"
          using sorted_less_iff [OF assms(1,2) q(2) assms(5)] sorted_less_iff [OF assms(3) _ k i(1)] assms(2,4) i(2) q(1) by auto
        then show ?thesis using mem_take_iff [OF assms(1,2) q(2)] q(1) by simp
      qed
    qed (use i in simp)
    then show ?thesis using i by simp
  qed
  show "among M (Suc p) es = (if M ! p \<in> set es then Suc (among M p es) else among M p es)"
  proof (cases "M ! p \<in> set es")
    case True
    note f = found [OF True]
    have "among M (Suc p) es = Suc (among M p es)"
    proof (rule among_eqI [OF assms(1-4)])
      fix i assume i: "i < length es"
      show "es ! i \<in> set (take (Suc p) M) \<longleftrightarrow> i < Suc (among M p es)"
        using among_iff [OF assms(1-4) i, of p] mem [of "es ! i"] f dist [of i "among M p es"] i by (auto simp: less_Suc_eq)
    qed (use f in simp)
    then show ?thesis using True by simp
  next
    case False
    then show ?thesis using mem by (auto simp: among_def intro!: arg_cong [where f = length] filter_cong)
  qed
qed

lemma among_all: "set es \<subseteq> set M \<Longrightarrow> among M (length M) es = length es"
  unfolding among_def by (subst filter_True) auto

lemma among_0 [simp]: "among M 0 es = 0"
  by (simp add: among_def)

lemma lower_mono_iff:
  assumes "sorted_entries Compare M" "\<forall>e\<in>set M. wf (fst e)" "wf k" "q < length M"
  shows "q < lower Compare M k \<longleftrightarrow> Compare (fst (M ! q)) k < 0"
proof
  assume "Compare (fst (M ! q)) k < 0"
  moreover have "Compare (fst (M ! lower Compare M k)) (fst (M ! q)) \<le> 0" if "lower Compare M k \<le> q"
    using that sorted_nth [OF assms(1), of "lower Compare M k" q] assms(2,4) cmp_refl by (cases "lower Compare M k = q") force+
  ultimately have "Compare (fst (M ! lower Compare M k)) k < 0" if "lower Compare M k \<le> q"
    using that cmp_le_less_trans [of "fst (M ! lower Compare M k)" "fst (M ! q)" k] assms(2-4) by simp
  then show "q < lower Compare M k" using lower_at [of Compare M k] assms(4) by (cases "lower Compare M k \<le> q") auto
qed (rule lower_before)

lemma among_lower:
  assumes "sorted_entries Compare M" "\<forall>e\<in>set M. wf (fst e)" "sorted_entries Compare es" "set es \<subseteq> set M" "wf k"
  shows "among M (lower Compare M k) es = lower Compare es k"
proof (rule among_eqI [OF assms(1-4) lower_le])
  fix i assume i: "i < length es"
  obtain q where q: "es ! i = M ! q" "q < length M" using i subset_index [OF assms(4), of "es ! i"] by auto
  show "es ! i \<in> set (take (lower Compare M k) M) \<longleftrightarrow> i < lower Compare es k"
    using mem_take_iff [OF assms(1,2) q(2)] lower_mono_iff [OF assms(1,2,5) q(2)] lower_mono_iff [OF assms(3) _ assms(5) i]
      assms(2,4) q(1) by auto
qed

lemma lower_nth:
  assumes "sorted_entries Compare M" "\<forall>e\<in>set M. wf (fst e)" "p < length M"
  shows "lower Compare M (fst (M ! p)) = p"
  using assms sorted_nth [OF assms(1)] cmp_refl by (intro lower_eqI) auto

text \<open>Entries with different keys can be sorted.\<close>

lemma sorted_insert:
  assumes "sorted_entries Compare M" "\<forall>e\<in>set M. wf (fst e)" "wf (fst x)" "\<forall>e\<in>set M. fst e \<noteq> fst x"
  shows "\<exists>M'. sorted_entries Compare M' \<and> set M' = insert x (set M)"
proof (intro exI conjI)
  let ?n = "lower Compare M (fst x)"
  show "set (take ?n M @ x # drop ?n M) = insert x (set M)" by (metis append_take_drop_id list.set(2) set_append Un_insert_right)
  have t: "Compare (fst e) (fst x) < 0" if "e \<in> set (take ?n M)" for e
    using that lower_before [of _ Compare M "fst x"] by (auto simp: in_set_conv_nth)
  have d: "Compare (fst x) (fst e) < 0" if e: "e \<in> set (drop ?n M)" for e
  proof -
    obtain q where q: "e = M ! (?n + q)" "?n + q < length M" using e by (auto simp: in_set_conv_nth)
    then have "\<not> Compare (fst e) (fst x) < 0" using lower_mono_iff [OF assms(1-3) q(2)] by simp
    then show ?thesis using cmp_total [of "fst e" "fst x"] assms(2-4) q nth_mem [OF q(2)] by auto
  qed
  have "Compare (fst a) (fst b) < 0" if "a \<in> set (take ?n M)" "b \<in> set (drop ?n M)" for a b
    using cmp_trans [OF _ _ _ t [OF that(1)] d [OF that(2)]] that assms(2,3) by (meson in_set_dropD in_set_takeD)
  moreover have "sorted_wrt (\<lambda>a b. Compare (fst a) (fst b) < 0) (take ?n M @ drop ?n M)" using assms(1) by (simp add: sorted_entries_def)
  ultimately show "sorted_entries Compare (take ?n M @ x # drop ?n M)"
    using t d unfolding sorted_entries_def sorted_wrt_append by auto
qed

lemma sorted_exists:
  assumes "finite S" "\<forall>e\<in>S. wf (fst e)" "inj_on fst S"
  shows "\<exists>M. sorted_entries Compare M \<and> set M = S"
  using assms
proof (induction S)
  case empty
  then show ?case by (intro exI [of _ "[]"]) (simp add: sorted_entries_def)
next
  case (insert x S)
  then obtain M where M: "sorted_entries Compare M" "set M = S" by auto
  have "fst e \<noteq> fst x" if "e \<in> S" for e using insert.prems(2) insert.hyps(2) that by (auto simp: inj_on_def)
  then show ?case using sorted_insert [OF M(1), of x] M(2) insert.prems(1) by auto
qed

end

subsection \<open>The loops over the children\<close>

lemma find_child_best:
  assumes "find_child it better cs is best = r" "\<And>i. i \<in> set is \<Longrightarrow> it_Valid it (cs ! i) \<Longrightarrow> G (it_key it (cs ! i))"
    "\<And>a b c. G a \<Longrightarrow> G b \<Longrightarrow> G c \<Longrightarrow> better a b \<Longrightarrow> better b c \<Longrightarrow> better a c" "\<And>a. G a \<Longrightarrow> \<not> better a a"
    "\<And>s. best = Some s \<Longrightarrow> s \<in> S \<and> it_Valid it (cs ! s) \<and> G (it_key it (cs ! s)) \<and> (\<forall>i\<in>S. it_Valid it (cs ! i) \<longrightarrow> \<not> better (it_key it (cs ! i)) (it_key it (cs ! s)))"
    "best = None \<Longrightarrow> \<forall>i\<in>S. \<not> it_Valid it (cs ! i)" "\<And>i. i \<in> S \<Longrightarrow> it_Valid it (cs ! i) \<Longrightarrow> G (it_key it (cs ! i))"
  shows "case r of None \<Rightarrow> \<forall>i\<in>S \<union> set is. \<not> it_Valid it (cs ! i)
    | Some s \<Rightarrow> s \<in> S \<union> set is \<and> it_Valid it (cs ! s) \<and>
        (\<forall>i\<in>S \<union> set is. it_Valid it (cs ! i) \<longrightarrow> \<not> better (it_key it (cs ! i)) (it_key it (cs ! s)))"
  using assms
proof (induction "is" arbitrary: best S)
  case Nil
  from Nil.prems(1) have "r = best" by simp
  then show ?case using Nil.prems(5,6) by (cases best) auto
next
  case (Cons i js)
  let ?best = "if it_Valid it (cs ! i) then
          (case best of None \<Rightarrow> Some i | Some s \<Rightarrow> if better (it_key it (cs ! i)) (it_key it (cs ! s)) then Some i else best)
        else best"
  have r: "find_child it better cs js ?best = r" using Cons.prems(1) by simp
  have gi: "it_Valid it (cs ! i) \<Longrightarrow> G (it_key it (cs ! i))" using Cons.prems(2) by simp
  have some: "s \<in> insert i S \<and> it_Valid it (cs ! s) \<and> G (it_key it (cs ! s)) \<and>
      (\<forall>j\<in>insert i S. it_Valid it (cs ! j) \<longrightarrow> \<not> better (it_key it (cs ! j)) (it_key it (cs ! s)))" if "?best = Some s" for s
  proof (cases "it_Valid it (cs ! i)")
    case valid: True
    show ?thesis
    proof (cases best)
      case None
      then show ?thesis using that valid gi Cons.prems(4) Cons.prems(6) by auto
    next
      case (Some t)
      note t = Cons.prems(5) [OF Some]
      show ?thesis
      proof (cases "better (it_key it (cs ! i)) (it_key it (cs ! t))")
        case True
        then have s: "s = i" using that valid Some by simp
        have "\<not> better (it_key it (cs ! j)) (it_key it (cs ! i))" if "j \<in> S" "it_Valid it (cs ! j)" for j
          using Cons.prems(3) [of "it_key it (cs ! j)" "it_key it (cs ! i)" "it_key it (cs ! t)"] True t that gi [OF valid] Cons.prems(7) by blast
        then show ?thesis using s valid gi Cons.prems(4) by auto
      next
        case False
        then show ?thesis using that valid Some t by auto
      qed
    qed
  next
    case False
    then show ?thesis using that Cons.prems(5) by auto
  qed
  have none: "\<forall>j\<in>insert i S. \<not> it_Valid it (cs ! j)" if "?best = None"
    using that Cons.prems(6) by (auto split: if_splits option.splits)
  have "insert i S \<union> set js = S \<union> set (i # js)" by auto
  moreover have "case r of None \<Rightarrow> \<forall>j\<in>insert i S \<union> set js. \<not> it_Valid it (cs ! j)
    | Some s \<Rightarrow> s \<in> insert i S \<union> set js \<and> it_Valid it (cs ! s) \<and>
        (\<forall>j\<in>insert i S \<union> set js. it_Valid it (cs ! j) \<longrightarrow> \<not> better (it_key it (cs ! j)) (it_key it (cs ! s)))"
    by (rule Cons.IH [OF r _ Cons.prems(3,4) some none]) (use Cons.prems(2,7) in auto)
  ultimately show ?case by metis
qed

lemma merge_parts:
  assumes "merge_of cmp M ess" "j < length ess"
  shows "set (ess ! j) \<subseteq> set M"
  using assms nth_mem [of j ess] by (auto simp: merge_of_def)

lemma merge_child:
  assumes "merge_of cmp M ess" "p < length M"
  shows "\<exists>c < length ess. M ! p \<in> set (ess ! c)"
proof -
  have "M ! p \<in> (\<Union>es\<in>set ess. set es)" using assms nth_mem [of p M] by (simp add: merge_of_def)
  then obtain es where "es \<in> set ess" "M ! p \<in> set es" by blast
  then show ?thesis by (metis in_set_conv_nth)
qed

lemma merge_unique:
  assumes "merge_of cmp M ess" "i < length ess" "j < length ess" "e \<in> set (ess ! i)" "e \<in> set (ess ! j)"
  shows "i = j"
proof -
  have "\<not> a < b" if "a < length ess" "b < length ess" "e \<in> set (ess ! a)" "e \<in> set (ess ! b)" for a b
    using assms(1) that unfolding merge_of_def by blast
  then show ?thesis using assms(2-5) linorder_neqE_nat by metis
qed

context sorted_iterator
begin

lemma merge_good:
  assumes "merge_of cmp M ess" "length ess = length cs" "\<forall>j < length ess. \<exists>q. on (cs ! j) (ess ! j) q"
  shows "sorted_entries cmp M" "\<forall>e\<in>set M. good (fst e)" "\<And>j. j < length ess \<Longrightarrow> sorted_entries cmp (ess ! j)"
  using assms at_sorted at_good unfolding merge_of_def by (metis, metis UN_E in_set_conv_nth, metis)

text \<open>The best child shows the merged entry \<open>M ! p\<close>, if some child does and all children show worse ones.\<close>

lemma find_child_target:
  assumes n: "length ess = length cs" "set is = {0..<length cs}"
    and trans: "\<And>a b c. good a \<Longrightarrow> good b \<Longrightarrow> good c \<Longrightarrow> better a b \<Longrightarrow> better b c \<Longrightarrow> better a c" "\<And>a. good a \<Longrightarrow> \<not> better a a"
    and M: "\<forall>e\<in>set M. good (fst e)"
    and valid: "\<And>j. j < length cs \<Longrightarrow> it_Valid it (cs ! j) \<Longrightarrow>
      \<exists>q < length M. it_key it (cs ! j) = fst (M ! q) \<and> M ! q \<in> set (ess ! j) \<and> (q = p \<or> better (fst (M ! p)) (fst (M ! q)))"
    and c: "c < length cs" "it_Valid it (cs ! c)" "it_key it (cs ! c) = fst (M ! p)"
  shows "\<exists>s. find_child it better cs is None = Some s \<and> s < length ess \<and> M ! p \<in> set (ess ! s)"
proof -
  define r where "r = find_child it better cs is None"
  have key: "good (it_key it (cs ! j))" if "j \<in> set is" "it_Valid it (cs ! j)" for j
    using valid [of j] that n(2) M nth_mem by force
  have best: "case r of None \<Rightarrow> \<forall>i\<in>{} \<union> set is. \<not> it_Valid it (cs ! i)
    | Some s \<Rightarrow> s \<in> {} \<union> set is \<and> it_Valid it (cs ! s) \<and>
        (\<forall>i\<in>{} \<union> set is. it_Valid it (cs ! i) \<longrightarrow> \<not> better (it_key it (cs ! i)) (it_key it (cs ! s)))"
    by (rule find_child_best [where G = good and S = "{}", OF r_def [symmetric] key trans]) simp_all
  then obtain s where s: "r = Some s" "s < length cs" "it_Valid it (cs ! s)" "\<not> better (it_key it (cs ! c)) (it_key it (cs ! s))"
    using c n(2) by (cases r) auto
  then show ?thesis using valid [OF s(2,3)] c(3) n(1) unfolding r_def by auto
qed

lemma find_child_none:
  assumes "\<And>i. i \<in> set is \<Longrightarrow> \<not> it_Valid it (cs ! i)"
  shows "find_child it better cs is None = None"
  using assms by (induction "is") auto

lemma FindSmallest_at:
  assumes m: "merge_of cmp M ess" "length ess = length cs" "p \<le> length M" and on: "\<forall>j < length ess. on (cs ! j) (ess ! j) (among M p (ess ! j))"
  shows "if p < length M then \<exists>c. find_child it (\<lambda>a b. cmp a b < 0) cs [0..<length cs] None = Some c \<and> c < length ess \<and> M ! p \<in> set (ess ! c)
    else find_child it (\<lambda>a b. cmp a b < 0) cs [0..<length cs] None = None"
proof -
  have on': "\<forall>j < length ess. \<exists>q. on (cs ! j) (ess ! j) q" using on by blast
  note g = merge_good [OF m(1,2) on']
  have valid: "it_Valid it (cs ! j) \<longleftrightarrow> among M p (ess ! j) < length (ess ! j)" if "j < length ess" for j
    using at_Valid on that by blast
  show ?thesis
  proof (cases "p < length M")
    case True
    obtain c where c: "c < length ess" "M ! p \<in> set (ess ! c)" using merge_child [OF m(1) True] by blast
    have f: "among M p (ess ! c) < length (ess ! c)" "ess ! c ! among M p (ess ! c) = M ! p"
      using among_Suc(2) [OF g(1,2) g(3) [OF c(1)] merge_parts [OF m(1) c(1)] True c(2)] by auto
    have "\<exists>s. find_child it (\<lambda>a b. cmp a b < 0) cs [0..<length cs] None = Some s \<and> s < length ess \<and> M ! p \<in> set (ess ! s)"
    proof (rule find_child_target [OF m(2) _ _ _ g(2)])
      fix j assume j: "j < length cs" "it_Valid it (cs ! j)"
      then have j': "j < length ess" and n: "among M p (ess ! j) < length (ess ! j)" using valid m(2) by auto
      then obtain q where q: "q < length M" "ess ! j ! among M p (ess ! j) = M ! q"
        using subset_index [OF merge_parts [OF m(1) j']] nth_mem by blast
      have "M ! q \<notin> set (take p M)" using among_iff [OF g(1,2) g(3) [OF j'] merge_parts [OF m(1) j'] n, of p] q(2) by simp
      then have "p \<le> q" using mem_take_iff [OF g(1,2) q(1)] by simp
      then have "q = p \<or> cmp (fst (M ! p)) (fst (M ! q)) < 0" using sorted_nth [OF g(1) _ q(1)] by (cases "p = q") auto
      moreover have "it_key it (cs ! j) = fst (M ! q)" using at_key on j' n q(2) by metis
      ultimately show "\<exists>q<length M. it_key it (cs ! j) = fst (M ! q) \<and> M ! q \<in> set (ess ! j) \<and> (q = p \<or> cmp (fst (M ! p)) (fst (M ! q)) < 0)"
        using q nth_mem [OF n] by auto
    next
      show "cmp a d < 0" if "good a" "good b" "good d" "cmp a b < 0" "cmp b d < 0" for a b d using cmp_trans that by blast
      show "\<not> cmp a a < 0" if "good a" for a using cmp_refl [OF that] by simp
      show "it_Valid it (cs ! c)" "it_key it (cs ! c) = fst (M ! p)" using f valid [OF c(1)] at_key [OF on [rule_format, OF c(1)]] by simp_all
    qed (use c m(2) in auto)
    then show ?thesis using True by simp
  next
    case False
    then have "p = length M" using m(3) by simp
    then have "\<not> it_Valid it (cs ! j)" if "j < length ess" for j
      using valid [OF that] among_all [OF merge_parts [OF m(1) that]] by simp
    then show ?thesis using False m(2) by (auto intro!: find_child_none)
  qed
qed

lemma FindLargest_at:
  assumes m: "merge_of cmp M ess" "length ess = length cs" "p \<le> length M"
    and on: "\<forall>j < length ess. on (cs ! j) (ess ! j) (prior (length (ess ! j)) (among M p (ess ! j)))"
  shows "if 0 < p then \<exists>c. find_child it (\<lambda>a b. cmp a b > 0) cs (rev [0..<length cs]) None = Some c \<and> c < length ess \<and> M ! (p - 1) \<in> set (ess ! c)
    else find_child it (\<lambda>a b. cmp a b > 0) cs (rev [0..<length cs]) None = None"
proof -
  have on': "\<forall>j < length ess. \<exists>q. on (cs ! j) (ess ! j) q" using on by blast
  note g = merge_good [OF m(1,2) on']
  have valid: "it_Valid it (cs ! j) \<longleftrightarrow> 0 < among M p (ess ! j)" if "j < length ess" for j
    using at_Valid [OF on [rule_format, OF that]] among_le [of M p "ess ! j"] by (auto simp: prior_def)
  show ?thesis
  proof (cases "0 < p")
    case True
    then have p: "p - 1 < length M" "Suc (p - 1) = p" using m(3) by auto
    obtain c where c: "c < length ess" "M ! (p - 1) \<in> set (ess ! c)" using merge_child [OF m(1) p(1)] by blast
    have f: "among M p (ess ! c) = Suc (among M (p - 1) (ess ! c))" "ess ! c ! among M (p - 1) (ess ! c) = M ! (p - 1)"
      "among M (p - 1) (ess ! c) < length (ess ! c)"
      using among_Suc [OF g(1,2) g(3) [OF c(1)] merge_parts [OF m(1) c(1)] p(1)] c(2) p(2) by auto
    have "\<exists>s. find_child it (\<lambda>a b. cmp a b > 0) cs (rev [0..<length cs]) None = Some s \<and> s < length ess \<and> M ! (p - 1) \<in> set (ess ! s)"
    proof (rule find_child_target [OF m(2) _ _ _ g(2)])
      fix j assume j: "j < length cs" "it_Valid it (cs ! j)"
      define n where "n = among M p (ess ! j) - 1"
      have j': "j < length ess" and n: "n < among M p (ess ! j)" "n < length (ess ! j)" "on (cs ! j) (ess ! j) n"
        using j valid [of j] m(2) on [rule_format, of j] among_le [of M p "ess ! j"] unfolding n_def prior_def by (simp_all add: less_le_trans split: if_splits)
      then obtain q where q: "q < length M" "ess ! j ! n = M ! q"
        using subset_index [OF merge_parts [OF m(1) j']] nth_mem by blast
      have "M ! q \<in> set (take p M)" using among_iff [OF g(1,2) g(3) [OF j'] merge_parts [OF m(1) j'] n(2), of p] q(2) n(1) by simp
      then have "q \<le> p - 1" using mem_take_iff [OF g(1,2) q(1)] by simp
      then have "q = p - 1 \<or> cmp (fst (M ! q)) (fst (M ! (p - 1))) < 0" using sorted_nth [OF g(1) _ p(1)] by (cases "q = p - 1") auto
      moreover have "good (fst (M ! q))" "good (fst (M ! (p - 1)))" using g(2) q(1) p(1) by auto
      ultimately have "q = p - 1 \<or> cmp (fst (M ! (p - 1))) (fst (M ! q)) > 0" using cmp_swap by blast
      moreover have "it_key it (cs ! j) = fst (M ! q)" using at_key [OF n(3,2)] q(2) by simp
      ultimately show "\<exists>q<length M. it_key it (cs ! j) = fst (M ! q) \<and> M ! q \<in> set (ess ! j) \<and> (q = p - 1 \<or> cmp (fst (M ! (p - 1))) (fst (M ! q)) > 0)"
        using q nth_mem [OF n(2)] by auto
    next
      fix a b d assume gd: "good a" "good b" "good d" and ab: "0 < cmp a b" "0 < cmp b d"
      have "cmp d b < 0" "cmp b a < 0" using cmp_swap [of d b] cmp_swap [of b a] gd ab by auto
      from cmp_trans [OF gd(3,2,1) this] show "0 < cmp a d" using cmp_swap [of d a] gd by simp
    next
      show "it_key it (cs ! c) = fst (M ! (p - 1))" using at_key [OF on [rule_format, OF c(1)]] f by (simp add: prior_def)
    qed (use c f valid [OF c(1)] m(2) cmp_refl in auto)
    then show ?thesis using True by simp
  next
    case False
    then have "\<not> it_Valid it (cs ! j)" if "j < length ess" for j using valid [OF that] by simp
    then show ?thesis using False m(2) by (auto intro!: find_child_none)
  qed
qed

text \<open>A merging iterator whose children are placed for the entries from \<open>p\<close> on, or for those before \<open>p\<close>.\<close>

lemma mi_at_forward:
  assumes m: "merge_of cmp M ess" "length ess = length (mi_children m)" "p \<le> length M"
    "\<forall>j < length ess. on (mi_children m ! j) (ess ! j) (among M p (ess ! j))"
  shows "mi_at cmp on ((FindSmallest it cmp m)\<lparr>mi_direction := kForward\<rparr>) M p"
  unfolding mi_at_def using FindSmallest_at [OF m] m
  by (intro conjI exI [of _ ess]) (auto simp: FindSmallest_def)

lemma mi_at_backward:
  assumes m: "merge_of cmp M ess" "length ess = length (mi_children m)" "p \<le> length M"
    "\<forall>j < length ess. on (mi_children m ! j) (ess ! j) (prior (length (ess ! j)) (among M p (ess ! j)))"
  shows "mi_at cmp on ((FindLargest it cmp m)\<lparr>mi_direction := kReverse\<rparr>) M (prior (length M) p)"
proof (cases p)
  case 0
  then show ?thesis unfolding mi_at_def using FindLargest_at [OF m] m
    by (intro conjI exI [of _ ess]) (auto simp: FindLargest_def prior_def [of "length M"])
next
  case (Suc q)
  then show ?thesis unfolding mi_at_def using FindLargest_at [OF m] m
    by (intro conjI exI [of _ ess]) (auto simp: FindLargest_def prior_def [of "length M"])
qed

lemma each_child_at:
  assumes "\<forall>j < length ess. \<exists>q. on (mi_children m ! j) (ess ! j) q" "length ess = length (mi_children m)"
    "\<And>i es q. on i es q \<Longrightarrow> \<exists>j. f i = Some j \<and> on j es (g es)"
  shows "\<exists>m'. each_child f m = Some m' \<and> length (mi_children m') = length ess \<and>
    (\<forall>j < length ess. on (mi_children m' ! j) (ess ! j) (g (ess ! j)))"
proof -
  have "\<exists>ys. those (map f (mi_children m)) = Some ys \<and> length ys = length (mi_children m) \<and>
      (\<forall>j<length (mi_children m). on (ys ! j) (ess ! j) (g (ess ! j)))"
    using assms by (intro those_map_choice) metis
  then show ?thesis using assms(2) by (auto simp: each_child_def)
qed

lemma other_children_at:
  assumes "mi_current m = Some c" "length ess = length (mi_children m)"
    "\<And>j. j < length ess \<Longrightarrow> j \<noteq> c \<Longrightarrow> \<exists>i. f (mi_children m ! j) = Some i \<and> on i (ess ! j) (g (ess ! j))"
  shows "\<exists>m'. other_children f m = Some m' \<and> length (mi_children m') = length ess \<and>
    (\<forall>j < length ess. j \<noteq> c \<longrightarrow> on (mi_children m' ! j) (ess ! j) (g (ess ! j))) \<and>
    (c < length ess \<longrightarrow> mi_children m' ! c = mi_children m ! c)"
proof -
  let ?cs = "mi_children m"
  have "\<exists>ys. those (map (\<lambda>j. (\<lambda>j x. if Some j \<noteq> Some c then f x else Some x) j (?cs ! j)) [0..<length ?cs]) = Some ys \<and>
      length ys = length ?cs \<and> (\<forall>j<length ?cs. (j \<noteq> c \<longrightarrow> on (ys ! j) (ess ! j) (g (ess ! j))) \<and> (j = c \<longrightarrow> ys ! j = ?cs ! j))"
  proof (rule those_choice)
    fix j assume "j < length ?cs"
    then show "\<exists>y. (if Some j \<noteq> Some c then f (?cs ! j) else Some (?cs ! j)) = Some y \<and>
        ((j \<noteq> c \<longrightarrow> on y (ess ! j) (g (ess ! j))) \<and> (j = c \<longrightarrow> y = ?cs ! j))"
      using assms(2) assms(3) [of j] by (cases "j = c") auto
  qed
  then show ?thesis using assms(1,2) by (auto simp: other_children_def)
qed

lemma mi_at_SeekToFirst: "mi_at cmp on m M p \<Longrightarrow> \<exists>m'. mi_SeekToFirst it cmp m = Some m' \<and> mi_at cmp on m' M 0"
proof -
  assume "mi_at cmp on m M p"
  then obtain ess where e: "length ess = length (mi_children m)" "merge_of cmp M ess" "\<forall>j < length ess. \<exists>q. on (mi_children m ! j) (ess ! j) q"
    by (auto simp: mi_at_def)
  then obtain m' where m': "each_child (it_SeekToFirst it) m = Some m'" "length (mi_children m') = length ess"
    "\<forall>j < length ess. on (mi_children m' ! j) (ess ! j) 0"
    using each_child_at [OF e(3,1), of "it_SeekToFirst it" "\<lambda>_. 0"] at_SeekToFirst by metis
  then show ?thesis using mi_at_forward [OF e(2), of m' 0] by (simp add: mi_SeekToFirst_def)
qed

lemma mi_at_Seek:
  assumes "mi_at cmp on m M p" "good k"
  shows "\<exists>m'. mi_Seek it cmp k m = Some m' \<and> mi_at cmp on m' M (lower cmp M k)"
proof -
  obtain ess where e: "length ess = length (mi_children m)" "merge_of cmp M ess" "\<forall>j < length ess. \<exists>q. on (mi_children m ! j) (ess ! j) q"
    using assms(1) by (auto simp: mi_at_def)
  then obtain m' where m': "each_child (it_Seek it k) m = Some m'" "length (mi_children m') = length ess"
    "\<forall>j < length ess. on (mi_children m' ! j) (ess ! j) (lower cmp (ess ! j) k)"
    using each_child_at [OF e(3,1), of "it_Seek it k" "\<lambda>es. lower cmp es k"] at_Seek assms(2) by metis
  note g = merge_good [OF e(2,1,3)]
  have "\<forall>j < length ess. on (mi_children m' ! j) (ess ! j) (among M (lower cmp M k) (ess ! j))"
    using m'(3) among_lower [OF g(1,2) g(3) merge_parts [OF e(2)] assms(2)] by simp
  then show ?thesis using mi_at_forward [OF e(2), of m'] m'(1,2) by (simp add: mi_Seek_def lower_le)
qed

lemma mi_at_SeekToLast: "mi_at cmp on m M p \<Longrightarrow> \<exists>m'. mi_SeekToLast it cmp m = Some m' \<and> mi_at cmp on m' M (length M - 1)"
proof -
  assume "mi_at cmp on m M p"
  then obtain ess where e: "length ess = length (mi_children m)" "merge_of cmp M ess" "\<forall>j < length ess. \<exists>q. on (mi_children m ! j) (ess ! j) q"
    by (auto simp: mi_at_def)
  then obtain m' where m': "each_child (it_SeekToLast it) m = Some m'" "length (mi_children m') = length ess"
    "\<forall>j < length ess. on (mi_children m' ! j) (ess ! j) (length (ess ! j) - 1)"
    using each_child_at [OF e(3,1), of "it_SeekToLast it" "\<lambda>es. length es - 1"] at_SeekToLast by metis
  have "prior (length es) (length es) = length es - 1" for es :: "(slice \<times> slice) list" by (auto simp: prior_def)
  then show ?thesis using mi_at_backward [OF e(2), of m' "length M"] m' among_all [OF merge_parts [OF e(2)]]
    by (simp add: mi_SeekToLast_def)
qed

text \<open>What \<open>Next\<close> and \<open>Prev\<close> find at a valid iterator.\<close>

lemma mi_at_valid:
  assumes "mi_at cmp on m M p" "p < length M"
  obtains ess c where "length ess = length (mi_children m)" "merge_of cmp M ess" "\<forall>j < length ess. \<exists>q. on (mi_children m ! j) (ess ! j) q"
    "c < length ess" "mi_current m = Some c" "M ! p \<in> set (ess ! c)"
    "\<forall>j < length ess. on (mi_children m ! j) (ess ! j)
       (case mi_direction m of kForward \<Rightarrow> among M p (ess ! j) | kReverse \<Rightarrow> prior (length (ess ! j)) (among M (Suc p) (ess ! j)))"
    "on (mi_children m ! c) (ess ! c) (among M p (ess ! c))" "among M p (ess ! c) < length (ess ! c)" "mi_key it m = fst (M ! p)" "mi_value it m = snd (M ! p)"
proof -
  obtain ess c where e: "length ess = length (mi_children m)" "merge_of cmp M ess" "\<forall>j < length ess. \<exists>q. on (mi_children m ! j) (ess ! j) q"
    and c: "c < length ess" "mi_current m = Some c" "M ! p \<in> set (ess ! c)"
    and pos: "\<And>j. j < length ess \<Longrightarrow> on (mi_children m ! j) (ess ! j)
       (case mi_direction m of kForward \<Rightarrow> among M p (ess ! j) | kReverse \<Rightarrow> prior (length (ess ! j)) (among M (Suc p) (ess ! j)))"
    using assms by (auto simp: mi_at_def)
  note g = merge_good [OF e(2,1,3)]
  note a = among_Suc [OF g(1,2) g(3) [OF c(1)] merge_parts [OF e(2) c(1)] assms(2)]
  have f: "among M p (ess ! c) < length (ess ! c)" "ess ! c ! among M p (ess ! c) = M ! p" using a(2) c(3) by auto
  have at_c: "on (mi_children m ! c) (ess ! c) (among M p (ess ! c))"
    using pos [OF c(1)] a(1) c(3) by (cases "mi_direction m") (auto simp: prior_def)
  have "mi_key it m = fst (M ! p)" "mi_value it m = snd (M ! p)"
    using at_key [OF at_c f(1)] at_value [OF at_c f(1)] f(2) c(2) by (simp_all add: mi_key_def mi_value_def mi_child_def)
  then show ?thesis using that [OF e c _ at_c f(1)] pos by blast
qed

lemma mi_at_Next:
  assumes "mi_at cmp on m M p" "p < length M"
  shows "\<exists>m'. mi_Next it cmp m = Some m' \<and> mi_at cmp on m' M (Suc p)"
proof -
  obtain ess c where e: "length ess = length (mi_children m)" "merge_of cmp M ess" "\<forall>j < length ess. \<exists>q. on (mi_children m ! j) (ess ! j) q"
    and c: "c < length ess" "mi_current m = Some c" "M ! p \<in> set (ess ! c)"
    and pos0: "\<forall>j < length ess. on (mi_children m ! j) (ess ! j)
       (case mi_direction m of kForward \<Rightarrow> among M p (ess ! j) | kReverse \<Rightarrow> prior (length (ess ! j)) (among M (Suc p) (ess ! j)))"
    and at_c: "on (mi_children m ! c) (ess ! c) (among M p (ess ! c))" "among M p (ess ! c) < length (ess ! c)"
    and key: "mi_key it m = fst (M ! p)" "mi_value it m = snd (M ! p)"
    by (rule mi_at_valid [OF assms]) (rule that; assumption)
  note pos = pos0 [rule_format]
  note g = merge_good [OF e(2,1,3)]
  have a: "among M (Suc p) (ess ! j) = (if j = c then Suc (among M p (ess ! j)) else among M p (ess ! j))" if "j < length ess" for j
    using among_Suc(1) [OF g(1,2) g(3) [OF that] merge_parts [OF e(2) that] assms(2)] c(3) merge_unique [OF e(2) that c(1), of "M ! p"]
    by (cases "j = c") auto
  have after: "\<exists>i. position_after it cmp (fst (M ! p)) (mi_children m ! j) = Some i \<and> on i (ess ! j) (among M p (ess ! j))"
    if j: "j < length ess" "j \<noteq> c" for j
  proof -
    have l: "lower cmp (ess ! j) (fst (M ! p)) = among M p (ess ! j)"
      using among_lower [OF g(1,2) g(3) [OF j(1)] merge_parts [OF e(2) j(1)]] lower_nth [OF g(1,2) assms(2)] g(2) assms(2) by (metis nth_mem)
    obtain q where "on (mi_children m ! j) (ess ! j) q" using e(3) j by blast
    then obtain i where i: "it_Seek it (fst (M ! p)) (mi_children m ! j) = Some i" "on i (ess ! j) (among M p (ess ! j))"
      using at_Seek [of "mi_children m ! j" "ess ! j" q "fst (M ! p)"] g(2) assms(2) l by auto
    have "cmp (fst (M ! p)) (it_key it i) \<noteq> 0" if "it_Valid it i"
    proof
      assume z: "cmp (fst (M ! p)) (it_key it i) = 0"
      have n: "among M p (ess ! j) < length (ess ! j)" using at_Valid [OF i(2)] that by simp
      have x: "it_key it i = fst (ess ! j ! among M p (ess ! j))" "ess ! j ! among M p (ess ! j) \<in> set M"
        using at_key [OF i(2) n] nth_mem [OF n] merge_parts [OF e(2) j(1)] by auto
      then have "M ! p = ess ! j ! among M p (ess ! j)"
        using sorted_key_inj [OF g(1,2), of "M ! p"] z cmp_zero [of "fst (M ! p)"] g(2) assms(2) by auto
      then show False using merge_unique [OF e(2) j(1) c(1) _ c(3)] nth_mem [OF n] j(2) by simp
    qed
    then show ?thesis using i by (auto simp: position_after_def)
  qed
  obtain m1 where m1: "(if mi_direction m \<noteq> kForward
        then map_option (mi_direction_update (\<lambda>_. kForward)) (other_children (position_after it cmp (mi_key it m)) m) else Some m) = Some m1"
    "length (mi_children m1) = length ess" "\<forall>j < length ess. j \<noteq> c \<longrightarrow> on (mi_children m1 ! j) (ess ! j) (among M p (ess ! j))"
    "mi_children m1 ! c = mi_children m ! c" "mi_direction m1 = kForward"
  proof (cases "mi_direction m")
    case kForward
    then show ?thesis using that [of m] pos e(1) by simp
  next
    case kReverse
    from other_children_at [where g = "among M p", OF c(2) e(1) after] obtain m' where
      "other_children (position_after it cmp (fst (M ! p))) m = Some m'" "length (mi_children m') = length ess"
      "\<forall>j < length ess. j \<noteq> c \<longrightarrow> on (mi_children m' ! j) (ess ! j) (among M p (ess ! j))" "mi_children m' ! c = mi_children m ! c"
      using c(1) by blast
    then show ?thesis using that [of "m'\<lparr>mi_direction := kForward\<rparr>"] kReverse key by simp
  qed
  obtain i where i: "it_Next it (mi_children m1 ! c) = Some i" "on i (ess ! c) (Suc (among M p (ess ! c)))"
    using at_Next [OF at_c] m1(4) by auto
  let ?m = "m1\<lparr>mi_children := (mi_children m1)[c := i]\<rparr>"
  have "mi_at cmp on ((FindSmallest it cmp ?m)\<lparr>mi_direction := kForward\<rparr>) M (Suc p)"
    using m1(2,3) i(2) c(1) a assms(2) by (intro mi_at_forward [OF e(2)]) (auto simp: nth_list_update)
  moreover have "(FindSmallest it cmp ?m)\<lparr>mi_direction := kForward\<rparr> = FindSmallest it cmp ?m"
    using m1(5) by (simp add: FindSmallest_def)
  ultimately show ?thesis using m1(1) i(1) c(2) by (simp add: mi_Next_def)
qed

lemma mi_at_Prev:
  assumes "mi_at cmp on m M p" "p < length M"
  shows "\<exists>m'. mi_Prev it cmp m = Some m' \<and> mi_at cmp on m' M (prior (length M) p)"
proof -
  obtain ess c where e: "length ess = length (mi_children m)" "merge_of cmp M ess" "\<forall>j < length ess. \<exists>q. on (mi_children m ! j) (ess ! j) q"
    and c: "c < length ess" "mi_current m = Some c" "M ! p \<in> set (ess ! c)"
    and pos0: "\<forall>j < length ess. on (mi_children m ! j) (ess ! j)
       (case mi_direction m of kForward \<Rightarrow> among M p (ess ! j) | kReverse \<Rightarrow> prior (length (ess ! j)) (among M (Suc p) (ess ! j)))"
    and at_c: "on (mi_children m ! c) (ess ! c) (among M p (ess ! c))" "among M p (ess ! c) < length (ess ! c)"
    and key: "mi_key it m = fst (M ! p)" "mi_value it m = snd (M ! p)"
    by (rule mi_at_valid [OF assms]) (rule that; assumption)
  note pos = pos0 [rule_format]
  note g = merge_good [OF e(2,1,3)]
  let ?pos = "\<lambda>es. prior (length es) (among M p es)"
  have a: "among M (Suc p) (ess ! j) = among M p (ess ! j)" if "j < length ess" "j \<noteq> c" for j
    using among_Suc(1) [OF g(1,2) g(3) [OF that(1)] merge_parts [OF e(2) that(1)] assms(2)] c(1,3)
      merge_unique [OF e(2) that(1) c(1), of "M ! p"] that(2) by auto
  have before: "\<exists>i. position_before it (fst (M ! p)) (mi_children m ! j) = Some i \<and> on i (ess ! j) (?pos (ess ! j))"
    if j: "j < length ess" "j \<noteq> c" for j
  proof -
    let ?n = "among M p (ess ! j)"
    have l: "lower cmp (ess ! j) (fst (M ! p)) = ?n"
      using among_lower [OF g(1,2) g(3) [OF j(1)] merge_parts [OF e(2) j(1)]] lower_nth [OF g(1,2) assms(2)] g(2) assms(2) by (metis nth_mem)
    obtain q where "on (mi_children m ! j) (ess ! j) q" using e(3) j by blast
    then obtain i where i: "it_Seek it (fst (M ! p)) (mi_children m ! j) = Some i" "on i (ess ! j) ?n"
      using at_Seek [of "mi_children m ! j" "ess ! j" q "fst (M ! p)"] g(2) assms(2) l by auto
    show ?thesis
    proof (cases "it_Valid it i")
      case True
      then show ?thesis using i at_Prev [OF i(2)] at_Valid [OF i(2)] by (auto simp: position_before_def)
    next
      case False
      then have "?n = length (ess ! j)" using at_Valid [OF i(2)] at_le [OF i(2)] by simp
      then have "?pos (ess ! j) = length (ess ! j) - 1" by (auto simp: prior_def)
      then show ?thesis using i at_SeekToLast [OF i(2)] False by (auto simp: position_before_def)
    qed
  qed
  obtain m1 where m1: "(if mi_direction m \<noteq> kReverse
        then map_option (mi_direction_update (\<lambda>_. kReverse)) (other_children (position_before it (mi_key it m)) m) else Some m) = Some m1"
    "length (mi_children m1) = length ess" "\<forall>j < length ess. j \<noteq> c \<longrightarrow> on (mi_children m1 ! j) (ess ! j) (?pos (ess ! j))"
    "mi_children m1 ! c = mi_children m ! c" "mi_direction m1 = kReverse"
  proof (cases "mi_direction m")
    case kReverse
    then have "\<forall>j < length ess. j \<noteq> c \<longrightarrow> on (mi_children m ! j) (ess ! j) (?pos (ess ! j))" using pos a by fastforce
    then show ?thesis using that [of m] kReverse e(1) by simp
  next
    case kForward
    from other_children_at [where g = ?pos, OF c(2) e(1) before] obtain m' where
      "other_children (position_before it (fst (M ! p))) m = Some m'" "length (mi_children m') = length ess"
      "\<forall>j < length ess. j \<noteq> c \<longrightarrow> on (mi_children m' ! j) (ess ! j) (?pos (ess ! j))" "mi_children m' ! c = mi_children m ! c"
      using c(1) by blast
    then show ?thesis using that [of "m'\<lparr>mi_direction := kReverse\<rparr>"] kForward key by simp
  qed
  obtain i where i: "it_Prev it (mi_children m1 ! c) = Some i" "on i (ess ! c) (?pos (ess ! c))"
    using at_Prev [OF at_c] m1(4) by auto
  let ?m = "m1\<lparr>mi_children := (mi_children m1)[c := i]\<rparr>"
  have "mi_at cmp on ((FindLargest it cmp ?m)\<lparr>mi_direction := kReverse\<rparr>) M (prior (length M) p)"
    using m1(2,3) i(2) c(1) assms(2) by (intro mi_at_backward [OF e(2)]) (auto simp: nth_list_update)
  moreover have "(FindLargest it cmp ?m)\<lparr>mi_direction := kReverse\<rparr> = FindLargest it cmp ?m"
    using m1(5) by (simp add: FindLargest_def)
  ultimately show ?thesis using m1(1) i(1) c(2) by (simp add: mi_Prev_def)
qed

lemma children_status_OK:
  assumes "\<forall>c\<in>set cs. it_status it c = OK"
  shows "children_status it OK cs = OK"
  using assms by (induction cs) (auto simp: Let_def)

lemma mi_at_status: "mi_at cmp on m M p \<Longrightarrow> mi_status it m = OK"
  unfolding mi_status_def mi_at_def by (rule children_status_OK) (metis at_status in_set_conv_nth)

lemma mi_at_parts:
  assumes "mi_at cmp on m M p"
  shows "p \<le> length M" "sorted_entries cmp M" "\<forall>e\<in>set M. good (fst e)" "mi_Valid m \<longleftrightarrow> p < length M"
  using assms merge_good [of M _ "mi_children m"] unfolding mi_at_def mi_Valid_def by (auto split: if_splits)

text \<open>A merging iterator is a sorted iterator.\<close>

lemma merging_iterator: "sorted_iterator cmp good (MergingOps it cmp) (mi_at cmp on)"
proof unfold_locales
  fix m M p assume m: "mi_at cmp on m M p"
  show "it_Valid (MergingOps it cmp) m \<longleftrightarrow> p < length M" "p \<le> length M" "sorted_entries cmp M"
    using mi_at_parts [OF m] by (simp_all add: MergingOps_def)
  show "good (fst e)" if "e \<in> set M" for e using mi_at_parts(3) [OF m] that by blast
  show "it_status (MergingOps it cmp) m = OK" using mi_at_status [OF m] by (simp add: MergingOps_def)
  show "\<exists>j. it_SeekToFirst (MergingOps it cmp) m = Some j \<and> mi_at cmp on j M 0"
    "\<exists>j. it_SeekToLast (MergingOps it cmp) m = Some j \<and> mi_at cmp on j M (length M - 1)"
    using mi_at_SeekToFirst [OF m] mi_at_SeekToLast [OF m] by (simp_all add: MergingOps_def)
  show "\<exists>j. it_Seek (MergingOps it cmp) k m = Some j \<and> mi_at cmp on j M (lower cmp M k)" if "good k" for k
    using mi_at_Seek [OF m that] by (simp add: MergingOps_def)
  assume p: "p < length M"
  show "it_key (MergingOps it cmp) m = fst (M ! p)" "it_value (MergingOps it cmp) m = snd (M ! p)"
    by (rule mi_at_valid [OF m p], simp add: MergingOps_def)+
  show "\<exists>j. it_Next (MergingOps it cmp) m = Some j \<and> mi_at cmp on j M (Suc p)"
    "\<exists>j. it_Prev (MergingOps it cmp) m = Some j \<and> mi_at cmp on j M (prior (length M) p)"
    using mi_at_Next [OF m p] mi_at_Prev [OF m p] by (simp_all add: MergingOps_def)
qed

text \<open>A new merging iterator is not valid.\<close>

lemma new_MergingIterator_at:
  assumes "merge_of cmp M ess" "length ess = length cs" "\<forall>j < length ess. \<exists>q. on (cs ! j) (ess ! j) q"
  shows "mi_at cmp on (new_MergingIterator cs) M (length M)"
  using assms by (auto simp: mi_at_def new_MergingIterator_def)

lemma merged_iterator: "sorted_iterator cmp good (MergedOps it cmp) (merged_at cmp on)"
proof unfold_locales
  note mi = sorted_iterator.at_le sorted_iterator.at_sorted sorted_iterator.at_good sorted_iterator.at_Valid sorted_iterator.at_key
    sorted_iterator.at_value sorted_iterator.at_status sorted_iterator.at_SeekToFirst sorted_iterator.at_SeekToLast
  note mi = mi [OF merging_iterator] and mi_Seek = sorted_iterator.at_Seek [OF merging_iterator]
    and mi_step = sorted_iterator.at_Next [OF merging_iterator] sorted_iterator.at_Prev [OF merging_iterator]
  fix m M p assume m: "merged_at cmp on m M p"
  note d = MergedOps_def Let_def EmptyIterator_def
  show "p \<le> length M" using m at_le mi(1) by (cases m) auto
  show "sorted_entries cmp M" using m at_sorted mi(2) by (cases m) (auto simp: sorted_entries_def)
  show "good (fst e)" if "e \<in> set M" for e using m that at_good mi(3) by (cases m) auto
  show "it_Valid (MergedOps it cmp) m \<longleftrightarrow> p < length M" using m at_Valid mi(4) by (cases m) (auto simp: d)
  show "it_status (MergedOps it cmp) m = OK" using m at_status mi(7) by (cases m) (auto simp: d)
  show "\<exists>j. it_SeekToFirst (MergedOps it cmp) m = Some j \<and> merged_at cmp on j M 0"
  proof (cases m)
    case (MEmpty x)
    then show ?thesis using m by (simp add: d)
  next
    case (MOne x)
    then show ?thesis using m at_SeekToFirst [of x M p] by (auto simp: d)
  next
    case (MMany x)
    then show ?thesis using m mi(8) [of x M p] by (auto simp: d)
  qed
  show "\<exists>j. it_SeekToLast (MergedOps it cmp) m = Some j \<and> merged_at cmp on j M (length M - 1)"
  proof (cases m)
    case (MEmpty x)
    then show ?thesis using m by (simp add: d)
  next
    case (MOne x)
    then show ?thesis using m at_SeekToLast [of x M p] by (auto simp: d)
  next
    case (MMany x)
    then show ?thesis using m mi(9) [of x M p] by (auto simp: d)
  qed
  show "\<exists>j. it_Seek (MergedOps it cmp) k m = Some j \<and> merged_at cmp on j M (lower cmp M k)" if "good k" for k
  proof (cases m)
    case (MEmpty x)
    then show ?thesis using m by (simp add: d lower_def)
  next
    case (MOne x)
    then show ?thesis using m at_Seek [of x M p, OF _ that] by (auto simp: d)
  next
    case (MMany x)
    then show ?thesis using m mi_Seek [of x M p, OF _ that] by (auto simp: d)
  qed
  assume p: "p < length M"
  show "it_key (MergedOps it cmp) m = fst (M ! p)" using m p at_key mi(5) by (cases m) (auto simp: d)
  show "it_value (MergedOps it cmp) m = snd (M ! p)" using m p at_value mi(6) by (cases m) (auto simp: d)
  show "\<exists>j. it_Next (MergedOps it cmp) m = Some j \<and> merged_at cmp on j M (Suc p)"
  proof (cases m)
    case (MEmpty x)
    then show ?thesis using m p by (simp add: d)
  next
    case (MOne x)
    then show ?thesis using m at_Next [of x M p, OF _ p] by (auto simp: d)
  next
    case (MMany x)
    then show ?thesis using m mi_step(1) [of x M p, OF _ p] by (auto simp: d)
  qed
  show "\<exists>j. it_Prev (MergedOps it cmp) m = Some j \<and> merged_at cmp on j M (prior (length M) p)"
  proof (cases m)
    case (MEmpty x)
    then show ?thesis using m p by (simp add: d)
  next
    case (MOne x)
    then show ?thesis using m at_Prev [of x M p, OF _ p] by (auto simp: d)
  next
    case (MMany x)
    then show ?thesis using m mi_step(2) [of x M p, OF _ p] by (auto simp: d)
  qed
qed

lemma NewMergingIterator_at:
  assumes "merge_of cmp M ess" "length ess = length cs" "\<forall>j < length ess. \<exists>q. on (cs ! j) (ess ! j) q"
  shows "\<exists>p. merged_at cmp on (NewMergingIterator cs) M p"
proof -
  consider "cs = []" | c where "cs = [c]" | "2 \<le> length cs" by (cases cs; cases "tl cs") auto
  then show ?thesis
  proof cases
    case 1
    then show ?thesis using assms by (simp add: NewMergingIterator_def NewEmptyIterator_def merge_of_def)
  next
    case 2
    then obtain es q where es: "ess = [es]" "on c es q" using assms(2,3) by (cases ess) auto
    have "M = es"
    proof (rule sorted_wrt_unique)
      show "sorted_wrt (\<lambda>a b. cmp (fst a) (fst b) < 0) M" "sorted_wrt (\<lambda>a b. cmp (fst a) (fst b) < 0) es" "set M = set es"
        using assms(1) at_sorted [OF es(2)] es(1) by (auto simp: merge_of_def sorted_entries_def)
      show "\<not> cmp (fst b) (fst a) < 0" if "a \<in> set M" "b \<in> set M" "cmp (fst a) (fst b) < 0" for a b
        using that cmp_swap [of "fst a" "fst b"] merge_good(2) [OF assms] by force
    qed
    then show ?thesis using 2 es by (auto simp: NewMergingIterator_def)
  next
    case 3
    then show ?thesis using new_MergingIterator_at [OF assms] by (auto simp: NewMergingIterator_def)
  qed
qed

end

end
