(* ===== verification/DbIter.thy ===== *)
theory DbIter
  imports Merger MemTable CompactionDrop
begin

text \<open>
  db/db_iter.cc: the iterator a client of the database sees. It moves over the internal entries of the database and combines the
  entries of one user key into the one that a reader with the given sequence number sees.

  The internal iterator is a parameter with the contract of \<open>sorted_iterator\<close>. \<open>skip\<close> in \<open>FindNextUserEntry\<close> always points to
  \<open>saved_key_\<close>, so it is that field. Every key is counted for the sampling of reads; \<open>di_samples\<close> holds the keys passed to
  \<open>RecordReadSample\<close> so far. The theorem: a \<open>DBIter\<close> is a sorted iterator over the user's view of the database, whatever
  moves are made in whatever order.
\<close>

subsection \<open>DBIter\<close>

definition kReadBytesPeriod :: nat where "kReadBytesPeriod = 1048576"

record 'i DBIter =
  di_iter :: 'i
  di_status :: status
  di_saved_key :: slice
  di_saved_value :: slice
  di_direction :: direction
  di_valid :: bool
  di_rnd :: u32
  di_bytes_counter :: int
  di_samples :: "slice list"

definition RandomPeriod :: "u32 \<Rightarrow> int \<times> u32" where
  "RandomPeriod rnd = (let (r, rnd) = Random_Uniform (of_nat (2 * kReadBytesPeriod)) rnd in (uint r, rnd))"

definition new_DBIter :: "'i \<Rightarrow> u32 \<Rightarrow> 'i DBIter" where
  "new_DBIter iter seed =
     (let (period, rnd) = RandomPeriod (new_Random seed)
      in \<lparr>di_iter = iter, di_status = OK, di_saved_key = [], di_saved_value = [], di_direction = kForward, di_valid = False,
          di_rnd = rnd, di_bytes_counter = period, di_samples = []\<rparr>)"

definition di_key :: "'i IteratorOps \<Rightarrow> 'i DBIter \<Rightarrow> slice" where
  "di_key it d = (if di_direction d = kForward then ExtractUserKey (it_key it (di_iter d)) else di_saved_key d)"

definition di_value :: "'i IteratorOps \<Rightarrow> 'i DBIter \<Rightarrow> slice" where
  "di_value it d = (if di_direction d = kForward then it_value it (di_iter d) else di_saved_value d)"

definition di_get_status :: "'i IteratorOps \<Rightarrow> 'i DBIter \<Rightarrow> status" where
  "di_get_status it d = (if ok (di_status d) then it_status it (di_iter d) else di_status d)"

text \<open>The loop of \<open>ParseKey\<close>: a sample for every period that is over.\<close>

partial_function (option) sample_loop :: "slice \<Rightarrow> int \<Rightarrow> u32 \<Rightarrow> slice list \<Rightarrow> (int \<times> u32 \<times> slice list) option" where
  "sample_loop k cnt rnd samples =
     (if cnt < 0 then
        sample_loop k (cnt + fst (RandomPeriod rnd)) (snd (RandomPeriod rnd)) (samples @ [k])
      else Some (cnt, rnd, samples))"

definition ParseKey :: "'i IteratorOps \<Rightarrow> 'i DBIter \<Rightarrow> (ParsedInternalKey option \<times> 'i DBIter) option" where
  "ParseKey it d =
     (let k = it_key it (di_iter d);
          n = int (length k + length (it_value it (di_iter d)))
      in do {
        (cnt, rnd, samples) \<leftarrow> sample_loop k (di_bytes_counter d - n) (di_rnd d) (di_samples d);
        let d = d\<lparr>di_bytes_counter := cnt, di_rnd := rnd, di_samples := samples\<rparr>;
        Some (case ParseInternalKey k of
            None \<Rightarrow> (None, d\<lparr>di_status := Corruption ''corrupted internal key in DBIter''\<rparr>)
          | Some ikey \<Rightarrow> (Some ikey, d)) })"

text \<open>What \<open>FindNextUserEntry\<close> does with the entry it stands at: whether it stops, and whether it is skipping.\<close>

definition next_entry :: "(slice \<Rightarrow> slice \<Rightarrow> int) \<Rightarrow> u64 \<Rightarrow> bool \<Rightarrow> ParsedInternalKey option \<Rightarrow> 'i DBIter \<Rightarrow> bool \<times> bool \<times> 'i DBIter" where
  "next_entry ucmp snap skipping ikey d =
     (case ikey of None \<Rightarrow> (False, skipping, d)
      | Some ikey \<Rightarrow>
          if sequence ikey \<le> snap then
            (case type ikey of
               kTypeDeletion \<Rightarrow> (False, True, d\<lparr>di_saved_key := user_key ikey\<rparr>)
             | kTypeValue \<Rightarrow>
                 if skipping \<and> ucmp (user_key ikey) (di_saved_key d) \<le> 0 then (False, skipping, d)
                 else (True, skipping, d\<lparr>di_valid := True, di_saved_key := []\<rparr>))
          else (False, skipping, d))"

partial_function (option) FindNextUserEntry ::
  "'i IteratorOps \<Rightarrow> (slice \<Rightarrow> slice \<Rightarrow> int) \<Rightarrow> u64 \<Rightarrow> bool \<Rightarrow> 'i DBIter \<Rightarrow> 'i DBIter option" where
  "FindNextUserEntry it ucmp snap skipping d = do {
     (ikey, d) \<leftarrow> ParseKey it d;
     case next_entry ucmp snap skipping ikey d of (stop, skipping, d) \<Rightarrow>
       if stop then Some d
       else do {
         i \<leftarrow> it_Next it (di_iter d);
         if it_Valid it i then FindNextUserEntry it ucmp snap skipping (d\<lparr>di_iter := i\<rparr>)
         else Some (d\<lparr>di_iter := i, di_saved_key := [], di_valid := False\<rparr>) } }"

definition di_Next :: "'i IteratorOps \<Rightarrow> (slice \<Rightarrow> slice \<Rightarrow> int) \<Rightarrow> u64 \<Rightarrow> 'i DBIter \<Rightarrow> 'i DBIter option" where
  "di_Next it ucmp snap d =
     (if di_direction d = kReverse then do {
        i \<leftarrow> (if \<not> it_Valid it (di_iter d) then it_SeekToFirst it (di_iter d) else it_Next it (di_iter d));
        let d = d\<lparr>di_direction := kForward, di_iter := i\<rparr>;
        if \<not> it_Valid it i then Some (d\<lparr>di_valid := False, di_saved_key := []\<rparr>)
        else FindNextUserEntry it ucmp snap True d }
      else FindNextUserEntry it ucmp snap True (d\<lparr>di_saved_key := ExtractUserKey (it_key it (di_iter d))\<rparr>))"

text \<open>The loop of \<open>Prev\<close> that leaves the entries of the current user key: whether there is an entry before them.\<close>

partial_function (option) scan_back :: "'i IteratorOps \<Rightarrow> (slice \<Rightarrow> slice \<Rightarrow> int) \<Rightarrow> slice \<Rightarrow> 'i \<Rightarrow> (bool \<times> 'i) option" where
  "scan_back it ucmp saved i = do {
     i \<leftarrow> it_Prev it i;
     if \<not> it_Valid it i then Some (False, i)
     else if ucmp (ExtractUserKey (it_key it i)) saved < 0 then Some (True, i)
     else scan_back it ucmp saved i }"

text \<open>What \<open>FindPrevUserEntry\<close> does with the entry it stands at: whether it stops, and the type of the entry saved.\<close>

definition prev_entry ::
  "'i IteratorOps \<Rightarrow> (slice \<Rightarrow> slice \<Rightarrow> int) \<Rightarrow> u64 \<Rightarrow> ValueType \<Rightarrow> ParsedInternalKey option \<Rightarrow> 'i DBIter \<Rightarrow> bool \<times> ValueType \<times> 'i DBIter" where
  "prev_entry it ucmp snap value_type ikey d =
     (case ikey of None \<Rightarrow> (False, value_type, d)
      | Some ikey \<Rightarrow>
          if sequence ikey \<le> snap then
            if value_type \<noteq> kTypeDeletion \<and> ucmp (user_key ikey) (di_saved_key d) < 0 then (True, value_type, d)
            else (case type ikey of
                    kTypeDeletion \<Rightarrow> (False, kTypeDeletion, d\<lparr>di_saved_key := [], di_saved_value := []\<rparr>)
                  | kTypeValue \<Rightarrow>
                      (False, kTypeValue, d\<lparr>di_saved_key := ExtractUserKey (it_key it (di_iter d)), di_saved_value := it_value it (di_iter d)\<rparr>))
          else (False, value_type, d))"

partial_function (option) prev_loop ::
  "'i IteratorOps \<Rightarrow> (slice \<Rightarrow> slice \<Rightarrow> int) \<Rightarrow> u64 \<Rightarrow> ValueType \<Rightarrow> 'i DBIter \<Rightarrow> (ValueType \<times> 'i DBIter) option" where
  "prev_loop it ucmp snap value_type d = do {
     (ikey, d) \<leftarrow> ParseKey it d;
     case prev_entry it ucmp snap value_type ikey d of (stop, value_type, d) \<Rightarrow>
       if stop then Some (value_type, d)
       else do {
         i \<leftarrow> it_Prev it (di_iter d);
         if it_Valid it i then prev_loop it ucmp snap value_type (d\<lparr>di_iter := i\<rparr>)
         else Some (value_type, d\<lparr>di_iter := i\<rparr>) } }"

definition FindPrevUserEntry :: "'i IteratorOps \<Rightarrow> (slice \<Rightarrow> slice \<Rightarrow> int) \<Rightarrow> u64 \<Rightarrow> 'i DBIter \<Rightarrow> 'i DBIter option" where
  "FindPrevUserEntry it ucmp snap d = do {
     (value_type, d) \<leftarrow> (if it_Valid it (di_iter d) then prev_loop it ucmp snap kTypeDeletion d else Some (kTypeDeletion, d));
     Some (if value_type = kTypeDeletion
           then d\<lparr>di_valid := False, di_saved_key := [], di_saved_value := [], di_direction := kForward\<rparr>
           else d\<lparr>di_valid := True\<rparr>) }"

definition di_Prev :: "'i IteratorOps \<Rightarrow> (slice \<Rightarrow> slice \<Rightarrow> int) \<Rightarrow> u64 \<Rightarrow> 'i DBIter \<Rightarrow> 'i DBIter option" where
  "di_Prev it ucmp snap d =
     (if di_direction d = kForward then do {
        let d = d\<lparr>di_saved_key := ExtractUserKey (it_key it (di_iter d))\<rparr>;
        (found, i) \<leftarrow> scan_back it ucmp (di_saved_key d) (di_iter d);
        let d = d\<lparr>di_iter := i\<rparr>;
        if \<not> found then Some (d\<lparr>di_valid := False, di_saved_key := [], di_saved_value := []\<rparr>)
        else FindPrevUserEntry it ucmp snap (d\<lparr>di_direction := kReverse\<rparr>) }
      else FindPrevUserEntry it ucmp snap d)"

definition di_Seek :: "'i IteratorOps \<Rightarrow> (slice \<Rightarrow> slice \<Rightarrow> int) \<Rightarrow> u64 \<Rightarrow> slice \<Rightarrow> 'i DBIter \<Rightarrow> 'i DBIter option" where
  "di_Seek it ucmp snap target d =
     (let d = d\<lparr>di_direction := kForward, di_saved_value := [],
               di_saved_key := AppendInternalKey [] \<lparr>user_key = target, sequence = snap, type = kValueTypeForSeek\<rparr>\<rparr>
      in do {
        i \<leftarrow> it_Seek it (di_saved_key d) (di_iter d);
        let d = d\<lparr>di_iter := i\<rparr>;
        if it_Valid it i then FindNextUserEntry it ucmp snap False d
        else Some (d\<lparr>di_valid := False\<rparr>) })"

definition di_SeekToFirst :: "'i IteratorOps \<Rightarrow> (slice \<Rightarrow> slice \<Rightarrow> int) \<Rightarrow> u64 \<Rightarrow> 'i DBIter \<Rightarrow> 'i DBIter option" where
  "di_SeekToFirst it ucmp snap d = do {
     i \<leftarrow> it_SeekToFirst it (di_iter d);
     let d = d\<lparr>di_direction := kForward, di_saved_value := [], di_iter := i\<rparr>;
     if it_Valid it i then FindNextUserEntry it ucmp snap False d
     else Some (d\<lparr>di_valid := False\<rparr>) }"

definition di_SeekToLast :: "'i IteratorOps \<Rightarrow> (slice \<Rightarrow> slice \<Rightarrow> int) \<Rightarrow> u64 \<Rightarrow> 'i DBIter \<Rightarrow> 'i DBIter option" where
  "di_SeekToLast it ucmp snap d = do {
     i \<leftarrow> it_SeekToLast it (di_iter d);
     FindPrevUserEntry it ucmp snap (d\<lparr>di_direction := kReverse, di_saved_value := [], di_iter := i\<rparr>) }"

definition DBIterOps :: "'i IteratorOps \<Rightarrow> (slice \<Rightarrow> slice \<Rightarrow> int) \<Rightarrow> u64 \<Rightarrow> 'i DBIter IteratorOps" where
  "DBIterOps it ucmp snap = \<lparr>it_Valid = di_valid, it_SeekToFirst = di_SeekToFirst it ucmp snap, it_SeekToLast = di_SeekToLast it ucmp snap,
     it_Seek = di_Seek it ucmp snap, it_Next = di_Next it ucmp snap, it_Prev = di_Prev it ucmp snap,
     it_key = di_key it, it_value = di_value it, it_status = di_get_status it\<rparr>"

subsection \<open>The samples\<close>

definition seed_ok :: "u32 \<Rightarrow> bool" where
  "seed_ok r \<longleftrightarrow> 0 < unat r \<and> unat r < 2147483647"

lemma seed_ok_Next: "seed_ok r \<Longrightarrow> seed_ok (Random_Next r)"
  using Random_Next_mod [of r] by (simp add: seed_ok_def)

lemma seed_ok_new: "seed_ok (new_Random s)"
proof -
  define w where "w = s AND 0x7fffffff"
  have "w = take_bit 31 s" by (simp add: w_def take_bit_eq_mask mask_eq_exp_minus_1)
  then have le: "unat w < 2147483648" using take_bit_nat_less_exp [of 31 "unat s"] by (simp add: unsigned_take_bit_eq)
  have "unat w = 2147483647 \<Longrightarrow> w = 2147483647" using word_unat_eq_iff [of w 2147483647] by simp
  then show ?thesis using le unfolding new_Random_def w_def [symmetric] seed_ok_def Let_def by (cases "unat w = 2147483647") (auto simp: unat_gt_0)
qed

lemma RandomPeriod_eq: "RandomPeriod r = (int (unat (Random_Next r) mod 2097152), Random_Next r)"
  by (simp add: RandomPeriod_def Random_Uniform_def kReadBytesPeriod_def Let_def uint_mod zmod_int)

text \<open>The generator does not give 0 twice in a row, so the loop goes on.\<close>

lemma Uniform_not_zero_twice:
  assumes "seed_ok r" "unat (Random_Next r) mod 2097152 = 0"
  shows "unat (Random_Next (Random_Next r)) mod 2097152 \<noteq> 0"
proof -
  define x where "x = unat (Random_Next r)"
  have ok: "seed_ok (Random_Next r)" by (rule seed_ok_Next [OF assms(1)])
  obtain a where a: "x = 2097152 * a" using assms(2) unfolding x_def by auto
  have ar: "0 < a" "a < 1024" using ok a by (auto simp: seed_ok_def x_def [symmetric])
  define u v where "u = 16807 * a div 1024" and "v = 16807 * a mod 1024"
  have "16807 * a = 1024 * u + v" by (simp add: u_def v_def)
  moreover have uv: "16 \<le> u" "u < 16807" "v < 1024" using ar by (auto simp: u_def v_def less_mult_imp_div_less)
  ultimately have "16807 * x = (u + 2097152 * v) + 2147483647 * u" unfolding a by simp
  then have "unat (Random_Next (Random_Next r)) = (u + 2097152 * v) mod 2147483647"
    using Random_Next_mod(1) [of "Random_Next r"] ok mod_mult_self2 [of "u + 2097152 * v" 2147483647 u] unfolding seed_ok_def x_def [symmetric] by metis
  also have "\<dots> = u + 2097152 * v" using uv by simp
  finally show ?thesis using uv by simp
qed

lemma sample_loop_returns:
  assumes "seed_ok r"
  shows "\<exists>c' r' ss'. sample_loop k c r ss = Some (c', r', ss') \<and> seed_ok r'"
  using assms
proof (induction "2 * nat (- c) + (if unat (Random_Next r) mod 2097152 = 0 then 1 else 0)" arbitrary: c r ss rule: less_induct)
  case less
  show ?case
  proof (cases "c < 0")
    case True
    let ?c = "c + fst (RandomPeriod r)" and ?r = "Random_Next r"
    have "2 * nat (- ?c) + (if unat (Random_Next ?r) mod 2097152 = 0 then 1 else 0) <
        2 * nat (- c) + (if unat ?r mod 2097152 = 0 then 1 else 0)"
      using True Uniform_not_zero_twice [OF less.prems] by (cases "unat ?r mod 2097152 = 0") (auto simp: RandomPeriod_eq)
    from less.hyps [OF this seed_ok_Next [OF less.prems]] show ?thesis
      using True by (subst sample_loop.simps) (simp add: RandomPeriod_eq)
  next
    case False
    then show ?thesis using less.prems by (subst sample_loop.simps) simp
  qed
qed

lemma ParseKey_returns:
  assumes "seed_ok (di_rnd d)" "ParseInternalKey (it_key it (di_iter d)) = Some ikey"
  shows "\<exists>c r ss. ParseKey it d = Some (Some ikey, d\<lparr>di_bytes_counter := c, di_rnd := r, di_samples := ss\<rparr>) \<and> seed_ok r"
proof -
  let ?k = "it_key it (di_iter d)"
  obtain c r ss where "sample_loop ?k (di_bytes_counter d - int (length ?k + length (it_value it (di_iter d)))) (di_rnd d) (di_samples d) = Some (c, r, ss)" "seed_ok r"
    using sample_loop_returns [OF assms(1)] by blast
  then show ?thesis using assms(2) by (intro exI [of _ c] exI [of _ r] exI [of _ ss]) (simp add: ParseKey_def Let_def)
qed

subsection \<open>The user's view\<close>

text \<open>The entries that a reader with sequence number \<open>snap\<close> sees: of every user key the newest one, unless it is a deletion.\<close>

definition shown :: "(slice \<times> slice) list \<Rightarrow> u64 \<Rightarrow> slice \<times> slice \<Rightarrow> bool" where
  "shown M snap e \<longleftrightarrow> visible (set M) (e_user e) snap e \<and> e_type e = kTypeValue"

definition user_view :: "(slice \<times> slice) list \<Rightarrow> u64 \<Rightarrow> (slice \<times> slice) list" where
  "user_view M snap = map (\<lambda>e. (e_user e, snd e)) (filter (shown M snap) M)"

text \<open>How many of the first \<open>i\<close> entries are shown.\<close>

definition rank :: "(slice \<times> slice) list \<Rightarrow> u64 \<Rightarrow> nat \<Rightarrow> nat" where
  "rank M snap i = length (filter (shown M snap) (take i M))"

text \<open>The view has exactly the keys and values that \<open>db_read\<close> finds.\<close>

lemma user_view_reads: "(k, v) \<in> set (user_view M snap) \<longleftrightarrow> db_read (set M) k snap v"
  by (auto simp: user_view_def shown_def db_read_def visible_def image_iff)

lemma rank_Suc: "i < length M \<Longrightarrow> rank M snap (Suc i) = (if shown M snap (M ! i) then Suc (rank M snap i) else rank M snap i)"
  by (simp add: rank_def take_Suc_conv_app_nth)

lemma rank_length: "length M \<le> i \<Longrightarrow> rank M snap i = length (user_view M snap)"
  by (simp add: rank_def user_view_def)

lemma rank_mono: "i \<le> j \<Longrightarrow> rank M snap i \<le> rank M snap j"
proof (induction j)
  case (Suc j)
  then show ?case using rank_Suc [of j M snap] rank_length [of M j] rank_length [of M "Suc j"]
    by (cases "j < length M"; cases "i = Suc j") (auto simp: not_less)
qed simp

lemma rank_none:
  assumes "i \<le> j" "\<And>k. i \<le> k \<Longrightarrow> k < j \<Longrightarrow> k < length M \<Longrightarrow> \<not> shown M snap (M ! k)"
  shows "rank M snap j = rank M snap i"
  using assms
proof (induction j)
  case (Suc j)
  show ?case
  proof (cases "i = Suc j")
    case False
    then have "rank M snap j = rank M snap i" using Suc by simp
    then show ?thesis using Suc.prems False rank_Suc [of j M snap] rank_length [of M j] rank_length [of M "Suc j"]
      by (cases "j < length M") (auto simp: not_less)
  qed simp
qed simp

lemma view_nth:
  assumes "i < length M" "shown M snap (M ! i)"
  shows "rank M snap i < length (user_view M snap)" "user_view M snap ! rank M snap i = (e_user (M ! i), snd (M ! i))"
proof -
  have M: "M = take i M @ M ! i # drop (Suc i) M" using assms(1) by (simp add: id_take_nth_drop)
  have "filter (shown M snap) M = filter (shown M snap) (take i M) @ M ! i # filter (shown M snap) (drop (Suc i) M)"
    using assms(2) by (subst (2) M) simp
  then show "rank M snap i < length (user_view M snap)" "user_view M snap ! rank M snap i = (e_user (M ! i), snd (M ! i))"
    by (simp_all add: user_view_def rank_def nth_append)
qed

lemma view_index:
  assumes "p < length (user_view M snap)"
  obtains i where "i < length M" "shown M snap (M ! i)" "rank M snap i = p"
proof -
  have "\<exists>i < length M. shown M snap (M ! i) \<and> rank M snap i = p"
  proof (rule ccontr)
    assume no: "\<not> ?thesis"
    have "rank M snap i \<le> p" if "i \<le> length M" for i
      using that
    proof (induction i)
      case 0
      then show ?case by (simp add: rank_def)
    next
      case (Suc i)
      then have "i < length M" "rank M snap i \<le> p" by simp_all
      then show ?case using no rank_Suc [of i M snap] by (cases "rank M snap i = p") (auto split: if_splits)
    qed
    then show False using rank_length [of M "length M" snap] assms by (metis le_refl not_le)
  qed
  then show thesis using that by blast
qed

context user_comparator
begin

lemma entries_users:
  assumes "entries_ok icmp M" "i \<le> j" "j < length M"
  shows "ucmp (e_user (M ! i)) (e_user (M ! j)) \<le> 0"
proof (cases "i = j")
  case False
  then have "icmp (fst (M ! i)) (fst (M ! j)) < 0" using assms by (auto simp: entries_ok_def sorted_wrt_iff_nth_less)
  then show ?thesis using cmp_refl by (auto simp: icmp_iff e_user_def)
qed (simp add: cmp_refl)

lemma entries_seq:
  assumes "entries_ok icmp M" "i < j" "j < length M" "e_user (M ! i) = e_user (M ! j)"
  shows "ExtractTag (fst (M ! j)) < ExtractTag (fst (M ! i))" "e_seq (M ! j) \<le> e_seq (M ! i)"
proof -
  have "icmp (fst (M ! i)) (fst (M ! j)) < 0" using assms by (auto simp: entries_ok_def sorted_wrt_iff_nth_less)
  then show *: "ExtractTag (fst (M ! j)) < ExtractTag (fst (M ! i))" using assms(4) cmp_refl by (auto simp: icmp_iff e_user_def)
  show "e_seq (M ! j) \<le> e_seq (M ! i)" using seq_mono [OF less_imp_le [OF *]] by (simp add: e_seq_def)
qed

text \<open>An entry is shown if it is a value and the first of its key that is not too new.\<close>

lemma shown_iff:
  assumes ok: "entries_ok icmp M" and i: "i < length M"
  shows "shown M snap (M ! i) \<longleftrightarrow> e_seq (M ! i) \<le> snap \<and> e_type (M ! i) = kTypeValue \<and>
    (\<forall>j < i. \<not> (e_user (M ! j) = e_user (M ! i) \<and> e_seq (M ! j) \<le> snap))"
proof
  assume s: "shown M snap (M ! i)"
  have "False" if j: "j < i" "e_user (M ! j) = e_user (M ! i)" "e_seq (M ! j) \<le> snap" for j
  proof -
    have "e_seq (M ! j) \<le> e_seq (M ! i)" using s j i by (auto simp: shown_def visible_def)
    then have "ExtractTag (fst (M ! j)) \<le> ExtractTag (fst (M ! i))"
      using s ok i j(1) by (intro value_tag) (auto simp: shown_def entries_ok_def)
    then show False using entries_seq(1) [OF ok j(1) i j(2)] by simp
  qed
  then show "e_seq (M ! i) \<le> snap \<and> e_type (M ! i) = kTypeValue \<and> (\<forall>j < i. \<not> (e_user (M ! j) = e_user (M ! i) \<and> e_seq (M ! j) \<le> snap))"
    using s by (auto simp: shown_def visible_def)
next
  assume r: "e_seq (M ! i) \<le> snap \<and> e_type (M ! i) = kTypeValue \<and> (\<forall>j < i. \<not> (e_user (M ! j) = e_user (M ! i) \<and> e_seq (M ! j) \<le> snap))"
  have "e_seq e' \<le> e_seq (M ! i)" if e': "e' \<in> set M" "e_user e' = e_user (M ! i)" "e_seq e' \<le> snap" for e'
  proof -
    obtain j where j: "e' = M ! j" "j < length M" using e'(1) by (auto simp: in_set_conv_nth)
    then have "\<not> j < i" using r e'(2,3) by auto
    then show ?thesis using entries_seq(2) [OF ok _ j(2), of i] e'(2) j(1) by (cases "i = j") auto
  qed
  then show "shown M snap (M ! i)" using r i by (auto simp: shown_def visible_def)
qed

lemma shown_users_less:
  assumes ok: "entries_ok icmp M" and ij: "i < j" "j < length M" "shown M snap (M ! i)" "shown M snap (M ! j)"
  shows "ucmp (e_user (M ! i)) (e_user (M ! j)) < 0"
proof -
  have "e_user (M ! i) \<noteq> e_user (M ! j)" using shown_iff [OF ok, of i snap] shown_iff [OF ok ij(2), of snap] ij by auto
  then show ?thesis using entries_users [OF ok less_imp_le [OF ij(1)] ij(2)] cmp_zero by (metis antisym_conv2)
qed

lemma view_sorted:
  assumes ok: "entries_ok icmp M"
  shows "sorted_entries ucmp (user_view M snap)"
  unfolding sorted_entries_def sorted_wrt_iff_nth_less
proof (intro allI impI)
  fix p q assume pq: "p < q" "q < length (user_view M snap)"
  obtain i where i: "i < length M" "shown M snap (M ! i)" "rank M snap i = p" using view_index [of p M snap] pq by auto
  obtain j where j: "j < length M" "shown M snap (M ! j)" "rank M snap j = q" using view_index [OF pq(2)] by auto
  have "i < j" using rank_mono [of j i M snap] i(3) j(3) pq(1) by (meson not_le)
  then show "ucmp (fst (user_view M snap ! p)) (fst (user_view M snap ! q)) < 0"
    using shown_users_less [OF ok _ j(1) i(2) j(2)] view_nth [OF i(1,2)] view_nth [OF j(1,2)] i(3) j(3) by simp
qed

end

subsection \<open>The contract\<close>

text \<open>
  The internal iterator of a database: sorted by internal key, every key well-formed. \<open>reverse_ok\<close> is where it stands while
  the \<open>DBIter\<close> moves backwards: just before the entries that are not too new of \<open>k\<close> and the following keys.
\<close>

definition reverse_ok :: "(slice \<Rightarrow> slice \<Rightarrow> int) \<Rightarrow> u64 \<Rightarrow> (slice \<times> slice) list \<Rightarrow> nat \<Rightarrow> slice \<Rightarrow> bool" where
  "reverse_ok ucmp snap M q k \<longleftrightarrow> (q < length M \<longrightarrow> e_seq (M ! q) \<le> snap \<and> ucmp (e_user (M ! q)) k < 0) \<and>
     (\<forall>j. (if q < length M then Suc q else 0) \<le> j \<and> j < length M \<and> ucmp (e_user (M ! j)) k < 0 \<longrightarrow> \<not> e_seq (M ! j) \<le> snap)"

definition db_at ::
  "(slice \<Rightarrow> slice \<Rightarrow> int) \<Rightarrow> u64 \<Rightarrow> ('i \<Rightarrow> (slice \<times> slice) list \<Rightarrow> nat \<Rightarrow> bool) \<Rightarrow> 'i DBIter \<Rightarrow> (slice \<times> slice) list \<Rightarrow> nat \<Rightarrow> bool" where
  "db_at ucmp snap on d V p \<longleftrightarrow> p \<le> length V \<and> di_status d = OK \<and> seed_ok (di_rnd d) \<and> di_valid d = (p < length V) \<and>
     (\<exists>M q. on (di_iter d) M q \<and> entries_ok (InternalKey_Compare ucmp) M \<and> V = user_view M snap \<and>
        (p < length V \<longrightarrow> (case di_direction d of
             kForward \<Rightarrow> q < length M \<and> shown M snap (M ! q) \<and> rank M snap q = p
           | kReverse \<Rightarrow> di_saved_key d = fst (V ! p) \<and> di_saved_value d = snd (V ! p) \<and> reverse_ok ucmp snap M q (di_saved_key d))))"

locale internal_iterator = user_comparator ucmp + base: sorted_iterator "InternalKey_Compare ucmp" good it on
  for ucmp :: "slice \<Rightarrow> slice \<Rightarrow> int" and good :: "slice \<Rightarrow> bool" and it :: "'i IteratorOps" and on +
  fixes snap :: u64
  assumes good_seek: "good k \<Longrightarrow> good (MakeInternalKey (ExtractUserKey k) snap kValueTypeForSeek)"
    and snap_ok: "snap \<le> kMaxSequenceNumber"
begin

text \<open>The entry at the position of the internal iterator.\<close>

lemma parse_at:
  assumes "on (di_iter d) M q" "q < length M" "entries_ok icmp M" "seed_ok (di_rnd d)"
  shows "\<exists>c r ss ikey. ParseKey it d = Some (Some ikey, d\<lparr>di_bytes_counter := c, di_rnd := r, di_samples := ss\<rparr>) \<and> seed_ok r \<and>
    sequence ikey = e_seq (M ! q) \<and> type ikey = e_type (M ! q) \<and> user_key ikey = e_user (M ! q)"
proof -
  have k: "it_key it (di_iter d) = fst (M ! q)" using base.at_key [OF assms(1,2)] .
  obtain ikey where p: "ParseInternalKey (fst (M ! q)) = Some ikey" using assms(3) nth_mem [OF assms(2)] unfolding entries_ok_def by blast
  show ?thesis using ParseKey_returns [OF assms(4), of it ikey] parsed_entry [OF p] p k by metis
qed

text \<open>What the forward search from \<open>i\<close> returns: it stands at \<open>q\<close>, the first shown entry that is not skipped, if there is one.\<close>

definition next_found where
  "next_found M i skipping d d' q \<longleftrightarrow> on (di_iter d') M q \<and> i \<le> q \<and> q \<le> length M \<and>
     di_status d' = di_status d \<and> di_direction d' = di_direction d \<and> seed_ok (di_rnd d') \<and> di_valid d' = (q < length M) \<and>
     (q < length M \<longrightarrow> shown M snap (M ! q) \<and> \<not> (skipping \<and> ucmp (e_user (M ! q)) (di_saved_key d) \<le> 0)) \<and>
     (\<forall>j. i \<le> j \<and> j < q \<and> shown M snap (M ! j) \<longrightarrow> skipping \<and> ucmp (e_user (M ! j)) (di_saved_key d) \<le> 0)"

text \<open>
  The forward search from \<open>i\<close> stops at the first shown entry that is not skipped. It relies on the following: entries from
  \<open>i\<close> on of a key that has older entries before \<open>i\<close> are skipped.
\<close>

lemma FindNext_finds:
  assumes on: "on (di_iter d) M i" "i < length M" and ok: "entries_ok icmp M" and rnd: "seed_ok (di_rnd d)"
    and old: "\<And>j' j. j' < i \<Longrightarrow> i \<le> j \<Longrightarrow> j < length M \<Longrightarrow> e_user (M ! j') = e_user (M ! j) \<Longrightarrow> e_seq (M ! j') \<le> snap \<Longrightarrow>
      skipping \<and> ucmp (e_user (M ! j)) (di_saved_key d) \<le> 0"
    and later: "\<And>j. skipping \<Longrightarrow> i \<le> j \<Longrightarrow> j < length M \<Longrightarrow> e_seq (M ! j) \<le> snap \<Longrightarrow> ucmp (di_saved_key d) (e_user (M ! j)) \<le> 0"
  shows "\<exists>d' q. FindNextUserEntry it ucmp snap skipping d = Some d' \<and> next_found M i skipping d d' q"
  using assms
proof (induction "length M - i" arbitrary: i d skipping rule: less_induct)
  case less
  obtain c r ss ikey where P: "ParseKey it d = Some (Some ikey, d\<lparr>di_bytes_counter := c, di_rnd := r, di_samples := ss\<rparr>)" "seed_ok r"
    "sequence ikey = e_seq (M ! i)" "type ikey = e_type (M ! i)" "user_key ikey = e_user (M ! i)"
    using parse_at [OF less.prems(1-4)] by blast
  define d1 where "d1 = d\<lparr>di_bytes_counter := c, di_rnd := r, di_samples := ss\<rparr>"
  note unfold = FindNextUserEntry.simps [of it ucmp snap skipping d]
  let ?skip = "\<lambda>j. skipping \<and> ucmp (e_user (M ! j)) (di_saved_key d) \<le> 0"
  show ?case
  proof (cases "e_seq (M ! i) \<le> snap \<and> e_type (M ! i) = kTypeValue \<and> \<not> ?skip i")
    case True
    have "\<not> (e_user (M ! j) = e_user (M ! i) \<and> e_seq (M ! j) \<le> snap)" if "j < i" for j
      using less.prems(5) [of j i] that less.prems(2) True by auto
    then have "shown M snap (M ! i)" using shown_iff [OF ok less.prems(2)] True by blast
    moreover have "next_entry ucmp snap skipping (Some ikey) d1 = (True, skipping, d1\<lparr>di_valid := True, di_saved_key := []\<rparr>)"
      using True P(3-5) by (auto simp: next_entry_def d1_def)
    then have "FindNextUserEntry it ucmp snap skipping d = Some (d1\<lparr>di_valid := True, di_saved_key := []\<rparr>)"
      by (subst unfold) (simp add: P(1) d1_def)
    ultimately show ?thesis using less.prems(1,2) P(2) True
      by (intro exI [of _ "d1\<lparr>di_valid := True, di_saved_key := []\<rparr>"] exI [of _ i]) (auto simp: d1_def next_found_def)
  next
    case False
    define del where "del \<longleftrightarrow> e_seq (M ! i) \<le> snap \<and> e_type (M ! i) = kTypeDeletion"
    define sk where "sk \<longleftrightarrow> skipping \<or> del"
    define d2 where "d2 = (if del then d1\<lparr>di_saved_key := e_user (M ! i)\<rparr> else d1)"
    have step: "next_entry ucmp snap skipping (Some ikey) d1 = (False, sk, d2)"
      using False P(3-5) by (cases "e_type (M ! i)") (auto simp: next_entry_def d1_def d2_def sk_def del_def)
    obtain i' where i': "it_Next it (di_iter d) = Some i'" "on i' M (Suc i)" using base.at_Next [OF less.prems(1,2)] by blast
    have ns: "\<not> shown M snap (M ! i) \<or> ?skip i" using False by (auto simp: shown_def visible_def)
    have same: "di_iter d2 = di_iter d" "di_status d2 = di_status d" "di_direction d2 = di_direction d" "di_saved_value d2 = di_saved_value d"
      "seed_ok (di_rnd d2)" "di_saved_key d2 = (if del then e_user (M ! i) else di_saved_key d)"
      using P(2) by (auto simp: d2_def d1_def)
    have run: "FindNextUserEntry it ucmp snap skipping d =
        (if it_Valid it i' then FindNextUserEntry it ucmp snap sk (d2\<lparr>di_iter := i'\<rparr>)
         else Some (d2\<lparr>di_iter := i', di_saved_key := [], di_valid := False\<rparr>))"
      by (subst unfold) (simp add: P(1) step [unfolded d1_def] i'(1) same(1))
    show ?thesis
    proof (cases "Suc i < length M")
      case True
      have skip_iff: "shown M snap (M ! j) \<Longrightarrow> sk \<and> ucmp (e_user (M ! j)) (di_saved_key d2) \<le> 0 \<longleftrightarrow> ?skip j" if j: "i < j" "j < length M" for j
      proof (cases del)
        case d: True
        assume s: "shown M snap (M ! j)"
        then have "e_user (M ! i) \<noteq> e_user (M ! j)" using shown_iff [OF ok j(2)] j(1) d by (auto simp: del_def)
        then have lt: "ucmp (e_user (M ! i)) (e_user (M ! j)) < 0"
          using entries_users [OF ok less_imp_le [OF j(1)] j(2)] cmp_zero by (metis antisym_conv2)
        then have "\<not> ucmp (e_user (M ! j)) (e_user (M ! i)) \<le> 0" using cmp_swap by force
        moreover have "\<not> ?skip j"
        proof
          assume sj: "?skip j"
          then have "ucmp (di_saved_key d) (e_user (M ! i)) \<le> 0" using less.prems(6) [of i] d less.prems(2) by (simp add: del_def)
          then have "ucmp (e_user (M ! j)) (e_user (M ! i)) \<le> 0" using sj cmp_le_trans [of "e_user (M ! j)" "di_saved_key d" "e_user (M ! i)"] by simp
          then show False using lt cmp_swap by force
        qed
        ultimately show ?thesis using d same(6) by simp
      qed (simp add: sk_def same(6))
      have users: "ucmp (e_user (M ! i)) (e_user (M ! j)) \<le> 0" if "i \<le> j" "j < length M" for j using entries_users [OF ok that] .
      have "\<exists>d' q. FindNextUserEntry it ucmp snap sk (d2\<lparr>di_iter := i'\<rparr>) = Some d' \<and> next_found M (Suc i) sk (d2\<lparr>di_iter := i'\<rparr>) d' q"
      proof (rule less.hyps)
        fix j' j assume j: "j' < Suc i" "Suc i \<le> j" "j < length M" "e_user (M ! j') = e_user (M ! j)" "e_seq (M ! j') \<le> snap"
        show "sk \<and> ucmp (e_user (M ! j)) (di_saved_key (d2\<lparr>di_iter := i'\<rparr>)) \<le> 0"
        proof (cases "j' = i")
          case True
          then have "del \<or> ?skip i" using False j(5) by (cases "e_type (M ! i)") (auto simp: del_def)
          then show ?thesis using True j(4) same(6) cmp_refl by (auto simp: sk_def)
        next
          case False
          then have sj: "?skip j" using less.prems(5) [of j' j] j by auto
          have "ucmp (e_user (M ! j)) (e_user (M ! i)) \<le> 0" using entries_users [OF ok, of j' i] j False less.prems(2) by simp
          then show ?thesis using sj same(6) by (auto simp: sk_def)
        qed
      next
        fix j assume j: "sk" "Suc i \<le> j" "j < length M" "e_seq (M ! j) \<le> snap"
        then show "ucmp (di_saved_key (d2\<lparr>di_iter := i'\<rparr>)) (e_user (M ! j)) \<le> 0"
          using users [of j] less.prems(6) [of j] same(6) by (auto simp: sk_def)
      qed (use True i'(2) ok same less.prems(2) in auto)
      then obtain d' q where IH: "FindNextUserEntry it ucmp snap sk (d2\<lparr>di_iter := i'\<rparr>) = Some d'" "on (di_iter d') M q" "Suc i \<le> q" "q \<le> length M"
        "di_status d' = di_status d" "di_direction d' = di_direction d" "seed_ok (di_rnd d')" "di_valid d' = (q < length M)"
        "q < length M \<Longrightarrow> shown M snap (M ! q) \<and> \<not> (sk \<and> ucmp (e_user (M ! q)) (di_saved_key d2) \<le> 0)"
        "\<And>j. Suc i \<le> j \<Longrightarrow> j < q \<Longrightarrow> shown M snap (M ! j) \<Longrightarrow> sk \<and> ucmp (e_user (M ! j)) (di_saved_key d2) \<le> 0"
        using same by (auto simp: next_found_def)
      have "?skip j" if "i \<le> j" "j < q" "shown M snap (M ! j)" for j
        using that IH(4) IH(10) [of j] skip_iff [of j] ns by (cases "i = j") auto
      moreover have "shown M snap (M ! q) \<and> \<not> ?skip q" if "q < length M" using IH(3) IH(9) [OF that] skip_iff [OF _ that] by auto
      ultimately show ?thesis using IH True run base.at_Valid [OF i'(2)] by (intro exI [of _ d'] exI [of _ q]) (auto simp: next_found_def)
    next
      case False
      have "?skip j" if "i \<le> j" "j < Suc i" "shown M snap (M ! j)" for j using that ns by (cases "i = j") auto
      then show ?thesis using False run base.at_Valid [OF i'(2)] i'(2) less.prems(2) same
        by (intro exI [of _ "d2\<lparr>di_iter := i', di_saved_key := [], di_valid := False\<rparr>"] exI [of _ "Suc i"]) (auto simp: le_Suc_eq next_found_def)
    qed
  qed
qed

text \<open>
  The backward search from \<open>n\<close>, when the entries from \<open>i\<close> on have been seen: \<open>c\<close> is the entry saved, a value
  that is not too new, with no such entry between \<open>i\<close> and it; no other entry seen is shown.
\<close>

definition saved_ok where
  "saved_ok M n i t c d \<longleftrightarrow>
     (t = kTypeValue \<longrightarrow> i \<le> c \<and> c \<le> n \<and> c < length M \<and> e_seq (M ! c) \<le> snap \<and> e_type (M ! c) = kTypeValue \<and>
        di_saved_key d = e_user (M ! c) \<and> di_saved_value d = snd (M ! c) \<and> (\<forall>j. i \<le> j \<and> j < c \<longrightarrow> \<not> e_seq (M ! j) \<le> snap)) \<and>
     (\<forall>j. i \<le> j \<and> j \<le> n \<and> j < length M \<and> shown M snap (M ! j) \<longrightarrow> t = kTypeValue \<and> j = c)"

text \<open>What the search returns: nothing, or the last shown entry up to \<open>n\<close>.\<close>

definition prev_found where
  "prev_found M n t d q \<longleftrightarrow>
     (if t = kTypeDeletion then \<forall>j. j \<le> n \<and> j < length M \<longrightarrow> \<not> shown M snap (M ! j)
      else \<exists>b. b \<le> n \<and> b < length M \<and> shown M snap (M ! b) \<and> di_saved_key d = e_user (M ! b) \<and> di_saved_value d = snd (M ! b) \<and>
        reverse_ok ucmp snap M q (e_user (M ! b)) \<and> (\<forall>j. b < j \<and> j \<le> n \<and> j < length M \<longrightarrow> \<not> shown M snap (M ! j)))"

lemma saved_end:
  assumes ok: "entries_ok icmp M" and s: "saved_ok M n i t c d"
    and q: "q < length M \<Longrightarrow> i = Suc q \<and> e_seq (M ! q) \<le> snap \<and> t = kTypeValue \<and> ucmp (e_user (M ! q)) (e_user (M ! c)) < 0" "\<not> q < length M \<Longrightarrow> i = 0"
  shows "prev_found M n t d q"
proof (cases t)
  case kTypeDeletion
  then show ?thesis using s q by (cases "q < length M") (auto simp: prev_found_def saved_ok_def)
next
  case kTypeValue
  then have c: "i \<le> c" "c \<le> n" "c < length M" "e_seq (M ! c) \<le> snap" "e_type (M ! c) = kTypeValue" "di_saved_key d = e_user (M ! c)"
    "di_saved_value d = snd (M ! c)" "\<And>j. i \<le> j \<Longrightarrow> j < c \<Longrightarrow> \<not> e_seq (M ! j) \<le> snap"
    "\<And>j. i \<le> j \<Longrightarrow> j \<le> n \<Longrightarrow> j < length M \<Longrightarrow> shown M snap (M ! j) \<Longrightarrow> j = c"
    using s by (auto simp: saved_ok_def)
  have before: "ucmp (e_user (M ! j)) (e_user (M ! c)) < 0" if "j < i" for j
  proof -
    have "q < length M" "j \<le> q" using q that by (cases "q < length M"; simp)+
    then show ?thesis using entries_users [OF ok, of j q] q(1) cmp_le_less_trans [of "e_user (M ! j)" "e_user (M ! q)" "e_user (M ! c)"] by simp
  qed
  have "\<not> (e_user (M ! j) = e_user (M ! c) \<and> e_seq (M ! j) \<le> snap)" if "j < c" for j
    using c(8) [of j] before [of j] that cmp_refl [of "e_user (M ! c)"] by (cases "i \<le> j") auto
  then have "shown M snap (M ! c)" using shown_iff [OF ok c(3)] c(4,5) by blast
  moreover have "\<not> e_seq (M ! j) \<le> snap" if "i \<le> j" "j < length M" "ucmp (e_user (M ! j)) (e_user (M ! c)) < 0" for j
  proof -
    have "\<not> c \<le> j" using entries_users [OF ok _ that(2), of c] cmp_swap [of "e_user (M ! j)" "e_user (M ! c)"] that(3) by auto
    then show ?thesis using c(8) that(1) by simp
  qed
  then have "reverse_ok ucmp snap M q (e_user (M ! c))" using q unfolding reverse_ok_def by (cases "q < length M") auto
  moreover have "\<forall>j. c < j \<and> j \<le> n \<and> j < length M \<longrightarrow> \<not> shown M snap (M ! j)" using c(1) c(9) by (metis le_trans less_imp_le less_irrefl)
  ultimately show ?thesis using kTypeValue c(2,3,6,7) unfolding prev_found_def by (simp, blast)
qed

lemma saved_step:
  assumes ok: "entries_ok icmp M" and i: "i < length M" "i \<le> n" and s: "saved_ok M n (Suc i) t c d"
    and k: "sequence ikey = e_seq (M ! i)" "type ikey = e_type (M ! i)" "user_key ikey = e_user (M ! i)"
      "ExtractUserKey (it_key it (di_iter d)) = e_user (M ! i)" "it_value it (di_iter d) = snd (M ! i)"
    and e: "prev_entry it ucmp snap t (Some ikey) d = (False, t2, d2)"
  shows "\<exists>c2. saved_ok M n i t2 c2 d2"
proof (cases "e_seq (M ! i) \<le> snap")
  case True
  have old: "\<not> shown M snap (M ! j)" if j: "i < j" "j \<le> n" "j < length M" for j
  proof
    assume sj: "shown M snap (M ! j)"
    then have t: "t = kTypeValue" "j = c" "di_saved_key d = e_user (M ! c)" using s j by (auto simp: saved_ok_def)
    then have "\<not> ucmp (e_user (M ! i)) (e_user (M ! c)) < 0" using e True k by (auto simp: prev_entry_def split: if_splits ValueType.splits)
    then have "e_user (M ! i) = e_user (M ! c)" using entries_users [OF ok, of i j] j t(2) cmp_zero by (metis antisym_conv2 less_imp_le)
    then show False using shown_iff [OF ok j(3)] sj t(2) j(1) True by blast
  qed
  show ?thesis
  proof (cases "e_type (M ! i)")
    case kTypeDeletion
    then have "t2 = kTypeDeletion" using e True k by (auto simp: prev_entry_def split: if_splits)
    moreover have "\<not> shown M snap (M ! j)" if "i \<le> j" "j \<le> n" "j < length M" for j
      using old [of j] that kTypeDeletion by (cases "i = j") (auto simp: shown_def)
    ultimately show ?thesis by (auto simp: saved_ok_def)
  next
    case kTypeValue
    then have t2: "t2 = kTypeValue" "di_saved_key d2 = e_user (M ! i)" "di_saved_value d2 = snd (M ! i)"
      using e True k by (auto simp: prev_entry_def split: if_splits)
    moreover have "j = i" if "i \<le> j" "j \<le> n" "j < length M" "shown M snap (M ! j)" for j
      using old [of j] that by (cases "i = j") auto
    ultimately show ?thesis using True kTypeValue i by (intro exI [of _ i]) (auto simp: saved_ok_def)
  qed
next
  case False
  then have "t2 = t" "d2 = d" using e k by (auto simp: prev_entry_def)
  moreover have "\<not> shown M snap (M ! i)" using False by (auto simp: shown_def visible_def)
  moreover have "saved_ok M n i t c d"
    using s False \<open>\<not> shown M snap (M ! i)\<close> unfolding saved_ok_def by (metis Suc_leI Suc_leD le_neq_implies_less)
  ultimately show ?thesis by blast
qed

lemma prev_loop_finds:
  assumes "on (di_iter d) M i" "i < length M" "entries_ok icmp M" "seed_ok (di_rnd d)" "i \<le> n" "saved_ok M n (Suc i) t c d"
  shows "\<exists>t' d' q. prev_loop it ucmp snap t d = Some (t', d') \<and> on (di_iter d') M q \<and>
    di_status d' = di_status d \<and> di_direction d' = di_direction d \<and> seed_ok (di_rnd d') \<and> prev_found M n t' d' q"
  using assms
proof (induction i arbitrary: d t c rule: less_induct)
  case (less i)
  obtain b r ss ikey where P: "ParseKey it d = Some (Some ikey, d\<lparr>di_bytes_counter := b, di_rnd := r, di_samples := ss\<rparr>)" "seed_ok r"
    "sequence ikey = e_seq (M ! i)" "type ikey = e_type (M ! i)" "user_key ikey = e_user (M ! i)"
    using parse_at [OF less.prems(1-4)] by blast
  define d1 where "d1 = d\<lparr>di_bytes_counter := b, di_rnd := r, di_samples := ss\<rparr>"
  obtain stop t2 d2 where E: "prev_entry it ucmp snap t (Some ikey) d1 = (stop, t2, d2)" by (metis prod_cases3)
  have same: "di_iter d2 = di_iter d" "di_status d2 = di_status d" "di_direction d2 = di_direction d" "di_rnd d2 = r"
    using E by (auto simp: prev_entry_def d1_def split: if_splits ValueType.splits)
  have s1: "saved_ok M n (Suc i) t c d1" using less.prems(6) by (simp add: saved_ok_def d1_def)
  note unfold = prev_loop.simps [of it ucmp snap t d]
  show ?case
  proof (cases stop)
    case True
    then have "t = kTypeValue" "d2 = d1" "t2 = t" "e_seq (M ! i) \<le> snap" "ucmp (e_user (M ! i)) (e_user (M ! c)) < 0"
      using E P(3-5) s1 by (auto simp: prev_entry_def saved_ok_def split: if_splits ValueType.splits) (metis ValueType.exhaust)+
    then have "prev_found M n t2 d2 i" using saved_end [OF less.prems(3) s1, of i] less.prems(2) by simp
    moreover have "prev_loop it ucmp snap t d = Some (t2, d2)" by (subst unfold) (simp add: P(1) E [unfolded d1_def] True)
    ultimately show ?thesis using less.prems(1) same P(2) by (intro exI [of _ t2] exI [of _ d2] exI [of _ i]) simp
  next
    case False
    have k: "ExtractUserKey (it_key it (di_iter d1)) = e_user (M ! i)" "it_value it (di_iter d1) = snd (M ! i)"
      using base.at_key [OF less.prems(1,2)] base.at_value [OF less.prems(1,2)] by (simp_all add: d1_def e_user_def)
    obtain c2 where s2: "saved_ok M n i t2 c2 d2"
      using saved_step [OF less.prems(3,2,5) s1 P(3-5) k, of t2 d2] E False by auto
    obtain i' where i': "it_Prev it (di_iter d) = Some i'" "on i' M (prior (length M) i)" using base.at_Prev [OF less.prems(1,2)] by blast
    have run: "prev_loop it ucmp snap t d = (if it_Valid it i' then prev_loop it ucmp snap t2 (d2\<lparr>di_iter := i'\<rparr>) else Some (t2, d2\<lparr>di_iter := i'\<rparr>))"
      by (subst unfold) (simp add: P(1) E [unfolded d1_def] False i'(1) same(1))
    have s2': "saved_ok M n i t2 c2 (d2\<lparr>di_iter := i'\<rparr>)" using s2 by (simp add: saved_ok_def)
    show ?thesis
    proof (cases i)
      case 0
      then have "prev_found M n t2 (d2\<lparr>di_iter := i'\<rparr>) (length M)" using saved_end [OF less.prems(3) s2'] by simp
      then show ?thesis using 0 run base.at_Valid [OF i'(2)] i'(2) same P(2)
        by (intro exI [of _ t2] exI [of _ "d2\<lparr>di_iter := i'\<rparr>"] exI [of _ "length M"]) (simp add: prior_def)
    next
      case (Suc m)
      have "\<exists>t' d' q. prev_loop it ucmp snap t2 (d2\<lparr>di_iter := i'\<rparr>) = Some (t', d') \<and> on (di_iter d') M q \<and>
          di_status d' = di_status (d2\<lparr>di_iter := i'\<rparr>) \<and> di_direction d' = di_direction (d2\<lparr>di_iter := i'\<rparr>) \<and> seed_ok (di_rnd d') \<and> prev_found M n t' d' q"
        using i'(2) less.prems(2,3,5) same P(2) s2' Suc by (intro less.IH [of m]) (auto simp: prior_def)
      then show ?thesis using run base.at_Valid [OF i'(2)] less.prems(2) same Suc by (simp add: prior_def)
    qed
  qed
qed

lemma FindPrev_at:
  assumes on: "on (di_iter d) M q" and ok: "entries_ok icmp M" and d: "seed_ok (di_rnd d)" "di_status d = OK" "di_direction d = kReverse"
  shows "\<exists>d'. FindPrevUserEntry it ucmp snap d = Some d' \<and>
    db_at ucmp snap on d' (user_view M snap) (if q < length M then prior (length (user_view M snap)) (rank M snap (Suc q)) else length (user_view M snap))"
proof (cases "q < length M")
  case True
  let ?V = "user_view M snap"
  have "saved_ok M q (Suc q) kTypeDeletion 0 d" by (simp add: saved_ok_def)
  then obtain t d1 q1 where L: "prev_loop it ucmp snap kTypeDeletion d = Some (t, d1)" "on (di_iter d1) M q1" "di_status d1 = OK"
    "di_direction d1 = kReverse" "seed_ok (di_rnd d1)" "prev_found M q t d1 q1"
    using prev_loop_finds [OF on True ok d(1) order_refl] d(2,3) by metis
  have run: "FindPrevUserEntry it ucmp snap d =
      Some (if t = kTypeDeletion then d1\<lparr>di_valid := False, di_saved_key := [], di_saved_value := [], di_direction := kForward\<rparr> else d1\<lparr>di_valid := True\<rparr>)"
    using base.at_Valid [OF on] True L(1) by (simp add: FindPrevUserEntry_def)
  show ?thesis
  proof (cases t)
    case kTypeDeletion
    then have "rank M snap (Suc q) = rank M snap 0" using L(6) by (intro rank_none) (auto simp: prev_found_def)
    then have "prior (length ?V) (rank M snap (Suc q)) = length ?V" by (simp add: prior_def rank_def)
    then show ?thesis using run kTypeDeletion L ok True by (auto simp: db_at_def)
  next
    case kTypeValue
    then obtain b where b: "b \<le> q" "b < length M" "shown M snap (M ! b)" "di_saved_key d1 = e_user (M ! b)" "di_saved_value d1 = snd (M ! b)"
      "reverse_ok ucmp snap M q1 (e_user (M ! b))" "\<forall>j. b < j \<and> j \<le> q \<and> j < length M \<longrightarrow> \<not> shown M snap (M ! j)"
      using L(6) by (auto simp: prev_found_def)
    have "rank M snap (Suc q) = rank M snap (Suc b)" using b(1,7) by (intro rank_none) auto
    then have r: "prior (length ?V) (rank M snap (Suc q)) = rank M snap b" using rank_Suc [OF b(2), of snap] b(3) by (simp add: prior_def)
    show ?thesis using run kTypeValue L ok True b view_nth [OF b(2,3)] by (auto simp: db_at_def r)
  qed
next
  case False
  then show ?thesis using on ok d base.at_Valid [OF on] by (auto simp: FindPrevUserEntry_def db_at_def)
qed

lemma db_at_forward:
  assumes "on (di_iter d) M q" "q \<le> length M" "entries_ok icmp M" "seed_ok (di_rnd d)" "di_status d = OK" "di_direction d = kForward"
    "di_valid d = (q < length M)" "q < length M \<Longrightarrow> shown M snap (M ! q)"
  shows "db_at ucmp snap on d (user_view M snap) (rank M snap q)"
proof (cases "q < length M")
  case True
  then show ?thesis using assms view_nth [OF True assms(8) [OF True]] unfolding db_at_def by (auto intro!: exI [of _ M] exI [of _ q])
next
  case False
  then show ?thesis using assms rank_length [of M q snap] unfolding db_at_def by auto
qed

text \<open>A forward search without skipping finds the first shown entry from \<open>i\<close> on.\<close>

lemma FindNext_first:
  assumes "on (di_iter d) M i" "entries_ok icmp M" "seed_ok (di_rnd d)" "di_status d = OK" "di_direction d = kForward"
    and old: "\<And>j' j. j' < i \<Longrightarrow> i \<le> j \<Longrightarrow> j < length M \<Longrightarrow> e_user (M ! j') = e_user (M ! j) \<Longrightarrow> e_seq (M ! j') \<le> snap \<Longrightarrow> False"
  shows "\<exists>d'. (if it_Valid it (di_iter d) then FindNextUserEntry it ucmp snap False d else Some (d\<lparr>di_valid := False\<rparr>)) = Some d' \<and>
    db_at ucmp snap on d' (user_view M snap) (rank M snap i)"
proof (cases "i < length M")
  case True
  have "\<exists>d' q. FindNextUserEntry it ucmp snap False d = Some d' \<and> next_found M i False d d' q"
    by (rule FindNext_finds [OF assms(1) True assms(2,3)]) (use old in blast)+
  then obtain d' q where F: "FindNextUserEntry it ucmp snap False d = Some d'" "on (di_iter d') M q" "i \<le> q" "q \<le> length M"
    "di_status d' = di_status d" "di_direction d' = di_direction d" "seed_ok (di_rnd d')" "di_valid d' = (q < length M)"
    "q < length M \<Longrightarrow> shown M snap (M ! q)" "\<And>j. i \<le> j \<Longrightarrow> j < q \<Longrightarrow> \<not> shown M snap (M ! j)"
    by (auto simp: next_found_def)
  have "rank M snap q = rank M snap i" using F(3,10) by (intro rank_none) auto
  then show ?thesis using db_at_forward [OF F(2,4) assms(2) F(7) _ _ F(8,9)] F(1,5,6) assms(4,5) base.at_Valid [OF assms(1)] True by simp
next
  case False
  then have "i = length M" using base.at_le [OF assms(1)] by simp
  then show ?thesis using db_at_forward [of "d\<lparr>di_valid := False\<rparr>" M i] assms base.at_Valid [OF assms(1)] by simp
qed

text \<open>A forward search that skips the key of the shown entry \<open>x\<close> finds the shown entry after it.\<close>

lemma FindNext_after:
  assumes on: "on (di_iter d) M i" and ok: "entries_ok icmp M" and d: "seed_ok (di_rnd d)" "di_status d = OK" "di_direction d = kForward"
    and x: "i \<le> x" "x < length M" "shown M snap (M ! x)" "di_saved_key d = e_user (M ! x)"
    and old: "\<And>j' j. j' < i \<Longrightarrow> i \<le> j \<Longrightarrow> j < length M \<Longrightarrow> e_user (M ! j') = e_user (M ! j) \<Longrightarrow> e_seq (M ! j') \<le> snap \<Longrightarrow> ucmp (e_user (M ! j)) (di_saved_key d) \<le> 0"
    and later: "\<And>j. i \<le> j \<Longrightarrow> j < length M \<Longrightarrow> e_seq (M ! j) \<le> snap \<Longrightarrow> ucmp (di_saved_key d) (e_user (M ! j)) \<le> 0"
  shows "\<exists>d'. FindNextUserEntry it ucmp snap True d = Some d' \<and> db_at ucmp snap on d' (user_view M snap) (Suc (rank M snap x))"
proof -
  have "\<exists>d' q. FindNextUserEntry it ucmp snap True d = Some d' \<and> next_found M i True d d' q"
    by (rule FindNext_finds [OF on _ ok d(1)]) (use old later x in auto)
  then obtain d' q where F: "FindNextUserEntry it ucmp snap True d = Some d'" "on (di_iter d') M q" "i \<le> q" "q \<le> length M"
    "di_status d' = di_status d" "di_direction d' = di_direction d" "seed_ok (di_rnd d')" "di_valid d' = (q < length M)"
    "q < length M \<Longrightarrow> shown M snap (M ! q) \<and> \<not> ucmp (e_user (M ! q)) (e_user (M ! x)) \<le> 0"
    "\<And>j. i \<le> j \<Longrightarrow> j < q \<Longrightarrow> shown M snap (M ! j) \<Longrightarrow> ucmp (e_user (M ! j)) (e_user (M ! x)) \<le> 0"
    using x(4) by (auto simp: next_found_def)
  have "x < q"
  proof (rule ccontr)
    assume "\<not> x < q"
    then have "q \<le> x" "q < length M" using x(2) by simp_all
    then show False using F(9) entries_users [OF ok _ x(2), of q] by simp
  qed
  moreover have "\<not> shown M snap (M ! j)" if j: "Suc x \<le> j" "j < q" for j
    using shown_users_less [OF ok _ _ x(3), of j] F(10) [of j] j x(1) F(4) cmp_swap [of "e_user (M ! x)" "e_user (M ! j)"] by force
  ultimately have "rank M snap q = rank M snap (Suc x)" by (intro rank_none) auto
  then show ?thesis using db_at_forward [OF F(2,4) ok F(7) _ _ F(8)] F(1,5,6,9) d rank_Suc [OF x(2), of snap] x(3) by simp
qed

lemma scan_back_finds:
  assumes "on i M q" "q < length M"
  shows "\<exists>found i' q'. scan_back it ucmp k i = Some (found, i') \<and> on i' M q' \<and>
    (if found then q' < q \<and> ucmp (e_user (M ! q')) k < 0 \<and> (\<forall>j. q' < j \<and> j < q \<longrightarrow> \<not> ucmp (e_user (M ! j)) k < 0)
     else \<forall>j < q. \<not> ucmp (e_user (M ! j)) k < 0)"
  using assms
proof (induction q arbitrary: i)
  case 0
  obtain i' where i': "it_Prev it i = Some i'" "on i' M (length M)" using base.at_Prev [OF 0] by (auto simp: prior_def)
  then show ?case using base.at_Valid [OF i'(2)] by (subst scan_back.simps) (auto intro!: exI [of _ "length M"])
next
  case (Suc q)
  obtain i' where i': "it_Prev it i = Some i'" "on i' M q" using base.at_Prev [OF Suc.prems] by (auto simp: prior_def)
  have q: "q < length M" using Suc.prems by simp
  have k: "ExtractUserKey (it_key it i') = e_user (M ! q)" "it_Valid it i'" using base.at_key [OF i'(2) q] base.at_Valid [OF i'(2)] q by (simp_all add: e_user_def)
  show ?case
  proof (cases "ucmp (e_user (M ! q)) k < 0")
    case True
    then have "scan_back it ucmp k i = Some (True, i')" using i' k by (subst scan_back.simps) simp
    then show ?thesis using i'(2) True by (intro exI [of _ True] exI [of _ i'] exI [of _ q]) auto
  next
    case False
    obtain found i2 q2 where IH: "scan_back it ucmp k i' = Some (found, i2)" "on i2 M q2"
      "if found then q2 < q \<and> ucmp (e_user (M ! q2)) k < 0 \<and> (\<forall>j. q2 < j \<and> j < q \<longrightarrow> \<not> ucmp (e_user (M ! j)) k < 0)
       else \<forall>j < q. \<not> ucmp (e_user (M ! j)) k < 0" using Suc.IH [OF i'(2) q] by blast
    have run: "scan_back it ucmp k i = Some (found, i2)" using i' k False IH(1) by (subst scan_back.simps) simp
    have "if found then q2 < Suc q \<and> ucmp (e_user (M ! q2)) k < 0 \<and> (\<forall>j. q2 < j \<and> j < Suc q \<longrightarrow> \<not> ucmp (e_user (M ! j)) k < 0)
       else \<forall>j < Suc q. \<not> ucmp (e_user (M ! j)) k < 0"
      using IH(3) False by (cases found) (auto simp: less_Suc_eq)
    then show ?thesis using run IH(2) by blast
  qed
qed

lemma db_at_seek:
  assumes "db_at ucmp snap on d V p"
  obtains M q where "on (di_iter d) M q" "entries_ok icmp M" "V = user_view M snap" "di_status d = OK" "seed_ok (di_rnd d)"
  using assms by (auto simp: db_at_def)

lemma di_SeekToFirst_at:
  assumes "db_at ucmp snap on d V p"
  shows "\<exists>d'. di_SeekToFirst it ucmp snap d = Some d' \<and> db_at ucmp snap on d' V 0"
proof -
  obtain M q where M: "on (di_iter d) M q" "entries_ok icmp M" "V = user_view M snap" "di_status d = OK" "seed_ok (di_rnd d)"
    using db_at_seek [OF assms] .
  obtain i where i: "it_SeekToFirst it (di_iter d) = Some i" "on i M 0" using base.at_SeekToFirst [OF M(1)] by blast
  show ?thesis using FindNext_first [of "d\<lparr>di_direction := kForward, di_saved_value := [], di_iter := i\<rparr>" M 0] M i
    by (simp add: di_SeekToFirst_def rank_def Let_def)
qed

lemma di_SeekToLast_at:
  assumes "db_at ucmp snap on d V p"
  shows "\<exists>d'. di_SeekToLast it ucmp snap d = Some d' \<and> db_at ucmp snap on d' V (length V - 1)"
proof -
  obtain M q where M: "on (di_iter d) M q" "entries_ok icmp M" "V = user_view M snap" "di_status d = OK" "seed_ok (di_rnd d)"
    using db_at_seek [OF assms] .
  obtain i where i: "it_SeekToLast it (di_iter d) = Some i" "on i M (length M - 1)" using base.at_SeekToLast [OF M(1)] by blast
  have "(if length M - 1 < length M then prior (length V) (rank M snap (Suc (length M - 1))) else length V) = length V - 1"
    using M(3) rank_length [of M "length M" snap] by (cases "M = []") (auto simp: prior_def user_view_def)
  moreover have "\<exists>d'. FindPrevUserEntry it ucmp snap (d\<lparr>di_direction := kReverse, di_saved_value := [], di_iter := i\<rparr>) = Some d' \<and>
      db_at ucmp snap on d' V (if length M - 1 < length M then prior (length V) (rank M snap (Suc (length M - 1))) else length V)"
    unfolding M(3) by (rule FindPrev_at) (use M i in auto)
  ultimately show ?thesis using i(1) by (simp add: di_SeekToLast_def)
qed

lemma rank_lower:
  assumes ok: "entries_ok icmp M" "i \<le> length M"
    and before: "\<And>j. j < i \<Longrightarrow> shown M snap (M ! j) \<Longrightarrow> ucmp (e_user (M ! j)) k < 0"
    and from': "\<And>j. i \<le> j \<Longrightarrow> j < length M \<Longrightarrow> shown M snap (M ! j) \<Longrightarrow> \<not> ucmp (e_user (M ! j)) k < 0"
  shows "rank M snap i = lower ucmp (user_view M snap) k"
proof (rule lower_eqI [symmetric])
  show "rank M snap i \<le> length (user_view M snap)" using rank_mono [OF ok(2), of M snap] rank_length [of M "length M" snap] by simp
  fix p assume p: "p < rank M snap i"
  then obtain j where j: "j < length M" "shown M snap (M ! j)" "rank M snap j = p"
    using view_index [of p M snap] rank_mono [OF ok(2), of M snap] rank_length [of M "length M" snap] by (metis le_refl less_le_trans)
  then have "j < i" using p rank_mono [of i j M snap] by (meson not_le)
  then show "ucmp (fst (user_view M snap ! p)) k < 0" using before j(2) view_nth [OF j(1,2)] j(3) by simp
next
  assume "rank M snap i < length (user_view M snap)"
  then obtain j where j: "j < length M" "shown M snap (M ! j)" "rank M snap j = rank M snap i" by (rule view_index)
  have "i \<le> j"
  proof (rule ccontr)
    assume "\<not> i \<le> j"
    then show False using rank_mono [of "Suc j" i M snap] rank_Suc [OF j(1), of snap] j(2,3) by simp
  qed
  then show "\<not> ucmp (fst (user_view M snap ! rank M snap i)) k < 0" using from' j(1,2) view_nth [OF j(1,2)] j(3) by simp
qed

lemma di_Seek_at:
  assumes "db_at ucmp snap on d V p" and good: "good (MakeInternalKey k snap kValueTypeForSeek)"
  shows "\<exists>d'. di_Seek it ucmp snap k d = Some d' \<and> db_at ucmp snap on d' V (lower ucmp V k)"
proof -
  obtain M q where M: "on (di_iter d) M q" "entries_ok icmp M" "V = user_view M snap" "di_status d = OK" "seed_ok (di_rnd d)"
    using db_at_seek [OF assms(1)] .
  let ?K = "MakeInternalKey k snap kValueTypeForSeek"
  define n where "n = lower icmp M ?K"
  obtain i where i: "it_Seek it ?K (di_iter d) = Some i" "on i M n" using base.at_Seek [OF M(1) good] unfolding n_def by blast
  have kp: "ParseInternalKey ?K = Some \<lparr>user_key = k, sequence = snap, type = kTypeValue\<rparr>"
    using ParseInternalKey_Make [OF snap_ok] by (simp add: kValueTypeForSeek_def)
  have tag: "ExtractTag (fst e) \<le> ExtractTag ?K" if "e \<in> set M" "e_seq e \<le> snap" for e
    using value_tag [of "(?K, [])" e] kp that M(2) parsed_entry [of "(?K, [])", unfolded fst_conv, OF kp] by (auto simp: entries_ok_def)
  have before: "ucmp (e_user (M ! j)) k < 0" if "j < n" "e_seq (M ! j) \<le> snap" for j
  proof -
    have "j < length M" using that(1) lower_le [of icmp M ?K] by (simp add: n_def)
    then show ?thesis using lower_before [of j icmp M ?K] that tag [of "M ! j"] by (auto simp: n_def icmp_iff e_user_def)
  qed
  have from': "\<not> ucmp (e_user (M ! j)) k < 0" if j: "n \<le> j" "j < length M" for j
  proof
    assume "ucmp (e_user (M ! j)) k < 0"
    then have "icmp (fst (M ! j)) ?K < 0" by (simp add: icmp_iff e_user_def)
    moreover have "good (fst e)" if "e \<in> set M" for e using base.at_good [OF M(1) that] .
    ultimately have "j < n" using base.lower_mono_iff [OF base.at_sorted [OF M(1)] _ good j(2)] unfolding n_def by blast
    then show False using j(1) by simp
  qed
  have rk: "rank M snap n = lower ucmp V k"
    unfolding M(3) using before from' lower_le [of icmp M ?K] by (intro rank_lower [OF M(2)]) (auto simp: n_def shown_def visible_def)
  let ?d = "d\<lparr>di_direction := kForward, di_saved_value := [], di_saved_key := ?K, di_iter := i\<rparr>"
  have "\<exists>d'. (if it_Valid it (di_iter ?d) then FindNextUserEntry it ucmp snap False ?d else Some (?d\<lparr>di_valid := False\<rparr>)) = Some d' \<and>
      db_at ucmp snap on d' (user_view M snap) (rank M snap n)"
    by (rule FindNext_first) (use M i before from' in \<open>fastforce+\<close>)
  then show ?thesis using i(1) rk M(3) by (simp add: di_Seek_def Let_def MakeInternalKey_def [symmetric])
qed

text \<open>The shown entry at a position of the view.\<close>

lemma db_at_valid:
  assumes "db_at ucmp snap on d V p" "p < length V"
  obtains M q x where "on (di_iter d) M q" "entries_ok icmp M" "V = user_view M snap" "di_status d = OK" "seed_ok (di_rnd d)"
    "x < length M" "shown M snap (M ! x)" "rank M snap x = p" "V ! p = (e_user (M ! x), snd (M ! x))"
    "if di_direction d = kForward then q = x
     else di_saved_key d = e_user (M ! x) \<and> di_saved_value d = snd (M ! x) \<and> reverse_ok ucmp snap M q (e_user (M ! x))"
proof -
  obtain M q where M: "on (di_iter d) M q" "entries_ok icmp M" "V = user_view M snap" "di_status d = OK" "seed_ok (di_rnd d)"
    and D: "case di_direction d of kForward \<Rightarrow> q < length M \<and> shown M snap (M ! q) \<and> rank M snap q = p
        | kReverse \<Rightarrow> di_saved_key d = fst (V ! p) \<and> di_saved_value d = snd (V ! p) \<and> reverse_ok ucmp snap M q (di_saved_key d)"
    using assms by (auto simp: db_at_def)
  show ?thesis
  proof (cases "di_direction d")
    case kForward
    then show ?thesis using that [OF M, of q] D view_nth [of q M snap] M(3) by auto
  next
    case kReverse
    obtain x where x: "x < length M" "shown M snap (M ! x)" "rank M snap x = p" using view_index [of p M snap] assms(2) M(3) by blast
    then show ?thesis using that [OF M x] kReverse D view_nth [OF x(1,2)] M(3) by auto
  qed
qed

text \<open>While the iterator moves backwards, it stands before all shown entries from \<open>x\<close> on and after those before \<open>x\<close>.\<close>

lemma reverse_position:
  assumes ok: "entries_ok icmp M" and x: "x < length M" "shown M snap (M ! x)" and r: "reverse_ok ucmp snap M q (e_user (M ! x))"
  defines "n \<equiv> if q < length M then Suc q else 0"
  shows "n \<le> x" "rank M snap n = rank M snap x"
proof -
  show "n \<le> x"
  proof (rule ccontr)
    assume "\<not> n \<le> x"
    then have q: "q < length M" "x \<le> q" by (auto simp: n_def split: if_splits)
    then show False using r entries_users [OF ok q(2,1)] cmp_swap [of "e_user (M ! q)" "e_user (M ! x)"] by (auto simp: reverse_ok_def)
  qed
  moreover have "\<not> shown M snap (M ! j)" if "n \<le> j" "j < x" for j
    using r shown_users_less [OF ok that(2) x(1) _ x(2)] that x(1) unfolding reverse_ok_def n_def [symmetric] by (auto simp: shown_def visible_def)
  ultimately show "rank M snap n = rank M snap x" by (intro rank_none [symmetric]) auto
qed

lemma di_Next_at:
  assumes "db_at ucmp snap on d V p" "p < length V"
  shows "\<exists>d'. di_Next it ucmp snap d = Some d' \<and> db_at ucmp snap on d' V (Suc p)"
proof -
  obtain M q x where M: "on (di_iter d) M q" "entries_ok icmp M" "V = user_view M snap" "di_status d = OK" "seed_ok (di_rnd d)"
    and x: "x < length M" "shown M snap (M ! x)" "rank M snap x = p" "V ! p = (e_user (M ! x), snd (M ! x))"
    and D: "if di_direction d = kForward then q = x
     else di_saved_key d = e_user (M ! x) \<and> di_saved_value d = snd (M ! x) \<and> reverse_ok ucmp snap M q (e_user (M ! x))"
    by (rule db_at_valid [OF assms]) (rule that; assumption)
  show ?thesis
  proof (cases "di_direction d")
    case kForward
    then have q: "q = x" using D by simp
    let ?d = "d\<lparr>di_saved_key := ExtractUserKey (it_key it (di_iter d))\<rparr>"
    have k: "di_saved_key ?d = e_user (M ! x)" using base.at_key [OF M(1)] q x(1) by (simp add: e_user_def)
    have "\<exists>d'. FindNextUserEntry it ucmp snap True ?d = Some d' \<and> db_at ucmp snap on d' (user_view M snap) (Suc (rank M snap x))"
    proof (rule FindNext_after [OF _ M(2) _ _ _ order_refl x(1,2) k])
      fix j' j assume j: "j' < x" "x \<le> j" "j < length M" "e_user (M ! j') = e_user (M ! j)" "e_seq (M ! j') \<le> snap"
      then have "ucmp (e_user (M ! j)) (e_user (M ! x)) \<le> 0" using entries_users [OF M(2), of j' x] x(1) by simp
      then show "ucmp (e_user (M ! j)) (di_saved_key ?d) \<le> 0" by (simp only: k)
    next
      show "ucmp (di_saved_key ?d) (e_user (M ! j)) \<le> 0" if "x \<le> j" "j < length M" for j unfolding k using entries_users [OF M(2) that] .
    qed (use M kForward q in auto)
    then show ?thesis using kForward x(3) M(3) by (simp add: di_Next_def)
  next
    case kReverse
    then have r: "di_saved_key d = e_user (M ! x)" "reverse_ok ucmp snap M q (e_user (M ! x))" using D by simp_all
    define n where "n = (if q < length M then Suc q else 0)"
    have nx: "n \<le> x" using reverse_position(1) [OF M(2) x(1,2) r(2)] by (simp add: n_def)
    obtain i where i: "(if \<not> it_Valid it (di_iter d) then it_SeekToFirst it (di_iter d) else it_Next it (di_iter d)) = Some i" "on i M n"
      using base.at_Valid [OF M(1)] base.at_Next [OF M(1)] base.at_SeekToFirst [OF M(1)] by (cases "q < length M") (auto simp: n_def)
    have v: "it_Valid it i" using base.at_Valid [OF i(2)] nx x(1) by simp
    let ?d = "d\<lparr>di_direction := kForward, di_iter := i\<rparr>"
    have "\<exists>d'. FindNextUserEntry it ucmp snap True ?d = Some d' \<and> db_at ucmp snap on d' (user_view M snap) (Suc (rank M snap x))"
    proof (rule FindNext_after [OF _ M(2) _ _ _ nx x(1,2)])
      fix j' j assume j: "j' < n" "n \<le> j" "j < length M" "e_user (M ! j') = e_user (M ! j)" "e_seq (M ! j') \<le> snap"
      then have q: "q < length M" "j' \<le> q" by (auto simp: n_def split: if_splits)
      then have "ucmp (e_user (M ! j')) (e_user (M ! x)) \<le> 0"
        using entries_users [OF M(2) q(2,1)] r(2) cmp_le_trans [of "e_user (M ! j')" "e_user (M ! q)" "e_user (M ! x)"] by (auto simp: reverse_ok_def)
      then show "ucmp (e_user (M ! j)) (di_saved_key ?d) \<le> 0" using j(4) r(1) by simp
    next
      fix j assume "n \<le> j" "j < length M" "e_seq (M ! j) \<le> snap"
      then have "\<not> ucmp (e_user (M ! j)) (e_user (M ! x)) < 0" using r(2) unfolding reverse_ok_def n_def [symmetric] by blast
      then show "ucmp (di_saved_key ?d) (e_user (M ! j)) \<le> 0" using cmp_not_less r(1) by simp
    qed (use M i r in auto)
    then show ?thesis using kReverse x(3) M(3) i(1) v by (simp add: di_Next_def Let_def)
  qed
qed

lemma di_Prev_at:
  assumes "db_at ucmp snap on d V p" "p < length V"
  shows "\<exists>d'. di_Prev it ucmp snap d = Some d' \<and> db_at ucmp snap on d' V (prior (length V) p)"
proof -
  obtain M q x where M: "on (di_iter d) M q" "entries_ok icmp M" "V = user_view M snap" "di_status d = OK" "seed_ok (di_rnd d)"
    and x: "x < length M" "shown M snap (M ! x)" "rank M snap x = p" "V ! p = (e_user (M ! x), snd (M ! x))"
    and D: "if di_direction d = kForward then q = x
     else di_saved_key d = e_user (M ! x) \<and> di_saved_value d = snd (M ! x) \<and> reverse_ok ucmp snap M q (e_user (M ! x))"
    by (rule db_at_valid [OF assms]) (rule that; assumption)
  show ?thesis
  proof (cases "di_direction d")
    case kForward
    then have q: "q = x" using D by simp
    define k where "k = e_user (M ! x)"
    have key: "ExtractUserKey (it_key it (di_iter d)) = k" using base.at_key [OF M(1)] q x(1) by (simp add: k_def e_user_def)
    obtain found i n where S: "scan_back it ucmp k (di_iter d) = Some (found, i)" "on i M n"
      "if found then n < x \<and> ucmp (e_user (M ! n)) k < 0 \<and> (\<forall>j. n < j \<and> j < x \<longrightarrow> \<not> ucmp (e_user (M ! j)) k < 0)
       else \<forall>j < x. \<not> ucmp (e_user (M ! j)) k < 0" using scan_back_finds [OF M(1), of k] q x(1) by metis
    have hidden: "\<not> shown M snap (M ! j)" if "j < x" "\<not> ucmp (e_user (M ! j)) k < 0" for j
      using shown_users_less [OF M(2) that(1) x(1) _ x(2)] that(2) by (auto simp: k_def)
    show ?thesis
    proof (cases found)
      case True
      then have n: "n < x" "rank M snap x = rank M snap (Suc n)" using S(3) hidden by (auto intro!: rank_none)
      let ?d = "d\<lparr>di_saved_key := k, di_iter := i, di_direction := kReverse\<rparr>"
      have "\<exists>d'. FindPrevUserEntry it ucmp snap ?d = Some d' \<and>
          db_at ucmp snap on d' (user_view M snap) (if n < length M then prior (length (user_view M snap)) (rank M snap (Suc n)) else length (user_view M snap))"
        by (rule FindPrev_at) (use M S(2) in auto)
      then show ?thesis using kForward key S(1) True n x(1,3) M(3) by (simp add: di_Prev_def Let_def)
    next
      case False
      then have "rank M snap x = rank M snap 0" using S(3) hidden by (intro rank_none) auto
      then have "prior (length V) p = length V" using x(3) by (simp add: prior_def rank_def)
      then show ?thesis using kForward key S(1,2) False M by (auto simp: di_Prev_def Let_def db_at_def)
    qed
  next
    case kReverse
    then have r: "reverse_ok ucmp snap M q (e_user (M ! x))" using D by simp
    have "(if q < length M then prior (length V) (rank M snap (Suc q)) else length V) = prior (length V) p"
      using reverse_position(2) [OF M(2) x(1,2) r] x(3) by (cases "q < length M") (auto simp: prior_def rank_def)
    moreover have "\<exists>d'. FindPrevUserEntry it ucmp snap d = Some d' \<and>
        db_at ucmp snap on d' V (if q < length M then prior (length V) (rank M snap (Suc q)) else length V)"
      unfolding M(3) by (rule FindPrev_at) (use M kReverse in auto)
    ultimately show ?thesis using kReverse by (simp add: di_Prev_def)
  qed
qed

text \<open>A \<open>DBIter\<close> is a sorted iterator over the user's view.\<close>

lemma db_iterator: "sorted_iterator ucmp (\<lambda>k. good (MakeInternalKey k snap kValueTypeForSeek)) (DBIterOps it ucmp snap) (db_at ucmp snap on)"
proof unfold_locales
  fix d V p assume d: "db_at ucmp snap on d V p"
  obtain M q where M: "on (di_iter d) M q" "entries_ok icmp M" "V = user_view M snap" "di_status d = OK" "seed_ok (di_rnd d)"
    using db_at_seek [OF d] .
  show "p \<le> length V" "it_Valid (DBIterOps it ucmp snap) d = (p < length V)" using d by (simp_all add: db_at_def DBIterOps_def)
  show "sorted_entries ucmp V" using view_sorted [OF M(2)] M(3) by simp
  show "good (MakeInternalKey (fst e) snap kValueTypeForSeek)" if "e \<in> set V" for e
    using that M(3) good_seek base.at_good [OF M(1)] by (auto simp: user_view_def e_user_def)
  show "it_status (DBIterOps it ucmp snap) d = OK" using M(4) base.at_status [OF M(1)] by (simp add: DBIterOps_def di_get_status_def)
  show "\<exists>j. it_SeekToFirst (DBIterOps it ucmp snap) d = Some j \<and> db_at ucmp snap on j V 0"
    "\<exists>j. it_SeekToLast (DBIterOps it ucmp snap) d = Some j \<and> db_at ucmp snap on j V (length V - 1)"
    using di_SeekToFirst_at [OF d] di_SeekToLast_at [OF d] by (simp_all add: DBIterOps_def)
  show "\<exists>j. it_Seek (DBIterOps it ucmp snap) k d = Some j \<and> db_at ucmp snap on j V (lower ucmp V k)"
    if "good (MakeInternalKey k snap kValueTypeForSeek)" for k using di_Seek_at [OF d that] by (simp add: DBIterOps_def)
  assume p: "p < length V"
  show "\<exists>j. it_Next (DBIterOps it ucmp snap) d = Some j \<and> db_at ucmp snap on j V (Suc p)"
    "\<exists>j. it_Prev (DBIterOps it ucmp snap) d = Some j \<and> db_at ucmp snap on j V (prior (length V) p)"
    using di_Next_at [OF d p] di_Prev_at [OF d p] by (simp_all add: DBIterOps_def)
  show "it_key (DBIterOps it ucmp snap) d = fst (V ! p)" "it_value (DBIterOps it ucmp snap) d = snd (V ! p)"
    by (rule db_at_valid [OF d p], use base.at_key [of "di_iter d"] base.at_value [of "di_iter d"] in
        \<open>auto simp: DBIterOps_def di_key_def di_value_def e_user_def split: if_splits\<close>)+
next
  fix a b c
  show "ucmp a b = 0 \<longleftrightarrow> a = b" "ucmp a b < 0 \<longleftrightarrow> ucmp b a > 0" using cmp_zero cmp_swap by simp_all
  show "ucmp a c < 0" if "ucmp a b < 0" "ucmp b c < 0" using cmp_trans [of a b c] that by simp
qed

lemma new_DBIter_at:
  assumes "on i M q" "entries_ok icmp M"
  shows "db_at ucmp snap on (new_DBIter i seed) (user_view M snap) (length (user_view M snap))"
  using assms seed_ok_Next [OF seed_ok_new] by (auto simp: db_at_def new_DBIter_def RandomPeriod_eq Let_def)

end

end
