(* ===== verification/DbIterUse.thy ===== *)
theory DbIterUse
  imports DbIter
begin

text \<open>
  The iterators of the program as sorted iterators, and the iterator a client of the database gets: a \<open>DBIter\<close> over the
  merged iterators of the memtables and tables.
\<close>

subsection \<open>Memtables\<close>

text \<open>A \<open>MemTableIterator\<close> is the memtable and the iterator of its skip list.\<close>

definition MemTableOps :: "(slice \<Rightarrow> slice \<Rightarrow> int) \<Rightarrow> (MemTable \<times> sl_iter) IteratorOps" where
  "MemTableOps ucmp =
     \<lparr>it_Valid = (\<lambda>(m, i). SLIter_Valid i),
      it_SeekToFirst = (\<lambda>(m, i). Some (m, MemIter_SeekToFirst m)),
      it_SeekToLast = (\<lambda>(m, i). map_option (Pair m) (MemIter_SeekToLast m)),
      it_Seek = (\<lambda>k (m, i). map_option (Pair m) (MemIter_Seek ucmp m k)),
      it_Next = (\<lambda>(m, i). Some (m, MemIter_Next m i)),
      it_Prev = (\<lambda>(m, i). map_option (Pair m) (MemIter_Prev ucmp m i)),
      it_key = (\<lambda>(m, i). MemIter_key m i),
      it_value = (\<lambda>(m, i). MemIter_value m i),
      it_status = (\<lambda>(m, i). OK)\<rparr>"

definition MemTable_NewIterator :: "MemTable \<Rightarrow> MemTable \<times> sl_iter" where
  "MemTable_NewIterator m = (m, None)"

text \<open>The internal key and the value of an update, and the keys that fit into a memtable.\<close>

definition update_kv :: "update \<Rightarrow> slice \<times> slice" where
  "update_kv u = (case u of (s, t, k, v) \<Rightarrow> (MakeInternalKey k s t, v))"

definition mem_key_ok :: "slice \<Rightarrow> bool" where
  "mem_key_ok k \<longleftrightarrow> ikey_wf k \<and> length k < 2 ^ 32"

definition mem_at :: "(slice \<Rightarrow> slice \<Rightarrow> int) \<Rightarrow> MemTable \<times> sl_iter \<Rightarrow> (slice \<times> slice) list \<Rightarrow> nat \<Rightarrow> bool" where
  "mem_at ucmp i es p \<longleftrightarrow> (\<exists>xs us. sl_rep (MemTable_KeyCompare ucmp) (mt_table (fst i)) xs (map update_entry us) \<and>
     (\<forall>u\<in>set us. update_ok u) \<and> es = map update_kv us \<and> at_pos xs p (snd i))"

lemma update_entry_read:
  assumes "update_ok u"
  shows "mem_GetLengthPrefixedSlice (update_entry u) = fst (update_kv u)"
    "(let (len, q) = mem_varint (update_entry u) in mem_GetLengthPrefixedSlice (drop (unat len) q)) = snd (update_kv u)"
    "mem_key_ok (fst (update_kv u))"
proof -
  obtain s t k v where u: "u = (s, t, k, v)" by (cases u) auto
  show "mem_GetLengthPrefixedSlice (update_entry u) = fst (update_kv u)" "mem_key_ok (fst (update_kv u))"
    using assms by (simp_all add: u update_kv_def entry_ikey mem_key_ok_def)
  have "mem_GetLengthPrefixedSlice (EncodeVarint32 (of_nat (length v)) @ v @ []) = v"
    by (rule mem_GetLengthPrefixedSlice_Encode) (use assms in \<open>simp_all add: u\<close>)
  then show "(let (len, q) = mem_varint (update_entry u) in mem_GetLengthPrefixedSlice (drop (unat len) q)) = snd (update_kv u)"
    using entry_read [of s t k v] assms by (simp add: u update_kv_def Let_def)
qed

lemma update_kv_cong: "update_ok u \<Longrightarrow> update_ok w \<Longrightarrow> update_entry u = update_entry w \<Longrightarrow> update_kv u = update_kv w"
  using update_entry_read(1,2) [of u] update_entry_read(1,2) [of w] by (intro prod_eqI) simp_all

lemma length_takeWhile_map:
  "(\<And>x. x \<in> set xs \<Longrightarrow> P (f x) \<longleftrightarrow> Q (g x)) \<Longrightarrow> length (takeWhile P (map f xs)) = length (takeWhile Q (map g xs))"
  by (induction xs) auto

context user_comparator
begin

lemma mem_iterator: "sorted_iterator icmp mem_key_ok (MemTableOps ucmp) (mem_at ucmp)"
proof unfold_locales
  fix a b c
  assume "mem_key_ok a" "mem_key_ok b"
  then have ab: "ikey_wf a" "ikey_wf b" by (simp_all add: mem_key_ok_def)
  show "icmp a b = 0 \<longleftrightarrow> a = b" "icmp a b < 0 \<longleftrightarrow> icmp b a > 0" using internal.cmp_zero [OF ab] internal.cmp_swap [OF ab] by simp_all
  show "icmp a c < 0" if "mem_key_ok c" "icmp a b < 0" "icmp b c < 0"
    using internal.cmp_trans [OF ab _ that(2,3)] that(1) by (simp add: mem_key_ok_def)
next
  fix i es p assume "mem_at ucmp i es p"
  then obtain m j xs us where i: "i = (m, j)" and r: "sl_rep (MemTable_KeyCompare ucmp) (mt_table m) xs (map update_entry us)"
    and us: "\<forall>u\<in>set us. update_ok u" "es = map update_kv us" and pos: "at_pos xs p j"
    by (cases i) (auto simp: mem_at_def)
  have len: "length xs = length us" using r by (metis length_map sl_rep_def)
  have good: "\<forall>e\<in>set (map update_entry us). entry_good e" using us(1) update_entry_good by auto
  have at': "mem_at ucmp (m, j') es q" if "at_pos xs q j'" for j' q using r us that by (auto simp: mem_at_def)
  show "p \<le> length es" "it_Valid (MemTableOps ucmp) i \<longleftrightarrow> p < length es" "it_status (MemTableOps ucmp) i = OK"
    using pos us(2) len by (auto simp: i MemTableOps_def at_pos_def SLIter_Valid_def)
  show "sorted_entries icmp es"
    unfolding sorted_entries_def us(2) sorted_wrt_map
  proof (rule sorted_wrt_mono_rel)
    show "sorted_wrt (\<lambda>x y. MemTable_KeyCompare ucmp (update_entry x) (update_entry y) < 0) us" using r by (simp add: sl_rep_def sorted_wrt_map)
    show "icmp (fst (update_kv x)) (fst (update_kv y)) < 0"
      if "x \<in> set us" "y \<in> set us" "MemTable_KeyCompare ucmp (update_entry x) (update_entry y) < 0" for x y
      using that us(1) update_entry_read(1) [of x] update_entry_read(1) [of y] by (simp add: MemTable_KeyCompare_def)
  qed
  show "mem_key_ok (fst e)" if "e \<in> set es" for e using that us update_entry_read(3) by auto
  show "\<exists>j. it_SeekToFirst (MemTableOps ucmp) i = Some j \<and> mem_at ucmp j es 0"
    using at' [OF SeekToFirst_pos [OF r]] by (simp add: i MemTableOps_def MemIter_SeekToFirst_def)
  show "\<exists>j. it_SeekToLast (MemTableOps ucmp) i = Some j \<and> mem_at ucmp j es (length es - 1)"
    using SeekToLast_pos [OF r] at' us(2) len by (auto simp: i MemTableOps_def MemIter_SeekToLast_def)
  show "\<exists>j. it_Seek (MemTableOps ucmp) k i = Some j \<and> mem_at ucmp j es (lower icmp es k)" if k: "mem_key_ok k" for k
  proof -
    have kk: "mem_GetLengthPrefixedSlice (EncodeKey k) = k"
      using mem_GetLengthPrefixedSlice_Encode [of k _ "[]"] k by (simp add: EncodeKey_def mem_key_ok_def)
    then have "entry_good (EncodeKey k)" using k by (simp add: entry_good_def mem_key_ok_def)
    moreover have "length (before (MemTable_KeyCompare ucmp) (EncodeKey k) (map update_entry us)) = lower icmp es k"
      unfolding before_def lower_def us(2)
      by (rule length_takeWhile_map) (use us(1) update_entry_read(1) kk in \<open>auto simp: MemTable_KeyCompare_def\<close>)
    ultimately show ?thesis using mem.Seek_pos [OF r good, of "EncodeKey k"] at' by (auto simp: i MemTableOps_def MemIter_Seek_def)
  qed
  assume p: "p < length es"
  then have px: "p < length xs" and j: "j = Some (xs ! p)" using pos len us(2) by (auto simp: at_pos_def)
  have "SLIter_key (mt_table m) j = update_entry (us ! p)" using r px len by (simp add: j SLIter_key_def sl_rep_def) (metis nth_map)
  then show "it_key (MemTableOps ucmp) i = fst (es ! p)" "it_value (MemTableOps ucmp) i = snd (es ! p)"
    using update_entry_read(1,2) [of "us ! p"] us px len by (simp_all add: i MemTableOps_def MemIter_key_def MemIter_value_def)
  show "\<exists>j. it_Next (MemTableOps ucmp) i = Some j \<and> mem_at ucmp j es (Suc p)"
    using at' [OF Next_pos [OF r px]] by (simp add: i j MemTableOps_def MemIter_Next_def)
  show "\<exists>j. it_Prev (MemTableOps ucmp) i = Some j \<and> mem_at ucmp j es (prior (length es) p)"
    using mem.Prev_pos [OF r good px] at' us(2) len by (auto simp: i j MemTableOps_def MemIter_Prev_def prior_def)
qed

lemma mem_at_new:
  assumes "\<forall>u\<in>set us. update_ok u" "seqs_distinct us"
  shows "\<exists>m es p. MemTable_Adds ucmp us new_MemTable = Some m \<and> mem_at ucmp (MemTable_NewIterator m) es p \<and> set es = update_kv ` set us"
proof -
  obtain m xs ks where m: "MemTable_Adds ucmp us new_MemTable = Some m" "sl_rep (MemTable_KeyCompare ucmp) (mt_table m) xs ks"
    "mset ks = mset (map update_entry us)" using Adds_rep [OF assms] by blast
  have st: "set ks = update_entry ` set us" using m(3) by (metis list.set_map set_mset_mset)
  then have "\<forall>k\<in>set ks. \<exists>u. u \<in> set us \<and> update_entry u = k" by (metis imageE)
  then obtain f where f: "\<And>k. k \<in> set ks \<Longrightarrow> f k \<in> set us \<and> update_entry (f k) = k" by metis
  define us' where "us' = map f ks"
  have ks: "map update_entry us' = ks" using f by (simp add: us'_def map_idI)
  have "update_kv ` set us' = update_kv ` set us"
  proof
    show "update_kv ` set us' \<subseteq> update_kv ` set us" using f by (auto simp: us'_def)
    show "update_kv ` set us \<subseteq> update_kv ` set us'"
    proof
      fix e assume "e \<in> update_kv ` set us"
      then obtain u where u: "u \<in> set us" "e = update_kv u" by blast
      then have k: "update_entry u \<in> set ks" using st by blast
      have "update_kv (f (update_entry u)) = update_kv u" using f [OF k] u(1) assms(1) by (intro update_kv_cong) auto
      then show "e \<in> update_kv ` set us'" using k u(2) by (intro image_eqI [of _ _ "f (update_entry u)"]) (auto simp: us'_def)
    qed
  qed
  moreover have "\<forall>u\<in>set us'. update_ok u" using f assms(1) by (auto simp: us'_def)
  moreover have "at_pos xs (length xs) None" by (simp add: at_pos_def)
  ultimately show ?thesis using m(1,2) ks
    by (intro exI [of _ m] exI [of _ "map update_kv us'"] exI [of _ "length xs"]) (auto simp only: mem_at_def MemTable_NewIterator_def fst_conv snd_conv set_map)
qed

end

subsection \<open>The iterator of a client\<close>

definition parsed_keys :: "(slice \<times> slice) list \<Rightarrow> bool" where
  "parsed_keys es \<longleftrightarrow> (\<forall>e\<in>set es. ParseInternalKey (fst e) \<noteq> None)"

text \<open>The iterators of the parts of a database, over entries no two of which have the same internal key.\<close>

definition parts_ok :: "(slice \<times> slice) list list \<Rightarrow> bool" where
  "parts_ok ess \<longleftrightarrow> (\<forall>es\<in>set ess. parsed_keys es) \<and> inj_on fst (\<Union>es\<in>set ess. set es) \<and>
     (\<forall>i j. i < j \<and> j < length ess \<longrightarrow> set (ess ! i) \<inter> set (ess ! j) = {})"

text \<open>
  C4. The iterator of a client. Let the children of a merging iterator be sorted iterators over the entries of the
  parts of a database, its memtables and tables. Then the \<open>DBIter\<close> over it shows the user's view at the sequence number \<open>snap\<close>: there is
  one list \<open>V\<close>, in the order of the user comparator, of exactly the keys with the values that a read at \<open>snap\<close> returns, and
  after any sequence of moves, in any directions, the iterator is valid if and only if the position in \<open>V\<close> is, shows the key
  and value at that position and reports no error. No move runs forever.
\<close>

theorem DBIter_refines:
  assumes ucmp: "user_comparator ucmp" and it: "sorted_iterator (InternalKey_Compare ucmp) good it on"
    and good: "\<forall>k. good k \<longrightarrow> good (MakeInternalKey (ExtractUserKey k) snap kValueTypeForSeek)" and snap: "snap \<le> kMaxSequenceNumber"
    and parts: "parts_ok ess" "list_all2 (\<lambda>c es. \<exists>q. on c es q) cs ess"
  shows "\<exists>V. sorted_entries ucmp V \<and> (\<forall>k v. (k, v) \<in> set V \<longleftrightarrow> db_read (\<Union>es\<in>set ess. set es) k snap v) \<and>
    (\<forall>moves p. (\<forall>k. GoSeek k \<in> set moves \<longrightarrow> good (MakeInternalKey k snap kValueTypeForSeek)) \<and> run_pos ucmp V moves (length V) = Some p \<longrightarrow>
       (\<exists>d. run_iter (DBIterOps (MergedOps it (InternalKey_Compare ucmp)) ucmp snap) moves (new_DBIter (NewMergingIterator cs) seed) = Some d \<and>
          shows_entry (DBIterOps (MergedOps it (InternalKey_Compare ucmp)) ucmp snap) d = entry_at V p \<and>
          it_status (DBIterOps (MergedOps it (InternalKey_Compare ucmp)) ucmp snap) d = OK))"
proof -
  let ?icmp = "InternalKey_Compare ucmp"
  let ?m = "MergedOps it ?icmp" let ?d = "DBIterOps ?m ucmp snap"
  have c: "comparator ?icmp good" using it by (simp add: sorted_iterator_def)
  have cs: "length ess = length cs" "\<forall>j < length ess. \<exists>q. on (cs ! j) (ess ! j) q" using parts(2) by (auto simp: list_all2_conv_all_nth)
  have "\<forall>e\<in>(\<Union>es\<in>set ess. set es). good (fst e)"
  proof clarify
    fix k v es assume "es \<in> set ess" "(k, v) \<in> set es"
    then obtain j q where "j < length ess" "on (cs ! j) (ess ! j) q" "(k, v) \<in> set (ess ! j)" using cs(2) by (metis in_set_conv_nth)
    then show "good (fst (k, v))" using sorted_iterator.at_good [OF it] by blast
  qed
  then obtain M where M: "sorted_entries ?icmp M" "set M = (\<Union>es\<in>set ess. set es)"
    using comparator.sorted_exists [OF c, of "\<Union>es\<in>set ess. set es"] parts(1) by (auto simp: parts_ok_def)
  have merge: "merge_of ?icmp M ess" using M parts(1) by (simp add: merge_of_def parts_ok_def)
  have ok: "entries_ok ?icmp M" using M parts(1) by (auto simp: entries_ok_def sorted_entries_def parts_ok_def parsed_keys_def)
  obtain q where q: "merged_at ?icmp on (NewMergingIterator cs) M q" using sorted_iterator.NewMergingIterator_at [OF it merge cs] by blast
  have inner: "internal_iterator ucmp good ?m (merged_at ?icmp on) snap"
    using ucmp sorted_iterator.merged_iterator [OF it] good snap by (simp add: internal_iterator_def internal_iterator_axioms_def)
  note D = internal_iterator.db_iterator [OF inner]
  let ?V = "user_view M snap"
  have start: "db_at ucmp snap (merged_at ?icmp on) (new_DBIter (NewMergingIterator cs) seed) ?V (length ?V)"
    by (rule internal_iterator.new_DBIter_at [OF inner q ok])
  have "\<exists>d. run_iter ?d moves (new_DBIter (NewMergingIterator cs) seed) = Some d \<and> shows_entry ?d d = entry_at ?V p \<and> it_status ?d d = OK"
    if run: "\<forall>k. GoSeek k \<in> set moves \<longrightarrow> good (MakeInternalKey k snap kValueTypeForSeek)" "run_pos ucmp ?V moves (length ?V) = Some p" for moves p
  proof -
    obtain d where "run_iter ?d moves (new_DBIter (NewMergingIterator cs) seed) = Some d" "db_at ucmp snap (merged_at ?icmp on) d ?V p"
      using sorted_iterator.at_run [OF D start run(2)] run(1) by blast
    then show ?thesis using sorted_iterator.at_shows [OF D] sorted_iterator.at_status [OF D] by blast
  qed
  moreover have "sorted_entries ucmp ?V" by (rule user_comparator.view_sorted [OF ucmp ok])
  moreover have "(k, v) \<in> set ?V \<longleftrightarrow> db_read (\<Union>es\<in>set ess. set es) k snap v" for k v by (simp add: user_view_reads M(2))
  ultimately show ?thesis by blast
qed

text \<open>Two memtables: a key that was written twice and one that was deleted after the snapshot.\<close>

definition sample_mem :: "update list" where "sample_mem = [(3, kTypeValue, [97], [30]), (4, kTypeDeletion, [98], [])]"
definition sample_imm :: "update list" where "sample_imm = [(1, kTypeValue, [97], [10]), (2, kTypeValue, [98], [20])]"

lemma update_kv_parts:
  assumes "s \<le> kMaxSequenceNumber"
  shows "e_user (MakeInternalKey k s t, v) = k" "e_seq (MakeInternalKey k s t, v) = s" "e_type (MakeInternalKey k s t, v) = t"
  using parsed_entry [of "(MakeInternalKey k s t, v)"] ParseInternalKey_Make [OF assms, of k t] by auto

lemma sample_seqs: "(1 :: u64) \<le> kMaxSequenceNumber" "(2 :: u64) \<le> kMaxSequenceNumber" "(3 :: u64) \<le> kMaxSequenceNumber" "(4 :: u64) \<le> kMaxSequenceNumber"
  by (simp_all add: kMaxSequenceNumber_def)

lemma db_read_alt:
  "db_read S k snap v \<longleftrightarrow> (\<exists>e\<in>S. e_user e = k \<and> e_seq e \<le> snap \<and> e_type e = kTypeValue \<and> snd e = v \<and>
     (\<forall>e'\<in>S. e_user e' = k \<and> e_seq e' \<le> snap \<longrightarrow> e_seq e' \<le> e_seq e))"
  by (auto simp: db_read_def visible_def)

lemma sample_reads:
  "db_read (update_kv ` set sample_mem \<union> update_kv ` set sample_imm) k 3 v \<longleftrightarrow> (k, v) = ([97], [30]) \<or> (k, v) = ([98], [20])"
  unfolding db_read_alt
  by (simp add: sample_mem_def sample_imm_def update_kv_def update_kv_parts [OF sample_seqs(1)] update_kv_parts [OF sample_seqs(2)]
      update_kv_parts [OF sample_seqs(3)] update_kv_parts [OF sample_seqs(4)]) (auto simp: word_le_nat_alt)

lemma MakeInternalKey_inject:
  assumes "s \<le> kMaxSequenceNumber" "s' \<le> kMaxSequenceNumber"
  shows "MakeInternalKey k s t = MakeInternalKey k' s' t' \<longleftrightarrow> k = k' \<and> s = s' \<and> t = t'"
proof
  assume "MakeInternalKey k s t = MakeInternalKey k' s' t'"
  then have "Some \<lparr>user_key = k, sequence = s, type = t\<rparr> = Some \<lparr>user_key = k', sequence = s', type = t'\<rparr>"
    using ParseInternalKey_Make [OF assms(1), of k t] ParseInternalKey_Make [OF assms(2), of k' t'] by metis
  then show "k = k' \<and> s = s' \<and> t = t'" by simp
qed simp

lemma distinct_concat_disjoint:
  "distinct (concat xss) \<Longrightarrow> i < j \<Longrightarrow> j < length xss \<Longrightarrow> set (xss ! i) \<inter> set (xss ! j) = {}"
proof (induction xss arbitrary: i j)
  case (Cons xs xss)
  show ?case
  proof (cases i)
    case 0
    then obtain m where m: "j = Suc m" "m < length xss" using Cons.prems by (cases j) auto
    from nth_mem [OF m(2)] have "set (xss ! m) \<subseteq> set (concat xss)" by auto
    then show ?thesis using 0 m Cons.prems(1) by auto
  next
    case (Suc n)
    then show ?thesis using Cons.IH [of n "j - 1"] Cons.prems by (cases j) auto
  qed
qed simp

text \<open>Updates with different keys and sequence numbers are the parts of a database.\<close>

lemma parts_ok_updates:
  assumes "seqs_distinct (concat uss)" "\<forall>u\<in>set (concat uss). update_ok u" "list_all2 (\<lambda>es us. set es = update_kv ` set us) ess uss"
  shows "parts_ok ess"
proof -
  have kv: "u = w" if "u \<in> set (concat uss)" "w \<in> set (concat uss)" "fst (update_kv u) = fst (update_kv w)" for u w
  proof -
    obtain s t k v s' t' k' v' where uw: "u = (s, t, k, v)" "w = (s', t', k', v')" by (cases u; cases w) auto
    have "s \<le> kMaxSequenceNumber" "s' \<le> kMaxSequenceNumber" using that(1,2) assms(2) uw by force+
    then have "(\<lambda>(s, t, k, v). (s, k)) u = (\<lambda>(s, t, k, v). (s, k)) w" using that(3) uw by (simp add: update_kv_def MakeInternalKey_inject)
    moreover have "inj_on (\<lambda>(s, t, k, v). (s, k)) (set (concat uss))" using assms(1) by (simp add: seqs_distinct_def distinct_map)
    ultimately show ?thesis using that(1,2) unfolding inj_on_def by blast
  qed
  have parse: "ParseInternalKey (fst (update_kv u)) \<noteq> None" if "update_ok u" for u
    using that by (cases u) (simp add: update_kv_def ParseInternalKey_Make)
  have len: "length ess = length uss" and ess: "\<And>j. j < length uss \<Longrightarrow> set (ess ! j) = update_kv ` set (uss ! j)"
    using assms(3) by (auto simp: list_all2_conv_all_nth)
  have mem: "u \<in> set (concat uss)" if "j < length uss" "u \<in> set (uss ! j)" for j u using that by auto
  have from': "\<exists>j u. j < length uss \<and> u \<in> set (uss ! j) \<and> e = update_kv u" if e: "es \<in> set ess" "e \<in> set es" for es e
  proof -
    obtain j where j: "j < length uss" "es = ess ! j" using e(1) len by (auto simp: in_set_conv_nth)
    then have "e \<in> update_kv ` set (uss ! j)" using e(2) ess by simp
    then show ?thesis using j by blast
  qed
  have "parsed_keys es" if "es \<in> set ess" for es
  proof -
    have "ParseInternalKey (fst e) \<noteq> None" if e: "e \<in> set es" for e
    proof -
      obtain j u where "j < length uss" "u \<in> set (uss ! j)" "e = update_kv u" using from' [OF \<open>es \<in> set ess\<close> e] by blast
      then show ?thesis using parse mem assms(2) by blast
    qed
    then show ?thesis by (simp add: parsed_keys_def)
  qed
  moreover have "inj_on fst (\<Union>es\<in>set ess. set es)"
  proof (rule inj_onI)
    fix a b assume ab: "a \<in> (\<Union>es\<in>set ess. set es)" "b \<in> (\<Union>es\<in>set ess. set es)" "fst a = fst b"
    obtain j u i w where "j < length uss" "u \<in> set (uss ! j)" "a = update_kv u" "i < length uss" "w \<in> set (uss ! i)" "b = update_kv w"
      using ab(1,2) from' by (metis UN_E)
    then show "a = b" using kv [of u w] mem ab(3) by blast
  qed
  moreover have "set (ess ! i) \<inter> set (ess ! j) = {}" if ij: "i < j" "j < length ess" for i j
  proof -
    have "distinct (concat uss)" using assms(1) by (simp add: seqs_distinct_def distinct_map)
    then have disj: "set (uss ! i) \<inter> set (uss ! j) = {}" using distinct_concat_disjoint [of uss i j] ij len by simp
    show ?thesis
    proof (rule ccontr)
      assume "set (ess ! i) \<inter> set (ess ! j) \<noteq> {}"
      then obtain u w where "u \<in> set (uss ! i)" "w \<in> set (uss ! j)" "update_kv u = update_kv w"
        using ess [of i] ess [of j] ij len by (simp, blast)
      then show False using kv [of u w] mem [of i u] mem [of j w] ij len disj by force
    qed
  qed
  ultimately show ?thesis by (simp add: parts_ok_def)
qed

theorem DBIter_refines_witness:
  "\<exists>m1 m2 d. MemTable_Adds Bytewise_Compare sample_mem new_MemTable = Some m1 \<and> MemTable_Adds Bytewise_Compare sample_imm new_MemTable = Some m2 \<and>
     run_iter (DBIterOps (MergedOps (MemTableOps Bytewise_Compare) (InternalKey_Compare Bytewise_Compare)) Bytewise_Compare 3) [GoFirst, GoNext, GoPrev, GoSeek [98], GoPrev]
       (new_DBIter (NewMergingIterator [MemTable_NewIterator m1, MemTable_NewIterator m2]) 1) = Some d \<and>
     shows_entry (DBIterOps (MergedOps (MemTableOps Bytewise_Compare) (InternalKey_Compare Bytewise_Compare)) Bytewise_Compare 3) d = Some ([97], [30])"
proof -
  note u = bytewise_user.user_comparator_axioms
  have ok: "\<forall>x\<in>set sample_mem. update_ok x" "\<forall>x\<in>set sample_imm. update_ok x" "seqs_distinct sample_mem" "seqs_distinct sample_imm"
    by (simp_all add: sample_mem_def sample_imm_def kMaxSequenceNumber_def seqs_distinct_def)
  obtain m1 es1 p1 where m1: "MemTable_Adds Bytewise_Compare sample_mem new_MemTable = Some m1"
    "mem_at Bytewise_Compare (MemTable_NewIterator m1) es1 p1" "set es1 = update_kv ` set sample_mem"
    using user_comparator.mem_at_new [OF u ok(1,3)] by blast
  obtain m2 es2 p2 where m2: "MemTable_Adds Bytewise_Compare sample_imm new_MemTable = Some m2"
    "mem_at Bytewise_Compare (MemTable_NewIterator m2) es2 p2" "set es2 = update_kv ` set sample_imm"
    using user_comparator.mem_at_new [OF u ok(2,4)] by blast
  have parts: "parts_ok [es1, es2]"
    using m1(3) m2(3) ok by (intro parts_ok_updates [of "[sample_mem, sample_imm]"]) (auto simp: seqs_distinct_def sample_mem_def sample_imm_def)
  have good: "\<forall>k. mem_key_ok k \<longrightarrow> mem_key_ok (MakeInternalKey (ExtractUserKey k) 3 kValueTypeForSeek)"
    by (simp add: mem_key_ok_def ExtractUserKey_def ikey_wf_def)
  have "list_all2 (\<lambda>c es. \<exists>q. mem_at Bytewise_Compare c es q) [MemTable_NewIterator m1, MemTable_NewIterator m2] [es1, es2]" using m1(2) m2(2) by auto
  from DBIter_refines [OF u user_comparator.mem_iterator [OF u] good sample_seqs(3) parts this, of 1]
  obtain V where V: "sorted_entries Bytewise_Compare V" "\<forall>k v. (k, v) \<in> set V \<longleftrightarrow> db_read (\<Union>es\<in>set [es1, es2]. set es) k 3 v"
    and run: "\<forall>moves p. (\<forall>k. GoSeek k \<in> set moves \<longrightarrow> mem_key_ok (MakeInternalKey k 3 kValueTypeForSeek)) \<and> run_pos Bytewise_Compare V moves (length V) = Some p \<longrightarrow>
       (\<exists>d. run_iter (DBIterOps (MergedOps (MemTableOps Bytewise_Compare) (InternalKey_Compare Bytewise_Compare)) Bytewise_Compare 3) moves
          (new_DBIter (NewMergingIterator [MemTable_NewIterator m1, MemTable_NewIterator m2]) 1) = Some d \<and>
          shows_entry (DBIterOps (MergedOps (MemTableOps Bytewise_Compare) (InternalKey_Compare Bytewise_Compare)) Bytewise_Compare 3) d = entry_at V p \<and>
          it_status (DBIterOps (MergedOps (MemTableOps Bytewise_Compare) (InternalKey_Compare Bytewise_Compare)) Bytewise_Compare 3) d = OK)"
    by (elim exE conjE) (rule that; assumption)
  have un: "(\<Union>es\<in>set [es1, es2]. set es) = update_kv ` set sample_mem \<union> update_kv ` set sample_imm" by (simp only: m1(3) [symmetric] m2(3) [symmetric]) simp
  have "x \<in> set V \<longleftrightarrow> x \<in> {([97], [30]), ([98], [20])}" for x
    using V(2) [rule_format, of "fst x" "snd x", unfolded un] sample_reads [of "fst x" "snd x"] by (cases x) simp
  then have "set V = {([97], [30]), ([98], [20])}" by blast
  then have "V = [([97], [30]), ([98], [20])]"
    using V(1) by (intro sorted_wrt_unique [of "\<lambda>a b. Bytewise_Compare (fst a) (fst b) < 0"]) (auto simp: sorted_entries_def)
  then have "run_pos Bytewise_Compare V [GoFirst, GoNext, GoPrev, GoSeek [98], GoPrev] (length V) = Some 0" "entry_at V 0 = Some ([97], [30])"
    by (simp_all add: prior_def lower_def entry_at_def)
  then show ?thesis using run [rule_format, of "[GoFirst, GoNext, GoPrev, GoSeek [98], GoPrev]" 0] m1(1) m2(1) by (auto simp: mem_key_ok_def)
qed

interpretation bytewise_mem: sorted_iterator "InternalKey_Compare Bytewise_Compare" mem_key_ok "MemTableOps Bytewise_Compare" "mem_at Bytewise_Compare"
  by (rule user_comparator.mem_iterator [OF bytewise_user.user_comparator_axioms])

interpretation bytewise_db: internal_iterator Bytewise_Compare mem_key_ok "MergedOps (MemTableOps Bytewise_Compare) (InternalKey_Compare Bytewise_Compare)"
    "merged_at (InternalKey_Compare Bytewise_Compare) (mem_at Bytewise_Compare)" kMaxSequenceNumber
  using bytewise_user.user_comparator_axioms bytewise_mem.merged_iterator
  by (auto simp: internal_iterator_def internal_iterator_axioms_def mem_key_ok_def ikey_wf_def MakeInternalKey_def AppendInternalKey_def ExtractUserKey_def PutFixed64_def)

end
