(* ===== verification/TwoLevel.thy ===== *)
theory TwoLevel
  imports Merger
begin

text \<open>
  table/two_level_iterator.cc: an iterator over blocks of entries that an index iterator names. \<open>block_function_\<close> is a parameter:
  it makes an iterator from an index value and may change its argument \<open>arg_\<close>, a table or a table cache, which is part of
  the state. The theorem: if the index separates the blocks and the iterators of index and blocks are sorted iterators, so is this
  one, over the entries of all blocks; empty blocks are skipped in both directions.
\<close>

record ('x, 'd, 's) TwoLevelIterator =
  tl_index :: 'x
  tl_data :: "'d option"
  tl_data_block_handle :: slice
  tl_status :: status
  tl_arg :: 's

definition new_TwoLevelIterator :: "'x \<Rightarrow> 's \<Rightarrow> ('x, 'd, 's) TwoLevelIterator" where
  "new_TwoLevelIterator index_iter arg = \<lparr>tl_index = index_iter, tl_data = None, tl_data_block_handle = [], tl_status = OK, tl_arg = arg\<rparr>"

definition tl_Valid :: "'d IteratorOps \<Rightarrow> ('x, 'd, 's) TwoLevelIterator \<Rightarrow> bool" where
  "tl_Valid dt t = (case tl_data t of None \<Rightarrow> False | Some d \<Rightarrow> it_Valid dt d)"

definition tl_key :: "'d IteratorOps \<Rightarrow> ('x, 'd, 's) TwoLevelIterator \<Rightarrow> slice" where
  "tl_key dt t = it_key dt (the (tl_data t))"

definition tl_value :: "'d IteratorOps \<Rightarrow> ('x, 'd, 's) TwoLevelIterator \<Rightarrow> slice" where
  "tl_value dt t = it_value dt (the (tl_data t))"

definition tl_get_status :: "'x IteratorOps \<Rightarrow> 'd IteratorOps \<Rightarrow> ('x, 'd, 's) TwoLevelIterator \<Rightarrow> status" where
  "tl_get_status ix dt t =
     (if \<not> ok (it_status ix (tl_index t)) then it_status ix (tl_index t)
      else case tl_data t of None \<Rightarrow> tl_status t
           | Some d \<Rightarrow> if \<not> ok (it_status dt d) then it_status dt d else tl_status t)"

definition SaveError :: "status \<Rightarrow> ('x, 'd, 's) TwoLevelIterator \<Rightarrow> ('x, 'd, 's) TwoLevelIterator" where
  "SaveError s t = (if ok (tl_status t) \<and> \<not> ok s then t\<lparr>tl_status := s\<rparr> else t)"

definition SetDataIterator :: "'d IteratorOps \<Rightarrow> 'd option \<Rightarrow> ('x, 'd, 's) TwoLevelIterator \<Rightarrow> ('x, 'd, 's) TwoLevelIterator" where
  "SetDataIterator dt data_iter t =
     (let t = (case tl_data t of None \<Rightarrow> t | Some d \<Rightarrow> SaveError (it_status dt d) t) in t\<lparr>tl_data := data_iter\<rparr>)"

definition InitDataBlock ::
  "'x IteratorOps \<Rightarrow> 'd IteratorOps \<Rightarrow> (slice \<Rightarrow> 's \<Rightarrow> 'd \<times> 's) \<Rightarrow> ('x, 'd, 's) TwoLevelIterator \<Rightarrow> ('x, 'd, 's) TwoLevelIterator" where
  "InitDataBlock ix dt block_function t =
     (if \<not> it_Valid ix (tl_index t) then SetDataIterator dt None t
      else
        let handle = it_value ix (tl_index t) in
        if tl_data t \<noteq> None \<and> Slice_compare handle (tl_data_block_handle t) = 0 then t
        else
          let (iter, arg) = block_function handle (tl_arg t)
          in SetDataIterator dt (Some iter) (t\<lparr>tl_arg := arg, tl_data_block_handle := handle\<rparr>))"

text \<open>A move of the data iterator, if there is one.\<close>

definition move_data :: "('d \<Rightarrow> 'd option) \<Rightarrow> ('x, 'd, 's) TwoLevelIterator \<Rightarrow> ('x, 'd, 's) TwoLevelIterator option" where
  "move_data f t = (case tl_data t of None \<Rightarrow> Some t | Some d \<Rightarrow> map_option (\<lambda>d. t\<lparr>tl_data := Some d\<rparr>) (f d))"

partial_function (option) SkipEmptyDataBlocksForward ::
  "'x IteratorOps \<Rightarrow> 'd IteratorOps \<Rightarrow> (slice \<Rightarrow> 's \<Rightarrow> 'd \<times> 's) \<Rightarrow> ('x, 'd, 's) TwoLevelIterator \<Rightarrow> ('x, 'd, 's) TwoLevelIterator option" where
  "SkipEmptyDataBlocksForward ix dt block_function t =
     (if \<not> tl_Valid dt t then
        if \<not> it_Valid ix (tl_index t) then Some (SetDataIterator dt None t)
        else do {
          i \<leftarrow> it_Next ix (tl_index t);
          t \<leftarrow> move_data (it_SeekToFirst dt) (InitDataBlock ix dt block_function (t\<lparr>tl_index := i\<rparr>));
          SkipEmptyDataBlocksForward ix dt block_function t }
      else Some t)"

partial_function (option) SkipEmptyDataBlocksBackward ::
  "'x IteratorOps \<Rightarrow> 'd IteratorOps \<Rightarrow> (slice \<Rightarrow> 's \<Rightarrow> 'd \<times> 's) \<Rightarrow> ('x, 'd, 's) TwoLevelIterator \<Rightarrow> ('x, 'd, 's) TwoLevelIterator option" where
  "SkipEmptyDataBlocksBackward ix dt block_function t =
     (if \<not> tl_Valid dt t then
        if \<not> it_Valid ix (tl_index t) then Some (SetDataIterator dt None t)
        else do {
          i \<leftarrow> it_Prev ix (tl_index t);
          t \<leftarrow> move_data (it_SeekToLast dt) (InitDataBlock ix dt block_function (t\<lparr>tl_index := i\<rparr>));
          SkipEmptyDataBlocksBackward ix dt block_function t }
      else Some t)"

definition tl_Seek where
  "tl_Seek ix dt block_function target t = do {
     i \<leftarrow> it_Seek ix target (tl_index t);
     t \<leftarrow> move_data (it_Seek dt target) (InitDataBlock ix dt block_function (t\<lparr>tl_index := i\<rparr>));
     SkipEmptyDataBlocksForward ix dt block_function t }"

definition tl_SeekToFirst where
  "tl_SeekToFirst ix dt block_function t = do {
     i \<leftarrow> it_SeekToFirst ix (tl_index t);
     t \<leftarrow> move_data (it_SeekToFirst dt) (InitDataBlock ix dt block_function (t\<lparr>tl_index := i\<rparr>));
     SkipEmptyDataBlocksForward ix dt block_function t }"

definition tl_SeekToLast where
  "tl_SeekToLast ix dt block_function t = do {
     i \<leftarrow> it_SeekToLast ix (tl_index t);
     t \<leftarrow> move_data (it_SeekToLast dt) (InitDataBlock ix dt block_function (t\<lparr>tl_index := i\<rparr>));
     SkipEmptyDataBlocksBackward ix dt block_function t }"

definition tl_Next where
  "tl_Next ix dt block_function t = do {
     d \<leftarrow> it_Next dt (the (tl_data t));
     SkipEmptyDataBlocksForward ix dt block_function (t\<lparr>tl_data := Some d\<rparr>) }"

definition tl_Prev where
  "tl_Prev ix dt block_function t = do {
     d \<leftarrow> it_Prev dt (the (tl_data t));
     SkipEmptyDataBlocksBackward ix dt block_function (t\<lparr>tl_data := Some d\<rparr>) }"

definition TwoLevelOps ::
  "'x IteratorOps \<Rightarrow> 'd IteratorOps \<Rightarrow> (slice \<Rightarrow> 's \<Rightarrow> 'd \<times> 's) \<Rightarrow> ('x, 'd, 's) TwoLevelIterator IteratorOps" where
  "TwoLevelOps ix dt block_function =
     \<lparr>it_Valid = tl_Valid dt, it_SeekToFirst = tl_SeekToFirst ix dt block_function, it_SeekToLast = tl_SeekToLast ix dt block_function,
      it_Seek = tl_Seek ix dt block_function, it_Next = tl_Next ix dt block_function, it_Prev = tl_Prev ix dt block_function,
      it_key = tl_key dt, it_value = tl_value dt, it_status = tl_get_status ix dt\<rparr>"

subsection \<open>Positions\<close>

text \<open>How many entries the blocks before block \<open>k\<close> have.\<close>

definition block_start :: "(slice \<times> slice) list list \<Rightarrow> nat \<Rightarrow> nat" where
  "block_start ess k = length (concat (take k ess))"

lemma block_start_Suc: "k < length ess \<Longrightarrow> block_start ess (Suc k) = block_start ess k + length (ess ! k)"
  by (simp add: block_start_def take_Suc_conv_app_nth)

lemma block_start_all: "length ess \<le> k \<Longrightarrow> block_start ess k = length (concat ess)"
  by (simp add: block_start_def)

lemma block_start_le: "block_start ess k \<le> length (concat ess)"
  by (metis append_take_drop_id block_start_def concat_append le_add1 length_append)

lemma concat_split: "k < length ess \<Longrightarrow> concat ess = concat (take k ess) @ ess ! k @ concat (drop (Suc k) ess)"
  by (metis append_Cons append_Nil concat.simps(2) concat_append id_take_nth_drop)

lemma concat_member: "e \<in> set (concat ess) \<Longrightarrow> \<exists>k < length ess. e \<in> set (ess ! k)"
  by (induction ess) fastforce+

lemma concat_nth_drop:
  assumes "block_start ess k \<le> j" "j < length (concat ess)"
  shows "concat ess ! j \<in> set (concat (drop k ess))"
proof -
  have c: "concat ess = concat (take k ess) @ concat (drop k ess)" by (metis append_take_drop_id concat_append)
  then have "concat ess ! j = concat (drop k ess) ! (j - block_start ess k)" using assms(1) by (metis block_start_def nth_append not_less)
  moreover have "j - block_start ess k < length (concat (drop k ess))" using assms arg_cong [OF c, of length] by (simp add: block_start_def)
  ultimately show ?thesis by (metis nth_mem)
qed

lemma concat_block: "k < length ess \<Longrightarrow> q < length (ess ! k) \<Longrightarrow> concat ess ! (block_start ess k + q) = ess ! k ! q"
  by (subst concat_split [of k]) (simp_all add: block_start_def nth_append)

text \<open>The index separates the blocks: the key of block \<open>k\<close> is not before its entries and before those of the next blocks.\<close>

definition indexes :: "(slice \<Rightarrow> slice \<Rightarrow> int) \<Rightarrow> (slice \<times> slice) list \<Rightarrow> (slice \<times> slice) list list \<Rightarrow> bool" where
  "indexes cmp idx ess \<longleftrightarrow> length idx = length ess \<and> distinct (map snd idx) \<and>
     (\<forall>k < length ess. \<forall>e\<in>set (ess ! k). cmp (fst e) (fst (idx ! k)) \<le> 0) \<and>
     (\<forall>k l. k < l \<and> l < length ess \<longrightarrow> (\<forall>e\<in>set (ess ! l). cmp (fst (idx ! k)) (fst e) < 0))"

lemma indexes_less:
  assumes "indexes cmp idx ess" "k < l" "l < length ess" "e \<in> set (ess ! l)"
  shows "cmp (fst (idx ! k)) (fst e) < 0"
  using assms unfolding indexes_def by blast

lemma Slice_compare_zero: "Slice_compare a b = 0 \<longleftrightarrow> a = b"
  using bytewise.cmp_zero [of a b] by (simp add: Bytewise_Compare_def)

text \<open>The state while block \<open>k\<close> is the current one, with the data iterator at \<open>q\<close>; without a current block there is no data iterator.\<close>

definition tl_mid ::
  "('x \<Rightarrow> (slice \<times> slice) list \<Rightarrow> nat \<Rightarrow> bool) \<Rightarrow> ('d \<Rightarrow> (slice \<times> slice) list \<Rightarrow> nat \<Rightarrow> bool) \<Rightarrow> ('s \<Rightarrow> bool) \<Rightarrow>
   (slice \<times> slice) list \<Rightarrow> (slice \<times> slice) list list \<Rightarrow> nat \<Rightarrow> nat \<Rightarrow> ('x, 'd, 's) TwoLevelIterator \<Rightarrow> bool" where
  "tl_mid onx ond sinv idx ess k q t \<longleftrightarrow> onx (tl_index t) idx k \<and> sinv (tl_arg t) \<and> tl_status t = OK \<and>
     (if k < length idx then \<exists>d. tl_data t = Some d \<and> tl_data_block_handle t = snd (idx ! k) \<and> ond d (ess ! k) q else tl_data t = None \<and> q = 0)"

definition tl_at ::
  "(slice \<Rightarrow> slice \<Rightarrow> int) \<Rightarrow> ('x \<Rightarrow> (slice \<times> slice) list \<Rightarrow> nat \<Rightarrow> bool) \<Rightarrow> ('d \<Rightarrow> (slice \<times> slice) list \<Rightarrow> nat \<Rightarrow> bool) \<Rightarrow>
   ('s \<Rightarrow> bool) \<Rightarrow> (slice \<Rightarrow> 's \<Rightarrow> 'd \<times> 's) \<Rightarrow> ('x, 'd, 's) TwoLevelIterator \<Rightarrow> (slice \<times> slice) list \<Rightarrow> nat \<Rightarrow> bool" where
  "tl_at cmp onx ond sinv bf t es p \<longleftrightarrow> p \<le> length es \<and> (\<exists>idx ess k q. indexes cmp idx ess \<and> es = concat ess \<and>
     (\<forall>k < length ess. \<forall>s. sinv s \<longrightarrow> (\<exists>d s' q. bf (snd (idx ! k)) s = (d, s') \<and> sinv s' \<and> ond d (ess ! k) q)) \<and>
     (if p < length es then tl_mid onx ond sinv idx ess k q t \<and> q < length (ess ! k) \<and> p = block_start ess k + q \<and> k < length ess
      else onx (tl_index t) idx k \<and> sinv (tl_arg t) \<and> tl_status t = OK \<and> tl_data t = None))"

locale two_level = index: sorted_iterator cmp good ix onx + data: sorted_iterator cmp good dt ond
  for cmp :: "slice \<Rightarrow> slice \<Rightarrow> int" and good and ix :: "'x IteratorOps" and onx and dt :: "'d IteratorOps" and ond +
  fixes bf :: "slice \<Rightarrow> 's \<Rightarrow> 'd \<times> 's" and sinv :: "'s \<Rightarrow> bool"
begin

definition blocks_ok where
  "blocks_ok idx ess \<longleftrightarrow> indexes cmp idx ess \<and>
     (\<forall>k < length ess. \<forall>s. sinv s \<longrightarrow> (\<exists>d s' q. bf (snd (idx ! k)) s = (d, s') \<and> sinv s' \<and> ond d (ess ! k) q))"

text \<open>A data iterator, if there is one, is over the block its handle names.\<close>

definition tl_inv :: "(slice \<times> slice) list \<Rightarrow> (slice \<times> slice) list list \<Rightarrow> ('x, 'd, 's) TwoLevelIterator \<Rightarrow> bool" where
  "tl_inv idx ess t \<longleftrightarrow> sinv (tl_arg t) \<and> tl_status t = OK \<and>
     (\<forall>d. tl_data t = Some d \<longrightarrow> (\<exists>k q. k < length idx \<and> tl_data_block_handle t = snd (idx ! k) \<and> ond d (ess ! k) q))"

lemma SetDataIterator_OK:
  assumes "tl_inv idx ess t"
  shows "SetDataIterator dt d t = t\<lparr>tl_data := d\<rparr>"
  using assms data.at_status by (fastforce simp: SetDataIterator_def SaveError_def tl_inv_def Let_def split: option.splits)

lemma tl_mid_inv: "tl_mid onx ond sinv idx ess k q t \<Longrightarrow> tl_inv idx ess t"
proof -
  assume t: "tl_mid onx ond sinv idx ess k q t"
  have "\<exists>k q. k < length idx \<and> tl_data_block_handle t = snd (idx ! k) \<and> ond d (ess ! k) q" if "tl_data t = Some d" for d
    using t that unfolding tl_mid_def by (cases "k < length idx") auto
  then show ?thesis using t by (simp add: tl_mid_def tl_inv_def)
qed

lemma InitDataBlock_mid:
  assumes b: "blocks_ok idx ess" and t: "tl_inv idx ess t" and i: "onx i idx k"
  shows "\<exists>q. tl_mid onx ond sinv idx ess k q (InitDataBlock ix dt bf (t\<lparr>tl_index := i\<rparr>))"
proof (cases "k < length idx")
  case True
  have v: "it_Valid ix i" "it_value ix i = snd (idx ! k)" using index.at_Valid [OF i] index.at_value [OF i] True by simp_all
  have t': "tl_inv idx ess (t\<lparr>tl_index := i\<rparr>)" using t by (simp add: tl_inv_def)
  have len: "length idx = length ess" "distinct (map snd idx)" using b by (auto simp: blocks_ok_def indexes_def)
  show ?thesis
  proof (cases "tl_data t \<noteq> None \<and> Slice_compare (snd (idx ! k)) (tl_data_block_handle t) = 0")
    case same: True
    then obtain d where d: "tl_data t = Some d" "tl_data_block_handle t = snd (idx ! k)" by (auto simp: Slice_compare_zero)
    then obtain k' q where k': "k' < length idx" "snd (idx ! k) = snd (idx ! k')" "ond d (ess ! k') q" using t by (auto simp: tl_inv_def)
    then have "k' = k" using len(2) True by (metis distinct_conv_nth length_map nth_map)
    then show ?thesis using same d k'(3) v i t True by (auto simp: InitDataBlock_def tl_mid_def tl_inv_def)
  next
    case new: False
    have "k < length ess" "sinv (tl_arg t)" using t True len(1) by (simp_all add: tl_inv_def)
    then obtain d s' q where d: "bf (snd (idx ! k)) (tl_arg t) = (d, s')" "sinv s'" "ond d (ess ! k) q"
      using b unfolding blocks_ok_def by blast
    have "SetDataIterator dt (Some d) (t\<lparr>tl_index := i, tl_arg := s', tl_data_block_handle := snd (idx ! k)\<rparr>) =
        t\<lparr>tl_index := i, tl_arg := s', tl_data_block_handle := snd (idx ! k), tl_data := Some d\<rparr>"
      using t data.at_status by (fastforce simp: SetDataIterator_def SaveError_def tl_inv_def Let_def split: option.splits)
    then show ?thesis using new d v i t True by (auto simp: InitDataBlock_def tl_mid_def tl_inv_def Let_def)
  qed
next
  case False
  have "\<not> it_Valid ix i" using index.at_Valid [OF i] False by simp
  moreover have "tl_inv idx ess (t\<lparr>tl_index := i\<rparr>)" using t by (simp add: tl_inv_def)
  ultimately show ?thesis using False i t by (auto simp: InitDataBlock_def SetDataIterator_OK tl_mid_def tl_inv_def)
qed

text \<open>Moving the data iterator of the current block.\<close>

lemma move_data_mid:
  assumes t: "tl_mid onx ond sinv idx ess k q t" and f: "\<And>d. k < length idx \<Longrightarrow> ond d (ess ! k) q \<Longrightarrow> \<exists>d'. f d = Some d' \<and> ond d' (ess ! k) q'"
  shows "\<exists>t'. move_data f t = Some t' \<and> tl_mid onx ond sinv idx ess k (if k < length idx then q' else 0) t'"
  using assms by (cases "k < length idx") (fastforce simp: tl_mid_def move_data_def)+

lemma move_data_seek:
  assumes t: "tl_mid onx ond sinv idx ess k q t"
  shows "\<exists>t'. move_data (it_SeekToFirst dt) t = Some t' \<and> tl_mid onx ond sinv idx ess k 0 t'"
    "\<exists>t'. move_data (it_SeekToLast dt) t = Some t' \<and> tl_mid onx ond sinv idx ess k (if k < length idx then length (ess ! k) - 1 else 0) t'"
    "good key \<Longrightarrow> \<exists>t'. move_data (it_Seek dt key) t = Some t' \<and> tl_mid onx ond sinv idx ess k (if k < length idx then lower cmp (ess ! k) key else 0) t'"
proof -
  have "\<exists>t'. move_data (it_SeekToFirst dt) t = Some t' \<and> tl_mid onx ond sinv idx ess k (if k < length idx then 0 else 0) t'"
    by (rule move_data_mid [OF t]) (rule data.at_SeekToFirst)
  then show "\<exists>t'. move_data (it_SeekToFirst dt) t = Some t' \<and> tl_mid onx ond sinv idx ess k 0 t'" by simp
  show "\<exists>t'. move_data (it_SeekToLast dt) t = Some t' \<and> tl_mid onx ond sinv idx ess k (if k < length idx then length (ess ! k) - 1 else 0) t'"
    by (rule move_data_mid [OF t]) (rule data.at_SeekToLast)
  show "\<exists>t'. move_data (it_Seek dt key) t = Some t' \<and> tl_mid onx ond sinv idx ess k (if k < length idx then lower cmp (ess ! k) key else 0) t'" if "good key"
    by (rule move_data_mid [OF t]) (rule data.at_Seek [OF _ that])
qed

lemma tl_mid_Valid: "tl_mid onx ond sinv idx ess k q t \<Longrightarrow> tl_Valid dt t \<longleftrightarrow> k < length idx \<and> q < length (ess ! k)"
  using data.at_Valid by (auto simp: tl_mid_def tl_Valid_def split: if_splits)

lemma tl_mid_at:
  assumes "blocks_ok idx ess" "tl_mid onx ond sinv idx ess k q t" "k < length idx" "q < length (ess ! k)"
  shows "tl_at cmp onx ond sinv bf t (concat ess) (block_start ess k + q)"
proof -
  have k: "k < length ess" using assms(1,3) by (simp add: blocks_ok_def indexes_def)
  have "block_start ess k + q < length (concat ess)" using block_start_Suc [OF k] block_start_le [of ess "Suc k"] assms(4) by simp
  then show ?thesis using assms k unfolding tl_at_def blocks_ok_def by auto
qed

lemma tl_end_at:
  assumes "blocks_ok idx ess" "tl_inv idx ess t" "onx (tl_index t) idx k"
  shows "tl_at cmp onx ond sinv bf (SetDataIterator dt None t) (concat ess) (length (concat ess))"
  unfolding tl_at_def SetDataIterator_OK [OF assms(2)] using assms
  by (intro conjI exI [of _ idx] exI [of _ ess] exI [of _ k]) (auto simp: blocks_ok_def tl_inv_def)

lemma skip_forward:
  assumes b: "blocks_ok idx ess" and t: "tl_mid onx ond sinv idx ess k q t" and q: "k < length idx \<longrightarrow> q \<le> length (ess ! k)"
  shows "\<exists>t'. SkipEmptyDataBlocksForward ix dt bf t = Some t' \<and> tl_at cmp onx ond sinv bf t' (concat ess) (block_start ess k + q)"
  using t q
proof (induction "length idx - k" arbitrary: k q t)
  case 0
  have len: "length idx = length ess" using b by (simp add: blocks_ok_def indexes_def)
  have i: "onx (tl_index t) idx k" using 0 by (simp add: tl_mid_def)
  have "\<not> it_Valid ix (tl_index t)" using index.at_Valid [OF i] 0 by simp
  moreover have "\<not> tl_Valid dt t" using tl_mid_Valid [OF 0(2)] 0 by simp
  moreover have "q = 0" "block_start ess k = length (concat ess)" using 0 len block_start_all [of ess k] by (auto simp: tl_mid_def)
  ultimately show ?case using tl_end_at [OF b tl_mid_inv [OF 0(2)] i] by (subst SkipEmptyDataBlocksForward.simps) simp
next
  case (Suc n)
  then have k: "k < length idx" and n: "n = length idx - Suc k" by simp_all
  have len: "length idx = length ess" using b by (simp add: blocks_ok_def indexes_def)
  have i: "onx (tl_index t) idx k" using Suc by (simp add: tl_mid_def)
  show ?case
  proof (cases "q < length (ess ! k)")
    case True
    then show ?thesis using tl_mid_Valid [OF Suc(3)] k tl_mid_at [OF b Suc(3) k True] by (subst SkipEmptyDataBlocksForward.simps) simp
  next
    case False
    obtain j where j: "it_Next ix (tl_index t) = Some j" "onx j idx (Suc k)" using index.at_Next [OF i k] by blast
    obtain q1 where m: "tl_mid onx ond sinv idx ess (Suc k) q1 (InitDataBlock ix dt bf (t\<lparr>tl_index := j\<rparr>))"
      using InitDataBlock_mid [OF b tl_mid_inv [OF Suc(3)] j(2)] by blast
    obtain t1 where t1: "move_data (it_SeekToFirst dt) (InitDataBlock ix dt bf (t\<lparr>tl_index := j\<rparr>)) = Some t1" "tl_mid onx ond sinv idx ess (Suc k) 0 t1"
      using move_data_seek(1) [OF m] by auto
    obtain t2 where t2: "SkipEmptyDataBlocksForward ix dt bf t1 = Some t2" "tl_at cmp onx ond sinv bf t2 (concat ess) (block_start ess (Suc k) + 0)"
      using Suc(1) [OF n t1(2)] by auto
    have "block_start ess (Suc k) = block_start ess k + q" using block_start_Suc [of k ess] k len False Suc(4) by simp
    then show ?thesis using False tl_mid_Valid [OF Suc(3)] index.at_Valid [OF i] k j(1) t1(1) t2
      by (subst SkipEmptyDataBlocksForward.simps) simp
  qed
qed

text \<open>Skipping backwards from a block whose iterator is not valid.\<close>

lemma skip_backward:
  assumes b: "blocks_ok idx ess" and t: "tl_mid onx ond sinv idx ess k q t" and q: "k < length idx" "q = length (ess ! k)"
  shows "\<exists>t'. SkipEmptyDataBlocksBackward ix dt bf t = Some t' \<and> tl_at cmp onx ond sinv bf t' (concat ess) (prior (length (concat ess)) (block_start ess k))"
  using t q
proof (induction k arbitrary: q t)
  case 0
  have i: "onx (tl_index t) idx 0" using 0 by (simp add: tl_mid_def)
  obtain j where j: "it_Prev ix (tl_index t) = Some j" "onx j idx (length idx)" using index.at_Prev [OF i] 0 by (auto simp: prior_def)
  let ?t = "InitDataBlock ix dt bf (t\<lparr>tl_index := j\<rparr>)"
  obtain q1 where m: "tl_mid onx ond sinv idx ess (length idx) q1 ?t" using InitDataBlock_mid [OF b tl_mid_inv [OF 0(1)] j(2)] by blast
  then have d: "tl_data ?t = None" and oi: "onx (tl_index ?t) idx (length idx)" by (simp_all add: tl_mid_def)
  have "SkipEmptyDataBlocksBackward ix dt bf ?t = Some (SetDataIterator dt None ?t)"
    using index.at_Valid [OF oi] d by (subst SkipEmptyDataBlocksBackward.simps) (simp add: tl_Valid_def)
  then show ?case using tl_end_at [OF b tl_mid_inv [OF m] oi] j(1) d index.at_Valid [OF i] 0 tl_mid_Valid [OF 0(1)]
    by (subst SkipEmptyDataBlocksBackward.simps) (simp add: move_data_def block_start_def prior_def)
next
  case (Suc k)
  have i: "onx (tl_index t) idx (Suc k)" using Suc by (simp add: tl_mid_def)
  have len: "length idx = length ess" using b by (simp add: blocks_ok_def indexes_def)
  obtain j where j: "it_Prev ix (tl_index t) = Some j" "onx j idx k" using index.at_Prev [OF i] Suc by (auto simp: prior_def)
  obtain q1 where m: "tl_mid onx ond sinv idx ess k q1 (InitDataBlock ix dt bf (t\<lparr>tl_index := j\<rparr>))"
    using InitDataBlock_mid [OF b tl_mid_inv [OF Suc.prems(1)] j(2)] by blast
  have k: "k < length idx" using Suc by simp
  obtain t1 where t1: "move_data (it_SeekToLast dt) (InitDataBlock ix dt bf (t\<lparr>tl_index := j\<rparr>)) = Some t1"
    "tl_mid onx ond sinv idx ess k (length (ess ! k) - 1) t1"
    using move_data_seek(2) [OF m] k by auto
  have run: "SkipEmptyDataBlocksBackward ix dt bf t = SkipEmptyDataBlocksBackward ix dt bf t1"
    using tl_mid_Valid [OF Suc.prems(1)] Suc.prems index.at_Valid [OF i] j(1) t1(1) by (subst SkipEmptyDataBlocksBackward.simps) simp
  have st: "block_start ess (Suc k) = block_start ess k + length (ess ! k)" using block_start_Suc k len by simp
  show ?case
  proof (cases "ess ! k = []")
    case True
    then show ?thesis using Suc.IH [OF t1(2)] k run st by simp
  next
    case False
    then have "SkipEmptyDataBlocksBackward ix dt bf t1 = Some t1"
      using tl_mid_Valid [OF t1(2)] k by (subst SkipEmptyDataBlocksBackward.simps) simp
    moreover have "prior (length (concat ess)) (block_start ess (Suc k)) = block_start ess k + (length (ess ! k) - 1)" using False st by (cases "ess ! k") (simp_all add: prior_def)
    ultimately show ?thesis using tl_mid_at [OF b t1(2) k] False run by simp
  qed
qed

lemma blocks_good:
  assumes "blocks_ok idx ess" "sinv s" "k < length ess"
  shows "sorted_entries cmp (ess ! k)" "\<forall>e\<in>set (ess ! k). good (fst e)"
proof -
  obtain d q where "ond d (ess ! k) q" using assms unfolding blocks_ok_def by blast
  then show "sorted_entries cmp (ess ! k)" "\<forall>e\<in>set (ess ! k). good (fst e)" using data.at_sorted data.at_good by blast+
qed

lemma blocks_sorted:
  assumes b: "blocks_ok idx ess" "sinv s" and i: "onx i idx p"
  shows "sorted_entries cmp (concat ess)" "\<forall>e\<in>set (concat ess). good (fst e)"
proof -
  show good: "\<forall>e\<in>set (concat ess). good (fst e)"
  proof
    fix e assume "e \<in> set (concat ess)"
    then obtain k where "k < length ess" "e \<in> set (ess ! k)" by (metis concat_member)
    then show "good (fst e)" using blocks_good(2) [OF b] by blast
  qed
  have x: "indexes cmp idx ess" "length idx = length ess" using b(1) by (auto simp: blocks_ok_def indexes_def)
  have lt: "cmp (fst a) (fst c) < 0" if "k < l" "l < length ess" "a \<in> set (ess ! k)" "c \<in> set (ess ! l)" for k l a c
  proof -
    have "cmp (fst a) (fst (idx ! k)) \<le> 0" "cmp (fst (idx ! k)) (fst c) < 0" using x(1) that by (auto simp: indexes_def)
    moreover have "good (fst a)" "good (fst c)" "good (fst (idx ! k))"
      using blocks_good(2) [OF b, of k] blocks_good(2) [OF b, of l] index.at_good [OF i] x(2) that by auto
    ultimately show ?thesis using index.cmp_le_less_trans by blast
  qed
  have "sorted_wrt (\<lambda>a b. cmp (fst a) (fst b) < 0) (concat (take n ess))" if "n \<le> length ess" for n
    using that
  proof (induction n)
    case (Suc n)
    have "cmp (fst a) (fst c) < 0" if ac: "a \<in> set (concat (take n ess))" "c \<in> set (ess ! n)" for a c
    proof -
      obtain k where "k < length (take n ess)" "a \<in> set (take n ess ! k)" using concat_member [OF ac(1)] by blast
      then show ?thesis using lt [of k n a c] ac(2) Suc.prems by simp
    qed
    then show ?case using Suc blocks_good(1) [OF b, of n] by (simp add: take_Suc_conv_app_nth sorted_wrt_append sorted_entries_def)
  qed simp
  from this [of "length ess"] show "sorted_entries cmp (concat ess)" by (simp add: sorted_entries_def)
qed

text \<open>Seeking in the index, then in the block, is seeking in all entries.\<close>

lemma lower_two_level:
  assumes b: "blocks_ok idx ess" "sinv s" and i: "onx i idx p" and g: "good key"
  defines "k \<equiv> lower cmp idx key"
  shows "lower cmp (concat ess) key = block_start ess k + (if k < length idx then lower cmp (ess ! k) key else 0)"
proof (rule lower_eqI)
  have x: "indexes cmp idx ess" "length idx = length ess" using b(1) by (auto simp: blocks_ok_def indexes_def)
  have kl: "k \<le> length ess" using lower_le [of cmp idx key] x(2) by (simp add: k_def)
  have before: "cmp (fst e) key < 0" if l: "l < k" "e \<in> set (ess ! l)" for l e
  proof -
    have "l < length ess" using l(1) kl by simp
    moreover have "cmp (fst e) (fst (idx ! l)) \<le> 0" "cmp (fst (idx ! l)) key < 0" "good (fst e)" "good (fst (idx ! l))"
      using x l calculation lower_before [of l cmp idx key] blocks_good(2) [OF b] index.at_good [OF i] by (auto simp: indexes_def k_def)
    ultimately show ?thesis using index.cmp_le_less_trans g by blast
  qed
  let ?p = "block_start ess k + (if k < length idx then lower cmp (ess ! k) key else 0)"
  show "?p \<le> length (concat ess)"
    using block_start_Suc [of k ess] block_start_le [of ess "Suc k"] block_start_le [of ess k] lower_le [of cmp "ess ! k" key] x(2)
    by (cases "k < length idx") auto
  have pre: "cmp (fst (concat ess ! j)) key < 0" if "j < block_start ess k" for j
  proof -
    have "concat ess ! j \<in> set (concat (take k ess))"
      using that by (metis append_take_drop_id block_start_def concat_append nth_append nth_mem)
    then obtain l where "l < length (take k ess)" "concat ess ! j \<in> set (take k ess ! l)" by (metis concat_member)
    then show ?thesis using before [of l "concat ess ! j"] by simp
  qed
  show "cmp (fst (concat ess ! j)) key < 0" if j: "j < ?p" for j
  proof (cases "j < block_start ess k")
    case False
    then have "k < length idx" "j - block_start ess k < lower cmp (ess ! k) key" using j by (auto split: if_splits)
    then show ?thesis
      using concat_block [of k ess "j - block_start ess k"] lower_before [of _ cmp "ess ! k" key] lower_le [of cmp "ess ! k" key] x(2) False by simp
  qed (rule pre)
  assume p: "?p < length (concat ess)"
  then have k: "k < length idx" using block_start_all [of ess k] x(2) by (cases "k < length idx") auto
  show "\<not> cmp (fst (concat ess ! ?p)) key < 0"
  proof (cases "lower cmp (ess ! k) key < length (ess ! k)")
    case True
    then show ?thesis using concat_block [of k ess] lower_at [OF True] k x(2) by simp
  next
    case False
    then have "?p = block_start ess (Suc k)" using lower_le [of cmp "ess ! k" key] k x(2) block_start_Suc [of k ess] by simp
    then have "concat ess ! ?p \<in> set (concat (drop (Suc k) ess))" using concat_nth_drop [of ess "Suc k" ?p] p by simp
    then obtain l where l: "l < length (drop (Suc k) ess)" "concat ess ! ?p \<in> set (drop (Suc k) ess ! l)"
      by (auto dest!: concat_member simp del: set_concat)
    then have l: "Suc k + l < length ess" "concat ess ! ?p \<in> set (ess ! (Suc k + l))" by simp_all
    then have "cmp (fst (idx ! k)) (fst (concat ess ! ?p)) < 0" 
      using indexes_less [OF x(1), of k "Suc k + l" "concat ess ! ?p"] by (simp del: add_Suc)
    moreover have "cmp key (fst (idx ! k)) \<le> 0"
      using lower_at [of cmp idx key] k index.cmp_not_less [of "fst (idx ! k)" key] index.at_good [OF i] g by (simp add: k_def)
    moreover have "good (fst (concat ess ! ?p))" using blocks_sorted(2) [OF b i] nth_mem [OF p] by blast
    moreover have "good (fst (idx ! k))" using index.at_good [OF i nth_mem [OF k]] .
    ultimately have "cmp key (fst (concat ess ! ?p)) < 0" using index.cmp_le_less_trans g by blast
    then show ?thesis using index.cmp_swap g \<open>good (fst (concat ess ! ?p))\<close> by force
  qed
qed

lemma skip_prior:
  assumes b: "blocks_ok idx ess" and t: "tl_mid onx ond sinv idx ess k (prior (length (ess ! k)) q) t" and k: "k < length idx" "q < length (ess ! k)"
  shows "\<exists>t'. SkipEmptyDataBlocksBackward ix dt bf t = Some t' \<and>
    tl_at cmp onx ond sinv bf t' (concat ess) (prior (length (concat ess)) (block_start ess k + q))"
proof (cases q)
  case 0
  then show ?thesis using skip_backward [OF b t k(1)] by (simp add: prior_def)
next
  case (Suc m)
  then have "tl_mid onx ond sinv idx ess k m t" "m < length (ess ! k)" using t k(2) by (simp_all add: prior_def)
  then show ?thesis using tl_mid_at [OF b _ k(1)] tl_mid_Valid [of idx ess k m t] k(1) Suc
    by (subst SkipEmptyDataBlocksBackward.simps) (simp add: prior_def)
qed

lemma skip_last:
  assumes b: "blocks_ok idx ess"
    and t: "tl_mid onx ond sinv idx ess (length idx - 1) (if length idx - 1 < length idx then length (ess ! (length idx - 1)) - 1 else 0) t"
  shows "\<exists>t'. SkipEmptyDataBlocksBackward ix dt bf t = Some t' \<and> tl_at cmp onx ond sinv bf t' (concat ess) (length (concat ess) - 1)"
proof (cases "idx = []")
  case True
  then have i: "onx (tl_index t) idx 0" and e: "ess = []" using t b by (simp_all add: tl_mid_def blocks_ok_def indexes_def)
  then show ?thesis using tl_end_at [OF b tl_mid_inv [OF t] i] index.at_Valid [OF i] tl_mid_Valid [OF t] True
    by (subst SkipEmptyDataBlocksBackward.simps) simp
next
  case False
  let ?k = "length idx - 1"
  have "length idx = length ess" using b by (simp add: blocks_ok_def indexes_def)
  with False have k: "?k < length idx" "Suc ?k = length ess" by (cases idx; simp)+
  have st: "length (concat ess) = block_start ess ?k + length (ess ! ?k)"
    using block_start_Suc [of ?k ess] block_start_all [of ess "Suc ?k"] k by simp
  have t': "tl_mid onx ond sinv idx ess ?k (length (ess ! ?k) - 1) t" using t k by simp
  show ?thesis
  proof (cases "ess ! ?k = []")
    case True
    then have "block_start ess ?k = length (concat ess)" using st by simp
    then have "prior (length (concat ess)) (block_start ess ?k) = length (concat ess) - 1"
      by (cases "length (concat ess)") (simp_all add: prior_def del: length_concat length_0_conv)
    then show ?thesis using skip_backward [OF b t' k(1)] True by simp
  next
    case False
    then have "length (concat ess) - 1 = block_start ess ?k + (length (ess ! ?k) - 1)" using st by (cases "ess ! ?k") simp_all
    moreover have "length (ess ! ?k) - 1 < length (ess ! ?k)" using False by simp
    ultimately have "tl_at cmp onx ond sinv bf t (concat ess) (length (concat ess) - 1)" using tl_mid_at [OF b t' k(1)] by presburger
    then show ?thesis using tl_mid_Valid [OF t'] k(1) False by (subst SkipEmptyDataBlocksBackward.simps) simp
  qed
qed

lemma tl_at_parts:
  assumes "tl_at cmp onx ond sinv bf t es p"
  obtains idx ess k where "blocks_ok idx ess" "es = concat ess" "tl_inv idx ess t" "onx (tl_index t) idx k" "sinv (tl_arg t)"
proof -
  obtain idx ess k q where x: "indexes cmp idx ess" "es = concat ess"
    "\<forall>k < length ess. \<forall>s. sinv s \<longrightarrow> (\<exists>d s' q. bf (snd (idx ! k)) s = (d, s') \<and> sinv s' \<and> ond d (ess ! k) q)"
    "if p < length es then tl_mid onx ond sinv idx ess k q t \<and> q < length (ess ! k) \<and> p = block_start ess k + q \<and> k < length ess
      else onx (tl_index t) idx k \<and> sinv (tl_arg t) \<and> tl_status t = OK \<and> tl_data t = None"
    using assms unfolding tl_at_def by blast
  have "blocks_ok idx ess" using x(1,3) by (simp add: blocks_ok_def)
  moreover have "tl_inv idx ess t \<and> onx (tl_index t) idx k \<and> sinv (tl_arg t)"
  proof (cases "p < length es")
    case True
    then have m: "tl_mid onx ond sinv idx ess k q t" using x(4) by simp
    show ?thesis using tl_mid_inv [OF m] m unfolding tl_mid_def by blast
  next
    case False
    then show ?thesis using x(4) by (simp add: tl_inv_def)
  qed
  ultimately show thesis using that x(2) by blast
qed

lemma tl_at_valid:
  assumes "tl_at cmp onx ond sinv bf t es p" "p < length es"
  obtains idx ess k q d where "blocks_ok idx ess" "es = concat ess" "tl_mid onx ond sinv idx ess k q t" "q < length (ess ! k)" "p = block_start ess k + q"
    "k < length idx" "k < length ess" "tl_data t = Some d" "ond d (ess ! k) q"
proof -
  obtain idx ess k q where x: "blocks_ok idx ess" "es = concat ess" "tl_mid onx ond sinv idx ess k q t" "q < length (ess ! k)" "p = block_start ess k + q" "k < length ess"
    using assms unfolding tl_at_def blocks_ok_def by auto
  moreover have "k < length idx" using x(1,6) by (simp add: blocks_ok_def indexes_def)
  moreover obtain d where "tl_data t = Some d" "ond d (ess ! k) q" using x(3) calculation(7) by (auto simp: tl_mid_def)
  ultimately show thesis using that by blast
qed

text \<open>A two-level iterator is a sorted iterator over the entries of its blocks.\<close>

lemma two_level_iterator: "sorted_iterator cmp good (TwoLevelOps ix dt bf) (tl_at cmp onx ond sinv bf)"
proof unfold_locales
  fix t es p assume t: "tl_at cmp onx ond sinv bf t es p"
  obtain idx ess k where b: "blocks_ok idx ess" "es = concat ess" "tl_inv idx ess t" "onx (tl_index t) idx k" "sinv (tl_arg t)"
    using tl_at_parts [OF t] .
  have len: "length idx = length ess" using b(1) by (simp add: blocks_ok_def indexes_def)
  show "p \<le> length es" using t by (simp add: tl_at_def)
  show "sorted_entries cmp es" using blocks_sorted(1) [OF b(1,5,4)] b(2) by simp
  show "good (fst e)" if "e \<in> set es" for e using blocks_sorted(2) [OF b(1,5,4)] b(2) that by blast
  show v: "it_Valid (TwoLevelOps ix dt bf) t \<longleftrightarrow> p < length es"
  proof (cases "p < length es")
    case True
    show ?thesis by (rule tl_at_valid [OF t True]) (use True data.at_Valid in \<open>auto simp: TwoLevelOps_def tl_Valid_def\<close>)
  next
    case False
    then show ?thesis using t by (auto simp: TwoLevelOps_def tl_Valid_def tl_at_def)
  qed
  show "it_status (TwoLevelOps ix dt bf) t = OK"
    using b(3) index.at_status [OF b(4)] data.at_status by (auto simp: TwoLevelOps_def tl_get_status_def tl_inv_def split: option.splits)
  show "\<exists>j. it_SeekToFirst (TwoLevelOps ix dt bf) t = Some j \<and> tl_at cmp onx ond sinv bf j es 0"
  proof -
    obtain i where i: "it_SeekToFirst ix (tl_index t) = Some i" "onx i idx 0" using index.at_SeekToFirst [OF b(4)] by blast
    obtain q where "tl_mid onx ond sinv idx ess 0 q (InitDataBlock ix dt bf (t\<lparr>tl_index := i\<rparr>))" using InitDataBlock_mid [OF b(1,3) i(2)] by blast
    from move_data_seek(1) [OF this] obtain t1 where t1: "move_data (it_SeekToFirst dt) (InitDataBlock ix dt bf (t\<lparr>tl_index := i\<rparr>)) = Some t1"
      "tl_mid onx ond sinv idx ess 0 0 t1" by blast
    show ?thesis using skip_forward [OF b(1) t1(2)] i(1) t1(1) b(2) by (simp add: TwoLevelOps_def tl_SeekToFirst_def block_start_def)
  qed
  show "\<exists>j. it_Seek (TwoLevelOps ix dt bf) key t = Some j \<and> tl_at cmp onx ond sinv bf j es (lower cmp es key)" if g: "good key" for key
  proof -
    let ?k = "lower cmp idx key"
    obtain i where i: "it_Seek ix key (tl_index t) = Some i" "onx i idx ?k" using index.at_Seek [OF b(4) g] by blast
    obtain q where "tl_mid onx ond sinv idx ess ?k q (InitDataBlock ix dt bf (t\<lparr>tl_index := i\<rparr>))" using InitDataBlock_mid [OF b(1,3) i(2)] by blast
    from move_data_seek(3) [OF this g] obtain t1 where t1: "move_data (it_Seek dt key) (InitDataBlock ix dt bf (t\<lparr>tl_index := i\<rparr>)) = Some t1"
      "tl_mid onx ond sinv idx ess ?k (if ?k < length idx then lower cmp (ess ! ?k) key else 0) t1" by blast
    show ?thesis using skip_forward [OF b(1) t1(2)] i(1) t1(1) b(2) lower_two_level [OF b(1,5,4) g] lower_le [of cmp "ess ! ?k" key]
      by (simp add: TwoLevelOps_def tl_Seek_def)
  qed
  show "\<exists>j. it_SeekToLast (TwoLevelOps ix dt bf) t = Some j \<and> tl_at cmp onx ond sinv bf j es (length es - 1)"
  proof -
    obtain i where i: "it_SeekToLast ix (tl_index t) = Some i" "onx i idx (length idx - 1)" using index.at_SeekToLast [OF b(4)] by blast
    obtain q where "tl_mid onx ond sinv idx ess (length idx - 1) q (InitDataBlock ix dt bf (t\<lparr>tl_index := i\<rparr>))"
      using InitDataBlock_mid [OF b(1,3) i(2)] by blast
    from move_data_seek(2) [OF this] obtain t1 where t1: "move_data (it_SeekToLast dt) (InitDataBlock ix dt bf (t\<lparr>tl_index := i\<rparr>)) = Some t1"
      "tl_mid onx ond sinv idx ess (length idx - 1) (if length idx - 1 < length idx then length (ess ! (length idx - 1)) - 1 else 0) t1" by blast
    have "\<exists>t'. SkipEmptyDataBlocksBackward ix dt bf t1 = Some t' \<and> tl_at cmp onx ond sinv bf t' es (length es - 1)"
      unfolding b(2) by (rule skip_last [OF b(1) t1(2)])
    then show ?thesis using i(1) t1(1) by (simp add: TwoLevelOps_def tl_SeekToLast_def)
  qed
  assume p: "p < length es"
  obtain idx ess k q d where m: "blocks_ok idx ess" "es = concat ess" "tl_mid onx ond sinv idx ess k q t" "q < length (ess ! k)" "p = block_start ess k + q"
    "k < length idx" "k < length ess" "tl_data t = Some d" "ond d (ess ! k) q" using tl_at_valid [OF t p] .
  show "it_key (TwoLevelOps ix dt bf) t = fst (es ! p)" "it_value (TwoLevelOps ix dt bf) t = snd (es ! p)"
    using m data.at_key [OF m(9,4)] data.at_value [OF m(9,4)] concat_block [OF m(7,4)] by (simp_all add: TwoLevelOps_def tl_key_def tl_value_def)
  show "\<exists>j. it_Next (TwoLevelOps ix dt bf) t = Some j \<and> tl_at cmp onx ond sinv bf j es (Suc p)"
  proof -
    obtain d' where d': "it_Next dt d = Some d'" "ond d' (ess ! k) (Suc q)" using data.at_Next [OF m(9,4)] by blast
    have "tl_mid onx ond sinv idx ess k (Suc q) (t\<lparr>tl_data := Some d'\<rparr>)" using m(3,6) d'(2) by (auto simp: tl_mid_def)
    from skip_forward [OF m(1) this] show ?thesis using m(2,4,5,8) d'(1) by (simp add: TwoLevelOps_def tl_Next_def)
  qed
  show "\<exists>j. it_Prev (TwoLevelOps ix dt bf) t = Some j \<and> tl_at cmp onx ond sinv bf j es (prior (length es) p)"
  proof -
    obtain d' where d': "it_Prev dt d = Some d'" "ond d' (ess ! k) (prior (length (ess ! k)) q)" using data.at_Prev [OF m(9,4)] by blast
    have t': "tl_mid onx ond sinv idx ess k (prior (length (ess ! k)) q) (t\<lparr>tl_data := Some d'\<rparr>)" using m(3,6) d'(2) by (auto simp: tl_mid_def)
    show ?thesis using skip_prior [OF m(1) t' m(6,4)] m(2,5,8) d'(1) by (simp add: TwoLevelOps_def tl_Prev_def)
  qed
qed

end

end
