(* ===== verification/BlockIterator.thy ===== *)
theory BlockIterator
  imports Iterators
begin

text \<open>
  The iterator of table/block.cc as an instance of the iterator contract: \<open>NewIterator\<close> of a block returns an error iterator,
  an empty iterator, or an iterator over the entries, and the latter is a sorted iterator if the block was made by the block builder
  from sorted entries.
\<close>

type_synonym block_iterator = "status + Block \<times> BlockIter"

definition Block_NewIterator :: "Block option \<Rightarrow> block_iterator" where
  "Block_NewIterator block =
     (case block of
        None \<Rightarrow> Inl (NewErrorIterator (Corruption ''bad block contents''))
      | Some bl \<Rightarrow> if num_restarts bl = 0 then Inl NewEmptyIterator else Inr (bl, new_BlockIter bl))"

text \<open>The operations of the iterator that \<open>NewIterator\<close> returned; the calls are dispatched on its class.\<close>

definition block_move :: "(status \<Rightarrow> status option) \<Rightarrow> (Block \<Rightarrow> BlockIter \<Rightarrow> BlockIter option) \<Rightarrow> block_iterator \<Rightarrow> block_iterator option" where
  "block_move e f i = (case i of Inl s \<Rightarrow> map_option Inl (e s) | Inr (bl, it) \<Rightarrow> map_option (\<lambda>it. Inr (bl, it)) (f bl it))"

definition block_read :: "(status \<Rightarrow> 'a) \<Rightarrow> (Block \<Rightarrow> BlockIter \<Rightarrow> 'a) \<Rightarrow> block_iterator \<Rightarrow> 'a" where
  "block_read e f i = (case i of Inl s \<Rightarrow> e s | Inr (bl, it) \<Rightarrow> f bl it)"

definition BlockOps :: "(slice \<Rightarrow> slice \<Rightarrow> int) \<Rightarrow> block_iterator IteratorOps" where
  "BlockOps cmp =
     \<lparr>it_Valid = block_read (it_Valid EmptyIterator) iter_Valid,
      it_SeekToFirst = block_move (it_SeekToFirst EmptyIterator) (\<lambda>bl it. Some (iter_SeekToFirst bl it)),
      it_SeekToLast = block_move (it_SeekToLast EmptyIterator) iter_SeekToLast,
      it_Seek = (\<lambda>target. block_move (it_Seek EmptyIterator target) (\<lambda>bl. iter_Seek cmp bl target)),
      it_Next = block_move (it_Next EmptyIterator) (\<lambda>bl it. Some (iter_Next bl it)),
      it_Prev = block_move (it_Prev EmptyIterator) iter_Prev,
      it_key = block_read (it_key EmptyIterator) (\<lambda>bl. iter_key),
      it_value = block_read (it_value EmptyIterator) iter_value,
      it_status = block_read (it_status EmptyIterator) (\<lambda>bl. iter_status)\<rparr>"

subsection \<open>Restart points and positions\<close>

text \<open>A valid iterator knows a restart point of the block; \<open>Prev\<close> searches down from it.\<close>

lemma advance_restart_less: "i < num_restarts bl \<Longrightarrow> advance_restart bl cur i < num_restarts bl"
proof (induction bl cur i rule: advance_restart.induct)
  case (1 bl cur i)
  then show ?case by (subst advance_restart.simps) simp
qed

lemma ParseNextKey_cases:
  assumes "ParseNextKey bl it = (m, it')" "restart_index it < num_restarts bl"
  shows "if m then restart_index it' < num_restarts bl else \<not> iter_Valid bl it'"
  using assms advance_restart_less
  by (auto simp: ParseNextKey_def Let_def CorruptionError_def iter_Valid_def split: if_splits option.splits)

lemma parse_until_restart:
  "parse_until fuel bl stop it = Some it' \<Longrightarrow> restart_index it < num_restarts bl \<Longrightarrow> iter_Valid bl it' \<Longrightarrow> restart_index it' < num_restarts bl"
proof (induction fuel arbitrary: it)
  case (Suc fuel)
  obtain m it1 where p: "ParseNextKey bl it = (m, it1)" by fastforce
  show ?case using ParseNextKey_cases [OF p Suc.prems(2)] Suc p by (auto split: if_splits)
qed simp

text \<open>The state of an iterator at position \<open>p\<close>.\<close>

definition block_pos :: "nat \<Rightarrow> (slice \<times> slice) list \<Rightarrow> Block \<Rightarrow> nat \<Rightarrow> BlockIter \<Rightarrow> bool" where
  "block_pos r es bl p it \<longleftrightarrow> iter_status it = OK \<and>
     (if p < length es then at_entry r es p it \<and> restart_index it < num_restarts bl else \<not> iter_Valid bl it)"

text \<open>The loops from a restart point stop at the first entry that satisfies their condition.\<close>

lemma parse_from_restart:
  assumes bl: "block_of r es bl" and j: "j < num_restarts bl" and s: "iter_status it = OK"
    and stop: "\<And>i it. at_entry r es i it \<Longrightarrow> stop it = P i"
    and q: "j * r \<le> q" "q \<le> length es" "q < length es \<Longrightarrow> P q" "\<And>k. j * r \<le> k \<Longrightarrow> k < q \<Longrightarrow> \<not> P k"
  shows "\<exists>it'. parse_until (restart_offset bl + 1) bl stop (SeekToRestartPoint bl j it) = Some it' \<and> block_pos r es bl q it'"
proof -
  have fuel: "length es - j * r < restart_offset bl + 1" using entry_pos_ge [of "length es" r es] bl by (simp add: block_of_def)
  have le: "j * r \<le> length es" using q(1,2) by simp
  obtain it' where it': "parse_until (restart_offset bl + 1) bl stop (SeekToRestartPoint bl j it) = Some it'"
    "iter_status it' = iter_status (SeekToRestartPoint bl j it)"
    "(\<exists>i. j * r \<le> i \<and> i < length es \<and> P i \<and> (\<forall>k. j * r \<le> k \<and> k < i \<longrightarrow> \<not> P k) \<and> at_entry r es i it') \<or>
     (\<forall>i. j * r \<le> i \<and> i < length es \<longrightarrow> \<not> P i) \<and> \<not> iter_Valid bl it'"
    using parse_until_first [where stop = stop and P = P, OF bl _ SeekToRestartPoint_ready [OF bl j] le fuel] stop by blast
  have st: "iter_status it' = OK" using it'(2) s by (simp add: SeekToRestartPoint_def)
  from it'(3) have "block_pos r es bl q it'"
  proof
    assume "\<exists>i. j * r \<le> i \<and> i < length es \<and> P i \<and> (\<forall>k. j * r \<le> k \<and> k < i \<longrightarrow> \<not> P k) \<and> at_entry r es i it'"
    then obtain i where i: "j * r \<le> i" "i < length es" "P i" "\<forall>k. j * r \<le> k \<and> k < i \<longrightarrow> \<not> P k" "at_entry r es i it'" by blast
    have "i = q" using i(1-4) q by (metis less_trans linorder_neqE_nat)
    moreover have "restart_index it' < num_restarts bl"
      using parse_until_restart [OF it'(1) _ at_entry_Valid [OF bl i(5)]] j by (simp add: SeekToRestartPoint_def)
    ultimately show ?thesis using i(2,5) st by (simp add: block_pos_def)
  next
    assume "(\<forall>i. j * r \<le> i \<and> i < length es \<longrightarrow> \<not> P i) \<and> \<not> iter_Valid bl it'"
    moreover from this have "\<not> q < length es" using q(1,3) by blast
    ultimately show ?thesis using st by (simp add: block_pos_def)
  qed
  with it'(1) show ?thesis by blast
qed

lemma restart_zero: "block_of r es bl \<Longrightarrow> 0 < num_restarts bl"
  by (simp add: block_of_def restart_count_def)

lemma NextEntryOffset_at:
  assumes "block_of r es bl" "at_entry r es i it"
  shows "NextEntryOffset it = entry_pos r es (Suc i)"
  using at_entry_ready [OF assms] by (simp add: ready_def)

lemma entry_pos_le_iff: "entry_pos r es i \<le> entry_pos r es j \<longleftrightarrow> i \<le> j"
  using entry_pos_mono [of i j r es] entry_pos_less [of j i r es] by (meson not_le)

lemma block_SeekToFirst:
  assumes bl: "block_of r es bl" and s: "iter_status it = OK"
  shows "block_pos r es bl 0 (iter_SeekToFirst bl it)"
proof -
  have rd: "ready r es 0 (SeekToRestartPoint bl 0 it)" using SeekToRestartPoint_ready [OF bl restart_zero [OF bl]] by simp
  obtain m it' where p: "ParseNextKey bl (SeekToRestartPoint bl 0 it) = (m, it')" by fastforce
  have ix: "restart_index (SeekToRestartPoint bl 0 it) < num_restarts bl" using restart_zero [OF bl] by (simp add: SeekToRestartPoint_def)
  show ?thesis
  proof (cases "es = []")
    case True
    then show ?thesis using ParseNextKey_end [OF bl] rd s by (simp add: iter_SeekToFirst_def block_pos_def iter_Valid_def SeekToRestartPoint_def)
  next
    case False
    then show ?thesis using ParseNextKey_entry [OF bl _ rd] ParseNextKey_cases [OF p ix] p s
      by (auto simp: iter_SeekToFirst_def block_pos_def SeekToRestartPoint_def)
  qed
qed

lemma block_Next:
  assumes bl: "block_of r es bl" and p: "block_pos r es bl i it" and i: "i < length es"
  shows "block_pos r es bl (Suc i) (iter_Next bl it)"
proof -
  have a: "at_entry r es i it" "restart_index it < num_restarts bl" "iter_status it = OK" using p i by (simp_all add: block_pos_def)
  note rd = at_entry_ready [OF bl a(1)]
  obtain m it' where q: "ParseNextKey bl it = (m, it')" by fastforce
  show ?thesis
  proof (cases "Suc i < length es")
    case True
    then show ?thesis using ParseNextKey_entry [OF bl True rd] ParseNextKey_cases [OF q a(2)] q a(3) by (auto simp: iter_Next_def block_pos_def)
  next
    case False
    then have "Suc i = length es" using i by simp
    then show ?thesis using ParseNextKey_end [OF bl] rd a(3) by (simp add: iter_Next_def block_pos_def iter_Valid_def)
  qed
qed

lemma block_SeekToLast:
  assumes bl: "block_of r es bl" and s: "iter_status it = OK"
  shows "\<exists>it'. iter_SeekToLast bl it = Some it' \<and> block_pos r es bl (length es - 1) it'"
proof -
  let ?j = "num_restarts bl - 1"
  have j: "?j < num_restarts bl" using restart_zero [OF bl] by simp
  have off: "restart_offset bl = entry_pos r es (length es)" using bl by (simp add: block_of_def)
  have le: "?j * r \<le> length es - 1"
    using restart_index_less [of r "length es" ?j] restart_index_le [of r ?j "length es"] bl j by (cases "es = []") (auto simp: block_of_def)
  show ?thesis unfolding iter_SeekToLast_def
  proof (rule parse_from_restart [OF bl j s, where P = "\<lambda>i. length es \<le> Suc i"])
    show "(\<not> NextEntryOffset it < restart_offset bl) = (length es \<le> Suc i)" if "at_entry r es i it" for i it
      using NextEntryOffset_at [OF bl that] off entry_pos_le_iff [of r es "length es" "Suc i"] by (auto simp: not_less)
  qed (use le in auto)
qed

text \<open>\<open>Prev\<close> finds a restart point before the current entry if there is an entry before it.\<close>

lemma restart_before_less:
  "restart_before bl original i = Some j \<Longrightarrow> j \<le> i \<and> GetRestartPoint bl j < original"
  by (induction i) (auto split: if_splits)

lemma restart_before_None: "restart_before bl original i = None \<Longrightarrow> original \<le> GetRestartPoint bl 0"
  by (induction i) (auto split: if_splits)

lemma block_Prev:
  assumes bl: "block_of r es bl" and p: "block_pos r es bl i it" and i: "i < length es"
  shows "\<exists>it'. iter_Prev bl it = Some it' \<and> block_pos r es bl (prior (length es) i) it'"
proof -
  have a: "at_entry r es i it" "restart_index it < num_restarts bl" "iter_status it = OK" using p i by (simp_all add: block_pos_def)
  have cur: "current it = entry_pos r es i" using a(1) by (simp add: at_entry_def)
  have pt: "GetRestartPoint bl j = entry_pos r es (j * r)" if "j < num_restarts bl" for j using bl that by (simp add: block_of_def)
  show ?thesis
  proof (cases "restart_before bl (current it) (restart_index it)")
    case None
    then have "entry_pos r es i \<le> entry_pos r es 0" using restart_before_None [OF None] pt [OF restart_zero [OF bl]] cur by simp
    then have "i = 0" using entry_pos_le_iff [of r es i 0] by simp
    then show ?thesis using None a(3) by (auto simp: iter_Prev_def block_pos_def prior_def iter_Valid_def)
  next
    case (Some j)
    have j: "j < num_restarts bl" "GetRestartPoint bl j < current it" using restart_before_less [OF Some] a(2) by auto
    then have ji: "j * r < i" using pt [OF j(1)] cur entry_pos_le_iff [of r es i "j * r"] by (simp add: not_le [symmetric])
    have "\<exists>it'. parse_until (restart_offset bl + 1) bl (\<lambda>it. \<not> NextEntryOffset it < entry_pos r es i) (SeekToRestartPoint bl j it) = Some it' \<and>
        block_pos r es bl (i - 1) it'"
    proof (rule parse_from_restart [OF bl j(1) a(3), where P = "\<lambda>k. i \<le> Suc k"])
      show "(\<not> NextEntryOffset it < entry_pos r es i) = (i \<le> Suc k)" if "at_entry r es k it" for k it
        using NextEntryOffset_at [OF bl that] entry_pos_le_iff [of r es i "Suc k"] by (auto simp: not_less)
    qed (use ji i in auto)
    then show ?thesis using Some ji cur by (simp add: iter_Prev_def Let_def prior_def)
  qed
qed

context comparator
begin

lemma block_Seek_pos:
  assumes bl: "block_of r es bl" and srt: "sorted_entries Compare es" and good: "\<forall>e\<in>set es. wf (fst e)" "wf target" and s: "iter_status it = OK"
  shows "\<exists>it'. iter_Seek Compare bl target it = Some it' \<and> block_pos r es bl (lower Compare es target) it'"
proof -
  let ?q = "lower Compare es target"
  obtain l where l: "seek_restarts Compare bl target 0 (num_restarts bl - 1) = Some l" "l < num_restarts bl" "l * r \<le> ?q"
  proof (cases "es = []")
    case True
    then have "num_restarts bl = 1" using bl by (simp add: block_of_def restart_count_def)
    then show thesis using that [of 0] by (simp add: seek_restarts.simps)
  next
    case False
    obtain l where l: "seek_restarts Compare bl target 0 (num_restarts bl - 1) = Some l" "l < num_restarts bl"
      "l = 0 \<or> Compare (fst (es ! (l * r))) target < 0"
      using seek_restarts_correct [OF bl False, of 0 "num_restarts bl - 1" Compare target] restart_zero [OF bl] by force
    have lr: "l * r < length es" using restart_index_less [of r "length es" l] l(2) bl False by (simp add: block_of_def)
    have "l * r \<le> ?q"
    proof (rule ccontr)
      assume n: "\<not> l * r \<le> ?q"
      then have "?q < length es" "Compare (fst (es ! (l * r))) target < 0" using lr l(3) by auto
      then show False using lower_at [of Compare es target] before_restart [OF srt good lr, of ?q] n by simp
    qed
    then show thesis using that l by blast
  qed
  show ?thesis unfolding iter_Seek_def l(1) option.case
  proof (rule parse_from_restart [OF bl l(2) s, where P = "\<lambda>i. Compare (fst (es ! i)) target \<ge> 0"])
    show "\<not> Compare (fst (es ! k)) target \<ge> 0" if "k < ?q" for k using lower_before [OF that] by simp
    show "Compare (fst (es ! ?q)) target \<ge> 0" if "?q < length es" using lower_at [OF that] by simp
  qed (use l(3) lower_le in \<open>auto simp: at_entry_def\<close>)
qed

end

subsection \<open>The contract\<close>

definition block_at :: "(slice \<Rightarrow> slice \<Rightarrow> int) \<Rightarrow> (slice \<Rightarrow> bool) \<Rightarrow> block_iterator \<Rightarrow> (slice \<times> slice) list \<Rightarrow> nat \<Rightarrow> bool" where
  "block_at cmp good i es p \<longleftrightarrow> p \<le> length es \<and> sorted_entries cmp es \<and> (\<forall>e\<in>set es. good (fst e)) \<and>
     (\<exists>r bl it. i = Inr (bl, it) \<and> block_of r es bl \<and> block_pos r es bl p it)"

context comparator
begin

lemma block_iterator: "sorted_iterator Compare wf (BlockOps Compare) (block_at Compare wf)"
proof unfold_locales
  fix i es p assume i: "block_at Compare wf i es p"
  then obtain r bl it where x: "i = Inr (bl, it)" "block_of r es bl" "block_pos r es bl p it" by (auto simp: block_at_def)
  have st: "iter_status it = OK" using x(3) by (simp add: block_pos_def)
  have on: "block_at Compare wf (Inr (bl, it')) es q" if "block_pos r es bl q it'" "q \<le> length es" for q it'
    using i x(2) that by (auto simp: block_at_def)
  show "p \<le> length es" "sorted_entries Compare es" using i by (simp_all add: block_at_def)
  show "wf (fst e)" if "e \<in> set es" for e using i that by (simp add: block_at_def)
  show "it_Valid (BlockOps Compare) i = (p < length es)"
    using x at_entry_Valid [OF x(2)] by (auto simp: BlockOps_def block_read_def block_pos_def split: if_splits)
  show "it_status (BlockOps Compare) i = OK" using x(1) st by (simp add: BlockOps_def block_read_def)
  show "\<exists>j. it_SeekToFirst (BlockOps Compare) i = Some j \<and> block_at Compare wf j es 0"
    using x(1) on [OF block_SeekToFirst [OF x(2) st]] by (simp add: BlockOps_def block_move_def)
  show "\<exists>j. it_SeekToLast (BlockOps Compare) i = Some j \<and> block_at Compare wf j es (length es - 1)"
    using block_SeekToLast [OF x(2) st] x(1) on by (fastforce simp: BlockOps_def block_move_def)
  show "\<exists>j. it_Seek (BlockOps Compare) k i = Some j \<and> block_at Compare wf j es (lower Compare es k)" if "wf k" for k
  proof -
    have "sorted_entries Compare es" "\<forall>e\<in>set es. wf (fst e)" using i by (simp_all add: block_at_def)
    from block_Seek_pos [OF x(2) this that st] show ?thesis using x(1) on [OF _ lower_le] by (fastforce simp: BlockOps_def block_move_def)
  qed
  assume p: "p < length es"
  have a: "at_entry r es p it" using x(3) p by (simp add: block_pos_def)
  show "it_key (BlockOps Compare) i = fst (es ! p)" using x(1) a by (simp add: BlockOps_def block_read_def at_entry_def)
  show "it_value (BlockOps Compare) i = snd (es ! p)" using x(1) at_entry_value [OF x(2) a] by (simp add: BlockOps_def block_read_def)
  show "\<exists>j. it_Next (BlockOps Compare) i = Some j \<and> block_at Compare wf j es (Suc p)"
    using x(1) on [OF block_Next [OF x(2,3) p]] p by (simp add: BlockOps_def block_move_def)
  show "\<exists>j. it_Prev (BlockOps Compare) i = Some j \<and> block_at Compare wf j es (prior (length es) p)"
  proof -
    have "prior (length es) p \<le> length es" using p by (auto simp: prior_def)
    then show ?thesis using block_Prev [OF x(2,3) p] x(1) on by (fastforce simp: BlockOps_def block_move_def)
  qed
qed

lemma block_at_new:
  assumes "block_of r es bl" "sorted_entries Compare es" "\<forall>e\<in>set es. wf (fst e)"
  shows "block_at Compare wf (Block_NewIterator (Some bl)) es (length es)"
  using assms restart_zero [OF assms(1)]
  by (auto simp: block_at_def Block_NewIterator_def block_pos_def new_BlockIter_def iter_Valid_def)

end

interpretation bytewise_block: sorted_iterator Bytewise_Compare "\<lambda>_. True" "BlockOps Bytewise_Compare" "block_at Bytewise_Compare (\<lambda>_. True)"
  by (rule bytewise.block_iterator)

end
