(* ===== verification/TableIterator.thy ===== *)
theory TableIterator
  imports TwoLevel BlockIterator TableUse
begin

text \<open>
  \<open>Table::NewIterator\<close> of table/table.cc: a two-level iterator whose index iterator is that of the index block and whose block function
  is \<open>Table::BlockReader\<close>. The state of the block function is the block cache. The theorem: on a table written by the table builder it is a sorted iterator over
  the entries that were added.
\<close>

definition Table_block_iterator ::
  "ReadEnv \<Rightarrow> bool \<Rightarrow> bool \<Rightarrow> TableRep \<Rightarrow> slice \<Rightarrow> (slice \<rightharpoonup> Block option) option \<Rightarrow> block_iterator \<times> (slice \<rightharpoonup> Block option) option" where
  "Table_block_iterator env verify fill_cache rep index_value cached =
     (let (res, ins) = Table_BlockReader env verify fill_cache cached index_value rep
      in (case res of Inl s \<Rightarrow> Inl (NewErrorIterator s) | Inr block \<Rightarrow> Block_NewIterator block,
          case ins of None \<Rightarrow> cached | Some (key, block) \<Rightarrow> map_option (\<lambda>cache. cache(key \<mapsto> block)) cached))"

type_synonym table_iterator = "(block_iterator, block_iterator, (slice \<rightharpoonup> Block option) option) TwoLevelIterator"

definition TableIteratorOps :: "ReadEnv \<Rightarrow> bool \<Rightarrow> bool \<Rightarrow> TableRep \<Rightarrow> table_iterator IteratorOps" where
  "TableIteratorOps env verify fill_cache rep =
     TwoLevelOps (BlockOps (re_Compare env)) (BlockOps (re_Compare env)) (Table_block_iterator env verify fill_cache rep)"

definition Table_NewIterator :: "TableRep \<Rightarrow> (slice \<rightharpoonup> Block option) option \<Rightarrow> table_iterator" where
  "Table_NewIterator rep cached = new_TwoLevelIterator (Block_NewIterator (rep_index_block rep)) cached"

subsection \<open>The blocks of a table\<close>

lemma data_handle_values_inj:
  assumes "length (table_bytes opts blks fbo) < 2 ^ 48" "i < length blks" "j < length blks"
    "BlockHandle_EncodeTo (data_handle opts blks i) [] = BlockHandle_EncodeTo (data_handle opts blks j) []"
  shows "i = j"
proof -
  have "data_handle opts blks i = data_handle opts blks j"
    using assms(4) by (metis BlockHandle_roundtrip(2) Pair_inject sum.inject(2))
  then show ?thesis using data_handle_inj [OF assms(1-3)] by simp
qed

lemma block_iterator_coherent:
  assumes tf: "table_file ucmp usep usucc bits name rf opts env blks fb" and i: "i < length blks"
    and co: "cache_coherent opts blks (rep_cache_id rep) cached"
  shows "\<exists>cached'. Table_block_iterator env verify fill rep (BlockHandle_EncodeTo (data_handle opts blks i) []) cached =
      (Block_NewIterator (new_Block (build_block (opt_block_restart_interval opts) (blks ! i))), cached') \<and>
    cache_coherent opts blks (rep_cache_id rep) cached'"
proof -
  let ?v = "BlockHandle_EncodeTo (data_handle opts blks i) []"
  obtain ins where r: "Table_BlockReader env verify fill cached ?v rep = (Inr (new_Block (build_block (opt_block_restart_interval opts) (blks ! i))), ins)"
    using BlockReader_ok [OF tf i co] by blast
  have "cache_coherent opts blks (rep_cache_id rep) (case ins of None \<Rightarrow> cached | Some (key, block) \<Rightarrow> map_option (\<lambda>cache. cache(key \<mapsto> block)) cached)"
  proof (cases ins)
    case (Some kb)
    obtain key b where kb: "kb = (key, b)" by fastforce
    note ins = BlockReader_insert [OF tf i r [unfolded Some kb]]
    show ?thesis
    proof (cases cached)
      case None
      then show ?thesis by (simp add: Some kb coherent_none)
    next
      case c: (Some cache)
      show ?thesis using coherent_insert [OF tf i, of "rep_cache_id rep" cache] co ins c by (simp add: Some kb)
    qed
  qed (use co in simp)
  then show ?thesis by (simp add: Table_block_iterator_def r)
qed

text \<open>An iterator of a table with the given blocks, whose cached blocks are those of the table.\<close>

definition table_at ::
  "(slice \<Rightarrow> slice \<Rightarrow> int) \<Rightarrow> ReadEnv \<Rightarrow> bool \<Rightarrow> bool \<Rightarrow> 'f TableOptions \<Rightarrow> (slice \<times> slice) list list \<Rightarrow> TableRep \<Rightarrow> table_iterator \<Rightarrow> (slice \<times> slice) list \<Rightarrow> nat \<Rightarrow> bool" where
  "table_at ucmp env verify fill opts blks rep =
     tl_at (InternalKey_Compare ucmp) (block_at (InternalKey_Compare ucmp) ikey_wf) (block_at (InternalKey_Compare ucmp) ikey_wf)
       (cache_coherent opts blks (rep_cache_id rep)) (Table_block_iterator env verify fill rep)"

context user_shortening
begin

lemma index_entry:
  assumes "writes_for ucmp usep usucc_from bits name opts" "i < length blks"
  shows "index_entries opts (index_keys opts blks) blks ! i = (ikeys blks ! i, BlockHandle_EncodeTo (data_handle opts blks i) [])"
  using index_entries_nth [OF assms(2), of opts] index_keys_eq [OF assms(1)] by simp

lemma index_separates:
  assumes tf: "table_file ucmp usep usucc_from bits name rf opts env blks fb"
  shows "indexes icmp (index_entries opts (index_keys opts blks) blks) blks"
proof -
  let ?idx = "index_entries opts (index_keys opts blks) blks"
  have d: "data_blocks ucmp blks" and w: "writes_for ucmp usep usucc_from bits name opts" and sz: "length (table_bytes opts blks (Some fb)) < 2 ^ 48"
    using tf by (simp_all add: table_file_def sized_blocks_def)
  note nth = index_entry [OF w]
  have "distinct (map snd ?idx)"
    unfolding distinct_conv_nth using data_handle_values_inj [OF sz] nth by auto
  moreover have "icmp (fst e) (fst (?idx ! k)) \<le> 0" if k: "k < length blks" "e \<in> set (blks ! k)" for k e
  proof -
    have "icmp (fst e) (ikeys blks ! k) \<le> 0"
      using internal.cmp_le_trans [OF block_keys(2) [OF d k] block_keys(2) [OF d k(1) last_in_set [OF block_keys(1) [OF d k(1)]]]
          ikeys_bounds(1) [OF d k(1)] block_keys(3) [OF d k] ikeys_bounds(2) [OF d k(1)]] .
    then show ?thesis using nth [OF k(1)] by simp
  qed
  moreover have "icmp (fst (?idx ! k)) (fst e) < 0" if l: "k < l" "l < length blks" and e: "e \<in> set (blks ! l)" for k l e
  proof -
    have k: "k < length blks" "Suc k < length blks" using l by simp_all
    have h: "hd (blks ! Suc k) \<in> set (blks ! Suc k)" using block_keys(1) [OF d k(2)] by simp
    have "icmp (fst (hd (blks ! Suc k))) (fst e) \<le> 0"
    proof (cases "Suc k = l")
      case True
      then show ?thesis using block_keys(4) [OF d l(2) e] by simp
    next
      case False
      then show ?thesis using blocks_ordered [OF d _ l(2) h e] l(1) by simp
    qed
    then have "icmp (ikeys blks ! k) (fst e) < 0"
      using internal.cmp_less_le_trans [OF ikeys_bounds(1) [OF d k(1)] block_keys(2) [OF d k(2) h] block_keys(2) [OF d l(2) e] ikeys_bounds(3) [OF d k]] by blast
    then show ?thesis using nth [OF k(1)] by simp
  qed
  ultimately show ?thesis unfolding indexes_def by fastforce
qed

lemma table_iterator:
  "re_Compare env = icmp \<Longrightarrow> sorted_iterator icmp ikey_wf (TableIteratorOps env verify fill rep) (table_at ucmp env verify fill opts blks rep)"
  unfolding TableIteratorOps_def table_at_def
  using two_level.two_level_iterator [OF two_level.intro [OF internal.block_iterator internal.block_iterator]] by simp

text \<open>A new iterator of an open table is an iterator over its entries.\<close>

lemma table_at_new:
  assumes tf: "table_file ucmp usep usucc_from bits name rf opts env blks fb" and rep: "rep_ok bits rf opts blks fb gs rep"
    and co: "cache_coherent opts blks (rep_cache_id rep) cached"
  shows "table_at ucmp env verify fill opts blks rep (Table_NewIterator rep cached) (concat blks) (length (concat blks))"
proof -
  let ?idx = "index_entries opts (index_keys opts blks) blks" and ?r = "opt_block_restart_interval opts"
  have d: "data_blocks ucmp blks" and w: "writes_for ucmp usep usucc_from bits name opts" using tf by (simp_all add: table_file_def)
  obtain ibl where ibl: "rep_index_block rep = Some ibl" "block_of 1 ?idx ibl" using rep by (auto simp: rep_ok_def)
  have "sorted_entries icmp ?idx"
    unfolding sorted_entries_def sorted_wrt_iff_nth_less using index_entry [OF w] ikeys_sorted [OF d] by simp
  moreover have "\<forall>e\<in>set ?idx. ikey_wf (fst e)"
    unfolding all_set_conv_all_nth using index_entry [OF w] ikeys_bounds(1) [OF d] by simp
  ultimately have idx: "block_at icmp ikey_wf (Block_NewIterator (rep_index_block rep)) ?idx (length ?idx)"
    using internal.block_at_new [OF ibl(2)] ibl(1) by simp
  have b: "\<exists>i c q. Table_block_iterator env verify fill rep (snd (?idx ! k)) s = (i, c) \<and> cache_coherent opts blks (rep_cache_id rep) c \<and>
      block_at icmp ikey_wf i (blks ! k) q"
    if k: "k < length blks" and s: "cache_coherent opts blks (rep_cache_id rep) s" for k s
  proof -
    have "length (build_block ?r (blks ! k)) < 2 ^ 32" using tf k by (simp add: table_file_def sized_blocks_def)
    from build_block_of [OF writes_forD(1) [OF w] this] obtain bl where bl: "new_Block (build_block ?r (blks ! k)) = Some bl" "block_of ?r (blks ! k) bl" by blast
    have "block_at icmp ikey_wf (Block_NewIterator (Some bl)) (blks ! k) (length (blks ! k))"
      using internal.block_at_new [OF bl(2) block_keys(5) [OF d k]] block_keys(2) [OF d k] by blast
    then show ?thesis using block_iterator_coherent [OF tf k s, of verify fill] index_entries_nth [OF k, of opts] bl(1) by auto
  qed
  have "\<forall>k<length blks. \<forall>s. cache_coherent opts blks (rep_cache_id rep) s \<longrightarrow> (\<exists>i c q. Table_block_iterator env verify fill rep (snd (?idx ! k)) s = (i, c) \<and>
      cache_coherent opts blks (rep_cache_id rep) c \<and> block_at icmp ikey_wf i (blks ! k) q)"
    using b by blast
  with idx co index_separates [OF tf] show ?thesis
    unfolding table_at_def tl_at_def Table_NewIterator_def new_TwoLevelIterator_def
    by (intro conjI exI [of _ ?idx] exI [of _ blks] exI [of _ "length ?idx"]) simp_all
qed

lemma table_use_scan:
  assumes "table_use env rep0 rep cache" "table_file ucmp usep usucc_from bits name rf opts env blks fb"
    "groups_of bits opts blks fb gs" "rep_ok bits rf opts blks fb gs rep0"
    "run_pos icmp (concat blks) ms (length (concat blks)) = Some q" "\<forall>k. GoSeek k \<in> set ms \<longrightarrow> ikey_wf k"
  shows "\<exists>t. run_iter (TableIteratorOps env verify fill rep) ms (Table_NewIterator rep (if cc then Some cache else None)) = Some t \<and>
    shows_entry (TableIteratorOps env verify fill rep) t = entry_at (concat blks) q \<and> it_status (TableIteratorOps env verify fill rep) t = OK"
proof -
  have "use_inv bits rf opts blks fb gs (rep_cache_id rep0) rep cache" by (rule table_use_inv [OF assms(1-4) refl])
  then have "rep_ok bits rf opts blks fb gs rep" "cache_coherent opts blks (rep_cache_id rep) (if cc then Some cache else None)"
    by (simp_all add: use_inv_def coherent_none)
  note at = table_at_new [OF assms(2) this]
  have "re_Compare env = icmp" using assms(2) by (simp add: table_file_def reads_for_def)
  note it = table_iterator [OF this, of verify fill rep opts blks]
  show ?thesis
    using sorted_iterator.at_run [OF it at assms(5)] assms(6) sorted_iterator.at_shows [OF it] sorted_iterator.at_status [OF it] by blast
qed

end

interpretation bytewise_table: two_level BytewiseInternal_Compare ikey_wf "BlockOps BytewiseInternal_Compare" "block_at BytewiseInternal_Compare ikey_wf"
    "BlockOps BytewiseInternal_Compare" "block_at BytewiseInternal_Compare ikey_wf" "Table_block_iterator env verify fill rep"
    "cache_coherent opts blks (rep_cache_id rep)"
  for env verify fill rep opts blks
  by (rule two_level.intro; rule comparator.block_iterator [OF bytewise_user.internal.comparator_axioms])

text \<open>
  C5. A table can be scanned. Entries with strictly increasing internal keys are added to a table builder; the file, if it is shorter than
  4 GB, is opened. Then, after any use of the table and of the shared block cache, a new iterator of the table behaves as an iterator over
  the list of the entries: every sequence of calls of \<open>SeekToFirst\<close>, \<open>SeekToLast\<close>, \<open>Seek\<close>, and, on a valid iterator, \<open>Next\<close> and \<open>Prev\<close>, returns,
  leaves status OK, and leaves the iterator at the entry where the same moves lead on the list.
\<close>

theorem table_build_open_scan:
  assumes rel: "reliable_file (opt_Append opts) (opt_Flush opts) finv fcontents" "finv f" "fcontents f = []"
    and w: "writes_for Bytewise_Compare Bytewise_FindShortestSeparator Bytewise_FindShortSuccessorBeginWith bits name opts"
    and es: "es \<noteq> []" "sorted_entries BytewiseInternal_Compare es" "\<forall>e\<in>set es. ikey_wf (fst e)"
    and r: "TableBuilder_build opts es f = Some r" and small: "length (fcontents (tb_file r)) < 2 ^ 32"
    and env: "reads_for Bytewise_Compare bits name rf opts (fcontents (tb_file r)) env"
    and n: "n = 0 \<or> n \<le> length bits \<and> fd = Some (md_filter_data (tb_meta_data r))"
  shows "\<exists>rep0. Table_Open env cid (unat (TableBuilder_FileSize r)) n fd = Some (Inr rep0) \<and>
    (\<forall>rep cache verify fill cc ms q. table_use env rep0 rep cache \<and> (\<forall>k. GoSeek k \<in> set ms \<longrightarrow> ikey_wf k) \<and>
        run_pos BytewiseInternal_Compare es ms (length es) = Some q \<longrightarrow>
      (\<exists>t. run_iter (TableIteratorOps env verify fill rep) ms (Table_NewIterator rep (if cc then Some cache else None)) = Some t \<and>
        shows_entry (TableIteratorOps env verify fill rep) t = entry_at es q \<and> it_status (TableIteratorOps env verify fill rep) t = OK))"
proof -
  obtain blks fb gs rep0 where b: "concat blks = es" 
    "table_file Bytewise_Compare Bytewise_FindShortestSeparator Bytewise_FindShortSuccessorBeginWith bits name rf opts env blks fb"
    "groups_of bits opts blks fb gs" "Table_Open env cid (unat (TableBuilder_FileSize r)) n fd = Some (Inr rep0)" "rep_ok bits rf opts blks fb gs rep0"
    using built_table_opens [OF assms] by blast
  then show ?thesis using bytewise_user.table_use_scan [OF _ b(2,3,5)] by blast
qed

theorem table_build_open_scan_witness:
  "\<exists>r rep0 t. TableBuilder_build small_table [small_entry] new_FileState = Some r \<and>
    Table_Open (small_env (file_contents (tb_file r))) 5 (unat (TableBuilder_FileSize r)) 0 None = Some (Inr rep0) \<and>
    run_iter (TableIteratorOps (small_env (file_contents (tb_file r))) True True rep0) [GoLast, GoPrev, GoFirst] (Table_NewIterator rep0 (Some (\<lambda>_. None))) = Some t \<and>
    shows_entry (TableIteratorOps (small_env (file_contents (tb_file r))) True True rep0) t = Some small_entry"
proof -
  obtain r where r: "TableBuilder_build small_table [small_entry] new_FileState = Some r" "length (file_contents (tb_file r)) < 2 ^ 32"
    using small_build by blast
  let ?env = "small_env (file_contents (tb_file r))"
  have rel: "reliable_file (opt_Append small_table) (opt_Flush small_table) file_inv file_contents"
    using memfile.reliable_file_axioms by (simp add: mem_table_options_def)
  have f: "file_inv new_FileState" "file_contents new_FileState = []" by (simp_all add: file_inv_def file_contents_def new_FileState_def)
  have srt: "sorted_entries BytewiseInternal_Compare [small_entry]" by (simp add: sorted_entries_def)
  obtain rep0 where rep0: "Table_Open ?env 5 (unat (TableBuilder_FileSize r)) 0 None = Some (Inr rep0)"
    "\<forall>rep cache verify fill cc ms q. table_use ?env rep0 rep cache \<and> (\<forall>k. GoSeek k \<in> set ms \<longrightarrow> ikey_wf k) \<and>
        run_pos BytewiseInternal_Compare [small_entry] ms (length [small_entry]) = Some q \<longrightarrow>
      (\<exists>t. run_iter (TableIteratorOps ?env verify fill rep) ms (Table_NewIterator rep (if cc then Some cache else None)) = Some t \<and>
        shows_entry (TableIteratorOps ?env verify fill rep) t = entry_at [small_entry] q \<and> it_status (TableIteratorOps ?env verify fill rep) t = OK)"
    using table_build_open_scan [OF rel f small_writes _ srt _ r small_reads, of 0 None 5] by auto
  have u: "table_use ?env rep0 rep0 (\<lambda>_. None)" by (rule table_use.opened) simp
  have "\<exists>t. run_iter (TableIteratorOps ?env True True rep0) [GoLast, GoPrev, GoFirst] (Table_NewIterator rep0 (if True then Some (\<lambda>_. None) else None)) = Some t \<and>
      shows_entry (TableIteratorOps ?env True True rep0) t = entry_at [small_entry] 0 \<and> it_status (TableIteratorOps ?env True True rep0) t = OK"
    by (rule rep0(2) [rule_format]) (use u in simp)
  then show ?thesis using r(1) rep0(1) by (auto simp: entry_at_def)
qed

end
