(* ===== verification/Spec2Isabelle.thy ===== *)
theory Spec2Isabelle
  imports DbFormat FilterPipeline ParallelFilter BlockReader LRUCache MultiQueueTables WriteBatch LogRoundtrip VersionOverlap TableUse
    ManifestRecovery CompactionDrop WriteQueue DbIterUse TableIterator
begin

text \<open>
  A verification library for LSM-EBF, a LevelDB derivative with elastic Bloom filters.
\<close>

end
